(* ===== verification/Prelude.thy ===== *)
theory Prelude
  imports Main "HOL-Library.Word" "HOL-Library.Monad_Syntax" "HOL-Library.Code_Target_Numeral"
begin

text \<open>
  Shared vocabulary of the development: machine types, the kernel's \<open>ASSERT\<close> and page-size
  macros, and the lemmas on options, lists and powers of two that several components use.

  A C function that can stop the kernel (\<open>panic\<close>, a failed \<open>ASSERT\<close>, a null dereference or another
  undefined operation, or a loop that never leaves) is modelled as a function into \<open>'a option\<close>, where
  \<open>None\<close> stands for "does not return normally".  An error \<^emph>\<open>return code\<close> is never \<open>None\<close>: it is
  an ordinary value inside \<open>Some\<close>.  The do-notation of \<open>Monad_Syntax\<close> sequences such calls in the
  order of the C statements.
\<close>

named_theorems kdefs \<open>unfolding of modelled operations\<close>
named_theorems inv_intros \<open>preservation of component invariants\<close>

type_synonym uint = "32 word"
type_synonym uint64 = "64 word"
type_synonym byte = "8 word"

subsection \<open>The \<open>ASSERT\<close> macro\<close>

definition ASSERT :: "bool \<Rightarrow> unit option" where
  "ASSERT b = (if b then Some () else None)"

lemma ASSERT_simps [simp]:
  "ASSERT True = Some ()" "ASSERT False = None"
  by (simp_all add: ASSERT_def)

lemma ASSERT_bind_eq_Some [simp]:
  "Option.bind (ASSERT b) f = Some r \<longleftrightarrow> b \<and> f () = Some r"
  by (simp add: ASSERT_def)

lemma ASSERT_eq_Some [simp]: "ASSERT b = Some u \<longleftrightarrow> b"
  by (simp add: ASSERT_def)

subsection \<open>Page arithmetic\<close>

definition PGSIZE :: nat where
  "PGSIZE = 4096"

lemma PGSIZE_pos [simp]: "0 < PGSIZE"
  by (simp add: PGSIZE_def)

lemma PGSIZE_pow2: "PGSIZE = 2 ^ 12"
  by (simp add: PGSIZE_def)

subsection \<open>Lists\<close>

lemma split_list_distinct:
  assumes "x \<in> set xs" and "distinct xs"
  obtains as bs where "xs = as @ x # bs" and "x \<notin> set as" and "x \<notin> set bs"
proof -
  obtain as bs where "xs = as @ x # bs"
    using assms(1) by (meson split_list)
  then show thesis
    using assms(2) by (intro that) auto
qed

lemma remove1_split [simp]: "x \<notin> set as \<Longrightarrow> remove1 x (as @ x # bs) = as @ bs"
  by (simp add: remove1_append)

lemma length_remove1_mem: "x \<in> set xs \<Longrightarrow> Suc (length (remove1 x xs)) = length xs"
  by (metis One_nat_def Suc_pred length_pos_if_in_set length_remove1)

lemma sum_list_update_nat:
  "k < length xs \<Longrightarrow> sum_list (xs[k := x]) + xs ! k = sum_list xs + (x :: nat)"
proof -
  assume k: "k < length xs"
  have "xs ! k \<le> sum_list xs"
    using k by (intro member_le_sum_list) auto
  then show ?thesis
    using k by (simp add: sum_list_update)
qed

subsection \<open>Aligned power-of-two blocks\<close>

text \<open>\<open>blk s k\<close> is the set of indices of the block of order \<open>k\<close> that starts at \<open>s\<close>.\<close>

definition blk :: "nat \<Rightarrow> nat \<Rightarrow> nat set" where
  "blk s k = {s ..< s + 2 ^ k}"

lemma finite_blk [simp]: "finite (blk s k)"
  by (simp add: blk_def)

lemma card_blk [simp]: "card (blk s k) = 2 ^ k"
  by (simp add: blk_def)

lemma start_in_blk [simp]: "s \<in> blk s k"
  by (simp add: blk_def)

lemma blk_Suc: "blk s (Suc k) = blk s k \<union> blk (s + 2 ^ k) k"
  by (auto simp: blk_def)

lemma blk_Suc_disjoint: "blk s k \<inter> blk (s + 2 ^ k) k = {}"
  by (auto simp: blk_def)

lemma in_blk_iff_div:
  assumes "2 ^ k dvd s"
  shows "x \<in> blk s k \<longleftrightarrow> x div 2 ^ k = s div 2 ^ k"
proof -
  obtain q where s: "s = 2 ^ k * q"
    using assms by (elim dvdE)
  have "x div 2 ^ k = q \<longleftrightarrow> 2 ^ k * q \<le> x \<and> x < 2 ^ k * q + 2 ^ k"
  proof
    assume "x div 2 ^ k = q"
    then show "2 ^ k * q \<le> x \<and> x < 2 ^ k * q + 2 ^ k"
      using dividend_less_times_div [of "2 ^ k" x] times_div_less_eq_dividend [of "2 ^ k" x]
      by simp
  next
    assume "2 ^ k * q \<le> x \<and> x < 2 ^ k * q + 2 ^ k"
    then show "x div 2 ^ k = q"
      by (intro div_nat_eqI) (simp_all add: mult.commute)
  qed
  then show ?thesis
    by (simp add: blk_def s)
qed

end
