(* ===== verification/ListHead.thy ===== *)
theory ListHead
  imports Prelude
begin

text \<open>
  The intrusive circular doubly linked list of \<open>include/lib/list.h\<close>, modelled on an explicit heap
  of \<open>struct list_head\<close> objects.  Addresses are of an arbitrary type \<open>'a\<close>; a C pointer is \<open>'a option\<close>
  with \<open>None\<close> for \<open>NULL\<close>; an access through a null or unmapped pointer yields \<open>None\<close>.

  The representation predicate \<open>dll h head xs\<close> says that the nodes reached from \<open>head\<close> are exactly
  \<open>xs\<close>, linked consistently in both directions.  Each operation is shown to refine the operation on
  HOL lists that the other components use for \<open>struct list_head\<close>, and to leave the rest of the
  heap untouched.
\<close>

record 'a list_head =
  lnext :: "'a option"
  lprev :: "'a option"

type_synonym 'a lheap = "'a \<rightharpoonup> 'a list_head"

definition deref :: "'a lheap \<Rightarrow> 'a option \<Rightarrow> 'a list_head option" where
  "deref h p = (case p of None \<Rightarrow> None | Some a \<Rightarrow> h a)"

definition get_next :: "'a lheap \<Rightarrow> 'a option \<Rightarrow> 'a option option" where
  "get_next h p = map_option lnext (deref h p)"

definition get_prev :: "'a lheap \<Rightarrow> 'a option \<Rightarrow> 'a option option" where
  "get_prev h p = map_option lprev (deref h p)"

definition set_next :: "'a lheap \<Rightarrow> 'a option \<Rightarrow> 'a option \<Rightarrow> 'a lheap option" where
  "set_next h p v = (case p of None \<Rightarrow> None | Some a \<Rightarrow>
     (case h a of None \<Rightarrow> None | Some n \<Rightarrow> Some (h(a \<mapsto> n\<lparr>lnext := v\<rparr>))))"

definition set_prev :: "'a lheap \<Rightarrow> 'a option \<Rightarrow> 'a option \<Rightarrow> 'a lheap option" where
  "set_prev h p v = (case p of None \<Rightarrow> None | Some a \<Rightarrow>
     (case h a of None \<Rightarrow> None | Some n \<Rightarrow> Some (h(a \<mapsto> n\<lparr>lprev := v\<rparr>))))"

subsection \<open>The operations of \<open>list.h\<close>\<close>

definition INIT_LIST_HEAD :: "'a lheap \<Rightarrow> 'a option \<Rightarrow> 'a lheap option" where
  "INIT_LIST_HEAD h list = do {
     h \<leftarrow> set_next h list list;
     set_prev h list list }"

definition list_add_between :: "'a lheap \<Rightarrow> 'a option \<Rightarrow> 'a option \<Rightarrow> 'a option \<Rightarrow> 'a lheap option" where
  "list_add_between h pnew prev nxt = do {
     h \<leftarrow> set_prev h nxt pnew;
     h \<leftarrow> set_next h pnew nxt;
     h \<leftarrow> set_prev h pnew prev;
     set_next h prev pnew }"

definition list_add :: "'a lheap \<Rightarrow> 'a option \<Rightarrow> 'a option \<Rightarrow> 'a lheap option" where
  "list_add h pnew head = do {
     n \<leftarrow> get_next h head;
     list_add_between h pnew head n }"

definition list_del_between :: "'a lheap \<Rightarrow> 'a option \<Rightarrow> 'a option \<Rightarrow> 'a lheap option" where
  "list_del_between h prev nxt = do {
     h \<leftarrow> set_prev h nxt prev;
     set_next h prev nxt }"

definition list_del_entry :: "'a lheap \<Rightarrow> 'a option \<Rightarrow> 'a lheap option" where
  "list_del_entry h entry = do {
     p \<leftarrow> get_prev h entry;
     n \<leftarrow> get_next h entry;
     list_del_between h p n }"

definition list_del :: "'a lheap \<Rightarrow> 'a option \<Rightarrow> 'a lheap option" where
  "list_del h entry = do {
     h \<leftarrow> list_del_entry h entry;
     h \<leftarrow> set_next h entry None;
     set_prev h entry None }"

definition list_del_reinit :: "'a lheap \<Rightarrow> 'a option \<Rightarrow> 'a lheap option" where
  "list_del_reinit h entry = do {
     h \<leftarrow> list_del h entry;
     INIT_LIST_HEAD h entry }"

definition list_move :: "'a lheap \<Rightarrow> 'a option \<Rightarrow> 'a option \<Rightarrow> 'a lheap option" where
  "list_move h list head = do {
     h \<leftarrow> list_del_entry h list;
     list_add h list head }"

definition list_add_tail :: "'a lheap \<Rightarrow> 'a option \<Rightarrow> 'a option \<Rightarrow> 'a lheap option" where
  "list_add_tail h pnew head = do {
     p \<leftarrow> get_prev h head;
     list_add_between h pnew p head }"

definition list_move_tail :: "'a lheap \<Rightarrow> 'a option \<Rightarrow> 'a option \<Rightarrow> 'a lheap option" where
  "list_move_tail h list head = do {
     h \<leftarrow> list_del_entry h list;
     list_add_tail h list head }"

definition list_empty :: "'a lheap \<Rightarrow> 'a option \<Rightarrow> bool option" where
  "list_empty h head = do {
     n \<leftarrow> get_next h head;
     Some (n = head) }"

definition list_splice_between :: "'a lheap \<Rightarrow> 'a option \<Rightarrow> 'a option \<Rightarrow> 'a lheap option" where
  "list_splice_between h list head = do {
     first \<leftarrow> get_next h list;
     last \<leftarrow> get_prev h list;
     at \<leftarrow> get_next h head;
     h \<leftarrow> set_prev h first head;
     h \<leftarrow> set_next h head first;
     h \<leftarrow> set_next h last at;
     set_prev h at last }"

definition list_splice :: "'a lheap \<Rightarrow> 'a option \<Rightarrow> 'a option \<Rightarrow> 'a lheap option" where
  "list_splice h list head = do {
     e \<leftarrow> list_empty h list;
     if \<not> e then list_splice_between h list head else Some h }"

text \<open>
  \<open>list_for_each\<close> visits the nodes from \<open>head->next\<close> until it is back at \<open>head\<close>; the model collects
  the visited nodes.  Running out of fuel is \<open>None\<close>: on a well-formed list \<open>length xs + 1\<close> units
  are enough (\<open>list_for_each_dll\<close>).
\<close>

fun list_walk :: "nat \<Rightarrow> 'a lheap \<Rightarrow> 'a option \<Rightarrow> 'a option \<Rightarrow> 'a list option" where
  "list_walk 0 h pos head = None"
| "list_walk (Suc fuel) h pos head =
     (if pos = head then Some []
      else case pos of None \<Rightarrow> None
        | Some a \<Rightarrow> do {
            n \<leftarrow> get_next h pos;
            r \<leftarrow> list_walk fuel h n head;
            Some (a # r) })"

definition list_for_each :: "nat \<Rightarrow> 'a lheap \<Rightarrow> 'a option \<Rightarrow> 'a list option" where
  "list_for_each fuel h head = do {
     n \<leftarrow> get_next h head;
     list_walk fuel h n head }"

lemmas list_ops_defs [kdefs] =
  deref_def get_next_def get_prev_def set_next_def set_prev_def INIT_LIST_HEAD_def
  list_add_between_def list_add_def list_del_between_def list_del_entry_def list_del_def
  list_del_reinit_def list_move_def list_add_tail_def list_move_tail_def list_empty_def

subsection \<open>Representation predicate\<close>

definition nx :: "'a lheap \<Rightarrow> 'a \<Rightarrow> 'a \<Rightarrow> bool" where
  "nx h a b \<longleftrightarrow> (\<exists>n. h a = Some n \<and> lnext n = Some b)"

definition pv :: "'a lheap \<Rightarrow> 'a \<Rightarrow> 'a \<Rightarrow> bool" where
  "pv h a b \<longleftrightarrow> (\<exists>n. h a = Some n \<and> lprev n = Some b)"

fun links :: "'a lheap \<Rightarrow> 'a list \<Rightarrow> bool" where
  "links h (a # b # r) \<longleftrightarrow> nx h a b \<and> pv h b a \<and> links h (b # r)"
| "links h _ \<longleftrightarrow> True"

definition dll :: "'a lheap \<Rightarrow> 'a \<Rightarrow> 'a list \<Rightarrow> bool" where
  "dll h head xs \<longleftrightarrow> distinct (head # xs) \<and> links h (head # xs @ [head])"

lemma links_append: "links h (as @ x # bs) \<longleftrightarrow> links h (as @ [x]) \<and> links h (x # bs)"
  by (induction as rule: induct_list012) auto

lemma links_frame:
  assumes "links h xs"
    and "\<And>a. a \<in> set (butlast xs) \<Longrightarrow> map_option lnext (h' a) = map_option lnext (h a)"
    and "\<And>a. a \<in> set (tl xs) \<Longrightarrow> map_option lprev (h' a) = map_option lprev (h a)"
  shows "links h' xs"
  using assms
proof (induction h xs rule: links.induct)
  case (1 h a b r)
  have "nx h' a b"
    using 1(2) 1(3) [of a] by (auto simp: nx_def)
  moreover have "pv h' b a"
    using 1(2) 1(4) [of b] by (auto simp: pv_def)
  moreover have "links h' (b # r)"
  proof (rule 1(1))
    show "links h (b # r)" using 1(2) by simp
    show "map_option lnext (h' a) = map_option lnext (h a)" if "a \<in> set (butlast (b # r))" for a
      using 1(3) that by simp
    show "map_option lprev (h' a) = map_option lprev (h a)" if "a \<in> set (tl (b # r))" for a
      using 1(4) that by (cases r) auto
  qed
  ultimately show ?case by simp
qed auto

lemma dll_frame:
  assumes "dll h head xs" and "\<And>a. a \<in> set (head # xs) \<Longrightarrow> h' a = h a"
  shows "dll h' head xs"
proof -
  have "set (butlast (head # xs @ [head])) = set (head # xs)"
    by (metis append_Cons butlast_snoc)
  then show ?thesis
    using assms unfolding dll_def by (auto elim!: links_frame)
qed

lemma dll_mapped:
  assumes "dll h head xs" and "a \<in> set (head # xs)"
  shows "a \<in> dom h"
proof -
  have "links h ys \<Longrightarrow> a \<in> set (butlast ys) \<Longrightarrow> a \<in> dom h" for ys
    by (induction h ys rule: links.induct) (auto simp: nx_def split: if_splits)
  moreover have "set (butlast (head # xs @ [head])) = set (head # xs)"
    by (metis append_Cons butlast_snoc)
  ultimately show ?thesis
    using assms unfolding dll_def by blast
qed

subsection \<open>Splicing a node in and out of a chain\<close>

text \<open>\<open>agree A B h h'\<close>: the heaps agree on the next fields outside \<open>A\<close> and the prev fields outside \<open>B\<close>.\<close>

definition agree :: "'a set \<Rightarrow> 'a set \<Rightarrow> 'a lheap \<Rightarrow> 'a lheap \<Rightarrow> bool" where
  "agree A B h h' \<longleftrightarrow>
     (\<forall>a. a \<notin> A \<longrightarrow> map_option lnext (h' a) = map_option lnext (h a)) \<and>
     (\<forall>a. a \<notin> B \<longrightarrow> map_option lprev (h' a) = map_option lprev (h a)) \<and>
     (\<forall>a. a \<notin> A \<union> B \<longrightarrow> h' a = h a) \<and> dom h' = dom h"

lemma links_agree:
  "links h xs \<Longrightarrow> agree A B h h' \<Longrightarrow> A \<inter> set (butlast xs) = {} \<Longrightarrow> B \<inter> set (tl xs) = {} \<Longrightarrow> links h' xs"
  by (rule links_frame [of h]) (auto simp: agree_def)

lemma list_add_between_spec:
  assumes "x \<noteq> p" "x \<noteq> n" "x \<in> dom h" "p \<in> dom h" "n \<in> dom h"
  shows "\<exists>h'. list_add_between h (Some x) (Some p) (Some n) = Some h' \<and>
           nx h' p x \<and> pv h' x p \<and> nx h' x n \<and> pv h' n x \<and> agree {p, x} {n, x} h h'"
  using assms
  by (cases "p = n") (auto simp: list_ops_defs nx_def pv_def agree_def)

lemma list_del_entry_spec:
  assumes "pv h x p" "nx h x n" "x \<noteq> p" "x \<noteq> n" "p \<in> dom h" "n \<in> dom h"
  shows "\<exists>h'. list_del_entry h (Some x) = Some h' \<and>
           nx h' p n \<and> pv h' n p \<and> agree {p} {n} h h'"
  using assms
  by (cases "p = n") (auto simp: list_ops_defs nx_def pv_def agree_def)

lemma chain_insert:
  assumes "links h (as @ p # n # bs)" and "agree {p, x} {n, x} h h'"
    and "nx h' p x" "pv h' x p" "nx h' x n" "pv h' n x"
    and "distinct (butlast (as @ p # n # bs))" "distinct (tl (as @ p # n # bs))"
    and "x \<notin> set (as @ p # n # bs)"
  shows "links h' (as @ p # x # n # bs)"
proof -
  have l: "links h (as @ [p])" "links h (n # bs)"
    using assms(1) links_append [of h as p "n # bs"] by auto
  have "links h' (as @ [p])"
    by (rule links_agree [OF l(1) assms(2)]) (use assms(7-9) in \<open>cases as; auto simp: butlast_append\<close>)+
  moreover have "links h' (n # bs)"
    by (rule links_agree [OF l(2) assms(2)])
      (use assms(7-9) in \<open>cases as; auto simp: butlast_append dest: in_set_butlastD split: if_splits\<close>)+
  ultimately show ?thesis
    using assms(3-6) by (simp add: links_append [of _ as p "x # n # bs"])
qed

lemma chain_delete:
  assumes "links h (as @ p # x # n # bs)" and "agree {p} {n} h h'" and "nx h' p n" "pv h' n p"
    and "distinct (butlast (as @ p # x # n # bs))" "distinct (tl (as @ p # x # n # bs))"
  shows "links h' (as @ p # n # bs)"
proof -
  have l: "links h (as @ [p])" "links h (n # bs)"
    using assms(1) links_append [of h as p "x # n # bs"] by auto
  have "links h' (as @ [p])"
    by (rule links_agree [OF l(1) assms(2)]) (use assms(5,6) in \<open>cases as; auto simp: butlast_append\<close>)+
  moreover have "links h' (n # bs)"
    by (rule links_agree [OF l(2) assms(2)])
      (use assms(5,6) in \<open>cases as; auto simp: butlast_append dest: in_set_butlastD split: if_splits\<close>)+
  ultimately show ?thesis
    using assms(3,4) by (simp add: links_append [of _ as p "n # bs"])
qed

lemma cycle_distinct:
  assumes "distinct (head # xs)"
  shows "distinct (butlast (head # xs @ [head]))" "distinct (tl (head # xs @ [head]))"
  using assms by (auto simp: butlast_append)

subsection \<open>The operations refine operations on HOL lists\<close>

lemma dll_first:
  assumes "dll h head xs"
  shows "get_next h (Some head) = Some (Some (hd (xs @ [head])))"
  using assms by (cases xs) (auto simp: dll_def nx_def list_ops_defs)

lemma dll_last:
  assumes "dll h head xs"
  shows "get_prev h (Some head) = Some (Some (last (head # xs)))"
proof -
  have "head # xs @ [head] = butlast (head # xs) @ last (head # xs) # [head]"
    by simp
  then have "links h [last (head # xs), head]"
    using assms unfolding dll_def by (metis links_append)
  then show ?thesis
    by (auto simp: pv_def list_ops_defs)
qed

lemma list_empty_dll: "dll h head xs \<Longrightarrow> list_empty h (Some head) = Some (xs = [])"
  using dll_first [of h head xs] by (cases xs) (auto simp: list_empty_def dll_def)

lemma INIT_LIST_HEAD_dll:
  "x \<in> dom h \<Longrightarrow> \<exists>h'. INIT_LIST_HEAD h (Some x) = Some h' \<and> dll h' x [] \<and> (\<forall>a. a \<noteq> x \<longrightarrow> h' a = h a) \<and> dom h' = dom h"
  by (auto simp: list_ops_defs dll_def nx_def pv_def)

lemma list_add_dll:
  assumes d: "dll h head xs" and x: "x \<in> dom h" "x \<notin> set (head # xs)"
  shows "\<exists>h'. list_add h (Some x) (Some head) = Some h' \<and> dll h' head (x # xs) \<and>
           (\<forall>a. a \<notin> set (x # head # xs) \<longrightarrow> h' a = h a) \<and> dom h' = dom h"
proof -
  obtain n bs where nb: "xs @ [head] = n # bs"
    by (cases "xs @ [head]") auto
  have n: "n \<in> set (head # xs)"
    using nb by (cases xs) auto
  have dom: "head \<in> dom h" "n \<in> dom h"
    using dll_mapped [OF d] n by auto
  have "x \<noteq> head" "x \<noteq> n"
    using x n by auto
  then obtain h' where h': "list_add_between h (Some x) (Some head) (Some n) = Some h'"
    "nx h' head x" "pv h' x head" "nx h' x n" "pv h' n x" "agree {head, x} {n, x} h h'"
    using list_add_between_spec x(1) dom by metis
  have cyc: "[] @ head # n # bs = head # xs @ [head]"
    using nb by simp
  have "links h' ([] @ head # x # n # bs)"
    by (rule chain_insert [OF _ h'(6) h'(2-5)], unfold cyc)
      (use d x in \<open>auto simp: dll_def dest!: cycle_distinct\<close>)
  then have "dll h' head (x # xs)"
    using d x nb by (auto simp: dll_def)
  moreover have "list_add h (Some x) (Some head) = Some h'"
    using dll_first [OF d] nb h'(1) by (simp add: list_add_def)
  ultimately show ?thesis
    using h'(6) n by (auto simp: agree_def)
qed

lemma list_add_tail_dll:
  assumes d: "dll h head xs" and x: "x \<in> dom h" "x \<notin> set (head # xs)"
  shows "\<exists>h'. list_add_tail h (Some x) (Some head) = Some h' \<and> dll h' head (xs @ [x]) \<and>
           (\<forall>a. a \<notin> set (x # head # xs) \<longrightarrow> h' a = h a) \<and> dom h' = dom h"
proof -
  define as where "as = butlast (head # xs)"
  define p where "p = last (head # xs)"
  have ap: "as @ [p] = head # xs"
    by (simp add: as_def p_def)
  have p: "p \<in> set (head # xs)"
    by (simp add: p_def)
  have dom: "head \<in> dom h" "p \<in> dom h"
    using dll_mapped [OF d] p by auto
  have "x \<noteq> head" "x \<noteq> p"
    using x p by auto
  then obtain h' where h': "list_add_between h (Some x) (Some p) (Some head) = Some h'"
    "nx h' p x" "pv h' x p" "nx h' x head" "pv h' head x" "agree {p, x} {head, x} h h'"
    using list_add_between_spec x(1) dom by metis
  have cyc: "as @ p # head # [] = head # xs @ [head]"
    using ap by (metis append.assoc append_Cons append_Nil)
  have "links h' (as @ p # x # head # [])"
    by (rule chain_insert [OF _ h'(6) h'(2-5)])
      (use d x in \<open>auto simp: dll_def cyc dest!: cycle_distinct\<close>)
  moreover have "as @ p # x # head # [] = head # (xs @ [x]) @ [head]"
    using ap by (metis append.assoc append_Cons append_Nil)
  ultimately have "dll h' head (xs @ [x])"
    using d x by (auto simp: dll_def)
  moreover have "list_add_tail h (Some x) (Some head) = Some h'"
    using dll_last [OF d] h'(1) by (simp add: list_add_tail_def p_def)
  ultimately show ?thesis
    using h'(6) p by (auto simp: agree_def)
qed

lemma list_del_entry_dll:
  assumes d: "dll h head xs" and x: "x \<in> set xs"
  shows "\<exists>h'. list_del_entry h (Some x) = Some h' \<and> dll h' head (remove1 x xs) \<and>
           h' x = h x \<and> (\<forall>a. a \<notin> set (head # xs) \<longrightarrow> h' a = h a) \<and> dom h' = dom h"
proof -
  obtain us vs where xs: "xs = us @ x # vs" "x \<notin> set us" "x \<notin> set vs"
    using x d split_list_distinct [of x xs] by (auto simp: dll_def)
  define as where "as = butlast (head # us)"
  define p where "p = last (head # us)"
  obtain n bs where nb: "vs @ [head] = n # bs"
    by (cases "vs @ [head]") auto
  have ap: "as @ [p] = head # us"
    by (simp add: as_def p_def)
  have p: "p \<in> set (head # us)" and n: "n \<in> set (head # vs)"
    using nb by (simp add: p_def, cases vs) auto
  have cyc: "head # xs @ [head] = as @ p # x # n # bs"
    using ap xs(1) nb by (metis append.assoc append_Cons append_Nil)
  have neq: "x \<noteq> p" "x \<noteq> n"
    using p n xs d by (auto simp: dll_def)
  have chain: "links h (as @ p # x # n # bs)" and dist: "distinct (head # xs)"
    using d unfolding dll_def cyc by simp_all
  then have px: "pv h x p" "nx h x n"
    using links_append [of h as p "x # n # bs"] by auto
  have "p \<in> dom h" "n \<in> dom h"
    using dll_mapped [OF d] p n xs(1) by auto
  then obtain h' where h': "list_del_entry h (Some x) = Some h'"
    "nx h' p n" "pv h' n p" "agree {p} {n} h h'"
    using list_del_entry_spec [OF px neq] by metis
  have "links h' (as @ p # n # bs)"
    by (rule chain_delete [OF chain h'(4) h'(2,3) cycle_distinct [OF dist, unfolded cyc]])
  moreover have "as @ p # n # bs = head # (us @ vs) @ [head]"
    using ap nb by (metis append.assoc append_Cons append_Nil)
  ultimately have "dll h' head (remove1 x xs)"
    using d xs by (auto simp: dll_def)
  moreover have "h' x = h x" and "\<forall>a. a \<notin> set (head # xs) \<longrightarrow> h' a = h a"
    using h'(4) neq p n xs(1) by (auto simp: agree_def)
  ultimately show ?thesis
    using h'(1,4) by (auto simp: agree_def)
qed

lemma list_del_dll:
  assumes d: "dll h head xs" and x: "x \<in> set xs"
  shows "\<exists>h'. list_del h (Some x) = Some h' \<and> dll h' head (remove1 x xs) \<and>
           h' x = Some \<lparr>lnext = None, lprev = None\<rparr> \<and>
           (\<forall>a. a \<notin> set (head # xs) \<longrightarrow> h' a = h a) \<and> dom h' = dom h"
proof -
  obtain h1 where h1: "list_del_entry h (Some x) = Some h1" "dll h1 head (remove1 x xs)"
    "\<forall>a. a \<notin> set (head # xs) \<longrightarrow> h1 a = h a" "dom h1 = dom h"
    using list_del_entry_dll [OF d x] by metis
  have "x \<in> dom h1"
    using dll_mapped [OF d] x h1(4) by auto
  then obtain nd where nd: "h1 x = Some nd"
    by auto
  define h2 where "h2 = h1(x \<mapsto> \<lparr>lnext = None, lprev = None\<rparr>)"
  have x': "x \<notin> set (head # remove1 x xs)"
    using d x by (auto simp: dll_def)
  have "list_del h (Some x) = Some h2"
    using h1(1) nd by (cases nd) (simp add: list_del_def set_next_def set_prev_def h2_def)
  moreover have "dll h2 head (remove1 x xs)"
    by (rule dll_frame [OF h1(2)]) (use x' in \<open>auto simp: h2_def\<close>)
  ultimately show ?thesis
    using h1(3,4) \<open>x \<in> dom h1\<close> x by (auto simp: h2_def)
qed

lemma list_del_reinit_dll:
  assumes d: "dll h head xs" and x: "x \<in> set xs"
  shows "\<exists>h'. list_del_reinit h (Some x) = Some h' \<and> dll h' head (remove1 x xs) \<and> dll h' x [] \<and>
           (\<forall>a. a \<notin> set (head # xs) \<longrightarrow> h' a = h a) \<and> dom h' = dom h"
proof -
  obtain h1 where h1: "list_del h (Some x) = Some h1" "dll h1 head (remove1 x xs)"
    "h1 x = Some \<lparr>lnext = None, lprev = None\<rparr>"
    "\<forall>a. a \<notin> set (head # xs) \<longrightarrow> h1 a = h a" "dom h1 = dom h"
    using list_del_dll [OF d x] by metis
  have "x \<in> dom h1"
    using h1(3) by auto
  from INIT_LIST_HEAD_dll [OF this] obtain h2 where
    h2: "INIT_LIST_HEAD h1 (Some x) = Some h2" "dll h2 x []" "\<forall>a. a \<noteq> x \<longrightarrow> h2 a = h1 a" "dom h2 = dom h1"
    by auto
  have "x \<notin> set (head # remove1 x xs)"
    using d x by (auto simp: dll_def)
  then have "dll h2 head (remove1 x xs)"
    by (intro dll_frame [OF h1(2)]) (use h2(3) in auto)
  then show ?thesis
    using h1 h2 x by (auto simp: list_del_reinit_def)
qed

text \<open>Unlinking a node that is on no list (it is linked to itself) changes nothing.\<close>

lemma list_del_reinit_single:
  assumes "dll h x []"
  shows "list_del_reinit h (Some x) = Some h"
proof -
  obtain nd where "h x = Some nd" "lnext nd = Some x" "lprev nd = Some x"
    using assms by (auto simp: dll_def nx_def pv_def)
  then show ?thesis
    by (cases nd) (auto simp: list_ops_defs)
qed

lemma list_walk_links:
  "links h (xs @ [head]) \<Longrightarrow> head \<notin> set xs \<Longrightarrow> length xs < fuel \<Longrightarrow>
     list_walk fuel h (Some (hd (xs @ [head]))) (Some head) = Some xs"
proof (induction xs arbitrary: fuel)
  case Nil
  then show ?case by (cases fuel) auto
next
  case (Cons a xs)
  obtain f where f: "fuel = Suc f" "length xs < f"
    using Cons.prems(3) by (cases fuel) auto
  have "links h (xs @ [head])" and "get_next h (Some a) = Some (Some (hd (xs @ [head])))"
    using Cons.prems(1) by (cases xs; auto simp: nx_def get_next_def deref_def)+
  with Cons f show ?case by auto
qed

lemma list_for_each_dll:
  assumes "dll h head xs" and "length xs < fuel"
  shows "list_for_each fuel h (Some head) = Some xs"
proof -
  have "links h (xs @ [head])"
    using assms(1) by (cases xs) (auto simp: dll_def)
  then show ?thesis
    using assms list_walk_links [of h xs head fuel] dll_first [OF assms(1)]
    by (simp add: list_for_each_def dll_def)
qed

subsection \<open>Properties\<close>

text \<open>A heap with an empty list at address 0 and a detached node at address 1, and the list with both nodes.\<close>

definition demo_lheap :: "nat lheap" where
  "demo_lheap = [0 \<mapsto> \<lparr>lnext = Some 0, lprev = Some 0\<rparr>, 1 \<mapsto> \<lparr>lnext = None, lprev = None\<rparr>]"

definition demo_lheap1 :: "nat lheap" where
  "demo_lheap1 = [0 \<mapsto> \<lparr>lnext = Some 1, lprev = Some 1\<rparr>, 1 \<mapsto> \<lparr>lnext = Some 0, lprev = Some 0\<rparr>]"

lemma demo_lheap_dll: "dll demo_lheap 0 []" "1 \<in> dom demo_lheap" "dll demo_lheap1 0 [1]"
  by (simp_all add: dll_def demo_lheap_def demo_lheap1_def nx_def pv_def)

text \<open>On a well-formed circular list, \<open>list_add\<close> and \<open>list_add_tail\<close> of a node that is not on it insert the
  node at the front and at the back, keep both directions of the links consistent and change no node
  outside the list.\<close>

theorem list_add_refines:
  assumes "dll h head xs" "x \<in> dom h" "x \<notin> set (head # xs)"
  shows "(\<exists>h'. list_add h (Some x) (Some head) = Some h' \<and> dll h' head (x # xs) \<and> (\<forall>a. a \<notin> set (x # head # xs) \<longrightarrow> h' a = h a)) \<and>
    (\<exists>h'. list_add_tail h (Some x) (Some head) = Some h' \<and> dll h' head (xs @ [x]) \<and> (\<forall>a. a \<notin> set (x # head # xs) \<longrightarrow> h' a = h a))"
  using list_add_dll [OF assms] list_add_tail_dll [OF assms] by blast

theorem list_add_refines_witness:
  "\<exists>h'. list_add_tail demo_lheap (Some 1) (Some 0) = Some h' \<and> dll h' 0 ([] @ [1])"
  using list_add_refines [OF demo_lheap_dll(1,2)] by auto

text \<open>\<open>list_del_reinit\<close> through a node's own links removes exactly that node from the list it is on, keeps the
  order of the others and leaves the node as an empty list of its own; a second call then has no effect.\<close>

theorem list_del_reinit_refines:
  assumes "dll h head xs" "x \<in> set xs"
  shows "\<exists>h'. list_del_reinit h (Some x) = Some h' \<and> dll h' head (remove1 x xs) \<and> dll h' x [] \<and>
    (\<forall>a. a \<notin> set (head # xs) \<longrightarrow> h' a = h a) \<and> list_del_reinit h' (Some x) = Some h'"
proof -
  obtain h' where "list_del_reinit h (Some x) = Some h'" "dll h' head (remove1 x xs)" "dll h' x []"
    "\<forall>a. a \<notin> set (head # xs) \<longrightarrow> h' a = h a"
    using list_del_reinit_dll [OF assms] by metis
  then show ?thesis
    using list_del_reinit_single [of h' x] by metis
qed

theorem list_del_reinit_refines_witness:
  "\<exists>h'. list_del_reinit demo_lheap1 (Some 1) = Some h' \<and> dll h' 0 [] \<and> dll h' 1 []"
  using list_del_reinit_refines [OF demo_lheap_dll(3), of 1] by auto

text \<open>Both need a lock around them.  If \<open>list_add_tail\<close> of node 2 has read \<open>head->prev\<close>, the last node 1, and node 1 is
  unlinked before the pointers are written, node 2 is not on the list.  \<open>cond_wait\<close> and \<open>futex_wait\<close> link
  a thread without the lock under which \<open>thread_wakeup\<close> unlinks one.\<close>

definition demo_lheap2 :: "nat lheap" where "demo_lheap2 = demo_lheap1(2 \<mapsto> \<lparr>lnext = Some 2, lprev = Some 2\<rparr>)"

lemma overlapping_add_is_lost:
  "get_prev demo_lheap2 (Some 0) = Some (Some 1) \<and>
    Option.bind (list_del_reinit demo_lheap2 (Some 1)) (\<lambda>h. Option.bind (list_add_between h (Some 2) (Some 1) (Some 0)) (\<lambda>h. list_for_each 2 h (Some 0))) = Some [] \<and>
    Option.bind (list_del_reinit demo_lheap2 (Some 1)) (\<lambda>h. Option.bind (list_add_tail h (Some 2) (Some 0)) (\<lambda>h. list_for_each 2 h (Some 0))) = Some [2]"
  by (intro conjI) code_simp+

end
