(* ===== verification/Spinlock.thy ===== *)
theory Spinlock
  imports Prelude
begin

text \<open>
  \<open>src/atomic/spinlock.c\<close>: per-CPU interrupt nesting (\<open>push_off\<close>, \<open>pop_off\<close>) and the spin lock.

  Two models are given.  The first is sequential: the functions as one CPU executes them against the
  memory it sees, with \<open>None\<close> for \<open>panic\<close> and for a spin that no longer ends (the lock is held and
  nobody else runs).  The other components call this one.  The second is concurrent: a step relation
  in which any number of CPUs interleave inside \<open>_acquire\<close> and \<open>_release\<close> at the granularity of the
  atomic swap and of the two plain stores; it shows mutual exclusion and that the recursion check
  \<open>holding\<close> never fires for a CPU that does not own the lock.  It leaves out \<open>push_off\<close> and \<open>pop_off\<close>,
  which touch only the CPU's own interrupt state: a CPU of the relation is one thread of control, as it is
  while interrupts are off.  Their nesting is in the sequential model.

  The lock-tracing code under \<open>__LOCKTRACE__\<close> is not compiled in and not modelled; memory fences have
  no effect in a sequentially consistent model.
\<close>

subsection \<open>Interrupt nesting\<close>

text \<open>\<open>struct thread_cpu\<close> with the hart's \<open>sstatus.SIE\<close> bit; \<open>cpu_id\<close> is the hart number.\<close>

record thread_cpu =
  cpu_id :: nat
  noff :: int
  intena :: bool
  sie :: bool

definition push_off :: "thread_cpu \<Rightarrow> thread_cpu" where
  "push_off c =
     (let old = sie c;
          c = c\<lparr>sie := False\<rparr>;
          c = (if noff c = 0 then c\<lparr>intena := old\<rparr> else c)
      in c\<lparr>noff := noff c + 1\<rparr>)"

definition pop_off :: "thread_cpu \<Rightarrow> thread_cpu option" where
  "pop_off c =
     (if sie c then None
      else if noff c < 1 then None
      else let c = c\<lparr>noff := noff c - 1\<rparr>
           in Some (if noff c = 0 \<and> intena c then c\<lparr>sie := True\<rparr> else c))"

subsection \<open>The lock\<close>

record spinlock =
  lk_locked :: bool
  lk_name :: string
  lk_cpu :: "nat option"

definition initlock :: "string \<Rightarrow> spinlock" where
  "initlock name = \<lparr>lk_locked = False, lk_name = name, lk_cpu = None\<rparr>"

definition holding :: "thread_cpu \<Rightarrow> spinlock \<Rightarrow> bool" where
  "holding c lk \<longleftrightarrow> lk_locked lk \<and> lk_cpu lk = Some (cpu_id c)"

definition acquire :: "thread_cpu \<Rightarrow> spinlock \<Rightarrow> (thread_cpu \<times> spinlock) option" where
  "acquire c lk =
     (let c = push_off c
      in if holding c lk then None
         else if lk_locked lk then None
         else Some (c, lk\<lparr>lk_locked := True, lk_cpu := Some (cpu_id c)\<rparr>))"

definition release :: "thread_cpu \<Rightarrow> spinlock \<Rightarrow> (thread_cpu \<times> spinlock) option" where
  "release c lk =
     (if \<not> holding c lk then None
      else do {
        let lk = lk\<lparr>lk_cpu := None\<rparr>;
        let lk = lk\<lparr>lk_locked := False\<rparr>;
        c \<leftarrow> pop_off c;
        Some (c, lk) })"

text \<open>
  The states a CPU can be in between two balanced sections: nesting is not negative, and interrupts
  are off whenever the nesting depth is positive.
\<close>

definition cpu_ok :: "thread_cpu \<Rightarrow> bool" where
  "cpu_ok c \<longleftrightarrow> 0 \<le> noff c \<and> (0 < noff c \<longrightarrow> \<not> sie c)"

definition lk_free :: "spinlock \<Rightarrow> bool" where
  "lk_free lk \<longleftrightarrow> \<not> lk_locked lk \<and> lk_cpu lk = None"

text \<open>What a balanced section leaves of the CPU state: only \<open>intena\<close> may have been rewritten, and
  only at the outermost level, where it is the saved interrupt flag.\<close>

definition same_cpu :: "thread_cpu \<Rightarrow> thread_cpu \<Rightarrow> bool" where
  "same_cpu c c' \<longleftrightarrow> cpu_id c' = cpu_id c \<and> noff c' = noff c \<and> sie c' = sie c \<and>
     (0 < noff c \<longrightarrow> intena c' = intena c)"

lemma same_cpu_refl [simp]: "same_cpu c c"
  by (simp add: same_cpu_def)

lemma same_cpu_trans [trans]: "same_cpu a b \<Longrightarrow> same_cpu b c \<Longrightarrow> same_cpu a c"
  by (simp add: same_cpu_def)

lemma same_cpu_ok: "same_cpu c c' \<Longrightarrow> cpu_ok c \<Longrightarrow> cpu_ok c'"
  by (simp add: same_cpu_def cpu_ok_def)

lemma lk_free_initlock [simp]: "lk_free (initlock n)"
  by (simp add: lk_free_def initlock_def)

lemma push_off_ok: "cpu_ok c \<Longrightarrow> cpu_ok (push_off c)"
  by (simp add: cpu_ok_def push_off_def Let_def)

lemma push_off_noff [simp]: "noff (push_off c) = noff c + 1" "cpu_id (push_off c) = cpu_id c" "\<not> sie (push_off c)"
  by (simp_all add: push_off_def Let_def)

lemma pop_push_off:
  "cpu_ok c \<Longrightarrow> \<exists>c'. pop_off (push_off c) = Some c' \<and> same_cpu c c'"
  by (auto simp: push_off_def pop_off_def cpu_ok_def same_cpu_def Let_def)

lemma acquire_release:
  assumes "cpu_ok c" "lk_free lk"
  obtains c1 lk1 where "acquire c lk = Some (c1, lk1)" "c1 = push_off c" "cpu_ok c1"
    "lk1 = lk\<lparr>lk_locked := True, lk_cpu := Some (cpu_id c)\<rparr>"
    "\<And>c2. same_cpu c1 c2 \<Longrightarrow> \<exists>c'. release c2 lk1 = Some (c', lk) \<and> same_cpu c c'"
proof -
  let ?lk = "lk\<lparr>lk_locked := True, lk_cpu := Some (cpu_id c)\<rparr>"
  have acq: "acquire c lk = Some (push_off c, ?lk)"
    using assms by (simp add: acquire_def holding_def lk_free_def Let_def)
  have "\<exists>c'. release c2 ?lk = Some (c', lk) \<and> same_cpu c c'" if "same_cpu (push_off c) c2" for c2
    using that assms
    by (auto simp: release_def holding_def pop_off_def same_cpu_def lk_free_def cpu_ok_def push_off_def Let_def
        split: if_splits)
  then show thesis
    by (rule that [OF acq refl push_off_ok [OF assms(1)] refl])
qed

lemma acquire_held_None: "lk_locked lk \<Longrightarrow> acquire c lk = None"
  by (simp add: acquire_def Let_def)

subsection \<open>Interleaved execution\<close>

text \<open>
  Program points of one CPU: outside, in the test-and-set loop, after the winning swap but before
  \<open>lk->cpu\<close> is written, inside the critical section, and after \<open>lk->cpu = 0\<close> but before
  \<open>__sync_lock_release\<close>.  \<open>Panicked\<close> is the state after either \<open>panic\<close>.
\<close>

datatype pc = Outside | Spinning | Won | Critical | Leaving | Panicked

record lock_sys =
  pcs :: "nat \<Rightarrow> pc"
  lk :: spinlock

definition lock_init :: lock_sys where
  "lock_init = \<lparr>pcs = (\<lambda>_. Outside), lk = initlock ''lock''\<rparr>"

inductive lock_step :: "lock_sys \<Rightarrow> lock_sys \<Rightarrow> bool" where
  acq_panic: "pcs s i = Outside \<Longrightarrow> lk_locked (lk s) \<Longrightarrow> lk_cpu (lk s) = Some i \<Longrightarrow>
     lock_step s (s\<lparr>pcs := (pcs s)(i := Panicked)\<rparr>)"
| acq_enter: "pcs s i = Outside \<Longrightarrow> \<not> (lk_locked (lk s) \<and> lk_cpu (lk s) = Some i) \<Longrightarrow>
     lock_step s (s\<lparr>pcs := (pcs s)(i := Spinning)\<rparr>)"
| acq_spin: "pcs s i = Spinning \<Longrightarrow> lk_locked (lk s) \<Longrightarrow> lock_step s s"
| acq_swap: "pcs s i = Spinning \<Longrightarrow> \<not> lk_locked (lk s) \<Longrightarrow>
     lock_step s (s\<lparr>pcs := (pcs s)(i := Won), lk := (lk s)\<lparr>lk_locked := True\<rparr>\<rparr>)"
| acq_owner: "pcs s i = Won \<Longrightarrow>
     lock_step s (s\<lparr>pcs := (pcs s)(i := Critical), lk := (lk s)\<lparr>lk_cpu := Some i\<rparr>\<rparr>)"
| rel_panic: "pcs s i = Critical \<Longrightarrow> \<not> (lk_locked (lk s) \<and> lk_cpu (lk s) = Some i) \<Longrightarrow>
     lock_step s (s\<lparr>pcs := (pcs s)(i := Panicked)\<rparr>)"
| rel_owner: "pcs s i = Critical \<Longrightarrow> lk_locked (lk s) \<Longrightarrow> lk_cpu (lk s) = Some i \<Longrightarrow>
     lock_step s (s\<lparr>pcs := (pcs s)(i := Leaving), lk := (lk s)\<lparr>lk_cpu := None\<rparr>\<rparr>)"
| rel_swap: "pcs s i = Leaving \<Longrightarrow>
     lock_step s (s\<lparr>pcs := (pcs s)(i := Outside), lk := (lk s)\<lparr>lk_locked := False\<rparr>\<rparr>)"

inductive lock_reach :: "lock_sys \<Rightarrow> bool" where
  lock_start: "lock_reach lock_init"
| lock_next: "lock_reach s \<Longrightarrow> lock_step s t \<Longrightarrow> lock_reach t"

definition owns :: "lock_sys \<Rightarrow> nat \<Rightarrow> bool" where
  "owns s i \<longleftrightarrow> pcs s i \<in> {Won, Critical, Leaving}"

definition lock_inv :: "lock_sys \<Rightarrow> bool" where
  "lock_inv s \<longleftrightarrow>
     (\<forall>i. pcs s i \<noteq> Panicked) \<and>
     (if lk_locked (lk s) then \<exists>i. \<forall>j. owns s j \<longleftrightarrow> j = i else \<forall>j. \<not> owns s j) \<and>
     (\<forall>i. lk_cpu (lk s) = Some i \<longleftrightarrow> pcs s i = Critical)"

lemma lock_inv_init: "lock_inv lock_init"
  by (simp add: lock_inv_def lock_init_def owns_def initlock_def)

lemma lock_inv_others:
  assumes "lock_inv s" "owns s i"
  shows "lk_locked (lk s)" "\<And>j. j \<noteq> i \<Longrightarrow> pcs s j \<noteq> Won \<and> pcs s j \<noteq> Critical \<and> pcs s j \<noteq> Leaving"
proof -
  show l: "lk_locked (lk s)"
    using assms by (auto simp: lock_inv_def split: if_splits)
  then obtain k where "\<And>j. owns s j \<longleftrightarrow> j = k"
    using assms(1) by (auto simp: lock_inv_def)
  then have "\<not> owns s j" if "j \<noteq> i" for j
    using assms(2) that by auto
  then show "\<And>j. j \<noteq> i \<Longrightarrow> pcs s j \<noteq> Won \<and> pcs s j \<noteq> Critical \<and> pcs s j \<noteq> Leaving"
    by (simp add: owns_def)
qed

lemma lock_inv_one_owner:
  assumes "lk_locked (lk t)" "owns t i" "\<And>j. j \<noteq> i \<Longrightarrow> \<not> owns t j" "\<And>j. pcs t j \<noteq> Panicked"
    "\<And>j. lk_cpu (lk t) = Some j \<longleftrightarrow> pcs t j = Critical"
  shows "lock_inv t"
  using assms unfolding lock_inv_def by auto

lemma lock_step_inv [inv_intros]: "lock_step s t \<Longrightarrow> lock_inv s \<Longrightarrow> lock_inv t"
proof (induction rule: lock_step.induct)
  case (acq_panic s i)
  have "lk_cpu (lk s) = Some i \<longleftrightarrow> pcs s i = Critical"
    using acq_panic(4) unfolding lock_inv_def by blast
  with acq_panic show ?case by simp
next
  case (acq_enter s i)
  then have "owns (s\<lparr>pcs := (pcs s)(i := Spinning)\<rparr>) = owns s"
    by (auto simp: owns_def fun_eq_iff)
  with acq_enter show ?case by (auto simp: lock_inv_def)
next
  case (acq_swap s i)
  then have "\<forall>j. pcs s j \<noteq> Won \<and> pcs s j \<noteq> Critical \<and> pcs s j \<noteq> Leaving"
    by (auto simp: lock_inv_def owns_def)
  with acq_swap show ?case
    by (intro lock_inv_one_owner [of _ i]) (auto simp: lock_inv_def owns_def)
next
  case (acq_owner s i)
  then have "owns s i" by (simp add: owns_def)
  from lock_inv_others [OF acq_owner(2) this] acq_owner show ?case
    by (intro lock_inv_one_owner [of _ i]) (auto simp: lock_inv_def owns_def split: if_splits)
next
  case (rel_owner s i)
  then have "owns s i" by (simp add: owns_def)
  from lock_inv_others [OF rel_owner(4) this] rel_owner show ?case
    by (intro lock_inv_one_owner [of _ i]) (auto simp: lock_inv_def owns_def split: if_splits)
next
  case (rel_swap s i)
  then have "owns s i" by (simp add: owns_def)
  from lock_inv_others [OF rel_swap(2) this] rel_swap show ?case
    by (auto simp: lock_inv_def owns_def split: if_splits)
qed (auto simp: lock_inv_def owns_def split: if_splits)

lemma lock_reach_inv: "lock_reach s \<Longrightarrow> lock_inv s"
  by (induction rule: lock_reach.induct) (auto intro: lock_inv_init lock_step_inv)

subsection \<open>Properties\<close>

text \<open>C33. In every interleaving of any number of CPUs entering and leaving \<open>acquire\<close> and \<open>release\<close>, at most one CPU
  is between its winning test-and-set and its final store, and neither panic of the lock code, the
  recursion check in \<open>acquire\<close> and the ownership check in \<open>release\<close>, is ever reached.\<close>

theorem lock_mutual_exclusion:
  assumes "lock_reach s"
  shows "(owns s i \<longrightarrow> owns s j \<longrightarrow> i = j) \<and> pcs s i \<noteq> Panicked"
proof -
  have inv: "lock_inv s" by (rule lock_reach_inv [OF assms])
  then have "i = j" if "owns s i" "owns s j"
    using that(2) lock_inv_others(2) [OF inv that(1), of j] by (cases "j = i") (auto simp: owns_def)
  then show ?thesis
    using inv by (auto simp: lock_inv_def)
qed

definition demo_held :: lock_sys where
  "demo_held = lock_init\<lparr>pcs := (pcs lock_init)(1 := Spinning, 1 := Won), lk := (lk lock_init)\<lparr>lk_locked := True\<rparr>\<rparr>"

lemma demo_held_reach: "lock_reach demo_held"
proof -
  let ?a = "lock_init\<lparr>pcs := (pcs lock_init)(1 := Spinning)\<rparr>"
  have "lock_step lock_init ?a"
    by (rule acq_enter) (simp_all add: lock_init_def initlock_def)
  moreover have "lock_step ?a (?a\<lparr>pcs := (pcs ?a)(1 := Won), lk := (lk ?a)\<lparr>lk_locked := True\<rparr>\<rparr>)"
    by (rule acq_swap) (simp_all add: lock_init_def initlock_def)
  ultimately have "lock_reach (?a\<lparr>pcs := (pcs ?a)(1 := Won), lk := (lk ?a)\<lparr>lk_locked := True\<rparr>\<rparr>)"
    using lock_start lock_next by blast
  then show ?thesis
    by (simp add: demo_held_def)
qed

theorem lock_mutual_exclusion_witness:
  "owns demo_held 1 \<and> \<not> owns demo_held 2 \<and> pcs demo_held 2 \<noteq> Panicked"
  using lock_mutual_exclusion [OF demo_held_reach, of 2 1] by (simp add: owns_def demo_held_def lock_init_def)

text \<open>A balanced pair of \<open>acquire\<close> and \<open>release\<close> around a section that is itself balanced restores the
  interrupt nesting, the interrupt-enable bit and the lock; inside, interrupts are off and the CPU
  holds the lock.\<close>

theorem acquire_release_restores:
  assumes "cpu_ok c" "lk_free l"
  shows "\<exists>c1 l1. acquire c l = Some (c1, l1) \<and> holding c1 l1 \<and> \<not> sie c1 \<and>
    (\<forall>c2. same_cpu c1 c2 \<longrightarrow> (\<exists>c'. release c2 l1 = Some (c', l) \<and> cpu_id c' = cpu_id c \<and> noff c' = noff c \<and> sie c' = sie c))"
proof -
  obtain c1 l1 where a: "acquire c l = Some (c1, l1)" "c1 = push_off c"
    "l1 = l\<lparr>lk_locked := True, lk_cpu := Some (cpu_id c)\<rparr>"
    "\<And>c2. same_cpu c1 c2 \<Longrightarrow> \<exists>c'. release c2 l1 = Some (c', l) \<and> same_cpu c c'"
    using acquire_release [OF assms] by metis
  then have "holding c1 l1" "\<not> sie c1"
    by (simp_all add: holding_def)
  then show ?thesis
    using a(1,4) by (auto simp: same_cpu_def)
qed

theorem acquire_release_restores_witness:
  "\<exists>c1 l1 c'. acquire \<lparr>cpu_id = 3, noff = 0, intena = False, sie = True\<rparr> (initlock ''x'') = Some (c1, l1) \<and>
     release c1 l1 = Some (c', initlock ''x'') \<and> sie c'"
proof -
  have "cpu_ok \<lparr>cpu_id = 3, noff = 0, intena = False, sie = True\<rparr>"
    by (simp add: cpu_ok_def)
  from acquire_release_restores [OF this lk_free_initlock, of "''x''"] show ?thesis
    using same_cpu_refl by fastforce
qed

end
