(* ===== verification/Allocator.thy ===== *)
theory Allocator
  imports Prelude
begin

text \<open>
  The contract of a power-of-two block allocator, as the rest of the kernel relies on it: a state has
  a map \<open>live\<close> from the first unit of every block handed out to its order; \<open>get\<close> hands out an aligned
  block that overlaps no live block and refuses only if no such block exists; \<open>put\<close> takes a live
  block back.  The client's view, any interleaving of requests and releases, is derived once.
\<close>

definition in_use :: "(nat \<Rightarrow> nat option) \<Rightarrow> nat set" where
  "in_use B = {x. \<exists>r k. B r = Some k \<and> x \<in> blk r k}"

definition fits :: "(nat \<Rightarrow> nat option) \<Rightarrow> nat \<Rightarrow> nat \<Rightarrow> nat \<Rightarrow> bool" where
  "fits B n k h \<longleftrightarrow> 2 ^ k dvd h \<and> h + 2 ^ k \<le> n \<and> blk h k \<inter> in_use B = {}"

text \<open>Live blocks are aligned, inside the range, and pairwise disjoint.\<close>

definition well_placed :: "(nat \<Rightarrow> nat option) \<Rightarrow> nat \<Rightarrow> bool" where
  "well_placed B n \<longleftrightarrow>
     (\<forall>h k. B h = Some k \<longrightarrow> 2 ^ k dvd h \<and> h + 2 ^ k \<le> n) \<and>
     (\<forall>h k h' k'. B h = Some k \<longrightarrow> B h' = Some k' \<longrightarrow> h \<noteq> h' \<longrightarrow> blk h k \<inter> blk h' k' = {})"

lemma in_use_start: "B h = Some k \<Longrightarrow> h \<in> in_use B"
  unfolding in_use_def using start_in_blk by blast

lemma well_placed_empty [simp]: "well_placed (\<lambda>_. None) n"
  by (simp add: well_placed_def)

lemma well_placed_get:
  assumes "well_placed B n" "fits B n k h"
  shows "well_placed (B(h \<mapsto> k)) n"
proof -
  have "blk h k \<inter> blk h' k' = {}" if "B h' = Some k'" for h' k'
    using assms(2) that unfolding fits_def in_use_def by blast
  then show ?thesis
    using assms unfolding well_placed_def fits_def
    by auto
qed

lemma well_placed_put: "well_placed B n \<Longrightarrow> well_placed (B(h := None)) n"
  unfolding well_placed_def by (auto split: if_splits)

text \<open>States a client can reach with requests of any order up to \<open>maxo\<close> and releases of live blocks.\<close>

inductive alloc_reach ::
  "('s \<Rightarrow> nat \<Rightarrow> ('s \<times> nat option) option) \<Rightarrow> ('s \<Rightarrow> nat \<Rightarrow> 's option) \<Rightarrow> ('s \<Rightarrow> nat \<Rightarrow> nat option) \<Rightarrow> nat \<Rightarrow>
   's \<Rightarrow> 's \<Rightarrow> bool" for get put live maxo s0 where
  reach_start: "alloc_reach get put live maxo s0 s0"
| reach_get: "alloc_reach get put live maxo s0 s \<Longrightarrow> k \<le> maxo \<Longrightarrow> get s k = Some (s', r) \<Longrightarrow>
    alloc_reach get put live maxo s0 s'"
| reach_put: "alloc_reach get put live maxo s0 s \<Longrightarrow> live s h = Some k \<Longrightarrow> put s h = Some s' \<Longrightarrow>
    alloc_reach get put live maxo s0 s'"

locale block_allocator =
  fixes get :: "'s \<Rightarrow> nat \<Rightarrow> ('s \<times> nat option) option"
    and put :: "'s \<Rightarrow> nat \<Rightarrow> 's option"
    and inv :: "'s \<Rightarrow> bool"
    and live :: "'s \<Rightarrow> nat \<Rightarrow> nat option"
    and cap :: "'s \<Rightarrow> nat"
    and maxo :: nat
  assumes get_law: "inv s \<Longrightarrow> k \<le> maxo \<Longrightarrow> \<exists>s' r. get s k = Some (s', r) \<and> inv s' \<and> cap s' = cap s \<and>
      (case r of None \<Rightarrow> live s' = live s \<and> (\<forall>h. \<not> fits (live s) (cap s) k h)
       | Some h \<Rightarrow> fits (live s) (cap s) k h \<and> live s' = (live s)(h \<mapsto> k))"
    and put_law: "inv s \<Longrightarrow> live s h = Some k \<Longrightarrow> \<exists>s'. put s h = Some s' \<and> inv s' \<and> cap s' = cap s \<and>
      live s' = (live s)(h := None)"
begin

lemma get_keeps:
  assumes "inv s" "k \<le> maxo" "get s k = Some (s', r)"
  shows "inv s'" "cap s' = cap s" "well_placed (live s) (cap s) \<Longrightarrow> well_placed (live s') (cap s')"
  using get_law [OF assms(1,2)] assms(3) by (auto split: option.splits intro: well_placed_get)

lemma put_keeps:
  assumes "inv s" "live s h = Some k" "put s h = Some s'"
  shows "inv s'" "cap s' = cap s" "well_placed (live s) (cap s) \<Longrightarrow> well_placed (live s') (cap s')"
  using put_law [OF assms(1,2)] assms(3) by (auto intro: well_placed_put)

lemma reach_safe:
  assumes "alloc_reach get put live maxo s0 s" "inv s0" "well_placed (live s0) (cap s0)"
  shows "inv s \<and> cap s = cap s0 \<and> well_placed (live s) (cap s)"
  using assms
proof (induction rule: alloc_reach.induct)
  case (reach_get s k s' r)
  then show ?case using get_keeps [of s k s' r] by auto
next
  case (reach_put s h k s')
  then show ?case using put_keeps [of s h k s'] by auto
qed simp

text \<open>A block just released can be had again: the allocator loses nothing.\<close>

lemma put_get_again:
  assumes i: "inv s" and l: "live s h = Some k" and w: "well_placed (live s) (cap s)" and k: "k \<le> maxo"
    and p: "put s h = Some s'"
  shows "\<exists>s'' h'. get s' k = Some (s'', Some h')"
proof -
  have s': "inv s'" "cap s' = cap s" "live s' = (live s)(h := None)"
    using put_law [OF i l] p by auto
  have "blk h k \<inter> in_use ((live s)(h := None)) = {}"
    using w l unfolding well_placed_def in_use_def by (auto split: if_splits) blast
  then have "fits (live s') (cap s') k h"
    using w l s' unfolding fits_def well_placed_def by simp
  then show ?thesis
    using get_law [OF s'(1) k] by (auto split: option.splits)
qed

end

end
