(* ===== verification/Tiling.thy ===== *)
theory Tiling
  imports Prelude
begin

unbundle bit_operations_syntax

text \<open>
  The geometry behind the buddy system, free of program state: a range of \<open>n\<close> indices is tiled by
  aligned power-of-two blocks whose start indices form the set \<open>H\<close> and whose orders are given by \<open>ord\<close>.
  The buddy of a block start is itself a block start, splitting and merging keep a tiling, and in a
  tiling without two free buddies of equal order every free aligned range lies in one free block.
\<close>

subsection \<open>The buddy of a block\<close>

definition buddy_of :: "nat \<Rightarrow> nat \<Rightarrow> nat" where
  "buddy_of k r = r XOR 2 ^ k"

lemma nat_xor_one: "q XOR 1 = (if even q then Suc q else q - 1)" for q :: nat
  using xor_one_eq [of q] by auto

lemma buddy_of_mult: "buddy_of k (q * 2 ^ k) = (if even q then Suc q else q - 1) * 2 ^ k"
proof -
  have "buddy_of k (q * 2 ^ k) = push_bit k q XOR push_bit k 1"
    by (simp add: buddy_of_def push_bit_eq_mult)
  also have "\<dots> = push_bit k (q XOR 1)"
    by (simp add: push_bit_xor)
  finally show ?thesis
    by (simp only: nat_xor_one push_bit_eq_mult)
qed

text \<open>The offset arithmetic of the code (bytes, shifted by 12) is index arithmetic.\<close>

lemma offset_xor: "(i * PGSIZE) XOR (2 ^ (k + 12)) = buddy_of k i * PGSIZE"
  unfolding buddy_of_def PGSIZE_pow2 by (metis push_bit_eq_mult push_bit_xor power_add)

lemma buddy_of_cases:
  assumes "2 ^ k dvd r"
  obtains "2 ^ Suc k dvd r" "buddy_of k r = r + 2 ^ k"
  | r' where "r = r' + 2 ^ k" "2 ^ Suc k dvd r'" "buddy_of k r = r'"
proof -
  obtain q where q: "r = q * 2 ^ k"
    using assms by (auto elim: dvdE simp: mult.commute)
  show thesis
  proof (cases "even q")
    case True
    then show thesis
      using that(1) by (auto simp: q buddy_of_mult algebra_simps elim!: evenE)
  next
    case False
    then obtain t where "q = 2 * t + 1" by (blast elim: oddE)
    then have "r = t * 2 ^ Suc k + 2 ^ k" "buddy_of k r = t * 2 ^ Suc k"
      using buddy_of_mult [of k q] by (simp_all add: q algebra_simps)
    then show thesis
      using that(2) by simp
  qed
qed

lemma buddy_of_low: "2 ^ Suc k dvd r \<Longrightarrow> buddy_of k r = r + 2 ^ k"
proof -
  assume "2 ^ Suc k dvd r"
  then obtain t where "r = (2 * t) * 2 ^ k"
    by (auto elim!: dvdE)
  then show ?thesis
    using buddy_of_mult [of k "2 * t"] by simp
qed

lemma buddy_of_neq: "2 ^ k dvd r \<Longrightarrow> buddy_of k r \<noteq> r"
  by (elim buddy_of_cases [of k r]) auto

lemma buddy_of_dvd: "2 ^ k dvd r \<Longrightarrow> 2 ^ k dvd buddy_of k r"
  by (elim buddy_of_cases [of k r]) (auto dest: dvd_mult_right simp: power_Suc)

lemma buddy_of_buddy_of: "2 ^ k dvd r \<Longrightarrow> buddy_of k (buddy_of k r) = r"
  by (simp add: buddy_of_def xor.assoc)

lemma buddy_of_blk_Suc:
  assumes "2 ^ k dvd r"
  shows "blk r k \<union> blk (buddy_of k r) k = blk (min r (buddy_of k r)) (Suc k)"
    and "2 ^ Suc k dvd min r (buddy_of k r)"
  using assms by (cases rule: buddy_of_cases; auto simp: blk_Suc)+

lemma blk_aligned_subset:
  assumes "2 ^ j dvd s" "2 ^ k dvd r" "k \<le> j" "blk s j \<inter> blk r k \<noteq> {}"
  shows "blk r k \<subseteq> blk s j"
proof
  fix x assume x: "x \<in> blk r k"
  obtain y where y: "y \<in> blk s j" "y \<in> blk r k"
    using assms(4) by auto
  have "x div 2 ^ k = y div 2 ^ k"
    using x y(2) assms(2) by (simp add: in_blk_iff_div)
  moreover have "z div 2 ^ j = z div 2 ^ k div 2 ^ (j - k)" for z :: nat
    using assms(3) by (simp flip: div_mult2_eq power_add)
  ultimately have "x div 2 ^ j = y div 2 ^ j"
    by simp
  then show "x \<in> blk s j"
    using y(1) assms(1) by (simp add: in_blk_iff_div)
qed

lemma blk_subset_bound:
  assumes "blk s k \<subseteq> {..<n}"
  shows "s + 2 ^ k \<le> n"
proof -
  have pos: "0 < (2 :: nat) ^ k" by simp
  then have "s + 2 ^ k - 1 \<in> blk s k"
    unfolding blk_def atLeastLessThan_iff by linarith
  then have "s + 2 ^ k - 1 < n"
    using assms by blast
  with pos show ?thesis by linarith
qed

lemma blk_inj_start: "2 ^ k dvd s \<Longrightarrow> 2 ^ k dvd r \<Longrightarrow> blk s k \<inter> blk r k \<noteq> {} \<Longrightarrow> s = r"
  using blk_aligned_subset [of k s k r] blk_aligned_subset [of k r k s]
  by (force simp: blk_def)

subsection \<open>Tilings\<close>

definition tiling :: "nat set \<Rightarrow> (nat \<Rightarrow> nat) \<Rightarrow> nat \<Rightarrow> bool" where
  "tiling H ord n \<longleftrightarrow>
     (\<forall>h\<in>H. 2 ^ ord h dvd h \<and> h + 2 ^ ord h \<le> n) \<and>
     (\<forall>x<n. \<exists>h\<in>H. x \<in> blk h (ord h)) \<and>
     (\<forall>h\<in>H. \<forall>h'\<in>H. \<forall>x. x \<in> blk h (ord h) \<longrightarrow> x \<in> blk h' (ord h') \<longrightarrow> h = h')"

lemma tilingI:
  assumes "\<And>h. h \<in> H \<Longrightarrow> 2 ^ ord h dvd h \<and> h + 2 ^ ord h \<le> n"
    and "\<And>x. x < n \<Longrightarrow> \<exists>h\<in>H. x \<in> blk h (ord h)"
    and "\<And>h h' x. h \<in> H \<Longrightarrow> h' \<in> H \<Longrightarrow> x \<in> blk h (ord h) \<Longrightarrow> x \<in> blk h' (ord h') \<Longrightarrow> h = h'"
  shows "tiling H ord n"
  using assms unfolding tiling_def by (intro conjI ballI allI impI) blast+

lemma tilingD:
  assumes "tiling H ord n"
  shows "h \<in> H \<Longrightarrow> 2 ^ ord h dvd h" "h \<in> H \<Longrightarrow> h + 2 ^ ord h \<le> n"
    and "x < n \<Longrightarrow> \<exists>h\<in>H. x \<in> blk h (ord h)"
    and "h \<in> H \<Longrightarrow> h' \<in> H \<Longrightarrow> x \<in> blk h (ord h) \<Longrightarrow> x \<in> blk h' (ord h') \<Longrightarrow> h = h'"
  using assms unfolding tiling_def by blast+

lemma tiling_less: "tiling H ord n \<Longrightarrow> h \<in> H \<Longrightarrow> h < n"
  using tilingD(2) [of H ord n h] by (simp add: Suc_le_eq add_gr_0 less_le_trans [of h "h + 2 ^ ord h" n])

lemma finite_tiling: "tiling H ord n \<Longrightarrow> finite H"
  by (rule finite_subset [of _ "{..<n}"]) (auto dest: tiling_less)

text \<open>The central fact: the buddy of a block start, if it lies in the range, is a block start.\<close>

lemma buddy_head:
  assumes t: "tiling H ord n" and h: "h \<in> H" and b: "buddy_of (ord h) h < n"
  shows "buddy_of (ord h) h \<in> H" "ord (buddy_of (ord h) h) \<le> ord h"
proof -
  let ?k = "ord h" and ?b = "buddy_of (ord h) h"
  have al: "2 ^ ?k dvd h" "2 ^ ?k dvd ?b"
    using tilingD(1) [OF t h] buddy_of_dvd by auto
  obtain g where g: "g \<in> H" "?b \<in> blk g (ord g)"
    using tilingD(3) [OF t b] by auto
  have galign: "2 ^ ord g dvd g"
    using tilingD(1) [OF t g(1)] .
  have le: "ord g \<le> ?k"
  proof (rule ccontr)
    assume "\<not> ord g \<le> ?k"
    then have lt: "Suc ?k \<le> ord g" by simp
    have sub: "blk (min h ?b) (Suc ?k) \<subseteq> blk g (ord g)"
      by (rule blk_aligned_subset [OF galign buddy_of_blk_Suc(2) [OF al(1)] lt])
        (use g(2) buddy_of_blk_Suc(1) [OF al(1)] start_in_blk in blast)
    then have "h \<in> blk g (ord g)"
      using buddy_of_blk_Suc(1) [OF al(1)] start_in_blk by blast
    then have "g = h"
      using tilingD(4) [OF t g(1) h] by simp
    with lt show False by simp
  qed
  have "2 ^ ord g dvd ?b"
    using le al(2) by (auto intro: dvd_trans [OF le_imp_power_dvd])
  moreover have "?b \<in> blk ?b (ord g) \<inter> blk g (ord g)"
    using g(2) by simp
  ultimately have "?b = g"
    using galign by (intro blk_inj_start [of "ord g"]) blast+
  then show "?b \<in> H" "ord ?b \<le> ?k"
    using g(1) le by simp_all
qed

lemma tiling_cong:
  "tiling H ord n \<Longrightarrow> (\<And>h. h \<in> H \<Longrightarrow> ord' h = ord h) \<Longrightarrow> tiling H ord' n"
  by (auto simp: tiling_def)

lemma tiling_merge:
  assumes t: "tiling H ord n" and h: "h \<in> H" and b: "buddy_of (ord h) h < n"
    and eq: "ord (buddy_of (ord h) h) = ord h"
  defines "k \<equiv> ord h" and "g \<equiv> buddy_of (ord h) h"
  shows "tiling (H - {max h g}) (ord(min h g := Suc k)) n"
proof -
  have al: "2 ^ k dvd h" and gH: "g \<in> H"
    using tilingD(1) [OF t h] buddy_head(1) [OF t h b] by (auto simp: k_def g_def)
  have neq: "g \<noteq> h"
    using buddy_of_neq al by (simp add: g_def k_def)
  let ?m = "min h g"
  have un: "blk h k \<union> blk g k = blk ?m (Suc k)" and mal: "2 ^ Suc k dvd ?m"
    using buddy_of_blk_Suc [OF al] by (simp_all add: g_def k_def)
  have ord: "ord h = k" "ord g = k"
    using eq by (simp_all add: k_def g_def)
  have "blk h k \<union> blk g k \<subseteq> {..<n}"
    using tilingD(2) [OF t h] tilingD(2) [OF t gH] ord by (auto simp: blk_def)
  then have "blk ?m (Suc k) \<subseteq> {..<n}"
    by (simp only: un)
  then have fit: "?m + 2 ^ Suc k \<le> n"
    by (rule blk_subset_bound)
  have cover: "\<exists>h'\<in>H - {max h g}. x \<in> blk h' ((ord(?m := Suc k)) h')" if x: "x < n" for x
  proof -
    obtain h0 where h0: "h0 \<in> H" "x \<in> blk h0 (ord h0)"
      using tilingD(3) [OF t x] by auto
    show ?thesis
    proof (cases "h0 = h \<or> h0 = g")
      case True
      then have "x \<in> blk ?m (Suc k)"
        using h0(2) un ord by auto
      then show ?thesis
        using h gH neq by (intro bexI [of _ ?m]) (auto simp: min_def max_def)
    next
      case False
      then show ?thesis
        using h0 by (intro bexI [of _ h0]) (auto simp: min_def max_def)
    qed
  qed
  have old: "h0 \<in> {h, g}" if "h0 \<in> H" "x \<in> blk h0 (ord h0)" "x \<in> blk ?m (Suc k)" for h0 x
    using that un ord tilingD(4) [OF t that(1) h that(2)] tilingD(4) [OF t that(1) gH that(2)]
    by auto
  have uniq: "h1 = h2"
    if "h1 \<in> H - {max h g}" "h2 \<in> H - {max h g}"
      "x \<in> blk h1 ((ord(?m := Suc k)) h1)" "x \<in> blk h2 ((ord(?m := Suc k)) h2)" for h1 h2 x
    using that old [of h1 x] old [of h2 x] tilingD(4) [OF t, of h1 h2 x]
    by (auto simp: min_def max_def split: if_splits)
  have geo: "2 ^ (ord(?m := Suc k)) h' dvd h' \<and> h' + 2 ^ (ord(?m := Suc k)) h' \<le> n" if "h' \<in> H" for h'
    using tilingD(1,2) [OF t that] mal fit by auto
  show ?thesis
    by (rule tilingI) (use geo cover uniq in blast)+
qed

lemma tiling_split:
  assumes t: "tiling H ord n" and h: "h \<in> H" and k: "ord h = Suc k"
  shows "tiling (insert (h + 2 ^ k) H) (ord(h := k, h + 2 ^ k := k)) n" "h + 2 ^ k \<notin> H"
proof -
  let ?g = "h + 2 ^ k" and ?ord = "ord(h := k, h + 2 ^ k := k)"
  have al: "2 ^ Suc k dvd h"
    using tilingD(1) [OF t h] k by simp
  then have al': "2 ^ k dvd h" "2 ^ k dvd ?g"
    by (auto dest: dvd_mult_right simp: power_Suc)
  have gin: "?g \<in> blk h (Suc k)"
    by (simp add: blk_def)
  show nin: "?g \<notin> H"
    using tilingD(4) [OF t h, of ?g ?g] gin k by auto
  have fit: "h + 2 ^ Suc k \<le> n"
    using tilingD(2) [OF t h] k by simp
  have other: "?ord h' = ord h'" if "h' \<in> H" "h' \<noteq> h" for h'
    using that nin by auto
  have sub: "blk h (?ord h) \<subseteq> blk h (ord h)" "blk ?g (?ord ?g) \<subseteq> blk h (ord h)"
    by (auto simp: blk_def k)
  have geo: "2 ^ ?ord h' dvd h' \<and> h' + 2 ^ ?ord h' \<le> n" if "h' \<in> insert ?g H" for h'
    using that tilingD(1,2) [OF t, of h'] al' fit by auto
  have cover: "\<exists>h'\<in>insert ?g H. x \<in> blk h' (?ord h')" if x: "x < n" for x
  proof -
    obtain h0 where h0: "h0 \<in> H" "x \<in> blk h0 (ord h0)"
      using tilingD(3) [OF t x] by auto
    show ?thesis
    proof (cases "h0 = h")
      case True
      then have "x \<in> blk h k \<or> x \<in> blk ?g k"
        using h0(2) k by (simp add: blk_Suc)
      then show ?thesis using h by auto
    next
      case False
      then show ?thesis using h0 other [of h0] by (intro bexI [of _ h0]) auto
    qed
  qed
  have uniq: "h1 = h2" if h12: "h1 \<in> insert ?g H" "h2 \<in> insert ?g H"
    "x \<in> blk h1 (?ord h1)" "x \<in> blk h2 (?ord h2)" for h1 h2 x
  proof -
    have own: "x \<in> blk h (ord h)" if "h' = h \<or> h' = ?g" "x \<in> blk h' (?ord h')" for h'
      using that sub by auto
    have far: False if "h' \<in> H" "h' \<noteq> h" "x \<in> blk h' (?ord h')" "x \<in> blk h (ord h)" for h'
      using tilingD(4) [OF t that(1) h _ that(4)] that other by auto
    have half: "\<not> (x \<in> blk h k \<and> x \<in> blk ?g k)"
      using blk_Suc_disjoint by blast
    consider "h1 = h \<or> h1 = ?g" "h2 = h \<or> h2 = ?g" | "h1 \<in> H" "h1 \<noteq> h" "h1 \<noteq> ?g" | "h2 \<in> H" "h2 \<noteq> h" "h2 \<noteq> ?g"
      using h12 by auto
    then show ?thesis
    proof cases
      case 1
      then show ?thesis using half h12(3,4) by auto
    next
      case 2
      then have "h2 \<noteq> h \<and> h2 \<noteq> ?g"
        using far [OF 2(1,2) h12(3)] own [OF _ h12(4)] by blast
      then show ?thesis
        using tilingD(4) [OF t, of h1 h2 x] h12 2 by auto
    next
      case 3
      then have "h1 \<noteq> h \<and> h1 \<noteq> ?g"
        using far [OF 3(1,2) h12(4)] own [OF _ h12(3)] by blast
      then show ?thesis
        using tilingD(4) [OF t, of h1 h2 x] h12 3 by auto
    qed
  qed
  show "tiling (insert ?g H) ?ord n"
    by (rule tilingI) (use geo cover uniq in blast)+
qed

subsection \<open>Coalesced tilings\<close>

text \<open>No two buddies of equal order below \<open>m\<close> are both free.\<close>

definition coalesced :: "nat \<Rightarrow> nat set \<Rightarrow> (nat \<Rightarrow> nat) \<Rightarrow> nat set \<Rightarrow> bool" where
  "coalesced m H ord F \<longleftrightarrow>
     (\<forall>h\<in>H \<inter> F. ord h < m \<longrightarrow> buddy_of (ord h) h \<in> H \<inter> F \<longrightarrow> ord (buddy_of (ord h) h) \<noteq> ord h)"

text \<open>
  In a coalesced tiling an aligned range of order at most \<open>m\<close> that is entirely free lies inside one
  free block: the smallest block in it would otherwise have a free buddy of the same order.
\<close>

lemma coalesced_block:
  assumes t: "tiling H ord n" and c: "coalesced m H ord F" and k: "k \<le> m"
    and s: "2 ^ k dvd s" "s + 2 ^ k \<le> n"
    and free: "\<And>h. h \<in> H \<Longrightarrow> blk h (ord h) \<inter> blk s k \<noteq> {} \<Longrightarrow> h \<in> F"
  shows "\<exists>h\<in>H \<inter> F. k \<le> ord h \<and> blk s k \<subseteq> blk h (ord h)"
proof (rule ccontr)
  assume neg: "\<not> ?thesis"
  define C where "C = {h \<in> H. blk h (ord h) \<inter> blk s k \<noteq> {}}"
  have small: "ord h < k" if "h \<in> C" for h
  proof (rule ccontr)
    assume "\<not> ord h < k"
    then have "blk s k \<subseteq> blk h (ord h)"
      using that s(1) tilingD(1) [OF t] by (intro blk_aligned_subset) (auto simp: C_def)
    with neg free that \<open>\<not> ord h < k\<close> show False by (auto simp: C_def)
  qed
  have "s < n"
    using s(2) zero_less_power [of "2 :: nat" k] by linarith
  then obtain h0 where "h0 \<in> H" "s \<in> blk h0 (ord h0)"
    using tilingD(3) [OF t] by blast
  then have "h0 \<in> C"
    using start_in_blk by (auto simp: C_def)
  moreover have "finite C"
    using finite_tiling [OF t] by (simp add: C_def)
  ultimately obtain h where h: "h \<in> C" and least: "\<And>h'. h' \<in> C \<Longrightarrow> ord h \<le> ord h'"
    using arg_min_if_finite(1) [of C ord] arg_min_least [of C _ ord] by auto
  let ?b = "buddy_of (ord h) h"
  have hH: "h \<in> H" and al: "2 ^ ord h dvd h"
    using h tilingD(1) [OF t] by (auto simp: C_def)
  have "blk h (ord h) \<inter> blk s k \<noteq> {}"
    using h by (simp add: C_def)
  then have "blk (min h ?b) (Suc (ord h)) \<inter> blk s k \<noteq> {}"
    using buddy_of_blk_Suc(1) [OF al] by blast
  moreover have "Suc (ord h) \<le> k"
    using small [OF h] by simp
  ultimately have sub: "blk (min h ?b) (Suc (ord h)) \<subseteq> blk s k"
    using s(1) buddy_of_blk_Suc(2) [OF al] by (intro blk_aligned_subset) auto
  then have bs: "?b \<in> blk s k"
    using buddy_of_blk_Suc(1) [OF al] start_in_blk by blast
  then have "?b < n"
    using s(2) by (simp add: blk_def)
  note bud = buddy_head [OF t hH this]
  have "?b \<in> blk ?b (ord ?b) \<inter> blk s k"
    using bs by simp
  then have "?b \<in> C"
    using bud(1) unfolding C_def by blast
  then have "ord ?b = ord h"
    using least bud(2) by force
  moreover have "h \<in> F" "?b \<in> F"
    using free h \<open>?b \<in> C\<close> by (auto simp: C_def)
  ultimately show False
    using c hH bud(1) small [OF h] k by (auto simp: coalesced_def)
qed

end
