(* ===== verification/Buddy.thy ===== *)
theory Buddy
  imports Tiling Spinlock Allocator
begin

text \<open>
  The buddy allocator of \<open>src/mm/buddy.c\<close> with the data of \<open>include/memory/buddy.h\<close>.

  The page metadata area is one array for all pools, \<open>pages\<close>; a \<open>struct page *\<close> is an index into
  it (\<open>page - pagemeta_start\<close>), so \<open>page_metadata\<close> of a pool is the index of its first page.  A
  \<open>struct list_head\<close> of pages is the list of their indices in order; theory \<open>ListHead\<close> shows that
  the pointer operations behave so.  \<open>list_del\<close> through a page's own node removes it from the free list
  that holds it, and has no defined result for a page that is in none.

  The invariant \<open>buddy_inv\<close> says that the heads of blocks tile the pool, that the free lists hold
  exactly the free heads of their order, and that no two free buddies of one order stay unmerged.
\<close>

subsection \<open>Data\<close>

definition BUDDY_MAX_ORDER :: nat where
  "BUDDY_MAX_ORDER = 13"

definition START_MEM :: nat where
  "START_MEM = 0x82800000"

record page =
  allocated :: int
  order :: nat
  page_lock :: spinlock
  refcnt :: int
  page_flags :: uint64
  page_index :: uint64

record free_list =
  lists :: "nat list"
  num :: int

record phys_mem_pool =
  start_addr :: nat
  mem_size :: nat
  page_metadata :: nat
  pool_lock :: spinlock
  freelists :: "free_list list"

definition pg_get :: "page list \<Rightarrow> nat \<Rightarrow> page option" where
  "pg_get pages p = (if p < length pages then Some (pages ! p) else None)"

definition pg_upd :: "page list \<Rightarrow> nat \<Rightarrow> (page \<Rightarrow> page) \<Rightarrow> page list option" where
  "pg_upd pages p f = (if p < length pages then Some (pages[p := f (pages ! p)]) else None)"

subsection \<open>Free lists\<close>

definition fl_get :: "phys_mem_pool \<Rightarrow> nat \<Rightarrow> free_list option" where
  "fl_get pool k = (if k < length (freelists pool) then Some (freelists pool ! k) else None)"

definition fl_upd :: "phys_mem_pool \<Rightarrow> nat \<Rightarrow> (free_list \<Rightarrow> free_list) \<Rightarrow> phys_mem_pool option" where
  "fl_upd pool k f =
     (if k < length (freelists pool)
      then Some (pool\<lparr>freelists := (freelists pool)[k := f (freelists pool ! k)]\<rparr>) else None)"

text \<open>\<open>list_add(&page->list, &pool->freelists[k].lists)\<close>: insertion at the front.\<close>

definition fl_add :: "phys_mem_pool \<Rightarrow> nat \<Rightarrow> nat \<Rightarrow> phys_mem_pool option" where
  "fl_add pool k p = fl_upd pool k (\<lambda>fl. fl\<lparr>lists := p # lists fl\<rparr>)"

text \<open>\<open>list_del(&page->list)\<close>.\<close>

definition fl_del :: "phys_mem_pool \<Rightarrow> nat \<Rightarrow> phys_mem_pool option" where
  "fl_del pool p =
     (if \<exists>fl\<in>set (freelists pool). p \<in> set (lists fl)
      then Some (pool\<lparr>freelists := List.map (\<lambda>fl. fl\<lparr>lists := remove1 p (lists fl)\<rparr>) (freelists pool)\<rparr>)
      else None)"

definition num_add :: "phys_mem_pool \<Rightarrow> nat \<Rightarrow> int \<Rightarrow> phys_mem_pool option" where
  "num_add pool k d = fl_upd pool k (\<lambda>fl. fl\<lparr>num := num fl + d\<rparr>)"

subsection \<open>Page geometry\<close>

definition page_to_offset :: "phys_mem_pool \<Rightarrow> nat \<Rightarrow> nat option" where
  "page_to_offset pool p =
     (if page_metadata pool \<le> p then Some ((p - page_metadata pool) * PGSIZE) else None)"

definition offset_to_page :: "phys_mem_pool \<Rightarrow> nat \<Rightarrow> nat option" where
  "offset_to_page pool off = do {
     ASSERT (off mod PGSIZE = 0);
     Some (off div PGSIZE + page_metadata pool) }"

text \<open>The outer option is failure of an assertion, the inner one the \<open>NULL\<close> result.\<close>

definition get_buddy :: "page list \<Rightarrow> phys_mem_pool \<Rightarrow> nat \<Rightarrow> nat option option" where
  "get_buddy pages pool p = do {
     pg \<leftarrow> pg_get pages p;
     ASSERT (order pg < BUDDY_MAX_ORDER);
     this_off \<leftarrow> page_to_offset pool p;
     let buddy_off = this_off XOR 2 ^ (order pg + 12);
     if mem_size pool \<le> buddy_off then Some None
     else do {
       b \<leftarrow> offset_to_page pool buddy_off;
       Some (Some b) } }"

subsection \<open>Splitting and merging\<close>

text \<open>The body of the \<open>while\<close> loop of \<open>split_page\<close>.\<close>

definition split_step ::
  "page list \<Rightarrow> phys_mem_pool \<Rightarrow> nat \<Rightarrow> (page list \<times> phys_mem_pool) option" where
  "split_step pages pool p = do {
     pages \<leftarrow> pg_upd pages p (\<lambda>pg. pg\<lparr>order := order pg - 1\<rparr>);
     buddy \<leftarrow> get_buddy pages pool p;
     b \<leftarrow> buddy;
     bpg \<leftarrow> pg_get pages b;
     ASSERT (allocated bpg = 0);
     pg \<leftarrow> pg_get pages p;
     pages \<leftarrow> pg_upd pages b (\<lambda>bp. bp\<lparr>order := order pg\<rparr>);
     pool \<leftarrow> fl_add pool (order pg) b;
     pool \<leftarrow> num_add pool (order pg) 1;
     Some (pages, pool) }"

lemma pg_upd_Some_order:
  "pg_upd pages p f = Some pages' \<Longrightarrow> pages' ! q = (if q = p then f (pages ! p) else pages ! q)"
  by (auto simp: pg_upd_def split: if_splits)

lemma split_step_order:
  assumes "split_step pages pool p = Some (pages', pool')"
  shows "order (pages' ! p) = order (pages ! p) - 1"
  using assms
  by (auto simp: split_step_def bind_eq_Some_conv pg_get_def pg_upd_Some_order split: if_splits)

function split_loop ::
  "nat \<Rightarrow> page list \<Rightarrow> phys_mem_pool \<Rightarrow> nat \<Rightarrow> (page list \<times> phys_mem_pool) option" where
  "split_loop k pages pool p =
     (if k < order (pages ! p)
      then case split_step pages pool p of
             None \<Rightarrow> None
           | Some (pages', pool') \<Rightarrow> split_loop k pages' pool' p
      else Some (pages, pool))"
  by pat_completeness auto
termination
  by (relation "measure (\<lambda>(k, pages, pool, p). order (pages ! p))") (auto dest: split_step_order)

definition split_page ::
  "page list \<Rightarrow> phys_mem_pool \<Rightarrow> nat \<Rightarrow> nat \<Rightarrow> (page list \<times> phys_mem_pool \<times> nat) option" where
  "split_page pages pool k p = do {
     pg \<leftarrow> pg_get pages p;
     ASSERT (k < order pg);
     (pages, pool) \<leftarrow> split_loop k pages pool p;
     Some (pages, pool, p) }"

text \<open>
  One level of the recursion of \<open>merge_page\<close>: \<open>Inl\<close> returns the page, \<open>Inr\<close> recurses on the
  merged block.  The static variable \<open>max\<close> is only written and is left out.
\<close>

definition merge_step ::
  "page list \<Rightarrow> phys_mem_pool \<Rightarrow> nat \<Rightarrow> (page list \<times> phys_mem_pool \<times> (nat + nat)) option" where
  "merge_step pages pool p = do {
     pg \<leftarrow> pg_get pages p;
     if order pg = BUDDY_MAX_ORDER then Some (pages, pool, Inl p)
     else do {
       buddy \<leftarrow> get_buddy pages pool p;
       case buddy of
         None \<Rightarrow> Some (pages, pool, Inl p)
       | Some b \<Rightarrow> do {
           bpg \<leftarrow> pg_get pages b;
           if allocated bpg = 0 \<and> order bpg = order pg then do {
             pool \<leftarrow> fl_del pool b;
             pool \<leftarrow> num_add pool (order bpg) (- 1);
             let m = (if b < p then b else p);
             pages \<leftarrow> pg_upd pages m (\<lambda>mp. mp\<lparr>order := order mp + 1\<rparr>);
             Some (pages, pool, Inr m) }
           else Some (pages, pool, Inl p) } } }"

lemma get_buddy_order:
  "get_buddy pages pool p = Some r \<Longrightarrow> p < length pages \<and> order (pages ! p) < BUDDY_MAX_ORDER"
  by (simp add: get_buddy_def bind_eq_Some_conv pg_get_def split: if_splits)

lemma merge_step_Inr:
  assumes "merge_step pages pool p = Some (pages', pool', Inr m)"
  obtains b where "get_buddy pages pool p = Some (Some b)" "order (pages ! b) = order (pages ! p)"
    "m = (if b < p then b else p)" "pg_upd pages m (\<lambda>mp. mp\<lparr>order := order mp + 1\<rparr>) = Some pages'"
proof -
  obtain b where "get_buddy pages pool p = Some (Some b)"
    using assms
    by (cases "get_buddy pages pool p"; cases "the (get_buddy pages pool p)")
      (auto simp: merge_step_def pg_get_def split: if_splits)
  then show thesis
    using that assms
    by (simp add: merge_step_def pg_get_def Let_def bind_eq_Some_conv split: if_splits) blast+
qed

lemma merge_step_order:
  assumes "merge_step pages pool p = Some (pages', pool', Inr m)"
  shows "order (pages' ! m) = Suc (order (pages ! p))" "order (pages ! p) < BUDDY_MAX_ORDER"
  using assms by (auto elim!: merge_step_Inr dest: get_buddy_order simp: pg_upd_Some_order)

function merge_page ::
  "page list \<Rightarrow> phys_mem_pool \<Rightarrow> nat \<Rightarrow> (page list \<times> phys_mem_pool \<times> nat) option" where
  "merge_page pages pool p =
     (case merge_step pages pool p of
        None \<Rightarrow> None
      | Some (pages', pool', Inl q) \<Rightarrow> Some (pages', pool', q)
      | Some (pages', pool', Inr m) \<Rightarrow> merge_page pages' pool' m)"
  by pat_completeness auto
termination
  by (relation "measure (\<lambda>(pages, pool, p). BUDDY_MAX_ORDER - order (pages ! p))")
    (use merge_step_order in fastforce)+

declare split_loop.simps [simp del] merge_page.simps [simp del]

subsection \<open>Allocation and release\<close>

function buddy_scan ::
  "page list \<Rightarrow> phys_mem_pool \<Rightarrow> nat \<Rightarrow> (phys_mem_pool \<times> nat option) option" where
  "buddy_scan pages pool i =
     (if i \<le> BUDDY_MAX_ORDER then do {
        fl \<leftarrow> fl_get pool i;
        case lists fl of
          [] \<Rightarrow> buddy_scan pages pool (i + 1)
        | p # _ \<Rightarrow> do {
            pool \<leftarrow> fl_del pool p;
            pg \<leftarrow> pg_get pages p;
            pool \<leftarrow> num_add pool (order pg) (- 1);
            Some (pool, Some p) } }
      else Some (pool, None))"
  by pat_completeness auto
termination
  by (relation "measure (\<lambda>(pages, pool, i). Suc BUDDY_MAX_ORDER - i)") auto

declare buddy_scan.simps [simp del]

text \<open>The section of \<open>buddy_get_pages\<close> under the pool lock, from the scan to the assertion.\<close>

definition buddy_get_locked ::
  "page list \<Rightarrow> phys_mem_pool \<Rightarrow> nat \<Rightarrow> (page list \<times> phys_mem_pool \<times> nat option) option" where
  "buddy_get_locked pages pool k = do {
     (pool, found) \<leftarrow> buddy_scan pages pool k;
     case found of
       None \<Rightarrow> Some (pages, pool, None)
     | Some p \<Rightarrow> do {
         pg \<leftarrow> pg_get pages p;
         (pages, pool, p) \<leftarrow> (if k < order pg then split_page pages pool k p else Some (pages, pool, p));
         pages \<leftarrow> pg_upd pages p (\<lambda>pg. pg\<lparr>allocated := 1\<rparr>);
         pg \<leftarrow> pg_get pages p;
         ASSERT (order pg = k);
         Some (pages, pool, Some p) } }"

definition buddy_get_pages ::
  "thread_cpu \<Rightarrow> page list \<Rightarrow> phys_mem_pool \<Rightarrow> nat \<Rightarrow>
   (thread_cpu \<times> page list \<times> phys_mem_pool \<times> nat option) option" where
  "buddy_get_pages c pages pool k = do {
     c \<leftarrow> pop_off c;
     ASSERT (k \<le> BUDDY_MAX_ORDER);
     (c, l) \<leftarrow> acquire c (pool_lock pool);
     let pool = pool\<lparr>pool_lock := l\<rparr>;
     (pages, pool, page) \<leftarrow> buddy_get_locked pages pool k;
     (c, l) \<leftarrow> release c (pool_lock pool);
     Some (c, pages, pool\<lparr>pool_lock := l\<rparr>, page) }"

definition buddy_free_locked ::
  "page list \<Rightarrow> phys_mem_pool \<Rightarrow> nat \<Rightarrow> (page list \<times> phys_mem_pool) option" where
  "buddy_free_locked pages pool p = do {
     pages \<leftarrow> pg_upd pages p (\<lambda>pg. pg\<lparr>allocated := 0\<rparr>);
     pg \<leftarrow> pg_get pages p;
     (pages, pool, p) \<leftarrow> (if order pg < BUDDY_MAX_ORDER then merge_page pages pool p else Some (pages, pool, p));
     pg \<leftarrow> pg_get pages p;
     pool \<leftarrow> fl_add pool (order pg) p;
     pool \<leftarrow> num_add pool (order pg) 1;
     Some (pages, pool) }"

definition buddy_free_pages ::
  "thread_cpu \<Rightarrow> page list \<Rightarrow> phys_mem_pool \<Rightarrow> nat \<Rightarrow> (thread_cpu \<times> page list \<times> phys_mem_pool) option" where
  "buddy_free_pages c pages pool p = do {
     (c, l) \<leftarrow> acquire c (pool_lock pool);
     let pool = pool\<lparr>pool_lock := l\<rparr>;
     (pages, pool) \<leftarrow> buddy_free_locked pages pool p;
     (c, l) \<leftarrow> release c (pool_lock pool);
     Some (c, pages, pool\<lparr>pool_lock := l\<rparr>) }"

subsection \<open>Initialisation\<close>

definition sizeof_page :: nat where
  "sizeof_page = 80"

definition zero_page :: page where
  "zero_page = \<lparr>allocated = 0, order = 0, page_lock = \<lparr>lk_locked = False, lk_name = [], lk_cpu = None\<rparr>,
     refcnt = 0, page_flags = 0, page_index = 0\<rparr>"

definition init_page :: "page \<Rightarrow> page" where
  "init_page pg = pg\<lparr>allocated := 1, order := 0, page_lock := initlock ''page_lock''\<rparr>"

fun buddy_free_all ::
  "thread_cpu \<Rightarrow> page list \<Rightarrow> phys_mem_pool \<Rightarrow> nat list \<Rightarrow> (thread_cpu \<times> page list \<times> phys_mem_pool) option" where
  "buddy_free_all c pages pool [] = Some (c, pages, pool)"
| "buddy_free_all c pages pool (p # ps) = do {
     (c, pages, pool) \<leftarrow> buddy_free_pages c pages pool p;
     buddy_free_all c pages pool ps }"

text \<open>The code multiplies in 32 bits; the metadata of the pages lie in the memory they describe, which bounds their number below \<open>2 ^ 19\<close>, so
  the product does not overflow.\<close>

definition pool_free_mem :: "phys_mem_pool \<Rightarrow> int" where
  "pool_free_mem pool =
     sum_list (List.map (\<lambda>i. num (freelists pool ! i) * int PGSIZE * 2 ^ i) [0 ..< Suc BUDDY_MAX_ORDER])"

text \<open>
  \<open>init_buddy\<close>; \<open>meta\<close> is the address of \<open>pagemeta_start\<close>, which only the first assertion uses.
\<close>

definition init_buddy ::
  "nat \<Rightarrow> thread_cpu \<Rightarrow> page list \<Rightarrow> nat \<Rightarrow> nat \<Rightarrow> nat \<Rightarrow> (thread_cpu \<times> page list \<times> phys_mem_pool) option" where
  "init_buddy meta c pages start_page start page_num = do {
     ASSERT (meta + start_page * sizeof_page + page_num * sizeof_page < START_MEM);
     let pool = \<lparr>start_addr = start, mem_size = PGSIZE * page_num, page_metadata = start_page,
                 pool_lock = initlock ''buddy_phy_mem_pools_lock'',
                 freelists = replicate (Suc BUDDY_MAX_ORDER) \<lparr>lists = [], num = 0\<rparr>\<rparr>;
     ASSERT (start_page + page_num \<le> length pages);
     let pages = take start_page pages @ replicate page_num zero_page @ drop (start_page + page_num) pages;
     let pages = take start_page pages @ List.map init_page (take page_num (drop start_page pages))
                   @ drop (start_page + page_num) pages;
     (c, pages, pool) \<leftarrow> buddy_free_all c pages pool [start_page ..< start_page + page_num];
     ASSERT (pool_free_mem pool = int (mem_size pool));
     Some (c, pages, pool) }"


subsection \<open>Invariant\<close>

definition npages :: "phys_mem_pool \<Rightarrow> nat" where
  "npages pool = mem_size pool div PGSIZE"

definition ord_of :: "page list \<Rightarrow> phys_mem_pool \<Rightarrow> nat \<Rightarrow> nat" where
  "ord_of pages pool r = order (pages ! (page_metadata pool + r))"

definition alloc_of :: "page list \<Rightarrow> phys_mem_pool \<Rightarrow> nat \<Rightarrow> int" where
  "alloc_of pages pool r = allocated (pages ! (page_metadata pool + r))"

text \<open>
  \<open>buddy_core H X\<close>: \<open>H\<close> is the set of block heads (relative indices); \<open>X\<close> are the heads that are
  in hand, marked free but not in a list, as happens inside \<open>split_page\<close> and \<open>merge_page\<close>.
\<close>

definition free_heads :: "nat set \<Rightarrow> nat set \<Rightarrow> page list \<Rightarrow> phys_mem_pool \<Rightarrow> nat set" where
  "free_heads H X pages pool = {h \<in> H - X. alloc_of pages pool h = 0}"

definition lists_ok :: "nat set \<Rightarrow> nat set \<Rightarrow> page list \<Rightarrow> phys_mem_pool \<Rightarrow> bool" where
  "lists_ok H X pages pool \<longleftrightarrow> length (freelists pool) = Suc BUDDY_MAX_ORDER \<and>
     (\<forall>k\<le>BUDDY_MAX_ORDER. let fl = freelists pool ! k in
        distinct (lists fl) \<and> num fl = int (length (lists fl)) \<and>
        set (lists fl) =
          (+) (page_metadata pool) ` {h \<in> free_heads H X pages pool. ord_of pages pool h = k})"

definition buddy_core :: "nat set \<Rightarrow> nat set \<Rightarrow> page list \<Rightarrow> phys_mem_pool \<Rightarrow> bool" where
  "buddy_core H X pages pool \<longleftrightarrow>
     mem_size pool = npages pool * PGSIZE \<and> page_metadata pool + npages pool \<le> length pages \<and>
     tiling H (ord_of pages pool) (npages pool) \<and>
     (\<forall>h\<in>H. ord_of pages pool h \<le> BUDDY_MAX_ORDER) \<and>
     (\<forall>r<npages pool. alloc_of pages pool r \<in> {0, 1} \<and> (r \<notin> H - X \<longrightarrow> alloc_of pages pool r = 0)) \<and>
     X \<subseteq> H \<and> lists_ok H X pages pool \<and>
     coalesced BUDDY_MAX_ORDER H (ord_of pages pool) (free_heads H X pages pool)"

text \<open>Between operations nothing is in hand and the heads are determined by the state.\<close>

definition heads :: "page list \<Rightarrow> phys_mem_pool \<Rightarrow> nat set" where
  "heads pages pool = {r. r < npages pool \<and> (alloc_of pages pool r = 1 \<or>
     (\<exists>fl\<in>set (freelists pool). page_metadata pool + r \<in> set (lists fl)))}"

definition buddy_inv :: "page list \<Rightarrow> phys_mem_pool \<Rightarrow> bool" where
  "buddy_inv pages pool \<longleftrightarrow> buddy_core (heads pages pool) {} pages pool \<and> lk_free (pool_lock pool)"

text \<open>The abstract state: the allocated blocks, from first page to order, and the pages in no block.\<close>

definition blocks :: "page list \<Rightarrow> phys_mem_pool \<Rightarrow> nat \<Rightarrow> nat option" where
  "blocks pages pool r =
     (if r < npages pool \<and> alloc_of pages pool r = 1 then Some (ord_of pages pool r) else None)"

lemma buddy_coreD:
  assumes "buddy_core H X pages pool"
  shows "mem_size pool = npages pool * PGSIZE" "page_metadata pool + npages pool \<le> length pages"
    "tiling H (ord_of pages pool) (npages pool)" "h \<in> H \<Longrightarrow> ord_of pages pool h \<le> BUDDY_MAX_ORDER"
    "r < npages pool \<Longrightarrow> alloc_of pages pool r = 0 \<or> alloc_of pages pool r = 1"
    "r < npages pool \<Longrightarrow> r \<notin> H \<or> r \<in> X \<Longrightarrow> alloc_of pages pool r = 0"
    "X \<subseteq> H" "lists_ok H X pages pool"
    "coalesced BUDDY_MAX_ORDER H (ord_of pages pool) (free_heads H X pages pool)"
    "h \<in> H \<Longrightarrow> h < npages pool"
  using assms tiling_less unfolding buddy_core_def by blast+

subsection \<open>Effect of the primitive updates\<close>

text \<open>Metadata updates inside the pool, seen through \<open>ord_of\<close> and \<open>alloc_of\<close>.\<close>

lemma pg_upd_in_pool:
  assumes "page_metadata pool + npages pool \<le> length pages" "r < npages pool"
  shows "pg_upd pages (page_metadata pool + r) f =
           Some (pages[page_metadata pool + r := f (pages ! (page_metadata pool + r))])"
  using assms by (simp add: pg_upd_def)

lemma pg_get_in_pool:
  assumes "page_metadata pool + npages pool \<le> length pages" "r < npages pool"
  shows "pg_get pages (page_metadata pool + r) = Some (pages ! (page_metadata pool + r))"
  using assms by (simp add: pg_get_def)

lemma ord_of_upd:
  assumes "page_metadata pool + r < length pages"
  shows "ord_of (pages[page_metadata pool + r := pg]) pool = (ord_of pages pool)(r := order pg)"
    "alloc_of (pages[page_metadata pool + r := pg]) pool = (alloc_of pages pool)(r := allocated pg)"
  using assms by (auto simp: ord_of_def alloc_of_def fun_eq_iff)

lemma pool_views [simp]:
  "npages (pool\<lparr>freelists := fls\<rparr>) = npages pool" "npages (pool\<lparr>pool_lock := l\<rparr>) = npages pool"
  "ord_of pages (pool\<lparr>freelists := fls\<rparr>) = ord_of pages pool"
  "ord_of pages (pool\<lparr>pool_lock := l\<rparr>) = ord_of pages pool"
  "alloc_of pages (pool\<lparr>freelists := fls\<rparr>) = alloc_of pages pool"
  "alloc_of pages (pool\<lparr>pool_lock := l\<rparr>) = alloc_of pages pool"
  "free_heads H X pages (pool\<lparr>freelists := fls\<rparr>) = free_heads H X pages pool"
  "free_heads H X pages (pool\<lparr>pool_lock := l\<rparr>) = free_heads H X pages pool"
  by (simp_all add: npages_def ord_of_def alloc_of_def free_heads_def fun_eq_iff)

lemma get_buddy_core:
  assumes c: "page_metadata pool + npages pool \<le> length pages" "mem_size pool = npages pool * PGSIZE"
    and r: "r < npages pool" "ord_of pages pool r < BUDDY_MAX_ORDER"
  defines "b \<equiv> buddy_of (ord_of pages pool r) r"
  shows "get_buddy pages pool (page_metadata pool + r) =
           Some (if b < npages pool then Some (page_metadata pool + b) else None)"
proof -
  let ?o = "ord_of pages pool r"
  have off: "(r * PGSIZE) XOR 2 ^ (?o + 12) = b * PGSIZE"
    by (simp add: b_def offset_xor)
  have "order (pages ! (page_metadata pool + r)) = ?o"
    by (simp add: ord_of_def)
  then show ?thesis
    using c r off by (auto simp: get_buddy_def pg_get_def page_to_offset_def offset_to_page_def Let_def not_less)
qed

text \<open>An operation changes the free lists of a pool and nothing else of it.\<close>

definition same_pool :: "phys_mem_pool \<Rightarrow> phys_mem_pool \<Rightarrow> bool" where
  "same_pool pool pool' \<longleftrightarrow> pool'\<lparr>freelists := []\<rparr> = pool\<lparr>freelists := []\<rparr>"

lemma same_poolD:
  assumes "same_pool pool pool'"
  shows "page_metadata pool' = page_metadata pool" "npages pool' = npages pool"
    "mem_size pool' = mem_size pool" "pool_lock pool' = pool_lock pool" "start_addr pool' = start_addr pool"
    "ord_of pages pool' = ord_of pages pool" "alloc_of pages pool' = alloc_of pages pool"
  using assms by (cases pool; cases pool'; simp add: same_pool_def npages_def ord_of_def alloc_of_def fun_eq_iff)+

lemma same_pool_refl [simp]: "same_pool pool pool"
  by (simp add: same_pool_def)

lemma same_pool_freelists [simp]: "same_pool pool (pool\<lparr>freelists := fls\<rparr>)"
  by (simp add: same_pool_def)

lemma same_pool_trans: "same_pool a b \<Longrightarrow> same_pool b c \<Longrightarrow> same_pool a c"
  by (simp add: same_pool_def)

subsection \<open>Ghost transitions\<close>

text \<open>Taking a free block out of its list, and putting a block in hand back.\<close>

lemma lists_okD:
  assumes "lists_ok H X pages pool" "k \<le> BUDDY_MAX_ORDER"
  shows "distinct (lists (freelists pool ! k))"
    "num (freelists pool ! k) = int (length (lists (freelists pool ! k)))"
    "set (lists (freelists pool ! k)) =
       (+) (page_metadata pool) ` {h \<in> free_heads H X pages pool. ord_of pages pool h = k}"
    "k < length (freelists pool)" "length (freelists pool) = Suc BUDDY_MAX_ORDER"
  using assms by (auto simp: lists_ok_def Let_def)

lemma coalesced_mono: "coalesced m H ord F \<Longrightarrow> F' \<subseteq> F \<Longrightarrow> coalesced m H ord F'"
  unfolding coalesced_def by blast

lemma coalesced_cong:
  assumes "coalesced m H ord F" "F \<subseteq> H" "F \<subseteq> H'" and eq: "\<And>x. x \<in> F \<Longrightarrow> ord' x = ord x"
  shows "coalesced m H' ord' F"
proof -
  have "H \<inter> F = F" "H' \<inter> F = F"
    using assms(2,3) by auto
  then show ?thesis
    using assms(1) eq by (auto simp: coalesced_def)
qed

lemma core_take:
  assumes c: "buddy_core H X pages pool" and h: "h \<in> free_heads H X pages pool"
  defines "k \<equiv> ord_of pages pool h"
  shows "\<exists>pool1 pool'. fl_del pool (page_metadata pool + h) = Some pool1 \<and>
    num_add pool1 k (- 1) = Some pool' \<and> buddy_core H (insert h X) pages pool' \<and>
    same_pool pool pool'"
proof -
  let ?b = "page_metadata pool" and ?fls = "freelists pool"
  let ?fls1 = "List.map (\<lambda>fl. fl\<lparr>lists := remove1 (?b + h) (lists fl)\<rparr>) ?fls"
  let ?fls' = "?fls1[k := (?fls1 ! k)\<lparr>num := num (?fls1 ! k) - 1\<rparr>]"
  note l = lists_okD [OF buddy_coreD(8) [OF c]]
  have hH: "h \<in> H" and k: "k \<le> BUDDY_MAX_ORDER"
    using h buddy_coreD(4) [OF c] by (auto simp: free_heads_def k_def)
  have len: "length ?fls = Suc BUDDY_MAX_ORDER"
    using l(5) [OF k] .
  have mem: "?b + h \<in> set (lists (?fls ! j)) \<longleftrightarrow> j = k" if "j \<le> BUDDY_MAX_ORDER" for j
    using l(3) [OF that] h by (auto simp: k_def)
  have del: "fl_del pool (?b + h) = Some (pool\<lparr>freelists := ?fls1\<rparr>)"
    using mem [OF k] len k nth_mem [of k ?fls] unfolding fl_del_def by auto
  have add: "num_add (pool\<lparr>freelists := ?fls1\<rparr>) k (- 1) = Some (pool\<lparr>freelists := ?fls'\<rparr>)"
    using len k by (simp add: num_add_def fl_upd_def)
  have "free_heads H (insert h X) pages pool = free_heads H X pages pool - {h}"
    by (auto simp: free_heads_def)
  moreover have "lists (?fls' ! j) = remove1 (?b + h) (lists (?fls ! j))"
    "num (?fls' ! j) = num (?fls ! j) - (if j = k then 1 else 0)" if "j \<le> BUDDY_MAX_ORDER" for j
    using that len k by (auto simp: nth_list_update)
  moreover have "int (length (remove1 (?b + h) (lists (?fls ! j)))) =
      int (length (lists (?fls ! j))) - (if j = k then 1 else 0)" if "j \<le> BUDDY_MAX_ORDER" for j
    using mem [OF that] length_remove1_mem [of "?b + h" "lists (?fls ! j)"]
    by (auto simp: remove1_idem)
  ultimately have "lists_ok H (insert h X) pages (pool\<lparr>freelists := ?fls'\<rparr>)"
    using l(1,2,3) len unfolding lists_ok_def Let_def by (auto simp: set_remove1_eq)
  moreover have "h < npages pool \<and> alloc_of pages pool h = 0"
    using buddy_coreD(10) [OF c hH] h by (simp add: free_heads_def)
  ultimately have "buddy_core H (insert h X) pages (pool\<lparr>freelists := ?fls'\<rparr>)"
    using c hH unfolding buddy_core_def
    by (auto intro: coalesced_mono simp: free_heads_def)
  then show ?thesis
    using del add same_pool_freelists by blast
qed

lemma core_put:
  assumes c: "buddy_core H X pages pool" and h: "h \<in> X"
    and nb: "ord_of pages pool h < BUDDY_MAX_ORDER \<Longrightarrow>
       buddy_of (ord_of pages pool h) h \<in> free_heads H X pages pool \<Longrightarrow>
       ord_of pages pool (buddy_of (ord_of pages pool h) h) \<noteq> ord_of pages pool h"
  defines "k \<equiv> ord_of pages pool h"
  shows "\<exists>pool1 pool'. fl_add pool k (page_metadata pool + h) = Some pool1 \<and>
    num_add pool1 k 1 = Some pool' \<and> buddy_core H (X - {h}) pages pool' \<and>
    same_pool pool pool'"
proof -
  let ?b = "page_metadata pool" and ?fls = "freelists pool"
  let ?fls1 = "?fls[k := (?fls ! k)\<lparr>lists := (?b + h) # lists (?fls ! k)\<rparr>]"
  let ?fls' = "?fls1[k := (?fls1 ! k)\<lparr>num := num (?fls1 ! k) + 1\<rparr>]"
  note l = lists_okD [OF buddy_coreD(8) [OF c]]
  have hH: "h \<in> H" and k: "k \<le> BUDDY_MAX_ORDER"
    using h buddy_coreD(4,7) [OF c] by (auto simp: k_def)
  have al: "2 ^ k dvd h"
    using tilingD(1) [OF buddy_coreD(3) [OF c] hH] by (simp add: k_def)
  have len: "length ?fls = Suc BUDDY_MAX_ORDER"
    using l(5) [OF k] .
  have a0: "alloc_of pages pool h = 0"
    using buddy_coreD(6,10) [OF c] h hH by auto
  have add: "fl_add pool k (?b + h) = Some (pool\<lparr>freelists := ?fls1\<rparr>)"
    "num_add (pool\<lparr>freelists := ?fls1\<rparr>) k 1 = Some (pool\<lparr>freelists := ?fls'\<rparr>)"
    using len k by (simp_all add: num_add_def fl_add_def fl_upd_def)
  have F: "free_heads H (X - {h}) pages pool = insert h (free_heads H X pages pool)"
    using a0 hH by (auto simp: free_heads_def)
  have "lists (?fls' ! j) = (if j = k then (?b + h) # lists (?fls ! j) else lists (?fls ! j))"
    "num (?fls' ! j) = num (?fls ! j) + (if j = k then 1 else 0)" if "j \<le> BUDDY_MAX_ORDER" for j
    using that len k by (auto simp: nth_list_update)
  moreover have "?b + h \<notin> set (lists (?fls ! k))"
    using l(3) [OF k] h by (auto simp: free_heads_def)
  ultimately have "lists_ok H (X - {h}) pages (pool\<lparr>freelists := ?fls'\<rparr>)"
    using l(1,2,3) len F unfolding lists_ok_def Let_def by (auto simp: k_def)
  moreover have "coalesced BUDDY_MAX_ORDER H (ord_of pages pool) (insert h (free_heads H X pages pool))"
    unfolding coalesced_def
  proof (intro ballI impI notI)
    fix x assume x: "x \<in> H \<inter> insert h (free_heads H X pages pool)" "ord_of pages pool x < BUDDY_MAX_ORDER"
      and y: "buddy_of (ord_of pages pool x) x \<in> H \<inter> insert h (free_heads H X pages pool)"
      and eq: "ord_of pages pool (buddy_of (ord_of pages pool x) x) = ord_of pages pool x"
    let ?y = "buddy_of (ord_of pages pool x) x"
    have xal: "2 ^ ord_of pages pool x dvd x"
      using tilingD(1) [OF buddy_coreD(3) [OF c]] x by blast
    have "?y \<noteq> x" "buddy_of (ord_of pages pool x) ?y = x"
      using buddy_of_neq [OF xal] buddy_of_buddy_of [OF xal] by auto
    then show False
      using x y eq nb coalesced_def [of BUDDY_MAX_ORDER H "ord_of pages pool" "free_heads H X pages pool"]
        buddy_coreD(9) [OF c] by auto
  qed
  ultimately have "buddy_core H (X - {h}) pages (pool\<lparr>freelists := ?fls'\<rparr>)"
    using c hH a0 F unfolding buddy_core_def by auto
  then show ?thesis
    using add same_pool_freelists by blast
qed

text \<open>Metadata changes at heads in hand leave the lists alone.\<close>

lemma core_pages_upd:
  assumes c: "buddy_core H X pages pool" and len: "length pages' = length pages"
    and F: "free_heads H' X' pages' pool = free_heads H X pages pool"
    and ordF: "\<And>h. h \<in> free_heads H X pages pool \<Longrightarrow> ord_of pages' pool h = ord_of pages pool h"
    and til: "tiling H' (ord_of pages' pool) (npages pool)"
    and le: "\<And>h. h \<in> H' \<Longrightarrow> ord_of pages' pool h \<le> BUDDY_MAX_ORDER"
    and al: "\<And>r. r < npages pool \<Longrightarrow> alloc_of pages' pool r \<in> {0, 1} \<and> (r \<notin> H' - X' \<longrightarrow> alloc_of pages' pool r = 0)"
    and sub: "X' \<subseteq> H'" "free_heads H X pages pool \<subseteq> H'"
  shows "buddy_core H' X' pages' pool"
proof -
  have FH: "free_heads H X pages pool \<subseteq> H"
    by (auto simp: free_heads_def)
  have eq: "{h \<in> free_heads H X pages pool. ord_of pages' pool h = k} =
      {h \<in> free_heads H X pages pool. ord_of pages pool h = k}" for k
    using ordF by auto
  have "lists_ok H' X' pages' pool"
    using buddy_coreD(8) [OF c] unfolding lists_ok_def F eq .
  moreover have "coalesced BUDDY_MAX_ORDER H' (ord_of pages' pool) (free_heads H X pages pool)"
    using coalesced_cong [OF buddy_coreD(9) [OF c] FH sub(2)] ordF by blast
  ultimately show ?thesis
    using buddy_coreD(1,2) [OF c] til le al sub F len unfolding buddy_core_def by simp
qed

lemma core_split:
  assumes c: "buddy_core H X pages pool" and h: "h \<in> X" "ord_of pages pool h = Suc k"
    and len: "length pages' = length pages"
    and ord: "ord_of pages' pool = (ord_of pages pool)(h := k, h + 2 ^ k := k)"
    and al: "alloc_of pages' pool = alloc_of pages pool"
  shows "buddy_core (insert (h + 2 ^ k) H) (insert (h + 2 ^ k) X) pages' pool" "h + 2 ^ k \<notin> H"
proof -
  have hH: "h \<in> H"
    using buddy_coreD(7) [OF c] h by auto
  note t = tiling_split [OF buddy_coreD(3) [OF c] hH h(2)]
  show gn: "h + 2 ^ k \<notin> H" by (rule t(2))
  have F: "free_heads (insert (h + 2 ^ k) H) (insert (h + 2 ^ k) X) pages' pool = free_heads H X pages pool"
    using gn by (auto simp: free_heads_def al)
  show "buddy_core (insert (h + 2 ^ k) H) (insert (h + 2 ^ k) X) pages' pool"
  proof (rule core_pages_upd [OF c len F])
    show "tiling (insert (h + 2 ^ k) H) (ord_of pages' pool) (npages pool)"
      using t(1) by (simp add: ord)
    fix x
    show "ord_of pages' pool x = ord_of pages pool x" if "x \<in> free_heads H X pages pool"
      using that gn h(1) by (auto simp: ord free_heads_def)
    show "ord_of pages' pool x \<le> BUDDY_MAX_ORDER" if "x \<in> insert (h + 2 ^ k) H"
      using that buddy_coreD(4) [OF c, of x] buddy_coreD(4) [OF c hH] h(2) by (auto simp: ord)
    show "alloc_of pages' pool x \<in> {0, 1} \<and> (x \<notin> insert (h + 2 ^ k) H - insert (h + 2 ^ k) X \<longrightarrow> alloc_of pages' pool x = 0)"
      if "x < npages pool"
      using that buddy_coreD(5,6) [OF c, of x] gn by (auto simp: al)
  qed (use buddy_coreD(7) [OF c] in \<open>auto simp: free_heads_def\<close>)
qed

lemma core_merge:
  assumes c: "buddy_core H X pages pool" and h: "h \<in> X" "g \<in> X" "g = buddy_of k h"
    and k: "ord_of pages pool h = k" "ord_of pages pool g = k" "k < BUDDY_MAX_ORDER"
    and len: "length pages' = length pages"
    and ord: "ord_of pages' pool = (ord_of pages pool)(min h g := Suc k)"
    and al: "alloc_of pages' pool = alloc_of pages pool"
  shows "buddy_core (H - {max h g}) (X - {max h g}) pages' pool"
proof -
  have hH: "h \<in> H" "g \<in> H"
    using buddy_coreD(7) [OF c] h by auto
  have t: "tiling (H - {max h g}) ((ord_of pages pool)(min h g := Suc k)) (npages pool)"
    using tiling_merge [OF buddy_coreD(3) [OF c] hH(1)] h k buddy_coreD(10) [OF c hH(2)] by simp
  have F: "free_heads (H - {max h g}) (X - {max h g}) pages' pool = free_heads H X pages pool"
    using h by (auto simp: free_heads_def al max_def)
  show ?thesis
  proof (rule core_pages_upd [OF c len F])
    show "tiling (H - {max h g}) (ord_of pages' pool) (npages pool)"
      using t by (simp add: ord)
    fix x
    show "ord_of pages' pool x = ord_of pages pool x" if "x \<in> free_heads H X pages pool"
      using that h by (auto simp: ord free_heads_def min_def)
    show "ord_of pages' pool x \<le> BUDDY_MAX_ORDER" if "x \<in> H - {max h g}"
      using that buddy_coreD(4) [OF c, of x] k by (auto simp: ord)
    show "alloc_of pages' pool x \<in> {0, 1} \<and> (x \<notin> H - {max h g} - (X - {max h g}) \<longrightarrow> alloc_of pages' pool x = 0)"
      if "x < npages pool"
      using that buddy_coreD(5,6) [OF c, of x] h by (auto simp: al max_def)
  qed (use buddy_coreD(7) [OF c] h in \<open>auto simp: free_heads_def max_def\<close>)
qed

lemma core_alloc:
  assumes c: "buddy_core H X pages pool" and h: "h \<in> X" and len: "length pages' = length pages"
    and ord: "ord_of pages' pool = ord_of pages pool"
    and al: "alloc_of pages' pool = (alloc_of pages pool)(h := 1)"
  shows "buddy_core H (X - {h}) pages' pool"
proof (rule core_pages_upd [OF c len])
  have hH: "h \<in> H"
    using buddy_coreD(7) [OF c] h by auto
  show "free_heads H (X - {h}) pages' pool = free_heads H X pages pool"
    using h by (auto simp: free_heads_def al)
  fix r assume r: "r < npages pool"
  show "alloc_of pages' pool r \<in> {0, 1} \<and> (r \<notin> H - (X - {h}) \<longrightarrow> alloc_of pages' pool r = 0)"
    using buddy_coreD(5,6) [OF c r] hH by (auto simp: al)
qed (use buddy_coreD(3,4,7) [OF c] in \<open>auto simp: ord free_heads_def\<close>)

lemma core_dealloc:
  assumes c: "buddy_core H X pages pool" and h: "h < npages pool" "alloc_of pages pool h = 1"
    and len: "length pages' = length pages"
    and ord: "ord_of pages' pool = ord_of pages pool"
    and al: "alloc_of pages' pool = (alloc_of pages pool)(h := 0)"
  shows "buddy_core H (insert h X) pages' pool" "h \<in> H" "h \<notin> X"
proof -
  show hH: "h \<in> H" "h \<notin> X"
    using buddy_coreD(6) [OF c h(1)] h(2) by auto
  show "buddy_core H (insert h X) pages' pool"
  proof (rule core_pages_upd [OF c len])
    show "free_heads H (insert h X) pages' pool = free_heads H X pages pool"
      using h by (auto simp: free_heads_def al)
    fix r assume r: "r < npages pool"
    show "alloc_of pages' pool r \<in> {0, 1} \<and> (r \<notin> H - insert h X \<longrightarrow> alloc_of pages' pool r = 0)"
      using buddy_coreD(5,6) [OF c r] by (auto simp: al)
  qed (use hH buddy_coreD(3,4,7) [OF c] in \<open>auto simp: ord free_heads_def\<close>)
qed

subsection \<open>What the operations leave alone\<close>

definition meta_frame :: "phys_mem_pool \<Rightarrow> page list \<Rightarrow> page list \<Rightarrow> bool" where
  "meta_frame pool pages pages' \<longleftrightarrow> length pages' = length pages \<and>
     (\<forall>i<length pages. (pages' ! i)\<lparr>allocated := 0, order := 0\<rparr> = (pages ! i)\<lparr>allocated := 0, order := 0\<rparr> \<and>
        (i < page_metadata pool \<or> page_metadata pool + npages pool \<le> i \<longrightarrow> pages' ! i = pages ! i))"

definition steady :: "phys_mem_pool \<Rightarrow> page list \<Rightarrow> page list \<Rightarrow> bool" where
  "steady pool pages pages' \<longleftrightarrow> meta_frame pool pages pages' \<and>
     alloc_of pages' pool = alloc_of pages pool \<and>
     (\<forall>r<npages pool. alloc_of pages pool r = 1 \<longrightarrow> ord_of pages' pool r = ord_of pages pool r)"

lemma meta_frame_fields:
  assumes "meta_frame pool pages pages'" "i < length pages"
  shows "refcnt (pages' ! i) = refcnt (pages ! i)" "page_lock (pages' ! i) = page_lock (pages ! i)"
    "page_flags (pages' ! i) = page_flags (pages ! i)" "page_index (pages' ! i) = page_index (pages ! i)"
    "i < page_metadata pool \<or> page_metadata pool + npages pool \<le> i \<Longrightarrow> pages' ! i = pages ! i"
    "length pages' = length pages"
proof -
  have "(pages' ! i)\<lparr>allocated := 0, order := 0\<rparr> = (pages ! i)\<lparr>allocated := 0, order := 0\<rparr>"
    using assms by (simp add: meta_frame_def)
  then show "refcnt (pages' ! i) = refcnt (pages ! i)" "page_lock (pages' ! i) = page_lock (pages ! i)"
    "page_flags (pages' ! i) = page_flags (pages ! i)" "page_index (pages' ! i) = page_index (pages ! i)"
    by (cases "pages' ! i"; cases "pages ! i"; simp)+
qed (use assms in \<open>auto simp: meta_frame_def\<close>)

lemma meta_frame_refl [simp]: "meta_frame pool pages pages"
  by (simp add: meta_frame_def)

lemma meta_frame_trans:
  assumes "meta_frame pool a b" "meta_frame pool b c"
  shows "meta_frame pool a c"
  unfolding meta_frame_def
proof (intro conjI allI impI)
  show "length c = length a"
    using assms by (simp add: meta_frame_def)
  fix i assume i: "i < length a"
  then have "i < length b"
    using assms by (simp add: meta_frame_def)
  with i assms show "(c ! i)\<lparr>allocated := 0, order := 0\<rparr> = (a ! i)\<lparr>allocated := 0, order := 0\<rparr>"
    by (simp add: meta_frame_def)
  show "c ! i = a ! i" if "i < page_metadata pool \<or> page_metadata pool + npages pool \<le> i"
    using that i \<open>i < length b\<close> assms by (auto simp: meta_frame_def)
qed

lemma meta_frame_upd:
  assumes "r < npages pool" "page_metadata pool + npages pool \<le> length pages"
    "pg\<lparr>allocated := 0, order := 0\<rparr> = (pages ! (page_metadata pool + r))\<lparr>allocated := 0, order := 0\<rparr>"
  shows "meta_frame pool pages (pages[page_metadata pool + r := pg])"
  using assms by (auto simp: meta_frame_def nth_list_update)

lemma steady_refl [simp]: "steady pool pages pages"
  by (simp add: steady_def)

lemma steady_trans: "steady pool a b \<Longrightarrow> steady pool b c \<Longrightarrow> steady pool a c"
  by (auto simp: steady_def intro: meta_frame_trans)

lemma meta_frame_same_pool: "same_pool pool pool' \<Longrightarrow> meta_frame pool' = meta_frame pool"
  by (simp add: meta_frame_def fun_eq_iff same_poolD [of pool pool'])

lemma steady_same_pool: "same_pool pool pool' \<Longrightarrow> steady pool' = steady pool"
  by (simp add: steady_def meta_frame_same_pool fun_eq_iff same_poolD [of pool pool'])

lemma steady_order_upd:
  assumes "r < npages pool" "page_metadata pool + npages pool \<le> length pages" "alloc_of pages pool r = 0"
  shows "steady pool pages (pages[page_metadata pool + r := (pages ! (page_metadata pool + r))\<lparr>order := k\<rparr>])"
  using assms meta_frame_upd [OF assms(1,2)]
  by (auto simp: steady_def ord_of_upd) (simp add: alloc_of_def fun_upd_idem)

subsection \<open>Correctness of splitting and merging\<close>

lemma split_step_core:
  assumes c: "buddy_core H X pages pool" and h: "h \<in> X" "ord_of pages pool h = Suc k"
  shows "\<exists>H' pages' pool'. split_step pages pool (page_metadata pool + h) = Some (pages', pool') \<and>
    buddy_core H' X pages' pool' \<and> steady pool pages pages' \<and> same_pool pool pool' \<and>
    ord_of pages' pool h = k"
proof -
  let ?b = "page_metadata pool" and ?g = "h + 2 ^ k"
  define p1 where "p1 = pages[?b + h := (pages ! (?b + h))\<lparr>order := k\<rparr>]"
  define p2 where "p2 = p1[?b + ?g := (p1 ! (?b + ?g))\<lparr>order := k\<rparr>]"
  note D = buddy_coreD [OF c]
  have hH: "h \<in> H" and hn: "h < npages pool" and h0: "alloc_of pages pool h = 0"
    using D(6,7,10) h by auto
  have al: "2 ^ Suc k dvd h" and fit: "h + 2 ^ Suc k \<le> npages pool" and le: "Suc k \<le> BUDDY_MAX_ORDER"
    using tilingD(1,2) [OF D(3) hH] D(4) [OF hH] h(2) by auto
  have gn: "?g < npages pool"
  proof -
    have "0 < (2 :: nat) ^ k" by simp
    with fit show ?thesis unfolding power_Suc by linarith
  qed
  have bud: "buddy_of k h = ?g"
    by (rule buddy_of_low [OF al])
  have "?g \<notin> H"
    using tiling_split(2) [OF D(3) hH h(2)] .
  then have g0: "alloc_of pages pool ?g = 0"
    using D(6) gn by simp
  have len: "?b + npages pool \<le> length p1" "?b + npages pool \<le> length p2"
    using D(2) by (simp_all add: p1_def p2_def)
  have o1: "ord_of p1 pool = (ord_of pages pool)(h := k)" "alloc_of p1 pool = alloc_of pages pool"
    using D(2) hn by (auto simp: p1_def ord_of_upd alloc_of_def fun_eq_iff nth_list_update)
  have o2: "ord_of p2 pool = (ord_of pages pool)(h := k, ?g := k)" "alloc_of p2 pool = alloc_of pages pool"
    using len gn o1 ord_of_upd [of pool ?g p1] by (auto simp: p2_def alloc_of_def fun_eq_iff)
  have c2: "buddy_core (insert ?g H) (insert ?g X) p2 pool"
    by (rule core_split(1) [OF c h _ o2]) (simp add: p1_def p2_def)
  have "buddy_of k ?g = h"
    using bud buddy_of_buddy_of [of k h] al by (metis dvd_mult_right power_Suc)
  then have nb: "buddy_of (ord_of p2 pool ?g) ?g \<notin> free_heads (insert ?g H) (insert ?g X) p2 pool"
    using h(1) by (simp add: o2 free_heads_def)
  have "?g \<notin> X"
    using \<open>?g \<notin> H\<close> D(7) by auto
  then obtain pool1 pool' where put: "fl_add pool k (?b + ?g) = Some pool1" "num_add pool1 k 1 = Some pool'"
    "buddy_core (insert ?g H) X p2 pool'" "same_pool pool pool'"
    using core_put [OF c2, of ?g] nb by (auto simp: o2)
  have st: "steady pool pages p2"
    using steady_order_upd [OF hn D(2) h0, of k] steady_order_upd [OF gn len(1), of k] g0 o1(2)
    by (auto intro: steady_trans simp flip: p1_def p2_def)
  have gb: "get_buddy p1 pool (?b + h) = Some (Some (?b + ?g))"
    using get_buddy_core [OF len(1) D(1) hn] o1(1) le bud gn by simp
  have upd: "pg_upd pages (?b + h) (\<lambda>pg. pg\<lparr>order := order pg - 1\<rparr>) = Some p1"
    using pg_upd_in_pool [OF D(2) hn] h(2) by (simp add: p1_def ord_of_def)
  have "split_step pages pool (?b + h) = Some (p2, pool')"
    using put(1,2) gb pg_upd_in_pool [OF len(1) gn]
      pg_get_in_pool [OF len(1) gn] pg_get_in_pool [OF len(1) hn] g0 fun_cong [OF o1(1), of h] fun_cong [OF o1(2), of ?g] upd
    by (simp add: split_step_def ord_of_def alloc_of_def flip: p2_def)
  moreover have "ord_of p2 pool h = k"
    by (simp add: o2)
  ultimately show ?thesis
    using put(3,4) st by blast
qed

lemma split_loop_core:
  assumes "buddy_core H X pages pool" "h \<in> X" "ord_of pages pool h = k + d"
  shows "\<exists>H' pages' pool'. split_loop k pages pool (page_metadata pool + h) = Some (pages', pool') \<and>
    buddy_core H' X pages' pool' \<and> steady pool pages pages' \<and> same_pool pool pool' \<and>
    ord_of pages' pool h = k"
  using assms
proof (induction d arbitrary: H pages pool)
  case 0
  then have "split_loop k pages pool (page_metadata pool + h) = Some (pages, pool)"
    by (simp add: split_loop.simps [of k pages] ord_of_def)
  with 0 show ?case by auto
next
  case (Suc d)
  let ?p = "page_metadata pool + h"
  obtain H1 pages1 pool1 where s: "split_step pages pool ?p = Some (pages1, pool1)"
    "buddy_core H1 X pages1 pool1" "steady pool pages pages1" "same_pool pool pool1"
    "ord_of pages1 pool h = k + d"
    using split_step_core [OF Suc.prems(1,2), of "k + d"] Suc.prems(3) by auto
  note sp = same_poolD [OF s(4)]
  obtain H' pages' pool' where l: "split_loop k pages1 pool1 ?p = Some (pages', pool')"
    "buddy_core H' X pages' pool'" "steady pool1 pages1 pages'" "same_pool pool1 pool'"
    "ord_of pages' pool1 h = k"
    using Suc.IH [OF s(2) Suc.prems(2)] s(5) sp by auto
  have "split_loop k pages pool ?p = Some (pages', pool')"
    using Suc.prems(3) s(1) l(1) by (simp add: split_loop.simps [of k pages] ord_of_def)
  moreover have "steady pool pages pages'"
    using steady_trans [OF s(3)] l(3) steady_same_pool [OF s(4)] by simp
  ultimately show ?case
    using l(2,5) sp same_pool_trans [OF s(4) l(4)] by auto
qed

text \<open>\<open>merge_page\<close> stops at a block whose buddy cannot be merged.\<close>

definition unmergeable :: "nat set \<Rightarrow> page list \<Rightarrow> phys_mem_pool \<Rightarrow> nat \<Rightarrow> bool" where
  "unmergeable H pages pool h \<longleftrightarrow>
     (ord_of pages pool h < BUDDY_MAX_ORDER \<longrightarrow>
      buddy_of (ord_of pages pool h) h \<in> free_heads H {h} pages pool \<longrightarrow>
      ord_of pages pool (buddy_of (ord_of pages pool h) h) \<noteq> ord_of pages pool h)"

lemma merge_step_core:
  assumes c: "buddy_core H {h} pages pool"
  shows "(\<exists>pages' pool' H' m. merge_step pages pool (page_metadata pool + h) = Some (pages', pool', Inr (page_metadata pool + m)) \<and>
      buddy_core H' {m} pages' pool' \<and> steady pool pages pages' \<and> same_pool pool pool' \<and>
      ord_of pages' pool m = Suc (ord_of pages pool h)) \<or>
    merge_step pages pool (page_metadata pool + h) = Some (pages, pool, Inl (page_metadata pool + h)) \<and>
      unmergeable H pages pool h"
    (is "?merged \<or> ?stop")
proof -
  let ?b = "page_metadata pool" and ?k = "ord_of pages pool h"
  let ?g = "buddy_of ?k h"
  note D = buddy_coreD [OF c]
  have hH: "h \<in> H" and hn: "h < npages pool" and h0: "alloc_of pages pool h = 0"
    using D(6,7,10) by auto
  have ph: "pg_get pages (?b + h) = Some (pages ! (?b + h))" "order (pages ! (?b + h)) = ?k"
    using pg_get_in_pool [OF D(2) hn] by (simp_all add: ord_of_def)
  consider "?k = BUDDY_MAX_ORDER" | "?k < BUDDY_MAX_ORDER" "\<not> ?g < npages pool"
    | "?k < BUDDY_MAX_ORDER" "?g < npages pool" "\<not> (alloc_of pages pool ?g = 0 \<and> ord_of pages pool ?g = ?k)"
    | "?k < BUDDY_MAX_ORDER" "?g < npages pool" "alloc_of pages pool ?g = 0" "ord_of pages pool ?g = ?k"
    using D(4) [OF hH] by fastforce
  then show ?thesis
  proof cases
    case 1
    then show ?thesis using ph by (simp add: merge_step_def unmergeable_def)
  next
    case 2
    then have "get_buddy pages pool (?b + h) = Some None"
      using get_buddy_core [OF D(2,1) hn] by simp
    moreover have "?g \<notin> H" using 2 D(10) by blast
    ultimately show ?thesis using 2 ph by (simp add: merge_step_def unmergeable_def free_heads_def)
  next
    case 3
    then have "get_buddy pages pool (?b + h) = Some (Some (?b + ?g))"
      using get_buddy_core [OF D(2,1) hn] by simp
    moreover have "pg_get pages (?b + ?g) = Some (pages ! (?b + ?g))"
      "order (pages ! (?b + ?g)) = ord_of pages pool ?g" "allocated (pages ! (?b + ?g)) = alloc_of pages pool ?g"
      using pg_get_in_pool [OF D(2) 3(2)] by (simp_all add: ord_of_def alloc_of_def)
    ultimately have "merge_step pages pool (?b + h) = Some (pages, pool, Inl (?b + h))"
      using 3 ph by (auto simp: merge_step_def)
    then show ?thesis
      using 3 by (auto simp: unmergeable_def free_heads_def)
  next
    case 4
    have al: "2 ^ ?k dvd h" using tilingD(1) [OF D(3) hH] .
    have gne: "?g \<noteq> h" using buddy_of_neq [OF al] .
    have gF: "?g \<in> free_heads H {h} pages pool"
      using buddy_head(1) [OF D(3) hH 4(2)] gne 4 by (simp add: free_heads_def)
    obtain pool1 pool' where take: "fl_del pool (?b + ?g) = Some pool1" "num_add pool1 ?k (- 1) = Some pool'"
      "buddy_core H {?g, h} pages pool'" "same_pool pool pool'"
      using core_take [OF c gF] 4(4) by auto
    note sp = same_poolD [OF take(4)]
    let ?m = "min h ?g"
    let ?p1 = "pages[?b + ?m := (pages ! (?b + ?m))\<lparr>order := Suc ?k\<rparr>]"
    have mn: "?m < npages pool" and m0: "alloc_of pages pool ?m = 0" and mk: "ord_of pages pool ?m = ?k"
      using hn 4 h0 by (auto simp: min_def)
    have o1: "ord_of ?p1 pool = (ord_of pages pool)(?m := Suc ?k)" "alloc_of ?p1 pool = alloc_of pages pool"
      using D(2) mn by (auto simp: ord_of_upd alloc_of_def fun_eq_iff nth_list_update)
    have "buddy_core (H - {max h ?g}) ({?g, h} - {max h ?g}) ?p1 pool'"
      by (rule core_merge [OF take(3), of h ?g ?k]) (use 4 o1 sp in simp_all)
    moreover have "{?g, h} - {max h ?g} = {?m}"
      using gne by (auto simp: max_def min_def)
    ultimately have core: "buddy_core (H - {max h ?g}) {?m} ?p1 pool'" by simp
    have "get_buddy pages pool (?b + h) = Some (Some (?b + ?g))"
      using get_buddy_core [OF D(2,1) hn] 4 by simp
    moreover have "(if ?b + ?g < ?b + h then ?b + ?g else ?b + h) = ?b + ?m"
      by (simp add: min_def)
    moreover have "pg_upd pages (?b + ?m) (\<lambda>mp. mp\<lparr>order := order mp + 1\<rparr>) = Some ?p1"
      using pg_upd_in_pool [OF D(2) mn] mk by (simp add: ord_of_def)
    moreover have "pg_get pages (?b + ?g) = Some (pages ! (?b + ?g))"
      "order (pages ! (?b + ?g)) = ord_of pages pool ?g" "allocated (pages ! (?b + ?g)) = alloc_of pages pool ?g"
      using pg_get_in_pool [OF D(2) 4(2)] by (simp_all add: ord_of_def alloc_of_def)
    ultimately have step: "merge_step pages pool (?b + h) = Some (?p1, pool', Inr (?b + ?m))"
      using 4 ph take(1,2) by (simp add: merge_step_def Let_def)
    have "ord_of ?p1 pool ?m = Suc ?k"
      by (simp add: o1(1))
    then show ?thesis
      using step core steady_order_upd [OF mn D(2) m0, of "Suc ?k"] take(4) by blast
  qed
qed

lemma merge_page_core:
  assumes "buddy_core H {h} pages pool"
  shows "\<exists>H' m pages' pool'. merge_page pages pool (page_metadata pool + h) = Some (pages', pool', page_metadata pool + m) \<and>
    buddy_core H' {m} pages' pool' \<and> steady pool pages pages' \<and> same_pool pool pool' \<and>
    unmergeable H' pages' pool' m"
  using assms
proof (induction "BUDDY_MAX_ORDER - ord_of pages pool h" arbitrary: H h pages pool rule: less_induct)
  case less
  let ?b = "page_metadata pool"
  from merge_step_core [OF less.prems] show ?case
  proof (elim disjE exE conjE)
    fix pages1 pool1 H1 m
    assume s: "merge_step pages pool (?b + h) = Some (pages1, pool1, Inr (?b + m))"
      "buddy_core H1 {m} pages1 pool1" "steady pool pages pages1" "same_pool pool pool1"
      "ord_of pages1 pool m = Suc (ord_of pages pool h)"
    note sp = same_poolD [OF s(4)]
    have "ord_of pages1 pool1 m \<le> BUDDY_MAX_ORDER"
      using buddy_coreD(4,7) [OF s(2)] by simp
    then have "BUDDY_MAX_ORDER - ord_of pages1 pool1 m < BUDDY_MAX_ORDER - ord_of pages pool h"
      using s(5) sp by simp
    from less.hyps [OF this s(2)] obtain H' m' pages' pool' where
      r: "merge_page pages1 pool1 (?b + m) = Some (pages', pool', ?b + m')"
        "buddy_core H' {m'} pages' pool'" "steady pool1 pages1 pages'" "same_pool pool1 pool'"
        "unmergeable H' pages' pool' m'"
      using sp by auto
    have "merge_page pages pool (?b + h) = Some (pages', pool', ?b + m')"
      using s(1) r(1) by (simp add: merge_page.simps [of pages])
    moreover have "steady pool pages pages'"
      using steady_trans [OF s(3)] r(3) steady_same_pool [OF s(4)] by simp
    ultimately show ?thesis
      using r(2,5) same_pool_trans [OF s(4) r(4)] by blast
  next
    assume s: "merge_step pages pool (?b + h) = Some (pages, pool, Inl (?b + h))" "unmergeable H pages pool h"
    then have "merge_page pages pool (?b + h) = Some (pages, pool, ?b + h)"
      by (simp add: merge_page.simps [of pages])
    then show ?thesis
      using s(2) less.prems steady_refl same_pool_refl by blast
  qed
qed

subsection \<open>The invariant and the heads\<close>

lemma heads_core:
  assumes c: "buddy_core H {} pages pool"
  shows "heads pages pool = H"
proof (intro set_eqI iffI)
  note D = buddy_coreD [OF c] and L = lists_okD [OF buddy_coreD(8) [OF c]]
  have len: "length (freelists pool) = Suc BUDDY_MAX_ORDER"
    using L(5) [of 0] by simp
  fix r
  show "r \<in> H" if "r \<in> heads pages pool"
  proof -
    from that consider "r < npages pool" "alloc_of pages pool r = 1"
      | fl where "fl \<in> set (freelists pool)" "page_metadata pool + r \<in> set (lists fl)"
      by (auto simp: heads_def)
    then show ?thesis
    proof cases
      case 1
      then show ?thesis using D(6) [of r] by auto
    next
      case 2
      then obtain k where "k \<le> BUDDY_MAX_ORDER" "fl = freelists pool ! k"
        using len by (auto simp: in_set_conv_nth less_Suc_eq_le)
      then show ?thesis using 2(2) L(3) [of k] by (auto simp: free_heads_def)
    qed
  qed
  show "r \<in> heads pages pool" if "r \<in> H"
  proof (cases "alloc_of pages pool r = 1")
    case False
    then have "r \<in> free_heads H {} pages pool"
      using that D(5) [of r] D(10) by (auto simp: free_heads_def)
    then have "page_metadata pool + r \<in> set (lists (freelists pool ! ord_of pages pool r))"
      using L(3) [OF D(4) [OF that]] by auto
    moreover have "freelists pool ! ord_of pages pool r \<in> set (freelists pool)"
      using D(4) [OF that] len by simp
    ultimately show ?thesis
      using D(10) [OF that] by (auto simp: heads_def)
  qed (use D(10) [OF that] in \<open>simp add: heads_def\<close>)
qed

lemma core_lock: "buddy_core H X pages (pool\<lparr>pool_lock := l\<rparr>) = buddy_core H X pages pool"
  by (simp add: buddy_core_def lists_ok_def)

lemma buddy_invI: "buddy_core H {} pages pool \<Longrightarrow> lk_free (pool_lock pool) \<Longrightarrow> buddy_inv pages pool"
  by (simp add: buddy_inv_def heads_core)

lemma buddy_invE:
  assumes "buddy_inv pages pool"
  obtains H where "buddy_core H {} pages pool" "lk_free (pool_lock pool)"
  using assms by (auto simp: buddy_inv_def)

subsection \<open>Correctness of allocation\<close>

lemma buddy_scan_core:
  assumes c: "buddy_core H {} pages pool" and i: "i \<le> Suc BUDDY_MAX_ORDER"
  shows "(\<exists>h pool'. buddy_scan pages pool i = Some (pool', Some (page_metadata pool + h)) \<and>
      h \<in> free_heads H {} pages pool \<and> i \<le> ord_of pages pool h \<and>
      buddy_core H {h} pages pool' \<and> same_pool pool pool') \<or>
    buddy_scan pages pool i = Some (pool, None) \<and> (\<forall>h\<in>free_heads H {} pages pool. ord_of pages pool h < i)"
  using i
proof (induction "Suc BUDDY_MAX_ORDER - i" arbitrary: i)
  case 0
  then have "i = Suc BUDDY_MAX_ORDER" by simp
  then show ?case
    using buddy_coreD(4) [OF c] by (auto simp: buddy_scan.simps free_heads_def less_Suc_eq_le)
next
  case (Suc d)
  then have le: "i \<le> BUDDY_MAX_ORDER" by simp
  note L = lists_okD [OF buddy_coreD(8) [OF c] le]
  have get: "fl_get pool i = Some (freelists pool ! i)"
    using L(4) by (simp add: fl_get_def)
  show ?case
  proof (cases "lists (freelists pool ! i)")
    case Nil
    then have "buddy_scan pages pool i = buddy_scan pages pool (Suc i)"
      using le get by (simp add: buddy_scan.simps [of pages pool i])
    moreover have "\<forall>h\<in>free_heads H {} pages pool. ord_of pages pool h \<noteq> i"
      using L(3) Nil by auto
    moreover have "d = Suc BUDDY_MAX_ORDER - Suc i" "Suc i \<le> Suc BUDDY_MAX_ORDER"
      using Suc.hyps(2) le by simp_all
    note Suc.hyps(1) [OF this]
    ultimately show ?thesis
      by (elim disjE exE conjE) (simp_all add: less_Suc_eq)
  next
    case (Cons p ps)
    then have "p \<in> (+) (page_metadata pool) ` {h \<in> free_heads H {} pages pool. ord_of pages pool h = i}"
      using L(3) by auto
    then obtain h where h: "p = page_metadata pool + h" "h \<in> free_heads H {} pages pool" "ord_of pages pool h = i"
      by auto
    then have hn: "h < npages pool"
      using buddy_coreD(10) [OF c] by (simp add: free_heads_def)
    obtain pool1 pool' where "fl_del pool p = Some pool1" "num_add pool1 i (- 1) = Some pool'"
      "buddy_core H {h} pages pool'" "same_pool pool pool'"
      using core_take [OF c h(2)] h by auto
    moreover have "pg_get pages p = Some (pages ! p)" "order (pages ! p) = i"
      using pg_get_in_pool [OF buddy_coreD(2) [OF c] hn] h by (simp_all add: ord_of_def)
    ultimately have "buddy_scan pages pool i = Some (pool', Some p)" "buddy_core H {h} pages pool'" "same_pool pool pool'"
      using le get Cons by (simp_all add: buddy_scan.simps [of pages pool i])
    then show ?thesis
      using h by auto
  qed
qed

lemma blocks_SomeD: "blocks pages pool r = Some k \<Longrightarrow> r < npages pool \<and> alloc_of pages pool r = 1 \<and> ord_of pages pool r = k"
  by (simp add: blocks_def split: if_splits)

lemma in_use_core:
  assumes c: "buddy_core H {} pages pool"
  shows "in_use (blocks pages pool) = (\<Union>h\<in>{h \<in> H. alloc_of pages pool h = 1}. blk h (ord_of pages pool h))"
proof -
  have "blocks pages pool r = Some k \<longleftrightarrow> r \<in> H \<and> alloc_of pages pool r = 1 \<and> k = ord_of pages pool r" for r k
    using buddy_coreD(6,10) [OF c, of r] by (cases "r \<in> H") (auto simp: blocks_def)
  then show ?thesis
    by (auto simp: in_use_def)
qed

lemma free_block_unused:
  assumes c: "buddy_core H {} pages pool" and h: "h \<in> free_heads H {} pages pool"
  shows "blk h (ord_of pages pool h) \<inter> in_use (blocks pages pool) = {}"
  using h tilingD(4) [OF buddy_coreD(3) [OF c]] unfolding in_use_core [OF c] free_heads_def by force

lemma unused_block_free:
  assumes c: "buddy_core H {} pages pool" and k: "k \<le> BUDDY_MAX_ORDER"
    and s: "2 ^ k dvd s" "s + 2 ^ k \<le> npages pool" "blk s k \<inter> in_use (blocks pages pool) = {}"
  shows "\<exists>h\<in>free_heads H {} pages pool. k \<le> ord_of pages pool h"
proof -
  note D = buddy_coreD [OF c]
  have "h \<in> free_heads H {} pages pool" if "h \<in> H" "blk h (ord_of pages pool h) \<inter> blk s k \<noteq> {}" for h
    using that s(3) D(5) [OF D(10) [OF that(1)]] unfolding in_use_core [OF c] free_heads_def by blast
  from coalesced_block [OF D(3,9) k s(1,2) this] show ?thesis
    by blast
qed

lemma steady_blocks: "steady pool pages pages' \<Longrightarrow> blocks pages' pool = blocks pages pool"
  by (auto simp: steady_def blocks_def fun_eq_iff)

lemma same_pool_blocks: "same_pool pool pool' \<Longrightarrow> blocks pages pool' = blocks pages pool"
  by (auto simp: blocks_def fun_eq_iff same_poolD [of pool pool'])

lemma pow2_mono_fit: "h + 2 ^ j \<le> n \<Longrightarrow> k \<le> j \<Longrightarrow> h + 2 ^ k \<le> (n :: nat)"
  using power_increasing [of k j "2 :: nat"] by linarith

definition got_block :: "page list \<Rightarrow> phys_mem_pool \<Rightarrow> nat \<Rightarrow> nat \<Rightarrow> bool" where
  "got_block pages pool k h \<longleftrightarrow> fits (blocks pages pool) (npages pool) k h"

lemma mark_allocated_core:
  assumes c: "buddy_core H {h} pages pool"
  defines "p \<equiv> page_metadata pool + h"
  defines "pages' \<equiv> pages[p := (pages ! p)\<lparr>allocated := 1\<rparr>]"
  shows "pg_upd pages p (\<lambda>pg. pg\<lparr>allocated := 1\<rparr>) = Some pages'"
    "pg_get pages' p = Some (pages' ! p)" "order (pages' ! p) = ord_of pages pool h"
    "buddy_core H {} pages' pool" "meta_frame pool pages pages'"
    "blocks pages' pool = (blocks pages pool)(h \<mapsto> ord_of pages pool h)"
proof -
  note D = buddy_coreD [OF c]
  have hn: "h < npages pool"
    using D(7,10) by simp
  have o: "ord_of pages' pool = ord_of pages pool" "alloc_of pages' pool = (alloc_of pages pool)(h := 1)"
    using D(2) hn unfolding pages'_def p_def by (auto simp: ord_of_upd) (auto simp: ord_of_def fun_eq_iff nth_list_update)
  show "pg_upd pages p (\<lambda>pg. pg\<lparr>allocated := 1\<rparr>) = Some pages'" "pg_get pages' p = Some (pages' ! p)"
    using D(2) hn by (simp_all add: pg_upd_def pg_get_def pages'_def p_def)
  show "order (pages' ! p) = ord_of pages pool h"
    using o(1) by (simp add: ord_of_def p_def fun_eq_iff)
  show "buddy_core H {} pages' pool"
    using core_alloc [OF c, of h pages'] o by (simp add: pages'_def)
  show "meta_frame pool pages pages'"
    unfolding pages'_def p_def by (rule meta_frame_upd [OF hn D(2)]) simp
  show "blocks pages' pool = (blocks pages pool)(h \<mapsto> ord_of pages pool h)"
    using hn by (auto simp: blocks_def o fun_eq_iff)
qed

lemma buddy_get_locked_core:
  assumes c: "buddy_core H {} pages pool" and k: "k \<le> BUDDY_MAX_ORDER"
  shows "(\<exists>h H' pages' pool'. buddy_get_locked pages pool k = Some (pages', pool', Some (page_metadata pool + h)) \<and>
      got_block pages pool k h \<and> blocks pages' pool' = (blocks pages pool)(h \<mapsto> k) \<and>
      buddy_core H' {} pages' pool' \<and> meta_frame pool pages pages' \<and> same_pool pool pool') \<or>
    buddy_get_locked pages pool k = Some (pages, pool, None) \<and> (\<forall>h. \<not> got_block pages pool k h)"
  using buddy_scan_core [OF c le_SucI [OF k]]
proof (elim disjE exE conjE)
  fix h pool1
  assume s: "buddy_scan pages pool k = Some (pool1, Some (page_metadata pool + h))"
    "h \<in> free_heads H {} pages pool" "k \<le> ord_of pages pool h" "buddy_core H {h} pages pool1" "same_pool pool pool1"
  let ?p = "page_metadata pool + h"
  note sp = same_poolD [OF s(5)] and D = buddy_coreD [OF c]
  have hH: "h \<in> H"
    using s(2) by (simp add: free_heads_def)
  note geo = tilingD(1,2) [OF D(3) hH]
  have pg: "pg_get pages ?p = Some (pages ! ?p)" "order (pages ! ?p) = ord_of pages pool h"
    using pg_get_in_pool [OF D(2) D(10) [OF hH]] by (simp_all add: ord_of_def)
  have got: "got_block pages pool k h"
  proof -
    have "2 ^ k dvd h"
      using dvd_trans [OF le_imp_power_dvd [OF s(3)] geo(1)] .
    moreover have "blk h k \<subseteq> blk h (ord_of pages pool h)"
      using power_increasing [OF s(3), of "2 :: nat"] by (auto simp: blk_def)
    ultimately show ?thesis
      using free_block_unused [OF c s(2)] pow2_mono_fit [OF geo(2) s(3)] by (auto simp: got_block_def fits_def)
  qed
  obtain H2 pages2 pool2 where l: "split_loop k pages pool1 ?p = Some (pages2, pool2)"
    "buddy_core H2 {h} pages2 pool2" "steady pool pages pages2" "same_pool pool1 pool2" "ord_of pages2 pool h = k"
    using split_loop_core [OF s(4), of h k "ord_of pages pool h - k"] s(3) sp steady_same_pool [OF s(5)] by auto
  have sp2: "same_pool pool pool2"
    using same_pool_trans [OF s(5) l(4)] .
  note sp2' = same_poolD [OF sp2]
  have split: "(if k < order (pages ! ?p) then split_page pages pool1 k ?p else Some (pages, pool1, ?p)) = Some (pages2, pool2, ?p)"
    using l(1) pg s(3) by (auto simp: split_page_def split_loop.simps [of k pages])
  note m = mark_allocated_core [OF l(2), unfolded sp2']
  let ?p3 = "pages2[?p := (pages2 ! ?p)\<lparr>allocated := 1\<rparr>]"
  have "buddy_get_locked pages pool k = Some (?p3, pool2, Some ?p)"
    using s(1) pg split m(1,2,3) l(5) by (simp add: buddy_get_locked_def)
  moreover have "meta_frame pool pages ?p3"
    using l(3) m(5) meta_frame_same_pool [OF sp2] unfolding steady_def by (metis meta_frame_trans)
  moreover have "blocks ?p3 pool2 = (blocks pages pool)(h \<mapsto> k)"
    using m(6) l(5) steady_blocks [OF l(3)] same_pool_blocks [OF sp2] by simp
  ultimately show ?thesis
    using m(4) got sp2 by blast
next
  assume s: "buddy_scan pages pool k = Some (pool, None)" "\<forall>h\<in>free_heads H {} pages pool. ord_of pages pool h < k"
  then have "buddy_get_locked pages pool k = Some (pages, pool, None)"
    by (simp add: buddy_get_locked_def)
  moreover have "\<not> got_block pages pool k h" for h
    using unused_block_free [OF c k] s(2) unfolding got_block_def fits_def by fastforce
  ultimately show ?thesis by blast
qed

subsection \<open>Correctness of release\<close>

lemma mark_free_core:
  assumes c: "buddy_core H {} pages pool" and h: "blocks pages pool h = Some k"
  defines "p \<equiv> page_metadata pool + h"
  defines "pages' \<equiv> pages[p := (pages ! p)\<lparr>allocated := 0\<rparr>]"
  shows "pg_upd pages p (\<lambda>pg. pg\<lparr>allocated := 0\<rparr>) = Some pages'"
    "pg_get pages' p = Some (pages' ! p)" "order (pages' ! p) = ord_of pages' pool h"
    "buddy_core H {h} pages' pool" "meta_frame pool pages pages'"
    "blocks pages' pool = (blocks pages pool)(h := None)"
proof -
  note D = buddy_coreD [OF c] and hb = blocks_SomeD [OF h]
  have o: "ord_of pages' pool = ord_of pages pool" "alloc_of pages' pool = (alloc_of pages pool)(h := 0)"
    using D(2) hb unfolding pages'_def p_def by (auto simp: ord_of_upd) (auto simp: ord_of_def fun_eq_iff nth_list_update)
  show "pg_upd pages p (\<lambda>pg. pg\<lparr>allocated := 0\<rparr>) = Some pages'" "pg_get pages' p = Some (pages' ! p)"
    using D(2) hb by (simp_all add: pg_upd_def pg_get_def pages'_def p_def)
  show "order (pages' ! p) = ord_of pages' pool h"
    by (simp add: ord_of_def p_def)
  show "buddy_core H {h} pages' pool"
    using core_dealloc(1) [OF c, of h pages'] hb o by (simp add: pages'_def)
  show "meta_frame pool pages pages'"
    unfolding pages'_def p_def using hb by (intro meta_frame_upd [OF _ D(2)]) simp_all
  show "blocks pages' pool = (blocks pages pool)(h := None)"
    by (auto simp: blocks_def o fun_eq_iff)
qed

lemma merge_page_max:
  "pg_get pages p = Some pg \<Longrightarrow> order pg = BUDDY_MAX_ORDER \<Longrightarrow> merge_page pages pool p = Some (pages, pool, p)"
  by (simp add: merge_page.simps [of pages] merge_step_def)

lemma buddy_free_locked_core:
  assumes c: "buddy_core H {} pages pool" and h: "blocks pages pool h = Some k"
  shows "\<exists>H' pages' pool'. buddy_free_locked pages pool (page_metadata pool + h) = Some (pages', pool') \<and>
    blocks pages' pool' = (blocks pages pool)(h := None) \<and>
    buddy_core H' {} pages' pool' \<and> meta_frame pool pages pages' \<and> same_pool pool pool'"
proof -
  let ?p = "page_metadata pool + h"
  note m = mark_free_core [OF c h]
  let ?p1 = "pages[?p := (pages ! ?p)\<lparr>allocated := 0\<rparr>]"
  obtain H2 g pages2 pool2 where l: "merge_page ?p1 pool ?p = Some (pages2, pool2, page_metadata pool + g)"
    "buddy_core H2 {g} pages2 pool2" "steady pool ?p1 pages2" "same_pool pool pool2" "unmergeable H2 pages2 pool2 g"
    using merge_page_core [OF m(4)] by blast
  note sp = same_poolD [OF l(4)] and D2 = buddy_coreD [OF l(2)]
  have gn: "g < npages pool"
    using D2(7,10) sp by simp
  have merge: "(if order (?p1 ! ?p) < BUDDY_MAX_ORDER then merge_page ?p1 pool ?p else Some (?p1, pool, ?p))
      = Some (pages2, pool2, page_metadata pool + g)"
    using l(1) merge_page_max [OF m(2), of pool] m(3) buddy_coreD(4) [OF m(4), of h] buddy_coreD(7) [OF m(4)]
    by (cases "ord_of ?p1 pool h = BUDDY_MAX_ORDER") auto
  have pg: "pg_get pages2 (page_metadata pool + g) = Some (pages2 ! (page_metadata pool + g))"
    "order (pages2 ! (page_metadata pool + g)) = ord_of pages2 pool g"
    using D2(2) gn sp by (simp_all add: pg_get_def ord_of_def)
  obtain pool3 pool' where put: "fl_add pool2 (ord_of pages2 pool g) (page_metadata pool + g) = Some pool3"
    "num_add pool3 (ord_of pages2 pool g) 1 = Some pool'" "buddy_core H2 {} pages2 pool'" "same_pool pool2 pool'"
    using core_put [OF l(2), of g] l(5) sp unfolding unmergeable_def by auto
  have sp': "same_pool pool pool'"
    using same_pool_trans [OF l(4) put(4)] .
  have "buddy_free_locked pages pool ?p = Some (pages2, pool')"
    using m(1,2) merge pg put(1,2) by (simp add: buddy_free_locked_def)
  moreover have "meta_frame pool pages pages2"
    using m(5) l(3) unfolding steady_def by (metis meta_frame_trans)
  moreover have "blocks pages2 pool' = (blocks pages pool)(h := None)"
    using m(6) steady_blocks [OF l(3)] same_pool_blocks [OF sp'] by simp
  ultimately show ?thesis
    using put(3) sp' by blast
qed

subsection \<open>The locked operations\<close>

lemma meta_frame_lock [simp]: "meta_frame (pool\<lparr>pool_lock := l\<rparr>) = meta_frame pool"
  by (simp add: meta_frame_def fun_eq_iff)

lemma blocks_lock [simp]: "blocks pages (pool\<lparr>pool_lock := l\<rparr>) = blocks pages pool"
  by (simp add: blocks_def fun_eq_iff)

lemma got_block_lock [simp]: "got_block pages (pool\<lparr>pool_lock := l\<rparr>) = got_block pages pool"
  by (simp add: got_block_def fun_eq_iff)

lemma same_pool_lock: "same_pool (pool\<lparr>pool_lock := l\<rparr>) pool' \<Longrightarrow> same_pool pool (pool'\<lparr>pool_lock := pool_lock pool\<rparr>)"
  by (cases pool; cases pool') (simp add: same_pool_def)

definition get_post ::
  "page list \<Rightarrow> phys_mem_pool \<Rightarrow> nat \<Rightarrow> nat option \<Rightarrow> page list \<Rightarrow> phys_mem_pool \<Rightarrow> bool" where
  "get_post pages pool k r pages' pool' \<longleftrightarrow>
     (case r of
        None \<Rightarrow> (\<forall>h. \<not> got_block pages pool k h) \<and> pages' = pages \<and> pool' = pool
      | Some p \<Rightarrow> \<exists>h. p = page_metadata pool + h \<and> got_block pages pool k h \<and>
          blocks pages' pool' = (blocks pages pool)(h \<mapsto> k))"

lemma buddy_get_pages_spec:
  assumes c: "cpu_ok c" and i: "buddy_inv pages pool" and k: "k \<le> BUDDY_MAX_ORDER"
  shows "\<exists>c' pages' pool' r. buddy_get_pages (push_off c) pages pool k = Some (c', pages', pool', r) \<and>
    same_cpu c c' \<and> buddy_inv pages' pool' \<and> meta_frame pool pages pages' \<and> same_pool pool pool' \<and>
    get_post pages pool k r pages' pool'"
proof -
  obtain H where core: "buddy_core H {} pages pool" and free: "lk_free (pool_lock pool)"
    using i by (rule buddy_invE)
  obtain c0 where pop: "pop_off (push_off c) = Some c0" "same_cpu c c0"
    using pop_push_off [OF c] by auto
  obtain c1 l1 where acq: "acquire c0 (pool_lock pool) = Some (c1, l1)"
    "\<And>c2. same_cpu c1 c2 \<Longrightarrow> \<exists>c'. release c2 l1 = Some (c', pool_lock pool) \<and> same_cpu c0 c'"
    using acquire_release [OF same_cpu_ok [OF pop(2) c] free] by metis
  from acq(2) [OF same_cpu_refl] obtain c' where rel: "release c1 l1 = Some (c', pool_lock pool)" "same_cpu c c'"
    using same_cpu_trans [OF pop(2)] by auto
  let ?pl = "pool\<lparr>pool_lock := l1\<rparr>"
  have "buddy_core H {} pages ?pl"
    using core by (simp add: core_lock)
  from buddy_get_locked_core [OF this k] show ?thesis
  proof (elim disjE exE conjE)
    fix h H' pages' pool'
    assume r: "buddy_get_locked pages ?pl k = Some (pages', pool', Some (page_metadata ?pl + h))"
      "got_block pages ?pl k h" "blocks pages' pool' = (blocks pages ?pl)(h \<mapsto> k)"
      "buddy_core H' {} pages' pool'" "meta_frame ?pl pages pages'" "same_pool ?pl pool'"
    let ?pool' = "pool'\<lparr>pool_lock := pool_lock pool\<rparr>"
    have "buddy_get_pages (push_off c) pages pool k = Some (c', pages', ?pool', Some (page_metadata pool + h))"
      using pop(1) k acq(1) r(1) rel(1) same_poolD(4) [OF r(6)] by (simp add: buddy_get_pages_def)
    moreover have "buddy_inv pages' ?pool'"
      using r(4) free by (intro buddy_invI [of H']) (simp_all add: core_lock)
    moreover have "get_post pages pool k (Some (page_metadata pool + h)) pages' ?pool'"
      using r(2,3) by (auto simp: get_post_def)
    ultimately show ?thesis
      using r(5) same_pool_lock [OF r(6)] rel(2) by auto
  next
    assume r: "buddy_get_locked pages ?pl k = Some (pages, ?pl, None)" "\<forall>h. \<not> got_block pages ?pl k h"
    have "buddy_get_pages (push_off c) pages pool k = Some (c', pages, pool, None)"
      using pop(1) k acq(1) r(1) rel(1) by (simp add: buddy_get_pages_def)
    then show ?thesis
      using r(2) rel(2) i by (auto simp: get_post_def)
  qed
qed

lemma buddy_free_pages_spec:
  assumes c: "cpu_ok c" and i: "buddy_inv pages pool" and h: "blocks pages pool h = Some k"
  shows "\<exists>c' pages' pool'. buddy_free_pages c pages pool (page_metadata pool + h) = Some (c', pages', pool') \<and>
    same_cpu c c' \<and> buddy_inv pages' pool' \<and> meta_frame pool pages pages' \<and> same_pool pool pool' \<and>
    blocks pages' pool' = (blocks pages pool)(h := None)"
proof -
  obtain H where core: "buddy_core H {} pages pool" and free: "lk_free (pool_lock pool)"
    using i by (rule buddy_invE)
  obtain c1 l1 where acq: "acquire c (pool_lock pool) = Some (c1, l1)"
    "\<And>c2. same_cpu c1 c2 \<Longrightarrow> \<exists>c'. release c2 l1 = Some (c', pool_lock pool) \<and> same_cpu c c'"
    using acquire_release [OF c free] by metis
  from acq(2) [OF same_cpu_refl] obtain c' where rel: "release c1 l1 = Some (c', pool_lock pool)" "same_cpu c c'"
    by auto
  let ?pl = "pool\<lparr>pool_lock := l1\<rparr>"
  have "buddy_core H {} pages ?pl"
    using core by (simp add: core_lock)
  then obtain H' pages' pool' where
    r: "buddy_free_locked pages ?pl (page_metadata pool + h) = Some (pages', pool')"
      "blocks pages' pool' = (blocks pages pool)(h := None)"
      "buddy_core H' {} pages' pool'" "meta_frame pool pages pages'" "same_pool ?pl pool'"
    using buddy_free_locked_core [of H pages ?pl h k] h by auto
  let ?pool' = "pool'\<lparr>pool_lock := pool_lock pool\<rparr>"
  have "buddy_free_pages c pages pool (page_metadata pool + h) = Some (c', pages', ?pool')"
    using acq(1) r(1) rel(1) same_poolD(4) [OF r(5)] by (simp add: buddy_free_pages_def)
  moreover have "buddy_inv pages' ?pool'"
    using r(3) free by (intro buddy_invI [of H']) (simp_all add: core_lock)
  ultimately show ?thesis
    using r(2,4) same_pool_lock [OF r(5)] rel(2) by auto
qed

subsection \<open>Accounting of free memory\<close>

lemma finite_free_heads: "buddy_core H X pages pool \<Longrightarrow> finite (free_heads H X pages pool)"
  using finite_tiling [OF buddy_coreD(3)] by (simp add: free_heads_def)

lemma free_pages_partition:
  assumes c: "buddy_core H {} pages pool"
  shows "(\<Union>h\<in>free_heads H {} pages pool. blk h (ord_of pages pool h)) = {..<npages pool} - in_use (blocks pages pool)"
proof -
  note D = buddy_coreD [OF c]
  have "h \<in> free_heads H {} pages pool \<or> alloc_of pages pool h = 1" if "h \<in> H" for h
    using that D(5) [OF D(10)] by (auto simp: free_heads_def)
  moreover have "blk h (ord_of pages pool h) \<subseteq> {..<npages pool}" if "h \<in> H" for h
    using tilingD(2) [OF D(3) that] by (auto simp: blk_def)
  moreover have "free_heads H {} pages pool \<subseteq> H"
    by (auto simp: free_heads_def)
  ultimately have "x < npages pool \<longleftrightarrow> x \<in> (\<Union>h\<in>free_heads H {} pages pool. blk h (ord_of pages pool h)) \<or>
      x \<in> in_use (blocks pages pool)" for x
    using tilingD(3) [OF D(3), of x] unfolding in_use_core [OF c] by (intro iffI) (blast, auto)
  then show ?thesis
    using free_block_unused [OF c] by blast
qed

lemma card_free_pages:
  assumes c: "buddy_core H {} pages pool"
  shows "(\<Sum>h\<in>free_heads H {} pages pool. 2 ^ ord_of pages pool h) = card ({..<npages pool} - in_use (blocks pages pool))"
proof -
  have "\<forall>i\<in>free_heads H {} pages pool. \<forall>j\<in>free_heads H {} pages pool. i \<noteq> j \<longrightarrow>
      blk i (ord_of pages pool i) \<inter> blk j (ord_of pages pool j) = {}"
    using tilingD(4) [OF buddy_coreD(3) [OF c]] unfolding free_heads_def by blast
  then show ?thesis
    using card_UN_disjoint [OF finite_free_heads [OF c], of "\<lambda>h. blk h (ord_of pages pool h)"]
      free_pages_partition [OF c] by simp
qed

lemma pool_free_mem_core:
  assumes c: "buddy_core H {} pages pool"
  shows "pool_free_mem pool = int PGSIZE * int (card ({..<npages pool} - in_use (blocks pages pool)))"
proof -
  let ?F = "free_heads H {} pages pool" and ?o = "ord_of pages pool"
  note L = lists_okD [OF buddy_coreD(8) [OF c]]
  have len: "num (freelists pool ! k) = int (card {h \<in> ?F. ?o h = k})" if "k \<le> BUDDY_MAX_ORDER" for k
    using L(1,2,3) [OF that] distinct_card [of "lists (freelists pool ! k)"]
      card_image [of "(+) (page_metadata pool)" "{h \<in> ?F. ?o h = k}"] by simp
  have "(\<Sum>h\<in>?F. 2 ^ ?o h) = (\<Sum>k\<in>{..BUDDY_MAX_ORDER}. \<Sum>h\<in>{h \<in> ?F. ?o h = k}. (2 :: nat) ^ ?o h)"
    using buddy_coreD(4) [OF c]
    by (intro sum.group [symmetric] finite_free_heads [OF c]) (auto simp: free_heads_def)
  also have "\<dots> = (\<Sum>k\<in>{..BUDDY_MAX_ORDER}. card {h \<in> ?F. ?o h = k} * 2 ^ k)"
    by (intro sum.cong) simp_all
  finally have "int (\<Sum>h\<in>?F. 2 ^ ?o h) = (\<Sum>k\<in>{..BUDDY_MAX_ORDER}. num (freelists pool ! k) * 2 ^ k)"
    by (simp add: len)
  moreover have "pool_free_mem pool = (\<Sum>k\<in>{..BUDDY_MAX_ORDER}. num (freelists pool ! k) * int PGSIZE * 2 ^ k)"
    unfolding pool_free_mem_def interv_sum_list_conv_sum_set_nat set_upt atLeast0LessThan lessThan_Suc_atMost ..
  ultimately have "int PGSIZE * int (\<Sum>h\<in>?F. 2 ^ ?o h) = pool_free_mem pool"
    by (simp add: sum_distrib_left mult.assoc mult.left_commute)
  then show ?thesis
    using card_free_pages [OF c] by simp
qed

subsection \<open>Initialisation\<close>

lemma init_core:
  assumes len: "s + n \<le> length pages"
    and pg: "\<And>r. r < n \<Longrightarrow> allocated (pages ! (s + r)) = 1 \<and> order (pages ! (s + r)) = 0"
    and pool: "mem_size pool = n * PGSIZE" "page_metadata pool = s"
      "freelists pool = replicate (Suc BUDDY_MAX_ORDER) \<lparr>lists = [], num = 0\<rparr>"
  shows "buddy_core {..<n} {} pages pool" "blocks pages pool = (\<lambda>r. if r < n then Some 0 else None)"
proof -
  have np: "npages pool = n"
    using pool by (simp add: npages_def)
  have v: "ord_of pages pool r = 0" "alloc_of pages pool r = 1" if "r < n" for r
    using pg [OF that] pool by (simp_all add: ord_of_def alloc_of_def)
  have F: "free_heads {..<n} {} pages pool = {}"
    using v by (auto simp: free_heads_def)
  have "tiling {..<n} (ord_of pages pool) n"
    by (rule tilingI) (auto simp: v blk_def)
  moreover have "lists_ok {..<n} {} pages pool"
    using pool(3) by (simp add: lists_ok_def F del: replicate_Suc)
  ultimately show "buddy_core {..<n} {} pages pool"
    using len pool np v by (auto simp: buddy_core_def F coalesced_def)
  show "blocks pages pool = (\<lambda>r. if r < n then Some 0 else None)"
    using v np by (auto simp: blocks_def fun_eq_iff)
qed

lemma buddy_free_all_spec:
  assumes "cpu_ok c" "buddy_inv pages pool" "m \<le> n"
    "blocks pages pool = (\<lambda>r. if m \<le> r \<and> r < n then Some 0 else None)"
  shows "\<exists>c' pages' pool'. buddy_free_all c pages pool [page_metadata pool + m ..< page_metadata pool + n] = Some (c', pages', pool') \<and>
    same_cpu c c' \<and> buddy_inv pages' pool' \<and> meta_frame pool pages pages' \<and> same_pool pool pool' \<and>
    blocks pages' pool' = (\<lambda>r. None)"
  using assms
proof (induction "n - m" arbitrary: m c pages pool)
  case 0
  then show ?case by (auto simp: fun_eq_iff)
next
  case (Suc d)
  let ?b = "page_metadata pool"
  have m: "m < n" using Suc.hyps(2) by simp
  then have "blocks pages pool m = Some 0"
    using Suc.prems(4) by simp
  from buddy_free_pages_spec [OF Suc.prems(1,2) this] obtain c1 pages1 pool1 where
    f: "buddy_free_pages c pages pool (?b + m) = Some (c1, pages1, pool1)" "same_cpu c c1" "buddy_inv pages1 pool1"
      "meta_frame pool pages pages1" "same_pool pool pool1" "blocks pages1 pool1 = (blocks pages pool)(m := None)"
    by auto
  have "blocks pages1 pool1 = (\<lambda>r. if Suc m \<le> r \<and> r < n then Some 0 else None)"
    using f(6) Suc.prems(4) by (auto simp: fun_eq_iff)
  then obtain c' pages' pool' where
    r: "buddy_free_all c1 pages1 pool1 [page_metadata pool1 + Suc m ..< page_metadata pool1 + n] = Some (c', pages', pool')"
      "same_cpu c1 c'" "buddy_inv pages' pool'" "meta_frame pool1 pages1 pages'" "same_pool pool1 pool'"
      "blocks pages' pool' = (\<lambda>r. None)"
    using Suc.hyps(1) [OF _ same_cpu_ok [OF f(2) Suc.prems(1)] f(3), of "Suc m"] Suc.hyps(2) m by fastforce
  have "[?b + m ..< ?b + n] = (?b + m) # [?b + Suc m ..< ?b + n]"
    using m by (simp add: upt_conv_Cons)
  then have "buddy_free_all c pages pool [?b + m ..< ?b + n] = Some (c', pages', pool')"
    using f(1) r(1) same_poolD(1) [OF f(5)] by simp
  moreover have "meta_frame pool pages pages'"
    using meta_frame_trans [OF f(4)] r(4) meta_frame_same_pool [OF f(5)] by simp
  ultimately show ?case
    using r(3,6) same_cpu_trans [OF f(2) r(2)] same_pool_trans [OF f(5) r(5)] by auto
qed

lemma init_buddy_spec:
  assumes c: "cpu_ok c" and len: "s + n \<le> length pages" and fit: "meta + s * sizeof_page + n * sizeof_page < START_MEM"
  shows "\<exists>c' pages' pool. init_buddy meta c pages s start n = Some (c', pages', pool) \<and> same_cpu c c' \<and>
    buddy_inv pages' pool \<and> blocks pages' pool = (\<lambda>r. None) \<and> npages pool = n \<and>
    page_metadata pool = s \<and> start_addr pool = start \<and> length pages' = length pages \<and>
    (\<forall>i<length pages. (i < s \<or> s + n \<le> i \<longrightarrow> pages' ! i = pages ! i) \<and>
       (s \<le> i \<and> i < s + n \<longrightarrow> refcnt (pages' ! i) = 0 \<and> page_lock (pages' ! i) = initlock ''page_lock''))"
proof -
  let ?p1 = "take s pages @ replicate n zero_page @ drop (s + n) pages"
  define p2 where "p2 = take s ?p1 @ List.map init_page (take n (drop s ?p1)) @ drop (s + n) ?p1"
  let ?pool = "\<lparr>start_addr = start, mem_size = PGSIZE * n, page_metadata = s,
                 pool_lock = initlock ''buddy_phy_mem_pools_lock'',
                 freelists = replicate (Suc BUDDY_MAX_ORDER) \<lparr>lists = [], num = 0\<rparr>\<rparr>"
  have p2: "p2 = take s pages @ replicate n (init_page zero_page) @ drop (s + n) pages"
    using len by (simp add: p2_def)
  have nth: "p2 ! i = (if i < s \<or> s + n \<le> i then pages ! i else init_page zero_page)" if "i < length pages" for i
    unfolding p2 using that len by (auto simp: nth_append)
  have l2: "length p2 = length pages"
    unfolding p2 using len by simp
  have np: "npages ?pool = n"
    by (simp add: npages_def)
  have in1: "allocated (p2 ! (s + r)) = 1 \<and> order (p2 ! (s + r)) = 0" if "r < n" for r
    using nth [of "s + r"] that len by (simp add: init_page_def)
  note i = init_core [of s n p2 ?pool, OF _ in1]
  have core: "buddy_core {..<n} {} p2 ?pool" "blocks p2 ?pool = (\<lambda>r. if 0 \<le> r \<and> r < n then Some 0 else None)"
    using i l2 len by simp_all
  have "buddy_inv p2 ?pool"
    using core(1) by (intro buddy_invI) simp_all
  from buddy_free_all_spec [OF c this _ core(2)] obtain c' pages' pool' where
    r: "buddy_free_all c p2 ?pool [s ..< s + n] = Some (c', pages', pool')" "same_cpu c c'" "buddy_inv pages' pool'"
      "meta_frame ?pool p2 pages'" "same_pool ?pool pool'" "blocks pages' pool' = (\<lambda>r. None)"
    by auto
  note sp = same_poolD [OF r(5)]
  from r(3) obtain H where "buddy_core H {} pages' pool'" by (rule buddy_invE)
  then have "pool_free_mem pool' = int (mem_size pool')"
    using pool_free_mem_core [of H pages' pool'] r(6) sp np by (simp add: in_use_def)
  then have "init_buddy meta c pages s start n = Some (c', pages', pool')"
    using fit len r(1) unfolding init_buddy_def Let_def p2_def
    by (simp only: ASSERT_simps Option.bind.simps prod.case simp_thms)
  moreover have "length pages' = length pages"
    using r(4) l2 unfolding meta_frame_def by linarith
  moreover have "(i < s \<or> s + n \<le> i \<longrightarrow> pages' ! i = pages ! i) \<and>
      (s \<le> i \<and> i < s + n \<longrightarrow> refcnt (pages' ! i) = 0 \<and> page_lock (pages' ! i) = initlock ''page_lock'')"
    if i: "i < length pages" for i
  proof -
    note fr = meta_frame_fields [OF r(4), unfolded l2, OF i]
    show ?thesis
      using fr(1,2,5) nth [OF i] np by (auto simp: init_page_def zero_page_def)
  qed
  ultimately show ?thesis
    using r(2,3,6) sp np by auto
qed

subsection \<open>The buddy system as a block allocator\<close>

type_synonym buddy_state = "thread_cpu \<times> page list \<times> phys_mem_pool"

text \<open>A caller's request: \<open>push_off\<close> followed by \<open>buddy_get_pages\<close>, as in \<open>kmalloc\<close>; pages relative to the pool.\<close>

definition buddy_request :: "buddy_state \<Rightarrow> nat \<Rightarrow> (buddy_state \<times> nat option) option" where
  "buddy_request s k = (case s of (c, pages, pool) \<Rightarrow> do {
     (c, pages, pool, r) \<leftarrow> buddy_get_pages (push_off c) pages pool k;
     Some ((c, pages, pool), map_option (\<lambda>p. p - page_metadata pool) r) })"

definition buddy_release :: "buddy_state \<Rightarrow> nat \<Rightarrow> buddy_state option" where
  "buddy_release s h = (case s of (c, pages, pool) \<Rightarrow> buddy_free_pages c pages pool (page_metadata pool + h))"

definition buddy_ok :: "buddy_state \<Rightarrow> bool" where
  "buddy_ok s = (case s of (c, pages, pool) \<Rightarrow> cpu_ok c \<and> buddy_inv pages pool)"

definition buddy_live :: "buddy_state \<Rightarrow> nat \<Rightarrow> nat option" where
  "buddy_live s = (case s of (c, pages, pool) \<Rightarrow> blocks pages pool)"

definition buddy_cap :: "buddy_state \<Rightarrow> nat" where
  "buddy_cap s = (case s of (c, pages, pool) \<Rightarrow> npages pool)"

lemmas buddy_state_defs = buddy_request_def buddy_release_def buddy_ok_def buddy_live_def buddy_cap_def

interpretation buddy: block_allocator buddy_request buddy_release buddy_ok buddy_live buddy_cap BUDDY_MAX_ORDER
proof unfold_locales
  fix s k assume s: "buddy_ok s" and k: "k \<le> BUDDY_MAX_ORDER"
  obtain c pages pool where [simp]: "s = (c, pages, pool)" by (cases s)
  have "cpu_ok c" "buddy_inv pages pool" using s by (simp_all add: buddy_ok_def)
  from buddy_get_pages_spec [OF this k] obtain c' pages' pool' r where
    g: "buddy_get_pages (push_off c) pages pool k = Some (c', pages', pool', r)" "same_cpu c c'" "buddy_inv pages' pool'"
      "same_pool pool pool'" "get_post pages pool k r pages' pool'"
    by blast
  have "npages pool' = npages pool" "page_metadata pool' = page_metadata pool"
    using same_poolD [OF g(4)] by simp_all
  then show "\<exists>s' r. buddy_request s k = Some (s', r) \<and> buddy_ok s' \<and> buddy_cap s' = buddy_cap s \<and>
      (case r of None \<Rightarrow> buddy_live s' = buddy_live s \<and> (\<forall>h. \<not> fits (buddy_live s) (buddy_cap s) k h)
       | Some h \<Rightarrow> fits (buddy_live s) (buddy_cap s) k h \<and> buddy_live s' = (buddy_live s)(h \<mapsto> k))"
    using g same_cpu_ok [OF g(2) \<open>cpu_ok c\<close>]
    by (cases r) (auto simp: buddy_state_defs get_post_def got_block_def)
next
  fix s h k assume s: "buddy_ok s" and l: "buddy_live s h = Some k"
  obtain c pages pool where [simp]: "s = (c, pages, pool)" by (cases s)
  have "cpu_ok c" "buddy_inv pages pool" "blocks pages pool h = Some k"
    using s l by (simp_all add: buddy_ok_def buddy_live_def)
  from buddy_free_pages_spec [OF this] show "\<exists>s'. buddy_release s h = Some s' \<and> buddy_ok s' \<and>
      buddy_cap s' = buddy_cap s \<and> buddy_live s' = (buddy_live s)(h := None)"
    using same_cpu_ok [OF _ \<open>cpu_ok c\<close>] same_poolD(2) by (auto simp: buddy_state_defs)
qed

subsection \<open>Properties\<close>

text \<open>A pool of four pages, as \<open>init_buddy\<close> builds it, for the witnesses.\<close>

definition demo_cpu :: thread_cpu where
  "demo_cpu = \<lparr>cpu_id = 0, noff = 0, intena = True, sie = True\<rparr>"

definition demo_pool4 :: "page list \<times> phys_mem_pool" where
  "demo_pool4 = snd (the (init_buddy 0 demo_cpu (replicate 4 zero_page) 0 START_MEM 4))"

lemma demo_cpu_ok [simp]: "cpu_ok demo_cpu"
  by (simp add: cpu_ok_def demo_cpu_def)

lemma demo_pool4_ok: "buddy_inv (fst demo_pool4) (snd demo_pool4)" "npages (snd demo_pool4) = 4"
  "blocks (fst demo_pool4) (snd demo_pool4) = (\<lambda>r. None)" "page_metadata (snd demo_pool4) = 0"
  using init_buddy_spec [OF demo_cpu_ok, of 0 4 "replicate 4 zero_page" 0 START_MEM]
  by (auto simp: demo_pool4_def sizeof_page_def START_MEM_def)

text \<open>C2. \<open>buddy_get_pages\<close>, called with interrupts pushed off once, never panics and never blocks on a pool
  in a consistent state, whatever the order asked for up to \<open>BUDDY_MAX_ORDER\<close>.  It keeps the pool
  invariant, restores the interrupt state the caller had before its \<open>push_off\<close>, touches no metadata but
  \<open>allocated\<close> and \<open>order\<close> of the pool's own pages, and either hands out an aligned block of \<open>2 ^ k\<close> pages
  that overlaps no block in use and is then recorded as allocated with that order, or returns
  \<open>NULL\<close>, changes nothing, and the pool has no free aligned run of \<open>2 ^ k\<close> pages at all.\<close>

theorem buddy_get_pages_correct:
  assumes "cpu_ok c" "buddy_inv pages pool" "k \<le> BUDDY_MAX_ORDER"
  shows "\<exists>c' pages' pool' r. buddy_get_pages (push_off c) pages pool k = Some (c', pages', pool', r) \<and>
    same_cpu c c' \<and> buddy_inv pages' pool' \<and> meta_frame pool pages pages' \<and>
    (case r of
       None \<Rightarrow> pages' = pages \<and> pool' = pool \<and>
         (\<nexists>s. 2 ^ k dvd s \<and> s + 2 ^ k \<le> npages pool \<and> blk s k \<inter> in_use (blocks pages pool) = {})
     | Some p \<Rightarrow> \<exists>h. p = page_metadata pool + h \<and> 2 ^ k dvd h \<and> h + 2 ^ k \<le> npages pool \<and>
         blk h k \<inter> in_use (blocks pages pool) = {} \<and> blocks pages' pool' = (blocks pages pool)(h \<mapsto> k))"
proof -
  obtain c' pages' pool' r where g: "buddy_get_pages (push_off c) pages pool k = Some (c', pages', pool', r)"
    "same_cpu c c'" "buddy_inv pages' pool'" "meta_frame pool pages pages'" "get_post pages pool k r pages' pool'"
    using buddy_get_pages_spec [OF assms] by blast
  then show ?thesis
    by (cases r) (auto simp: get_post_def got_block_def fits_def)
qed

theorem buddy_get_pages_correct_witness:
  "\<exists>c' pages' pool' h. buddy_get_pages (push_off demo_cpu) (fst demo_pool4) (snd demo_pool4) 1 = Some (c', pages', pool', Some h) \<and>
    2 ^ 1 dvd h \<and> h + 2 ^ 1 \<le> 4 \<and> blocks pages' pool' = [h \<mapsto> 1]"
proof -
  have "\<exists>r. map_option (\<lambda>(c, pages, pool, r). r) (buddy_get_pages (push_off demo_cpu) (fst demo_pool4) (snd demo_pool4) 1) = Some (Some r)"
    by (rule exI [of _ 0]) code_simp
  then show ?thesis
    using buddy_get_pages_correct [OF demo_cpu_ok demo_pool4_ok(1), of 1] demo_pool4_ok
    by (auto simp: BUDDY_MAX_ORDER_def split: option.splits)
qed

text \<open>C3. \<open>buddy_free_pages\<close> on the first page of an allocated block never panics: every page it unlinks
  while merging is in the list it is unlinked from.  It keeps the pool invariant, in which free buddies
  are always merged, restores the interrupt state, and the blocks in use afterwards are the ones before
  without the released one.\<close>

theorem buddy_free_pages_correct:
  assumes "cpu_ok c" "buddy_inv pages pool" "blocks pages pool h = Some k"
  shows "\<exists>c' pages' pool'. buddy_free_pages c pages pool (page_metadata pool + h) = Some (c', pages', pool') \<and>
    same_cpu c c' \<and> buddy_inv pages' pool' \<and> meta_frame pool pages pages' \<and>
    blocks pages' pool' = (blocks pages pool)(h := None)"
  using buddy_free_pages_spec [OF assms] by blast

definition demo_got1 :: "thread_cpu \<times> page list \<times> phys_mem_pool" where
  "demo_got1 = (let r = the (buddy_get_pages (push_off demo_cpu) (fst demo_pool4) (snd demo_pool4) 1)
     in (fst r, fst (snd r), fst (snd (snd r))))"

lemma demo_got1_ok: "cpu_ok (fst demo_got1)" "buddy_inv (fst (snd demo_got1)) (snd (snd demo_got1))"
  "blocks (fst (snd demo_got1)) (snd (snd demo_got1)) 0 = Some 1"
proof -
  have got: "map_option (\<lambda>(c, pages, pool, r). r) (buddy_get_pages (push_off demo_cpu) (fst demo_pool4) (snd demo_pool4) 1) = Some (Some 0)"
    by code_simp
  obtain c' pages' pool' r where
    g: "buddy_get_pages (push_off demo_cpu) (fst demo_pool4) (snd demo_pool4) 1 = Some (c', pages', pool', r)"
      "same_cpu demo_cpu c'" "buddy_inv pages' pool'" "get_post (fst demo_pool4) (snd demo_pool4) 1 r pages' pool'"
    using buddy_get_pages_spec [OF demo_cpu_ok demo_pool4_ok(1), of 1] by (auto simp: BUDDY_MAX_ORDER_def)
  then show "cpu_ok (fst demo_got1)" "buddy_inv (fst (snd demo_got1)) (snd (snd demo_got1))"
    "blocks (fst (snd demo_got1)) (snd (snd demo_got1)) 0 = Some 1"
    using got same_cpu_ok [OF g(2) demo_cpu_ok] demo_pool4_ok(4) by (auto simp: demo_got1_def get_post_def)
qed

theorem buddy_free_pages_correct_witness:
  "\<exists>c' pages' pool'. buddy_free_pages (fst demo_got1) (fst (snd demo_got1)) (snd (snd demo_got1))
      (page_metadata (snd (snd demo_got1)) + 0) = Some (c', pages', pool') \<and> buddy_inv pages' pool' \<and> blocks pages' pool' 0 = None"
  using buddy_free_pages_correct [OF demo_got1_ok] by auto

text \<open>C34. \<open>init_buddy\<close> returns: freeing the pages one by one never panics and its final check, that the free
  lists account for exactly \<open>mem_size\<close> bytes, always succeeds.  It leaves the pool consistent with no block
  in use, all reference counts zero, all page locks free, and the metadata of the other pools as it was.\<close>

theorem init_buddy_correct:
  assumes "cpu_ok c" "s + n \<le> length pages" "meta + s * sizeof_page + n * sizeof_page < START_MEM"
  shows "\<exists>c' pages' pool. init_buddy meta c pages s start n = Some (c', pages', pool) \<and> same_cpu c c' \<and>
    buddy_inv pages' pool \<and> blocks pages' pool = (\<lambda>r. None) \<and> npages pool = n \<and> page_metadata pool = s \<and>
    length pages' = length pages \<and>
    (\<forall>i<length pages. (i < s \<or> s + n \<le> i \<longrightarrow> pages' ! i = pages ! i) \<and>
       (s \<le> i \<and> i < s + n \<longrightarrow> refcnt (pages' ! i) = 0 \<and> page_lock (pages' ! i) = initlock ''page_lock''))"
  using init_buddy_spec [OF assms, of start] by blast

theorem init_buddy_correct_witness:
  "\<exists>c' pages' pool. init_buddy 0 demo_cpu (replicate 5 zero_page) 1 START_MEM 3 = Some (c', pages', pool) \<and>
    buddy_inv pages' pool \<and> npages pool = 3"
  using init_buddy_correct [OF demo_cpu_ok, of 1 3 "replicate 5 zero_page" 0 START_MEM]
  by (auto simp: sizeof_page_def START_MEM_def)

text \<open>Whatever sequence of requests and releases its clients issue, starting from the pool \<open>init_buddy\<close>
  built, the blocks in use are aligned, inside the pool and pairwise disjoint, and no later request of a
  legal order can panic or block.\<close>

theorem buddy_session_safe:
  assumes "cpu_ok c" "init_buddy meta c pages s start n = Some (c', pages', pool)" "s + n \<le> length pages"
    "meta + s * sizeof_page + n * sizeof_page < START_MEM"
    "alloc_reach buddy_request buddy_release buddy_live BUDDY_MAX_ORDER (c', pages', pool) t" "k \<le> BUDDY_MAX_ORDER"
  shows "well_placed (buddy_live t) n \<and> buddy_request t k \<noteq> None \<and>
    (\<forall>h j. buddy_live t h = Some j \<longrightarrow> buddy_release t h \<noteq> None)"
proof -
  have i: "buddy_ok (c', pages', pool)" "buddy_cap (c', pages', pool) = n" "buddy_live (c', pages', pool) = (\<lambda>r. None)"
    using init_buddy_spec [OF assms(1,3,4), of start] assms(2) same_cpu_ok [OF _ assms(1)]
    by (auto simp: buddy_state_defs)
  then have t: "buddy_ok t" "buddy_cap t = n" "well_placed (buddy_live t) n"
    using buddy.reach_safe [OF assms(5) i(1)] by auto
  moreover have "buddy_request t k \<noteq> None"
    using buddy.get_law [OF t(1) assms(6)] by auto
  moreover have "buddy_release t h \<noteq> None" if "buddy_live t h = Some j" for h j
    using buddy.put_law [OF t(1) that] by auto
  ultimately show ?thesis by blast
qed

theorem buddy_session_safe_witness:
  "\<exists>c' pool pages'. init_buddy 0 demo_cpu (replicate 4 zero_page) 0 START_MEM 4 = Some (c', pages', pool) \<and>
     well_placed (buddy_live (c', pages', pool)) 4 \<and> buddy_request (c', pages', pool) 2 \<noteq> None"
proof -
  obtain c' pages' pool where "init_buddy 0 demo_cpu (replicate 4 zero_page) 0 START_MEM 4 = Some (c', pages', pool)"
    using init_buddy_spec [OF demo_cpu_ok, of 0 4 "replicate 4 zero_page" 0 START_MEM]
    by (auto simp: sizeof_page_def START_MEM_def)
  then show ?thesis
    using buddy_session_safe [OF demo_cpu_ok, of 0 "replicate 4 zero_page" 0 START_MEM 4 c' pages' pool, OF _ _ _ reach_start, of 2]
    by (simp add: sizeof_page_def START_MEM_def BUDDY_MAX_ORDER_def)
qed

end
