(* ===== verification/Cstring.thy ===== *)
theory Cstring
  imports Prelude "HOL-Library.Sublist"
begin

text \<open>
  \<open>src/lib/string.c\<close> and \<open>src/lib/ctype.c\<close> on a byte-addressed memory \<open>nat \<Rightarrow> byte\<close>.  A function that writes
  returns the new memory; the pointer results of the C functions that merely repeat an argument are
  left out.  Loops that look for a terminating zero byte may run forever and are partial functions;
  \<open>cstr m a xs\<close> says that the zero-terminated string at address \<open>a\<close> is \<open>xs\<close>.  \<open>char\<close> is unsigned on the
  target.
\<close>

type_synonym memory = "nat \<Rightarrow> byte"

definition cstr :: "memory \<Rightarrow> nat \<Rightarrow> byte list \<Rightarrow> bool" where
  "cstr m a xs \<longleftrightarrow> (\<forall>i<length xs. m (a + i) = xs ! i) \<and> 0 \<notin> set xs \<and> m (a + length xs) = 0"

subsection \<open>Memory blocks\<close>

fun memset_loop :: "memory \<Rightarrow> nat \<Rightarrow> byte \<Rightarrow> nat \<Rightarrow> nat \<Rightarrow> memory" where
  "memset_loop m dst c i 0 = m"
| "memset_loop m dst c i (Suc left) = memset_loop (m(dst + i := c)) dst c (i + 1) left"

definition memset :: "memory \<Rightarrow> nat \<Rightarrow> byte \<Rightarrow> nat \<Rightarrow> memory" where
  "memset m dst c n = memset_loop m dst c 0 n"

fun memcmp :: "memory \<Rightarrow> nat \<Rightarrow> nat \<Rightarrow> nat \<Rightarrow> int" where
  "memcmp m s1 s2 0 = 0"
| "memcmp m s1 s2 (Suc n) =
     (if m s1 \<noteq> m s2 then uint (m s1) - uint (m s2) else memcmp m (s1 + 1) (s2 + 1) n)"

fun move_down :: "memory \<Rightarrow> nat \<Rightarrow> nat \<Rightarrow> nat \<Rightarrow> memory" where
  "move_down m d s 0 = m"
| "move_down m d s (Suc n) = move_down (m(d - 1 := m (s - 1))) (d - 1) (s - 1) n"

fun move_up :: "memory \<Rightarrow> nat \<Rightarrow> nat \<Rightarrow> nat \<Rightarrow> memory" where
  "move_up m d s 0 = m"
| "move_up m d s (Suc n) = move_up (m(d := m s)) (d + 1) (s + 1) n"

definition memmove :: "memory \<Rightarrow> nat \<Rightarrow> nat \<Rightarrow> nat \<Rightarrow> memory" where
  "memmove m dst src n =
     (if n = 0 then m
      else if src < dst \<and> dst < src + n then move_down m (dst + n) (src + n) n
      else move_up m dst src n)"

definition memcpy :: "memory \<Rightarrow> nat \<Rightarrow> nat \<Rightarrow> nat \<Rightarrow> memory" where
  "memcpy m dst src n = memmove m dst src n"

subsection \<open>Comparison and copying of strings\<close>

fun strncmp :: "memory \<Rightarrow> nat \<Rightarrow> nat \<Rightarrow> nat \<Rightarrow> int" where
  "strncmp m p q 0 = 0"
| "strncmp m p q (Suc n) =
     (if m p \<noteq> 0 \<and> m p = m q then strncmp m (p + 1) (q + 1) n else uint (m p) - uint (m q))"

fun strncpy_pad :: "memory \<Rightarrow> nat \<Rightarrow> nat \<Rightarrow> memory" where
  "strncpy_pad m s 0 = m"
| "strncpy_pad m s (Suc n) = strncpy_pad (m(s := 0)) (s + 1) n"

fun strncpy_loop :: "memory \<Rightarrow> nat \<Rightarrow> nat \<Rightarrow> nat \<Rightarrow> memory" where
  "strncpy_loop m s t 0 = m"
| "strncpy_loop m s t (Suc n) =
     (let c = m t; m = m(s := c)
      in if c \<noteq> 0 then strncpy_loop m (s + 1) (t + 1) n else strncpy_pad m (s + 1) n)"

definition strncpy :: "memory \<Rightarrow> nat \<Rightarrow> nat \<Rightarrow> int \<Rightarrow> memory" where
  "strncpy m s t n = strncpy_loop m s t (nat n)"

text \<open>The copying loop of \<open>safestrcpy\<close> returns the memory and the final value of \<open>s\<close>.\<close>

fun safestrcpy_loop :: "memory \<Rightarrow> nat \<Rightarrow> nat \<Rightarrow> nat \<Rightarrow> memory \<times> nat" where
  "safestrcpy_loop m s t 0 = (m, s)"
| "safestrcpy_loop m s t (Suc n) =
     (let c = m t; m = m(s := c)
      in if c \<noteq> 0 then safestrcpy_loop m (s + 1) (t + 1) n else (m, s + 1))"

definition safestrcpy :: "memory \<Rightarrow> nat \<Rightarrow> nat \<Rightarrow> int \<Rightarrow> memory" where
  "safestrcpy m s t n =
     (if n \<le> 0 then m
      else let (m, s) = safestrcpy_loop m s t (nat n) in m(s := 0))"

subsection \<open>Scanning for the end of a string\<close>

partial_function (option) strlen_loop :: "memory \<Rightarrow> nat \<Rightarrow> nat \<Rightarrow> nat option" where
  [code]: "strlen_loop m s n = (if m (s + n) \<noteq> 0 then strlen_loop m s (n + 1) else Some n)"

definition strlen :: "memory \<Rightarrow> nat \<Rightarrow> nat option" where
  "strlen m s = strlen_loop m s 0"

fun strnlen_loop :: "memory \<Rightarrow> nat \<Rightarrow> nat \<Rightarrow> nat \<Rightarrow> nat" where
  "strnlen_loop m s sc 0 = sc - s"
| "strnlen_loop m s sc (Suc count) = (if m sc \<noteq> 0 then strnlen_loop m s (sc + 1) count else sc - s)"

definition strnlen :: "memory \<Rightarrow> nat \<Rightarrow> nat \<Rightarrow> nat" where
  "strnlen m s count = strnlen_loop m s s count"

partial_function (option) strchr :: "memory \<Rightarrow> nat \<Rightarrow> byte \<Rightarrow> nat option option" where
  [code]: "strchr m s c =
     (if m s \<noteq> 0 then if m s = c then Some (Some s) else strchr m (s + 1) c
      else if c = 0 then Some (Some s) else Some None)"

text \<open>\<open>str_split\<close> returns the memory and 1 (here \<open>True\<close>), or -1 (\<open>False\<close>) without a write.\<close>

definition str_split :: "memory \<Rightarrow> nat \<Rightarrow> byte \<Rightarrow> nat \<Rightarrow> nat \<Rightarrow> (memory \<times> bool) option" where
  "str_split m str ch str1 str2 = do {
     r \<leftarrow> strchr m str ch;
     case r of None \<Rightarrow> Some (m, False)
     | Some p \<Rightarrow> do {
         let m = strncpy m str1 str (int (p - str));
         n \<leftarrow> strlen m str;
         let m = strncpy m str2 (p + 1) (int n - 1 - int (p - str));
         Some (m, True) } }"

partial_function (option) strcat_end :: "memory \<Rightarrow> nat \<Rightarrow> nat option" where
  [code]: "strcat_end m p = (if m p \<noteq> 0 then strcat_end m (p + 1) else Some p)"

partial_function (option) strcat_copy :: "memory \<Rightarrow> nat \<Rightarrow> nat \<Rightarrow> memory option" where
  [code]: "strcat_copy m p src =
     (if m src \<noteq> 0 then strcat_copy (m(p := m src)) (p + 1) (src + 1) else Some (m(p := 0)))"

definition strcat :: "memory \<Rightarrow> nat \<Rightarrow> nat \<Rightarrow> memory option" where
  "strcat m dest src = do { p \<leftarrow> strcat_end m dest; strcat_copy m p src }"

partial_function (option) strstr_match :: "memory \<Rightarrow> nat \<Rightarrow> nat \<Rightarrow> bool option" where
  [code]: "strstr_match m h n =
     (if m h = m n \<and> m n \<noteq> 0 then strstr_match m (h + 1) (n + 1) else Some (m n = 0))"

partial_function (option) strstr_loop :: "memory \<Rightarrow> nat \<Rightarrow> nat \<Rightarrow> nat option option" where
  [code]: "strstr_loop m haystack needle =
     (if m haystack \<noteq> 0
      then Option.bind (strstr_match m haystack needle)
             (\<lambda>found. if found then Some (Some haystack) else strstr_loop m (haystack + 1) needle)
      else Some None)"

definition strstr :: "memory \<Rightarrow> nat \<Rightarrow> nat \<Rightarrow> nat option option" where
  "strstr m haystack needle = (if m needle = 0 then Some (Some haystack) else strstr_loop m haystack needle)"

partial_function (option) strcmp :: "memory \<Rightarrow> nat \<Rightarrow> nat \<Rightarrow> int option" where
  [code]: "strcmp m l r =
     (if m l = m r \<and> m l \<noteq> 0 then strcmp m (l + 1) (r + 1) else Some (uint (m l) - uint (m r)))"

definition is_suffix :: "memory \<Rightarrow> nat \<Rightarrow> nat \<Rightarrow> bool option" where
  "is_suffix m str sfx = do {
     str_len \<leftarrow> strlen m str;
     suffix_len \<leftarrow> strlen m sfx;
     if str_len < suffix_len then Some False
     else do {
       r \<leftarrow> strcmp m (str + (str_len - suffix_len)) sfx;
       Some (r = 0) } }"

subsection \<open>Character classes\<close>

text \<open>The \<open>_ctype\<close> table by ranges: upper 1, lower 2, digit 4, control 8, punctuation 16, white space 32,
  hex digit 64, hard space 128.\<close>

definition ctype_class :: "byte \<Rightarrow> byte" where
  "ctype_class c = (let n = unat c in
     if 9 \<le> n \<and> n \<le> 13 then 0x28
     else if n \<le> 31 \<or> n = 127 then 0x08
     else if n = 32 then 0xA0
     else if 48 \<le> n \<and> n \<le> 57 then 0x04
     else if 65 \<le> n \<and> n \<le> 70 then 0x41
     else if 71 \<le> n \<and> n \<le> 90 then 0x01
     else if 97 \<le> n \<and> n \<le> 102 then 0x42
     else if 103 \<le> n \<and> n \<le> 122 then 0x02
     else if n \<le> 126 then 0x10
     else 0)"

definition isupper :: "byte \<Rightarrow> bool" where "isupper c \<longleftrightarrow> and (ctype_class c) 0x01 \<noteq> 0"
definition islower :: "byte \<Rightarrow> bool" where "islower c \<longleftrightarrow> and (ctype_class c) 0x02 \<noteq> 0"
definition isdigit :: "byte \<Rightarrow> bool" where "isdigit c \<longleftrightarrow> and (ctype_class c) 0x04 \<noteq> 0"
definition isspace :: "byte \<Rightarrow> bool" where "isspace c \<longleftrightarrow> and (ctype_class c) 0x20 \<noteq> 0"

definition toupper :: "byte \<Rightarrow> byte" where "toupper c = (if islower c then c - 32 else c)"
definition tolower :: "byte \<Rightarrow> byte" where "tolower c = (if isupper c then c + 32 else c)"

partial_function (option) str_toupper :: "memory \<Rightarrow> nat \<Rightarrow> memory option" where
  [code]: "str_toupper m s = (if m s \<noteq> 0 then str_toupper (m(s := toupper (m s))) (s + 1) else Some m)"

partial_function (option) str_tolower :: "memory \<Rightarrow> nat \<Rightarrow> memory option" where
  [code]: "str_tolower m s = (if m s \<noteq> 0 then str_tolower (m(s := tolower (m s))) (s + 1) else Some m)"

subsection \<open>Memory blocks: correctness\<close>

lemma memset_loop_at: "memset_loop m d c i n x = (if d + i \<le> x \<and> x < d + i + n then c else m x)"
  by (induction n arbitrary: m i) auto

lemma move_up_at:
  "d \<le> s \<or> s + n \<le> d \<Longrightarrow> move_up m d s n x = (if d \<le> x \<and> x < d + n then m (s + (x - d)) else m x)"
proof (induction n arbitrary: m d s)
  case (Suc n)
  have "move_up (m(d := m s)) (d + 1) (s + 1) n x =
      (if d + 1 \<le> x \<and> x < d + 1 + n then (m(d := m s)) (s + 1 + (x - (d + 1))) else (m(d := m s)) x)"
    by (rule Suc.IH) (use Suc.prems in auto)
  then show ?case
    using Suc.prems by (auto intro!: arg_cong [of _ _ m])
qed auto

lemma move_down_at:
  "s \<le> d \<Longrightarrow> n \<le> s \<Longrightarrow> move_down m d s n x = (if d - n \<le> x \<and> x < d then m (s - (d - x)) else m x)"
proof (induction n arbitrary: m d s)
  case (Suc n)
  have "move_down (m(d - 1 := m (s - 1))) (d - 1) (s - 1) n x =
      (if d - 1 - n \<le> x \<and> x < d - 1 then (m(d - 1 := m (s - 1))) (s - 1 - (d - 1 - x)) else (m(d - 1 := m (s - 1))) x)"
    by (rule Suc.IH) (use Suc.prems in auto)
  then show ?case
    using Suc.prems by (auto intro!: arg_cong [of _ _ m])
qed auto

lemma memmove_at: "memmove m dst src n x = (if dst \<le> x \<and> x < dst + n then m (src + (x - dst)) else m x)"
proof (cases "src < dst \<and> dst < src + n")
  case True
  then show ?thesis
    by (auto simp: memmove_def move_down_at intro!: arg_cong [of _ _ m])
next
  case False
  then show ?thesis
    by (auto simp: memmove_def move_up_at not_less)
qed

lemma byte_uint_simps [simp]: "uint a = uint b \<longleftrightarrow> a = (b :: byte)" "uint a = 0 \<longleftrightarrow> a = (0 :: byte)" "0 = uint b \<longleftrightarrow> b = (0 :: byte)"
  by (auto simp: word_uint_eq_iff)

lemma memcmp_zero: "memcmp m s1 s2 n = 0 \<longleftrightarrow> (\<forall>i<n. m (s1 + i) = m (s2 + i))"
proof (induction m s1 s2 n rule: memcmp.induct)
  case (2 m s1 s2 n)
  then show ?case
    by (auto simp: less_Suc_eq_0_disj)
qed simp

subsection \<open>Strings: correctness\<close>

lemma cstr_Nil [simp]: "cstr m a [] \<longleftrightarrow> m a = 0"
  by (simp add: cstr_def)

lemma cstr_Cons [simp]: "cstr m a (x # xs) \<longleftrightarrow> m a = x \<and> x \<noteq> 0 \<and> cstr m (a + 1) xs"
  by (auto simp: cstr_def less_Suc_eq_0_disj)

lemma cstr_drop: "cstr m a xs \<Longrightarrow> i \<le> length xs \<Longrightarrow> cstr m (a + i) (drop i xs)"
proof (induction xs arbitrary: a i)
  case (Cons x xs)
  then show ?case by (cases i) (auto dest: Cons.IH)
qed simp

lemma cstr_cong: "(\<And>i. i \<le> length xs \<Longrightarrow> m' (a + i) = m (a + i)) \<Longrightarrow> cstr m' a xs = cstr m a xs"
  by (auto simp: cstr_def)

lemma strlen_loop_cstr: "cstr m (s + n) xs \<Longrightarrow> strlen_loop m s n = Some (n + length xs)"
proof (induction xs arbitrary: n)
  case Nil
  then show ?case by (subst strlen_loop.simps) simp
next
  case (Cons x xs)
  then show ?case by (subst strlen_loop.simps) auto
qed

lemma strlen_cstr: "cstr m s xs \<Longrightarrow> strlen m s = Some (length xs)"
  using strlen_loop_cstr [of m s 0 xs] by (simp add: strlen_def)

lemma strnlen_loop_cstr: "s \<le> a \<Longrightarrow> cstr m a xs \<Longrightarrow> strnlen_loop m s a c = a - s + min c (length xs)"
proof (induction xs arbitrary: a c)
  case Nil
  then show ?case by (cases c) auto
next
  case (Cons x xs)
  then show ?case by (cases c) auto
qed

lemma strnlen_cstr: "cstr m s xs \<Longrightarrow> strnlen m s c = min c (length xs)"
  using strnlen_loop_cstr [of s s m xs c] by (simp add: strnlen_def)

lemma strcmp_cstr:
  "cstr m l xs \<Longrightarrow> cstr m r ys \<Longrightarrow> \<exists>d. strcmp m l r = Some d \<and> (d = 0 \<longleftrightarrow> xs = ys)"
proof (induction xs arbitrary: l r ys)
  case Nil
  then show ?case by (cases ys) (auto simp: strcmp.simps [of m l])
next
  case (Cons x xs)
  then show ?case by (cases ys) (auto simp: strcmp.simps [of m l])
qed

lemma strncmp_cstr:
  "cstr m p xs \<Longrightarrow> cstr m q ys \<Longrightarrow> strncmp m p q n = 0 \<longleftrightarrow> take n xs = take n ys"
proof (induction n arbitrary: p q xs ys)
  case (Suc n)
  then show ?case by (cases xs; cases ys) auto
qed simp

lemma strncpy_pad_at: "strncpy_pad m s n x = (if s \<le> x \<and> x < s + n then 0 else m x)"
  by (induction n arbitrary: m s) auto

text \<open>Copying between disjoint areas: \<open>cpy xs i\<close> is byte \<open>i\<close> of the string \<open>xs\<close> padded with zeroes.\<close>

definition cpy :: "byte list \<Rightarrow> nat \<Rightarrow> byte" where
  "cpy xs i = (if i < length xs then xs ! i else 0)"

lemma cpy_Cons: "cpy (x # xs) i = (if i = 0 then x else cpy xs (i - 1))"
  by (cases i) (simp_all add: cpy_def)

lemma strncpy_loop_at:
  "cstr m t xs \<Longrightarrow> s + n \<le> t \<or> t + length xs < s \<Longrightarrow>
     strncpy_loop m s t n y = (if s \<le> y \<and> y < s + n then cpy xs (y - s) else m y)"
proof (induction n arbitrary: m s t xs)
  case (Suc n)
  show ?case
  proof (cases xs)
    case Nil
    then show ?thesis
      using Suc.prems by (auto simp: strncpy_pad_at cpy_def)
  next
    case (Cons x ys)
    then have c: "cstr (m(s := x)) (t + 1) ys"
      using Suc.prems by (subst cstr_cong [of ys _ _ m]) auto
    have "strncpy_loop (m(s := x)) (s + 1) (t + 1) n y =
        (if s + 1 \<le> y \<and> y < s + 1 + n then cpy ys (y - (s + 1)) else (m(s := x)) y)"
      by (rule Suc.IH [OF c]) (use Suc.prems(2) Cons in auto)
    then show ?thesis
      using Suc.prems Cons by (auto simp: cpy_Cons)
  qed
qed auto

text \<open>The pointer left by the copying loop of \<open>safestrcpy\<close>, and what it wrote.\<close>

lemma safestrcpy_loop_at:
  "cstr m t xs \<Longrightarrow> s + n \<le> t \<or> t + length xs < s \<Longrightarrow>
     snd (safestrcpy_loop m s t n) = s + min n (length xs + 1) \<and>
     fst (safestrcpy_loop m s t n) y = (if s \<le> y \<and> y < s + min n (length xs + 1) then cpy xs (y - s) else m y)"
proof (induction n arbitrary: m s t xs)
  case (Suc n)
  show ?case
  proof (cases xs)
    case Nil
    then show ?thesis using Suc.prems by (auto simp: cpy_def)
  next
    case (Cons x ys)
    then have c: "cstr (m(s := x)) (t + 1) ys"
      using Suc.prems by (subst cstr_cong [of ys _ _ m]) auto
    have "snd (safestrcpy_loop (m(s := x)) (s + 1) (t + 1) n) = s + 1 + min n (length ys + 1) \<and>
        fst (safestrcpy_loop (m(s := x)) (s + 1) (t + 1) n) y =
          (if s + 1 \<le> y \<and> y < s + 1 + min n (length ys + 1) then cpy ys (y - (s + 1)) else (m(s := x)) y)"
      by (rule Suc.IH [OF c]) (use Suc.prems Cons in auto)
    then show ?thesis
      using Suc.prems Cons by (auto simp: cpy_Cons)
  qed
qed auto

lemma safestrcpy_at:
  assumes "cstr m t xs" "0 < n" "s + nat n \<le> t \<or> t + length xs < s"
  shows "safestrcpy m s t n y = (if s \<le> y \<and> y < s + min (nat n) (length xs + 1) then cpy xs (y - s)
      else if y = s + min (nat n) (length xs + 1) then 0 else m y)"
  using safestrcpy_loop_at [OF assms(1,3), of y] assms(2)
  by (auto simp: safestrcpy_def split: prod.splits)

lemma strchr_cstr:
  "cstr m s xs \<Longrightarrow> c \<noteq> 0 \<Longrightarrow>
     strchr m s c = Some (if c \<in> set xs then Some (s + length (takeWhile (\<lambda>x. x \<noteq> c) xs)) else None)"
  by (induction xs arbitrary: s) (auto simp: strchr.simps [of m])

lemma strstr_match_cstr:
  "cstr m h xs \<Longrightarrow> cstr m n ys \<Longrightarrow> strstr_match m h n = Some (prefix ys xs)"
proof (induction ys arbitrary: h n xs)
  case Nil
  then show ?case by (simp add: strstr_match.simps [of m])
next
  case (Cons y ys)
  then show ?case by (cases xs) (auto simp: strstr_match.simps [of m h n])
qed

lemma strstr_loop_cstr:
  "cstr m h xs \<Longrightarrow> cstr m n ys \<Longrightarrow> ys \<noteq> [] \<Longrightarrow>
     \<exists>r. strstr_loop m h n = Some r \<and>
       (case r of None \<Rightarrow> \<not> sublist ys xs
        | Some p \<Rightarrow> \<exists>i. p = h + i \<and> prefix ys (drop i xs) \<and> (\<forall>j<i. \<not> prefix ys (drop j xs)))"
proof (induction xs arbitrary: h)
  case Nil
  then show ?case by (simp add: strstr_loop.simps [of m h])
next
  case (Cons x xs)
  have mat: "strstr_match m h n = Some (prefix ys (x # xs))"
    using strstr_match_cstr [OF Cons.prems(1,2)] .
  have x: "m h \<noteq> 0" using Cons.prems(1) by auto
  show ?case
  proof (cases "prefix ys (x # xs)")
    case True
    then show ?thesis using x mat by (auto simp: strstr_loop.simps [of m h] intro!: exI [of _ 0])
  next
    case False
    obtain r where r: "strstr_loop m (h + 1) n = Some r"
      "case r of None \<Rightarrow> \<not> sublist ys xs
        | Some p \<Rightarrow> \<exists>i. p = h + 1 + i \<and> prefix ys (drop i xs) \<and> (\<forall>j<i. \<not> prefix ys (drop j xs))"
      using Cons.IH [of "h + 1"] Cons.prems by auto
    have run: "strstr_loop m h n = Some r"
      using x mat False r(1) by (simp add: strstr_loop.simps [of m h])
    show ?thesis
    proof (cases r)
      case None
      then show ?thesis using run r(2) False by (simp add: sublist_Cons_right)
    next
      case (Some p)
      then obtain i where "p = h + Suc i" "prefix ys (drop i xs)" "\<forall>j<i. \<not> prefix ys (drop j xs)"
        using r(2) by auto
      then show ?thesis
        using run Some False by (auto intro!: exI [of _ "Suc i"] simp: less_Suc_eq_0_disj)
    qed
  qed
qed

lemma strcat_end_cstr: "cstr m p xs \<Longrightarrow> strcat_end m p = Some (p + length xs)"
  by (induction xs arbitrary: p) (auto simp: strcat_end.simps [of m])

lemma strcat_copy_cstr:
  "cstr m t ys \<Longrightarrow> p + length ys < t \<or> t + length ys < p \<Longrightarrow>
     \<exists>m'. strcat_copy m p t = Some m' \<and> (\<forall>y. m' y = (if p \<le> y \<and> y \<le> p + length ys then cpy ys (y - p) else m y))"
proof (induction ys arbitrary: m p t)
  case Nil
  then show ?case by (auto simp: strcat_copy.simps [of m p] cpy_def)
next
  case (Cons x ys)
  have c: "cstr (m(p := x)) (t + 1) ys"
    using Cons.prems by (subst cstr_cong [of ys _ _ m]) auto
  have "p + 1 + length ys < t + 1 \<or> t + 1 + length ys < p + 1"
    using Cons.prems(2) by auto
  from Cons.IH [OF c this] obtain m' where "strcat_copy (m(p := x)) (p + 1) (t + 1) = Some m'"
    "\<forall>y. m' y = (if p + 1 \<le> y \<and> y \<le> p + 1 + length ys then cpy ys (y - (p + 1)) else (m(p := x)) y)"
    by blast
  then show ?case
    using Cons.prems by (auto simp: strcat_copy.simps [of m p] cpy_Cons)
qed

lemma strcat_cstr:
  assumes d: "cstr m dest xs" and t: "cstr m src ys"
    and dis: "dest + length xs + length ys < src \<or> src + length ys < dest"
  shows "\<exists>m'. strcat m dest src = Some m' \<and> cstr m' dest (xs @ ys) \<and> cstr m' src ys \<and>
    (\<forall>y. y < dest \<or> dest + length xs + length ys < y \<longrightarrow> m' y = m y)"
proof -
  obtain m' where m': "strcat_copy m (dest + length xs) src = Some m'"
    "\<forall>y. m' y = (if dest + length xs \<le> y \<and> y \<le> dest + length xs + length ys then cpy ys (y - (dest + length xs)) else m y)"
    using strcat_copy_cstr [OF t, of "dest + length xs"] dis by auto
  have "cstr m' dest (xs @ ys)"
    using d t m'(2) by (auto simp: cstr_def nth_append cpy_def)
  moreover have "cstr m' src ys"
    using t m'(2) dis by (subst cstr_cong [of ys m' src m]) auto
  ultimately show ?thesis
    using m' strcat_end_cstr [OF d] by (auto simp: strcat_def)
qed

lemma strncpy_cstr:
  assumes "cstr m t xs" "s + nat n \<le> t \<or> t + length xs < s"
  shows "strncpy m s t n y = (if s \<le> y \<and> y < s + nat n then cpy xs (y - s) else m y)"
  using strncpy_loop_at [OF assms] by (simp add: strncpy_def)

lemma isupper_range: "isupper c \<longleftrightarrow> 65 \<le> unat c \<and> unat c \<le> 90"
  by (auto simp: isupper_def ctype_class_def Let_def)

lemma islower_range: "islower c \<longleftrightarrow> 97 \<le> unat c \<and> unat c \<le> 122"
  by (auto simp: islower_def ctype_class_def Let_def)

lemma toupper_nonzero: "c \<noteq> 0 \<Longrightarrow> toupper c \<noteq> 0"
  by (auto simp: toupper_def islower_range)

lemma str_toupper_cstr:
  "cstr m s xs \<Longrightarrow> \<exists>m'. str_toupper m s = Some m' \<and> cstr m' s (List.map toupper xs) \<and>
     (\<forall>y. y < s \<or> s + length xs \<le> y \<longrightarrow> m' y = m y)"
proof (induction xs arbitrary: m s)
  case Nil
  then show ?case by (auto simp: str_toupper.simps [of m s])
next
  case (Cons x xs)
  have "cstr (m(s := toupper x)) (s + 1) xs"
    using Cons.prems by (subst cstr_cong [of xs _ _ m]) auto
  from Cons.IH [OF this] obtain m' where "str_toupper (m(s := toupper x)) (s + 1) = Some m'"
    "cstr m' (s + 1) (List.map toupper xs)" "\<forall>y. y < s + 1 \<or> s + 1 + length xs \<le> y \<longrightarrow> m' y = (m(s := toupper x)) y"
    by blast
  then show ?case
    using Cons.prems toupper_nonzero by (auto simp: str_toupper.simps [of m s])
qed

subsection \<open>Properties\<close>

text \<open>\<open>memmove\<close> copies \<open>n\<close> bytes whatever the overlap of source and destination: afterwards byte \<open>i\<close> of the
  destination is the byte \<open>i\<close> the source had before the call, and no other byte has changed.\<close>

theorem memmove_correct:
  "memmove m dst src n x = (if dst \<le> x \<and> x < dst + n then m (src + (x - dst)) else m x)"
  by (rule memmove_at)

text \<open>\<open>strstr\<close> on two terminated strings returns: the haystack itself for an empty needle, the address of the
  first occurrence if there is one, and \<open>NULL\<close> only if the needle does not occur.\<close>

theorem strstr_correct:
  assumes "cstr m h xs" "cstr m n ys"
  shows "\<exists>r. strstr m h n = Some r \<and>
    (case r of None \<Rightarrow> \<not> sublist ys xs
     | Some p \<Rightarrow> \<exists>i. p = h + i \<and> prefix ys (drop i xs) \<and> (\<forall>j<i. \<not> prefix ys (drop j xs)))"
proof (cases ys)
  case Nil
  then show ?thesis using assms by (auto simp: strstr_def intro!: exI [of _ 0])
next
  case (Cons y zs)
  then show ?thesis using strstr_loop_cstr [OF assms] assms(2) by (auto simp: strstr_def)
qed

definition demo_text :: memory where
  "demo_text = (\<lambda>a. if a = 0 then 97 else if a = 1 then 98 else if a = 2 then 98 else if a = 10 then 98 else 0)"

lemma demo_text_strings: "cstr demo_text 0 [97, 98, 98]" "cstr demo_text 10 [98]"
  by (simp_all add: demo_text_def)

theorem strstr_correct_witness:
  "\<exists>r. strstr demo_text 0 10 = Some (Some r) \<and> r = 1"
proof -
  have "strstr demo_text 0 10 = Some (Some 1)" by code_simp
  then show ?thesis
    using strstr_correct [OF demo_text_strings] by auto
qed

text \<open>\<open>is_suffix\<close>, built on \<open>strlen\<close> and \<open>strcmp\<close>, returns on terminated strings and decides the suffix
  relation.\<close>

theorem is_suffix_correct:
  assumes "cstr m a xs" "cstr m b ys"
  shows "is_suffix m a b = Some (suffix ys xs)"
proof (cases "length xs < length ys")
  case True
  then show ?thesis
    using strlen_cstr [OF assms(1)] strlen_cstr [OF assms(2)] by (auto simp: is_suffix_def suffix_def)
next
  case False
  let ?k = "length xs - length ys"
  obtain d where "strcmp m (a + ?k) b = Some d" "d = 0 \<longleftrightarrow> drop ?k xs = ys"
    using strcmp_cstr [OF cstr_drop [OF assms(1)] assms(2)] by (metis diff_le_self)
  moreover have "drop ?k xs = ys \<longleftrightarrow> suffix ys xs"
    by (auto simp: suffix_def) (metis append_take_drop_id)
  ultimately show ?thesis
    using strlen_cstr [OF assms(1)] strlen_cstr [OF assms(2)] False by (auto simp: is_suffix_def)
qed

theorem is_suffix_correct_witness: "is_suffix demo_text 0 10 = Some (suffix [98 :: byte] [97, 98, 98])"
  by (rule is_suffix_correct [OF demo_text_strings])

text \<open>\<open>safestrcpy\<close> with a buffer of \<open>n\<close> bytes writes \<open>n + 1\<close> of them: copying a string of at least \<open>n\<close> characters
  puts the terminating zero into the byte just past the buffer, and the \<open>n\<close> bytes of the buffer itself
  hold no terminator.\<close>

theorem safestrcpy_overflow:
  assumes "cstr m t xs" "0 < n" "nat n \<le> length xs" "s + nat n < t"
  shows "safestrcpy m s t n (s + nat n) = 0 \<and> (\<forall>i<nat n. safestrcpy m s t n (s + i) = xs ! i \<and> xs ! i \<noteq> 0)"
proof -
  have at: "safestrcpy m s t n y = (if s \<le> y \<and> y < s + min (nat n) (length xs + 1) then cpy xs (y - s)
      else if y = s + min (nat n) (length xs + 1) then 0 else m y)" for y
    by (rule safestrcpy_at) (use assms in auto)
  have "xs ! i \<noteq> 0" if "i < nat n" for i
    using assms(1,3) that by (metis cstr_def nth_mem order_less_le_trans)
  then show ?thesis
    using at assms(3) by (auto simp: cpy_def)
qed

theorem safestrcpy_overflow_witness:
  "safestrcpy (\<lambda>a. if a = 2 then 7 else if 10 \<le> a \<and> a < 13 then 65 else 0) 0 10 2 2 = 0"
proof -
  have "cstr (\<lambda>a. if a = 2 then 7 else if 10 \<le> a \<and> a < 13 then 65 else 0) 10 [65, 65, 65]" by simp
  from safestrcpy_overflow [OF this, of 2 0] show ?thesis by (simp add: numeral_2_eq_2)
qed

end
