(* ===== verification/Kalloc.thy ===== *)
theory Kalloc
  imports Buddy Cstring
begin

text \<open>
  The page allocator front end of \<open>src/mm/kalloc.c\<close> over the per-CPU buddy pools, with \<open>mm_init\<close> and
  \<open>get_free_mem\<close> of \<open>src/mm/buddy.c\<close>.

  The number of CPUs (\<open>NCPU\<close>, a compiler flag) is the length of the pool array and the number of pages
  per pool is the field \<open>km_ppc\<close>.  \<open>alloc_fail\<close>, the reclaim callback of the file system, is a
  parameter of \<open>kmalloc\<close> and \<open>kalloc\<close>; what is assumed of it is the predicate \<open>recycler\<close>.
\<close>

record kmem =
  km_cpu :: thread_cpu
  km_pages :: "page list"
  km_pools :: "phys_mem_pool list"
  km_ppc :: nat
  km_cnt :: int
  km_recycling :: int
  km_mem :: "nat \<Rightarrow> byte"

definition PAGES_THRESHOLD :: int where
  "PAGES_THRESHOLD = 500"

subsection \<open>Addresses\<close>

definition page_to_pa :: "nat \<Rightarrow> nat" where
  "page_to_pa p = p * PGSIZE + START_MEM"

definition pa_to_page :: "nat \<Rightarrow> nat option" where
  "pa_to_page pa =
     (if pa < START_MEM then None
      else do {
        ASSERT ((pa - START_MEM) mod PGSIZE = 0);
        Some ((pa - START_MEM) div PGSIZE) })"

definition get_pages_cpu :: "kmem \<Rightarrow> nat \<Rightarrow> nat" where
  "get_pages_cpu s p = p div km_ppc s"

subsection \<open>Order of a request\<close>

text \<open>
  \<open>size_to_page_order\<close> at the width of the code: \<open>ROUND_UP\<close> is 64-bit arithmetic; the comparison with
  \<open>1 << order\<close>, an \<open>int\<close> shift, has no defined value from order 31 on.
\<close>

definition ROUND_UP :: "uint64 \<Rightarrow> uint64 \<Rightarrow> uint64" where
  "ROUND_UP x n = (x + n - 1) AND NOT (n - 1)"

function order_loop :: "uint64 \<Rightarrow> nat \<Rightarrow> nat" where
  "order_loop tmp k = (if 1 < tmp then order_loop (drop_bit 1 tmp) (k + 1) else k)"
  by pat_completeness auto
termination
proof (relation "measure (\<lambda>(tmp, k). unat tmp)")
  fix tmp :: uint64 and k :: nat
  assume "1 < tmp"
  then have "1 < unat tmp" by (simp add: word_less_nat_alt)
  then show "((drop_bit 1 tmp, k + 1), (tmp, k)) \<in> measure (\<lambda>(tmp, k). unat tmp)"
    by (simp add: drop_bit_eq_div unat_div_distrib)
qed simp

declare order_loop.simps [simp del]

definition size_to_page_order :: "uint64 \<Rightarrow> nat option" where
  "size_to_page_order sz = do {
     let page_num = ROUND_UP sz (word_of_nat PGSIZE) div word_of_nat PGSIZE;
     let k = order_loop page_num 0;
     ASSERT (k < 31);
     Some (if 2 ^ k < unat page_num then k + 1 else k) }"

subsection \<open>Allocation\<close>

definition pool_get :: "kmem \<Rightarrow> nat \<Rightarrow> nat \<Rightarrow> (kmem \<times> nat option) option" where
  "pool_get s i k = do {
     ASSERT (i < length (km_pools s));
     (c, pages, pool, r) \<leftarrow> buddy_get_pages (push_off (km_cpu s)) (km_pages s) (km_pools s ! i) k;
     Some (s\<lparr>km_cpu := c, km_pages := pages, km_pools := (km_pools s)[i := pool]\<rparr>, r) }"

fun steal_from :: "nat list \<Rightarrow> nat \<Rightarrow> kmem \<Rightarrow> nat \<Rightarrow> (kmem \<times> nat option) option" where
  "steal_from [] cur_id s k = Some (s, None)"
| "steal_from (i # is) cur_id s k =
     (if i = cur_id then steal_from is cur_id s k
      else do {
        (s, r) \<leftarrow> pool_get s i k;
        case r of Some p \<Rightarrow> Some (s, Some p) | None \<Rightarrow> steal_from is cur_id s k })"

definition steal_mem :: "kmem \<Rightarrow> nat \<Rightarrow> nat \<Rightarrow> (kmem \<times> nat option) option" where
  "steal_mem s cur_id k = steal_from [0 ..< length (km_pools s)] cur_id s k"

text \<open>The common part of \<open>kmalloc\<close> and \<open>kalloc\<close>, which differ only in the order.\<close>

definition take_pages :: "kmem \<Rightarrow> nat \<Rightarrow> (kmem \<times> nat option) option" where
  "take_pages s k = do {
     let i = cpu_id (km_cpu s);
     (s, r) \<leftarrow> pool_get s i k;
     case r of Some p \<Rightarrow> Some (s, Some p) | None \<Rightarrow> steal_mem s i k }"

definition note_alloc :: "(kmem \<Rightarrow> kmem option) \<Rightarrow> kmem \<Rightarrow> nat \<Rightarrow> (kmem \<times> nat option) option" where
  "note_alloc alloc_fail s p = do {
     pg \<leftarrow> pg_get (km_pages s) p;
     ASSERT (refcnt pg = 0);
     pages \<leftarrow> pg_upd (km_pages s) p (\<lambda>pg. pg\<lparr>refcnt := 1\<rparr>);
     let s = s\<lparr>km_pages := pages, km_cnt := km_cnt s - 2 ^ order pg\<rparr>;
     s \<leftarrow> (if km_recycling s = 0 \<and> km_cnt s < PAGES_THRESHOLD
          then do {
            s \<leftarrow> alloc_fail (s\<lparr>km_recycling := km_recycling s + 1\<rparr>);
            Some (s\<lparr>km_recycling := km_recycling s - 1\<rparr>) }
          else Some s);
     Some (s, Some (page_to_pa p)) }"

definition kmalloc :: "(kmem \<Rightarrow> kmem option) \<Rightarrow> kmem \<Rightarrow> uint64 \<Rightarrow> (kmem \<times> nat option) option" where
  "kmalloc alloc_fail s sz = do {
     k \<leftarrow> (if sz \<le> word_of_nat PGSIZE then Some 0 else size_to_page_order sz);
     (s, r) \<leftarrow> take_pages s k;
     case r of None \<Rightarrow> Some (s, None) | Some p \<Rightarrow> note_alloc alloc_fail s p }"

definition kalloc :: "(kmem \<Rightarrow> kmem option) \<Rightarrow> kmem \<Rightarrow> (kmem \<times> nat option) option" where
  "kalloc alloc_fail s = do {
     (s, r) \<leftarrow> take_pages s 0;
     case r of None \<Rightarrow> Some (s, None) | Some p \<Rightarrow> note_alloc alloc_fail s p }"

definition memset_pa :: "kmem \<Rightarrow> nat \<Rightarrow> byte \<Rightarrow> nat \<Rightarrow> kmem" where
  "memset_pa s a v n = s\<lparr>km_mem := memset (km_mem s) a v n\<rparr>"

lemma memset_pa_eq [code]: "memset_pa s a v n = s\<lparr>km_mem := (\<lambda>x. if a \<le> x \<and> x < a + n then v else km_mem s x)\<rparr>"
proof -
  have "memset (km_mem s) a v n = (\<lambda>x. if a \<le> x \<and> x < a + n then v else km_mem s x)"
    by (rule ext) (simp add: memset_def memset_loop_at)
  then show ?thesis by (simp add: memset_pa_def)
qed

definition kzalloc :: "(kmem \<Rightarrow> kmem option) \<Rightarrow> kmem \<Rightarrow> uint64 \<Rightarrow> (kmem \<times> nat option) option" where
  "kzalloc alloc_fail s sz = do {
     (s, ptr) \<leftarrow> kmalloc alloc_fail s sz;
     case ptr of None \<Rightarrow> Some (s, None)
     | Some a \<Rightarrow> Some (memset_pa s a 0 (unat sz), Some a) }"

subsection \<open>Release and sharing\<close>

definition kfree :: "kmem \<Rightarrow> nat \<Rightarrow> kmem option" where
  "kfree s pa = do {
     p \<leftarrow> pa_to_page pa;
     pg \<leftarrow> pg_get (km_pages s) p;
     (c, l) \<leftarrow> acquire (km_cpu s) (page_lock pg);
     ASSERT (\<not> refcnt pg < 1);
     let pg = pg\<lparr>page_lock := l, refcnt := refcnt pg - 1\<rparr>;
     if 1 \<le> refcnt pg then do {
       (c, l) \<leftarrow> release c (page_lock pg);
       Some (s\<lparr>km_cpu := c, km_pages := (km_pages s)[p := pg\<lparr>page_lock := l\<rparr>]\<rparr>) }
     else do {
       ASSERT (refcnt pg = 0);
       (c, l) \<leftarrow> release c (page_lock pg);
       let s = s\<lparr>km_cpu := c, km_pages := (km_pages s)[p := pg\<lparr>page_lock := l\<rparr>]\<rparr>;
       ASSERT (allocated pg = 1);
       let i = get_pages_cpu s p;
       ASSERT (i < length (km_pools s));
       let s = s\<lparr>km_cnt := km_cnt s + 2 ^ order pg\<rparr>;
       (c, pages, pool) \<leftarrow> buddy_free_pages (km_cpu s) (km_pages s) (km_pools s ! i) p;
       Some (s\<lparr>km_cpu := c, km_pages := pages, km_pools := (km_pools s)[i := pool]\<rparr>) } }"

definition share_page :: "kmem \<Rightarrow> nat \<Rightarrow> kmem option" where
  "share_page s pa = do {
     p \<leftarrow> pa_to_page pa;
     pg \<leftarrow> pg_get (km_pages s) p;
     ASSERT (1 \<le> refcnt pg);
     Some (s\<lparr>km_pages := (km_pages s)[p := pg\<lparr>refcnt := refcnt pg + 1\<rparr>]\<rparr>) }"

subsection \<open>Start-up and accounting\<close>

fun init_pools :: "nat \<Rightarrow> nat \<Rightarrow> nat list \<Rightarrow> thread_cpu \<Rightarrow> page list \<Rightarrow>
    (thread_cpu \<times> page list \<times> phys_mem_pool list) option" where
  "init_pools meta ppc [] c pages = Some (c, pages, [])"
| "init_pools meta ppc (i # is) c pages = do {
     (c, pages, pool) \<leftarrow> init_buddy meta c pages (i * ppc) (START_MEM + i * ppc * PGSIZE) ppc;
     (c, pages, pools) \<leftarrow> init_pools meta ppc is c pages;
     Some (c, pages, pool # pools) }"

text \<open>\<open>mm_init\<close> for \<open>ncpu\<close> CPUs and \<open>tot\<close> (\<open>NPAGES\<close>) pages whose metadata starts at \<open>meta\<close>.\<close>

definition mm_init :: "nat \<Rightarrow> nat \<Rightarrow> nat \<Rightarrow> thread_cpu \<Rightarrow> page list \<Rightarrow> (nat \<Rightarrow> byte) \<Rightarrow> kmem option" where
  "mm_init meta ncpu tot c pages mem = do {
     (c, pages, pools) \<leftarrow> init_pools meta (tot div ncpu) [0 ..< ncpu] c pages;
     Some \<lparr>km_cpu = c, km_pages = pages, km_pools = pools, km_ppc = tot div ncpu,
           km_cnt = int tot, km_recycling = 0, km_mem = mem\<rparr> }"

fun sum_pools :: "thread_cpu \<Rightarrow> phys_mem_pool list \<Rightarrow> (thread_cpu \<times> int) option" where
  "sum_pools c [] = Some (c, 0)"
| "sum_pools c (pool # pools) = do {
     (c, l) \<leftarrow> acquire c (pool_lock pool);
     (c, l) \<leftarrow> release c l;
     (c, m) \<leftarrow> sum_pools c pools;
     Some (c, pool_free_mem pool + m) }"

definition get_free_mem :: "kmem \<Rightarrow> (kmem \<times> int) option" where
  "get_free_mem s = do {
     (c, m) \<leftarrow> sum_pools (km_cpu s) (km_pools s);
     Some (s\<lparr>km_cpu := c\<rparr>, m) }"


subsection \<open>Invariant\<close>

definition km_pool :: "kmem \<Rightarrow> nat \<Rightarrow> phys_mem_pool" where
  "km_pool s i = km_pools s ! i"

definition km_total :: "kmem \<Rightarrow> nat" where
  "km_total s = length (km_pools s) * km_ppc s"

text \<open>The allocated blocks of all pools, by global page index.\<close>

definition km_blocks :: "kmem \<Rightarrow> nat \<Rightarrow> nat option" where
  "km_blocks s p =
     (if p < km_total s then blocks (km_pages s) (km_pool s (p div km_ppc s)) (p mod km_ppc s) else None)"

definition pools_ok :: "kmem \<Rightarrow> bool" where
  "pools_ok s \<longleftrightarrow> 0 < km_ppc s \<and> km_total s \<le> length (km_pages s) \<and>
     cpu_ok (km_cpu s) \<and> cpu_id (km_cpu s) < length (km_pools s) \<and>
     (\<forall>i<length (km_pools s). buddy_inv (km_pages s) (km_pool s i) \<and>
        page_metadata (km_pool s i) = i * km_ppc s \<and> npages (km_pool s i) = km_ppc s) \<and>
     (\<forall>p<km_total s. lk_free (page_lock (km_pages s ! p)))"

definition refs_ok :: "kmem \<Rightarrow> bool" where
  "refs_ok s \<longleftrightarrow> (\<forall>p<km_total s. if km_blocks s p = None then refcnt (km_pages s ! p) = 0 else 1 \<le> refcnt (km_pages s ! p))"

definition used_pages :: "kmem \<Rightarrow> nat" where
  "used_pages s = (\<Sum>p<km_total s. case km_blocks s p of None \<Rightarrow> 0 | Some k \<Rightarrow> 2 ^ k)"

definition kmem_inv :: "int \<Rightarrow> kmem \<Rightarrow> bool" where
  "kmem_inv tot s \<longleftrightarrow> pools_ok s \<and> refs_ok s \<and> km_cnt s = tot - int (used_pages s)"

lemma pools_okD:
  assumes "pools_ok s"
  shows "0 < km_ppc s" "km_total s \<le> length (km_pages s)" "cpu_ok (km_cpu s)"
    "cpu_id (km_cpu s) < length (km_pools s)"
    "i < length (km_pools s) \<Longrightarrow> buddy_inv (km_pages s) (km_pool s i)"
    "i < length (km_pools s) \<Longrightarrow> page_metadata (km_pool s i) = i * km_ppc s"
    "i < length (km_pools s) \<Longrightarrow> npages (km_pool s i) = km_ppc s"
    "p < km_total s \<Longrightarrow> lk_free (page_lock (km_pages s ! p))"
  using assms unfolding pools_ok_def by blast+

text \<open>A pool depends only on its own part of the metadata.\<close>

lemma buddy_inv_cong:
  assumes i: "buddy_inv pages pool" and len: "length pages' = length pages"
    and eq: "\<And>r. r < npages pool \<Longrightarrow> ord_of pages' pool r = ord_of pages pool r \<and> alloc_of pages' pool r = alloc_of pages pool r"
  shows "buddy_inv pages' pool" "blocks pages' pool = blocks pages pool"
proof -
  obtain H where c: "buddy_core H {} pages pool" and l: "lk_free (pool_lock pool)"
    using i by (rule buddy_invE)
  note D = buddy_coreD [OF c]
  have HF: "free_heads H {} pages' pool = free_heads H {} pages pool"
    using eq D(10) by (auto simp: free_heads_def)
  have "buddy_core H {} pages' pool"
  proof (rule core_pages_upd [OF c len HF])
    show "tiling H (ord_of pages' pool) (npages pool)"
      using tiling_cong [OF D(3)] eq D(10) by blast
  qed (use eq D(4,5,6,10) in \<open>auto simp: free_heads_def\<close>)
  then show "buddy_inv pages' pool"
    using l by (rule buddy_invI)
  show "blocks pages' pool = blocks pages pool"
    using eq by (auto simp: blocks_def fun_eq_iff)
qed

lemma page_index:
  assumes "i < n" "r < (m :: nat)"
  shows "(i * m + r) div m = i" "(i * m + r) mod m = r" "i * m + r < n * m"
proof -
  show "(i * m + r) div m = i" "(i * m + r) mod m = r"
    using assms by simp_all
  have "i * m + r < Suc i * m" using assms by simp
  also have "\<dots> \<le> n * m" using assms(1) by (intro mult_le_mono1) simp
  finally show "i * m + r < n * m" .
qed

lemma page_index_div:
  assumes "p < n * (m :: nat)"
  shows "p div m < n" "p mod m < m" "p div m * m + p mod m = p"
proof -
  have "0 < m" using assms by (cases m) simp_all
  then show "p div m < n" "p mod m < m" "p div m * m + p mod m = p"
    using assms by (simp_all add: less_mult_imp_div_less)
qed

lemma km_blocks_pool:
  assumes "pools_ok s" "i < length (km_pools s)" "r < km_ppc s"
  shows "km_blocks s (i * km_ppc s + r) = blocks (km_pages s) (km_pool s i) r"
  using page_index [OF assms(2,3)] by (simp add: km_blocks_def km_total_def)

lemma km_blocks_eqI:
  assumes "km_total s' = km_total s" "km_ppc s' = km_ppc s" "pools_ok s"
    "\<And>j. j < length (km_pools s) \<Longrightarrow>
       blocks (km_pages s') (km_pool s' j) =
         (if j = i then (blocks (km_pages s) (km_pool s j))(h := v) else blocks (km_pages s) (km_pool s j))"
    "i < length (km_pools s)" "h < km_ppc s"
  shows "km_blocks s' = (km_blocks s)(i * km_ppc s + h := v)"
proof
  fix p
  show "km_blocks s' p = ((km_blocks s)(i * km_ppc s + h := v)) p"
  proof (cases "p < km_total s")
    case True
    note pd = page_index_div [OF True [unfolded km_total_def]]
    have "p = i * km_ppc s + h \<longleftrightarrow> p div km_ppc s = i \<and> p mod km_ppc s = h"
      using page_index(1,2) [OF assms(5,6)] pd by auto
    then show ?thesis
      using True assms(1,2) assms(4) [OF pd(1)] by (auto simp: km_blocks_def)
  next
    case False
    then show ?thesis
      using assms(1) page_index(3) [OF assms(5,6)] by (auto simp: km_blocks_def km_total_def)
  qed
qed

text \<open>Replacing the state of one pool after a buddy operation on it.\<close>

lemma pool_replace:
  assumes ok: "pools_ok s" and i: "i < length (km_pools s)"
    and op: "same_cpu (km_cpu s) c" "buddy_inv pages pool" "meta_frame (km_pool s i) (km_pages s) pages"
      "same_pool (km_pool s i) pool"
    and bl: "blocks pages pool = (blocks (km_pages s) (km_pool s i))(h := v)" "h < km_ppc s"
  defines "s' \<equiv> s\<lparr>km_cpu := c, km_pages := pages, km_pools := (km_pools s)[i := pool]\<rparr>"
  shows "pools_ok s'" "km_blocks s' = (km_blocks s)(i * km_ppc s + h := v)"
    "\<And>p. p < km_total s \<Longrightarrow> refcnt (pages ! p) = refcnt (km_pages s ! p)"
proof -
  note D = pools_okD [OF ok] and sp = same_poolD [OF op(4)]
  have len: "length pages = length (km_pages s)"
    using op(3) by (simp add: meta_frame_def)
  note fr = meta_frame_fields [OF op(3)]
  have sel: "km_pool s' j = (if j = i then pool else km_pool s j)" "km_total s' = km_total s" "km_ppc s' = km_ppc s"
    "length (km_pools s') = length (km_pools s)" "km_pages s' = pages" "km_cpu s' = c" for j
    using i by (simp_all add: s'_def km_pool_def km_total_def nth_list_update)
  have other: "buddy_inv pages (km_pool s j)" "blocks pages (km_pool s j) = blocks (km_pages s) (km_pool s j)"
    if j: "j < length (km_pools s)" "j \<noteq> i" for j
  proof -
    have "pages ! (j * km_ppc s + r) = km_pages s ! (j * km_ppc s + r)" if r: "r < km_ppc s" for r
    proof (rule fr(5))
      show "j * km_ppc s + r < length (km_pages s)"
        using page_index(3) [OF j(1) r] D(2) by (simp add: km_total_def)
      have "j < i \<Longrightarrow> Suc j * km_ppc s \<le> i * km_ppc s" "i < j \<Longrightarrow> Suc i * km_ppc s \<le> j * km_ppc s"
        by (intro mult_le_mono1; simp)+
      then show "j * km_ppc s + r < page_metadata (km_pool s i) \<or>
          page_metadata (km_pool s i) + npages (km_pool s i) \<le> j * km_ppc s + r"
        using D(6,7) [OF i] j(2) r by (cases "j < i") auto
    qed
    then show "buddy_inv pages (km_pool s j)" "blocks pages (km_pool s j) = blocks (km_pages s) (km_pool s j)"
      using buddy_inv_cong [OF D(5) [OF j(1)] len] D(6,7) [OF j(1)] by (simp_all add: ord_of_def alloc_of_def)
  qed
  show "pools_ok s'"
    unfolding pools_ok_def sel
    using D op(2) other sp same_cpu_ok [OF op(1)] op(1) len fr(2) by (auto simp: same_cpu_def)
  show "km_blocks s' = (km_blocks s)(i * km_ppc s + h := v)"
    using other(2) bl i by (intro km_blocks_eqI [OF sel(2,3) ok]) (auto simp: sel)
  show "\<And>p. p < km_total s \<Longrightarrow> refcnt (pages ! p) = refcnt (km_pages s ! p)"
    using fr(1) D(2) by simp
qed

subsection \<open>Taking pages\<close>

definition km_frame :: "kmem \<Rightarrow> kmem \<Rightarrow> bool" where
  "km_frame s s' \<longleftrightarrow> km_ppc s' = km_ppc s \<and> length (km_pools s') = length (km_pools s) \<and>
     km_cnt s' = km_cnt s \<and> km_recycling s' = km_recycling s \<and> km_mem s' = km_mem s \<and>
     same_cpu (km_cpu s) (km_cpu s') \<and>
     (\<forall>p<km_total s. refcnt (km_pages s' ! p) = refcnt (km_pages s ! p))"

definition km_got :: "kmem \<Rightarrow> nat \<Rightarrow> nat \<Rightarrow> bool" where
  "km_got s k p \<longleftrightarrow>
     (\<exists>i<length (km_pools s). \<exists>h. p = i * km_ppc s + h \<and> got_block (km_pages s) (km_pool s i) k h)"

definition take_post :: "kmem \<Rightarrow> nat \<Rightarrow> nat option \<Rightarrow> kmem \<Rightarrow> bool" where
  "take_post s k r s' \<longleftrightarrow> pools_ok s' \<and> km_frame s s' \<and>
     (case r of None \<Rightarrow> km_blocks s' = km_blocks s
      | Some p \<Rightarrow> km_got s k p \<and> km_blocks s' = (km_blocks s)(p \<mapsto> k))"

lemma km_frame_refl [simp]: "km_frame s s"
  by (simp add: km_frame_def)

lemma set_cpu_ok:
  assumes "pools_ok s" "same_cpu (km_cpu s) c"
  shows "pools_ok (s\<lparr>km_cpu := c\<rparr>)" "km_frame s (s\<lparr>km_cpu := c\<rparr>)" "km_blocks (s\<lparr>km_cpu := c\<rparr>) = km_blocks s"
    "km_got (s\<lparr>km_cpu := c\<rparr>) = km_got s"
  using assms same_cpu_ok [OF assms(2)]
  by (auto simp: pools_ok_def km_frame_def km_blocks_def km_total_def km_pool_def km_got_def fun_eq_iff same_cpu_def)

lemma pool_get_spec:
  assumes ok: "pools_ok s" and i: "i < length (km_pools s)" and k: "k \<le> BUDDY_MAX_ORDER"
  shows "(\<exists>c. pool_get s i k = Some (s\<lparr>km_cpu := c\<rparr>, None) \<and> same_cpu (km_cpu s) c \<and>
      (\<forall>h. \<not> got_block (km_pages s) (km_pool s i) k h)) \<or>
    (\<exists>s' p. pool_get s i k = Some (s', Some p) \<and> take_post s k (Some p) s')"
proof -
  note D = pools_okD [OF ok]
  obtain c pages pool r where g: "buddy_get_pages (push_off (km_cpu s)) (km_pages s) (km_pool s i) k = Some (c, pages, pool, r)"
    "same_cpu (km_cpu s) c" "buddy_inv pages pool" "meta_frame (km_pool s i) (km_pages s) pages"
    "same_pool (km_pool s i) pool" "get_post (km_pages s) (km_pool s i) k r pages pool"
    using buddy_get_pages_spec [OF D(3) D(5) [OF i] k] by blast
  let ?s' = "s\<lparr>km_cpu := c, km_pages := pages, km_pools := (km_pools s)[i := pool]\<rparr>"
  have run: "pool_get s i k = Some (?s', r)"
    using g(1) i by (simp add: pool_get_def km_pool_def)
  show ?thesis
  proof (cases r)
    case None
    then have "pages = km_pages s" "pool = km_pools s ! i"
      using g(6) by (simp_all add: get_post_def km_pool_def)
    then have "?s' = s\<lparr>km_cpu := c\<rparr>" by simp
    then show ?thesis
      using run None g(2,6) by (auto simp: get_post_def)
  next
    case (Some p)
    then obtain h where h: "p = i * km_ppc s + h" "got_block (km_pages s) (km_pool s i) k h"
      "blocks pages pool = (blocks (km_pages s) (km_pool s i))(h \<mapsto> k)"
      using g(6) D(6) [OF i] by (auto simp: get_post_def)
    have "0 < (2 :: nat) ^ k" "h + 2 ^ k \<le> km_ppc s"
      using h(2) D(7) [OF i] by (simp_all add: got_block_def fits_def)
    then have hn: "h < km_ppc s" by linarith
    note r = pool_replace [OF ok i g(2,3,4,5) h(3) hn]
    have "take_post s k (Some p) ?s'"
      using r i h(1,2) g(2) by (auto simp: take_post_def km_frame_def km_got_def)
    then show ?thesis
      using run Some by blast
  qed
qed

lemma take_post_cpu:
  "take_post (s\<lparr>km_cpu := c\<rparr>) k r s' \<Longrightarrow> pools_ok s \<Longrightarrow> same_cpu (km_cpu s) c \<Longrightarrow> take_post s k r s'"
  using set_cpu_ok [of s c]
  by (auto simp: take_post_def km_frame_def km_total_def intro: same_cpu_trans split: option.splits)

lemma steal_from_spec:
  assumes ok: "pools_ok s" and k: "k \<le> BUDDY_MAX_ORDER" and "is": "set is \<subseteq> {..<length (km_pools s)}"
  shows "\<exists>s' r. steal_from is cur s k = Some (s', r) \<and> take_post s k r s' \<and>
    (r = None \<longrightarrow> (\<forall>i\<in>set is - {cur}. \<forall>h. \<not> got_block (km_pages s) (km_pool s i) k h))"
  using ok "is"
proof (induction "is" arbitrary: s)
  case Nil
  then show ?case by (auto simp: take_post_def)
next
  case (Cons i "is")
  show ?case
  proof (cases "i = cur")
    case True
    then show ?thesis using Cons.IH [OF Cons.prems(1)] Cons.prems(2) by fastforce
  next
    case False
    from Cons.prems(2) have i: "i < length (km_pools s)" by simp
    from pool_get_spec [OF Cons.prems(1) i k] show ?thesis
    proof (elim disjE exE conjE)
      fix c assume g: "pool_get s i k = Some (s\<lparr>km_cpu := c\<rparr>, None)" "same_cpu (km_cpu s) c"
        "\<forall>h. \<not> got_block (km_pages s) (km_pool s i) k h"
      obtain s' r where "steal_from is cur (s\<lparr>km_cpu := c\<rparr>) k = Some (s', r)" "take_post (s\<lparr>km_cpu := c\<rparr>) k r s'"
        "r = None \<longrightarrow> (\<forall>i\<in>set is - {cur}. \<forall>h. \<not> got_block (km_pages s) (km_pool s i) k h)"
        using Cons.IH [OF set_cpu_ok(1) [OF Cons.prems(1) g(2)]] Cons.prems(2) by (auto simp: km_pool_def)
      then show ?thesis
        using g False take_post_cpu [OF _ Cons.prems(1) g(2)] by auto
    next
      fix s' p assume "pool_get s i k = Some (s', Some p)" "take_post s k (Some p) s'"
      then show ?thesis using False by auto
    qed
  qed
qed

lemma take_pages_spec:
  assumes ok: "pools_ok s" and k: "k \<le> BUDDY_MAX_ORDER"
  shows "\<exists>s' r. take_pages s k = Some (s', r) \<and> take_post s k r s' \<and> (r = None \<longrightarrow> (\<forall>p. \<not> km_got s k p))"
proof -
  let ?i = "cpu_id (km_cpu s)"
  note i = pools_okD(4) [OF ok]
  from pool_get_spec [OF ok i k] show ?thesis
  proof (elim disjE exE conjE)
    fix c assume g: "pool_get s ?i k = Some (s\<lparr>km_cpu := c\<rparr>, None)" "same_cpu (km_cpu s) c"
      "\<forall>h. \<not> got_block (km_pages s) (km_pool s ?i) k h"
    obtain s' r where r: "steal_mem (s\<lparr>km_cpu := c\<rparr>) ?i k = Some (s', r)" "take_post (s\<lparr>km_cpu := c\<rparr>) k r s'"
      "r = None \<longrightarrow> (\<forall>i\<in>{..<length (km_pools s)} - {?i}. \<forall>h. \<not> got_block (km_pages s) (km_pool s i) k h)"
      using steal_from_spec [OF set_cpu_ok(1) [OF ok g(2)] k, of "[0 ..< length (km_pools s)]" ?i]
      by (auto simp: steal_mem_def km_pool_def atLeast0LessThan)
    then show ?thesis
      using g take_post_cpu [OF _ ok g(2)] unfolding take_pages_def km_got_def by (auto simp: Ball_def)
  next
    fix s' p assume "pool_get s ?i k = Some (s', Some p)" "take_post s k (Some p) s'"
    then show ?thesis by (auto simp: take_pages_def)
  qed
qed

subsection \<open>Reference counts and the page counter\<close>

lemma pages_update_ok:
  assumes ok: "pools_ok s" and len: "length pages = length (km_pages s)"
    and eq: "\<And>p. p < km_total s \<Longrightarrow> allocated (pages ! p) = allocated (km_pages s ! p) \<and>
      order (pages ! p) = order (km_pages s ! p) \<and> lk_free (page_lock (pages ! p))"
  shows "pools_ok (s\<lparr>km_pages := pages\<rparr>)" "km_blocks (s\<lparr>km_pages := pages\<rparr>) = km_blocks s"
proof -
  note D = pools_okD [OF ok]
  have "buddy_inv pages (km_pool s i)" "blocks pages (km_pool s i) = blocks (km_pages s) (km_pool s i)"
    if i: "i < length (km_pools s)" for i
  proof -
    have "ord_of pages (km_pool s i) r = ord_of (km_pages s) (km_pool s i) r \<and>
        alloc_of pages (km_pool s i) r = alloc_of (km_pages s) (km_pool s i) r" if "r < npages (km_pool s i)" for r
      using eq [of "i * km_ppc s + r"] page_index(3) [OF i, of r "km_ppc s"] that D(6,7) [OF i]
      by (simp add: ord_of_def alloc_of_def km_total_def)
    then show "buddy_inv pages (km_pool s i)" "blocks pages (km_pool s i) = blocks (km_pages s) (km_pool s i)"
      using buddy_inv_cong [OF D(5) [OF i] len] by blast+
  qed
  then show "pools_ok (s\<lparr>km_pages := pages\<rparr>)" "km_blocks (s\<lparr>km_pages := pages\<rparr>) = km_blocks s"
    using D eq len page_index_div(1) unfolding pools_ok_def
    by (auto simp: km_pool_def km_total_def km_blocks_def fun_eq_iff)
qed

lemma page_update_ok:
  assumes ok: "pools_ok s" and p: "p < km_total s"
    and pg: "allocated pg = allocated (km_pages s ! p)" "order pg = order (km_pages s ! p)" "lk_free (page_lock pg)"
  defines "s' \<equiv> s\<lparr>km_pages := (km_pages s)[p := pg]\<rparr>"
  shows "pools_ok s'" "km_blocks s' = km_blocks s" "used_pages s' = used_pages s"
    "km_pages s' ! q = (if q = p then pg else km_pages s ! q)"
proof -
  have eq: "km_pages s' ! q = (if q = p then pg else km_pages s ! q)" for q
    using p pools_okD(2) [OF ok] by (simp add: s'_def)
  show "pools_ok s'" and b: "km_blocks s' = km_blocks s"
    unfolding s'_def using pools_okD(8) [OF ok] eq pg
    by (intro pages_update_ok [OF ok]; auto simp: s'_def)+
  show "used_pages s' = used_pages s"
    unfolding used_pages_def b by (simp add: s'_def km_total_def)
  show "km_pages s' ! q = (if q = p then pg else km_pages s ! q)" by (rule eq)
qed

lemma km_blocks_alloc:
  assumes ok: "pools_ok s" and b: "km_blocks s p = Some k"
  shows "p < km_total s" "allocated (km_pages s ! p) = 1" "order (km_pages s ! p) = k"
proof -
  show p: "p < km_total s"
    using b by (simp add: km_blocks_def split: if_splits)
  note pd = page_index_div [OF p [unfolded km_total_def]] and D = pools_okD [OF ok]
  show "allocated (km_pages s ! p) = 1" "order (km_pages s ! p) = k"
    using b p pd D(6) [OF pd(1)]
    by (auto simp: km_blocks_def ord_of_def alloc_of_def dest!: blocks_SomeD)
qed

lemma km_got_fresh:
  assumes ok: "pools_ok s" and g: "km_got s k p"
  shows "km_blocks s p = None" "p < km_total s"
proof -
  obtain i h where i: "i < length (km_pools s)" "p = i * km_ppc s + h" "got_block (km_pages s) (km_pool s i) k h"
    using g by (auto simp: km_got_def)
  have "0 < (2 :: nat) ^ k" "h + 2 ^ k \<le> km_ppc s"
    using i pools_okD(7) [OF ok i(1)] by (simp_all add: got_block_def fits_def)
  then have h: "h < km_ppc s" by linarith
  show "p < km_total s"
    using page_index(3) [OF i(1) h] i(2) by (simp add: km_total_def)
  have "h \<notin> in_use (blocks (km_pages s) (km_pool s i))"
    using i(3) start_in_blk unfolding got_block_def fits_def by blast
  then show "km_blocks s p = None"
    using km_blocks_pool [OF ok i(1) h] i(2) in_use_start [of "blocks (km_pages s) (km_pool s i)" h]
    by (cases "blocks (km_pages s) (km_pool s i) h") auto
qed

lemma used_pages_upd:
  assumes "km_total s' = km_total s" "p < km_total s" "km_blocks s' = (km_blocks s)(p := v)"
  shows "used_pages s' + (case km_blocks s p of None \<Rightarrow> 0 | Some k \<Rightarrow> 2 ^ k) =
    used_pages s + (case v of None \<Rightarrow> 0 | Some k \<Rightarrow> 2 ^ k)"
proof -
  let ?f = "\<lambda>b. case b of None \<Rightarrow> 0 | Some k \<Rightarrow> (2 :: nat) ^ k"
  have "used_pages s' = (\<Sum>q\<in>{..<km_total s} - {p}. ?f (km_blocks s q)) + ?f v"
    unfolding used_pages_def assms(1,3) using assms(2)
    by (subst sum.remove [of _ p]) (auto intro!: sum.cong)
  moreover have "used_pages s = (\<Sum>q\<in>{..<km_total s} - {p}. ?f (km_blocks s q)) + ?f (km_blocks s p)"
    unfolding used_pages_def using assms(2) by (subst sum.remove [of _ p]) auto
  ultimately show ?thesis by simp
qed

text \<open>What the allocator relies on from the reclaim callback: it returns, keeps the invariant, and only
  gives blocks back.\<close>

definition recycler :: "(kmem \<Rightarrow> kmem option) \<Rightarrow> bool" where
  "recycler af \<longleftrightarrow> (\<forall>tot s. kmem_inv tot s \<longrightarrow>
     (\<exists>s'. af s = Some s' \<and> kmem_inv tot s' \<and> km_blocks s' \<subseteq>\<^sub>m km_blocks s \<and>
        km_recycling s' = km_recycling s \<and> same_cpu (km_cpu s) (km_cpu s')))"

text \<open>The state right after a successful request for \<open>2 ^ k\<close> pages at page \<open>p\<close>, before reclaim.\<close>

definition took :: "kmem \<Rightarrow> nat \<Rightarrow> nat \<Rightarrow> kmem \<Rightarrow> bool" where
  "took s k p s' \<longleftrightarrow> km_got s k p \<and> km_blocks s' = (km_blocks s)(p \<mapsto> k) \<and>
     refcnt (km_pages s' ! p) = 1 \<and> same_cpu (km_cpu s) (km_cpu s')"

lemma km_inv_simps [simp]:
  "pools_ok (s\<lparr>km_cnt := n\<rparr>) = pools_ok s" "refs_ok (s\<lparr>km_cnt := n\<rparr>) = refs_ok s"
  "km_blocks (s\<lparr>km_cnt := n\<rparr>) = km_blocks s" "km_total (s\<lparr>km_cnt := n\<rparr>) = km_total s"
  "used_pages (s\<lparr>km_cnt := n\<rparr>) = used_pages s"
  "kmem_inv tot (s\<lparr>km_recycling := m\<rparr>) = kmem_inv tot s" "km_blocks (s\<lparr>km_recycling := m\<rparr>) = km_blocks s"
  "km_total (s\<lparr>km_pages := pgs\<rparr>) = km_total s"
  by (simp_all add: pools_ok_def refs_ok_def km_blocks_def km_total_def km_pool_def used_pages_def kmem_inv_def fun_eq_iff)

lemma note_alloc_spec:
  assumes inv: "kmem_inv tot s" and af: "recycler af" and t: "take_post s k (Some p) s1"
  shows "\<exists>s2 s'. note_alloc af s1 p = Some (s', Some (page_to_pa p)) \<and> took s k p s2 \<and> kmem_inv tot s2 \<and> kmem_inv tot s' \<and>
    (if km_recycling s = 0 \<and> km_cnt s - 2 ^ k < PAGES_THRESHOLD
     then km_blocks s' \<subseteq>\<^sub>m km_blocks s2 \<and> same_cpu (km_cpu s2) (km_cpu s') else s' = s2)"
proof -
  let ?pg = "km_pages s1 ! p"
  let ?pages = "(km_pages s1)[p := ?pg\<lparr>refcnt := 1\<rparr>]"
  let ?s2 = "s1\<lparr>km_pages := ?pages, km_cnt := km_cnt s1 - 2 ^ k\<rparr>"
  have I: "pools_ok s" "refs_ok s" "km_cnt s = tot - int (used_pages s)"
    using inv by (simp_all add: kmem_inv_def)
  have T: "pools_ok s1" "km_frame s s1" "km_got s k p" "km_blocks s1 = (km_blocks s)(p \<mapsto> k)"
    using t by (simp_all add: take_post_def)
  have tot: "km_total s1 = km_total s" "km_cnt s1 = km_cnt s" "km_recycling s1 = km_recycling s"
    "same_cpu (km_cpu s) (km_cpu s1)" "\<And>q. q < km_total s \<Longrightarrow> refcnt (km_pages s1 ! q) = refcnt (km_pages s ! q)"
    using T(2) by (simp_all add: km_frame_def km_total_def)
  note fresh = km_got_fresh [OF I(1) T(3)]
  have pg: "order ?pg = k" "p < length (km_pages s1)"
    using km_blocks_alloc [OF T(1), of p k] T(4) pools_okD(2) [OF T(1)] by simp_all
  have r0: "refcnt ?pg = 0"
    using I(2) fresh tot(5) [OF fresh(2)] by (auto simp: refs_ok_def)
  have p1: "p < km_total s1"
    using fresh(2) tot(1) by simp
  note ok2 = page_update_ok [OF T(1) p1, of "?pg\<lparr>refcnt := 1\<rparr>", simplified, OF pools_okD(8) [OF T(1) p1]]
  have "used_pages s1 = used_pages s + 2 ^ k"
    using used_pages_upd [OF tot(1) fresh(2) T(4)] fresh(1) by simp
  moreover have "refs_ok (s1\<lparr>km_pages := ?pages\<rparr>)"
    unfolding refs_ok_def ok2(2)
    using I(2) tot pg(2) by (auto simp: refs_ok_def T(4) nth_list_update)
  ultimately have inv2: "kmem_inv tot ?s2"
    using ok2(1,3) I(3) tot(2) unfolding kmem_inv_def by simp
  have took: "took s k p ?s2"
    using T(3,4) ok2(2) pg(2) tot(4) by (simp add: took_def)
  have run: "note_alloc af s1 p =
      (if km_recycling s = 0 \<and> km_cnt s - 2 ^ k < PAGES_THRESHOLD
       then do { s \<leftarrow> af (?s2\<lparr>km_recycling := km_recycling s1 + 1\<rparr>);
                 Some (s\<lparr>km_recycling := km_recycling s - 1\<rparr>, Some (page_to_pa p)) }
       else Some (?s2, Some (page_to_pa p)))"
    using pg r0 tot(2,3) by (simp add: note_alloc_def pg_get_def pg_upd_def Let_def)
  show ?thesis
  proof (cases "km_recycling s = 0 \<and> km_cnt s - 2 ^ k < PAGES_THRESHOLD")
    case True
    have "kmem_inv tot (?s2\<lparr>km_recycling := km_recycling s1 + 1\<rparr>)"
      using inv2 km_inv_simps(6) by blast
    then obtain s3 where "af (?s2\<lparr>km_recycling := km_recycling s1 + 1\<rparr>) = Some s3" "kmem_inv tot s3"
      "km_blocks s3 \<subseteq>\<^sub>m km_blocks ?s2" "same_cpu (km_cpu ?s2) (km_cpu s3)"
      using af unfolding recycler_def by fastforce
    then show ?thesis
      using True run took inv2 by (intro exI [of _ ?s2] exI [of _ "s3\<lparr>km_recycling := km_recycling s3 - 1\<rparr>"]) simp
  next
    case False
    then show ?thesis
      using run [unfolded if_not_P [OF False]] took inv2 unfolding if_not_P [OF False] by blast
  qed
qed

definition alloc_post :: "int \<Rightarrow> kmem \<Rightarrow> nat \<Rightarrow> nat option \<Rightarrow> kmem \<Rightarrow> bool" where
  "alloc_post tot s k r s' \<longleftrightarrow> kmem_inv tot s' \<and> same_cpu (km_cpu s) (km_cpu s') \<and>
     (case r of
        None \<Rightarrow> (\<forall>p. \<not> km_got s k p) \<and> km_blocks s' = km_blocks s
      | Some pa \<Rightarrow> \<exists>p. pa = page_to_pa p \<and> km_got s k p \<and> km_blocks s' \<subseteq>\<^sub>m (km_blocks s)(p \<mapsto> k) \<and>
          (PAGES_THRESHOLD \<le> km_cnt s - 2 ^ k \<or> km_recycling s \<noteq> 0 \<longrightarrow>
             km_blocks s' = (km_blocks s)(p \<mapsto> k) \<and> refcnt (km_pages s' ! p) = 1))"

lemma km_frame_inv:
  assumes inv: "kmem_inv tot s" and t: "take_post s k None s'"
  shows "kmem_inv tot s'"
proof -
  have T: "pools_ok s'" "km_frame s s'" "km_blocks s' = km_blocks s"
    using t by (simp_all add: take_post_def)
  then have "km_total s' = km_total s"
    by (simp add: km_frame_def km_total_def)
  then show ?thesis
    using inv T by (auto simp: kmem_inv_def refs_ok_def used_pages_def km_frame_def)
qed

lemma request_spec:
  assumes inv: "kmem_inv tot s" and af: "recycler af" and k: "k \<le> BUDDY_MAX_ORDER"
  shows "\<exists>s' r. do { (s, r) \<leftarrow> take_pages s k;
      case r of None \<Rightarrow> Some (s, None) | Some p \<Rightarrow> note_alloc af s p } = Some (s', r) \<and> alloc_post tot s k r s'"
proof -
  have ok: "pools_ok s" using inv by (simp add: kmem_inv_def)
  obtain s1 r where t: "take_pages s k = Some (s1, r)" "take_post s k r s1" "r = None \<longrightarrow> (\<forall>p. \<not> km_got s k p)"
    using take_pages_spec [OF ok k] by blast
  show ?thesis
  proof (cases r)
    case None
    then have "alloc_post tot s k None s1"
      using t km_frame_inv [OF inv] by (simp add: alloc_post_def take_post_def km_frame_def)
    then show ?thesis using t(1) None by simp
  next
    case (Some p)
    let ?low = "km_recycling s = 0 \<and> km_cnt s - 2 ^ k < PAGES_THRESHOLD"
    obtain s2 s' where n: "note_alloc af s1 p = Some (s', Some (page_to_pa p))" "took s k p s2" "kmem_inv tot s'"
      "if ?low then km_blocks s' \<subseteq>\<^sub>m km_blocks s2 \<and> same_cpu (km_cpu s2) (km_cpu s') else s' = s2"
      using note_alloc_spec [OF inv af, of k p s1] t(2) Some by blast
    have "alloc_post tot s k (Some (page_to_pa p)) s'"
      using n(2-4) unfolding alloc_post_def took_def
      by (cases ?low) (auto intro: same_cpu_trans)
    then show ?thesis using t(1) n(1) Some by simp
  qed
qed

lemma kmalloc_split:
  "kmalloc af s sz = Option.bind (if sz \<le> word_of_nat PGSIZE then Some 0 else size_to_page_order sz)
     (\<lambda>k. do { (s, r) \<leftarrow> take_pages s k; case r of None \<Rightarrow> Some (s, None) | Some p \<Rightarrow> note_alloc af s p })"
  by (simp add: kmalloc_def)

subsection \<open>The order of a request is the least sufficient one\<close>

lemma order_loop_log:
  "tmp \<noteq> 0 \<Longrightarrow> \<exists>d. order_loop tmp k = k + d \<and> 2 ^ d \<le> unat tmp \<and> unat tmp < 2 ^ Suc d"
proof (induction tmp k rule: order_loop.induct)
  case (1 tmp k)
  show ?case
  proof (cases "1 < tmp")
    case True
    then have "1 < unat tmp" by (simp add: word_less_nat_alt)
    have half: "unat (drop_bit 1 tmp) = unat tmp div 2"
      by (simp add: drop_bit_eq_div unat_div_distrib)
    then have "unat (drop_bit 1 tmp) \<noteq> 0"
      using \<open>1 < unat tmp\<close> by simp
    then have "drop_bit 1 tmp \<noteq> 0" by auto
    from 1(1) [OF True this] obtain d where d: "order_loop (drop_bit 1 tmp) (k + 1) = k + 1 + d"
      "2 ^ d \<le> unat tmp div 2" "unat tmp div 2 < 2 ^ Suc d"
      using half by auto
    then show ?thesis
      using True by (intro exI [of _ "Suc d"]) (auto simp: order_loop.simps [of tmp])
  next
    case False
    then have "unat tmp = 1"
      using 1(2) by (simp add: word_less_nat_alt unat_eq_0 le_Suc_eq not_less)
    then show ?thesis
      using False by (intro exI [of _ 0]) (simp add: order_loop.simps [of tmp])
  qed
qed

lemma ROUND_UP_pages:
  "ROUND_UP sz (word_of_nat PGSIZE) div word_of_nat PGSIZE = drop_bit 12 (sz + 4095)"
proof -
  have "ROUND_UP sz 4096 div 4096 = drop_bit 12 ((sz + 4095) AND NOT (mask 12))"
    by (simp add: ROUND_UP_def drop_bit_eq_div mask_numeral add.commute)
  also have "\<dots> = drop_bit 12 (sz + 4095)"
    by (rule bit_eqI) (auto simp: bit_simps dest: bit_imp_le_length)
  finally show ?thesis by (simp add: PGSIZE_def)
qed

lemma size_to_page_order_spec:
  assumes lo: "0 < unat sz" and hi: "unat sz \<le> 2 ^ 42"
  shows "\<exists>k. size_to_page_order sz = Some k \<and> unat sz \<le> 2 ^ k * PGSIZE \<and> (\<forall>j<k. 2 ^ j * PGSIZE < unat sz)"
proof -
  let ?n = "drop_bit 12 (sz + 4095)"
  have "unat (sz + 4095) = unat sz + 4095"
    using hi by (simp add: unat_add_lem [THEN iffD1])
  then have n: "unat ?n = (unat sz + 4095) div 4096"
    by (simp add: drop_bit_eq_div unat_div_distrib)
  then have "unat ?n \<noteq> 0" using lo by simp
  then have "?n \<noteq> 0" by auto
  from order_loop_log [OF this, of 0] obtain d where d: "order_loop ?n 0 = d" "2 ^ d \<le> unat ?n" "unat ?n < 2 ^ Suc d"
    by auto
  have "unat ?n \<le> 2 ^ 30"
    using hi unfolding n by simp
  then have "(2 :: nat) ^ d \<le> 2 ^ 30" using d(2) by linarith
  then have "d \<le> 30" by (simp only: power_increasing_iff)
  let ?k = "if 2 ^ d < unat ?n then d + 1 else d"
  have "size_to_page_order sz = Some ?k"
    using d(1) \<open>d \<le> 30\<close> by (simp add: size_to_page_order_def ROUND_UP_pages)
  moreover have up: "unat sz \<le> unat ?n * 4096" "(unat ?n - 1) * 4096 < unat sz"
    using lo unfolding n by (auto simp: algebra_simps)
  moreover have "unat ?n \<le> 2 ^ ?k"
    using d by auto
  then have "unat ?n * 4096 \<le> 2 ^ ?k * 4096" by (rule mult_le_mono1)
  moreover have "2 ^ j \<le> unat ?n - 1" if "j < ?k" for j
  proof -
    have "(2 :: nat) ^ j \<le> 2 ^ (?k - 1)" using that by (intro power_increasing) auto
    also have "\<dots> \<le> unat ?n - 1"
    proof (cases "2 ^ d < unat ?n")
      case False
      then have "unat ?n = 2 ^ d" using d(2) by simp
      with that False show ?thesis by (cases d) auto
    qed (use that in auto)
    finally show ?thesis .
  qed
  then have "2 ^ j * 4096 < unat sz" if "j < ?k" for j
    using up(2) mult_le_mono1 [of "2 ^ j" "unat ?n - 1" 4096] that by fastforce
  ultimately show ?thesis
    by (intro exI [of _ ?k]) (auto simp: PGSIZE_def)
qed

subsection \<open>Release and sharing\<close>

lemma pa_page_inverse [simp]: "pa_to_page (page_to_pa p) = Some p"
  by (simp add: pa_to_page_def page_to_pa_def)

lemma pa_to_page_Some: "pa_to_page pa = Some p \<longleftrightarrow> pa = page_to_pa p"
proof
  assume "pa_to_page pa = Some p"
  then have "START_MEM \<le> pa" "PGSIZE dvd pa - START_MEM" "p = (pa - START_MEM) div PGSIZE"
    by (auto simp: pa_to_page_def split: if_splits)
  then show "pa = page_to_pa p"
    by (simp add: page_to_pa_def)
qed simp

lemma set_cpu_inv:
  assumes "kmem_inv tot s" "same_cpu (km_cpu s) c"
  shows "kmem_inv tot (s\<lparr>km_cpu := c\<rparr>)"
proof -
  have "pools_ok s" using assms(1) by (simp add: kmem_inv_def)
  note c = set_cpu_ok [OF this assms(2)]
  have "used_pages (s\<lparr>km_cpu := c\<rparr>) = used_pages s" "refs_ok (s\<lparr>km_cpu := c\<rparr>) = refs_ok s"
    unfolding used_pages_def refs_ok_def c(3) by (simp_all add: km_total_def)
  then show ?thesis
    using c(1) assms(1) by (simp add: kmem_inv_def)
qed

lemma kfree_shared_spec:
  assumes inv: "kmem_inv tot s" and b: "km_blocks s p = Some k" and r: "1 < refcnt (km_pages s ! p)"
  shows "\<exists>s'. kfree s (page_to_pa p) = Some s' \<and> kmem_inv tot s' \<and> km_blocks s' = km_blocks s \<and>
    same_cpu (km_cpu s) (km_cpu s') \<and> refcnt (km_pages s' ! p) = refcnt (km_pages s ! p) - 1"
proof -
  have I: "pools_ok s" "refs_ok s" "km_cnt s = tot - int (used_pages s)"
    using inv by (simp_all add: kmem_inv_def)
  let ?pg = "km_pages s ! p"
  note a = km_blocks_alloc [OF I(1) b] and D = pools_okD [OF I(1)]
  obtain c1 l1 where acq: "acquire (km_cpu s) (page_lock ?pg) = Some (c1, l1)"
    "\<exists>c'. release c1 l1 = Some (c', page_lock ?pg) \<and> same_cpu (km_cpu s) c'"
    using acquire_release [OF D(3) D(8) [OF a(1)]] same_cpu_refl by metis
  then obtain c2 where rel: "release c1 l1 = Some (c2, page_lock ?pg)" "same_cpu (km_cpu s) c2"
    by auto
  let ?pg' = "?pg\<lparr>refcnt := refcnt ?pg - 1\<rparr>"
  let ?s1 = "s\<lparr>km_pages := (km_pages s)[p := ?pg']\<rparr>"
  note u = page_update_ok [OF I(1) a(1), of ?pg', simplified, OF D(8) [OF a(1)]]
  have inv1: "kmem_inv tot ?s1"
    using I(2,3) u b r unfolding kmem_inv_def refs_ok_def by auto
  then have c: "kmem_inv tot (?s1\<lparr>km_cpu := c2\<rparr>)" "km_blocks (?s1\<lparr>km_cpu := c2\<rparr>) = km_blocks s"
    using set_cpu_inv [OF inv1, of c2] set_cpu_ok(3) [OF u(1), of c2] rel(2) u(2) by simp_all
  moreover have "kfree s (page_to_pa p) = Some (?s1\<lparr>km_cpu := c2\<rparr>)"
    using acq(1) rel(1) r a(1) D(2) by (simp add: kfree_def pg_get_def Let_def)
  ultimately show ?thesis
    using rel(2) c(2) u(4) by auto
qed

lemma kfree_last_spec:
  assumes inv: "kmem_inv tot s" and b: "km_blocks s p = Some k" and r: "refcnt (km_pages s ! p) = 1"
  shows "\<exists>s'. kfree s (page_to_pa p) = Some s' \<and> kmem_inv tot s' \<and> km_blocks s' = (km_blocks s)(p := None) \<and>
    same_cpu (km_cpu s) (km_cpu s') \<and> refcnt (km_pages s' ! p) = 0 \<and> km_cnt s' = km_cnt s + 2 ^ k"
proof -
  have I: "pools_ok s" "refs_ok s" "km_cnt s = tot - int (used_pages s)"
    using inv by (simp_all add: kmem_inv_def)
  let ?pg = "km_pages s ! p"
  note a = km_blocks_alloc [OF I(1) b] and D = pools_okD [OF I(1)]
  obtain c1 l1 where acq: "acquire (km_cpu s) (page_lock ?pg) = Some (c1, l1)"
    "\<exists>c'. release c1 l1 = Some (c', page_lock ?pg) \<and> same_cpu (km_cpu s) c'"
    using acquire_release [OF D(3) D(8) [OF a(1)]] same_cpu_refl by metis
  then obtain c2 where rel: "release c1 l1 = Some (c2, page_lock ?pg)" "same_cpu (km_cpu s) c2"
    by auto
  let ?pg' = "?pg\<lparr>refcnt := 0\<rparr>"
  let ?s1 = "s\<lparr>km_pages := (km_pages s)[p := ?pg']\<rparr>"
  let ?s2 = "?s1\<lparr>km_cpu := c2, km_cnt := km_cnt s + 2 ^ k\<rparr>"
  note u = page_update_ok [OF I(1) a(1), of ?pg', simplified, OF D(8) [OF a(1)]]
  let ?i = "p div km_ppc s" and ?h = "p mod km_ppc s"
  note pd = page_index_div [OF a(1) [unfolded km_total_def]]
  have "pools_ok (?s1\<lparr>km_cpu := c2\<rparr>)" "km_blocks (?s1\<lparr>km_cpu := c2\<rparr>) = km_blocks s"
    using set_cpu_ok [OF u(1), of c2] rel(2) u(2) by simp_all
  then have ok2: "pools_ok ?s2" "km_blocks ?s2 = km_blocks s"
    using km_inv_simps(1) [of "km_cnt s + 2 ^ k" "?s1\<lparr>km_cpu := c2\<rparr>"]
      km_inv_simps(3) [of "km_cnt s + 2 ^ k" "?s1\<lparr>km_cpu := c2\<rparr>"] by simp_all
  have i: "?i < length (km_pools ?s2)"
    using pd(1) by simp
  have "blocks (km_pages ?s2) (km_pool ?s2 ?i) ?h = Some k"
    using km_blocks_pool [OF ok2(1) i, of ?h] ok2(2) b pd by simp
  note f = buddy_free_pages_spec [OF pools_okD(3) [OF ok2(1)] pools_okD(5) [OF ok2(1) i] this]
  obtain c3 pages pool where
    g: "buddy_free_pages c2 (km_pages ?s2) (km_pool ?s2 ?i) p = Some (c3, pages, pool)"
      "same_cpu c2 c3" "buddy_inv pages pool" "meta_frame (km_pool ?s2 ?i) (km_pages ?s2) pages"
      "same_pool (km_pool ?s2 ?i) pool" "blocks pages pool = (blocks (km_pages ?s2) (km_pool ?s2 ?i))(?h := None)"
    using f pools_okD(6) [OF ok2(1) i] pd(3) by auto
  let ?s3 = "?s2\<lparr>km_cpu := c3, km_pages := pages, km_pools := (km_pools ?s2)[?i := pool]\<rparr>"
  have R: "pools_ok ?s3" "km_blocks ?s3 = (km_blocks s)(p := None)"
    "\<And>q. q < km_total s \<Longrightarrow> refcnt (pages ! q) = refcnt (km_pages ?s2 ! q)"
    using pool_replace [OF ok2(1) i _ g(3-6), of c3] g(2) pd ok2(2) by (simp_all add: km_total_def)
  have refs: "refcnt (pages ! q) = (if q = p then 0 else refcnt (km_pages s ! q))" if "q < km_total s" for q
    using R(3) [OF that] u(4) [of q] by simp
  have tot: "km_total ?s3 = km_total s" by (simp add: km_total_def)
  have "used_pages ?s3 + 2 ^ k = used_pages s"
    using used_pages_upd [OF tot a(1) R(2)] b by simp
  then have "int (used_pages s) = int (used_pages ?s3) + 2 ^ k"
    by (drule_tac arg_cong [of _ _ int]) (simp only: of_nat_add of_nat_power of_nat_numeral)
  moreover have "refs_ok ?s3"
    using I(2) refs R(2) unfolding refs_ok_def tot by auto
  ultimately have "kmem_inv tot ?s3"
    using R(1) I(3) unfolding kmem_inv_def by simp
  moreover have "kfree s (page_to_pa p) = Some ?s3"
    using acq(1) rel(1) r a D(2) pd(1) g(1)
    by (simp add: kfree_def pg_get_def Let_def get_pages_cpu_def km_pool_def)
  ultimately show ?thesis
    using R(2) refs [OF a(1)] same_cpu_trans [OF rel(2) g(2)] by auto
qed

lemma kfree_spec:
  assumes "kmem_inv tot s" "km_blocks s p = Some k"
  shows "\<exists>s'. kfree s (page_to_pa p) = Some s' \<and> kmem_inv tot s' \<and> same_cpu (km_cpu s) (km_cpu s') \<and>
    refcnt (km_pages s' ! p) = refcnt (km_pages s ! p) - 1 \<and>
    km_blocks s' = (if refcnt (km_pages s ! p) = 1 then (km_blocks s)(p := None) else km_blocks s)"
proof -
  have "p < km_total s" "1 \<le> refcnt (km_pages s ! p)"
    using assms km_blocks_alloc(1) [OF _ assms(2)] by (auto simp: kmem_inv_def refs_ok_def)
  then consider "refcnt (km_pages s ! p) = 1" | "1 < refcnt (km_pages s ! p)" by linarith
  then show ?thesis
    by cases (use kfree_last_spec [OF assms] kfree_shared_spec [OF assms] in auto)
qed

lemma share_page_spec:
  assumes inv: "kmem_inv tot s" and b: "km_blocks s p = Some k"
  shows "\<exists>s'. share_page s (page_to_pa p) = Some s' \<and> kmem_inv tot s' \<and> km_blocks s' = km_blocks s \<and>
    km_cpu s' = km_cpu s \<and> refcnt (km_pages s' ! p) = refcnt (km_pages s ! p) + 1"
proof -
  have I: "pools_ok s" "refs_ok s" "km_cnt s = tot - int (used_pages s)"
    using inv by (simp_all add: kmem_inv_def)
  note a = km_blocks_alloc [OF I(1) b] and D = pools_okD [OF I(1)]
  let ?pg = "km_pages s ! p"
  let ?pg' = "?pg\<lparr>refcnt := refcnt ?pg + 1\<rparr>"
  let ?s1 = "s\<lparr>km_pages := (km_pages s)[p := ?pg']\<rparr>"
  note u = page_update_ok [OF I(1) a(1), of ?pg', simplified, OF D(8) [OF a(1)]]
  have r: "1 \<le> refcnt ?pg"
    using I(2) a(1) b by (auto simp: refs_ok_def)
  have "kmem_inv tot ?s1"
    using I(2,3) u b r unfolding kmem_inv_def refs_ok_def by auto
  moreover have "share_page s (page_to_pa p) = Some ?s1"
    using r a(1) D(2) by (simp add: share_page_def pg_get_def)
  ultimately show ?thesis
    using u by auto
qed

subsection \<open>Start-up\<close>

lemma init_pools_spec:
  assumes "cpu_ok c" "meta + (m + n) * ppc * sizeof_page < START_MEM" "(m + n) * ppc \<le> length pages"
  shows "\<exists>c' pages' pools. init_pools meta ppc [m ..< m + n] c pages = Some (c', pages', pools) \<and> same_cpu c c' \<and>
    length pools = n \<and> length pages' = length pages \<and>
    (\<forall>i<m * ppc. pages' ! i = pages ! i) \<and>
    (\<forall>i. m * ppc \<le> i \<and> i < (m + n) * ppc \<longrightarrow> refcnt (pages' ! i) = 0 \<and> lk_free (page_lock (pages' ! i))) \<and>
    (\<forall>i<n. buddy_inv pages' (pools ! i) \<and> blocks pages' (pools ! i) = (\<lambda>r. None) \<and>
       page_metadata (pools ! i) = (m + i) * ppc \<and> npages (pools ! i) = ppc)"
  using assms
proof (induction n arbitrary: m c pages)
  case 0
  then show ?case by auto
next
  case (Suc n)
  have fit: "meta + m * ppc * sizeof_page + ppc * sizeof_page < START_MEM" "m * ppc + ppc \<le> length pages"
    using Suc.prems(2,3) by (auto simp: algebra_simps)
  obtain c1 pages1 pool where p: "init_buddy meta c pages (m * ppc) (START_MEM + m * ppc * PGSIZE) ppc = Some (c1, pages1, pool)"
    "same_cpu c c1" "buddy_inv pages1 pool" "blocks pages1 pool = (\<lambda>r. None)" "npages pool = ppc" "page_metadata pool = m * ppc"
    "length pages1 = length pages"
    and fr: "\<And>i. i < length pages \<Longrightarrow> i < m * ppc \<Longrightarrow> pages1 ! i = pages ! i"
      "\<And>i. m * ppc \<le> i \<Longrightarrow> i < m * ppc + ppc \<Longrightarrow> refcnt (pages1 ! i) = 0 \<and> lk_free (page_lock (pages1 ! i))"
    using init_buddy_spec [OF Suc.prems(1) fit(2,1), of "START_MEM + m * ppc * PGSIZE"] fit(2) by (auto simp: all_conj_distrib)
  obtain c' pages' pools where q: "init_pools meta ppc [Suc m ..< Suc m + n] c1 pages1 = Some (c', pages', pools)" "same_cpu c1 c'"
    "length pools = n" "length pages' = length pages1" "\<forall>i<Suc m * ppc. pages' ! i = pages1 ! i"
    "\<forall>i. Suc m * ppc \<le> i \<and> i < (Suc m + n) * ppc \<longrightarrow> refcnt (pages' ! i) = 0 \<and> lk_free (page_lock (pages' ! i))"
    "\<forall>i<n. buddy_inv pages' (pools ! i) \<and> blocks pages' (pools ! i) = (\<lambda>r. None) \<and>
       page_metadata (pools ! i) = (Suc m + i) * ppc \<and> npages (pools ! i) = ppc"
    using Suc.IH [OF same_cpu_ok [OF p(2) Suc.prems(1)], of "Suc m" pages1] Suc.prems(2,3) p(7) by auto
  have run: "init_pools meta ppc [m ..< m + Suc n] c pages = Some (c', pages', pool # pools)"
    using p(1) q(1) by (simp add: upt_conv_Cons del: upt_Suc)
  have own: "ord_of pages' pool r = ord_of pages1 pool r \<and> alloc_of pages' pool r = alloc_of pages1 pool r" if "r < npages pool" for r
    using q(5) that p(5,6) by (simp add: ord_of_def alloc_of_def)
  note keep = buddy_inv_cong [OF p(3) q(4) own]
  have pl: "buddy_inv pages' ((pool # pools) ! i) \<and> blocks pages' ((pool # pools) ! i) = (\<lambda>r. None) \<and>
       page_metadata ((pool # pools) ! i) = (m + i) * ppc \<and> npages ((pool # pools) ! i) = ppc" if "i < Suc n" for i
    using that keep p(4,5,6) q(7) by (cases i) auto
  have low: "pages' ! i = pages ! i" if "i < m * ppc" for i
    using that q(5) fr(1) [of i] fit(2) by simp
  have refs: "refcnt (pages' ! i) = 0 \<and> lk_free (page_lock (pages' ! i))" if "m * ppc \<le> i" "i < (m + Suc n) * ppc" for i
    using that q(5,6) fr(2) [of i] by (cases "i < Suc m * ppc") (auto simp: add.commute)
  show ?case
    using run same_cpu_trans [OF p(2) q(2)] q(3,4) p(7) pl low refs by auto
qed

lemma mm_init_spec:
  assumes c: "cpu_ok c" "cpu_id c < ncpu" and tot: "ncpu \<le> tot" "tot \<le> length pages" "meta + tot * sizeof_page < START_MEM"
  shows "\<exists>s. mm_init meta ncpu tot c pages mem = Some s \<and> kmem_inv (int tot) s \<and> km_blocks s = (\<lambda>p. None) \<and>
    length (km_pools s) = ncpu \<and> km_ppc s = tot div ncpu \<and> same_cpu c (km_cpu s)"
proof -
  let ?m = "tot div ncpu"
  have le: "ncpu * ?m \<le> tot" by simp
  then have "meta + (0 + ncpu) * ?m * sizeof_page < START_MEM"
    using tot(3) mult_le_mono1 [OF le, of sizeof_page] unfolding add_0 by linarith
  moreover have fit: "(0 + ncpu) * ?m \<le> length pages"
    using le tot(2) unfolding add_0 by linarith
  ultimately obtain c' pages' pools where q: "init_pools meta ?m [0 ..< ncpu] c pages = Some (c', pages', pools)" "same_cpu c c'"
    "length pools = ncpu" "length pages' = length pages"
    "\<forall>i. i < ncpu * ?m \<longrightarrow> refcnt (pages' ! i) = 0 \<and> lk_free (page_lock (pages' ! i))"
    "\<forall>i<ncpu. buddy_inv pages' (pools ! i) \<and> blocks pages' (pools ! i) = (\<lambda>r. None) \<and>
       page_metadata (pools ! i) = i * ?m \<and> npages (pools ! i) = ?m"
    using init_pools_spec [OF c(1), of meta 0 ncpu ?m pages] by auto
  let ?s = "\<lparr>km_cpu = c', km_pages = pages', km_pools = pools, km_ppc = ?m, km_cnt = int tot, km_recycling = 0, km_mem = mem\<rparr>"
  have "0 < ncpu" using c(2) by simp
  then have pos: "0 < ?m"
    using tot(1) by (simp add: div_greater_zero_iff)
  have "km_blocks ?s p = None" for p
    using q(3,6) page_index_div(1) [of p ncpu ?m] by (simp add: km_blocks_def km_pool_def km_total_def)
  then have b: "km_blocks ?s = (\<lambda>p. None)" by auto
  have "pools_ok ?s"
    using q(3-6) c(2) pos fit same_cpu_ok [OF q(2) c(1)] q(2)
    by (simp add: pools_ok_def km_total_def km_pool_def same_cpu_def)
  moreover have "refs_ok ?s"
    using q(3,5) by (simp add: refs_ok_def b) (simp add: km_total_def)
  moreover have "used_pages ?s = 0"
    by (simp add: used_pages_def b)
  ultimately have "kmem_inv (int tot) ?s"
    by (simp add: kmem_inv_def)
  moreover have "mm_init meta ncpu tot c pages mem = Some ?s"
    using q(1) by (simp add: mm_init_def)
  ultimately show ?thesis
    using b q(2,3) by auto
qed

subsection \<open>Free memory\<close>

lemma card_in_use:
  assumes c: "buddy_core H {} pages pool"
  shows "card (in_use (blocks pages pool)) = (\<Sum>r<npages pool. case blocks pages pool r of None \<Rightarrow> 0 | Some k \<Rightarrow> 2 ^ k)"
    "in_use (blocks pages pool) \<subseteq> {..<npages pool}"
proof -
  note D = buddy_coreD [OF c]
  let ?A = "{h \<in> H. alloc_of pages pool h = 1}" and ?o = "ord_of pages pool"
  have fin: "finite ?A"
    using finite_tiling [OF D(3)] by simp
  have A: "?A = {r. r < npages pool \<and> alloc_of pages pool r = 1}"
    using D(6,10) by force
  have "\<forall>i\<in>?A. \<forall>j\<in>?A. i \<noteq> j \<longrightarrow> blk i (?o i) \<inter> blk j (?o j) = {}"
    using tilingD(4) [OF D(3)] by blast
  then have "card (in_use (blocks pages pool)) = (\<Sum>h\<in>?A. 2 ^ ?o h)"
    unfolding in_use_core [OF c] using card_UN_disjoint [OF fin, of "\<lambda>h. blk h (?o h)"] by simp
  also have "\<dots> = (\<Sum>r<npages pool. if alloc_of pages pool r = 1 then 2 ^ ?o r else 0)"
    unfolding A by (simp add: sum.If_cases Int_def lessThan_def)
  also have "\<dots> = (\<Sum>r<npages pool. case blocks pages pool r of None \<Rightarrow> 0 | Some k \<Rightarrow> 2 ^ k)"
    by (intro sum.cong) (auto simp: blocks_def)
  finally show "card (in_use (blocks pages pool)) = (\<Sum>r<npages pool. case blocks pages pool r of None \<Rightarrow> 0 | Some k \<Rightarrow> 2 ^ k)" .
  have "blk h (?o h) \<subseteq> {..<npages pool}" if "h \<in> H" for h
    using tilingD(2) [OF D(3) that] by (auto simp: blk_def)
  then show "in_use (blocks pages pool) \<subseteq> {..<npages pool}"
    unfolding in_use_core [OF c] by blast
qed

lemma pool_free_mem_inv:
  assumes "buddy_inv pages pool"
  shows "pool_free_mem pool = int PGSIZE *
    (int (npages pool) - int (\<Sum>r<npages pool. case blocks pages pool r of None \<Rightarrow> 0 | Some k \<Rightarrow> 2 ^ k))"
proof -
  obtain H where c: "buddy_core H {} pages pool"
    using assms by (rule buddy_invE)
  have "card ({..<npages pool} - in_use (blocks pages pool)) = npages pool - card (in_use (blocks pages pool))"
    "card (in_use (blocks pages pool)) \<le> npages pool"
    using card_in_use(2) [OF c] card_Diff_subset [OF finite_subset [OF card_in_use(2) [OF c]]]
      card_mono [OF _ card_in_use(2) [OF c]] by simp_all
  then show ?thesis
    using pool_free_mem_core [OF c] card_in_use(1) [OF c] by (simp add: of_nat_diff)
qed

lemma sum_pools_spec:
  assumes "cpu_ok c" "\<forall>pool\<in>set pools. lk_free (pool_lock pool)"
  shows "\<exists>c'. sum_pools c pools = Some (c', sum_list (List.map pool_free_mem pools)) \<and> same_cpu c c'"
  using assms
proof (induction pools arbitrary: c)
  case (Cons pool pools)
  obtain c1 l1 where a: "acquire c (pool_lock pool) = Some (c1, l1)"
    "\<exists>c'. release c1 l1 = Some (c', pool_lock pool) \<and> same_cpu c c'"
    using acquire_release [OF Cons.prems(1), of "pool_lock pool"] Cons.prems(2) same_cpu_refl by (metis list.set_intros(1))
  then obtain c2 where r: "release c1 l1 = Some (c2, pool_lock pool)" "same_cpu c c2" by auto
  obtain c3 where "sum_pools c2 pools = Some (c3, sum_list (List.map pool_free_mem pools))" "same_cpu c2 c3"
    using Cons.IH [OF same_cpu_ok [OF r(2) Cons.prems(1)]] Cons.prems(2) by auto
  then show ?case
    using a(1) r same_cpu_trans [OF r(2)] by auto
qed simp

lemma sum_shift: "sum f {a ..< a + m} = (\<Sum>r<m. f (a + r))" for a m :: nat
  by (rule sum.reindex_bij_witness [where i = "\<lambda>r. a + r" and j = "\<lambda>p. p - a"]) auto

lemma used_pages_by_pool:
  assumes "pools_ok s"
  shows "used_pages s = (\<Sum>i<length (km_pools s). \<Sum>r<km_ppc s. case blocks (km_pages s) (km_pool s i) r of None \<Rightarrow> 0 | Some k \<Rightarrow> 2 ^ k)"
proof -
  let ?f = "\<lambda>p. case km_blocks s p of None \<Rightarrow> 0 | Some k \<Rightarrow> (2 :: nat) ^ k" and ?m = "km_ppc s"
  have "used_pages s = (\<Sum>i<length (km_pools s). sum ?f {i * ?m ..< i * ?m + ?m})"
    unfolding used_pages_def km_total_def by (simp add: sum.nat_group)
  also have "\<dots> = (\<Sum>i<length (km_pools s). \<Sum>r<?m. ?f (i * ?m + r))"
    by (simp only: sum_shift)
  finally show ?thesis
    using km_blocks_pool [OF assms] by simp
qed

lemma get_free_mem_spec:
  assumes inv: "kmem_inv tot s"
  shows "\<exists>s'. get_free_mem s = Some (s', int PGSIZE * (km_cnt s - (tot - int (km_total s)))) \<and> kmem_inv tot s' \<and>
    km_blocks s' = km_blocks s"
proof -
  have I: "pools_ok s" "refs_ok s" "km_cnt s = tot - int (used_pages s)"
    using inv by (simp_all add: kmem_inv_def)
  note D = pools_okD [OF I(1)]
  have "\<forall>pool\<in>set (km_pools s). lk_free (pool_lock pool)"
    using D(5) by (auto simp: in_set_conv_nth km_pool_def buddy_inv_def)
  then obtain c where c: "sum_pools (km_cpu s) (km_pools s) = Some (c, sum_list (List.map pool_free_mem (km_pools s)))"
    "same_cpu (km_cpu s) c"
    using sum_pools_spec [OF D(3)] by blast
  have "sum_list (List.map pool_free_mem (km_pools s)) = (\<Sum>i<length (km_pools s). pool_free_mem (km_pool s i))"
    by (simp add: sum_list_sum_nth atLeast0LessThan km_pool_def)
  also have "\<dots> = (\<Sum>i<length (km_pools s). int PGSIZE * (int (km_ppc s) -
      int (\<Sum>r<km_ppc s. case blocks (km_pages s) (km_pool s i) r of None \<Rightarrow> 0 | Some k \<Rightarrow> 2 ^ k)))"
    using pool_free_mem_inv [OF D(5)] D(7) by simp
  also have "\<dots> = int PGSIZE * (int (km_total s) - int (used_pages s))"
    unfolding used_pages_by_pool [OF I(1)]
    by (simp add: sum_distrib_left [symmetric] sum_subtractf km_total_def)
  finally show ?thesis
    using c set_cpu_inv [OF inv c(2)] set_cpu_ok(3) [OF I(1) c(2)] I(3) by (auto simp: get_free_mem_def)
qed

subsection \<open>Properties\<close>

text \<open>Two CPUs with four pages each, as \<open>mm_init\<close> sets them up, for the witnesses.\<close>

definition demo_mem :: kmem where
  "demo_mem = the (mm_init 0 2 8 demo_cpu (replicate 8 zero_page) (\<lambda>_. 0))"

lemma demo_mem_ok: "kmem_inv 8 demo_mem" "km_blocks demo_mem = (\<lambda>p. None)" "same_cpu demo_cpu (km_cpu demo_mem)"
proof -
  have "cpu_id demo_cpu < 2" by (simp add: demo_cpu_def)
  from mm_init_spec [OF demo_cpu_ok this, of 8 "replicate 8 zero_page" 0 "\<lambda>_. 0"]
  show "kmem_inv 8 demo_mem" "km_blocks demo_mem = (\<lambda>p. None)" "same_cpu demo_cpu (km_cpu demo_mem)"
    by (auto simp: demo_mem_def sizeof_page_def START_MEM_def)
qed

lemma recycler_Some: "recycler Some"
  by (simp add: recycler_def)

text \<open>\<open>size_to_page_order\<close> returns the least order whose block holds the requested number of bytes, for
  every request from one byte up to \<open>2 ^ 42\<close> bytes, computed with the 64-bit arithmetic of the code.\<close>

theorem size_to_page_order_least:
  assumes "0 < unat sz" "unat sz \<le> 2 ^ 42"
  shows "\<exists>k. size_to_page_order sz = Some k \<and> unat sz \<le> 2 ^ k * PGSIZE \<and> (\<forall>j<k. 2 ^ j * PGSIZE < unat sz)"
  by (rule size_to_page_order_spec [OF assms])

theorem size_to_page_order_least_witness:
  "\<exists>k. size_to_page_order 20481 = Some k \<and> 20481 \<le> 2 ^ k * PGSIZE \<and> (\<forall>j<k. 2 ^ j * PGSIZE < 20481)"
  using size_to_page_order_least [of 20481] by simp

text \<open>C4. \<open>kmalloc\<close> of at most \<open>2 ^ 13\<close> pages, in a consistent state and with a well-behaved reclaim callback,
  never panics.  It returns \<open>NULL\<close> only if no CPU's pool, its own or any other it tries to steal from,
  has a free aligned block of the order of the request; otherwise the address is that of a block of at
  least the requested size (and, for requests above one page, of the least such order) that
  overlapped no block in use, and unless memory is low the block is then in use with reference count one.
  The invariant, which ties \<open>pages_cnt\<close> to the blocks in use, is kept.\<close>

theorem kmalloc_correct:
  assumes "kmem_inv tot s" "recycler af" "unat sz \<le> 2 ^ BUDDY_MAX_ORDER * PGSIZE"
  shows "\<exists>s' r k. kmalloc af s sz = Some (s', r) \<and> k \<le> BUDDY_MAX_ORDER \<and> unat sz \<le> 2 ^ k * PGSIZE \<and>
    (\<forall>j<k. 2 ^ j * PGSIZE < unat sz) \<and> kmem_inv tot s' \<and> same_cpu (km_cpu s) (km_cpu s') \<and>
    (case r of
       None \<Rightarrow> (\<nexists>p. km_got s k p) \<and> km_blocks s' = km_blocks s
     | Some pa \<Rightarrow> \<exists>p. pa = page_to_pa p \<and> km_got s k p \<and>
         (PAGES_THRESHOLD \<le> km_cnt s - 2 ^ k \<longrightarrow>
            km_blocks s' = (km_blocks s)(p \<mapsto> k) \<and> refcnt (km_pages s' ! p) = 1))"
proof -
  obtain k where k: "(if sz \<le> word_of_nat PGSIZE then Some 0 else size_to_page_order sz) = Some k"
    "unat sz \<le> 2 ^ k * PGSIZE" "\<forall>j<k. 2 ^ j * PGSIZE < unat sz"
  proof (cases "sz \<le> word_of_nat PGSIZE")
    case True
    then have "unat sz \<le> PGSIZE"
      by (simp add: word_le_nat_alt PGSIZE_def)
    then show thesis using True that [of 0] by simp
  next
    case False
    have "0 < unat sz" "unat sz \<le> 2 ^ 42"
      using False assms(3) by (auto simp: word_le_nat_alt PGSIZE_def BUDDY_MAX_ORDER_def)
    from size_to_page_order_spec [OF this] show thesis using False that by auto
  qed
  have "k \<le> BUDDY_MAX_ORDER"
    using k(3) assms(3) by (meson leD leI)
  moreover obtain s' r where "kmalloc af s sz = Some (s', r)" "alloc_post tot s k r s'"
    using request_spec [OF assms(1,2) calculation] k(1) by (auto simp: kmalloc_split)
  ultimately show ?thesis
    using k(2,3) by (intro exI [of _ s'] exI [of _ r] exI [of _ k]) (auto simp: alloc_post_def split: option.splits)
qed

theorem kmalloc_correct_witness:
  "\<exists>s' r. kmalloc Some demo_mem 9000 = Some (s', r) \<and> kmem_inv 8 s'"
  using kmalloc_correct [OF demo_mem_ok(1) recycler_Some, of 9000]
  by (auto simp: BUDDY_MAX_ORDER_def PGSIZE_def)

text \<open>A request for more than \<open>2 ^ 13\<close> pages does not fail with \<open>NULL\<close>: the assertion on the order in
  \<open>buddy_get_pages\<close> stops the kernel.\<close>

theorem kmalloc_too_large_panics:
  assumes "2 ^ BUDDY_MAX_ORDER * PGSIZE < unat sz" "unat sz \<le> 2 ^ 42"
  shows "kmalloc af s sz = None"
proof -
  have big: "\<not> sz \<le> word_of_nat PGSIZE" "0 < unat sz"
    using assms(1) by (auto simp: word_le_nat_alt PGSIZE_def BUDDY_MAX_ORDER_def)
  from size_to_page_order_spec [OF big(2) assms(2)] obtain k where
    k: "size_to_page_order sz = Some k" "unat sz \<le> 2 ^ k * PGSIZE" by blast
  have "\<not> k \<le> BUDDY_MAX_ORDER"
  proof
    assume "k \<le> BUDDY_MAX_ORDER"
    then have "(2 :: nat) ^ k * PGSIZE \<le> 2 ^ BUDDY_MAX_ORDER * PGSIZE"
      by (intro mult_le_mono1 power_increasing) auto
    with k(2) assms(1) show False by linarith
  qed
  then have "pool_get s (cpu_id (km_cpu s)) k = None"
    by (auto simp: pool_get_def buddy_get_pages_def ASSERT_def bind_eq_None_conv)
  then show ?thesis
    using big k(1) by (simp add: kmalloc_def take_pages_def)
qed

theorem kmalloc_too_large_panics_witness: "kmalloc Some demo_mem 33554433 = None"
  by (rule kmalloc_too_large_panics) (simp_all add: BUDDY_MAX_ORDER_def PGSIZE_def)

text \<open>C5. \<open>kfree\<close> of an allocated block drops one reference.  While others remain nothing else changes; with
  the last one the block returns to the pool it came from, its pages are counted as available again, and
  in both cases the whole-system invariant holds.\<close>

theorem kfree_correct:
  assumes "kmem_inv tot s" "km_blocks s p = Some k"
  shows "\<exists>s'. kfree s (page_to_pa p) = Some s' \<and> kmem_inv tot s' \<and> same_cpu (km_cpu s) (km_cpu s') \<and>
    refcnt (km_pages s' ! p) = refcnt (km_pages s ! p) - 1 \<and>
    km_blocks s' = (if refcnt (km_pages s ! p) = 1 then (km_blocks s)(p := None) else km_blocks s)"
  by (rule kfree_spec [OF assms])

definition demo_used :: kmem where
  "demo_used = fst (the (kmalloc Some demo_mem 9000))"

lemma demo_used_ok: "kmem_inv 8 demo_used" "km_blocks demo_used 0 = Some 2"
proof -
  have run: "map_option snd (kmalloc Some demo_mem 9000) = Some (Some START_MEM)"
    by code_simp
  have ord: "size_to_page_order 9000 = Some 2" by code_simp
  obtain s' r where s': "kmalloc Some demo_mem 9000 = Some (s', r)" "alloc_post 8 demo_mem 2 r s'"
    using request_spec [OF demo_mem_ok(1) recycler_Some, of 2] ord
    by (auto simp: kmalloc_split BUDDY_MAX_ORDER_def PGSIZE_def)
  have "map_option (\<lambda>(s, r). km_blocks s 0) (kmalloc Some demo_mem 9000) = Some (Some 2)"
    by code_simp
  then show "kmem_inv 8 demo_used" "km_blocks demo_used 0 = Some 2"
    using s' by (simp_all add: demo_used_def alloc_post_def)
qed

theorem kfree_correct_witness:
  "\<exists>s'. kfree demo_used (page_to_pa 0) = Some s' \<and> kmem_inv 8 s'"
  using kfree_correct [OF demo_used_ok] by blast

text \<open>\<open>share_page\<close> adds a reference to an allocated block, and the next \<open>kfree\<close> of it only takes that
  reference back: the block stays allocated and the reference count is the original one.\<close>

theorem share_then_kfree:
  assumes "kmem_inv tot s" "km_blocks s p = Some k"
  shows "\<exists>s1 s2. share_page s (page_to_pa p) = Some s1 \<and> kfree s1 (page_to_pa p) = Some s2 \<and> kmem_inv tot s2 \<and>
    km_blocks s2 = km_blocks s \<and> refcnt (km_pages s2 ! p) = refcnt (km_pages s ! p)"
proof -
  obtain s1 where s1: "share_page s (page_to_pa p) = Some s1" "kmem_inv tot s1" "km_blocks s1 = km_blocks s"
    "refcnt (km_pages s1 ! p) = refcnt (km_pages s ! p) + 1"
    using share_page_spec [OF assms] by blast
  have "1 \<le> refcnt (km_pages s ! p)"
    using assms km_blocks_alloc(1) [OF _ assms(2)] by (auto simp: kmem_inv_def refs_ok_def)
  then have "1 < refcnt (km_pages s1 ! p)" using s1(4) by simp
  with s1 assms(2) show ?thesis
    using kfree_shared_spec [OF s1(2), of p k] by fastforce
qed

theorem share_then_kfree_witness:
  "\<exists>s1 s2. share_page demo_used (page_to_pa 0) = Some s1 \<and> kfree s1 (page_to_pa 0) = Some s2 \<and> kmem_inv 8 s2"
  using share_then_kfree [OF demo_used_ok] by blast

text \<open>\<open>mm_init\<close> brings every CPU's pool up and establishes the invariant of the whole allocator, with all
  memory free.\<close>

theorem mm_init_correct:
  assumes "cpu_ok c" "cpu_id c < ncpu" "ncpu \<le> tot" "tot \<le> length pages" "meta + tot * sizeof_page < START_MEM"
  shows "\<exists>s. mm_init meta ncpu tot c pages mem = Some s \<and> kmem_inv (int tot) s \<and> km_blocks s = (\<lambda>p. None) \<and>
    length (km_pools s) = ncpu \<and> km_ppc s = tot div ncpu"
  using mm_init_spec [OF assms, of mem] by blast

theorem mm_init_correct_witness:
  "\<exists>s. mm_init 2150629376 2 9 demo_cpu (replicate 9 zero_page) (\<lambda>_. 0) = Some s \<and> kmem_inv 9 s"
  using mm_init_correct [OF demo_cpu_ok, where ncpu = 2 and tot = 9 and pages = "replicate 9 zero_page"
      and meta = 2150629376 and mem = "\<lambda>_. 0"]
  by (auto simp: demo_cpu_def sizeof_page_def START_MEM_def)

text \<open>\<open>get_free_mem\<close>, which adds up the lengths of the free lists of all pools, and the counter
  \<open>pages_cnt\<close>, which \<open>kmalloc\<close> and \<open>kfree\<close> maintain, agree: they differ by exactly the pages that the
  division of the memory among the CPUs leaves out.\<close>

theorem get_free_mem_agrees:
  assumes "kmem_inv tot s"
  shows "\<exists>s'. get_free_mem s = Some (s', int PGSIZE * (km_cnt s - (tot - int (km_total s)))) \<and> kmem_inv tot s'"
  using get_free_mem_spec [OF assms] by blast

theorem get_free_mem_agrees_witness:
  "\<exists>s'. get_free_mem demo_used = Some (s', int PGSIZE * (km_cnt demo_used - (8 - int (km_total demo_used)))) \<and> kmem_inv 8 s'"
  using get_free_mem_agrees [OF demo_used_ok(1)] by blast

end
