(* ===== verification/Timer.thy ===== *)
theory Timer
  imports Prelude
begin

text \<open>
  Kernel timers: \<open>src/lib/timer.c\<close>.  The list of the \<open>timer_entry\<close> holds the pending timers in the order in
  which they were added.  \<open>timer_addr\<close> stands for the address of a \<open>timer_list\<close> structure, and
  \<open>fire\<close> for the callback stored in it, applied to the callback's argument.  Times are nanoseconds kept in
  64 bits, so \<open>expires_end\<close> may wrap around.
\<close>

record timer_list =
  timer_addr :: nat
  expires :: uint64
  expires_end :: uint64
  timer_data :: nat
  timer_count :: int
  interval :: uint64

definition FREQUENCY :: uint64 where "FREQUENCY = 12500000"

definition TIME2NS :: "uint64 \<Rightarrow> uint64" where
  "TIME2NS time = time * 1000000000 div FREQUENCY"

definition TIME_OUT :: "uint64 \<Rightarrow> timer_list \<Rightarrow> bool" where
  "TIME_OUT rdtime timer_cur \<longleftrightarrow> TIME2NS rdtime > expires_end timer_cur"

definition timer_linked :: "timer_list list \<Rightarrow> nat \<Rightarrow> bool" where
  "timer_linked entry a \<longleftrightarrow> a \<in> timer_addr ` set entry"

text \<open>A timer that is already linked keeps its place and gets its new values.\<close>

definition add_timer_atomic :: "uint64 \<Rightarrow> timer_list \<Rightarrow> uint64 \<Rightarrow> nat \<Rightarrow> timer_list list \<Rightarrow> timer_list list" where
  "add_timer_atomic rdtime timer ex data entry =
     (let timer = timer\<lparr>timer_data := data, expires_end := ex + TIME2NS rdtime, expires := ex\<rparr>
      in if timer_linked entry (timer_addr timer)
         then map (\<lambda>x. if timer_addr x = timer_addr timer then timer else x) entry
         else entry @ [timer])"

definition delete_timer_atomic :: "nat \<Rightarrow> timer_list list \<Rightarrow> timer_list list" where
  "delete_timer_atomic a entry = filter (\<lambda>x. timer_addr x \<noteq> a) entry"

text \<open>The loop of \<open>timer_list_decrease_atomic\<close> over the rest of the list; \<open>None\<close> if a callback panics.\<close>

fun timer_list_decrease_atomic ::
  "(nat \<Rightarrow> 's \<Rightarrow> 's option) \<Rightarrow> uint64 \<Rightarrow> timer_list list \<Rightarrow> 's \<Rightarrow> (timer_list list \<times> 's) option" where
  "timer_list_decrease_atomic fire rdtime [] s = Some ([], s)"
| "timer_list_decrease_atomic fire rdtime (tm # entry) s =
     (if TIME_OUT rdtime tm then do {
        s \<leftarrow> fire (timer_data tm) s;
        (entry, s) \<leftarrow> timer_list_decrease_atomic fire rdtime entry s;
        Some (if timer_count tm = -1
              then (if interval tm = -1 then tm\<lparr>expires_end := expires tm + TIME2NS rdtime\<rparr>
                    else tm\<lparr>expires_end := interval tm + TIME2NS rdtime\<rparr>) # entry
              else entry, s) }
      else do {
        (entry, s) \<leftarrow> timer_list_decrease_atomic fire rdtime entry s;
        Some (tm # entry, s) })"

subsection \<open>Properties\<close>

text \<open>The calls one pass makes: the arguments of the due timers, in list order.\<close>

fun fire_all :: "(nat \<Rightarrow> 's \<Rightarrow> 's option) \<Rightarrow> nat list \<Rightarrow> 's \<Rightarrow> 's option" where
  "fire_all fire [] s = Some s"
| "fire_all fire (d # ds) s = Option.bind (fire d s) (fire_all fire ds)"

definition due :: "uint64 \<Rightarrow> timer_list list \<Rightarrow> nat list" where
  "due rdtime entry = map timer_data (filter (TIME_OUT rdtime) entry)"

definition kept :: "uint64 \<Rightarrow> timer_list \<Rightarrow> bool" where
  "kept rdtime tm = (if TIME_OUT rdtime tm then timer_count tm = -1 else True)"

text \<open>A periodic timer is kept; only its deadline changes.\<close>

definition rearm :: "uint64 \<Rightarrow> timer_list \<Rightarrow> timer_list" where
  "rearm rdtime tm = (if TIME_OUT rdtime tm
     then tm\<lparr>expires_end := (if interval tm = -1 then expires tm else interval tm) + TIME2NS rdtime\<rparr> else tm)"

text \<open> A clock tick calls the callbacks of exactly the timers whose deadline has passed, in the order in
  which the timers were added.  It removes the one-shot timers among them, re-arms the periodic
  ones with their period from now, and leaves every other timer alone.\<close>

theorem timer_tick_correct:
  "timer_list_decrease_atomic fire rdtime entry s =
     map_option (\<lambda>s. (map (rearm rdtime) (filter (kept rdtime) entry), s))
       (fire_all fire (due rdtime entry) s)"
proof (induction entry arbitrary: s)
  case (Cons tm entry)
  show ?case
  proof (cases "TIME_OUT rdtime tm")
    case True
    then show ?thesis
      using Cons by (cases "fire (timer_data tm) s"; cases "fire_all fire (due rdtime entry) (the (fire (timer_data tm) s))")
        (auto simp: due_def rearm_def kept_def)
  next
    case False
    then show ?thesis
      using Cons by (cases "fire_all fire (due rdtime entry) s") (auto simp: due_def rearm_def kept_def)
  qed
qed (simp_all add: due_def)

lemma add_delete_timer:
  assumes "\<not> timer_linked entry (timer_addr timer)"
  shows "delete_timer_atomic (timer_addr timer) (add_timer_atomic rdtime timer ex data entry) = entry"
  using assms by (auto simp: add_timer_atomic_def delete_timer_atomic_def timer_linked_def filter_id_conv image_iff)

text \<open>The deadline lies ahead unless the sum wraps around.\<close>

lemma add_timer_not_due:
  assumes "unat ex + unat (TIME2NS rdtime) < 2 ^ 64"
  shows "\<not> TIME_OUT rdtime (timer\<lparr>timer_data := data, expires_end := ex + TIME2NS rdtime, expires := ex\<rparr>)"
proof -
  have "unat (ex + TIME2NS rdtime) = unat ex + unat (TIME2NS rdtime)"
    using assms by (subst unat_add_lem [symmetric]) simp
  then show ?thesis
    by (simp add: TIME_OUT_def word_less_nat_alt)
qed

end
