(* ===== verification/Sched.thy ===== *)
theory Sched
  imports Prelude Timer
begin

unbundle bit_operations_syntax

text \<open>
  Threads and their queues: \<open>src/lib/queue.c\<close>, \<open>src/proc/sched.c\<close>, \<open>src/atomic/cond.c\<close>,
  \<open>src/atomic/futex.c\<close> and the state transitions of \<open>src/proc/tcb_life.c\<close>.

  A \<open>struct tcb\<close> is an index into the thread table; it has two list nodes, \<open>state_list\<close> for the queue of
  its state and \<open>wait_list\<close> for the queue it waits in.  \<open>loc\<close> records for each node of a thread or process
  the queue it is linked into, which in the code is implicit in the node's own pointers; a node that is
  linked to itself is in none, and \<open>list_del_reinit\<close> of it does nothing.  Linking a node that is already
  linked would corrupt two lists and has no result.

  A step of the transition relation below is one section of code between scheduling points.  A wake-up takes
  two steps, as in the code: the thread is unlinked under the lock of its wait queue, and only then its own lock is
  taken and its state changed; in between it is \<open>taken\<close>, asleep but in no wait queue, and other CPUs may take
  any other steps.  Two things the code leaves unprotected are outside the relation, and lemmas say what they
  do: a signal or a timer that wakes a taken thread, and \<open>do_exit_group\<close> on threads that run or sleep.  One is
  simplified: \<open>cond_wait\<close> and \<open>futex_wait\<close> link the thread into the wait queue without the queue's lock, under
  the caller's mutex or the process lock and the thread's own lock; the model takes the linking as one action, so
  it does not see a link and an unlink of another CPU on the same list overlap (\<open>overlapping_add_is_lost\<close> in
  theory \<open>ListHead\<close> shows what that does to a list).  \<open>cond_wait\<close> and
  \<open>futex_wait\<close> end in \<open>thread_sched\<close>, which leaves the CPU to the scheduler; what they do after being
  resumed is a function of its own.

  Wait queues of futexes are freed with the futex; a freed queue is never used again in the model, and taking the
  lock of one has no result.
\<close>

subsection \<open>Data\<close>

datatype thread_state = TCB_UNUSED | TCB_USED | TCB_RUNNABLE | TCB_RUNNING | TCB_SLEEPING
datatype procstate = PCB_UNUSED | PCB_USED | PCB_ZOMBIE
datatype queue_type = TCB_STATE_QUEUE | PCB_STATE_QUEUE | TCB_WAIT_QUEUE

text \<open>The queues: one per thread state and process state, and any number of wait queues.\<close>

datatype qid = TQ thread_state | PQ procstate | WQ nat

fun q_type :: "qid \<Rightarrow> queue_type" where
  "q_type (TQ _) = TCB_STATE_QUEUE"
| "q_type (PQ _) = PCB_STATE_QUEUE"
| "q_type (WQ _) = TCB_WAIT_QUEUE"

record ksched =
  t_state :: "nat \<Rightarrow> thread_state"
  p_state :: "nat \<Rightarrow> procstate"
  qlist :: "qid \<Rightarrow> nat list"
  loc :: "queue_type \<Rightarrow> nat \<Rightarrow> qid option"
  wait_chan_entry :: "nat \<Rightarrow> nat option"
  t_killed :: "nat \<Rightarrow> bool"
  cpu_thread :: "nat \<Rightarrow> nat option"
  futex_map :: "nat \<Rightarrow> nat option"
  next_wq :: nat
  time_out :: "nat \<Rightarrow> uint64"
  timers :: "timer_list list"
  freed_wq :: "nat \<Rightarrow> bool"
  taken :: "nat \<Rightarrow> bool"

subsection \<open>\<open>queue.c\<close>\<close>

definition Queue_init :: "ksched \<Rightarrow> qid \<Rightarrow> ksched" where
  "Queue_init s q = s\<lparr>qlist := (qlist s)(q := [])\<rparr>"

definition Queue_isempty :: "ksched \<Rightarrow> qid \<Rightarrow> bool" where
  "Queue_isempty s q \<longleftrightarrow> qlist s q = []"

definition Queue_push_back :: "ksched \<Rightarrow> qid \<Rightarrow> nat \<Rightarrow> ksched option" where
  "Queue_push_back s q t =
     (if loc s (q_type q) t \<noteq> None then None
      else Some (s\<lparr>qlist := (qlist s)(q := qlist s q @ [t]),
                  loc := (loc s)(q_type q := (loc s (q_type q))(t \<mapsto> q))\<rparr>))"

definition Queue_remove :: "ksched \<Rightarrow> nat \<Rightarrow> queue_type \<Rightarrow> ksched" where
  "Queue_remove s t ty =
     (case loc s ty t of
        None \<Rightarrow> s
      | Some q \<Rightarrow> s\<lparr>qlist := (qlist s)(q := remove1 t (qlist s q)), loc := (loc s)(ty := (loc s ty)(t := None))\<rparr>)"

text \<open>The queue argument of \<open>Queue_remove_atomic\<close> supplies the lock and the node type, so its memory is read and written:
  there is no result if it has been freed.\<close>

fun queue_live :: "ksched \<Rightarrow> qid \<Rightarrow> bool" where
  "queue_live s (WQ w) = (\<not> freed_wq s w)"
| "queue_live s q = True"

definition Queue_remove_atomic :: "ksched \<Rightarrow> qid \<Rightarrow> nat \<Rightarrow> ksched option" where
  "Queue_remove_atomic s q t = do {
     ASSERT (queue_live s q);
     Some (Queue_remove s t (q_type q)) }"

definition Queue_push_back_atomic :: "ksched \<Rightarrow> qid \<Rightarrow> nat \<Rightarrow> ksched option" where
  "Queue_push_back_atomic s q t = Queue_push_back s q t"

definition queue_first_node :: "ksched \<Rightarrow> qid \<Rightarrow> nat" where
  "queue_first_node s q = hd (qlist s q)"

definition Queue_pop :: "ksched \<Rightarrow> qid \<Rightarrow> bool \<Rightarrow> ksched \<times> nat option" where
  "Queue_pop s q rem =
     (if Queue_isempty s q then (s, None)
      else let t = queue_first_node s q
           in (if rem then Queue_remove s t (q_type q) else s, Some t))"

definition Queue_provide_atomic :: "ksched \<Rightarrow> qid \<Rightarrow> bool \<Rightarrow> ksched \<times> nat option" where
  "Queue_provide_atomic s q rem = Queue_pop s q rem"

subsection \<open>\<open>sched.c\<close>\<close>

text \<open>There is no queue for \<open>TCB_RUNNING\<close>: \<open>T_STATES\<close> has a null pointer there.\<close>

definition TCB_Q_changeState :: "ksched \<Rightarrow> nat \<Rightarrow> thread_state \<Rightarrow> ksched option" where
  "TCB_Q_changeState s t state_new = do {
     s \<leftarrow> (if t_state s t \<noteq> TCB_RUNNING then Queue_remove_atomic s (TQ (t_state s t)) t
          else Some (Queue_remove s t TCB_STATE_QUEUE));
     ASSERT (state_new \<noteq> TCB_RUNNING);
     s \<leftarrow> Queue_push_back_atomic s (TQ state_new) t;
     Some (s\<lparr>t_state := (t_state s)(t := state_new)\<rparr>) }"

definition PCB_Q_changeState :: "ksched \<Rightarrow> nat \<Rightarrow> procstate \<Rightarrow> ksched option" where
  "PCB_Q_changeState s p state_new = do {
     s \<leftarrow> Queue_remove_atomic s (PQ (p_state s p)) p;
     s \<leftarrow> Queue_push_back_atomic s (PQ state_new) p;
     Some (s\<lparr>p_state := (p_state s)(p := state_new)\<rparr>) }"

text \<open>\<open>thread_sched\<close> on CPU \<open>c\<close>, up to the switch to the scheduler's context.  \<open>noff\<close> is the CPU's count of
  \<open>push_off\<close> calls, which is positive as the thread's lock is held, so that interrupts are off.  The
  time-out is truncated to an \<open>int\<close> before it is tested.  The timer is a local variable: its address is
  that of the thread.\<close>

definition thread_sched :: "ksched \<Rightarrow> nat \<Rightarrow> nat \<Rightarrow> uint64 \<Rightarrow> ksched option" where
  "thread_sched s c noff rdtime = do {
     t \<leftarrow> cpu_thread s c;
     ASSERT (noff = 1);
     ASSERT (t_state s t \<noteq> TCB_RUNNING);
     let timer = \<lparr>timer_addr = t, expires = 0, expires_end = 0, timer_data = 0, timer_count = 1, interval = 0\<rparr>;
     let s = (if (ucast (time_out s t) :: uint) \<noteq> 0
              then s\<lparr>timers := add_timer_atomic rdtime timer (time_out s t) t (timers s)\<rparr> else s);
     Some (s\<lparr>cpu_thread := (cpu_thread s)(c := None)\<rparr>) }"

text \<open>The rest of \<open>thread_sched\<close>, when thread \<open>t\<close> runs again: the result tells whether \<open>timer.expires\<close> is zero,
  which it is if there was no timer or if the timer has fired.\<close>

definition thread_sched_resume :: "ksched \<Rightarrow> nat \<Rightarrow> ksched \<times> bool" where
  "thread_sched_resume s t =
     (if (ucast (time_out s t) :: uint) \<noteq> 0
      then (s\<lparr>time_out := (time_out s)(t := 0), timers := delete_timer_atomic t (timers s)\<rparr>, \<not> timer_linked (timers s) t)
      else (s, True))"

definition thread_yield :: "ksched \<Rightarrow> nat \<Rightarrow> nat \<Rightarrow> uint64 \<Rightarrow> ksched option" where
  "thread_yield s c noff rdtime = do {
     t \<leftarrow> cpu_thread s c;
     s \<leftarrow> TCB_Q_changeState s t TCB_RUNNABLE;
     thread_sched s c (noff + 1) rdtime }"

definition thread_wakeup :: "ksched \<Rightarrow> nat \<Rightarrow> ksched option" where
  "thread_wakeup s t = do {
     w \<leftarrow> wait_chan_entry s t;
     s \<leftarrow> Queue_remove_atomic s (WQ w) t;
     ASSERT (t_state s t = TCB_SLEEPING);
     let s = s\<lparr>wait_chan_entry := (wait_chan_entry s)(t := None)\<rparr>;
     TCB_Q_changeState s t TCB_RUNNABLE }"

text \<open>The callback of a thread's timer.\<close>

definition thread_wakeup_atomic :: "nat \<Rightarrow> ksched \<Rightarrow> ksched option" where
  "thread_wakeup_atomic t s = do {
     w \<leftarrow> wait_chan_entry s t;
     s \<leftarrow> Queue_remove_atomic s (WQ w) t;
     ASSERT (t_state s t = TCB_SLEEPING);
     let s = s\<lparr>wait_chan_entry := (wait_chan_entry s)(t := None)\<rparr>;
     TCB_Q_changeState s t TCB_RUNNABLE }"

text \<open>One turn of the loop of \<open>thread_scheduler\<close> on CPU \<open>c\<close>; with no runnable thread it does nothing.\<close>

definition thread_scheduler :: "ksched \<Rightarrow> nat \<Rightarrow> ksched" where
  "thread_scheduler s c =
     (case Queue_provide_atomic s (TQ TCB_RUNNABLE) True of
        (s, None) \<Rightarrow> s
      | (s, Some t) \<Rightarrow>
          s\<lparr>t_state := (t_state s)(t := TCB_RUNNING), cpu_thread := (cpu_thread s)(c := Some t)\<rparr>)"

subsection \<open>\<open>cond.c\<close>\<close>

text \<open>The part \<open>cond_wait\<close> and \<open>futex_wait\<close> share, from the change of state to the switch; \<open>noff\<close> is the nesting at
  the call of \<open>thread_sched\<close>.\<close>

definition sleep_on :: "ksched \<Rightarrow> nat \<Rightarrow> nat \<Rightarrow> uint64 option \<Rightarrow> nat \<Rightarrow> uint64 \<Rightarrow> ksched option" where
  "sleep_on s c w tmo noff rdtime = do {
     t \<leftarrow> cpu_thread s c;
     s \<leftarrow> TCB_Q_changeState s t TCB_SLEEPING;
     s \<leftarrow> Queue_push_back s (WQ w) t;
     let s = (case tmo of None \<Rightarrow> s | Some ns \<Rightarrow> s\<lparr>time_out := (time_out s)(t := ns)\<rparr>);
     let s = s\<lparr>wait_chan_entry := (wait_chan_entry s)(t := Some w)\<rparr>;
     thread_sched s c noff rdtime }"

text \<open>The caller holds the mutex; taking the thread's lock and releasing the mutex leaves the nesting as it was.\<close>

definition cond_wait :: "ksched \<Rightarrow> nat \<Rightarrow> nat \<Rightarrow> nat \<Rightarrow> uint64 \<Rightarrow> ksched option" where
  "cond_wait s c w noff rdtime = sleep_on s c w None noff rdtime"

text \<open>After the thread is resumed: whether it was killed meanwhile and so exits instead of returning, and the result.\<close>

definition cond_wait_resume :: "ksched \<Rightarrow> nat \<Rightarrow> ksched \<times> bool \<times> bool" where
  "cond_wait_resume s t = (let (s, ret) = thread_sched_resume s t in (s, t_killed s t, ret))"

text \<open>The first thread of the queue is taken off under the lock of the queue and then, by \<open>wake_taken\<close> under the lock
  of the thread, made runnable, as in \<open>cond_signal\<close>, \<open>cond_broadcast\<close> and \<open>futex_wakeup\<close>.\<close>

definition wake_taken :: "ksched \<Rightarrow> nat \<Rightarrow> ksched option" where
  "wake_taken s t = do {
     ASSERT (t_state s t = TCB_SLEEPING);
     ASSERT (wait_chan_entry s t \<noteq> None);
     let s = s\<lparr>wait_chan_entry := (wait_chan_entry s)(t := None)\<rparr>;
     TCB_Q_changeState s t TCB_RUNNABLE }"

definition wake_first :: "ksched \<Rightarrow> nat \<Rightarrow> ksched option" where
  "wake_first s w = do {
     let (s, r) = Queue_provide_atomic s (WQ w) True;
     t \<leftarrow> r;
     wake_taken s t }"

definition cond_signal :: "ksched \<Rightarrow> nat \<Rightarrow> ksched option" where
  "cond_signal s w = (if \<not> Queue_isempty s (WQ w) then wake_first s w else Some s)"

fun broadcast_loop :: "nat \<Rightarrow> ksched \<Rightarrow> nat \<Rightarrow> ksched option" where
  "broadcast_loop 0 s w = None"
| "broadcast_loop (Suc fuel) s w =
     (if Queue_isempty s (WQ w) then Some s
      else Option.bind (wake_first s w) (\<lambda>s. broadcast_loop fuel s w))"

text \<open>The loop runs once per waiting thread; one more unit of fuel sees the empty queue.\<close>

definition cond_broadcast :: "ksched \<Rightarrow> nat \<Rightarrow> ksched option" where
  "cond_broadcast s w = broadcast_loop (Suc (length (qlist s (WQ w)))) s w"

subsection \<open>\<open>tcb_life.c\<close>: the queue transitions\<close>

definition TCB_Q_ALL_INIT :: "ksched \<Rightarrow> ksched" where
  "TCB_Q_ALL_INIT s = Queue_init (Queue_init (Queue_init (Queue_init s (TQ TCB_UNUSED)) (TQ TCB_USED))
     (TQ TCB_RUNNABLE)) (TQ TCB_SLEEPING)"

fun tcb_init_loop :: "nat list \<Rightarrow> ksched \<Rightarrow> ksched option" where
  "tcb_init_loop [] s = Some s"
| "tcb_init_loop (t # ts) s = do {
     s \<leftarrow> Queue_push_back (s\<lparr>t_state := (t_state s)(t := TCB_UNUSED)\<rparr>) (TQ TCB_UNUSED) t;
     tcb_init_loop ts s }"

definition tcb_init :: "nat \<Rightarrow> ksched \<Rightarrow> ksched option" where
  "tcb_init n s = tcb_init_loop [0 ..< n] (TCB_Q_ALL_INIT s)"

text \<open>The zeroed memory the kernel starts with, and \<open>k\<close> wait queues of condition variables.\<close>

definition boot_sched :: "nat \<Rightarrow> ksched" where
  "boot_sched k = \<lparr>t_state = (\<lambda>_. TCB_UNUSED), p_state = (\<lambda>_. PCB_UNUSED), qlist = (\<lambda>_. []), loc = (\<lambda>_ _. None),
     wait_chan_entry = (\<lambda>_. None), t_killed = (\<lambda>_. False), cpu_thread = (\<lambda>_. None), futex_map = (\<lambda>_. None), next_wq = k,
     time_out = (\<lambda>_. 0), timers = [],
     freed_wq = (\<lambda>_. False), taken = (\<lambda>_. False)\<rparr>"

definition alloc_thread :: "ksched \<Rightarrow> (ksched \<times> nat option) option" where
  "alloc_thread s =
     (case Queue_provide_atomic s (TQ TCB_UNUSED) True of
        (s, None) \<Rightarrow> Some (s, None)
      | (s, Some t) \<Rightarrow> do {
          s \<leftarrow> TCB_Q_changeState s t TCB_USED;
          Some (s\<lparr>time_out := (time_out s)(t := 0)\<rparr>, Some t) })"

text \<open>\<open>free_thread\<close>, its effect on the thread table.  The test is on \<open>t\<close>, but the name \<open>thread\<close> in the
  branch is the table itself, that is, its first entry.\<close>

definition free_thread :: "ksched \<Rightarrow> nat \<Rightarrow> ksched option" where
  "free_thread s t = do {
     s \<leftarrow> (if wait_chan_entry s t \<noteq> None then do {
            ASSERT (t_state s 0 = TCB_SLEEPING);
            Some (s\<lparr>wait_chan_entry := (wait_chan_entry s)(0 := None)\<rparr>) }
          else Some s);
     let s = s\<lparr>t_killed := (t_killed s)(t := False)\<rparr>;
     TCB_Q_changeState s t TCB_UNUSED }"

text \<open>The end of \<open>do_exit\<close>: the running thread frees its own entry and leaves the CPU.\<close>

definition do_exit :: "ksched \<Rightarrow> nat \<Rightarrow> nat \<Rightarrow> uint64 \<Rightarrow> ksched option" where
  "do_exit s c noff rdtime = do {
     t \<leftarrow> cpu_thread s c;
     s \<leftarrow> free_thread s t;
     thread_sched s c (noff + 1) rdtime }"

text \<open>The thread of \<open>create_thread\<close> becomes runnable; a full table is a panic.\<close>

definition create_thread :: "ksched \<Rightarrow> (ksched \<times> nat) option" where
  "create_thread s = do {
     (s, r) \<leftarrow> alloc_thread s;
     t \<leftarrow> r;
     s \<leftarrow> TCB_Q_changeState s t TCB_RUNNABLE;
     Some (s, t) }"

definition thread_setkilled :: "ksched \<Rightarrow> nat \<Rightarrow> ksched" where
  "thread_setkilled s t = s\<lparr>t_killed := (t_killed s)(t := True)\<rparr>"

definition SIGKILL :: nat where "SIGKILL = 9"
definition SIGSTOP :: nat where "SIGSTOP = 17"

text \<open>\<open>thread_send_signal\<close> after queueing the signal: a sleeping thread is woken.\<close>

definition thread_send_signal :: "ksched \<Rightarrow> nat \<Rightarrow> nat \<Rightarrow> ksched option" where
  "thread_send_signal s t signo = do {
     s \<leftarrow> (if t_state s t = TCB_SLEEPING then thread_wakeup s t else Some s);
     Some (if signo = SIGKILL \<or> signo = SIGSTOP then s\<lparr>t_killed := (t_killed s)(t := True)\<rparr> else s) }"

subsection \<open>\<open>futex.c\<close>\<close>

text \<open>\<open>get_futex\<close>: a new futex gets a fresh wait queue.\<close>

definition get_futex :: "ksched \<Rightarrow> nat \<Rightarrow> bool \<Rightarrow> ksched \<times> nat option" where
  "get_futex s uaddr assert =
     (case futex_map s uaddr of
        Some w \<Rightarrow> (s, Some w)
      | None \<Rightarrow>
          if assert then (s, None)
          else let w = next_wq s;
                   s = Queue_init s (WQ w)
               in (s\<lparr>futex_map := (futex_map s)(uaddr \<mapsto> w), next_wq := w + 1\<rparr>, Some w))"

text \<open>The futex, and with it its wait queue, is freed by \<open>hash_delete\<close>.\<close>

definition futex_free :: "ksched \<Rightarrow> nat \<Rightarrow> ksched" where
  "futex_free s uaddr =
     (case futex_map s uaddr of
        None \<Rightarrow> s
      | Some w \<Rightarrow> s\<lparr>futex_map := (futex_map s)(uaddr := None), freed_wq := (freed_wq s)(w := True)\<rparr>)"

text \<open>\<open>futex_wait\<close> with \<open>u_val\<close> the result of \<open>copyin\<close> and \<open>ts\<close> the time-out in nanoseconds; \<open>Inl\<close> returns at once,
  \<open>Inr\<close> has gone to sleep.\<close>

definition futex_wait ::
  "ksched \<Rightarrow> nat \<Rightarrow> nat \<Rightarrow> uint option \<Rightarrow> uint \<Rightarrow> uint64 option \<Rightarrow> nat \<Rightarrow> uint64 \<Rightarrow> (ksched \<times> (int + unit)) option" where
  "futex_wait s c uaddr u_val val ts noff rdtime =
     (case u_val of
        None \<Rightarrow> Some (s, Inl (-1))
      | Some u \<Rightarrow>
          if u = val then do {
            let (s, fp) = get_futex s uaddr False;
            w \<leftarrow> fp;
            s \<leftarrow> sleep_on s c w ts (noff + 1) rdtime;
            Some (s, Inr ()) }
          else Some (s, Inl 0))"

text \<open>What \<open>futex_wait\<close> returns when the thread runs again.\<close>

definition futex_wait_resume :: "ksched \<Rightarrow> nat \<Rightarrow> uint64 option \<Rightarrow> ksched \<times> int" where
  "futex_wait_resume s t ts =
     (let (s, ret) = thread_sched_resume s t
      in (s, if ts \<noteq> None then (if ret then -1 else 0) else 0))"

fun futex_wake_loop :: "nat \<Rightarrow> ksched \<Rightarrow> nat \<Rightarrow> int \<Rightarrow> int \<Rightarrow> (ksched \<times> int) option" where
  "futex_wake_loop 0 s w ret nr_wake = None"
| "futex_wake_loop (Suc fuel) s w ret nr_wake =
     (if \<not> Queue_isempty s (WQ w) \<and> ret < nr_wake
      then Option.bind (wake_first s w) (\<lambda>s. futex_wake_loop fuel s w (ret + 1) nr_wake)
      else Some (s, ret))"

definition futex_wakeup :: "ksched \<Rightarrow> nat \<Rightarrow> int \<Rightarrow> (ksched \<times> int) option" where
  "futex_wakeup s uaddr nr_wake =
     (case get_futex s uaddr True of
        (s, None) \<Rightarrow> Some (s, 0)
      | (s, Some w) \<Rightarrow> do {
          (s, ret) \<leftarrow> futex_wake_loop (Suc (length (qlist s (WQ w)))) s w 0 nr_wake;
          Some (if Queue_isempty s (WQ w) then futex_free s uaddr else s, ret) })"

fun requeue_loop :: "nat \<Rightarrow> ksched \<Rightarrow> nat \<Rightarrow> nat \<Rightarrow> int \<Rightarrow> int \<Rightarrow> (ksched \<times> int) option" where
  "requeue_loop 0 s w1 w2 ret nr_requeue = None"
| "requeue_loop (Suc fuel) s w1 w2 ret nr_requeue =
     (if \<not> Queue_isempty s (WQ w1) \<and> ret < nr_requeue
      then do {
        let (s, r) = Queue_provide_atomic s (WQ w1) True;
        t \<leftarrow> r;
        ASSERT (t_state s t = TCB_SLEEPING);
        s \<leftarrow> Queue_push_back_atomic s (WQ w2) t;
        requeue_loop fuel s w1 w2 (ret + 1) nr_requeue }
      else Some (s, ret))"

text \<open>The loop ends after \<open>nr_requeue\<close> turns even if a futex is requeued onto itself.\<close>

definition futex_requeue :: "ksched \<Rightarrow> nat \<Rightarrow> int \<Rightarrow> nat \<Rightarrow> int \<Rightarrow> (ksched \<times> int) option" where
  "futex_requeue s uaddr1 nr_wake uaddr2 nr_requeue = do {
     (s, _) \<leftarrow> futex_wakeup s uaddr1 nr_wake;
     case get_futex s uaddr1 True of
       (s, None) \<Rightarrow> Some (s, 0)
     | (s, Some w1) \<Rightarrow> do {
         let (s, fp_new) = get_futex s uaddr2 False;
         w2 \<leftarrow> fp_new;
         (s, ret) \<leftarrow> requeue_loop (Suc (nat nr_requeue)) s w1 w2 0 nr_requeue;
         Some (if Queue_isempty s (WQ w1) then futex_free s uaddr1 else s, ret) } }"

definition FUTEX_CMD_MASK :: uint where "FUTEX_CMD_MASK = NOT (128 OR 256)"

definition do_futex ::
  "ksched \<Rightarrow> nat \<Rightarrow> nat \<Rightarrow> uint \<Rightarrow> uint option \<Rightarrow> uint \<Rightarrow> uint64 option \<Rightarrow> nat \<Rightarrow> uint \<Rightarrow> nat \<Rightarrow> uint64 \<Rightarrow> (ksched \<times> (int + unit)) option" where
  "do_futex s c uaddr op u_val val ts uaddr2 val2 noff rdtime =
     (let cmd = op AND FUTEX_CMD_MASK
      in if cmd = 0 then futex_wait s c uaddr u_val val ts noff rdtime
         else if cmd = 1 then map_option (\<lambda>(s, r). (s, Inl r)) (futex_wakeup s uaddr (sint val))
         else if cmd = 3 then map_option (\<lambda>(s, r). (s, Inl r)) (futex_requeue s uaddr (sint val) uaddr2 (sint val2))
         else None)"

subsection \<open>\<open>do_exit_group\<close>\<close>

text \<open>The threads of the group other than the caller, with their \<open>clear_child_tid\<close>: \<open>exit_wakeup\<close>, where \<open>copy_ok\<close> is the
  outcome of its \<open>copyout\<close>, and \<open>free_thread\<close>.\<close>

fun exit_group_loop :: "(nat \<times> nat) list \<Rightarrow> bool \<Rightarrow> ksched \<Rightarrow> ksched option" where
  "exit_group_loop [] copy_ok s = Some s"
| "exit_group_loop ((t, ctid) # ts) copy_ok s = do {
     s \<leftarrow> (if ctid \<noteq> 0 then do {
            ASSERT copy_ok;
            (s, _) \<leftarrow> futex_wakeup s ctid 1;
            Some s }
          else Some s);
     s \<leftarrow> free_thread s t;
     exit_group_loop ts copy_ok s }"

definition do_exit_group :: "ksched \<Rightarrow> nat \<Rightarrow> (nat \<times> nat) list \<Rightarrow> bool \<Rightarrow> ksched option" where
  "do_exit_group s c tg_threads copy_ok = do {
     caller \<leftarrow> cpu_thread s c;
     exit_group_loop (filter (\<lambda>e. fst e \<noteq> caller) tg_threads) copy_ok s }"

subsection \<open>Invariant\<close>

text \<open>\<open>links_ok\<close>: a node is in a list exactly if its location says so.  \<open>states_ok n\<close>: every one of the \<open>n\<close> threads is
  in the queue of its state and in no other, or running on exactly one CPU; the sleeping threads are
  exactly those in a wait queue or taken off one by a waker, and exactly those with a wait channel.\<close>

definition links_ok :: "ksched \<Rightarrow> bool" where
  "links_ok s \<longleftrightarrow> (\<forall>q. distinct (qlist s q)) \<and>
     (\<forall>q t. t \<in> set (qlist s q) \<longleftrightarrow> loc s (q_type q) t = Some q) \<and>
     (\<forall>ty t q. loc s ty t = Some q \<longrightarrow> q_type q = ty)"

definition home :: "thread_state \<Rightarrow> qid option" where
  "home st = (if st = TCB_RUNNING then None else Some (TQ st))"

definition states_ok :: "nat \<Rightarrow> ksched \<Rightarrow> bool" where
  "states_ok n s \<longleftrightarrow>
     (\<forall>t<n. loc s TCB_STATE_QUEUE t = home (t_state s t)) \<and>
     (\<forall>t\<ge>n. loc s TCB_STATE_QUEUE t = None \<and> loc s TCB_WAIT_QUEUE t = None \<and> wait_chan_entry s t = None \<and> \<not> taken s t) \<and>
     (\<forall>t<n. loc s TCB_WAIT_QUEUE t \<noteq> None \<longleftrightarrow> t_state s t = TCB_SLEEPING \<and> \<not> taken s t) \<and>
     (\<forall>t<n. taken s t \<longrightarrow> t_state s t = TCB_SLEEPING) \<and>
     (\<forall>t<n. wait_chan_entry s t \<noteq> None \<longleftrightarrow> t_state s t = TCB_SLEEPING) \<and>
     (\<forall>t<n. t_state s t = TCB_RUNNING \<longleftrightarrow> (\<exists>c. cpu_thread s c = Some t)) \<and>
     (\<forall>c t. cpu_thread s c = Some t \<longrightarrow> t < n) \<and>
     (\<forall>c c' t. cpu_thread s c = Some t \<longrightarrow> cpu_thread s c' = Some t \<longrightarrow> c = c')"

definition futex_ok :: "ksched \<Rightarrow> bool" where
  "futex_ok s \<longleftrightarrow> (\<forall>w\<ge>next_wq s. qlist s (WQ w) = []) \<and> (\<forall>a w. futex_map s a = Some w \<longrightarrow> w < next_wq s)"

definition sched_inv :: "nat \<Rightarrow> ksched \<Rightarrow> bool" where
  "sched_inv n s \<longleftrightarrow> links_ok s \<and> states_ok n s \<and> futex_ok s"

lemma links_okD:
  assumes "links_ok s"
  shows "distinct (qlist s q)" "t \<in> set (qlist s q) \<longleftrightarrow> loc s (q_type q) t = Some q"
    "loc s ty t = Some q \<Longrightarrow> q_type q = ty"
  using assms unfolding links_ok_def by blast+

subsection \<open>Effect of the queue operations\<close>

lemma Queue_remove_sel [simp]:
  "t_state (Queue_remove s t ty) = t_state s" "p_state (Queue_remove s t ty) = p_state s"
  "wait_chan_entry (Queue_remove s t ty) = wait_chan_entry s" "t_killed (Queue_remove s t ty) = t_killed s"
  "cpu_thread (Queue_remove s t ty) = cpu_thread s" "futex_map (Queue_remove s t ty) = futex_map s"
  "next_wq (Queue_remove s t ty) = next_wq s" "freed_wq (Queue_remove s t ty) = freed_wq s" "taken (Queue_remove s t ty) = taken s"
  "loc (Queue_remove s t ty) = (loc s)(ty := (loc s ty)(t := None))"
  by (auto simp: Queue_remove_def fun_eq_iff split: option.splits)

lemma Queue_remove_qlist:
  assumes "links_ok s"
  shows "qlist (Queue_remove s t ty) q = (if q_type q = ty then remove1 t (qlist s q) else qlist s q)"
proof (cases "loc s ty t")
  case None
  then have "q_type q = ty \<Longrightarrow> t \<notin> set (qlist s q)"
    using links_okD(2) [OF assms] by auto
  then show ?thesis using None by (simp add: Queue_remove_def remove1_idem)
next
  case (Some q')
  then have "q \<noteq> q' \<Longrightarrow> q_type q = ty \<Longrightarrow> t \<notin> set (qlist s q)"
    using links_okD(2) [OF assms] by auto
  then show ?thesis
    using Some links_okD(3) [OF assms Some] by (auto simp: Queue_remove_def remove1_idem)
qed

lemma Queue_remove_links:
  assumes l: "links_ok s"
  shows "links_ok (Queue_remove s t ty)"
  unfolding links_ok_def
proof (intro conjI allI impI)
  note D = links_okD [OF l] and Q = Queue_remove_qlist [OF l]
  fix q x
  show "distinct (qlist (Queue_remove s t ty) q)"
    using D(1) by (simp add: Q)
  show "x \<in> set (qlist (Queue_remove s t ty) q) \<longleftrightarrow> loc (Queue_remove s t ty) (q_type q) x = Some q"
    using D(1) [of q] D(2) [of x q] by (cases "q_type q = ty") (auto simp: Q set_remove1_eq)
  fix ty' assume "loc (Queue_remove s t ty) ty' x = Some q"
  then show "q_type q = ty'"
    using D(3) [of ty' x q] by (auto split: if_splits)
qed

lemma Queue_push_back_links:
  assumes l: "links_ok s" and n: "loc s (q_type q) t = None"
  shows "\<exists>s'. Queue_push_back s q t = Some s' \<and> links_ok s' \<and>
    s' = s\<lparr>qlist := (qlist s)(q := qlist s q @ [t]), loc := (loc s)(q_type q := (loc s (q_type q))(t \<mapsto> q))\<rparr>"
proof -
  have "t \<notin> set (qlist s q)"
    using links_okD(2) [OF l] n by simp
  then show ?thesis
    using l n unfolding links_ok_def Queue_push_back_def by (auto split: if_splits)
qed

text \<open>\<open>moved t new s s'\<close>: what \<open>TCB_Q_changeState\<close> does.\<close>

definition moved :: "nat \<Rightarrow> thread_state \<Rightarrow> ksched \<Rightarrow> ksched \<Rightarrow> bool" where
  "moved t new s s' \<longleftrightarrow> links_ok s' \<and> t_state s' = (t_state s)(t := new) \<and>
     loc s' = (loc s)(TCB_STATE_QUEUE := (loc s TCB_STATE_QUEUE)(t \<mapsto> TQ new)) \<and>
     wait_chan_entry s' = wait_chan_entry s \<and> t_killed s' = t_killed s \<and> cpu_thread s' = cpu_thread s \<and>
     futex_map s' = futex_map s \<and> next_wq s' = next_wq s \<and> p_state s' = p_state s \<and> freed_wq s' = freed_wq s \<and> taken s' = taken s \<and>
     (\<forall>w. qlist s' (WQ w) = qlist s (WQ w)) \<and> qlist s' (TQ new) = remove1 t (qlist s (TQ new)) @ [t]"

lemma TCB_Q_changeState_moved:
  assumes l: "links_ok s" and new: "new \<noteq> TCB_RUNNING"
  shows "\<exists>s'. TCB_Q_changeState s t new = Some s' \<and> moved t new s s'"
proof -
  let ?s1 = "Queue_remove s t TCB_STATE_QUEUE"
  have l1: "links_ok ?s1" "loc ?s1 (q_type (TQ new)) t = None"
    using Queue_remove_links [OF l] by simp_all
  obtain s2 where s2: "Queue_push_back ?s1 (TQ new) t = Some s2" "links_ok s2"
    "s2 = ?s1\<lparr>qlist := (qlist ?s1)(TQ new := qlist ?s1 (TQ new) @ [t]),
              loc := (loc ?s1)(q_type (TQ new) := (loc ?s1 (q_type (TQ new)))(t \<mapsto> TQ new))\<rparr>"
    using Queue_push_back_links [OF l1] by blast
  let ?s3 = "s2\<lparr>t_state := (t_state s2)(t := new)\<rparr>"
  have "TCB_Q_changeState s t new = Some ?s3"
    using s2(1) new by (simp add: TCB_Q_changeState_def Queue_remove_atomic_def Queue_push_back_atomic_def)
  moreover have "links_ok ?s3"
    using s2(2) by (simp add: links_ok_def)
  moreover have "moved t new s ?s3"
    using \<open>links_ok ?s3\<close> unfolding moved_def s2(3) by (simp add: Queue_remove_qlist [OF l])
  ultimately show ?thesis by blast
qed

subsection \<open>Every operation keeps the invariant and none panics\<close>

lemma states_okD:
  assumes "states_ok n s"
  shows "t < n \<Longrightarrow> loc s TCB_STATE_QUEUE t = home (t_state s t)"
    "n \<le> t \<Longrightarrow> loc s TCB_STATE_QUEUE t = None" "n \<le> t \<Longrightarrow> loc s TCB_WAIT_QUEUE t = None"
    "t < n \<Longrightarrow> loc s TCB_WAIT_QUEUE t \<noteq> None \<longleftrightarrow> t_state s t = TCB_SLEEPING \<and> \<not> taken s t"
    "t < n \<Longrightarrow> wait_chan_entry s t \<noteq> None \<longleftrightarrow> t_state s t = TCB_SLEEPING"
    "t < n \<Longrightarrow> t_state s t = TCB_RUNNING \<longleftrightarrow> (\<exists>c. cpu_thread s c = Some t)"
    "cpu_thread s c = Some t \<Longrightarrow> t < n"
    "cpu_thread s c = Some t \<Longrightarrow> cpu_thread s c' = Some t \<Longrightarrow> c = c'"
    "n \<le> t \<Longrightarrow> wait_chan_entry s t = None" "taken s t \<Longrightarrow> t < n" "taken s t \<Longrightarrow> t_state s t = TCB_SLEEPING"
  using assms unfolding states_ok_def by (simp, blast, blast, blast, blast, blast, blast, blast, blast, metis leI, metis leI)

lemma states_ok_change:
  assumes ok: "states_ok n s" and t: "t < n"
    and "t_state s' = (t_state s)(t := st)"
    and "loc s' TCB_STATE_QUEUE = (loc s TCB_STATE_QUEUE)(t := home st)"
    and "loc s' TCB_WAIT_QUEUE = (loc s TCB_WAIT_QUEUE)(t := wl)" "wl \<noteq> None \<longleftrightarrow> st = TCB_SLEEPING"
    and "wait_chan_entry s' = (wait_chan_entry s)(t := wc)" "wc \<noteq> None \<longleftrightarrow> st = TCB_SLEEPING"
    and tk: "taken s' = (taken s)(t := False)"
    and cpu: "\<And>c x. x \<noteq> t \<Longrightarrow> cpu_thread s' c = Some x \<longleftrightarrow> cpu_thread s c = Some x"
      "st = TCB_RUNNING \<longleftrightarrow> (\<exists>c. cpu_thread s' c = Some t)"
      "\<And>c c'. cpu_thread s' c = Some t \<Longrightarrow> cpu_thread s' c' = Some t \<Longrightarrow> c = c'"
  shows "states_ok n s'"
proof -
  note D = states_okD [OF ok]
  have "loc s' TCB_STATE_QUEUE x = home (t_state s' x)" "loc s' TCB_WAIT_QUEUE x \<noteq> None \<longleftrightarrow> t_state s' x = TCB_SLEEPING \<and> \<not> taken s' x"
    "taken s' x \<longrightarrow> t_state s' x = TCB_SLEEPING"
    "wait_chan_entry s' x \<noteq> None \<longleftrightarrow> t_state s' x = TCB_SLEEPING"
    "t_state s' x = TCB_RUNNING \<longleftrightarrow> (\<exists>c. cpu_thread s' c = Some x)" if "x < n" for x
    using D(1,4,5,6) [OF that] D(11) [of x] assms(3-8) tk cpu by (cases "x = t"; simp)+
  moreover have "loc s' TCB_STATE_QUEUE x = None \<and> loc s' TCB_WAIT_QUEUE x = None \<and> wait_chan_entry s' x = None \<and> \<not> taken s' x" if "n \<le> x" for x
    using D(2,3,9) [OF that] D(10) [of x] t that assms(4,5,7) tk by auto
  moreover have "x < n" if "cpu_thread s' c = Some x" for c x
    using D(7) [of c x] cpu(1) [of x c] that t by (cases "x = t") auto
  moreover have "c = c'" if "cpu_thread s' c = Some x" "cpu_thread s' c' = Some x" for c c' x
    using D(8) [of c x c'] cpu(1) [of x c] cpu(1) [of x c'] cpu(3) that by (cases "x = t") auto
  ultimately show ?thesis
    unfolding states_ok_def by (intro conjI allI impI) (simp_all | blast)+
qed

lemma not_taken:
  assumes "states_ok n s" "t_state s t \<noteq> TCB_SLEEPING"
  shows "(taken s)(t := False) = taken s"
  using states_okD(11) [OF assms(1)] assms(2) by (auto simp: fun_eq_iff)

lemma cpu_drop:
  assumes "states_ok n s" "cpu_thread s c = Some t"
  shows "x \<noteq> t \<Longrightarrow> ((cpu_thread s)(c := None)) c' = Some x \<longleftrightarrow> cpu_thread s c' = Some x"
    "((cpu_thread s)(c := None)) c' \<noteq> Some t"
proof -
  show "((cpu_thread s)(c := None)) c' = Some x \<longleftrightarrow> cpu_thread s c' = Some x" if "x \<noteq> t"
    using that assms(2) by (cases "c' = c") auto
  show "((cpu_thread s)(c := None)) c' \<noteq> Some t"
    using states_okD(8) [OF assms(1,2), of c'] by (cases "c' = c") auto
qed

definition sched_timers :: "ksched \<Rightarrow> nat \<Rightarrow> uint64 \<Rightarrow> timer_list list" where
  "sched_timers s t rdtime = (if (ucast (time_out s t) :: uint) \<noteq> 0
     then add_timer_atomic rdtime \<lparr>timer_addr = t, expires = 0, expires_end = 0, timer_data = 0, timer_count = 1, interval = 0\<rparr>
            (time_out s t) t (timers s)
     else timers s)"

lemma thread_sched_eq:
  assumes "cpu_thread s c = Some t" "t_state s t \<noteq> TCB_RUNNING"
  shows "thread_sched s c 1 rdtime = Some (s\<lparr>timers := sched_timers s t rdtime, cpu_thread := (cpu_thread s)(c := None)\<rparr>)"
  using assms by (simp add: thread_sched_def sched_timers_def Let_def)

lemma sleep_on_inv:
  assumes inv: "sched_inv n s" and cur: "cpu_thread s c = Some t" and w: "w < next_wq s"
  shows "\<exists>s'. sleep_on s c w tmo 1 rdtime = Some s' \<and> sched_inv n s' \<and> t_state s' = (t_state s)(t := TCB_SLEEPING) \<and>
    qlist s' (WQ w) = qlist s (WQ w) @ [t] \<and> (\<forall>v. v \<noteq> w \<longrightarrow> qlist s' (WQ v) = qlist s (WQ v)) \<and>
    wait_chan_entry s' t = Some w \<and> cpu_thread s' = (cpu_thread s)(c := None) \<and> futex_map s' = futex_map s \<and> next_wq s' = next_wq s"
proof -
  have I: "links_ok s" "states_ok n s" "futex_ok s"
    using inv by (simp_all add: sched_inv_def)
  note D = states_okD [OF I(2)]
  have t: "t < n" "t_state s t = TCB_RUNNING"
    using D(6,7) cur by blast+
  obtain s1 where s1: "TCB_Q_changeState s t TCB_SLEEPING = Some s1" "moved t TCB_SLEEPING s s1"
    using TCB_Q_changeState_moved [OF I(1), of TCB_SLEEPING t] by auto
  have M: "links_ok s1" "t_state s1 = (t_state s)(t := TCB_SLEEPING)"
    "loc s1 = (loc s)(TCB_STATE_QUEUE := (loc s TCB_STATE_QUEUE)(t \<mapsto> TQ TCB_SLEEPING))"
    "wait_chan_entry s1 = wait_chan_entry s" "cpu_thread s1 = cpu_thread s" "futex_map s1 = futex_map s" "next_wq s1 = next_wq s"
    "\<And>w. qlist s1 (WQ w) = qlist s (WQ w)" "taken s1 = taken s"
    using s1(2) by (simp_all add: moved_def)
  have nt: "(taken s)(t := False) = taken s" using not_taken [OF I(2)] t(2) by simp
  have "loc s1 (q_type (WQ w)) t = None"
    using D(4) [OF t(1)] t(2) M(3) by simp
  from Queue_push_back_links [OF M(1) this] obtain s2 where
    s2: "Queue_push_back s1 (WQ w) t = Some s2" "links_ok s2"
      "s2 = s1\<lparr>qlist := (qlist s1)(WQ w := qlist s1 (WQ w) @ [t]),
               loc := (loc s1)(q_type (WQ w) := (loc s1 (q_type (WQ w)))(t \<mapsto> WQ w))\<rparr>"
    by blast
  let ?tm = "case tmo of None \<Rightarrow> time_out s2 | Some ns \<Rightarrow> (time_out s2)(t := ns)"
  let ?s2' = "s2\<lparr>time_out := ?tm, wait_chan_entry := (wait_chan_entry s2)(t := Some w)\<rparr>"
  let ?s3 = "?s2'\<lparr>timers := sched_timers ?s2' t rdtime, cpu_thread := (cpu_thread s2)(c := None)\<rparr>"
  have "thread_sched ?s2' c 1 rdtime = Some ?s3"
    using thread_sched_eq [of ?s2' c t rdtime] cur M s2(3) by simp
  then have run: "sleep_on s c w tmo 1 rdtime = Some ?s3"
    using cur s1(1) s2(1) by (cases tmo) (simp_all add: sleep_on_def)
  have "states_ok n ?s3"
    by (rule states_ok_change [OF I(2) t(1), of _ TCB_SLEEPING "Some (WQ w)" "Some w"])
      (use M s2(3) cpu_drop [OF I(2) cur] nt in \<open>auto simp: home_def\<close>)
  moreover have "links_ok ?s3"
    using s2(2) by (simp add: links_ok_def)
  moreover have "futex_ok ?s3"
    using I(3) M w s2(3) by (simp add: futex_ok_def)
  ultimately show ?thesis
    using run M s2(3) by (auto simp: sched_inv_def)
qed

lemma sched_invD:
  assumes "sched_inv n s"
  shows "links_ok s" "states_ok n s" "futex_ok s"
  using assms by (simp_all add: sched_inv_def)

lemma futex_ok_moved: "futex_ok s \<Longrightarrow> moved t st s s' \<Longrightarrow> futex_ok s'"
  by (simp add: futex_ok_def moved_def)

text \<open>A sleeping thread becomes runnable: it leaves its wait queue, if it is still in one, loses its channel and is no
  longer taken.\<close>

lemma awaken:
  assumes inv: "sched_inv n s" and t: "t < n" "t_state s t = TCB_SLEEPING"
    and s2: "s2 = (Queue_remove s t TCB_WAIT_QUEUE)\<lparr>wait_chan_entry := (wait_chan_entry s)(t := None)\<rparr>"
  shows "\<exists>s'. TCB_Q_changeState s2 t TCB_RUNNABLE = Some s' \<and> sched_inv n (s'\<lparr>taken := (taken s)(t := False)\<rparr>) \<and>
    t_state s' = (t_state s)(t := TCB_RUNNABLE) \<and> (\<forall>v. qlist s' (WQ v) = remove1 t (qlist s (WQ v))) \<and>
    qlist s' (TQ TCB_RUNNABLE) = qlist s (TQ TCB_RUNNABLE) @ [t] \<and> wait_chan_entry s' = (wait_chan_entry s)(t := None) \<and>
    cpu_thread s' = cpu_thread s \<and> futex_map s' = futex_map s \<and> next_wq s' = next_wq s \<and> t_killed s' = t_killed s \<and>
    taken s' = taken s \<and> freed_wq s' = freed_wq s"
proof -
  note I = sched_invD [OF inv]
  note D = states_okD [OF I(2)]
  have l2: "links_ok s2"
    using Queue_remove_links [OF I(1)] by (simp add: s2 links_ok_def)
  obtain s' where s': "TCB_Q_changeState s2 t TCB_RUNNABLE = Some s'" "moved t TCB_RUNNABLE s2 s'"
    using TCB_Q_changeState_moved [OF l2, of TCB_RUNNABLE t] by auto
  have "t \<notin> set (qlist s (TQ TCB_RUNNABLE))"
    using links_okD(2) [OF I(1)] D(1) [OF t(1)] t(2) by (simp add: home_def)
  then have M: "links_ok s'" "t_state s' = (t_state s)(t := TCB_RUNNABLE)"
    "loc s' = (loc s)(TCB_WAIT_QUEUE := (loc s TCB_WAIT_QUEUE)(t := None), TCB_STATE_QUEUE := (loc s TCB_STATE_QUEUE)(t \<mapsto> TQ TCB_RUNNABLE))"
    "wait_chan_entry s' = (wait_chan_entry s)(t := None)" "cpu_thread s' = cpu_thread s" "futex_map s' = futex_map s" "next_wq s' = next_wq s"
    "\<And>v. qlist s' (WQ v) = remove1 t (qlist s (WQ v))" "qlist s' (TQ TCB_RUNNABLE) = qlist s (TQ TCB_RUNNABLE) @ [t]"
    "t_killed s' = t_killed s" "taken s' = taken s" "freed_wq s' = freed_wq s"
    using s'(2) by (simp_all add: s2 moved_def Queue_remove_qlist [OF I(1)] remove1_idem)
  let ?s = "s'\<lparr>taken := (taken s)(t := False)\<rparr>"
  have "\<nexists>c. cpu_thread s c = Some t"
    using D(6) [OF t(1)] t(2) by auto
  then have "states_ok n ?s"
    by (intro states_ok_change [OF I(2) t(1), of _ TCB_RUNNABLE None None]) (use M in \<open>auto simp: home_def\<close>)
  moreover have "futex_ok ?s" "links_ok ?s"
    using I(3) M by (auto simp: futex_ok_def links_ok_def)
  ultimately show ?thesis
    using s'(1) M by (auto simp: sched_inv_def)
qed

lemma wait_head:
  assumes inv: "sched_inv n s" and q: "t \<in> set (qlist s (WQ w))"
  shows "loc s TCB_WAIT_QUEUE t = Some (WQ w)" "t < n" "t_state s t = TCB_SLEEPING" "\<not> taken s t" "wait_chan_entry s t \<noteq> None"
    "(taken s)(t := False) = taken s"
proof -
  note I = sched_invD [OF inv]
  note D = states_okD [OF I(2)]
  show l: "loc s TCB_WAIT_QUEUE t = Some (WQ w)"
    using links_okD(2) [OF I(1), of t "WQ w"] q by simp
  then show t: "t < n"
    using D(3) [of t] by (metis leI option.distinct(1))
  show st: "t_state s t = TCB_SLEEPING" "\<not> taken s t"
    using D(4) [OF t] l by auto
  show "wait_chan_entry s t \<noteq> None"
    using D(5) [OF t] st by auto
  show "(taken s)(t := False) = taken s"
    using st(2) by (auto simp: fun_eq_iff)
qed

lemma taken_upd: "taken s' = taken s \<Longrightarrow> (taken s)(t := False) = taken s \<Longrightarrow> s'\<lparr>taken := (taken s)(t := False)\<rparr> = (s' :: ksched)"
  by simp

lemma wake_first_inv:
  assumes inv: "sched_inv n s" and q: "qlist s (WQ w) = t # ts"
  shows "\<exists>s'. wake_first s w = Some s' \<and> sched_inv n s' \<and> t_state s' = (t_state s)(t := TCB_RUNNABLE) \<and>
    qlist s' (WQ w) = ts \<and> (\<forall>v. v \<noteq> w \<longrightarrow> qlist s' (WQ v) = qlist s (WQ v)) \<and>
    qlist s' (TQ TCB_RUNNABLE) = qlist s (TQ TCB_RUNNABLE) @ [t] \<and> t < n \<and> t_state s t = TCB_SLEEPING \<and>
    wait_chan_entry s' = (wait_chan_entry s)(t := None) \<and> cpu_thread s' = cpu_thread s \<and> futex_map s' = futex_map s \<and> next_wq s' = next_wq s \<and>
    taken s' = taken s"
proof -
  note H = wait_head [OF inv, of t w, unfolded q list.set, OF insertI1]
  let ?s1 = "Queue_remove s t TCB_WAIT_QUEUE"
  let ?s2 = "?s1\<lparr>wait_chan_entry := (wait_chan_entry s)(t := None)\<rparr>"
  from awaken [OF inv H(2,3) refl] obtain s' where s': "TCB_Q_changeState ?s2 t TCB_RUNNABLE = Some s'"
    "sched_inv n (s'\<lparr>taken := (taken s)(t := False)\<rparr>)" "t_state s' = (t_state s)(t := TCB_RUNNABLE)"
    "\<forall>v. qlist s' (WQ v) = remove1 t (qlist s (WQ v))" "qlist s' (TQ TCB_RUNNABLE) = qlist s (TQ TCB_RUNNABLE) @ [t]"
    "wait_chan_entry s' = (wait_chan_entry s)(t := None)" "cpu_thread s' = cpu_thread s" "futex_map s' = futex_map s" "next_wq s' = next_wq s"
    "taken s' = taken s" by blast
  have run: "wake_first s w = Some s'"
    using q H(3,5) s'(1)
    by (simp add: wake_first_def wake_taken_def Queue_provide_atomic_def Queue_pop_def Queue_isempty_def queue_first_node_def)
  have "qlist s' (WQ v) = (if v = w then ts else qlist s (WQ v))" for v
    using s'(4) q H(1) links_okD(2) [OF sched_invD(1) [OF inv], of t "WQ v"] by (auto simp: remove1_idem)
  moreover have "sched_inv n s'"
    using s'(2) unfolding taken_upd [OF s'(10) H(6)] .
  ultimately show ?thesis
    using run s' H(2,3) by auto
qed

text \<open>The first half of a wake-up.\<close>

lemma take_inv:
  assumes inv: "sched_inv n s" and q: "qlist s (WQ w) = t # ts"
  shows "sched_inv n ((Queue_remove s t TCB_WAIT_QUEUE)\<lparr>taken := (taken s)(t := True)\<rparr>)"
proof -
  let ?s = "(Queue_remove s t TCB_WAIT_QUEUE)\<lparr>taken := (taken s)(t := True)\<rparr>"
  note I = sched_invD [OF inv] and H = wait_head [OF inv, of t w, unfolded q list.set, OF insertI1]
  have "states_ok n ?s"
    using I(2) H(2,3) unfolding states_ok_def by auto
  moreover have "links_ok ?s"
    using Queue_remove_links [OF I(1)] by (simp add: links_ok_def)
  moreover have "futex_ok ?s"
    using I(3) by (simp add: futex_ok_def Queue_remove_qlist [OF I(1)])
  ultimately show ?thesis by (simp add: sched_inv_def)
qed

text \<open>The second half.\<close>

lemma wake_taken_inv:
  assumes inv: "sched_inv n s" and t: "taken s t"
  shows "\<exists>s'. wake_taken s t = Some s' \<and> sched_inv n (s'\<lparr>taken := (taken s)(t := False)\<rparr>) \<and> taken s' = taken s \<and>
    t_state s' = (t_state s)(t := TCB_RUNNABLE) \<and> (\<forall>v. qlist s' (WQ v) = qlist s (WQ v)) \<and>
    qlist s' (TQ TCB_RUNNABLE) = qlist s (TQ TCB_RUNNABLE) @ [t]"
proof -
  note I = sched_invD [OF inv]
  note D = states_okD [OF I(2)]
  have st: "t < n" "t_state s t = TCB_SLEEPING" "loc s TCB_WAIT_QUEUE t = None" "wait_chan_entry s t \<noteq> None"
    using D(10,11) [OF t] D(4,5) [of t] t by auto
  have r: "Queue_remove s t TCB_WAIT_QUEUE = s"
    using st(3) by (simp add: Queue_remove_def)
  have "t \<notin> set (qlist s (WQ v))" for v
    using links_okD(2) [OF I(1), of t "WQ v"] st(3) by simp
  then show ?thesis
    using awaken [OF inv st(1,2) refl] st(2,4) by (auto simp: r wake_taken_def remove1_idem)
qed

lemma leave_cpu_inv:
  assumes inv: "sched_inv n s" and cur: "cpu_thread s c = Some t" and new: "new \<noteq> TCB_RUNNING" "new \<noteq> TCB_SLEEPING"
  shows "\<exists>s1 s'. TCB_Q_changeState s t new = Some s1 \<and> thread_sched s1 c 1 rdtime = Some s' \<and> sched_inv n s' \<and>
    t_state s' = (t_state s)(t := new) \<and> cpu_thread s' = (cpu_thread s)(c := None) \<and>
    qlist s' (TQ new) = qlist s (TQ new) @ [t]"
proof -
  note I = sched_invD [OF inv]
  note D = states_okD [OF I(2)]
  have t: "t < n" "t_state s t = TCB_RUNNING"
    using D(6,7) cur by blast+
  obtain s1 where s1: "TCB_Q_changeState s t new = Some s1" "moved t new s s1"
    using TCB_Q_changeState_moved [OF I(1), of new t] new by auto
  have nw: "loc s TCB_WAIT_QUEUE t = None" "wait_chan_entry s t = None"
    using D(4,5) [OF t(1)] t(2) by auto
  have "t \<notin> set (qlist s (TQ new))"
    using links_okD(2) [OF I(1)] D(1) [OF t(1)] t(2) by (simp add: home_def)
  then have M: "links_ok s1" "t_state s1 = (t_state s)(t := new)"
    "loc s1 = (loc s)(TCB_STATE_QUEUE := (loc s TCB_STATE_QUEUE)(t \<mapsto> TQ new))"
    "wait_chan_entry s1 = wait_chan_entry s" "cpu_thread s1 = cpu_thread s"
    "qlist s1 (TQ new) = qlist s (TQ new) @ [t]" "taken s1 = taken s"
    using s1(2) by (simp_all add: moved_def remove1_idem)
  have nt: "(taken s)(t := False) = taken s" using not_taken [OF I(2)] t(2) by simp
  let ?s2 = "s1\<lparr>timers := sched_timers s1 t rdtime, cpu_thread := (cpu_thread s1)(c := None)\<rparr>"
  have "thread_sched s1 c 1 rdtime = Some ?s2"
    using cur M new thread_sched_eq [of s1 c t rdtime] by simp
  moreover have "states_ok n ?s2"
    by (rule states_ok_change [OF I(2) t(1), of _ new None None])
      (use M nw new cpu_drop [OF I(2) cur] nt in \<open>auto simp: home_def\<close>)
  moreover have "links_ok ?s2" "futex_ok ?s2"
    using M(1) futex_ok_moved [OF I(3) s1(2)] by (simp_all add: links_ok_def futex_ok_def)
  ultimately show ?thesis
    using M s1(1) by (intro exI [of _ s1] exI [of _ ?s2]) (simp add: sched_inv_def)
qed

lemma thread_yield_inv:
  assumes "sched_inv n s" and "cpu_thread s c = Some t"
  shows "\<exists>s'. thread_yield s c 0 rdtime = Some s' \<and> sched_inv n s' \<and> t_state s' = (t_state s)(t := TCB_RUNNABLE) \<and>
    qlist s' (TQ TCB_RUNNABLE) = qlist s (TQ TCB_RUNNABLE) @ [t]"
  using leave_cpu_inv [OF assms, of TCB_RUNNABLE rdtime] assms(2) by (auto simp: thread_yield_def)

lemma sched_inv_irrelevant [simp]:
  "sched_inv n (s\<lparr>t_killed := k\<rparr>) = sched_inv n s" "sched_inv n (s\<lparr>time_out := tm\<rparr>) = sched_inv n s"
  "sched_inv n (s\<lparr>timers := l\<rparr>) = sched_inv n s" "sched_inv n (s\<lparr>freed_wq := f\<rparr>) = sched_inv n s"
  by (simp_all add: sched_inv_def links_ok_def states_ok_def futex_ok_def)

lemma do_exit_inv:
  assumes inv: "sched_inv n s" and cur: "cpu_thread s c = Some t"
  shows "\<exists>s'. do_exit s c 0 rdtime = Some s' \<and> sched_inv n s' \<and> t_state s' = (t_state s)(t := TCB_UNUSED) \<and>
    cpu_thread s' = (cpu_thread s)(c := None)"
proof -
  let ?s = "s\<lparr>t_killed := (t_killed s)(t := False)\<rparr>"
  note D = states_okD [OF sched_invD(2) [OF inv]]
  have "wait_chan_entry s t = None"
    using D(5,6,7) cur by (metis thread_state.distinct(19))
  then have "free_thread s t = TCB_Q_changeState ?s t TCB_UNUSED"
    by (simp add: free_thread_def)
  with leave_cpu_inv [of n ?s c t TCB_UNUSED rdtime] inv cur show ?thesis
    by (auto simp: do_exit_def)
qed

text \<open>A thread that neither runs nor sleeps changes its state; \<open>s1\<close> may already have unlinked it.\<close>

lemma relink_inv:
  assumes inv: "sched_inv n s" and t: "t < n" and st: "t_state s t \<noteq> TCB_RUNNING" "t_state s t \<noteq> TCB_SLEEPING"
    and new: "new \<noteq> TCB_RUNNING" "new \<noteq> TCB_SLEEPING" and s1: "s1 = s \<or> s1 = Queue_remove s t TCB_STATE_QUEUE"
  shows "\<exists>s'. TCB_Q_changeState s1 t new = Some s' \<and> sched_inv n s' \<and> t_state s' = (t_state s)(t := new) \<and>
    cpu_thread s' = cpu_thread s \<and> (\<forall>w. qlist s' (WQ w) = qlist s (WQ w)) \<and> next_wq s' = next_wq s \<and> taken s' = taken s"
proof -
  note I = sched_invD [OF inv]
  note D = states_okD [OF I(2)]
  have l1: "links_ok s1"
    using s1 I(1) Queue_remove_links by blast
  have S: "t_state s1 = t_state s" "wait_chan_entry s1 = wait_chan_entry s" "cpu_thread s1 = cpu_thread s" "futex_map s1 = futex_map s"
    "next_wq s1 = next_wq s" "loc s1 TCB_WAIT_QUEUE = loc s TCB_WAIT_QUEUE"
    "(loc s1 TCB_STATE_QUEUE)(t := x) = (loc s TCB_STATE_QUEUE)(t := x)" "qlist s1 (WQ w) = qlist s (WQ w)"
    "taken s1 = taken s" for x w
    using s1 by (auto simp: Queue_remove_qlist [OF I(1)])
  obtain s' where s': "TCB_Q_changeState s1 t new = Some s'" "moved t new s1 s'"
    using TCB_Q_changeState_moved [OF l1, of new t] new by auto
  have M: "links_ok s'" "t_state s' = (t_state s)(t := new)" "loc s' TCB_WAIT_QUEUE = loc s TCB_WAIT_QUEUE"
    "loc s' TCB_STATE_QUEUE = (loc s TCB_STATE_QUEUE)(t \<mapsto> TQ new)"
    "wait_chan_entry s' = wait_chan_entry s" "cpu_thread s' = cpu_thread s" "futex_map s' = futex_map s" "next_wq s' = next_wq s"
    "qlist s' (WQ w) = qlist s (WQ w)" "taken s' = taken s" for w
    using s'(2) S by (simp_all add: moved_def)
  have nt: "(taken s)(t := False) = taken s" using not_taken [OF I(2)] st(2) by simp
  have none: "loc s TCB_WAIT_QUEUE t = None" "wait_chan_entry s t = None" "\<And>c. cpu_thread s c \<noteq> Some t"
    using D(4,5,6) [OF t] st by auto
  have "states_ok n s'"
    by (rule states_ok_change [OF I(2) t, of _ new None None]) (use M none new nt in \<open>auto simp: home_def\<close>)
  moreover have "futex_ok s'"
    using I(3) M by (simp add: futex_ok_def)
  ultimately show ?thesis
    using s'(1) M by (simp add: sched_inv_def)
qed

text \<open>A thread is woken through its channel, whose queue's lock is taken: the queue must not have been freed.\<close>

lemma thread_wakeup_inv:
  assumes inv: "sched_inv n s" and t: "t < n" "t_state s t = TCB_SLEEPING" and w: "wait_chan_entry s t = Some w" "\<not> freed_wq s w"
  shows "\<exists>s'. thread_wakeup s t = Some s' \<and> (\<not> taken s t \<longrightarrow> sched_inv n s') \<and> t_state s' = (t_state s)(t := TCB_RUNNABLE) \<and>
    t_killed s' = t_killed s \<and> cpu_thread s' = cpu_thread s \<and> taken s' = taken s"
proof -
  let ?s2 = "(Queue_remove s t TCB_WAIT_QUEUE)\<lparr>wait_chan_entry := (wait_chan_entry s)(t := None)\<rparr>"
  from awaken [OF inv t refl] obtain s' where s': "TCB_Q_changeState ?s2 t TCB_RUNNABLE = Some s'"
    "sched_inv n (s'\<lparr>taken := (taken s)(t := False)\<rparr>)" "t_state s' = (t_state s)(t := TCB_RUNNABLE)"
    "t_killed s' = t_killed s" "cpu_thread s' = cpu_thread s" "taken s' = taken s" by blast
  moreover have "thread_wakeup s t = Some s'"
    using w t(2) s'(1) by (simp add: thread_wakeup_def Queue_remove_atomic_def)
  moreover have "sched_inv n s'" if "\<not> taken s t"
  proof -
    have "(taken s)(t := False) = taken s" using that by (auto simp: fun_eq_iff)
    from s'(2) [unfolded taken_upd [OF s'(6) this]] show ?thesis .
  qed
  ultimately show ?thesis by blast
qed

lemma thread_wakeup_freed:
  "wait_chan_entry s t = Some w \<Longrightarrow> freed_wq s w \<Longrightarrow> thread_wakeup s t = None"
  by (simp add: thread_wakeup_def Queue_remove_atomic_def)

lemma pop_remove:
  assumes "links_ok s" "qlist s q = t # ts"
  shows "Queue_provide_atomic s q True = (Queue_remove s t (q_type q), Some t)"
    "qlist (Queue_remove s t (q_type q)) q = ts"
    "\<And>q'. q' \<noteq> q \<Longrightarrow> qlist (Queue_remove s t (q_type q)) q' = qlist s q'"
proof -
  show "Queue_provide_atomic s q True = (Queue_remove s t (q_type q), Some t)" "qlist (Queue_remove s t (q_type q)) q = ts"
    using assms(2)
    by (simp_all add: Queue_provide_atomic_def Queue_pop_def Queue_isempty_def queue_first_node_def Queue_remove_qlist [OF assms(1)])
  have "loc s (q_type q) t = Some q"
    using links_okD(2) [OF assms(1), of t q] assms(2) by simp
  then show "\<And>q'. q' \<noteq> q \<Longrightarrow> qlist (Queue_remove s t (q_type q)) q' = qlist s q'"
    by (simp add: Queue_remove_def)
qed

lemma thread_scheduler_inv:
  assumes inv: "sched_inv n s" and idle: "cpu_thread s c = None"
  shows "sched_inv n (thread_scheduler s c)"
    "qlist s (TQ TCB_RUNNABLE) = t # ts \<Longrightarrow> cpu_thread (thread_scheduler s c) c = Some t \<and>
       t_state (thread_scheduler s c) t = TCB_RUNNING \<and> qlist (thread_scheduler s c) (TQ TCB_RUNNABLE) = ts"
    "qlist s (TQ TCB_RUNNABLE) = [] \<Longrightarrow> thread_scheduler s c = s"
proof -
  note I = sched_invD [OF inv]
  note D = states_okD [OF I(2)]
  show empty: "qlist s (TQ TCB_RUNNABLE) = [] \<Longrightarrow> thread_scheduler s c = s"
    by (simp add: thread_scheduler_def Queue_provide_atomic_def Queue_pop_def Queue_isempty_def)
  have run: "sched_inv n (thread_scheduler s c) \<and> cpu_thread (thread_scheduler s c) c = Some t \<and>
       t_state (thread_scheduler s c) t = TCB_RUNNING \<and> qlist (thread_scheduler s c) (TQ TCB_RUNNABLE) = ts"
    if q: "qlist s (TQ TCB_RUNNABLE) = t # ts" for t ts
  proof -
    note p = pop_remove [OF I(1) q]
    let ?s' = "(Queue_remove s t TCB_STATE_QUEUE)\<lparr>t_state := (t_state s)(t := TCB_RUNNING), cpu_thread := (cpu_thread s)(c := Some t)\<rparr>"
    have eq: "thread_scheduler s c = ?s'"
      using p(1) by (simp add: thread_scheduler_def)
    have lt: "loc s TCB_STATE_QUEUE t = Some (TQ TCB_RUNNABLE)"
      using links_okD(2) [OF I(1), of t "TQ TCB_RUNNABLE"] q by simp
    then have t: "t < n"
      using D(2) [of t] by (metis leI option.distinct(1))
    then have st: "t_state s t = TCB_RUNNABLE"
      using D(1) lt by (auto simp: home_def split: if_splits)
    have none: "loc s TCB_WAIT_QUEUE t = None" "wait_chan_entry s t = None" "\<And>c. cpu_thread s c \<noteq> Some t"
      using D(4,5,6) [OF t] st by auto
    have "states_ok n ?s'"
      by (rule states_ok_change [OF I(2) t, of _ TCB_RUNNING None None])
        (use none idle not_taken [OF I(2), of t] st in \<open>auto simp: home_def split: if_splits\<close>)
    moreover have "links_ok ?s'"
      using Queue_remove_links [OF I(1)] by (simp add: links_ok_def)
    moreover have "futex_ok ?s'"
      using I(3) p(3) by (simp add: futex_ok_def)
    ultimately show ?thesis
      using eq p(2) by (simp add: sched_inv_def)
  qed
  show "sched_inv n (thread_scheduler s c)"
    using run empty inv by (cases "qlist s (TQ TCB_RUNNABLE)") auto
  show "qlist s (TQ TCB_RUNNABLE) = t # ts \<Longrightarrow> cpu_thread (thread_scheduler s c) c = Some t \<and>
       t_state (thread_scheduler s c) t = TCB_RUNNING \<and> qlist (thread_scheduler s c) (TQ TCB_RUNNABLE) = ts"
    using run by blast
qed

lemma alloc_thread_inv:
  assumes inv: "sched_inv n s"
  shows "qlist s (TQ TCB_UNUSED) = [] \<Longrightarrow> alloc_thread s = Some (s, None)"
    "qlist s (TQ TCB_UNUSED) = t # ts \<Longrightarrow> \<exists>s'. alloc_thread s = Some (s', Some t) \<and> sched_inv n s' \<and>
       t < n \<and> t_state s t = TCB_UNUSED \<and> t_state s' = (t_state s)(t := TCB_USED) \<and> time_out s' t = 0 \<and> cpu_thread s' = cpu_thread s \<and>
       next_wq s' = next_wq s"
proof -
  note I = sched_invD [OF inv]
  note D = states_okD [OF I(2)]
  show "qlist s (TQ TCB_UNUSED) = [] \<Longrightarrow> alloc_thread s = Some (s, None)"
    by (simp add: alloc_thread_def Queue_provide_atomic_def Queue_pop_def Queue_isempty_def)
  assume q: "qlist s (TQ TCB_UNUSED) = t # ts"
  have lt: "loc s TCB_STATE_QUEUE t = Some (TQ TCB_UNUSED)"
    using links_okD(2) [OF I(1), of t "TQ TCB_UNUSED"] q by simp
  then have t: "t < n"
    using D(2) [of t] by (metis leI option.distinct(1))
  then have st: "t_state s t = TCB_UNUSED"
    using D(1) lt by (auto simp: home_def split: if_splits)
  obtain s' where "TCB_Q_changeState (Queue_remove s t TCB_STATE_QUEUE) t TCB_USED = Some s'" "sched_inv n s'"
    "t_state s' = (t_state s)(t := TCB_USED)" "cpu_thread s' = cpu_thread s" "next_wq s' = next_wq s"
    using relink_inv [OF inv t, of TCB_USED "Queue_remove s t TCB_STATE_QUEUE"] st by auto
  then show "\<exists>s'. alloc_thread s = Some (s', Some t) \<and> sched_inv n s' \<and>
       t < n \<and> t_state s t = TCB_UNUSED \<and> t_state s' = (t_state s)(t := TCB_USED) \<and> time_out s' t = 0 \<and> cpu_thread s' = cpu_thread s \<and>
       next_wq s' = next_wq s"
    using pop_remove(1) [OF I(1) q] t st by (simp add: alloc_thread_def)
qed

lemma create_thread_inv:
  assumes inv: "sched_inv n s" and q: "qlist s (TQ TCB_UNUSED) = t # ts"
  shows "\<exists>s'. create_thread s = Some (s', t) \<and> sched_inv n s' \<and> t_state s' = (t_state s)(t := TCB_RUNNABLE) \<and>
    next_wq s' = next_wq s"
proof -
  obtain s1 where s1: "alloc_thread s = Some (s1, Some t)" "sched_inv n s1" "t < n" "t_state s1 = (t_state s)(t := TCB_USED)"
    "next_wq s1 = next_wq s"
    using alloc_thread_inv(2) [OF inv q] by blast
  obtain s' where "TCB_Q_changeState s1 t TCB_RUNNABLE = Some s'" "sched_inv n s'" "t_state s' = (t_state s1)(t := TCB_RUNNABLE)"
    "next_wq s' = next_wq s1"
    using relink_inv [OF s1(2,3), of TCB_RUNNABLE s1] s1(4) by auto
  then show ?thesis
    using s1 by (simp add: create_thread_def)
qed

lemma thread_wakeup_atomic_eq: "thread_wakeup_atomic t s = thread_wakeup s t"
  by (simp add: thread_wakeup_atomic_def thread_wakeup_def)

lemma thread_send_signal_inv:
  assumes inv: "sched_inv n s" and t: "t < n" and w: "\<And>w. t_state s t = TCB_SLEEPING \<Longrightarrow> wait_chan_entry s t = Some w \<Longrightarrow> \<not> freed_wq s w"
  shows "\<exists>s'. thread_send_signal s t signo = Some s' \<and> (\<not> taken s t \<longrightarrow> sched_inv n s') \<and>
    (t_state s t = TCB_SLEEPING \<longrightarrow> t_state s' t = TCB_RUNNABLE) \<and>
    (t_killed s' t \<longleftrightarrow> t_killed s t \<or> signo = SIGKILL \<or> signo = SIGSTOP)"
proof (cases "t_state s t = TCB_SLEEPING")
  case True
  then obtain v where "wait_chan_entry s t = Some v"
    using states_okD(5) [OF sched_invD(2) [OF inv] t] by auto
  then show ?thesis
    using thread_wakeup_inv [OF inv t True] w [OF True] True
    by (cases "signo = SIGKILL \<or> signo = SIGSTOP") (auto simp: thread_send_signal_def)
next
  case False
  then show ?thesis
    using inv by (auto simp: thread_send_signal_def)
qed

lemma thread_send_signal_None:
  assumes inv: "sched_inv n s" and t: "t < n"
  shows "thread_send_signal s t signo = None \<longleftrightarrow> t_state s t = TCB_SLEEPING \<and> (\<exists>w. wait_chan_entry s t = Some w \<and> freed_wq s w)"
proof (cases "t_state s t = TCB_SLEEPING \<and> (\<exists>w. wait_chan_entry s t = Some w \<and> freed_wq s w)")
  case True
  then show ?thesis by (auto simp: thread_send_signal_def thread_wakeup_freed)
next
  case False
  then obtain s' where "thread_send_signal s t signo = Some s'"
    using thread_send_signal_inv [OF inv t] by blast
  then show ?thesis using False by simp
qed

subsection \<open>Boot\<close>

lemma tcb_init_loop_inv:
  assumes "links_ok s" "distinct ts" "\<And>t. t \<in> set ts \<Longrightarrow> loc s TCB_STATE_QUEUE t = None"
  shows "\<exists>s'. tcb_init_loop ts s = Some s' \<and> links_ok s' \<and> qlist s' = (qlist s)(TQ TCB_UNUSED := qlist s (TQ TCB_UNUSED) @ ts) \<and>
    t_state s' = (\<lambda>t. if t \<in> set ts then TCB_UNUSED else t_state s t) \<and>
    loc s' = (loc s)(TCB_STATE_QUEUE := \<lambda>t. if t \<in> set ts then Some (TQ TCB_UNUSED) else loc s TCB_STATE_QUEUE t) \<and>
    wait_chan_entry s' = wait_chan_entry s \<and> cpu_thread s' = cpu_thread s \<and> futex_map s' = futex_map s \<and> next_wq s' = next_wq s \<and>
    taken s' = taken s"
  using assms
proof (induction ts arbitrary: s)
  case (Cons t ts)
  let ?s = "s\<lparr>t_state := (t_state s)(t := TCB_UNUSED)\<rparr>"
  have "links_ok ?s" "loc ?s (q_type (TQ TCB_UNUSED)) t = None"
    using Cons.prems by (simp_all add: links_ok_def)
  from Queue_push_back_links [OF this] obtain s1 where s1: "Queue_push_back ?s (TQ TCB_UNUSED) t = Some s1" "links_ok s1"
    "s1 = ?s\<lparr>qlist := (qlist ?s)(TQ TCB_UNUSED := qlist ?s (TQ TCB_UNUSED) @ [t]),
       loc := (loc ?s)(TCB_STATE_QUEUE := (loc ?s TCB_STATE_QUEUE)(t \<mapsto> TQ TCB_UNUSED))\<rparr>"
    by auto
  have "loc s1 TCB_STATE_QUEUE x = None" if "x \<in> set ts" for x
    using that Cons.prems(2,3) s1(3) by auto
  with Cons.IH [of s1] Cons.prems(2) s1 show ?case
    by (auto simp: fun_eq_iff)
qed (simp add: fun_eq_iff)

lemma boot_sel:
  "t_state (boot_sched k) = (\<lambda>_. TCB_UNUSED)" "qlist (boot_sched k) = (\<lambda>_. [])" "loc (boot_sched k) = (\<lambda>_ _. None)"
  "wait_chan_entry (boot_sched k) = (\<lambda>_. None)" "cpu_thread (boot_sched k) = (\<lambda>_. None)"
  "futex_map (boot_sched k) = (\<lambda>_. None)" "next_wq (boot_sched k) = k" "taken (boot_sched k) = (\<lambda>_. False)"
  by (simp_all add: boot_sched_def)

lemma tcb_init_inv: "\<exists>s'. tcb_init n (boot_sched k) = Some s' \<and> sched_inv n s' \<and> qlist s' (TQ TCB_UNUSED) = [0 ..< n]"
proof -
  let ?b = "TCB_Q_ALL_INIT (boot_sched k)"
  have b: "?b = boot_sched k"
    by (simp add: TCB_Q_ALL_INIT_def Queue_init_def boot_sched_def fun_upd_idem)
  have "links_ok (boot_sched k)"
    by (simp add: links_ok_def boot_sched_def)
  with tcb_init_loop_inv [of "boot_sched k" "[0 ..< n]"]
  obtain s' where s': "tcb_init_loop [0 ..< n] (boot_sched k) = Some s'" "links_ok s'"
    "qlist s' = (\<lambda>_. [])(TQ TCB_UNUSED := [0 ..< n])"
    "t_state s' = (\<lambda>t. TCB_UNUSED)"
    "loc s' = (\<lambda>_ _. None)(TCB_STATE_QUEUE := \<lambda>t. if t < n then Some (TQ TCB_UNUSED) else None)"
    "wait_chan_entry s' = (\<lambda>_. None)" "cpu_thread s' = (\<lambda>_. None)" "futex_map s' = (\<lambda>_. None)" "next_wq s' = k"
    "taken s' = (\<lambda>_. False)"
    by (auto simp: boot_sel cong: if_cong)
  then have "states_ok n s'" "futex_ok s'"
    by (auto simp: states_ok_def futex_ok_def home_def)
  then show ?thesis
    using s' b by (auto simp: tcb_init_def sched_inv_def)
qed

subsection \<open>Wake-ups are first-in first-out\<close>

text \<open>\<open>woken n w ts s s'\<close>: the threads \<open>ts\<close>, in this order, went from the front of wait queue \<open>w\<close> to the end
  of the run queue, and nothing else happened.\<close>

definition woken :: "nat \<Rightarrow> nat \<Rightarrow> nat list \<Rightarrow> ksched \<Rightarrow> ksched \<Rightarrow> bool" where
  "woken n w ts s s' \<longleftrightarrow> sched_inv n s' \<and> qlist s (WQ w) = ts @ qlist s' (WQ w) \<and>
     (\<forall>v. v \<noteq> w \<longrightarrow> qlist s' (WQ v) = qlist s (WQ v)) \<and>
     qlist s' (TQ TCB_RUNNABLE) = qlist s (TQ TCB_RUNNABLE) @ ts \<and>
     t_state s' = (\<lambda>t. if t \<in> set ts then TCB_RUNNABLE else t_state s t) \<and>
     cpu_thread s' = cpu_thread s \<and> futex_map s' = futex_map s \<and> next_wq s' = next_wq s \<and> taken s' = taken s"

lemma woken_Nil: "sched_inv n s \<Longrightarrow> woken n w [] s s"
  by (simp add: woken_def)

lemma woken_Cons:
  assumes "sched_inv n s" "qlist s (WQ w) = t # q"
  shows "\<exists>s1. wake_first s w = Some s1 \<and> sched_inv n s1 \<and> qlist s1 (WQ w) = q \<and>
    (\<forall>ts s'. woken n w ts s1 s' \<longrightarrow> woken n w (t # ts) s s')"
proof -
  obtain s1 where s1: "wake_first s w = Some s1" "sched_inv n s1" "t_state s1 = (t_state s)(t := TCB_RUNNABLE)"
    "qlist s1 (WQ w) = q" "\<forall>v. v \<noteq> w \<longrightarrow> qlist s1 (WQ v) = qlist s (WQ v)"
    "qlist s1 (TQ TCB_RUNNABLE) = qlist s (TQ TCB_RUNNABLE) @ [t]"
    "cpu_thread s1 = cpu_thread s" "futex_map s1 = futex_map s" "next_wq s1 = next_wq s" "taken s1 = taken s"
    using wake_first_inv [OF assms] by blast
  have "woken n w (t # ts) s s'" if "woken n w ts s1 s'" for ts s'
    using that s1 assms(2) by (auto simp: woken_def fun_eq_iff)
  with s1 show ?thesis by blast
qed

lemma broadcast_loop_woken:
  assumes "sched_inv n s" "length (qlist s (WQ w)) < fuel"
  shows "\<exists>s'. broadcast_loop fuel s w = Some s' \<and> woken n w (qlist s (WQ w)) s s' \<and> qlist s' (WQ w) = []"
  using assms
proof (induction fuel arbitrary: s)
  case (Suc fuel)
  show ?case
  proof (cases "qlist s (WQ w)")
    case Nil
    then show ?thesis
      using woken_Nil [OF Suc.prems(1)] by (simp add: Queue_isempty_def)
  next
    case (Cons t q)
    obtain s1 where s1: "wake_first s w = Some s1" "sched_inv n s1" "qlist s1 (WQ w) = q"
      "\<forall>ts s'. woken n w ts s1 s' \<longrightarrow> woken n w (t # ts) s s'"
      using woken_Cons [OF Suc.prems(1) Cons] by blast
    have "length (qlist s1 (WQ w)) < fuel"
      using Suc.prems(2) Cons s1(3) by simp
    from Suc.IH [OF s1(2) this] s1 Cons show ?thesis
      by (auto simp: Queue_isempty_def)
  qed
qed simp

lemma futex_wake_loop_woken:
  assumes "sched_inv n s" "length (qlist s (WQ w)) < fuel"
  shows "\<exists>s' k. futex_wake_loop fuel s w ret nr = Some (s', ret + int k) \<and> k = min (length (qlist s (WQ w))) (nat (nr - ret)) \<and>
    woken n w (take k (qlist s (WQ w))) s s'"
  using assms
proof (induction fuel arbitrary: s ret)
  case (Suc fuel)
  show ?case
  proof (cases "qlist s (WQ w) = [] \<or> nr \<le> ret")
    case True
    then show ?thesis
      using woken_Nil [OF Suc.prems(1)] by (intro exI [of _ s] exI [of _ 0]) (auto simp: Queue_isempty_def)
  next
    case False
    then obtain t q where Cons: "qlist s (WQ w) = t # q"
      by (meson neq_Nil_conv)
    obtain s1 where s1: "wake_first s w = Some s1" "sched_inv n s1" "qlist s1 (WQ w) = q"
      "\<forall>ts s'. woken n w ts s1 s' \<longrightarrow> woken n w (t # ts) s s'"
      using woken_Cons [OF Suc.prems(1) Cons] by blast
    have "length (qlist s1 (WQ w)) < fuel"
      using Suc.prems(2) Cons s1(3) by simp
    from Suc.IH [OF s1(2) this, of "ret + 1"] obtain s' k where
      *: "futex_wake_loop fuel s1 w (ret + 1) nr = Some (s', ret + 1 + int k)" "k = min (length q) (nat (nr - (ret + 1)))"
      "woken n w (take k q) s1 s'"
      using s1(3) by auto
    then show ?thesis
      using False Cons s1 by (intro exI [of _ s'] exI [of _ "Suc k"]) (auto simp: Queue_isempty_def)
  qed
qed simp

subsection \<open>Futexes\<close>

lemma get_futex_inv:
  assumes inv: "sched_inv n s" and "get_futex s a b = (s', r)"
  shows "sched_inv n s'" "r = Some w \<Longrightarrow> w < next_wq s' \<and> futex_map s' a = Some w" "r = None \<Longrightarrow> b \<and> s' = s"
    "cpu_thread s' = cpu_thread s" "t_state s' = t_state s" "next_wq s \<le> next_wq s'" "qlist s' = qlist s"
    "wait_chan_entry s' = wait_chan_entry s" "taken s' = taken s"
proof -
  note I = sched_invD [OF inv]
  have q: "qlist s (WQ (next_wq s)) = []"
    using I(3) by (simp add: futex_ok_def)
  have c: "s' = s \<and> (r = None \<longrightarrow> b) \<and> (\<forall>w. r = Some w \<longrightarrow> futex_map s a = Some w) \<or>
     (s' = s\<lparr>futex_map := (futex_map s)(a \<mapsto> next_wq s), next_wq := next_wq s + 1\<rparr> \<and> r = Some (next_wq s))"
    using assms(2) q by (auto simp: get_futex_def Queue_init_def Let_def fun_upd_idem split: option.splits if_splits)
  let ?s1 = "s\<lparr>futex_map := (futex_map s)(a \<mapsto> next_wq s), next_wq := next_wq s + 1\<rparr>"
  have "links_ok ?s1"
    using I(1) by (simp add: links_ok_def)
  moreover have "states_ok n ?s1"
    using I(2) by (simp add: states_ok_def)
  moreover have "futex_ok ?s1"
    using I(3) by (simp add: futex_ok_def less_SucI)
  ultimately have "sched_inv n ?s1"
    unfolding sched_inv_def by blast
  with c inv show "sched_inv n s'"
    by blast
  from c show "r = Some w \<Longrightarrow> w < next_wq s' \<and> futex_map s' a = Some w" "r = None \<Longrightarrow> b \<and> s' = s"
    using I(3) by (auto simp: futex_ok_def)
  from c show "cpu_thread s' = cpu_thread s" "t_state s' = t_state s" "next_wq s \<le> next_wq s'" "qlist s' = qlist s"
    "wait_chan_entry s' = wait_chan_entry s" "taken s' = taken s"
    by auto
qed

lemma futex_free_sel [simp]:
  "t_state (futex_free s a) = t_state s" "qlist (futex_free s a) = qlist s" "loc (futex_free s a) = loc s" "cpu_thread (futex_free s a) = cpu_thread s"
  "wait_chan_entry (futex_free s a) = wait_chan_entry s" "next_wq (futex_free s a) = next_wq s" "taken (futex_free s a) = taken s"
  "p_state (futex_free s a) = p_state s" "t_killed (futex_free s a) = t_killed s"
  "futex_map (futex_free s a) = (futex_map s)(a := None)"
  by (auto simp: futex_free_def fun_eq_iff split: option.splits)

lemma futex_free_inv: "sched_inv n s \<Longrightarrow> sched_inv n (futex_free s a)"
  by (simp add: sched_inv_def links_ok_def states_ok_def futex_ok_def)

lemma futex_wait_inv:
  assumes inv: "sched_inv n s" and cur: "cpu_thread s c = Some t"
  shows "\<exists>s' r. futex_wait s c a u val ts 0 rdtime = Some (s', r) \<and> sched_inv n s' \<and>
    (if u = Some val then \<exists>w. r = Inr () \<and> futex_map s' a = Some w \<and> qlist s' (WQ w) = qlist s (WQ w) @ [t] \<and>
           t_state s' = (t_state s)(t := TCB_SLEEPING) \<and> cpu_thread s' = (cpu_thread s)(c := None)
     else s' = s \<and> r = Inl (if u = None then -1 else 0))"
proof (cases "u = Some val")
  case True
  obtain s1 r1 where g: "get_futex s a False = (s1, r1)"
    by fastforce
  note G = get_futex_inv [OF inv g]
  obtain w where w: "r1 = Some w" "w < next_wq s1" "futex_map s1 a = Some w"
    using G(2,3) by (cases r1) auto
  obtain s2 where "sleep_on s1 c w ts 1 rdtime = Some s2" "sched_inv n s2" "t_state s2 = (t_state s1)(t := TCB_SLEEPING)"
    "qlist s2 (WQ w) = qlist s1 (WQ w) @ [t]" "cpu_thread s2 = (cpu_thread s1)(c := None)" "futex_map s2 = futex_map s1"
    using sleep_on_inv [OF G(1) _ w(2), of c t ts rdtime] G(4) cur by auto
  then show ?thesis
    using True g w G by (auto simp: futex_wait_def)
next
  case False
  then show ?thesis
    using inv by (auto simp: futex_wait_def split: option.splits)
qed

lemma futex_wakeup_inv:
  assumes inv: "sched_inv n s"
  shows "futex_map s a = None \<Longrightarrow> futex_wakeup s a nr = Some (s, 0)"
    "futex_map s a = Some w \<Longrightarrow> \<exists>s1 k. k = min (length (qlist s (WQ w))) (nat nr) \<and> woken n w (take k (qlist s (WQ w))) s s1 \<and>
       futex_wakeup s a nr = Some (if k = length (qlist s (WQ w)) then futex_free s1 a else s1, int k)"
proof -
  show "futex_map s a = None \<Longrightarrow> futex_wakeup s a nr = Some (s, 0)"
    by (simp add: futex_wakeup_def get_futex_def)
  assume w: "futex_map s a = Some w"
  obtain s1 k where l: "futex_wake_loop (Suc (length (qlist s (WQ w)))) s w 0 nr = Some (s1, int k)"
    "k = min (length (qlist s (WQ w))) (nat nr)" "woken n w (take k (qlist s (WQ w))) s s1"
    using futex_wake_loop_woken [OF inv, of w "Suc (length (qlist s (WQ w)))" 0 nr] by auto
  have "qlist s1 (WQ w) = drop k (qlist s (WQ w))"
    using l(3) unfolding woken_def by (metis append_eq_append_conv append_take_drop_id)
  then have "Queue_isempty s1 (WQ w) \<longleftrightarrow> k = length (qlist s (WQ w))"
    using l(2) by (auto simp: Queue_isempty_def)
  then show "\<exists>s1 k. k = min (length (qlist s (WQ w))) (nat nr) \<and> woken n w (take k (qlist s (WQ w))) s s1 \<and>
       futex_wakeup s a nr = Some (if k = length (qlist s (WQ w)) then futex_free s1 a else s1, int k)"
    using l w by (auto simp: futex_wakeup_def get_futex_def)
qed

lemma requeue_step:
  assumes inv: "sched_inv n s" and q: "qlist s (WQ w1) = t # ts" and w2: "w2 < next_wq s"
  shows "\<exists>s2. Queue_push_back (Queue_remove s t TCB_WAIT_QUEUE) (WQ w2) t = Some s2 \<and> sched_inv n s2 \<and>
    t_state s t = TCB_SLEEPING \<and> t_state s2 = t_state s \<and> cpu_thread s2 = cpu_thread s \<and> wait_chan_entry s2 = wait_chan_entry s \<and>
    futex_map s2 = futex_map s \<and> next_wq s2 = next_wq s \<and>
    (w1 \<noteq> w2 \<longrightarrow> qlist s2 (WQ w1) = ts \<and> qlist s2 (WQ w2) = qlist s (WQ w2) @ [t])"
proof -
  note I = sched_invD [OF inv]
  note D = states_okD [OF I(2)]
  let ?s1 = "Queue_remove s t TCB_WAIT_QUEUE"
  note P = pop_remove [OF I(1) q]
  have lt: "loc s TCB_WAIT_QUEUE t = Some (WQ w1)"
    using links_okD(2) [OF I(1), of t "WQ w1"] q by simp
  then have t: "t < n"
    using D(3) [of t] by (metis leI option.distinct(1))
  then have st: "t_state s t = TCB_SLEEPING"
    using D(4) lt by auto
  have nt: "\<not> taken s t"
    using D(4) [OF t] lt by auto
  have w1: "w1 < next_wq s"
    using I(3) q unfolding futex_ok_def by (metis leI list.distinct(1))
  have "links_ok ?s1" "loc ?s1 (q_type (WQ w2)) t = None"
    using Queue_remove_links [OF I(1)] by simp_all
  from Queue_push_back_links [OF this] obtain s2 where s2: "Queue_push_back ?s1 (WQ w2) t = Some s2" "links_ok s2"
    "s2 = ?s1\<lparr>qlist := (qlist ?s1)(WQ w2 := qlist ?s1 (WQ w2) @ [t]),
       loc := (loc ?s1)(TCB_WAIT_QUEUE := (loc ?s1 TCB_WAIT_QUEUE)(t \<mapsto> WQ w2))\<rparr>"
    by auto
  have S: "t_state s2 = t_state s" "cpu_thread s2 = cpu_thread s" "wait_chan_entry s2 = wait_chan_entry s"
    "futex_map s2 = futex_map s" "next_wq s2 = next_wq s" "loc s2 TCB_STATE_QUEUE = loc s TCB_STATE_QUEUE"
    "loc s2 TCB_WAIT_QUEUE = (loc s TCB_WAIT_QUEUE)(t \<mapsto> WQ w2)" "taken s2 = taken s"
    unfolding s2(3) by simp_all
  have Q: "qlist s2 (WQ w) = (if w = w2 then qlist ?s1 (WQ w2) @ [t] else qlist ?s1 (WQ w))" for w
    unfolding s2(3) by simp
  have "states_ok n s2"
    using I(2) t st nt unfolding states_ok_def S by auto
  moreover have "futex_ok s2"
    using I(3) w2 w1 P(3) by (auto simp: futex_ok_def Q S)
  ultimately show ?thesis
    using s2(1,2) S st P(2,3) by (auto simp: sched_inv_def Q)
qed

lemma requeue_loop_inv:
  assumes "sched_inv n s" "w2 < next_wq s" "nat (nr - ret) < fuel"
  shows "\<exists>s' k. requeue_loop fuel s w1 w2 ret nr = Some (s', ret + int k) \<and> sched_inv n s' \<and> t_state s' = t_state s \<and>
    cpu_thread s' = cpu_thread s \<and> wait_chan_entry s' = wait_chan_entry s \<and> futex_map s' = futex_map s \<and> next_wq s' = next_wq s \<and>
    (w1 \<noteq> w2 \<longrightarrow> k = min (length (qlist s (WQ w1))) (nat (nr - ret)) \<and> qlist s' (WQ w1) = drop k (qlist s (WQ w1)) \<and>
       qlist s' (WQ w2) = qlist s (WQ w2) @ take k (qlist s (WQ w1)))"
  using assms
proof (induction fuel arbitrary: s ret)
  case (Suc fuel)
  show ?case
  proof (cases "qlist s (WQ w1) = [] \<or> nr \<le> ret")
    case True
    then show ?thesis
      using Suc.prems(1) by (intro exI [of _ s] exI [of _ 0]) (auto simp: Queue_isempty_def)
  next
    case False
    then obtain t q where Cons: "qlist s (WQ w1) = t # q"
      by (meson neq_Nil_conv)
    obtain s2 where s2: "Queue_push_back (Queue_remove s t TCB_WAIT_QUEUE) (WQ w2) t = Some s2" "sched_inv n s2"
      "t_state s t = TCB_SLEEPING" "t_state s2 = t_state s" "cpu_thread s2 = cpu_thread s" "wait_chan_entry s2 = wait_chan_entry s"
      "futex_map s2 = futex_map s" "next_wq s2 = next_wq s"
      "w1 \<noteq> w2 \<longrightarrow> qlist s2 (WQ w1) = q \<and> qlist s2 (WQ w2) = qlist s (WQ w2) @ [t]"
      using requeue_step [OF Suc.prems(1) Cons Suc.prems(2)] by blast
    have "requeue_loop (Suc fuel) s w1 w2 ret nr = requeue_loop fuel s2 w1 w2 (ret + 1) nr"
      using False s2(1,3) pop_remove(1) [OF sched_invD(1) [OF Suc.prems(1)] Cons]
      by (simp add: Queue_isempty_def Queue_push_back_atomic_def)
    moreover have "nat (nr - (ret + 1)) < fuel" "w2 < next_wq s2"
      using Suc.prems(2,3) False s2(8) by auto
    then obtain s' k where *: "requeue_loop fuel s2 w1 w2 (ret + 1) nr = Some (s', ret + 1 + int k)" "sched_inv n s'"
      "t_state s' = t_state s2" "cpu_thread s' = cpu_thread s2" "wait_chan_entry s' = wait_chan_entry s2"
      "futex_map s' = futex_map s2" "next_wq s' = next_wq s2"
      "w1 \<noteq> w2 \<longrightarrow> k = min (length (qlist s2 (WQ w1))) (nat (nr - (ret + 1))) \<and> qlist s' (WQ w1) = drop k (qlist s2 (WQ w1)) \<and>
         qlist s' (WQ w2) = qlist s2 (WQ w2) @ take k (qlist s2 (WQ w1))"
      using Suc.IH [OF s2(2), of "ret + 1"] by blast
    ultimately show ?thesis
      using s2 False Cons by (intro exI [of _ s'] exI [of _ "Suc k"]) auto
  qed
qed simp

lemma futex_wakeup_ok:
  assumes inv: "sched_inv n s"
  shows "\<exists>s' r. futex_wakeup s a nr = Some (s', r) \<and> sched_inv n s'"
proof (cases "futex_map s a")
  case None
  then show ?thesis
    using futex_wakeup_inv(1) [OF inv] inv by blast
next
  case (Some w)
  obtain s1 k where "futex_wakeup s a nr = Some (if k = length (qlist s (WQ w)) then futex_free s1 a else s1, int k)" "sched_inv n s1"
    using futex_wakeup_inv(2) [OF inv Some, of nr] unfolding woken_def by blast
  then show ?thesis
    by (auto intro: futex_free_inv)
qed

lemma futex_requeue_ok:
  assumes inv: "sched_inv n s"
  shows "\<exists>s' r. futex_requeue s a1 nw a2 nr = Some (s', r) \<and> sched_inv n s'"
proof -
  obtain s1 r1 where s1: "futex_wakeup s a1 nw = Some (s1, r1)" "sched_inv n s1"
    using futex_wakeup_ok [OF inv] by blast
  show ?thesis
  proof (cases "futex_map s1 a1")
    case None
    then show ?thesis
      using s1 by (simp add: futex_requeue_def get_futex_def)
  next
    case (Some w1)
    obtain s2 r2 where g: "get_futex s1 a2 False = (s2, r2)"
      by fastforce
    note G = get_futex_inv [OF s1(2) g]
    obtain w2 where w2: "r2 = Some w2" "w2 < next_wq s2"
      using G(2,3) by (cases r2) auto
    obtain s3 k where "requeue_loop (Suc (nat nr)) s2 w1 w2 0 nr = Some (s3, int k)" "sched_inv n s3"
      using requeue_loop_inv [OF G(1) w2(2), of nr 0 "Suc (nat nr)" w1] by auto
    then show ?thesis
      using s1 Some g w2(1) by (auto simp: futex_requeue_def get_futex_def intro: futex_free_inv)
  qed
qed

lemma do_futex_ok:
  assumes inv: "sched_inv n s" and cur: "cpu_thread s c = Some t" and op: "op AND FUTEX_CMD_MASK \<in> {0, 1, 3}"
  shows "\<exists>s' r. do_futex s c a op u val ts a2 val2 0 rdtime = Some (s', r) \<and> sched_inv n s'"
proof -
  obtain s1 r1 where "futex_wait s c a u val ts 0 rdtime = Some (s1, r1)" "sched_inv n s1"
    using futex_wait_inv [OF inv cur] by blast
  moreover obtain s2 r2 where "futex_wakeup s a (sint val) = Some (s2, r2)" "sched_inv n s2"
    using futex_wakeup_ok [OF inv] by blast
  moreover obtain s3 r3 where "futex_requeue s a (sint val) a2 (sint val2) = Some (s3, r3)" "sched_inv n s3"
    using futex_requeue_ok [OF inv] by blast
  ultimately show ?thesis
    using op by (auto simp: do_futex_def Let_def)
qed

lemma cond_broadcast_woken:
  assumes inv: "sched_inv n s"
  shows "\<exists>s'. cond_broadcast s w = Some s' \<and> woken n w (qlist s (WQ w)) s s' \<and> qlist s' (WQ w) = []"
  using broadcast_loop_woken [OF inv, of w "Suc (length (qlist s (WQ w)))"] by (simp add: cond_broadcast_def)

lemma cond_signal_woken:
  assumes inv: "sched_inv n s"
  shows "\<exists>s'. cond_signal s w = Some s' \<and> woken n w (take 1 (qlist s (WQ w))) s s'"
proof (cases "qlist s (WQ w)")
  case Nil
  then show ?thesis
    using woken_Nil [OF inv] by (simp add: cond_signal_def Queue_isempty_def)
next
  case (Cons t q)
  obtain s1 where "wake_first s w = Some s1" "sched_inv n s1" "\<forall>ts s'. woken n w ts s1 s' \<longrightarrow> woken n w (t # ts) s s'"
    using woken_Cons [OF inv Cons] by blast
  then show ?thesis
    using Cons woken_Nil [of n s1 w] by (auto simp: cond_signal_def Queue_isempty_def)
qed

lemma tick_inv:
  assumes "sched_inv n s" "timer_list_decrease_atomic thread_wakeup_atomic rdtime l s = Some (l', s')"
    and "\<And>tm. tm \<in> set l \<Longrightarrow> TIME_OUT rdtime tm \<Longrightarrow> \<not> taken s (timer_data tm)"
  shows "sched_inv n s'"
  using assms
proof (induction l arbitrary: s l')
  case (Cons tm l)
  have fired: "sched_inv n s1 \<and> taken s1 = taken s" if s1: "thread_wakeup_atomic d s = Some s1" and nt: "\<not> taken s d" for d s1
  proof -
    obtain w where w: "wait_chan_entry s d = Some w"
      using s1 by (cases "wait_chan_entry s d") (auto simp: thread_wakeup_atomic_def)
    then have d: "d < n" "t_state s d = TCB_SLEEPING"
      using states_okD(5,9) [OF sched_invD(2) [OF Cons.prems(1)]] by (metis leI option.distinct(1))+
    have "\<not> freed_wq s w"
      using s1 w thread_wakeup_freed by (auto simp: thread_wakeup_atomic_eq)
    from thread_wakeup_inv [OF Cons.prems(1) d w this] s1 nt show ?thesis
      by (auto simp: thread_wakeup_atomic_eq)
  qed
  show ?case
  proof (cases "TIME_OUT rdtime tm")
    case True
    then obtain s1 where s1: "thread_wakeup_atomic (timer_data tm) s = Some s1" "\<exists>l''. timer_list_decrease_atomic thread_wakeup_atomic rdtime l s1 = Some (l'', s')"
      using Cons.prems(2) by (auto simp: Option.bind_eq_Some_conv split: if_splits)
    have "sched_inv n s1" "taken s1 = taken s"
      using fired [OF s1(1)] Cons.prems(3) [of tm] True by auto
    then show ?thesis
      using s1(2) Cons.IH [of s1] Cons.prems(3) by auto
  next
    case False
    then show ?thesis
      using Cons.prems Cons.IH by (auto simp: Option.bind_eq_Some_conv split: if_splits)
  qed
qed simp

text \<open>\<open>do_exit_group\<close> over threads that neither run nor sleep.\<close>

lemma free_thread_inv:
  assumes inv: "sched_inv n s" and t: "t < n" and st: "t_state s t \<noteq> TCB_RUNNING" "t_state s t \<noteq> TCB_SLEEPING"
  shows "\<exists>s'. free_thread s t = Some s' \<and> sched_inv n s' \<and> t_state s' = (t_state s)(t := TCB_UNUSED)"
proof -
  let ?s = "s\<lparr>t_killed := (t_killed s)(t := False)\<rparr>"
  have "wait_chan_entry s t = None"
    using states_okD(5) [OF sched_invD(2) [OF inv] t] st(2) by auto
  then have "free_thread s t = TCB_Q_changeState ?s t TCB_UNUSED"
    by (simp add: free_thread_def)
  then show ?thesis
    using relink_inv [of n ?s t TCB_UNUSED ?s] inv t st by auto
qed

lemma futex_wakeup_state:
  assumes inv: "sched_inv n s" and "futex_wakeup s a nr = Some (s', r)"
  shows "sched_inv n s'" "t_state s' x = t_state s x \<or> t_state s' x = TCB_RUNNABLE"
proof -
  have "sched_inv n s' \<and> (t_state s' x = t_state s x \<or> t_state s' x = TCB_RUNNABLE)"
  proof (cases "futex_map s a")
    case None
    then show ?thesis using futex_wakeup_inv(1) [OF inv] inv assms(2) by simp
  next
    case (Some w)
    obtain s1 k where "futex_wakeup s a nr = Some (if k = length (qlist s (WQ w)) then futex_free s1 a else s1, int k)"
      "woken n w (take k (qlist s (WQ w))) s s1"
      using futex_wakeup_inv(2) [OF inv Some, of nr] by blast
    then show ?thesis using assms(2) by (auto simp: woken_def futex_free_inv)
  qed
  then show "sched_inv n s'" "t_state s' x = t_state s x \<or> t_state s' x = TCB_RUNNABLE" by blast+
qed

lemma exit_group_loop_step:
  assumes "exit_group_loop ((t, a) # ts) b s = Some s'"
  shows "\<exists>s1 s2. (s1 = s \<or> (\<exists>r. futex_wakeup s a 1 = Some (s1, r))) \<and> free_thread s1 t = Some s2 \<and> exit_group_loop ts b s2 = Some s'"
proof (cases "a = 0")
  case False
  then obtain s1 r s2 where "futex_wakeup s a 1 = Some (s1, r)" "free_thread s1 t = Some s2" "exit_group_loop ts b s2 = Some s'"
    using assms by (auto simp: Option.bind_eq_Some_conv)
  then show ?thesis by blast
qed (use assms in \<open>auto simp: Option.bind_eq_Some_conv\<close>)

lemma exit_group_loop_inv:
  assumes "sched_inv n s" "\<And>t a. (t, a) \<in> set ts \<Longrightarrow> t < n \<and> t_state s t \<noteq> TCB_RUNNING \<and> t_state s t \<noteq> TCB_SLEEPING"
  shows "\<exists>s'. exit_group_loop ts True s = Some s' \<and> sched_inv n s'"
  using assms
proof (induction ts arbitrary: s)
  case (Cons e ts)
  obtain t a where e: "e = (t, a)" by fastforce
  let ?w = "if a \<noteq> 0 then do { (s, _) \<leftarrow> futex_wakeup s a 1; Some s } else Some s"
  obtain s1 where s1: "?w = Some s1" "sched_inv n s1" "\<And>x. t_state s1 x = t_state s x \<or> t_state s1 x = TCB_RUNNABLE"
  proof (cases "a = 0")
    case True
    then show thesis using that [of s] Cons.prems(1) by simp
  next
    case False
    obtain s1 r where "futex_wakeup s a 1 = Some (s1, r)"
      using futex_wakeup_ok [OF Cons.prems(1)] by blast
    then show thesis using that [of s1] futex_wakeup_state [OF Cons.prems(1)] False by auto
  qed
  have t: "t < n" "t_state s1 t \<noteq> TCB_RUNNING" "t_state s1 t \<noteq> TCB_SLEEPING"
    using Cons.prems(2) [of t a] s1(3) [of t] by (auto simp: e)
  obtain s2 where s2: "free_thread s1 t = Some s2" "sched_inv n s2" "t_state s2 = (t_state s1)(t := TCB_UNUSED)"
    using free_thread_inv [OF s1(2) t] by blast
  have "x < n \<and> t_state s2 x \<noteq> TCB_RUNNING \<and> t_state s2 x \<noteq> TCB_SLEEPING" if "(x, b) \<in> set ts" for x b
    using Cons.prems(2) [of x b] that s1(3) [of x] by (auto simp: s2(3))
  then obtain s' where "exit_group_loop ts True s2 = Some s'" "sched_inv n s'"
    using Cons.IH [OF s2(2)] by blast
  then show ?case
    using s1(1) s2(1) by (cases "a = 0") (auto simp: e Option.bind_eq_Some_conv)
qed simp

subsection \<open>All interleavings\<close>

text \<open>The steps the CPUs, the timer interrupt and the system calls can take, in any order.  \<open>None\<close> results
  (panics) are not steps.  \<open>take\<close> and \<open>wake\<close> are the two halves of a wake-up, so that any number of wakers can be between
  them; \<open>signal\<close>, \<open>broadcast\<close> and \<open>futex\<close> are the whole functions, run without another CPU in between.
  \<open>tkill\<close> and \<open>tick\<close> leave taken threads alone, and \<open>exit_group\<close> is called when the other threads of the group
  neither run nor sleep.\<close>

inductive sched_step :: "nat \<Rightarrow> ksched \<Rightarrow> ksched \<Rightarrow> bool" for n where
  yield: "cpu_thread s c = Some t \<Longrightarrow> thread_yield s c 0 rd = Some s' \<Longrightarrow> sched_step n s s'"
| schedule: "cpu_thread s c = None \<Longrightarrow> sched_step n s (thread_scheduler s c)"
| resume: "cpu_thread s c = Some t \<Longrightarrow> sched_step n s (fst (thread_sched_resume s t))"
| wait: "cpu_thread s c = Some t \<Longrightarrow> w < next_wq s \<Longrightarrow> cond_wait s c w 1 rd = Some s' \<Longrightarrow> sched_step n s s'"
| take: "Queue_provide_atomic s (WQ w) True = (s', Some t) \<Longrightarrow> sched_step n s (s'\<lparr>taken := (taken s)(t := True)\<rparr>)"
| wake: "taken s t \<Longrightarrow> wake_taken s t = Some s' \<Longrightarrow> sched_step n s (s'\<lparr>taken := (taken s)(t := False)\<rparr>)"
| signal: "cond_signal s w = Some s' \<Longrightarrow> sched_step n s s'"
| broadcast: "cond_broadcast s w = Some s' \<Longrightarrow> sched_step n s s'"
| futex: "cpu_thread s c = Some t \<Longrightarrow> op AND FUTEX_CMD_MASK \<in> {0, 1, 3} \<Longrightarrow>
    do_futex s c a op u val ts a2 val2 0 rd = Some (s', r) \<Longrightarrow> sched_step n s s'"
| create: "create_thread s = Some (s', t) \<Longrightarrow> sched_step n s s'"
| exit: "cpu_thread s c = Some t \<Longrightarrow> do_exit s c 0 rd = Some s' \<Longrightarrow> sched_step n s s'"
| exit_group: "cpu_thread s c = Some t \<Longrightarrow>
    (\<And>x a. (x, a) \<in> set tg \<Longrightarrow> x \<noteq> t \<Longrightarrow> x < n \<and> t_state s x \<noteq> TCB_RUNNING \<and> t_state s x \<noteq> TCB_SLEEPING) \<Longrightarrow>
    do_exit_group s c tg True = Some s' \<Longrightarrow> sched_step n s s'"
| tkill: "t < n \<Longrightarrow> \<not> taken s t \<Longrightarrow> thread_send_signal s t signo = Some s' \<Longrightarrow> sched_step n s s'"
| setkilled: "sched_step n s (thread_setkilled s t)"
| tick: "(\<And>tm. tm \<in> set (timers s) \<Longrightarrow> TIME_OUT rd tm \<Longrightarrow> \<not> taken s (timer_data tm)) \<Longrightarrow>
    timer_list_decrease_atomic thread_wakeup_atomic rd (timers s) s = Some (l, s') \<Longrightarrow>
    sched_step n s (s'\<lparr>timers := l\<rparr>)"

inductive sched_reach :: "nat \<Rightarrow> nat \<Rightarrow> ksched \<Rightarrow> bool" for n k where
  boot: "tcb_init n (boot_sched k) = Some s \<Longrightarrow> sched_reach n k s"
| step: "sched_reach n k s \<Longrightarrow> sched_step n s s' \<Longrightarrow> sched_reach n k s'"

lemma sched_step_inv:
  assumes "sched_step n s s'" "sched_inv n s"
  shows "sched_inv n s'"
  using assms
proof cases
  case (yield c t rd)
  then show ?thesis using thread_yield_inv [OF assms(2) yield(1), of rd] by auto
next
  case (schedule c)
  then show ?thesis using thread_scheduler_inv(1) [OF assms(2)] by simp
next
  case (resume c t)
  then show ?thesis using assms(2) by (simp add: thread_sched_resume_def)
next
  case (wait c t w rd)
  then show ?thesis using sleep_on_inv [OF assms(2) wait(1,2), of None rd] by (auto simp: cond_wait_def)
next
  case (take w s1 t)
  then obtain ts where q: "qlist s (WQ w) = t # ts"
    by (cases "qlist s (WQ w)") (auto simp: Queue_provide_atomic_def Queue_pop_def Queue_isempty_def queue_first_node_def)
  then show ?thesis
    using take take_inv [OF assms(2) q] pop_remove(1) [OF sched_invD(1) [OF assms(2)] q] by auto
next
  case (wake t s1)
  then show ?thesis using wake_taken_inv [OF assms(2) wake(2)] by auto
next
  case (signal w)
  then show ?thesis using cond_signal_woken [OF assms(2), of w] by (auto simp: woken_def)
next
  case (broadcast w)
  then show ?thesis using cond_broadcast_woken [OF assms(2), of w] by (auto simp: woken_def)
next
  case (futex c t op a u val ts a2 val2 rd r)
  then show ?thesis using do_futex_ok [OF assms(2) futex(1,2), of a u val ts a2 val2 rd] by auto
next
  case (create t)
  then show ?thesis
    using alloc_thread_inv(1) [OF assms(2)] create_thread_inv [OF assms(2)]
    by (cases "qlist s (TQ TCB_UNUSED)") (auto simp: create_thread_def)
next
  case (exit c t rd)
  then show ?thesis using do_exit_inv [OF assms(2) exit(1), of rd] by auto
next
  case (exit_group c t tg)
  then obtain s1 where "exit_group_loop (filter (\<lambda>e. fst e \<noteq> t) tg) True s = Some s1" "sched_inv n s1"
    using exit_group_loop_inv [OF assms(2), of "filter (\<lambda>e. fst e \<noteq> t) tg"] by auto
  then show ?thesis using exit_group by (simp add: do_exit_group_def)
next
  case (tkill t signo)
  have "\<not> (t_state s t = TCB_SLEEPING \<and> (\<exists>w. wait_chan_entry s t = Some w \<and> freed_wq s w))"
    using thread_send_signal_None [OF assms(2) tkill(1), of signo] tkill(3) by simp
  then show ?thesis using thread_send_signal_inv [OF assms(2) tkill(1), of signo] tkill(2,3) by auto
next
  case (setkilled t)
  then show ?thesis using assms(2) by (simp add: thread_setkilled_def)
next
  case (tick rd l s1)
  then show ?thesis using tick_inv [OF assms(2) tick(3)] by auto
qed

lemma sched_reach_inv: "sched_reach n k s \<Longrightarrow> sched_inv n s"
proof (induction rule: sched_reach.induct)
  case (boot s)
  then show ?case using tcb_init_inv [of n k] by auto
next
  case (step s s')
  then show ?case using sched_step_inv by blast
qed

subsection \<open>The properties\<close>


text \<open>A short run: two threads are created and scheduled on two CPUs, the first waits on a futex with a time-out,
  the second wakes it.\<close>

definition demo_boot :: ksched where "demo_boot = the (tcb_init 2 (boot_sched 1))"
definition demo_one :: ksched where "demo_one = fst (the (create_thread demo_boot))"
definition demo_two :: ksched where "demo_two = fst (the (create_thread demo_one))"
definition demo_run :: ksched where "demo_run = thread_scheduler (thread_scheduler demo_two 0) 1"
definition demo_wait :: ksched where
  "demo_wait = fst (the (do_futex demo_run 0 100 0 (Some 7) 7 (Some 50) 0 0 0 0))"
definition demo_woken :: ksched where
  "demo_woken = fst (the (do_futex demo_wait 1 100 1 None 1 None 0 0 0 0))"

lemma not_none_the: "\<not> Option.is_none x \<Longrightarrow> x = Some (the x)"
  by (simp add: Option.is_none_def)

lemma create_reach:
  assumes "sched_reach n k s" "\<not> Option.is_none (create_thread s)"
  shows "sched_reach n k (fst (the (create_thread s)))"
  using assms(1) not_none_the [OF assms(2)] by (metis sched_reach.step sched_step.create prod.collapse)

lemma schedule_reach:
  assumes "sched_reach n k s" "cpu_thread s c = None"
  shows "sched_reach n k (thread_scheduler s c)"
  using assms by (metis sched_reach.step sched_step.schedule)

lemma futex_reach:
  assumes "sched_reach n k s" "cpu_thread s c = Some t" "op AND FUTEX_CMD_MASK \<in> {0, 1, 3}"
  shows "sched_reach n k (fst (the (do_futex s c a op u val ts a2 val2 0 rd)))"
proof -
  obtain s' r where r: "do_futex s c a op u val ts a2 val2 0 rd = Some (s', r)"
    using do_futex_ok [OF sched_reach_inv [OF assms(1)] assms(2,3)] by blast
  show ?thesis
    using sched_reach.step [OF assms(1) sched_step.futex [OF assms(2,3) r]] r by simp
qed

lemma demo_reach: "sched_reach 2 1 demo_run" "sched_reach 2 1 demo_wait" "sched_reach 2 1 demo_woken"
proof -
  have 0: "sched_reach 2 1 demo_boot"
    unfolding demo_boot_def by (rule sched_reach.boot, rule not_none_the) code_simp
  have 1: "sched_reach 2 1 demo_one"
    unfolding demo_one_def by (rule create_reach [OF 0]) code_simp
  have 2: "sched_reach 2 1 demo_two"
    unfolding demo_two_def by (rule create_reach [OF 1]) code_simp
  have "cpu_thread demo_two 0 = None" "cpu_thread (thread_scheduler demo_two 0) 1 = None"
    by code_simp+
  then show 3: "sched_reach 2 1 demo_run"
    unfolding demo_run_def using 2 by (intro schedule_reach)
  have c: "cpu_thread demo_run 0 = Some 0" "cpu_thread demo_wait 1 = Some 1"
    "0 AND FUTEX_CMD_MASK \<in> {0, 1, 3}" "1 AND FUTEX_CMD_MASK \<in> {0, 1, 3}"
    by code_simp+
  show 4: "sched_reach 2 1 demo_wait"
    unfolding demo_wait_def by (rule futex_reach [OF 3 c(1,3)])
  show "sched_reach 2 1 demo_woken"
    unfolding demo_woken_def by (rule futex_reach [OF 4 c(2,4)])
qed

text \<open>Instead of the second thread's whole wake-up, its first half: the sleeper is off its queue and still asleep.\<close>

definition demo_taken :: ksched where
  "demo_taken = (let (s, _) = Queue_provide_atomic demo_wait (WQ 1) True in s\<lparr>taken := (taken demo_wait)(0 := True)\<rparr>)"

lemma demo_taken_reach: "sched_reach 2 1 demo_taken"
proof -
  have "snd (Queue_provide_atomic demo_wait (WQ 1) True) = Some 0" by code_simp
  then obtain s where s: "Queue_provide_atomic demo_wait (WQ 1) True = (s, Some 0)" by (metis prod.collapse)
  show ?thesis
    using sched_reach.step [OF demo_reach(2) sched_step.take [OF s]] s by (simp add: demo_taken_def)
qed




text \<open>C35.  \<open>futex_wakeup\<close> on a futex with waiting threads wakes the \<open>nr_wake\<close> threads that have waited longest (all of
  them if there are fewer), appends them to the run queue in the order in which they went to sleep,
  returns their number, and frees the futex exactly when nobody is left; it always returns.\<close>

theorem futex_wakeup_fifo:
  assumes "sched_reach n k s" and "futex_map s a = Some w"
  shows "\<exists>s' m. futex_wakeup s a nr = Some (s', int m) \<and> m = min (length (qlist s (WQ w))) (nat nr) \<and>
    qlist s' (TQ TCB_RUNNABLE) = qlist s (TQ TCB_RUNNABLE) @ take m (qlist s (WQ w)) \<and>
    qlist s' (WQ w) = drop m (qlist s (WQ w)) \<and>
    t_state s' = (\<lambda>t. if t \<in> set (take m (qlist s (WQ w))) then TCB_RUNNABLE else t_state s t) \<and>
    futex_map s' = (if qlist s' (WQ w) = [] then (futex_map s)(a := None) else futex_map s)"
proof -
  obtain s1 m where m: "m = min (length (qlist s (WQ w))) (nat nr)" and wk: "woken n w (take m (qlist s (WQ w))) s s1"
    and r: "futex_wakeup s a nr = Some (if m = length (qlist s (WQ w)) then futex_free s1 a else s1, int m)"
    using futex_wakeup_inv(2) [OF sched_reach_inv [OF assms(1)] assms(2), of nr] by blast
  have q: "qlist s1 (WQ w) = drop m (qlist s (WQ w))"
    using wk unfolding woken_def by (metis append_eq_append_conv append_take_drop_id)
  define s' where s': "s' = (if m = length (qlist s (WQ w)) then futex_free s1 a else s1)"
  have "qlist s' = qlist s1" "t_state s' = t_state s1"
    "futex_map s' = (if m = length (qlist s (WQ w)) then (futex_map s1)(a := None) else futex_map s1)"
    by (simp_all add: s')
  moreover have "drop m (qlist s (WQ w)) = [] \<longleftrightarrow> m = length (qlist s (WQ w))"
    using m by auto
  moreover have "qlist s1 (TQ TCB_RUNNABLE) = qlist s (TQ TCB_RUNNABLE) @ take m (qlist s (WQ w))" "futex_map s1 = futex_map s"
    "t_state s1 = (\<lambda>t. if t \<in> set (take m (qlist s (WQ w))) then TCB_RUNNABLE else t_state s t)"
    using wk unfolding woken_def by blast+
  ultimately show ?thesis
    using q r unfolding s' [symmetric] m [symmetric] by (intro exI [of _ s'] exI [of _ m] conjI) simp_all
qed

theorem futex_wakeup_fifo_witness:
  "futex_map demo_wait 100 = Some 1 \<and> qlist demo_wait (WQ 1) = [0] \<and>
    (\<exists>s'. futex_wakeup demo_wait 100 5 = Some (s', 1) \<and> qlist s' (WQ 1) = [] \<and> futex_map s' 100 = None)"
proof -
  have c: "futex_map demo_wait 100 = Some 1" "qlist demo_wait (WQ 1) = [0]"
    by code_simp+
  show ?thesis
    using futex_wakeup_fifo [OF demo_reach(2) c(1), of 5] c by (auto simp: fun_eq_iff)
qed

text \<open>\<open>cond_signal\<close> wakes the thread that has waited longest, if there is one, and \<open>cond_broadcast\<close> wakes all of
  them in the order in which they went to sleep, leaving the queue empty; both return.\<close>

theorem cond_wakeups_fifo:
  assumes "sched_reach n k s"
  shows "(\<exists>s'. cond_signal s w = Some s' \<and> qlist s' (WQ w) = drop 1 (qlist s (WQ w)) \<and>
      qlist s' (TQ TCB_RUNNABLE) = qlist s (TQ TCB_RUNNABLE) @ take 1 (qlist s (WQ w))) \<and>
    (\<exists>s'. cond_broadcast s w = Some s' \<and> qlist s' (WQ w) = [] \<and>
      qlist s' (TQ TCB_RUNNABLE) = qlist s (TQ TCB_RUNNABLE) @ qlist s (WQ w))"
proof -
  note inv = sched_reach_inv [OF assms]
  obtain s1 where s1: "cond_signal s w = Some s1" "woken n w (take 1 (qlist s (WQ w))) s s1"
    using cond_signal_woken [OF inv] by blast
  have "qlist s1 (WQ w) = drop 1 (qlist s (WQ w))"
    using s1(2) unfolding woken_def by (metis append_eq_append_conv append_take_drop_id)
  moreover obtain s2 where "cond_broadcast s w = Some s2" "woken n w (qlist s (WQ w)) s s2" "qlist s2 (WQ w) = []"
    using cond_broadcast_woken [OF inv] by blast
  ultimately show ?thesis
    using s1 by (auto simp: woken_def)
qed

theorem cond_wakeups_fifo_witness:
  "qlist demo_wait (WQ 1) = [0] \<and> (\<exists>s'. cond_broadcast demo_wait 1 = Some s' \<and> qlist s' (WQ 1) = [])"
proof -
  have "qlist demo_wait (WQ 1) = [0]"
    by code_simp
  then show ?thesis
    using cond_wakeups_fifo [OF demo_reach(2), of 1] by auto
qed

subsection \<open>What the unprotected sections do\<close>

lemma thread_wakeup_chan: "thread_wakeup s t = Some s' \<Longrightarrow> wait_chan_entry s' = (wait_chan_entry s)(t := None)"
  by (auto simp: thread_wakeup_def TCB_Q_changeState_def Queue_remove_atomic_def Queue_push_back_atomic_def Queue_push_back_def
      Option.bind_eq_Some_conv Let_def split: if_splits)

lemma tick_needs_chan:
  assumes "tm \<in> set l" "TIME_OUT rd tm" "wait_chan_entry s (timer_data tm) = None"
  shows "timer_list_decrease_atomic thread_wakeup_atomic rd l s = None"
  using assms
proof (induction l arbitrary: s)
  case (Cons x l)
  show ?case
  proof (cases "TIME_OUT rd x")
    case True
    show ?thesis
    proof (cases "thread_wakeup_atomic (timer_data x) s")
      case (Some s1)
      then have "wait_chan_entry s1 = (wait_chan_entry s)(timer_data x := None)"
        by (intro thread_wakeup_chan) (simp add: thread_wakeup_atomic_eq)
      moreover have "wait_chan_entry s (timer_data x) \<noteq> None"
        using Some by (cases "wait_chan_entry s (timer_data x)") (simp_all add: thread_wakeup_atomic_def)
      ultimately have "tm \<in> set l" "wait_chan_entry s1 (timer_data tm) = None"
        using Cons.prems by auto
      then show ?thesis
        using Cons.IH [OF _ Cons.prems(2)] True Some by simp
    qed (use True in simp)
  next
    case False
    then have "tm \<in> set l" using Cons.prems by auto
    then show ?thesis
      using Cons.IH Cons.prems False by simp
  qed
qed simp

text \<open>C37.  A thread whose futex wait has a time-out keeps its timer until it runs again.  In every reachable state in which a
  timer's deadline has passed and its thread no longer sleeps, because another thread woke it first, the clock
  interrupt panics: the timer's callback \<open>thread_wakeup_atomic\<close> finds no wait channel.\<close>

theorem timer_wakeup_race:
  assumes "sched_reach n k s" "tm \<in> set (timers s)" "TIME_OUT rd tm" "t_state s (timer_data tm) \<noteq> TCB_SLEEPING"
  shows "timer_list_decrease_atomic thread_wakeup_atomic rd (timers s) s = None"
proof (rule tick_needs_chan [OF assms(2,3)])
  note D = states_okD [OF sched_invD(2) [OF sched_reach_inv [OF assms(1)]]]
  show "wait_chan_entry s (timer_data tm) = None"
    using D(5,9) [of "timer_data tm"] assms(4) by (cases "timer_data tm < n") auto
qed

theorem timer_wakeup_race_witness:
  "t_state demo_woken 0 = TCB_RUNNABLE \<and> map timer_data (timers demo_woken) = [0] \<and>
    timer_list_decrease_atomic thread_wakeup_atomic 100 (timers demo_woken) demo_woken = None"
proof -
  have c: "t_state demo_woken 0 = TCB_RUNNABLE" "map timer_data (timers demo_woken) = [0]" "list_all (TIME_OUT 100) (timers demo_woken)"
    by code_simp+
  then obtain tm where "timers demo_woken = [tm]" "timer_data tm = 0" by (cases "timers demo_woken") auto
  then show ?thesis
    using timer_wakeup_race [OF demo_reach(3), of tm 100] c by simp
qed

text \<open>A signal sent to a thread that a waker has taken off its queue wakes the thread; the waker then finds it awake and
  panics.\<close>

lemma signal_to_taken_thread:
  assumes inv: "sched_reach n k s" and t: "taken s t" and w: "wait_chan_entry s t = Some w" "\<not> freed_wq s w"
  shows "\<exists>s'. thread_send_signal s t signo = Some s' \<and> wake_taken s' t = None"
proof -
  note D = states_okD [OF sched_invD(2) [OF sched_reach_inv [OF inv]]]
  have "t < n" "t_state s t = TCB_SLEEPING" using D(10,11) [OF t] .
  from thread_send_signal_inv [OF sched_reach_inv [OF inv] this(1), of signo] this(2) w obtain s'
    where "thread_send_signal s t signo = Some s'" "t_state s' t = TCB_RUNNABLE" by auto
  then show ?thesis by (simp add: wake_taken_def)
qed

text \<open>\<open>futex_requeue\<close> moves a thread to another queue but leaves its channel, and frees the first futex if its queue
  is then empty: a signal to the thread uses the freed queue.\<close>

definition demo_requeued :: ksched where
  "demo_requeued = fst (the (do_futex demo_wait 1 100 3 None 0 None 200 1 0 0))"

lemma requeue_leaves_freed_channel:
  "sched_reach 2 1 demo_requeued \<and> t_state demo_requeued 0 = TCB_SLEEPING \<and> qlist demo_requeued (WQ 2) = [0] \<and>
    wait_chan_entry demo_requeued 0 = Some 1 \<and> freed_wq demo_requeued 1 \<and> thread_send_signal demo_requeued 0 SIGKILL = None"
proof -
  have c: "cpu_thread demo_wait 1 = Some 1" "3 AND FUTEX_CMD_MASK \<in> {0, 1, 3}" by code_simp+
  have r: "sched_reach 2 1 demo_requeued"
    unfolding demo_requeued_def by (rule futex_reach [OF demo_reach(2) c])
  have s: "t_state demo_requeued 0 = TCB_SLEEPING" "qlist demo_requeued (WQ 2) = [0]" "wait_chan_entry demo_requeued 0 = Some 1"
    "freed_wq demo_requeued 1" by code_simp+
  then show ?thesis
    using r by (simp add: thread_send_signal_def thread_wakeup_freed)
qed

text \<open>\<open>do_exit_group\<close> on a sleeping thread: \<open>free_thread\<close> panics unless the table's first thread sleeps too, and then leaves the
  freed entry in its wait queue.\<close>

lemma free_thread_sleeping:
  assumes "sched_reach n k s" "t < n" "t_state s t = TCB_SLEEPING"
  shows "t_state s 0 \<noteq> TCB_SLEEPING \<Longrightarrow> free_thread s t = None"
    "t_state s 0 = TCB_SLEEPING \<Longrightarrow> t \<in> set (qlist s (WQ w)) \<Longrightarrow>
       \<exists>s'. free_thread s t = Some s' \<and> t_state s' t = TCB_UNUSED \<and> t \<in> set (qlist s' (WQ w))"
proof -
  note I = sched_invD [OF sched_reach_inv [OF assms(1)]]
  have w: "wait_chan_entry s t \<noteq> None" using states_okD(5) [OF I(2) assms(2)] assms(3) by simp
  then show "t_state s 0 \<noteq> TCB_SLEEPING \<Longrightarrow> free_thread s t = None" by (simp add: free_thread_def)
  assume z: "t_state s 0 = TCB_SLEEPING" and q: "t \<in> set (qlist s (WQ w))"
  let ?s = "s\<lparr>wait_chan_entry := (wait_chan_entry s)(0 := None), t_killed := (t_killed s)(t := False)\<rparr>"
  have "links_ok ?s" using I(1) by (simp add: links_ok_def)
  then obtain s' where "TCB_Q_changeState ?s t TCB_UNUSED = Some s'" "moved t TCB_UNUSED ?s s'"
    using TCB_Q_changeState_moved [of ?s TCB_UNUSED t] by auto
  then show "\<exists>s'. free_thread s t = Some s' \<and> t_state s' t = TCB_UNUSED \<and> t \<in> set (qlist s' (WQ w))"
    using w z q by (simp add: free_thread_def moved_def)
qed

end
