(* ===== verification/MapStore.thy ===== *)
theory MapStore
  imports Prelude
begin

text \<open>
  The contract of a keyed store in the kernel: a lookup after an insertion of a free key returns the inserted value, a lookup
  after a deletion returns nothing, and no other key is affected.  \<open>same\<close> is the equality of keys the
  store uses, which may be coarser than equality.  A client sees only a sequence of requests; \<open>store_run\<close>
  plays such a sequence on the store and \<open>map_run\<close> on a function.  The radix tree and the hash tables are the providers.
\<close>

datatype ('k, 'v) store_op = Put 'k 'v | Del 'k

fun store_run ::
  "('s \<Rightarrow> 'k \<Rightarrow> 'v \<Rightarrow> 's option) \<Rightarrow> ('s \<Rightarrow> 'k \<Rightarrow> 's option) \<Rightarrow> 's \<Rightarrow> ('k, 'v) store_op list \<Rightarrow> 's option" where
  "store_run put del s [] = Some s"
| "store_run put del s (Put k v # ops) = Option.bind (put s k v) (\<lambda>s. store_run put del s ops)"
| "store_run put del s (Del k # ops) = Option.bind (del s k) (\<lambda>s. store_run put del s ops)"

fun map_run :: "('k \<Rightarrow> 'k \<Rightarrow> bool) \<Rightarrow> ('k \<Rightarrow> 'v option) \<Rightarrow> ('k, 'v) store_op list \<Rightarrow> ('k \<Rightarrow> 'v option)" where
  "map_run same m [] = m"
| "map_run same m (Put k v # ops) = map_run same (\<lambda>k'. if same k k' then Some v else m k') ops"
| "map_run same m (Del k # ops) = map_run same (\<lambda>k'. if same k k' then None else m k') ops"

text \<open>A sequence is legal if its keys are admissible and it inserts only keys that are free at that point.\<close>

fun legal_ops :: "('k \<Rightarrow> bool) \<Rightarrow> ('k \<Rightarrow> 'k \<Rightarrow> bool) \<Rightarrow> ('k \<Rightarrow> 'v option) \<Rightarrow> ('k, 'v) store_op list \<Rightarrow> bool" where
  "legal_ops key_ok same m [] = True"
| "legal_ops key_ok same m (Put k v # ops) \<longleftrightarrow> key_ok k \<and> m k = None \<and> legal_ops key_ok same (\<lambda>k'. if same k k' then Some v else m k') ops"
| "legal_ops key_ok same m (Del k # ops) \<longleftrightarrow> key_ok k \<and> legal_ops key_ok same (\<lambda>k'. if same k k' then None else m k') ops"

locale map_store =
  fixes inv :: "'s \<Rightarrow> bool"
    and look :: "'s \<Rightarrow> 'k \<Rightarrow> 'v option"
    and put :: "'s \<Rightarrow> 'k \<Rightarrow> 'v \<Rightarrow> 's option"
    and del :: "'s \<Rightarrow> 'k \<Rightarrow> 's option"
    and key_ok :: "'k \<Rightarrow> bool"
    and same :: "'k \<Rightarrow> 'k \<Rightarrow> bool"
  assumes put_law: "inv s \<Longrightarrow> key_ok k \<Longrightarrow> look s k = None \<Longrightarrow>
      \<exists>s'. put s k v = Some s' \<and> inv s' \<and> look s' = (\<lambda>k'. if same k k' then Some v else look s k')"
    and del_law: "inv s \<Longrightarrow> key_ok k \<Longrightarrow>
      \<exists>s'. del s k = Some s' \<and> inv s' \<and> look s' = (\<lambda>k'. if same k k' then None else look s k')"
    and same_refl: "key_ok k \<Longrightarrow> same k k"
begin

lemma run_refines:
  assumes "inv s" "legal_ops key_ok same (look s) ops"
  shows "\<exists>s'. store_run put del s ops = Some s' \<and> inv s' \<and> look s' = map_run same (look s) ops"
  using assms
proof (induction ops arbitrary: s)
  case (Cons op ops)
  show ?case
  proof (cases op)
    case (Put k v)
    then obtain s1 where s1: "put s k v = Some s1" "inv s1" "look s1 = (\<lambda>k'. if same k k' then Some v else look s k')"
      using put_law [of s k v] Cons.prems by auto
    then have "legal_ops key_ok same (look s1) ops"
      using Cons.prems(2) Put by simp
    from Cons.IH [OF s1(2) this] s1 show ?thesis
      unfolding Put by auto
  next
    case (Del k)
    then obtain s1 where s1: "del s k = Some s1" "inv s1" "look s1 = (\<lambda>k'. if same k k' then None else look s k')"
      using del_law [of s k] Cons.prems by auto
    then have "legal_ops key_ok same (look s1) ops"
      using Cons.prems(2) Del by simp
    from Cons.IH [OF s1(2) this] s1 show ?thesis
      unfolding Del by auto
  qed
qed simp

text \<open>What was just inserted is found, and deleting it brings back the old contents.\<close>

lemma put_look:
  assumes "inv s" "key_ok k" "look s k = None"
  shows "\<exists>s'. put s k v = Some s' \<and> look s' k = Some v"
  using put_law [OF assms, of v] same_refl [OF assms(2)] by auto

lemma put_del:
  assumes "inv s" "key_ok k" "\<And>k'. same k k' \<Longrightarrow> look s k' = None" "look s k = None"
  shows "\<exists>s1 s2. put s k v = Some s1 \<and> del s1 k = Some s2 \<and> inv s2 \<and> look s2 = look s"
proof -
  obtain s1 where s1: "put s k v = Some s1" "inv s1" "look s1 = (\<lambda>k'. if same k k' then Some v else look s k')"
    using put_law [OF assms(1,2,4), of v] by blast
  obtain s2 where s2: "del s1 k = Some s2" "inv s2" "look s2 = (\<lambda>k'. if same k k' then None else look s1 k')"
    using del_law [OF s1(2) assms(2)] by blast
  have "look s2 = look s"
    unfolding s2(3) s1(3) using assms(3) by auto
  then show ?thesis
    using s1 s2 by blast
qed

end

end
