(* ===== verification/RadixTree.thy ===== *)
theory RadixTree
  imports MapStore
begin

unbundle bit_operations_syntax

text \<open>
  The radix tree of the page cache: \<open>src/lib/radix-tree.c\<close>.

  A slot holds a null pointer, a data item or a pointer to a node.  The code tells the last two apart by the
  level it is at (and, in the root, by the low bit of the pointer); reading one where the code expects the
  other has no result here.  The loops that walk down with \<open>height\<close> and \<open>shift\<close>, and back up along the
  \<open>path\<close> array, are recursions on the height that rebuild the path.  Tags are kept as in the code, one 64-bit
  word per tag in each node and two bits of \<open>gfp_mask\<close> in the root.  A page index is a natural number below
  \<open>2 ^ 64\<close>.
\<close>

datatype 'a slot =
    RNull
  | RItem 'a
  | RNode (node_height: nat) (node_count: nat) (slots: "'a slot list") (tags: "uint64 list")

record 'a radix_tree_root =
  rt_height :: nat
  rnode :: "'a slot"
  gfp_mask :: uint

definition RADIX_TREE_MAP_SHIFT :: nat where "RADIX_TREE_MAP_SHIFT = 6"
definition RADIX_TREE_MAP_SIZE :: nat where "RADIX_TREE_MAP_SIZE = 64"
definition RADIX_TREE_MAX_PATH :: nat where "RADIX_TREE_MAX_PATH = 11"
definition GFP_BITS_SHIFT :: nat where "GFP_BITS_SHIFT = 22"

definition INIT_RADIX_TREE :: "uint \<Rightarrow> 'a radix_tree_root" where
  "INIT_RADIX_TREE gm = \<lparr>rt_height = 0, rnode = RNull, gfp_mask = gm\<rparr>"

subsection \<open>Tags\<close>

definition tag_set :: "uint64 list \<Rightarrow> nat \<Rightarrow> nat \<Rightarrow> uint64 list" where
  "tag_set tg tag offset = tg[tag := set_bit offset (tg ! tag)]"

definition tag_clear :: "uint64 list \<Rightarrow> nat \<Rightarrow> nat \<Rightarrow> uint64 list" where
  "tag_clear tg tag offset = tg[tag := unset_bit offset (tg ! tag)]"

definition tag_get :: "uint64 list \<Rightarrow> nat \<Rightarrow> nat \<Rightarrow> bool" where
  "tag_get tg tag offset = bit (tg ! tag) offset"

definition root_tag_set :: "'a radix_tree_root \<Rightarrow> nat \<Rightarrow> 'a radix_tree_root" where
  "root_tag_set root tag = root\<lparr>gfp_mask := gfp_mask root OR push_bit (tag + GFP_BITS_SHIFT) 1\<rparr>"

definition root_tag_get :: "'a radix_tree_root \<Rightarrow> nat \<Rightarrow> bool" where
  "root_tag_get root tag \<longleftrightarrow> gfp_mask root AND push_bit (tag + GFP_BITS_SHIFT) 1 \<noteq> 0"

definition root_tag_clear :: "'a radix_tree_root \<Rightarrow> nat \<Rightarrow> 'a radix_tree_root" where
  "root_tag_clear root tag = root\<lparr>gfp_mask := gfp_mask root AND NOT (push_bit (tag + GFP_BITS_SHIFT) 1)\<rparr>"

definition root_tag_clear_all :: "'a radix_tree_root \<Rightarrow> 'a radix_tree_root" where
  "root_tag_clear_all root = root\<lparr>gfp_mask := gfp_mask root AND mask GFP_BITS_SHIFT\<rparr>"

text \<open>A node has one word per tag, so \<open>any_tag_set\<close> looks at one word.\<close>

definition any_tag_set :: "uint64 list \<Rightarrow> nat \<Rightarrow> bool" where
  "any_tag_set tg tag \<longleftrightarrow> tg ! tag \<noteq> 0"

subsection \<open>Auxiliary functions\<close>

text \<open>The constant 1 in \<open>1 << (height * RADIX_TREE_MAP_SHIFT)\<close> is an \<open>int\<close>, so the shift is undefined from height 6 on,
  although \<open>RADIX_TREE_MAX_PATH\<close> is 11.\<close>

definition radix_tree_maxindex :: "nat \<Rightarrow> nat option" where
  "radix_tree_maxindex height = do {
     ASSERT (height \<le> RADIX_TREE_MAX_PATH);
     ASSERT (height * RADIX_TREE_MAP_SHIFT < 31);
     Some (2 ^ (height * RADIX_TREE_MAP_SHIFT) - 1) }"

text \<open>The offset of \<open>index\<close> in a node of height \<open>Suc h\<close>, where \<open>shift\<close> is \<open>h * RADIX_TREE_MAP_SHIFT\<close>.\<close>

definition slot_off :: "nat \<Rightarrow> nat \<Rightarrow> nat" where
  "slot_off h index = index div 2 ^ (h * RADIX_TREE_MAP_SHIFT) mod RADIX_TREE_MAP_SIZE"

fun tag_set_walk :: "nat \<Rightarrow> nat \<Rightarrow> nat \<Rightarrow> 'a slot \<Rightarrow> ('a slot \<times> 'a slot) option" where
  "tag_set_walk 0 index tag slot = Some (slot, slot)"
| "tag_set_walk (Suc h) index tag slot =
     (case slot of
        RNode ht c sl tg \<Rightarrow> do {
          let offset = slot_off h index;
          let tg = (if \<not> tag_get tg tag offset then tag_set tg tag offset else tg);
          ASSERT (sl ! offset \<noteq> RNull);
          (child, item) \<leftarrow> tag_set_walk h index tag (sl ! offset);
          Some (RNode ht c (sl[offset := child]) tg, item) }
      | _ \<Rightarrow> None)"

definition radix_tree_tag_set :: "'a radix_tree_root \<Rightarrow> nat \<Rightarrow> nat \<Rightarrow> ('a radix_tree_root \<times> 'a slot) option" where
  "radix_tree_tag_set root index tag = do {
     m \<leftarrow> radix_tree_maxindex (rt_height root);
     ASSERT (index \<le> m);
     (node, item) \<leftarrow> tag_set_walk (rt_height root) index tag (rnode root);
     let root = root\<lparr>rnode := node\<rparr>;
     Some (if item \<noteq> RNull \<and> \<not> root_tag_get root tag then root_tag_set root tag else root, item) }"

text \<open>Down to the item and up again; the flag tells whether the loop that goes up continues above this node.\<close>

fun tag_clear_walk :: "nat \<Rightarrow> nat \<Rightarrow> nat \<Rightarrow> 'a slot \<Rightarrow> ('a slot \<times> 'a slot \<times> bool) option" where
  "tag_clear_walk 0 index tag slot = Some (slot, slot, slot \<noteq> RNull)"
| "tag_clear_walk (Suc h) index tag slot =
     (case slot of
        RNull \<Rightarrow> Some (RNull, RNull, False)
      | RItem _ \<Rightarrow> None
      | RNode ht c sl tg \<Rightarrow> do {
          let offset = slot_off h index;
          (child, item, up) \<leftarrow> tag_clear_walk h index tag (sl ! offset);
          let sl = sl[offset := child];
          Some (if \<not> up \<or> \<not> tag_get tg tag offset then (RNode ht c sl tg, item, False)
                else let tg = tag_clear tg tag offset
                     in (RNode ht c sl tg, item, \<not> any_tag_set tg tag)) })"

definition radix_tree_tag_clear :: "'a radix_tree_root \<Rightarrow> nat \<Rightarrow> nat \<Rightarrow> ('a radix_tree_root \<times> 'a slot) option" where
  "radix_tree_tag_clear root index tag = do {
     m \<leftarrow> radix_tree_maxindex (rt_height root);
     if index > m then Some (root, RNull)
     else do {
       (node, item, up) \<leftarrow> tag_clear_walk (rt_height root) index tag (rnode root);
       let root = root\<lparr>rnode := node\<rparr>;
       Some (if up \<and> root_tag_get root tag then root_tag_clear root tag else root, item) } }"

fun tag_get_walk :: "nat \<Rightarrow> nat \<Rightarrow> nat \<Rightarrow> 'a slot \<Rightarrow> bool option" where
  "tag_get_walk 0 index tag slot = None"
| "tag_get_walk (Suc h) index tag slot =
     (case slot of
        RNull \<Rightarrow> Some False
      | RItem _ \<Rightarrow> None
      | RNode ht c sl tg \<Rightarrow>
          let offset = slot_off h index
          in if h = 0 then Some (tag_get tg tag offset) else tag_get_walk h index tag (sl ! offset))"

definition radix_tree_tag_get :: "'a radix_tree_root \<Rightarrow> nat \<Rightarrow> nat \<Rightarrow> bool option" where
  "radix_tree_tag_get root index tag =
     (if \<not> root_tag_get root tag then Some False
      else case rnode root of
        RNull \<Rightarrow> Some False
      | RItem _ \<Rightarrow> Some (index = 0)
      | RNode ht c sl tg \<Rightarrow> do {
          m \<leftarrow> radix_tree_maxindex ht;
          if index > m then Some False else tag_get_walk ht index tag (rnode root) })"

subsection \<open>Allocation and lookup\<close>

text \<open>The callers set the height of the new, zeroed node at once.  That memory for the node is found is taken for granted; the code panics otherwise.\<close>

definition radix_tree_node_alloc :: "nat \<Rightarrow> 'a slot" where
  "radix_tree_node_alloc height = RNode height 0 (replicate RADIX_TREE_MAP_SIZE RNull) [0, 0]"

fun lookup_walk :: "nat \<Rightarrow> nat \<Rightarrow> 'a slot \<Rightarrow> 'a slot option" where
  "lookup_walk 0 index slot = Some slot"
| "lookup_walk (Suc h) index slot =
     (case slot of
        RNull \<Rightarrow> Some RNull
      | RItem _ \<Rightarrow> None
      | RNode ht c sl tg \<Rightarrow> lookup_walk h index (sl ! slot_off h index))"

text \<open>With \<open>is_slot\<close> the code returns the address of the slot that holds the item: the offsets on the way to it.\<close>

definition radix_tree_lookup_element :: "'a radix_tree_root \<Rightarrow> nat \<Rightarrow> ('a slot \<times> nat list option) option" where
  "radix_tree_lookup_element root index =
     (case rnode root of
        RNode ht c sl tg \<Rightarrow> do {
          m \<leftarrow> radix_tree_maxindex ht;
          if index > m then Some (RNull, None)
          else do {
            item \<leftarrow> lookup_walk ht index (rnode root);
            Some (item, if item = RNull then None else Some (map (\<lambda>h. slot_off h index) (rev [0 ..< ht]))) } }
      | node \<Rightarrow> Some (if index > 0 then (RNull, None) else (node, Some [])))"

definition radix_tree_lookup_node :: "'a radix_tree_root \<Rightarrow> nat \<Rightarrow> 'a slot option" where
  "radix_tree_lookup_node root index = map_option fst (radix_tree_lookup_element root index)"

definition radix_tree_lookup_slot :: "'a radix_tree_root \<Rightarrow> nat \<Rightarrow> nat list option option" where
  "radix_tree_lookup_slot root index = map_option snd (radix_tree_lookup_element root index)"

subsection \<open>Extension and insertion\<close>

function extend_height :: "nat \<Rightarrow> nat \<Rightarrow> nat option" where
  "extend_height index height = do {
     m \<leftarrow> radix_tree_maxindex height;
     if index > m then extend_height index (height + 1) else Some height }"
  by pat_completeness auto

termination
  by (relation "measure (\<lambda>(index, height). 12 - height)")
    (auto simp: radix_tree_maxindex_def RADIX_TREE_MAX_PATH_def)

fun extend_loop :: "nat \<Rightarrow> 'a radix_tree_root \<Rightarrow> 'a radix_tree_root" where
  "extend_loop 0 root = root"
| "extend_loop (Suc n) root =
     (let tg = [0, 0];
          tg = (if root_tag_get root 0 then tag_set tg 0 0 else tg);
          tg = (if root_tag_get root 1 then tag_set tg 1 0 else tg);
          newheight = rt_height root + 1;
          node = RNode newheight 1 ((slots (radix_tree_node_alloc newheight))[0 := rnode root]) tg
      in extend_loop n (root\<lparr>rnode := node, rt_height := newheight\<rparr>))"

text \<open>The loop runs until the root has the new height, at least once.\<close>

definition radix_tree_extend :: "'a radix_tree_root \<Rightarrow> nat \<Rightarrow> 'a radix_tree_root option" where
  "radix_tree_extend root index = do {
     height \<leftarrow> extend_height index (rt_height root + 1);
     Some (if rnode root = RNull then root\<lparr>rt_height := height\<rparr>
           else extend_loop (height - rt_height root) root) }"

text \<open>Arithmetic of the \<open>uint32\<close> child counter.\<close>

definition inc32 :: "nat \<Rightarrow> nat" where "inc32 c = (c + 1) mod 2 ^ 32"
definition dec32 :: "nat \<Rightarrow> nat" where "dec32 c = (if c = 0 then 2 ^ 32 - 1 else c - 1)"

text \<open>A missing node on the way down is allocated and counted in its parent; the result is \<open>False\<close> when the slot of
  the item is taken.\<close>

fun insert_walk :: "nat \<Rightarrow> nat \<Rightarrow> 'a \<Rightarrow> 'a slot \<Rightarrow> ('a slot \<times> bool) option" where
  "insert_walk 0 index item slot = Some (if slot \<noteq> RNull then (slot, False) else (RItem item, True))"
| "insert_walk (Suc h) index item slot =
     (case (if slot = RNull then radix_tree_node_alloc (Suc h) else slot) of
        RNode ht c sl tg \<Rightarrow> do {
          let offset = slot_off h index;
          (child, done) \<leftarrow> insert_walk h index item (sl ! offset);
          let c = (if sl ! offset = RNull then inc32 c else c);
          ASSERT (h = 0 \<and> done \<longrightarrow> \<not> tag_get tg 0 offset);
          ASSERT (h = 0 \<and> done \<longrightarrow> \<not> tag_get tg 1 offset);
          Some (RNode ht c (sl[offset := child]) tg, done) }
      | _ \<Rightarrow> None)"

definition radix_tree_insert :: "'a radix_tree_root \<Rightarrow> nat \<Rightarrow> 'a \<Rightarrow> ('a radix_tree_root \<times> int) option" where
  "radix_tree_insert root index item = do {
     m \<leftarrow> radix_tree_maxindex (rt_height root);
     root \<leftarrow> (if index > m then radix_tree_extend root index else Some root);
     (node, done) \<leftarrow> insert_walk (rt_height root) index item (rnode root);
     ASSERT (rt_height root = 0 \<and> done \<longrightarrow> \<not> root_tag_get root 0 \<and> \<not> root_tag_get root 1);
     Some (root\<lparr>rnode := node\<rparr>, if done then 0 else -1) }"

subsection \<open>Shrinking and deletion\<close>

text \<open>\<open>radix_tree_node_free\<close> wipes the node and returns it to the allocator; nothing refers to it any more.\<close>

fun shrink_loop :: "nat \<Rightarrow> 'a slot \<Rightarrow> (nat \<times> 'a slot) option" where
  "shrink_loop 0 node = Some (0, node)"
| "shrink_loop (Suc h) node =
     (case node of
        RNode ht c sl tg \<Rightarrow>
          if c \<noteq> 1 then Some (Suc h, node)
          else if sl ! 0 = RNull then Some (Suc h, node)
          else shrink_loop h (sl ! 0)
      | _ \<Rightarrow> None)"

definition radix_tree_shrink :: "'a radix_tree_root \<Rightarrow> 'a radix_tree_root option" where
  "radix_tree_shrink root = do {
     (h, node) \<leftarrow> shrink_loop (rt_height root) (rnode root);
     Some (root\<lparr>rnode := node, rt_height := h\<rparr>) }"

text \<open>The way up of \<open>radix_tree_delete\<close>: below this slot everything was freed, or the loop has stopped at this node
  because it still has children, or further below.\<close>

datatype del_status = Freed | StopHere | StopBelow

fun delete_walk :: "nat \<Rightarrow> nat \<Rightarrow> 'a slot \<Rightarrow> ('a slot \<times> del_status) option" where
  "delete_walk 0 index slot = Some (RNull, Freed)"
| "delete_walk (Suc h) index slot =
     (case slot of
        RNode ht c sl tg \<Rightarrow> do {
          let offset = slot_off h index;
          (child, st) \<leftarrow> delete_walk h index (sl ! offset);
          Some (if st = Freed
                then (let c = dec32 c
                      in if c \<noteq> 0 then (RNode ht c (sl[offset := RNull]) tg, StopHere) else (RNull, Freed))
                else (RNode ht c (sl[offset := child]) tg, StopBelow)) }
      | _ \<Rightarrow> None)"

text \<open>The tag of the item in its leaf node, and the loop over the tags.\<close>

definition delete_tag :: "nat \<Rightarrow> nat \<Rightarrow> 'a radix_tree_root \<Rightarrow> 'a radix_tree_root option" where
  "delete_tag index tag root = do {
     b \<leftarrow> tag_get_walk (rt_height root) index tag (rnode root);
     if b then map_option fst (radix_tree_tag_clear root index tag) else Some root }"

definition radix_tree_delete :: "'a radix_tree_root \<Rightarrow> nat \<Rightarrow> ('a radix_tree_root \<times> 'a slot) option" where
  "radix_tree_delete root index = do {
     m \<leftarrow> radix_tree_maxindex (rt_height root);
     if index > m then Some (root, RNull)
     else if rt_height root = 0 then Some ((root_tag_clear_all root)\<lparr>rnode := RNull\<rparr>, rnode root)
     else do {
       item \<leftarrow> lookup_walk (rt_height root) index (rnode root);
       if item = RNull then Some (root, RNull)
       else do {
         root \<leftarrow> delete_tag index 0 root;
         root \<leftarrow> delete_tag index 1 root;
         (node, st) \<leftarrow> delete_walk (rt_height root) index (rnode root);
         root \<leftarrow> (case st of
             Freed \<Rightarrow> Some ((root_tag_clear_all root)\<lparr>rt_height := 0, rnode := RNull\<rparr>)
           | StopHere \<Rightarrow> radix_tree_shrink (root\<lparr>rnode := node\<rparr>)
           | StopBelow \<Rightarrow> Some (root\<lparr>rnode := node\<rparr>));
         Some (root, item) } } }"

subsection \<open>Gang lookup\<close>

text \<open>The callback is modelled by the list of its calls, each with the page index and the item.  \<open>tag\<close> is \<open>None\<close> for the
  invalid tag \<open>-1\<close>.  The inner loop of \<open>radix_tree_lookup_batch_elements\<close> looks for a used or tagged slot from the
  offset of \<open>index\<close> on.\<close>

fun batch_scan :: "(nat \<Rightarrow> bool) \<Rightarrow> nat \<Rightarrow> nat list \<Rightarrow> nat \<Rightarrow> nat option \<times> nat" where
  "batch_scan P shift [] index = (None, index)"
| "batch_scan P shift (i # is) index =
     (if P i then (Some i, index)
      else let index = (index - index mod 2 ^ shift + 2 ^ shift) mod 2 ^ 64
           in if index = 0 then (None, index) else batch_scan P shift is index)"

text \<open>The outer loop: the leaf node to take items from and the index reached, or no node on \<open>goto out\<close>.\<close>

fun batch_down :: "nat option \<Rightarrow> nat \<Rightarrow> 'a slot \<Rightarrow> nat \<Rightarrow> ('a slot option \<times> nat) option" where
  "batch_down tag 0 slot index = None"
| "batch_down tag (Suc h) slot index =
     (case slot of
        RNode ht c sl tg \<Rightarrow>
          if h = 0 \<and> tag = None then Some (Some slot, index)
          else (case batch_scan (\<lambda>i. case tag of Some g \<Rightarrow> tag_get tg g i | None \<Rightarrow> sl ! i \<noteq> RNull)
                       (h * RADIX_TREE_MAP_SHIFT) [slot_off h index ..< RADIX_TREE_MAP_SIZE] index of
                  (None, index) \<Rightarrow> Some (None, index)
                | (Some i, index) \<Rightarrow>
                    if h = 0 then Some (Some slot, index)
                    else if sl ! i = RNull then Some (None, index)
                    else batch_down tag h (sl ! i) index)
      | _ \<Rightarrow> None)"

fun batch_grab :: "nat option \<Rightarrow> 'a slot list \<Rightarrow> uint64 list \<Rightarrow> nat \<Rightarrow> nat list \<Rightarrow> nat \<Rightarrow> (nat \<times> 'a) list \<Rightarrow> ((nat \<times> 'a) list \<times> nat) option" where
  "batch_grab tag sl tg max_items [] index calls = Some (calls, index)"
| "batch_grab tag sl tg max_items (i # is) index calls =
     (let index' = (index + 1) mod 2 ^ 64
      in if (case tag of Some g \<Rightarrow> \<not> tag_get tg g i | None \<Rightarrow> False) then batch_grab tag sl tg max_items is index' calls
         else case sl ! i of
             RNull \<Rightarrow> batch_grab tag sl tg max_items is index' calls
           | RItem a \<Rightarrow>
               let calls = calls @ [(index, a)]
               in if length calls = max_items then Some (calls, index')
                  else batch_grab tag sl tg max_items is index' calls
           | RNode _ _ _ _ \<Rightarrow> None)"

definition radix_tree_lookup_batch_elements :: "'a slot \<Rightarrow> nat \<Rightarrow> nat \<Rightarrow> nat option \<Rightarrow> ((nat \<times> 'a) list \<times> nat) option" where
  "radix_tree_lookup_batch_elements slot index max_items tag =
     (if node_height slot = 0 then Some ([], index)
      else do {
        (b, index) \<leftarrow> batch_down tag (node_height slot) slot index;
        case b of
          None \<Rightarrow> Some ([], index)
        | Some leaf \<Rightarrow> batch_grab tag (slots leaf) (tags leaf) max_items
            [index mod RADIX_TREE_MAP_SIZE ..< RADIX_TREE_MAP_SIZE] index [] })"

definition UINT64_MAX :: nat where "UINT64_MAX = 2 ^ 64 - 1"

partial_function (option) gang_loop ::
  "'a slot \<Rightarrow> nat \<Rightarrow> nat \<Rightarrow> nat option \<Rightarrow> nat \<Rightarrow> (nat \<times> 'a) list \<Rightarrow> (nat \<times> 'a) list option" where
  "gang_loop node max_index max_items tag cur_index calls =
     (if length calls < max_items then
        if cur_index > max_index then Some calls
        else do {
          r \<leftarrow> radix_tree_lookup_batch_elements node cur_index (max_items - length calls) tag;
          if snd r = 0 then Some (calls @ fst r)
          else if max_items \<noteq> UINT64_MAX then Some (calls @ fst r)
          else gang_loop node max_index max_items tag (snd r) (calls @ fst r) }
      else Some calls)"

definition radix_tree_general_gang_lookup_elements ::
  "'a radix_tree_root \<Rightarrow> nat \<Rightarrow> nat \<Rightarrow> nat option \<Rightarrow> (nat \<times> 'a) list option" where
  "radix_tree_general_gang_lookup_elements root first_index max_items tag =
     (if (case tag of Some g \<Rightarrow> \<not> root_tag_get root g | None \<Rightarrow> False) then Some []
      else case rnode root of
        RNull \<Rightarrow> Some []
      | RItem a \<Rightarrow> Some (if first_index > 0 then [] else [(0, a)])
      | RNode ht c sl tg \<Rightarrow> do {
          max_index \<leftarrow> radix_tree_maxindex ht;
          gang_loop (rnode root) max_index max_items tag first_index [] })"

text \<open>\<open>radix_tree_free_whole_tree\<close>: the pages and nodes freed, in order; \<open>d\<close> is \<open>max_height - height\<close> and
  \<open>allocated\<close> the flag of a page.\<close>

fun radix_tree_free_whole_tree :: "('a \<Rightarrow> bool) \<Rightarrow> nat \<Rightarrow> 'a slot \<Rightarrow> ('a + unit) list option" where
  "radix_tree_free_whole_tree allocated 0 node =
     (case node of
        RNode ht c sl tg \<Rightarrow> map_option (\<lambda>xs. concat xs @ [Inr ()])
          (those (map (\<lambda>s. case s of RNull \<Rightarrow> Some [] | RItem a \<Rightarrow> Some (if allocated a then [Inl a] else []) | _ \<Rightarrow> None) sl))
      | _ \<Rightarrow> None)"
| "radix_tree_free_whole_tree allocated (Suc d) node =
     (case node of
        RNode ht c sl tg \<Rightarrow> map_option (\<lambda>xs. concat xs @ [Inr ()])
          (those (map (\<lambda>s. if s = RNull then Some [] else radix_tree_free_whole_tree allocated d s) sl))
      | _ \<Rightarrow> None)"

subsection \<open>Offsets\<close>

lemma slot_off_less [simp]: "slot_off h i < 64"
  by (simp add: slot_off_def RADIX_TREE_MAP_SIZE_def)

lemma pow_shift: "(2 :: nat) ^ (h * RADIX_TREE_MAP_SHIFT) = 64 ^ h"
  by (simp add: RADIX_TREE_MAP_SHIFT_def mult.commute [of h] power_mult)

lemma mod_Suc_eq: "i mod 64 ^ Suc h = 64 ^ h * slot_off h i + i mod 64 ^ h"
  unfolding slot_off_def pow_shift RADIX_TREE_MAP_SIZE_def power_Suc2 by (rule mod_mult2_eq)

lemma mod_Suc_cong: "j mod 64 ^ Suc h = i mod 64 ^ Suc h \<longleftrightarrow> slot_off h j = slot_off h i \<and> j mod 64 ^ h = i mod 64 ^ h"
proof
  assume e: "j mod 64 ^ Suc h = i mod 64 ^ Suc h"
  have "(j mod 64 ^ Suc h) mod 64 ^ h = j mod 64 ^ h" "(i mod 64 ^ Suc h) mod 64 ^ h = i mod 64 ^ h"
    by (simp_all add: mod_mod_cancel)
  then have "j mod 64 ^ h = i mod 64 ^ h"
    using e by simp
  then show "slot_off h j = slot_off h i \<and> j mod 64 ^ h = i mod 64 ^ h"
    using e [unfolded mod_Suc_eq] by simp
qed (simp only: mod_Suc_eq)

lemma maxindex_eq: "h \<le> 5 \<Longrightarrow> radix_tree_maxindex h = Some (64 ^ h - 1)"
  by (simp add: radix_tree_maxindex_def RADIX_TREE_MAX_PATH_def pow_shift) (simp add: RADIX_TREE_MAP_SHIFT_def)

lemma maxindex_None: "5 < h \<Longrightarrow> radix_tree_maxindex h = None"
  by (simp add: radix_tree_maxindex_def RADIX_TREE_MAP_SHIFT_def ASSERT_def)

subsection \<open>Well-formed subtrees\<close>

text \<open>A node of height \<open>Suc h\<close> has 64 slots, counts its children, has a tag only where it has a child, and above the
  leaves has it exactly where the child has the tag set anywhere.  A subtree has at least one item.\<close>

definition children :: "'a slot list \<Rightarrow> nat" where
  "children sl = length (filter (\<lambda>x. x \<noteq> RNull) sl)"

definition tags_ok :: "nat \<Rightarrow> 'a slot list \<Rightarrow> uint64 list \<Rightarrow> bool" where
  "tags_ok h sl tg \<longleftrightarrow> (\<forall>g<2. \<forall>i<64. tag_get tg g i \<longrightarrow> sl ! i \<noteq> RNull) \<and>
     (0 < h \<longrightarrow> (\<forall>g<2. \<forall>i<64. sl ! i \<noteq> RNull \<longrightarrow> tag_get tg g i = any_tag_set (tags (sl ! i)) g))"

fun rt_wf :: "nat \<Rightarrow> 'a slot \<Rightarrow> bool" where
  "rt_wf 0 s = (case s of RItem _ \<Rightarrow> True | _ \<Rightarrow> False)"
| "rt_wf (Suc h) s =
     (case s of
        RNode ht c sl tg \<Rightarrow> ht = Suc h \<and> length sl = 64 \<and> length tg = 2 \<and> c = children sl \<and> c \<noteq> 0 \<and>
          (\<forall>x \<in> set sl. x \<noteq> RNull \<longrightarrow> rt_wf h x) \<and> tags_ok h sl tg
      | _ \<Rightarrow> False)"

text \<open>What a subtree stores under an index, and whether that entry is tagged.\<close>

fun rt_get :: "nat \<Rightarrow> 'a slot \<Rightarrow> nat \<Rightarrow> 'a slot" where
  "rt_get 0 s i = s"
| "rt_get (Suc h) s i = (case s of RNode ht c sl tg \<Rightarrow> rt_get h (sl ! slot_off h i) i | _ \<Rightarrow> RNull)"

fun rt_tag :: "nat \<Rightarrow> 'a slot \<Rightarrow> nat \<Rightarrow> nat \<Rightarrow> bool" where
  "rt_tag 0 s g i = False"
| "rt_tag (Suc h) s g i =
     (case s of
        RNode ht c sl tg \<Rightarrow> if h = 0 then tag_get tg g (slot_off h i) else rt_tag h (sl ! slot_off h i) g i
      | _ \<Rightarrow> False)"

lemma rt_get_RNull [simp]: "rt_get h RNull i = RNull"
  by (cases h) auto

lemma rt_tag_RNull [simp]: "rt_tag h RNull g i = False"
  by (cases h) auto

lemma rt_wf_RNull [simp]: "\<not> rt_wf h RNull"
  by (cases h) auto

lemma rt_wf_SucE:
  assumes "rt_wf (Suc h) s"
  obtains c sl tg where "s = RNode (Suc h) c sl tg" "length sl = 64" "length tg = 2" "c = children sl" "c \<noteq> 0"
    "\<And>x. x \<in> set sl \<Longrightarrow> x \<noteq> RNull \<Longrightarrow> rt_wf h x" "tags_ok h sl tg"
  using assms by (cases s) auto

lemma wf_child:
  assumes "\<And>x. x \<in> set sl \<Longrightarrow> x \<noteq> RNull \<Longrightarrow> rt_wf h x" "length sl = 64"
  shows "sl ! slot_off h' i = RNull \<or> rt_wf h (sl ! slot_off h' i)"
  using assms by (metis nth_mem slot_off_less)

lemma children_update:
  assumes "i < length sl"
  shows "children (sl[i := x]) + (if sl ! i = RNull then 0 else 1) = children sl + (if x = RNull then 0 else 1)"
proof -
  have "children sl = children (take i sl) + (if sl ! i = RNull then 0 else 1) + children (drop (Suc i) sl)"
    by (subst id_take_nth_drop [OF assms]) (simp add: children_def)
  then show ?thesis
    using assms by (simp add: upd_conv_take_nth_drop) (simp add: children_def)
qed

lemma children_le: "children sl \<le> length sl"
  by (simp add: children_def)

lemma children_pos: "i < length sl \<Longrightarrow> sl ! i \<noteq> RNull \<Longrightarrow> 0 < children sl"
  by (auto simp: children_def filter_empty_conv)

lemma lookup_walk_get: "s = RNull \<or> rt_wf h s \<Longrightarrow> lookup_walk h i s = Some (rt_get h s i)"
proof (induction h arbitrary: s)
  case (Suc h)
  show ?case
  proof (cases "s = RNull")
    case False
    with Suc.prems have "rt_wf (Suc h) s" by simp
    then obtain c sl tg where s: "s = RNode (Suc h) c sl tg" "length sl = 64" "\<And>x. x \<in> set sl \<Longrightarrow> x \<noteq> RNull \<Longrightarrow> rt_wf h x"
      by (elim rt_wf_SucE) auto
    then show ?thesis
      using Suc.IH [OF wf_child [OF s(3,2), of h i]] by simp
  qed simp
qed simp

lemma tag_get_walk_tag: "s = RNull \<or> rt_wf (Suc h) s \<Longrightarrow> tag_get_walk (Suc h) i g s = Some (rt_tag (Suc h) s g i)"
proof (induction h arbitrary: s)
  case 0
  then show ?case by (cases s) (auto simp: Let_def)
next
  case (Suc h)
  show ?case
  proof (cases "s = RNull")
    case False
    with Suc.prems have "rt_wf (Suc (Suc h)) s" by simp
    then obtain c sl tg where s: "s = RNode (Suc (Suc h)) c sl tg" "length sl = 64" "\<And>x. x \<in> set sl \<Longrightarrow> x \<noteq> RNull \<Longrightarrow> rt_wf (Suc h) x"
      by (elim rt_wf_SucE) auto
    show ?thesis
      using Suc.IH [OF wf_child [OF s(3,2), of "Suc h" i]] s(1) by (simp add: Let_def)
  qed simp
qed

text \<open>An item sits at height 0, so what a lookup finds is an item.\<close>

lemma rt_get_item: "s = RNull \<or> rt_wf h s \<Longrightarrow> rt_get h s i = RNull \<or> (\<exists>a. rt_get h s i = RItem a)"
proof (induction h arbitrary: s)
  case 0
  then show ?case by (cases s) auto
next
  case (Suc h)
  show ?case
  proof (cases "s = RNull")
    case False
    with Suc.prems have "rt_wf (Suc h) s" by simp
    then obtain c sl tg where s: "s = RNode (Suc h) c sl tg" "length sl = 64" "\<And>x. x \<in> set sl \<Longrightarrow> x \<noteq> RNull \<Longrightarrow> rt_wf h x"
      by (elim rt_wf_SucE) auto
    show ?thesis
      using Suc.IH [OF wf_child [OF s(3,2), of h i]] s(1) by simp
  qed simp
qed

text \<open>Replacing the child at one offset, with the tags there adjusted.\<close>

lemma tags_ok_update:
  assumes ok: "tags_ok h sl tg" and len: "length sl = 64" and off: "off < 64"
    and same: "\<And>g i. g < 2 \<Longrightarrow> i < 64 \<Longrightarrow> i \<noteq> off \<Longrightarrow> tag_get tg' g i = tag_get tg g i"
    and at: "\<And>g. g < 2 \<Longrightarrow> tag_get tg' g off \<Longrightarrow> child \<noteq> RNull"
    and up: "\<And>g. g < 2 \<Longrightarrow> 0 < h \<Longrightarrow> child \<noteq> RNull \<Longrightarrow> tag_get tg' g off = any_tag_set (tags child) g"
  shows "tags_ok h (sl[off := child]) tg'"
  unfolding tags_ok_def
proof (intro conjI allI impI)
  fix g i :: nat assume g: "g < 2" and i: "i < 64"
  show "sl[off := child] ! i \<noteq> RNull" if "tag_get tg' g i"
    using that ok same [OF g i] at [OF g] g i len off by (cases "i = off") (auto simp: tags_ok_def)
  show "tag_get tg' g i = any_tag_set (tags (sl[off := child] ! i)) g" if "0 < h" "sl[off := child] ! i \<noteq> RNull"
    using that ok same [OF g i] up [OF g] g i len off by (cases "i = off") (auto simp: tags_ok_def)
qed

lemma wf_node_update:
  assumes len: "length sl = 64" "length tg' = 2" and off: "off < 64"
    and wf: "\<And>x. x \<in> set sl \<Longrightarrow> x \<noteq> RNull \<Longrightarrow> rt_wf h x" "child = RNull \<or> rt_wf h child"
    and c: "c' = children (sl[off := child])" "c' \<noteq> 0" and tg: "tags_ok h (sl[off := child]) tg'"
  shows "rt_wf (Suc h) (RNode (Suc h) c' (sl[off := child]) tg')"
  using assms by (auto dest!: set_update_subset_insert [THEN subsetD])

subsection \<open>Insertion\<close>

lemma fresh_node:
  "slots (radix_tree_node_alloc h) = replicate 64 RNull" "tags_ok h (replicate 64 RNull) [0, 0]" "children (replicate 64 RNull) = 0"
  by (auto simp: radix_tree_node_alloc_def RADIX_TREE_MAP_SIZE_def tags_ok_def tag_get_def children_def nth_Cons split: nat.splits)

lemma insert_walk_ok:
  assumes "s = RNull \<or> rt_wf h s" "rt_get h s i = RNull"
  shows "\<exists>s'. insert_walk h i x s = Some (s', True) \<and> rt_wf h s' \<and>
    (\<forall>j. rt_get h s' j = (if j mod 64 ^ h = i mod 64 ^ h then RItem x else rt_get h s j)) \<and>
    (\<forall>g<2. \<forall>j. rt_tag h s' g j = rt_tag h s g j) \<and>
    (0 < h \<longrightarrow> (\<forall>g<2. any_tag_set (tags s') g = (s \<noteq> RNull \<and> any_tag_set (tags s) g)))"
  using assms
proof (induction h arbitrary: s)
  case 0
  then show ?case by auto
next
  case (Suc h)
  obtain c sl tg where n: "(if s = RNull then radix_tree_node_alloc (Suc h) else s) = RNode (Suc h) c sl tg"
    "length sl = 64" "length tg = 2" "c = children sl" "\<And>y. y \<in> set sl \<Longrightarrow> y \<noteq> RNull \<Longrightarrow> rt_wf h y" "tags_ok h sl tg"
    and old: "\<And>j. rt_get (Suc h) s j = rt_get h (sl ! slot_off h j) j"
      "\<And>g j. g < 2 \<Longrightarrow> rt_tag (Suc h) s g j = (if h = 0 then tag_get tg g (slot_off h j) else rt_tag h (sl ! slot_off h j) g j)"
      "\<And>g. g < 2 \<Longrightarrow> any_tag_set tg g = (s \<noteq> RNull \<and> any_tag_set (tags s) g)"
  proof (cases "s = RNull")
    case True
    then show ?thesis
      using fresh_node
      by (intro that [of 0 "replicate 64 RNull" "[0, 0]"])
        (auto simp: radix_tree_node_alloc_def RADIX_TREE_MAP_SIZE_def tag_get_def any_tag_set_def less_2_cases_iff children_def)
  next
    case False
    then have "rt_wf (Suc h) s" using Suc.prems by simp
    then show ?thesis
      by (elim rt_wf_SucE) (use that False in auto)
  qed
  let ?off = "slot_off h i"
  have ch: "sl ! ?off = RNull \<or> rt_wf h (sl ! ?off)"
    by (rule wf_child [OF n(5,2)])
  obtain child where child: "insert_walk h i x (sl ! ?off) = Some (child, True)" "rt_wf h child"
    "\<And>j. rt_get h child j = (if j mod 64 ^ h = i mod 64 ^ h then RItem x else rt_get h (sl ! ?off) j)"
    "\<And>g j. g < 2 \<Longrightarrow> rt_tag h child g j = rt_tag h (sl ! ?off) g j"
    "\<And>g. g < 2 \<Longrightarrow> 0 < h \<Longrightarrow> any_tag_set (tags child) g = (sl ! ?off \<noteq> RNull \<and> any_tag_set (tags (sl ! ?off)) g)"
    using Suc.IH [OF ch] Suc.prems(2) old(1) [of i] by auto
  have child0: "child \<noteq> RNull" using child(2) by auto
  let ?c = "if sl ! ?off = RNull then inc32 c else c"
  have "children (sl[?off := child]) = (if sl ! ?off = RNull then c + 1 else c)"
    using children_update [of ?off sl child] n(2,4) child0 by (auto split: if_splits)
  moreover have "c \<le> 64"
    using n(2,4) children_le [of sl] by simp
  ultimately have c: "?c = children (sl[?off := child])" "?c \<noteq> 0"
    using children_pos [of ?off sl] n(2,4) by (auto simp: inc32_def)
  have tg0: "\<not> tag_get tg g ?off" if "g < 2" "h = 0" for g
  proof -
    have "sl ! ?off = RNull"
      using that child(1) by (simp split: if_splits)
    then show ?thesis
      using n(6) that(1) slot_off_less [of h i] unfolding tags_ok_def by metis
  qed
  have tg: "tags_ok h (sl[?off := child]) tg"
  proof (rule tags_ok_update [OF n(6,2)])
    fix g :: nat assume g: "g < 2" and h: "0 < h"
    show "tag_get tg g ?off = any_tag_set (tags child) g"
      using n(6) g h child(5) [OF g h] by (cases "sl ! ?off = RNull") (auto simp: tags_ok_def)
  qed (use child0 in auto)
  let ?s' = "RNode (Suc h) ?c (sl[?off := child]) tg"
  have "insert_walk (Suc h) i x s = Some (?s', True)"
    unfolding insert_walk.simps n(1) using child(1) tg0 [of 0] tg0 [of 1] by (auto simp: Let_def)
  moreover have "rt_wf (Suc h) ?s'"
    using c child(2) n(2,3,5) tg by (intro wf_node_update) auto
  moreover have "rt_get (Suc h) ?s' j = (if j mod 64 ^ Suc h = i mod 64 ^ Suc h then RItem x else rt_get (Suc h) s j)" for j
    unfolding mod_Suc_cong old(1) using child(3) [of j] n(2) by (cases "slot_off h j = ?off") auto
  moreover have "rt_tag (Suc h) ?s' g j = rt_tag (Suc h) s g j" if "g < 2" for g j
    unfolding old(2) [OF that] using child(4) [OF that, of j] n(2) by (cases "slot_off h j = ?off") auto
  moreover have "any_tag_set (tags ?s') g = (s \<noteq> RNull \<and> any_tag_set (tags s) g)" if "g < 2" for g
    using old(3) [OF that] by simp
  ultimately show ?case
    by blast
qed

lemma insert_walk_taken:
  assumes "rt_wf h s" "rt_get h s i \<noteq> RNull"
  shows "insert_walk h i x s = Some (s, False)"
  using assms
proof (induction h arbitrary: s)
  case (Suc h)
  then obtain c sl tg where s: "s = RNode (Suc h) c sl tg" "length sl = 64" "\<And>y. y \<in> set sl \<Longrightarrow> y \<noteq> RNull \<Longrightarrow> rt_wf h y"
    by (elim rt_wf_SucE) auto
  have g: "rt_get h (sl ! slot_off h i) i \<noteq> RNull"
    using Suc.prems(2) s(1) by simp
  then have "sl ! slot_off h i \<noteq> RNull" by auto
  moreover have "rt_wf h (sl ! slot_off h i)"
    using wf_child [OF s(3,2)] calculation by blast
  ultimately show ?case
    using Suc.IH [OF _ g] s by (simp add: Let_def)
qed auto

subsection \<open>Tag words\<close>

lemma tag_get_set: "g < length tg \<Longrightarrow> off < 64 \<Longrightarrow> tag_get (tag_set tg g off) g' i \<longleftrightarrow> (g' = g \<and> i = off) \<or> tag_get tg g' i"
  by (cases "g' = g") (auto simp: tag_get_def tag_set_def bit_simps)

lemma tag_get_clear: "g < length tg \<Longrightarrow> tag_get (tag_clear tg g off) g' i \<longleftrightarrow> tag_get tg g' i \<and> \<not> (g' = g \<and> i = off)"
  by (cases "g' = g") (auto simp: tag_get_def tag_clear_def bit_simps)

lemma length_tag_words [simp]: "length (tag_set tg g off) = length tg" "length (tag_clear tg g off) = length tg"
  by (simp_all add: tag_set_def tag_clear_def)

lemma any_tag_set_iff: "any_tag_set tg g \<longleftrightarrow> (\<exists>i<64. tag_get tg g i)"
proof -
  have "tg ! g = 0 \<longleftrightarrow> (\<forall>i<64. \<not> bit (tg ! g) i)"
    by (auto simp: bit_eq_iff)
  then show ?thesis
    by (auto simp: any_tag_set_def tag_get_def)
qed

lemma root_tag_get_bit: "root_tag_get root g \<longleftrightarrow> bit (gfp_mask root) (g + 22)"
  by (simp add: root_tag_get_def GFP_BITS_SHIFT_def bit_iff_and_push_bit_not_eq_0)

lemma root_tag_simps [simp]:
  "g' < 2 \<Longrightarrow> root_tag_get (root_tag_set root g) g' \<longleftrightarrow> g' = g \<or> root_tag_get root g'"
  "g' < 2 \<Longrightarrow> root_tag_get (root_tag_clear root g) g' \<longleftrightarrow> g' \<noteq> g \<and> root_tag_get root g'"
  "\<not> root_tag_get (root_tag_clear_all root) g'"
  "root_tag_get (root\<lparr>rnode := x\<rparr>) g' = root_tag_get root g'" "root_tag_get (root\<lparr>rt_height := k\<rparr>) g' = root_tag_get root g'"
  "rnode (root_tag_set root g) = rnode root" "rt_height (root_tag_set root g) = rt_height root"
  "rnode (root_tag_clear root g) = rnode root" "rt_height (root_tag_clear root g) = rt_height root"
  "rnode (root_tag_clear_all root) = rnode root" "rt_height (root_tag_clear_all root) = rt_height root"
  by (auto simp: root_tag_get_bit root_tag_set_def root_tag_clear_def root_tag_clear_all_def GFP_BITS_SHIFT_def bit_simps)

lemma rt_tag_any:
  assumes "rt_wf (Suc h) s" "rt_tag (Suc h) s g i" "g < 2"
  shows "any_tag_set (tags s) g"
  using assms
proof (induction h arbitrary: s)
  case 0
  then show ?case
    by (cases s) (auto simp: any_tag_set_iff intro!: exI [of _ "slot_off 0 i"])
next
  case (Suc h)
  from Suc.prems(1) obtain c sl tg where s: "s = RNode (Suc (Suc h)) c sl tg" "length sl = 64" "\<And>x. x \<in> set sl \<Longrightarrow> x \<noteq> RNull \<Longrightarrow> rt_wf (Suc h) x"
    "tags_ok (Suc h) sl tg"
    by (elim rt_wf_SucE) auto
  let ?o = "slot_off (Suc h) i"
  have t: "rt_tag (Suc h) (sl ! ?o) g i"
    using Suc.prems(2) s(1) by simp
  then have n: "sl ! ?o \<noteq> RNull" by auto
  then have "any_tag_set (tags (sl ! ?o)) g"
    using Suc.IH [OF _ t Suc.prems(3)] wf_child [OF s(3,2)] by blast
  then have "tag_get tg g ?o"
    using s(4) n Suc.prems(3) slot_off_less [of "Suc h" i] unfolding tags_ok_def by blast
  then show ?case
    using s(1) by (auto simp: any_tag_set_iff intro!: exI [of _ "slot_off (Suc h) i"])
qed

lemma rt_tag_get:
  assumes "rt_wf h s" "rt_tag h s g i" "g < 2"
  shows "rt_get h s i \<noteq> RNull"
  using assms
proof (induction h arbitrary: s)
  case (Suc h)
  from Suc.prems(1) obtain c sl tg where s: "s = RNode (Suc h) c sl tg" "length sl = 64" "\<And>x. x \<in> set sl \<Longrightarrow> x \<noteq> RNull \<Longrightarrow> rt_wf h x"
    "tags_ok h sl tg"
    by (elim rt_wf_SucE) auto
  let ?o = "slot_off h i"
  show ?case
  proof (cases h)
    case 0
    then have "sl ! ?o \<noteq> RNull"
      using s(1,4) Suc.prems(2,3) slot_off_less [of h i] unfolding tags_ok_def by simp
    then show ?thesis
      using s(1) 0 by simp
  next
    case (Suc h')
    then have t: "rt_tag h (sl ! ?o) g i"
      using Suc.prems(2) s(1) by simp
    then have "sl ! ?o \<noteq> RNull" by auto
    then show ?thesis
      using Suc.IH [OF _ t Suc.prems(3)] wf_child [OF s(3,2), of h i] s(1) by auto
  qed
qed simp

subsection \<open>The tree as a map with tagged entries\<close>

definition rt_inv :: "'a radix_tree_root \<Rightarrow> bool" where
  "rt_inv root \<longleftrightarrow> rt_height root \<le> 5 \<and>
     (if rnode root = RNull then rt_height root = 0 \<and> (\<forall>g<2. \<not> root_tag_get root g) else rt_wf (rt_height root) (rnode root)) \<and>
     (0 < rt_height root \<longrightarrow> (\<forall>g<2. root_tag_get root g = any_tag_set (tags (rnode root)) g))"

definition root_get :: "'a radix_tree_root \<Rightarrow> nat \<Rightarrow> 'a option" where
  "root_get root i =
     (if i < 64 ^ rt_height root
      then case rt_get (rt_height root) (rnode root) i of RItem a \<Rightarrow> Some a | _ \<Rightarrow> None
      else None)"

definition root_tagged :: "'a radix_tree_root \<Rightarrow> nat \<Rightarrow> nat \<Rightarrow> bool" where
  "root_tagged root g i \<longleftrightarrow>
     (if rt_height root = 0 then root_tag_get root g \<and> rnode root \<noteq> RNull \<and> i = 0
      else i < 64 ^ rt_height root \<and> rt_tag (rt_height root) (rnode root) g i)"

fun slot_item :: "'a slot \<Rightarrow> 'a option" where
  "slot_item (RItem a) = Some a"
| "slot_item _ = None"

lemma slot_item_case: "(case s of RItem a \<Rightarrow> Some a | _ \<Rightarrow> None) = slot_item s"
  by (cases s) auto

lemma rt_inv_wf: "rt_inv root \<Longrightarrow> rnode root = RNull \<or> rt_wf (rt_height root) (rnode root)"
  by (auto simp: rt_inv_def split: if_splits)

lemma maxindex_less [simp]: "0 < n \<Longrightarrow> n - Suc 0 < i \<longleftrightarrow> n \<le> i"
  by linarith

lemma lookup_node_eq:
  assumes inv: "rt_inv root"
  shows "\<exists>s. radix_tree_lookup_node root i = Some s \<and> slot_item s = root_get root i \<and> (s = RNull \<longleftrightarrow> root_get root i = None)"
proof (cases "rnode root")
  case (RNode ht c sl tg)
  then have w: "rt_wf (rt_height root) (rnode root)" "rt_height root \<le> 5"
    using inv by (auto simp: rt_inv_def)
  then have ht: "ht = rt_height root"
    using RNode by (cases "rt_height root") auto
  note item = rt_get_item [OF rt_inv_wf [OF inv], of i]
  show ?thesis
    using lookup_walk_get [OF rt_inv_wf [OF inv], of i] item RNode ht w(2)
    by (auto simp: radix_tree_lookup_node_def radix_tree_lookup_element_def maxindex_eq root_get_def slot_item_case
        split: if_splits)
next
  case RNull
  then show ?thesis
    by (auto simp: radix_tree_lookup_node_def radix_tree_lookup_element_def root_get_def)
next
  case (RItem a)
  then have "rt_height root = 0"
    using inv by (cases "rt_height root") (auto simp: rt_inv_def)
  then show ?thesis
    using RItem by (auto simp: radix_tree_lookup_node_def radix_tree_lookup_element_def root_get_def)
qed

lemma tag_get_eq:
  assumes inv: "rt_inv root" and g: "g < 2"
  shows "radix_tree_tag_get root i g = Some (root_tagged root g i)"
proof (cases "rt_height root")
  case 0
  then have "rnode root = RNull \<or> (\<exists>a. rnode root = RItem a)"
    using rt_inv_wf [OF inv] by (cases "rnode root") auto
  then show ?thesis
    using 0 inv g by (auto simp: radix_tree_tag_get_def root_tagged_def rt_inv_def)
next
  case (Suc h)
  then have w: "rt_wf (Suc h) (rnode root)" "rt_height root \<le> 5"
    "root_tag_get root g = any_tag_set (tags (rnode root)) g"
    using inv g by (auto simp: rt_inv_def split: if_splits)
  then obtain c sl tg where n: "rnode root = RNode (Suc h) c sl tg"
    by (elim rt_wf_SucE)
  show ?thesis
  proof (cases "root_tag_get root g")
    case True
    then show ?thesis
      using tag_get_walk_tag [of "rnode root" h i g] w Suc n
      by (auto simp: radix_tree_tag_get_def root_tagged_def maxindex_eq)
  next
    case False
    then have "\<not> rt_tag (Suc h) (rnode root) g i"
      using rt_tag_any [OF w(1) _ g] w(3) by blast
    then show ?thesis
      using False Suc by (simp add: radix_tree_tag_get_def root_tagged_def)
  qed
qed

subsection \<open>Extension\<close>

declare extend_height.simps [simp del]

lemma extend_height_ok:
  assumes "index < 64 ^ 5" "h \<le> 5"
  shows "\<exists>h'. extend_height index h = Some h' \<and> h \<le> h' \<and> h' \<le> 5 \<and> index < 64 ^ h'"
  using assms
proof (induction "5 - h" arbitrary: h)
  case 0
  then have "h = 5" by simp
  then show ?case
    using assms(1) by (subst extend_height.simps) (simp add: maxindex_eq)
next
  case (Suc d)
  show ?case
  proof (cases "index < 64 ^ h")
    case True
    then show ?thesis
      using Suc.prems by (subst extend_height.simps) (simp add: maxindex_eq)
  next
    case False
    have "\<exists>h'. extend_height index (h + 1) = Some h' \<and> h + 1 \<le> h' \<and> h' \<le> 5 \<and> index < 64 ^ h'"
      using Suc.hyps Suc.prems by (intro Suc.hyps(1)) auto
    then show ?thesis
      using False Suc.prems by (subst extend_height.simps) (auto simp: maxindex_eq)
  qed
qed

lemma extend_height_too_big:
  assumes "64 ^ 5 \<le> index"
  shows "extend_height index h = None"
proof (induction "6 - h" arbitrary: h)
  case 0
  then show ?case
    by (subst extend_height.simps) (simp add: maxindex_None)
next
  case (Suc d)
  then have h: "h \<le> 5" by simp
  have "(64 :: nat) ^ h \<le> 64 ^ 5"
    using h by (intro power_increasing) auto
  then have "\<not> index < 64 ^ h"
    using assms by linarith
  then show ?case
    using Suc.hyps h by (subst extend_height.simps) (auto simp: maxindex_eq)
qed

lemma slot_off_small: "i < 64 ^ h \<Longrightarrow> slot_off h i = 0"
  by (simp add: slot_off_def pow_shift)

lemma slot_off_eq_0: "i < 64 ^ Suc h \<Longrightarrow> slot_off h i = 0 \<longleftrightarrow> i < 64 ^ h"
  using slot_off_small [of i h]
  by (auto simp: slot_off_def pow_shift RADIX_TREE_MAP_SIZE_def less_mult_imp_div_less div_eq_0_iff)

definition extend_layer :: "'a radix_tree_root \<Rightarrow> 'a radix_tree_root" where
  "extend_layer root =
     root\<lparr>rnode := RNode (rt_height root + 1) 1 ((slots (radix_tree_node_alloc (rt_height root + 1)))[0 := rnode root])
            (let tg = (if root_tag_get root 0 then tag_set [0, 0] 0 0 else [0, 0])
             in if root_tag_get root 1 then tag_set tg 1 0 else tg),
          rt_height := rt_height root + 1\<rparr>"

lemma extend_loop_layer: "extend_loop (Suc n) root = extend_loop n (extend_layer root)"
  by (simp add: extend_layer_def Let_def)

lemma nth_replicate_upd: "i < 64 \<Longrightarrow> (replicate 64 RNull)[0 := x] ! i = (if i = 0 then x else RNull)"
  by (cases "i = 0") auto

lemma extend_layer_inv:
  assumes inv: "rt_inv root" and n: "rnode root \<noteq> RNull" and h: "rt_height root < 5"
  shows "rt_inv (extend_layer root)" "rnode (extend_layer root) \<noteq> RNull" "rt_height (extend_layer root) = rt_height root + 1"
    "root_get (extend_layer root) = root_get root" "g < 2 \<Longrightarrow> root_tagged (extend_layer root) g = root_tagged root g"
proof -
  let ?h = "rt_height root" and ?s = "rnode root"
  have wf: "rt_wf ?h ?s"
    using rt_inv_wf [OF inv] n by blast
  have up: "root_tag_get root g = any_tag_set (tags ?s) g" if "g < 2" "0 < ?h" for g
    using inv that by (simp add: rt_inv_def)
  define tg where "tg = (let tg = (if root_tag_get root 0 then tag_set [0, 0] 0 0 else [0, 0])
             in if root_tag_get root 1 then tag_set tg 1 0 else tg :: uint64 list)"
  have tg: "length tg = 2" "\<And>g i. g < 2 \<Longrightarrow> tag_get tg g i \<longleftrightarrow> i = 0 \<and> root_tag_get root g"
    by (auto simp: tg_def Let_def tag_get_set) (auto simp: tag_get_def less_2_cases_iff)
  let ?sl = "(replicate 64 RNull)[0 := ?s]"
  have e: "rnode (extend_layer root) = RNode (Suc ?h) 1 ?sl tg"
    by (simp add: extend_layer_def tg_def fresh_node)
  show hh: "rt_height (extend_layer root) = rt_height root + 1"
    by (simp add: extend_layer_def)
  show "rnode (extend_layer root) \<noteq> RNull"
    using e by simp
  have rt: "root_tag_get (extend_layer root) g = root_tag_get root g" for g
    by (simp add: extend_layer_def root_tag_get_def)
  have "tags_ok ?h ?sl tg"
    using tg(2) up n by (auto simp: tags_ok_def nth_replicate_upd)
  moreover have "children ?sl = 1"
    using children_update [of 0 "replicate 64 RNull" ?s] n fresh_node(3) by simp
  ultimately have w: "rt_wf (Suc ?h) (RNode (Suc ?h) 1 ?sl tg)"
    using wf tg(1) by (auto dest!: set_update_subset_insert [THEN subsetD])
  have any: "any_tag_set tg g = root_tag_get root g" if "g < 2" for g
    using tg(2) [OF that] by (auto simp: any_tag_set_iff)
  show "rt_inv (extend_layer root)"
    unfolding rt_inv_def e hh rt using w h any by (simp del: rt_wf.simps)
  have off: "i < 64 ^ Suc ?h \<Longrightarrow> ?sl ! slot_off ?h i = (if i < 64 ^ ?h then ?s else RNull)" for i
    using slot_off_eq_0 [of i ?h] by (simp add: nth_replicate_upd)
  have bnd: "i < 64 ^ ?h \<Longrightarrow> i < 64 ^ Suc ?h" for i :: nat
    by simp
  show "root_get (extend_layer root) = root_get root"
  proof
    fix i show "root_get (extend_layer root) i = root_get root i"
      unfolding root_get_def hh e using off [of i] bnd [of i] by (cases "i < 64 ^ Suc ?h") auto
  qed
  show "root_tagged (extend_layer root) g = root_tagged root g" if g: "g < 2"
  proof
    fix i
    have "rt_tag (Suc ?h) (RNode (Suc ?h) 1 ?sl tg) g i = root_tagged root g i" if "i < 64 ^ Suc ?h"
    proof (cases "?h = 0")
      case True
      then show ?thesis
        using that tg(2) [OF g] n slot_off_eq_0 [of i ?h] by (auto simp: root_tagged_def)
    next
      case False
      then show ?thesis
        using off [OF that] by (simp add: root_tagged_def)
    qed
    then show "root_tagged (extend_layer root) g i = root_tagged root g i"
      unfolding root_tagged_def [of "extend_layer root"] hh e using bnd [of i] by (auto simp: root_tagged_def split: if_splits)
  qed
qed

lemma extend_loop_inv:
  assumes "rt_inv root" "rnode root \<noteq> RNull" "rt_height root + n \<le> 5"
  shows "rt_inv (extend_loop n root) \<and> rnode (extend_loop n root) \<noteq> RNull \<and> rt_height (extend_loop n root) = rt_height root + n \<and>
    root_get (extend_loop n root) = root_get root \<and> (\<forall>g<2. root_tagged (extend_loop n root) g = root_tagged root g)"
  using assms
proof (induction n arbitrary: root)
  case (Suc n)
  note L = extend_layer_inv [OF Suc.prems(1,2)]
  have h: "rt_height root < 5"
    using Suc.prems(3) by simp
  have "rt_height (extend_layer root) + n \<le> 5"
    using Suc.prems(3) L(3) [OF h] by simp
  from Suc.IH [OF L(1,2) [OF h] this] L(3-5) [OF h] show ?case
    unfolding extend_loop_layer by simp
qed simp

subsection \<open>Tags along a path\<close>

lemma tag_set_walk_ok:
  assumes "rt_wf h s" "rt_get h s i \<noteq> RNull" "g < 2"
  shows "\<exists>s'. tag_set_walk h i g s = Some (s', rt_get h s i) \<and> rt_wf h s' \<and> (\<forall>j. rt_get h s' j = rt_get h s j) \<and>
    (\<forall>g'<2. \<forall>j. rt_tag h s' g' j = (rt_tag h s g' j \<or> (0 < h \<and> g' = g \<and> j mod 64 ^ h = i mod 64 ^ h))) \<and>
    (0 < h \<longrightarrow> (\<forall>g'<2. any_tag_set (tags s') g' = (any_tag_set (tags s) g' \<or> g' = g)))"
  using assms
proof (induction h arbitrary: s)
  case (Suc h)
  from Suc.prems(1) obtain c sl tg where s: "s = RNode (Suc h) c sl tg" "length sl = 64" "length tg = 2" "c = children sl" "c \<noteq> 0"
    "\<And>x. x \<in> set sl \<Longrightarrow> x \<noteq> RNull \<Longrightarrow> rt_wf h x" "tags_ok h sl tg"
    by (elim rt_wf_SucE) auto
  let ?o = "slot_off h i"
  have g: "rt_get h (sl ! ?o) i \<noteq> RNull"
    using Suc.prems(2) s(1) by simp
  then have n: "sl ! ?o \<noteq> RNull" by auto
  then have w: "rt_wf h (sl ! ?o)"
    using wf_child [OF s(6,2)] by blast
  obtain ch where ch': "tag_set_walk h i g (sl ! ?o) = Some (ch, rt_get h (sl ! ?o) i)" "rt_wf h ch"
    "\<forall>j. rt_get h ch j = rt_get h (sl ! ?o) j"
    "\<forall>g'<2. \<forall>j. rt_tag h ch g' j = (rt_tag h (sl ! ?o) g' j \<or> (0 < h \<and> g' = g \<and> j mod 64 ^ h = i mod 64 ^ h))"
    "0 < h \<longrightarrow> (\<forall>g'<2. any_tag_set (tags ch) g' = (any_tag_set (tags (sl ! ?o)) g' \<or> g' = g))"
    using Suc.IH [OF w g Suc.prems(3)] by (elim exE conjE) (rule that)
  note ch = ch' [rule_format]
  have ch0: "ch \<noteq> RNull" using ch(2) by auto
  let ?tg = "if \<not> tag_get tg g ?o then tag_set tg g ?o else tg"
  have tg: "tag_get ?tg g' j \<longleftrightarrow> (g' = g \<and> j = ?o) \<or> tag_get tg g' j" "length ?tg = 2" for g' j
    using tag_get_set [of g tg ?o g' j] Suc.prems(3) s(3) by auto
  let ?s' = "RNode (Suc h) c (sl[?o := ch]) ?tg"
  have c: "c = children (sl[?o := ch])"
    using children_update [of ?o sl ch] n ch0 s(2,4) by auto
  have "tags_ok h (sl[?o := ch]) ?tg"
  proof (rule tags_ok_update [OF s(7,2)])
    fix g' :: nat assume g': "g' < 2" "0 < h"
    have "tag_get tg g' ?o = any_tag_set (tags (sl ! ?o)) g'"
      using s(7) g' n slot_off_less [of h i] unfolding tags_ok_def by blast
    then show "tag_get ?tg g' ?o = any_tag_set (tags ch) g'"
      using ch(5) [OF g'(2,1)] tg(1) by auto
  qed (use tg ch0 in auto)
  then have "rt_wf (Suc h) ?s'"
    using s c ch(2) tg(2) by (intro wf_node_update) auto
  moreover have "tag_set_walk (Suc h) i g s = Some (?s', rt_get (Suc h) s i)"
    using s(1) n ch(1) by (simp add: Let_def)
  moreover have "rt_get (Suc h) ?s' j = rt_get (Suc h) s j" for j
    using s(1,2) ch(3) [of j] by (cases "slot_off h j = ?o") auto
  moreover have "rt_tag (Suc h) ?s' g' j = (rt_tag (Suc h) s g' j \<or> (0 < Suc h \<and> g' = g \<and> j mod 64 ^ Suc h = i mod 64 ^ Suc h))" if "g' < 2" for g' j
    unfolding mod_Suc_cong using s(1,2) ch(4) [OF that, of j] tg(1) [of g' "slot_off h j"]
    by (cases "slot_off h j = ?o"; cases "h = 0") auto
  moreover have "any_tag_set (tags ?s') g' = (any_tag_set (tags s) g' \<or> g' = g)" for g'
    using tg(1) [of g'] s(1) by (auto simp: any_tag_set_iff intro: slot_off_less)
  ultimately show ?case
    by (intro exI [of _ ?s'] conjI) simp_all
qed auto

lemma tag_clear_walk_ok:
  assumes "rt_wf h s" "rt_get h s i \<noteq> RNull" "g < 2"
  shows "\<exists>s' up. tag_clear_walk h i g s = Some (s', rt_get h s i, up) \<and> rt_wf h s' \<and> (\<forall>j. rt_get h s' j = rt_get h s j) \<and>
    (\<forall>g'<2. \<forall>j. rt_tag h s' g' j = (rt_tag h s g' j \<and> \<not> (g' = g \<and> j mod 64 ^ h = i mod 64 ^ h))) \<and>
    (0 < h \<longrightarrow> (\<forall>g'<2. any_tag_set (tags s') g' = (any_tag_set (tags s) g' \<and> \<not> (up \<and> g' = g))))"
  using assms
proof (induction h arbitrary: s)
  case (Suc h)
  from Suc.prems(1) obtain c sl tg where s: "s = RNode (Suc h) c sl tg" "length sl = 64" "length tg = 2" "c = children sl" "c \<noteq> 0"
    "\<And>x. x \<in> set sl \<Longrightarrow> x \<noteq> RNull \<Longrightarrow> rt_wf h x" "tags_ok h sl tg"
    by (elim rt_wf_SucE) auto
  let ?o = "slot_off h i"
  have g: "rt_get h (sl ! ?o) i \<noteq> RNull"
    using Suc.prems(2) s(1) by simp
  then have n: "sl ! ?o \<noteq> RNull" by auto
  then have w: "rt_wf h (sl ! ?o)"
    using wf_child [OF s(6,2)] by blast
  obtain ch up where ch': "tag_clear_walk h i g (sl ! ?o) = Some (ch, rt_get h (sl ! ?o) i, up)" "rt_wf h ch"
    "\<forall>j. rt_get h ch j = rt_get h (sl ! ?o) j"
    "\<forall>g'<2. \<forall>j. rt_tag h ch g' j = (rt_tag h (sl ! ?o) g' j \<and> \<not> (g' = g \<and> j mod 64 ^ h = i mod 64 ^ h))"
    "0 < h \<longrightarrow> (\<forall>g'<2. any_tag_set (tags ch) g' = (any_tag_set (tags (sl ! ?o)) g' \<and> \<not> (up \<and> g' = g)))"
    using Suc.IH [OF w g Suc.prems(3)] by (elim exE conjE) (rule that)
  note ch = ch' [rule_format]
  have ch0: "ch \<noteq> RNull" using ch(2) by auto
  have up0: "up" if "h = 0"
    using ch(1) that n by auto
  let ?stop = "\<not> up \<or> \<not> tag_get tg g ?o"
  define tg' where "tg' = (if ?stop then tg else tag_clear tg g ?o)"
  have tg: "tag_get tg' g' j \<longleftrightarrow> tag_get tg g' j \<and> \<not> (up \<and> g' = g \<and> j = ?o)" "length tg' = 2" for g' j
    using tag_get_clear [of g tg ?o g' j] Suc.prems(3) s(3) by (auto simp: tg'_def)
  let ?s' = "RNode (Suc h) c (sl[?o := ch]) tg'" and ?up' = "\<not> ?stop \<and> \<not> any_tag_set tg' g"
  have c: "c = children (sl[?o := ch])"
    using children_update [of ?o sl ch] n ch0 s(2,4) by auto
  have old: "tag_get tg g' ?o = any_tag_set (tags (sl ! ?o)) g'" if "g' < 2" "0 < h" for g'
    using s(7) that n slot_off_less [of h i] unfolding tags_ok_def by blast
  have "tags_ok h (sl[?o := ch]) tg'"
  proof (rule tags_ok_update [OF s(7,2)])
    fix g' :: nat assume g': "g' < 2" "0 < h"
    show "tag_get tg' g' ?o = any_tag_set (tags ch) g'"
      using ch(5) [OF g'(2,1)] tg(1) old [OF g'] by auto
  qed (use tg ch0 in auto)
  then have "rt_wf (Suc h) ?s'"
    using s c ch(2) tg(2) by (intro wf_node_update) auto
  moreover have "tag_clear_walk (Suc h) i g s = Some (?s', rt_get (Suc h) s i, ?up')"
    using s(1) ch(1) by (auto simp: Let_def tg'_def)
  moreover have "rt_get (Suc h) ?s' j = rt_get (Suc h) s j" for j
    using s(1,2) ch(3) [of j] by (cases "slot_off h j = ?o") auto
  moreover have "rt_tag (Suc h) ?s' g' j = (rt_tag (Suc h) s g' j \<and> \<not> (g' = g \<and> j mod 64 ^ Suc h = i mod 64 ^ Suc h))" if "g' < 2" for g' j
    unfolding mod_Suc_cong using s(1,2) ch(4) [OF that, of j] tg(1) [of g' "slot_off h j"] up0
    by (cases "slot_off h j = ?o"; cases "h = 0") auto
  moreover have "any_tag_set tg' g' = (any_tag_set tg g' \<and> \<not> (?up' \<and> g' = g))" if "g' < 2" for g'
  proof (cases "g' = g \<and> \<not> ?stop")
    case True
    then have "any_tag_set tg g"
      by (auto simp: any_tag_set_iff intro!: exI [of _ ?o])
    then show ?thesis
      using True by auto
  next
    case False
    then have "any_tag_set tg' g' = any_tag_set tg g'"
      unfolding any_tag_set_iff using tg(1) by auto
    then show ?thesis
      using False by auto
  qed
  ultimately show ?case
    using s(1) by (intro exI [of _ ?s'] exI [of _ ?up'] conjI) simp_all
qed auto

lemma tag_clear_walk_none:
  assumes "s = RNull \<or> rt_wf h s" "rt_get h s i = RNull"
  shows "tag_clear_walk h i g s = Some (s, RNull, False)"
  using assms
proof (induction h arbitrary: s)
  case (Suc h)
  show ?case
  proof (cases "s = RNull")
    case False
    with Suc.prems(1) have "rt_wf (Suc h) s" by simp
    then obtain c sl tg where s: "s = RNode (Suc h) c sl tg" "length sl = 64" "\<And>x. x \<in> set sl \<Longrightarrow> x \<noteq> RNull \<Longrightarrow> rt_wf h x"
      by (elim rt_wf_SucE) auto
    show ?thesis
      using Suc.IH [OF wf_child [OF s(3,2), of h i]] Suc.prems(2) s(1) by (simp add: Let_def)
  qed simp
qed simp

subsection \<open>Operations on the whole tree\<close>

lemma insert_in_range:
  assumes wf: "rnode root = RNull \<or> rt_wf (rt_height root) (rnode root)" and h: "rt_height root \<le> 5" "i < 64 ^ rt_height root"
    and free: "root_get root i = None"
    and tg: "rnode root = RNull \<longrightarrow> (\<forall>g<2. \<not> root_tag_get root g)"
      "0 < rt_height root \<and> rnode root \<noteq> RNull \<longrightarrow> (\<forall>g<2. root_tag_get root g = any_tag_set (tags (rnode root)) g)"
  shows "\<exists>node. insert_walk (rt_height root) i x (rnode root) = Some (node, True) \<and>
    (rt_height root = 0 \<longrightarrow> \<not> root_tag_get root 0 \<and> \<not> root_tag_get root 1) \<and> rt_inv (root\<lparr>rnode := node\<rparr>) \<and>
    root_get (root\<lparr>rnode := node\<rparr>) = (root_get root)(i \<mapsto> x) \<and>
    (\<forall>g<2. root_tagged (root\<lparr>rnode := node\<rparr>) g = root_tagged root g)"
proof -
  let ?h = "rt_height root"
  have g0: "rt_get ?h (rnode root) i = RNull"
    using free h(2) rt_get_item [OF wf, of i] by (auto simp: root_get_def)
  obtain s' where s'': "insert_walk ?h i x (rnode root) = Some (s', True)" "rt_wf ?h s'"
    "\<forall>j. rt_get ?h s' j = (if j mod 64 ^ ?h = i mod 64 ^ ?h then RItem x else rt_get ?h (rnode root) j)"
    "\<forall>g<2. \<forall>j. rt_tag ?h s' g j = rt_tag ?h (rnode root) g j"
    "0 < ?h \<longrightarrow> (\<forall>g<2. any_tag_set (tags s') g = (rnode root \<noteq> RNull \<and> any_tag_set (tags (rnode root)) g))"
    using insert_walk_ok [OF wf g0, of x] by (elim exE conjE) (rule that)
  note s' = s'' [rule_format]
  have n: "s' \<noteq> RNull" using s'(2) by auto
  have r0: "rnode root = RNull" if "?h = 0"
    using g0 that by simp
  have z: "\<not> root_tag_get root 0 \<and> \<not> root_tag_get root 1" if "?h = 0"
    using tg(1) r0 [OF that] by simp
  have "root_tag_get root g = any_tag_set (tags s') g" if "0 < ?h" "g < 2" for g
    using s'(5) [OF that] tg that by (cases "rnode root = RNull") simp_all
  then have "rt_inv (root\<lparr>rnode := s'\<rparr>)"
    using s'(2) n h(1) by (simp add: rt_inv_def)
  moreover have "root_get (root\<lparr>rnode := s'\<rparr>) j = ((root_get root)(i \<mapsto> x)) j" for j
    using s'(3) [of j] h(2) by (auto simp: root_get_def)
  then have "root_get (root\<lparr>rnode := s'\<rparr>) = (root_get root)(i \<mapsto> x)"
    by blast
  moreover have "root_tagged (root\<lparr>rnode := s'\<rparr>) g = root_tagged root g" if "g < 2" for g
    using s'(4) [OF that] z r0 that by (auto simp: root_tagged_def fun_eq_iff less_2_cases_iff)
  ultimately show ?thesis
    using s'(1) z by (intro exI [of _ s'] conjI) simp_all
qed

lemma insert_ok:
  assumes inv: "rt_inv root" and i: "i < 64 ^ 5" and free: "root_get root i = None"
  shows "\<exists>root'. radix_tree_insert root i x = Some (root', 0) \<and> rt_inv root' \<and> root_get root' = (root_get root)(i \<mapsto> x) \<and>
    (\<forall>g<2. root_tagged root' g = root_tagged root g)"
proof -
  let ?h = "rt_height root"
  have h: "?h \<le> 5"
    using inv by (simp add: rt_inv_def)
  obtain r1 where r1: "(if i > 64 ^ ?h - 1 then radix_tree_extend root i else Some root) = Some r1"
    "rnode r1 = RNull \<or> rt_wf (rt_height r1) (rnode r1)" "rt_height r1 \<le> 5" "i < 64 ^ rt_height r1"
    "root_get r1 = root_get root" "\<forall>g<2. root_tagged r1 g = root_tagged root g"
    "rnode r1 = RNull \<longrightarrow> (\<forall>g<2. \<not> root_tag_get r1 g)"
    "0 < rt_height r1 \<and> rnode r1 \<noteq> RNull \<longrightarrow> (\<forall>g<2. root_tag_get r1 g = any_tag_set (tags (rnode r1)) g)"
  proof (cases "i < 64 ^ ?h")
    case True
    then show ?thesis
      using that [of root] inv rt_inv_wf [OF inv] h by (simp add: rt_inv_def split: if_splits)
  next
    case False
    then have "?h \<noteq> 5" using i by auto
    then have "?h + 1 \<le> 5" using h by simp
    then obtain h' where h': "extend_height i (?h + 1) = Some h'" "?h + 1 \<le> h'" "h' \<le> 5" "i < 64 ^ h'"
      using extend_height_ok [OF i] by blast
    show ?thesis
    proof (cases "rnode root = RNull")
      case True
      let ?r = "root\<lparr>rt_height := h'\<rparr>"
      have "root_get ?r = root_get root" "\<forall>g<2. root_tagged ?r g = root_tagged root g"
        using True inv by (auto simp: root_get_def root_tagged_def rt_inv_def fun_eq_iff)
      then show ?thesis
        using that [of ?r] False True h' inv by (simp add: radix_tree_extend_def rt_inv_def)
    next
      case False
      note E = extend_loop_inv [OF inv False, of "h' - ?h"]
      let ?r = "extend_loop (h' - ?h) root"
      have "rt_inv ?r" "rnode ?r \<noteq> RNull" "rt_height ?r = h'" "root_get ?r = root_get root" "\<forall>g<2. root_tagged ?r g = root_tagged root g"
        using E h' by auto
      then show ?thesis
        using that [of ?r] False \<open>\<not> i < 64 ^ ?h\<close> h' by (simp add: radix_tree_extend_def rt_inv_def)
    qed
  qed
  have "root_get r1 i = None"
    using free r1(5) by simp
  from insert_in_range [OF r1(2,3,4) this r1(7,8), of x] obtain node where
    "insert_walk (rt_height r1) i x (rnode r1) = Some (node, True)"
    "rt_height r1 = 0 \<longrightarrow> \<not> root_tag_get r1 0 \<and> \<not> root_tag_get r1 1" "rt_inv (r1\<lparr>rnode := node\<rparr>)"
    "root_get (r1\<lparr>rnode := node\<rparr>) = (root_get r1)(i \<mapsto> x)" "\<forall>g<2. root_tagged (r1\<lparr>rnode := node\<rparr>) g = root_tagged r1 g"
    by (elim exE conjE) (rule that)
  then show ?thesis
    using r1(1,5,6) h by (intro exI [of _ "r1\<lparr>rnode := node\<rparr>"]) (simp add: radix_tree_insert_def maxindex_eq)
qed

lemma insert_taken:
  assumes inv: "rt_inv root" and taken: "root_get root i \<noteq> None"
  shows "radix_tree_insert root i x = Some (root, -1)"
proof -
  have i: "i < 64 ^ rt_height root" and g: "rt_get (rt_height root) (rnode root) i \<noteq> RNull"
    using taken by (auto simp: root_get_def split: if_splits)
  then have "rnode root \<noteq> RNull" by auto
  then have "rt_wf (rt_height root) (rnode root)"
    using rt_inv_wf [OF inv] by blast
  from insert_walk_taken [OF this g, of x] show ?thesis
    using i inv by (simp add: radix_tree_insert_def maxindex_eq rt_inv_def)
qed

lemma insert_too_big:
  assumes inv: "rt_inv root" and i: "64 ^ 5 \<le> i"
  shows "radix_tree_insert root i x = None"
proof -
  have "(64 :: nat) ^ rt_height root \<le> 64 ^ 5"
    using inv by (intro power_increasing) (auto simp: rt_inv_def)
  then have "64 ^ rt_height root \<le> i"
    using i by linarith
  then show ?thesis
    using inv extend_height_too_big [OF i] by (simp add: radix_tree_insert_def radix_tree_extend_def maxindex_eq rt_inv_def)
qed

lemma inv_height: "rt_inv root \<Longrightarrow> rt_height root \<le> 5"
  by (simp add: rt_inv_def)

lemma root_get_node:
  assumes inv: "rt_inv root" and "root_get root i \<noteq> None"
  shows "i < 64 ^ rt_height root" "rt_get (rt_height root) (rnode root) i \<noteq> RNull" "rnode root \<noteq> RNull"
    "rt_wf (rt_height root) (rnode root)" "rt_get (rt_height root) (rnode root) i = RItem (the (root_get root i))"
proof -
  show i: "i < 64 ^ rt_height root" "rt_get (rt_height root) (rnode root) i \<noteq> RNull"
    using assms(2) by (auto simp: root_get_def split: if_splits)
  then show n: "rnode root \<noteq> RNull" by auto
  then show "rt_wf (rt_height root) (rnode root)"
    using rt_inv_wf [OF inv] by blast
  show "rt_get (rt_height root) (rnode root) i = RItem (the (root_get root i))"
    using i rt_get_item [OF rt_inv_wf [OF inv], of i] by (auto simp: root_get_def)
qed

lemma root_get_None:
  assumes inv: "rt_inv root" and "root_get root i = None" "i < 64 ^ rt_height root"
  shows "rt_get (rt_height root) (rnode root) i = RNull"
  using rt_get_item [OF rt_inv_wf [OF inv], of i] assms(2,3) by (auto simp: root_get_def)

lemma root_get_cong:
  "rt_height r' = rt_height r \<Longrightarrow> (\<And>j. rt_get (rt_height r) (rnode r') j = rt_get (rt_height r) (rnode r) j) \<Longrightarrow> root_get r' = root_get r"
  by (simp add: root_get_def fun_eq_iff)

lemma tag_set_ok:
  assumes inv: "rt_inv root" and i: "root_get root i = Some a" and g: "g < 2"
  shows "\<exists>root'. radix_tree_tag_set root i g = Some (root', RItem a) \<and> rt_inv root' \<and> root_get root' = root_get root \<and>
    (\<forall>g'<2. \<forall>j. root_tagged root' g' j = (root_tagged root g' j \<or> (g' = g \<and> j = i)))"
proof -
  let ?h = "rt_height root"
  have i': "root_get root i \<noteq> None" using i by simp
  note N = root_get_node [OF inv i']
  obtain s' where s'': "tag_set_walk ?h i g (rnode root) = Some (s', rt_get ?h (rnode root) i)" "rt_wf ?h s'"
    "\<forall>j. rt_get ?h s' j = rt_get ?h (rnode root) j"
    "\<forall>g'<2. \<forall>j. rt_tag ?h s' g' j = (rt_tag ?h (rnode root) g' j \<or> (0 < ?h \<and> g' = g \<and> j mod 64 ^ ?h = i mod 64 ^ ?h))"
    "0 < ?h \<longrightarrow> (\<forall>g'<2. any_tag_set (tags s') g' = (any_tag_set (tags (rnode root)) g' \<or> g' = g))"
    using tag_set_walk_ok [OF N(4,2) g] by (elim exE conjE) (rule that)
  note s' = s'' [rule_format]
  have n: "s' \<noteq> RNull" using s'(2) by auto
  have r: "rt_get ?h (rnode root) i = RItem a"
    using N(5) i by simp
  let ?r1 = "root\<lparr>rnode := s'\<rparr>"
  define r2 where "r2 = (if \<not> root_tag_get ?r1 g then root_tag_set ?r1 g else ?r1)"
  have R: "rt_height r2 = ?h" "rnode r2 = s'" "\<And>g'. g' < 2 \<Longrightarrow> root_tag_get r2 g' \<longleftrightarrow> g' = g \<or> root_tag_get root g'"
    by (auto simp: r2_def)
  have "radix_tree_tag_set root i g = Some (r2, RItem a)"
    using N(1) i inv_height [OF inv] s'(1) r by (simp add: radix_tree_tag_set_def maxindex_eq r2_def Let_def)
  moreover have "rt_inv r2"
    using inv s'(2,5) n R N(3) i by (auto simp: rt_inv_def)
  moreover have "root_get r2 = root_get root"
    using R s'(3) by (intro root_get_cong) auto
  moreover have "root_tagged r2 g' j = (root_tagged root g' j \<or> (g' = g \<and> j = i))" if "g' < 2" for g' j
    using s'(4) [OF that, of j] R(3) [OF that] N(1,3) i n by (auto simp: root_tagged_def R(1,2))
  ultimately show ?thesis
    by blast
qed

lemma tag_clear_ok:
  assumes inv: "rt_inv root" and g: "g < 2"
  shows "\<exists>root' item. radix_tree_tag_clear root i g = Some (root', item) \<and> slot_item item = root_get root i \<and> rt_inv root' \<and>
    root_get root' = root_get root \<and> rt_height root' = rt_height root \<and>
    (\<forall>g'<2. \<forall>j. root_tagged root' g' j = (root_tagged root g' j \<and> \<not> (g' = g \<and> j = i)))"
proof (cases "root_get root i")
  case None
  have same: "radix_tree_tag_clear root i g = Some (root, RNull)"
  proof (cases "i < 64 ^ rt_height root")
    case True
    then show ?thesis
      using tag_clear_walk_none [OF rt_inv_wf [OF inv] root_get_None [OF inv None True]] inv_height [OF inv]
      by (simp add: radix_tree_tag_clear_def maxindex_eq)
  next
    case False
    then show ?thesis
      using inv_height [OF inv] by (simp add: radix_tree_tag_clear_def maxindex_eq)
  qed
  have "\<not> root_tagged root g i"
  proof
    assume t: "root_tagged root g i"
    then have "rnode root \<noteq> RNull" "i < 64 ^ rt_height root"
      by (auto simp: root_tagged_def split: if_splits)
    then show False
      using t rt_tag_get [of "rt_height root" "rnode root" g i] g rt_inv_wf [OF inv] root_get_None [OF inv None]
      by (auto simp: root_tagged_def split: if_splits)
  qed
  then show ?thesis
    using same inv None by (intro exI [of _ root] exI [of _ RNull]) auto
next
  case (Some a)
  let ?h = "rt_height root"
  have i': "root_get root i \<noteq> None" using Some by simp
  note N = root_get_node [OF inv i']
  obtain s' up where s'': "tag_clear_walk ?h i g (rnode root) = Some (s', rt_get ?h (rnode root) i, up)" "rt_wf ?h s'"
    "\<forall>j. rt_get ?h s' j = rt_get ?h (rnode root) j"
    "\<forall>g'<2. \<forall>j. rt_tag ?h s' g' j = (rt_tag ?h (rnode root) g' j \<and> \<not> (g' = g \<and> j mod 64 ^ ?h = i mod 64 ^ ?h))"
    "0 < ?h \<longrightarrow> (\<forall>g'<2. any_tag_set (tags s') g' = (any_tag_set (tags (rnode root)) g' \<and> \<not> (up \<and> g' = g)))"
    using tag_clear_walk_ok [OF N(4,2) g] by (elim exE conjE) (rule that)
  note s' = s'' [rule_format]
  have n: "s' \<noteq> RNull" using s'(2) by auto
  have up: "up" if "?h = 0"
    using s'(1) that N(3) Some by auto
  let ?r1 = "root\<lparr>rnode := s'\<rparr>"
  define r2 where "r2 = (if up \<and> root_tag_get ?r1 g then root_tag_clear ?r1 g else ?r1)"
  have R: "rt_height r2 = ?h" "rnode r2 = s'" "\<And>g'. g' < 2 \<Longrightarrow> root_tag_get r2 g' \<longleftrightarrow> root_tag_get root g' \<and> \<not> (up \<and> g' = g)"
    by (auto simp: r2_def)
  have "radix_tree_tag_clear root i g = Some (r2, RItem a)"
    using N(1,5) Some inv_height [OF inv] s'(1) by (simp add: radix_tree_tag_clear_def maxindex_eq r2_def Let_def)
  moreover have "rt_inv r2"
    using inv s'(2,5) n R N(3) Some by (auto simp: rt_inv_def)
  moreover have "root_get r2 = root_get root"
    using R s'(3) by (intro root_get_cong) auto
  moreover have "root_tagged r2 g' j = (root_tagged root g' j \<and> \<not> (g' = g \<and> j = i))" if "g' < 2" for g' j
    using s'(4) [OF that, of j] R(3) [OF that] N(1,3) Some n up by (auto simp: root_tagged_def R(1,2))
  ultimately show ?thesis
    using Some R(1) by (intro exI [of _ r2] exI [of _ "RItem a"]) simp
qed

subsection \<open>Shrinking\<close>

lemma children_one:
  assumes "children sl = 1" "i < length sl" "sl ! i \<noteq> RNull" "j < length sl" "j \<noteq> i"
  shows "sl ! j = RNull"
proof (rule ccontr)
  assume j: "sl ! j \<noteq> RNull"
  have "children (sl[i := RNull]) = 0"
    using children_update [OF assms(2), of RNull] assms(1,3) by simp
  moreover have "0 < children (sl[i := RNull])"
    using children_pos [of j "sl[i := RNull]"] j assms(4,5) by simp
  ultimately show False by simp
qed

lemma shrink_step:
  assumes inv: "rt_inv root" and h: "rt_height root = Suc h" and n: "rnode root = RNode ht c sl tg" and c: "c = 1" and sl: "sl ! 0 \<noteq> RNull"
  shows "rt_inv (root\<lparr>rnode := sl ! 0, rt_height := h\<rparr>)"
    "root_get (root\<lparr>rnode := sl ! 0, rt_height := h\<rparr>) = root_get root"
    "g < 2 \<Longrightarrow> root_tagged (root\<lparr>rnode := sl ! 0, rt_height := h\<rparr>) g = root_tagged root g"
proof -
  let ?r = "root\<lparr>rnode := sl ! 0, rt_height := h\<rparr>"
  have "rt_wf (Suc h) (RNode ht c sl tg)"
    using rt_inv_wf [OF inv] h n by (auto simp del: rt_wf.simps)
  then have w: "length sl = 64" "length tg = 2" "children sl = 1" "tags_ok h sl tg" "\<And>x. x \<in> set sl \<Longrightarrow> x \<noteq> RNull \<Longrightarrow> rt_wf h x"
    using c by auto
  have w0: "rt_wf h (sl ! 0)"
    using w(1,5) sl by simp
  have others: "0 < j \<Longrightarrow> j < 64 \<Longrightarrow> sl ! j = RNull" for j
    using children_one [OF w(3), of 0 j] w(1) sl by simp
  have tg0: "tag_get tg g j \<Longrightarrow> j < 64 \<Longrightarrow> j = 0" if "g < 2" for g j
    using w(4) others that unfolding tags_ok_def by (metis not_gr_zero)
  have rt: "root_tag_get root g = tag_get tg g 0" if "g < 2" for g
    using inv h n that tg0 [OF that] by (auto simp: rt_inv_def any_tag_set_iff)
  have any: "tag_get tg g 0 = any_tag_set (tags (sl ! 0)) g" if "g < 2" "0 < h" for g
    using w(4) that sl unfolding tags_ok_def by simp
  show "rt_inv ?r"
    using inv h w0 sl rt any by (auto simp: rt_inv_def)
  have off: "i < 64 ^ Suc h \<Longrightarrow> sl ! slot_off h i = (if i < 64 ^ h then sl ! 0 else RNull)" for i
    using slot_off_eq_0 [of i h] others [of "slot_off h i"] by auto
  have bnd: "i < 64 ^ h \<Longrightarrow> i < 64 ^ Suc h" for i :: nat
    by simp
  show "root_get ?r = root_get root"
  proof
    fix i show "root_get ?r i = root_get root i"
      unfolding root_get_def h n using off [of i] bnd [of i] by (cases "i < 64 ^ Suc h") auto
  qed
  show "root_tagged ?r g = root_tagged root g" if g: "g < 2"
  proof
    fix i
    show "root_tagged ?r g i = root_tagged root g i"
    proof (cases "i < 64 ^ Suc h")
      case True
      then show ?thesis
        using off [OF True] bnd [of i] slot_off_eq_0 [OF True] rt [OF g] sl h n tg0 [OF g, of "slot_off h i"]
        by (cases "h = 0") (auto simp: root_tagged_def)
    next
      case False
      then have "\<not> i < 64 ^ h" using bnd by blast
      then show ?thesis
        using False h by (cases "h = 0") (auto simp: root_tagged_def)
    qed
  qed
qed

lemma shrink_ok:
  assumes "rt_inv root" "rnode root \<noteq> RNull"
  shows "\<exists>root'. radix_tree_shrink root = Some root' \<and> rt_inv root' \<and> root_get root' = root_get root \<and>
    (\<forall>g<2. root_tagged root' g = root_tagged root g)"
  using assms
proof (induction "rt_height root" arbitrary: root)
  case 0
  then show ?case
    by (intro exI [of _ root]) (simp add: radix_tree_shrink_def flip: 0(1))
next
  case (Suc h)
  have "rt_wf (Suc h) (rnode root)"
    using rt_inv_wf [OF Suc.prems(1)] Suc.prems(2) Suc.hyps(2) by simp
  then obtain c sl tg where n: "rnode root = RNode (Suc h) c sl tg" "c = children sl" "length sl = 64"
    "\<And>x. x \<in> set sl \<Longrightarrow> x \<noteq> RNull \<Longrightarrow> rt_wf h x"
    by (elim rt_wf_SucE) auto
  show ?case
  proof (cases "c = 1 \<and> sl ! 0 \<noteq> RNull")
    case True
    let ?r = "root\<lparr>rnode := sl ! 0, rt_height := h\<rparr>"
    note S = shrink_step [OF Suc.prems(1) Suc.hyps(2) [symmetric] n(1)]
    have "radix_tree_shrink root = radix_tree_shrink ?r"
      using True n(1) by (simp add: radix_tree_shrink_def flip: Suc.hyps(2))
    moreover have "\<exists>r'. radix_tree_shrink ?r = Some r' \<and> rt_inv r' \<and> root_get r' = root_get ?r \<and> (\<forall>g<2. root_tagged r' g = root_tagged ?r g)"
      using True S(1) by (intro Suc.hyps(1)) auto
    ultimately show ?thesis
      using True S(2,3) by simp
  next
    case False
    then have "radix_tree_shrink root = Some root"
      using n(1) by (auto simp: radix_tree_shrink_def simp flip: Suc.hyps(2))
    then show ?thesis
      using Suc.prems by auto
  qed
qed

subsection \<open>Deletion\<close>

lemma delete_walk_ok:
  assumes "rt_wf h s" "rt_get h s i \<noteq> RNull" "\<forall>g<2. \<not> rt_tag h s g i"
  shows "\<exists>s' st. delete_walk h i s = Some (s', st) \<and> (st = Freed \<longrightarrow> s' = RNull) \<and> (st \<noteq> Freed \<longrightarrow> rt_wf h s') \<and>
    (\<forall>j. rt_get h s' j = (if j mod 64 ^ h = i mod 64 ^ h then RNull else rt_get h s j)) \<and>
    (\<forall>g<2. \<forall>j. rt_tag h s' g j = rt_tag h s g j) \<and>
    (0 < h \<longrightarrow> (\<forall>g<2. any_tag_set (tags s) g = (st \<noteq> Freed \<and> any_tag_set (tags s') g)))"
  using assms
proof (induction h arbitrary: s)
  case (Suc h)
  from Suc.prems(1) obtain c sl tg where s: "s = RNode (Suc h) c sl tg" "length sl = 64" "length tg = 2" "c = children sl" "c \<noteq> 0"
    "\<And>x. x \<in> set sl \<Longrightarrow> x \<noteq> RNull \<Longrightarrow> rt_wf h x" "tags_ok h sl tg"
    by (elim rt_wf_SucE) auto
  let ?o = "slot_off h i"
  have g: "rt_get h (sl ! ?o) i \<noteq> RNull"
    using Suc.prems(2) s(1) by simp
  then have n: "sl ! ?o \<noteq> RNull" by auto
  then have w: "rt_wf h (sl ! ?o)"
    using wf_child [OF s(6,2)] by blast
  have nt: "\<forall>g<2. \<not> rt_tag h (sl ! ?o) g i"
    using Suc.prems(3) s(1) by (cases "h = 0") auto
  obtain ch st where ch': "delete_walk h i (sl ! ?o) = Some (ch, st)" "st = Freed \<longrightarrow> ch = RNull" "st \<noteq> Freed \<longrightarrow> rt_wf h ch"
    "\<forall>j. rt_get h ch j = (if j mod 64 ^ h = i mod 64 ^ h then RNull else rt_get h (sl ! ?o) j)"
    "\<forall>g<2. \<forall>j. rt_tag h ch g j = rt_tag h (sl ! ?o) g j"
    "0 < h \<longrightarrow> (\<forall>g<2. any_tag_set (tags (sl ! ?o)) g = (st \<noteq> Freed \<and> any_tag_set (tags ch) g))"
    using Suc.IH [OF w g nt] by (elim exE conjE) (rule that)
  note ch = ch' [rule_format]
  have ts: "tags s = tg" using s(1) by simp
  have old: "tag_get tg g ?o = any_tag_set (tags (sl ! ?o)) g" if "g < 2" "0 < h" for g
    using s(7) that n slot_off_less [of h i] unfolding tags_ok_def by blast
  have get: "rt_get h ((sl[?o := ch]) ! slot_off h j) j =
      (if j mod 64 ^ Suc h = i mod 64 ^ Suc h then RNull else rt_get (Suc h) s j)" for j
    unfolding mod_Suc_cong using s(1,2) ch(4) [of j] by (cases "slot_off h j = ?o") auto
  have tag: "(if h = 0 then tag_get tg g (slot_off h j) else rt_tag h ((sl[?o := ch]) ! slot_off h j) g j) = rt_tag (Suc h) s g j" if "g < 2" for g j
    using s(1,2) ch(5) [OF that, of j] by (cases "slot_off h j = ?o") auto
  show ?case
  proof (cases "st = Freed")
    case False
    let ?s' = "RNode (Suc h) c (sl[?o := ch]) tg"
    have ch0: "ch \<noteq> RNull" using ch(3) [OF False] by auto
    have "tags_ok h (sl[?o := ch]) tg"
      using ch0 ch(6) old False by (intro tags_ok_update [OF s(7,2)]) auto
    moreover have "c = children (sl[?o := ch])"
      using children_update [of ?o sl ch] n ch0 s(2,4) by auto
    ultimately have "rt_wf (Suc h) ?s'"
      using s ch(3) [OF False] by (intro wf_node_update) auto
    moreover have "delete_walk (Suc h) i s = Some (?s', StopBelow)"
      using s(1) ch(1) False by (simp add: Let_def)
    ultimately show ?thesis
      using get tag ts by (intro exI [of _ ?s'] exI [of _ StopBelow] conjI) (simp_all del: rt_wf.simps delete_walk.simps)
  next
    case True
    then have ch0: "ch = RNull" using ch(2) by simp
    have t0: "\<not> tag_get tg g ?o" if "g < 2" for g
      using Suc.prems(3) that old [OF that] ch(6) [OF _ that] True s(1) by (cases "h = 0") auto
    have c1: "children (sl[?o := RNull]) = c - 1"
      using children_update [of ?o sl RNull] n s(2,4) by auto
    have ok: "tags_ok h (sl[?o := RNull]) tg"
      using t0 by (intro tags_ok_update [OF s(7,2)]) auto
    show ?thesis
    proof (cases "c - 1 = 0")
      case False
      let ?s' = "RNode (Suc h) (c - 1) (sl[?o := RNull]) tg"
      have "rt_wf (Suc h) ?s'"
        using s c1 False ok by (intro wf_node_update) auto
      moreover have "delete_walk (Suc h) i s = Some (?s', StopHere)"
        using s(1,5) ch(1) True False by (simp add: Let_def dec32_def)
      ultimately show ?thesis
        using get [unfolded ch0] tag [unfolded ch0] ts
        by (intro exI [of _ ?s'] exI [of _ StopHere] conjI) (simp_all del: rt_wf.simps delete_walk.simps)
    next
      case empty: True
      then have "c = 1" using s(5) by simp
      then have oth: "sl ! j = RNull" if "j < 64" "j \<noteq> ?o" for j
        using children_one [of sl ?o j] s(2,4) n that by simp
      have all0: "(sl[?o := ch]) ! slot_off h j = RNull" for j
        using oth [of "slot_off h j"] s(2) ch0 by (cases "slot_off h j = ?o") auto
      have "\<not> tag_get tg g j" if "g < 2" "j < 64" for g j
        using t0 [OF that(1)] oth [OF that(2)] s(7) that unfolding tags_ok_def by metis
      then have any: "\<not> any_tag_set tg g" if "g < 2" for g
        using that by (auto simp: any_tag_set_iff)
      moreover have "delete_walk (Suc h) i s = Some (RNull, Freed)"
        using s(1,5) ch(1) True empty by (simp add: Let_def dec32_def)
      moreover have "rt_tag (Suc h) s g j = False" if "g < 2" for g j
        using rt_tag_any [OF Suc.prems(1) _ that] any [OF that] s(1) by auto
      ultimately show ?thesis
        using get all0 ts by (intro exI [of _ RNull] exI [of _ Freed] conjI) (simp_all del: rt_wf.simps delete_walk.simps)
    qed
  qed
qed auto

lemma delete_tag_ok:
  assumes inv: "rt_inv root" and i: "root_get root i \<noteq> None" and h: "0 < rt_height root" and g: "g < 2"
  shows "\<exists>root'. delete_tag i g root = Some root' \<and> rt_inv root' \<and> root_get root' = root_get root \<and>
    rt_height root' = rt_height root \<and> (\<forall>g'<2. \<forall>j. root_tagged root' g' j = (root_tagged root g' j \<and> \<not> (g' = g \<and> j = i)))"
proof -
  note N = root_get_node [OF inv i]
  obtain h' where h': "rt_height root = Suc h'" using h by (cases "rt_height root") auto
  have t: "tag_get_walk (rt_height root) i g (rnode root) = Some (rt_tag (rt_height root) (rnode root) g i)"
    using tag_get_walk_tag [of "rnode root" h' i g] N(4) h' by auto
  show ?thesis
  proof (cases "rt_tag (rt_height root) (rnode root) g i")
    case True
    obtain r it where "radix_tree_tag_clear root i g = Some (r, it)" "rt_inv r" "root_get r = root_get root" "rt_height r = rt_height root"
      "\<forall>g'<2. \<forall>j. root_tagged r g' j = (root_tagged root g' j \<and> \<not> (g' = g \<and> j = i))"
      using tag_clear_ok [OF inv g, of i] by (elim exE conjE) (rule that)
    then show ?thesis
      using t True by (intro exI [of _ r] conjI) (simp_all add: delete_tag_def)
  next
    case False
    then have "\<not> root_tagged root g i"
      using h by (simp add: root_tagged_def)
    then show ?thesis
      using t False inv by (intro exI [of _ root] conjI) (auto simp: delete_tag_def)
  qed
qed

lemma delete_ok:
  assumes inv: "rt_inv root" and i: "root_get root i = Some a"
  shows "\<exists>root'. radix_tree_delete root i = Some (root', RItem a) \<and> rt_inv root' \<and> root_get root' = (root_get root)(i := None) \<and>
    (\<forall>g<2. \<forall>j. root_tagged root' g j = (root_tagged root g j \<and> j \<noteq> i))"
proof (cases "rt_height root = 0")
  case True
  have i': "root_get root i \<noteq> None" using i by simp
  note N = root_get_node [OF inv i']
  let ?r = "(root_tag_clear_all root)\<lparr>rnode := RNull\<rparr>"
  have "radix_tree_delete root i = Some (?r, RItem a)"
    using True N(1,5) i by (simp add: radix_tree_delete_def maxindex_eq)
  moreover have "rt_inv ?r"
    using True by (simp add: rt_inv_def)
  moreover have "root_get ?r = (root_get root)(i := None)" "\<forall>g<2. \<forall>j. root_tagged ?r g j = (root_tagged root g j \<and> j \<noteq> i)"
    using True N(1) by (auto simp: root_get_def root_tagged_def fun_eq_iff)
  ultimately show ?thesis
    by blast
next
  case False
  have i': "root_get root i \<noteq> None" using i by simp
  note N = root_get_node [OF inv i']
  have h: "0 < rt_height root" using False by simp
  obtain r1 where r1: "delete_tag i 0 root = Some r1" "rt_inv r1" "root_get r1 = root_get root" "rt_height r1 = rt_height root"
    "\<forall>g'<2. \<forall>j. root_tagged r1 g' j = (root_tagged root g' j \<and> \<not> (g' = 0 \<and> j = i))"
    using delete_tag_ok [OF inv i' h, of 0] by (elim meta_impE exE conjE) (simp, rule that)
  have i1: "root_get r1 i \<noteq> None" and h1: "0 < rt_height r1"
    using r1(3,4) i' h by simp_all
  obtain r2 where r2: "delete_tag i 1 r1 = Some r2" "rt_inv r2" "root_get r2 = root_get r1" "rt_height r2 = rt_height r1"
    "\<forall>g'<2. \<forall>j. root_tagged r2 g' j = (root_tagged r1 g' j \<and> \<not> (g' = 1 \<and> j = i))"
    using delete_tag_ok [OF r1(2) i1 h1, of 1] by (elim meta_impE exE conjE) (simp, rule that)
  have tagged: "root_tagged r2 g j = (root_tagged root g j \<and> j \<noteq> i)" if "g < 2" for g j
    using r1(5) r2(5) that by (auto simp: less_2_cases_iff)
  have i2: "root_get r2 i \<noteq> None" and h2: "0 < rt_height r2"
    using r2(3,4) i1 h1 by simp_all
  note N2 = root_get_node [OF r2(2) i2]
  let ?h = "rt_height r2"
  have nt: "\<forall>g<2. \<not> rt_tag ?h (rnode r2) g i"
    using tagged [of _ i] N2(1) h2 by (auto simp: root_tagged_def)
  obtain s' st where s'': "delete_walk ?h i (rnode r2) = Some (s', st)" "st = Freed \<longrightarrow> s' = RNull" "st \<noteq> Freed \<longrightarrow> rt_wf ?h s'"
    "\<forall>j. rt_get ?h s' j = (if j mod 64 ^ ?h = i mod 64 ^ ?h then RNull else rt_get ?h (rnode r2) j)"
    "\<forall>g<2. \<forall>j. rt_tag ?h s' g j = rt_tag ?h (rnode r2) g j"
    "0 < ?h \<longrightarrow> (\<forall>g<2. any_tag_set (tags (rnode r2)) g = (st \<noteq> Freed \<and> any_tag_set (tags s') g))"
    using delete_walk_ok [OF N2(4,2) nt] by (elim exE conjE) (rule that)
  note s' = s'' [rule_format]
  let ?r3 = "r2\<lparr>rnode := s'\<rparr>"
  have get3: "root_get ?r3 = (root_get root)(i := None)"
  proof
    fix j
    have "root_get ?r3 j = (if j = i then None else root_get r2 j)"
      using s'(4) [of j] N2(1) by (auto simp: root_get_def)
    then show "root_get ?r3 j = ((root_get root)(i := None)) j"
      using r1(3) r2(3) by simp
  qed
  have tag3: "root_tagged ?r3 g j = (root_tagged root g j \<and> j \<noteq> i)" if "g < 2" for g j
    using tagged [OF that, of j] s'(5) [OF that, of j] h2 by (simp add: root_tagged_def)
  have run: "radix_tree_delete root i = Option.bind
     (case st of Freed \<Rightarrow> Some ((root_tag_clear_all r2)\<lparr>rt_height := 0, rnode := RNull\<rparr>)
       | StopHere \<Rightarrow> radix_tree_shrink ?r3 | StopBelow \<Rightarrow> Some ?r3) (\<lambda>r. Some (r, RItem a))"
    using N(1,5) i False inv_height [OF inv] lookup_walk_get [OF rt_inv_wf [OF inv], of i] r1(1) r2(1) s'(1)
    by (simp add: radix_tree_delete_def maxindex_eq)
  show ?thesis
  proof (cases "st = Freed")
    case True
    let ?r = "(root_tag_clear_all r2)\<lparr>rt_height := 0, rnode := RNull\<rparr>"
    have "root_get ?r = root_get ?r3"
      using s'(2) [OF True] by (auto simp: root_get_def)
    moreover have "root_tagged ?r g j = root_tagged ?r3 g j" for g j
      using s'(2) [OF True] h2 by (auto simp: root_tagged_def)
    moreover have "rt_inv ?r"
      by (simp add: rt_inv_def)
    ultimately show ?thesis
      using run True get3 tag3 by (intro exI [of _ ?r] conjI) simp_all
  next
    case False
    then have w: "rt_wf ?h s'" using s'(3) by simp
    then have n: "s' \<noteq> RNull" by auto
    have inv3: "rt_inv ?r3"
      using r2(2) w n N2(3) s'(6) [OF h2] False h2 by (auto simp: rt_inv_def)
    show ?thesis
    proof (cases st)
      case StopHere
      obtain r4 where "radix_tree_shrink ?r3 = Some r4" "rt_inv r4" "root_get r4 = root_get ?r3" "\<forall>g<2. root_tagged r4 g = root_tagged ?r3 g"
        using shrink_ok [OF inv3] n by (elim meta_impE exE conjE) (simp, rule that)
      then show ?thesis
        using run StopHere get3 tag3 by (intro exI [of _ r4] conjI) simp_all
    next
      case StopBelow
      then show ?thesis
        using run inv3 get3 tag3 by (intro exI [of _ ?r3] conjI) simp_all
    qed (use False in simp)
  qed
qed

lemma delete_missing:
  assumes inv: "rt_inv root" and i: "root_get root i = None"
  shows "\<exists>root'. radix_tree_delete root i = Some (root', RNull) \<and> rt_inv root' \<and> root_get root' = root_get root \<and>
    (\<forall>g<2. root_tagged root' g = root_tagged root g)"
proof (cases "rt_height root = 0 \<and> i = 0")
  case True
  then have n: "rnode root = RNull"
    using root_get_None [OF inv i] by simp
  then have "\<forall>g<2. \<not> root_tag_get root g"
    using inv by (simp add: rt_inv_def)
  then show ?thesis
    using True n by (intro exI [of _ "(root_tag_clear_all root)\<lparr>rnode := RNull\<rparr>"])
      (auto simp: radix_tree_delete_def maxindex_eq rt_inv_def root_get_def root_tagged_def fun_eq_iff)
next
  case False
  have "radix_tree_delete root i = Some (root, RNull)"
  proof (cases "i < 64 ^ rt_height root")
    case True
    then show ?thesis
      using False lookup_walk_get [OF rt_inv_wf [OF inv], of i] root_get_None [OF inv i True] inv_height [OF inv]
      by (auto simp: radix_tree_delete_def maxindex_eq)
  next
    case False
    then show ?thesis
      using inv_height [OF inv] by (simp add: radix_tree_delete_def maxindex_eq)
  qed
  then show ?thesis
    using inv by auto
qed

subsection \<open>Gang lookup\<close>

lemma div64: "i div 64 ^ h div 64 = i div 64 ^ Suc h" for i :: nat
  by (simp add: mult.commute flip: div_mult2_eq)

lemma scan_next:
  fixes index :: nat
  assumes "index < 2 ^ 32" "h \<le> 4"
  shows "(index - index mod 2 ^ (h * RADIX_TREE_MAP_SHIFT) + 2 ^ (h * RADIX_TREE_MAP_SHIFT)) mod 2 ^ 64 = (index div 64 ^ h + 1) * 64 ^ h"
proof -
  have "(64 :: nat) ^ h \<le> 64 ^ 4"
    using assms(2) by (intro power_increasing) auto
  moreover have "index - index mod 64 ^ h \<le> index"
    by simp
  ultimately have "index - index mod 64 ^ h + 64 ^ h < 2 ^ 64"
    using assms(1) by (simp del: One_nat_def)
  moreover have "index - index mod 64 ^ h = index div 64 ^ h * 64 ^ h"
    by (simp add: minus_mod_eq_div_mult)
  ultimately show ?thesis
    unfolding pow_shift by (simp add: algebra_simps)
qed

definition seg_end :: "nat \<Rightarrow> nat \<Rightarrow> nat" where
  "seg_end h i = (i div 64 ^ h + 1) * 64 ^ h"

lemma seg_end_gt: "i < seg_end h i"
  using dividend_less_div_times [of "64 ^ h" i] by (simp add: seg_end_def algebra_simps)

lemma seg_same:
  assumes "i \<le> j" "j < seg_end h i"
  shows "j div 64 ^ h = i div 64 ^ h"
proof (rule antisym)
  show "j div 64 ^ h \<le> i div 64 ^ h"
    using assms(2) less_mult_imp_div_less [of j "i div 64 ^ h + 1" "64 ^ h"] by (simp add: seg_end_def)
  show "i div 64 ^ h \<le> j div 64 ^ h"
    using assms(1) by (rule div_le_mono)
qed

lemma seg_end_div: "seg_end h i div 64 ^ h = i div 64 ^ h + 1"
  by (simp add: seg_end_def)

lemma slot_off_div: "slot_off h i = i div 64 ^ h mod 64"
  by (simp add: slot_off_def pow_shift RADIX_TREE_MAP_SIZE_def)

lemma block_arith:
  fixes b :: nat
  shows "b mod 64 = 63 \<Longrightarrow> b + 1 = (b div 64 + 1) * 64" "b mod 64 < 63 \<Longrightarrow> (b + 1) mod 64 = b mod 64 + 1"
    "b mod 64 < 63 \<Longrightarrow> (b + 1) div 64 = b div 64"
proof -
  show "b mod 64 = 63 \<Longrightarrow> b + 1 = (b div 64 + 1) * 64"
    using div_mult_mod_eq [of b 64] by (simp add: algebra_simps)
  show "b mod 64 < 63 \<Longrightarrow> (b + 1) mod 64 = b mod 64 + 1" "b mod 64 < 63 \<Longrightarrow> (b + 1) div 64 = b div 64"
    by (simp_all add: mod_Suc div_Suc)
qed

lemma seg_end_Suc: "slot_off h i = 63 \<Longrightarrow> seg_end h i = seg_end (Suc h) i"
proof -
  assume "slot_off h i = 63"
  then have "i div 64 ^ h + 1 = (i div 64 ^ h div 64 + 1) * 64"
    unfolding slot_off_div by (rule block_arith)
  then show ?thesis
    unfolding seg_end_def div64 by (simp add: algebra_simps)
qed

lemma seg_next:
  assumes "slot_off h i < 63"
  shows "slot_off h (seg_end h i) = slot_off h i + 1" "seg_end h i div 64 ^ Suc h = i div 64 ^ Suc h"
    "seg_end (Suc h) (seg_end h i) = seg_end (Suc h) i"
proof -
  show "slot_off h (seg_end h i) = slot_off h i + 1"
    using assms unfolding slot_off_div seg_end_div by (rule block_arith)
  show d: "seg_end h i div 64 ^ Suc h = i div 64 ^ Suc h"
    using assms unfolding div64 [symmetric] seg_end_div slot_off_div by (rule block_arith)
  show "seg_end (Suc h) (seg_end h i) = seg_end (Suc h) i"
    unfolding seg_end_def [of "Suc h"] d ..
qed

lemma batch_scan_spec:
  assumes "h \<le> 4" "seg_end (Suc h) index \<le> 2 ^ 32" "i = slot_off h index"
    "batch_scan P (h * RADIX_TREE_MAP_SHIFT) [i ..< 64] index = (r, idx)"
  shows "index \<le> idx \<and> (\<forall>j. index \<le> j \<and> j < idx \<longrightarrow> \<not> P (slot_off h j)) \<and>
    (case r of Some i' \<Rightarrow> P i' \<and> i' = slot_off h idx \<and> idx div 64 ^ Suc h = index div 64 ^ Suc h
     | None \<Rightarrow> idx = seg_end (Suc h) index)"
  using assms(2-4)
proof (induction "64 - i" arbitrary: i index)
  case 0
  then show ?case
    using slot_off_less [of h index] by simp
next
  case (Suc n)
  have up: "[i ..< 64] = i # [Suc i ..< 64]"
    using Suc.hyps(2) by (simp add: upt_conv_Cons)
  show ?case
  proof (cases "P i")
    case True
    then show ?thesis
      using Suc.prems up by auto
  next
    case False
    have b: "index < 2 ^ 32"
      using seg_end_gt [of index "Suc h"] Suc.prems(1) by linarith
    let ?n = "seg_end h index"
    have n0: "?n \<noteq> 0"
      by (simp add: seg_end_def)
    have step: "batch_scan P (h * RADIX_TREE_MAP_SHIFT) [Suc i ..< 64] ?n = (r, idx)"
      using Suc.prems(3) False n0 unfolding up batch_scan.simps Let_def scan_next [OF b assms(1)] seg_end_def by simp
    have seg: "\<not> P (slot_off h j)" if "index \<le> j" "j < ?n" for j
      using seg_same [OF that] False Suc.prems(2) by (simp add: slot_off_div)
    show ?thesis
    proof (cases "i = 63")
      case True
      then have "r = None" "idx = ?n"
        using step by auto
      then show ?thesis
        using seg seg_end_gt [of index h] seg_end_Suc [of h index] Suc.prems(2) True by auto
    next
      case False
      then have i: "slot_off h index < 63"
        using Suc.prems(2) slot_off_less [of h index] by linarith
      note N = seg_next [OF i]
      have IH: "?n \<le> idx \<and> (\<forall>j. ?n \<le> j \<and> j < idx \<longrightarrow> \<not> P (slot_off h j)) \<and>
        (case r of Some i' \<Rightarrow> P i' \<and> i' = slot_off h idx \<and> idx div 64 ^ Suc h = ?n div 64 ^ Suc h
         | None \<Rightarrow> idx = seg_end (Suc h) ?n)"
        using Suc.hyps(2) Suc.prems(1,2) N step by (intro Suc.hyps(1) [of "Suc i"]) auto
      have "\<not> P (slot_off h j)" if "index \<le> j" "j < idx" for j
        using seg [OF that(1)] IH that(2) by (cases "j < ?n") auto
      then show ?thesis
        using IH N(2,3) seg_end_gt [of index h] by (auto split: option.splits)
    qed
  qed
qed

text \<open>What a search selects in a subtree: the used entries, or the tagged ones.\<close>

definition rt_sel :: "nat option \<Rightarrow> nat \<Rightarrow> 'a slot \<Rightarrow> nat \<Rightarrow> bool" where
  "rt_sel tag h s j \<longleftrightarrow> (case tag of None \<Rightarrow> rt_get h s j \<noteq> RNull | Some g \<Rightarrow> rt_tag h s g j)"

lemma seg_end_mono_Suc: "seg_end h i \<le> seg_end (Suc h) i"
proof -
  have "i div 64 ^ h < (i div 64 ^ h div 64 + 1) * 64"
    using dividend_less_div_times [of 64 "i div 64 ^ h"] by simp
  then have "(i div 64 ^ h + 1) * 64 ^ h \<le> (i div 64 ^ h div 64 + 1) * 64 * 64 ^ h"
    by (intro mult_right_mono) auto
  then show ?thesis
    unfolding seg_end_def div64 by (simp add: algebra_simps)
qed

lemma seg_end_cong: "i div 64 ^ h = j div 64 ^ h \<Longrightarrow> seg_end h i = seg_end h j"
  by (simp add: seg_end_def)

lemma batch_down_spec:
  assumes "rt_wf (Suc h) s" "h \<le> 4" "seg_end (Suc h) index \<le> 2 ^ 32" "\<forall>g. tag = Some g \<longrightarrow> g < 2"
  shows "\<exists>b idx. batch_down tag (Suc h) s index = Some (b, idx) \<and> index \<le> idx \<and> idx \<le> seg_end (Suc h) index \<and>
    (\<forall>j. index \<le> j \<and> j < idx \<longrightarrow> \<not> rt_sel tag (Suc h) s j) \<and>
    (case b of None \<Rightarrow> index < idx
     | Some leaf \<Rightarrow> idx < seg_end (Suc h) index \<and> rt_wf 1 leaf \<and>
         (\<forall>j. j div 64 = idx div 64 \<longrightarrow> rt_get (Suc h) s j = slots leaf ! (j mod 64) \<and> (\<forall>g. rt_tag (Suc h) s g j = tag_get (tags leaf) g (j mod 64))))"
  using assms
proof (induction h arbitrary: s index)
  case 0
  from "0.prems"(1) obtain c sl tg where s: "s = RNode 1 c sl tg" "length sl = 64" "tags_ok 0 sl tg"
    by (elim rt_wf_SucE) auto
  have leaf: "rt_get (Suc 0) s j = slots s ! (j mod 64)" "rt_tag (Suc 0) s g j = tag_get (tags s) g (j mod 64)" for j g
    using s(1) by (simp_all add: slot_off_div)
  show ?case
  proof (cases tag)
    case None
    then have "batch_down tag (Suc 0) s index = Some (Some s, index)"
      using s(1) by simp
    then show ?thesis
      using leaf seg_end_gt [of index "Suc 0"] "0.prems"(1) by (intro exI [of _ "Some s"] exI [of _ index]) auto
  next
    case (Some g)
    obtain r idx where sc: "batch_scan (tag_get tg g) (0 * RADIX_TREE_MAP_SHIFT) [slot_off 0 index ..< 64] index = (r, idx)"
      by fastforce
    note S = batch_scan_spec [OF _ "0.prems"(3) refl sc]
    have sel: "rt_sel tag (Suc 0) s j = tag_get tg g (slot_off 0 j)" for j
      using Some s(1) by (simp add: rt_sel_def)
    have run: "batch_down tag (Suc 0) s index = Some (case r of None \<Rightarrow> None | Some _ \<Rightarrow> Some s, idx)"
      using s(1) Some sc by (simp add: RADIX_TREE_MAP_SIZE_def split: option.splits)
    show ?thesis
    proof (cases r)
      case None
      then show ?thesis
        using run S seg_end_gt [of index 1] by (intro exI [of _ None] exI [of _ idx]) (auto simp: sel)
    next
      case (Some i)
      then have "seg_end (Suc 0) idx = seg_end (Suc 0) index"
        using S by (intro seg_end_cong) auto
      then have "idx < seg_end (Suc 0) index"
        using seg_end_gt [of idx "Suc 0"] by simp
      then show ?thesis
        using run S Some leaf "0.prems"(1) by (intro exI [of _ "Some s"] exI [of _ idx]) (auto simp: sel)
    qed
  qed
next
  case (Suc h)
  let ?h = "Suc h"
  from Suc.prems(1) obtain c sl tg where s: "s = RNode (Suc ?h) c sl tg" "length sl = 64" "tags_ok ?h sl tg"
    "\<And>x. x \<in> set sl \<Longrightarrow> x \<noteq> RNull \<Longrightarrow> rt_wf ?h x"
    by (elim rt_wf_SucE) auto
  have T: "g < 2 \<Longrightarrow> i < 64 \<Longrightarrow> tag_get tg g i \<Longrightarrow> sl ! i \<noteq> RNull"
    "g < 2 \<Longrightarrow> i < 64 \<Longrightarrow> sl ! i \<noteq> RNull \<Longrightarrow> tag_get tg g i = any_tag_set (tags (sl ! i)) g" for g i
    using s(3) unfolding tags_ok_def by (simp, blast)
  let ?P = "\<lambda>i. case tag of Some g \<Rightarrow> tag_get tg g i | None \<Rightarrow> sl ! i \<noteq> RNull"
  obtain r idx where sc: "batch_scan ?P (?h * RADIX_TREE_MAP_SHIFT) [slot_off ?h index ..< 64] index = (r, idx)"
    by fastforce
  have S: "index \<le> idx" "\<And>j. index \<le> j \<Longrightarrow> j < idx \<Longrightarrow> \<not> ?P (slot_off ?h j)"
    "case r of Some i' \<Rightarrow> ?P i' \<and> i' = slot_off ?h idx \<and> idx div 64 ^ Suc ?h = index div 64 ^ Suc ?h | None \<Rightarrow> idx = seg_end (Suc ?h) index"
    using batch_scan_spec [OF Suc.prems(2,3) refl sc] by auto
  have sel: "rt_sel tag (Suc ?h) s j = rt_sel tag ?h (sl ! slot_off ?h j) j" for j
    using s(1) by (simp add: rt_sel_def split: option.splits)
  have notP: "\<not> rt_sel tag (Suc ?h) s j" if "\<not> ?P (slot_off ?h j)" for j
  proof (cases tag)
    case None
    then show ?thesis
      using that sel [of j] by (simp add: rt_sel_def)
  next
    case (Some g)
    have g: "g < 2" using Suc.prems(4) Some by blast
    let ?c = "sl ! slot_off ?h j"
    have "\<not> rt_tag ?h ?c g j"
    proof
      assume t: "rt_tag ?h ?c g j"
      then have n: "?c \<noteq> RNull" by auto
      then have "rt_wf ?h ?c"
        using wf_child [OF s(4,2)] by blast
      then have "any_tag_set (tags ?c) g"
        using rt_tag_any t g by blast
      then show False
        using T(2) [OF g slot_off_less n] that Some by simp
    qed
    then show ?thesis
      using sel [of j] Some by (simp add: rt_sel_def)
  qed
  have none: "\<not> rt_sel tag (Suc ?h) s j" if "index \<le> j" "j < idx" for j
    using notP S(2) that by blast
  show ?case
  proof (cases r)
    case None
    then have "batch_down tag (Suc ?h) s index = Some (None, idx)"
      using s(1) sc by (simp add: RADIX_TREE_MAP_SIZE_def)
    then show ?thesis
      using None S(3) none seg_end_gt [of index "Suc ?h"] by (intro exI [of _ None] exI [of _ idx]) auto
  next
    case (Some i)
    have i: "?P i" "i = slot_off ?h idx" and same: "idx div 64 ^ Suc ?h = index div 64 ^ Suc ?h"
      using S(3) unfolding Some option.case by blast+
    let ?c = "sl ! i"
    have n: "?c \<noteq> RNull"
    proof (cases tag)
      case None
      then show ?thesis using i(1) by simp
    next
      case (Some g)
      then have "tag_get tg g i" using i(1) by simp
      then show ?thesis
        using T(1) [of g i] Suc.prems(4) Some i(2) slot_off_less [of ?h idx] by blast
    qed
    then have w: "rt_wf ?h ?c"
      using wf_child [OF s(4,2), of ?h idx] i(2) by simp
    have e: "seg_end ?h idx \<le> seg_end (Suc ?h) index"
      using seg_end_mono_Suc [of ?h idx] seg_end_cong [OF same] by linarith
    have run: "batch_down tag (Suc ?h) s index = batch_down tag ?h ?c idx"
      using s(1) sc Some n by (simp add: RADIX_TREE_MAP_SIZE_def)
    have h4: "h \<le> 4" "seg_end (Suc h) idx \<le> 2 ^ 32"
      using Suc.prems(2,3) e by linarith+
    from Suc.IH [OF w h4 Suc.prems(4)] obtain b idx' where
      B: "batch_down tag ?h ?c idx = Some (b, idx')" "idx \<le> idx'" "idx' \<le> seg_end ?h idx"
        "\<And>j. idx \<le> j \<Longrightarrow> j < idx' \<Longrightarrow> \<not> rt_sel tag ?h ?c j"
        "case b of None \<Rightarrow> idx < idx'
         | Some leaf \<Rightarrow> idx' < seg_end ?h idx \<and> rt_wf 1 leaf \<and>
             (\<forall>j. j div 64 = idx' div 64 \<longrightarrow> rt_get ?h ?c j = slots leaf ! (j mod 64) \<and> (\<forall>g. rt_tag ?h ?c g j = tag_get (tags leaf) g (j mod 64)))"
      by blast
    have off: "slot_off ?h j = i" if "idx \<le> j" "j < seg_end ?h idx" for j
      using seg_same [OF that] i(2) by (simp add: slot_off_div)
    have nsel: "\<not> rt_sel tag (Suc ?h) s j" if j: "index \<le> j" "j < idx'" for j
    proof (cases "j < idx")
      case False
      then show ?thesis
        using B(4) [of j] off [of j] B(3) j sel [of j] by simp
    qed (use none j in blast)
    have leaf: "rt_get (Suc ?h) s j = rt_get ?h ?c j" "rt_tag (Suc ?h) s g j = rt_tag ?h ?c g j" if "j div 64 = idx' div 64" "idx' < seg_end ?h idx" for j g
    proof -
      have "j div 64 ^ ?h = idx' div 64 ^ ?h"
        using that(1) by (simp add: div_mult2_eq)
      also have "\<dots> = idx div 64 ^ ?h"
        using seg_same B(2) that(2) by blast
      finally have "slot_off ?h j = i"
        using i(2) by (simp add: slot_off_div)
      then show "rt_get (Suc ?h) s j = rt_get ?h ?c j" "rt_tag (Suc ?h) s g j = rt_tag ?h ?c g j"
        using s(1) by simp_all
    qed
    have "idx' \<le> seg_end (Suc ?h) index"
      using B(3) e by linarith
    moreover have "index \<le> idx'"
      using S(1) B(2) by linarith
    moreover have "case b of None \<Rightarrow> index < idx'
         | Some l \<Rightarrow> idx' < seg_end (Suc ?h) index \<and> rt_wf 1 l \<and>
             (\<forall>j. j div 64 = idx' div 64 \<longrightarrow> rt_get (Suc ?h) s j = slots l ! (j mod 64) \<and> (\<forall>g. rt_tag (Suc ?h) s g j = tag_get (tags l) g (j mod 64)))"
    proof (cases b)
      case None
      then show ?thesis using B(5) S(1) by simp
    next
      case (Some l)
      then have "idx' < seg_end ?h idx" "rt_wf 1 l"
        "\<forall>j. j div 64 = idx' div 64 \<longrightarrow> rt_get ?h ?c j = slots l ! (j mod 64) \<and> (\<forall>g. rt_tag ?h ?c g j = tag_get (tags l) g (j mod 64))"
        using B(5) by simp_all
      then show ?thesis
        using Some leaf e by (simp del: rt_get.simps rt_tag.simps rt_wf.simps)
    qed
    ultimately show ?thesis
      using run B(1) nsel by (intro exI [of _ b] exI [of _ idx'] conjI) (simp_all del: rt_get.simps rt_tag.simps rt_wf.simps batch_down.simps)
  qed
qed

definition leaf_sel :: "nat option \<Rightarrow> 'a slot list \<Rightarrow> uint64 list \<Rightarrow> nat \<Rightarrow> bool" where
  "leaf_sel tag sl tg i \<longleftrightarrow> (case tag of None \<Rightarrow> True | Some g \<Rightarrow> tag_get tg g i) \<and> sl ! i \<noteq> RNull"

lemma batch_grab_spec:
  assumes items: "\<And>i. i < 64 \<Longrightarrow> sl ! i = RNull \<or> (\<exists>a. sl ! i = RItem a)"
    and "i \<le> 64" "index mod 64 = i mod 64" "index + (64 - i) < 2 ^ 64" "length calls + (64 - i) < max_items"
  shows "batch_grab tag sl tg max_items [i ..< 64] index calls =
    Some (calls @ map (\<lambda>j. (j, the (slot_item (sl ! (j mod 64))))) (filter (\<lambda>j. leaf_sel tag sl tg (j mod 64)) [index ..< index + (64 - i)]),
          index + (64 - i))"
  using assms(2-5)
proof (induction "64 - i" arbitrary: i index calls)
  case (Suc n)
  have i: "i < 64" using Suc.hyps(2) by simp
  have e: "index + (64 - i) = index + 1 + (64 - Suc i)"
    using i by simp
  have up: "[i ..< 64] = i # [Suc i ..< 64]" "[index ..< index + 1 + (64 - Suc i)] = index # [index + 1 ..< index + 1 + (64 - Suc i)]"
    using i by (rule upt_conv_Cons, simp add: upt_conv_Cons del: upt_Suc)
  have m: "index mod 64 = i" "(index + 1) mod 64 = Suc i mod 64"
    using Suc.prems(2) i by (simp_all add: mod_Suc)
  have w: "(index + 1) mod 2 ^ 64 = index + 1"
    using Suc.prems(3) i by simp
  have IH: "length calls' \<le> Suc (length calls) \<Longrightarrow> batch_grab tag sl tg max_items [Suc i ..< 64] (index + 1) calls' =
    Some (calls' @ map (\<lambda>j. (j, the (slot_item (sl ! (j mod 64))))) (filter (\<lambda>j. leaf_sel tag sl tg (j mod 64)) [index + 1 ..< index + 1 + (64 - Suc i)]),
          index + 1 + (64 - Suc i))" for calls'
    using Suc.hyps(2) Suc.prems m(2) i by (intro Suc.hyps(1)) auto
  consider "sl ! i = RNull" | a where "sl ! i = RItem a"
    using items [OF i] by blast
  then show ?case
  proof cases
    case 1
    then have "\<not> leaf_sel tag sl tg i" by (simp add: leaf_sel_def)
    then show ?thesis
      using 1 IH [of calls] unfolding e up batch_grab.simps Let_def w by (auto simp: m(1) split: option.splits)
  next
    case 2
    have "length calls + 1 \<noteq> max_items"
      using Suc.prems(4) i by simp
    then show ?thesis
      using 2 IH [of calls] IH [of "calls @ [(index, a)]"] unfolding e up batch_grab.simps Let_def w
      by (auto simp: m(1) leaf_sel_def split: option.splits)
  qed
qed simp

text \<open>The selected entries of a subtree in an index range, in ascending order.\<close>

definition rt_entries :: "nat option \<Rightarrow> nat \<Rightarrow> 'a slot \<Rightarrow> nat \<Rightarrow> nat \<Rightarrow> (nat \<times> 'a) list" where
  "rt_entries tag h s lo hi = map (\<lambda>j. (j, the (slot_item (rt_get h s j)))) (filter (rt_sel tag h s) [lo ..< hi])"

lemma rt_entries_split: "lo \<le> mid \<Longrightarrow> mid \<le> hi \<Longrightarrow> rt_entries tag h s lo hi = rt_entries tag h s lo mid @ rt_entries tag h s mid hi"
proof -
  assume "lo \<le> mid" "mid \<le> hi"
  then have "[lo ..< hi] = [lo ..< mid] @ [mid ..< hi]"
    by (metis le_Suc_ex upt_add_eq_append)
  then show ?thesis
    by (simp add: rt_entries_def)
qed

lemma rt_entries_none: "(\<And>j. lo \<le> j \<Longrightarrow> j < hi \<Longrightarrow> \<not> rt_sel tag h s j) \<Longrightarrow> rt_entries tag h s lo hi = []"
  by (simp add: rt_entries_def filter_empty_conv)

lemma length_rt_entries: "length (rt_entries tag h s lo hi) \<le> hi - lo"
  unfolding rt_entries_def length_map by (metis length_filter_le length_upt)

lemma seg_end_1: "seg_end 1 i = i + (64 - i mod 64)"
proof -
  have "seg_end 1 i = i div 64 * 64 + 64"
    by (simp add: seg_end_def)
  moreover have "i div 64 * 64 + i mod 64 = i" "i mod 64 < 64"
    by simp_all
  ultimately show ?thesis by linarith
qed

lemma batch_spec:
  assumes wf: "rt_wf (Suc h) s" and h: "h \<le> 4" and e: "seg_end (Suc h) index \<le> 2 ^ 32" and tag: "\<forall>g. tag = Some g \<longrightarrow> g < 2"
    and m: "64 < max_items"
  shows "\<exists>next. radix_tree_lookup_batch_elements s index max_items tag = Some (rt_entries tag (Suc h) s index next, next) \<and>
    index < next \<and> next \<le> seg_end (Suc h) index"
proof -
  have nh: "node_height s = Suc h"
    using rt_wf_SucE [OF wf] by fastforce
  obtain b idx where d: "batch_down tag (Suc h) s index = Some (b, idx)" and idx: "index \<le> idx" "idx \<le> seg_end (Suc h) index"
    and no: "\<forall>j. index \<le> j \<and> j < idx \<longrightarrow> \<not> rt_sel tag (Suc h) s j"
    and b: "case b of None \<Rightarrow> index < idx
     | Some leaf \<Rightarrow> idx < seg_end (Suc h) index \<and> rt_wf 1 leaf \<and>
         (\<forall>j. j div 64 = idx div 64 \<longrightarrow> rt_get (Suc h) s j = slots leaf ! (j mod 64) \<and> (\<forall>g. rt_tag (Suc h) s g j = tag_get (tags leaf) g (j mod 64)))"
    using batch_down_spec [OF wf h e tag] by (elim exE conjE) (rule that)
  have nil: "rt_entries tag (Suc h) s index idx = []"
    using no by (intro rt_entries_none) blast
  show ?thesis
  proof (cases b)
    case None
    then have "radix_tree_lookup_batch_elements s index max_items tag = Some ([], idx)"
      using d nh by (simp add: radix_tree_lookup_batch_elements_def)
    then show ?thesis
      using nil b None idx by (intro exI [of _ idx]) simp
  next
    case (Some leaf)
    have l: "idx < seg_end (Suc h) index" "rt_wf 1 leaf"
      "\<And>j. j div 64 = idx div 64 \<Longrightarrow> rt_get (Suc h) s j = slots leaf ! (j mod 64)"
      "\<And>j g. j div 64 = idx div 64 \<Longrightarrow> rt_tag (Suc h) s g j = tag_get (tags leaf) g (j mod 64)"
      using b unfolding Some option.case by blast+
    from l(2) obtain c where lf: "leaf = RNode 1 c (slots leaf) (tags leaf)" "length (slots leaf) = 64"
      "\<And>x. x \<in> set (slots leaf) \<Longrightarrow> x \<noteq> RNull \<Longrightarrow> rt_wf 0 x" "tags_ok 0 (slots leaf) (tags leaf)"
      unfolding One_nat_def by (elim rt_wf_SucE) auto
    have items: "slots leaf ! i = RNull \<or> (\<exists>a. slots leaf ! i = RItem a)" if "i < 64" for i
    proof -
      have "slots leaf ! i = RNull \<or> rt_wf 0 (slots leaf ! i)"
        using nth_mem [of i "slots leaf"] lf(2,3) that by metis
      then show ?thesis
        by (auto split: slot.splits)
    qed
    let ?n = "seg_end 1 idx"
    have nle: "?n \<le> seg_end (Suc h) index"
    proof -
      have "seg_end (Suc h) idx = seg_end (Suc h) index"
        using seg_same [OF idx(1) l(1)] by (rule seg_end_cong)
      moreover have "seg_end 1 idx \<le> seg_end (Suc h) idx"
        by (induction h) (use seg_end_mono_Suc order_trans in \<open>auto intro: order_trans\<close>)
      ultimately show ?thesis by simp
    qed
    have g: "batch_grab tag (slots leaf) (tags leaf) max_items [idx mod 64 ..< 64] idx [] =
      Some (map (\<lambda>j. (j, the (slot_item (slots leaf ! (j mod 64))))) (filter (\<lambda>j. leaf_sel tag (slots leaf) (tags leaf) (j mod 64)) [idx ..< ?n]), ?n)"
      unfolding seg_end_1 using m e nle seg_end_1 [of idx]
      by (subst batch_grab_spec [OF items]) auto
    have same: "j div 64 = idx div 64" if "j \<in> set [idx ..< ?n]" for j
      using seg_same [of idx j 1] that by simp
    have sel: "rt_sel tag (Suc h) s j = leaf_sel tag (slots leaf) (tags leaf) (j mod 64)" if "j \<in> set [idx ..< ?n]" for j
    proof (cases tag)
      case None
      then show ?thesis
        using l(3) [OF same [OF that]] by (simp add: rt_sel_def leaf_sel_def del: rt_get.simps)
    next
      case (Some g)
      then have "tag_get (tags leaf) g (j mod 64) \<Longrightarrow> slots leaf ! (j mod 64) \<noteq> RNull"
        using lf(4) tag unfolding tags_ok_def by simp
      then show ?thesis
        using l(4) [OF same [OF that], of g] Some by (auto simp: rt_sel_def leaf_sel_def simp del: rt_tag.simps)
    qed
    have "rt_entries tag (Suc h) s idx ?n =
      map (\<lambda>j. (j, the (slot_item (slots leaf ! (j mod 64))))) (filter (\<lambda>j. leaf_sel tag (slots leaf) (tags leaf) (j mod 64)) [idx ..< ?n])"
    proof -
      have f: "filter (rt_sel tag (Suc h) s) [idx ..< ?n] = filter (\<lambda>j. leaf_sel tag (slots leaf) (tags leaf) (j mod 64)) [idx ..< ?n]"
        by (rule filter_cong [OF refl sel])
      have "rt_get (Suc h) s j = slots leaf ! (j mod 64)" if "j \<in> set (filter P [idx ..< ?n])" for j P
        using that same [of j] by (intro l(3)) auto
      then show ?thesis
        unfolding rt_entries_def f by (intro map_cong) (simp_all only:)
    qed
    then have "radix_tree_lookup_batch_elements s index max_items tag = Some (rt_entries tag (Suc h) s idx ?n, ?n)"
      using d nh g Some by (simp add: radix_tree_lookup_batch_elements_def RADIX_TREE_MAP_SIZE_def)
    moreover have "rt_entries tag (Suc h) s index ?n = rt_entries tag (Suc h) s idx ?n"
      using rt_entries_split [of index idx ?n tag "Suc h" s] nil idx(1) seg_end_gt [of idx 1] by simp
    ultimately show ?thesis
      using idx(1) seg_end_gt [of idx 1] nle by (intro exI [of _ ?n]) simp
  qed
qed

lemma gang_loop_spec:
  assumes wf: "rt_wf (Suc h) s" and h: "h \<le> 4" and tag: "\<forall>g. tag = Some g \<longrightarrow> g < 2" and n: "n = 64 ^ Suc h"
    and "length calls \<le> cur"
  shows "gang_loop s (n - 1) UINT64_MAX tag cur calls = Some (calls @ rt_entries tag (Suc h) s cur n)"
  using assms(5)
proof (induction "n - cur" arbitrary: cur calls rule: less_induct)
  case less
  have n32: "n \<le> 2 ^ 32"
  proof -
    have "(64 :: nat) ^ Suc h \<le> 64 ^ 5"
      using h by (intro power_increasing) auto
    then show ?thesis using n by simp
  qed
  show ?case
  proof (cases "cur < n")
    case False
    then have "rt_entries tag (Suc h) s cur n = []"
      by (simp add: rt_entries_def)
    then show ?thesis
      using False n by (subst gang_loop.simps) simp
  next
    case True
    have seg: "seg_end (Suc h) cur = n"
      using True n by (simp add: seg_end_def)
    have len: "length calls + 64 < UINT64_MAX"
      using less.prems True n32 by (simp add: UINT64_MAX_def)
    then have m: "64 < UINT64_MAX - length calls"
      by linarith
    have se: "seg_end (Suc h) cur \<le> 2 ^ 32"
      using seg n32 by simp
    from batch_spec [OF wf h se tag m] obtain nx where
      b: "radix_tree_lookup_batch_elements s cur (UINT64_MAX - length calls) tag = Some (rt_entries tag (Suc h) s cur nx, nx)"
      and nx: "cur < nx" "nx \<le> n"
      unfolding seg by blast
    have "gang_loop s (n - 1) UINT64_MAX tag nx (calls @ rt_entries tag (Suc h) s cur nx) =
        Some ((calls @ rt_entries tag (Suc h) s cur nx) @ rt_entries tag (Suc h) s nx n)"
    proof (rule less.hyps)
      show "n - nx < n - cur" using nx True by linarith
      show "length (calls @ rt_entries tag (Suc h) s cur nx) \<le> nx"
        using less.prems nx length_rt_entries [of tag "Suc h" s cur nx] unfolding length_append by linarith
    qed
    then show ?thesis
      using True nx b len rt_entries_split [of cur nx n tag "Suc h" s]
      by (subst gang_loop.simps) auto
  qed
qed

definition root_sel :: "'a radix_tree_root \<Rightarrow> nat option \<Rightarrow> nat \<Rightarrow> bool" where
  "root_sel root tag j \<longleftrightarrow> root_get root j \<noteq> None \<and> (case tag of None \<Rightarrow> True | Some g \<Rightarrow> root_tagged root g j)"

lemma gang_ok:
  assumes inv: "rt_inv root" and tag: "\<forall>g. tag = Some g \<longrightarrow> g < 2"
  shows "radix_tree_general_gang_lookup_elements root first UINT64_MAX tag =
    Some (map (\<lambda>j. (j, the (root_get root j))) (filter (root_sel root tag) [first ..< 64 ^ rt_height root]))"
proof (cases "rt_height root")
  case 0
  then have r: "rnode root = RNull \<or> (\<exists>a. rnode root = RItem a)"
    using rt_inv_wf [OF inv] by (cases "rnode root") auto
  have up: "[first ..< Suc 0] = (if first = 0 then [0] else [])"
    by auto
  show ?thesis
    using r inv tag 0 by (auto simp: radix_tree_general_gang_lookup_elements_def up root_sel_def root_get_def root_tagged_def rt_inv_def
        split: option.splits)
next
  case (Suc h)
  have wf: "rt_wf (Suc h) (rnode root)" and h: "h \<le> 4"
    using inv Suc by (auto simp: rt_inv_def split: if_splits)
  then obtain c sl tg where n: "rnode root = RNode (Suc h) c sl tg"
    by (elim rt_wf_SucE)
  have get: "rt_get (Suc h) (rnode root) j = (case root_get root j of None \<Rightarrow> RNull | Some a \<Rightarrow> RItem a)" if "j < 64 ^ Suc h" for j
    using that rt_get_item [of "rnode root" "Suc h" j] wf Suc by (auto simp: root_get_def)
  have sel: "rt_sel tag (Suc h) (rnode root) j = root_sel root tag j" if "j < 64 ^ Suc h" for j
  proof (cases tag)
    case None
    then show ?thesis
      using get [OF that] by (simp add: rt_sel_def root_sel_def split: option.splits)
  next
    case (Some g)
    then have "rt_tag (Suc h) (rnode root) g j \<Longrightarrow> rt_get (Suc h) (rnode root) j \<noteq> RNull"
      using rt_tag_get [OF wf] tag by blast
    then show ?thesis
      using Some that Suc get [OF that] by (auto simp: rt_sel_def root_sel_def root_tagged_def simp del: rt_get.simps rt_tag.simps split: option.splits)
  qed
  have e: "rt_entries tag (Suc h) (rnode root) first (64 ^ Suc h) =
     map (\<lambda>j. (j, the (root_get root j))) (filter (root_sel root tag) [first ..< 64 ^ Suc h])"
    unfolding rt_entries_def using sel get
    by (intro map_cong filter_cong) (auto simp: root_sel_def simp del: rt_get.simps)
  have G: "gang_loop (rnode root) (64 ^ Suc h - 1) UINT64_MAX tag first [] = Some (rt_entries tag (Suc h) (rnode root) first (64 ^ Suc h))"
    using gang_loop_spec [OF wf h tag refl, of "[]" first] by simp
  show ?thesis
  proof (cases "case tag of Some g \<Rightarrow> \<not> root_tag_get root g | None \<Rightarrow> False")
    case True
    then obtain g where g: "tag = Some g" "\<not> root_tag_get root g" "g < 2"
      using tag by (auto split: option.splits)
    then have "\<not> rt_tag (Suc h) (rnode root) g j" for j
      using rt_tag_any [OF wf _ g(3)] inv Suc by (auto simp: rt_inv_def simp del: rt_tag.simps)
    then have "\<not> root_sel root tag j" for j
      using g(1) Suc by (simp add: root_sel_def root_tagged_def)
    then show ?thesis
      using True by (simp add: radix_tree_general_gang_lookup_elements_def)
  next
    case False
    then show ?thesis
      using G e n h Suc by (simp add: radix_tree_general_gang_lookup_elements_def maxindex_eq)
  qed
qed

subsection \<open>The radix tree as a keyed store\<close>

definition rt_look :: "'a radix_tree_root \<Rightarrow> nat \<Rightarrow> 'a option" where
  "rt_look root i = Option.bind (radix_tree_lookup_node root i) slot_item"

definition rt_put :: "'a radix_tree_root \<Rightarrow> nat \<Rightarrow> 'a \<Rightarrow> 'a radix_tree_root option" where
  "rt_put root i x = map_option fst (radix_tree_insert root i x)"

definition rt_del :: "'a radix_tree_root \<Rightarrow> nat \<Rightarrow> 'a radix_tree_root option" where
  "rt_del root i = map_option fst (radix_tree_delete root i)"

lemma rt_look_get: "rt_inv root \<Longrightarrow> rt_look root = root_get root"
proof
  fix i assume "rt_inv root"
  from lookup_node_eq [OF this, of i] show "rt_look root i = root_get root i"
    by (auto simp: rt_look_def)
qed

interpretation radix: map_store rt_inv rt_look rt_put rt_del "\<lambda>i. i < 64 ^ 5" "(=)"
proof (unfold_locales, goal_cases)
  case (1 s k v)
  then obtain s' where "radix_tree_insert s k v = Some (s', 0)" "rt_inv s'" "root_get s' = (root_get s)(k \<mapsto> v)"
    using insert_ok [of s k v] by (auto simp: rt_look_get)
  then show ?case
    using 1 by (auto simp: rt_put_def rt_look_get fun_eq_iff)
next
  case (2 s k)
  have "\<exists>s' x. radix_tree_delete s k = Some (s', x) \<and> rt_inv s' \<and> root_get s' = (root_get s)(k := None)"
  proof (cases "root_get s k")
    case None
    then have "(root_get s)(k := None) = root_get s"
      by (simp add: fun_upd_idem)
    with delete_missing [OF 2(1) None] show ?thesis
      by auto
  next
    case (Some a)
    with delete_ok [OF 2(1) Some] show ?thesis
      by auto
  qed
  then show ?case
    using 2 by (auto simp: rt_del_def rt_look_get fun_eq_iff)
qed simp

lemma rt_inv_init: "(\<forall>g<2. \<not> bit gm (g + 22)) \<Longrightarrow> rt_inv (INIT_RADIX_TREE gm)"
  by (simp add: rt_inv_def INIT_RADIX_TREE_def root_tag_get_bit)

lemma rt_look_init: "rt_look (INIT_RADIX_TREE gm) = Map.empty"
  by (simp add: rt_look_def INIT_RADIX_TREE_def radix_tree_lookup_node_def radix_tree_lookup_element_def fun_eq_iff)

definition GFP_FS :: uint where "GFP_FS = 0x80"

lemma GFP_FS_untagged: "\<forall>g<2. \<not> bit GFP_FS (g + 22)"
  by (auto simp: GFP_FS_def less_2_cases_iff)

definition item_slot :: "'a option \<Rightarrow> 'a slot" where
  "item_slot r = (case r of None \<Rightarrow> RNull | Some a \<Rightarrow> RItem a)"

lemma lookup_node_item: "rt_inv root \<Longrightarrow> radix_tree_lookup_node root i = Some (item_slot (root_get root i))"
proof -
  assume "rt_inv root"
  from lookup_node_eq [OF this, of i] obtain s where
    "radix_tree_lookup_node root i = Some s" "slot_item s = root_get root i" "s = RNull \<longleftrightarrow> root_get root i = None"
    by (elim exE conjE) (rule that)
  then show ?thesis
    by (cases s) (auto simp: item_slot_def)
qed

subsection \<open>The properties\<close>

text \<open>C15.  Starting from an empty page tree, any sequence of insertions at free indices below \<open>2 ^ 30\<close> and deletions runs to
  the end without a panic, growing and shrinking the tree as needed, and afterwards
  \<open>radix_tree_lookup_node\<close> returns for every index exactly what a finite map would hold.\<close>

theorem radix_tree_refines_map:
  assumes "legal_ops (\<lambda>i. i < 2 ^ 30) (=) Map.empty ops"
  shows "\<exists>root. store_run rt_put rt_del (INIT_RADIX_TREE GFP_FS) ops = Some root \<and>
    (\<forall>i. radix_tree_lookup_node root i = Some (item_slot (map_run (=) Map.empty ops i)))"
proof -
  have "legal_ops (\<lambda>i. i < 64 ^ 5) (=) (rt_look (INIT_RADIX_TREE GFP_FS)) ops"
    using assms by (simp add: rt_look_init)
  from radix.run_refines [OF rt_inv_init [OF GFP_FS_untagged] this] obtain root where
    root: "store_run rt_put rt_del (INIT_RADIX_TREE GFP_FS) ops = Some root" "rt_inv root" "rt_look root = map_run (=) Map.empty ops"
    by (auto simp: rt_look_init)
  then have "radix_tree_lookup_node root i = Some (item_slot (map_run (=) Map.empty ops i))" for i
    using lookup_node_item [OF root(2), of i] rt_look_get [OF root(2)] by simp
  with root(1) show ?thesis by blast
qed

theorem radix_tree_refines_map_witness:
  "\<exists>root. store_run rt_put rt_del (INIT_RADIX_TREE GFP_FS) [Put 0 (5 :: nat), Put 1000000 7, Del 0] = Some root \<and>
    radix_tree_lookup_node root 1000000 = Some (RItem 7) \<and> radix_tree_lookup_node root 0 = Some RNull"
  using radix_tree_refines_map [of "[Put 0 (5 :: nat), Put 1000000 7, Del 0]"] by (auto simp: item_slot_def)

text \<open>A tree with three entries, of height 4, one of them tagged.\<close>

definition demo_tree :: "nat radix_tree_root" where
  "demo_tree = fst (the (radix_tree_tag_set (the (store_run rt_put rt_del (INIT_RADIX_TREE GFP_FS) [Put 3 (50 :: nat), Put 70 51, Put 1000000 52])) 70 0))"

lemma demo_tree_inv: "rt_inv demo_tree" "root_get demo_tree = [3 \<mapsto> 50, 70 \<mapsto> 51, 1000000 \<mapsto> 52]"
proof -
  let ?ops = "[Put 3 (50 :: nat), Put 70 51, Put 1000000 52]"
  have "legal_ops (\<lambda>i. i < 64 ^ 5) (=) (rt_look (INIT_RADIX_TREE GFP_FS)) ?ops"
    by (simp add: rt_look_init)
  from radix.run_refines [OF rt_inv_init [OF GFP_FS_untagged] this] obtain r where
    r: "store_run rt_put rt_del (INIT_RADIX_TREE GFP_FS) ?ops = Some r" "rt_inv r" "rt_look r = map_run (=) Map.empty ?ops"
    by (auto simp: rt_look_init)
  have g: "root_get r = [3 \<mapsto> 50, 70 \<mapsto> 51, 1000000 \<mapsto> 52]"
    using r(3) rt_look_get [OF r(2)] by (auto simp: fun_eq_iff)
  have "root_get r 70 = Some 51"
    using g by simp
  from tag_set_ok [OF r(2) this, of 0] obtain r' where "radix_tree_tag_set r 70 0 = Some (r', RItem 51)" "rt_inv r'" "root_get r' = root_get r"
    by auto
  then show "rt_inv demo_tree" "root_get demo_tree = [3 \<mapsto> 50, 70 \<mapsto> 51, 1000000 \<mapsto> 52]"
    using r(1) g by (simp_all add: demo_tree_def)
qed

lemma item_slot_inject: "item_slot x = item_slot y \<longleftrightarrow> x = y" "item_slot x = RItem a \<longleftrightarrow> x = Some a" "item_slot x = RNull \<longleftrightarrow> x = None"
  by (auto simp: item_slot_def split: option.splits)

text \<open> \<open>radix_tree_delete\<close> of a stored page returns the page, keeps the tree well formed, removes this entry with its tags
  and changes no other entry and no other tag, although it frees emptied nodes and lowers the tree.\<close>

theorem radix_tree_delete_correct:
  assumes "rt_inv root" and "radix_tree_lookup_node root i = Some (RItem a)"
  shows "\<exists>root'. radix_tree_delete root i = Some (root', RItem a) \<and> rt_inv root' \<and>
    (\<forall>j. radix_tree_lookup_node root' j = (if j = i then Some RNull else radix_tree_lookup_node root j)) \<and>
    (\<forall>j. \<forall>tag<2. radix_tree_tag_get root' j tag = (if j = i then Some False else radix_tree_tag_get root j tag))"
proof -
  have g: "root_get root i = Some a"
    using assms lookup_node_item [OF assms(1), of i] by (simp add: item_slot_inject)
  obtain r where r: "radix_tree_delete root i = Some (r, RItem a)" "rt_inv r" "root_get r = (root_get root)(i := None)"
    "\<forall>g<2. \<forall>j. root_tagged r g j = (root_tagged root g j \<and> j \<noteq> i)"
    using delete_ok [OF assms(1) g] by blast
  then show ?thesis
    using lookup_node_item [OF r(2)] lookup_node_item [OF assms(1)] tag_get_eq [OF r(2)] tag_get_eq [OF assms(1)]
    by (intro exI [of _ r]) (simp add: item_slot_def)
qed

theorem radix_tree_delete_correct_witness:
  "\<exists>root'. radix_tree_delete demo_tree 70 = Some (root', RItem 51) \<and> rt_inv root' \<and>
    radix_tree_lookup_node root' 70 = Some RNull \<and> radix_tree_lookup_node root' 3 = Some (RItem 50)"
proof -
  have l: "radix_tree_lookup_node demo_tree 70 = Some (RItem 51)" "radix_tree_lookup_node demo_tree 3 = Some (RItem 50)"
    using lookup_node_item [OF demo_tree_inv(1)] by (simp_all add: demo_tree_inv(2) item_slot_def)
  show ?thesis
    using radix_tree_delete_correct [OF demo_tree_inv(1) l(1)] l(2) by auto
qed

text \<open> Tags: setting a tag on a stored page and clearing it again change what \<open>radix_tree_tag_get\<close> reports for this page and
  this tag only, however the bits are propagated through the inner nodes and the root; neither touches the pages.\<close>

theorem radix_tree_tags_correct:
  assumes "rt_inv root" and "radix_tree_lookup_node root i = Some (RItem a)" and "tag < 2"
  shows "\<exists>r1 r2. radix_tree_tag_set root i tag = Some (r1, RItem a) \<and> radix_tree_tag_clear r1 i tag = Some (r2, RItem a) \<and>
    (\<forall>j. \<forall>t<2. radix_tree_tag_get r1 j t = (if j = i \<and> t = tag then Some True else radix_tree_tag_get root j t) \<and>
               radix_tree_tag_get r2 j t = (if j = i \<and> t = tag then Some False else radix_tree_tag_get root j t)) \<and>
    (\<forall>j. radix_tree_lookup_node r1 j = radix_tree_lookup_node root j \<and> radix_tree_lookup_node r2 j = radix_tree_lookup_node root j)"
proof -
  have g: "root_get root i = Some a"
    using assms lookup_node_item [OF assms(1), of i] by (simp add: item_slot_inject)
  obtain r1 where r1: "radix_tree_tag_set root i tag = Some (r1, RItem a)" "rt_inv r1" "root_get r1 = root_get root"
    "\<forall>g'<2. \<forall>j. root_tagged r1 g' j = (root_tagged root g' j \<or> (g' = tag \<and> j = i))"
    using tag_set_ok [OF assms(1) g assms(3)] by blast
  obtain r2 it where r2: "radix_tree_tag_clear r1 i tag = Some (r2, it)" "slot_item it = root_get r1 i" "rt_inv r2" "root_get r2 = root_get r1"
    "\<forall>g'<2. \<forall>j. root_tagged r2 g' j = (root_tagged r1 g' j \<and> \<not> (g' = tag \<and> j = i))"
    using tag_clear_ok [OF r1(2) assms(3), of i] by blast
  have "it = RItem a"
    using r2(2) r1(3) g by (cases it) auto
  then show ?thesis
    using r1 r2 lookup_node_item [OF r1(2)] lookup_node_item [OF r2(3)] lookup_node_item [OF assms(1)]
      tag_get_eq [OF r1(2)] tag_get_eq [OF r2(3)] tag_get_eq [OF assms(1)]
    by (intro exI [of _ r1] exI [of _ r2]) auto
qed

theorem radix_tree_tags_correct_witness:
  "\<exists>r1 r2. radix_tree_tag_set demo_tree 3 1 = Some (r1, RItem 50) \<and> radix_tree_tag_clear r1 3 1 = Some (r2, RItem 50) \<and>
    radix_tree_tag_get r1 3 1 = Some True \<and> radix_tree_tag_get r2 3 1 = Some False"
proof -
  have l: "radix_tree_lookup_node demo_tree 3 = Some (RItem 50)"
    using lookup_node_item [OF demo_tree_inv(1)] by (simp add: demo_tree_inv(2) item_slot_def)
  obtain r1 r2 where "radix_tree_tag_set demo_tree 3 1 = Some (r1, RItem 50)" "radix_tree_tag_clear r1 3 1 = Some (r2, RItem 50)"
    "\<forall>j. \<forall>t<2. radix_tree_tag_get r1 j t = (if j = 3 \<and> t = 1 then Some True else radix_tree_tag_get demo_tree j t) \<and>
               radix_tree_tag_get r2 j t = (if j = 3 \<and> t = 1 then Some False else radix_tree_tag_get demo_tree j t)"
    using radix_tree_tags_correct [OF demo_tree_inv(1) l, of 1] by auto
  then show ?thesis
    by (intro exI [of _ r1] exI [of _ r2]) simp
qed

text \<open> An unlimited gang lookup (\<open>max_items = UINT64_MAX\<close>) calls back for exactly the pages from \<open>first_index\<close> on, or the
  tagged ones among them, each once and in ascending order of the index; its loops end.\<close>

theorem radix_tree_gang_lookup_correct:
  assumes "rt_inv root" and "\<forall>g. tag = Some g \<longrightarrow> g < 2"
  shows "\<exists>calls. radix_tree_general_gang_lookup_elements root first UINT64_MAX tag = Some calls \<and>
    sorted (map fst calls) \<and> distinct (map fst calls) \<and>
    (\<forall>j a. (j, a) \<in> set calls \<longleftrightarrow> first \<le> j \<and> radix_tree_lookup_node root j = Some (RItem a) \<and>
       (\<forall>g. tag = Some g \<longrightarrow> radix_tree_tag_get root j g = Some True))"
proof -
  let ?l = "filter (root_sel root tag) [first ..< 64 ^ rt_height root]"
  let ?calls = "map (\<lambda>j. (j, the (root_get root j))) ?l"
  have "map fst ?calls = ?l"
    by (simp add: comp_def)
  then have s: "sorted (map fst ?calls)" "distinct (map fst ?calls)"
    by (simp_all add: sorted_wrt_filter)
  have "(j, a) \<in> set ?calls \<longleftrightarrow> first \<le> j \<and> root_get root j = Some a \<and> (\<forall>g. tag = Some g \<longrightarrow> root_tagged root g j)" for j a
  proof -
    have "root_get root j = Some a \<Longrightarrow> j < 64 ^ rt_height root"
      by (auto simp: root_get_def split: if_splits)
    then show ?thesis
      by (cases tag) (auto simp: root_sel_def)
  qed
  then show ?thesis
    using gang_ok [OF assms] s lookup_node_item [OF assms(1)] tag_get_eq [OF assms(1)] assms(2)
    by (intro exI [of _ ?calls]) (auto simp: item_slot_inject)
qed

theorem radix_tree_gang_lookup_correct_witness:
  "\<exists>calls. radix_tree_general_gang_lookup_elements demo_tree 4 UINT64_MAX None = Some calls \<and>
    sorted (map fst calls) \<and> (70, 51) \<in> set calls \<and> (3, 50) \<notin> set calls"
proof -
  obtain calls where "radix_tree_general_gang_lookup_elements demo_tree 4 UINT64_MAX None = Some calls" "sorted (map fst calls)"
    "\<forall>j a. (j, a) \<in> set calls \<longleftrightarrow> 4 \<le> j \<and> radix_tree_lookup_node demo_tree j = Some (RItem a)"
    using radix_tree_gang_lookup_correct [OF demo_tree_inv(1), of None 4] by auto
  then show ?thesis
    using lookup_node_item [OF demo_tree_inv(1)] by (auto simp: demo_tree_inv(2) item_slot_def)
qed

text \<open>C38.  The tree cannot hold an index from \<open>2 ^ 30\<close> on, although indices have 64 bits: the insertion has no defined result,
  because \<open>radix_tree_maxindex\<close> shifts an \<open>int\<close> by 36 or more.\<close>

theorem radix_tree_insert_limit:
  assumes "rt_inv root" and "2 ^ 30 \<le> index"
  shows "radix_tree_insert root index item = None"
  using insert_too_big [OF assms(1), of index item] assms(2) by simp

theorem radix_tree_insert_limit_witness: "radix_tree_insert demo_tree (2 ^ 30) 9 = None"
  by (rule radix_tree_insert_limit [OF demo_tree_inv(1)]) simp

end
