(* ===== verification/HashTable.thy ===== *)
theory HashTable
  imports MapStore
begin

text \<open>
  The kernel's hash tables: \<open>src/lib/hash.c\<close>.  A table is an array of buckets, each a list of nodes in insertion order.
  The key of a node is a union in the code; which member is valid follows from the table's type, and using
  another one has no result here.  \<open>kfree\<close> of a replaced or deleted value is reported in the result.  The lock
  of the table is held from \<open>hash_get_entry\<close> to the release at the end, so each operation is one step.
\<close>

datatype hash_type = PID_MAP | TID_MAP | IPC_IDX_MAP | FUTEX_MAP | INODE_MAP

datatype hash_key = key_id "32 word" | key_p uint64 | key_name "byte list"

type_synonym 'v hash_node = "hash_key \<times> 'v"

record 'v hash_table =
  ht_type :: hash_type
  ht_size :: nat
  hash_head :: "'v hash_node list list"

text \<open>\<open>hash_str\<close> over the characters of the name, in 64-bit arithmetic.\<close>

definition hash_str :: "byte list \<Rightarrow> uint64" where
  "hash_str name = foldl (\<lambda>h c. h * 31 + ucast c) 0 name"

definition hash_get_entry :: "'v hash_table \<Rightarrow> hash_key \<Rightarrow> nat option" where
  "hash_get_entry table key = do {
     ASSERT (ht_size table \<noteq> 0);
     h \<leftarrow> (case (ht_type table, key) of
         (FUTEX_MAP, key_p p) \<Rightarrow> Some p
       | (INODE_MAP, key_name nm) \<Rightarrow> Some (hash_str nm)
       | (PID_MAP, key_id i) \<Rightarrow> Some (scast i)
       | (TID_MAP, key_id i) \<Rightarrow> Some (scast i)
       | (IPC_IDX_MAP, key_id i) \<Rightarrow> Some (scast i)
       | _ \<Rightarrow> None);
     Some (unat h mod ht_size table) }"

fun hash_bool :: "hash_key \<Rightarrow> hash_key \<Rightarrow> hash_type \<Rightarrow> bool option" where
  "hash_bool (key_id i) (key_id j) ty = (if ty \<in> {PID_MAP, TID_MAP, IPC_IDX_MAP} then Some (i = j) else None)"
| "hash_bool (key_p p) (key_p q) ty = (if ty = FUTEX_MAP then Some (p = q) else None)"
| "hash_bool (key_name m) (key_name n) ty = (if ty = INODE_MAP then Some (hash_str m = hash_str n) else None)"
| "hash_bool _ _ _ = None"

text \<open>The loop of \<open>hash_lookup\<close>: the position of the first matching node in the bucket.\<close>

fun hash_find :: "hash_type \<Rightarrow> hash_key \<Rightarrow> 'v hash_node list \<Rightarrow> nat \<Rightarrow> nat option option" where
  "hash_find ty key [] n = Some None"
| "hash_find ty key (node # rest) n = do {
     b \<leftarrow> hash_bool (fst node) key ty;
     if b then Some (Some n) else hash_find ty key rest (n + 1) }"

definition hash_lookup :: "'v hash_table \<Rightarrow> hash_key \<Rightarrow> (nat \<times> nat option) option" where
  "hash_lookup table key = do {
     e \<leftarrow> hash_get_entry table key;
     r \<leftarrow> hash_find (ht_type table) key (hash_head table ! e) 0;
     Some (e, r) }"

definition hash_get :: "'v hash_table \<Rightarrow> hash_key \<Rightarrow> 'v option option" where
  "hash_get table key = do {
     (e, r) \<leftarrow> hash_lookup table key;
     Some (map_option (\<lambda>n. snd (hash_head table ! e ! n)) r) }"

text \<open>\<open>hash_assign\<close> copies the key.  A name goes into an array of \<open>NAME_LONG_MAX / 4\<close> bytes with its terminator: a name that
  does not fit is written beyond the array, into the value, and nothing is written for an empty name, whose node
  keeps whatever the memory held.  In both cases there is no result.\<close>

definition KEY_NAME_SIZE :: nat where "KEY_NAME_SIZE = 255 div 4"

fun key_room :: "hash_key \<Rightarrow> bool" where
  "key_room (key_name nm) \<longleftrightarrow> nm \<noteq> [] \<and> length nm < KEY_NAME_SIZE"
| "key_room _ \<longleftrightarrow> True"

definition hash_assign :: "hash_key \<Rightarrow> hash_key option" where
  "hash_assign key = do { ASSERT (key_room key); Some key }"

definition hash_insert :: "'v hash_table \<Rightarrow> hash_key \<Rightarrow> 'v \<Rightarrow> ('v hash_table \<times> 'v list) option" where
  "hash_insert table key value = do {
     (e, r) \<leftarrow> hash_lookup table key;
     let bucket = hash_head table ! e;
     case r of
         None \<Rightarrow> do {
           key \<leftarrow> hash_assign key;
           Some (table\<lparr>hash_head := (hash_head table)[e := bucket @ [(key, value)]]\<rparr>, []) }
       | Some n \<Rightarrow> Some (table\<lparr>hash_head := (hash_head table)[e := bucket[n := (fst (bucket ! n), value)]]\<rparr>,
                  if ht_type table = INODE_MAP \<or> ht_type table = FUTEX_MAP then [snd (bucket ! n)] else []) }"

definition hash_delete :: "'v hash_table \<Rightarrow> hash_key \<Rightarrow> ('v hash_table \<times> 'v list) option" where
  "hash_delete table key = do {
     (e, r) \<leftarrow> hash_lookup table key;
     let bucket = hash_head table ! e;
     Some (case r of
         None \<Rightarrow> (table, [])
       | Some n \<Rightarrow> (table\<lparr>hash_head := (hash_head table)[e := take n bucket @ drop (Suc n) bucket]\<rparr>,
                  if ht_type table = INODE_MAP \<or> ht_type table = FUTEX_MAP then [snd (bucket ! n)] else [])) }"

text \<open>\<open>hash_destroy\<close>: the values freed together with the nodes.\<close>

definition hash_destroy :: "'v hash_table \<Rightarrow> 'v list" where
  "hash_destroy table =
     (if ht_type table = INODE_MAP \<or> ht_type table = FUTEX_MAP
      then map snd (concat (take (ht_size table) (hash_head table))) else [])"

definition hash_table_entry_init :: "hash_type \<Rightarrow> nat \<Rightarrow> 'v hash_table" where
  "hash_table_entry_init ty n = \<lparr>ht_type = ty, ht_size = n, hash_head = replicate n []\<rparr>"

subsection \<open>Keys\<close>

fun key_fits :: "hash_type \<Rightarrow> hash_key \<Rightarrow> bool" where
  "key_fits ty (key_id i) \<longleftrightarrow> ty \<in> {PID_MAP, TID_MAP, IPC_IDX_MAP}"
| "key_fits ty (key_p p) \<longleftrightarrow> ty = FUTEX_MAP"
| "key_fits ty (key_name nm) \<longleftrightarrow> ty = INODE_MAP"

text \<open>Two keys are the same for the table if their 64-bit values are: names are the same if their hashes are.\<close>

fun key_val :: "hash_key \<Rightarrow> uint64" where
  "key_val (key_id i) = scast i"
| "key_val (key_p p) = p"
| "key_val (key_name nm) = hash_str nm"

lemma scast_inj: "(scast (i :: 32 word) :: uint64) = scast j \<longleftrightarrow> i = j"
proof
  assume "(scast i :: uint64) = scast j"
  then have "sint (scast i :: uint64) = sint (scast j :: uint64)" by simp
  then have "sint i = sint j"
    by (simp add: sint_up_scast is_up)
  then show "i = j"
    by (rule signed_word_eqI)
qed simp

lemma hash_bool_val: "key_fits ty k \<Longrightarrow> key_fits ty k' \<Longrightarrow> hash_bool k k' ty = Some (key_val k = key_val k')"
  by (cases k; cases k') (auto simp: scast_inj)

definition bucket_of :: "'v hash_table \<Rightarrow> hash_key \<Rightarrow> nat" where
  "bucket_of table k = unat (key_val k) mod ht_size table"

lemma hash_get_entry_eq: "ht_size table \<noteq> 0 \<Longrightarrow> key_fits (ht_type table) k \<Longrightarrow> hash_get_entry table k = Some (bucket_of table k)"
  by (cases k) (auto simp: hash_get_entry_def bucket_of_def)

lemma bucket_of_same: "key_val k = key_val k' \<Longrightarrow> bucket_of table k = bucket_of table k'"
  by (simp add: bucket_of_def)

subsection \<open>Invariant\<close>

text \<open>Every node lies in the bucket of its key, and no two nodes of a bucket have the same key.\<close>

definition ht_inv :: "'v hash_table \<Rightarrow> bool" where
  "ht_inv table \<longleftrightarrow> ht_size table \<noteq> 0 \<and> length (hash_head table) = ht_size table \<and>
     (\<forall>b < ht_size table. distinct (map (key_val \<circ> fst) (hash_head table ! b)) \<and>
        (\<forall>node \<in> set (hash_head table ! b). key_fits (ht_type table) (fst node) \<and> bucket_of table (fst node) = b))"

definition bucket_get :: "'v hash_node list \<Rightarrow> hash_key \<Rightarrow> 'v option" where
  "bucket_get bucket k = map_of (map (\<lambda>node. (key_val (fst node), snd node)) bucket) (key_val k)"

lemma hash_find_spec:
  assumes "\<And>node. node \<in> set bucket \<Longrightarrow> key_fits ty (fst node)" "key_fits ty k"
  shows "\<exists>r. hash_find ty k bucket n = Some r \<and>
    (case r of None \<Rightarrow> bucket_get bucket k = None
     | Some m \<Rightarrow> n \<le> m \<and> m - n < length bucket \<and> key_val (fst (bucket ! (m - n))) = key_val k \<and>
         bucket_get bucket k = Some (snd (bucket ! (m - n))))"
  using assms
proof (induction bucket arbitrary: n)
  case Nil
  then show ?case by (simp add: bucket_get_def)
next
  case (Cons node rest)
  have b: "hash_bool (fst node) k ty = Some (key_val (fst node) = key_val k)"
    using Cons.prems by (intro hash_bool_val) auto
  show ?case
  proof (cases "key_val (fst node) = key_val k")
    case True
    then show ?thesis
      using b by (auto simp: bucket_get_def)
  next
    case False
    obtain r where r: "hash_find ty k rest (n + 1) = Some r"
      "case r of None \<Rightarrow> bucket_get rest k = None
       | Some m \<Rightarrow> n + 1 \<le> m \<and> m - (n + 1) < length rest \<and> key_val (fst (rest ! (m - (n + 1)))) = key_val k \<and>
           bucket_get rest k = Some (snd (rest ! (m - (n + 1))))"
      using Cons.IH [of "n + 1"] Cons.prems by auto
    have g: "bucket_get (node # rest) k = bucket_get rest k"
      using False by (simp add: bucket_get_def)
    show ?thesis
    proof (cases r)
      case None
      then show ?thesis
        using r b False g by auto
    next
      case (Some m)
      then have "m - n = Suc (m - (n + 1))" "n \<le> m"
        using r(2) by auto
      moreover from this have "(node # rest) ! (m - n) = rest ! (m - (n + 1))" "m - n < length (node # rest)"
        using r(2) Some by auto
      ultimately have "(node # rest) ! (m - n) = rest ! (m - (n + 1))" "m - n < length (node # rest)" "n \<le> m"
        by simp_all
      then show ?thesis
        using r b False g Some by auto
    qed
  qed
qed

lemma ht_invD:
  assumes "ht_inv table"
  shows "ht_size table \<noteq> 0" "length (hash_head table) = ht_size table" "bucket_of table k < ht_size table"
    "b < ht_size table \<Longrightarrow> distinct (map (key_val \<circ> fst) (hash_head table ! b))"
    "b < ht_size table \<Longrightarrow> node \<in> set (hash_head table ! b) \<Longrightarrow> key_fits (ht_type table) (fst node)"
    "b < ht_size table \<Longrightarrow> node \<in> set (hash_head table ! b) \<Longrightarrow> bucket_of table (fst node) = b"
  using assms by (auto simp: ht_inv_def bucket_of_def)

lemma hash_lookup_spec:
  assumes inv: "ht_inv table" and k: "key_fits (ht_type table) k"
  obtains r where "hash_lookup table k = Some (bucket_of table k, r)"
    "case r of None \<Rightarrow> bucket_get (hash_head table ! bucket_of table k) k = None
     | Some m \<Rightarrow> m < length (hash_head table ! bucket_of table k) \<and> key_val (fst (hash_head table ! bucket_of table k ! m)) = key_val k \<and>
         bucket_get (hash_head table ! bucket_of table k) k = Some (snd (hash_head table ! bucket_of table k ! m))"
proof -
  note D = ht_invD [OF inv]
  have "\<exists>r. hash_find (ht_type table) k (hash_head table ! bucket_of table k) 0 = Some r \<and>
    (case r of None \<Rightarrow> bucket_get (hash_head table ! bucket_of table k) k = None
     | Some m \<Rightarrow> 0 \<le> m \<and> m - 0 < length (hash_head table ! bucket_of table k) \<and> key_val (fst (hash_head table ! bucket_of table k ! (m - 0))) = key_val k \<and>
         bucket_get (hash_head table ! bucket_of table k) k = Some (snd (hash_head table ! bucket_of table k ! (m - 0))))"
    using D(5) [OF D(3)] k by (intro hash_find_spec) auto
  then show thesis
    using that hash_get_entry_eq [OF D(1) k] by (auto simp: hash_lookup_def split: option.splits)
qed

lemma hash_get_eq:
  assumes inv: "ht_inv table" and k: "key_fits (ht_type table) k"
  shows "hash_get table k = Some (bucket_get (hash_head table ! bucket_of table k) k)"
  by (rule hash_lookup_spec [OF inv k]) (auto simp: hash_get_def split: option.splits)

subsection \<open>Effect of the operations\<close>

lemma bucket_get_append: "bucket_get bucket k = None \<Longrightarrow>
    bucket_get (bucket @ [(k, v)]) k' = (if key_val k = key_val k' then Some v else bucket_get bucket k')"
  by (auto simp: bucket_get_def map_add_def split: option.splits)

lemma bucket_get_removed:
  assumes d: "distinct (map (key_val \<circ> fst) bucket)" and n: "n < length bucket" "key_val (fst (bucket ! n)) = key_val k"
  shows "bucket_get (take n bucket @ drop (Suc n) bucket) k' = (if key_val k = key_val k' then None else bucket_get bucket k')"
proof -
  let ?x = "bucket ! n"
  have b: "bucket = take n bucket @ ?x # drop (Suc n) bucket"
    by (rule id_take_nth_drop [OF n(1)])
  have d': "distinct (map (key_val \<circ> fst) (take n bucket @ ?x # drop (Suc n) bucket))"
    using d b by simp
  show ?thesis
  proof (cases "key_val k = key_val k'")
    case True
    then have "key_val k' \<notin> (key_val \<circ> fst) ` set (take n bucket @ drop (Suc n) bucket)"
      using d' n(2) by auto
    then show ?thesis
      using True by (auto simp: bucket_get_def map_of_eq_None_iff image_iff)
  next
    case False
    have "bucket_get bucket k' = bucket_get (take n bucket @ ?x # drop (Suc n) bucket) k'"
      using b by simp
    also have "\<dots> = bucket_get (take n bucket @ drop (Suc n) bucket) k'"
      using False n(2) by (auto simp: bucket_get_def map_add_def split: option.splits)
    finally show ?thesis
      using False by simp
  qed
qed

definition ht_look :: "'v hash_table \<Rightarrow> hash_key \<Rightarrow> 'v option" where
  "ht_look table k = Option.bind (hash_get table k) id"

definition ht_put :: "'v hash_table \<Rightarrow> hash_key \<Rightarrow> 'v \<Rightarrow> 'v hash_table option" where
  "ht_put table k v = map_option fst (hash_insert table k v)"

definition ht_del :: "'v hash_table \<Rightarrow> hash_key \<Rightarrow> 'v hash_table option" where
  "ht_del table k = map_option fst (hash_delete table k)"

definition same_key :: "hash_type \<Rightarrow> hash_key \<Rightarrow> hash_key \<Rightarrow> bool" where
  "same_key ty k k' \<longleftrightarrow> key_val k = key_val k' \<and> key_fits ty k'"

lemma ht_look_eq:
  assumes inv: "ht_inv table"
  shows "ht_look table k = (if key_fits (ht_type table) k then bucket_get (hash_head table ! bucket_of table k) k else None)"
proof (cases "key_fits (ht_type table) k")
  case True
  then show ?thesis
    using hash_get_eq [OF inv True] by (simp add: ht_look_def)
next
  case False
  then have "hash_get_entry table k = None"
    by (cases k; cases "ht_type table") (auto simp: hash_get_entry_def)
  then show ?thesis
    using False by (simp add: ht_look_def hash_get_def hash_lookup_def)
qed

text \<open>Replacing one bucket by one with the same invariant.\<close>

lemma ht_inv_update:
  assumes inv: "ht_inv table" and b: "b < ht_size table" and d: "distinct (map (key_val \<circ> fst) bucket)"
    and nodes: "\<And>node. node \<in> set bucket \<Longrightarrow> key_fits (ht_type table) (fst node) \<and> bucket_of table (fst node) = b"
  shows "ht_inv (table\<lparr>hash_head := (hash_head table)[b := bucket]\<rparr>)"
proof -
  have bo: "bucket_of (table\<lparr>hash_head := h\<rparr>) k = bucket_of table k" for h k
    by (simp add: bucket_of_def)
  show ?thesis
    unfolding ht_inv_def bo
  proof (intro conjI allI impI ballI, goal_cases)
    case (3 c)
    then show ?case
      using ht_invD(2,4) [OF inv] b d by (cases "c = b") auto
  next
    case (4 c node)
    then show ?case
      using ht_invD(2,5) [OF inv] b nodes by (cases "c = b") auto
  next
    case (5 c node)
    then show ?case
      using ht_invD(2,6) [OF inv] b nodes by (cases "c = b") auto
  qed (use ht_invD [OF inv] in auto)
qed

lemma ht_look_update:
  assumes inv: "ht_inv table" and inv': "ht_inv (table\<lparr>hash_head := (hash_head table)[bucket_of table k := bucket]\<rparr>)"
    and k: "key_fits (ht_type table) k"
    and g: "\<And>k'. bucket_get bucket k' = (if key_val k = key_val k' then r else bucket_get (hash_head table ! bucket_of table k) k')"
  shows "ht_look (table\<lparr>hash_head := (hash_head table)[bucket_of table k := bucket]\<rparr>) =
    (\<lambda>k'. if same_key (ht_type table) k k' then r else ht_look table k')"
proof
  fix k'
  have bo: "bucket_of (table\<lparr>hash_head := h\<rparr>) k' = bucket_of table k'" for h
    by (simp add: bucket_of_def)
  show "ht_look (table\<lparr>hash_head := (hash_head table)[bucket_of table k := bucket]\<rparr>) k' =
    (if same_key (ht_type table) k k' then r else ht_look table k')"
    unfolding ht_look_eq [OF inv'] ht_look_eq [OF inv] bo same_key_def
    using g [of k'] ht_invD(2,3) [OF inv] bucket_of_same [of k k' table]
    by (cases "bucket_of table k' = bucket_of table k") auto
qed

lemma hash_insert_ok:
  assumes inv: "ht_inv table" and k: "key_fits (ht_type table) k" and room: "key_room k" and free: "ht_look table k = None"
  shows "\<exists>t'. hash_insert table k v = Some (t', []) \<and> ht_inv t' \<and> ht_type t' = ht_type table \<and>
    ht_look t' = (\<lambda>k'. if same_key (ht_type table) k k' then Some v else ht_look table k')"
proof -
  let ?b = "bucket_of table k"
  let ?bucket = "hash_head table ! ?b"
  note D = ht_invD [OF inv]
  have g: "bucket_get ?bucket k = None"
    using free ht_look_eq [OF inv] k by simp
  then have l: "hash_lookup table k = Some (?b, None)"
    by (rule_tac hash_lookup_spec [OF inv k]) (auto split: option.splits)
  let ?t = "table\<lparr>hash_head := (hash_head table)[?b := ?bucket @ [(k, v)]]\<rparr>"
  have "key_val k \<notin> (key_val \<circ> fst) ` set ?bucket"
    using g by (auto simp: bucket_get_def map_of_eq_None_iff image_iff)
  then have "distinct (map (key_val \<circ> fst) (?bucket @ [(k, v)]))"
    using D(4) [OF D(3)] by simp
  moreover have "key_fits (ht_type table) (fst node) \<and> bucket_of table (fst node) = ?b" if "node \<in> set (?bucket @ [(k, v)])" for node
  proof (cases "node \<in> set ?bucket")
    case True
    then show ?thesis using D(5,6) [OF D(3)] by blast
  next
    case False
    then show ?thesis using that k by auto
  qed
  ultimately have inv': "ht_inv ?t"
    using D(3) by (intro ht_inv_update [OF inv])
  show ?thesis
    using l inv' ht_look_update [OF inv inv' k bucket_get_append [OF g]]
    by (intro exI [of _ ?t]) (simp add: hash_insert_def hash_assign_def room)
qed

lemma hash_insert_no_room:
  assumes inv: "ht_inv table" and k: "key_fits (ht_type table) k" and room: "\<not> key_room k" and free: "ht_look table k = None"
  shows "hash_insert table k v = None"
proof -
  have "bucket_get (hash_head table ! bucket_of table k) k = None"
    using free ht_look_eq [OF inv] k by simp
  then have "hash_lookup table k = Some (bucket_of table k, None)"
    by (rule_tac hash_lookup_spec [OF inv k]) (auto split: option.splits)
  then show ?thesis using room by (simp add: hash_insert_def hash_assign_def)
qed

lemma hash_delete_ok:
  assumes inv: "ht_inv table" and k: "key_fits (ht_type table) k"
  shows "\<exists>t'. hash_delete table k = Some (t', if ht_type table = INODE_MAP \<or> ht_type table = FUTEX_MAP
      then (case ht_look table k of None \<Rightarrow> [] | Some v \<Rightarrow> [v]) else []) \<and> ht_inv t' \<and> ht_type t' = ht_type table \<and>
    ht_look t' = (\<lambda>k'. if same_key (ht_type table) k k' then None else ht_look table k')"
proof -
  let ?b = "bucket_of table k"
  let ?bucket = "hash_head table ! ?b"
  note D = ht_invD [OF inv]
  obtain r where l: "hash_lookup table k = Some (?b, r)"
    "case r of None \<Rightarrow> bucket_get ?bucket k = None
     | Some m \<Rightarrow> m < length ?bucket \<and> key_val (fst (?bucket ! m)) = key_val k \<and> bucket_get ?bucket k = Some (snd (?bucket ! m))"
    by (rule hash_lookup_spec [OF inv k])
  have look: "ht_look table k = bucket_get ?bucket k"
    using ht_look_eq [OF inv] k by simp
  show ?thesis
  proof (cases r)
    case None
    then have n: "bucket_get ?bucket k = None" using l(2) by simp
    have "ht_look table k' = None" if "same_key (ht_type table) k k'" for k'
      using that n bucket_of_same [of k k' table] unfolding ht_look_eq [OF inv] same_key_def by (simp add: bucket_get_def)
    then have "(\<lambda>k'. if same_key (ht_type table) k k' then None else ht_look table k') = ht_look table"
      by auto
    then show ?thesis
      using l(1) None inv n look by (intro exI [of _ table]) (simp add: hash_delete_def)
  next
    case (Some m)
    then have m: "m < length ?bucket" "key_val (fst (?bucket ! m)) = key_val k" "bucket_get ?bucket k = Some (snd (?bucket ! m))"
      using l(2) by auto
    let ?new = "take m ?bucket @ drop (Suc m) ?bucket"
    let ?t = "table\<lparr>hash_head := (hash_head table)[?b := ?new]\<rparr>"
    have sub: "set ?new \<subseteq> set ?bucket"
      by (auto dest: in_set_takeD in_set_dropD)
    have "distinct (map (key_val \<circ> fst) (take m ?bucket @ ?bucket ! m # drop (Suc m) ?bucket))"
      using D(4) [OF D(3)] id_take_nth_drop [OF m(1)] by simp
    then have "distinct (map (key_val \<circ> fst) ?new)"
      by auto
    then have inv': "ht_inv ?t"
      using sub D(3,5,6) by (intro ht_inv_update [OF inv]) blast+
    show ?thesis
      using l(1) Some inv' m(3) look ht_look_update [OF inv inv' k bucket_get_removed [OF D(4) [OF D(3)] m(1,2)]]
      by (intro exI [of _ ?t]) (simp add: hash_delete_def Let_def)
  qed
qed

interpretation hash: map_store "\<lambda>t. ht_inv t \<and> ht_type t = ty" ht_look ht_put ht_del "\<lambda>k. key_fits ty k \<and> key_room k" "same_key ty" for ty
proof (unfold_locales, goal_cases)
  case (1 s k v)
  then show ?case
    using hash_insert_ok [of s k v] by (auto simp: ht_put_def)
next
  case (2 s k)
  then show ?case
    using hash_delete_ok [of s k] by (auto simp: ht_del_def)
next
  case (3 k)
  then show ?case
    by (simp add: same_key_def)
qed

lemma ht_look_empty:
  assumes "ht_inv t" "\<And>b. b < ht_size t \<Longrightarrow> hash_head t ! b = []"
  shows "ht_look t k = None"
  using assms(2) ht_invD(3) [OF assms(1), of k] by (simp add: ht_look_eq [OF assms(1)] bucket_get_def)

lemma ht_init:
  assumes "0 < n"
  shows "ht_inv (hash_table_entry_init ty n)" "ht_look (hash_table_entry_init ty n) = Map.empty"
    "ht_type (hash_table_entry_init ty n) = ty"
  using assms
  by (auto simp: ht_inv_def hash_table_entry_init_def fun_eq_iff intro!: ht_look_empty)

subsection \<open>The properties\<close>

text \<open>C16.  From an initialised table of any type and any positive size, any sequence of insertions of free keys and deletions
  runs without a panic, and afterwards \<open>hash_lookup\<close> finds for every key of the table's type exactly the value a map would
  hold; two keys are told apart by their value, and names by their 64-bit hash.  Names in the sequence have between 1 and 62
  characters: longer ones do not fit the node, and inserting one has no result.\<close>

theorem hash_table_refines_map:
  assumes "0 < n" and "legal_ops (\<lambda>k. key_fits ty k \<and> key_room k) (same_key ty) Map.empty ops"
  shows "\<exists>t. store_run ht_put ht_del (hash_table_entry_init ty n) ops = Some t \<and>
    (\<forall>k. key_fits ty k \<longrightarrow> hash_get t k = Some (map_run (same_key ty) Map.empty ops k))"
proof -
  have "ht_inv (hash_table_entry_init ty n) \<and> ht_type (hash_table_entry_init ty n) = ty"
    using ht_init(1) [OF assms(1)] by (simp add: hash_table_entry_init_def)
  from hash.run_refines [OF this, of ops] assms(2) obtain t where
    t: "store_run ht_put ht_del (hash_table_entry_init ty n) ops = Some t" "ht_inv t" "ht_type t = ty" "ht_look t = map_run (same_key ty) Map.empty ops"
    by (auto simp: ht_init(2) [OF assms(1)])
  then have "hash_get t k = Some (map_run (same_key ty) Map.empty ops k)" if "key_fits ty k" for k
    using that hash_get_eq [OF t(2), of k] ht_look_eq [OF t(2), of k] by simp
  with t(1) show ?thesis by blast
qed

theorem hash_table_refines_map_witness:
  "(\<exists>t. store_run ht_put ht_del (hash_table_entry_init PID_MAP 4) [Put (key_id 1) (10 :: nat), Put (key_id 5) 11, Del (key_id 1)] = Some t \<and>
    hash_get t (key_id 5) = Some (Some 11) \<and> hash_get t (key_id 1) = Some None) \<and>
   (\<exists>t. store_run ht_put ht_del (hash_table_entry_init INODE_MAP 200) [Put (key_name (replicate 62 97)) (7 :: nat)] = Some t \<and>
    hash_get t (key_name (replicate 62 97)) = Some (Some 7))"
  using hash_table_refines_map [of 4 PID_MAP "[Put (key_id 1) (10 :: nat), Put (key_id 5) 11, Del (key_id 1)]"]
    hash_table_refines_map [of 200 INODE_MAP "[Put (key_name (replicate 62 97)) (7 :: nat)]"]
  by (auto simp: same_key_def scast_inj KEY_NAME_SIZE_def)

text \<open>The name of a file may have up to 254 characters; one of 63 or more is written beyond its node.\<close>

lemma long_name_overflows:
  assumes "ht_inv table" and "ht_type table = INODE_MAP" and "hash_get table (key_name nm) = Some None" and "63 \<le> length nm"
  shows "hash_insert table (key_name nm) v = None"
  using assms by (intro hash_insert_no_room) (auto simp: ht_look_def KEY_NAME_SIZE_def)

text \<open>An \<open>INODE_MAP\<close> table compares the hashes of names and not the names: after inserting an entry under one name, a lookup of a
  different name with the same \<open>hash_str\<close> returns it.  The names \<open>Aa\<close> and \<open>BB\<close> collide.\<close>

theorem inode_map_name_collision:
  assumes "ht_inv table" and "ht_type table = INODE_MAP" and "hash_get table (key_name a) = Some None" and "hash_str a = hash_str b"
    and "key_room (key_name a)"
  shows "\<exists>t. hash_insert table (key_name a) v = Some (t, []) \<and> hash_get t (key_name b) = Some (Some v)"
proof -
  have "ht_look table (key_name a) = None"
    using assms(3) by (simp add: ht_look_def)
  then obtain t where t: "hash_insert table (key_name a) v = Some (t, [])" "ht_inv t" "ht_type t = INODE_MAP"
    "ht_look t = (\<lambda>k'. if same_key INODE_MAP (key_name a) k' then Some v else ht_look table k')"
    using hash_insert_ok [OF assms(1), of "key_name a" v] assms(2,5) by auto
  then show ?thesis
    using hash_get_eq [OF t(2), of "key_name b"] ht_look_eq [OF t(2), of "key_name b"] assms(4) by (auto simp: same_key_def)
qed

theorem inode_map_name_collision_witness:
  "[65, 97] \<noteq> [66, 66 :: byte] \<and>
    (\<exists>t. hash_insert (hash_table_entry_init INODE_MAP 8) (key_name [65, 97]) (3 :: nat) = Some (t, []) \<and> hash_get t (key_name [66, 66]) = Some (Some 3))"
proof -
  have i: "ht_inv (hash_table_entry_init INODE_MAP 8 :: nat hash_table)"
    by (rule ht_init) simp
  have "hash_get (hash_table_entry_init INODE_MAP 8 :: nat hash_table) (key_name [65, 97]) = Some None"
    by code_simp
  moreover have "hash_str [65, 97] = hash_str [66, 66]"
    by code_simp
  ultimately show ?thesis
    using inode_map_name_collision [OF i] by (simp add: hash_table_entry_init_def KEY_NAME_SIZE_def)
qed

end
