(* ===== verification/PhysMem.thy ===== *)
theory PhysMem
  imports Kalloc
begin

text \<open>
  Physical memory as the virtual-memory code sees it: aligned 64-bit loads and stores (page-table
  entries), \<open>memmove\<close> between physical addresses, and what one page request does to the memory while
  the allocator is not below the threshold at which \<open>kalloc.c\<close> calls the reclaim callback.  The kernel
  maps all RAM at its own address, so the pointers it stores through are physical addresses.
\<close>

unbundle bit_operations_syntax

subsection \<open>Loads and stores\<close>

text \<open>The machine is little endian.\<close>

definition ld64 :: "kmem \<Rightarrow> nat \<Rightarrow> uint64" where
  "ld64 s a = foldr (\<lambda>i w. push_bit (8 * i) (ucast (km_mem s (a + i))) OR w) [0 ..< 8] 0"

definition st64 :: "kmem \<Rightarrow> nat \<Rightarrow> uint64 \<Rightarrow> kmem" where
  "st64 s a v = s\<lparr>km_mem := (\<lambda>x. if a \<le> x \<and> x < a + 8 then ucast (drop_bit (8 * (x - a)) v) else km_mem s x)\<rparr>"

definition memmove_pa :: "kmem \<Rightarrow> nat \<Rightarrow> nat \<Rightarrow> nat \<Rightarrow> kmem" where
  "memmove_pa s d a n = s\<lparr>km_mem := memmove (km_mem s) d a n\<rparr>"

lemma memmove_pa_eq [code]:
  "memmove_pa s d a n = s\<lparr>km_mem := (\<lambda>x. if d \<le> x \<and> x < d + n then km_mem s (a + (x - d)) else km_mem s x)\<rparr>"
proof -
  have "memmove (km_mem s) d a n = (\<lambda>x. if d \<le> x \<and> x < d + n then km_mem s (a + (x - d)) else km_mem s x)"
    by (rule ext) (rule memmove_at)
  then show ?thesis by (simp add: memmove_pa_def)
qed

lemma bit_ld64: "bit (ld64 s a) n \<longleftrightarrow> n < 64 \<and> bit (km_mem s (a + n div 8)) (n mod 8)"
proof (cases "n < 64")
  case True
  define k m where "k = n div 8" and "m = n mod 8"
  have n: "n = 8 * k + m" and m: "m < 8" and k: "k < 8"
    using True by (simp_all add: k_def m_def)
  have l: "[0 ..< 8] = [0, 1, 2, 3, 4, 5, 6, 7 :: nat]" by code_simp
  have out: "\<not> bit (km_mem s x) i" if "8 \<le> i" for x i
    using that bit_imp_le_length [of "km_mem s x" i] by auto
  have "k = 0 \<or> k = 1 \<or> k = 2 \<or> k = 3 \<or> k = 4 \<or> k = 5 \<or> k = 6 \<or> k = 7"
    using k by auto
  then have "bit (ld64 s a) (8 * k + m) \<longleftrightarrow> bit (km_mem s (a + k)) m"
    using m out by (elim disjE) (simp_all add: ld64_def l bit_simps)
  then show ?thesis
    using True n m by (simp add: k_def [symmetric] m_def [symmetric])
qed (auto dest: bit_imp_le_length)

lemma ld64_st64_same [simp]: "ld64 (st64 s a v) a = v"
proof (rule bit_eqI)
  fix n assume "possible_bit TYPE(uint64) n"
  then have n: "n < 64" by (simp add: possible_bit_def)
  then show "bit (ld64 (st64 s a v) a) n = bit v n"
    by (simp add: bit_ld64 st64_def bit_simps less_mult_imp_div_less)
qed

lemma ld64_cong: "(\<And>i. i < 8 \<Longrightarrow> km_mem s (a + i) = km_mem s' (a + i)) \<Longrightarrow> ld64 s a = ld64 s' a"
  by (rule bit_eqI) (auto simp: bit_ld64)

lemma ld64_st64_other: "b + 8 \<le> a \<or> a + 8 \<le> b \<Longrightarrow> ld64 (st64 s a v) b = ld64 s b"
  by (rule ld64_cong) (auto simp: st64_def)

lemma ld64_zero: "(\<And>i. i < 8 \<Longrightarrow> km_mem s (a + i) = 0) \<Longrightarrow> ld64 s a = 0"
  by (rule bit_eqI) (auto simp: bit_ld64)

lemma km_mem_upd [simp]:
  "kmem_inv tot (s\<lparr>km_mem := m\<rparr>) = kmem_inv tot s" "km_blocks (s\<lparr>km_mem := m\<rparr>) = km_blocks s"
  "km_total (s\<lparr>km_mem := m\<rparr>) = km_total s"
  by (simp_all add: kmem_inv_def pools_ok_def refs_ok_def used_pages_def km_blocks_def km_total_def km_pool_def fun_eq_iff)

lemma st64_simps [simp]:
  "kmem_inv tot (st64 s a v) = kmem_inv tot s" "km_blocks (st64 s a v) = km_blocks s" "km_total (st64 s a v) = km_total s"
  "km_pages (st64 s a v) = km_pages s" "km_cnt (st64 s a v) = km_cnt s" "km_recycling (st64 s a v) = km_recycling s"
  "km_cpu (st64 s a v) = km_cpu s"
  by (simp_all add: st64_def)

lemma memmove_pa_simps [simp]:
  "kmem_inv tot (memmove_pa s d a n) = kmem_inv tot s" "km_blocks (memmove_pa s d a n) = km_blocks s"
  "km_total (memmove_pa s d a n) = km_total s" "km_pages (memmove_pa s d a n) = km_pages s"
  "km_cnt (memmove_pa s d a n) = km_cnt s" "km_recycling (memmove_pa s d a n) = km_recycling s"
  by (simp_all add: memmove_pa_eq)

subsection \<open>Pages\<close>

definition in_page :: "nat \<Rightarrow> nat \<Rightarrow> bool" where
  "in_page a x \<longleftrightarrow> a \<le> x \<and> x < a + PGSIZE"

lemma page_to_pa_inj [simp]: "page_to_pa p = page_to_pa q \<longleftrightarrow> p = q"
  by (simp add: page_to_pa_def PGSIZE_def)

lemma page_to_pa_apart: "p \<noteq> q \<Longrightarrow> page_to_pa p + PGSIZE \<le> page_to_pa q \<or> page_to_pa q + PGSIZE \<le> page_to_pa p"
proof -
  assume "p \<noteq> q"
  then have "Suc p \<le> q \<or> Suc q \<le> p" by linarith
  then have "Suc p * PGSIZE \<le> q * PGSIZE \<or> Suc q * PGSIZE \<le> p * PGSIZE"
    using mult_le_mono1 by blast
  then show ?thesis by (auto simp: page_to_pa_def)
qed

subsection \<open>One request without reclaim\<close>

text \<open>\<open>quiet n s\<close>: another \<open>n\<close> pages can be taken without the reclaim callback being called.\<close>

definition quiet :: "nat \<Rightarrow> kmem \<Rightarrow> bool" where
  "quiet n s \<longleftrightarrow> km_recycling s \<noteq> 0 \<or> PAGES_THRESHOLD + int n \<le> km_cnt s"

definition page_grant :: "int \<Rightarrow> nat \<Rightarrow> kmem \<Rightarrow> nat option \<Rightarrow> kmem \<Rightarrow> bool" where
  "page_grant tot k s r s' \<longleftrightarrow> kmem_inv tot s' \<and> same_cpu (km_cpu s) (km_cpu s') \<and> km_total s' = km_total s \<and>
     km_recycling s' = km_recycling s \<and>
     (case r of
        None \<Rightarrow> (\<forall>p. \<not> km_got s k p) \<and> km_blocks s' = km_blocks s \<and> km_cnt s' = km_cnt s \<and> km_mem s' = km_mem s \<and>
          (\<forall>q<km_total s. refcnt (km_pages s' ! q) = refcnt (km_pages s ! q))
      | Some a \<Rightarrow> \<exists>p. a = page_to_pa p \<and> km_got s k p \<and> km_blocks s p = None \<and> p < km_total s \<and>
          km_blocks s' = (km_blocks s)(p \<mapsto> k) \<and> km_cnt s' = km_cnt s - 2 ^ k \<and> refcnt (km_pages s' ! p) = 1 \<and>
          (\<forall>q<km_total s. q \<noteq> p \<longrightarrow> refcnt (km_pages s' ! q) = refcnt (km_pages s ! q)))"

text \<open>A request for one page fails only when every page is in use.\<close>

definition exhausted :: "int \<Rightarrow> kmem \<Rightarrow> bool" where
  "exhausted tot s \<longleftrightarrow> km_cnt s = tot - int (km_total s)"

lemma no_page_exhausted:
  assumes inv: "kmem_inv tot s" and none: "\<forall>p. \<not> km_got s 0 p"
  shows "exhausted tot s"
proof -
  have ok: "pools_ok s" and cnt: "km_cnt s = tot - int (used_pages s)"
    using inv by (simp_all add: kmem_inv_def)
  have full: "(\<Sum>r<km_ppc s. case blocks (km_pages s) (km_pool s i) r of None \<Rightarrow> 0 | Some k \<Rightarrow> 2 ^ k) = km_ppc s"
    if i: "i < length (km_pools s)" for i
  proof -
    have np: "npages (km_pool s i) = km_ppc s" "buddy_inv (km_pages s) (km_pool s i)"
      using ok i by (simp_all add: pools_ok_def)
    obtain H where c: "buddy_core H {} (km_pages s) (km_pool s i)" using np(2) by (rule buddy_invE)
    have "h \<in> in_use (blocks (km_pages s) (km_pool s i))" if "h < km_ppc s" for h
    proof (rule ccontr)
      assume "h \<notin> in_use (blocks (km_pages s) (km_pool s i))"
      then have "got_block (km_pages s) (km_pool s i) 0 h"
        using that np(1) by (simp add: got_block_def fits_def blk_def)
      then have "km_got s 0 (i * km_ppc s + h)" using i unfolding km_got_def by blast
      then show False using none by blast
    qed
    then have "in_use (blocks (km_pages s) (km_pool s i)) = {..<km_ppc s}"
      using card_in_use(2) [OF c] np(1) by auto
    then show ?thesis using card_in_use(1) [OF c] np(1) by simp
  qed
  have "used_pages s = length (km_pools s) * km_ppc s"
    unfolding used_pages_by_pool [OF ok] using full by simp
  then show ?thesis using cnt by (simp add: exhausted_def km_total_def)
qed

lemma request_quiet:
  assumes inv: "kmem_inv tot s" and q: "quiet (2 ^ k) s" and k: "k \<le> BUDDY_MAX_ORDER"
  shows "\<exists>s' r. do { (s, r) \<leftarrow> take_pages s k;
      case r of None \<Rightarrow> Some (s, None) | Some p \<Rightarrow> note_alloc af s p } = Some (s', r) \<and>
    page_grant tot k s r s' \<and> km_mem s' = km_mem s"
proof -
  have ok: "pools_ok s" using inv by (simp add: kmem_inv_def)
  obtain s1 r where t: "take_pages s k = Some (s1, r)" "take_post s k r s1" "r = None \<longrightarrow> (\<forall>p. \<not> km_got s k p)"
    using take_pages_spec [OF ok k] by blast
  show ?thesis
  proof (cases r)
    case None
    have "kmem_inv tot s1" using km_frame_inv [OF inv] t(2) None by blast
    then have "page_grant tot k s None s1 \<and> km_mem s1 = km_mem s"
      using t(2,3) None by (simp add: page_grant_def take_post_def km_frame_def km_total_def)
    then show ?thesis using t(1) None by simp
  next
    case (Some p)
    have T: "pools_ok s1" "km_frame s s1" "km_got s k p" "km_blocks s1 = (km_blocks s)(p \<mapsto> k)"
      using t(2) Some by (simp_all add: take_post_def)
    have F: "km_total s1 = km_total s" "km_cnt s1 = km_cnt s" "km_recycling s1 = km_recycling s" "km_mem s1 = km_mem s"
      "\<And>q. q < km_total s \<Longrightarrow> refcnt (km_pages s1 ! q) = refcnt (km_pages s ! q)"
      using T(2) by (simp_all add: km_frame_def km_total_def)
    note fresh = km_got_fresh [OF ok T(3)]
    have pg: "order (km_pages s1 ! p) = k" "p < length (km_pages s1)"
      using km_blocks_alloc [OF T(1), of p k] T(4) pools_okD(2) [OF T(1)] by simp_all
    have r0: "refcnt (km_pages s1 ! p) = 0"
      using inv fresh F(5) [OF fresh(2)] by (auto simp: kmem_inv_def refs_ok_def)
    let ?s2 = "s1\<lparr>km_pages := (km_pages s1)[p := (km_pages s1 ! p)\<lparr>refcnt := 1\<rparr>], km_cnt := km_cnt s1 - 2 ^ k\<rparr>"
    have low: "\<not> (km_recycling s = 0 \<and> km_cnt s - 2 ^ k < PAGES_THRESHOLD)"
      using q by (auto simp: quiet_def)
    then have run: "note_alloc f s1 p = Some (?s2, Some (page_to_pa p))" for f
      using pg r0 F(2,3) by (auto simp: note_alloc_def pg_get_def pg_upd_def Let_def)
    obtain s2 where s2: "note_alloc Some s1 p = Some (s2, Some (page_to_pa p))" "took s k p s2" "kmem_inv tot s2"
      using note_alloc_spec [OF inv recycler_Some, of k p s1] t(2) Some unfolding if_not_P [OF low] by blast
    have s2': "s2 = ?s2" using s2(1) run [of Some] by simp
    have "page_grant tot k s (Some (page_to_pa p)) ?s2"
      using s2(2,3) fresh T(3) pg(2) F(1,2,3,5) unfolding s2' took_def page_grant_def by simp
    then show ?thesis using t(1) run Some F(4) by simp
  qed
qed

lemma kmalloc_quiet:
  assumes "kmem_inv tot s" "quiet (2 ^ k) s" "k \<le> BUDDY_MAX_ORDER"
    and "(if sz \<le> word_of_nat PGSIZE then Some 0 else size_to_page_order sz) = Some k"
  shows "\<exists>s' r. kmalloc af s sz = Some (s', r) \<and> page_grant tot k s r s' \<and> km_mem s' = km_mem s"
  unfolding kmalloc_split using request_quiet [OF assms(1-3)] assms(4) by simp

lemma kmalloc_page:
  assumes "kmem_inv tot s" "quiet 1 s"
  shows "\<exists>s' r. kmalloc af s (word_of_nat PGSIZE) = Some (s', r) \<and> page_grant tot 0 s r s' \<and> km_mem s' = km_mem s"
  using kmalloc_quiet [of tot s 0 "word_of_nat PGSIZE"] assms by simp

lemma kzalloc_page:
  assumes "kmem_inv tot s" "quiet 1 s"
  shows "\<exists>s' r. kzalloc af s (word_of_nat PGSIZE) = Some (s', r) \<and> page_grant tot 0 s r s' \<and>
    (\<forall>x. km_mem s' x = (if (\<exists>a. r = Some a \<and> in_page a x) then 0 else km_mem s x))"
proof -
  obtain s1 r where m: "kmalloc af s (word_of_nat PGSIZE) = Some (s1, r)" "page_grant tot 0 s r s1" "km_mem s1 = km_mem s"
    using kmalloc_page [OF assms] by blast
  have sz: "unat (word_of_nat PGSIZE :: uint64) = PGSIZE" by (simp add: PGSIZE_def)
  show ?thesis
  proof (cases r)
    case None
    then show ?thesis using m by (simp add: kzalloc_def)
  next
    case (Some a)
    then have "kzalloc af s (word_of_nat PGSIZE) = Some (memset_pa s1 a 0 PGSIZE, r)"
      using m(1) by (simp add: kzalloc_def sz)
    moreover have "page_grant tot 0 s r (memset_pa s1 a 0 PGSIZE)"
      using m(2) Some by (simp add: page_grant_def memset_pa_eq)
    ultimately show ?thesis
      using m(3) Some by (simp add: memset_pa_eq in_page_def)
  qed
qed

lemma quiet_mono: "quiet n s \<Longrightarrow> m \<le> n \<Longrightarrow> quiet m s"
  by (auto simp: quiet_def)

lemma quiet_grant: "quiet (2 ^ k + n) s \<Longrightarrow> page_grant tot k s r s' \<Longrightarrow> quiet n s'"
proof (cases "km_recycling s = 0")
  case True
  assume "quiet (2 ^ k + n) s" "page_grant tot k s r s'"
  moreover from this(2) have "km_cnt s - 2 ^ k \<le> km_cnt s'"
    by (auto simp: page_grant_def split: option.splits)
  ultimately show ?thesis
    using True by (simp add: quiet_def page_grant_def)
qed (simp add: quiet_def page_grant_def)

end
