(* ===== verification/PageTable.thy ===== *)
theory PageTable
  imports PhysMem
begin

text \<open>
  The Sv39 page tables of \<open>src/mm/vm.c\<close> over physical memory: \<open>walk\<close> and the operations built on it.
  A page table is the physical address of its root page; the entries are 64-bit words in memory; table
  pages and frames come from \<open>kzalloc\<close> and go back with \<open>kfree\<close>.  Virtual addresses are 64-bit words,
  with the wrap-around of the code.  The diagnostic prints before a \<open>panic\<close> are left out.
\<close>

unbundle bit_operations_syntax

subsection \<open>Entries and addresses\<close>

definition PTE_V :: uint64 where "PTE_V = push_bit 0 1"
definition PTE_R :: uint64 where "PTE_R = push_bit 1 1"
definition PTE_W :: uint64 where "PTE_W = push_bit 2 1"
definition PTE_X :: uint64 where "PTE_X = push_bit 3 1"
definition PTE_U :: uint64 where "PTE_U = push_bit 4 1"
definition PTE_D :: uint64 where "PTE_D = push_bit 7 1"
definition PTE_SHARE :: uint64 where "PTE_SHARE = push_bit 8 1"
definition PTE_READONLY :: uint64 where "PTE_READONLY = push_bit 9 1"

lemmas pte_flag_defs = PTE_V_def PTE_R_def PTE_W_def PTE_X_def PTE_U_def PTE_D_def PTE_SHARE_def PTE_READONLY_def

definition has_flag :: "uint64 \<Rightarrow> uint64 \<Rightarrow> bool" where
  "has_flag e f \<longleftrightarrow> e AND f \<noteq> 0"

definition PA2PTE :: "uint64 \<Rightarrow> uint64" where
  "PA2PTE pa = push_bit 10 (drop_bit 12 pa)"

definition PTE2PA :: "uint64 \<Rightarrow> uint64" where
  "PTE2PA e = push_bit 12 (drop_bit 10 e)"

definition PTE_FLAGS :: "uint64 \<Rightarrow> uint64" where
  "PTE_FLAGS e = e AND 0x3FF"

definition PN :: "nat \<Rightarrow> uint64 \<Rightarrow> nat" where
  "PN level va = unat (drop_bit (12 + 9 * level) va AND 0x1FF)"

definition MAXVA :: uint64 where
  "MAXVA = push_bit (9 + 9 + 9 + 12 - 1) 1"

definition PGSZ :: uint64 where
  "PGSZ = word_of_nat PGSIZE"

definition SUPERPGSIZE :: uint64 where
  "SUPERPGSIZE = PGSZ * (PGSZ div 8)"

definition PGROUNDDOWN :: "uint64 \<Rightarrow> uint64" where
  "PGROUNDDOWN a = a AND NOT (PGSZ - 1)"

definition PGROUNDUP :: "uint64 \<Rightarrow> uint64" where
  "PGROUNDUP a = (a + PGSZ - 1) AND NOT (PGSZ - 1)"

definition SUPERPG_DOWN :: "uint64 \<Rightarrow> uint64" where
  "SUPERPG_DOWN a = a AND NOT (SUPERPGSIZE - 1)"

definition SUPERPG_ROUNDUP :: "uint64 \<Rightarrow> uint64" where
  "SUPERPG_ROUNDUP a = (a + SUPERPGSIZE - 1) AND NOT (SUPERPGSIZE - 1)"

definition COMMONPAGE :: nat where "COMMONPAGE = 0"
definition SUPERPAGE :: nat where "SUPERPAGE = 1"

subsection \<open>The walk\<close>

text \<open>\<open>walk_loop\<close> is the loop of \<open>walk\<close> from \<open>level\<close> down to \<open>lowlevel\<close> at the table \<open>pagetable\<close>; the
  result is the memory, the returned level and the entry's address (\<open>None\<close> for the null pointer).\<close>

fun walk_loop :: "(kmem \<Rightarrow> kmem option) \<Rightarrow> uint64 \<Rightarrow> bool \<Rightarrow> nat \<Rightarrow> nat \<Rightarrow> kmem \<Rightarrow> nat \<Rightarrow>
    (kmem \<times> int \<times> nat option) option" where
  "walk_loop af va alloc lowlevel level s pagetable =
     (if lowlevel < level then do {
        let pte_tmp = pagetable + 8 * PN level va;
        let e = ld64 s pte_tmp;
        if has_flag e PTE_V then
          if has_flag e PTE_R \<or> has_flag e PTE_X then do {
            ASSERT (level = 1);
            Some (s, int level, Some pte_tmp) }
          else walk_loop af va alloc lowlevel (level - 1) s (unat (PTE2PA e))
        else if \<not> alloc then Some (s, -1, None)
        else do {
          (s, r) \<leftarrow> kzalloc af s PGSZ;
          case r of None \<Rightarrow> Some (s, -1, None)
          | Some pa \<Rightarrow>
              walk_loop af va alloc lowlevel (level - 1) (st64 s pte_tmp (PA2PTE (word_of_nat pa) OR PTE_V)) pa } }
      else Some (s, 0, Some (pagetable + 8 * PN lowlevel va)))"

declare walk_loop.simps [simp del]

definition walk :: "(kmem \<Rightarrow> kmem option) \<Rightarrow> kmem \<Rightarrow> nat \<Rightarrow> uint64 \<Rightarrow> bool \<Rightarrow> nat \<Rightarrow>
    (kmem \<times> int \<times> nat option) option" where
  "walk af s pagetable va alloc lowlevel = do {
     ASSERT (va < MAXVA);
     walk_loop af va alloc lowlevel 2 s pagetable }"

definition walkaddr :: "kmem \<Rightarrow> nat \<Rightarrow> uint64 \<Rightarrow> uint64 option" where
  "walkaddr s pagetable va =
     (if MAXVA \<le> va then Some 0
      else do {
        (s, level, pte) \<leftarrow> walk Some s pagetable va False 0;
        ASSERT (level \<le> 1);
        case pte of None \<Rightarrow> Some 0
        | Some q \<Rightarrow>
            let e = ld64 s q in
            if \<not> has_flag e PTE_V then Some 0
            else if \<not> has_flag e PTE_U then Some 0
            else if level = int COMMONPAGE then Some (PTE2PA e)
            else if level = int SUPERPAGE then Some (PTE2PA e + (PGROUNDDOWN va - SUPERPG_DOWN va))
            else None })"

definition getphyaddr :: "kmem \<Rightarrow> nat \<Rightarrow> uint64 \<Rightarrow> uint64 option" where
  "getphyaddr s pagetable va = do {
     let aligned_va = PGROUNDDOWN va;
     aligned_pa \<leftarrow> walkaddr s pagetable va;
     Some (if aligned_pa = 0 then 0 else aligned_pa + (va - aligned_va)) }"

lemma word_room_less: "a < b \<Longrightarrow> 2 ^ 64 - unat b < 2 ^ 64 - unat a" for a b :: uint64
  using unsigned_less [of a, where ?'a = nat] by (simp add: word_less_nat_alt diff_less_mono2)

subsection \<open>Mapping\<close>

text \<open>The \<open>for (;;)\<close> loop of \<open>mappages\<close>.  It leaves by \<open>break\<close> at \<open>last\<close>; should the address pass
  \<open>MAXVA\<close> first, \<open>walk\<close> panics.\<close>

function map_loop :: "(kmem \<Rightarrow> kmem option) \<Rightarrow> nat \<Rightarrow> uint64 \<Rightarrow> nat \<Rightarrow> uint64 \<Rightarrow> uint64 \<Rightarrow> kmem \<Rightarrow> uint64 \<Rightarrow> uint64 \<Rightarrow>
    (kmem \<times> int) option" where
  "map_loop af pagetable perm lowlevel pgsize lst s a pa =
     (if a < MAXVA then do {
        (s, level, pte) \<leftarrow> walk af s pagetable a True lowlevel;
        case pte of None \<Rightarrow> Some (s, -1)
        | Some q \<Rightarrow> do {
            ASSERT (\<not> has_flag (ld64 s q) PTE_V);
            let s = st64 s q (PA2PTE pa OR perm OR PTE_V);
            if a = lst then Some (s, 0)
            else if a < a + pgsize then map_loop af pagetable perm lowlevel pgsize lst s (a + pgsize) (pa + pgsize)
            else None } }
      else None)"
  by pat_completeness auto
termination
  by (relation "measure (\<lambda>(af, pt, perm, low, pgsize, lst, s, a, pa). 2 ^ 64 - unat a)")
    (auto simp del: power_numeral intro: word_room_less)

declare map_loop.simps [simp del]

definition mappages :: "(kmem \<Rightarrow> kmem option) \<Rightarrow> kmem \<Rightarrow> nat \<Rightarrow> uint64 \<Rightarrow> uint64 \<Rightarrow> uint64 \<Rightarrow> uint64 \<Rightarrow> nat \<Rightarrow>
    (kmem \<times> int) option" where
  "mappages af s pagetable va sz pa perm lowlevel = do {
     ASSERT (sz \<noteq> 0);
     if lowlevel = 0 then
       map_loop af pagetable perm lowlevel PGSZ (PGROUNDDOWN (va + sz - 1)) s (PGROUNDDOWN va) pa
     else if lowlevel = 1 then do {
       ASSERT (va mod SUPERPGSIZE = 0);
       map_loop af pagetable perm lowlevel SUPERPGSIZE (SUPERPG_DOWN (va + sz - 1)) s (SUPERPG_DOWN va) pa }
     else None }"

definition kvmmap :: "(kmem \<Rightarrow> kmem option) \<Rightarrow> kmem \<Rightarrow> nat \<Rightarrow> uint64 \<Rightarrow> uint64 \<Rightarrow> uint64 \<Rightarrow> uint64 \<Rightarrow> nat \<Rightarrow> kmem option" where
  "kvmmap af s kpgtbl va pa sz perm lowlevel = do {
     (s, r) \<leftarrow> mappages af s kpgtbl va sz pa perm lowlevel;
     ASSERT (r = 0);
     Some s }"

subsection \<open>Loops over pages\<close>

text \<open>\<open>for (a = start; a < hi; a += step)\<close> where the body may return from the function (\<open>Some v\<close>) and says how
  far it moves \<open>a\<close>.  Every body below calls \<open>walk\<close> on \<open>a\<close>, which stops the kernel above \<open>MAXVA\<close>, so \<open>a\<close>
  never wraps around; the guard \<open>a < a'\<close> is what makes the definition total.\<close>

function page_loop :: "('s \<Rightarrow> uint64 \<Rightarrow> ('s \<times> 'r option \<times> uint64) option) \<Rightarrow> uint64 \<Rightarrow> 's \<Rightarrow> uint64 \<Rightarrow>
    ('s \<times> 'r option) option" where
  "page_loop body hi s a =
     (if a < hi then
        case body s a of None \<Rightarrow> None
        | Some (s, Some v, a') \<Rightarrow> Some (s, Some v)
        | Some (s, None, a') \<Rightarrow> if a < a' then page_loop body hi s a' else None
      else Some (s, None))"
  by pat_completeness auto
termination
  by (relation "measure (\<lambda>(body, hi, s, a). 2 ^ 64 - unat a)") (auto simp del: power_numeral intro: word_room_less)

declare page_loop.simps [simp del]

subsection \<open>Allocation and release of user memory\<close>

text \<open>\<open>uvmunmap\<close>, \<open>uvmalloc\<close> and \<open>uvmdealloc\<close> call each other: unmapping from the middle of a 2MB leaf
  allocates small pages for the part below, and a failed allocation unmaps what it mapped.  The
  definitions take the callee as an argument and \<open>uvmunmap_n\<close> ties the knot for a given call depth.\<close>

text \<open>\<open>npages\<close> (here \<open>np\<close>) is an \<open>int\<close> in the code of \<open>uvmdealloc\<close>: the page count is truncated to 32 bits and sign-extended.\<close>

definition uvmdealloc_with :: "(kmem \<Rightarrow> uint64 \<Rightarrow> uint64 \<Rightarrow> kmem option) \<Rightarrow> kmem \<Rightarrow> uint64 \<Rightarrow> uint64 \<Rightarrow>
    (kmem \<times> uint64) option" where
  "uvmdealloc_with unmap s oldsz newsz =
     (if oldsz \<le> newsz then Some (s, oldsz)
      else do {
        s \<leftarrow> (if PGROUNDUP newsz < PGROUNDUP oldsz
              then let np = ucast ((PGROUNDUP oldsz - PGROUNDUP newsz) div PGSZ) :: 32 word
                   in unmap s (PGROUNDUP newsz) (scast np)
              else Some s);
        Some (s, newsz) })"

text \<open>One iteration of the three loops of \<open>uvmalloc\<close>, which differ in the page size; \<open>Some 0\<close> is the early
  \<open>return 0\<close> after undoing.\<close>

definition alloc_body :: "(kmem \<Rightarrow> kmem option) \<Rightarrow> (kmem \<Rightarrow> uint64 \<Rightarrow> uint64 \<Rightarrow> kmem option) \<Rightarrow> nat \<Rightarrow> uint64 \<Rightarrow> uint64 \<Rightarrow>
    uint64 \<Rightarrow> nat \<Rightarrow> kmem \<Rightarrow> uint64 \<Rightarrow> (kmem \<times> uint64 option \<times> uint64) option" where
  "alloc_body af unmap pagetable startva perm pgsize lowlevel s a = do {
     (s, mem) \<leftarrow> kzalloc af s pgsize;
     case mem of
       None \<Rightarrow> do {
         (s, _) \<leftarrow> uvmdealloc_with unmap s a startva;
         Some (s, Some 0, a) }
     | Some m \<Rightarrow> do {
         (s, r) \<leftarrow> mappages af s pagetable a pgsize (word_of_nat m) (PTE_R OR PTE_U OR perm) lowlevel;
         if r \<noteq> 0 then do {
           s \<leftarrow> kfree s m;
           (s, _) \<leftarrow> uvmdealloc_with unmap s a startva;
           Some (s, Some 0, a) }
         else Some (s, None, a + pgsize) } }"

definition uvmalloc_with :: "(kmem \<Rightarrow> kmem option) \<Rightarrow> (kmem \<Rightarrow> uint64 \<Rightarrow> uint64 \<Rightarrow> kmem option) \<Rightarrow> kmem \<Rightarrow> nat \<Rightarrow>
    uint64 \<Rightarrow> uint64 \<Rightarrow> uint64 \<Rightarrow> (kmem \<times> uint64) option" where
  "uvmalloc_with af unmap s pagetable startva endva perm =
     (if endva < startva then Some (s, startva)
      else do {
        let aligned_sz = PGROUNDUP startva;
        let super_aligned_sz = SUPERPG_ROUNDUP startva;
        let small = alloc_body af unmap pagetable startva perm PGSZ COMMONPAGE;
        let super = alloc_body af unmap pagetable startva perm SUPERPGSIZE SUPERPAGE;
        (s, r) \<leftarrow> page_loop small (min endva super_aligned_sz) s aligned_sz;
        case r of Some v \<Rightarrow> Some (s, v)
        | None \<Rightarrow>
            if endva \<le> super_aligned_sz then Some (s, endva)
            else do {
              let newsz_down = SUPERPG_DOWN endva;
              (s, r) \<leftarrow> page_loop super newsz_down s super_aligned_sz;
              case r of Some v \<Rightarrow> Some (s, v)
              | None \<Rightarrow> do {
                  (s, r) \<leftarrow> page_loop small endva s newsz_down;
                  case r of Some v \<Rightarrow> Some (s, v) | None \<Rightarrow> Some (s, endva) } } })"

definition unmap_body :: "(kmem \<Rightarrow> uint64 \<Rightarrow> uint64 \<Rightarrow> uint64 \<Rightarrow> (kmem \<times> uint64) option) \<Rightarrow> nat \<Rightarrow> uint64 \<Rightarrow> bool \<Rightarrow> bool \<Rightarrow>
    kmem \<Rightarrow> uint64 \<Rightarrow> (kmem \<times> unit option \<times> uint64) option" where
  "unmap_body realloc pagetable va do_free on_demand s a = do {
     (s, level, pte) \<leftarrow> walk Some s pagetable a False 0;
     case pte of
       None \<Rightarrow> (if on_demand then Some (s, None, a + PGSZ) else None)
     | Some q \<Rightarrow>
         (let e = ld64 s q in
          if \<not> has_flag e PTE_V then (if on_demand then Some (s, None, a + PGSZ) else None)
          else do {
            ASSERT (PTE_FLAGS e \<noteq> PTE_V);
            ASSERT (level \<le> 1);
            s \<leftarrow> (if do_free then kfree s (unat (PTE2PA e)) else Some s);
            let pte_flags = PTE_FLAGS (ld64 s q);
            let s = st64 s q 0;
            if level = int SUPERPAGE then do {
              s \<leftarrow> (if a \<noteq> SUPERPG_DOWN a \<and> a = va
                    then map_option fst (realloc s (SUPERPG_DOWN a) a pte_flags)
                    else Some s);
              Some (s, None, a + (SUPERPGSIZE - PGSZ) + PGSZ) }
            else Some (s, None, a + PGSZ) }) }"

fun uvmunmap_n :: "nat \<Rightarrow> (kmem \<Rightarrow> kmem option) \<Rightarrow> kmem \<Rightarrow> nat \<Rightarrow> uint64 \<Rightarrow> uint64 \<Rightarrow> bool \<Rightarrow> bool \<Rightarrow> kmem option" where
  "uvmunmap_n 0 af s pagetable va np do_free on_demand = None"
| "uvmunmap_n (Suc d) af s pagetable va np do_free on_demand = do {
     ASSERT (va mod PGSZ = 0);
     let endva = va + np * PGSZ;
     let realloc = (\<lambda>s lo hi flags.
       uvmalloc_with af (\<lambda>s va n. uvmunmap_n d af s pagetable va n True False) s pagetable lo hi flags);
     (s, _) \<leftarrow> page_loop (unmap_body realloc pagetable va do_free on_demand) endva s va;
     Some s }"

declare uvmunmap_n.simps [simp del]

text \<open>The nesting is at most two deep: the inner allocation starts on a 2MB boundary and maps only small
  pages, so undoing it meets no 2MB leaf.\<close>

definition uvmunmap :: "(kmem \<Rightarrow> kmem option) \<Rightarrow> kmem \<Rightarrow> nat \<Rightarrow> uint64 \<Rightarrow> uint64 \<Rightarrow> bool \<Rightarrow> bool \<Rightarrow> kmem option" where
  "uvmunmap af s pagetable va np do_free on_demand = uvmunmap_n 3 af s pagetable va np do_free on_demand"

definition uvmalloc :: "(kmem \<Rightarrow> kmem option) \<Rightarrow> kmem \<Rightarrow> nat \<Rightarrow> uint64 \<Rightarrow> uint64 \<Rightarrow> uint64 \<Rightarrow> (kmem \<times> uint64) option" where
  "uvmalloc af s pagetable startva endva perm =
     uvmalloc_with af (\<lambda>s va n. uvmunmap af s pagetable va n True False) s pagetable startva endva perm"

definition uvmdealloc :: "(kmem \<Rightarrow> kmem option) \<Rightarrow> kmem \<Rightarrow> nat \<Rightarrow> uint64 \<Rightarrow> uint64 \<Rightarrow> (kmem \<times> uint64) option" where
  "uvmdealloc af s pagetable oldsz newsz =
     uvmdealloc_with (\<lambda>s va n. uvmunmap af s pagetable va n True False) s oldsz newsz"

definition uvmcreate :: "(kmem \<Rightarrow> kmem option) \<Rightarrow> kmem \<Rightarrow> (kmem \<times> nat option) option" where
  "uvmcreate af s = kzalloc af s PGSZ"

text \<open>\<open>freewalk\<close> descends one level per call; the first argument bounds the depth (three levels in a proper
  table).  Without \<open>__DEBUG_LDSO__\<close> a leaf is a \<open>panic\<close>.\<close>

fun fold_opt :: "('i \<Rightarrow> 's \<Rightarrow> 's option) \<Rightarrow> 'i list \<Rightarrow> 's \<Rightarrow> 's option" where
  "fold_opt f [] s = Some s"
| "fold_opt f (i # is) s = do { s \<leftarrow> f i s; fold_opt f is s }"

primrec freewalk :: "nat \<Rightarrow> kmem \<Rightarrow> nat \<Rightarrow> kmem option" where
  "freewalk 0 s pagetable = None"
| "freewalk (Suc d) s pagetable = do {
     s \<leftarrow> fold_opt (\<lambda>i s.
            let pte = ld64 s (pagetable + 8 * i) in
            if has_flag pte PTE_V \<and> \<not> has_flag pte (PTE_R OR PTE_W OR PTE_X) then do {
              s \<leftarrow> freewalk d s (unat (PTE2PA pte));
              Some (st64 s (pagetable + 8 * i) 0) }
            else if has_flag pte PTE_V then None
            else Some s) [0 ..< 512] s;
     if pagetable \<noteq> 0 then kfree s pagetable else Some s }"

definition uvmclear :: "kmem \<Rightarrow> nat \<Rightarrow> uint64 \<Rightarrow> kmem option" where
  "uvmclear s pagetable va = do {
     (s, level, pte) \<leftarrow> walk Some s pagetable va False 0;
     q \<leftarrow> pte;
     Some (st64 s q (ld64 s q AND NOT PTE_U)) }"

subsection \<open>Copying from user memory\<close>

text \<open>The kernel buffer \<open>dst\<close> is a kernel address.\<close>

lemma PGROUNDDOWN_bits: "PGROUNDDOWN a = push_bit 12 (drop_bit 12 a)"
proof -
  have "PGROUNDDOWN a = a AND NOT (mask 12)"
    by (simp add: PGROUNDDOWN_def PGSZ_def PGSIZE_def mask_numeral)
  also have "\<dots> = push_bit 12 (drop_bit 12 a)"
    by (rule bit_eqI) (auto simp: bit_simps)
  finally show ?thesis .
qed

lemma unat_push_drop: "unat (push_bit n (drop_bit n a)) = unat a div 2 ^ n * 2 ^ n" if "n < 64" for a :: uint64
proof -
  have "unat (drop_bit n a) = unat a div 2 ^ n"
    by (simp add: unat_drop_bit_eq drop_bit_nat_def)
  moreover have "unat a div 2 ^ n * 2 ^ n < 2 ^ 64"
    using unsigned_less [of a, where ?'a = nat] le_less_trans [OF div_times_less_eq_dividend] by simp
  moreover have "unat (2 ^ n :: uint64) = 2 ^ n"
    using that power_strict_increasing [of n 64 "2 :: nat"] unat_of_nat [of "2 ^ n", where ?'a = 64] by simp
  ultimately show ?thesis
    by (simp add: push_bit_eq_mult unat_word_ariths)
qed

lemma unat_PGROUNDDOWN: "unat (PGROUNDDOWN a) = unat a div 4096 * 4096"
  using unat_push_drop [of 12 a] by (simp add: PGROUNDDOWN_bits)

lemma PGROUNDDOWN_le: "PGROUNDDOWN a \<le> a"
  by (simp add: word_le_nat_alt unat_PGROUNDDOWN)

lemma unat_page_offset: "unat (va - PGROUNDDOWN va) = unat va mod 4096"
  using PGROUNDDOWN_le [of va]
  by (simp add: unat_sub unat_PGROUNDDOWN minus_div_mult_eq_mod)

lemma unat_PGSZ [simp]: "unat PGSZ = 4096"
  by (simp add: PGSZ_def PGSIZE_def)

lemma unat_page_rest: "unat (PGSZ - (va - PGROUNDDOWN va)) = 4096 - unat va mod 4096"
  by (subst unat_sub) (simp_all add: unat_page_offset word_le_nat_alt less_imp_le)

lemma page_chunk_pos:
  assumes "0 < len"
  shows "0 < unat (min (PGSZ - (va - PGROUNDDOWN va)) len)" "unat (min (PGSZ - (va - PGROUNDDOWN va)) len) \<le> unat len"
  using assms by (simp_all add: min_def unat_page_rest word_less_nat_alt word_le_nat_alt)

lemma page_chunk_less:
  "0 < len \<Longrightarrow> unat (len - min (PGSZ - (va - PGROUNDDOWN va)) len) < unat len"
  using page_chunk_pos [of len va] by (simp add: unat_sub word_less_nat_alt)

function copyin :: "kmem \<Rightarrow> nat \<Rightarrow> nat \<Rightarrow> uint64 \<Rightarrow> uint64 \<Rightarrow> (kmem \<times> int) option" where
  "copyin s pagetable dst srcva len =
     (if 0 < len then
        case walkaddr s pagetable (PGROUNDDOWN srcva) of None \<Rightarrow> None
        | Some pa0 \<Rightarrow>
            if pa0 = 0 then Some (s, -1)
            else
              let va0 = PGROUNDDOWN srcva; n = min (PGSZ - (srcva - va0)) len in
              copyin (memmove_pa s dst (unat (pa0 + (srcva - va0))) (unat n)) pagetable (dst + unat n) (va0 + PGSZ) (len - n)
      else Some (s, 0))"
  by pat_completeness auto
termination
  by (relation "measure (\<lambda>(s, pt, dst, srcva, len). unat len)")
    (simp_all add: page_chunk_less)

declare copyin.simps [simp del]

text \<open>The inner loop of \<open>copyinstr\<close>: at most \<open>n\<close> bytes from \<open>p\<close> to \<open>dst\<close>, up to and including a zero byte.  It
  returns the memory, whether the zero was found, and the number of bytes stored before it.\<close>

fun str_loop :: "nat \<Rightarrow> kmem \<Rightarrow> nat \<Rightarrow> nat \<Rightarrow> nat \<Rightarrow> kmem \<times> bool \<times> nat" where
  "str_loop 0 s p dst k = (s, False, k)"
| "str_loop (Suc n) s p dst k =
     (if km_mem s p = 0 then (s\<lparr>km_mem := (km_mem s)(dst := 0)\<rparr>, True, k)
      else str_loop n (s\<lparr>km_mem := (km_mem s)(dst := km_mem s p)\<rparr>) (p + 1) (dst + 1) (k + 1))"

function copyinstr :: "kmem \<Rightarrow> nat \<Rightarrow> nat \<Rightarrow> uint64 \<Rightarrow> uint64 \<Rightarrow> (kmem \<times> int) option" where
  "copyinstr s pagetable dst srcva mx =
     (if 0 < mx then
        case walkaddr s pagetable (PGROUNDDOWN srcva) of None \<Rightarrow> None
        | Some pa0 \<Rightarrow>
            if pa0 = 0 then Some (s, -1)
            else
              let va0 = PGROUNDDOWN srcva; n = min (PGSZ - (srcva - va0)) mx in
              case str_loop (unat n) s (unat (pa0 + (srcva - va0))) dst 0 of
                (s, True, k) \<Rightarrow> Some (s, 0)
              | (s, False, k) \<Rightarrow> copyinstr s pagetable (dst + unat n) (va0 + PGSZ) (mx - n)
      else Some (s, -1))"
  by pat_completeness auto
termination
  by (relation "measure (\<lambda>(s, pt, dst, srcva, mx). unat mx)")
    (simp_all add: page_chunk_less)

declare copyinstr.simps [simp del]

subsection \<open>Address spaces of the kernel and of a process\<close>

definition KERNBASE :: uint64 where "KERNBASE = 0x80200000"
definition PHYSTOP :: uint64 where "PHYSTOP = 0x80000000 + 1024 * 1024 * 1024"
definition TRAMPOLINE :: uint64 where "TRAMPOLINE = MAXVA - PGSZ"
definition SIGRETURN :: uint64 where "SIGRETURN = TRAMPOLINE - PGSZ"
definition TRAPFRAME :: uint64 where "TRAPFRAME = SIGRETURN - PGSZ"
definition KSTACK_PAGE :: uint64 where "KSTACK_PAGE = 4"
definition USTACK_PAGE :: uint64 where "USTACK_PAGE = 10"
definition USTACK :: uint64 where "USTACK = MAXVA - 512 * 10 * PGSZ - USTACK_PAGE * PGSZ"
definition USTACK_GURAD_PAGE :: uint64 where "USTACK_GURAD_PAGE = USTACK - PGSZ"

definition KSTACK :: "nat \<Rightarrow> uint64" where
  "KSTACK p = TRAMPOLINE - (word_of_nat p + 1) * (KSTACK_PAGE + 1) * PGSZ"

definition tcb_mapstacks :: "(kmem \<Rightarrow> kmem option) \<Rightarrow> nat \<Rightarrow> kmem \<Rightarrow> nat \<Rightarrow> kmem option" where
  "tcb_mapstacks af NTCB s kpgtbl = fold_opt (\<lambda>t s. do {
     (s, pa) \<leftarrow> kmalloc af s (KSTACK_PAGE * PGSZ);
     m \<leftarrow> pa;
     kvmmap af s kpgtbl (KSTACK t) (word_of_nat m) (KSTACK_PAGE * PGSZ) (PTE_R OR PTE_W) COMMONPAGE }) [0 ..< NTCB] s"

text \<open>\<open>kvmmake\<close> in the configuration \<open>VIRT\<close>; \<open>etext\<close> and \<open>trampoline\<close> are linker symbols.  A failed \<open>kzalloc\<close> is
  not checked: the null table pointer would be dereferenced.\<close>

definition CLINT_MTIME :: uint64 where "CLINT_MTIME = 0x2000000 + 0xBFF8"
definition UART0 :: uint64 where "UART0 = 0x10000000"
definition VIRTIO0 :: uint64 where "VIRTIO0 = 0x10001000"
definition PLIC :: uint64 where "PLIC = 0x0c000000"

definition kvmmake :: "(kmem \<Rightarrow> kmem option) \<Rightarrow> nat \<Rightarrow> uint64 \<Rightarrow> uint64 \<Rightarrow> kmem \<Rightarrow> (kmem \<times> nat) option" where
  "kvmmake af NTCB etext trampoline s = do {
     (s, r) \<leftarrow> kzalloc af s PGSZ;
     kpgtbl \<leftarrow> r;
     s \<leftarrow> kvmmap af s kpgtbl CLINT_MTIME CLINT_MTIME PGSZ PTE_R COMMONPAGE;
     s \<leftarrow> kvmmap af s kpgtbl UART0 UART0 PGSZ (PTE_R OR PTE_W) COMMONPAGE;
     s \<leftarrow> kvmmap af s kpgtbl VIRTIO0 VIRTIO0 PGSZ (PTE_R OR PTE_W) COMMONPAGE;
     s \<leftarrow> kvmmap af s kpgtbl PLIC PLIC 0x400000 (PTE_R OR PTE_W) SUPERPAGE;
     let super_aligned_sz = SUPERPG_DOWN (etext - KERNBASE);
     s \<leftarrow> (if super_aligned_sz \<noteq> 0
           then kvmmap af s kpgtbl KERNBASE KERNBASE super_aligned_sz (PTE_R OR PTE_X) SUPERPAGE else Some s);
     s \<leftarrow> kvmmap af s kpgtbl (KERNBASE + super_aligned_sz) (KERNBASE + super_aligned_sz)
            (etext - KERNBASE - super_aligned_sz) (PTE_R OR PTE_X) COMMONPAGE;
     let super_aligned_sz = SUPERPG_DOWN (PHYSTOP - etext);
     s \<leftarrow> kvmmap af s kpgtbl etext etext (PHYSTOP - etext - super_aligned_sz) (PTE_R OR PTE_W) COMMONPAGE;
     s \<leftarrow> kvmmap af s kpgtbl (SUPERPG_ROUNDUP etext) (SUPERPG_ROUNDUP etext) super_aligned_sz (PTE_R OR PTE_W) SUPERPAGE;
     s \<leftarrow> kvmmap af s kpgtbl TRAMPOLINE trampoline PGSZ (PTE_R OR PTE_X) COMMONPAGE;
     s \<leftarrow> tcb_mapstacks af NTCB s kpgtbl;
     s \<leftarrow> kvmmap af s kpgtbl 0 (word_of_nat START_MEM) (PGSZ * 1000) (PTE_R OR PTE_W) 0;
     Some (s, kpgtbl) }"

text \<open>The error paths of \<open>proc_pagetable\<close> run \<open>freewalk\<close> on the three levels.\<close>

definition proc_pagetable :: "(kmem \<Rightarrow> kmem option) \<Rightarrow> uint64 \<Rightarrow> uint64 \<Rightarrow> kmem \<Rightarrow> (kmem \<times> nat option) option" where
  "proc_pagetable af trampoline sigreturn s = do {
     (s, r) \<leftarrow> uvmcreate af s;
     case r of None \<Rightarrow> Some (s, None)
     | Some pagetable \<Rightarrow> do {
         (s, r1) \<leftarrow> mappages af s pagetable TRAMPOLINE PGSZ trampoline (PTE_R OR PTE_X) 0;
         if r1 < 0 then do { s \<leftarrow> freewalk 3 s pagetable; Some (s, None) }
         else do {
           (s, r2) \<leftarrow> mappages af s pagetable SIGRETURN PGSZ sigreturn (PTE_R OR PTE_X OR PTE_U) 0;
           if r2 < 0 then do {
             s \<leftarrow> uvmunmap af s pagetable TRAMPOLINE 1 False False;
             s \<leftarrow> freewalk 3 s pagetable;
             Some (s, None) }
           else Some (s, Some pagetable) } } }"

text \<open>The page requested first is never mapped nor released.\<close>

definition uvm_thread_stack :: "(kmem \<Rightarrow> kmem option) \<Rightarrow> kmem \<Rightarrow> nat \<Rightarrow> uint64 \<Rightarrow> (kmem \<times> int) option" where
  "uvm_thread_stack af s pagetable ustack_page = do {
     (s, pa) \<leftarrow> kzalloc af s PGSZ;
     case pa of None \<Rightarrow> Some (s, -1)
     | Some _ \<Rightarrow> do {
         (s, r) \<leftarrow> uvmalloc af s pagetable USTACK (USTACK + ustack_page * PGSZ) (PTE_W OR PTE_R);
         Some (s, if r = 0 then -1 else 0) } }"

text \<open>A null result of \<open>kzalloc\<close> is not checked: it is mapped as physical page 0, and \<open>kfree\<close> of it panics.\<close>

definition uvm_thread_trapframe :: "(kmem \<Rightarrow> kmem option) \<Rightarrow> kmem \<Rightarrow> nat \<Rightarrow> nat \<Rightarrow> (kmem \<times> nat option) option" where
  "uvm_thread_trapframe af s pagetable thread_idx = do {
     (s, r) \<leftarrow> kzalloc af s PGSZ;
     let pa = (case r of None \<Rightarrow> 0 | Some m \<Rightarrow> m);
     (s, r) \<leftarrow> mappages af s pagetable (TRAPFRAME - word_of_nat thread_idx * PGSZ) PGSZ (word_of_nat pa) (PTE_R OR PTE_W) 0;
     if r < 0 then do { s \<leftarrow> kfree s pa; Some (s, None) }
     else Some (s, if pa = 0 then None else Some pa) }"

end
