(* ===== verification/Translation.thy ===== *)
theory Translation
  imports PageTable
begin

text \<open>
  Page tables as trees of pages, and the map from virtual addresses to leaf entries that they
  represent.  \<open>pt_ok\<close> is the invariant of a page table in memory: every table is a page of its own,
  allocated from the page allocator, and no table is reached twice.  The operations of
  \<open>PageTable\<close> are related to the map: \<open>mappages\<close> extends it at exactly the pages named, \<open>uvmunmap\<close>
  removes them, \<open>walkaddr\<close> and \<open>getphyaddr\<close> agree with the address translation of the Sv39 scheme, and
  \<open>copyin\<close> reads the bytes that the map describes.
\<close>

unbundle bit_operations_syntax

subsection \<open>Flags\<close>

lemma has_flag_bit:
  "has_flag e PTE_V \<longleftrightarrow> bit e 0" "has_flag e PTE_R \<longleftrightarrow> bit e 1" "has_flag e PTE_W \<longleftrightarrow> bit e 2" "has_flag e PTE_X \<longleftrightarrow> bit e 3"
  "has_flag e PTE_U \<longleftrightarrow> bit e 4" "has_flag e PTE_D \<longleftrightarrow> bit e 7" "has_flag e PTE_SHARE \<longleftrightarrow> bit e 8"
  "has_flag e PTE_READONLY \<longleftrightarrow> bit e 9"
  by (simp_all only: has_flag_def pte_flag_defs bit_iff_and_push_bit_not_eq_0)

lemma has_flag_0 [simp]: "\<not> has_flag 0 f"
  by (simp add: has_flag_def)

lemma PN_less [simp]: "PN l va < 512"
proof -
  have "drop_bit (12 + 9 * l) va AND mask 9 < 2 ^ 9"
    by (rule and_mask_less_size) (simp add: word_size)
  then show ?thesis
    by (simp add: PN_def mask_numeral word_less_nat_alt)
qed

subsection \<open>Tables\<close>

definition ent :: "kmem \<Rightarrow> nat \<Rightarrow> nat \<Rightarrow> uint64" where
  "ent s a i = ld64 s (a + 8 * i)"

definition nxt :: "uint64 \<Rightarrow> nat" where
  "nxt e = unat (PTE2PA e)"

definition is_ptr :: "uint64 \<Rightarrow> bool" where
  "is_ptr e \<longleftrightarrow> has_flag e PTE_V \<and> \<not> has_flag e PTE_R \<and> \<not> has_flag e PTE_X"

text \<open>The leaf entry for a virtual address below the table \<open>a\<close> of level \<open>l\<close>, with its level.\<close>

fun lkup :: "kmem \<Rightarrow> nat \<Rightarrow> nat \<Rightarrow> uint64 \<Rightarrow> (nat \<times> uint64) option" where
  "lkup s 0 a va = (let e = ent s a (PN 0 va) in if has_flag e PTE_V then Some (0, e) else None)"
| "lkup s (Suc l) a va =
     (let e = ent s a (PN (Suc l) va) in
      if is_ptr e then lkup s l (nxt e) va
      else if has_flag e PTE_V then Some (Suc l, e) else None)"

text \<open>The address of the entry of level \<open>low\<close> for a virtual address, if all tables above it exist.\<close>

fun pte_slot :: "kmem \<Rightarrow> nat \<Rightarrow> nat \<Rightarrow> nat \<Rightarrow> uint64 \<Rightarrow> nat option" where
  "pte_slot s low 0 a va = Some (a + 8 * PN 0 va)"
| "pte_slot s low (Suc l) a va =
     (if Suc l = low then Some (a + 8 * PN (Suc l) va)
      else if is_ptr (ent s a (PN (Suc l) va)) then pte_slot s low l (nxt (ent s a (PN (Suc l) va))) va
      else None)"

fun tabs :: "kmem \<Rightarrow> nat \<Rightarrow> nat \<Rightarrow> nat set" where
  "tabs s 0 a = {a}"
| "tabs s (Suc l) a = insert a (\<Union>i\<in>{i. i < 512 \<and> is_ptr (ent s a i)}. tabs s l (nxt (ent s a i)))"

definition tblpage :: "kmem \<Rightarrow> nat \<Rightarrow> bool" where
  "tblpage s a \<longleftrightarrow> a + PGSIZE \<le> 2 ^ 56 \<and> (\<exists>p. a = page_to_pa p \<and> km_blocks s p = Some 0)"

fun pt_wf :: "kmem \<Rightarrow> nat \<Rightarrow> nat \<Rightarrow> bool" where
  "pt_wf s 0 a \<longleftrightarrow> tblpage s a"
| "pt_wf s (Suc l) a \<longleftrightarrow> tblpage s a \<and>
     (\<forall>i<512. is_ptr (ent s a i) \<longrightarrow> pt_wf s l (nxt (ent s a i)) \<and> a \<notin> tabs s l (nxt (ent s a i))) \<and>
     (\<forall>i<512. \<forall>j<512. i \<noteq> j \<longrightarrow> is_ptr (ent s a i) \<longrightarrow> is_ptr (ent s a j) \<longrightarrow>
        tabs s l (nxt (ent s a i)) \<inter> tabs s l (nxt (ent s a j)) = {})"

text \<open>A page table: a tree of three levels without a leaf at the top level (1GB pages are not supported).\<close>

definition pt_ok :: "kmem \<Rightarrow> nat \<Rightarrow> bool" where
  "pt_ok s root \<longleftrightarrow> pt_wf s 2 root \<and> (\<forall>i<512. has_flag (ent s root i) PTE_V \<longrightarrow> is_ptr (ent s root i))"

lemma tabs_root [simp]: "a \<in> tabs s l a"
  by (cases l) auto

lemma pt_wf_tblpage: "pt_wf s l a \<Longrightarrow> b \<in> tabs s l a \<Longrightarrow> tblpage s b"
  by (induction l arbitrary: a) auto

subsection \<open>Frames\<close>

definition mem_upto :: "nat set \<Rightarrow> kmem \<Rightarrow> kmem \<Rightarrow> bool" where
  "mem_upto D s s' \<longleftrightarrow> (\<forall>d\<in>D. \<exists>q. d = page_to_pa q) \<and> (\<forall>x. (\<forall>d\<in>D. \<not> in_page d x) \<longrightarrow> km_mem s' x = km_mem s x)"

lemma mem_upto_refl [simp]: "mem_upto {} s s"
  by (simp add: mem_upto_def)

lemma mem_upto_page: "mem_upto D s s' \<Longrightarrow> d \<in> D \<Longrightarrow> \<exists>q. d = page_to_pa q"
  by (simp add: mem_upto_def)

lemma mem_upto_mono: "mem_upto D s s' \<Longrightarrow> D \<subseteq> E \<Longrightarrow> (\<forall>d\<in>E. \<exists>q. d = page_to_pa q) \<Longrightarrow> mem_upto E s s'"
  unfolding mem_upto_def by blast

lemma mem_upto_trans: "mem_upto D s s' \<Longrightarrow> mem_upto E s' s'' \<Longrightarrow> mem_upto (D \<union> E) s s''"
  unfolding mem_upto_def by (metis Un_iff)

lemma ent_outside:
  assumes "mem_upto D s s'" "a = page_to_pa p" "a \<notin> D" "i < 512"
  shows "ent s' a i = ent s a i"
  unfolding ent_def
proof (rule ld64_cong)
  fix j :: nat assume j: "j < 8"
  have in_a: "a \<le> a + 8 * i + j" "a + 8 * i + j < a + PGSIZE"
    using j assms(4) by (simp_all add: PGSIZE_def)
  have "\<not> in_page d (a + 8 * i + j)" if d: "d \<in> D" for d
  proof -
    obtain q where q: "d = page_to_pa q" using mem_upto_page [OF assms(1) d] by (elim exE)
    then have "p \<noteq> q" using assms(2,3) d by auto
    then show ?thesis
      using page_to_pa_apart [of p q] in_a q assms(2) by (auto simp: in_page_def)
  qed
  then show "km_mem s' (a + 8 * i + j) = km_mem s (a + 8 * i + j)"
    using assms(1) by (simp add: mem_upto_def)
qed

definition same_ents :: "nat set \<Rightarrow> kmem \<Rightarrow> kmem \<Rightarrow> bool" where
  "same_ents T s s' \<longleftrightarrow> (\<forall>a\<in>T. \<forall>i<512. ent s' a i = ent s a i)"

lemma same_ents_upto:
  assumes "mem_upto D s s'" "T \<inter> D = {}" "\<forall>a\<in>T. tblpage s a"
  shows "same_ents T s s'"
  unfolding same_ents_def
proof (intro ballI allI impI)
  fix a i assume "a \<in> T" "i < (512 :: nat)"
  moreover from this(1) obtain p where "a = page_to_pa p" "a \<notin> D"
    using assms(2,3) unfolding tblpage_def by blast
  ultimately show "ent s' a i = ent s a i"
    using ent_outside [OF assms(1)] by blast
qed

lemma same_ents_sub: "same_ents T s s' \<Longrightarrow> U \<subseteq> T \<Longrightarrow> same_ents U s s'"
  by (auto simp: same_ents_def)

lemma child_tabs: "i < 512 \<Longrightarrow> is_ptr (ent s a i) \<Longrightarrow> tabs s l (nxt (ent s a i)) \<subseteq> tabs s (Suc l) a"
  by auto

lemma frame_tree:
  assumes "same_ents (tabs s l a) s s'"
  shows "tabs s' l a = tabs s l a" "lkup s' l a va = lkup s l a va" "pte_slot s' low l a va = pte_slot s low l a va"
    "\<forall>b\<in>tabs s l a. tblpage s' b \<Longrightarrow> pt_wf s l a \<Longrightarrow> pt_wf s' l a"
proof -
  have *: "tabs s' l a = tabs s l a \<and> lkup s' l a va = lkup s l a va \<and> pte_slot s' low l a va = pte_slot s low l a va \<and>
      ((\<forall>b\<in>tabs s l a. tblpage s' b) \<longrightarrow> pt_wf s l a \<longrightarrow> pt_wf s' l a)"
    using assms
  proof (induction l arbitrary: a)
    case (Suc l)
    have e: "ent s' a i = ent s a i" if "i < 512" for i
      using Suc.prems that by (simp add: same_ents_def)
    have ch: "tabs s' l (nxt (ent s a i)) = tabs s l (nxt (ent s a i)) \<and>
        lkup s' l (nxt (ent s a i)) va = lkup s l (nxt (ent s a i)) va \<and>
        pte_slot s' low l (nxt (ent s a i)) va = pte_slot s low l (nxt (ent s a i)) va \<and>
        ((\<forall>b\<in>tabs s l (nxt (ent s a i)). tblpage s' b) \<longrightarrow> pt_wf s l (nxt (ent s a i)) \<longrightarrow> pt_wf s' l (nxt (ent s a i)))"
      if "i < 512" "is_ptr (ent s a i)" for i
      using Suc.IH [OF same_ents_sub [OF Suc.prems child_tabs [OF that]]] .
    have t: "tabs s' (Suc l) a = tabs s (Suc l) a"
      using e ch by auto
    have k: "lkup s' (Suc l) a va = lkup s (Suc l) a va" "pte_slot s' low (Suc l) a va = pte_slot s low (Suc l) a va"
      using e ch by (auto simp: Let_def)
    have w: "pt_wf s' (Suc l) a" if "\<forall>b\<in>tabs s (Suc l) a. tblpage s' b" "pt_wf s (Suc l) a"
    proof -
      have "tblpage s' a" using that(1) by simp
      moreover have "\<forall>b\<in>tabs s l (nxt (ent s a i)). tblpage s' b" if "i < 512" "is_ptr (ent s a i)" for i
        using child_tabs [OF that] \<open>\<forall>b\<in>tabs s (Suc l) a. tblpage s' b\<close> by blast
      ultimately show ?thesis
        using that(2) e ch by simp
    qed
    show ?case using t k w by blast
  qed (auto simp: same_ents_def Let_def)
  from * show "tabs s' l a = tabs s l a" "lkup s' l a va = lkup s l a va" "pte_slot s' low l a va = pte_slot s low l a va"
    "\<forall>b\<in>tabs s l a. tblpage s' b \<Longrightarrow> pt_wf s l a \<Longrightarrow> pt_wf s' l a" by blast+
qed

text \<open>A change confined to one child of a table (which may gain the fresh tables \<open>F\<close>) is a change of the
  table's subtree that is confined in the same way.\<close>

lemma child_update:
  assumes wf: "pt_wf s (Suc l) a" and i: "i < 512" "is_ptr (ent s a i)" and c: "c = nxt (ent s a i)"
    and m: "mem_upto (tabs s l c \<union> F) s s'" and wf': "pt_wf s' l c" and t': "tabs s' l c = tabs s l c \<union> F"
    and F: "F \<inter> tabs s (Suc l) a = {}" and tp: "\<forall>b\<in>tabs s (Suc l) a. tblpage s' b"
  shows "pt_wf s' (Suc l) a" "tabs s' (Suc l) a = tabs s (Suc l) a \<union> F" "\<forall>j<512. ent s' a j = ent s a j"
    "PN (Suc l) va \<noteq> i \<Longrightarrow> lkup s' (Suc l) a va = lkup s (Suc l) a va"
proof -
  have W: "tblpage s a" "\<And>j. j < 512 \<Longrightarrow> is_ptr (ent s a j) \<Longrightarrow> pt_wf s l (nxt (ent s a j)) \<and> a \<notin> tabs s l (nxt (ent s a j))"
    "\<And>j k. j < 512 \<Longrightarrow> k < 512 \<Longrightarrow> j \<noteq> k \<Longrightarrow> is_ptr (ent s a j) \<Longrightarrow> is_ptr (ent s a k) \<Longrightarrow>
        tabs s l (nxt (ent s a j)) \<inter> tabs s l (nxt (ent s a k)) = {}"
    using wf by auto
  have tps: "tblpage s b" if "b \<in> tabs s (Suc l) a" for b
    using pt_wf_tblpage [OF wf that] .
  have "a \<notin> tabs s l c \<union> F"
    using W(2) [OF i] F c by auto
  then have e: "ent s' a j = ent s a j" if "j < 512" for j
    using ent_outside [OF m _ _ that] W(1) by (auto simp: tblpage_def)
  have other: "same_ents (tabs s l (nxt (ent s a j))) s s'" if j: "j < 512" "is_ptr (ent s a j)" "j \<noteq> i" for j
  proof (rule same_ents_upto [OF m])
    show "tabs s l (nxt (ent s a j)) \<inter> (tabs s l c \<union> F) = {}"
      using W(3) [OF j(1) i(1) j(3,2) i(2)] child_tabs [OF j(1,2)] F c by blast
    show "\<forall>b\<in>tabs s l (nxt (ent s a j)). tblpage s b"
      using child_tabs [OF j(1,2)] tps by blast
  qed
  have o: "tabs s' l (nxt (ent s a j)) = tabs s l (nxt (ent s a j))" "pt_wf s' l (nxt (ent s a j))"
      "lkup s' l (nxt (ent s a j)) va = lkup s l (nxt (ent s a j)) va"
    if j: "j < 512" "is_ptr (ent s a j)" "j \<noteq> i" for j va
    using frame_tree [OF other [OF j]] W(2) [OF j(1,2)] child_tabs [OF j(1,2)] tp by blast+
  have T: "tabs s' l (nxt (ent s a j)) = tabs s l (nxt (ent s a j)) \<union> (if j = i then F else {})"
    if "j < 512" "is_ptr (ent s a j)" for j
    using o(1) [OF that] t' c by auto
  show "\<forall>j<512. ent s' a j = ent s a j" using e by blast
  show "tabs s' (Suc l) a = tabs s (Suc l) a \<union> F"
    using e T i by (auto split: if_splits)
  show "pt_wf s' (Suc l) a"
    unfolding pt_wf.simps
  proof (intro conjI allI impI)
    show "tblpage s' a" using tp by simp
    fix j assume j: "j < (512 :: nat)" "is_ptr (ent s' a j)"
    then have j': "is_ptr (ent s a j)" using e by simp
    show "pt_wf s' l (nxt (ent s' a j))"
      using o(2) [OF j(1) j'] wf' c e [OF j(1)] by (cases "j = i") auto
    show "a \<notin> tabs s' l (nxt (ent s' a j))"
      using T [OF j(1) j'] W(2) [OF j(1) j'] F e [OF j(1)] by (auto split: if_splits)
    fix k assume k: "k < (512 :: nat)" "j \<noteq> k" "is_ptr (ent s' a k)"
    then have k': "is_ptr (ent s a k)" using e by simp
    have "F \<inter> tabs s l (nxt (ent s a j)) = {}" "F \<inter> tabs s l (nxt (ent s a k)) = {}"
      using child_tabs [OF j(1) j'] child_tabs [OF k(1) k'] F by blast+
    then show "tabs s' l (nxt (ent s' a j)) \<inter> tabs s' l (nxt (ent s' a k)) = {}"
      using T [OF j(1) j'] T [OF k(1) k'] W(3) [OF j(1) k(1,2) j' k'] e [OF j(1)] e [OF k(1)] k(2)
      by (auto split: if_splits)
  qed
  show "lkup s' (Suc l) a va = lkup s (Suc l) a va" if "PN (Suc l) va \<noteq> i"
    using that e o(3) by (auto simp: Let_def)
qed

text \<open>Storing an entry at a pte_slot.\<close>

definition same_vpn :: "nat \<Rightarrow> nat \<Rightarrow> uint64 \<Rightarrow> uint64 \<Rightarrow> bool" where
  "same_vpn low l va va' \<longleftrightarrow> (\<forall>k\<in>{low..l}. PN k va = PN k va')"

lemma st64_upto: "a = page_to_pa p \<Longrightarrow> i < 512 \<Longrightarrow> mem_upto {a} s (st64 s (a + 8 * i) e)"
  by (auto simp: mem_upto_def st64_def in_page_def PGSIZE_def)

lemma ent_st64:
  assumes "i < 512" "j < 512"
  shows "ent (st64 s (a + 8 * i) e) a j = (if j = i then e else ent s a j)"
proof (cases "j = i")
  case False
  then have "Suc j \<le> i \<or> Suc i \<le> j" by linarith
  then show ?thesis
    using False by (auto simp: ent_def intro!: ld64_st64_other)
qed (simp add: ent_def)

lemma tblpage_st64 [simp]: "tblpage (st64 s q e) a = tblpage s a"
  by (simp add: tblpage_def)

text \<open>A change of the table page \<open>a\<close> only, at an entry that neither was nor becomes a pointer.\<close>

lemma own_entry_update:
  assumes wf: "pt_wf s (Suc l) a" and i: "i < 512" and n: "\<not> is_ptr (ent s a i)" "\<not> is_ptr e"
  defines "s' \<equiv> st64 s (a + 8 * i) e"
  shows "pt_wf s' (Suc l) a" "tabs s' (Suc l) a = tabs s (Suc l) a"
    "lkup s' (Suc l) a va = (if PN (Suc l) va = i then (if has_flag e PTE_V then Some (Suc l, e) else None) else lkup s (Suc l) a va)"
proof -
  obtain p where p: "a = page_to_pa p" using wf by (auto simp: tblpage_def)
  have m: "mem_upto {a} s s'" unfolding s'_def by (rule st64_upto [OF p i])
  have e: "ent s' a j = (if j = i then e else ent s a j)" if "j < 512" for j
    unfolding s'_def by (rule ent_st64 [OF i that])
  have ptr: "is_ptr (ent s' a j) = is_ptr (ent s a j)" if "j < 512" for j
    using e [OF that] n by simp
  have o: "tabs s' l (nxt (ent s a j)) = tabs s l (nxt (ent s a j))" "pt_wf s' l (nxt (ent s a j))"
      "lkup s' l (nxt (ent s a j)) va = lkup s l (nxt (ent s a j)) va"
    if j: "j < 512" "is_ptr (ent s a j)" for j va
  proof -
    have "a \<notin> tabs s l (nxt (ent s a j))" "pt_wf s l (nxt (ent s a j))" using wf j by auto
    moreover from this(2) have "\<forall>b\<in>tabs s l (nxt (ent s a j)). tblpage s b"
      using pt_wf_tblpage by blast
    ultimately have f: "same_ents (tabs s l (nxt (ent s a j))) s s'"
      by (intro same_ents_upto [OF m]) auto
    show "tabs s' l (nxt (ent s a j)) = tabs s l (nxt (ent s a j))" "pt_wf s' l (nxt (ent s a j))"
      "lkup s' l (nxt (ent s a j)) va = lkup s l (nxt (ent s a j)) va"
      using frame_tree [OF f] \<open>pt_wf s l (nxt (ent s a j))\<close> \<open>\<forall>b\<in>tabs s l (nxt (ent s a j)). tblpage s b\<close>
      by (simp_all add: s'_def)
  qed
  have ne: "is_ptr (ent s a j) \<Longrightarrow> j \<noteq> i" for j using n(1) by auto
  show "tabs s' (Suc l) a = tabs s (Suc l) a"
    using ptr e o(1) ne by auto
  have "tblpage s' a" using wf by (simp add: s'_def)
  then show "pt_wf s' (Suc l) a"
    using wf ptr e o(1,2) ne by simp
  show "lkup s' (Suc l) a va = (if PN (Suc l) va = i then (if has_flag e PTE_V then Some (Suc l, e) else None) else lkup s (Suc l) a va)"
    using ptr e o(3) n by (auto simp: Let_def)
qed

definition stored :: "nat \<Rightarrow> uint64 \<Rightarrow> (nat \<times> uint64) option" where
  "stored low e = (if has_flag e PTE_V then Some (low, e) else None)"

lemma store_slot:
  assumes "pt_wf s l a" "pte_slot s low l a va = Some q" "low \<le> l" "low = 0 \<or> \<not> is_ptr (ld64 s q) \<and> \<not> is_ptr e"
  shows "pt_wf (st64 s q e) l a \<and> tabs (st64 s q e) l a = tabs s l a \<and> mem_upto (tabs s l a) s (st64 s q e) \<and>
    (\<forall>va'. lkup (st64 s q e) l a va' = (if same_vpn low l va va' then stored low e else lkup s l a va')) \<and>
    (low < l \<longrightarrow> (\<forall>j<512. ent (st64 s q e) a j = ent s a j))"
  using assms
proof (induction l arbitrary: a)
  case 0
  obtain p where p: "a = page_to_pa p" using 0 by (auto simp: tblpage_def)
  have q: "q = a + 8 * PN 0 va" using 0 by simp
  have "mem_upto {a} s (st64 s q e)"
    unfolding q by (rule st64_upto [OF p PN_less])
  moreover have "ent (st64 s q e) a j = (if j = PN 0 va then e else ent s a j)" if "j < 512" for j
    unfolding q by (rule ent_st64 [OF PN_less that])
  ultimately show ?case
    using 0 by (auto simp: same_vpn_def Let_def stored_def)
next
  case (Suc l)
  let ?i = "PN (Suc l) va" and ?s' = "st64 s q e"
  obtain p where p: "a = page_to_pa p" using Suc.prems(1) by (auto simp: tblpage_def)
  have pages: "\<forall>d\<in>tabs s (Suc l) a. \<exists>q. d = page_to_pa q"
    using pt_wf_tblpage [OF Suc.prems(1)] unfolding tblpage_def by blast
  show ?case
  proof (cases "low = Suc l")
    case True
    then have q: "q = a + 8 * ?i" using Suc.prems(2) by simp
    have n: "\<not> is_ptr (ent s a ?i)" "\<not> is_ptr e"
      using Suc.prems(4) True q by (simp_all add: ent_def)
    note u = own_entry_update [OF Suc.prems(1) PN_less n]
    have "same_vpn low (Suc l) va va' \<longleftrightarrow> PN (Suc l) va' = ?i" for va'
      by (auto simp: same_vpn_def True)
    then show ?thesis
      using u q mem_upto_mono [OF st64_upto [OF p PN_less] _ pages] True by (auto simp: stored_def)
  next
    case False
    let ?c = "nxt (ent s a ?i)"
    have low: "low \<le> l" using Suc.prems(3) False by simp
    have ptr: "is_ptr (ent s a ?i)" and sl: "pte_slot s low l ?c va = Some q"
      using Suc.prems(2) False by (auto split: if_splits)
    have wc: "pt_wf s l ?c" using Suc.prems(1) ptr by simp
    from Suc.IH [OF wc sl low Suc.prems(4)]
    have IH: "pt_wf ?s' l ?c" "tabs ?s' l ?c = tabs s l ?c" "mem_upto (tabs s l ?c) s ?s'"
      "\<And>va'. lkup ?s' l ?c va' = (if same_vpn low l va va' then stored low e else lkup s l ?c va')"
      by auto
    have tp: "\<forall>b\<in>tabs s (Suc l) a. tblpage ?s' b"
      using pt_wf_tblpage [OF Suc.prems(1)] by auto
    have IH': "mem_upto (tabs s l ?c \<union> {}) s ?s'" "tabs ?s' l ?c = tabs s l ?c \<union> {}" "{} \<inter> tabs s (Suc l) a = {}"
      using IH by simp_all
    note u = child_update [OF Suc.prems(1) PN_less ptr refl IH'(1) IH(1) IH'(2,3) tp]
    have "lkup ?s' (Suc l) a va' = (if same_vpn low (Suc l) va va' then stored low e else lkup s (Suc l) a va')" for va'
    proof (cases "PN (Suc l) va' = ?i")
      case True
      have "same_vpn low (Suc l) va va' \<longleftrightarrow> same_vpn low l va va'"
        using True low by (auto simp: same_vpn_def le_Suc_eq)
      then show ?thesis
        using u(3) True ptr IH(4) by simp
    next
      case False
      then have "\<not> same_vpn low (Suc l) va va'"
        using low by (force simp: same_vpn_def)
      then show ?thesis using u(4) [OF False] by simp
    qed
    then show ?thesis
      using u(1,2,3) mem_upto_mono [OF IH(3) child_tabs [OF PN_less ptr] pages] by simp
  qed
qed

subsection \<open>New tables\<close>

lemma PTE2PA_PA2PTE:
  assumes "take_bit 12 w = 0" "take_bit 10 f = f"
  shows "PTE2PA (PA2PTE w OR f) = w"
proof (rule bit_eqI)
  fix n
  have f: "\<not> bit f m" if "10 \<le> m" for m
    using that assms(2) by (metis bit_take_bit_iff not_less)
  have w: "\<not> bit w n" if "n < 12"
    using that assms(1) by (metis bit_take_bit_iff bit_0_eq bot_apply bot_bool_def)
  show "bit (PTE2PA (PA2PTE w OR f)) n = bit w n"
  proof (cases "n < 12")
    case False
    then obtain m where "n = 12 + m" using le_Suc_ex not_less by blast
    then show ?thesis
      using f [of "10 + m"] bit_imp_le_length [of w n] by (auto simp: PTE2PA_def PA2PTE_def bit_simps)
  qed (use w in \<open>simp add: PTE2PA_def bit_simps\<close>)
qed

lemma take_bit_page: "take_bit 12 (word_of_nat (page_to_pa p) :: uint64) = 0"
proof -
  have "page_to_pa p = 4096 * (p + 534528)"
    by (simp add: page_to_pa_def PGSIZE_def START_MEM_def)
  then have "word_of_nat (page_to_pa p) = push_bit 12 (word_of_nat (p + 534528) :: uint64)"
    by (simp add: push_bit_eq_mult algebra_simps)
  then show ?thesis
    by (simp add: take_bit_push_bit)
qed

lemma pte_ptr:
  assumes "page_to_pa p < 2 ^ 64"
  shows "is_ptr (PA2PTE (word_of_nat (page_to_pa p)) OR PTE_V)"
    "nxt (PA2PTE (word_of_nat (page_to_pa p)) OR PTE_V) = page_to_pa p"
proof -
  show "is_ptr (PA2PTE (word_of_nat (page_to_pa p)) OR PTE_V)"
    unfolding is_ptr_def has_flag_bit by (simp add: PA2PTE_def PTE_V_def bit_simps)
  have "take_bit 10 PTE_V = PTE_V"
    by (simp add: PTE_V_def)
  then show "nxt (PA2PTE (word_of_nat (page_to_pa p)) OR PTE_V) = page_to_pa p"
    using assms by (simp add: nxt_def PTE2PA_PA2PTE take_bit_page unat_of_nat)
qed

lemma zero_table:
  assumes "\<forall>j<512. ent s c j = 0"
  shows "tabs s l c = {c}" "lkup s l c va = None" "tblpage s c \<Longrightarrow> pt_wf s l c"
proof -
  have z: "\<not> is_ptr (ent s c j)" "\<not> has_flag (ent s c j) PTE_V" if "j < 512" for j
    using assms that by (simp_all add: is_ptr_def)
  show "tabs s l c = {c}" by (cases l) (auto simp: z)
  show "lkup s l c va = None" by (cases l) (simp_all add: z)
  show "tblpage s c \<Longrightarrow> pt_wf s l c" by (cases l) (auto simp: z)
qed

definition mem_small :: "kmem \<Rightarrow> bool" where
  "mem_small s \<longleftrightarrow> page_to_pa (km_total s) \<le> 2 ^ 56"

text \<open>\<open>ext tot T F s s'\<close>: from \<open>s\<close> to \<open>s'\<close> only the pages \<open>T\<close> were written and the fresh pages \<open>F\<close> were taken
  from the allocator.\<close>

definition ext :: "int \<Rightarrow> nat set \<Rightarrow> nat set \<Rightarrow> kmem \<Rightarrow> kmem \<Rightarrow> bool" where
  "ext tot T F s s' \<longleftrightarrow> kmem_inv tot s' \<and> km_total s' = km_total s \<and> km_recycling s' = km_recycling s \<and>
     same_cpu (km_cpu s) (km_cpu s') \<and> mem_upto (T \<union> F) s s' \<and> finite F \<and> km_cnt s' = km_cnt s - int (card F) \<and>
     (\<forall>a\<in>F. \<exists>p<km_total s. a = page_to_pa p \<and> km_blocks s p = None) \<and>
     km_blocks s' = (\<lambda>p. if page_to_pa p \<in> F then Some 0 else km_blocks s p) \<and>
     (\<forall>q<km_total s. page_to_pa q \<notin> F \<longrightarrow> refcnt (km_pages s' ! q) = refcnt (km_pages s ! q)) \<and>
     (\<forall>q<km_total s. page_to_pa q \<in> F \<longrightarrow> refcnt (km_pages s' ! q) = 1)"

lemma ext_fresh: "ext tot T F s s' \<Longrightarrow> tblpage s b \<Longrightarrow> b \<notin> F"
  by (auto simp: ext_def tblpage_def)

lemma ext_tblpage: "ext tot T F s s' \<Longrightarrow> tblpage s b \<Longrightarrow> tblpage s' b"
  by (auto simp: ext_def tblpage_def)

lemma ext_quiet: "ext tot T F s s' \<Longrightarrow> quiet (card F + n) s \<Longrightarrow> quiet n s'"
  by (auto simp: ext_def quiet_def)

lemma ext_small: "ext tot T F s s' \<Longrightarrow> mem_small s' = mem_small s"
  by (simp add: ext_def mem_small_def)

lemma ext_upto: "ext tot T F s s' \<Longrightarrow> mem_upto (T \<union> F) s s'"
  by (simp add: ext_def)

lemma ext_refl: "kmem_inv tot s \<Longrightarrow> \<forall>d\<in>T. \<exists>q. d = page_to_pa q \<Longrightarrow> ext tot T {} s s"
  by (simp add: ext_def mem_upto_def)

lemma ext_mono: "ext tot T F s s' \<Longrightarrow> T \<subseteq> U \<Longrightarrow> \<forall>d\<in>U. \<exists>q. d = page_to_pa q \<Longrightarrow> ext tot U F s s'"
proof -
  assume e: "ext tot T F s s'" and U: "T \<subseteq> U" "\<forall>d\<in>U. \<exists>q. d = page_to_pa q"
  have "\<forall>d\<in>U \<union> F. \<exists>q. d = page_to_pa q"
    using U(2) mem_upto_page [OF ext_upto [OF e]] by blast
  then have "mem_upto (U \<union> F) s s'"
    using mem_upto_mono [OF ext_upto [OF e], of "U \<union> F"] U(1) by blast
  then show ?thesis using e by (simp add: ext_def)
qed

lemma ext_trans:
  assumes 1: "ext tot T F s s1" and 2: "ext tot T1 F1 s1 s2" and T1: "T1 \<subseteq> T \<union> F"
  shows "ext tot T (F \<union> F1) s s2"
proof -
  have "F \<inter> F1 = {}"
    using 1 2 by (auto simp: ext_def split: if_splits)
  then have c: "card (F \<union> F1) = card F + card F1"
    using 1 2 by (intro card_Un_disjoint) (simp_all add: ext_def)
  have "T \<union> F \<union> (T1 \<union> F1) = T \<union> (F \<union> F1)" using T1 by blast
  then have m: "mem_upto (T \<union> (F \<union> F1)) s s2"
    using mem_upto_trans [OF ext_upto [OF 1] ext_upto [OF 2]] by simp
  have f: "\<exists>p<km_total s. a = page_to_pa p \<and> km_blocks s p = None" if "a \<in> F \<union> F1" for a
    using that 1 2 by (auto simp: ext_def split: if_splits)
  have r: "page_to_pa q \<in> F \<Longrightarrow> page_to_pa q \<notin> F1" for q
    using \<open>F \<inter> F1 = {}\<close> by blast
  show ?thesis
    unfolding ext_def
  proof (intro conjI)
    show "same_cpu (km_cpu s) (km_cpu s2)"
      using 1 2 same_cpu_trans unfolding ext_def by blast
    show "\<forall>a\<in>F \<union> F1. \<exists>p<km_total s. a = page_to_pa p \<and> km_blocks s p = None" using f by blast
  qed (use 1 2 m c r in \<open>auto simp: ext_def\<close>)
qed

lemma kzalloc_ext:
  assumes "kmem_inv tot s" "quiet 1 s"
  shows "\<exists>s' r. kzalloc af s PGSZ = Some (s', r) \<and> ext tot {} (set_option r) s s' \<and>
    (r = None \<longrightarrow> exhausted tot s') \<and>
    (\<forall>c. r = Some c \<longrightarrow> (\<exists>p<km_total s. c = page_to_pa p) \<and> (\<forall>j<512. ent s' c j = 0))"
proof -
  obtain s' r where k: "kzalloc af s (word_of_nat PGSIZE) = Some (s', r)" "page_grant tot 0 s r s'"
    "\<forall>x. km_mem s' x = (if (\<exists>a. r = Some a \<and> in_page a x) then 0 else km_mem s x)"
    using kzalloc_page [OF assms] by blast
  have "ext tot {} (set_option r) s s'"
  proof (cases r)
    case None
    then show ?thesis using k(2,3) by (simp add: page_grant_def ext_def mem_upto_def)
  next
    case (Some c)
    then obtain p where p: "c = page_to_pa p" "km_blocks s p = None" "p < km_total s"
      "km_blocks s' = (km_blocks s)(p \<mapsto> 0)" "km_cnt s' = km_cnt s - 1" "refcnt (km_pages s' ! p) = 1"
      "\<forall>q<km_total s. q \<noteq> p \<longrightarrow> refcnt (km_pages s' ! q) = refcnt (km_pages s ! q)"
      using k(2) by (auto simp: page_grant_def)
    have "mem_upto {c} s s'"
      using k(3) Some p(1) by (auto simp: mem_upto_def)
    then show ?thesis
      using k(2) Some p by (auto simp: page_grant_def ext_def)
  qed
  moreover have "(\<exists>p<km_total s. c = page_to_pa p) \<and> (\<forall>j<512. ent s' c j = 0)" if "r = Some c" for c
  proof
    show "\<exists>p<km_total s. c = page_to_pa p"
      using k(2) that by (auto simp: page_grant_def)
    show "\<forall>j<512. ent s' c j = 0"
      using k(3) that by (auto simp: ent_def in_page_def PGSIZE_def intro!: ld64_zero)
  qed
  moreover have "exhausted tot s'" if "r = None"
    using no_page_exhausted [OF assms(1)] k(2) that by (simp add: page_grant_def exhausted_def)
  ultimately show ?thesis
    using k(1) by (auto simp: PGSZ_def)
qed

lemma fresh_table:
  assumes wf: "pt_wf s (Suc l) a" and i: "i < 512" and n: "\<not> has_flag (ent s a i) PTE_V"
    and e1: "ext tot {} {c} s s1" and c: "c = page_to_pa p" "p < km_total s" "\<forall>j<512. ent s1 c j = 0" and small: "mem_small s"
  defines "s2 \<equiv> st64 s1 (a + 8 * i) (PA2PTE (word_of_nat c) OR PTE_V)"
  shows "ext tot {a} {c} s s2" "pt_wf s2 (Suc l) a" "tabs s2 (Suc l) a = insert c (tabs s (Suc l) a)"
    "lkup s2 (Suc l) a va = lkup s (Suc l) a va" "pt_wf s2 l c" "tabs s2 l c = {c}" "\<And>va. lkup s2 l c va = None"
    "\<And>j. j < 512 \<Longrightarrow> ent s2 a j = (if j = i then PA2PTE (word_of_nat c) OR PTE_V else ent s a j)"
    "is_ptr (ent s2 a i)" "nxt (ent s2 a i) = c"
proof -
  let ?P = "PA2PTE (word_of_nat c) OR PTE_V"
  have "page_to_pa p + PGSIZE \<le> page_to_pa (km_total s)"
    using mult_le_mono1 [of "Suc p" "km_total s" PGSIZE] c(2) by (simp add: page_to_pa_def)
  then have cb: "c + PGSIZE \<le> 2 ^ 56"
    using small c(1) by (simp add: mem_small_def)
  then have P: "is_ptr ?P" "nxt ?P = c"
    using pte_ptr [of p] c(1) by simp_all
  obtain pa where pa: "a = page_to_pa pa" using wf by (auto simp: tblpage_def)
  have tps: "tblpage s b" if "b \<in> tabs s (Suc l) a" for b
    using pt_wf_tblpage [OF wf that] .
  have fresh: "c \<notin> tabs s (Suc l) a"
    using ext_fresh [OF e1 tps] by blast
  then have ca: "c \<noteq> a" by auto
  have m2: "mem_upto {a} s1 s2"
    unfolding s2_def by (rule st64_upto [OF pa i])
  have m: "mem_upto {a, c} s s2"
    using mem_upto_trans [OF ext_upto [OF e1] m2] by (simp add: insert_commute)
  show ext: "ext tot {a} {c} s s2"
    using e1 m by (simp add: ext_def s2_def insert_commute)
  have z: "\<forall>j<512. ent s2 c j = 0"
    using ent_outside [OF m2 c(1)] c(3) ca by simp
  have tc: "tblpage s2 c"
    using e1 cb c(1) by (auto simp: tblpage_def ext_def s2_def)
  show zt: "tabs s2 l c = {c}" "\<And>va. lkup s2 l c va = None" "pt_wf s2 l c"
    using zero_table [OF z] tc by auto
  have e: "ent s2 a j = (if j = i then ?P else ent s a j)" if "j < 512" for j
    using ent_st64 [OF i that, of s1 a ?P] ent_outside [OF ext_upto [OF e1] pa _ that] ca unfolding s2_def by simp
  then show "\<And>j. j < 512 \<Longrightarrow> ent s2 a j = (if j = i then ?P else ent s a j)" .
  show "is_ptr (ent s2 a i)" "nxt (ent s2 a i) = c" using e [OF i] P by simp_all
  have ni: "is_ptr (ent s a j) \<Longrightarrow> j \<noteq> i" for j using n by (auto simp: is_ptr_def)
  have o: "tabs s2 l (nxt (ent s a j)) = tabs s l (nxt (ent s a j))" "pt_wf s2 l (nxt (ent s a j))"
      "lkup s2 l (nxt (ent s a j)) va = lkup s l (nxt (ent s a j)) va" "c \<notin> tabs s l (nxt (ent s a j))"
    if j: "j < 512" "is_ptr (ent s a j)" for j va
  proof -
    have sub: "a \<notin> tabs s l (nxt (ent s a j))" "pt_wf s l (nxt (ent s a j))" using wf j by auto
    show cn: "c \<notin> tabs s l (nxt (ent s a j))"
      using fresh child_tabs [OF j] by blast
    have tp: "\<forall>b\<in>tabs s l (nxt (ent s a j)). tblpage s b"
      using child_tabs [OF j] tps by blast
    have f: "same_ents (tabs s l (nxt (ent s a j))) s s2"
      using sub(1) cn tp by (intro same_ents_upto [OF m]) auto
    show "tabs s2 l (nxt (ent s a j)) = tabs s l (nxt (ent s a j))" "pt_wf s2 l (nxt (ent s a j))"
      "lkup s2 l (nxt (ent s a j)) va = lkup s l (nxt (ent s a j)) va"
      using frame_tree [OF f] sub(2) tp ext_tblpage [OF ext] by blast+
  qed
  have ptr: "is_ptr (ent s2 a j) \<longleftrightarrow> j = i \<or> is_ptr (ent s a j)" if "j < 512" for j
    using e [OF that] P by simp
  have T: "tabs s2 l (nxt (ent s2 a j)) = (if j = i then {c} else tabs s l (nxt (ent s a j)))"
    if "j < 512" "is_ptr (ent s2 a j)" for j
    using that e ptr o(1) P zt by auto
  show "tabs s2 (Suc l) a = insert c (tabs s (Suc l) a)"
  proof -
    have I: "{j. j < 512 \<and> is_ptr (ent s2 a j)} = insert i {j. j < 512 \<and> is_ptr (ent s a j)}"
      using ptr i by auto
    have "(\<Union>j\<in>{j. j < 512 \<and> is_ptr (ent s a j)}. tabs s2 l (nxt (ent s2 a j))) =
        (\<Union>j\<in>{j. j < 512 \<and> is_ptr (ent s a j)}. tabs s l (nxt (ent s a j)))"
    proof (rule SUP_cong [OF refl])
      fix j assume "j \<in> {j. j < 512 \<and> is_ptr (ent s a j)}"
      then show "tabs s2 l (nxt (ent s2 a j)) = tabs s l (nxt (ent s a j))"
        using T [of j] ptr [of j] ni [of j] by simp
    qed
    moreover have "tabs s2 l (nxt (ent s2 a i)) = {c}"
      using T [OF i] ptr [OF i] by simp
    ultimately show ?thesis
      unfolding tabs.simps I UN_insert by auto
  qed
  show "pt_wf s2 (Suc l) a"
    unfolding pt_wf.simps
  proof (intro conjI allI impI)
    show "tblpage s2 a" using ext_tblpage [OF ext] wf by simp
    fix j assume j: "j < (512 :: nat)" "is_ptr (ent s2 a j)"
    show "pt_wf s2 l (nxt (ent s2 a j))"
      using j e ptr o(2) P zt(3) by auto
    show "a \<notin> tabs s2 l (nxt (ent s2 a j))"
      using T [OF j] ptr [OF j(1)] j ca wf by (auto split: if_splits)
    fix k assume k: "k < (512 :: nat)" "j \<noteq> k" "is_ptr (ent s2 a k)"
    show "tabs s2 l (nxt (ent s2 a j)) \<inter> tabs s2 l (nxt (ent s2 a k)) = {}"
    proof -
      have "tabs s l (nxt (ent s a j)) \<inter> tabs s l (nxt (ent s a k)) = {}" if "is_ptr (ent s a j)" "is_ptr (ent s a k)"
        using wf j(1) k(1,2) that unfolding pt_wf.simps by blast
      then show ?thesis
        unfolding T [OF j] T [OF k(1,3)] using j k ptr [OF j(1)] ptr [OF k(1)] o(4) by auto
    qed
  qed
  show "lkup s2 (Suc l) a va = lkup s (Suc l) a va"
    using e ptr o(3) ni n P zt by (auto simp: Let_def)
qed

subsection \<open>The walk\<close>

text \<open>What \<open>walk\<close> with \<open>alloc\<close> does: it adds empty tables on the way down (none of which changes any
  translation) and ends at the pte_slot for the address, at a 2MB leaf that covers it, or out of memory.\<close>

definition walked :: "int \<Rightarrow> nat \<Rightarrow> nat \<Rightarrow> uint64 \<Rightarrow> kmem \<Rightarrow> nat \<Rightarrow> nat set \<Rightarrow> kmem \<Rightarrow> int \<Rightarrow> nat option \<Rightarrow> bool" where
  "walked tot low l va s a F s' lev q \<longleftrightarrow> ext tot (tabs s l a) F s s' \<and> card F \<le> l \<and> pt_wf s' l a \<and>
     tabs s' l a = tabs s l a \<union> F \<and> (\<forall>va'. lkup s' l a va' = lkup s l a va') \<and>
     (\<forall>i<512. \<not> is_ptr (ent s' a i) \<longrightarrow> ent s' a i = ent s a i) \<and>
     (case q of None \<Rightarrow> lev = -1 \<and> exhausted tot s'
      | Some q \<Rightarrow> lev = 0 \<and> pte_slot s' low l a va = Some q \<or>
          lev = 1 \<and> low = 0 \<and> lkup s' l a va = Some (1, ld64 s' q))"

lemma tree_pages: "pt_wf s l a \<Longrightarrow> \<forall>d\<in>tabs s l a. \<exists>q. d = page_to_pa q"
  using pt_wf_tblpage unfolding tblpage_def by blast

lemma walked_stay:
  assumes "pt_wf s l a" "kmem_inv tot s"
    "lev = 0 \<and> pte_slot s low l a va = Some q \<or> lev = 1 \<and> low = 0 \<and> lkup s l a va = Some (1, ld64 s q)"
  shows "walked tot low l va s a {} s lev (Some q)"
  using assms ext_refl [OF assms(2) tree_pages [OF assms(1)]] by (simp add: walked_def)

lemma walked_child:
  assumes wf: "pt_wf s (Suc l) a" and p: "is_ptr (ent s a (PN (Suc l) va))" and low: "low \<le> l"
    and w: "walked tot low l va s (nxt (ent s a (PN (Suc l) va))) F s' lev q"
  shows "walked tot low (Suc l) va s a F s' lev q"
proof -
  let ?i = "PN (Suc l) va"
  let ?c = "nxt (ent s a ?i)"
  have W: "ext tot (tabs s l ?c) F s s'" "card F \<le> l" "pt_wf s' l ?c" "tabs s' l ?c = tabs s l ?c \<union> F"
    "\<forall>va'. lkup s' l ?c va' = lkup s l ?c va'"
    "case q of None \<Rightarrow> lev = -1 \<and> exhausted tot s' | Some q \<Rightarrow> lev = 0 \<and> pte_slot s' low l ?c va = Some q \<or>
       lev = 1 \<and> low = 0 \<and> lkup s' l ?c va = Some (1, ld64 s' q)"
    using w unfolding walked_def by auto
  have tps: "tblpage s b" if "b \<in> tabs s (Suc l) a" for b
    using pt_wf_tblpage [OF wf that] .
  have F: "F \<inter> tabs s (Suc l) a = {}"
    using ext_fresh [OF W(1) tps] by blast
  have tp: "\<forall>b\<in>tabs s (Suc l) a. tblpage s' b"
    using ext_tblpage [OF W(1) tps] by blast
  note u = child_update [OF wf PN_less p refl ext_upto [OF W(1)] W(3,4) F tp]
  have e: "ent s' a ?i = ent s a ?i" using u(3) by simp
  have k: "lkup s' (Suc l) a va' = lkup s (Suc l) a va'" for va'
  proof (cases "PN (Suc l) va' = ?i")
    case True
    then show ?thesis using e p W(5) by simp
  qed (rule u(4))
  have sl: "pte_slot s' low (Suc l) a va = pte_slot s' low l ?c va" "lkup s' (Suc l) a va = lkup s' l ?c va"
    using e p low by simp_all
  show ?thesis
    unfolding walked_def sl
    using ext_mono [OF W(1) child_tabs [OF PN_less p] tree_pages [OF wf]] W(2,6) u(1,2,3) k sl(2)
    by (auto split: option.splits)
qed

lemma walk_loop_spec:
  assumes "pt_wf s l a" "kmem_inv tot s" "quiet l s" "mem_small s" "low \<le> l"
    "\<forall>i<512. 2 \<le> l \<longrightarrow> has_flag (ent s a i) PTE_V \<longrightarrow> is_ptr (ent s a i)" "l \<le> 2"
  shows "\<exists>s' lev q F. walk_loop af va True low l s a = Some (s', lev, q) \<and> walked tot low l va s a F s' lev q"
  using assms
proof (induction l arbitrary: s a)
  case 0
  then show ?case
    using walked_stay [of s 0 a tot 0 low va "a + 8 * PN 0 va"] by (auto simp: walk_loop.simps)
next
  case (Suc l)
  let ?i = "PN (Suc l) va"
  let ?e = "ent s a ?i"
  show ?case
  proof (cases "low = Suc l")
    case True
    then show ?thesis
      using walked_stay [OF Suc.prems(1,2), of 0 low va "a + 8 * PN (Suc l) va"] by (auto simp: walk_loop.simps)
  next
    case False
    then have low: "low \<le> l" using Suc.prems(5) by simp
    consider "is_ptr ?e" | "has_flag ?e PTE_V" "\<not> is_ptr ?e" | "\<not> has_flag ?e PTE_V" by blast
    then show ?thesis
    proof cases
      case 1
      have "pt_wf s l (nxt ?e)" "quiet l s" "l < 2"
        using Suc.prems(1,7) 1 quiet_mono [OF Suc.prems(3)] by simp_all
      then obtain s' lev q F where w: "walk_loop af va True low l s (nxt ?e) = Some (s', lev, q)"
        "walked tot low l va s (nxt ?e) F s' lev q"
        using Suc.IH [of s "nxt ?e"] Suc.prems(2,4) low by fastforce
      have "walk_loop af va True low (Suc l) s a = Some (s', lev, q)"
        using w(1) 1 low by (subst walk_loop.simps) (simp add: ent_def nxt_def is_ptr_def)
      then show ?thesis
        using walked_child [OF Suc.prems(1) 1 low w(2)] by blast
    next
      case 2
      then have l0: "l = 0" using Suc.prems(6,7) by (cases l) auto
      have "walk_loop af va True low (Suc l) s a = Some (s, 1, Some (a + 8 * ?i))"
        using 2 low l0 by (subst walk_loop.simps) (simp add: ent_def is_ptr_def)
      moreover have "walked tot low (Suc l) va s a {} s 1 (Some (a + 8 * ?i))"
        using 2 low l0 by (intro walked_stay [OF Suc.prems(1,2)]) (simp add: ent_def)
      ultimately show ?thesis by blast
    next
      case 3
      have q1: "quiet 1 s" using quiet_mono [OF Suc.prems(3)] by simp
      obtain s1 r where k: "kzalloc af s PGSZ = Some (s1, r)" "ext tot {} (set_option r) s s1"
        "r = None \<longrightarrow> exhausted tot s1" "\<forall>c. r = Some c \<longrightarrow> (\<exists>p<km_total s. c = page_to_pa p) \<and> (\<forall>j<512. ent s1 c j = 0)"
        using kzalloc_ext [OF Suc.prems(2) q1] by blast
      show ?thesis
      proof (cases r)
        case None
        have m: "same_ents (tabs s (Suc l) a) s s1"
          using k(2) None pt_wf_tblpage [OF Suc.prems(1)]
          by (intro same_ents_upto [OF ext_upto [OF k(2)]]) auto
        have "pt_wf s1 (Suc l) a"
          using frame_tree(4) [OF m _ Suc.prems(1)] ext_tblpage [OF k(2)] pt_wf_tblpage [OF Suc.prems(1)] by blast
        then have "walked tot low (Suc l) va s a {} s1 (-1) None"
          using frame_tree(1,2) [OF m] ext_mono [OF k(2) _ tree_pages [OF Suc.prems(1)]] None m k(3)
          by (simp add: walked_def same_ents_def del: tabs.simps lkup.simps pt_wf.simps)
        moreover have "walk_loop af va True low (Suc l) s a = Some (s1, -1, None)"
          using 3 low k(1) None by (subst walk_loop.simps) (simp add: ent_def)
        ultimately show ?thesis by blast
      next
        case (Some c)
        then obtain p where p: "c = page_to_pa p" "p < km_total s" "\<forall>j<512. ent s1 c j = 0"
          using k(4) by blast
        have e1: "ext tot {} {c} s s1" using k(2) Some by simp
        define s2 where "s2 = st64 s1 (a + 8 * ?i) (PA2PTE (word_of_nat c) OR PTE_V)"
        note f = fresh_table [OF Suc.prems(1) PN_less 3 e1 p Suc.prems(4), folded s2_def]
        have "quiet (card {c} + l) s" using Suc.prems(3) by simp
        then have pre: "quiet l s2" "kmem_inv tot s2" "mem_small s2" "l < 2"
          using ext_quiet [OF f(1)] f(1) ext_small [OF f(1)] Suc.prems(4,7) by (simp_all add: ext_def)
        obtain s' lev q F where w: "walk_loop af va True low l s2 c = Some (s', lev, q)"
          "walked tot low l va s2 c F s' lev q"
          using Suc.IH [OF f(5) pre(2,1,3) low] pre(4) by fastforce
        have w2: "walked tot low (Suc l) va s2 a F s' lev q"
          using walked_child [OF f(2,9) low, unfolded f(10), OF w(2)] .
        have "walk_loop af va True low (Suc l) s a = Some (s', lev, q)"
          using 3 low k(1) Some w(1) by (subst walk_loop.simps) (simp add: ent_def s2_def)
        moreover have "walked tot low (Suc l) va s a ({c} \<union> F) s' lev q"
        proof -
          have "ext tot (tabs s (Suc l) a) {c} s s2"
            using ext_mono [OF f(1) _ tree_pages [OF Suc.prems(1)]] by simp
          then have "ext tot (tabs s (Suc l) a) ({c} \<union> F) s s'"
            using w2 f(3) by (intro ext_trans) (auto simp: walked_def simp del: tabs.simps)
          moreover have "card ({c} \<union> F) \<le> Suc l"
            using w(2) card_insert_le_m1 [of "Suc l" F c] by (simp add: walked_def)
          moreover have "ent s' a i = ent s a i" if "i < 512" "\<not> is_ptr (ent s' a i)" for i
          proof -
            have "ent s' a i = ent s2 a i" using w2 that unfolding walked_def by blast
            moreover have "i \<noteq> ?i" using f(9) that(2) calculation by auto
            ultimately show ?thesis using f(8) [OF that(1)] by simp
          qed
          ultimately show ?thesis
            using w2 f(3,4) by (simp add: walked_def del: tabs.simps lkup.simps pt_wf.simps pte_slot.simps)
        qed
        ultimately show ?thesis by blast
      qed
    qed
  qed
qed

lemma slot_lkup: "pte_slot s 0 l a va = Some q \<Longrightarrow> lkup s l a va = stored 0 (ld64 s q)"
  by (induction l arbitrary: a) (auto simp: stored_def ent_def Let_def split: if_splits)

subsection \<open>Mapping pages\<close>

lemma unat_MAXVA: "unat MAXVA = 2 ^ 38"
  by (simp add: MAXVA_def)

lemma PN_nat: "PN k va = unat va div 2 ^ (12 + 9 * k) mod 512"
proof -
  have "PN k va = unat (take_bit 9 (drop_bit (12 + 9 * k) va))"
    by (simp add: PN_def take_bit_eq_mask mask_numeral)
  then show ?thesis
    by (simp add: unsigned_take_bit_eq unat_drop_bit_eq take_bit_nat_def drop_bit_nat_def)
qed

lemma same_vpn_iff:
  assumes "va < MAXVA" "va' < MAXVA"
  shows "same_vpn 0 2 va va' \<longleftrightarrow> unat va div 4096 = unat va' div 4096"
proof -
  define x y where "x = unat va div 4096" and "y = unat va' div 4096"
  have "unat va < 2 ^ 38" "unat va' < 2 ^ 38"
    using assms unat_MAXVA by (simp_all add: word_less_nat_alt)
  then have b: "x < 2 ^ 26" "y < 2 ^ 26" by (simp_all add: x_def y_def)
  have p: "PN 0 va = x mod 512" "PN 1 va = x div 512 mod 512" "PN 2 va = x div 262144 mod 512"
    "PN 0 va' = y mod 512" "PN 1 va' = y div 512 mod 512" "PN 2 va' = y div 262144 mod 512"
    by (simp_all add: PN_nat x_def y_def div_mult2_eq [symmetric])
  have d: "z = z mod 512 + 512 * (z div 512 mod 512) + 262144 * (z div 262144 mod 512)" if "z < 2 ^ 26" for z :: nat
  proof -
    have "z div 262144 = z div 512 div 512" by (simp add: div_mult2_eq [symmetric])
    moreover have "z div 262144 mod 512 = z div 262144" using that by simp
    moreover have "z = z mod 512 + 512 * (z div 512)" "z div 512 = z div 512 mod 512 + 512 * (z div 512 div 512)" by simp_all
    ultimately show ?thesis by linarith
  qed
  have "{0..2} = {0, 1, 2 :: nat}" by auto
  then have "same_vpn 0 2 va va' \<longleftrightarrow> PN 0 va = PN 0 va' \<and> PN 1 va = PN 1 va' \<and> PN 2 va = PN 2 va'"
    by (simp add: same_vpn_def)
  also have "\<dots> \<longleftrightarrow> x = y"
    using d [OF b(1)] d [OF b(2)] p by auto
  finally show ?thesis by (simp add: x_def y_def)
qed

text \<open>The entry that \<open>mappages\<close> writes.\<close>

definition leaf_pte :: "uint64 \<Rightarrow> uint64 \<Rightarrow> uint64" where
  "leaf_pte pa perm = PA2PTE pa OR perm OR PTE_V"

lemma leaf_pte_valid [simp]: "has_flag (leaf_pte pa perm) PTE_V"
  unfolding has_flag_bit by (simp add: leaf_pte_def PTE_V_def bit_simps)

lemma stored_leaf [simp]: "stored low (leaf_pte pa perm) = Some (low, leaf_pte pa perm)"
  by (simp add: stored_def)

text \<open>\<open>pt_step tot root F s s'\<close>: the page table stays well formed, only its own pages were written, and the
  fresh pages \<open>F\<close> became part of it.\<close>

definition pt_step :: "int \<Rightarrow> nat \<Rightarrow> nat set \<Rightarrow> kmem \<Rightarrow> kmem \<Rightarrow> bool" where
  "pt_step tot root F s s' \<longleftrightarrow> ext tot (tabs s 2 root) F s s' \<and> pt_ok s' root \<and> tabs s' 2 root = tabs s 2 root \<union> F"

lemma pt_step_trans:
  assumes "pt_step tot root F s s1" "pt_step tot root G s1 s2"
  shows "pt_step tot root (F \<union> G) s s2"
  using assms ext_trans [of tot "tabs s 2 root" F s s1 "tabs s1 2 root" G s2] unfolding pt_step_def by auto

lemma walk_alloc:
  assumes ok: "pt_ok s root" and inv: "kmem_inv tot s" and q: "quiet 2 s" "mem_small s" and va: "va < MAXVA" and low: "low \<le> 2"
  shows "\<exists>s' lev q F. walk af s root va True low = Some (s', lev, q) \<and> pt_step tot root F s s' \<and> card F \<le> 2 \<and>
    (\<forall>va'. lkup s' 2 root va' = lkup s 2 root va') \<and>
    (case q of None \<Rightarrow> lev = -1 \<and> exhausted tot s'
     | Some q \<Rightarrow> lev = 0 \<and> pte_slot s' low 2 root va = Some q \<or> lev = 1 \<and> low = 0 \<and> lkup s' 2 root va = Some (1, ld64 s' q))"
proof -
  have wf: "pt_wf s 2 root" and nl: "\<forall>i<512. has_flag (ent s root i) PTE_V \<longrightarrow> is_ptr (ent s root i)"
    using ok by (auto simp: pt_ok_def)
  obtain s' lev q F where w: "walk_loop af va True low 2 s root = Some (s', lev, q)" "walked tot low 2 va s root F s' lev q"
    using walk_loop_spec [OF wf inv q low] nl by blast
  have "pt_ok s' root"
    using w(2) nl unfolding pt_ok_def walked_def by metis
  then have "pt_step tot root F s s'"
    using w(2) by (simp add: walked_def pt_step_def)
  then show ?thesis
    using w va unfolding walked_def walk_def by auto
qed

lemma map_one:
  assumes ok: "pt_ok s root" and inv: "kmem_inv tot s" and q: "quiet 2 s" "mem_small s" and va: "va < MAXVA"
    and un: "lkup s 2 root va = None"
  shows "\<exists>s1 lev q. walk af s root va True 0 = Some (s1, lev, q) \<and>
    (case q of
       None \<Rightarrow> \<exists>F. pt_step tot root F s s1 \<and> card F \<le> 2 \<and> exhausted tot s1 \<and> (\<forall>va'. lkup s1 2 root va' = lkup s 2 root va')
     | Some q \<Rightarrow> \<not> has_flag (ld64 s1 q) PTE_V \<and>
         (\<exists>F. pt_step tot root F s (st64 s1 q (leaf_pte pa perm)) \<and> card F \<le> 2 \<and>
           (\<forall>va'. lkup (st64 s1 q (leaf_pte pa perm)) 2 root va' =
              (if same_vpn 0 2 va va' then Some (0, leaf_pte pa perm) else lkup s 2 root va'))))"
proof -
  obtain s1 lev qo F where w: "walk af s root va True 0 = Some (s1, lev, qo)" "pt_step tot root F s s1" "card F \<le> 2"
    "\<forall>va'. lkup s1 2 root va' = lkup s 2 root va'"
    "case qo of None \<Rightarrow> lev = -1 \<and> exhausted tot s1
     | Some q \<Rightarrow> lev = 0 \<and> pte_slot s1 0 2 root va = Some q \<or> lev = 1 \<and> (0 :: nat) = 0 \<and> lkup s1 2 root va = Some (1, ld64 s1 q)"
    using walk_alloc [OF ok inv q va, of 0 af] by auto
  show ?thesis
  proof (cases qo)
    case None
    then show ?thesis using w by auto
  next
    case (Some qa)
    then have sl: "pte_slot s1 0 2 root va = Some qa" using w(4,5) un by auto
    have nv: "\<not> has_flag (ld64 s1 qa) PTE_V"
      using slot_lkup [OF sl] w(4) un by (auto simp: stored_def split: if_splits)
    let ?s2 = "st64 s1 qa (leaf_pte pa perm)"
    have wf1: "pt_wf s1 2 root" using w(2) by (simp add: pt_step_def pt_ok_def)
    from store_slot [OF wf1 sl, of "leaf_pte pa perm"]
    have st: "pt_wf ?s2 2 root" "tabs ?s2 2 root = tabs s1 2 root" "mem_upto (tabs s1 2 root) s1 ?s2"
      "\<And>va'. lkup ?s2 2 root va' = (if same_vpn 0 2 va va' then Some (0, leaf_pte pa perm) else lkup s1 2 root va')"
      "\<forall>j<512. ent ?s2 root j = ent s1 root j"
      by auto
    have "ext tot (tabs s1 2 root) {} s1 ?s2"
      using w(2) st(3) by (simp add: ext_def pt_step_def)
    then have "pt_step tot root {} s1 ?s2"
      using st(1,2,5) w(2) by (simp add: pt_step_def pt_ok_def)
    then have "pt_step tot root F s ?s2"
      using pt_step_trans [OF w(2)] by fastforce
    then show ?thesis
      using w(1,3,4) Some nv st(4) by auto
  qed
qed

text \<open>The translation after mapping \<open>k\<close> pages from \<open>a\<close> to \<open>pa\<close>.\<close>

definition mapped :: "uint64 \<Rightarrow> nat \<Rightarrow> uint64 \<Rightarrow> uint64 \<Rightarrow> kmem \<Rightarrow> nat \<Rightarrow> uint64 \<Rightarrow> (nat \<times> uint64) option" where
  "mapped a k pa perm s root va =
     (if unat a div 4096 \<le> unat va div 4096 \<and> unat va div 4096 < unat a div 4096 + k
      then Some (0, leaf_pte (pa + (PGROUNDDOWN va - a)) perm)
      else lkup s 2 root va)"

lemma PGROUNDDOWN_eq: "unat a mod 4096 = 0 \<Longrightarrow> unat va div 4096 = unat a div 4096 \<Longrightarrow> PGROUNDDOWN va = a"
  by (rule unsigned_word_eqI [where ?'a = nat]) (simp add: unat_PGROUNDDOWN, metis mod_0_imp_dvd dvd_div_mult_self)

lemma mapped_0 [simp]: "mapped a 0 pa perm s root va = lkup s 2 root va"
  by (auto simp: mapped_def)

lemma map_loop_spec:
  assumes "pt_ok s root" "kmem_inv tot s" "quiet (2 * Suc n) s" "mem_small s" "unat a mod 4096 = 0"
    "unat a + Suc n * 4096 \<le> 2 ^ 38" "lst = a + word_of_nat n * PGSZ"
    "\<forall>va<MAXVA. unat a div 4096 \<le> unat va div 4096 \<and> unat va div 4096 < unat a div 4096 + Suc n \<longrightarrow> lkup s 2 root va = None"
  shows "\<exists>s' r k F. map_loop af root perm 0 PGSZ lst s a pa = Some (s', r) \<and> pt_step tot root F s s' \<and> card F \<le> 2 * Suc n \<and>
    (r = 0 \<and> k = Suc n \<or> r = -1 \<and> k \<le> n \<and> exhausted tot s') \<and> (\<forall>va<MAXVA. lkup s' 2 root va = mapped a k pa perm s root va)"
  using assms
proof (induction n arbitrary: s a pa)
  case (0 s a pa)
  have a: "a < MAXVA" using "0.prems"(6) unat_MAXVA by (simp add: word_less_nat_alt)
  obtain s1 lev q where w: "walk af s root a True 0 = Some (s1, lev, q)"
    "case q of
       None \<Rightarrow> \<exists>F. pt_step tot root F s s1 \<and> card F \<le> 2 \<and> exhausted tot s1 \<and> (\<forall>va'. lkup s1 2 root va' = lkup s 2 root va')
     | Some q \<Rightarrow> \<not> has_flag (ld64 s1 q) PTE_V \<and>
         (\<exists>F. pt_step tot root F s (st64 s1 q (leaf_pte pa perm)) \<and> card F \<le> 2 \<and>
           (\<forall>va'. lkup (st64 s1 q (leaf_pte pa perm)) 2 root va' =
              (if same_vpn 0 2 a va' then Some (0, leaf_pte pa perm) else lkup s 2 root va')))"
    using map_one [OF "0.prems"(1,2) _ "0.prems"(4) a, of af pa perm] "0.prems"(3,8) a by auto
  show ?case
  proof (cases q)
    case None
    then obtain F where F: "pt_step tot root F s s1" "card F \<le> 2" "exhausted tot s1" "\<forall>va'. lkup s1 2 root va' = lkup s 2 root va'"
      using w(2) by auto
    have "map_loop af root perm 0 PGSZ lst s a pa = Some (s1, -1)"
      using w(1) None a by (subst map_loop.simps) simp
    then show ?thesis using F by (intro exI [of _ s1] exI [of _ "-1"] exI [of _ 0] exI [of _ F]) simp
  next
    case (Some qa)
    let ?s2 = "st64 s1 qa (leaf_pte pa perm)"
    obtain F where F: "pt_step tot root F s ?s2" "\<not> has_flag (ld64 s1 qa) PTE_V" "card F \<le> 2"
      "\<forall>va'. lkup ?s2 2 root va' = (if same_vpn 0 2 a va' then Some (0, leaf_pte pa perm) else lkup s 2 root va')"
      using w(2) Some by auto
    have "map_loop af root perm 0 PGSZ lst s a pa = Some (?s2, 0)"
      using w(1) Some a F(2) "0.prems"(7) by (subst map_loop.simps) (simp add: leaf_pte_def Let_def)
    moreover have "lkup ?s2 2 root va = mapped a 1 pa perm s root va" if "va < MAXVA" for va
      using F(4) same_vpn_iff [OF a that] PGROUNDDOWN_eq [OF "0.prems"(5), of va] by (auto simp: mapped_def)
    ultimately show ?thesis using F(1,3) by (intro exI [of _ ?s2] exI [of _ 0] exI [of _ 1] exI [of _ F]) simp
  qed
next
  case (Suc n s a pa)
  have ua: "unat a < 2 ^ 38 - 4096" using Suc.prems(6) by simp
  then have a: "a < MAXVA" using unat_MAXVA by (simp add: word_less_nat_alt)
  have a4: "unat (a + PGSZ) = unat a + 4096"
    using ua by (subst unat_add_lem [THEN iffD1]) simp_all
  have ne: "a \<noteq> lst"
  proof -
    have "unat (word_of_nat (Suc n) * PGSZ) = Suc n * 4096"
      using Suc.prems(6) by (simp add: unat_word_ariths unat_of_nat)
    then have "word_of_nat (Suc n) * PGSZ \<noteq> 0" by auto
    then show ?thesis using Suc.prems(7) by (simp del: of_nat_Suc)
  qed
  have un: "lkup s 2 root a = None" using Suc.prems(8) a by simp
  obtain s1 lev q where w: "walk af s root a True 0 = Some (s1, lev, q)"
    "case q of
       None \<Rightarrow> \<exists>F. pt_step tot root F s s1 \<and> card F \<le> 2 \<and> exhausted tot s1 \<and> (\<forall>va'. lkup s1 2 root va' = lkup s 2 root va')
     | Some q \<Rightarrow> \<not> has_flag (ld64 s1 q) PTE_V \<and>
         (\<exists>F. pt_step tot root F s (st64 s1 q (leaf_pte pa perm)) \<and> card F \<le> 2 \<and>
           (\<forall>va'. lkup (st64 s1 q (leaf_pte pa perm)) 2 root va' =
              (if same_vpn 0 2 a va' then Some (0, leaf_pte pa perm) else lkup s 2 root va')))"
    using map_one [OF Suc.prems(1,2) quiet_mono [OF Suc.prems(3)] Suc.prems(4) a un, of af pa perm] by auto
  show ?case
  proof (cases q)
    case None
    then obtain F where F: "pt_step tot root F s s1" "card F \<le> 2" "exhausted tot s1" "\<forall>va'. lkup s1 2 root va' = lkup s 2 root va'"
      using w(2) by auto
    have "map_loop af root perm 0 PGSZ lst s a pa = Some (s1, -1)"
      using w(1) None a by (subst map_loop.simps) simp
    then show ?thesis using F by (intro exI [of _ s1] exI [of _ "-1"] exI [of _ 0] exI [of _ F]) simp
  next
    case (Some qa)
    define s2 where "s2 = st64 s1 qa (leaf_pte pa perm)"
    obtain F where F: "pt_step tot root F s s2" "card F \<le> 2" "\<not> has_flag (ld64 s1 qa) PTE_V"
      "\<forall>va'. lkup s2 2 root va' = (if same_vpn 0 2 a va' then Some (0, leaf_pte pa perm) else lkup s 2 root va')"
      using w(2) Some unfolding s2_def by auto
    have k2: "lkup s2 2 root va = mapped a 1 pa perm s root va" if "va < MAXVA" for va
      using F(4) same_vpn_iff [OF a that] PGROUNDDOWN_eq [OF Suc.prems(5), of va] by (auto simp: mapped_def)
    have "quiet (card F + 2 * Suc n) s"
      using quiet_mono [OF Suc.prems(3)] F(2) by simp
    then have pre: "pt_ok s2 root" "kmem_inv tot s2" "quiet (2 * Suc n) s2" "mem_small s2"
      using F(1) ext_quiet [of tot "tabs s 2 root" F s s2 "2 * Suc n"] ext_small [of tot "tabs s 2 root" F s s2] Suc.prems(4)
      by (auto simp: pt_step_def ext_def)
    have d: "unat (a + PGSZ) div 4096 = unat a div 4096 + 1" using a4 by simp
    have un2: "\<forall>va<MAXVA. unat (a + PGSZ) div 4096 \<le> unat va div 4096 \<and> unat va div 4096 < unat (a + PGSZ) div 4096 + Suc n \<longrightarrow>
        lkup s2 2 root va = None"
      using k2 Suc.prems(8) d by (auto simp: mapped_def)
    have l2: "lst = a + PGSZ + word_of_nat n * PGSZ"
      using Suc.prems(7) by (simp add: algebra_simps)
    obtain s' r k G where IH: "map_loop af root perm 0 PGSZ lst s2 (a + PGSZ) (pa + PGSZ) = Some (s', r)"
      "pt_step tot root G s2 s'" "card G \<le> 2 * Suc n" "r = 0 \<and> k = Suc n \<or> r = -1 \<and> k \<le> n \<and> exhausted tot s'"
      "\<forall>va<MAXVA. lkup s' 2 root va = mapped (a + PGSZ) k (pa + PGSZ) perm s2 root va"
      using Suc.IH [OF pre _ _ l2 un2, of "pa + PGSZ"] Suc.prems(5,6) a4 by auto
    have "a < a + PGSZ" using a4 by (simp add: word_less_nat_alt)
    then have run: "map_loop af root perm 0 PGSZ lst s a pa = Some (s', r)"
      using w(1) Some a F(3) ne IH(1) by (subst map_loop.simps) (simp add: leaf_pte_def Let_def s2_def)
    have "lkup s' 2 root va = mapped a (Suc k) pa perm s root va" if "va < MAXVA" for va
      using IH(5) k2 [OF that] that d by (auto simp: mapped_def algebra_simps)
    moreover have "card (F \<union> G) \<le> 2 * Suc (Suc n)"
      using card_Un_le [of F G] F(2) IH(3) by simp
    ultimately show ?thesis
      using run pt_step_trans [OF F(1) IH(2)] IH(4)
      by (intro exI [of _ s'] exI [of _ r] exI [of _ "Suc k"] exI [of _ "F \<union> G"]) auto
  qed
qed

lemma map_last:
  assumes "0 < n" "unat va mod 4096 = 0" "unat va + n * 4096 \<le> 2 ^ 38"
  shows "PGROUNDDOWN (va + word_of_nat n * PGSZ - 1) = va + word_of_nat (n - 1) * PGSZ"
proof -
  have n: "unat (word_of_nat k * PGSZ) = k * 4096" if "k \<le> n" for k
    using that assms(3) by (simp add: unat_word_ariths unat_of_nat)
  have s: "unat (va + word_of_nat k * PGSZ) = unat va + k * 4096" if "k \<le> n" for k
    using n [OF that] that assms(3) by (subst unat_add_lem [THEN iffD1]) simp_all
  have "unat (va + word_of_nat n * PGSZ - 1) = unat va + n * 4096 - 1"
    using s [of n] assms(1) by (subst unat_sub) (simp_all add: word_le_nat_alt)
  moreover have "(unat va + n * 4096 - 1) div 4096 * 4096 = unat va + (n - 1) * 4096"
  proof -
    obtain k m where "unat va = 4096 * k" "n = Suc m" using assms(1,2) by (metis mod_0_imp_dvd dvd_def gr0_implies_Suc)
    moreover have "(4095 + 4096 * (k + m)) div 4096 = k + m" by simp
    ultimately show ?thesis by (simp add: distrib_left mult.commute)
  qed
  ultimately show ?thesis
    using s [of "n - 1"] by (intro unsigned_word_eqI [where ?'a = nat]) (simp add: unat_PGROUNDDOWN)
qed

lemma mappages_spec:
  assumes "pt_ok s root" "kmem_inv tot s" "quiet (2 * n) s" "mem_small s" "0 < n" "unat va mod 4096 = 0"
    "unat va + n * 4096 \<le> 2 ^ 38"
    "\<forall>x<MAXVA. unat va div 4096 \<le> unat x div 4096 \<and> unat x div 4096 < unat va div 4096 + n \<longrightarrow> lkup s 2 root x = None"
  shows "\<exists>s' r k F. mappages af s root va (word_of_nat n * PGSZ) pa perm 0 = Some (s', r) \<and> pt_step tot root F s s' \<and> card F \<le> 2 * n \<and>
    (r = 0 \<and> k = n \<or> r = -1 \<and> k < n \<and> exhausted tot s') \<and> (\<forall>x<MAXVA. lkup s' 2 root x = mapped va k pa perm s root x)"
proof -
  have nz: "word_of_nat n * PGSZ \<noteq> 0"
  proof
    assume "word_of_nat n * PGSZ = 0"
    moreover have "unat (word_of_nat n * PGSZ) = n * 4096"
      using assms(7) by (simp add: unat_word_ariths unat_of_nat)
    ultimately show False using assms(5) by simp
  qed
  have "PGROUNDDOWN va = va" using PGROUNDDOWN_eq [OF assms(6)] by blast
  then have "mappages af s root va (word_of_nat n * PGSZ) pa perm 0 =
      map_loop af root perm 0 PGSZ (va + word_of_nat (n - 1) * PGSZ) s va pa"
    using nz map_last [OF assms(5-7)] by (simp add: mappages_def)
  then have run: "mappages af s root va (word_of_nat n * PGSZ) pa perm 0 =
      map_loop af root perm 0 PGSZ (va + word_of_nat (n - 1) * PGSZ) s va pa" .
  obtain m where m: "n = Suc m" using assms(5) gr0_implies_Suc by blast
  obtain s' r k F where "map_loop af root perm 0 PGSZ (va + word_of_nat m * PGSZ) s va pa = Some (s', r)"
    "pt_step tot root F s s'" "card F \<le> 2 * Suc m" "r = 0 \<and> k = Suc m \<or> r = -1 \<and> k \<le> m \<and> exhausted tot s'"
    "\<forall>x<MAXVA. lkup s' 2 root x = mapped va k pa perm s root x"
    using map_loop_spec [OF assms(1,2) assms(3) [unfolded m] assms(4,6) assms(7) [unfolded m] refl assms(8) [unfolded m], of af perm pa]
    by (elim exE conjE) (rule that)
  moreover have "r = 0 \<and> k = n \<or> r = -1 \<and> k < n \<and> exhausted tot s'" using calculation(4) m by auto
  ultimately show ?thesis
    unfolding run using m by (intro exI [of _ s'] exI [of _ r] exI [of _ k] exI [of _ F]) simp
qed

subsection \<open>Lookup\<close>

lemma walk_loop_read:
  assumes "l \<le> 2" "2 \<le> l \<longrightarrow> (\<forall>i<512. has_flag (ent s a i) PTE_V \<longrightarrow> is_ptr (ent s a i))"
  shows "case lkup s l a va of
      Some (k, e) \<Rightarrow> k \<le> 1 \<and> (\<exists>q. walk_loop af va False 0 l s a = Some (s, int k, Some q) \<and> ld64 s q = e \<and>
        (k = 0 \<longrightarrow> pte_slot s 0 l a va = Some q))
    | None \<Rightarrow> walk_loop af va False 0 l s a = Some (s, -1, None) \<or>
        (\<exists>q. walk_loop af va False 0 l s a = Some (s, 0, Some q) \<and> \<not> has_flag (ld64 s q) PTE_V)"
  using assms
proof (induction l arbitrary: a)
  case 0
  have "walk_loop af va False 0 0 s a = Some (s, 0, Some (a + 8 * PN 0 va))"
    by (subst walk_loop.simps) simp
  then show ?case by (simp add: ent_def Let_def)
next
  case (Suc l)
  let ?e = "ent s a (PN (Suc l) va)"
  consider "is_ptr ?e" | "has_flag ?e PTE_V" "\<not> is_ptr ?e" | "\<not> has_flag ?e PTE_V" by blast
  then show ?case
  proof cases
    case 1
    have "walk_loop af va False 0 (Suc l) s a = walk_loop af va False 0 l s (nxt ?e)"
      using 1 by (subst walk_loop.simps) (simp add: ent_def nxt_def is_ptr_def)
    then show ?thesis using Suc.IH [of "nxt ?e"] Suc.prems 1 by (auto split: option.splits prod.splits)
  next
    case 2
    then have "l = 0" using Suc.prems by (cases l) auto
    then have "walk_loop af va False 0 (Suc l) s a = Some (s, 1, Some (a + 8 * PN (Suc l) va))"
      using 2 by (subst walk_loop.simps) (simp add: ent_def is_ptr_def)
    then show ?thesis using 2 \<open>l = 0\<close> by (simp add: ent_def)
  next
    case 3
    then have "walk_loop af va False 0 (Suc l) s a = Some (s, -1, None)"
      by (subst walk_loop.simps) (simp add: ent_def)
    moreover have "\<not> is_ptr ?e" using 3 by (simp add: is_ptr_def)
    ultimately show ?thesis using 3 by simp
  qed
qed

lemma walk_read:
  assumes "pt_ok s root" "va < MAXVA"
  shows "case lkup s 2 root va of
      Some (k, e) \<Rightarrow> k \<le> 1 \<and> (\<exists>q. walk af s root va False 0 = Some (s, int k, Some q) \<and> ld64 s q = e \<and>
        (k = 0 \<longrightarrow> pte_slot s 0 2 root va = Some q))
    | None \<Rightarrow> walk af s root va False 0 = Some (s, -1, None) \<or>
        (\<exists>q. walk af s root va False 0 = Some (s, 0, Some q) \<and> \<not> has_flag (ld64 s q) PTE_V)"
  using walk_loop_read [of 2 s root af va] assms by (auto simp: walk_def pt_ok_def split: option.splits prod.splits)

text \<open>The address translation of the Sv39 scheme, as the architecture describes it: three levels; a valid
  entry with R or X set is a leaf; a leaf above the last level must be aligned to its size and the address
  bits below its size come from the virtual address.  The physical page number is the 44-bit field from
  bit 10.  The result is the physical address and the leaf entry.\<close>

definition pte_ppn :: "uint64 \<Rightarrow> nat" where
  "pte_ppn e = take_bit 44 (drop_bit 10 (unat e))"

fun sv39_walk :: "kmem \<Rightarrow> nat \<Rightarrow> nat \<Rightarrow> uint64 \<Rightarrow> (nat \<times> uint64) option" where
  "sv39_walk s i a va =
     (let e = ld64 s (a + (unat va div 2 ^ (12 + 9 * i) mod 512) * 8) in
      if \<not> bit e 0 then None
      else if bit e 1 \<or> bit e 3 then
        if pte_ppn e mod 512 ^ i \<noteq> 0 then None
        else Some (pte_ppn e * 4096 + unat va mod 2 ^ (12 + 9 * i), e)
      else if i = 0 then None
      else sv39_walk s (i - 1) (pte_ppn e * 4096) va)"

declare sv39_walk.simps [simp del]

text \<open>Leaves as \<open>mappages\<close> writes them: readable or executable, a non-null aligned frame below \<open>2 ^ 56\<close>.\<close>

definition leaf_ok :: "nat \<Rightarrow> uint64 \<Rightarrow> bool" where
  "leaf_ok k e \<longleftrightarrow> (has_flag e PTE_R \<or> has_flag e PTE_X) \<and> PTE2PA e \<noteq> 0 \<and> unat (PTE2PA e) < 2 ^ 56 \<and>
     unat (PTE2PA e) mod 2 ^ (12 + 9 * k) = 0"

lemma walkaddr_lkup:
  assumes "pt_ok s root" "va < MAXVA"
  shows "walkaddr s root va = Some (case lkup s 2 root va of None \<Rightarrow> 0
    | Some (k, e) \<Rightarrow> if \<not> has_flag e PTE_V \<or> \<not> has_flag e PTE_U then 0
        else if k = 0 then PTE2PA e else PTE2PA e + (PGROUNDDOWN va - SUPERPG_DOWN va))"
proof (cases "lkup s 2 root va")
  case None
  then show ?thesis
    using walk_read [OF assms, of Some] assms(2) by (auto simp: walkaddr_def)
next
  case (Some p)
  obtain k e where p: "p = (k, e)" by (cases p)
  obtain q where "k \<le> 1" "walk Some s root va False 0 = Some (s, int k, Some q)" "ld64 s q = e"
    using walk_read [OF assms, of Some] Some p by auto
  moreover from this(1) have "k = 0 \<or> k = 1" by linarith
  ultimately show ?thesis
    using assms(2) Some p by (auto simp: walkaddr_def COMMONPAGE_def SUPERPAGE_def Let_def)
qed

lemma lkup_valid: "lkup s l a va = Some (k, e) \<Longrightarrow> has_flag e PTE_V \<and> k \<le> l"
  by (induction l arbitrary: a) (auto simp: Let_def split: if_splits intro: le_SucI)

lemma unat_SUPERPG_DOWN: "unat (SUPERPG_DOWN a) = unat a div 2097152 * 2097152"
proof -
  have "SUPERPG_DOWN a = a AND NOT (mask 21)"
    by (simp add: SUPERPG_DOWN_def SUPERPGSIZE_def PGSZ_def PGSIZE_def mask_numeral)
  also have "\<dots> = push_bit 21 (drop_bit 21 a)"
    by (rule bit_eqI) (auto simp: bit_simps)
  finally show ?thesis using unat_push_drop [of 21 a] by simp
qed

lemma pte_ppn_pa: "unat (PTE2PA e) < 2 ^ 56 \<Longrightarrow> pte_ppn e * 4096 = unat (PTE2PA e)"
proof -
  assume b: "unat (PTE2PA e) < 2 ^ 56"
  have "unat (PTE2PA e) = take_bit 64 (push_bit 12 (drop_bit 10 (unat e)))"
    by (simp add: PTE2PA_def unsigned_push_bit_eq unat_drop_bit_eq)
  also have "\<dots> = push_bit 12 (take_bit 52 (drop_bit 10 (unat e)))"
    by (simp add: take_bit_push_bit)
  finally have p: "unat (PTE2PA e) = take_bit 52 (drop_bit 10 (unat e)) * 4096"
    by (simp add: push_bit_nat_def)
  then have "take_bit 52 (drop_bit 10 (unat e)) < 2 ^ 44" using b by simp
  then have "take_bit 44 (take_bit 52 (drop_bit 10 (unat e))) = take_bit 52 (drop_bit 10 (unat e))"
    by (rule take_bit_nat_eq_self)
  then have "pte_ppn e = take_bit 52 (drop_bit 10 (unat e))"
    by (simp add: pte_ppn_def)
  then show ?thesis using p by simp
qed

text \<open>Well-formed tables are walked by the architecture as \<open>lkup\<close> describes.\<close>

lemma sv39_lkup:
  assumes "pt_wf s l a" "\<forall>k e. lkup s l a va = Some (k, e) \<longrightarrow> leaf_ok k e"
  shows "sv39_walk s l a va = map_option (\<lambda>(k, e). (unat (PTE2PA e) + unat va mod 2 ^ (12 + 9 * k), e)) (lkup s l a va)"
  using assms
proof (induction l arbitrary: a)
  case 0
  let ?e = "ent s a (PN 0 va)"
  have i: "ld64 s (a + unat va div 4096 mod 512 * 8) = ?e"
    by (simp add: ent_def PN_nat mult.commute)
  show ?case
  proof (cases "has_flag ?e PTE_V")
    case True
    then have "leaf_ok 0 ?e" using "0.prems"(2) by simp
    then show ?thesis
      using True i by (subst sv39_walk.simps) (auto simp: has_flag_bit leaf_ok_def pte_ppn_pa Let_def)
  next
    case False
    then show ?thesis using i by (subst sv39_walk.simps) (simp add: has_flag_bit Let_def)
  qed
next
  case (Suc l)
  let ?e = "ent s a (PN (Suc l) va)"
  have i: "ld64 s (a + unat va div 2 ^ (12 + 9 * Suc l) mod 512 * 8) = ?e"
    by (simp add: ent_def PN_nat mult.commute)
  consider "is_ptr ?e" | "has_flag ?e PTE_V" "\<not> is_ptr ?e" | "\<not> has_flag ?e PTE_V" by blast
  then show ?case
  proof cases
    case 1
    have wf: "pt_wf s l (nxt ?e)" using Suc.prems(1) 1 by simp
    then have "tblpage s (nxt ?e)" using pt_wf_tblpage tabs_root by blast
    then have "pte_ppn ?e * 4096 = nxt ?e"
      unfolding nxt_def by (intro pte_ppn_pa) (auto simp: tblpage_def nxt_def PGSIZE_def)
    then have "sv39_walk s (Suc l) a va = sv39_walk s l (nxt ?e) va"
      using 1 by (subst sv39_walk.simps) (simp only: i Let_def, simp add: is_ptr_def has_flag_bit)
    then show ?thesis using Suc.IH [OF wf] Suc.prems(2) 1 by simp
  next
    case 2
    then have lf: "leaf_ok (Suc l) ?e" using Suc.prems(2) by simp
    have pa: "pte_ppn ?e * 4096 = unat (PTE2PA ?e)" using lf by (intro pte_ppn_pa) (simp add: leaf_ok_def)
    have sz: "2 ^ (12 + 9 * Suc l) = 512 ^ Suc l * (4096 :: nat)"
      by (simp only: power_add power_mult) simp
    have "pte_ppn ?e * 4096 mod (512 ^ Suc l * 4096) = 0"
      using lf unfolding leaf_ok_def pa [symmetric] sz [symmetric] by blast
    then have "pte_ppn ?e mod 512 ^ Suc l = 0"
      unfolding mod_mult_mult2 by simp
    moreover have "lkup s (Suc l) a va = Some (Suc l, ?e)"
      using 2 by simp
    ultimately show ?thesis
      using 2 pa by (subst sv39_walk.simps) (simp only: i Let_def, simp add: is_ptr_def has_flag_bit del: lkup.simps)
  next
    case 3
    then show ?thesis
      by (subst sv39_walk.simps) (simp only: i Let_def, simp add: is_ptr_def has_flag_bit)
  qed
qed

text \<open>The physical address of a user byte.\<close>

definition user_pa :: "kmem \<Rightarrow> nat \<Rightarrow> uint64 \<Rightarrow> nat option" where
  "user_pa s root va = (case sv39_walk s 2 root va of None \<Rightarrow> None
     | Some (pa, e) \<Rightarrow> if has_flag e PTE_U then Some pa else None)"

definition leaves_ok :: "kmem \<Rightarrow> nat \<Rightarrow> bool" where
  "leaves_ok s root \<longleftrightarrow> (\<forall>va<MAXVA. \<forall>k e. lkup s 2 root va = Some (k, e) \<longrightarrow> leaf_ok k e)"

lemma user_pa_lkup:
  assumes "pt_ok s root" "leaves_ok s root" "va < MAXVA"
  shows "user_pa s root va = (case lkup s 2 root va of None \<Rightarrow> None
    | Some (k, e) \<Rightarrow> if has_flag e PTE_U then Some (unat (PTE2PA e) + unat va mod 2 ^ (12 + 9 * k)) else None)"
proof -
  have "sv39_walk s 2 root va = map_option (\<lambda>(k, e). (unat (PTE2PA e) + unat va mod 2 ^ (12 + 9 * k), e)) (lkup s 2 root va)"
    using assms by (intro sv39_lkup) (auto simp: pt_ok_def leaves_ok_def)
  then show ?thesis
    by (auto simp: user_pa_def split: option.splits)
qed

lemma lkup_level:
  assumes "pt_ok s root" "lkup s 2 root va = Some (k, e)"
  shows "k = 0 \<or> k = 1"
proof -
  have "\<not> (has_flag (ent s root (PN 2 va)) PTE_V \<and> \<not> is_ptr (ent s root (PN 2 va)))"
    using assms(1) by (auto simp: pt_ok_def)
  then have "lkup s 1 (nxt (ent s root (PN 2 va))) va = Some (k, e)"
    using assms(2) by (auto simp: numeral_2_eq_2 Let_def split: if_splits)
  then show ?thesis using lkup_valid by fastforce
qed

lemma super_offset:
  "x div 2097152 * 2097152 \<le> x div 4096 * 4096"
  "x div 4096 * 4096 - x div 2097152 * 2097152 + x mod 4096 = x mod 2097152" for x :: nat
proof -
  define q where "q = x div 4096"
  have d: "x div 2097152 = q div 512" unfolding q_def by (simp add: div_mult2_eq [symmetric])
  have q: "q * 4096 = q div 512 * 2097152 + q mod 512 * 4096"
    using div_mult_mod_eq [of q 512] by linarith
  then show "x div 2097152 * 2097152 \<le> x div 4096 * 4096"
    unfolding d q_def [symmetric] by simp
  have "x mod (4096 * 512) = 4096 * (x div 4096 mod 512) + x mod 4096" by (rule mod_mult2_eq)
  then show "x div 4096 * 4096 - x div 2097152 * 2097152 + x mod 4096 = x mod 2097152"
    unfolding d q_def [symmetric] q by simp
qed

lemma walkaddr_user_pa:
  assumes "pt_ok s root" "leaves_ok s root" "va < MAXVA"
  shows "case user_pa s root va of
      None \<Rightarrow> walkaddr s root va = Some 0
    | Some pa \<Rightarrow> \<exists>w. walkaddr s root va = Some w \<and> w \<noteq> 0 \<and> unat w + unat va mod 4096 = pa \<and> pa < 2 ^ 57"
proof (cases "lkup s 2 root va")
  case None
  then show ?thesis
    using user_pa_lkup [OF assms] walkaddr_lkup [OF assms(1,3)] by simp
next
  case (Some p)
  obtain k e where p: "p = (k, e)" by (cases p)
  have lf: "leaf_ok k e" using assms(2,3) Some p by (auto simp: leaves_ok_def)
  have v: "has_flag e PTE_V" using lkup_valid Some p by blast
  have k: "k = 0 \<or> k = 1" using lkup_level [OF assms(1)] Some p by blast
  have pa: "PTE2PA e \<noteq> 0" "unat (PTE2PA e) < 2 ^ 56" using lf by (simp_all add: leaf_ok_def)
  show ?thesis
  proof (cases "has_flag e PTE_U")
    case False
    then show ?thesis
      using user_pa_lkup [OF assms] walkaddr_lkup [OF assms(1,3)] Some p by simp
  next
    case True
    let ?w = "if k = 0 then PTE2PA e else PTE2PA e + (PGROUNDDOWN va - SUPERPG_DOWN va)"
    have le: "SUPERPG_DOWN va \<le> PGROUNDDOWN va"
      unfolding word_le_nat_alt unat_SUPERPG_DOWN unat_PGROUNDDOWN by (rule super_offset(1))
    have off: "unat (PGROUNDDOWN va - SUPERPG_DOWN va) = unat va div 4096 * 4096 - unat va div 2097152 * 2097152"
      using le by (simp add: unat_sub unat_SUPERPG_DOWN unat_PGROUNDDOWN)
    have o2: "unat va div 4096 * 4096 - unat va div 2097152 * 2097152 + unat va mod 4096 = unat va mod 2097152"
      by (rule super_offset(2))
    then have ob: "unat (PGROUNDDOWN va - SUPERPG_DOWN va) < 2097152"
      using off mod_less_divisor [of 2097152 "unat va"] by linarith
    have s: "unat (PTE2PA e + (PGROUNDDOWN va - SUPERPG_DOWN va)) = unat (PTE2PA e) + unat (PGROUNDDOWN va - SUPERPG_DOWN va)"
      using pa(2) ob by (subst unat_add_lem [THEN iffD1]) simp_all
    have "unat (PTE2PA e) \<noteq> 0" using pa(1) by (simp add: unat_eq_0)
    then have "?w \<noteq> 0"
      using s by (metis (full_types) add_is_0 pa(1) unat_0)
    moreover have "unat ?w + unat va mod 4096 = unat (PTE2PA e) + unat va mod 2 ^ (12 + 9 * k)"
    proof (cases "k = 0")
      case False
      then have k1: "k = 1" using k by simp
      have "unat (PGROUNDDOWN va - SUPERPG_DOWN va) + unat va mod 4096 = unat va mod 2097152"
        unfolding off by (rule o2)
      then have "unat (PTE2PA e) + unat (PGROUNDDOWN va - SUPERPG_DOWN va) + unat va mod 4096 = unat (PTE2PA e) + unat va mod 2097152"
        by linarith
      then show ?thesis unfolding s [symmetric] k1 by simp
    qed simp
    moreover have "unat (PTE2PA e) + unat va mod 2 ^ (12 + 9 * k) < 2 ^ 57"
    proof -
      have "unat va mod 2 ^ (12 + 9 * k) < 2 ^ (12 + 9 * k)" by simp
      also have "\<dots> \<le> 2 ^ 21" using k by auto
      finally show ?thesis using pa(2) by simp
    qed
    ultimately show ?thesis
      using user_pa_lkup [OF assms] walkaddr_lkup [OF assms(1,3)] Some p True v by auto
  qed
qed

subsection \<open>Copying from user memory\<close>

lemma lkup_same_page: "same_vpn 0 l x y \<Longrightarrow> lkup s l a x = lkup s l a y"
proof (induction l arbitrary: a)
  case (Suc l)
  then have "same_vpn 0 l x y" "PN (Suc l) x = PN (Suc l) y"
    by (simp_all add: same_vpn_def)
  then show ?case using Suc.IH by (simp add: Let_def)
qed (simp add: same_vpn_def Let_def)

lemma walkaddr_same_page:
  assumes "pt_ok s root" "x < MAXVA" "y < MAXVA" "unat x div 4096 = unat y div 4096"
  shows "walkaddr s root x = walkaddr s root y"
proof -
  have "lkup s 2 root x = lkup s 2 root y"
    using lkup_same_page same_vpn_iff [OF assms(2,3)] assms(4) by blast
  moreover have "PGROUNDDOWN x = PGROUNDDOWN y"
    using assms(4) by (intro unsigned_word_eqI [where ?'a = nat]) (simp add: unat_PGROUNDDOWN)
  moreover have "unat x div 2097152 = unat y div 2097152"
    using arg_cong [OF assms(4), of "\<lambda>z. z div 512"] by (simp add: div_mult2_eq [symmetric])
  then have "SUPERPG_DOWN x = SUPERPG_DOWN y"
    by (intro unsigned_word_eqI [where ?'a = nat]) (simp add: unat_SUPERPG_DOWN)
  ultimately show ?thesis
    unfolding walkaddr_lkup [OF assms(1,2)] walkaddr_lkup [OF assms(1,3)] by (simp only:)
qed

lemma page_add:
  assumes "x mod 4096 + j < (4096 :: nat)"
  shows "(x + j) div 4096 = x div 4096" "(x + j) mod 4096 = x mod 4096 + j"
proof -
  define q r where "q = x div 4096" and "r = x mod 4096"
  then have r: "x mod 4096 = r" "x div 4096 = q" and x: "x = r + q * 4096" by simp_all
  have e: "x + j = (r + j) + q * 4096" using x by simp
  show "(x + j) div 4096 = x div 4096" "(x + j) mod 4096 = x mod 4096 + j"
    unfolding e using assms r by simp_all
qed

lemma same_ents_pt:
  assumes "pt_ok s root" "same_ents (tabs s 2 root) s s'" "km_blocks s' = km_blocks s"
  shows "pt_ok s' root" "tabs s' 2 root = tabs s 2 root" "lkup s' 2 root va = lkup s 2 root va"
proof -
  have wf: "pt_wf s 2 root" using assms(1) by (simp add: pt_ok_def)
  have "\<forall>b\<in>tabs s 2 root. tblpage s' b"
    using pt_wf_tblpage [OF wf] assms(3) by (simp add: tblpage_def)
  then have "pt_wf s' 2 root" using frame_tree(4) [OF assms(2) _ wf] by blast
  moreover have "ent s' root i = ent s root i" if "i < 512" for i
    using assms(2) that tabs_root unfolding same_ents_def by blast
  ultimately show "pt_ok s' root" using assms(1) by (simp add: pt_ok_def)
  show "tabs s' 2 root = tabs s 2 root" "lkup s' 2 root va = lkup s 2 root va"
    using frame_tree(1,2) [OF assms(2)] by blast+
qed

definition away :: "kmem \<Rightarrow> nat \<Rightarrow> nat \<Rightarrow> nat \<Rightarrow> bool" where
  "away s root lo n \<longleftrightarrow> (\<forall>a\<in>tabs s 2 root. lo + n \<le> a \<or> a + PGSIZE \<le> lo)"

lemma same_ents_away:
  assumes "away s root lo n" "\<And>x. x < lo \<or> lo + n \<le> x \<Longrightarrow> km_mem s' x = km_mem s x"
  shows "same_ents (tabs s 2 root) s s'"
  unfolding same_ents_def ent_def
proof (intro ballI allI impI)
  fix a i assume "a \<in> tabs s 2 root" "i < (512 :: nat)"
  then have "lo + n \<le> a \<or> a + 4096 \<le> lo" "8 * i + 8 \<le> 4096"
    using assms(1) by (auto simp: away_def PGSIZE_def)
  then show "ld64 s' (a + 8 * i) = ld64 s (a + 8 * i)"
    by (intro ld64_cong assms(2)) auto
qed

lemma memmove_keeps_pt:
  fixes a :: nat
  assumes "pt_ok s root" "leaves_ok s root" "away s root d n" "va < MAXVA"
  defines "s' \<equiv> memmove_pa s d a n"
  shows "pt_ok s' root" "leaves_ok s' root" "away s' root = away s root" "user_pa s' root va = user_pa s root va"
proof -
  have e: "same_ents (tabs s 2 root) s s'"
    using assms(3) by (rule same_ents_away) (auto simp: s'_def memmove_pa_eq)
  note p = same_ents_pt [OF assms(1) e]
  show ok: "pt_ok s' root" and aw: "away s' root = away s root" and lv: "leaves_ok s' root"
    using p assms(2) by (simp_all add: s'_def away_def leaves_ok_def fun_eq_iff)
  show "user_pa s' root va = user_pa s root va"
    unfolding user_pa_lkup [OF assms(1,2,4)] user_pa_lkup [OF ok lv assms(4)] using p(3) by (simp add: s'_def)
qed

text \<open>One round: the bytes of the page that holds \<open>va\<close>.\<close>

lemma page_bytes:
  assumes "pt_ok s root" "leaves_ok s root" "va < MAXVA" "walkaddr s root (PGROUNDDOWN va) = Some w"
  shows "w = 0 \<Longrightarrow> user_pa s root va = None"
    "w \<noteq> 0 \<Longrightarrow> unat va mod 4096 + j < 4096 \<Longrightarrow> user_pa s root (va + word_of_nat j) = Some (unat (w + (va - PGROUNDDOWN va)) + j)"
proof -
  have va: "unat va < 2 ^ 38" using assms(3) by (simp add: word_less_nat_alt unat_MAXVA)
  have d: "PGROUNDDOWN va < MAXVA" using PGROUNDDOWN_le [of va] assms(3) by simp
  have same: "walkaddr s root x = Some w" if "x < MAXVA" "unat x div 4096 = unat va div 4096" for x
    using walkaddr_same_page [OF assms(1) that(1) d] assms(4) that(2) by (simp add: unat_PGROUNDDOWN)
  show "user_pa s root va = None" if "w = 0"
    using walkaddr_user_pa [OF assms(1-3)] same [OF assms(3) refl] that by (auto split: option.splits)
  show "user_pa s root (va + word_of_nat j) = Some (unat (w + (va - PGROUNDDOWN va)) + j)"
    if w: "w \<noteq> 0" and j: "unat va mod 4096 + j < 4096"
  proof -
    let ?x = "va + word_of_nat j"
    have ux: "unat ?x = unat va + j"
      using va j by (subst unat_add_lem [THEN iffD1]) (simp_all add: unat_of_nat)
    have xd: "unat ?x div 4096 = unat va div 4096" and xm: "unat ?x mod 4096 = unat va mod 4096 + j"
      unfolding ux by (rule page_add [OF j])+
    have "unat ?x < 2 ^ 38"
    proof -
      have "unat ?x div 4096 < 2 ^ 26" unfolding xd using va by simp
      then show ?thesis by simp
    qed
    then have x: "?x < MAXVA" by (simp add: word_less_nat_alt unat_MAXVA)
    obtain pa where pa: "user_pa s root ?x = Some pa" "unat w + unat ?x mod 4096 = pa" "pa < 2 ^ 57"
      using walkaddr_user_pa [OF assms(1,2) x] same [OF x xd] w by (auto split: option.splits)
    have "unat (w + (va - PGROUNDDOWN va)) = unat w + unat va mod 4096"
      using pa(2,3) xm by (subst unat_add_lem [THEN iffD1]) (simp_all add: unat_page_offset)
    then show ?thesis using pa(1,2) xm by simp
  qed
qed

text \<open>\<open>copied u m dst len m' r\<close>: from memory \<open>m\<close> to \<open>m'\<close> the \<open>len\<close> bytes found by \<open>u\<close> were copied to \<open>dst\<close>, with
  result 0, or some byte has no address and the result is -1; nothing outside the buffer changed.\<close>

definition copied :: "(nat \<Rightarrow> nat option) \<Rightarrow> (nat \<Rightarrow> byte) \<Rightarrow> nat \<Rightarrow> nat \<Rightarrow> (nat \<Rightarrow> byte) \<Rightarrow> int \<Rightarrow> bool" where
  "copied u m dst len m' r \<longleftrightarrow> (\<forall>x. x < dst \<or> dst + len \<le> x \<longrightarrow> m' x = m x) \<and>
     (if \<forall>i<len. u i \<noteq> None then r = 0 \<and> (\<forall>i<len. m' (dst + i) = m (the (u i))) else r = -1)"

lemma copied_glue:
  assumes n: "n \<le> len" and one: "copied u m dst n m1 0" and d: "\<forall>i<len. \<forall>pa. u i = Some pa \<longrightarrow> pa < dst \<or> dst + len \<le> pa"
    and rest: "copied (\<lambda>i. u (n + i)) m1 (dst + n) (len - n) m' r"
  shows "copied u m dst len m' r"
proof -
  have o: "\<forall>i<n. u i \<noteq> None" "\<And>i. i < n \<Longrightarrow> m1 (dst + i) = m (the (u i))" "\<And>x. x < dst \<or> dst + n \<le> x \<Longrightarrow> m1 x = m x"
    using one unfolding copied_def by (auto split: if_splits)
  have r: "\<And>x. x < dst + n \<or> dst + len \<le> x \<Longrightarrow> m' x = m1 x"
    using rest n by (auto simp: copied_def)
  have all: "(\<forall>i<len. u i \<noteq> None) \<longleftrightarrow> (\<forall>i<len - n. u (n + i) \<noteq> None)"
  proof
    assume A: "\<forall>i<len - n. u (n + i) \<noteq> None"
    show "\<forall>i<len. u i \<noteq> None"
    proof (intro allI impI)
      fix i assume "i < len"
      then show "u i \<noteq> None" using o(1) A [rule_format, of "i - n"] by (cases "i < n") auto
    qed
  qed simp
  have "m' (dst + i) = m (the (u i))" if i: "i < len" and A: "\<forall>i<len. u i \<noteq> None" for i
  proof (cases "i < n")
    case True
    then show ?thesis using o(2) r [of "dst + i"] by simp
  next
    case False
    then obtain j where j: "i = n + j" "j < len - n" using i by (metis less_diff_conv2 le_add_diff_inverse not_less n add.commute less_diff_conv)
    obtain pa where pa: "u i = Some pa" using A i by blast
    then have "pa < dst \<or> dst + n \<le> pa" using d i n by (meson add_left_mono le_trans)
    then have "m1 pa = m pa" by (rule o(3))
    moreover have "m' (dst + n + j) = m1 (the (u (n + j)))"
      using rest A all j(2) unfolding copied_def by simp
    ultimately show ?thesis using pa j(1) by (simp add: add.assoc)
  qed
  moreover have "m' x = m x" if "x < dst \<or> dst + len \<le> x" for x
    using that r o(3) n by auto
  ultimately show ?thesis
    using rest unfolding copied_def all by auto
qed

lemma unat_add_small: "unat va + i < 2 ^ 64 \<Longrightarrow> unat (va + word_of_nat i) = unat va + i" for va :: uint64
  by (subst unat_add_lem [THEN iffD1]) (simp_all add: unat_of_nat)

text \<open>The arithmetic of one round of the loop.\<close>

lemma chunk_facts:
  assumes "0 < len" "unat va + unat len \<le> 2 ^ 38"
  defines "n \<equiv> min (PGSZ - (va - PGROUNDDOWN va)) len"
  shows "0 < unat n" "unat n \<le> unat len" "unat va mod 4096 + unat n \<le> 4096" "unat (len - n) = unat len - unat n"
    "unat n < unat len \<Longrightarrow> PGROUNDDOWN va + PGSZ = va + n" "unat (va + n) = unat va + unat n"
proof -
  show 1: "0 < unat n" "unat n \<le> unat len" "unat va mod 4096 + unat n \<le> 4096"
    using page_chunk_pos [OF assms(1), of va] mod_less_divisor [of 4096 "unat va"]
    by (simp_all add: n_def min_def unat_page_rest word_le_nat_alt split: if_splits)
  show "unat (len - n) = unat len - unat n"
    using 1(2) by (simp add: unat_sub word_le_nat_alt)
  show u: "unat (va + n) = unat va + unat n"
    using assms(2) 1(2) by (subst unat_add_lem [THEN iffD1]) simp_all
  show "PGROUNDDOWN va + PGSZ = va + n" if "unat n < unat len"
  proof (rule unsigned_word_eqI [where ?'a = nat])
    have "unat va < 2 ^ 38" using assms(2) that by linarith
    then have "unat (PGROUNDDOWN va + PGSZ) = unat va div 4096 * 4096 + 4096"
      by (subst unat_add_lem [THEN iffD1]) (auto simp: unat_PGROUNDDOWN)
    moreover have "unat va mod 4096 + unat n = 4096"
      using that by (simp add: n_def min_def unat_page_rest word_le_nat_alt split: if_splits)
    ultimately show "unat (PGROUNDDOWN va + PGSZ) = unat (va + n)"
      using u div_mult_mod_eq [of "unat va" 4096] by linarith
  qed
qed

lemma copyin_spec:
  assumes "pt_ok s root" "leaves_ok s root" "unat va + unat len \<le> 2 ^ 38" "away s root dst (unat len)"
    "\<forall>i<unat len. \<forall>pa. user_pa s root (va + word_of_nat i) = Some pa \<longrightarrow> pa < dst \<or> dst + unat len \<le> pa"
  shows "\<exists>s' r. copyin s root dst va len = Some (s', r) \<and>
    copied (\<lambda>i. user_pa s root (va + word_of_nat i)) (km_mem s) dst (unat len) (km_mem s') r"
  using assms
proof (induction s root dst va len rule: copyin.induct)
  case (1 s root dst va len)
  show ?case
  proof (cases "0 < len")
    case False
    then have "len = 0" by (simp add: word_less_nat_alt unat_eq_0)
    then show ?thesis by (simp add: copyin.simps copied_def)
  next
    case True
    have ul: "0 < unat len" using True by (simp add: word_less_nat_alt)
    have va: "va < MAXVA" using "1.prems"(3) ul by (simp add: word_less_nat_alt unat_MAXVA)
    have "PGROUNDDOWN va < MAXVA" using PGROUNDDOWN_le [of va] va by simp
    then obtain w where w: "walkaddr s root (PGROUNDDOWN va) = Some w"
      using walkaddr_lkup [OF "1.prems"(1)] by blast
    note pb = page_bytes [OF "1.prems"(1,2) va w]
    show ?thesis
    proof (cases "w = 0")
      case True
      then have "user_pa s root (va + word_of_nat 0) = None" using pb(1) by simp
      then have "copied (\<lambda>i. user_pa s root (va + word_of_nat i)) (km_mem s) dst (unat len) (km_mem s) (-1)"
        unfolding copied_def using ul by auto
      moreover have "copyin s root dst va len = Some (s, -1)"
        using w True \<open>0 < len\<close> by (subst copyin.simps) simp
      ultimately show ?thesis by blast
    next
      case False
      define n where "n = min (PGSZ - (va - PGROUNDDOWN va)) len"
      define s1 where "s1 = memmove_pa s dst (unat (w + (va - PGROUNDDOWN va))) (unat n)"
      note n = chunk_facts [OF True "1.prems"(3), folded n_def]
      have run: "copyin s root dst va len = copyin s1 root (dst + unat n) (PGROUNDDOWN va + PGSZ) (len - n)"
        using w False True by (subst copyin.simps) (simp add: n_def s1_def Let_def)
      have aw: "away s root dst (unat n)" "away s root (dst + unat n) (unat len - unat n)"
        using "1.prems"(4) n(2) by (auto simp: away_def)
      have k: "pt_ok s1 root" "leaves_ok s1 root" "away s1 root = away s root"
        "\<And>x. x < MAXVA \<Longrightarrow> user_pa s1 root x = user_pa s root x"
        unfolding s1_def using memmove_keeps_pt [OF "1.prems"(1,2) aw(1)] va by blast+
      have "user_pa s root (va + word_of_nat i) = Some (unat (w + (va - PGROUNDDOWN va)) + i)" if "i < unat n" for i
        using pb(2) [OF False] n(3) that by simp
      then have one: "copied (\<lambda>i. user_pa s root (va + word_of_nat i)) (km_mem s) dst (unat n) (km_mem s1) 0"
        by (auto simp: copied_def s1_def memmove_pa_eq)
      show ?thesis
      proof (cases "unat n = unat len")
        case True
        then have "len - n = 0" using n(4) by (simp add: unat_eq_0)
        then have "copyin s root dst va len = Some (s1, 0)"
          unfolding run by (simp add: copyin.simps)
        then show ?thesis using one True by simp
      next
        case nl: False
        then have nv: "PGROUNDDOWN va + PGSZ = va + n" using n(2,5) by simp
        have u: "user_pa s1 root (va + n + word_of_nat i) = user_pa s root (va + word_of_nat (unat n + i))"
          if "i < unat len - unat n" for i
        proof -
          have "unat (va + word_of_nat (unat n + i)) < 2 ^ 38"
            using that "1.prems"(3) unat_add_small [of va "unat n + i"] by simp
          then have "va + word_of_nat (unat n + i) < MAXVA" by (simp only: word_less_nat_alt unat_MAXVA)
          then show ?thesis using k(4) by (simp add: add.assoc)
        qed
        have src: "\<forall>i<unat (len - n). \<forall>pa. user_pa s1 root (va + n + word_of_nat i) = Some pa \<longrightarrow>
            pa < dst + unat n \<or> dst + unat n + unat (len - n) \<le> pa"
        proof (intro allI impI)
          fix i pa assume i: "i < unat (len - n)" "user_pa s1 root (va + n + word_of_nat i) = Some pa"
          then have "pa < dst \<or> dst + unat len \<le> pa"
            using "1.prems"(5) [rule_format, of "unat n + i" pa] u [of i] n(4) by simp
          then show "pa < dst + unat n \<or> dst + unat n + unat (len - n) \<le> pa" using n(2,4) by auto
        qed
        have pre: "unat (va + n) + unat (len - n) \<le> 2 ^ 38" "away s1 root (dst + unat n) (unat (len - n))"
          using "1.prems"(3) n(2,4,6) k(3) aw(2) by simp_all
        obtain s' r where IH: "copyin s1 root (dst + unat n) (va + n) (len - n) = Some (s', r)"
          "copied (\<lambda>i. user_pa s1 root (va + n + word_of_nat i)) (km_mem s1) (dst + unat n) (unat (len - n)) (km_mem s') r"
          using "1.IH" [OF True w False refl refl, folded n_def, folded s1_def, unfolded nv, OF k(1,2) pre src]
          by (elim exE conjE) (rule that)
        have "copied (\<lambda>i. user_pa s root (va + word_of_nat (unat n + i))) (km_mem s1) (dst + unat n) (unat len - unat n) (km_mem s') r"
          using IH(2) u unfolding copied_def n(4) by (simp split: if_splits)
        from copied_glue [OF n(2) one "1.prems"(5) this] show ?thesis
          using IH(1) run nv by simp
      qed
    qed
  qed
qed

subsection \<open>Properties\<close>

text \<open>C6. \<open>mappages\<close> on a range of unmapped pages returns, keeps the page table well formed and the allocator
  consistent, and afterwards the table translates exactly as before except for the pages mapped: all of
  them when the result is 0, a proper prefix when it is -1, which happens only when no free page is left.\<close>

theorem mappages_correct:
  assumes "pt_ok s root" "kmem_inv tot s" "quiet (2 * n) s" "mem_small s" "0 < n" "unat va mod 4096 = 0"
    "unat va + n * 4096 \<le> 2 ^ 38"
    "\<forall>x<MAXVA. unat va div 4096 \<le> unat x div 4096 \<and> unat x div 4096 < unat va div 4096 + n \<longrightarrow> lkup s 2 root x = None"
  shows "\<exists>s' r k. mappages af s root va (word_of_nat n * PGSZ) pa perm 0 = Some (s', r) \<and>
    pt_ok s' root \<and> kmem_inv tot s' \<and> (r = 0 \<and> k = n \<or> r = -1 \<and> k < n \<and> exhausted tot s') \<and>
    (\<forall>x<MAXVA. lkup s' 2 root x =
       (if unat va div 4096 \<le> unat x div 4096 \<and> unat x div 4096 < unat va div 4096 + k
        then Some (0, PA2PTE (pa + (PGROUNDDOWN x - va)) OR perm OR PTE_V) else lkup s 2 root x))"
proof -
  obtain s' r k F where "mappages af s root va (word_of_nat n * PGSZ) pa perm 0 = Some (s', r)" "pt_step tot root F s s'" "card F \<le> 2 * n"
    "r = 0 \<and> k = n \<or> r = -1 \<and> k < n \<and> exhausted tot s'" "\<forall>x<MAXVA. lkup s' 2 root x = mapped va k pa perm s root x"
    using mappages_spec [OF assms, of af pa perm] by (elim exE conjE) (rule that)
  then show ?thesis
    unfolding mapped_def leaf_pte_def pt_step_def ext_def by blast
qed

text \<open>A root table on a machine of two CPUs with four pages each.\<close>

definition demo_vm :: kmem where
  "demo_vm = fst (the (uvmcreate Some (demo_mem\<lparr>km_recycling := 1\<rparr>)))"

lemma pt_ok_zero:
  assumes "\<forall>j<512. ent s c j = 0" "tblpage s c"
  shows "pt_ok s c" "tabs s 2 c = {c}" "lkup s 2 c va = None"
  using zero_table [OF assms(1)] assms by (simp_all add: pt_ok_def)

lemma demo_total: "km_total demo_mem = 8"
  by code_simp

lemma demo_vm_ok:
  "kmem_inv 8 demo_vm" "quiet n demo_vm" "mem_small demo_vm" "pt_ok demo_vm START_MEM" "tabs demo_vm 2 START_MEM = {START_MEM}"
  "lkup demo_vm 2 START_MEM va = None" "km_cnt demo_vm = 7" "km_total demo_vm = 8"
proof -
  let ?m = "demo_mem\<lparr>km_recycling := 1\<rparr>"
  have inv: "kmem_inv 8 ?m" using demo_mem_ok(1) by simp
  have tot: "km_total ?m = 8" using demo_total by (simp add: km_total_def)
  have r: "map_option snd (uvmcreate Some ?m) = Some (Some START_MEM)"
    by code_simp
  obtain s' r where k: "kzalloc Some ?m PGSZ = Some (s', r)" "ext 8 {} (set_option r) ?m s'"
    "r = None \<longrightarrow> exhausted 8 s'" "\<forall>c. r = Some c \<longrightarrow> (\<exists>p<km_total ?m. c = page_to_pa p) \<and> (\<forall>j<512. ent s' c j = 0)"
    using kzalloc_ext [OF inv, of Some] by (auto simp: quiet_def)
  have rr: "r = Some START_MEM" and dv: "demo_vm = s'"
    using r k(1) by (simp_all add: uvmcreate_def demo_vm_def)
  have sm: "START_MEM = page_to_pa 0" by (simp add: page_to_pa_def)
  have small: "mem_small ?m" using tot by (simp add: mem_small_def page_to_pa_def START_MEM_def PGSIZE_def)
  have "km_cnt demo_mem = 8" by code_simp
  then show "kmem_inv 8 demo_vm" "quiet n demo_vm" "mem_small demo_vm" "km_cnt demo_vm = 7" "km_total demo_vm = 8"
    using k(2) rr tot ext_small [OF k(2)] small dv by (simp_all add: ext_def quiet_def)
  have "tblpage s' START_MEM"
    using k(2) rr sm by (auto simp: tblpage_def ext_def START_MEM_def PGSIZE_def)
  then show "pt_ok demo_vm START_MEM" "tabs demo_vm 2 START_MEM = {START_MEM}" "lkup demo_vm 2 START_MEM va = None"
    using pt_ok_zero [of s' START_MEM] k(4) rr dv by simp_all
qed

theorem mappages_correct_witness:
  "\<exists>s' r. mappages Some demo_vm START_MEM 0x5000 (word_of_nat 2 * PGSZ) 0x1000 (PTE_R OR PTE_U) 0 = Some (s', r) \<and>
    pt_ok s' START_MEM \<and> kmem_inv 8 s'"
  using mappages_correct [OF demo_vm_ok(4,1,2,3), of 2 "0x5000" Some "0x1000" "PTE_R OR PTE_U"] demo_vm_ok(6) by auto

text \<open>C7. \<open>getphyaddr\<close> computes the Sv39 translation of a user address, for small pages and 2MB pages alike: it
  returns the physical address when the page is mapped for the user and 0 otherwise.\<close>

theorem getphyaddr_translates:
  assumes "pt_ok s root" "leaves_ok s root" "va < MAXVA"
  shows "getphyaddr s root va = Some (case sv39_walk s 2 root va of None \<Rightarrow> 0
    | Some (pa, e) \<Rightarrow> if has_flag e PTE_U then word_of_nat pa else 0)"
proof (cases "user_pa s root va")
  case None
  then have "(case sv39_walk s 2 root va of None \<Rightarrow> 0 | Some (pa, e) \<Rightarrow> if has_flag e PTE_U then word_of_nat pa else 0) = (0 :: uint64)"
    by (auto simp: user_pa_def split: option.splits)
  then show ?thesis
    using walkaddr_user_pa [OF assms] None by (simp add: getphyaddr_def Let_def)
next
  case (Some pa)
  then obtain w where w: "walkaddr s root va = Some w" "w \<noteq> 0" "unat w + unat va mod 4096 = pa" "pa < 2 ^ 57"
    using walkaddr_user_pa [OF assms] by auto
  have "(case sv39_walk s 2 root va of None \<Rightarrow> 0 | Some (pa, e) \<Rightarrow> if has_flag e PTE_U then word_of_nat pa else 0) = (word_of_nat pa :: uint64)"
    using Some by (auto simp: user_pa_def split: option.splits if_splits)
  moreover have "w + (va - PGROUNDDOWN va) = word_of_nat pa"
    using w(3) by (intro unsigned_word_eqI [where ?'a = nat]) (use w(4) in \<open>simp add: unat_of_nat unat_word_ariths(1) unat_page_offset\<close>)
  ultimately show ?thesis
    using w(1,2) by (simp add: getphyaddr_def Let_def)
qed

text \<open>The page at \<open>0x5000\<close> mapped to the frame at \<open>0x1000\<close>.\<close>

definition demo_map :: "uint64 \<Rightarrow> kmem" where
  "demo_map perm = fst (the (mappages Some demo_vm START_MEM 0x5000 (word_of_nat 1 * PGSZ) 0x1000 perm 0))"

definition demo_vm2 :: kmem where
  "demo_vm2 = demo_map (PTE_R OR PTE_U)"

lemma demo_map_ok:
  assumes leaf: "leaf_ok 0 (leaf_pte 0x1000 perm)"
  shows "kmem_inv 8 (demo_map perm)" "pt_ok (demo_map perm) START_MEM" "leaves_ok (demo_map perm) START_MEM"
    "\<forall>a\<in>tabs (demo_map perm) 2 START_MEM. START_MEM \<le> a"
    "va < MAXVA \<Longrightarrow> lkup (demo_map perm) 2 START_MEM va = (if unat va div 4096 = 5 then Some (0, leaf_pte 0x1000 perm) else None)"
    "quiet n (demo_map perm)" "\<not> exhausted 8 (demo_map perm)"
proof -
  obtain s' r k F where m: "mappages Some demo_vm START_MEM 0x5000 (word_of_nat 1 * PGSZ) 0x1000 perm 0 = Some (s', r)"
    "pt_step 8 START_MEM F demo_vm s'" "card F \<le> 2 * 1" "r = 0 \<and> k = 1 \<or> r = -1 \<and> k < 1 \<and> exhausted 8 s'"
    "\<forall>x<MAXVA. lkup s' 2 START_MEM x = mapped 0x5000 k 0x1000 perm demo_vm START_MEM x"
    using mappages_spec [OF demo_vm_ok(4,1,2,3), of 1 "0x5000" Some "0x1000" perm] demo_vm_ok(6) by auto
  have ne: "\<not> exhausted 8 s'"
    using m(2,3) demo_vm_ok(7,8) by (auto simp: pt_step_def ext_def exhausted_def)
  then have k: "k = 1" using m(4) by simp
  have s': "demo_map perm = s'" using m(1) by (simp add: demo_map_def)
  have "km_recycling s' = km_recycling demo_vm" "km_recycling demo_vm \<noteq> 0"
    using m(2) demo_vm_ok(2) [of 8] demo_vm_ok(7) by (auto simp: pt_step_def ext_def quiet_def PAGES_THRESHOLD_def)
  then show "quiet n (demo_map perm)" "\<not> exhausted 8 (demo_map perm)" using ne s' by (simp_all add: quiet_def)
  show "kmem_inv 8 (demo_map perm)" "pt_ok (demo_map perm) START_MEM" using m(2) s' by (simp_all add: pt_step_def ext_def)
  have t: "tabs s' 2 START_MEM = {START_MEM} \<union> F" "\<forall>a\<in>F. \<exists>p<km_total demo_vm. a = page_to_pa p \<and> km_blocks demo_vm p = None"
    using m(2) demo_vm_ok(5) by (simp_all add: pt_step_def ext_def)
  have "START_MEM \<le> a" if "a \<in> F" for a
  proof -
    from t(2) that obtain p where "a = page_to_pa p" by blast
    then show ?thesis by (simp add: page_to_pa_def)
  qed
  then show "\<forall>a\<in>tabs (demo_map perm) 2 START_MEM. START_MEM \<le> a"
    using t(1) s' by auto
  have l: "lkup (demo_map perm) 2 START_MEM x = (if unat x div 4096 = 5 then Some (0, leaf_pte 0x1000 perm) else None)" if "x < MAXVA" for x
  proof -
    have "PGROUNDDOWN x = 0x5000" if "unat x div 4096 = 5"
      using that by (intro PGROUNDDOWN_eq) simp_all
    then show ?thesis
      using m(5) that k s' demo_vm_ok(6) by (auto simp: mapped_def)
  qed
  then show "va < MAXVA \<Longrightarrow> lkup (demo_map perm) 2 START_MEM va = (if unat va div 4096 = 5 then Some (0, leaf_pte 0x1000 perm) else None)" .
  show "leaves_ok (demo_map perm) START_MEM"
    using l leaf by (simp add: leaves_ok_def split: if_splits)
qed

lemma demo_vm2_leaf: "leaf_ok 0 (leaf_pte 0x1000 (PTE_R OR PTE_U))"
proof -
  let ?e = "leaf_pte 0x1000 (PTE_R OR PTE_U)"
  have "has_flag ?e PTE_R" "unat (PTE2PA ?e) = 4096" "PTE2PA ?e \<noteq> 0" by (code_simp, code_simp, code_simp)
  then show ?thesis by (simp add: leaf_ok_def)
qed

lemmas demo_vm2_ok = demo_map_ok [OF demo_vm2_leaf, folded demo_vm2_def]

theorem getphyaddr_translates_witness:
  "0x5678 < MAXVA \<and> getphyaddr demo_vm2 START_MEM 0x5678 = Some (case sv39_walk demo_vm2 2 START_MEM 0x5678 of None \<Rightarrow> 0
    | Some (pa, e) \<Rightarrow> if has_flag e PTE_U then word_of_nat pa else 0)"
proof -
  have "0x5678 < MAXVA" by code_simp
  then show ?thesis using getphyaddr_translates [OF demo_vm2_ok(2,3)] by blast
qed

text \<open>\<open>copyin\<close> returns 0 exactly when every byte of the source range is mapped for the user, and then the
  destination buffer holds the bytes at the translated addresses, across page boundaries and for every
  length; otherwise it returns -1.  Nothing outside the buffer is written.  The buffer must not lie in
  the page tables or in the source frames.\<close>

theorem copyin_correct:
  assumes "pt_ok s root" "leaves_ok s root" "unat srcva + unat len \<le> 2 ^ 38"
    "\<forall>a\<in>tabs s 2 root. dst + unat len \<le> a \<or> a + PGSIZE \<le> dst"
    "\<forall>i<unat len. \<forall>pa. user_pa s root (srcva + word_of_nat i) = Some pa \<longrightarrow> pa < dst \<or> dst + unat len \<le> pa"
  shows "\<exists>s' r. copyin s root dst srcva len = Some (s', r) \<and>
    (\<forall>x. x < dst \<or> dst + unat len \<le> x \<longrightarrow> km_mem s' x = km_mem s x) \<and>
    (if \<forall>i<unat len. user_pa s root (srcva + word_of_nat i) \<noteq> None
     then r = 0 \<and> (\<forall>i<unat len. km_mem s' (dst + i) = km_mem s (the (user_pa s root (srcva + word_of_nat i))))
     else r = -1)"
  using copyin_spec [OF assms(1-3) _ assms(5)] assms(4) unfolding away_def copied_def by blast

theorem copyin_correct_witness:
  "\<exists>s'. copyin demo_vm2 START_MEM 16 0x5004 8 = Some (s', 0) \<and>
    (\<forall>i<8. km_mem s' (16 + i) = km_mem demo_vm2 (the (user_pa demo_vm2 START_MEM (0x5004 + word_of_nat i))))"
proof -
  let ?e = "leaf_pte 0x1000 (PTE_R OR PTE_U)"
  have e: "has_flag ?e PTE_U" "unat (PTE2PA ?e) = 4096" by (code_simp, code_simp)
  have u: "user_pa demo_vm2 START_MEM (0x5004 + word_of_nat i) = Some (4096 + (4 + i))" if "i < 8" for i
  proof -
    have x: "unat (0x5004 + word_of_nat i :: uint64) = 0x5004 + i"
      using that by (subst unat_add_small) simp_all
    then have "0x5004 + word_of_nat i < MAXVA" using that by (simp add: word_less_nat_alt unat_MAXVA)
    moreover have "(0x5004 + i) div 4096 = 5" "(0x5004 + i) mod 4096 = 4 + i"
      using that page_add [of "0x5004" i] by simp_all
    ultimately show ?thesis
      using user_pa_lkup [OF demo_vm2_ok(2,3)] demo_vm2_ok(5) x e by simp
  qed
  have b: "\<forall>a\<in>tabs demo_vm2 2 START_MEM. 16 + unat (8 :: uint64) \<le> a \<or> a + PGSIZE \<le> 16"
    using demo_vm2_ok(4) by (fastforce simp: START_MEM_def)
  obtain s' r where "copyin demo_vm2 START_MEM 16 0x5004 8 = Some (s', r)"
    "if \<forall>i<unat (8 :: uint64). user_pa demo_vm2 START_MEM (0x5004 + word_of_nat i) \<noteq> None
     then r = 0 \<and> (\<forall>i<unat (8 :: uint64). km_mem s' (16 + i) = km_mem demo_vm2 (the (user_pa demo_vm2 START_MEM (0x5004 + word_of_nat i))))
     else r = -1"
    using copyin_correct [OF demo_vm2_ok(2,3) _ b, of "0x5004"] u by auto
  then show ?thesis using u by auto
qed

end
