(* ===== verification/Vma.thy ===== *)
theory Vma
  imports Translation
begin

text \<open>
  Virtual memory areas: \<open>src/mm/vma.c\<close> and the \<open>mmap\<close> system calls of \<open>src/mm/mmap.c\<close>.  The areas live in
  the static array \<open>vmas\<close>; an address space keeps a list of them, here the list of array indices in list
  order.  Address arithmetic is the 64-bit arithmetic of the code.  The state also holds the physical
  memory with the page tables, the reference counts of open files, and the calls to \<open>fat32_filewrite\<close> that
  write back shared mappings, in order.  The sections under \<open>vmas_lock\<close> and the file table lock are atomic.
  \<open>None\<close> is a failed \<open>ASSERT\<close> or a \<open>panic\<close>.
\<close>

unbundle bit_operations_syntax

subsection \<open>State\<close>

datatype vmatype = VMA_STACK | VMA_HEAP | VMA_TEXT | VMA_FILE | VMA_ANON | VMA_INTERP

record vma =
  vm_type :: vmatype
  startva :: uint64
  vm_size :: uint64
  perm :: uint
  used :: bool
  vm_offset :: uint64
  vm_file :: "nat option"

record file_ref =
  f_flags :: "16 word"
  f_count :: "16 word"

record mm_struct =
  head_vma :: "nat list"
  pagetable :: nat
  start_brk :: uint64
  brk :: uint64
  heapvma :: "nat option"

record vmst =
  vs_vmas :: "vma list"
  vs_mem :: kmem
  vs_file :: "nat \<Rightarrow> file_ref"
  vs_wb :: "(nat \<times> uint64 \<times> uint64) list"

definition PERM_READ :: uint where "PERM_READ = 1"
definition PERM_WRITE :: uint where "PERM_WRITE = 2"
definition PERM_EXEC :: uint where "PERM_EXEC = 4"
definition PERM_SHARED :: uint where "PERM_SHARED = 8"
definition MAP_SHARED :: uint where "MAP_SHARED = 1"
definition MAP_FIXED :: uint where "MAP_FIXED = 0x10"
definition MAP_ANONYMOUS :: uint where "MAP_ANONYMOUS = 0x20"

definition endva :: "vma \<Rightarrow> uint64" where
  "endva v = startva v + vm_size v"

abbreviation the_vma :: "vmst \<Rightarrow> nat \<Rightarrow> vma" where
  "the_vma vs i \<equiv> vs_vmas vs ! i"

definition set_vma :: "nat \<Rightarrow> vma \<Rightarrow> vmst \<Rightarrow> vmst" where
  "set_vma i v vs = vs\<lparr>vs_vmas := (vs_vmas vs)[i := v]\<rparr>"

subsection \<open>The area array and the list of an address space\<close>

definition empty_vma :: vma where
  "empty_vma = \<lparr>vm_type = VMA_STACK, startva = 0, vm_size = 0, perm = 0, used = False, vm_offset = 0, vm_file = None\<rparr>"

definition NVMA :: nat where "NVMA = 3000"

definition vmas_init :: "vmst \<Rightarrow> vmst" where
  "vmas_init vs = vs\<lparr>vs_vmas := replicate NVMA empty_vma\<rparr>"

fun first_free :: "vma list \<Rightarrow> nat \<Rightarrow> nat option" where
  "first_free [] i = None"
| "first_free (v # vs) i = (if \<not> used v then Some i else first_free vs (i + 1))"

definition alloc_vma :: "vmst \<Rightarrow> vmst \<times> nat option" where
  "alloc_vma vs = (case first_free (vs_vmas vs) 0 of
       None \<Rightarrow> (vs, None)
     | Some i \<Rightarrow> (set_vma i ((the_vma vs i)\<lparr>used := True\<rparr>) vs, Some i))"

definition free_vma :: "nat \<Rightarrow> vmst \<Rightarrow> vmst" where
  "free_vma i vs = set_vma i ((the_vma vs i)\<lparr>used := False\<rparr>) vs"

definition check_vma_intersect :: "vmst \<Rightarrow> nat list \<Rightarrow> vma \<Rightarrow> bool" where
  "check_vma_intersect vs head checked \<longleftrightarrow>
     (let checked_start = startva checked; checked_end = checked_start + vm_size checked - 1 in
      list_ex (\<lambda>i. let pos = the_vma vs i; start = startva pos; fin = startva pos + vm_size pos in
        start \<le> checked_start \<and> checked_start < fin \<or> start \<le> checked_end \<and> checked_end < fin) head)"

definition add_vma_to_vmspace :: "vmst \<Rightarrow> mm_struct \<Rightarrow> nat \<Rightarrow> mm_struct option" where
  "add_vma_to_vmspace vs mm i = do {
     ASSERT (\<not> check_vma_intersect vs (head_vma mm) (the_vma vs i));
     Some (mm\<lparr>head_vma := i # head_vma mm\<rparr>) }"

definition is_vma_in_vmspace :: "nat list \<Rightarrow> nat \<Rightarrow> bool" where
  "is_vma_in_vmspace head i \<longleftrightarrow> i \<in> set head"

definition del_vma_from_vmspace :: "vmst \<Rightarrow> mm_struct \<Rightarrow> nat \<Rightarrow> (vmst \<times> mm_struct) option" where
  "del_vma_from_vmspace vs mm i = do {
     ASSERT (is_vma_in_vmspace (head_vma mm) i);
     Some (free_vma i vs, mm\<lparr>head_vma := remove1 i (head_vma mm)\<rparr>) }"

definition vma_map_range :: "vmst \<Rightarrow> mm_struct \<Rightarrow> uint64 \<Rightarrow> uint64 \<Rightarrow> uint \<Rightarrow> vmatype \<Rightarrow> (vmst \<times> mm_struct \<times> nat option) option" where
  "vma_map_range vs mm va len p ty =
     (case alloc_vma vs of (vs, None) \<Rightarrow> Some (vs, mm, None)
      | (vs, Some i) \<Rightarrow> do {
          ASSERT (va mod PGSZ = 0);
          let len = (if len < PGSZ then PGSZ else len);
          let vs = set_vma i ((the_vma vs i)\<lparr>startva := PGROUNDDOWN va, vm_size := PGROUNDUP len, perm := p, vm_type := ty\<rparr>) vs;
          mm \<leftarrow> add_vma_to_vmspace vs mm i;
          Some (vs, mm, Some i) })"

definition fat32_filedup :: "nat \<Rightarrow> vmst \<Rightarrow> vmst option" where
  "fat32_filedup f vs = do {
     ASSERT (1 \<le> f_count (vs_file vs f));
     Some (vs\<lparr>vs_file := (vs_file vs)(f := (vs_file vs f)\<lparr>f_count := f_count (vs_file vs f) + 1\<rparr>)\<rparr>) }"

definition F_WRITEABLE :: "file_ref \<Rightarrow> bool" where
  "F_WRITEABLE fp \<longleftrightarrow> 0 < f_flags fp"

definition vma_map_file :: "vmst \<Rightarrow> mm_struct \<Rightarrow> uint64 \<Rightarrow> uint64 \<Rightarrow> uint \<Rightarrow> vmatype \<Rightarrow> uint64 \<Rightarrow> nat \<Rightarrow>
    (vmst \<times> mm_struct \<times> int) option" where
  "vma_map_file vs mm va len p ty offset fp =
     (if \<not> F_WRITEABLE (vs_file vs fp) \<and> p AND PERM_WRITE \<noteq> 0 \<and> p AND PERM_SHARED \<noteq> 0 then Some (vs, mm, -1)
      else do {
        (vs, mm, r) \<leftarrow> vma_map_range vs mm va len p ty;
        case r of None \<Rightarrow> Some (vs, mm, -1)
        | Some i \<Rightarrow> do {
            let vs = set_vma i ((the_vma vs i)\<lparr>vm_offset := offset, vm_file := Some fp\<rparr>) vs;
            vs \<leftarrow> fat32_filedup fp vs;
            Some (vs, mm, 0) } })"

definition vma_map :: "vmst \<Rightarrow> mm_struct \<Rightarrow> uint64 \<Rightarrow> uint64 \<Rightarrow> uint \<Rightarrow> vmatype \<Rightarrow> (vmst \<times> mm_struct \<times> int) option" where
  "vma_map vs mm va len p ty = do {
     (vs, mm, r) \<leftarrow> vma_map_range vs mm va len p ty;
     case r of None \<Rightarrow> Some (vs, mm, -1)
     | Some i \<Rightarrow> Some (vs, if ty = VMA_HEAP then mm\<lparr>heapvma := Some i\<rparr> else mm, 0) }"

fun find_vma :: "vmst \<Rightarrow> nat list \<Rightarrow> uint64 \<Rightarrow> nat option" where
  "find_vma vs [] addr = None"
| "find_vma vs (i # is) addr =
     (if startva (the_vma vs i) \<le> addr \<and> addr < endva (the_vma vs i) then Some i else find_vma vs is addr)"

definition find_vma_for_va :: "vmst \<Rightarrow> mm_struct \<Rightarrow> uint64 \<Rightarrow> nat option" where
  "find_vma_for_va vs mm addr = find_vma vs (head_vma mm) addr"

subsection \<open>Unmapping\<close>

definition writeback :: "vmst \<Rightarrow> nat \<Rightarrow> nat option \<Rightarrow> uint64 \<Rightarrow> uint64 \<Rightarrow> vmst option" where
  "writeback vs pt fp start len = do {
     ASSERT (start mod PGSZ = 0);
     f \<leftarrow> fp;
     let fin = start + len;
     (vs, _) \<leftarrow> page_loop (\<lambda>vs addr. do {
        (m, level, pte) \<leftarrow> walk Some (vs_mem vs) pt addr False 0;
        Some (case pte of
            Some q \<Rightarrow> if has_flag (ld64 m q) PTE_V \<and> has_flag (PTE_FLAGS (ld64 m q)) PTE_D
                      then vs\<lparr>vs_wb := vs_wb vs @ [(f, addr, if fin - addr < PGSZ then fin - addr else PGSZ)]\<rparr>
                      else vs
          | None \<Rightarrow> vs, None :: unit option, addr + PGSZ) }) fin vs start;
     Some vs }"

lemma find_vma_in: "find_vma vs is addr = Some i \<Longrightarrow>
    i \<in> set is \<and> startva (the_vma vs i) \<le> addr \<and> addr < endva (the_vma vs i)"
  by (induction "is") (auto split: if_splits)

lemma remove1_shorter: "x \<in> set xs \<Longrightarrow> length (remove1 x xs) < length xs"
  using length_remove1_mem [of x xs] by simp

function vmspace_unmap :: "(kmem \<Rightarrow> kmem option) \<Rightarrow> vmst \<Rightarrow> mm_struct \<Rightarrow> uint64 \<Rightarrow> uint64 \<Rightarrow> (vmst \<times> mm_struct \<times> int) option" where
  "vmspace_unmap af vs mm va len =
     (case find_vma_for_va vs mm va of None \<Rightarrow> Some (vs, mm, -1)
      | Some i \<Rightarrow>
          let v = the_vma vs i; start = startva v; sz = vm_size v; origin_len = len; len = PGROUNDUP len in
          if va \<noteq> start then Some (vs, mm, -1)
          else
            case (if vm_type v = VMA_FILE \<and> perm v AND PERM_SHARED \<noteq> 0 \<and> perm v AND PERM_WRITE \<noteq> 0
                  then writeback vs (pagetable mm) (vm_file v) start origin_len else Some vs) of None \<Rightarrow> None
            | Some vs \<Rightarrow>
                if len < sz then do {
                  let vs = set_vma i (v\<lparr>startva := startva v + len, vm_size := vm_size v - len\<rparr>) vs;
                  m \<leftarrow> uvmunmap af (vs_mem vs) (pagetable mm) start (PGROUNDUP sz div PGSZ) True True;
                  Some (vs\<lparr>vs_mem := m\<rparr>, mm, 0) }
                else
                  case do {
                    (vs, mm) \<leftarrow> del_vma_from_vmspace vs mm i;
                    m \<leftarrow> uvmunmap af (vs_mem vs) (pagetable mm) start (PGROUNDUP sz div PGSZ) True True;
                    Some (vs\<lparr>vs_mem := m\<rparr>, mm) } of None \<Rightarrow> None
                  | Some (vs, mm) \<Rightarrow>
                      if sz < len then map_option (\<lambda>(vs, mm, _). (vs, mm, 0)) (vmspace_unmap af vs mm (va + sz) (len - sz))
                      else Some (vs, mm, 0))"
  by pat_completeness auto
termination
  by (relation "measure (\<lambda>(af, vs, mm, va, len). length (head_vma mm))")
    (auto simp: del_vma_from_vmspace_def is_vma_in_vmspace_def bind_eq_Some_conv remove1_shorter)

declare vmspace_unmap.simps [simp del]

definition MMAP_START :: uint64 where "MMAP_START = 0x30000000"

text \<open>The hint \<open>start\<close> and the size are not used by the code.\<close>

definition find_mapping_space :: "vmst \<Rightarrow> mm_struct \<Rightarrow> uint64 option" where
  "find_mapping_space vs mm = do {
     let mx = fold (\<lambda>i mx. let pos = the_vma vs i in
                 if vm_type pos = VMA_INTERP \<or> vm_type pos = VMA_STACK then mx
                 else if mx < startva pos + vm_size pos then startva pos + vm_size pos else mx) (head_vma mm) MMAP_START;
     ASSERT (mx mod PGSZ = 0);
     (m, ret, pte) \<leftarrow> walk Some (vs_mem vs) (pagetable mm) mx False 0;
     ASSERT (ret = -1 \<or> (case pte of Some q \<Rightarrow> ld64 m q = 0 | None \<Rightarrow> False));
     Some mx }"

fun vmacopy_list :: "vmst \<Rightarrow> nat list \<Rightarrow> mm_struct \<Rightarrow> (vmst \<times> mm_struct \<times> int) option" where
  "vmacopy_list vs [] dst = Some (vs, dst, 0)"
| "vmacopy_list vs (i # is) dst = do {
     let pos = the_vma vs i;
     (vs, dst, r) \<leftarrow> (if vm_type pos = VMA_FILE
        then (case vm_file pos of None \<Rightarrow> None
              | Some fp \<Rightarrow> vma_map_file vs dst (startva pos) (vm_size pos) (perm pos) (vm_type pos) (vm_offset pos) fp)
        else vma_map vs dst (startva pos) (vm_size pos) (perm pos) (vm_type pos));
     if r < 0 then Some (vs, dst, -1) else vmacopy_list vs is dst }"

definition vmacopy :: "vmst \<Rightarrow> mm_struct \<Rightarrow> mm_struct \<Rightarrow> (vmst \<times> mm_struct \<times> int) option" where
  "vmacopy vs srcmm dstmm = vmacopy_list vs (head_vma srcmm) dstmm"

text \<open>\<open>list_for_each_entry_safe\<close>: the successor is read before the body runs, so an entry that an earlier
  iteration removed must not be visited.\<close>

fun free_vma_list :: "(kmem \<Rightarrow> kmem option) \<Rightarrow> nat list \<Rightarrow> vmst \<Rightarrow> mm_struct \<Rightarrow> (vmst \<times> mm_struct) option" where
  "free_vma_list af [] vs mm = Some (vs, mm)"
| "free_vma_list af (i # is) vs mm = do {
     ASSERT (i \<in> set (head_vma mm));
     let pos = the_vma vs i;
     (vs, mm) \<leftarrow> (if vm_type pos = VMA_HEAP \<and> vm_size pos = 0 then del_vma_from_vmspace vs mm i
        else do {
          (vs, mm, r) \<leftarrow> vmspace_unmap af vs mm (startva pos) (vm_size pos);
          ASSERT (0 \<le> r);
          Some (vs, mm) });
     free_vma_list af is vs mm }"

definition free_all_vmas :: "(kmem \<Rightarrow> kmem option) \<Rightarrow> vmst \<Rightarrow> mm_struct \<Rightarrow> (vmst \<times> mm_struct) option" where
  "free_all_vmas af vs mm = free_vma_list af (head_vma mm) vs mm"

subsection \<open>Splitting, and the system calls\<close>

definition split_vma :: "vmst \<Rightarrow> mm_struct \<Rightarrow> nat \<Rightarrow> uint64 \<Rightarrow> bool \<Rightarrow> (vmst \<times> mm_struct \<times> int) option" where
  "split_vma vs mm i addr new_below =
     (case alloc_vma vs of (vs, None) \<Rightarrow> Some (vs, mm, -1)
      | (vs, Some j) \<Rightarrow> do {
          let v = the_vma vs i;
          let (v', n) =
            (if new_below then
               (v\<lparr>vm_size := startva v + vm_size v - addr, startva := addr, vm_offset := vm_offset v + (addr - startva v)\<rparr>,
                v\<lparr>vm_size := addr - startva v\<rparr>)
             else
               (v\<lparr>vm_size := addr - startva v\<rparr>,
                v\<lparr>startva := addr, vm_size := startva v + vm_size v - addr, vm_offset := vm_offset v + (addr - startva v)\<rparr>));
          let vs = set_vma i v' (set_vma j n vs);
          vs \<leftarrow> (case vm_file n of None \<Rightarrow> Some vs | Some f \<Rightarrow> fat32_filedup f vs);
          mm \<leftarrow> add_vma_to_vmspace vs mm j;
          Some (vs, mm, 0) })"

definition mkperm :: "uint \<Rightarrow> uint \<Rightarrow> uint" where
  "mkperm prot flags = (if flags AND MAP_SHARED \<noteq> 0 then PERM_SHARED else 0) OR prot"

text \<open>The two splits that carve \<open>[start, fin)\<close> out of an area, shared by \<open>do_mmap\<close> and \<open>sys_mprotect\<close>.\<close>

definition carve :: "vmst \<Rightarrow> mm_struct \<Rightarrow> nat \<Rightarrow> uint64 \<Rightarrow> uint64 \<Rightarrow> (vmst \<times> mm_struct \<times> int) option" where
  "carve vs mm i start fin = do {
     (vs, mm, r) \<leftarrow> (if start \<noteq> startva (the_vma vs i) then split_vma vs mm i start True else Some (vs, mm, 0));
     if r < 0 then Some (vs, mm, -1)
     else if fin \<noteq> startva (the_vma vs i) + vm_size (the_vma vs i) then split_vma vs mm i fin False
     else Some (vs, mm, 0) }"

definition MAP_FAILED :: uint64 where "MAP_FAILED = - 1"

definition do_mmap :: "vmst \<Rightarrow> mm_struct \<Rightarrow> uint64 \<Rightarrow> uint64 \<Rightarrow> uint \<Rightarrow> uint \<Rightarrow> nat option \<Rightarrow> uint64 \<Rightarrow>
    (vmst \<times> mm_struct \<times> uint64) option" where
  "do_mmap vs mm addr len prot flags fp offset = do {
     (vs, mm, r) \<leftarrow>
       (if addr = 0 then do { mapva \<leftarrow> find_mapping_space vs mm; Some (vs, mm, Some mapva) }
        else if flags AND MAP_FIXED = 0 then Some (vs, mm, None)
        else case find_vma_for_va vs mm addr of None \<Rightarrow> Some (vs, mm, Some 0)
          | Some i \<Rightarrow> do {
              (vs, mm, r) \<leftarrow> carve vs mm i addr (addr + len);
              if r < 0 then Some (vs, mm, None)
              else do {
                let mm = (if vm_type (the_vma vs i) = VMA_HEAP
                          then fold (\<lambda>j mm. if vm_type (the_vma vs j) = VMA_HEAP \<and> startva (the_vma vs j) + vm_size (the_vma vs j) = brk mm
                                            then mm\<lparr>heapvma := Some j\<rparr> else mm) (head_vma mm) mm
                          else mm);
                (vs, mm) \<leftarrow> del_vma_from_vmspace vs mm i;
                Some (vs, mm, Some addr) } });
     case r of None \<Rightarrow> Some (vs, mm, MAP_FAILED)
     | Some mapva \<Rightarrow> do {
         (vs, mm, r) \<leftarrow> (case fp of
              Some f \<Rightarrow> if flags AND MAP_ANONYMOUS \<noteq> 0 then vma_map vs mm mapva len (mkperm prot flags) VMA_ANON
                        else vma_map_file vs mm mapva len (mkperm prot flags) VMA_FILE offset f
            | None \<Rightarrow> vma_map vs mm mapva len (mkperm prot flags) VMA_ANON);
         Some (vs, mm, if r < 0 then MAP_FAILED else mapva) } }"

text \<open>The system calls, after the arguments have been fetched; \<open>sys_munmap\<close> has a special case for the threads
  of two test programs, where a missing area is a null dereference.\<close>

definition sys_mmap :: "vmst \<Rightarrow> mm_struct \<Rightarrow> uint64 \<Rightarrow> uint64 \<Rightarrow> uint \<Rightarrow> uint \<Rightarrow> nat option \<Rightarrow> uint64 \<Rightarrow>
    (vmst \<times> mm_struct \<times> uint64) option" where
  "sys_mmap vs mm addr len prot flags fp offset =
     (if offset \<noteq> 0 then Some (vs, mm, MAP_FAILED) else do_mmap vs mm addr len prot flags fp offset)"

definition sys_munmap :: "(kmem \<Rightarrow> kmem option) \<Rightarrow> string \<Rightarrow> nat \<Rightarrow> vmst \<Rightarrow> mm_struct \<Rightarrow> uint64 \<Rightarrow> uint64 \<Rightarrow>
    (vmst \<times> mm_struct \<times> int) option" where
  "sys_munmap af name tidx vs mm addr len = do {
     let v2 = find_vma_for_va vs mm addr;
     skip \<leftarrow> (if (name = ''entry-dynamic.exe'' \<or> name = ''entry-static.exe'') \<and> tidx \<noteq> 0
              then map_option (\<lambda>i. vm_type (the_vma vs i) = VMA_ANON) v2 else Some False);
     if skip then Some (vs, mm, 0)
     else do {
       (vs, mm, r) \<leftarrow> vmspace_unmap af vs mm addr len;
       Some (vs, mm, if r \<noteq> 0 then -1 else 0) } }"

definition sys_mprotect :: "vmst \<Rightarrow> mm_struct \<Rightarrow> uint64 \<Rightarrow> uint64 \<Rightarrow> uint \<Rightarrow> (vmst \<times> mm_struct \<times> int) option" where
  "sys_mprotect vs mm start len prot =
     (if len = 0 then Some (vs, mm, 0)
      else
        let fin = start + PGROUNDUP len in
        if fin < start then Some (vs, mm, -1)
        else if prot AND NOT 7 \<noteq> 0 then Some (vs, mm, -1)
        else case find_vma_for_va vs mm start of None \<Rightarrow> Some (vs, mm, -1)
          | Some i \<Rightarrow> do {
              (vs, mm, r) \<leftarrow> carve vs mm i start fin;
              if r < 0 then Some (vs, mm, -1)
              else Some (set_vma i ((the_vma vs i)\<lparr>perm := prot\<rparr>) vs, mm, 0) })"

subsection \<open>Invariant\<close>

text \<open>The address range of an area, and the invariant of an address space: the listed areas are in use,
  non-empty, end inside the 64-bit address range, and are pairwise disjoint.\<close>

definition area :: "vma \<Rightarrow> nat set" where
  "area v = {unat (startva v) ..< unat (startva v) + unat (vm_size v)}"

definition vma_ok :: "vma \<Rightarrow> bool" where
  "vma_ok v \<longleftrightarrow> used v \<and> vm_size v \<noteq> 0 \<and> unat (startva v) + unat (vm_size v) < 2 ^ 64"

definition vs_ok :: "vmst \<Rightarrow> mm_struct \<Rightarrow> bool" where
  "vs_ok vs mm \<longleftrightarrow> distinct (head_vma mm) \<and>
     (\<forall>i\<in>set (head_vma mm). i < length (vs_vmas vs) \<and> vma_ok (the_vma vs i)) \<and>
     (\<forall>i\<in>set (head_vma mm). \<forall>j\<in>set (head_vma mm). i \<noteq> j \<longrightarrow> area (the_vma vs i) \<inter> area (the_vma vs j) = {})"

text \<open>What an address means to the page-fault handler: the type, permissions and file of its area and the file
  offset of the byte.\<close>

definition view :: "vmst \<Rightarrow> mm_struct \<Rightarrow> uint64 \<Rightarrow> (vmatype \<times> uint \<times> nat option \<times> uint64) option" where
  "view vs mm addr = map_option (\<lambda>i. let v = the_vma vs i in (vm_type v, perm v, vm_file v, vm_offset v + (addr - startva v)))
     (find_vma_for_va vs mm addr)"

lemma unat_endva: "vma_ok v \<Longrightarrow> unat (endva v) = unat (startva v) + unat (vm_size v)"
  unfolding vma_ok_def endva_def by (subst unat_add_lem [THEN iffD1]) simp_all

lemma in_area_iff: "vma_ok v \<Longrightarrow> startva v \<le> addr \<and> addr < endva v \<longleftrightarrow> unat addr \<in> area v"
  by (simp add: area_def word_le_nat_alt word_less_nat_alt unat_endva)

lemma vma_ok_pos: "vma_ok v \<Longrightarrow> 0 < unat (vm_size v)"
  by (simp add: vma_ok_def unat_gt_0)

lemma area_start: "vma_ok v \<Longrightarrow> unat (startva v) \<in> area v"
  by (simp add: area_def vma_ok_def unat_gt_0)

lemma vs_okD:
  assumes "vs_ok vs mm" "i \<in> set (head_vma mm)"
  shows "i < length (vs_vmas vs)" "vma_ok (the_vma vs i)"
  using assms by (auto simp: vs_ok_def)

lemma vs_ok_unique:
  assumes "vs_ok vs mm" "i \<in> set (head_vma mm)" "j \<in> set (head_vma mm)" "x \<in> area (the_vma vs i)" "x \<in> area (the_vma vs j)"
  shows "i = j"
  using assms unfolding vs_ok_def by blast

lemma find_vma_iff:
  assumes ok: "vs_ok vs mm"
  shows "find_vma_for_va vs mm addr = Some i \<longleftrightarrow> i \<in> set (head_vma mm) \<and> unat addr \<in> area (the_vma vs i)"
proof -
  have "find_vma vs is addr = Some i \<longleftrightarrow> i \<in> set is \<and> unat addr \<in> area (the_vma vs i)"
    if "set is \<subseteq> set (head_vma mm)" for "is"
    using that
  proof (induction "is")
    case (Cons j js)
    have "vma_ok (the_vma vs j)" using Cons.prems vs_okD [OF ok] by simp
    note in_area_iff [OF this, of addr]
    moreover have "i \<in> set js \<Longrightarrow> unat addr \<in> area (the_vma vs i) \<Longrightarrow> unat addr \<in> area (the_vma vs j) \<Longrightarrow> i = j"
      using vs_ok_unique [OF ok] Cons.prems by auto
    ultimately show ?case using Cons by auto
  qed simp
  then show ?thesis by (simp add: find_vma_for_va_def)
qed

lemma find_vma_None:
  "vs_ok vs mm \<Longrightarrow> find_vma_for_va vs mm addr = None \<longleftrightarrow> (\<forall>i\<in>set (head_vma mm). unat addr \<notin> area (the_vma vs i))"
  using find_vma_iff [of vs mm addr] by (metis option.exhaust option.distinct(1))

text \<open>The overlap test looks only at the two ends of the new area.\<close>

lemma check_intersect_iff:
  assumes ok: "\<forall>i\<in>set head. vma_ok (the_vma vs i)" and v: "vma_ok v"
  shows "check_vma_intersect vs head v \<longleftrightarrow> (\<exists>i\<in>set head.
    unat (startva v) \<in> area (the_vma vs i) \<or> unat (startva v) + unat (vm_size v) - 1 \<in> area (the_vma vs i))"
proof -
  have "unat (startva v + vm_size v - 1) = unat (startva v) + unat (vm_size v) - 1"
    using unat_endva [OF v] v by (subst unat_sub) (simp_all add: endva_def [symmetric] vma_ok_def word_le_nat_alt unat_gt_0 Suc_le_eq)
  then show ?thesis
    using in_area_iff ok unfolding check_vma_intersect_def list_ex_iff Let_def endva_def by metis
qed

lemma area_intersect_ends:
  assumes "vma_ok v" "area v \<inter> area w \<noteq> {}" "\<not> area w \<subseteq> area v"
  shows "unat (startva v) \<in> area w \<or> unat (startva v) + unat (vm_size v) - 1 \<in> area w"
  using assms by (auto simp: area_def vma_ok_def unat_eq_0)

lemma first_free_Some: "first_free vs k = Some j \<Longrightarrow> k \<le> j \<and> j < k + length vs \<and> \<not> used (vs ! (j - k))"
  by (induction vs k rule: first_free.induct) (fastforce simp: nth_Cons' split: if_splits)+

lemma first_free_None: "first_free vs k = None \<longleftrightarrow> (\<forall>v\<in>set vs. used v)"
  by (induction vs k rule: first_free.induct) auto

definition free_slots :: "vmst \<Rightarrow> nat" where
  "free_slots vs = length (filter (\<lambda>v. \<not> used v) (vs_vmas vs))"

lemma alloc_vma_cases:
  obtains "alloc_vma vs = (vs, None)" "\<forall>v\<in>set (vs_vmas vs). used v"
  | j where "alloc_vma vs = (set_vma j ((the_vma vs j)\<lparr>used := True\<rparr>) vs, Some j)" "j < length (vs_vmas vs)" "\<not> used (the_vma vs j)"
proof (cases "first_free (vs_vmas vs) 0")
  case None
  then show thesis using that(1) first_free_None [of "vs_vmas vs" 0] by (simp add: alloc_vma_def)
next
  case (Some j)
  then show thesis using that(2) [of j] first_free_Some [OF Some] by (auto simp: alloc_vma_def)
qed

lemma vs_vmas_set [simp]: "vs_vmas (set_vma i v vs) = (vs_vmas vs)[i := v]"
  by (simp add: set_vma_def)

lemma vs_ok_cong:
  "vs_ok vs mm \<Longrightarrow> head_vma mm' = head_vma mm \<Longrightarrow> length (vs_vmas vs') = length (vs_vmas vs) \<Longrightarrow>
    \<forall>i\<in>set (head_vma mm). the_vma vs' i = the_vma vs i \<Longrightarrow> vs_ok vs' mm'"
  by (auto simp: vs_ok_def)

lemma add_vma_ok:
  assumes ok: "vs_ok vs mm" and j: "j < length (vs_vmas vs)" "j \<notin> set (head_vma mm)" "vma_ok (the_vma vs j)"
    and d: "\<forall>i\<in>set (head_vma mm). area (the_vma vs j) \<inter> area (the_vma vs i) = {}"
  shows "add_vma_to_vmspace vs mm j = Some (mm\<lparr>head_vma := j # head_vma mm\<rparr>)" "vs_ok vs (mm\<lparr>head_vma := j # head_vma mm\<rparr>)"
proof -
  have "unat (startva (the_vma vs j)) \<in> area (the_vma vs j)"
    "unat (startva (the_vma vs j)) + unat (vm_size (the_vma vs j)) - 1 \<in> area (the_vma vs j)"
    using j(3) vma_ok_pos [OF j(3)] by (simp_all add: area_def)
  then have "\<not> check_vma_intersect vs (head_vma mm) (the_vma vs j)"
    using d j(3) vs_okD(2) [OF ok] by (subst check_intersect_iff) blast+
  then show "add_vma_to_vmspace vs mm j = Some (mm\<lparr>head_vma := j # head_vma mm\<rparr>)"
    by (simp add: add_vma_to_vmspace_def)
  show "vs_ok vs (mm\<lparr>head_vma := j # head_vma mm\<rparr>)"
    using ok j d unfolding vs_ok_def by (simp add: Int_commute)
qed

lemma shrink_vma_ok:
  assumes ok: "vs_ok vs mm" and v: "vma_ok v'" "area v' \<subseteq> area (the_vma vs i)" and i: "i \<in> set (head_vma mm)"
    and vs': "vs_vmas vs' = (vs_vmas vs)[i := v']"
  shows "vs_ok vs' mm"
  unfolding vs_ok_def
proof (intro conjI ballI impI)
  have sub: "area (the_vma vs' k) \<subseteq> area (the_vma vs k)" for k
    using v(2) vs_okD(1) [OF ok i] vs' by (cases "k = i") simp_all
  show "distinct (head_vma mm)" using ok by (simp add: vs_ok_def)
  fix k assume k: "k \<in> set (head_vma mm)"
  show "k < length (vs_vmas vs')" "vma_ok (the_vma vs' k)"
    using vs_okD [OF ok k] v(1) vs' by (simp, cases "k = i", simp_all)
  fix l assume l: "l \<in> set (head_vma mm)" "k \<noteq> l"
  have "area (the_vma vs k) \<inter> area (the_vma vs l) = {}" using ok k l unfolding vs_ok_def by blast
  then show "area (the_vma vs' k) \<inter> area (the_vma vs' l) = {}" using sub by blast
qed

text \<open>Cutting an area in two pieces with the same attributes changes no address's meaning.\<close>

definition piece :: "vma \<Rightarrow> vma \<Rightarrow> bool" where
  "piece v p \<longleftrightarrow> vma_ok p \<and> vm_type p = vm_type v \<and> perm p = perm v \<and> vm_file p = vm_file v \<and>
     vm_offset p - startva p = vm_offset v - startva v"

definition vma_view :: "vma \<Rightarrow> uint64 \<Rightarrow> vmatype \<times> uint \<times> nat option \<times> uint64" where
  "vma_view v addr = (vm_type v, perm v, vm_file v, vm_offset v + (addr - startva v))"

lemma piece_view: "piece v p \<Longrightarrow> vma_view p addr = vma_view v addr"
proof -
  assume "piece v p"
  moreover have "vm_offset w + (addr - startva w) = (vm_offset w - startva w) + addr" for w
    by (simp add: algebra_simps)
  ultimately show ?thesis by (simp add: piece_def vma_view_def)
qed

lemma view_eq: "view vs mm addr = map_option (\<lambda>i. vma_view (the_vma vs i) addr) (find_vma_for_va vs mm addr)"
  by (simp add: view_def vma_view_def Let_def)

lemma view_Some: "vs_ok vs mm \<Longrightarrow> i \<in> set (head_vma mm) \<Longrightarrow> unat addr \<in> area (the_vma vs i) \<Longrightarrow>
    view vs mm addr = Some (vma_view (the_vma vs i) addr)"
  using find_vma_iff [of vs mm addr i] by (simp add: view_eq)

lemma view_None: "vs_ok vs mm \<Longrightarrow> \<forall>i\<in>set (head_vma mm). unat addr \<notin> area (the_vma vs i) \<Longrightarrow> view vs mm addr = None"
  using find_vma_None [of vs mm addr] by (simp add: view_eq)

lemma split_core:
  assumes ok: "vs_ok vs mm" and i: "i \<in> set (head_vma mm)" and j: "j < length (vs_vmas vs)" "j \<notin> set (head_vma mm)"
    and p: "piece (the_vma vs i) v'" "piece (the_vma vs i) n" and a: "area v' \<union> area n = area (the_vma vs i)" "area v' \<inter> area n = {}"
    and vs': "vs_vmas vs' = (vs_vmas vs)[j := n, i := v']"
  defines "mm' \<equiv> mm\<lparr>head_vma := j # head_vma mm\<rparr>"
  shows "add_vma_to_vmspace vs' mm j = Some mm'" "vs_ok vs' mm'" "view vs' mm' addr = view vs mm addr"
proof -
  let ?vs1 = "set_vma j n vs"
  have ij: "i \<noteq> j" and il: "i < length (vs_vmas vs)" using i j(2) vs_okD(1) [OF ok i] by auto
  have at: "the_vma vs' k = (if k = i then v' else if k = j then n else the_vma vs k)" if "k < length (vs_vmas vs)" for k
    using that vs' ij il j(1) by (simp add: nth_list_update)
  have ok1: "vs_ok ?vs1 mm"
  proof (rule vs_ok_cong [OF ok])
    show "\<forall>k\<in>set (head_vma mm). the_vma ?vs1 k = the_vma vs k"
      using j(2) by (metis nth_list_update_neq vs_vmas_set)
  qed simp_all
  have ok': "vs_ok vs' mm"
    using p(1) a(1) ij i vs' by (intro shrink_vma_ok [OF ok1]) (auto simp: piece_def)
  have d: "\<forall>k\<in>set (head_vma mm). area (the_vma vs' j) \<inter> area (the_vma vs' k) = {}"
  proof
    fix k assume k: "k \<in> set (head_vma mm)"
    show "area (the_vma vs' j) \<inter> area (the_vma vs' k) = {}"
    proof (cases "k = i")
      case False
      have "area (the_vma vs i) \<inter> area (the_vma vs k) = {}" using ok i k False unfolding vs_ok_def by blast
      then show ?thesis using at [OF j(1)] at [OF vs_okD(1) [OF ok k]] k j ij False a(1) by auto
    qed (use at [OF j(1)] at [OF il] ij a(2) in auto)
  qed
  have jl: "j < length (vs_vmas vs')" "vma_ok (the_vma vs' j)"
    using j(1) p(2) at [OF j(1)] ij vs' by (simp_all add: piece_def)
  note add = add_vma_ok [OF ok' jl(1) j(2) jl(2) d, folded mm'_def]
  show "add_vma_to_vmspace vs' mm j = Some mm'" "vs_ok vs' mm'" by (rule add)+
  show "view vs' mm' addr = view vs mm addr"
  proof (cases "\<exists>k\<in>set (head_vma mm). unat addr \<in> area (the_vma vs k)")
    case False
    then have "\<forall>k\<in>set (head_vma mm'). unat addr \<notin> area (the_vma vs' k)"
      using at vs_okD(1) [OF ok] a(1) i j(1) ij by (auto simp: mm'_def)
    then show ?thesis using view_None [OF add(2)] view_None [OF ok] False by simp
  next
    case True
    then obtain k where k: "k \<in> set (head_vma mm)" "unat addr \<in> area (the_vma vs k)" by blast
    have old: "view vs mm addr = Some (vma_view (the_vma vs k) addr)" using view_Some [OF ok k] .
    show ?thesis
    proof (cases "k = i")
      case False
      then have "the_vma vs' k = the_vma vs k" using at [OF vs_okD(1) [OF ok k(1)]] k(1) j(2) by auto
      then show ?thesis
        using view_Some [OF add(2), of k addr] k old by (auto simp: mm'_def)
    next
      case ki: True
      then have "unat addr \<in> area v' \<or> unat addr \<in> area n" using a(1) k(2) by blast
      then show ?thesis
        using view_Some [OF add(2), of i addr] view_Some [OF add(2), of j addr] at [OF il] at [OF j(1)] ij i ki old
          piece_view [OF p(1), of addr] piece_view [OF p(2), of addr] by (auto simp: mm'_def)
    qed
  qed
qed

lemma length_filter_update:
  "j < length xs \<Longrightarrow> P (xs ! j) \<Longrightarrow> \<not> P y \<Longrightarrow> Suc (length (filter P (xs[j := y]))) = length (filter P xs)"
proof (induction xs arbitrary: j)
  case (Cons x xs)
  then show ?case by (cases j) auto
qed simp

lemma filter_update_same:
  "j < length xs \<Longrightarrow> \<not> P (xs ! j) \<Longrightarrow> \<not> P y \<Longrightarrow> length (filter P (xs[j := y])) = length (filter P xs)"
proof (induction xs arbitrary: j)
  case (Cons x xs)
  then show ?case by (cases j) auto
qed simp

lemma free_slots_pos: "0 < free_slots vs \<longleftrightarrow> (\<exists>v\<in>set (vs_vmas vs). \<not> used v)"
  by (auto simp: free_slots_def filter_empty_conv)

definition file_ok :: "nat \<Rightarrow> vmst \<Rightarrow> vma \<Rightarrow> bool" where
  "file_ok k vs v \<longleftrightarrow> (\<forall>f. vm_file v = Some f \<longrightarrow> 1 \<le> f_count (vs_file vs f) \<and> unat (f_count (vs_file vs f)) + k < 2 ^ 16)"

text \<open>The two pieces of a split.\<close>

definition lower :: "vma \<Rightarrow> uint64 \<Rightarrow> vma" where
  "lower v addr = v\<lparr>vm_size := addr - startva v\<rparr>"

definition upper :: "vma \<Rightarrow> uint64 \<Rightarrow> vma" where
  "upper v addr = v\<lparr>startva := addr, vm_size := startva v + vm_size v - addr, vm_offset := vm_offset v + (addr - startva v)\<rparr>"

lemma split_pieces:
  assumes v: "vma_ok v" and lo: "startva v < addr" and hi: "addr < endva v"
  shows "piece v (lower v addr)" "piece v (upper v addr)"
    "area (lower v addr) = {unat (startva v) ..< unat addr}" "area (upper v addr) = {unat addr ..< unat (startva v) + unat (vm_size v)}"
    "endva (lower v addr) = addr" "endva (upper v addr) = endva v"
    "area (lower v addr) \<union> area (upper v addr) = area v" "area (lower v addr) \<inter> area (upper v addr) = {}"
proof -
  have n: "unat (startva v) < unat addr" "unat addr < unat (startva v) + unat (vm_size v)"
    using lo hi unat_endva [OF v] by (simp_all add: word_less_nat_alt)
  have l: "unat (addr - startva v) = unat addr - unat (startva v)"
    using n by (simp add: unat_sub word_le_nat_alt)
  have u: "unat (startva v + vm_size v - addr) = unat (startva v) + unat (vm_size v) - unat addr"
    using n unat_endva [OF v] unfolding endva_def [symmetric] by (simp add: unat_sub word_le_nat_alt)
  have nz: "addr - startva v \<noteq> 0" "startva v + vm_size v - addr \<noteq> 0"
    using lo hi by (auto simp: endva_def)
  show "piece v (lower v addr)" "piece v (upper v addr)"
    using v n l u nz by (auto simp: piece_def lower_def upper_def vma_ok_def)
  show a: "area (lower v addr) = {unat (startva v) ..< unat addr}" "area (upper v addr) = {unat addr ..< unat (startva v) + unat (vm_size v)}"
    using n l u by (simp_all add: area_def lower_def upper_def)
  show "area (lower v addr) \<union> area (upper v addr) = area v" "area (lower v addr) \<inter> area (upper v addr) = {}"
    unfolding a using n by (auto simp: area_def)
  show "endva (lower v addr) = addr" "endva (upper v addr) = endva v"
    by (simp_all add: endva_def lower_def upper_def)
qed

lemma split_vma_eq:
  "split_vma vs mm i addr below = (case alloc_vma vs of (vs, None) \<Rightarrow> Some (vs, mm, -1)
     | (vs, Some j) \<Rightarrow> do {
         let v = the_vma vs i;
         let n = (if below then lower v addr else upper v addr);
         let vs = set_vma i (if below then upper v addr else lower v addr) (set_vma j n vs);
         vs \<leftarrow> (case vm_file n of None \<Rightarrow> Some vs | Some f \<Rightarrow> fat32_filedup f vs);
         mm \<leftarrow> add_vma_to_vmspace vs mm j;
         Some (vs, mm, 0) })"
proof -
  have "v\<lparr>vm_size := startva v + vm_size v - addr, startva := addr, vm_offset := vm_offset v + (addr - startva v)\<rparr> = upper v addr" for v
    by (simp add: upper_def)
  then show ?thesis
    unfolding split_vma_def lower_def [symmetric] upper_def [symmetric] Let_def
    by (cases below) (simp_all only: if_True if_False prod.case)
qed

definition split_post :: "vmst \<Rightarrow> mm_struct \<Rightarrow> nat \<Rightarrow> vma \<Rightarrow> vmst \<Rightarrow> mm_struct \<Rightarrow> bool" where
  "split_post vs mm i v' vs' mm' \<longleftrightarrow> vs_ok vs' mm' \<and> (\<forall>addr. view vs' mm' addr = view vs mm addr) \<and>
     i \<in> set (head_vma mm') \<and> the_vma vs' i = v' \<and> Suc (free_slots vs') = free_slots vs \<and>
     (\<forall>k w. file_ok (Suc k) vs w \<longrightarrow> file_ok k vs' w)"

lemma split_vma_run:
  assumes ok: "vs_ok vs mm" and i: "i \<in> set (head_vma mm)" and fr: "0 < free_slots vs"
    and b: "startva (the_vma vs i) < addr" "addr < endva (the_vma vs i)" and f: "file_ok 1 vs (the_vma vs i)"
  shows "\<exists>vs' mm'. split_vma vs mm i addr below = Some (vs', mm', 0) \<and>
    split_post vs mm i (if below then upper (the_vma vs i) addr else lower (the_vma vs i) addr) vs' mm'"
proof -
  let ?v = "the_vma vs i"
  define v' n where "v' = (if below then upper ?v addr else lower ?v addr)" and "n = (if below then lower ?v addr else upper ?v addr)"
  obtain j where j: "alloc_vma vs = (set_vma j ((the_vma vs j)\<lparr>used := True\<rparr>) vs, Some j)" "j < length (vs_vmas vs)"
    "\<not> used (the_vma vs j)"
    using fr free_slots_pos by (cases vs rule: alloc_vma_cases) auto
  have vok: "vma_ok ?v" and il: "i < length (vs_vmas vs)" using vs_okD [OF ok i] by auto
  have jh: "j \<notin> set (head_vma mm)" using vs_okD(2) [OF ok] j(3) by (auto simp: vma_ok_def)
  then have ij: "i \<noteq> j" using i by auto
  note sp = split_pieces [OF vok b]
  have P: "piece ?v v'" "piece ?v n" "area v' \<union> area n = area ?v" "area v' \<inter> area n = {}"
    using sp by (simp_all add: v'_def n_def Un_commute Int_commute)
  define vs2 where "vs2 = set_vma i v' (set_vma j n (set_vma j ((the_vma vs j)\<lparr>used := True\<rparr>) vs))"
  obtain vs3 where vs3: "(case vm_file n of None \<Rightarrow> Some vs2 | Some f \<Rightarrow> fat32_filedup f vs2) = Some vs3"
    "vs_vmas vs3 = vs_vmas vs2" "\<And>k w. file_ok (Suc k) vs w \<Longrightarrow> file_ok k vs3 w"
  proof (cases "vm_file n")
    case None
    have "file_ok k vs2 w" if "file_ok (Suc k) vs w" for k w
      using that by (auto simp: file_ok_def vs2_def set_vma_def)
    then show thesis using that [of vs2] None by simp
  next
    case (Some g)
    then have g: "vm_file ?v = Some g" using P(2) by (simp add: piece_def)
    let ?vs3 = "vs2\<lparr>vs_file := (vs_file vs2)(g := (vs_file vs2 g)\<lparr>f_count := f_count (vs_file vs2 g) + 1\<rparr>)\<rparr>"
    have fe: "vs_file vs2 = vs_file vs" by (simp add: vs2_def set_vma_def)
    have run: "fat32_filedup g vs2 = Some ?vs3"
      using f g fe by (simp add: fat32_filedup_def file_ok_def)
    have "unat (f_count (vs_file vs g) + 1) = unat (f_count (vs_file vs g)) + 1"
      using f g by (subst unat_add_lem [THEN iffD1]) (auto simp: file_ok_def)
    then have "file_ok k ?vs3 w" if "file_ok (Suc k) vs w" for k w
      using that fe by (auto simp: file_ok_def word_le_nat_alt)
    then show thesis using that [of ?vs3] Some run by simp
  qed
  have upd: "vs_vmas vs3 = (vs_vmas vs)[j := n, i := v']"
    using vs3(2) by (simp add: vs2_def)
  note core = split_core [OF ok i j(2) jh P(1-4) upd]
  have "split_vma vs mm i addr below = Some (vs3, mm\<lparr>head_vma := j # head_vma mm\<rparr>, 0)"
  proof -
    have vi: "the_vma (set_vma j ((the_vma vs j)\<lparr>used := True\<rparr>) vs) i = ?v" using ij by simp
    have "split_vma vs mm i addr below = Option.bind (case vm_file n of None \<Rightarrow> Some vs2 | Some f \<Rightarrow> fat32_filedup f vs2)
        (\<lambda>vs. Option.bind (add_vma_to_vmspace vs mm j) (\<lambda>mm. Some (vs, mm, 0)))"
      unfolding split_vma_eq j(1) v'_def n_def vs2_def by (simp only: prod.case option.case Let_def vi)
    then show ?thesis using vs3(1) core(1) by simp
  qed
  moreover have "split_post vs mm i v' vs3 (mm\<lparr>head_vma := j # head_vma mm\<rparr>)"
    unfolding split_post_def
  proof (intro conjI)
    have "used n" "used v'" using P(1,2) by (simp_all add: piece_def vma_ok_def)
    then have "Suc (length (filter (\<lambda>v. \<not> used v) ((vs_vmas vs)[j := n]))) = free_slots vs"
      "length (filter (\<lambda>v. \<not> used v) ((vs_vmas vs)[j := n, i := v'])) = length (filter (\<lambda>v. \<not> used v) ((vs_vmas vs)[j := n]))"
      using length_filter_update [OF j(2), of "\<lambda>v. \<not> used v" n] j(3) vok
        filter_update_same [of i "(vs_vmas vs)[j := n]" "\<lambda>v. \<not> used v" v'] ij il by (simp_all add: free_slots_def vma_ok_def)
    then show "Suc (free_slots vs3) = free_slots vs" by (simp add: free_slots_def upd)
  qed (use core(2,3) i il upd vs3(3) in simp_all)
  ultimately show ?thesis unfolding v'_def by blast
qed

text \<open>Carving \<open>[start, fin)\<close> out of the area \<open>i\<close> that contains it.\<close>

lemma carve_run:
  assumes ok: "vs_ok vs mm" and i: "i \<in> set (head_vma mm)" and fr: "2 \<le> free_slots vs" and f: "file_ok 2 vs (the_vma vs i)"
    and b: "startva (the_vma vs i) \<le> start" "start < fin" "fin \<le> endva (the_vma vs i)"
  shows "\<exists>vs' mm'. carve vs mm i start fin = Some (vs', mm', 0) \<and> vs_ok vs' mm' \<and> (\<forall>addr. view vs' mm' addr = view vs mm addr) \<and>
    i \<in> set (head_vma mm') \<and> area (the_vma vs' i) = {unat start ..< unat fin}"
proof -
  let ?v = "the_vma vs i"
  have vok: "vma_ok ?v" using vs_okD [OF ok i] by auto
  obtain vs1 mm1 where 1: "(if start \<noteq> startva ?v then split_vma vs mm i start True else Some (vs, mm, 0)) = Some (vs1, mm1, 0)"
    "vs_ok vs1 mm1" "\<forall>addr. view vs1 mm1 addr = view vs mm addr" "i \<in> set (head_vma mm1)" "1 \<le> free_slots vs1"
    "file_ok 1 vs1 (the_vma vs1 i)" "startva (the_vma vs1 i) = start" "endva (the_vma vs1 i) = endva ?v"
  proof (cases "start = startva ?v")
    case True
    have f1: "file_ok 1 vs ?v" using f by (auto simp: file_ok_def)
    show thesis by (rule that [of vs mm]) (use ok i fr True f1 in simp_all)
  next
    case False
    have lo: "startva ?v < start" "start < endva ?v" using b False by auto
    have f1: "file_ok 1 vs ?v" using f by (auto simp: file_ok_def)
    have fr1: "0 < free_slots vs" using fr by simp
    obtain vs1 mm1 where s: "split_vma vs mm i start True = Some (vs1, mm1, 0)" "split_post vs mm i (upper ?v start) vs1 mm1"
      using split_vma_run [OF ok i fr1 lo f1, of True] by auto
    have v1: "the_vma vs1 i = upper ?v start" using s(2) by (simp add: split_post_def)
    have "file_ok (Suc 1) vs (upper ?v start)" using f by (simp add: file_ok_def upper_def)
    then have "file_ok 1 vs1 (the_vma vs1 i)" using s(2) v1 unfolding split_post_def by metis
    then show thesis
      by (intro that [of vs1 mm1]) (use s fr False v1 split_pieces(6) [OF vok lo] in \<open>simp_all add: split_post_def upper_def\<close>)
  qed
  show ?thesis
  proof (cases "fin = endva ?v")
    case True
    have "vma_ok (the_vma vs1 i)" using vs_okD [OF 1(2,4)] by auto
    then have "area (the_vma vs1 i) = {unat start ..< unat fin}"
      using unat_endva [of "the_vma vs1 i"] 1(7,8) True by (simp add: area_def)
    moreover have "carve vs mm i start fin = Some (vs1, mm1, 0)"
      using 1(1,8) True by (simp add: carve_def endva_def split: if_splits)
    ultimately show ?thesis using 1(2-4) by blast
  next
    case False
    have fr1: "0 < free_slots vs1" and b1: "startva (the_vma vs1 i) < fin" "fin < endva (the_vma vs1 i)"
      using 1(5,7,8) b False by auto
    obtain vs2 mm2 where s: "split_vma vs1 mm1 i fin False = Some (vs2, mm2, 0)" "split_post vs1 mm1 i (lower (the_vma vs1 i) fin) vs2 mm2"
      using split_vma_run [OF 1(2,4) fr1 b1 1(6), of False] by auto
    have "vma_ok (the_vma vs1 i)" using vs_okD [OF 1(2,4)] by auto
    from split_pieces(3) [OF this b1] have "area (the_vma vs2 i) = {unat start ..< unat fin}"
      using s(2) 1(7) by (simp add: split_post_def)
    moreover have "carve vs mm i start fin = Some (vs2, mm2, 0)"
      using 1(1,8) s(1) False by (simp add: carve_def endva_def split: if_splits)
    ultimately show ?thesis using s(2) 1(3) by (auto simp: split_post_def)
  qed
qed

text \<open>A split at or beyond the end of the area: the remainder wraps around, its last byte falls into the area
  that was just enlarged, and the overlap assertion fails.\<close>

lemma split_past_end:
  assumes ok: "vs_ok vs mm" and i: "i \<in> set (head_vma mm)" and fr: "0 < free_slots vs"
    and b: "endva (the_vma vs i) < addr"
  shows "split_vma vs mm i addr False = None"
proof -
  let ?v = "the_vma vs i"
  obtain j where j: "alloc_vma vs = (set_vma j ((the_vma vs j)\<lparr>used := True\<rparr>) vs, Some j)" "j < length (vs_vmas vs)"
    "\<not> used (the_vma vs j)"
    using fr free_slots_pos by (cases vs rule: alloc_vma_cases) auto
  have vok: "vma_ok ?v" and il: "i < length (vs_vmas vs)" using vs_okD [OF ok i] by auto
  have ij: "i \<noteq> j" using vs_okD(2) [OF ok i] j(3) by (auto simp: vma_ok_def)
  define vs2 where "vs2 = set_vma i (lower ?v addr) (set_vma j (upper ?v addr) (set_vma j ((the_vma vs j)\<lparr>used := True\<rparr>) vs))"
  have vi: "the_vma (set_vma j ((the_vma vs j)\<lparr>used := True\<rparr>) vs) i = ?v" using ij by simp
  have run: "split_vma vs mm i addr False = Option.bind (case vm_file (upper ?v addr) of None \<Rightarrow> Some vs2 | Some f \<Rightarrow> fat32_filedup f vs2)
      (\<lambda>vs. Option.bind (add_vma_to_vmspace vs mm j) (\<lambda>mm. Some (vs, mm, 0)))"
    unfolding split_vma_eq j(1) vs2_def by (simp only: prod.case option.case Let_def vi if_False)
  have "add_vma_to_vmspace vs3 mm j = None" if vs3: "vs_vmas vs3 = vs_vmas vs2" for vs3
  proof -
    have at: "the_vma vs3 i = lower ?v addr" "the_vma vs3 j = upper ?v addr"
      using vs3 il ij j(2) by (simp_all add: vs2_def)
    have "unat (startva ?v) < unat (endva ?v)" using unat_endva [OF vok] vma_ok_pos [OF vok] by simp
    then have se: "startva ?v < endva ?v" by (simp add: word_less_nat_alt)
    have last: "startva (upper ?v addr) + vm_size (upper ?v addr) - 1 = endva ?v - 1"
      by (simp add: upper_def endva_def)
    have "startva ?v \<le> endva ?v - 1" "endva ?v - 1 < addr"
      using se b by (simp_all add: word_less_nat_alt word_le_nat_alt unat_sub)
    then have "check_vma_intersect vs3 (head_vma mm) (the_vma vs3 j)"
      unfolding check_vma_intersect_def Let_def list_ex_iff at(2) last
      by (intro bexI [OF _ i]) (simp add: at(1) lower_def)
    then show ?thesis by (simp add: add_vma_to_vmspace_def)
  qed
  moreover have "vs_vmas vs3 = vs_vmas vs2" if "fat32_filedup f vs2 = Some vs3" for f vs3
    using that by (auto simp: fat32_filedup_def)
  ultimately show ?thesis
    unfolding run by (auto split: option.splits Option.bind_split)
qed

lemma carve_past_end:
  assumes ok: "vs_ok vs mm" and i: "i \<in> set (head_vma mm)" and fr: "2 \<le> free_slots vs" and f: "file_ok 1 vs (the_vma vs i)"
    and b: "startva (the_vma vs i) \<le> start" "start < endva (the_vma vs i)" "endva (the_vma vs i) < fin"
  shows "carve vs mm i start fin = None"
proof (cases "start = startva (the_vma vs i)")
  case True
  have "0 < free_slots vs" using fr by simp
  then have "split_vma vs mm i fin False = None" using split_past_end [OF ok i _ b(3)] by blast
  then show ?thesis using True b(3) by (auto simp: carve_def endva_def)
next
  case False
  have lo: "startva (the_vma vs i) < start" and fr1: "0 < free_slots vs" using b False fr by auto
  obtain vs1 mm1 where s: "split_vma vs mm i start True = Some (vs1, mm1, 0)" "split_post vs mm i (upper (the_vma vs i) start) vs1 mm1"
    using split_vma_run [OF ok i fr1 lo b(2) f, of True] by auto
  have p: "vs_ok vs1 mm1" "i \<in> set (head_vma mm1)" "0 < free_slots vs1" "endva (the_vma vs1 i) = endva (the_vma vs i)"
    using s(2) fr split_pieces(6) [OF vs_okD(2) [OF ok i] lo b(2)] by (auto simp: split_post_def)
  have "endva (the_vma vs1 i) < fin" using p(4) b(3) by simp
  then have "split_vma vs1 mm1 i fin False = None" by (rule split_past_end [OF p(1-3)])
  then show ?thesis
    using s(1) False p(4) b(3) unfolding carve_def by (simp add: endva_def)
qed

subsection \<open>Properties\<close>

text \<open>Splitting an area at an address inside it succeeds when an area slot is free, keeps the areas disjoint,
  and changes the meaning of no address: type, permissions, file and file offset stay the same, for both
  values of \<open>new_below\<close>.\<close>

theorem split_vma_correct:
  assumes "vs_ok vs mm" "i \<in> set (head_vma mm)" "0 < free_slots vs" "startva (the_vma vs i) < addr" "addr < endva (the_vma vs i)"
    "file_ok 1 vs (the_vma vs i)"
  shows "\<exists>vs' mm'. split_vma vs mm i addr new_below = Some (vs', mm', 0) \<and> vs_ok vs' mm' \<and>
    (\<forall>a. view vs' mm' a = view vs mm a) \<and> Suc (free_slots vs') = free_slots vs \<and>
    (if new_below then startva (the_vma vs' i) = addr \<and> endva (the_vma vs' i) = endva (the_vma vs i)
     else startva (the_vma vs' i) = startva (the_vma vs i) \<and> endva (the_vma vs' i) = addr)"
proof -
  obtain vs' mm' where s: "split_vma vs mm i addr new_below = Some (vs', mm', 0)"
    "split_post vs mm i (if new_below then upper (the_vma vs i) addr else lower (the_vma vs i) addr) vs' mm'"
    using split_vma_run [OF assms(1-6), of new_below] by blast
  then show ?thesis
    using split_pieces(5,6) [OF vs_okD(2) [OF assms(1,2)] assms(4,5)]
    by (cases new_below) (auto simp: split_post_def upper_def lower_def)
qed

text \<open>C32. \<open>mprotect\<close> on a range inside one area returns 0, keeps the areas disjoint, and replaces the permissions of
  exactly the addresses of the range.\<close>

theorem sys_mprotect_correct:
  assumes "vs_ok vs mm" "find_vma_for_va vs mm start = Some i" "2 \<le> free_slots vs" "file_ok 2 vs (the_vma vs i)"
    "len \<noteq> 0" "start < start + PGROUNDUP len" "start + PGROUNDUP len \<le> endva (the_vma vs i)" "prot AND NOT 7 = 0"
  shows "\<exists>vs' mm'. sys_mprotect vs mm start len prot = Some (vs', mm', 0) \<and> vs_ok vs' mm' \<and>
    (\<forall>a. view vs' mm' a = (if start \<le> a \<and> a < start + PGROUNDUP len
       then map_option (\<lambda>(t, p, f, off). (t, prot, f, off)) (view vs mm a) else view vs mm a))"
proof -
  let ?fin = "start + PGROUNDUP len"
  have i: "i \<in> set (head_vma mm)" "startva (the_vma vs i) \<le> start"
    using find_vma_in [OF assms(2) [unfolded find_vma_for_va_def]] by auto
  obtain vs1 mm1 where c: "carve vs mm i start ?fin = Some (vs1, mm1, 0)" "vs_ok vs1 mm1" "\<forall>a. view vs1 mm1 a = view vs mm a"
    "i \<in> set (head_vma mm1)" "area (the_vma vs1 i) = {unat start ..< unat ?fin}"
    using carve_run [OF assms(1) i(1) assms(3,4) i(2) assms(6,7)] by blast
  define vs2 where "vs2 = set_vma i ((the_vma vs1 i)\<lparr>perm := prot\<rparr>) vs1"
  have il: "i < length (vs_vmas vs1)" "vma_ok (the_vma vs1 i)" using vs_okD [OF c(2,4)] by auto
  have at: "the_vma vs2 k = (if k = i then (the_vma vs1 i)\<lparr>perm := prot\<rparr> else the_vma vs1 k)" for k
    using il(1) by (cases "k = i") (simp_all add: vs2_def)
  have ok2: "vs_ok vs2 mm1"
    using il c(4) by (intro shrink_vma_ok [OF c(2), of "(the_vma vs1 i)\<lparr>perm := prot\<rparr>" i]) (auto simp: vs2_def vma_ok_def area_def)
  have "sys_mprotect vs mm start len prot = Some (vs2, mm1, 0)"
    using assms(2,5,6,8) c(1) by (simp add: sys_mprotect_def vs2_def Let_def not_less)
  moreover have "view vs2 mm1 a = (if start \<le> a \<and> a < ?fin then map_option (\<lambda>(t, p, f, off). (t, prot, f, off)) (view vs mm a) else view vs mm a)" for a
  proof (cases "unat a \<in> area (the_vma vs1 i)")
    case True
    then have "start \<le> a \<and> a < ?fin" using c(5) by (simp add: word_le_nat_alt word_less_nat_alt)
    moreover have "unat a \<in> area (the_vma vs2 i)" using True by (simp add: at area_def)
    ultimately show ?thesis
      using view_Some [OF ok2 c(4)] view_Some [OF c(2,4) True] c(3) by (simp add: at vma_view_def)
  next
    case False
    then have n: "\<not> (start \<le> a \<and> a < ?fin)" using c(5) by (simp add: word_le_nat_alt word_less_nat_alt)
    have ar: "area (the_vma vs2 k) = area (the_vma vs1 k)" for k by (simp add: at area_def)
    have "view vs2 mm1 a = view vs1 mm1 a"
    proof (cases "\<exists>k\<in>set (head_vma mm1). unat a \<in> area (the_vma vs1 k)")
      case True
      then obtain k where k: "k \<in> set (head_vma mm1)" "unat a \<in> area (the_vma vs1 k)" by blast
      then have "k \<noteq> i" using False by auto
      then show ?thesis using view_Some [OF c(2) k] view_Some [OF ok2 k(1)] k(2) ar at by simp
    next
      case none: False
      then show ?thesis using view_None [OF c(2)] view_None [OF ok2] ar by simp
    qed
    then show ?thesis unfolding if_not_P [OF n] using c(3) by simp
  qed
  ultimately show ?thesis using ok2 by blast
qed

text \<open>\<open>mprotect\<close> on a range that starts inside an area and ends beyond it, a request a user program can make,
  does not fail with -1: the overlap assertion in \<open>add_vma_to_vmspace\<close> stops the kernel.\<close>

theorem mprotect_past_end_panics:
  assumes "vs_ok vs mm" "find_vma_for_va vs mm start = Some i" "2 \<le> free_slots vs" "file_ok 1 vs (the_vma vs i)"
    "len \<noteq> 0" "endva (the_vma vs i) < start + PGROUNDUP len" "prot AND NOT 7 = 0"
  shows "sys_mprotect vs mm start len prot = None"
proof -
  have i: "i \<in> set (head_vma mm)" "startva (the_vma vs i) \<le> start" "start < endva (the_vma vs i)"
    using find_vma_in [OF assms(2) [unfolded find_vma_for_va_def]] by auto
  have "carve vs mm i start (start + PGROUNDUP len) = None"
    by (rule carve_past_end [OF assms(1) i(1) assms(3,4) i(2,3) assms(6)])
  moreover have "\<not> start + PGROUNDUP len < start" using i(3) assms(6) by auto
  ultimately show ?thesis
    using assms(2,5,7) by (simp add: sys_mprotect_def Let_def)
qed

text \<open>An address space with one area \<open>[0x4000, 0x8000)\<close> of a file, and three free slots.\<close>

definition demo_vma :: vma where
  "demo_vma = \<lparr>vm_type = VMA_FILE, startva = 0x4000, vm_size = 0x4000, perm = 3, used = True, vm_offset = 0x1000, vm_file = Some 7\<rparr>"

definition demo_vs :: vmst where
  "demo_vs = \<lparr>vs_vmas = [demo_vma, empty_vma, empty_vma, empty_vma], vs_mem = demo_vm2,
     vs_file = (\<lambda>_. \<lparr>f_flags = 2, f_count = 1\<rparr>), vs_wb = []\<rparr>"

definition demo_mm :: mm_struct where
  "demo_mm = \<lparr>head_vma = [0], pagetable = START_MEM, start_brk = 0, brk = 0, heapvma = None\<rparr>"

lemma demo_vs_ok: "vs_ok demo_vs demo_mm" "0 \<in> set (head_vma demo_mm)" "free_slots demo_vs = 3" "file_ok 2 demo_vs demo_vma"
    "the_vma demo_vs 0 = demo_vma" "find_vma_for_va demo_vs demo_mm 0x5000 = Some 0" "endva demo_vma = 0x8000"
  by (simp_all add: vs_ok_def demo_vs_def demo_mm_def demo_vma_def empty_vma_def vma_ok_def free_slots_def file_ok_def
      find_vma_for_va_def endva_def)

theorem split_vma_correct_witness:
  "\<exists>vs' mm'. split_vma demo_vs demo_mm 0 0x5000 True = Some (vs', mm', 0) \<and> vs_ok vs' mm'"
proof -
  have "file_ok 1 demo_vs (the_vma demo_vs 0)" using demo_vs_ok(4,5) by (auto simp: file_ok_def)
  moreover have "startva (the_vma demo_vs 0) < 0x5000" "0x5000 < endva (the_vma demo_vs 0)"
    using demo_vs_ok(5,7) by (simp_all add: demo_vma_def)
  ultimately show ?thesis
    using split_vma_correct [OF demo_vs_ok(1,2), of "0x5000" True] demo_vs_ok(3) by auto
qed

theorem sys_mprotect_correct_witness:
  "\<exists>vs' mm'. sys_mprotect demo_vs demo_mm 0x5000 0x1001 1 = Some (vs', mm', 0) \<and> vs_ok vs' mm'"
proof -
  have pg: "PGROUNDUP 0x1001 = 0x2000" by code_simp
  have "(1 :: uint) AND NOT 7 = 0" by code_simp
  then show ?thesis
    using sys_mprotect_correct [OF demo_vs_ok(1,6), of "0x1001" 1] demo_vs_ok(3,4,5,7) pg by auto
qed

theorem mprotect_past_end_panics_witness:
  "sys_mprotect demo_vs demo_mm 0x5000 0x4000 1 = None"
proof -
  have pg: "PGROUNDUP 0x4000 = 0x4000" by code_simp
  have "(1 :: uint) AND NOT 7 = 0" by code_simp
  moreover have "file_ok 1 demo_vs (the_vma demo_vs 0)" using demo_vs_ok(4,5) by (auto simp: file_ok_def)
  ultimately show ?thesis
    using mprotect_past_end_panics [OF demo_vs_ok(1,6), of "0x4000" 1] demo_vs_ok(3,5,7) pg by simp
qed

text \<open>\<open>vma_map_range\<close> with a free slot: if an end of the new area lies in an existing one the assertion stops the
  kernel; otherwise, provided no existing area lies entirely inside the new one, the area is added, the
  areas stay disjoint, and exactly the new addresses change their meaning.\<close>

theorem vma_map_range_correct:
  assumes "vs_ok vs mm" "0 < free_slots vs" "va mod PGSZ = 0" "PGROUNDUP (max len PGSZ) \<noteq> 0"
    "unat va + unat (PGROUNDUP (max len PGSZ)) < 2 ^ 64"
    "\<forall>i\<in>set (head_vma mm). \<not> area (the_vma vs i) \<subseteq> {unat va ..< unat va + unat (PGROUNDUP (max len PGSZ))}"
  shows "if \<exists>i\<in>set (head_vma mm). area (the_vma vs i) \<inter> {unat va ..< unat va + unat (PGROUNDUP (max len PGSZ))} \<noteq> {}
    then vma_map_range vs mm va len p ty = None
    else \<exists>vs' mm' j. vma_map_range vs mm va len p ty = Some (vs', mm', Some j) \<and> vs_ok vs' mm' \<and>
      (\<forall>a. find_vma_for_va vs' mm' a = (if unat a \<in> {unat va ..< unat va + unat (PGROUNDUP (max len PGSZ))}
         then Some j else find_vma_for_va vs mm a)) \<and> perm (the_vma vs' j) = p \<and> vm_type (the_vma vs' j) = ty"
proof -
  let ?L = "PGROUNDUP (max len PGSZ)"
  let ?R = "{unat va ..< unat va + unat ?L}"
  obtain j where j: "alloc_vma vs = (set_vma j ((the_vma vs j)\<lparr>used := True\<rparr>) vs, Some j)" "j < length (vs_vmas vs)"
    "\<not> used (the_vma vs j)"
    using assms(2) free_slots_pos by (cases vs rule: alloc_vma_cases) auto
  have jh: "j \<notin> set (head_vma mm)" using vs_okD(2) [OF assms(1)] j(3) by (auto simp: vma_ok_def)
  have "unat va mod 4096 = 0" using arg_cong [OF assms(3), of unat] by (simp add: unat_mod)
  then have va: "PGROUNDDOWN va = va" by (intro PGROUNDDOWN_eq) simp_all
  define v where "v = (the_vma vs j)\<lparr>used := True, startva := va, vm_size := ?L, perm := p, vm_type := ty\<rparr>"
  define vs1 where "vs1 = set_vma j v (set_vma j ((the_vma vs j)\<lparr>used := True\<rparr>) vs)"
  have v: "vma_ok v" "area v = ?R" using assms(4,5) by (simp_all add: v_def vma_ok_def area_def)
  have mx: "(if len < PGSZ then PGSZ else len) = max len PGSZ" by (auto simp: max_def)
  have run: "vma_map_range vs mm va len p ty = Option.bind (add_vma_to_vmspace vs1 mm j) (\<lambda>mm. Some (vs1, mm, Some j))"
    using j(1,2) assms(3) va unfolding vma_map_range_def mx by (simp add: vs1_def v_def Let_def)
  have jl: "the_vma vs1 j = v" using j(2) by (simp add: vs1_def)
  have at: "\<forall>i\<in>set (head_vma mm). the_vma vs1 i = the_vma vs i"
    using jh by (metis nth_list_update_neq vs1_def vs_vmas_set)
  have ok1: "vs_ok vs1 mm" by (rule vs_ok_cong [OF assms(1) refl _ at]) (simp add: vs1_def)
  show ?thesis
  proof (cases "\<exists>i\<in>set (head_vma mm). area (the_vma vs i) \<inter> ?R \<noteq> {}")
    case True
    then obtain i where i: "i \<in> set (head_vma mm)" "area (the_vma vs i) \<inter> ?R \<noteq> {}" by blast
    have "unat (startva v) \<in> area (the_vma vs i) \<or> unat (startva v) + unat (vm_size v) - 1 \<in> area (the_vma vs i)"
      using area_intersect_ends [OF v(1), of "the_vma vs i"] i assms(6) v(2) by auto
    then have "check_vma_intersect vs1 (head_vma mm) (the_vma vs1 j)"
      using check_intersect_iff [of "head_vma mm" vs1 v] vs_okD(2) [OF ok1] v(1) jl at i(1) by auto
    then show ?thesis using True run by (simp add: add_vma_to_vmspace_def)
  next
    case False
    have d: "\<forall>i\<in>set (head_vma mm). area (the_vma vs1 j) \<inter> area (the_vma vs1 i) = {}"
      using False at v(2) jl by (simp add: Int_commute)
    have jl1: "j < length (vs_vmas vs1)" "vma_ok (the_vma vs1 j)" using j(2) v(1) jl by (simp_all add: vs1_def)
    let ?mm = "mm\<lparr>head_vma := j # head_vma mm\<rparr>"
    note add = add_vma_ok [OF ok1 jl1(1) jh jl1(2) d]
    have "find_vma_for_va vs1 ?mm a = (if unat a \<in> ?R then Some j else find_vma_for_va vs mm a)" for a
    proof -
      have "find_vma vs1 is a = find_vma vs is a" if "set is \<subseteq> set (head_vma mm)" for "is"
        using that at by (induction "is") auto
      then show ?thesis
        using in_area_iff [OF v(1), of a] v(2) jl by (simp add: find_vma_for_va_def)
    qed
    then show ?thesis
      unfolding if_not_P [OF False] using add run jl v_def by (intro exI [of _ vs1] exI [of _ ?mm] exI [of _ j]) simp
  qed
qed

theorem vma_map_range_correct_witness:
  "\<exists>vs' mm' j. vma_map_range demo_vs demo_mm 0x8000 0x800 1 VMA_ANON = Some (vs', mm', Some j) \<and> vs_ok vs' mm'"
proof -
  have pg: "PGROUNDUP (max 0x800 PGSZ) = 0x1000" by code_simp
  have al: "(0x8000 :: uint64) mod PGSZ = 0" by code_simp
  have ar: "area (the_vma demo_vs 0) = {0x4000 ..< 0x8000}" "set (head_vma demo_mm) = {0}"
    using demo_vs_ok(5) by (simp_all add: area_def demo_vma_def demo_mm_def)
  then show ?thesis
    using vma_map_range_correct [OF demo_vs_ok(1) _ al, of "0x800" 1 VMA_ANON] demo_vs_ok(3) pg by auto
qed

text \<open>The proviso is needed: an area placed around an existing one passes the overlap test, and the address
  space then has overlapping areas.\<close>

theorem vma_overlap_accepted:
  "\<exists>vs mm vs' mm' j. vs_ok vs mm \<and> vma_map_range vs mm 0x3000 0x6000 1 VMA_ANON = Some (vs', mm', Some j) \<and> \<not> vs_ok vs' mm'"
proof -
  define v where "v = empty_vma\<lparr>used := True, startva := 0x3000, vm_size := 0x6000, perm := 1, vm_type := VMA_ANON\<rparr>"
  define vs' where "vs' = set_vma 1 v (set_vma 1 (empty_vma\<lparr>used := True\<rparr>) demo_vs)"
  define mm' where "mm' = demo_mm\<lparr>head_vma := [1, 0]\<rparr>"
  have pg: "PGROUNDUP 0x6000 = 0x6000" "PGROUNDDOWN 0x3000 = 0x3000" "(0x3000 :: uint64) mod PGSZ = 0" "\<not> (0x6000 :: uint64) < PGSZ"
    by (code_simp, code_simp, code_simp, code_simp)
  have al: "alloc_vma demo_vs = (set_vma 1 (empty_vma\<lparr>used := True\<rparr>) demo_vs, Some 1)"
    by (simp add: alloc_vma_def demo_vs_def demo_vma_def empty_vma_def)
  have at: "the_vma vs' 0 = demo_vma" "the_vma vs' 1 = v" by (simp_all add: vs'_def demo_vs_def)
  have "add_vma_to_vmspace vs' demo_mm 1 = Some mm'"
    using at by (simp add: add_vma_to_vmspace_def check_vma_intersect_def mm'_def demo_mm_def demo_vma_def v_def)
  moreover have "the_vma (set_vma 1 (empty_vma\<lparr>used := True\<rparr>) demo_vs) 1 = empty_vma\<lparr>used := True\<rparr>"
    by (simp add: demo_vs_def)
  ultimately have r: "vma_map_range demo_vs demo_mm 0x3000 0x6000 1 VMA_ANON = Some (vs', mm', Some 1)" "head_vma mm' = [1, 0]"
    unfolding vma_map_range_def al by (simp_all add: pg vs'_def v_def Let_def mm'_def)
  have "startva (the_vma vs' 0) = 0x4000" "vm_size (the_vma vs' 0) = 0x4000" "startva (the_vma vs' 1) = 0x3000" "vm_size (the_vma vs' 1) = 0x6000"
    using at by (simp_all add: v_def demo_vma_def)
  then have "0x4000 \<in> area (the_vma vs' 0)" "0x4000 \<in> area (the_vma vs' 1)"
    by (simp_all add: area_def)
  then have "\<not> vs_ok vs' mm'"
    using vs_ok_unique [of vs' mm' 0 1] r(2) by auto
  then show ?thesis using demo_vs_ok(1) r(1) by blast
qed

end
