(* ===== verification/UserMem.thy ===== *)
theory UserMem
  imports Vma
begin

text \<open>
  User memory above areas and page tables: page faults and copy-on-write (\<open>src/mm/pagefault.c\<close>), the copy of an
  address space at \<open>fork\<close>, \<open>copyout\<close> and \<open>uvmfree\<close> (\<open>src/mm/vm.c\<close>), the heap and the copy helpers
  (\<open>src/proc/pcb_mm.c\<close>), and the life of an \<open>mm_struct\<close> (\<open>src/mm/mm.c\<close>).  Reading a page of a mapped file
  (\<open>fat32_inode_read\<close>) is the parameter \<open>rd\<close>; the locks around it are left out.
\<close>

unbundle bit_operations_syntax

subsection \<open>Page faults\<close>

definition perm_vma2pte :: "uint \<Rightarrow> uint64" where
  "perm_vma2pte vma_perm =
     (if vma_perm AND PERM_READ \<noteq> 0 then PTE_R else 0) OR
     (if vma_perm AND PERM_WRITE \<noteq> 0 then PTE_W else 0) OR
     (if vma_perm AND PERM_EXEC \<noteq> 0 then PTE_X else 0)"

definition is_a_cow_page :: "uint64 \<Rightarrow> bool" where
  "is_a_cow_page flags =
     (if flags AND PTE_SHARE = 0 then False
      else if flags AND PTE_READONLY \<noteq> 0 then False
      else True)"

definition INSTUCTION_PAGEFAULT :: nat where "INSTUCTION_PAGEFAULT = 12"
definition LOAD_PAGEFAULT :: nat where "LOAD_PAGEFAULT = 13"
definition STORE_PAGEFAULT :: nat where "STORE_PAGEFAULT = 15"

definition CHECK_PERM :: "nat \<Rightarrow> vma \<Rightarrow> bool" where
  "CHECK_PERM cause v \<longleftrightarrow> cause = STORE_PAGEFAULT \<and> perm v AND PERM_WRITE \<noteq> 0 \<or>
     cause = LOAD_PAGEFAULT \<and> perm v AND PERM_READ \<noteq> 0 \<or>
     cause = INSTUCTION_PAGEFAULT \<and> perm v AND PERM_EXEC \<noteq> 0"

definition cow :: "(kmem \<Rightarrow> kmem option) \<Rightarrow> kmem \<Rightarrow> nat \<Rightarrow> int \<Rightarrow> uint64 \<Rightarrow> uint64 \<Rightarrow> (kmem \<times> int) option" where
  "cow af s pte level pa flags =
     (if level = int SUPERPAGE \<or> level = int COMMONPAGE then do {
        let sz = (if level = int SUPERPAGE then SUPERPGSIZE else PGSZ);
        (s, r) \<leftarrow> kmalloc af s sz;
        case r of None \<Rightarrow> Some (s, -1)
        | Some mem \<Rightarrow> do {
            let s = memmove_pa s mem (unat pa) (unat sz);
            let s = st64 s pte (PA2PTE (word_of_nat mem) OR flags OR PTE_W);
            s \<leftarrow> kfree s (unat pa);
            Some (s, 0) } }
      else Some (s, -1))"

type_synonym page_reader = "nat \<Rightarrow> uint64 \<Rightarrow> uint64 \<Rightarrow> kmem \<Rightarrow> kmem"

text \<open>The result of \<open>uvmalloc\<close> is not looked at.\<close>

definition pagefault :: "(kmem \<Rightarrow> kmem option) \<Rightarrow> page_reader \<Rightarrow> nat \<Rightarrow> vmst \<Rightarrow> mm_struct \<Rightarrow> nat \<Rightarrow> uint64 \<Rightarrow> (vmst \<times> int) option" where
  "pagefault af rd cause vs mm pt stval =
     (if MAXVA \<le> PGROUNDDOWN stval then Some (vs, -1)
      else case find_vma_for_va vs mm stval of None \<Rightarrow> Some (vs, -1)
        | Some i \<Rightarrow>
            let v = the_vma vs i in
            if \<not> CHECK_PERM cause v then Some (vs, -1)
            else do {
              (m, level, pte) \<leftarrow> walk Some (vs_mem vs) pt stval False 0;
              case (case pte of None \<Rightarrow> None | Some q \<Rightarrow> if ld64 m q = 0 then None else Some q) of
                None \<Rightarrow> do {
                  (m, _) \<leftarrow> uvmalloc af m pt (PGROUNDDOWN stval) (PGROUNDUP (stval + 1)) (perm_vma2pte (perm v));
                  if vm_type v = VMA_FILE then do {
                    pa \<leftarrow> walkaddr m pt stval;
                    f \<leftarrow> vm_file v;
                    Some (vs\<lparr>vs_mem := rd f pa (vm_offset v + PGROUNDDOWN stval - startva v) m\<rparr>, 0) }
                  else Some (vs\<lparr>vs_mem := m\<rparr>, 0) }
              | Some q \<Rightarrow> do {
                  let pa = PTE2PA (ld64 m q);
                  let flags = PTE_FLAGS (ld64 m q);
                  ASSERT (has_flag flags PTE_V);
                  if is_a_cow_page flags then do {
                    (m, r) \<leftarrow> cow af m q level pa flags;
                    Some (vs\<lparr>vs_mem := m\<rparr>, r) }
                  else Some (vs\<lparr>vs_mem := m\<rparr>, -1) } })"

subsection \<open>Copying to user memory\<close>

text \<open>After a page fault the entry pointer of the earlier \<open>walk\<close> is used again, even if it was null: the kernel's
  own page table maps virtual page 0 to \<open>START_MEM\<close>, so the null pointer reads the word there.\<close>

function copyout :: "(kmem \<Rightarrow> kmem option) \<Rightarrow> page_reader \<Rightarrow> mm_struct \<Rightarrow> nat \<Rightarrow> vmst \<Rightarrow> uint64 \<Rightarrow> nat \<Rightarrow> uint64 \<Rightarrow>
    (vmst \<times> int) option" where
  "copyout af rd mm pt vs dstva src len =
     (if 0 < len then
        let va0 = PGROUNDDOWN dstva in
        if MAXVA \<le> va0 then Some (vs, -1)
        else case do {
            (m, level, pte) \<leftarrow> walk Some (vs_mem vs) pt va0 False 0;
            (vs, r) \<leftarrow> (if (case pte of None \<Rightarrow> True | Some q \<Rightarrow> ld64 m q = 0)
                       then pagefault af rd STORE_PAGEFAULT (vs\<lparr>vs_mem := m\<rparr>) mm pt dstva
                       else Some (vs\<lparr>vs_mem := m\<rparr>, 0));
            if r < 0 then Some (vs, -1)
            else do {
              let flags = PTE_FLAGS (ld64 (vs_mem vs) (case pte of None \<Rightarrow> START_MEM | Some q \<Rightarrow> q));
              if \<not> has_flag flags PTE_W \<and> is_a_cow_page flags
              then pagefault af rd STORE_PAGEFAULT vs mm pt dstva else Some (vs, 0) } } of
          None \<Rightarrow> None
        | Some (vs, r) \<Rightarrow>
            if r < 0 then Some (vs, -1)
            else case walkaddr (vs_mem vs) pt va0 of None \<Rightarrow> None
              | Some pa0 \<Rightarrow>
                  if pa0 = 0 then Some (vs, -1)
                  else
                    let n = min (PGSZ - (dstva - va0)) len in
                    copyout af rd mm pt (vs\<lparr>vs_mem := memmove_pa (vs_mem vs) (unat (pa0 + (dstva - va0))) src (unat n)\<rparr>)
                      (va0 + PGSZ) (src + unat n) (len - n)
      else Some (vs, 0))"
  by pat_completeness auto
termination
  by (relation "measure (\<lambda>(af, rd, mm, pt, vs, dstva, src, len). unat len)") (simp_all add: page_chunk_less)

declare copyout.simps [simp del]

definition either_copyout :: "(kmem \<Rightarrow> kmem option) \<Rightarrow> page_reader \<Rightarrow> mm_struct \<Rightarrow> vmst \<Rightarrow> bool \<Rightarrow> uint64 \<Rightarrow> nat \<Rightarrow> uint64 \<Rightarrow>
    (vmst \<times> int) option" where
  "either_copyout af rd mm vs user_dst dst src len =
     (if user_dst then copyout af rd mm (pagetable mm) vs dst src len
      else Some (vs\<lparr>vs_mem := memmove_pa (vs_mem vs) (unat dst) src (unat len)\<rparr>, 0))"

definition either_copyin :: "mm_struct \<Rightarrow> vmst \<Rightarrow> nat \<Rightarrow> bool \<Rightarrow> uint64 \<Rightarrow> uint64 \<Rightarrow> (vmst \<times> int) option" where
  "either_copyin mm vs dst user_src src len =
     (if user_src then do {
        (m, r) \<leftarrow> copyin (vs_mem vs) (pagetable mm) dst src len;
        Some (vs\<lparr>vs_mem := m\<rparr>, r) }
      else Some (vs\<lparr>vs_mem := memmove_pa (vs_mem vs) dst (unat src) (unat len)\<rparr>, 0))"

subsection \<open>Copying an address space\<close>

text \<open>The flags a leaf gets in both page tables when it is shared between parent and child.\<close>

definition share_flags :: "uint64 \<Rightarrow> uint64" where
  "share_flags e =
     (let e = (if \<not> has_flag e PTE_W \<and> \<not> has_flag e PTE_SHARE then e OR PTE_READONLY else e);
          e = (if \<not> has_flag e PTE_W \<and> has_flag e PTE_READONLY then e OR PTE_READONLY else e)
      in (e OR PTE_SHARE) AND NOT PTE_W)"

definition copy_stack_body :: "(kmem \<Rightarrow> kmem option) \<Rightarrow> nat \<Rightarrow> nat \<Rightarrow> vma \<Rightarrow> kmem \<Rightarrow> uint64 \<Rightarrow> (kmem \<times> int option \<times> uint64) option" where
  "copy_stack_body af src dst pos m offset = do {
     (m, level, pte) \<leftarrow> walk Some m src (startva pos + offset) False 0;
     ASSERT (level \<le> 1 \<and> 0 \<le> level);
     q \<leftarrow> pte;
     let pa = PTE2PA (ld64 m q);
     (m, r) \<leftarrow> kzalloc af m PGSZ;
     case r of None \<Rightarrow> Some (m, Some (-1), offset)
     | Some new \<Rightarrow> do {
         let m = memmove_pa m new (unat pa) PGSIZE;
         (m, r) \<leftarrow> mappages af m dst (startva pos + offset) PGSZ (word_of_nat new) (PTE_W OR PTE_R OR PTE_U) COMMONPAGE;
         ASSERT (r = 0);
         Some (m, None, offset + PGSZ) } }"

definition copy_page_body :: "(kmem \<Rightarrow> kmem option) \<Rightarrow> nat \<Rightarrow> nat \<Rightarrow> vma \<Rightarrow> kmem \<Rightarrow> uint64 \<Rightarrow> (kmem \<times> int option \<times> uint64) option" where
  "copy_page_body af src dst pos m i = do {
     (m, level, pte) \<leftarrow> walk Some m src i False 0;
     case (case pte of None \<Rightarrow> None | Some q \<Rightarrow> if ld64 m q = 0 then None else Some q) of
       None \<Rightarrow> Some (m, None, i + PGSZ)
     | Some q \<Rightarrow> do {
         ASSERT (level \<le> 1 \<and> 0 \<le> level);
         let m = (if vm_type pos \<noteq> VMA_FILE \<or> perm pos AND PERM_SHARED = 0 then st64 m q (share_flags (ld64 m q)) else m);
         let pa = PTE2PA (ld64 m q);
         let flags = PTE_FLAGS (ld64 m q);
         if level = int SUPERPAGE then do {
           ASSERT (i = SUPERPG_DOWN i);
           (m, r) \<leftarrow> mappages af m dst i SUPERPGSIZE pa flags SUPERPAGE;
           ASSERT (r = 0);
           m \<leftarrow> share_page m (unat pa);
           Some (m, None, i + (SUPERPGSIZE - PGSZ) + PGSZ) }
         else do {
           (m, r) \<leftarrow> mappages af m dst i PGSZ pa flags COMMONPAGE;
           ASSERT (r = 0);
           m \<leftarrow> share_page m (unat pa);
           Some (m, None, i + PGSZ) } } }"

fun uvmcopy_list :: "(kmem \<Rightarrow> kmem option) \<Rightarrow> vmst \<Rightarrow> nat \<Rightarrow> nat \<Rightarrow> nat list \<Rightarrow> kmem \<Rightarrow> (kmem \<times> int) option" where
  "uvmcopy_list af vs src dst [] m = Some (m, 0)"
| "uvmcopy_list af vs src dst (i # is) m = do {
     let pos = the_vma vs i;
     (m, r) \<leftarrow> (if vm_type pos = VMA_STACK then page_loop (copy_stack_body af src dst pos) (vm_size pos) m 0
               else do {
                 ASSERT (startva pos mod PGSZ = 0 \<and> (startva pos + vm_size pos) mod PGSZ = 0);
                 page_loop (copy_page_body af src dst pos) (startva pos + vm_size pos) m (startva pos) });
     case r of Some v \<Rightarrow> Some (m, v) | None \<Rightarrow> uvmcopy_list af vs src dst is m }"

definition uvmcopy :: "(kmem \<Rightarrow> kmem option) \<Rightarrow> vmst \<Rightarrow> mm_struct \<Rightarrow> mm_struct \<Rightarrow> (vmst \<times> int) option" where
  "uvmcopy af vs srcmm dstmm = do {
     (m, r) \<leftarrow> uvmcopy_list af vs (pagetable srcmm) (pagetable dstmm) (head_vma srcmm) (vs_mem vs);
     Some (vs\<lparr>vs_mem := m\<rparr>, r) }"

definition uvmfree :: "(kmem \<Rightarrow> kmem option) \<Rightarrow> vmst \<Rightarrow> mm_struct \<Rightarrow> (vmst \<times> mm_struct) option" where
  "uvmfree af vs mm = do {
     (vs, mm) \<leftarrow> free_all_vmas af vs mm;
     m \<leftarrow> freewalk 3 (vs_mem vs) (pagetable mm);
     Some (vs\<lparr>vs_mem := m\<rparr>, mm) }"

subsection \<open>The life of an address space\<close>

definition on_mem :: "(kmem \<Rightarrow> kmem option) \<Rightarrow> vmst \<Rightarrow> vmst option" where
  "on_mem f vs = map_option (\<lambda>m. vs\<lparr>vs_mem := m\<rparr>) (f (vs_mem vs))"

definition proc_freepagetable :: "(kmem \<Rightarrow> kmem option) \<Rightarrow> vmst \<Rightarrow> mm_struct \<Rightarrow> nat \<Rightarrow> (vmst \<times> mm_struct) option" where
  "proc_freepagetable af vs mm thread_cnt = do {
     vs \<leftarrow> on_mem (\<lambda>m. uvmunmap af m (pagetable mm) TRAMPOLINE 1 False False) vs;
     vs \<leftarrow> on_mem (\<lambda>m. uvmunmap af m (pagetable mm) SIGRETURN 1 False False) vs;
     vs \<leftarrow> on_mem (\<lambda>m. uvmunmap af m (pagetable mm) USTACK_GURAD_PAGE 1 False True) vs;
     vs \<leftarrow> fold_opt (\<lambda>offset. on_mem (\<lambda>m. uvmunmap af m (pagetable mm) (TRAPFRAME - word_of_nat offset * PGSZ) 1 False True))
            [0 ..< thread_cnt] vs;
     uvmfree af vs mm }"

text \<open>\<open>a\<close> is the address of the \<open>mm_struct\<close> itself, \<open>sz\<close> its size.\<close>

definition alloc_mm :: "(kmem \<Rightarrow> kmem option) \<Rightarrow> uint64 \<Rightarrow> uint64 \<Rightarrow> uint64 \<Rightarrow> kmem \<Rightarrow> (kmem \<times> (nat \<times> mm_struct) option) option" where
  "alloc_mm af sz trampoline sigreturn s = do {
     (s, r) \<leftarrow> kzalloc af s sz;
     case r of None \<Rightarrow> Some (s, None)
     | Some a \<Rightarrow> do {
         (s, r) \<leftarrow> proc_pagetable af trampoline sigreturn s;
         case r of None \<Rightarrow> do { s \<leftarrow> kfree s a; Some (s, None) }
         | Some pt \<Rightarrow> Some (s, Some (a, \<lparr>head_vma = [], pagetable = pt, start_brk = 0, brk = 0, heapvma = None\<rparr>)) } }"

definition free_mm :: "(kmem \<Rightarrow> kmem option) \<Rightarrow> vmst \<Rightarrow> (nat \<times> mm_struct) option \<Rightarrow> nat \<Rightarrow> vmst option" where
  "free_mm af vs mm thread_cnt =
     (case mm of None \<Rightarrow> Some vs
      | Some (a, mm) \<Rightarrow> do {
          (vs, mm) \<leftarrow> (if pagetable mm \<noteq> 0 then proc_freepagetable af vs mm thread_cnt else Some (vs, mm));
          on_mem (\<lambda>m. kfree m a) vs })"

subsection \<open>The heap\<close>

datatype grow_result = Grown int | Exited

text \<open>A shrink below \<open>start_brk\<close> ends the thread with \<open>do_exit\<close>, which does not return.\<close>

definition growheap :: "(kmem \<Rightarrow> kmem option) \<Rightarrow> vmst \<Rightarrow> mm_struct \<Rightarrow> 32 word \<Rightarrow> (vmst \<times> mm_struct \<times> grow_result) option" where
  "growheap af vs mm n = do {
     let oldsz = brk mm;
     let newsz = brk mm + scast n;
     if newsz < start_brk mm then Some (vs, mm, Exited)
     else do {
       (vs, r) \<leftarrow> (if 0 <s n then do {
           (m, level, pte) \<leftarrow> walk Some (vs_mem vs) (pagetable mm) oldsz False 0;
           ASSERT (\<not> (pte = None \<and> level \<noteq> -1));
           ASSERT (level \<le> 1);
           if level = int COMMONPAGE \<and> newsz \<le> PGROUNDUP oldsz \<or> level = int SUPERPAGE \<and> newsz \<le> SUPERPG_ROUNDUP oldsz
           then Some (vs, Inl newsz)
           else do {
             (m, sz) \<leftarrow> uvmalloc af m (pagetable mm) oldsz newsz (PTE_W OR PTE_R);
             Some (vs\<lparr>vs_mem := m\<rparr>, Inr (if sz = 0 then None else Some sz)) } }
         else if n <s 0 then do {
           (m, sz) \<leftarrow> uvmdealloc af (vs_mem vs) (pagetable mm) oldsz newsz;
           Some (vs\<lparr>vs_mem := m\<rparr>, Inr (Some sz)) }
         else Some (vs, Inr (Some oldsz)));
       case r of
         Inl b \<Rightarrow> Some (vs, mm\<lparr>brk := b\<rparr>, Grown 0)
       | Inr None \<Rightarrow> Some (vs, mm, Grown (-1))
       | Inr (Some sz) \<Rightarrow> do {
           (vs, mm) \<leftarrow> (if heapvma mm = None then do {
               (vs, mm, r) \<leftarrow> vma_map vs mm (start_brk mm) (sz - start_brk mm) (PERM_READ OR PERM_WRITE) VMA_HEAP;
               ASSERT (0 \<le> r);
               Some (vs, mm) } else Some (vs, mm));
           h \<leftarrow> heapvma mm;
           Some (set_vma h ((the_vma vs h)\<lparr>vm_size := PGROUNDUP sz - start_brk mm\<rparr>) vs, mm\<lparr>brk := sz\<rparr>, Grown 0) } } }"

subsection \<open>Copy-on-write\<close>

lemma kfree_mem: "kfree s pa = Some s' \<Longrightarrow> km_mem s' = km_mem s \<and> km_total s' = km_total s"
  by (auto simp: kfree_def bind_eq_Some_conv Let_def km_total_def split: if_splits prod.splits)

lemma take_bit_flags: "take_bit 10 (PTE_FLAGS e OR PTE_W) = PTE_FLAGS e OR PTE_W"
proof -
  have "PTE_FLAGS e = take_bit 10 e" by (simp add: PTE_FLAGS_def take_bit_eq_mask mask_numeral)
  then show ?thesis by (simp add: PTE_W_def)
qed

lemma has_flag_flags:
  "has_flag (PTE_FLAGS e) PTE_V = has_flag e PTE_V" "has_flag (PTE_FLAGS e) PTE_W = has_flag e PTE_W"
  "has_flag (PTE_FLAGS e) PTE_U = has_flag e PTE_U" "has_flag (PTE_FLAGS e) PTE_SHARE = has_flag e PTE_SHARE"
  "has_flag (PTE_FLAGS e) PTE_READONLY = has_flag e PTE_READONLY"
  by (simp_all add: has_flag_bit PTE_FLAGS_def bit_simps)

lemma granted_page:
  assumes "page_grant tot 0 s (Some c) s1" "km_mem s1 = km_mem s" "mem_small s"
  obtains p where "c = page_to_pa p" "p < km_total s" "c + PGSIZE \<le> 2 ^ 56" "ext tot {} {c} s (memmove_pa s1 c a PGSIZE)"
proof -
  obtain p where p: "c = page_to_pa p" "km_blocks s p = None" "p < km_total s" "km_blocks s1 = (km_blocks s)(p \<mapsto> 0)"
    "km_cnt s1 = km_cnt s - 1" "refcnt (km_pages s1 ! p) = 1"
    "\<forall>q<km_total s. q \<noteq> p \<longrightarrow> refcnt (km_pages s1 ! q) = refcnt (km_pages s ! q)"
    using assms(1) by (auto simp: page_grant_def)
  have "mem_upto {c} s (memmove_pa s1 c a PGSIZE)"
    using assms(2) p(1) by (auto simp: mem_upto_def memmove_pa_eq in_page_def)
  then have e: "ext tot {} {c} s (memmove_pa s1 c a PGSIZE)"
    using assms(1) p by (auto simp: page_grant_def ext_def memmove_pa_eq)
  have "page_to_pa p + PGSIZE \<le> page_to_pa (km_total s)"
    using mult_le_mono1 [of "Suc p" "km_total s" PGSIZE] p(3) by (simp add: page_to_pa_def)
  then show thesis using that [OF p(1,3) _ e] assms(3) p(1) by (simp add: mem_small_def)
qed

text \<open>Changes outside the tables keep the page table.\<close>

lemma outside_pt:
  assumes ok: "pt_ok s root" and m: "mem_upto D s s'" "tabs s 2 root \<inter> D = {}" and t: "\<forall>b\<in>tabs s 2 root. tblpage s b \<longrightarrow> tblpage s' b"
  shows "pt_ok s' root" "tabs s' 2 root = tabs s 2 root" "lkup s' 2 root va = lkup s 2 root va"
    "pte_slot s' low 2 root va = pte_slot s low 2 root va"
proof -
  have wf: "pt_wf s 2 root" using ok by (simp add: pt_ok_def)
  have tp: "\<forall>b\<in>tabs s 2 root. tblpage s b" using pt_wf_tblpage [OF wf] by blast
  have e: "same_ents (tabs s 2 root) s s'" by (rule same_ents_upto [OF m tp])
  have "pt_wf s' 2 root" using frame_tree(4) [OF e _ wf] t tp by blast
  moreover have "ent s' root i = ent s root i" if "i < 512" for i
    using e that tabs_root unfolding same_ents_def by blast
  ultimately show "pt_ok s' root" using ok by (simp add: pt_ok_def)
  show "tabs s' 2 root = tabs s 2 root" "lkup s' 2 root va = lkup s 2 root va"
    "pte_slot s' low 2 root va = pte_slot s low 2 root va"
    using frame_tree(1,2,3) [OF e] by blast+
qed

lemma slot_in_tables:
  "pt_wf s l a \<Longrightarrow> pte_slot s 0 l a va = Some q \<Longrightarrow> \<exists>b\<in>tabs s l a. \<exists>i<512. q = b + 8 * i"
proof (induction l arbitrary: a)
  case 0
  then show ?case using PN_less by auto
next
  case (Suc l)
  then have p: "is_ptr (ent s a (PN (Suc l) va))" "pte_slot s 0 l (nxt (ent s a (PN (Suc l) va))) va = Some q"
    by (auto split: if_splits)
  then show ?case
    using Suc.IH [OF _ p(2)] Suc.prems(1) child_tabs [OF PN_less p(1)] by fastforce
qed

lemma cow_run:
  assumes inv: "kmem_inv tot s" "quiet 1 s" "mem_small s" and ok: "pt_ok s root" and sl: "pte_slot s 0 2 root va = Some q"
    and v: "has_flag (ld64 s q) PTE_V" and pa: "unat (PTE2PA (ld64 s q)) = page_to_pa p" "km_blocks s p = Some 0" "page_to_pa p \<notin> tabs s 2 root"
  defines "e \<equiv> ld64 s q"
  shows "\<exists>s' r. cow af s q 0 (PTE2PA e) (PTE_FLAGS e) = Some (s', r) \<and> kmem_inv tot s' \<and> pt_ok s' root \<and>
    (r = -1 \<and> exhausted tot s' \<and> km_mem s' = km_mem s \<or>
     r = 0 \<and> (\<exists>c. c \<noteq> page_to_pa p \<and> c \<notin> tabs s' 2 root \<and> (\<exists>pc. c = page_to_pa pc \<and> km_blocks s pc = None) \<and> c < 2 ^ 56 \<and>
       refcnt (km_pages s' ! p) = refcnt (km_pages s ! p) - 1 \<and>
       (\<forall>i<PGSIZE. km_mem s' (c + i) = km_mem s (page_to_pa p + i)) \<and>
       (\<forall>i<PGSIZE. km_mem s' (page_to_pa p + i) = km_mem s (page_to_pa p + i)) \<and>
       (\<forall>va'. lkup s' 2 root va' = (if same_vpn 0 2 va va' then Some (0, PA2PTE (word_of_nat c) OR PTE_FLAGS e OR PTE_W)
          else lkup s 2 root va'))))"
proof -
  have wf: "pt_wf s 2 root" using ok by (simp add: pt_ok_def)
  obtain s1 r where k: "kmalloc af s PGSZ = Some (s1, r)" "page_grant tot 0 s r s1" "km_mem s1 = km_mem s"
    using kmalloc_page [OF inv(1,2), of af] unfolding PGSZ_def by blast
  show ?thesis
  proof (cases r)
    case None
    then have g: "kmem_inv tot s1" "km_blocks s1 = km_blocks s" "exhausted tot s1"
      using k(2) no_page_exhausted [OF inv(1)] by (auto simp: page_grant_def exhausted_def)
    have "pt_ok s1 root"
      using outside_pt(1) [OF ok, of "{}" s1] k(3) g(2) by (simp add: mem_upto_def tblpage_def)
    then show ?thesis
      using k(1,3) None g by (simp add: cow_def COMMONPAGE_def SUPERPAGE_def Let_def)
  next
    case (Some c)
    define s2 where "s2 = memmove_pa s1 c (page_to_pa p) PGSIZE"
    obtain pc where c: "c = page_to_pa pc" "pc < km_total s" "c + PGSIZE \<le> 2 ^ 56" "ext tot {} {c} s s2"
      using granted_page [OF k(2) [unfolded Some] k(3) inv(3), of "page_to_pa p"] unfolding s2_def by blast
    have pcn: "km_blocks s pc = None" using c(1,4) by (auto simp: ext_def)
    have cp: "c \<noteq> page_to_pa p" using c(1) pcn pa(2) by auto
    have cn: "c \<notin> tabs s 2 root" using ext_fresh [OF c(4) pt_wf_tblpage [OF wf]] by blast
    note o2 = outside_pt [OF ok, of "{c}" s2]
    have o: "pt_ok s2 root" "tabs s2 2 root = tabs s 2 root" "\<And>x. lkup s2 2 root x = lkup s 2 root x"
      "pte_slot s2 0 2 root va = Some q"
      using o2 ext_upto [OF c(4)] cn ext_tblpage [OF c(4)] sl by auto
    let ?e = "PA2PTE (word_of_nat c) OR PTE_FLAGS e OR PTE_W"
    define s3 where "s3 = st64 s2 q ?e"
    have wf2: "pt_wf s2 2 root" using o(1) by (simp add: pt_ok_def)
    have ev: "has_flag ?e PTE_V"
      using v has_flag_flags(1) [of e] unfolding has_flag_bit e_def by (simp add: bit_simps)
    from store_slot [OF wf2 o(4), of ?e]
    have st: "pt_wf s3 2 root" "tabs s3 2 root = tabs s 2 root" "mem_upto (tabs s 2 root) s2 s3"
      "\<And>x. lkup s3 2 root x = (if same_vpn 0 2 va x then Some (0, ?e) else lkup s 2 root x)"
      "\<forall>j<512. ent s3 root j = ent s2 root j"
      using o(2,3) ev unfolding s3_def stored_def by auto
    have ok3: "pt_ok s3 root" using st(1,5) o(1) by (simp add: pt_ok_def)
    have b3: "km_blocks s3 p = Some 0" "kmem_inv tot s3" "refcnt (km_pages s3 ! p) = refcnt (km_pages s ! p)"
    proof -
      have "p < km_total s" using pa(2) by (auto simp: km_blocks_def split: if_splits)
      then show "km_blocks s3 p = Some 0" "kmem_inv tot s3" "refcnt (km_pages s3 ! p) = refcnt (km_pages s ! p)"
        using c(4) cp pa(2) by (auto simp: ext_def s3_def)
    qed
    obtain s4 where s4: "kfree s3 (page_to_pa p) = Some s4" "kmem_inv tot s4" "refcnt (km_pages s4 ! p) = refcnt (km_pages s3 ! p) - 1"
      "km_blocks s4 = (if refcnt (km_pages s3 ! p) = 1 then (km_blocks s3)(p := None) else km_blocks s3)"
      using kfree_spec [OF b3(2,1)] by blast
    have m4: "km_mem s4 = km_mem s3" using kfree_mem [OF s4(1)] by blast
    have "\<forall>b\<in>tabs s3 2 root. tblpage s3 b \<longrightarrow> tblpage s4 b"
      using pa(3) s4(4) st(2) by (auto simp: tblpage_def)
    then have ok4: "pt_ok s4 root" "tabs s4 2 root = tabs s 2 root" "\<And>x. lkup s4 2 root x = lkup s3 2 root x"
      using outside_pt [OF ok3, of "{}" s4] m4 st(2) by (auto simp: mem_upto_def)
    have run: "cow af s q 0 (PTE2PA e) (PTE_FLAGS e) = Some (s4, 0)"
      using k(1) Some s4(1) pa(1) by (simp add: cow_def COMMONPAGE_def SUPERPAGE_def Let_def e_def s2_def s3_def PGSIZE_def)
    have tp: "\<forall>d\<in>tabs s 2 root. \<exists>x. d = page_to_pa x" by (rule tree_pages [OF wf])
    have keep: "km_mem s3 x = km_mem s2 x" if "x = page_to_pa u + i" "i < PGSIZE" "page_to_pa u \<notin> tabs s 2 root" for x u i
    proof -
      have "\<not> in_page d x" if d: "d \<in> tabs s 2 root" for d
      proof -
        obtain y where y: "d = page_to_pa y" using tp d by blast
        then have "u \<noteq> y" using d \<open>page_to_pa u \<notin> tabs s 2 root\<close> by auto
        then show ?thesis using page_to_pa_apart [of u y] y that(1) \<open>x = page_to_pa u + i\<close> \<open>i < PGSIZE\<close> by (auto simp: in_page_def)
      qed
      then show ?thesis using st(3) by (simp add: mem_upto_def)
    qed
    have new: "km_mem s4 (c + i) = km_mem s (page_to_pa p + i)" if "i < PGSIZE" for i
      using keep [of "c + i" pc i] that c(1) cn m4 k(3) by (simp add: s2_def memmove_pa_eq)
    have old: "km_mem s4 (page_to_pa p + i) = km_mem s (page_to_pa p + i)" if "i < PGSIZE" for i
    proof -
      have "\<not> (c \<le> page_to_pa p + i \<and> page_to_pa p + i < c + PGSIZE)"
        using page_to_pa_apart [of p pc] cp c(1) that by auto
      then show ?thesis using keep [of "page_to_pa p + i" p i] that pa(3) m4 k(3) by (auto simp: s2_def memmove_pa_eq)
    qed
    have "c < 2 ^ 56" using c(3) PGSIZE_pos by linarith
    then show ?thesis
      using run s4(2,3) b3(3) ok4 cp cn c(1) pcn new old st(4)
      by (intro exI [of _ s4] exI [of _ "0 :: int"] conjI disjI2 exI [of _ c] exI [of _ pc]) auto
  qed
qed

text \<open>C9. A page fault on a copy-on-write page of an area that permits the access gives the process a private copy:
  the page table then maps the page, writable and with its other flags kept, to a fresh frame with the same
  contents; no other translation changes; the shared frame keeps its contents and loses one reference.
  Without free memory the fault is reported with -1 and nothing is changed.\<close>

theorem pagefault_cow_correct:
  assumes "kmem_inv tot (vs_mem vs)" "quiet 1 (vs_mem vs)" "mem_small (vs_mem vs)" "pt_ok (vs_mem vs) root" "stval < MAXVA"
    "find_vma_for_va vs mm stval = Some i" "CHECK_PERM cause (the_vma vs i)"
    "lkup (vs_mem vs) 2 root stval = Some (0, e)" "is_a_cow_page (PTE_FLAGS e)"
    "unat (PTE2PA e) = page_to_pa p" "km_blocks (vs_mem vs) p = Some 0" "page_to_pa p \<notin> tabs (vs_mem vs) 2 root"
  shows "\<exists>m r. pagefault af rd cause vs mm root stval = Some (vs\<lparr>vs_mem := m\<rparr>, r) \<and> kmem_inv tot m \<and> pt_ok m root \<and>
    (r = -1 \<and> exhausted tot m \<and> km_mem m = km_mem (vs_mem vs) \<or>
     r = 0 \<and> (\<exists>c e'. c \<noteq> page_to_pa p \<and> (\<exists>pc. c = page_to_pa pc \<and> km_blocks (vs_mem vs) pc = None) \<and>
       unat (PTE2PA e') = c \<and> has_flag e' PTE_W \<and> PTE_FLAGS e' = PTE_FLAGS e OR PTE_W \<and>
       refcnt (km_pages m ! p) = refcnt (km_pages (vs_mem vs) ! p) - 1 \<and>
       (\<forall>j<PGSIZE. km_mem m (c + j) = km_mem (vs_mem vs) (page_to_pa p + j)) \<and>
       (\<forall>j<PGSIZE. km_mem m (page_to_pa p + j) = km_mem (vs_mem vs) (page_to_pa p + j)) \<and>
       (\<forall>x<MAXVA. lkup m 2 root x = (if unat x div 4096 = unat stval div 4096 then Some (0, e') else lkup (vs_mem vs) 2 root x))))"
proof -
  let ?m = "vs_mem vs"
  obtain q where q: "walk Some ?m root stval False 0 = Some (?m, 0, Some q)" "ld64 ?m q = e" "pte_slot ?m 0 2 root stval = Some q"
    using walk_read [OF assms(4,5), of Some] assms(8) by auto
  have v: "has_flag e PTE_V" using lkup_valid [OF assms(8)] by blast
  have nz: "e \<noteq> 0" using v by auto
  have down: "\<not> MAXVA \<le> PGROUNDDOWN stval" using PGROUNDDOWN_le [of stval] assms(5) by auto
  obtain m r where c: "cow af ?m q 0 (PTE2PA e) (PTE_FLAGS e) = Some (m, r)" "kmem_inv tot m" "pt_ok m root"
    "r = -1 \<and> exhausted tot m \<and> km_mem m = km_mem ?m \<or>
     r = 0 \<and> (\<exists>c. c \<noteq> page_to_pa p \<and> c \<notin> tabs m 2 root \<and> (\<exists>pc. c = page_to_pa pc \<and> km_blocks ?m pc = None) \<and> c < 2 ^ 56 \<and>
       refcnt (km_pages m ! p) = refcnt (km_pages ?m ! p) - 1 \<and>
       (\<forall>i<PGSIZE. km_mem m (c + i) = km_mem ?m (page_to_pa p + i)) \<and>
       (\<forall>i<PGSIZE. km_mem m (page_to_pa p + i) = km_mem ?m (page_to_pa p + i)) \<and>
       (\<forall>va'. lkup m 2 root va' = (if same_vpn 0 2 stval va' then Some (0, PA2PTE (word_of_nat c) OR PTE_FLAGS e OR PTE_W)
          else lkup ?m 2 root va')))"
    using cow_run [OF assms(1-4) q(3), of p af] v q(2) assms(10-12) by auto
  have run: "pagefault af rd cause vs mm root stval = Some (vs\<lparr>vs_mem := m\<rparr>, r)"
    using down assms(6,7,9) q(1,2) nz c(1) v by (simp add: pagefault_def Let_def has_flag_flags)
  have "\<exists>c e'. c \<noteq> page_to_pa p \<and> (\<exists>pc. c = page_to_pa pc \<and> km_blocks ?m pc = None) \<and>
       unat (PTE2PA e') = c \<and> has_flag e' PTE_W \<and> PTE_FLAGS e' = PTE_FLAGS e OR PTE_W \<and>
       refcnt (km_pages m ! p) = refcnt (km_pages ?m ! p) - 1 \<and>
       (\<forall>j<PGSIZE. km_mem m (c + j) = km_mem ?m (page_to_pa p + j)) \<and>
       (\<forall>j<PGSIZE. km_mem m (page_to_pa p + j) = km_mem ?m (page_to_pa p + j)) \<and>
       (\<forall>x<MAXVA. lkup m 2 root x = (if unat x div 4096 = unat stval div 4096 then Some (0, e') else lkup ?m 2 root x))" if "r = 0"
  proof -
    obtain c where x: "c \<noteq> page_to_pa p" "\<exists>pc. c = page_to_pa pc \<and> km_blocks ?m pc = None" "c < 2 ^ 56"
      "refcnt (km_pages m ! p) = refcnt (km_pages ?m ! p) - 1"
      "\<forall>i<PGSIZE. km_mem m (c + i) = km_mem ?m (page_to_pa p + i)"
      "\<forall>i<PGSIZE. km_mem m (page_to_pa p + i) = km_mem ?m (page_to_pa p + i)"
      "\<forall>va'. lkup m 2 root va' = (if same_vpn 0 2 stval va' then Some (0, PA2PTE (word_of_nat c) OR PTE_FLAGS e OR PTE_W)
          else lkup ?m 2 root va')"
      using c(4) \<open>r = 0\<close> by auto
    let ?e = "PA2PTE (word_of_nat c) OR PTE_FLAGS e OR PTE_W"
    obtain pc where pc: "c = page_to_pa pc" using x(2) by blast
    have "PTE2PA ?e = word_of_nat c"
      unfolding or.assoc pc by (rule PTE2PA_PA2PTE [OF take_bit_page take_bit_flags])
    then have pa: "unat (PTE2PA ?e) = c" using x(3) by (simp add: unat_of_nat)
    have fl: "PTE_FLAGS ?e = PTE_FLAGS e OR PTE_W"
    proof -
      have "take_bit 10 (PA2PTE (word_of_nat c)) = 0" by (simp add: PA2PTE_def take_bit_push_bit)
      moreover have "PTE_FLAGS w = take_bit 10 w" for w by (simp add: PTE_FLAGS_def take_bit_eq_mask mask_numeral)
      ultimately show ?thesis using take_bit_flags [of e] by (simp add: or.assoc)
    qed
    have w: "has_flag ?e PTE_W" unfolding has_flag_bit by (simp add: PTE_W_def bit_simps)
    have "\<forall>y<MAXVA. lkup m 2 root y = (if unat y div 4096 = unat stval div 4096 then Some (0, ?e) else lkup ?m 2 root y)"
      using x(7) same_vpn_iff [OF assms(5)] by auto
    then show ?thesis using x(1,2,4-6) pa fl w by blast
  qed
  then show ?thesis using run c(2,3,4) by blast
qed

text \<open>A shared page at \<open>0x5000\<close>, for the witness.\<close>

definition demo_frame :: "kmem \<times> nat option" where
  "demo_frame = the (kzalloc Some demo_vm PGSZ)"

definition demo_shared :: kmem where
  "demo_shared = fst (the (mappages Some (fst demo_frame) START_MEM 0x5000 (word_of_nat 1 * PGSZ)
     (word_of_nat (the (snd demo_frame))) (PTE_R OR PTE_U OR PTE_SHARE) 0))"

lemma demo_frame_ok:
  obtains m p where "demo_frame = (m, Some (page_to_pa p))" "p < 8" "kmem_inv 8 m" "km_blocks m p = Some 0" "km_cnt m = 6" "km_total m = 8"
    "quiet n m" "mem_small m" "pt_ok m START_MEM" "tabs m 2 START_MEM = {START_MEM}" "\<And>va. lkup m 2 START_MEM va = None" "page_to_pa p \<noteq> START_MEM"
proof -
  obtain m r where k: "kzalloc Some demo_vm PGSZ = Some (m, r)" "ext 8 {} (set_option r) demo_vm m"
    "r = None \<longrightarrow> exhausted 8 m" "\<forall>c. r = Some c \<longrightarrow> (\<exists>p<km_total demo_vm. c = page_to_pa p)"
    using kzalloc_ext [OF demo_vm_ok(1,2), of Some] by blast
  have "r \<noteq> None" using k(2,3) demo_vm_ok(7,8) by (auto simp: ext_def exhausted_def)
  then obtain p where p: "r = Some (page_to_pa p)" "p < 8" using k(4) demo_vm_ok(8) by auto
  have e: "ext 8 {} {page_to_pa p} demo_vm m" using k(2) p(1) by simp
  have tp: "tblpage demo_vm START_MEM"
    using demo_vm_ok(4) pt_wf_tblpage tabs_root unfolding pt_ok_def by blast
  then have n: "START_MEM \<noteq> page_to_pa p" using ext_fresh [OF e tp] by simp
  have o: "pt_ok m START_MEM" "tabs m 2 START_MEM = {START_MEM}" "\<And>va. lkup m 2 START_MEM va = None"
    using outside_pt [OF demo_vm_ok(4), of "{page_to_pa p}" m] ext_upto [OF e] n demo_vm_ok(5,6) ext_tblpage [OF e] by auto
  show thesis
  proof (rule that [of m p])
    show "demo_frame = (m, Some (page_to_pa p))" using k(1) p(1) by (simp add: demo_frame_def)
    show "kmem_inv 8 m" "km_cnt m = 6" "km_total m = 8" "km_blocks m p = Some 0"
      using e demo_vm_ok(7,8) by (simp_all add: ext_def)
    show "quiet n m" "mem_small m" using e demo_vm_ok(2) [of n] demo_vm_ok(2) [of "n + 1"] demo_vm_ok(3)
      ext_quiet [OF e, of n] ext_small [OF e] by (simp_all add: add.commute)
  qed (use p o n in auto)
qed

theorem pagefault_cow_correct_witness:
  "\<exists>m r. pagefault Some (\<lambda>_ _ _ m. m) STORE_PAGEFAULT (demo_vs\<lparr>vs_mem := demo_shared\<rparr>) demo_mm START_MEM 0x5008 =
     Some (demo_vs\<lparr>vs_mem := m\<rparr>, r) \<and> kmem_inv 8 m \<and> pt_ok m START_MEM"
proof -
  obtain m p where f: "demo_frame = (m, Some (page_to_pa p))" "p < 8" "kmem_inv 8 m" "km_blocks m p = Some 0" "km_cnt m = 6" "km_total m = 8"
    "quiet 4 m" "mem_small m" "pt_ok m START_MEM" "tabs m 2 START_MEM = {START_MEM}" "\<And>va. lkup m 2 START_MEM va = None" "page_to_pa p \<noteq> START_MEM"
    using demo_frame_ok [of 4] by blast
  let ?perm = "PTE_R OR PTE_U OR PTE_SHARE" and ?pa = "word_of_nat (page_to_pa p) :: uint64"
  have q: "quiet (2 * 1) m" using quiet_mono [OF f(7), of 2] by simp
  obtain s r k F where s: "mappages Some m START_MEM 0x5000 (word_of_nat 1 * PGSZ) ?pa ?perm 0 = Some (s, r)"
    "pt_step 8 START_MEM F m s" "card F \<le> 2 * 1" "r = 0 \<and> k = 1 \<or> r = -1 \<and> k < 1 \<and> exhausted 8 s"
    "\<forall>x<MAXVA. lkup s 2 START_MEM x = mapped 0x5000 k ?pa ?perm m START_MEM x"
    using mappages_spec [OF f(9,3) q f(8), of "0x5000" Some ?pa ?perm] f(11) by auto
  have ds: "demo_shared = s" unfolding demo_shared_def f(1) fst_conv snd_conv option.sel s(1) by (rule refl)
  have e: "ext 8 {START_MEM} F m s" "tabs s 2 START_MEM = {START_MEM} \<union> F" "pt_ok s START_MEM"
    using s(2) f(10) by (simp_all add: pt_step_def)
  have "\<not> exhausted 8 s" using e(1) s(3) f(5,6) by (auto simp: ext_def exhausted_def)
  then have k: "k = 1" using s(4) by simp
  have pF: "page_to_pa p \<notin> F" using e(1) f(4) by (auto simp: ext_def)
  have sp: "km_blocks s p = Some 0" "kmem_inv 8 s" "mem_small s" "page_to_pa p \<notin> tabs s 2 START_MEM"
    using e pF f(4,12) ext_small [OF e(1)] f(8) by (auto simp: ext_def)
  have qs: "quiet 1 s" using ext_quiet [OF e(1), of 1] quiet_mono [OF f(7), of "card F + 1"] s(3) by simp
  have x: "(0x5008 :: uint64) < MAXVA" by code_simp
  have down: "PGROUNDDOWN 0x5008 = 0x5000" by code_simp
  let ?e = "leaf_pte ?pa ?perm"
  have l: "lkup s 2 START_MEM 0x5008 = Some (0, ?e)"
    using s(5) x k by (simp add: mapped_def down)
  have fl: "PTE_FLAGS ?e = ?perm OR PTE_V"
  proof -
    have "PTE_FLAGS w = take_bit 10 w" for w by (simp add: PTE_FLAGS_def take_bit_eq_mask mask_numeral)
    then show ?thesis by (simp add: leaf_pte_def PA2PTE_def take_bit_push_bit pte_flag_defs)
  qed
  have cowp: "is_a_cow_page (PTE_FLAGS ?e)" unfolding fl by code_simp
  have "page_to_pa p < 2 ^ 64" using f(2) by (simp add: page_to_pa_def PGSIZE_def START_MEM_def)
  moreover have "take_bit 10 (?perm OR PTE_V) = ?perm OR PTE_V" by (simp add: pte_flag_defs)
  then have "PTE2PA ?e = ?pa" unfolding leaf_pte_def or.assoc [symmetric] using PTE2PA_PA2PTE [OF take_bit_page] by (simp add: or.assoc)
  ultimately have pa: "unat (PTE2PA ?e) = page_to_pa p" by (simp add: unat_of_nat)
  have vma: "find_vma_for_va (demo_vs\<lparr>vs_mem := s\<rparr>) demo_mm 0x5008 = Some 0" "CHECK_PERM STORE_PAGEFAULT (the_vma (demo_vs\<lparr>vs_mem := s\<rparr>) 0)"
    by (simp_all add: find_vma_for_va_def demo_vs_def demo_mm_def demo_vma_def endva_def CHECK_PERM_def PERM_WRITE_def)
  show ?thesis
    unfolding ds
    using pagefault_cow_correct [of 8 "demo_vs\<lparr>vs_mem := s\<rparr>" START_MEM "0x5008" demo_mm 0 STORE_PAGEFAULT ?e p Some "\<lambda>_ _ _ m. m"]
      sp qs e(3) x vma l cowp pa by auto
qed

end
