(* ===== verification/Semaphore.thy ===== *)
theory Semaphore
  imports Sched
begin

text \<open>
  Counting semaphores (\<open>src/atomic/semaphore.c\<close>) over the scheduler of theory \<open>Sched\<close>.

  \<open>sema_wait\<close> may leave the CPU in \<open>cond_wait\<close>; as there, what it does when the thread runs again is a function
  of its own.  Each function runs with \<open>sem_lock\<close> held, so calls on different CPUs do not overlap; \<open>noff\<close> is the
  nesting of \<open>push_off\<close> at the call.  The counters are unbounded integers; in the code they are \<open>int\<close>s, which differ
  only after 2^31 calls.  The last part is a transition system of one semaphore, the threads that
  use it, waiters killed in their sleep and any other scheduler activity, with the number of threads that passed,
  of waiters killed and of signals as counters.
\<close>

subsection \<open>Operations\<close>

record sem =
  sem_value :: int
  sem_wakeup :: int
  sem_cond :: nat

text \<open>How a call, or the next part of it, ended: it returned, it sleeps, or the thread exited in \<open>cond_wait\<close>.\<close>

datatype wait_result = Passed | Blocked | Killed

definition sema_init :: "ksched \<Rightarrow> nat \<Rightarrow> int \<Rightarrow> ksched \<times> sem" where
  "sema_init s w v = (Queue_init s (WQ w), \<lparr>sem_value = v, sem_wakeup = 0, sem_cond = w\<rparr>)"

definition sema_wait :: "ksched \<Rightarrow> sem \<Rightarrow> nat \<Rightarrow> nat \<Rightarrow> uint64 \<Rightarrow> (ksched \<times> sem \<times> wait_result) option" where
  "sema_wait s S c noff rdtime =
     (let S = S\<lparr>sem_value := sem_value S - 1\<rparr> in
      if sem_value S < 0 then do {
        s \<leftarrow> cond_wait s c (sem_cond S) (noff + 1) rdtime;
        Some (s, S, Blocked) }
      else Some (s, S, Passed))"

definition sema_wait_resume ::
  "ksched \<Rightarrow> sem \<Rightarrow> nat \<Rightarrow> nat \<Rightarrow> uint64 \<Rightarrow> (ksched \<times> sem \<times> wait_result) option" where
  "sema_wait_resume s S c noff rdtime = do {
     t \<leftarrow> cpu_thread s c;
     let (s, killed, _) = cond_wait_resume s t;
     if killed then do {
       s \<leftarrow> do_exit s c noff rdtime;
       Some (s, S, Killed) }
     else if sem_wakeup S = 0 then do {
       s \<leftarrow> cond_wait s c (sem_cond S) (noff + 1) rdtime;
       Some (s, S, Blocked) }
     else Some (s, S\<lparr>sem_wakeup := sem_wakeup S - 1\<rparr>, Passed) }"

definition sema_signal :: "ksched \<Rightarrow> sem \<Rightarrow> (ksched \<times> sem) option" where
  "sema_signal s S =
     (let S = S\<lparr>sem_value := sem_value S + 1\<rparr> in
      if sem_value S \<le> 0 then do {
        let S = S\<lparr>sem_wakeup := sem_wakeup S + 1\<rparr>;
        s \<leftarrow> cond_signal s (sem_cond S);
        Some (s, S) }
      else Some (s, S))"

subsection \<open>A semaphore among threads\<close>

text \<open>\<open>inside\<close> holds the threads that went to sleep in \<open>sema_wait\<close> and have not returned from it; \<open>gone\<close> counts those
  that were killed there and exited in \<open>cond_wait\<close>, without giving back their decrement of \<open>value\<close>.\<close>

record semsys =
  ks :: ksched
  sm :: sem
  inside :: "nat set"
  passed :: nat
  signalled :: nat
  gone :: nat

definition awake :: "ksched \<Rightarrow> nat \<Rightarrow> bool" where
  "awake s t \<longleftrightarrow> t_state s t = TCB_RUNNABLE \<or> t_state s t = TCB_RUNNING"

text \<open>What the rest of the kernel may do to a thread inside \<open>sema_wait\<close>: mark it as killed, wake it by a signal, schedule it
  and preempt it.  It does not sleep elsewhere or exit on its own, being inside \<open>sema_wait\<close>; nobody else sleeps on
  the semaphore's own queue or wakes threads from it; and \<open>do_exit_group\<close> does not free it.\<close>

definition undisturbed :: "nat \<Rightarrow> nat set \<Rightarrow> ksched \<Rightarrow> ksched \<Rightarrow> bool" where
  "undisturbed w A s s' \<longleftrightarrow> set (qlist s' (WQ w)) \<subseteq> set (qlist s (WQ w)) \<and>
     (\<forall>t\<in>A. t \<in> set (qlist s' (WQ w)) \<or> awake s' t)"

inductive sem_step :: "nat \<Rightarrow> semsys \<Rightarrow> semsys \<Rightarrow> bool" for n where
  wait: "cpu_thread (ks x) c = Some t \<Longrightarrow> t \<notin> inside x \<Longrightarrow> sema_wait (ks x) (sm x) c 0 rd = Some (s', S', r) \<Longrightarrow>
    sem_step n x (x\<lparr>ks := s', sm := S', inside := (if r = Blocked then insert t (inside x) else inside x),
      passed := (if r = Passed then passed x + 1 else passed x)\<rparr>)"
| resume: "cpu_thread (ks x) c = Some t \<Longrightarrow> t \<in> inside x \<Longrightarrow> \<not> t_killed (ks x) t \<Longrightarrow>
    sema_wait_resume (ks x) (sm x) c 0 rd = Some (s', S', r) \<Longrightarrow>
    sem_step n x (x\<lparr>ks := s', sm := S', inside := (if r = Passed then inside x - {t} else inside x),
      passed := (if r = Passed then passed x + 1 else passed x)\<rparr>)"
| killed: "cpu_thread (ks x) c = Some t \<Longrightarrow> t \<in> inside x \<Longrightarrow> t_killed (ks x) t \<Longrightarrow>
    sema_wait_resume (ks x) (sm x) c 0 rd = Some (s', S', r) \<Longrightarrow>
    sem_step n x (x\<lparr>ks := s', sm := S', inside := inside x - {t}, gone := gone x + 1\<rparr>)"
| signal: "sema_signal (ks x) (sm x) = Some (s', S') \<Longrightarrow>
    sem_step n x (x\<lparr>ks := s', sm := S', signalled := signalled x + 1\<rparr>)"
| other: "sched_step n (ks x) s' \<Longrightarrow> undisturbed (sem_cond (sm x)) (inside x) (ks x) s' \<Longrightarrow> sem_step n x (x\<lparr>ks := s'\<rparr>)"

inductive sem_reach :: "nat \<Rightarrow> nat \<Rightarrow> int \<Rightarrow> semsys \<Rightarrow> bool" for n k v where
  start: "sched_reach n k s \<Longrightarrow> w < next_wq s \<Longrightarrow> qlist s (WQ w) = [] \<Longrightarrow> 0 \<le> v \<Longrightarrow> sema_init s w v = (s', S) \<Longrightarrow>
    sem_reach n k v \<lparr>ks = s', sm = S, inside = {}, passed = 0, signalled = 0, gone = 0\<rparr>"
| step: "sem_reach n k v x \<Longrightarrow> sem_step n x y \<Longrightarrow> sem_reach n k v y"

text \<open>Every waiter sleeps in the queue or is awake.  Of the waiters, those gone included, \<open>wakeup\<close> have been granted a token and
  are awake or gone, and the rest is the deficit of \<open>value\<close>.\<close>

definition sem_inv :: "nat \<Rightarrow> int \<Rightarrow> semsys \<Rightarrow> bool" where
  "sem_inv n v x \<longleftrightarrow> sched_inv n (ks x) \<and> sem_cond (sm x) < next_wq (ks x) \<and> finite (inside x) \<and>
     set (qlist (ks x) (WQ (sem_cond (sm x)))) \<subseteq> inside x \<and>
     (\<forall>t\<in>inside x. t \<in> set (qlist (ks x) (WQ (sem_cond (sm x)))) \<or> awake (ks x) t) \<and>
     0 \<le> sem_wakeup (sm x) \<and>
     int (card (inside x)) + int (gone x) = sem_wakeup (sm x) + max 0 (- sem_value (sm x)) \<and>
     int (passed x) + int (card (inside x)) + int (gone x) + sem_value (sm x) = v + int (signalled x) \<and>
     sem_wakeup (sm x) \<le> int (card (inside x - set (qlist (ks x) (WQ (sem_cond (sm x)))))) + int (gone x)"

subsection \<open>Wait queues are never retired\<close>

lemma push_back_next_wq: "Queue_push_back s q t = Some s' \<Longrightarrow> next_wq s' = next_wq s"
  by (auto simp: Queue_push_back_def split: if_splits)

lemma change_next_wq: "TCB_Q_changeState s t st = Some s' \<Longrightarrow> next_wq s' = next_wq s"
  by (auto simp: TCB_Q_changeState_def Queue_remove_atomic_def Queue_push_back_atomic_def Option.bind_eq_Some_conv
      dest!: push_back_next_wq split: if_splits)

lemma thread_sched_next_wq: "thread_sched s c noff rd = Some s' \<Longrightarrow> next_wq s' = next_wq s"
  by (cases "cpu_thread s c"; cases "noff = 1"; cases "t_state s (the (cpu_thread s c)) = TCB_RUNNING")
    (auto simp: thread_sched_def Let_def)

lemma sleep_on_next_wq:
  assumes "sleep_on s c w tmo noff rd = Some s'"
  shows "next_wq s' = next_wq s"
proof -
  obtain t s1 s2 s3 where s: "TCB_Q_changeState s t TCB_SLEEPING = Some s1" "Queue_push_back s1 (WQ w) t = Some s2"
    "thread_sched s3 c noff rd = Some s'" "next_wq s3 = next_wq s2"
    using assms unfolding sleep_on_def Let_def Option.bind_eq_Some_conv by (cases tmo) auto
  show ?thesis
    using change_next_wq [OF s(1)] push_back_next_wq [OF s(2)] thread_sched_next_wq [OF s(3)] s(4) by simp
qed

lemma provide_next_wq: "Queue_provide_atomic s q b = (s', r) \<Longrightarrow> next_wq s' = next_wq s"
  by (auto simp: Queue_provide_atomic_def Queue_pop_def Let_def split: if_splits)

lemma wake_taken_next_wq: "wake_taken s t = Some s' \<Longrightarrow> next_wq s' = next_wq s"
  by (auto simp: wake_taken_def Option.bind_eq_Some_conv Let_def dest!: change_next_wq)

lemma wake_first_next_wq: "wake_first s w = Some s' \<Longrightarrow> next_wq s' = next_wq s"
  by (auto simp: wake_first_def Option.bind_eq_Some_conv Let_def dest!: wake_taken_next_wq provide_next_wq split: prod.splits)

lemma free_thread_next_wq: "free_thread s t = Some s' \<Longrightarrow> next_wq s' = next_wq s"
  by (auto simp: free_thread_def Option.bind_eq_Some_conv Let_def dest!: change_next_wq split: if_splits)

lemma thread_wakeup_next_wq: "thread_wakeup s t = Some s' \<Longrightarrow> next_wq s' = next_wq s"
  by (auto simp: thread_wakeup_def Queue_remove_atomic_def Option.bind_eq_Some_conv Let_def dest!: change_next_wq)

lemma get_futex_next_wq: "get_futex s a b = (s', r) \<Longrightarrow> next_wq s \<le> next_wq s'"
  by (auto simp: get_futex_def Queue_init_def Let_def split: option.splits if_splits)

lemma broadcast_next_wq: "broadcast_loop f s w = Some s' \<Longrightarrow> next_wq s' = next_wq s"
  by (induction f arbitrary: s) (fastforce simp: Option.bind_eq_Some_conv dest: wake_first_next_wq split: if_splits)+

lemma futex_wake_next_wq: "futex_wake_loop f s w r nr = Some (s', k) \<Longrightarrow> next_wq s' = next_wq s"
  by (induction f arbitrary: s r) (fastforce simp: Option.bind_eq_Some_conv dest: wake_first_next_wq split: if_splits)+

lemma requeue_next_wq: "requeue_loop f s w1 w2 r nr = Some (s', k) \<Longrightarrow> next_wq s' = next_wq s"
  by (induction f arbitrary: s r)
    (fastforce simp: Option.bind_eq_Some_conv Let_def Queue_push_back_atomic_def dest: push_back_next_wq provide_next_wq
      split: if_splits prod.splits)+

lemma futex_wakeup_next_wq: "futex_wakeup s a nr = Some (s', k) \<Longrightarrow> next_wq s \<le> next_wq s'"
  by (auto simp: futex_wakeup_def Option.bind_eq_Some_conv simp del: futex_wake_loop.simps
      dest!: futex_wake_next_wq get_futex_next_wq split: prod.splits option.splits if_splits)

lemma futex_requeue_next_wq:
  assumes "futex_requeue s a nr a2 nr2 = Some (x, r)"
  shows "next_wq s \<le> next_wq x"
proof -
  obtain s1 k where 1: "futex_wakeup s a nr = Some (s1, k)"
    using assms by (auto simp: futex_requeue_def Option.bind_eq_Some_conv)
  obtain s2 f where 2: "get_futex s1 a True = (s2, f)" by fastforce
  obtain s3 g where 3: "get_futex s2 a2 False = (s3, g)" by fastforce
  have le: "next_wq s \<le> next_wq s2" "next_wq s \<le> next_wq s3"
    using futex_wakeup_next_wq [OF 1] get_futex_next_wq [OF 2] get_futex_next_wq [OF 3] by simp_all
  show ?thesis
    using assms 1 2 3 le by (cases f; cases g)
      (auto simp: futex_requeue_def Option.bind_eq_Some_conv simp del: requeue_loop.simps
        dest!: requeue_next_wq split: if_splits)
qed

lemma do_futex_next_wq:
  assumes "do_futex s c a op u val ts a2 val2 noff rd = Some (s', r)"
  shows "next_wq s \<le> next_wq s'"
proof -
  have w: "futex_wait s c a u val ts noff rd = Some (x, r) \<Longrightarrow> next_wq s \<le> next_wq x" for x r
    by (auto simp: futex_wait_def Option.bind_eq_Some_conv Let_def dest!: sleep_on_next_wq get_futex_next_wq
        split: option.splits if_splits prod.splits)
  have q: "futex_requeue s a nr a2 nr2 = Some (x, r) \<Longrightarrow> next_wq s \<le> next_wq x" for x r nr nr2
    by (rule futex_requeue_next_wq)
  show ?thesis
    using assms w q by (auto simp: do_futex_def Let_def dest!: futex_wakeup_next_wq split: if_splits)
qed

lemma tick_next_wq:
  "timer_list_decrease_atomic thread_wakeup_atomic rd l s = Some (l', s') \<Longrightarrow> next_wq s' = next_wq s"
  by (induction l arbitrary: s l')
    (auto simp: Option.bind_eq_Some_conv thread_wakeup_atomic_eq dest!: thread_wakeup_next_wq split: if_splits)

lemma exit_group_next_wq: "exit_group_loop ts b s = Some s' \<Longrightarrow> next_wq s \<le> next_wq s'"
proof (induction ts arbitrary: s)
  case (Cons e ts)
  obtain t a where e: "e = (t, a)" by fastforce
  obtain s1 s2 where s: "s1 = s \<or> (\<exists>r. futex_wakeup s a 1 = Some (s1, r))" "free_thread s1 t = Some s2" "exit_group_loop ts b s2 = Some s'"
    using exit_group_loop_step [OF Cons.prems [unfolded e]] by blast
  have "next_wq s \<le> next_wq s1" using s(1) futex_wakeup_next_wq by blast
  then show ?case using free_thread_next_wq [OF s(2)] Cons.IH [OF s(3)] by simp
qed simp

lemma sched_step_next_wq: "sched_step n s s' \<Longrightarrow> next_wq s \<le> next_wq s'"
proof (induction rule: sched_step.induct)
  case (create s s' t)
  then show ?case
    by (auto simp: create_thread_def alloc_thread_def Option.bind_eq_Some_conv dest!: change_next_wq provide_next_wq
        split: prod.splits option.splits)
next
  case (exit s c t rd s')
  then show ?case
    by (auto simp: do_exit_def free_thread_def Option.bind_eq_Some_conv dest!: change_next_wq thread_sched_next_wq split: if_splits)
next
  case (exit_group s c t tg s')
  then show ?case
    by (auto simp: do_exit_group_def dest!: exit_group_next_wq)
next
  case (tkill t s signo s')
  then show ?case
    by (auto simp: thread_send_signal_def Option.bind_eq_Some_conv dest!: thread_wakeup_next_wq split: if_splits)
qed (auto simp: thread_yield_def thread_scheduler_def thread_sched_resume_def thread_setkilled_def cond_wait_def cond_signal_def
    cond_broadcast_def Option.bind_eq_Some_conv Let_def
    dest!: change_next_wq thread_sched_next_wq provide_next_wq sleep_on_next_wq wake_first_next_wq wake_taken_next_wq broadcast_next_wq
      do_futex_next_wq tick_next_wq split: prod.splits option.splits if_splits)

subsection \<open>The invariant is kept\<close>

lemma sem_invD:
  assumes "sem_inv n v x"
  shows "sched_inv n (ks x)" "sem_cond (sm x) < next_wq (ks x)" "finite (inside x)"
    "set (qlist (ks x) (WQ (sem_cond (sm x)))) \<subseteq> inside x"
    "t \<in> inside x \<Longrightarrow> t \<in> set (qlist (ks x) (WQ (sem_cond (sm x)))) \<or> awake (ks x) t" "0 \<le> sem_wakeup (sm x)"
    "int (card (inside x)) + int (gone x) = sem_wakeup (sm x) + max 0 (- sem_value (sm x))"
    "int (passed x) + int (card (inside x)) + int (gone x) + sem_value (sm x) = v + int (signalled x)"
    "sem_wakeup (sm x) \<le> int (card (inside x - set (qlist (ks x) (WQ (sem_cond (sm x)))))) + int (gone x)"
  using assms unfolding sem_inv_def by blast+

lemma running_not_queued:
  assumes "sched_inv n s" "cpu_thread s c = Some t"
  shows "t_state s t = TCB_RUNNING" "t \<notin> set (qlist s (WQ w))"
proof -
  note D = states_okD [OF sched_invD(2) [OF assms(1)]]
  show r: "t_state s t = TCB_RUNNING" using D assms(2) by blast
  show "t \<notin> set (qlist s (WQ w))"
    using r D assms(2) links_okD(2) [OF sched_invD(1) [OF assms(1)], of t "WQ w"] by (metis option.distinct(1) q_type.simps(3) thread_state.distinct(19))
qed

lemma wait_ok:
  assumes inv: "sched_inv n s" "sem_cond S < next_wq s" and cur: "cpu_thread s c = Some t"
  shows "1 \<le> sem_value S \<Longrightarrow> sema_wait s S c 0 rd = Some (s, S\<lparr>sem_value := sem_value S - 1\<rparr>, Passed)"
    "sem_value S \<le> 0 \<Longrightarrow> \<exists>s'. sema_wait s S c 0 rd = Some (s', S\<lparr>sem_value := sem_value S - 1\<rparr>, Blocked) \<and>
       sched_inv n s' \<and> next_wq s' = next_wq s \<and> t_state s' = (t_state s)(t := TCB_SLEEPING) \<and>
       qlist s' (WQ (sem_cond S)) = qlist s (WQ (sem_cond S)) @ [t]"
  using sleep_on_inv [OF inv(1) cur inv(2), of None rd] by (auto simp: sema_wait_def cond_wait_def)

lemma resume_ok:
  assumes inv: "sched_inv n s" "sem_cond S < next_wq s" and cur: "cpu_thread s c = Some t" and k: "\<not> t_killed s t"
  shows "sem_wakeup S = 0 \<Longrightarrow> \<exists>s'. sema_wait_resume s S c 0 rd = Some (s', S, Blocked) \<and>
      sched_inv n s' \<and> next_wq s' = next_wq s \<and> t_state s' = (t_state s)(t := TCB_SLEEPING) \<and>
      qlist s' (WQ (sem_cond S)) = qlist s (WQ (sem_cond S)) @ [t]"
    "sem_wakeup S \<noteq> 0 \<Longrightarrow> \<exists>s'. sema_wait_resume s S c 0 rd = Some (s', S\<lparr>sem_wakeup := sem_wakeup S - 1\<rparr>, Passed) \<and>
      sched_inv n s' \<and> next_wq s' = next_wq s \<and> t_state s' = t_state s \<and> qlist s' = qlist s"
proof -
  let ?s = "fst (thread_sched_resume s t)"
  have e: "sched_inv n ?s" "next_wq ?s = next_wq s" "t_state ?s = t_state s" "qlist ?s = qlist s" "cpu_thread ?s = cpu_thread s"
    "t_killed ?s = t_killed s"
    using inv(1) by (simp_all add: thread_sched_resume_def)
  have r: "cond_wait_resume s t = (?s, False, snd (thread_sched_resume s t))"
    using k e(6) by (simp add: cond_wait_resume_def case_prod_unfold Let_def)
  show "sem_wakeup S \<noteq> 0 \<Longrightarrow> \<exists>s'. sema_wait_resume s S c 0 rd = Some (s', S\<lparr>sem_wakeup := sem_wakeup S - 1\<rparr>, Passed) \<and>
      sched_inv n s' \<and> next_wq s' = next_wq s \<and> t_state s' = t_state s \<and> qlist s' = qlist s"
    using e r cur by (simp add: sema_wait_resume_def)
  show "sem_wakeup S = 0 \<Longrightarrow> \<exists>s'. sema_wait_resume s S c 0 rd = Some (s', S, Blocked) \<and>
      sched_inv n s' \<and> next_wq s' = next_wq s \<and> t_state s' = (t_state s)(t := TCB_SLEEPING) \<and>
      qlist s' (WQ (sem_cond S)) = qlist s (WQ (sem_cond S)) @ [t]"
    using sleep_on_inv [OF e(1), of c t "sem_cond S" None rd] e r cur inv(2) by (auto simp: sema_wait_resume_def cond_wait_def)
qed

lemma do_exit_queues:
  assumes "sched_inv n s" "cpu_thread s c = Some t"
  shows "\<exists>s'. do_exit s c 0 rd = Some s' \<and> sched_inv n s' \<and> cpu_thread s' = (cpu_thread s)(c := None) \<and>
    next_wq s' = next_wq s \<and> (\<forall>w. qlist s' (WQ w) = qlist s (WQ w))"
proof -
  note D = states_okD [OF sched_invD(2) [OF assms(1)]]
  have w: "wait_chan_entry s t = None"
    using D running_not_queued(1) [OF assms] assms(2) by (metis thread_state.distinct(19))
  let ?s = "s\<lparr>t_killed := (t_killed s)(t := False)\<rparr>"
  have "links_ok ?s" using sched_invD(1) [OF assms(1)] by (simp add: links_ok_def)
  then obtain s1 where s1: "TCB_Q_changeState ?s t TCB_UNUSED = Some s1" "moved t TCB_UNUSED ?s s1"
    using TCB_Q_changeState_moved by blast
  then have c: "cpu_thread s1 c = Some t" "t_state s1 t \<noteq> TCB_RUNNING" using assms(2) by (simp_all add: moved_def)
  have "do_exit s c 0 rd = Some (s1\<lparr>timers := sched_timers s1 t rd, cpu_thread := (cpu_thread s1)(c := None)\<rparr>)"
    using assms(2) w s1(1) thread_sched_eq [OF c, of rd] by (simp add: do_exit_def free_thread_def)
  then show ?thesis
    using do_exit_inv [OF assms, of rd] s1(2) by (auto simp: moved_def)
qed

lemma resume_killed:
  assumes inv: "sched_inv n s" and cur: "cpu_thread s c = Some t" and k: "t_killed s t"
  shows "\<exists>s'. sema_wait_resume s S c 0 rd = Some (s', S, Killed) \<and> sched_inv n s' \<and> next_wq s' = next_wq s \<and>
    t_state s' = (t_state s)(t := TCB_UNUSED) \<and> cpu_thread s' = (cpu_thread s)(c := None) \<and> (\<forall>w. qlist s' (WQ w) = qlist s (WQ w))"
proof -
  let ?s = "fst (thread_sched_resume s t)"
  have e: "sched_inv n ?s" "cpu_thread ?s = cpu_thread s" "qlist ?s = qlist s" "next_wq ?s = next_wq s" "t_killed ?s = t_killed s"
    "t_state ?s = t_state s"
    using inv by (simp_all add: thread_sched_resume_def)
  have c: "cpu_thread ?s c = Some t" using e(2) cur by simp
  obtain s1 where s1: "do_exit ?s c 0 rd = Some s1" "sched_inv n s1" "cpu_thread s1 = (cpu_thread s)(c := None)" "next_wq s1 = next_wq s"
    "\<forall>w. qlist s1 (WQ w) = qlist s (WQ w)"
    using do_exit_queues [OF e(1) c, of rd] e by auto
  moreover have "t_state s1 = (t_state s)(t := TCB_UNUSED)" using do_exit_inv [OF e(1) c, of rd] s1(1) e(6) by auto
  moreover have "sema_wait_resume s S c 0 rd = Some (s1, S, Killed)"
    using s1(1) cur k e(5) by (simp add: sema_wait_resume_def cond_wait_resume_def case_prod_unfold Let_def)
  ultimately show ?thesis by blast
qed

lemma signal_ok:
  assumes inv: "sched_inv n s"
  shows "0 \<le> sem_value S \<Longrightarrow> sema_signal s S = Some (s, S\<lparr>sem_value := sem_value S + 1\<rparr>)"
    "sem_value S < 0 \<Longrightarrow> \<exists>s'. sema_signal s S = Some (s', S\<lparr>sem_value := sem_value S + 1, sem_wakeup := sem_wakeup S + 1\<rparr>) \<and>
       woken n (sem_cond S) (take 1 (qlist s (WQ (sem_cond S)))) s s'"
  using cond_signal_woken [OF inv, of "sem_cond S"] by (auto simp: sema_signal_def)

lemma sem_step_wait:
  assumes inv: "sem_inv n v x" and cur: "cpu_thread (ks x) c = Some t" "t \<notin> inside x"
    and w: "sema_wait (ks x) (sm x) c 0 rd = Some (s', S', r)"
  shows "sem_inv n v (x\<lparr>ks := s', sm := S', inside := (if r = Blocked then insert t (inside x) else inside x),
      passed := (if r = Passed then passed x + 1 else passed x)\<rparr>)"
proof -
  note I = sem_invD [OF inv]
  let ?q = "set (qlist (ks x) (WQ (sem_cond (sm x))))"
  show ?thesis
  proof (cases "sem_value (sm x) \<le> 0")
    case True
    with wait_ok(2) [OF I(1,2) cur(1), of rd] w have s: "S' = (sm x)\<lparr>sem_value := sem_value (sm x) - 1\<rparr>" "r = Blocked"
      "sched_inv n s'" "next_wq s' = next_wq (ks x)" "t_state s' = (t_state (ks x))(t := TCB_SLEEPING)"
      "qlist s' (WQ (sem_cond (sm x))) = qlist (ks x) (WQ (sem_cond (sm x))) @ [t]"
      by auto
    have "insert t (inside x) - insert t ?q = inside x - ?q" using cur(2) by auto
    then show ?thesis
      unfolding sem_inv_def using I s cur(2) True by (auto simp: awake_def)
  next
    case False
    with wait_ok(1) [OF I(1,2) cur(1)] w have "S' = (sm x)\<lparr>sem_value := sem_value (sm x) - 1\<rparr>" "r = Passed" "s' = ks x"
      by simp_all
    then show ?thesis
      unfolding sem_inv_def using I False by simp
  qed
qed

lemma sem_step_resume:
  assumes inv: "sem_inv n v x" and cur: "cpu_thread (ks x) c = Some t" "t \<in> inside x" "\<not> t_killed (ks x) t"
    and w: "sema_wait_resume (ks x) (sm x) c 0 rd = Some (s', S', r)"
  shows "sem_inv n v (x\<lparr>ks := s', sm := S', inside := (if r = Passed then inside x - {t} else inside x),
      passed := (if r = Passed then passed x + 1 else passed x)\<rparr>)"
proof -
  note I = sem_invD [OF inv]
  let ?q = "set (qlist (ks x) (WQ (sem_cond (sm x))))"
  have nq: "t \<notin> ?q" by (rule running_not_queued(2) [OF I(1) cur(1)])
  show ?thesis
  proof (cases "sem_wakeup (sm x) = 0")
    case True
    with resume_ok(1) [OF I(1,2) cur(1,3), of rd] w have s: "S' = sm x" "r = Blocked"
      "sched_inv n s'" "next_wq s' = next_wq (ks x)" "t_state s' = (t_state (ks x))(t := TCB_SLEEPING)"
      "qlist s' (WQ (sem_cond (sm x))) = qlist (ks x) (WQ (sem_cond (sm x))) @ [t]"
      by auto
    show ?thesis
      unfolding sem_inv_def using I s cur(2) True by (auto simp: awake_def)
  next
    case False
    with resume_ok(2) [OF I(1,2) cur(1,3), of rd] w have s: "S' = (sm x)\<lparr>sem_wakeup := sem_wakeup (sm x) - 1\<rparr>" "r = Passed"
      "sched_inv n s'" "next_wq s' = next_wq (ks x)" "t_state s' = t_state (ks x)" "qlist s' = qlist (ks x)"
      by auto
    have "inside x - {t} - ?q = (inside x - ?q) - {t}" by auto
    then have c: "int (card (inside x - {t} - ?q)) = int (card (inside x - ?q)) - 1" "int (card (inside x - {t})) = int (card (inside x)) - 1"
      using I(3) cur(2) nq card_Suc_Diff1 [of "inside x - ?q" t] card_Suc_Diff1 [of "inside x" t] by auto
    show ?thesis
      unfolding sem_inv_def using I s c cur(2) False nq by (auto simp: awake_def)
  qed
qed

lemma sem_step_killed:
  assumes inv: "sem_inv n v x" and cur: "cpu_thread (ks x) c = Some t" "t \<in> inside x" "t_killed (ks x) t"
    and w: "sema_wait_resume (ks x) (sm x) c 0 rd = Some (s', S', r)"
  shows "sem_inv n v (x\<lparr>ks := s', sm := S', inside := inside x - {t}, gone := gone x + 1\<rparr>)"
proof -
  note I = sem_invD [OF inv]
  let ?q = "set (qlist (ks x) (WQ (sem_cond (sm x))))"
  have nq: "t \<notin> ?q" by (rule running_not_queued(2) [OF I(1) cur(1)])
  from resume_killed [OF I(1) cur(1,3), of "sm x" rd] w have s: "S' = sm x" "sched_inv n s'" "next_wq s' = next_wq (ks x)"
    "t_state s' = (t_state (ks x))(t := TCB_UNUSED)" "\<forall>w. qlist s' (WQ w) = qlist (ks x) (WQ w)" by auto
  have "inside x - {t} - ?q = (inside x - ?q) - {t}" by auto
  then have c: "int (card (inside x - {t} - ?q)) = int (card (inside x - ?q)) - 1" "int (card (inside x - {t})) = int (card (inside x)) - 1"
    using I(3) cur(2) nq card_Suc_Diff1 [of "inside x - ?q" t] card_Suc_Diff1 [of "inside x" t] by auto
  show ?thesis
    unfolding sem_inv_def using I s c cur(2) nq by (auto simp: awake_def)
qed

lemma sem_step_signal:
  assumes inv: "sem_inv n v x" and w: "sema_signal (ks x) (sm x) = Some (s', S')"
  shows "sem_inv n v (x\<lparr>ks := s', sm := S', signalled := signalled x + 1\<rparr>)"
proof -
  note I = sem_invD [OF inv]
  let ?q = "qlist (ks x) (WQ (sem_cond (sm x)))"
  show ?thesis
  proof (cases "sem_value (sm x) < 0")
    case True
    with signal_ok(2) [OF I(1) True] w have s: "S' = (sm x)\<lparr>sem_value := sem_value (sm x) + 1, sem_wakeup := sem_wakeup (sm x) + 1\<rparr>"
      "woken n (sem_cond (sm x)) (take 1 ?q) (ks x) s'"
      by auto
    then have q: "?q = take 1 ?q @ qlist s' (WQ (sem_cond (sm x)))" "next_wq s' = next_wq (ks x)" "sched_inv n s'"
      "\<And>t. t_state s' t = (if t \<in> set (take 1 ?q) then TCB_RUNNABLE else t_state (ks x) t)"
      by (auto simp: woken_def)
    have r: "qlist s' (WQ (sem_cond (sm x))) = drop 1 ?q"
      using q(1) by (metis append_take_drop_id same_append_eq)
    have c: "sem_wakeup (sm x) + 1 \<le> int (card (inside x - set (qlist s' (WQ (sem_cond (sm x)))))) + int (gone x)"
    proof (cases ?q)
      case Nil
      then show ?thesis using r I(7) True by simp
    next
      case (Cons h ts)
      then have "distinct (h # ts)" using links_okD(1) [OF sched_invD(1) [OF I(1)]] by metis
      then have "inside x - set ts = insert h (inside x - set ?q)" using Cons I(4) by auto
      moreover have "h \<notin> inside x - set ?q" "finite (inside x - set ?q)" using Cons I(3) by auto
      ultimately have "card (inside x - set ts) = Suc (card (inside x - set ?q))"
        by (metis card_insert_disjoint)
      then show ?thesis unfolding r using Cons I(9) by simp
    qed
    have sub: "set (qlist s' (WQ (sem_cond (sm x)))) \<subseteq> set ?q" "set ?q \<subseteq> set (take 1 ?q) \<union> set (qlist s' (WQ (sem_cond (sm x))))"
      unfolding r by (metis set_drop_subset) (metis append_take_drop_id set_append order_refl)
    have a: "t \<in> set (qlist s' (WQ (sem_cond (sm x)))) \<or> awake s' t" if "t \<in> inside x" for t
      using I(5) [OF that] sub(2) q(4) [of t] by (auto simp: awake_def)
    show ?thesis
      unfolding sem_inv_def using I s(1) q(2,3) c sub(1) a True by simp
  next
    case False
    then have "S' = (sm x)\<lparr>sem_value := sem_value (sm x) + 1\<rparr>" "s' = ks x"
      using signal_ok(1) [OF I(1), of "sm x"] w by simp_all
    then show ?thesis
      unfolding sem_inv_def using I False by simp
  qed
qed

lemma sem_step_other:
  assumes inv: "sem_inv n v x" and st: "sched_step n (ks x) s'" and u: "undisturbed (sem_cond (sm x)) (inside x) (ks x) s'"
  shows "sem_inv n v (x\<lparr>ks := s'\<rparr>)"
proof -
  note I = sem_invD [OF inv]
  have s: "sched_inv n s'" "next_wq (ks x) \<le> next_wq s'"
    using sched_step_inv [OF st I(1)] sched_step_next_wq [OF st] by auto
  have "card (inside x - set (qlist (ks x) (WQ (sem_cond (sm x))))) \<le> card (inside x - set (qlist s' (WQ (sem_cond (sm x)))))"
    using u I(3) by (intro card_mono) (auto simp: undisturbed_def)
  then show ?thesis
    unfolding sem_inv_def using I s u by (auto simp: undisturbed_def)
qed

lemma sem_step_inv: "sem_step n x y \<Longrightarrow> sem_inv n v x \<Longrightarrow> sem_inv n v y"
  by (induction rule: sem_step.induct)
    (blast intro: sem_step_wait sem_step_resume sem_step_killed sem_step_signal sem_step_other)+

lemma sem_reach_inv: "sem_reach n k v x \<Longrightarrow> sem_inv n v x"
proof (induction rule: sem_reach.induct)
  case (start s w s' S)
  then have "s' = s" "S = \<lparr>sem_value = v, sem_wakeup = 0, sem_cond = w\<rparr>"
    by (auto simp: sema_init_def Queue_init_def fun_upd_idem)
  then show ?case
    using start sched_reach_inv [OF start(1)] by (simp add: sem_inv_def)
qed (rule sem_step_inv)

subsection \<open>The properties\<close>

text \<open>C29. In every reachable state the tokens of a semaphore balance: the threads that passed, the wake-ups granted but not
  yet used and the free tokens together are the initial value plus the number of signals.  So no more threads pass
  than the initial value and the signals permit; with the initial value 1 this is mutual exclusion.  Waiters may be killed
  in their sleep.\<close>

theorem semaphore_token_balance:
  assumes "sem_reach n k v x"
  shows "int (passed x) + sem_wakeup (sm x) + max 0 (sem_value (sm x)) = v + int (signalled x) \<and>
    int (passed x) \<le> v + int (signalled x)"
proof -
  note I = sem_invD [OF sem_reach_inv [OF assms]]
  show ?thesis using I(6,7,8) by (auto simp: max_def split: if_splits)
qed

text \<open>C30. A killed waiter costs at most one wake-up, and no other is lost: if the threads that passed and the waiters that were
  killed inside together are fewer than the tokens there were, then either a new caller passes at once, or a
  thread inside \<open>sema_wait\<close> is awake and the waiter that runs next passes unless it was killed.  The steps are those of
  \<open>sem_step\<close>: calls on the semaphore, waiters killed in their sleep, and other scheduler steps that leave the
  threads inside in the queue or awake.\<close>

theorem semaphore_no_lost_wakeup:
  assumes "sem_reach n k v x" "int (passed x) + int (gone x) < v + int (signalled x)"
  shows "(\<forall>c rd. \<exists>S'. sema_wait (ks x) (sm x) c 0 rd = Some (ks x, S', Passed)) \<or>
    (\<exists>t\<in>inside x. awake (ks x) t) \<and>
    (\<forall>c t rd. cpu_thread (ks x) c = Some t \<longrightarrow> \<not> t_killed (ks x) t \<longrightarrow>
       (\<exists>s' S'. sema_wait_resume (ks x) (sm x) c 0 rd = Some (s', S', Passed)))"
proof -
  note I = sem_invD [OF sem_reach_inv [OF assms(1)]]
  show ?thesis
  proof (cases "0 < sem_value (sm x)")
    case True
    then show ?thesis by (simp add: sema_wait_def)
  next
    case False
    then have w: "int (gone x) < sem_wakeup (sm x)" using I(6,7,8) assms(2) by simp
    then have "card (inside x - set (qlist (ks x) (WQ (sem_cond (sm x))))) \<noteq> 0" using I(9) by simp
    then have "inside x - set (qlist (ks x) (WQ (sem_cond (sm x)))) \<noteq> {}" by force
    then obtain t where "t \<in> inside x" "awake (ks x) t" using I(5) by blast
    moreover have "\<exists>s' S'. sema_wait_resume (ks x) (sm x) c 0 rd = Some (s', S', Passed)"
      if "cpu_thread (ks x) c = Some t" "\<not> t_killed (ks x) t" for c t rd
      using resume_ok(2) [OF I(1,2) that, of rd] w by auto
    ultimately show ?thesis by blast
  qed
qed

text \<open>A killed waiter takes its place in the count with it: if the only waiter of a semaphore is killed, it exits inside
  \<open>sema_wait\<close> without giving back its decrement.  The next signal then wakes nobody, and the next caller goes to
  sleep although a wake-up has been granted and is still unused.\<close>

theorem killed_waiter_loses_token:
  assumes "sched_reach n k s" "cpu_thread s c = Some t" "t_killed s t" "cpu_thread s d = Some u" "c \<noteq> d"
    "sem_cond S < next_wq s" "qlist s (WQ (sem_cond S)) = []" "sem_value S = -1" "sem_wakeup S = 0"
  shows "\<exists>s1 s2 s3 S1 S2. sema_wait_resume s S c 0 rd = Some (s1, S, Killed) \<and> sema_signal s1 S = Some (s2, S1) \<and>
    sema_wait s2 S1 d 0 rd = Some (s3, S2, Blocked) \<and> sem_wakeup S2 = 1 \<and> qlist s3 (WQ (sem_cond S)) = [u]"
proof -
  obtain s1 where s1: "sema_wait_resume s S c 0 rd = Some (s1, S, Killed)" "sched_inv n s1" "cpu_thread s1 d = Some u" "next_wq s1 = next_wq s"
    "qlist s1 (WQ (sem_cond S)) = []"
    using resume_killed [OF sched_reach_inv [OF assms(1)] assms(2,3), of S rd] assms(4,5,7) by auto
  note k = s1(1)
  let ?S = "S\<lparr>sem_value := 0, sem_wakeup := 1\<rparr>"
  have g: "sema_signal s1 S = Some (s1, ?S)"
    using s1(5) assms(8,9) by (simp add: sema_signal_def cond_signal_def Queue_isempty_def)
  obtain s3 where "sema_wait s1 ?S d 0 rd = Some (s3, ?S\<lparr>sem_value := -1\<rparr>, Blocked)" "qlist s3 (WQ (sem_cond S)) = [u]"
    using wait_ok(2) [OF s1(2) _ s1(3), of ?S rd] s1(4,5) assms(6) by auto
  with k g show ?thesis by (intro exI conjI) auto
qed

text \<open>The three runs of the witnesses: thread 0 of the two threads waits on a semaphore with value 0; thread 1 signals it;
  or thread 1 kills the waiter instead, which is then scheduled again.\<close>

definition demo_sem :: sem where "demo_sem = snd (sema_init demo_run 0 0)"
definition demo_asleep :: ksched where "demo_asleep = fst (the (sema_wait demo_run demo_sem 0 0 0))"
definition demo_killed :: ksched where
  "demo_killed = thread_scheduler (the (thread_send_signal demo_asleep 0 SIGKILL)) 0"

lemma demo_init: "sema_init demo_run 0 0 = (demo_run, demo_sem)" "0 < next_wq demo_run" "qlist demo_run (WQ 0) = []"
proof -
  show w: "0 < next_wq demo_run" "qlist demo_run (WQ 0) = []" by code_simp+
  show "sema_init demo_run 0 0 = (demo_run, demo_sem)"
    using w(2) by (simp add: demo_sem_def sema_init_def Queue_init_def fun_upd_idem)
qed

lemma demo_blocked:
  shows "sema_wait demo_run demo_sem 0 0 0 = Some (demo_asleep, demo_sem\<lparr>sem_value := -1\<rparr>, Blocked)"
    "cpu_thread demo_run 0 = Some 0"
proof -
  show c: "cpu_thread demo_run 0 = Some 0" by code_simp
  have "sched_inv 2 demo_run" using sched_reach_inv [OF demo_reach(1)] .
  from wait_ok(2) [OF this _ c, of demo_sem 0] demo_init(2) obtain s' where
    "sema_wait demo_run demo_sem 0 0 0 = Some (s', demo_sem\<lparr>sem_value := -1\<rparr>, Blocked)"
    by (auto simp: demo_sem_def sema_init_def)
  then show "sema_wait demo_run demo_sem 0 0 0 = Some (demo_asleep, demo_sem\<lparr>sem_value := -1\<rparr>, Blocked)"
    by (simp add: demo_asleep_def)
qed

definition demo_y :: semsys where
  "demo_y = \<lparr>ks = demo_asleep, sm = demo_sem\<lparr>sem_value := -1\<rparr>, inside = {0}, passed = 0, signalled = 0, gone = 0\<rparr>"

lemma demo_y_reach: "sem_reach 2 1 0 demo_y"
proof -
  have r: "sem_reach 2 1 0 \<lparr>ks = demo_run, sm = demo_sem, inside = {}, passed = 0, signalled = 0, gone = 0\<rparr>" (is "sem_reach _ _ _ ?x")
    by (rule sem_reach.start [OF demo_reach(1) demo_init(2,3) _ demo_init(1)]) simp
  have "sem_step 2 ?x demo_y"
    using sem_step.wait [of ?x 0 0 0 demo_asleep "demo_sem\<lparr>sem_value := -1\<rparr>" Blocked 2] demo_blocked
    by (simp add: demo_y_def)
  then show ?thesis by (rule sem_reach.step [OF r])
qed

theorem semaphore_token_balance_witness:
  "inside demo_y = {0} \<and> int (passed demo_y) + sem_wakeup (sm demo_y) + max 0 (sem_value (sm demo_y)) = 0 + int (signalled demo_y)"
  using semaphore_token_balance [OF demo_y_reach] by (simp add: demo_y_def)

theorem semaphore_no_lost_wakeup_witness:
  "\<exists>x. sem_reach 2 1 0 x \<and> signalled x = 1 \<and> passed x = 0 \<and> gone x = 0 \<and> \<not> (\<exists>S'. sema_wait (ks x) (sm x) 1 0 0 = Some (ks x, S', Passed)) \<and>
     (\<exists>t\<in>inside x. awake (ks x) t)"
proof -
  obtain s' where g: "sema_signal demo_asleep (demo_sem\<lparr>sem_value := -1\<rparr>) = Some (s', demo_sem\<lparr>sem_value := 0, sem_wakeup := 1\<rparr>)"
    using signal_ok(2) [OF sem_invD(1) [OF sem_reach_inv [OF demo_y_reach]], of "demo_sem\<lparr>sem_value := -1\<rparr>"]
    by (auto simp: demo_y_def demo_sem_def sema_init_def)
  let ?x = "demo_y\<lparr>ks := s', sm := demo_sem\<lparr>sem_value := 0, sem_wakeup := 1\<rparr>, signalled := 1\<rparr>"
  have "sem_step 2 demo_y ?x"
    using sem_step.signal [of demo_y s' "demo_sem\<lparr>sem_value := 0, sem_wakeup := 1\<rparr>" 2] g by (simp add: demo_y_def)
  then have r: "sem_reach 2 1 0 ?x" by (rule sem_reach.step [OF demo_y_reach])
  have n: "\<not> (\<exists>S'. sema_wait (ks ?x) (sm ?x) 1 0 0 = Some (ks ?x, S', Passed))"
    by (auto simp: sema_wait_def Option.bind_eq_Some_conv)
  have "(\<exists>t\<in>inside ?x. awake (ks ?x) t)"
    using semaphore_no_lost_wakeup [OF r] n by (auto simp: demo_y_def)
  with r n show ?thesis by (intro exI [of _ ?x]) (simp add: demo_y_def)
qed

lemma demo_killed_reach: "sched_reach 2 1 demo_killed"
proof -
  have c: "cond_wait demo_run 0 0 1 0 = Some demo_asleep"
    using demo_blocked(1) by (auto simp: sema_wait_def demo_sem_def sema_init_def Option.bind_eq_Some_conv)
  have r: "sched_reach 2 1 demo_asleep"
    by (rule sched_reach.step [OF demo_reach(1) sched_step.wait [OF demo_blocked(2) demo_init(2) c]])
  have nt: "\<not> taken demo_asleep 0" by code_simp
  have "wait_chan_entry demo_asleep 0 = Some 0" "\<not> freed_wq demo_asleep 0" by code_simp+
  then have live: "\<And>w. wait_chan_entry demo_asleep 0 = Some w \<Longrightarrow> \<not> freed_wq demo_asleep w" by simp
  obtain s' where s: "thread_send_signal demo_asleep 0 SIGKILL = Some s'"
    using thread_send_signal_inv [OF sched_reach_inv [OF r], of 0 SIGKILL] live by auto
  have "sched_reach 2 1 s'" by (rule sched_reach.step [OF r sched_step.tkill [OF _ nt s]]) simp
  moreover have "cpu_thread (the (thread_send_signal demo_asleep 0 SIGKILL)) 0 = None" by code_simp
  ultimately show ?thesis
    using s by (simp add: demo_killed_def schedule_reach)
qed

theorem killed_waiter_loses_token_witness:
  "\<exists>s1 s2 s3 S1 S2. sema_wait_resume demo_killed (demo_sem\<lparr>sem_value := -1\<rparr>) 0 0 0 = Some (s1, demo_sem\<lparr>sem_value := -1\<rparr>, Killed) \<and>
    sema_signal s1 (demo_sem\<lparr>sem_value := -1\<rparr>) = Some (s2, S1) \<and> sema_wait s2 S1 1 0 0 = Some (s3, S2, Blocked) \<and>
    sem_wakeup S2 = 1 \<and> qlist s3 (WQ 0) = [1]"
proof -
  have d: "cpu_thread demo_killed 0 = Some 0" "t_killed demo_killed 0" "cpu_thread demo_killed 1 = Some 1" "0 < next_wq demo_killed"
    "qlist demo_killed (WQ 0) = []"
    by code_simp+
  show ?thesis
    using killed_waiter_loses_token [OF demo_killed_reach d(1,2,3), of "demo_sem\<lparr>sem_value := -1\<rparr>" 0] d(4,5)
    by (simp add: demo_sem_def sema_init_def)
qed

end
