(* ===== verification/Pipe.thy ===== *)
theory Pipe
  imports Semaphore UserMem
begin

text \<open>
  Pipes (\<open>src/ipc/pipe.c\<close>) and the shared buffer (\<open>src/lib/sbuf.c\<close>): rings of bytes with free-running 32-bit
  counters, over semaphores (theory \<open>Semaphore\<close>) and the copy functions (theory \<open>UserMem\<close>).

  Both rings implement the locale \<open>bounded_fifo\<close>.  A read or write of a pipe may release the pipe's lock to wait; a
  function here is one segment between two such points, and says how it ended.
\<close>

subsection \<open>Bounded queues\<close>

locale bounded_fifo =
  fixes invar :: "'s \<Rightarrow> bool" and contents :: "'s \<Rightarrow> 'a list" and cap :: "'s \<Rightarrow> nat"
    and put :: "'a \<Rightarrow> 's \<Rightarrow> 's" and front :: "'s \<Rightarrow> 'a" and get :: "'s \<Rightarrow> 's"
  assumes contents_le: "invar s \<Longrightarrow> length (contents s) \<le> cap s"
    and put_contents: "invar s \<Longrightarrow> length (contents s) < cap s \<Longrightarrow> contents (put x s) = contents s @ [x]"
    and put_invar: "invar s \<Longrightarrow> length (contents s) < cap s \<Longrightarrow> invar (put x s)"
    and front_contents: "invar s \<Longrightarrow> contents s \<noteq> [] \<Longrightarrow> front s = hd (contents s)"
    and get_contents: "invar s \<Longrightarrow> contents s \<noteq> [] \<Longrightarrow> contents (get s) = tl (contents s)"
    and get_invar: "invar s \<Longrightarrow> contents s \<noteq> [] \<Longrightarrow> invar (get s)"
    and cap_put: "cap (put x s) = cap s"
    and cap_get: "cap (get s) = cap s"
begin

fun drain :: "nat \<Rightarrow> 's \<Rightarrow> 'a list \<times> 's" where
  "drain 0 s = ([], s)"
| "drain (Suc k) s = (let (xs, s') = drain k (get s) in (front s # xs, s'))"

lemma puts:
  assumes "invar s" "length (contents s) + length xs \<le> cap s"
  shows "invar (fold put xs s)" "contents (fold put xs s) = contents s @ xs"
  using assms by (induction xs arbitrary: s) (simp_all add: put_contents put_invar cap_put)

lemma drains:
  assumes "invar s" "k \<le> length (contents s)"
  shows "drain k s = (take k (contents s), snd (drain k s))" "invar (snd (drain k s))"
    "contents (snd (drain k s)) = drop k (contents s)"
proof -
  have "fst (drain k s) = take k (contents s) \<and> invar (snd (drain k s)) \<and> contents (snd (drain k s)) = drop k (contents s)"
    using assms
  proof (induction k arbitrary: s)
    case (Suc k)
    then have ne: "contents s \<noteq> []" by auto
    have "k \<le> length (contents (get s))" using Suc.prems by (simp add: get_contents [OF Suc.prems(1) ne])
    from Suc.IH [OF get_invar [OF Suc.prems(1) ne] this] ne show ?case
      by (cases "contents s") (auto simp: get_contents [OF Suc.prems(1) ne] front_contents [OF Suc.prems(1) ne] case_prod_unfold Let_def)
  qed simp
  then show "drain k s = (take k (contents s), snd (drain k s))" "invar (snd (drain k s))"
    "contents (snd (drain k s)) = drop k (contents s)"
    by (metis prod.collapse)+
qed

text \<open>What is put into a queue with room for it comes out again, after what was there, in the same order.\<close>

lemma puts_then_drains:
  assumes "invar s" "length (contents s) + length xs \<le> cap s" "k = length (contents s) + length xs"
  shows "fst (drain k (fold put xs s)) = contents s @ xs"
  using drains(1) [OF puts(1) [OF assms(1,2)], of k] puts(2) [OF assms(1,2)] assms(3) by (metis fst_conv length_append order_refl take_all)

end

subsection \<open>Rings with free-running counters\<close>

definition ring :: "byte list \<Rightarrow> uint \<Rightarrow> uint \<Rightarrow> byte list" where
  "ring data r w = List.map (\<lambda>k. data ! ((unat r + k) mod length data)) [0 ..< unat (w - r)]"

text \<open>The counters wrap around at \<open>2 ^ 32\<close>; the index stays right because the size of the ring divides this.\<close>

definition ring_ok :: "byte list \<Rightarrow> uint \<Rightarrow> uint \<Rightarrow> bool" where
  "ring_ok data r w \<longleftrightarrow> length data dvd 2 ^ 32 \<and> length data < 2 ^ 32 \<and> unat (w - r) \<le> length data"

lemma length_ring [simp]: "length (ring data r w) = unat (w - r)"
  by (simp add: ring_def)

lemma uint_distance: "unat w mod 2 ^ 32 = (unat r + unat (w - r)) mod 2 ^ 32" for r w :: uint
proof -
  have "unat w = unat (r + (w - r))" by simp
  then show ?thesis by (simp only: unat_word_ariths) simp
qed

lemma mod_dvd_cong: "b dvd c \<Longrightarrow> x mod c = y mod c \<Longrightarrow> x mod b = y mod b" for b c x y :: nat
  by (metis mod_mod_cancel)

lemma ring_slot:
  assumes "ring_ok data r w"
  shows "unat w mod length data = (unat r + unat (w - r)) mod length data"
  by (rule mod_dvd_cong [OF _ uint_distance]) (use assms in \<open>simp add: ring_ok_def\<close>)

lemma ring_distance_inc:
  assumes "ring_ok data r w" "unat (w - r) < length data"
  shows "unat (w + 1 - r) = Suc (unat (w - r))"
proof -
  have "unat (w - r) + 1 < 2 ^ 32" using assms by (auto simp: ring_ok_def)
  then have "unat ((w - r) + 1) = unat (w - r) + 1" by (simp add: unat_word_ariths)
  then show ?thesis by (simp add: algebra_simps)
qed

lemma ring_push:
  assumes ok: "ring_ok data r w" and room: "unat (w - r) < length data"
  shows "ring (data[unat w mod length data := x]) r (w + 1) = ring data r w @ [x]"
    "ring_ok (data[unat w mod length data := x]) r (w + 1)"
proof -
  let ?n = "length data" and ?d = "unat (w - r)"
  note d = ring_distance_inc [OF ok room] and s = ring_slot [OF ok]
  have "(unat r + ?d) mod ?n \<noteq> (unat r + k) mod ?n" if "k < ?d" for k
  proof
    assume "(unat r + ?d) mod ?n = (unat r + k) mod ?n"
    then have "?d mod ?n = k mod ?n" by (simp add: mod_add_cong nat_mod_eq_iff)
    then show False using that room by simp
  qed
  moreover have "(unat r + ?d) mod ?n < ?n" using room by (intro mod_less_divisor) linarith
  ultimately show "ring (data[unat w mod ?n := x]) r (w + 1) = ring data r w @ [x]"
    unfolding ring_def d s by (simp add: nth_list_update)
  show "ring_ok (data[unat w mod ?n := x]) r (w + 1)"
    using ok room d by (simp add: ring_ok_def)
qed

lemma ring_pop:
  assumes ok: "ring_ok data r w" and some: "r \<noteq> w"
  shows "data ! (unat r mod length data) = hd (ring data r w)" "ring data (r + 1) w = tl (ring data r w)" "ring_ok data (r + 1) w"
proof -
  have "w - r \<noteq> 0" using some by simp
  then have p: "0 < unat (w - r)" by (simp add: unat_gt_0)
  have d: "unat (w - (r + 1)) = unat (w - r) - 1"
    using p unat_minus_one [of "w - r"] \<open>w - r \<noteq> 0\<close> by (simp add: algebra_simps)
  have u: "[0 ..< unat (w - r)] = 0 # List.map Suc [0 ..< unat (w - r) - 1]"
    using p by (metis Suc_pred' map_Suc_upt upt_conv_Cons)
  have e: "(unat (r + 1) + k) mod length data = (unat r + Suc k) mod length data" for k
  proof -
    have "unat (r + 1) mod 2 ^ 32 = (unat r + 1) mod 2 ^ 32" by (simp add: unat_word_ariths)
    then have "unat (r + 1) mod length data = (unat r + 1) mod length data"
      by (rule mod_dvd_cong [rotated]) (use ok in \<open>simp add: ring_ok_def\<close>)
    then have "(unat (r + 1) + k) mod length data = (unat r + 1 + k) mod length data" by (rule mod_add_cong) simp
    then show ?thesis by simp
  qed
  show "data ! (unat r mod length data) = hd (ring data r w)" using u by (simp add: ring_def)
  show "ring data (r + 1) w = tl (ring data r w)" unfolding ring_def d u by (simp add: e)
  show "ring_ok data (r + 1) w" using ok d by (auto simp: ring_ok_def)
qed

subsection \<open>Pipes: operations\<close>

definition PIPESIZE :: nat where "PIPESIZE = 512"

record pipe =
  pipe_data :: "byte list"
  nread :: uint
  nwrite :: uint
  readopen :: bool
  writeopen :: bool
  read_sem :: sem
  write_sem :: sem

definition PIPE_FULL :: "pipe \<Rightarrow> bool" where "PIPE_FULL pi \<longleftrightarrow> nwrite pi = nread pi + word_of_nat PIPESIZE"
definition PIPE_EMPTY :: "pipe \<Rightarrow> bool" where "PIPE_EMPTY pi \<longleftrightarrow> nread pi = nwrite pi"

definition pipe_empty :: "pipe \<Rightarrow> bool" where "pipe_empty p \<longleftrightarrow> nread p = nwrite p"
definition pipe_full :: "pipe \<Rightarrow> bool" where "pipe_full p \<longleftrightarrow> nread p + word_of_nat PIPESIZE = nwrite p"

text \<open>The statements of \<open>pipe_alloc\<close> that set up the pipe; \<open>w1\<close> and \<open>w2\<close> are the wait queues of its semaphores.  The
  bytes are whatever the page held.\<close>

definition pipe_setup :: "ksched \<Rightarrow> nat \<Rightarrow> nat \<Rightarrow> byte list \<Rightarrow> ksched \<times> pipe" where
  "pipe_setup s w1 w2 data =
     (let (s, rs) = sema_init s w1 0; (s, ws) = sema_init s w2 0
      in (s, \<lparr>pipe_data = data, nread = 0, nwrite = 0, readopen = True, writeopen = True, read_sem = rs, write_sem = ws\<rparr>))"

definition pipe_put :: "byte \<Rightarrow> pipe \<Rightarrow> pipe" where
  "pipe_put ch pi = pi\<lparr>pipe_data := (pipe_data pi)[unat (nwrite pi) mod PIPESIZE := ch], nwrite := nwrite pi + 1\<rparr>"

definition pipe_front :: "pipe \<Rightarrow> byte" where
  "pipe_front pi = pipe_data pi ! (unat (nread pi) mod PIPESIZE)"

definition pipe_get :: "pipe \<Rightarrow> pipe" where
  "pipe_get pi = pi\<lparr>nread := nread pi + 1\<rparr>"

record pst =
  ps_ks :: ksched
  ps_vs :: vmst
  ps_pi :: pipe

text \<open>How a segment ended: the call returned, or the lock was released to wait for the other side, with the loop's
  index; after \<open>sema_wait\<close> the call goes on from there.\<close>

datatype pipe_out = Returned int | WaitWriter | WaitReader int

definition signal_readers :: "pst \<Rightarrow> pst option" where
  "signal_readers st = do {
     (s, rs) \<leftarrow> sema_signal (ps_ks st) (read_sem (ps_pi st));
     Some (st\<lparr>ps_ks := s, ps_pi := (ps_pi st)\<lparr>read_sem := rs\<rparr>\<rparr>) }"

definition signal_writers :: "pst \<Rightarrow> pst option" where
  "signal_writers st = do {
     (s, ws) \<leftarrow> sema_signal (ps_ks st) (write_sem (ps_pi st));
     Some (st\<lparr>ps_ks := s, ps_pi := (ps_pi st)\<lparr>write_sem := ws\<rparr>\<rparr>) }"

text \<open>\<open>chp\<close> is the address of the local variable \<open>ch\<close>.\<close>

function pipe_write :: "mm_struct \<Rightarrow> nat \<Rightarrow> bool \<Rightarrow> bool \<Rightarrow> uint64 \<Rightarrow> int \<Rightarrow> pst \<Rightarrow> int \<Rightarrow> (pst \<times> pipe_out) option" where
  "pipe_write mm chp killed user_dst addr n st i =
     (if i < n then
        if \<not> readopen (ps_pi st) \<or> killed then Some (st, Returned (-1))
        else if PIPE_FULL (ps_pi st) then map_option (\<lambda>st. (st, WaitReader i)) (signal_readers st)
        else case either_copyin mm (ps_vs st) chp user_dst (addr + word_of_int i) 1 of None \<Rightarrow> None
          | Some (vs, r) \<Rightarrow>
              if r = -1 then map_option (\<lambda>st. (st, Returned i)) (signal_readers (st\<lparr>ps_vs := vs\<rparr>))
              else pipe_write mm chp killed user_dst addr n
                     (st\<lparr>ps_vs := vs, ps_pi := pipe_put (km_mem (vs_mem vs) chp) (ps_pi st)\<rparr>) (i + 1)
      else map_option (\<lambda>st. (st, Returned i)) (signal_readers st))"
  by pat_completeness auto
termination
  by (relation "measure (\<lambda>(mm, chp, killed, user, addr, n, st, i). nat (n - i))") auto

declare pipe_write.simps [simp del]

function pipe_read_loop :: "(kmem \<Rightarrow> kmem option) \<Rightarrow> page_reader \<Rightarrow> mm_struct \<Rightarrow> nat \<Rightarrow> bool \<Rightarrow> uint64 \<Rightarrow> int \<Rightarrow> pst \<Rightarrow> int \<Rightarrow>
    (pst \<times> int) option" where
  "pipe_read_loop af rd mm chp user_dst addr n st i =
     (if i < n then
        if PIPE_EMPTY (ps_pi st) then Some (st, i)
        else
          let vs = ps_vs st;
              vs = vs\<lparr>vs_mem := (vs_mem vs)\<lparr>km_mem := (km_mem (vs_mem vs))(chp := pipe_front (ps_pi st))\<rparr>\<rparr>
          in case either_copyout af rd mm vs user_dst (addr + word_of_int i) chp 1 of None \<Rightarrow> None
            | Some (vs, r) \<Rightarrow>
                if r = -1 then Some (st\<lparr>ps_vs := vs\<rparr>, i)
                else pipe_read_loop af rd mm chp user_dst addr n (st\<lparr>ps_vs := vs, ps_pi := pipe_get (ps_pi st)\<rparr>) (i + 1)
      else Some (st, i))"
  by pat_completeness auto
termination
  by (relation "measure (\<lambda>(af, rd, mm, chp, user, addr, n, st, i). nat (n - i))") auto

declare pipe_read_loop.simps [simp del]

definition pipe_read :: "(kmem \<Rightarrow> kmem option) \<Rightarrow> page_reader \<Rightarrow> mm_struct \<Rightarrow> nat \<Rightarrow> bool \<Rightarrow> bool \<Rightarrow> uint64 \<Rightarrow> int \<Rightarrow> pst \<Rightarrow>
    (pst \<times> pipe_out) option" where
  "pipe_read af rd mm chp killed user_dst addr n st =
     (if PIPE_EMPTY (ps_pi st) \<and> writeopen (ps_pi st) then
        if killed then Some (st, Returned (-1)) else Some (st, WaitWriter)
      else do {
        (st, i) \<leftarrow> pipe_read_loop af rd mm chp user_dst addr n st 0;
        st \<leftarrow> signal_writers st;
        Some (st, Returned i) })"

text \<open>The result tells whether the pipe's page, at address \<open>pa\<close>, was freed.\<close>

definition pipe_close :: "nat \<Rightarrow> bool \<Rightarrow> pst \<Rightarrow> (pst \<times> bool) option" where
  "pipe_close pa writable st = do {
     st \<leftarrow> (if writable then signal_readers (st\<lparr>ps_pi := (ps_pi st)\<lparr>writeopen := False\<rparr>\<rparr>)
           else signal_writers (st\<lparr>ps_pi := (ps_pi st)\<lparr>readopen := False\<rparr>\<rparr>));
     if \<not> readopen (ps_pi st) \<and> \<not> writeopen (ps_pi st)
     then map_option (\<lambda>vs. (st\<lparr>ps_vs := vs\<rparr>, True)) (on_mem (\<lambda>m. kfree m pa) (ps_vs st))
     else Some (st, False) }"

subsection \<open>The shared buffer: operations\<close>

record sbuf =
  sb_buf :: "byte list"
  sb_w :: uint
  sb_r :: uint
  sb_slots :: sem
  sb_items :: sem

text \<open>\<open>sbuf_init\<close> after the allocation of the \<open>n\<close> bytes; \<open>n\<close> is the length of the buffer.\<close>

definition sbuf_init :: "ksched \<Rightarrow> nat \<Rightarrow> nat \<Rightarrow> byte list \<Rightarrow> ksched \<times> sbuf" where
  "sbuf_init s w1 w2 buf =
     (let (s, it) = sema_init s w1 0; (s, sl) = sema_init s w2 (int (length buf))
      in (s, \<lparr>sb_buf = buf, sb_w = 0, sb_r = 0, sb_slots = sl, sb_items = it\<rparr>))"

definition sbuf_n :: "sbuf \<Rightarrow> nat" where "sbuf_n sp = length (sb_buf sp)"

definition sbuf_empty :: "sbuf \<Rightarrow> bool" where "sbuf_empty sp \<longleftrightarrow> sb_r sp = sb_w sp"
definition sbuf_full :: "sbuf \<Rightarrow> bool" where "sbuf_full sp \<longleftrightarrow> sb_r sp + word_of_nat (sbuf_n sp) = sb_w sp"

definition sbuf_put :: "byte \<Rightarrow> sbuf \<Rightarrow> sbuf" where
  "sbuf_put item sp = sp\<lparr>sb_buf := (sb_buf sp)[unat (sb_w sp) mod sbuf_n sp := item], sb_w := sb_w sp + 1\<rparr>"

definition sbuf_front :: "sbuf \<Rightarrow> byte" where "sbuf_front sp = sb_buf sp ! (unat (sb_r sp) mod sbuf_n sp)"
definition sbuf_get :: "sbuf \<Rightarrow> sbuf" where "sbuf_get sp = sp\<lparr>sb_r := sb_r sp + 1\<rparr>"

text \<open>\<open>sbuf_insert\<close> after \<open>sema_wait\<close> of the slots has passed: the result, and the state.\<close>

definition sbuf_insert :: "mm_struct \<Rightarrow> nat \<Rightarrow> bool \<Rightarrow> uint64 \<Rightarrow> ksched \<times> vmst \<times> sbuf \<Rightarrow> ((ksched \<times> vmst \<times> sbuf) \<times> int) option" where
  "sbuf_insert mm itp user_dst addr = (\<lambda>(s, vs, sp). do {
     (vs, r) \<leftarrow> either_copyin mm vs itp user_dst addr 1;
     if r = -1 then Some ((s, vs, sp), -1)
     else do {
       let sp = sbuf_put (km_mem (vs_mem vs) itp) sp;
       (s, it) \<leftarrow> sema_signal s (sb_items sp);
       Some ((s, vs, sp\<lparr>sb_items := it\<rparr>), 0) } })"

text \<open>\<open>sbuf_remove\<close>: the test before \<open>sema_wait\<close> of the items, and the rest after it has passed.\<close>

definition sbuf_remove_eof :: "sbuf \<Rightarrow> bool" where
  "sbuf_remove_eof sp \<longleftrightarrow> sb_r sp = sb_w sp \<and> sb_w sp \<noteq> 0"

definition sbuf_remove :: "(kmem \<Rightarrow> kmem option) \<Rightarrow> page_reader \<Rightarrow> mm_struct \<Rightarrow> nat \<Rightarrow> bool \<Rightarrow> uint64 \<Rightarrow> ksched \<times> vmst \<times> sbuf \<Rightarrow>
    ((ksched \<times> vmst \<times> sbuf) \<times> int) option" where
  "sbuf_remove af rd mm itp user_dst addr = (\<lambda>(s, vs, sp).
     if sb_r sp = sb_w sp then Some ((s, vs, sp), 1)
     else do {
       let vs = vs\<lparr>vs_mem := (vs_mem vs)\<lparr>km_mem := (km_mem (vs_mem vs))(itp := sbuf_front sp)\<rparr>\<rparr>;
       let sp = sbuf_get sp;
       (vs, r) \<leftarrow> either_copyout af rd mm vs user_dst addr itp 1;
       if r = -1 then Some ((s, vs, sp), -1)
       else do {
         (s, sl) \<leftarrow> sema_signal s (sb_slots sp);
         Some ((s, vs, sp\<lparr>sb_slots := sl\<rparr>), 0) } })"

subsection \<open>Both rings are bounded queues\<close>

definition pipe_ok :: "pipe \<Rightarrow> bool" where
  "pipe_ok pi \<longleftrightarrow> length (pipe_data pi) = PIPESIZE \<and> unat (nwrite pi - nread pi) \<le> PIPESIZE"

definition pipe_q :: "pipe \<Rightarrow> byte list" where "pipe_q pi = ring (pipe_data pi) (nread pi) (nwrite pi)"

definition sbuf_ok :: "sbuf \<Rightarrow> bool" where "sbuf_ok sp \<longleftrightarrow> ring_ok (sb_buf sp) (sb_r sp) (sb_w sp)"
definition sbuf_q :: "sbuf \<Rightarrow> byte list" where "sbuf_q sp = ring (sb_buf sp) (sb_r sp) (sb_w sp)"

lemma pipe_ok_ring: "pipe_ok pi \<longleftrightarrow> length (pipe_data pi) = PIPESIZE \<and> ring_ok (pipe_data pi) (nread pi) (nwrite pi)"
proof -
  have "(512 :: nat) dvd 2 ^ 32" by (simp add: dvd_def exI [of _ 8388608])
  then show ?thesis by (auto simp: pipe_ok_def ring_ok_def PIPESIZE_def)
qed

lemma ring_empty [simp]: "ring data r w = [] \<longleftrightarrow> r = w"
  using length_ring [of data r w] by (metis diff_self eq_iff_diff_eq_0 length_0_conv unat_eq_0)

interpretation pipe_fifo: bounded_fifo pipe_ok pipe_q "\<lambda>_. PIPESIZE" pipe_put pipe_front pipe_get
proof
  fix pi :: pipe and x
  assume ok: "pipe_ok pi"
  note R = ok [unfolded pipe_ok_ring]
  show "length (pipe_q pi) \<le> PIPESIZE" using ok by (simp add: pipe_q_def pipe_ok_def)
  show "pipe_q (pipe_put x pi) = pipe_q pi @ [x]" "pipe_ok (pipe_put x pi)" if "length (pipe_q pi) < PIPESIZE"
    using that R ring_push [of "pipe_data pi" "nread pi" "nwrite pi" x] by (simp_all add: pipe_ok_ring pipe_q_def pipe_put_def)
  show "pipe_front pi = hd (pipe_q pi)" "pipe_q (pipe_get pi) = tl (pipe_q pi)" "pipe_ok (pipe_get pi)" if "pipe_q pi \<noteq> []"
    using that R ring_pop [of "pipe_data pi" "nread pi" "nwrite pi"]
    by (simp_all add: pipe_ok_ring pipe_q_def pipe_front_def pipe_get_def)
qed simp_all

interpretation sbuf_fifo: bounded_fifo sbuf_ok sbuf_q sbuf_n sbuf_put sbuf_front sbuf_get
  by unfold_locales
    (auto simp: sbuf_ok_def sbuf_q_def sbuf_put_def sbuf_front_def sbuf_get_def sbuf_n_def ring_ok_def [of "sb_buf _" "sb_r _" "sb_w _"]
      intro: ring_push ring_pop)

subsection \<open>Writing and reading\<close>

lemma PIPE_EMPTY_iff: "PIPE_EMPTY pi \<longleftrightarrow> pipe_q pi = []"
  by (simp add: PIPE_EMPTY_def pipe_q_def)

lemma PIPE_FULL_iff:
  assumes "pipe_ok pi"
  shows "PIPE_FULL pi \<longleftrightarrow> length (pipe_q pi) = PIPESIZE"
proof -
  have "PIPE_FULL pi \<longleftrightarrow> nwrite pi - nread pi = word_of_nat PIPESIZE"
    by (simp add: PIPE_FULL_def diff_eq_eq add.commute)
  also have "\<dots> \<longleftrightarrow> unat (nwrite pi - nread pi) = PIPESIZE"
    by (simp add: PIPESIZE_def word_unat_eq_iff)
  finally show ?thesis by (simp add: pipe_q_def)
qed

lemma signal_readers_eq:
  "signal_readers st = map_option (\<lambda>(s, rs). st\<lparr>ps_ks := s, ps_pi := (ps_pi st)\<lparr>read_sem := rs\<rparr>\<rparr>)
     (sema_signal (ps_ks st) (read_sem (ps_pi st)))"
  by (cases "sema_signal (ps_ks st) (read_sem (ps_pi st))") (auto simp: signal_readers_def)

lemma signal_writers_eq:
  "signal_writers st = map_option (\<lambda>(s, ws). st\<lparr>ps_ks := s, ps_pi := (ps_pi st)\<lparr>write_sem := ws\<rparr>\<rparr>)
     (sema_signal (ps_ks st) (write_sem (ps_pi st)))"
  by (cases "sema_signal (ps_ks st) (write_sem (ps_pi st))") (auto simp: signal_writers_def)

lemma signal_sel:
  assumes "signal_readers st = Some st' \<or> signal_writers st = Some st'"
  shows "pipe_q (ps_pi st') = pipe_q (ps_pi st) \<and> pipe_ok (ps_pi st') = pipe_ok (ps_pi st) \<and> ps_vs st' = ps_vs st"
  using assms by (auto simp: signal_readers_eq signal_writers_eq pipe_q_def pipe_ok_def)

text \<open>\<open>fetches vs i bs vs'\<close>: single-byte copies from \<open>addr + i\<close> on deliver the bytes \<open>bs\<close> and lead from \<open>vs\<close> to \<open>vs'\<close>.\<close>

fun fetches :: "mm_struct \<Rightarrow> nat \<Rightarrow> bool \<Rightarrow> uint64 \<Rightarrow> vmst \<Rightarrow> int \<Rightarrow> byte list \<Rightarrow> vmst \<Rightarrow> bool" where
  "fetches mm chp user addr vs i [] vs' \<longleftrightarrow> vs' = vs"
| "fetches mm chp user addr vs i (b # bs) vs' \<longleftrightarrow>
     (\<exists>vs1 r. either_copyin mm vs chp user (addr + word_of_int i) 1 = Some (vs1, r) \<and> r \<noteq> -1 \<and>
        km_mem (vs_mem vs1) chp = b \<and> fetches mm chp user addr vs1 (i + 1) bs vs')"

lemma pipe_write_spec:
  assumes "pipe_write mm chp killed user addr n st i = Some (st', out)" "pipe_ok (ps_pi st)"
  shows "\<exists>bs vs. pipe_q (ps_pi st') = pipe_q (ps_pi st) @ bs \<and> pipe_ok (ps_pi st') \<and> fetches mm chp user addr (ps_vs st) i bs vs \<and>
    (bs = [] \<or> i + int (length bs) \<le> n) \<and>
    (out = Returned (-1) \<and> st' = st \<and> bs = [] \<and> vs = ps_vs st \<and> i < n \<and> (\<not> readopen (ps_pi st) \<or> killed) \<or>
     out = WaitReader (i + int (length bs)) \<and> vs = ps_vs st' \<and> i + int (length bs) < n \<and> length (pipe_q (ps_pi st')) = PIPESIZE \<or>
     out = Returned (i + int (length bs)) \<and> vs = ps_vs st' \<and> n \<le> i + int (length bs) \<or>
     out = Returned (i + int (length bs)) \<and> i + int (length bs) < n \<and>
       either_copyin mm vs chp user (addr + word_of_int (i + int (length bs))) 1 = Some (ps_vs st', -1))"
  using assms
proof (induction mm chp killed user addr n st i rule: pipe_write.induct)
  case (1 mm chp killed user addr n st i)
  consider (fin) "\<not> i < n" | (closed) "i < n" "\<not> readopen (ps_pi st) \<or> killed"
    | (full) "i < n" "readopen (ps_pi st)" "\<not> killed" "PIPE_FULL (ps_pi st)"
    | (bad) vs where "i < n" "readopen (ps_pi st)" "\<not> killed" "\<not> PIPE_FULL (ps_pi st)"
        "either_copyin mm (ps_vs st) chp user (addr + word_of_int i) 1 = Some (vs, -1)"
    | (go) vs r where "i < n" "readopen (ps_pi st)" "\<not> killed" "\<not> PIPE_FULL (ps_pi st)"
        "either_copyin mm (ps_vs st) chp user (addr + word_of_int i) 1 = Some (vs, r)" "r \<noteq> -1"
    using 1(2) by (cases "either_copyin mm (ps_vs st) chp user (addr + word_of_int i) 1")
      (auto simp: pipe_write.simps [of mm chp killed user addr n st i] split: if_splits)
  then show ?case
  proof cases
    case fin
    with 1(2) have "signal_readers st = Some st'" "out = Returned i" by (simp_all add: pipe_write.simps)
    with signal_sel [of st st'] fin 1(3) show ?thesis by (intro exI [of _ "[]"]) simp
  next
    case closed
    with 1(2,3) show ?thesis by (intro exI [of _ "[]"]) (simp add: pipe_write.simps)
  next
    case full
    with 1(2) have "signal_readers st = Some st'" "out = WaitReader i" by (simp_all add: pipe_write.simps)
    with signal_sel [of st st'] full 1(3) PIPE_FULL_iff [OF 1(3)] show ?thesis by (intro exI [of _ "[]"]) simp
  next
    case (bad vs)
    with 1(2) have "signal_readers (st\<lparr>ps_vs := vs\<rparr>) = Some st'" "out = Returned i" by (simp_all add: pipe_write.simps)
    with signal_sel [of "st\<lparr>ps_vs := vs\<rparr>" st'] bad 1(3) show ?thesis by (intro exI [of _ "[]"]) simp
  next
    case (go vs r)
    let ?st = "st\<lparr>ps_vs := vs, ps_pi := pipe_put (km_mem (vs_mem vs) chp) (ps_pi st)\<rparr>"
    have room: "length (pipe_q (ps_pi st)) < PIPESIZE"
      using go(4) PIPE_FULL_iff [OF 1(3)] pipe_fifo.contents_le [OF 1(3)] by linarith
    have run: "pipe_write mm chp killed user addr n ?st (i + 1) = Some (st', out)"
      using 1(2) go by (subst (asm) pipe_write.simps) simp
    have ok: "pipe_ok (ps_pi ?st)" using pipe_fifo.put_invar [OF 1(3) room] by simp
    have alive: "\<not> (\<not> readopen (ps_pi ?st) \<or> killed)" using go(2,3) by (simp add: pipe_put_def)
    have op: "\<not> (\<not> readopen (ps_pi st) \<or> killed)" using go(2,3) by simp
    obtain bs vs2 where IH:
      "pipe_q (ps_pi st') = pipe_q (ps_pi ?st) @ bs" "pipe_ok (ps_pi st')" "fetches mm chp user addr (ps_vs ?st) (i + 1) bs vs2"
      "bs = [] \<or> i + 1 + int (length bs) \<le> n"
      "out = Returned (-1) \<and> st' = ?st \<and> bs = [] \<and> vs2 = ps_vs ?st \<and> i + 1 < n \<and> (\<not> readopen (ps_pi ?st) \<or> killed) \<or>
       out = WaitReader (i + 1 + int (length bs)) \<and> vs2 = ps_vs st' \<and> i + 1 + int (length bs) < n \<and> length (pipe_q (ps_pi st')) = PIPESIZE \<or>
       out = Returned (i + 1 + int (length bs)) \<and> vs2 = ps_vs st' \<and> n \<le> i + 1 + int (length bs) \<or>
       out = Returned (i + 1 + int (length bs)) \<and> i + 1 + int (length bs) < n \<and>
         either_copyin mm vs2 chp user (addr + word_of_int (i + 1 + int (length bs))) 1 = Some (ps_vs st', -1)"
      using 1(1) [OF go(1) op go(4,5) refl go(6) run ok] by (elim exE conjE) (rule that)
    have out: "out = WaitReader (i + 1 + int (length bs)) \<and> vs2 = ps_vs st' \<and> i + 1 + int (length bs) < n \<and> length (pipe_q (ps_pi st')) = PIPESIZE \<or>
       out = Returned (i + 1 + int (length bs)) \<and> vs2 = ps_vs st' \<and> n \<le> i + 1 + int (length bs) \<or>
       out = Returned (i + 1 + int (length bs)) \<and> i + 1 + int (length bs) < n \<and>
         either_copyin mm vs2 chp user (addr + word_of_int (i + 1 + int (length bs))) 1 = Some (ps_vs st', -1)"
      using IH(5) alive by blast
    let ?b = "km_mem (vs_mem vs) chp"
    have "pipe_q (ps_pi st') = pipe_q (ps_pi st) @ ?b # bs" using IH(1) pipe_fifo.put_contents [OF 1(3) room] by simp
    moreover have "fetches mm chp user addr (ps_vs st) i (?b # bs) vs2" using go(5,6) IH(3) by auto
    moreover have "i + 1 + int (length bs) = i + int (length (?b # bs))" by simp
    moreover have "i + int (length (?b # bs)) \<le> n" using IH(4) go(1) by auto
    ultimately show ?thesis using IH(2) out by (intro exI [of _ "?b # bs"] exI [of _ vs2]) (simp only: simp_thms)
  qed
qed

text \<open>\<open>delivers vs i bs vs'\<close>: the bytes \<open>bs\<close>, each through the local variable, are copied to \<open>addr + i\<close> and on.\<close>

definition set_local :: "nat \<Rightarrow> byte \<Rightarrow> vmst \<Rightarrow> vmst" where
  "set_local chp b vs = vs\<lparr>vs_mem := (vs_mem vs)\<lparr>km_mem := (km_mem (vs_mem vs))(chp := b)\<rparr>\<rparr>"

fun delivers :: "(kmem \<Rightarrow> kmem option) \<Rightarrow> page_reader \<Rightarrow> mm_struct \<Rightarrow> nat \<Rightarrow> bool \<Rightarrow> uint64 \<Rightarrow> vmst \<Rightarrow> int \<Rightarrow> byte list \<Rightarrow> vmst \<Rightarrow> bool" where
  "delivers af rd mm chp user addr vs i [] vs' \<longleftrightarrow> vs' = vs"
| "delivers af rd mm chp user addr vs i (b # bs) vs' \<longleftrightarrow>
     (\<exists>vs1 r. either_copyout af rd mm (set_local chp b vs) user (addr + word_of_int i) chp 1 = Some (vs1, r) \<and> r \<noteq> -1 \<and>
        delivers af rd mm chp user addr vs1 (i + 1) bs vs')"

lemma pipe_read_loop_spec:
  assumes "pipe_read_loop af rd mm chp user addr n st i = Some (st', i')" "pipe_ok (ps_pi st)"
  shows "\<exists>k vs. i' = i + int k \<and> k \<le> length (pipe_q (ps_pi st)) \<and> pipe_q (ps_pi st') = drop k (pipe_q (ps_pi st)) \<and>
    pipe_ok (ps_pi st') \<and> ps_ks st' = ps_ks st \<and> delivers af rd mm chp user addr (ps_vs st) i (take k (pipe_q (ps_pi st))) vs \<and>
    ((n \<le> i' \<or> pipe_q (ps_pi st') = []) \<and> vs = ps_vs st' \<or>
     i' < n \<and> pipe_q (ps_pi st') \<noteq> [] \<and>
       either_copyout af rd mm (set_local chp (hd (pipe_q (ps_pi st'))) vs) user (addr + word_of_int i') chp 1 = Some (ps_vs st', -1))"
  using assms
proof (induction af rd mm chp user addr n st i rule: pipe_read_loop.induct)
  case (1 af rd mm chp user addr n st i)
  let ?pi = "ps_pi st"
  let ?out = "either_copyout af rd mm (set_local chp (pipe_front ?pi) (ps_vs st)) user (addr + word_of_int i) chp 1"
  consider (stop) "\<not> i < n \<or> PIPE_EMPTY ?pi" | (bad) vs where "i < n" "\<not> PIPE_EMPTY ?pi" "?out = Some (vs, -1)"
    | (go) vs r where "i < n" "\<not> PIPE_EMPTY ?pi" "?out = Some (vs, r)" "r \<noteq> -1"
    using 1(2) by (cases ?out)
      (auto simp: pipe_read_loop.simps [of af rd mm chp user addr n st i] set_local_def Let_def split: if_splits)
  then show ?case
  proof cases
    case stop
    with 1(2) have "st' = st" "i' = i" by (auto simp: pipe_read_loop.simps split: if_splits)
    with stop 1(3) show ?thesis by (intro exI [of _ "0 :: nat"]) (auto simp: PIPE_EMPTY_iff)
  next
    case (bad vs)
    with 1(2) have "st' = st\<lparr>ps_vs := vs\<rparr>" "i' = i" by (auto simp: pipe_read_loop.simps set_local_def)
    moreover have "pipe_front ?pi = hd (pipe_q ?pi)" using pipe_fifo.front_contents [OF 1(3)] bad(2) by (simp add: PIPE_EMPTY_iff)
    ultimately show ?thesis using bad 1(3) by (intro exI [of _ "0 :: nat"]) (simp add: PIPE_EMPTY_iff)
  next
    case (go vs r)
    let ?st = "st\<lparr>ps_vs := vs, ps_pi := pipe_get ?pi\<rparr>"
    have ne: "pipe_q ?pi \<noteq> []" using go(2) by (simp add: PIPE_EMPTY_iff)
    note g = pipe_fifo.get_contents [OF 1(3) ne] pipe_fifo.get_invar [OF 1(3) ne] pipe_fifo.front_contents [OF 1(3) ne]
    have run: "pipe_read_loop af rd mm chp user addr n ?st (i + 1) = Some (st', i')"
      using 1(2) go by (subst (asm) pipe_read_loop.simps) (simp add: set_local_def)
    from 1(1) [OF go(1,2) refl refl go(3) [unfolded set_local_def] refl go(4) run] g(2) obtain k vs2 where IH:
      "i' = i + 1 + int k" "k \<le> length (tl (pipe_q ?pi))" "pipe_q (ps_pi st') = drop k (tl (pipe_q ?pi))"
      "pipe_ok (ps_pi st')" "ps_ks st' = ps_ks st" "delivers af rd mm chp user addr vs (i + 1) (take k (tl (pipe_q ?pi))) vs2"
      "(n \<le> i' \<or> pipe_q (ps_pi st') = []) \<and> vs2 = ps_vs st' \<or>
       i' < n \<and> pipe_q (ps_pi st') \<noteq> [] \<and>
         either_copyout af rd mm (set_local chp (hd (pipe_q (ps_pi st'))) vs2) user (addr + word_of_int i') chp 1 = Some (ps_vs st', -1)"
      by (auto simp: g(1))
    obtain b q where q: "pipe_q ?pi = b # q" using ne by (cases "pipe_q ?pi") auto
    have "delivers af rd mm chp user addr (ps_vs st) i (b # take k q) vs2" using go(3,4) IH(6) g(3) q by auto
    then show ?thesis
      using IH q by (intro exI [of _ "Suc k"] exI [of _ vs2]) simp
  qed
qed

text \<open>The end of a read is \<open>signal_writers\<close>.\<close>

lemma pipe_read_spec:
  assumes "pipe_read af rd mm chp killed user addr n st = Some (st', out)" "pipe_ok (ps_pi st)"
  shows "pipe_q (ps_pi st) = [] \<and> writeopen (ps_pi st) \<and> st' = st \<and> out = (if killed then Returned (-1) else WaitWriter) \<or>
    (pipe_q (ps_pi st) \<noteq> [] \<or> \<not> writeopen (ps_pi st)) \<and> pipe_ok (ps_pi st') \<and>
    (\<exists>k vs. out = Returned (int k) \<and> k \<le> length (pipe_q (ps_pi st)) \<and> pipe_q (ps_pi st') = drop k (pipe_q (ps_pi st)) \<and>
       delivers af rd mm chp user addr (ps_vs st) 0 (take k (pipe_q (ps_pi st))) vs \<and>
       ((n \<le> int k \<or> k = length (pipe_q (ps_pi st))) \<and> vs = ps_vs st' \<or>
        int k < n \<and> k < length (pipe_q (ps_pi st)) \<and>
          either_copyout af rd mm (set_local chp (pipe_q (ps_pi st) ! k) vs) user (addr + word_of_int (int k)) chp 1 = Some (ps_vs st', -1)))"
proof (cases "PIPE_EMPTY (ps_pi st) \<and> writeopen (ps_pi st)")
  case True
  then show ?thesis using assms(1) by (auto simp: pipe_read_def PIPE_EMPTY_iff)
next
  case False
  then obtain st1 i where r: "pipe_read_loop af rd mm chp user addr n st 0 = Some (st1, i)" "signal_writers st1 = Some st'" "out = Returned i"
    using assms(1) by (auto simp: pipe_read_def Option.bind_eq_Some_conv)
  note S = signal_sel [OF disjI2 [OF r(2)]]
  obtain k vs where k: "i = int k" "k \<le> length (pipe_q (ps_pi st))" "pipe_q (ps_pi st1) = drop k (pipe_q (ps_pi st))" "pipe_ok (ps_pi st1)"
    "delivers af rd mm chp user addr (ps_vs st) 0 (take k (pipe_q (ps_pi st))) vs"
    "(n \<le> i \<or> pipe_q (ps_pi st1) = []) \<and> vs = ps_vs st1 \<or>
     i < n \<and> pipe_q (ps_pi st1) \<noteq> [] \<and>
       either_copyout af rd mm (set_local chp (hd (pipe_q (ps_pi st1))) vs) user (addr + word_of_int i) chp 1 = Some (ps_vs st1, -1)"
    using pipe_read_loop_spec [OF r(1) assms(2)] by auto
  have e: "pipe_q (ps_pi st1) = [] \<longleftrightarrow> k = length (pipe_q (ps_pi st))" using k(2,3) by auto
  have h: "k < length (pipe_q (ps_pi st)) \<Longrightarrow> hd (pipe_q (ps_pi st1)) = pipe_q (ps_pi st) ! k" using k(3) by (simp add: hd_drop_conv_nth)
  have "(n \<le> int k \<or> k = length (pipe_q (ps_pi st))) \<and> vs = ps_vs st' \<or>
        int k < n \<and> k < length (pipe_q (ps_pi st)) \<and>
          either_copyout af rd mm (set_local chp (pipe_q (ps_pi st) ! k) vs) user (addr + word_of_int (int k)) chp 1 = Some (ps_vs st', -1)"
    using k(1,2,6) e h S by auto
  moreover have "pipe_q (ps_pi st) \<noteq> [] \<or> \<not> writeopen (ps_pi st)" using False by (simp add: PIPE_EMPTY_iff)
  moreover have "out = Returned (int k)" "pipe_q (ps_pi st') = drop k (pipe_q (ps_pi st))" "pipe_ok (ps_pi st')"
    using S k(1,3,4) r(3) by simp_all
  ultimately show ?thesis using k(2,5) by blast
qed

subsection \<open>Kernel buffers\<close>

lemma memmove_pa_one: "memmove_pa s d a 1 = s\<lparr>km_mem := (km_mem s)(d := km_mem s a)\<rparr>"
proof -
  have "(\<lambda>x. if d \<le> x \<and> x < d + 1 then km_mem s (a + (x - d)) else km_mem s x) = (km_mem s)(d := km_mem s a)"
    by (rule ext) auto
  then show ?thesis by (simp add: memmove_pa_eq)
qed

lemma copyin_kernel: "either_copyin mm vs chp False a 1 = Some (set_local chp (km_mem (vs_mem vs) (unat a)) vs, 0)"
  using memmove_pa_one by (simp add: either_copyin_def set_local_def)

lemma copyout_kernel: "either_copyout af rd mm vs False a chp 1 = Some (set_local (unat a) (km_mem (vs_mem vs) chp) vs, 0)"
  using memmove_pa_one by (simp add: either_copyout_def set_local_def)

lemma mem_set_local [simp]: "km_mem (vs_mem (set_local p b vs)) = (km_mem (vs_mem vs))(p := b)"
  by (simp add: set_local_def)

lemma buffer_address:
  assumes "a + m < 2 ^ 64"
  shows "unat (word_of_nat a + word_of_nat m :: uint64) = a + m"
proof -
  have "unat (word_of_nat (a + m) :: uint64) = a + m" using assms by (simp add: unat_of_nat del: of_nat_add)
  then show ?thesis by simp
qed

lemma fetches_kernel:
  assumes "fetches mm chp False (word_of_nat a) vs (int m) bs vs'" "a + m + length bs \<le> 2 ^ 64" "chp < a + m \<or> a + m + length bs \<le> chp"
  shows "\<forall>j<length bs. bs ! j = km_mem (vs_mem vs) (a + m + j)"
  using assms
proof (induction bs arbitrary: vs m)
  case (Cons b bs)
  have u: "unat (word_of_nat a + word_of_nat m :: uint64) = a + m" using buffer_address [of a m] Cons.prems(2) by simp
  from Cons.prems(1) have f: "b = km_mem (vs_mem vs) (a + m)" "fetches mm chp False (word_of_nat a) (set_local chp b vs) (int (Suc m)) bs vs'"
    by (auto simp: copyin_kernel u add.commute)
  have pre: "a + Suc m + length bs \<le> 2 ^ 64" "chp < a + Suc m \<or> a + Suc m + length bs \<le> chp" using Cons.prems(2,3) by auto
  have "bs ! j = km_mem (vs_mem (set_local chp b vs)) (a + Suc m + j)" if "j < length bs" for j
    using Cons.IH [OF f(2) pre] that by blast
  then show ?case using f(1) Cons.prems(3) by (auto simp: nth_Cons split: nat.splits)
qed simp

lemma delivers_kernel:
  assumes "delivers af rd mm chp False (word_of_nat a) vs (int m) bs vs'" "a + m + length bs \<le> 2 ^ 64" "chp < a + m \<or> a + m + length bs \<le> chp"
  shows "(\<forall>j<length bs. km_mem (vs_mem vs') (a + m + j) = bs ! j) \<and>
    (\<forall>x. x \<noteq> chp \<longrightarrow> \<not> (a + m \<le> x \<and> x < a + m + length bs) \<longrightarrow> km_mem (vs_mem vs') x = km_mem (vs_mem vs) x)"
  using assms
proof (induction bs arbitrary: vs m)
  case (Cons b bs)
  have u: "unat (word_of_nat a + word_of_nat m :: uint64) = a + m" using buffer_address [of a m] Cons.prems(2) by simp
  let ?vs = "set_local (a + m) b (set_local chp b vs)"
  from Cons.prems(1) have f: "delivers af rd mm chp False (word_of_nat a) ?vs (int (Suc m)) bs vs'"
    by (auto simp: copyout_kernel u add.commute)
  have pre: "a + Suc m + length bs \<le> 2 ^ 64" "chp < a + Suc m \<or> a + Suc m + length bs \<le> chp" using Cons.prems(2,3) by auto
  have IH: "\<forall>j<length bs. km_mem (vs_mem vs') (a + Suc m + j) = bs ! j"
    "\<forall>x. x \<noteq> chp \<longrightarrow> \<not> (a + Suc m \<le> x \<and> x < a + Suc m + length bs) \<longrightarrow> km_mem (vs_mem vs') x = km_mem (vs_mem ?vs) x"
    using Cons.IH [OF f pre] by blast+
  have "km_mem (vs_mem vs') (a + m) = b" using IH(2) Cons.prems(3) by auto
  with IH Cons.prems(3) show ?case by (auto simp: nth_Cons split: nat.splits)
qed simp

lemma signal_total:
  assumes "sched_inv N (ps_ks st)"
  shows "\<exists>st'. signal_readers st = Some st' \<and> sched_inv N (ps_ks st')" "\<exists>st'. signal_writers st = Some st' \<and> sched_inv N (ps_ks st')"
proof -
  have "\<exists>s' S'. sema_signal (ps_ks st) S = Some (s', S') \<and> sched_inv N s'" for S
    using signal_ok [OF assms, of S] assms by (cases "sem_value S < 0") (auto simp: woken_def)
  from this [of "read_sem (ps_pi st)"] this [of "write_sem (ps_pi st)"]
  show "\<exists>st'. signal_readers st = Some st' \<and> sched_inv N (ps_ks st')" "\<exists>st'. signal_writers st = Some st' \<and> sched_inv N (ps_ks st')"
    by (auto simp: signal_readers_eq signal_writers_eq)
qed

lemma pipe_write_kernel_total:
  assumes "sched_inv N (ps_ks st)"
  shows "\<exists>st' out. pipe_write mm chp killed False addr n st i = Some (st', out) \<and> sched_inv N (ps_ks st')"
  using assms
proof (induction mm chp killed "False" addr n st i rule: pipe_write.induct)
  case (1 mm chp killed addr n st i)
  have s: "\<exists>st'. signal_readers st = Some st' \<and> sched_inv N (ps_ks st')" by (rule signal_total(1) [OF 1(2)])
  show ?case
  proof (cases "i < n \<and> readopen (ps_pi st) \<and> \<not> killed \<and> \<not> PIPE_FULL (ps_pi st)")
    case True
    let ?vs = "set_local chp (km_mem (vs_mem (ps_vs st)) (unat (addr + word_of_int i))) (ps_vs st)"
    have "\<exists>st' out. pipe_write mm chp killed False addr n (st\<lparr>ps_vs := ?vs, ps_pi := pipe_put (km_mem (vs_mem ?vs) chp) (ps_pi st)\<rparr>) (i + 1) =
        Some (st', out) \<and> sched_inv N (ps_ks st')"
      using 1(1) [of "(?vs, 0)" ?vs 0] True 1(2) by (simp add: copyin_kernel)
    then show ?thesis using True by (subst pipe_write.simps) (simp add: copyin_kernel)
  next
    case False
    then show ?thesis using s 1(2) by (subst pipe_write.simps) auto
  qed
qed

lemma pipe_read_loop_kernel_total: "\<exists>st' i'. pipe_read_loop af rd mm chp False addr n st i = Some (st', i')"
proof (induction af rd mm chp "False" addr n st i rule: pipe_read_loop.induct)
  case (1 af rd mm chp addr n st i)
  show ?case
    by (subst pipe_read_loop.simps) (use 1 in \<open>auto simp: copyout_kernel Let_def\<close>)
qed

subsection \<open>The properties\<close>

text \<open>A segment of \<open>pipe_write\<close> appends to the bytes in the pipe exactly the bytes it fetched from the caller, in
  order, and never holds more than \<open>PIPESIZE\<close>, also when the counters wrap around.  It ends with all \<open>n\<close> bytes written,
  with the number written so far when a byte cannot be fetched, with a full pipe to wait for the reader, or with -1 and
  nothing written if the read end is closed or the process is killed.\<close>

theorem pipe_write_appends:
  assumes "pipe_write mm chp killed user addr n st i = Some (st', out)" "pipe_ok (ps_pi st)"
  shows "\<exists>bs vs. pipe_q (ps_pi st') = pipe_q (ps_pi st) @ bs \<and> length (pipe_q (ps_pi st')) \<le> PIPESIZE \<and>
    fetches mm chp user addr (ps_vs st) i bs vs \<and>
    (out = Returned (-1) \<and> bs = [] \<and> (\<not> readopen (ps_pi st) \<or> killed) \<or>
     out = WaitReader (i + int (length bs)) \<and> i + int (length bs) < n \<and> length (pipe_q (ps_pi st')) = PIPESIZE \<or>
     out = Returned (i + int (length bs)) \<and> n \<le> i + int (length bs) \<or>
     out = Returned (i + int (length bs)) \<and>
       either_copyin mm vs chp user (addr + word_of_int (i + int (length bs))) 1 = Some (ps_vs st', -1))"
proof -
  obtain bs vs where w: "pipe_q (ps_pi st') = pipe_q (ps_pi st) @ bs" "pipe_ok (ps_pi st')" "fetches mm chp user addr (ps_vs st) i bs vs"
    "out = Returned (-1) \<and> st' = st \<and> bs = [] \<and> vs = ps_vs st \<and> i < n \<and> (\<not> readopen (ps_pi st) \<or> killed) \<or>
     out = WaitReader (i + int (length bs)) \<and> vs = ps_vs st' \<and> i + int (length bs) < n \<and> length (pipe_q (ps_pi st')) = PIPESIZE \<or>
     out = Returned (i + int (length bs)) \<and> vs = ps_vs st' \<and> n \<le> i + int (length bs) \<or>
     out = Returned (i + int (length bs)) \<and> i + int (length bs) < n \<and>
       either_copyin mm vs chp user (addr + word_of_int (i + int (length bs))) 1 = Some (ps_vs st', -1)"
    using pipe_write_spec [OF assms] by (elim exE conjE) (rule that)
  show ?thesis
    by (rule exI [of _ bs], rule exI [of _ vs]) (use w pipe_fifo.contents_le [OF w(2)] in blast)
qed

text \<open>C31. What is written from one kernel buffer into an empty pipe is read back into another: a write of \<open>n\<close> bytes that fit
  into the pipe returns \<open>n\<close>, the following read of \<open>n\<close> bytes returns \<open>n\<close>, and the bytes at the destination are those
  that were at the source.  This holds for any position of the pipe's counters.\<close>

theorem pipe_roundtrip:
  assumes "pipe_ok (ps_pi st)" "pipe_q (ps_pi st) = []" "readopen (ps_pi st)" "sched_inv N (ps_ks st)" "0 < n" "n \<le> PIPESIZE"
    "a + n \<le> 2 ^ 64" "b + n \<le> 2 ^ 64" "chp < a \<or> a + n \<le> chp" "chp < b \<or> b + n \<le> chp"
  shows "\<exists>st1 st2. pipe_write mm chp False False (word_of_nat a) (int n) st 0 = Some (st1, Returned (int n)) \<and>
    pipe_read af rd mm chp False False (word_of_nat b) (int n) st1 = Some (st2, Returned (int n)) \<and> pipe_q (ps_pi st2) = [] \<and>
    (\<forall>j<n. km_mem (vs_mem (ps_vs st2)) (b + j) = km_mem (vs_mem (ps_vs st)) (a + j))"
proof -
  obtain st1 out where 1: "pipe_write mm chp False False (word_of_nat a) (int n) st 0 = Some (st1, out)" "sched_inv N (ps_ks st1)"
    using pipe_write_kernel_total [OF assms(4)] by blast
  have no: "either_copyin mm vs chp False x 1 \<noteq> Some (vs', -1)" for vs vs' x by (simp add: copyin_kernel)
  obtain bs vs where w: "pipe_q (ps_pi st1) = bs" "pipe_ok (ps_pi st1)" "fetches mm chp False (word_of_nat a) (ps_vs st) 0 bs vs"
    "bs = [] \<or> int (length bs) \<le> int n"
    "out = WaitReader (int (length bs)) \<and> int (length bs) < int n \<and> length bs = PIPESIZE \<or> out = Returned (int (length bs)) \<and> int n \<le> int (length bs)"
    using pipe_write_spec [OF 1(1) assms(1)] assms(2,3) no by auto
  then have n: "length bs = n" "out = Returned (int n)" using assms(5,6) by auto
  have bs: "\<forall>j<n. bs ! j = km_mem (vs_mem (ps_vs st)) (a + j)"
    using fetches_kernel [of mm chp a "ps_vs st" 0 bs vs] w(3) n(1) assms(7,9) by simp
  obtain st2 i st3 where 2: "pipe_read_loop af rd mm chp False (word_of_nat b) (int n) st1 0 = Some (st2, i)"
    using pipe_read_loop_kernel_total by blast
  have ks: "ps_ks st2 = ps_ks st1" using pipe_read_loop_spec [OF 2 w(2)] by blast
  obtain st3 where 3: "signal_writers st2 = Some st3" using signal_total(2) [of N st2] 1(2) ks by auto
  have "bs \<noteq> []" using n(1) assms(5) by auto
  then have r: "pipe_read af rd mm chp False False (word_of_nat b) (int n) st1 = Some (st3, Returned i)"
    using 2 3 w(1) by (simp add: pipe_read_def PIPE_EMPTY_iff)
  have no2: "either_copyout af rd mm vs False x chp 1 \<noteq> Some (vs', -1)" for vs vs' x by (simp add: copyout_kernel)
  obtain k where k: "i = int k" "pipe_q (ps_pi st3) = drop k bs" "delivers af rd mm chp False (word_of_nat b) (ps_vs st1) 0 (take k bs) (ps_vs st3)"
    "k = n"
    using pipe_read_spec [OF r w(2)] \<open>bs \<noteq> []\<close> w(1) no2 n(1) by auto
  have "\<forall>j<n. km_mem (vs_mem (ps_vs st3)) (b + j) = bs ! j"
    using delivers_kernel [of af rd mm chp b "ps_vs st1" 0 bs "ps_vs st3"] k(3,4) n(1) assms(8,10) by simp
  with bs 1(1) r k n show ?thesis by auto
qed

text \<open>An empty pipe whose counters are three bytes before the wrap-around.\<close>

definition demo_pst :: pst where
  "demo_pst = \<lparr>ps_ks = demo_run, ps_vs = demo_vs, ps_pi = \<lparr>pipe_data = replicate 512 0, nread = -3, nwrite = -3,
     readopen = True, writeopen = True, read_sem = demo_sem, write_sem = demo_sem\<rparr>\<rparr>"

lemma demo_pst_ok: "pipe_ok (ps_pi demo_pst)" "pipe_q (ps_pi demo_pst) = []" "readopen (ps_pi demo_pst)" "sched_inv 2 (ps_ks demo_pst)"
  using sched_reach_inv [OF demo_reach(1)] by (simp_all add: demo_pst_def pipe_ok_def pipe_q_def PIPESIZE_def)

theorem pipe_write_appends_witness:
  "\<exists>st' out bs. pipe_write demo_mm 50 False False 100 5 demo_pst 0 = Some (st', out) \<and> pipe_q (ps_pi st') = bs \<and> length bs \<le> PIPESIZE \<and>
     out \<noteq> Returned (-1)"
proof -
  obtain st' out where w: "pipe_write demo_mm 50 False False 100 5 demo_pst 0 = Some (st', out)"
    using pipe_write_kernel_total [OF demo_pst_ok(4)] by blast
  show ?thesis using pipe_write_appends [OF w demo_pst_ok(1)] w demo_pst_ok(3) by fastforce
qed

theorem pipe_roundtrip_witness:
  "\<exists>st1 st2. pipe_write demo_mm 50 False False (word_of_nat 100) (int 5) demo_pst 0 = Some (st1, Returned (int 5)) \<and>
    pipe_read Some (\<lambda>_ _ _ m. m) demo_mm 50 False False (word_of_nat 200) (int 5) st1 = Some (st2, Returned (int 5)) \<and>
    km_mem (vs_mem (ps_vs st2)) 204 = km_mem (vs_mem (ps_vs demo_pst)) 104"
proof -
  obtain st1 st2 where "pipe_write demo_mm 50 False False (word_of_nat 100) (int 5) demo_pst 0 = Some (st1, Returned (int 5))"
    "pipe_read Some (\<lambda>_ _ _ m. m) demo_mm 50 False False (word_of_nat 200) (int 5) st1 = Some (st2, Returned (int 5))"
    "\<forall>j<5. km_mem (vs_mem (ps_vs st2)) (200 + j) = km_mem (vs_mem (ps_vs demo_pst)) (100 + j)"
    using pipe_roundtrip [OF demo_pst_ok, of 5 100 200 50 demo_mm Some "\<lambda>_ _ _ m. m"] by (auto simp: PIPESIZE_def)
  moreover from this(3) [rule_format, of 4] have "km_mem (vs_mem (ps_vs st2)) 204 = km_mem (vs_mem (ps_vs demo_pst)) 104" by simp
  ultimately show ?thesis by blast
qed

end
