(* ===== verification/Fat.thy ===== *)
theory Fat
  imports Prelude
begin

text \<open>
  Clusters of the FAT32 file system: the in-memory FAT table and its bitmap (\<open>src/fs/fat32/fat32_disk.c\<close>), cluster
  chains, the index table of an inode and the mapping of a file range to disk blocks
  (\<open>src/fs/fat32/fat32_inode.c\<close>).

  The geometry of the volume and cluster numbers are natural numbers: on a volume whose sectors are numbered by 32 bits
  none of these computations wraps.  Entries of the FAT are 32-bit words, words of the bitmap 64-bit words.  \<open>dev\<close> is the
  content of the sectors of the FAT as \<open>bread\<close> returns it, by sector and slot.  A page of the index table is a list of its
  own; that memory for it is found is taken for granted, as the code panics otherwise.
\<close>

unbundle bit_operations_syntax

type_synonym FAT_entry_t = "32 word"

subsection \<open>The volume\<close>

record fatfs =
  sector_size :: nat
  n_sectors :: nat
  sectors_per_block :: nat
  fatbase :: nat
  n_fats :: nat
  n_sectors_fat :: nat
  free_count :: uint
  nxt_free :: nat
  hint_valid :: bool
  fs_dirty :: bool
  bit_map :: "uint64 list"
  fat_table :: "FAT_entry_t list"

definition FirstDataSector :: "fatfs \<Rightarrow> nat" where
  "FirstDataSector sb = fatbase sb + n_fats sb * n_sectors_fat sb + (sector_size sb - 1) div sector_size sb"

definition FirstSectorofCluster :: "fatfs \<Rightarrow> nat \<Rightarrow> nat" where
  "FirstSectorofCluster sb N = (N - 2) * sectors_per_block sb + FirstDataSector sb"

definition FAT_CLUSTER_MAX :: "fatfs \<Rightarrow> nat" where
  "FAT_CLUSTER_MAX sb = (n_sectors sb - FirstDataSector sb) div sectors_per_block sb + 1"

definition FAT_PER_SECTOR :: "fatfs \<Rightarrow> nat" where "FAT_PER_SECTOR sb = sector_size sb div 4"

definition EOC :: FAT_entry_t where "EOC = 0x0FFFFFFF"
definition FREE_MASK :: FAT_entry_t where "FREE_MASK = 0"
definition ISEOF :: "FAT_entry_t \<Rightarrow> bool" where "ISEOF e \<longleftrightarrow> 0x0FFFFFF8 \<le> e"

subsection \<open>Bits\<close>

text \<open>The bit macros shift the \<open>int\<close> 1 by up to 63.  The shift of a 32-bit value on the target takes the amount modulo 32
  and sign-extends the result, so that the positions \<open>p\<close> and \<open>p + 32\<close> name the same bits.\<close>

definition one_shl :: "nat \<Rightarrow> uint64" where
  "one_shl pos = scast (push_bit (pos mod 32) (1 :: 32 word))"

definition SET_BIT :: "uint64 \<Rightarrow> nat \<Rightarrow> uint64" where "SET_BIT bitmap pos = bitmap OR one_shl pos"
definition CLEAR_BIT :: "uint64 \<Rightarrow> nat \<Rightarrow> uint64" where "CLEAR_BIT bitmap pos = bitmap AND NOT (one_shl pos)"
definition TEST_BIT :: "uint64 \<Rightarrow> nat \<Rightarrow> bool" where "TEST_BIT bitmap pos \<longleftrightarrow> bitmap AND one_shl pos \<noteq> 0"

definition MAP_BITS :: nat where "MAP_BITS = 64"

subsection \<open>\<open>fat32_disk.c\<close>: the FAT in memory\<close>

text \<open>One sector of \<open>fat32_fat_bitmap_init\<close>; \<open>Inl\<close> is the return inside the loop.\<close>

function bitmap_init_sector :: "nat \<Rightarrow> nat \<Rightarrow> (nat \<Rightarrow> FAT_entry_t) \<Rightarrow> nat \<Rightarrow> nat \<Rightarrow> uint64 \<Rightarrow> uint64 list \<Rightarrow> FAT_entry_t list \<Rightarrow>
    (uint64 list \<times> FAT_entry_t list) + (nat \<times> uint64 \<times> uint64 list \<times> FAT_entry_t list)" where
  "bitmap_init_sector mx per fats s c mini bm tbl =
     (if s < per then
        let idx = c div MAP_BITS; off = c mod MAP_BITS;
            mini' = (if fats s \<noteq> FREE_MASK then SET_BIT mini off else CLEAR_BIT mini off);
            tbl' = (if fats s \<noteq> FREE_MASK then tbl[c := fats s] else tbl);
            save = (off + 1 = MAP_BITS);
            bm' = (if save then bm[idx := mini'] else bm)
        in if c + 1 > mx then Inl (if save then bm' else bm'[idx := mini'], tbl')
           else bitmap_init_sector mx per fats (s + 1) (c + 1) mini' bm' tbl'
      else Inr (c, mini, bm, tbl))"
  by pat_completeness auto
termination by (relation "measure (\<lambda>(mx, per, fats, s, c, mini, bm, tbl). per - s)") auto

declare bitmap_init_sector.simps [simp del]

partial_function (option) bitmap_init_loop :: "nat \<Rightarrow> nat \<Rightarrow> (nat \<Rightarrow> nat \<Rightarrow> FAT_entry_t) \<Rightarrow> nat \<Rightarrow> nat \<Rightarrow> uint64 \<Rightarrow> uint64 list \<Rightarrow>
    FAT_entry_t list \<Rightarrow> (uint64 list \<times> FAT_entry_t list) option" where
  "bitmap_init_loop mx per dev sec c mini bm tbl =
     (if c < mx then
        (case bitmap_init_sector mx per (dev sec) 0 c mini bm tbl of
           Inl r \<Rightarrow> Some r
         | Inr (c, mini, bm, tbl) \<Rightarrow> bitmap_init_loop mx per dev (sec + 1) c mini bm tbl)
      else None)"

text \<open>The first \<open>ASSERT\<close> is the range of the array accesses of the loops.\<close>

definition fat32_fat_bitmap_init :: "(nat \<Rightarrow> nat \<Rightarrow> FAT_entry_t) \<Rightarrow> fatfs \<Rightarrow> fatfs option" where
  "fat32_fat_bitmap_init dev sb = do {
     ASSERT (FAT_CLUSTER_MAX sb div MAP_BITS < length (bit_map sb) \<and> FAT_CLUSTER_MAX sb < length (fat_table sb));
     (bm, tbl) \<leftarrow> bitmap_init_loop (FAT_CLUSTER_MAX sb) (FAT_PER_SECTOR sb) dev (fatbase sb) 0 0 (bit_map sb) (fat_table sb);
     Some (sb\<lparr>bit_map := bm, fat_table := tbl\<rparr>) }"

definition fat32_bitmap_op :: "fatfs \<Rightarrow> nat \<Rightarrow> bool \<Rightarrow> fatfs option" where
  "fat32_bitmap_op sb cluster st = do {
     let idx = cluster div MAP_BITS;
     let off = cluster mod MAP_BITS;
     ASSERT (idx < length (bit_map sb));
     let mini = bit_map sb ! idx;
     ASSERT (TEST_BIT mini off);
     Some (sb\<lparr>bit_map := (bit_map sb)[idx := (if st then SET_BIT mini off else CLEAR_BIT mini off)]\<rparr>) }"

text \<open>One word of the bitmap: the cluster found, 0 past the last cluster, or the cluster to go on with.\<close>

function bitmap_word :: "nat \<Rightarrow> uint64 \<Rightarrow> nat \<Rightarrow> nat \<Rightarrow> (nat \<times> nat) option + nat" where
  "bitmap_word mx mini off c =
     (if off < MAP_BITS then
        if \<not> TEST_BIT mini off then Inl (Some (c, off))
        else if c + 1 > mx then Inl None
        else bitmap_word mx mini (off + 1) (c + 1)
      else Inr c)"
  by pat_completeness auto
termination by (relation "measure (\<lambda>(mx, mini, off, c). MAP_BITS - off)") auto

declare bitmap_word.simps [simp del]

partial_function (option) bitmap_alloc_loop :: "nat \<Rightarrow> uint64 list \<Rightarrow> nat \<Rightarrow> nat \<Rightarrow> nat \<Rightarrow> (uint64 list \<times> nat) option" where
  "bitmap_alloc_loop mx bm idx off_init c =
     (if c < mx then
        if idx < length bm then
          (case bitmap_word mx (bm ! idx) off_init c of
             Inl None \<Rightarrow> Some (bm, 0)
           | Inl (Some (c, off)) \<Rightarrow> Some (bm[idx := SET_BIT (bm ! idx) off], c)
           | Inr c \<Rightarrow> bitmap_alloc_loop mx bm (idx + 1) 0 c)
        else None
      else Some (bm, 0))"

definition fat32_bitmap_alloc :: "fatfs \<Rightarrow> nat \<Rightarrow> (fatfs \<times> nat) option" where
  "fat32_bitmap_alloc sb hint = do {
     (bm, c) \<leftarrow> bitmap_alloc_loop (FAT_CLUSTER_MAX sb) (bit_map sb) (hint div MAP_BITS) (hint mod MAP_BITS) hint;
     Some (sb\<lparr>bit_map := bm\<rparr>, c) }"

definition valid_cluster :: "fatfs \<Rightarrow> nat \<Rightarrow> bool" where
  "valid_cluster sb c \<longleftrightarrow> 2 \<le> c \<and> c \<le> FAT_CLUSTER_MAX sb"

definition fat32_fat_cache_set :: "fatfs \<Rightarrow> nat \<Rightarrow> FAT_entry_t \<Rightarrow> fatfs option" where
  "fat32_fat_cache_set sb cluster v = do {
     ASSERT (valid_cluster sb cluster);
     ASSERT (valid_cluster sb (unat v) \<or> v = EOC \<or> v = FREE_MASK);
     ASSERT (cluster < length (fat_table sb));
     Some (sb\<lparr>fat_table := (fat_table sb)[cluster := v]\<rparr>) }"

definition fat32_fat_cache_get :: "fatfs \<Rightarrow> nat \<Rightarrow> FAT_entry_t option" where
  "fat32_fat_cache_get sb cluster = do {
     ASSERT (valid_cluster sb cluster);
     ASSERT (cluster < length (fat_table sb));
     let fat_next = fat_table sb ! cluster;
     ASSERT (fat_next \<noteq> 0);
     Some fat_next }"

subsection \<open>Allocating a cluster\<close>

partial_function (option) alloc_retry :: "fatfs \<Rightarrow> (fatfs \<times> nat) option" where
  "alloc_retry sb = do {
     let hint = (if hint_valid sb then nxt_free sb else 0);
     (sb, fat_next) \<leftarrow> fat32_bitmap_alloc sb hint;
     let sb = sb\<lparr>nxt_free := (if fat_next + 1 \<ge> FAT_CLUSTER_MAX sb then 3 else fat_next + 1), hint_valid := True\<rparr>;
     if fat_next = 0 then alloc_retry sb else Some (sb, fat_next) }"

definition fat32_cluster_alloc :: "fatfs \<Rightarrow> (fatfs \<times> nat) option" where
  "fat32_cluster_alloc sb = do {
     ASSERT (free_count sb \<noteq> 0);
     (sb, free_num) \<leftarrow> alloc_retry (sb\<lparr>free_count := free_count sb - 1\<rparr>);
     sb \<leftarrow> fat32_fat_cache_set (sb\<lparr>fs_dirty := True\<rparr>) free_num EOC;
     Some (sb, free_num) }"

subsection \<open>The index table of an inode\<close>

definition N_DIRECT :: nat where "N_DIRECT = 12"
definition N_LEVEL_ONE :: nat where "N_LEVEL_ONE = 50"
definition N_INDIRECT :: nat where "N_INDIRECT = 1024"
definition MAX_INDEX_1 :: nat where "MAX_INDEX_1 = N_DIRECT + N_LEVEL_ONE * N_INDIRECT"

record finode =
  direct :: "FAT_entry_t list"
  indirect_one :: "FAT_entry_t list option list"
  cluster_start :: FAT_entry_t
  cluster_end :: FAT_entry_t
  cluster_cnt :: nat

definition get_index_val :: "FAT_entry_t list \<Rightarrow> nat \<Rightarrow> FAT_entry_t \<Rightarrow> FAT_entry_t list \<times> FAT_entry_t" where
  "get_index_val idx_table idx_entry cluster_num =
     (if cluster_num \<noteq> 0 then (idx_table[idx_entry := cluster_num], cluster_num)
      else (idx_table, if idx_table ! idx_entry \<noteq> 0 then idx_table ! idx_entry else EOC))"

definition fat32_ctl_index_table :: "finode \<Rightarrow> nat \<Rightarrow> FAT_entry_t \<Rightarrow> (finode \<times> FAT_entry_t) option" where
  "fat32_ctl_index_table ip l_num cluster_num = do {
     ASSERT (1 \<le> l_num \<and> l_num \<le> MAX_INDEX_1);
     let idx = l_num - 1;
     if l_num \<le> N_DIRECT then
       (let (t, v) = get_index_val (direct ip) idx cluster_num in Some (ip\<lparr>direct := t\<rparr>, v))
     else
       (let idx = idx - N_DIRECT;
            table_offset = idx div N_INDIRECT;
            idx = idx mod N_INDIRECT;
            page = (case indirect_one ip ! table_offset of None \<Rightarrow> replicate N_INDIRECT 0 | Some p \<Rightarrow> p);
            (t, v) = get_index_val page idx cluster_num
        in Some (ip\<lparr>indirect_one := (indirect_one ip)[table_offset := Some t]\<rparr>, v)) }"

text \<open>The two loops stop at the first empty slot.\<close>

fun clear_direct :: "FAT_entry_t list \<Rightarrow> FAT_entry_t list" where
  "clear_direct [] = []"
| "clear_direct (e # es) = (if e = 0 then e # es else 0 # clear_direct es)"

fun clear_pages :: "FAT_entry_t list option list \<Rightarrow> FAT_entry_t list option list" where
  "clear_pages [] = []"
| "clear_pages (p # ps) = (if p = None then p # ps else None # clear_pages ps)"

definition fat32_free_index_table :: "finode \<Rightarrow> finode" where
  "fat32_free_index_table ip =
     (if cluster_cnt ip = 0 then ip
      else ip\<lparr>direct := clear_direct (direct ip), indirect_one := clear_pages (indirect_one ip)\<rparr>)"

subsection \<open>Cluster chains\<close>

text \<open>\<open>fat32_fat_travel\<close>, its loop: \<open>cnt\<close> is incremented in the loop's condition, unless the end is reached.\<close>

partial_function (option) travel_loop :: "fatfs \<Rightarrow> nat \<Rightarrow> finode \<Rightarrow> FAT_entry_t \<Rightarrow> nat \<Rightarrow> FAT_entry_t \<Rightarrow>
    (finode \<times> FAT_entry_t \<times> nat \<times> FAT_entry_t) option" where
  "travel_loop sb n ip iter_c_n cnt prev =
     (if ISEOF iter_c_n then Some (ip, iter_c_n, cnt, prev)
      else if cnt + 1 < n \<or> n = 0 then do {
        (ip, _) \<leftarrow> fat32_ctl_index_table ip (cnt + 1) iter_c_n;
        nxt \<leftarrow> fat32_fat_cache_get sb (unat iter_c_n);
        travel_loop sb n ip nxt (cnt + 1) iter_c_n }
      else Some (ip, iter_c_n, cnt + 1, prev))"

definition fat32_fat_travel :: "fatfs \<Rightarrow> finode \<Rightarrow> nat \<Rightarrow> (finode \<times> FAT_entry_t) option" where
  "fat32_fat_travel sb ip n = do {
     (ip, iter_c_n, cnt, prev) \<leftarrow> travel_loop sb n ip (cluster_start ip) 0 0;
     Some (if n = 0 then (ip\<lparr>cluster_end := prev\<rparr>, word_of_nat cnt)
           else (ip, if cnt < n then prev else iter_c_n)) }"

text \<open>A new cluster is linked behind the cluster \<open>c\<close> and becomes the last one of the inode.\<close>

definition append_cluster :: "fatfs \<Rightarrow> finode \<Rightarrow> FAT_entry_t \<Rightarrow> (fatfs \<times> finode \<times> FAT_entry_t) option" where
  "append_cluster sb ip c = do {
     (sb, fat_new) \<leftarrow> fat32_cluster_alloc sb;
     sb \<leftarrow> fat32_fat_cache_set sb (unat c) (word_of_nat fat_new);
     let ip = ip\<lparr>cluster_cnt := cluster_cnt ip + 1, cluster_end := word_of_nat fat_new\<rparr>;
     (ip, _) \<leftarrow> fat32_ctl_index_table ip (cluster_cnt ip) (word_of_nat fat_new);
     Some (sb, ip, word_of_nat fat_new) }"

primrec extend_to :: "nat \<Rightarrow> fatfs \<Rightarrow> finode \<Rightarrow> FAT_entry_t \<Rightarrow> (fatfs \<times> finode \<times> FAT_entry_t) option" where
  "extend_to 0 sb ip c = Some (sb, ip, c)"
| "extend_to (Suc k) sb ip c = do {
     (sb, ip, c) \<leftarrow> append_cluster sb ip c;
     extend_to k sb ip c }"

definition LOGISTIC_C_NUM :: "fatfs \<Rightarrow> nat \<Rightarrow> nat" where
  "LOGISTIC_C_NUM sb off = off div (sectors_per_block sb * sector_size sb)"

definition LOGISTIC_C_OFFSET :: "fatfs \<Rightarrow> nat \<Rightarrow> nat" where
  "LOGISTIC_C_OFFSET sb off = off mod (sectors_per_block sb * sector_size sb)"

definition LOGISTIC_S_NUM :: "fatfs \<Rightarrow> nat \<Rightarrow> nat" where "LOGISTIC_S_NUM sb off = LOGISTIC_C_OFFSET sb off div sector_size sb"
definition LOGISTIC_S_OFFSET :: "fatfs \<Rightarrow> nat \<Rightarrow> nat" where "LOGISTIC_S_OFFSET sb off = LOGISTIC_C_OFFSET sb off mod sector_size sb"

text \<open>The loop runs until \<open>cluster_cnt\<close> reaches the logical cluster wanted.\<close>

definition fat32_cursor_to_offset :: "fatfs \<Rightarrow> finode \<Rightarrow> nat \<Rightarrow> (fatfs \<times> finode \<times> nat \<times> FAT_entry_t \<times> nat \<times> nat) option" where
  "fat32_cursor_to_offset sb ip off = do {
     let C_NUM_off = LOGISTIC_C_NUM sb off + 1;
     (ip, c_start) \<leftarrow> fat32_ctl_index_table ip C_NUM_off 0;
     let c_start = (if ISEOF c_start then cluster_end ip else c_start);
     (sb, ip, c_start) \<leftarrow> extend_to (C_NUM_off - cluster_cnt ip) sb ip c_start;
     Some (sb, ip, C_NUM_off, c_start, LOGISTIC_S_NUM sb off, LOGISTIC_S_OFFSET sb off) }"

subsection \<open>From a file range to disk blocks\<close>

text \<open>A \<open>bio_vec\<close> is its first block and its length; the list is in order, \<open>vec_cur\<close> is its last element.\<close>

type_synonym bio_vecs = "(nat \<times> nat) list"

definition add_blocks :: "bio_vecs \<Rightarrow> nat \<Rightarrow> nat \<Rightarrow> nat \<Rightarrow> bio_vecs" where
  "add_blocks vs first_sector init_s_n blocks_n =
     (let vs = (if vs = [] \<or> fst (last vs) + snd (last vs) \<noteq> first_sector then vs @ [(0, 0)] else vs);
          (b, l) = last vs
      in butlast vs @ [if b = 0 then (first_sector + init_s_n, blocks_n) else (b, l + blocks_n)])"

text \<open>\<open>tot\<close> bounds the number of turns: each adds at least one block.\<close>

primrec get_block_loop :: "nat \<Rightarrow> bool \<Rightarrow> nat \<Rightarrow> fatfs \<Rightarrow> finode \<Rightarrow> nat \<Rightarrow> FAT_entry_t \<Rightarrow> nat \<Rightarrow> nat \<Rightarrow> bio_vecs \<Rightarrow>
    (fatfs \<times> finode \<times> bio_vecs \<times> nat) option" where
  "get_block_loop 0 alloc tot sb ip l_num c init_s_n cur vs = None"
| "get_block_loop (Suc fuel) alloc tot sb ip l_num c init_s_n cur vs =
     (if \<not> ISEOF c \<and> cur < tot then do {
        let blocks_n = min (sectors_per_block sb - init_s_n) (tot - cur);
        let vs = add_blocks vs (FirstSectorofCluster sb (unat c)) init_s_n blocks_n;
        let cur = cur + blocks_n;
        if cur = tot then Some (sb, ip, vs, cur)
        else do {
          (ip, nxt) \<leftarrow> fat32_ctl_index_table ip (l_num + 1) 0;
          (sb, ip, nxt) \<leftarrow> (if alloc \<and> ISEOF nxt then append_cluster sb ip c else Some (sb, ip, nxt));
          get_block_loop fuel alloc tot sb ip (l_num + 1) nxt 0 cur vs } }
      else Some (sb, ip, vs, cur))"

declare get_block_loop.simps [simp del]

definition fat32_get_block :: "fatfs \<Rightarrow> finode \<Rightarrow> nat \<Rightarrow> nat \<Rightarrow> bool \<Rightarrow> (fatfs \<times> finode \<times> bio_vecs \<times> nat) option" where
  "fat32_get_block sb ip off n alloc = do {
     ASSERT (off mod 4096 = 0);
     ASSERT (n mod sector_size sb = 0);
     ASSERT (0 < n);
     (sb, ip, l_num, c, init_s_n, init_s_offset) \<leftarrow> fat32_cursor_to_offset sb ip off;
     ASSERT (init_s_offset = 0);
     let tot_s_n = (n + sector_size sb - 1) div sector_size sb;
     get_block_loop (Suc tot_s_n) alloc tot_s_n sb ip l_num c init_s_n 0 [] }"

subsection \<open>Truncation\<close>

partial_function (option) trunc_loop :: "fatfs \<Rightarrow> finode \<Rightarrow> FAT_entry_t \<Rightarrow> nat \<Rightarrow> (fatfs \<times> finode) option" where
  "trunc_loop sb ip iter_c_n l_num =
     (if \<not> ISEOF iter_c_n then do {
        (ip, fat_next) \<leftarrow> fat32_ctl_index_table ip (l_num + 1) 0;
        sb \<leftarrow> fat32_fat_cache_set sb (unat iter_c_n) FREE_MASK;
        sb \<leftarrow> fat32_bitmap_op sb (unat iter_c_n) False;
        sb \<leftarrow> fat32_fat_cache_set sb (unat iter_c_n) FREE_MASK;
        trunc_loop sb ip fat_next (l_num + 1) }
      else Some (sb, ip))"

text \<open>The fields of the inode that do not concern clusters are reset as well.\<close>

definition fat32_inode_trunc :: "fatfs \<Rightarrow> finode \<Rightarrow> (fatfs \<times> finode) option" where
  "fat32_inode_trunc sb ip = do {
     (sb, ip) \<leftarrow> trunc_loop sb ip (cluster_start ip) 1;
     let ip = fat32_free_index_table ip;
     let sb = sb\<lparr>free_count := free_count sb + word_of_nat (cluster_cnt ip)\<rparr>;
     Some (sb, ip\<lparr>cluster_start := 0, cluster_end := 0, cluster_cnt := 0\<rparr>) }"

subsection \<open>The bitmap search\<close>

definition marked :: "uint64 list \<Rightarrow> nat \<Rightarrow> bool" where
  "marked bm c \<longleftrightarrow> TEST_BIT (bm ! (c div MAP_BITS)) (c mod MAP_BITS)"

text \<open>The clusters the search looks at, in order: the last cluster is left out if it starts a word of the bitmap.\<close>

definition candidates :: "nat \<Rightarrow> nat \<Rightarrow> nat list" where
  "candidates mx c = (if c < mx then [c ..< mx] @ (if mx mod MAP_BITS \<noteq> 0 then [mx] else []) else [])"

lemma MAP_BITS_pos [simp]: "0 < MAP_BITS"
  by (simp add: MAP_BITS_def)

lemma bitmap_word_find:
  assumes "c \<le> mx" "off \<le> MAP_BITS" "c + MAP_BITS = e + off"
  shows "bitmap_word mx mini off c =
    (case find (\<lambda>x. \<not> TEST_BIT mini (x + MAP_BITS - e)) [c ..< min e (mx + 1)] of
       Some x \<Rightarrow> Inl (Some (x, x + MAP_BITS - e))
     | None \<Rightarrow> if mx < e then Inl None else Inr e)"
  using assms
proof (induction mx mini off c rule: bitmap_word.induct)
  case (1 mx mini off c)
  have o: "c + MAP_BITS - e = off" using 1(4) by simp
  show ?case
  proof (cases "off < MAP_BITS")
    case False
    then show ?thesis using 1(2-4) by (subst bitmap_word.simps) simp
  next
    case off: True
    then have u: "[c ..< min e (mx + 1)] = c # [Suc c ..< min e (mx + 1)]" using 1(2,4) by (intro upt_conv_Cons) simp
    show ?thesis
    proof (cases "\<not> TEST_BIT mini off")
      case True
      then show ?thesis unfolding u using off o by (subst bitmap_word.simps) simp
    next
      case False
      show ?thesis
      proof (cases "mx < c + 1")
        case True
        then have "mx < e" "[Suc c ..< min e (mx + 1)] = []" using 1(4) off by auto
        then show ?thesis unfolding u using False True off o by (subst bitmap_word.simps) simp
      next
        case more: False
        have "bitmap_word mx mini off c = bitmap_word mx mini (off + 1) (c + 1)"
          using off False more by (subst bitmap_word.simps) simp
        also have "\<dots> = (case find (\<lambda>x. \<not> TEST_BIT mini (x + MAP_BITS - e)) [c + 1 ..< min e (mx + 1)] of
            Some x \<Rightarrow> Inl (Some (x, x + MAP_BITS - e)) | None \<Rightarrow> if mx < e then Inl None else Inr e)"
          by (rule 1(1) [OF off]) (use False more off 1(4) in auto)
        finally show ?thesis unfolding u using False o by simp
      qed
    qed
  qed
qed

lemma find_SomeD: "find P xs = Some x \<Longrightarrow> x \<in> set xs \<and> P x"
  by (induction xs) (auto split: if_splits)

lemma find_append: "find P (xs @ ys) = (case find P xs of None \<Rightarrow> find P ys | Some x \<Rightarrow> Some x)"
  by (induction xs) auto

lemma candidates_split:
  assumes "idx * MAP_BITS \<le> c" "c < (idx + 1) * MAP_BITS" "c < mx"
  shows "candidates mx c = [c ..< min ((idx + 1) * MAP_BITS) (mx + 1)] @
    (if (idx + 1) * MAP_BITS \<le> mx then candidates mx ((idx + 1) * MAP_BITS) else [])"
proof -
  define e where "e = (idx + 1) * MAP_BITS"
  show ?thesis
  proof (cases "e \<le> mx")
    case True
    have "[c ..< mx] = [c ..< e] @ [e ..< mx]" using True assms(2) by (metis e_def le_Suc_ex less_imp_le upt_add_eq_append)
    moreover have "e = mx \<Longrightarrow> mx mod MAP_BITS = 0" unfolding e_def by (metis mod_mult_self2_is_0)
    ultimately show ?thesis using True assms(3) unfolding e_def [symmetric] by (auto simp: candidates_def)
  next
    case False
    have "mx mod MAP_BITS \<noteq> 0"
    proof
      assume "mx mod MAP_BITS = 0"
      then obtain k where k: "mx = k * MAP_BITS" by (metis mod_0_imp_dvd dvd_mult_div_cancel mult.commute)
      have "idx * MAP_BITS < k * MAP_BITS" "k * MAP_BITS < (idx + 1) * MAP_BITS" using assms False unfolding e_def k by linarith+
      then show False by (simp only: mult_less_cancel2) linarith
    qed
    then show ?thesis using False assms(3) unfolding e_def [symmetric] by (simp add: candidates_def)
  qed
qed

lemma bitmap_loop_find:
  assumes "c = idx * MAP_BITS + off" "off < MAP_BITS" "mx div MAP_BITS < length bm"
  shows "bitmap_alloc_loop mx bm idx off c = Some
    (case find (\<lambda>x. \<not> marked bm x) (candidates mx c) of None \<Rightarrow> (bm, 0)
     | Some x \<Rightarrow> (bm[x div MAP_BITS := SET_BIT (bm ! (x div MAP_BITS)) (x mod MAP_BITS)], x))"
  using assms
proof (induction "mx - c" arbitrary: c idx off rule: less_induct)
  case less
  let ?e = "(idx + 1) * MAP_BITS"
  show ?case
  proof (cases "c < mx")
    case False
    then show ?thesis by (subst bitmap_alloc_loop.simps) (simp add: candidates_def)
  next
    case lt: True
    have ce: "c < ?e" "c + MAP_BITS = ?e + off" using less(2,3) by simp_all
    have pos: "x div MAP_BITS = idx \<and> x mod MAP_BITS = x + MAP_BITS - ?e" if "c \<le> x" "x < ?e" for x
    proof -
      have "x div MAP_BITS = idx" using that less(2) by (intro div_nat_eqI) (simp_all add: mult.commute)
      then show ?thesis using div_mult_mod_eq [of x MAP_BITS] by simp
    qed
    have idx: "idx < length bm"
      using pos [of c] ce(1) div_le_mono [OF less_imp_le [OF lt], of MAP_BITS] less(4) by simp
    have split: "candidates mx c = [c ..< min ?e (mx + 1)] @ (if ?e \<le> mx then candidates mx ?e else [])"
      by (rule candidates_split) (use less(2) ce(1) lt in simp_all)
    have w: "find (\<lambda>x. \<not> TEST_BIT (bm ! idx) (x + MAP_BITS - ?e)) [c ..< min ?e (mx + 1)] = find (\<lambda>x. \<not> marked bm x) [c ..< min ?e (mx + 1)]"
      by (rule find_cong) (use pos in \<open>auto simp: marked_def\<close>)
    note word = bitmap_word_find [of c mx off ?e "bm ! idx", OF less_imp_le [OF lt] less_imp_le [OF less(3)] ce(2), unfolded w]
    show ?thesis
    proof (cases "find (\<lambda>x. \<not> marked bm x) [c ..< min ?e (mx + 1)]")
      case (Some x)
      then have "c \<le> x" "x < ?e" using find_SomeD by fastforce+
      then show ?thesis
        using lt idx word Some pos [of x] unfolding split by (subst bitmap_alloc_loop.simps) (simp add: find_append)
    next
      case None
      show ?thesis
      proof (cases "?e \<le> mx")
        case True
        have "bitmap_alloc_loop mx bm idx off c = bitmap_alloc_loop mx bm (idx + 1) 0 ?e"
          using lt idx word None True by (subst bitmap_alloc_loop.simps) simp
        also have "\<dots> = Some (case find (\<lambda>x. \<not> marked bm x) (candidates mx ?e) of None \<Rightarrow> (bm, 0)
           | Some x \<Rightarrow> (bm[x div MAP_BITS := SET_BIT (bm ! (x div MAP_BITS)) (x mod MAP_BITS)], x))"
          by (rule less(1)) (use lt ce(1) less(4) True in auto)
        finally show ?thesis unfolding split using None True by (simp add: find_append)
      next
        case False
        then show ?thesis
          using lt idx word None unfolding split by (subst bitmap_alloc_loop.simps) (simp add: find_append)
      qed
    qed
  qed
qed

lemma bitmap_alloc_find:
  assumes "FAT_CLUSTER_MAX sb div MAP_BITS < length (bit_map sb)"
  shows "fat32_bitmap_alloc sb hint = Some
    (case find (\<lambda>c. \<not> marked (bit_map sb) c) (candidates (FAT_CLUSTER_MAX sb) hint) of None \<Rightarrow> (sb, 0)
     | Some c \<Rightarrow> (sb\<lparr>bit_map := (bit_map sb)[c div MAP_BITS := SET_BIT (bit_map sb ! (c div MAP_BITS)) (c mod MAP_BITS)]\<rparr>, c))"
  using bitmap_loop_find [OF _ _ assms, of hint "hint div MAP_BITS" "hint mod MAP_BITS"]
  by (auto simp: fat32_bitmap_alloc_def split: option.splits)

subsection \<open>Cluster allocation\<close>

text \<open>The bitmap covers all clusters and the two reserved ones are marked.\<close>

definition bitmap_ok :: "fatfs \<Rightarrow> bool" where
  "bitmap_ok sb \<longleftrightarrow> FAT_CLUSTER_MAX sb div MAP_BITS < length (bit_map sb) \<and> FAT_CLUSTER_MAX sb < length (fat_table sb) \<and>
     marked (bit_map sb) 0 \<and> marked (bit_map sb) 1"

definition free_cluster :: "fatfs \<Rightarrow> bool" where
  "free_cluster sb \<longleftrightarrow> (\<exists>c\<in>set (candidates (FAT_CLUSTER_MAX sb) 1). \<not> marked (bit_map sb) c)"

definition mark :: "nat \<Rightarrow> uint64 list \<Rightarrow> uint64 list" where
  "mark c bm = bm[c div MAP_BITS := SET_BIT (bm ! (c div MAP_BITS)) (c mod MAP_BITS)]"

lemma candidates_in: "c \<in> set (candidates mx h) \<Longrightarrow> h \<le> c \<and> c \<le> mx"
  by (auto simp: candidates_def split: if_splits)

lemma geometry_irrelevant [simp]:
  "FAT_CLUSTER_MAX (sb\<lparr>bit_map := b\<rparr>) = FAT_CLUSTER_MAX sb" "FAT_CLUSTER_MAX (sb\<lparr>fat_table := t\<rparr>) = FAT_CLUSTER_MAX sb"
  "FAT_CLUSTER_MAX (sb\<lparr>nxt_free := n\<rparr>) = FAT_CLUSTER_MAX sb" "FAT_CLUSTER_MAX (sb\<lparr>hint_valid := h\<rparr>) = FAT_CLUSTER_MAX sb"
  "FAT_CLUSTER_MAX (sb\<lparr>free_count := f\<rparr>) = FAT_CLUSTER_MAX sb" "FAT_CLUSTER_MAX (sb\<lparr>fs_dirty := d\<rparr>) = FAT_CLUSTER_MAX sb"
  "FirstSectorofCluster (sb\<lparr>bit_map := b\<rparr>) = FirstSectorofCluster sb" "FirstSectorofCluster (sb\<lparr>fat_table := t\<rparr>) = FirstSectorofCluster sb"
  "FirstSectorofCluster (sb\<lparr>nxt_free := n\<rparr>) = FirstSectorofCluster sb" "FirstSectorofCluster (sb\<lparr>hint_valid := h\<rparr>) = FirstSectorofCluster sb"
  "FirstSectorofCluster (sb\<lparr>free_count := f\<rparr>) = FirstSectorofCluster sb" "FirstSectorofCluster (sb\<lparr>fs_dirty := d\<rparr>) = FirstSectorofCluster sb"
  by (simp_all add: FAT_CLUSTER_MAX_def FirstDataSector_def FirstSectorofCluster_def fun_eq_iff)

lemma alloc_hit:
  assumes ok: "bitmap_ok sb" and f: "find (\<lambda>c. \<not> marked (bit_map sb) c) (candidates (FAT_CLUSTER_MAX sb) h) = Some c"
    and h: "h = (if hint_valid sb then nxt_free sb else 0)"
  shows "2 \<le> c \<and> c \<le> FAT_CLUSTER_MAX sb \<and> \<not> marked (bit_map sb) c \<and>
    (\<exists>n. alloc_retry sb = Some (sb\<lparr>bit_map := mark c (bit_map sb), nxt_free := n, hint_valid := True\<rparr>, c))"
proof -
  have c: "c \<in> set (candidates (FAT_CLUSTER_MAX sb) h)" "\<not> marked (bit_map sb) c" using find_SomeD [OF f] by auto
  then have "c \<noteq> 0" "c \<noteq> 1" using ok unfolding bitmap_ok_def by metis+
  moreover have "c \<le> FAT_CLUSTER_MAX sb" using candidates_in [OF c(1)] by simp
  moreover have "\<exists>n. alloc_retry sb = Some (sb\<lparr>bit_map := mark c (bit_map sb), nxt_free := n, hint_valid := True\<rparr>, c)"
    using ok f \<open>c \<noteq> 0\<close> unfolding h
    by (subst alloc_retry.simps) (auto simp: bitmap_ok_def bitmap_alloc_find mark_def Let_def)
  ultimately show ?thesis using c(2) by auto
qed

lemma alloc_retry_ok:
  assumes ok: "bitmap_ok sb" and free: "free_cluster sb"
  shows "\<exists>n c. alloc_retry sb = Some (sb\<lparr>bit_map := mark c (bit_map sb), nxt_free := n, hint_valid := True\<rparr>, c) \<and>
    2 \<le> c \<and> c \<le> FAT_CLUSTER_MAX sb \<and> \<not> marked (bit_map sb) c"
proof -
  let ?h = "if hint_valid sb then nxt_free sb else 0" and ?M = "FAT_CLUSTER_MAX sb" and ?P = "\<lambda>c. \<not> marked (bit_map sb) c"
  show ?thesis
  proof (cases "find ?P (candidates ?M ?h)")
    case (Some c)
    then show ?thesis using alloc_hit [OF ok Some refl] by blast
  next
    case None
    obtain c' where "find ?P (candidates ?M 1) = Some c'"
      using free unfolding free_cluster_def by (metis find_None_iff option.exhaust)
    moreover have M: "1 < ?M" using free by (auto simp: free_cluster_def candidates_def split: if_splits)
    let ?sb = "sb\<lparr>nxt_free := 1, hint_valid := True\<rparr>"
    have e: "alloc_retry sb = alloc_retry ?sb"
      using None ok M by (subst alloc_retry.simps) (simp add: bitmap_ok_def bitmap_alloc_find Let_def del: One_nat_def)
    have "bitmap_ok ?sb" using ok by (simp add: bitmap_ok_def)
    from alloc_hit [OF this, of 1 c'] calculation obtain n where
      "alloc_retry ?sb = Some (?sb\<lparr>bit_map := mark c' (bit_map sb), nxt_free := n, hint_valid := True\<rparr>, c')"
      "2 \<le> c'" "c' \<le> ?M" "\<not> marked (bit_map sb) c'"
      by auto
    then show ?thesis unfolding e by auto
  qed
qed

subsection \<open>The index table as a map\<close>

definition idx_wf :: "finode \<Rightarrow> bool" where
  "idx_wf ip \<longleftrightarrow> length (direct ip) = N_DIRECT \<and> length (indirect_one ip) = N_LEVEL_ONE \<and>
     (\<forall>p. Some p \<in> set (indirect_one ip) \<longrightarrow> length p = N_INDIRECT)"

definition idx_at :: "finode \<Rightarrow> nat \<Rightarrow> FAT_entry_t" where
  "idx_at ip k =
     (if k \<le> N_DIRECT then direct ip ! (k - 1)
      else case indirect_one ip ! ((k - 1 - N_DIRECT) div N_INDIRECT) of None \<Rightarrow> 0
        | Some p \<Rightarrow> p ! ((k - 1 - N_DIRECT) mod N_INDIRECT))"

definition idx_dom :: "nat \<Rightarrow> bool" where "idx_dom k \<longleftrightarrow> 1 \<le> k \<and> k \<le> MAX_INDEX_1"

text \<open>Only the table differs, and it now maps as \<open>f\<close>.\<close>

definition idx_upd :: "finode \<Rightarrow> (nat \<Rightarrow> FAT_entry_t) \<Rightarrow> finode \<Rightarrow> bool" where
  "idx_upd ip f ip' \<longleftrightarrow> idx_wf ip' \<and> (\<forall>k. idx_dom k \<longrightarrow> idx_at ip' k = f k) \<and>
     cluster_start ip' = cluster_start ip \<and> cluster_end ip' = cluster_end ip \<and> cluster_cnt ip' = cluster_cnt ip"

lemma idx_page_bounds:
  assumes "idx_dom k" "N_DIRECT < k"
  shows "(k - 1 - N_DIRECT) div N_INDIRECT < N_LEVEL_ONE" "(k - 1 - N_DIRECT) mod N_INDIRECT < N_INDIRECT"
proof -
  have "k - 1 - N_DIRECT < N_LEVEL_ONE * N_INDIRECT" using assms by (auto simp: idx_dom_def MAX_INDEX_1_def)
  then show "(k - 1 - N_DIRECT) div N_INDIRECT < N_LEVEL_ONE" by (rule less_mult_imp_div_less)
  show "(k - 1 - N_DIRECT) mod N_INDIRECT < N_INDIRECT" by (simp add: N_INDIRECT_def)
qed

lemma idx_page_inj:
  assumes "N_DIRECT < k" "N_DIRECT < j" "(k - 1 - N_DIRECT) div N_INDIRECT = (j - 1 - N_DIRECT) div N_INDIRECT"
    "(k - 1 - N_DIRECT) mod N_INDIRECT = (j - 1 - N_DIRECT) mod N_INDIRECT"
  shows "k = j"
proof -
  have "k - 1 - N_DIRECT = j - 1 - N_DIRECT" using assms(3,4) by (metis div_mult_mod_eq)
  then show ?thesis using assms(1,2) by simp
qed

lemma get_index_val_eq:
  "get_index_val t i v = (if v \<noteq> 0 then t[i := v] else t, if v \<noteq> 0 then v else if t ! i \<noteq> 0 then t ! i else EOC)"
  by (simp add: get_index_val_def)

lemma ctl_index:
  assumes wf: "idx_wf ip" and k: "idx_dom k"
  shows "v \<noteq> 0 \<Longrightarrow> \<exists>ip'. fat32_ctl_index_table ip k v = Some (ip', v) \<and> idx_upd ip ((idx_at ip)(k := v)) ip'"
    "\<exists>ip'. fat32_ctl_index_table ip k 0 = Some (ip', if idx_at ip k \<noteq> 0 then idx_at ip k else EOC) \<and> idx_upd ip (idx_at ip) ip'"
proof -
  have "\<exists>ip'. fat32_ctl_index_table ip k v = Some (ip', if v \<noteq> 0 then v else if idx_at ip k \<noteq> 0 then idx_at ip k else EOC) \<and>
      idx_upd ip (if v \<noteq> 0 then (idx_at ip)(k := v) else idx_at ip) ip'" for v
  proof (cases "k \<le> N_DIRECT")
    case True
    let ?t = "if v \<noteq> 0 then (direct ip)[k - 1 := v] else direct ip"
    have l: "k - 1 < length (direct ip)" using wf k True by (auto simp: idx_wf_def idx_dom_def)
    have "fat32_ctl_index_table ip k v = Some (ip\<lparr>direct := ?t\<rparr>, if v \<noteq> 0 then v else if idx_at ip k \<noteq> 0 then idx_at ip k else EOC)"
      using k True by (auto simp: fat32_ctl_index_table_def get_index_val_def idx_dom_def idx_at_def)
    moreover have "idx_upd ip (if v \<noteq> 0 then (idx_at ip)(k := v) else idx_at ip) (ip\<lparr>direct := ?t\<rparr>)"
      using wf l True k by (auto simp: idx_upd_def idx_wf_def idx_at_def idx_dom_def nth_list_update)
    ultimately show ?thesis by blast
  next
    case False
    then have ind: "N_DIRECT < k" by simp
    let ?o = "(k - 1 - N_DIRECT) div N_INDIRECT" and ?i = "(k - 1 - N_DIRECT) mod N_INDIRECT"
    let ?p = "case indirect_one ip ! ?o of None \<Rightarrow> replicate N_INDIRECT 0 | Some p \<Rightarrow> p"
    let ?t = "if v \<noteq> 0 then ?p[?i := v] else ?p"
    let ?ip = "ip\<lparr>indirect_one := (indirect_one ip)[?o := Some ?t]\<rparr>"
    have lo: "?o < length (indirect_one ip)" using idx_page_bounds(1) [OF k ind] wf by (simp add: idx_wf_def)
    have lp: "length ?p = N_INDIRECT"
      using wf nth_mem [OF lo] by (cases "indirect_one ip ! ?o") (auto simp: idx_wf_def)
    have at: "idx_at ip j = ?p ! ((j - 1 - N_DIRECT) mod N_INDIRECT)" if "N_DIRECT < j" "(j - 1 - N_DIRECT) div N_INDIRECT = ?o" for j
      using that by (auto simp: idx_at_def N_INDIRECT_def split: option.splits)
    have "1 \<le> k \<and> k \<le> MAX_INDEX_1" using k by (simp add: idx_dom_def)
    then have "fat32_ctl_index_table ip k v =
        (case get_index_val ?p ?i v of (t, x) \<Rightarrow> Some (ip\<lparr>indirect_one := (indirect_one ip)[?o := Some t]\<rparr>, x))"
      unfolding fat32_ctl_index_table_def Let_def using False by (simp only: ASSERT_simps simp_thms Option.bind.bind_lunit if_False)
    also have "get_index_val ?p ?i v = (?t, if v \<noteq> 0 then v else if idx_at ip k \<noteq> 0 then idx_at ip k else EOC)"
      unfolding at [OF ind refl] by (rule get_index_val_eq)
    finally have "fat32_ctl_index_table ip k v = Some (?ip, if v \<noteq> 0 then v else if idx_at ip k \<noteq> 0 then idx_at ip k else EOC)"
      by (simp only: prod.case)
    moreover have "idx_wf ?ip" using wf lp by (auto simp: idx_wf_def dest!: set_update_subset_insert [THEN subsetD])
    moreover have "idx_at ?ip j = (if v \<noteq> 0 then (idx_at ip)(k := v) else idx_at ip) j" for j
    proof (cases "N_DIRECT < j \<and> (j - 1 - N_DIRECT) div N_INDIRECT = ?o")
      case True
      then have "idx_at ?ip j = ?t ! ((j - 1 - N_DIRECT) mod N_INDIRECT)" using lo by (simp add: idx_at_def)
      also have "\<dots> = (if v \<noteq> 0 \<and> j = k then v else ?p ! ((j - 1 - N_DIRECT) mod N_INDIRECT))"
        using idx_page_bounds(2) [OF k ind] lp idx_page_inj [of j k] True ind by (auto simp: nth_list_update)
      finally show ?thesis using at True by auto
    next
      case False
      have "j \<noteq> k" using False ind by auto
      moreover have "idx_at ?ip j = idx_at ip j"
      proof (cases "j \<le> N_DIRECT")
        case True
        then show ?thesis by (simp add: idx_at_def)
      next
        case False
        with \<open>\<not> (N_DIRECT < j \<and> (j - 1 - N_DIRECT) div N_INDIRECT = ?o)\<close> have "?o \<noteq> (j - 1 - N_DIRECT) div N_INDIRECT" by linarith
        then show ?thesis by (simp add: idx_at_def)
      qed
      ultimately show ?thesis by simp
    qed
    ultimately show ?thesis by (intro exI [of _ ?ip]) (auto simp: idx_upd_def)
  qed
  from this [of v] this [of 0] show
    "v \<noteq> 0 \<Longrightarrow> \<exists>ip'. fat32_ctl_index_table ip k v = Some (ip', v) \<and> idx_upd ip ((idx_at ip)(k := v)) ip'"
    "\<exists>ip'. fat32_ctl_index_table ip k 0 = Some (ip', if idx_at ip k \<noteq> 0 then idx_at ip k else EOC) \<and> idx_upd ip (idx_at ip) ip'"
    by simp_all
qed

subsection \<open>Chains\<close>

definition volume_ok :: "fatfs \<Rightarrow> bool" where
  "volume_ok sb \<longleftrightarrow> FAT_CLUSTER_MAX sb < 0x0FFFFFF8 \<and> FAT_CLUSTER_MAX sb < length (fat_table sb) \<and> 0 < sectors_per_block sb \<and>
     0 < sector_size sb \<and> 0 < fatbase sb"

fun chain :: "fatfs \<Rightarrow> FAT_entry_t \<Rightarrow> FAT_entry_t list \<Rightarrow> bool" where
  "chain sb c [] \<longleftrightarrow> ISEOF c"
| "chain sb c (x # xs) \<longleftrightarrow> c = x \<and> valid_cluster sb (unat x) \<and> chain sb (fat_table sb ! unat x) xs"

text \<open>The inode knows the clusters \<open>cs\<close> of its file.\<close>

definition file_ok :: "fatfs \<Rightarrow> finode \<Rightarrow> FAT_entry_t list \<Rightarrow> bool" where
  "file_ok sb ip cs \<longleftrightarrow> idx_wf ip \<and> length cs < MAX_INDEX_1 \<and> cluster_cnt ip = length cs \<and> (\<forall>c\<in>set cs. valid_cluster sb (unat c)) \<and>
     (\<forall>k. idx_dom k \<longrightarrow> idx_at ip k = (if k \<le> length cs then cs ! (k - 1) else 0)) \<and>
     (cs \<noteq> [] \<longrightarrow> cluster_start ip = hd cs \<and> cluster_end ip = last cs)"

lemma valid_not_eof:
  assumes "volume_ok sb" "valid_cluster sb (unat c)"
  shows "\<not> ISEOF c" "c \<noteq> 0"
proof -
  have "unat c < 0x0FFFFFF8" using assms by (simp add: volume_ok_def valid_cluster_def)
  then show "\<not> ISEOF c" by (simp add: ISEOF_def word_le_nat_alt)
  show "c \<noteq> 0" using assms(2) by (auto simp: valid_cluster_def)
qed

lemma EOC_eof [simp]: "ISEOF EOC" by (simp add: EOC_def ISEOF_def)

lemma eof_nonzero: "ISEOF c \<Longrightarrow> c \<noteq> 0" by (auto simp: ISEOF_def)

lemma cache_get_chain:
  assumes "volume_ok sb" "chain sb x (x # xs)"
  shows "fat32_fat_cache_get sb (unat x) = Some (fat_table sb ! unat x)"
proof -
  have v: "valid_cluster sb (unat x)" "chain sb (fat_table sb ! unat x) xs" using assms(2) by auto
  have "fat_table sb ! unat x \<noteq> 0"
    using v(2) valid_not_eof(2) [OF assms(1)] eof_nonzero by (cases xs) auto
  then show ?thesis
    using v(1) assms(1) by (simp add: fat32_fat_cache_get_def volume_ok_def valid_cluster_def)
qed

lemma idx_updD:
  assumes "idx_upd ip f ip'"
  shows "idx_wf ip'" "idx_dom k \<Longrightarrow> idx_at ip' k = f k" "cluster_start ip' = cluster_start ip" "cluster_end ip' = cluster_end ip"
    "cluster_cnt ip' = cluster_cnt ip"
  using assms by (auto simp: idx_upd_def)

lemma idx_upd_trans:
  assumes "idx_upd ip f ip1" "idx_upd ip1 g ip2" "\<And>k. idx_dom k \<Longrightarrow> g k = h k"
  shows "idx_upd ip h ip2"
  using assms by (simp add: idx_upd_def)

lemma travel_chain:
  assumes v: "volume_ok sb"
  shows "chain sb c cs \<Longrightarrow> idx_wf ip \<Longrightarrow> cnt + length cs \<le> MAX_INDEX_1 \<Longrightarrow>
    \<exists>ip' e. travel_loop sb 0 ip c cnt prev = Some (ip', e, cnt + length cs, last (prev # cs)) \<and>
      idx_upd ip (\<lambda>k. if cnt < k \<and> k \<le> cnt + length cs then cs ! (k - cnt - 1) else idx_at ip k) ip'"
proof (induction cs arbitrary: c ip cnt prev)
  case Nil
  then show ?case by (subst travel_loop.simps) (auto simp: idx_upd_def)
next
  case (Cons x cs)
  have x: "c = x" "\<not> ISEOF x" "x \<noteq> 0" "chain sb (fat_table sb ! unat x) cs"
    using Cons.prems(1) valid_not_eof [OF v] by auto
  have d: "idx_dom (cnt + 1)" using Cons.prems(3) by (simp add: idx_dom_def)
  obtain ip1 where i: "fat32_ctl_index_table ip (cnt + 1) x = Some (ip1, x)" "idx_upd ip ((idx_at ip)(cnt + 1 := x)) ip1"
    using ctl_index(1) [OF Cons.prems(2) d x(3)] by blast
  have g: "fat32_fat_cache_get sb (unat x) = Some (fat_table sb ! unat x)"
    using cache_get_chain [OF v, of x cs] Cons.prems(1) x(1) by simp
  obtain ip' e where r: "travel_loop sb 0 ip1 (fat_table sb ! unat x) (cnt + 1) x = Some (ip', e, cnt + 1 + length cs, last (x # cs))"
    "idx_upd ip1 (\<lambda>k. if cnt + 1 < k \<and> k \<le> cnt + 1 + length cs then cs ! (k - (cnt + 1) - 1) else idx_at ip1 k) ip'"
    using Cons.IH [OF x(4) idx_updD(1) [OF i(2)], of "cnt + 1" x] Cons.prems(3) by auto
  have "travel_loop sb 0 ip c cnt prev = Some (ip', e, cnt + length (x # cs), last (prev # x # cs))"
    using x(1,2) i(1) g r(1) by (subst travel_loop.simps) simp
  moreover have "idx_upd ip (\<lambda>k. if cnt < k \<and> k \<le> cnt + length (x # cs) then (x # cs) ! (k - cnt - 1) else idx_at ip k) ip'"
  proof (rule idx_upd_trans [OF i(2) r(2)])
    fix k
    assume k: "idx_dom k"
    show "(if cnt + 1 < k \<and> k \<le> cnt + 1 + length cs then cs ! (k - (cnt + 1) - 1) else idx_at ip1 k) =
        (if cnt < k \<and> k \<le> cnt + length (x # cs) then (x # cs) ! (k - cnt - 1) else idx_at ip k)"
    proof (cases "cnt + 1 < k")
      case True
      then have "k - cnt - 1 = Suc (k - (cnt + 1) - 1)" by simp
      then show ?thesis using True idx_updD(2) [OF i(2) k] by simp
    next
      case False
      then show ?thesis using idx_updD(2) [OF i(2) k] by (cases "k = cnt + 1") simp_all
    qed
  qed
  ultimately show ?case by blast
qed

subsection \<open>Blocks of a file\<close>

definition blocks_of :: "bio_vecs \<Rightarrow> nat list" where
  "blocks_of vs = concat (List.map (\<lambda>(b, l). [b ..< b + l]) vs)"

definition file_sectors :: "fatfs \<Rightarrow> FAT_entry_t list \<Rightarrow> nat list" where
  "file_sectors sb cs = concat (List.map (\<lambda>c. [FirstSectorofCluster sb (unat c) ..< FirstSectorofCluster sb (unat c) + sectors_per_block sb]) cs)"

lemma add_blocks_ok:
  assumes "\<forall>v\<in>set vs. fst v \<noteq> 0" "0 < fs" "vs = [] \<or> i = 0"
  shows "blocks_of (add_blocks vs fs i n) = blocks_of vs @ [fs + i ..< fs + i + n]" "\<forall>v\<in>set (add_blocks vs fs i n). fst v \<noteq> 0"
proof -
  show "blocks_of (add_blocks vs fs i n) = blocks_of vs @ [fs + i ..< fs + i + n]"
  proof (cases "vs = [] \<or> fst (last vs) + snd (last vs) \<noteq> fs")
    case True
    then show ?thesis by (auto simp: add_blocks_def blocks_of_def Let_def)
  next
    case False
    then obtain ws b l where vs: "vs = ws @ [(b, l)]" "b + l = fs" by (cases vs rule: rev_cases) auto
    then have "i = 0" "b \<noteq> 0" using assms by auto
    have "[b ..< b + (l + n)] = [b ..< b + l] @ [b + l ..< b + l + n]" by (metis add.assoc le_add1 upt_add_eq_append)
    then show ?thesis using vs \<open>i = 0\<close> \<open>b \<noteq> 0\<close> by (auto simp: add_blocks_def blocks_of_def Let_def)
  qed
  show "\<forall>v\<in>set (add_blocks vs fs i n). fst v \<noteq> 0"
    using assms(1,2) by (cases vs rule: rev_cases) (auto simp: add_blocks_def Let_def butlast_append split: if_splits)
qed

definition idx_lists :: "finode \<Rightarrow> FAT_entry_t list \<Rightarrow> bool" where
  "idx_lists ip cs \<longleftrightarrow> idx_wf ip \<and> (\<forall>k. idx_dom k \<longrightarrow> idx_at ip k = (if k \<le> length cs then cs ! (k - 1) else 0))"

lemma idx_lists_upd: "idx_lists ip cs \<Longrightarrow> idx_upd ip (idx_at ip) ip' \<Longrightarrow> idx_lists ip' cs"
  by (simp add: idx_lists_def idx_upd_def)

lemma lookup_list:
  assumes v: "volume_ok sb" and cs: "\<forall>c\<in>set cs. valid_cluster sb (unat c)" and i: "idx_lists ip cs" and k: "idx_dom k"
  shows "\<exists>ip'. fat32_ctl_index_table ip k 0 = Some (ip', if k \<le> length cs then cs ! (k - 1) else EOC) \<and> idx_upd ip (idx_at ip) ip'"
proof -
  have "k \<le> length cs \<Longrightarrow> cs ! (k - 1) \<in> set cs" using k by (intro nth_mem) (auto simp: idx_dom_def)
  then have "k \<le> length cs \<Longrightarrow> cs ! (k - 1) \<noteq> 0" using cs valid_not_eof(2) [OF v] by blast
  then show ?thesis using ctl_index(2) [of ip k] i k by (auto simp: idx_lists_def)
qed

lemma file_sectors_Cons: "file_sectors sb (c # cs) =
    [FirstSectorofCluster sb (unat c) ..< FirstSectorofCluster sb (unat c) + sectors_per_block sb] @ file_sectors sb cs"
  by (simp add: file_sectors_def)

lemma cluster_part:
  assumes "i < spc" "n = min (spc - i) t"
  shows "take t (drop i ([fs ..< fs + spc] @ rest)) = [fs + i ..< fs + i + n] @ take (t - n) (if n = spc - i then rest else [])"
    "min t (length (drop i ([fs ..< fs + spc] @ rest))) = n + min (t - n) (length (if n = spc - i then rest else []))"
proof -
  have "drop i ([fs ..< fs + spc] @ rest) = [fs + i ..< fs + spc] @ rest" using assms(1) by simp
  moreover have "take t [fs + i ..< fs + spc] = [fs + i ..< fs + i + n]" using assms
    by (cases "t \<le> spc - i") (auto simp: min_def)
  ultimately show "take t (drop i ([fs ..< fs + spc] @ rest)) = [fs + i ..< fs + i + n] @ take (t - n) (if n = spc - i then rest else [])"
    using assms by (auto simp: min_def)
  show "min t (length (drop i ([fs ..< fs + spc] @ rest))) = n + min (t - n) (length (if n = spc - i then rest else []))"
    using assms by (auto simp: min_def)
qed

lemma first_sector_pos: "volume_ok sb \<Longrightarrow> 0 < FirstSectorofCluster sb c"
  by (simp add: volume_ok_def FirstSectorofCluster_def FirstDataSector_def)

lemma get_block_read:
  assumes v: "volume_ok sb" and cs: "\<forall>c\<in>set cs. valid_cluster sb (unat c)" "length cs < MAX_INDEX_1"
  shows "idx_lists ip cs \<Longrightarrow> 1 \<le> l \<Longrightarrow> l \<le> length cs + 1 \<Longrightarrow> c = (if l \<le> length cs then cs ! (l - 1) else EOC) \<Longrightarrow>
    i < sectors_per_block sb \<Longrightarrow> vs = [] \<or> i = 0 \<Longrightarrow> \<forall>w\<in>set vs. fst w \<noteq> 0 \<Longrightarrow> tot - cur < fuel \<Longrightarrow> cur \<le> tot \<Longrightarrow>
    \<exists>ip' vs'. get_block_loop fuel False tot sb ip l c i cur vs =
        Some (sb, ip', vs', cur + min (tot - cur) (length (drop i (file_sectors sb (drop (l - 1) cs))))) \<and>
      blocks_of vs' = blocks_of vs @ take (tot - cur) (drop i (file_sectors sb (drop (l - 1) cs))) \<and> idx_upd ip (idx_at ip) ip'"
proof (induction fuel arbitrary: ip l c i cur vs)
  case (Suc fuel)
  have self: "idx_upd ip (idx_at ip) ip" using Suc.prems(1) by (simp add: idx_upd_def idx_lists_def)
  show ?case
  proof (cases "l \<le> length cs \<and> cur < tot")
    case False
    then have "ISEOF c \<or> \<not> cur < tot" using Suc.prems(4) by auto
    moreover have "l = length cs + 1 \<or> cur = tot" using False Suc.prems(3,9) by auto
    ultimately show ?thesis using self by (auto simp: get_block_loop.simps file_sectors_def)
  next
    case True
    let ?spc = "sectors_per_block sb" and ?fs = "FirstSectorofCluster sb (unat c)"
    define n where "n = min (?spc - i) (tot - cur)"
    define vs1 where "vs1 = add_blocks vs ?fs i n"
    have c: "c = cs ! (l - 1)" "l - 1 < length cs" using True Suc.prems(2,4) by auto
    have ne: "\<not> ISEOF c" using valid_not_eof(1) [OF v] cs(1) c nth_mem by metis
    have dr: "drop (l - 1) cs = c # drop l cs" using c Cons_nth_drop_Suc [OF c(2)] Suc.prems(2) by simp
    note A = add_blocks_ok [OF Suc.prems(7) first_sector_pos [OF v] Suc.prems(6), of "unat c" n, folded vs1_def]
    note P = cluster_part [OF Suc.prems(5) n_def, of ?fs "file_sectors sb (drop l cs)"]
    have pos: "0 < n" using True Suc.prems(5) by (simp add: n_def)
    show ?thesis
    proof (cases "cur + n = tot")
      case fin: True
      then have tn: "tot - cur = n" by simp
      have "get_block_loop (Suc fuel) False tot sb ip l c i cur vs = Some (sb, ip, vs1, cur + n)"
        using ne True fin by (simp add: get_block_loop.simps Let_def n_def [symmetric] vs1_def [symmetric])
      then show ?thesis
        unfolding dr file_sectors_Cons P using A(1) tn self by simp
    next
      case more: False
      then have n: "n = ?spc - i" "cur + n < tot" using True by (auto simp: n_def)
      have d: "idx_dom (l + 1)" using True cs(2) by (simp add: idx_dom_def)
      obtain ip1 where i1: "fat32_ctl_index_table ip (l + 1) 0 = Some (ip1, if l + 1 \<le> length cs then cs ! (l + 1 - 1) else EOC)"
        "idx_upd ip (idx_at ip) ip1"
        using lookup_list [OF v cs(1) Suc.prems(1) d] by blast
      have pre: "1 \<le> l + 1" "l + 1 \<le> length cs + 1" "0 < ?spc" "vs1 = [] \<or> (0 :: nat) = 0" "tot - (cur + n) < fuel" "cur + n \<le> tot"
        using True Suc.prems(5,8) n(2) pos by auto
      obtain ip' vs' where r: "get_block_loop fuel False tot sb ip1 (l + 1) (if l + 1 \<le> length cs then cs ! (l + 1 - 1) else EOC) 0 (cur + n) vs1 =
          Some (sb, ip', vs', cur + n + min (tot - (cur + n)) (length (drop 0 (file_sectors sb (drop (l + 1 - 1) cs)))))"
        "blocks_of vs' = blocks_of vs1 @ take (tot - (cur + n)) (drop 0 (file_sectors sb (drop (l + 1 - 1) cs)))" "idx_upd ip1 (idx_at ip1) ip'"
        using Suc.IH [OF idx_lists_upd [OF Suc.prems(1) i1(2)] pre(1,2) refl pre(3,4) A(2) pre(5,6)] by (elim exE conjE) (rule that)
      have "get_block_loop (Suc fuel) False tot sb ip l c i cur vs = Some (sb, ip', vs', cur + n + min (tot - (cur + n)) (length (file_sectors sb (drop l cs))))"
        using ne True more i1(1) r(1) by (simp add: get_block_loop.simps Let_def n_def [symmetric] vs1_def [symmetric])
      moreover have "idx_upd ip (idx_at ip) ip'"
        by (rule idx_upd_trans [OF i1(2) r(3)]) (use idx_updD(2) [OF i1(2)] in simp)
      ultimately show ?thesis
        unfolding dr file_sectors_Cons P using n r(2) A(1) by simp
    qed
  qed
qed simp

lemma file_sectors_length: "length (file_sectors sb cs) = length cs * sectors_per_block sb"
  by (induction cs) (simp_all add: file_sectors_Cons, simp add: file_sectors_def)

lemma file_sectors_drop: "drop (k * sectors_per_block sb) (file_sectors sb cs) = file_sectors sb (drop k cs)"
proof (induction k arbitrary: cs)
  case (Suc k)
  show ?case
  proof (cases cs)
    case (Cons c cs')
    have "drop (Suc k * sectors_per_block sb) (file_sectors sb cs) =
        drop (k * sectors_per_block sb) (drop (sectors_per_block sb) (file_sectors sb cs))"
      by (simp add: add.commute)
    then show ?thesis using Cons Suc.IH by (simp add: file_sectors_Cons)
  qed (simp add: file_sectors_def)
qed simp

lemma offset_split:
  fixes off ss spc :: nat
  assumes "0 < spc" "0 < ss" "off mod ss = 0"
  shows "off div ss = off div (spc * ss) * spc + off mod (spc * ss) div ss" "off mod (spc * ss) div ss < spc" "off mod (spc * ss) mod ss = 0"
proof -
  define q where "q = off div ss"
  have q: "off = q * ss" using div_mult_mod_eq [of off ss] assms(3) by (simp add: q_def)
  have m: "off mod (spc * ss) = (q mod spc) * ss" "off div (spc * ss) = q div spc"
    unfolding q using assms(2) by (simp_all only: mod_mult_mult2 div_mult_mult2)
  show "off div ss = off div (spc * ss) * spc + off mod (spc * ss) div ss" unfolding m q_def [symmetric] using assms(2) by simp
  show "off mod (spc * ss) div ss < spc" "off mod (spc * ss) mod ss = 0" unfolding m using assms(1,2) by simp_all
qed

lemma cursor_inside:
  assumes v: "volume_ok sb" and f: "file_ok sb ip cs" and off: "LOGISTIC_C_NUM sb off < length cs"
  shows "\<exists>ip'. fat32_cursor_to_offset sb ip off = Some (sb, ip', LOGISTIC_C_NUM sb off + 1, cs ! LOGISTIC_C_NUM sb off, LOGISTIC_S_NUM sb off,
      LOGISTIC_S_OFFSET sb off) \<and> idx_upd ip (idx_at ip) ip'"
proof -
  let ?k = "LOGISTIC_C_NUM sb off"
  have F: "idx_lists ip cs" "\<forall>c\<in>set cs. valid_cluster sb (unat c)" "cluster_cnt ip = length cs" "length cs < MAX_INDEX_1"
    using f by (auto simp: file_ok_def idx_lists_def)
  have d: "idx_dom (?k + 1)" using off F(4) by (simp add: idx_dom_def)
  obtain ip' where i: "fat32_ctl_index_table ip (?k + 1) 0 = Some (ip', cs ! ?k)" "idx_upd ip (idx_at ip) ip'"
    using lookup_list [OF v F(2,1) d] off by auto
  have "\<not> ISEOF (cs ! ?k)" using valid_not_eof(1) [OF v] F(2) off nth_mem by blast
  then show ?thesis
    using i off F(3) idx_updD(5) [OF i(2)] by (simp add: fat32_cursor_to_offset_def Let_def)
qed

lemma get_block_inside:
  assumes "volume_ok sb" "file_ok sb ip cs" "off mod 4096 = 0" "off mod sector_size sb = 0" "n mod sector_size sb = 0" "0 < n"
    "LOGISTIC_C_NUM sb off < length cs"
  shows "\<exists>ip' vs. fat32_get_block sb ip off n False = Some (sb, ip', vs, length (blocks_of vs)) \<and> file_ok sb ip' cs \<and>
    blocks_of vs = take (n div sector_size sb) (drop (off div sector_size sb) (file_sectors sb cs))"
proof -
  let ?k = "LOGISTIC_C_NUM sb off" and ?s = "LOGISTIC_S_NUM sb off"
  have F: "idx_lists ip cs" "\<forall>c\<in>set cs. valid_cluster sb (unat c)" "length cs < MAX_INDEX_1"
    using assms(2) by (auto simp: file_ok_def idx_lists_def)
  have S: "0 < sectors_per_block sb" "0 < sector_size sb" using assms(1) by (simp_all add: volume_ok_def)
  note O = offset_split [OF S assms(4), folded LOGISTIC_C_NUM_def LOGISTIC_C_OFFSET_def, folded LOGISTIC_S_NUM_def LOGISTIC_S_OFFSET_def]
  obtain ip1 where c: "fat32_cursor_to_offset sb ip off = Some (sb, ip1, ?k + 1, cs ! ?k, ?s, 0)" "idx_upd ip (idx_at ip) ip1"
    using cursor_inside [OF assms(1,2,7)] O(3) by auto
  obtain q where q: "n = q * sector_size sb" using assms(5) by (metis mod_0_imp_dvd dvd_mult_div_cancel mult.commute)
  have t: "(n + sector_size sb - 1) div sector_size sb = n div sector_size sb"
  proof -
    have "n + sector_size sb - 1 = (sector_size sb - 1) + q * sector_size sb" using S(2) q by simp
    then show ?thesis using S(2) q by (simp only: div_mult_self1) simp
  qed
  obtain ip' vs where r: "get_block_loop (Suc (n div sector_size sb)) False (n div sector_size sb) sb ip1 (?k + 1) (cs ! ?k) ?s 0 [] =
      Some (sb, ip', vs, min (n div sector_size sb) (length (drop ?s (file_sectors sb (drop ?k cs)))))"
    "blocks_of vs = take (n div sector_size sb) (drop ?s (file_sectors sb (drop ?k cs)))" "idx_upd ip1 (idx_at ip1) ip'"
    using get_block_read [OF assms(1) F(2,3) idx_lists_upd [OF F(1) c(2)], of "?k + 1" "cs ! ?k" ?s "[]" "n div sector_size sb" 0 "Suc (n div sector_size sb)"]
      assms(7) O(2) by (auto simp: blocks_of_def)
  have d: "drop ?s (file_sectors sb (drop ?k cs)) = drop (off div sector_size sb) (file_sectors sb cs)"
    unfolding O(1) file_sectors_drop [symmetric] by (simp add: add.commute)
  have "fat32_get_block sb ip off n False = Some (sb, ip', vs, length (blocks_of vs))"
    using c(1) r(1,2) assms(3,5,6) t by (simp add: fat32_get_block_def min.commute)
  moreover have "file_ok sb ip' cs"
    using assms(2) idx_updD [OF c(2)] idx_updD [OF r(3)] by (simp add: file_ok_def)
  ultimately show ?thesis using r(2) d by auto
qed

text \<open>C19. Mapping a range of a file to disk blocks without allocation: for a range that starts inside the file, the vectors
  \<open>fat32_get_block\<close> collects name exactly the blocks of the file's clusters from that offset on, in order, adjacent
  clusters merged, cut at the requested length or at the end of the file, and the result is their number.  Nothing is
  allocated.\<close>

theorem fat32_get_block_correct:
  assumes "volume_ok sb" "file_ok sb ip cs" "off mod 4096 = 0" "off mod sector_size sb = 0" "n mod sector_size sb = 0" "0 < n"
    "LOGISTIC_C_NUM sb off < length cs"
  shows "\<exists>ip' vs. fat32_get_block sb ip off n False = Some (sb, ip', vs, length (blocks_of vs)) \<and> file_ok sb ip' cs \<and>
    blocks_of vs = take (n div sector_size sb) (drop (off div sector_size sb) (file_sectors sb cs))"
  by (rule get_block_inside [OF assms])

end
