(* ===== verification/FatMount.thy ===== *)
theory FatMount
  imports Fat
begin

text \<open>
  Mounting a FAT32 volume and writing its FAT back (\<open>src/fs/fat32/fat32_disk.c\<close>): the parsers of the boot sector and of
  the FSInfo sector, the FAT and bitmap in memory after \<open>fat32_fat_bitmap_init\<close>, and
  \<open>fat32_fat_bitmap_writeback\<close>.

  The nested loops of the source are shown to be one walk over the clusters in order; what the bitmap holds afterwards
  follows from that.
\<close>

subsection \<open>Boot sector and FSInfo\<close>

record fat_bpb_t =
  BytsPerSec :: "16 word"
  SecPerClus :: "8 word"
  RsvdSecCnt :: "16 word"
  NumFATs :: "8 word"
  TotSec32 :: "32 word"
  FATSz32 :: "32 word"

record fsinfo_t =
  Free_Count :: "32 word"
  Nxt_Free :: "32 word"

definition fat32_fsinfo_parser :: "fatfs \<Rightarrow> fsinfo_t \<Rightarrow> fatfs" where
  "fat32_fsinfo_parser sb fsinfo = sb\<lparr>free_count := Free_Count fsinfo, nxt_free := unat (Nxt_Free fsinfo), hint_valid := False\<rparr>"

definition fat32_boot_sector_parser :: "fatfs \<Rightarrow> fat_bpb_t \<Rightarrow> fatfs" where
  "fat32_boot_sector_parser sb bpb = sb\<lparr>
     sector_size := unat (BytsPerSec bpb), n_sectors := unat (TotSec32 bpb), sectors_per_block := unat (SecPerClus bpb),
     fatbase := unat (RsvdSecCnt bpb), n_fats := unat (NumFATs bpb), n_sectors_fat := unat (FATSz32 bpb)\<rparr>"

text \<open>Both tables start as zeroed pages; \<open>n\<close> is the number of pages.\<close>

definition DIV_ROUND_UP :: "nat \<Rightarrow> nat \<Rightarrow> nat" where "DIV_ROUND_UP n d = (n + d - 1) div d"

definition fat32_fs_mount :: "fat_bpb_t \<Rightarrow> fsinfo_t \<Rightarrow> (nat \<Rightarrow> nat \<Rightarrow> FAT_entry_t) \<Rightarrow> fatfs \<Rightarrow> fatfs option" where
  "fat32_fs_mount bpb fsinfo dev sb = do {
     let sb = fat32_fsinfo_parser (fat32_boot_sector_parser sb bpb) fsinfo;
     let n = DIV_ROUND_UP (FAT_CLUSTER_MAX sb div 8) 4096;
     let sb = sb\<lparr>bit_map := replicate (n * 4096 div 8) 0\<rparr>;
     let n = DIV_ROUND_UP (FAT_CLUSTER_MAX sb * 4) 4096;
     let sb = sb\<lparr>fat_table := replicate (n * 4096 div 4) 0\<rparr>;
     fat32_fat_bitmap_init dev sb }"

definition fat32_update_fsinfo :: "fatfs \<Rightarrow> fsinfo_t \<times> fsinfo_t \<Rightarrow> fatfs \<times> fsinfo_t \<times> fsinfo_t" where
  "fat32_update_fsinfo sb sectors =
     (if \<not> fs_dirty sb then (sb, sectors)
      else case sectors of (fsinfo, backup) \<Rightarrow>
        (sb\<lparr>fs_dirty := False\<rparr>, fsinfo\<lparr>Free_Count := free_count sb, Nxt_Free := word_of_nat (nxt_free sb)\<rparr>,
         backup\<lparr>Free_Count := free_count sb, Nxt_Free := word_of_nat (nxt_free sb)\<rparr>))"

subsection \<open>Writing the FAT back\<close>

function writeback_sector :: "nat \<Rightarrow> nat \<Rightarrow> FAT_entry_t list \<Rightarrow> nat \<Rightarrow> nat \<Rightarrow> (nat \<Rightarrow> FAT_entry_t) \<Rightarrow>
    (nat \<Rightarrow> FAT_entry_t) + (nat \<times> (nat \<Rightarrow> FAT_entry_t))" where
  "writeback_sector mx per tbl s c fats =
     (if s < per then
        let fats' = fats(s := tbl ! c)
        in if c + 1 > mx then Inl fats' else writeback_sector mx per tbl (s + 1) (c + 1) fats'
      else Inr (c, fats))"
  by pat_completeness auto
termination by (relation "measure (\<lambda>(mx, per, tbl, s, c, fats). per - s)") auto

declare writeback_sector.simps [simp del]

partial_function (option) writeback_loop :: "nat \<Rightarrow> nat \<Rightarrow> FAT_entry_t list \<Rightarrow> nat \<Rightarrow> nat \<Rightarrow> (nat \<Rightarrow> nat \<Rightarrow> FAT_entry_t) \<Rightarrow>
    (nat \<Rightarrow> nat \<Rightarrow> FAT_entry_t) option" where
  "writeback_loop mx per tbl sec c dev =
     (if c < mx then
        (case writeback_sector mx per tbl 0 c (dev sec) of
           Inl fats \<Rightarrow> Some (dev(sec := fats))
         | Inr (c, fats) \<Rightarrow> writeback_loop mx per tbl (sec + 1) c (dev(sec := fats)))
      else None)"

definition fat32_fat_bitmap_writeback :: "fatfs \<Rightarrow> (nat \<Rightarrow> nat \<Rightarrow> FAT_entry_t) \<Rightarrow> (nat \<Rightarrow> nat \<Rightarrow> FAT_entry_t) option" where
  "fat32_fat_bitmap_writeback sb dev = do {
     ASSERT (FAT_CLUSTER_MAX sb < length (fat_table sb));
     writeback_loop (FAT_CLUSTER_MAX sb) (FAT_PER_SECTOR sb) (fat_table sb) (fatbase sb) 0 dev }"

subsection \<open>The bits two positions share\<close>

lemma bit_one_shl: "bit (one_shl p) n \<longleftrightarrow> (if p mod 32 = 31 then 31 \<le> n \<and> n < 64 else n = p mod 32)"
proof -
  have "bit (push_bit (p mod 32) (1 :: 32 word)) k \<longleftrightarrow> k = p mod 32" for k
    using mod_less_divisor [of 32 p] by (auto simp: bit_push_bit_iff bit_1_iff simp del: push_bit_of_1)
  then show ?thesis
    using mod_less_divisor [of 32 p] by (auto simp: one_shl_def bit_signed_iff min_def not_le simp del: push_bit_of_1)
qed

lemma one_shl_cong: "p mod 32 = q mod 32 \<Longrightarrow> one_shl p = one_shl q"
  by (simp add: one_shl_def)

lemma one_shl_nonzero: "one_shl p \<noteq> 0"
proof
  assume "one_shl p = 0"
  then have "\<not> bit (one_shl p) (p mod 32)" by simp
  then show False by (simp add: bit_one_shl split: if_splits)
qed

lemma one_shl_disjoint: "p mod 32 \<noteq> q mod 32 \<Longrightarrow> one_shl p AND one_shl q = 0"
  using mod_less_divisor [of 32 p] mod_less_divisor [of 32 q] by (intro bit_eqI) (auto simp: bit_and_iff bit_one_shl split: if_splits)

lemma TEST_SET: "TEST_BIT (SET_BIT m p) q \<longleftrightarrow> p mod 32 = q mod 32 \<or> TEST_BIT m q"
proof (cases "p mod 32 = q mod 32")
  case True
  have "(m OR one_shl q) AND one_shl q = one_shl q" by (intro bit_eqI) (auto simp: bit_and_iff bit_or_iff)
  then show ?thesis using True one_shl_cong [OF True] one_shl_nonzero by (simp add: TEST_BIT_def SET_BIT_def)
next
  case False
  have "(m OR one_shl p) AND one_shl q = m AND one_shl q"
    using one_shl_disjoint [OF False] by (simp add: bit.conj_disj_distrib2)
  then show ?thesis using False by (simp add: TEST_BIT_def SET_BIT_def)
qed

lemma TEST_CLEAR: "TEST_BIT (CLEAR_BIT m p) q \<longleftrightarrow> p mod 32 \<noteq> q mod 32 \<and> TEST_BIT m q"
proof (cases "p mod 32 = q mod 32")
  case True
  have "(m AND NOT (one_shl q)) AND one_shl q = 0" by (intro bit_eqI) (auto simp: bit_and_iff bit_not_iff)
  then show ?thesis using True one_shl_cong [OF True] by (simp add: TEST_BIT_def CLEAR_BIT_def)
next
  case False
  have "NOT (one_shl p) AND one_shl q = one_shl q"
    using one_shl_disjoint [OF False] by (intro bit_eqI) (auto simp: bit_and_iff bit_not_iff bit_eq_iff)
  then show ?thesis using False by (simp add: TEST_BIT_def CLEAR_BIT_def and.assoc)
qed

subsection \<open>One walk over the clusters\<close>

definition init_step :: "FAT_entry_t \<Rightarrow> nat \<Rightarrow> uint64 \<times> uint64 list \<times> FAT_entry_t list \<Rightarrow> uint64 \<times> uint64 list \<times> FAT_entry_t list" where
  "init_step e c st = (case st of (mini, bm, tbl) \<Rightarrow>
     let mini' = (if e \<noteq> FREE_MASK then SET_BIT mini (c mod MAP_BITS) else CLEAR_BIT mini (c mod MAP_BITS))
     in (mini', if c mod MAP_BITS + 1 = MAP_BITS then bm[c div MAP_BITS := mini'] else bm, if e \<noteq> FREE_MASK then tbl[c := e] else tbl))"

definition init_last :: "nat \<Rightarrow> uint64 \<times> uint64 list \<times> FAT_entry_t list \<Rightarrow> uint64 list \<times> FAT_entry_t list" where
  "init_last mx st = (case st of (mini, bm, tbl) \<Rightarrow> (bm[mx div MAP_BITS := mini], tbl))"

lemma init_sector_walk:
  assumes "s \<le> per" "c \<le> mx"
  shows "bitmap_init_sector mx per fats s c mini bm tbl =
    (let st = fold (\<lambda>x. init_step (fats (x + s - c)) x) [c ..< min (mx + 1) (c + per - s)] (mini, bm, tbl)
     in if mx < c + per - s then Inl (init_last mx st) else Inr (c + per - s, st))"
  using assms
proof (induction mx per fats s c mini bm tbl rule: bitmap_init_sector.induct)
  case (1 mx per fats s c mini bm tbl)
  show ?case
  proof (cases "s < per")
    case False
    then show ?thesis using 1(2,3) by (subst bitmap_init_sector.simps) simp
  next
    case True
    define m where "m = (if fats s \<noteq> FREE_MASK then SET_BIT mini (c mod MAP_BITS) else CLEAR_BIT mini (c mod MAP_BITS))"
    define b where "b = (if c mod MAP_BITS + 1 = MAP_BITS then bm[c div MAP_BITS := m] else bm)"
    define t where "t = (if fats s \<noteq> FREE_MASK then tbl[c := fats s] else tbl)"
    have st: "init_step (fats s) c (mini, bm, tbl) = (m, b, t)" by (simp add: init_step_def m_def b_def t_def Let_def)
    have u: "[c ..< min (mx + 1) (c + per - s)] = c # [Suc c ..< min (mx + 1) (c + per - s)]"
      using True 1(3) by (intro upt_conv_Cons) simp
    show ?thesis
    proof (cases "mx < c + 1")
      case last: True
      then have e: "[Suc c ..< min (mx + 1) (c + per - s)] = []" "mx = c" "mx < c + per - s" using True 1(3) by auto
      have "bitmap_init_sector mx per fats s c mini bm tbl = Inl (b[c div MAP_BITS := m], t)"
        using True last by (subst bitmap_init_sector.simps) (simp add: Let_def m_def b_def t_def)
      then show ?thesis unfolding u e(1) using st e(2,3) by (simp add: init_last_def)
    next
      case False
      have "bitmap_init_sector mx per fats s c mini bm tbl = bitmap_init_sector mx per fats (s + 1) (c + 1) m b t"
        using True False by (subst bitmap_init_sector.simps) (simp add: Let_def m_def b_def t_def)
      also have "\<dots> = (let st = fold (\<lambda>x. init_step (fats (x + (s + 1) - (c + 1))) x) [c + 1 ..< min (mx + 1) (c + 1 + per - (s + 1))] (m, b, t)
          in if mx < c + 1 + per - (s + 1) then Inl (init_last mx st) else Inr (c + 1 + per - (s + 1), st))"
        by (rule 1(1) [OF True refl refl m_def t_def refl b_def]) (use True False in simp_all)
      finally show ?thesis unfolding u using st by (simp add: Let_def)
    qed
  qed
qed

definition fat_ent :: "(nat \<Rightarrow> nat \<Rightarrow> FAT_entry_t) \<Rightarrow> nat \<Rightarrow> nat \<Rightarrow> nat \<Rightarrow> FAT_entry_t" where
  "fat_ent dev base per c = dev (base + c div per) (c mod per)"

lemma fat_ent_sector: "k < per \<Longrightarrow> fat_ent dev base per (q * per + k) = dev (base + q) k"
  by (simp add: fat_ent_def)

lemma multiple_step:
  fixes q per mx :: nat
  assumes "mx mod per \<noteq> 0" "(q + 1) * per \<le> mx"
  shows "(q + 1) * per < mx"
  using assms by (metis mod_mult_self2_is_0 le_neq_implies_less)

lemma init_loop_walk:
  assumes per: "0 < per" and m: "mx mod per \<noteq> 0"
  shows "q * per < mx \<Longrightarrow> bitmap_init_loop mx per dev (base + q) (q * per) mini bm tbl =
    Some (init_last mx (fold (\<lambda>x. init_step (fat_ent dev base per x) x) [q * per ..< mx + 1] (mini, bm, tbl)))"
proof (induction "mx - q * per" arbitrary: q mini bm tbl rule: less_induct)
  case less
  let ?c = "q * per" and ?f = "\<lambda>x. init_step (fat_ent dev base per x) x"
  have cong: "fold (\<lambda>x. init_step (dev (base + q) (x + 0 - ?c)) x) [?c ..< n] st = fold ?f [?c ..< n] st" if "n \<le> ?c + per" for n st
  proof (rule fold_cong [OF refl refl])
    fix x
    assume "x \<in> set [?c ..< n]"
    then have "?c \<le> x" "x - ?c < per" using that by auto
    then show "init_step (dev (base + q) (x + 0 - ?c)) x = init_step (fat_ent dev base per x) x"
      using fat_ent_sector [of "x - ?c" per dev base q] by simp
  qed
  note sec = init_sector_walk [of 0 per ?c mx "dev (base + q)" mini bm tbl, OF _ less_imp_le [OF less.prems], simplified Let_def, unfolded cong [OF min.cobounded2]]
  show ?case
  proof (cases "mx < ?c + per")
    case True
    then have "min (mx + 1) (?c + per) = mx + 1" by simp
    then show ?thesis using less.prems sec True cong [of "mx + 1"] by (subst bitmap_init_loop.simps) simp
  next
    case False
    have n: "(q + 1) * per < mx" by (rule multiple_step [OF m]) (use False in simp)
    obtain m' b' t' where st: "fold ?f [?c ..< ?c + per] (mini, bm, tbl) = (m', b', t')" by (cases "fold ?f [?c ..< ?c + per] (mini, bm, tbl)")
    have u: "[?c ..< mx + 1] = [?c ..< ?c + per] @ [?c + per ..< mx + 1]"
      using False by (metis le_add1 le_Suc_ex not_less trans_le_add1 upt_add_eq_append)
    have "bitmap_init_loop mx per dev (base + q) ?c mini bm tbl = bitmap_init_loop mx per dev (base + (q + 1)) ((q + 1) * per) m' b' t'"
      using less.prems sec False cong [of "?c + per"] st by (subst bitmap_init_loop.simps) (simp add: add.commute)
    also have "\<dots> = Some (init_last mx (fold ?f [(q + 1) * per ..< mx + 1] (m', b', t')))"
      by (rule less.hyps) (use n less.prems per in auto)
    finally show ?thesis unfolding u using st by (simp add: add.commute)
  qed
qed

subsection \<open>What the walk leaves in memory\<close>

text \<open>The cluster whose FAT entry decides the mark of \<open>c\<close> when the clusters below \<open>n\<close> have been seen: the last one with the
  same position modulo 32 in the same word.\<close>

definition deciding :: "nat \<Rightarrow> nat \<Rightarrow> nat" where
  "deciding n c = (if c mod MAP_BITS < 32 \<and> c + 32 < n then c + 32 else c)"

definition walked :: "(nat \<Rightarrow> FAT_entry_t) \<Rightarrow> FAT_entry_t list \<Rightarrow> nat \<Rightarrow> uint64 \<times> uint64 list \<times> FAT_entry_t list \<Rightarrow> bool" where
  "walked ent tbl0 n st \<longleftrightarrow> (case st of (mini, bm, tbl) \<Rightarrow>
     (\<forall>c<n. c div MAP_BITS < n div MAP_BITS \<longrightarrow> marked bm c = (ent (deciding n c) \<noteq> FREE_MASK)) \<and>
     (\<forall>c<n. c div MAP_BITS = (n - 1) div MAP_BITS \<longrightarrow> TEST_BIT mini (c mod MAP_BITS) = (ent (deciding n c) \<noteq> FREE_MASK)) \<and>
     tbl = List.map (\<lambda>c. if c < n \<and> ent c \<noteq> FREE_MASK then ent c else tbl0 ! c) [0 ..< length tbl0])"

lemma same_word:
  assumes "c < n" "c div MAP_BITS = n div MAP_BITS"
  shows "c div MAP_BITS = (n - 1) div MAP_BITS"
  using assms div_le_mono [of c "n - 1" MAP_BITS] div_le_mono [of "n - 1" n MAP_BITS] by simp

lemma deciding_Suc:
  assumes "c < n"
  shows "deciding (Suc n) c = (if c div MAP_BITS = n div MAP_BITS \<and> c mod 32 = n mod 32 then n else deciding n c)"
proof -
  have "c div 64 = (c + 32) div 64 \<and> c mod 32 = (c + 32) mod 32" if "c mod 64 < 32"
    using that by (simp add: div_add1_eq [of c 32])
  moreover have "n = c + 32 \<and> c mod 64 < 32" if w: "c div 64 = n div 64" "c mod 32 = n mod 32"
  proof -
    define a where "a = c div 64"
    have cn: "c = 64 * a + c mod 64" "n = 64 * a + n mod 64" "c mod 64 < 64" "n mod 64 < 64" using w(1) mult_div_mod_eq [of 64 c] mult_div_mod_eq [of 64 n] unfolding a_def by simp_all
    have "c mod 64 mod 32 = n mod 64 mod 32" using w(2) by (simp add: mod_mod_cancel)
    moreover have "x mod 32 = (if x < 32 then x else x - 32)" if "x < 64" for x :: nat
      using that by (simp add: le_mod_geq)
    ultimately have "n mod 64 = c mod 64 + 32" "c mod 64 < 32" using cn assms by (auto split: if_splits)
    then show ?thesis using cn by linarith
  qed
  ultimately have "n = c + 32 \<and> c mod 64 < 32 \<longleftrightarrow> c div 64 = n div 64 \<and> c mod 32 = n mod 32" by blast
  then have e: "(c div MAP_BITS = n div MAP_BITS \<and> c mod 32 = n mod 32) = (n = c + 32 \<and> c mod MAP_BITS < 32)" by (simp add: MAP_BITS_def)
  show ?thesis unfolding e deciding_def by auto
qed

lemma mod_MAP_BITS_32: "c mod MAP_BITS mod 32 = c mod 32"
  by (simp add: MAP_BITS_def mod_mod_cancel)

lemma walked_step:
  assumes w: "walked ent tbl0 n (mini, bm, tbl)" and b: "n div MAP_BITS < length bm"
  shows "walked ent tbl0 (Suc n) (init_step (ent n) n (mini, bm, tbl))"
proof -
  define m where "m = (if ent n \<noteq> FREE_MASK then SET_BIT mini (n mod MAP_BITS) else CLEAR_BIT mini (n mod MAP_BITS))"
  define b' where "b' = (if n mod MAP_BITS + 1 = MAP_BITS then bm[n div MAP_BITS := m] else bm)"
  have W: "c < n \<Longrightarrow> c div MAP_BITS < n div MAP_BITS \<Longrightarrow> marked bm c = (ent (deciding n c) \<noteq> FREE_MASK)"
    "c < n \<Longrightarrow> c div MAP_BITS = (n - 1) div MAP_BITS \<Longrightarrow> TEST_BIT mini (c mod MAP_BITS) = (ent (deciding n c) \<noteq> FREE_MASK)" for c
    using w by (auto simp: walked_def)
  have tm: "TEST_BIT m (c mod MAP_BITS) = (if c mod 32 = n mod 32 then ent n \<noteq> FREE_MASK else TEST_BIT mini (c mod MAP_BITS))" for c
    by (auto simp: m_def TEST_SET TEST_CLEAR mod_MAP_BITS_32)
  have mini: "TEST_BIT m (c mod MAP_BITS) = (ent (deciding (Suc n) c) \<noteq> FREE_MASK)" if "c < Suc n" "c div MAP_BITS = n div MAP_BITS" for c
  proof (cases "c = n")
    case True
    then show ?thesis using tm [of n] by (simp add: deciding_def)
  next
    case False
    then have "c < n" using that(1) by simp
    then show ?thesis using W(2) [OF _ same_word [OF _ that(2)]] tm [of c] that(2) by (simp add: deciding_Suc)
  qed
  have full: "Suc n div MAP_BITS = (if n mod MAP_BITS + 1 = MAP_BITS then Suc (n div MAP_BITS) else n div MAP_BITS)"
    by (simp add: div_Suc mod_Suc)
  have "marked b' c = (ent (deciding (Suc n) c) \<noteq> FREE_MASK)" if "c < Suc n" "c div MAP_BITS < Suc n div MAP_BITS" for c
  proof (cases "c div MAP_BITS = n div MAP_BITS")
    case True
    then have "n mod MAP_BITS + 1 = MAP_BITS" using that(2) full by (auto split: if_splits)
    then show ?thesis using mini [OF that(1) True] b True by (simp add: marked_def b'_def)
  next
    case False
    then have "c < n" "c div MAP_BITS < n div MAP_BITS" using that div_le_mono [of c n MAP_BITS] by (auto simp: less_Suc_eq)
    then show ?thesis using W(1) [of c] False by (simp add: marked_def b'_def deciding_Suc)
  qed
  moreover have "(if ent n \<noteq> FREE_MASK then tbl[n := ent n] else tbl) =
      List.map (\<lambda>c. if c < Suc n \<and> ent c \<noteq> FREE_MASK then ent c else tbl0 ! c) [0 ..< length tbl0]"
  proof (rule nth_equalityI, goal_cases)
    case (2 i)
    then show ?case using w by (cases "i = n") (auto simp: walked_def less_Suc_eq split: if_splits)
  qed (use w in \<open>simp add: walked_def\<close>)
  moreover have "init_step (ent n) n (mini, bm, tbl) = (m, b', if ent n \<noteq> FREE_MASK then tbl[n := ent n] else tbl)"
    by (simp add: init_step_def Let_def m_def b'_def)
  ultimately show ?thesis using mini by (simp only: walked_def prod.case diff_Suc_1) blast
qed

lemma init_step_length: "init_step e c (mini, bm, tbl) = (mini', bm', tbl') \<Longrightarrow> length bm' = length bm"
  by (auto simp: init_step_def Let_def)

lemma walked_fold:
  assumes "n \<le> mx + 1" "mx div MAP_BITS < length bm0"
  shows "\<exists>mini bm tbl. fold (\<lambda>x. init_step (ent x) x) [0 ..< n] (0, bm0, tbl0) = (mini, bm, tbl) \<and>
    walked ent tbl0 n (mini, bm, tbl) \<and> length bm = length bm0"
  using assms(1)
proof (induction n)
  case 0
  have "tbl0 = List.map (\<lambda>c. tbl0 ! c) [0 ..< length tbl0]" by (simp add: map_nth)
  then show ?case by (simp add: walked_def)
next
  case (Suc n)
  then obtain mini bm tbl where i: "fold (\<lambda>x. init_step (ent x) x) [0 ..< n] (0, bm0, tbl0) = (mini, bm, tbl)"
    "walked ent tbl0 n (mini, bm, tbl)" "length bm = length bm0" by auto
  obtain m' b' t' where st: "init_step (ent n) n (mini, bm, tbl) = (m', b', t')" by (cases "init_step (ent n) n (mini, bm, tbl)")
  have "n div MAP_BITS < length bm" using Suc.prems assms(2) i(3) div_le_mono [of n mx MAP_BITS] by simp
  from walked_step [OF i(2) this] show ?case using i(1,3) st init_step_length [OF st] by simp
qed

text \<open>The geometry for which the loops reach their return: the last cluster number is not a multiple of the entries of a sector.\<close>

definition fat_geometry :: "fatfs \<Rightarrow> bool" where
  "fat_geometry sb \<longleftrightarrow> 0 < FAT_PER_SECTOR sb \<and> FAT_CLUSTER_MAX sb mod FAT_PER_SECTOR sb \<noteq> 0 \<and>
     FAT_CLUSTER_MAX sb div MAP_BITS < length (bit_map sb) \<and> FAT_CLUSTER_MAX sb < length (fat_table sb)"

definition sb_ent :: "(nat \<Rightarrow> nat \<Rightarrow> FAT_entry_t) \<Rightarrow> fatfs \<Rightarrow> nat \<Rightarrow> FAT_entry_t" where
  "sb_ent dev sb c = fat_ent dev (fatbase sb) (FAT_PER_SECTOR sb) c"

lemma bitmap_init_memory:
  assumes g: "fat_geometry sb"
  shows "\<exists>bm tbl. fat32_fat_bitmap_init dev sb = Some (sb\<lparr>bit_map := bm, fat_table := tbl\<rparr>) \<and> length bm = length (bit_map sb) \<and>
    (\<forall>c\<le>FAT_CLUSTER_MAX sb. marked bm c = (sb_ent dev sb (deciding (FAT_CLUSTER_MAX sb + 1) c) \<noteq> FREE_MASK)) \<and>
    tbl = List.map (\<lambda>c. if c \<le> FAT_CLUSTER_MAX sb \<and> sb_ent dev sb c \<noteq> FREE_MASK then sb_ent dev sb c else fat_table sb ! c)
      [0 ..< length (fat_table sb)]"
proof -
  let ?mx = "FAT_CLUSTER_MAX sb"
  have G: "0 < FAT_PER_SECTOR sb" "?mx mod FAT_PER_SECTOR sb \<noteq> 0" "?mx div MAP_BITS < length (bit_map sb)" "?mx < length (fat_table sb)"
    using g by (simp_all add: fat_geometry_def)
  obtain mini bm tbl where f: "fold (\<lambda>x. init_step (sb_ent dev sb x) x) [0 ..< ?mx + 1] (0, bit_map sb, fat_table sb) = (mini, bm, tbl)"
    "walked (sb_ent dev sb) (fat_table sb) (?mx + 1) (mini, bm, tbl)" "length bm = length (bit_map sb)"
    using walked_fold [of "?mx + 1" ?mx, OF _ G(3)] by blast
  have pos: "0 < ?mx" using G(2) by (cases "?mx") auto
  have i: "fat32_fat_bitmap_init dev sb = Some (sb\<lparr>bit_map := bm[?mx div MAP_BITS := mini], fat_table := tbl\<rparr>)"
    using init_loop_walk [OF G(1,2), of 0 dev "fatbase sb" 0 "bit_map sb" "fat_table sb"] pos f(1) G(3,4)
    by (simp add: fat32_fat_bitmap_init_def sb_ent_def init_last_def)
  have "marked (bm[?mx div MAP_BITS := mini]) c = (sb_ent dev sb (deciding (?mx + 1) c) \<noteq> FREE_MASK)" if "c \<le> ?mx" for c
  proof (cases "c div MAP_BITS = ?mx div MAP_BITS")
    case True
    then show ?thesis using f(2,3) G(3) that by (simp add: walked_def marked_def)
  next
    case False
    then have "c div MAP_BITS < ?mx div MAP_BITS" using div_le_mono [OF that, of MAP_BITS] by simp
    moreover have "c div MAP_BITS < (?mx + 1) div MAP_BITS" by (rule less_le_trans [OF calculation div_le_mono]) simp
    ultimately show ?thesis using f(2) that by (simp add: walked_def marked_def)
  qed
  moreover have "tbl = List.map (\<lambda>c. if c \<le> ?mx \<and> sb_ent dev sb c \<noteq> FREE_MASK then sb_ent dev sb c else fat_table sb ! c) [0 ..< length (fat_table sb)]"
    using f(2) by (simp add: walked_def less_Suc_eq_le)
  ultimately show ?thesis using i f(3) by (intro exI) auto
qed

text \<open>Mounting: on a volume whose last cluster number is not a multiple of the entries of a sector, the FAT in memory holds
  every entry in use of the FAT on disk.  A cluster in the lower half of a word of the bitmap is marked according to
  the entry 32 clusters above, where there is one: it takes the mark that cluster leaves, and its own is lost.\<close>

theorem fat32_mount_memory:
  assumes "fat_geometry sb"
  shows "\<exists>bm tbl. fat32_fat_bitmap_init dev sb = Some (sb\<lparr>bit_map := bm, fat_table := tbl\<rparr>) \<and>
    (\<forall>c\<le>FAT_CLUSTER_MAX sb. tbl ! c = (if sb_ent dev sb c \<noteq> FREE_MASK then sb_ent dev sb c else fat_table sb ! c)) \<and>
    (\<forall>c\<le>FAT_CLUSTER_MAX sb. marked bm c =
       (sb_ent dev sb (if c mod 64 < 32 \<and> c + 32 \<le> FAT_CLUSTER_MAX sb then c + 32 else c) \<noteq> FREE_MASK))"
proof -
  obtain bm tbl where i: "fat32_fat_bitmap_init dev sb = Some (sb\<lparr>bit_map := bm, fat_table := tbl\<rparr>)"
    "\<forall>c\<le>FAT_CLUSTER_MAX sb. marked bm c = (sb_ent dev sb (deciding (FAT_CLUSTER_MAX sb + 1) c) \<noteq> FREE_MASK)"
    "tbl = List.map (\<lambda>c. if c \<le> FAT_CLUSTER_MAX sb \<and> sb_ent dev sb c \<noteq> FREE_MASK then sb_ent dev sb c else fat_table sb ! c)
      [0 ..< length (fat_table sb)]"
    using bitmap_init_memory [OF assms, of dev] by (elim exE conjE) (rule that)
  have "tbl ! c = (if sb_ent dev sb c \<noteq> FREE_MASK then sb_ent dev sb c else fat_table sb ! c)" if "c \<le> FAT_CLUSTER_MAX sb" for c
    using that assms i(3) by (simp add: fat_geometry_def)
  moreover have "deciding (FAT_CLUSTER_MAX sb + 1) c = (if c mod 64 < 32 \<and> c + 32 \<le> FAT_CLUSTER_MAX sb then c + 32 else c)" for c
    by (simp add: deciding_def MAP_BITS_def less_Suc_eq_le)
  ultimately show ?thesis using i(1,2) by (intro exI [of _ bm] exI [of _ tbl] conjI) (blast, simp_all)
qed

text \<open>The consequence: a cluster in use whose partner 32 above is free is the first one the allocation offers after mounting,
  when the search starts there, and its data is overwritten.\<close>

theorem mount_offers_used_cluster:
  assumes "fat_geometry sb" "sb_ent dev sb c \<noteq> FREE_MASK" "sb_ent dev sb (c + 32) = FREE_MASK" "c mod 64 < 32" "c + 32 \<le> FAT_CLUSTER_MAX sb"
  shows "\<exists>sb' sb''. fat32_fat_bitmap_init dev sb = Some sb' \<and> fat_table sb' ! c \<noteq> FREE_MASK \<and> fat32_bitmap_alloc sb' c = Some (sb'', c)"
proof -
  obtain bm tbl where i: "fat32_fat_bitmap_init dev sb = Some (sb\<lparr>bit_map := bm, fat_table := tbl\<rparr>)" "length bm = length (bit_map sb)"
    "\<forall>c\<le>FAT_CLUSTER_MAX sb. marked bm c = (sb_ent dev sb (deciding (FAT_CLUSTER_MAX sb + 1) c) \<noteq> FREE_MASK)"
    "tbl = List.map (\<lambda>c. if c \<le> FAT_CLUSTER_MAX sb \<and> sb_ent dev sb c \<noteq> FREE_MASK then sb_ent dev sb c else fat_table sb ! c)
      [0 ..< length (fat_table sb)]"
    using bitmap_init_memory [OF assms(1), of dev] by (elim exE conjE) (rule that)
  have c: "c < FAT_CLUSTER_MAX sb" using assms(5) by simp
  have "\<not> marked bm c" using i(3) c assms(3-5) by (simp add: deciding_def MAP_BITS_def)
  moreover have "[c ..< FAT_CLUSTER_MAX sb] = c # [Suc c ..< FAT_CLUSTER_MAX sb]" using c by (rule upt_conv_Cons)
  ultimately have "find (\<lambda>x. \<not> marked bm x) (candidates (FAT_CLUSTER_MAX sb) c) = Some c" using c by (simp add: candidates_def)
  then have "\<exists>sb''. fat32_bitmap_alloc (sb\<lparr>bit_map := bm, fat_table := tbl\<rparr>) c = Some (sb'', c)"
    using assms(1) i(2) by (subst bitmap_alloc_find) (simp_all add: fat_geometry_def)
  moreover have "tbl ! c \<noteq> FREE_MASK" using i(4) c assms(1,2) by (simp add: fat_geometry_def)
  ultimately show ?thesis using i(1) by auto
qed

subsection \<open>Geometries that cannot be mounted\<close>

lemma init_loop_panic:
  assumes per: "0 < per" and m: "mx mod per = 0"
  shows "bitmap_init_loop mx per dev sec (q * per) mini bm tbl = None"
proof (induction "mx - q * per" arbitrary: q sec mini bm tbl rule: less_induct)
  case less
  show ?case
  proof (cases "q * per < mx")
    case False
    then show ?thesis by (subst bitmap_init_loop.simps) simp
  next
    case True
    obtain k where k: "mx = k * per" using m by (metis mod_0_imp_dvd dvd_mult_div_cancel mult.commute)
    then have "q < k" using True by simp
    then have "(q + 1) * per \<le> k * per" by (intro mult_le_mono1) simp
    then have "\<not> mx < q * per + per" using k by simp
    then obtain m' b' t' where s: "bitmap_init_sector mx per (dev sec) 0 (q * per) mini bm tbl = Inr ((q + 1) * per, m', b', t')"
      using init_sector_walk [of 0 per "q * per" mx "dev sec" mini bm tbl] True
      by (cases "fold (\<lambda>x. init_step (dev sec (x + 0 - q * per)) x) [q * per ..< min (mx + 1) (q * per + per - 0)] (mini, bm, tbl)")
        (simp add: Let_def add.commute)
    have "bitmap_init_loop mx per dev (sec + 1) ((q + 1) * per) m' b' t' = None" by (rule less) (use True per in auto)
    then show ?thesis using True s by (subst bitmap_init_loop.simps) simp
  qed
qed

text \<open>A volume whose last cluster number is a multiple of the FAT entries of a sector (128, for 512-byte sectors) cannot be
  mounted: the loop ends at the sector boundary before the return inside it and the kernel stops at the call of panic
  marked as unreachable.\<close>

theorem mount_panics_at_sector_boundary:
  assumes "0 < FAT_PER_SECTOR sb" "FAT_CLUSTER_MAX sb mod FAT_PER_SECTOR sb = 0"
  shows "fat32_fat_bitmap_init dev sb = None"
  using init_loop_panic [OF assms, of dev "fatbase sb" 0 0 "bit_map sb" "fat_table sb"] by (simp add: fat32_fat_bitmap_init_def)

subsection \<open>Writing back and mounting again\<close>

lemma writeback_sector_content:
  assumes "s \<le> per" "c \<le> mx"
  shows "writeback_sector mx per tbl s c fats =
    (let f = (\<lambda>k. if s \<le> k \<and> k < per \<and> c + k \<le> mx + s then tbl ! (c + k - s) else fats k)
     in if mx < c + per - s then Inl f else Inr (c + per - s, f))"
  using assms
proof (induction mx per tbl s c fats rule: writeback_sector.induct)
  case (1 mx per tbl s c fats)
  show ?case
  proof (cases "s < per")
    case False
    then show ?thesis using 1(2,3) by (subst writeback_sector.simps) (auto simp: fun_eq_iff)
  next
    case True
    show ?thesis
    proof (cases "mx < c + 1")
      case last: True
      then have "(\<lambda>k. if s \<le> k \<and> k < per \<and> c + k \<le> mx + s then tbl ! (c + k - s) else fats k) = fats(s := tbl ! c)"
        using True 1(3) by (auto simp: fun_eq_iff)
      then show ?thesis using True last by (subst writeback_sector.simps) (simp add: Let_def)
    next
      case False
      have "writeback_sector mx per tbl s c fats = writeback_sector mx per tbl (s + 1) (c + 1) (fats(s := tbl ! c))"
        using True False by (subst writeback_sector.simps) (simp add: Let_def)
      also have "\<dots> = (let f = (\<lambda>k. if s + 1 \<le> k \<and> k < per \<and> c + 1 + k \<le> mx + (s + 1) then tbl ! (c + 1 + k - (s + 1)) else (fats(s := tbl ! c)) k)
          in if mx < c + 1 + per - (s + 1) then Inl f else Inr (c + 1 + per - (s + 1), f))"
        by (rule 1(1) [OF True refl]) (use True False in simp_all)
      also have "(\<lambda>k. if s + 1 \<le> k \<and> k < per \<and> c + 1 + k \<le> mx + (s + 1) then tbl ! (c + 1 + k - (s + 1)) else (fats(s := tbl ! c)) k) =
          (\<lambda>k. if s \<le> k \<and> k < per \<and> c + k \<le> mx + s then tbl ! (c + k - s) else fats k)"
        using True 1(3) by (auto simp: fun_eq_iff)
      finally show ?thesis by (simp add: Let_def)
    qed
  qed
qed

lemma writeback_loop_content:
  assumes per: "0 < per" and m: "mx mod per \<noteq> 0"
  shows "q * per < mx \<Longrightarrow> \<exists>dev'. writeback_loop mx per tbl (base + q) (q * per) dev = Some dev' \<and>
    (\<forall>sec k. dev' sec k = (if base + q \<le> sec \<and> k < per \<and> (sec - base) * per + k \<le> mx then tbl ! ((sec - base) * per + k) else dev sec k))"
proof (induction "mx - q * per" arbitrary: q dev rule: less_induct)
  case less
  define f where "f = (\<lambda>k. if k < per \<and> q * per + k \<le> mx then tbl ! (q * per + k) else dev (base + q) k)"
  have sec: "writeback_sector mx per tbl 0 (q * per) (dev (base + q)) = (if mx < q * per + per then Inl f else Inr (q * per + per, f))"
    using writeback_sector_content [of 0 per "q * per" mx tbl "dev (base + q)"] less.prems by (simp add: f_def Let_def cong: if_cong)
  show ?case
  proof (cases "mx < q * per + per")
    case True
    have "(if base + q \<le> s \<and> k < per \<and> (s - base) * per + k \<le> mx then tbl ! ((s - base) * per + k) else dev s k) = (dev(base + q := f)) s k" for s k
    proof (cases "base + q < s")
      case gt: True
      then have "(q + 1) * per \<le> (s - base) * per" by (intro mult_le_mono1) simp
      then have "mx < (s - base) * per + k" using True by simp
      then show ?thesis using gt by simp
    next
      case False
      then show ?thesis by (cases "s = base + q") (simp_all add: f_def)
    qed
    then show ?thesis using less.prems sec True by (intro exI [of _ "dev(base + q := f)"]) (subst writeback_loop.simps, simp)
  next
    case False
    have n: "(q + 1) * per < mx" by (rule multiple_step [OF m]) (use False in simp)
    have "writeback_loop mx per tbl (base + q) (q * per) dev = writeback_loop mx per tbl (base + (q + 1)) ((q + 1) * per) (dev(base + q := f))"
      using less.prems sec False by (subst writeback_loop.simps) (simp add: add.commute)
    moreover have less: "mx - (q + 1) * per < mx - q * per" using per less.prems by (intro diff_less_mono2) simp_all
    obtain dev' where d: "writeback_loop mx per tbl (base + (q + 1)) ((q + 1) * per) (dev(base + q := f)) = Some dev'"
      "\<forall>sec k. dev' sec k = (if base + (q + 1) \<le> sec \<and> k < per \<and> (sec - base) * per + k \<le> mx then tbl ! ((sec - base) * per + k)
        else (dev(base + q := f)) sec k)"
      using less.hyps [OF less n, of "dev(base + q := f)"] by (elim exE conjE) (rule that)
    moreover have "dev' s k = (if base + q \<le> s \<and> k < per \<and> (s - base) * per + k \<le> mx then tbl ! ((s - base) * per + k) else dev s k)" for s k
      unfolding d(2) [rule_format] by (cases "s = base + q") (auto simp: f_def)
    ultimately show ?thesis by (intro exI [of _ dev']) simp
  qed
qed

text \<open>C28. Writing the FAT back and mounting again: \<open>fat32_fat_bitmap_writeback\<close> stores the FAT in memory into the sectors of the FAT
  and touches nothing else, and a mount from these sectors, with fresh tables, restores exactly the same FAT.\<close>

theorem fat_writeback_mount_roundtrip:
  assumes "fat_geometry sb" "fresh = sb\<lparr>bit_map := replicate (length (bit_map sb)) 0, fat_table := replicate (length (fat_table sb)) 0\<rparr>"
  shows "\<exists>dev' sb'. fat32_fat_bitmap_writeback sb dev = Some dev' \<and> fat32_fat_bitmap_init dev' fresh = Some sb' \<and>
    (\<forall>c\<le>FAT_CLUSTER_MAX sb. fat_table sb' ! c = fat_table sb ! c) \<and>
    (\<forall>sec k. sec < fatbase sb \<or> FAT_CLUSTER_MAX sb < (sec - fatbase sb) * FAT_PER_SECTOR sb + k \<longrightarrow> dev' sec k = dev sec k)"
proof -
  let ?mx = "FAT_CLUSTER_MAX sb" and ?per = "FAT_PER_SECTOR sb" and ?base = "fatbase sb"
  have G: "0 < ?per" "?mx mod ?per \<noteq> 0" "?mx < length (fat_table sb)" using assms(1) by (simp_all add: fat_geometry_def)
  then have "0 < ?mx" by (cases "?mx") auto
  then obtain dev' where d: "fat32_fat_bitmap_writeback sb dev = Some dev'"
    "\<forall>sec k. dev' sec k = (if ?base \<le> sec \<and> k < ?per \<and> (sec - ?base) * ?per + k \<le> ?mx then fat_table sb ! ((sec - ?base) * ?per + k) else dev sec k)"
    using writeback_loop_content [OF G(1,2), of 0 "fat_table sb" ?base dev] G(3) by (auto simp: fat32_fat_bitmap_writeback_def)
  have geo: "FAT_CLUSTER_MAX fresh = ?mx" "FAT_PER_SECTOR fresh = ?per" "fatbase fresh = ?base" by (simp_all add: assms(2) FAT_PER_SECTOR_def)
  have "fat_geometry fresh" using assms by (simp add: fat_geometry_def FAT_PER_SECTOR_def)
  from bitmap_init_memory [OF this, of dev'] obtain bm tbl where
    i: "fat32_fat_bitmap_init dev' fresh = Some (fresh\<lparr>bit_map := bm, fat_table := tbl\<rparr>)"
    "tbl = List.map (\<lambda>c. if c \<le> FAT_CLUSTER_MAX fresh \<and> sb_ent dev' fresh c \<noteq> FREE_MASK then sb_ent dev' fresh c else fat_table fresh ! c)
      [0 ..< length (fat_table fresh)]"
    by (elim exE conjE) (rule that)
  have "tbl ! c = fat_table sb ! c" if "c \<le> ?mx" for c
  proof -
    have "c div ?per * ?per + c mod ?per = c" by (rule div_mult_mod_eq)
    then have "sb_ent dev' fresh c = fat_table sb ! c" using that G(1) d(2) by (simp add: sb_ent_def fat_ent_def geo)
    then show ?thesis using that G(3) by (simp add: i(2) geo) (simp add: assms(2) FREE_MASK_def)
  qed
  moreover have "dev' sec k = dev sec k" if "sec < ?base \<or> ?mx < (sec - ?base) * ?per + k" for sec k using that d(2) by auto
  ultimately show ?thesis using d(1) i(1) by (intro exI [of _ dev'] exI [of _ "fresh\<lparr>bit_map := bm, fat_table := tbl\<rparr>"]) simp
qed

subsection \<open>Concrete instances\<close>

text \<open>A volume of 69 clusters with sectors of 16 bytes, on which only cluster 2 is in use.\<close>

definition demo_fs :: fatfs where
  "demo_fs = \<lparr>sector_size = 16, n_sectors = 90, sectors_per_block = 1, fatbase = 1, n_fats = 1, n_sectors_fat = 20, free_count = 60,
     nxt_free = 3, hint_valid = False, fs_dirty = False, bit_map = replicate 2 0, fat_table = replicate 72 0\<rparr>"

definition demo_fat :: "nat \<Rightarrow> nat \<Rightarrow> FAT_entry_t" where
  "demo_fat sec k = (if sec = 1 \<and> k = 2 then EOC else 0)"

lemma demo_fs_max: "FAT_CLUSTER_MAX demo_fs = 70" "FAT_PER_SECTOR demo_fs = 4"
  by (simp_all add: demo_fs_def FAT_CLUSTER_MAX_def FirstDataSector_def FAT_PER_SECTOR_def)

lemma demo_fs_geometry: "fat_geometry demo_fs"
  by (simp add: fat_geometry_def demo_fs_max MAP_BITS_def) (simp add: demo_fs_def)

lemma demo_fat_entry: "sb_ent demo_fat demo_fs c = (if c = 2 then EOC else 0)"
proof -
  have "c div 4 = 0 \<and> c mod 4 = 2 \<longleftrightarrow> c = 2" by auto
  then show ?thesis by (simp add: sb_ent_def fat_ent_def demo_fs_max demo_fat_def) (simp add: demo_fs_def)
qed

theorem fat32_mount_memory_witness:
  "\<exists>bm tbl. fat32_fat_bitmap_init demo_fat demo_fs = Some (demo_fs\<lparr>bit_map := bm, fat_table := tbl\<rparr>) \<and> tbl ! 2 = EOC \<and> \<not> marked bm 2"
proof -
  obtain bm tbl where "fat32_fat_bitmap_init demo_fat demo_fs = Some (demo_fs\<lparr>bit_map := bm, fat_table := tbl\<rparr>)"
    "\<forall>c\<le>FAT_CLUSTER_MAX demo_fs. tbl ! c = (if sb_ent demo_fat demo_fs c \<noteq> FREE_MASK then sb_ent demo_fat demo_fs c else fat_table demo_fs ! c)"
    "\<forall>c\<le>FAT_CLUSTER_MAX demo_fs. marked bm c =
       (sb_ent demo_fat demo_fs (if c mod 64 < 32 \<and> c + 32 \<le> FAT_CLUSTER_MAX demo_fs then c + 32 else c) \<noteq> FREE_MASK)"
    using fat32_mount_memory [OF demo_fs_geometry, of demo_fat] by (elim exE conjE) (rule that)
  note i = this
  show ?thesis using i(1) i(2) [rule_format, of 2] i(3) [rule_format, of 2] by (auto simp: demo_fs_max demo_fat_entry FREE_MASK_def EOC_def)
qed

theorem mount_offers_used_cluster_witness:
  "\<exists>sb' sb''. fat32_fat_bitmap_init demo_fat demo_fs = Some sb' \<and> fat_table sb' ! 2 \<noteq> FREE_MASK \<and> fat32_bitmap_alloc sb' 2 = Some (sb'', 2)"
  by (rule mount_offers_used_cluster [OF demo_fs_geometry]) (simp_all add: demo_fat_entry demo_fs_max FREE_MASK_def EOC_def)

theorem mount_panics_at_sector_boundary_witness: "fat32_fat_bitmap_init demo_fat (demo_fs\<lparr>n_sectors := 88\<rparr>) = None"
  by (rule mount_panics_at_sector_boundary)
     (simp_all add: demo_fs_def FAT_CLUSTER_MAX_def FirstDataSector_def FAT_PER_SECTOR_def)

theorem fat_writeback_mount_roundtrip_witness:
  "\<exists>dev' sb'. fat32_fat_bitmap_writeback (demo_fs\<lparr>fat_table := (fat_table demo_fs)[2 := EOC]\<rparr>) demo_fat = Some dev' \<and>
    fat32_fat_bitmap_init dev' demo_fs = Some sb' \<and> fat_table sb' ! 2 = EOC \<and> fat_table sb' ! 3 = 0"
proof -
  let ?sb = "demo_fs\<lparr>fat_table := (fat_table demo_fs)[2 := EOC]\<rparr>"
  have "fat_geometry ?sb" using demo_fs_geometry by (simp add: fat_geometry_def FAT_PER_SECTOR_def)
  moreover have "demo_fs = ?sb\<lparr>bit_map := replicate (length (bit_map ?sb)) 0, fat_table := replicate (length (fat_table ?sb)) 0\<rparr>"
    by (simp add: demo_fs_def)
  note pre = calculation this
  obtain dev' sb' where "fat32_fat_bitmap_writeback ?sb demo_fat = Some dev'" "fat32_fat_bitmap_init dev' demo_fs = Some sb'"
    "\<forall>c\<le>FAT_CLUSTER_MAX ?sb. fat_table sb' ! c = fat_table ?sb ! c"
    using fat_writeback_mount_roundtrip [OF pre, of demo_fat] by (elim exE conjE) (rule that)
  then show ?thesis by (simp add: demo_fs_max) (simp add: demo_fs_def)
qed

end
