(* ===== verification/FatFile.thy ===== *)
theory FatFile
  imports FatMount
begin

text \<open>
  Files on the FAT: appending a cluster (the allocating branches of \<open>fat32_cursor_to_offset\<close> and \<open>fat32_get_block\<close>), loading the
  index table of an inode by \<open>fat32_fat_travel\<close>, and \<open>fat32_inode_trunc\<close> (\<open>src/fs/fat32/fat32_inode.c\<close>).
\<close>

subsection \<open>Shared bits\<close>

text \<open>Two clusters share their bit of the bitmap if they lie in the same word at the same position modulo 32.\<close>

definition shares :: "nat \<Rightarrow> nat \<Rightarrow> bool" where
  "shares c d \<longleftrightarrow> c div MAP_BITS = d div MAP_BITS \<and> c mod 32 = d mod 32"

lemma shares_refl [simp]: "shares c c" by (simp add: shares_def)

lemma marked_mark: "c div MAP_BITS < length bm \<Longrightarrow> marked (mark c bm) x \<longleftrightarrow> marked bm x \<or> shares c x"
  by (cases "c div MAP_BITS = x div MAP_BITS") (auto simp: marked_def mark_def shares_def TEST_SET mod_MAP_BITS_32)

lemma marked_clear:
  "c div MAP_BITS < length bm \<Longrightarrow>
    marked (bm[c div MAP_BITS := CLEAR_BIT (bm ! (c div MAP_BITS)) (c mod MAP_BITS)]) x \<longleftrightarrow> marked bm x \<and> \<not> shares c x"
  by (cases "c div MAP_BITS = x div MAP_BITS") (auto simp: marked_def shares_def TEST_CLEAR mod_MAP_BITS_32)

subsection \<open>Chains under updates\<close>

lemma chain_unique:
  assumes "volume_ok sb"
  shows "chain sb c xs \<Longrightarrow> chain sb c ys \<Longrightarrow> xs = ys"
proof (induction xs arbitrary: c ys)
  case Nil
  then show ?case using valid_not_eof(1) [OF assms] by (cases ys) auto
next
  case (Cons x xs)
  then show ?case using valid_not_eof(1) [OF assms] by (cases ys) auto
qed

lemma chain_suffix: "chain sb c (xs @ y # ys) \<Longrightarrow> chain sb y (y # ys)"
  by (induction xs arbitrary: c) auto

lemma chain_distinct:
  assumes v: "volume_ok sb"
  shows "chain sb c cs \<Longrightarrow> distinct cs"
proof (induction cs arbitrary: c)
  case (Cons x cs)
  have "x \<notin> set cs"
  proof
    assume "x \<in> set cs"
    then obtain ys zs where "cs = ys @ x # zs" by (auto simp: in_set_conv_decomp)
    then have "chain sb x (x # zs)" "chain sb x (x # ys @ x # zs)" using Cons.prems chain_suffix [of sb c "x # ys" x zs] by auto
    then show False using chain_unique [OF v] by fastforce
  qed
  then show ?case using Cons by auto
qed simp

lemma chain_valid: "chain sb c cs \<Longrightarrow> d \<in> set cs \<Longrightarrow> valid_cluster sb (unat d)"
  by (induction cs arbitrary: c) auto

lemma chain_frame:
  assumes "FAT_CLUSTER_MAX sb' = FAT_CLUSTER_MAX sb" "\<And>d. d \<in> set cs \<Longrightarrow> fat_table sb' ! unat d = fat_table sb ! unat d"
  shows "chain sb c cs \<Longrightarrow> chain sb' c cs"
  using assms(2) by (induction cs arbitrary: c) (auto simp: valid_cluster_def assms(1))

lemma chain_extend:
  assumes g: "FAT_CLUSTER_MAX sb' = FAT_CLUSTER_MAX sb" and n: "valid_cluster sb (unat n)"
    and t: "fat_table sb' ! unat n = EOC" "\<And>d. d \<noteq> n \<Longrightarrow> d \<noteq> last cs \<Longrightarrow> fat_table sb' ! unat d = fat_table sb ! unat d" "fat_table sb' ! unat (last cs) = n"
  shows "chain sb c cs \<Longrightarrow> distinct cs \<Longrightarrow> cs \<noteq> [] \<Longrightarrow> n \<notin> set cs \<Longrightarrow> chain sb' c (cs @ [n])"
  using t(2,3)
proof (induction cs arbitrary: c)
  case (Cons x cs)
  have V: "valid_cluster sb' k \<longleftrightarrow> valid_cluster sb k" for k by (simp add: valid_cluster_def g)
  show ?case
  proof (cases "cs = []")
    case True
    then show ?thesis using Cons.prems t(1) n V by auto
  next
    case False
    then have "x \<noteq> last cs" using Cons.prems(2) last_in_set by fastforce
    then have "fat_table sb' ! unat x = fat_table sb ! unat x" using Cons.prems(4) Cons.prems(5) [of x] False by auto
    moreover have "chain sb' (fat_table sb ! unat x) (cs @ [n])"
      by (rule Cons.IH) (use Cons.prems False in auto)
    ultimately show ?thesis using Cons.prems(1) V by auto
  qed
qed simp

subsection \<open>Appending a cluster\<close>

lemma volume_ok_upd [simp]:
  "volume_ok (sb\<lparr>bit_map := b\<rparr>) = volume_ok sb" "volume_ok (sb\<lparr>nxt_free := n\<rparr>) = volume_ok sb"
  "volume_ok (sb\<lparr>hint_valid := h\<rparr>) = volume_ok sb" "volume_ok (sb\<lparr>free_count := f\<rparr>) = volume_ok sb" "volume_ok (sb\<lparr>fs_dirty := d\<rparr>) = volume_ok sb"
  by (simp_all add: volume_ok_def)

lemma unat_cluster:
  assumes "volume_ok sb" "c \<le> FAT_CLUSTER_MAX sb"
  shows "unat (word_of_nat c :: FAT_entry_t) = c"
  using assms by (simp add: volume_ok_def unat_of_nat take_bit_nat_eq_self)

lemma cluster_alloc_ok:
  assumes v: "volume_ok sb" and b: "bitmap_ok sb" and f: "free_cluster sb" "free_count sb \<noteq> 0"
  shows "\<exists>n c. fat32_cluster_alloc sb = Some (sb\<lparr>free_count := free_count sb - 1, bit_map := mark c (bit_map sb), nxt_free := n, hint_valid := True,
      fs_dirty := True, fat_table := (fat_table sb)[c := EOC]\<rparr>, c) \<and> valid_cluster sb c \<and> \<not> marked (bit_map sb) c"
proof -
  let ?sb = "sb\<lparr>free_count := free_count sb - 1\<rparr>"
  have "bitmap_ok ?sb" "free_cluster ?sb" using b f by (simp_all add: bitmap_ok_def free_cluster_def)
  from alloc_retry_ok [OF this] obtain n c where
    a: "alloc_retry ?sb = Some (?sb\<lparr>bit_map := mark c (bit_map sb), nxt_free := n, hint_valid := True\<rparr>, c)"
    "2 \<le> c" "c \<le> FAT_CLUSTER_MAX sb" "\<not> marked (bit_map sb) c" by auto
  have "c < length (fat_table sb)" using v a(3) by (simp add: volume_ok_def)
  then show ?thesis using a f(2) by (auto simp: fat32_cluster_alloc_def fat32_fat_cache_set_def valid_cluster_def)
qed

text \<open>A file whose clusters are linked in the FAT and marked in the bitmap.\<close>

definition stored :: "fatfs \<Rightarrow> finode \<Rightarrow> FAT_entry_t list \<Rightarrow> bool" where
  "stored sb ip cs \<longleftrightarrow> file_ok sb ip cs \<and> cs \<noteq> [] \<and> chain sb (cluster_start ip) cs \<and> (\<forall>c\<in>set cs. marked (bit_map sb) (unat c))"

lemma file_ok_append:
  assumes v: "volume_ok sb" and f: "file_ok sb ip cs" and cs: "cs \<noteq> []" "length cs + 1 < MAX_INDEX_1" and c: "valid_cluster sb (unat c)"
    and g: "FAT_CLUSTER_MAX sb' = FAT_CLUSTER_MAX sb"
  shows "\<exists>ip'. fat32_ctl_index_table (ip\<lparr>cluster_cnt := cluster_cnt ip + 1, cluster_end := c\<rparr>) (cluster_cnt ip + 1) c = Some (ip', c) \<and>
    file_ok sb' ip' (cs @ [c]) \<and> cluster_start ip' = cluster_start ip"
proof -
  let ?ip = "ip\<lparr>cluster_cnt := cluster_cnt ip + 1, cluster_end := c\<rparr>"
  have F: "idx_wf ip" "cluster_cnt ip = length cs" "\<And>k. idx_dom k \<Longrightarrow> idx_at ip k = (if k \<le> length cs then cs ! (k - 1) else 0)"
    using f by (auto simp: file_ok_def)
  have w: "idx_wf ?ip" "idx_at ?ip = idx_at ip" using F(1) by (simp_all add: idx_wf_def idx_at_def fun_eq_iff)
  have d: "idx_dom (length cs + 1)" using cs by (simp add: idx_dom_def)
  obtain ip' where i: "fat32_ctl_index_table ?ip (length cs + 1) c = Some (ip', c)" "idx_upd ?ip ((idx_at ip)(length cs + 1 := c)) ip'"
    using ctl_index(1) [OF w(1) d valid_not_eof(2) [OF v c]] w(2) by auto
  have "file_ok sb' ip' (cs @ [c])"
    using f cs c idx_updD [OF i(2)] F by (auto simp: file_ok_def valid_cluster_def g nth_append idx_dom_def)
  then show ?thesis using i F(2) idx_updD(3) [OF i(2)] by auto
qed

lemma append_cluster_exact:
  assumes "volume_ok sb" "bitmap_ok sb" "free_cluster sb" "free_count sb \<noteq> 0" "stored sb ip cs" "length cs + 1 < MAX_INDEX_1"
  shows "\<exists>sb' ip' c. append_cluster sb ip (last cs) = Some (sb', ip', c) \<and> \<not> marked (bit_map sb) (unat c) \<and> stored sb' ip' (cs @ [c]) \<and>
    volume_ok sb' \<and> bitmap_ok sb' \<and> free_count sb' = free_count sb - 1 \<and>
    fat_table sb' = (fat_table sb)[unat c := EOC, unat (last cs) := c] \<and>
    (\<forall>x. marked (bit_map sb') x \<longleftrightarrow> marked (bit_map sb) x \<or> shares (unat c) x) \<and>
    (\<forall>d ds. chain sb d ds \<and> last cs \<notin> set ds \<and> c \<notin> set ds \<longrightarrow> chain sb' d ds) \<and>
    (\<exists>n t. sb' = sb\<lparr>free_count := free_count sb - 1, bit_map := mark (unat c) (bit_map sb), nxt_free := n, hint_valid := True, fs_dirty := True, fat_table := t\<rparr>)"
proof -
  have S: "file_ok sb ip cs" "cs \<noteq> []" "chain sb (cluster_start ip) cs" "\<forall>c\<in>set cs. marked (bit_map sb) (unat c)"
    using assms(5) by (auto simp: stored_def)
  obtain n c where a: "fat32_cluster_alloc sb = Some (sb\<lparr>free_count := free_count sb - 1, bit_map := mark c (bit_map sb), nxt_free := n,
      hint_valid := True, fs_dirty := True, fat_table := (fat_table sb)[c := EOC]\<rparr>, c)" "valid_cluster sb c" "\<not> marked (bit_map sb) c"
    using cluster_alloc_ok [OF assms(1-4)] by blast
  define w :: FAT_entry_t where "w = word_of_nat c"
  have w: "unat w = c" using unat_cluster [OF assms(1)] a(2) by (simp add: w_def valid_cluster_def)
  define sb' where "sb' = sb\<lparr>free_count := free_count sb - 1, bit_map := mark c (bit_map sb), nxt_free := n, hint_valid := True, fs_dirty := True,
    fat_table := (fat_table sb)[c := EOC, unat (last cs) := w]\<rparr>"
  have l: "valid_cluster sb (unat (last cs))" "unat (last cs) < length (fat_table sb)" "c < length (fat_table sb)"
    using chain_valid [OF S(3), of "last cs"] S(2) assms(1) a(2) by (auto simp: volume_ok_def valid_cluster_def)
  have new: "w \<notin> set cs" using S(4) a(3) w by auto
  have g: "FAT_CLUSTER_MAX sb' = FAT_CLUSTER_MAX sb" by (simp add: sb'_def)
  have ok': "volume_ok sb'" using assms(1) by (simp add: sb'_def volume_ok_def)
  have bl: "c div MAP_BITS < length (bit_map sb)"
    using assms(2) a(2) div_le_mono [of c "FAT_CLUSTER_MAX sb" MAP_BITS] by (simp add: bitmap_ok_def valid_cluster_def)
  have mk: "marked (bit_map sb') x \<longleftrightarrow> marked (bit_map sb) x \<or> shares c x" for x using marked_mark [OF bl] by (simp add: sb'_def)
  obtain ip' where i: "fat32_ctl_index_table (ip\<lparr>cluster_cnt := cluster_cnt ip + 1, cluster_end := w\<rparr>) (cluster_cnt ip + 1) w = Some (ip', w)"
    "file_ok sb' ip' (cs @ [w])" "cluster_start ip' = cluster_start ip"
    using file_ok_append [OF assms(1) S(1,2) assms(6), of w sb'] a(2) w g by auto
  have "append_cluster sb ip (last cs) = Some (sb', ip', w)"
    using a(1,2) l i(1) w by (simp add: append_cluster_def fat32_fat_cache_set_def w_def [symmetric] valid_cluster_def sb'_def)
  moreover have ne: "unat (last cs) \<noteq> c" using new S(2) w by (metis last_in_set word_unat_eq_iff)
  have "chain sb' (cluster_start ip) (cs @ [w])"
    by (rule chain_extend [OF g _ _ _ _ S(3) chain_distinct [OF assms(1) S(3)] S(2) new])
      (use a(2) w l ne in \<open>auto simp: sb'_def word_unat_eq_iff\<close>)
  then have "stored sb' ip' (cs @ [w])" using i(2,3) S(2,4) mk w by (simp add: stored_def)
  moreover have "bitmap_ok sb'" using assms(2) mk by (simp add: bitmap_ok_def g) (simp add: sb'_def mark_def)
  moreover have "chain sb' d ds" if "chain sb d ds" "last cs \<notin> set ds" "w \<notin> set ds" for d ds
  proof -
    have "c \<noteq> unat x \<and> unat (last cs) \<noteq> unat x" if "x \<in> set ds" for x
      using that \<open>last cs \<notin> set ds\<close> \<open>w \<notin> set ds\<close> w by (metis word_unat_eq_iff)
    then show ?thesis by (intro chain_frame [OF g _ that(1)]) (auto simp: sb'_def)
  qed
  moreover have "fat_table sb' = (fat_table sb)[unat w := EOC, unat (last cs) := w]" "\<forall>x. marked (bit_map sb') x \<longleftrightarrow> marked (bit_map sb) x \<or> shares (unat w) x"
    using mk w by (simp_all add: sb'_def)
  moreover have "free_count sb' = free_count sb - 1" by (simp add: sb'_def)
  moreover have "\<exists>n t. sb' = sb\<lparr>free_count := free_count sb - 1, bit_map := mark (unat w) (bit_map sb), nxt_free := n, hint_valid := True, fs_dirty := True,
      fat_table := t\<rparr>" unfolding sb'_def w by blast
  ultimately show ?thesis using a(3) w ok' by (intro exI [of _ sb'] exI [of _ ip'] exI [of _ w]) blast
qed

text \<open>A chain of marked clusters does not contain the new one.\<close>

lemma append_cluster_ok:
  assumes "volume_ok sb" "bitmap_ok sb" "free_cluster sb" "free_count sb \<noteq> 0" "stored sb ip cs" "length cs + 1 < MAX_INDEX_1"
  shows "\<exists>sb' ip' c. append_cluster sb ip (last cs) = Some (sb', ip', c) \<and> \<not> marked (bit_map sb) (unat c) \<and> stored sb' ip' (cs @ [c]) \<and>
    volume_ok sb' \<and> bitmap_ok sb' \<and> free_count sb' = free_count sb - 1 \<and>
    (\<forall>d ds. chain sb d ds \<and> last cs \<notin> set ds \<and> (\<forall>x\<in>set ds. marked (bit_map sb) (unat x)) \<longrightarrow>
       chain sb' d ds \<and> (\<forall>x\<in>set ds. marked (bit_map sb') (unat x))) \<and>
    (\<exists>n t. sb' = sb\<lparr>free_count := free_count sb - 1, bit_map := mark (unat c) (bit_map sb), nxt_free := n, hint_valid := True, fs_dirty := True, fat_table := t\<rparr>)"
proof -
  obtain sb' ip' c n t where a: "append_cluster sb ip (last cs) = Some (sb', ip', c)" "\<not> marked (bit_map sb) (unat c)" "stored sb' ip' (cs @ [c])"
    "volume_ok sb'" "bitmap_ok sb'" "free_count sb' = free_count sb - 1"
    "\<forall>x. marked (bit_map sb') x \<longleftrightarrow> marked (bit_map sb) x \<or> shares (unat c) x"
    "\<forall>d ds. chain sb d ds \<and> last cs \<notin> set ds \<and> c \<notin> set ds \<longrightarrow> chain sb' d ds"
    "sb' = sb\<lparr>free_count := free_count sb - 1, bit_map := mark (unat c) (bit_map sb), nxt_free := n, hint_valid := True, fs_dirty := True, fat_table := t\<rparr>"
    using append_cluster_exact [OF assms] by (elim exE conjE) (rule that)
  have "chain sb' d ds \<and> (\<forall>x\<in>set ds. marked (bit_map sb') (unat x))"
    if "chain sb d ds" "last cs \<notin> set ds" "\<forall>x\<in>set ds. marked (bit_map sb) (unat x)" for d ds
    using a(2,7,8) that by blast
  then show ?thesis using a(1-6) exI [of "\<lambda>n. \<exists>t. sb' = sb\<lparr>free_count := free_count sb - 1, bit_map := mark (unat c) (bit_map sb), nxt_free := n,
      hint_valid := True, fs_dirty := True, fat_table := t\<rparr>", OF exI, OF a(9)] by (intro exI [of _ sb'] exI [of _ ip'] exI [of _ c]) blast
qed


subsection \<open>Loading the index table\<close>

lemma fat_travel_ok:
  assumes "volume_ok sb" "chain sb (cluster_start ip) cs" "cs \<noteq> []" "length cs < MAX_INDEX_1" "idx_wf ip" "\<forall>k. idx_dom k \<longrightarrow> idx_at ip k = 0"
  shows "\<exists>ip'. fat32_fat_travel sb ip 0 = Some (ip', word_of_nat (length cs)) \<and> file_ok sb (ip'\<lparr>cluster_cnt := length cs\<rparr>) cs"
proof -
  obtain ip1 e where t: "travel_loop sb 0 ip (cluster_start ip) 0 0 = Some (ip1, e, length cs, last cs)"
    "idx_upd ip (\<lambda>k. if 0 < k \<and> k \<le> length cs then cs ! (k - 1) else idx_at ip k) ip1"
    using travel_chain [OF assms(1,2,5), of 0 0, unfolded diff_zero] assms(3,4) by auto
  let ?ip = "ip1\<lparr>cluster_end := last cs\<rparr>"
  have "idx_wf (?ip\<lparr>cluster_cnt := n\<rparr>)" "idx_at (?ip\<lparr>cluster_cnt := n\<rparr>) = idx_at ip1" for n
    using idx_updD(1) [OF t(2)] by (simp_all add: idx_wf_def idx_at_def fun_eq_iff)
  moreover have "cluster_start ip = hd cs" using assms(2,3) by (cases cs) auto
  ultimately have "file_ok sb (?ip\<lparr>cluster_cnt := length cs\<rparr>) cs"
    using assms idx_updD [OF t(2)] chain_valid [OF assms(2)] by (auto simp: file_ok_def idx_dom_def)
  then show ?thesis using t(1) by (auto simp: fat32_fat_travel_def)
qed

text \<open>Loading: with an empty index table, \<open>fat32_fat_travel\<close> with number 0 follows the chain of the inode to its end and returns the number of its
  clusters; the index table then lists them and the last one is recorded.\<close>

theorem fat32_fat_travel_loads:
  assumes "volume_ok sb" "chain sb (cluster_start ip) cs" "cs \<noteq> []" "length cs < MAX_INDEX_1" "idx_wf ip" "\<forall>k. idx_dom k \<longrightarrow> idx_at ip k = 0"
  shows "\<exists>ip'. fat32_fat_travel sb ip 0 = Some (ip', word_of_nat (length cs)) \<and> file_ok sb (ip'\<lparr>cluster_cnt := length cs\<rparr>) cs"
  by (rule fat_travel_ok [OF assms])

subsection \<open>Truncation\<close>

lemma trunc_step:
  assumes v: "volume_ok sb" and l: "FAT_CLUSTER_MAX sb div MAP_BITS < length (bit_map sb)" and c: "valid_cluster sb (unat c)"
    and m: "marked (bit_map sb) (unat c)" and i: "fat32_ctl_index_table ip (k + 1) 0 = Some (ip1, nx)"
  defines "sb' \<equiv> sb\<lparr>bit_map := (bit_map sb)[unat c div MAP_BITS := CLEAR_BIT (bit_map sb ! (unat c div MAP_BITS)) (unat c mod MAP_BITS)],
    fat_table := (fat_table sb)[unat c := 0]\<rparr>"
  shows "trunc_loop sb ip c k = trunc_loop sb' ip1 nx (k + 1)"
    "marked (bit_map sb') x \<longleftrightarrow> marked (bit_map sb) x \<and> \<not> shares (unat c) x"
    "unat c < length (fat_table sb)"
proof -
  have u: "unat c < length (fat_table sb)" using v c by (simp add: volume_ok_def valid_cluster_def)
  have b: "unat c div MAP_BITS < length (bit_map sb)"
    using l c div_le_mono [of "unat c" "FAT_CLUSTER_MAX sb" MAP_BITS] by (simp add: valid_cluster_def)
  show "unat c < length (fat_table sb)" by (rule u)
  show "marked (bit_map sb') x \<longleftrightarrow> marked (bit_map sb) x \<and> \<not> shares (unat c) x" using marked_clear [OF b] by (simp add: sb'_def)
  have V: "valid_cluster (s\<lparr>fat_table := t\<rparr>) = valid_cluster s" "valid_cluster (s\<lparr>bit_map := b\<rparr>) = valid_cluster s" for s t b
    by (simp_all add: valid_cluster_def fun_eq_iff)
  show "trunc_loop sb ip c k = trunc_loop sb' ip1 nx (k + 1)"
    using valid_not_eof(1) [OF v c] i u b c m
    by (subst trunc_loop.simps) (simp add: fat32_fat_cache_set_def fat32_bitmap_op_def marked_def Let_def FREE_MASK_def V sb'_def)
qed

lemma trunc_stop:
  assumes "volume_ok sb" "valid_cluster sb (unat c)" "\<not> marked (bit_map sb) (unat c)"
  shows "trunc_loop sb ip c k = None"
  using valid_not_eof(1) [OF assms(1,2)] assms(3)
  by (subst trunc_loop.simps, cases "fat32_ctl_index_table ip (Suc k) 0")
    (auto simp: fat32_fat_cache_set_def fat32_bitmap_op_def marked_def Let_def ASSERT_def)


text \<open>No two clusters of the rest share a bit: the loop frees each of them.\<close>

lemma trunc_frees:
  assumes "sorted_wrt (\<lambda>a b. \<not> shares (unat a) (unat b)) ds" "\<forall>d\<in>set ds. valid_cluster sb (unat d) \<and> marked (bit_map sb) (unat d)"
    "volume_ok sb" "FAT_CLUSTER_MAX sb div MAP_BITS < length (bit_map sb)" "idx_lists ip cs" "\<forall>c\<in>set cs. valid_cluster sb (unat c)"
    "length cs < MAX_INDEX_1" "1 \<le> k" "ds = drop (k - 1) cs" "k \<le> length cs + 1" "c = (if ds = [] then EOC else hd ds)"
  shows "\<exists>sb' ip'. trunc_loop sb ip c k = Some (sb', ip') \<and> idx_upd ip (idx_at ip) ip' \<and>
    (\<exists>bm. sb' = sb\<lparr>bit_map := bm, fat_table := fold (\<lambda>d t. t[unat d := 0]) ds (fat_table sb)\<rparr> \<and>
      length bm = length (bit_map sb) \<and> (\<forall>x. marked bm x \<longleftrightarrow> marked (bit_map sb) x \<and> (\<forall>d\<in>set ds. \<not> shares (unat d) x)))"
  using assms
proof (induction ds arbitrary: sb ip c k)
  case Nil
  have "trunc_loop sb ip c k = Some (sb, ip)" using Nil.prems(11) by (subst trunc_loop.simps) simp
  moreover have "idx_upd ip (idx_at ip) ip" using Nil.prems(5) by (simp add: idx_upd_def idx_lists_def)
  ultimately show ?case by (intro exI [of _ sb] exI [of _ ip] conjI exI [of _ "bit_map sb"]) simp_all
next
  case (Cons d ds)
  have k: "k \<le> length cs" using Cons.prems(8,9) by (metis drop_eq_Nil diff_le_self le_trans list.distinct(1) not_less_eq_eq One_nat_def Suc_pred' less_eq_Suc_le)
  have dom: "idx_dom (k + 1)" using k Cons.prems(7) by (simp add: idx_dom_def)
  have tl: "ds = drop (k + 1 - 1) cs" using Cons.prems(8,9) by (metis drop_Suc drop_tl list.sel(3) Suc_pred' add_diff_cancel_right' less_eq_Suc_le One_nat_def)
  have nx: "(if k + 1 \<le> length cs then cs ! (k + 1 - 1) else EOC) = (if ds = [] then EOC else hd ds)"
    using tl by (auto simp: hd_drop_conv_nth)
  obtain ip1 where i: "fat32_ctl_index_table ip (k + 1) 0 = Some (ip1, if ds = [] then EOC else hd ds)" "idx_upd ip (idx_at ip) ip1"
    using lookup_list [OF Cons.prems(3,6,5) dom] unfolding nx by blast
  have d: "valid_cluster sb (unat d)" "marked (bit_map sb) (unat d)" "c = d" using Cons.prems(2,11) by auto
  define sb1 where "sb1 = sb\<lparr>bit_map := (bit_map sb)[unat d div MAP_BITS := CLEAR_BIT (bit_map sb ! (unat d div MAP_BITS)) (unat d mod MAP_BITS)],
    fat_table := (fat_table sb)[unat d := 0]\<rparr>"
  note st = trunc_step [OF Cons.prems(3,4) d(1,2) i(1), folded sb1_def]
  have V: "valid_cluster sb1 = valid_cluster sb" "FAT_CLUSTER_MAX sb1 = FAT_CLUSTER_MAX sb" "length (bit_map sb1) = length (bit_map sb)"
    by (simp_all add: sb1_def valid_cluster_def fun_eq_iff)
  have "\<exists>sb' ip'. trunc_loop sb1 ip1 (if ds = [] then EOC else hd ds) (k + 1) = Some (sb', ip') \<and> idx_upd ip1 (idx_at ip1) ip' \<and>
    (\<exists>bm. sb' = sb1\<lparr>bit_map := bm, fat_table := fold (\<lambda>d t. t[unat d := 0]) ds (fat_table sb1)\<rparr> \<and>
      length bm = length (bit_map sb1) \<and> (\<forall>x. marked bm x \<longleftrightarrow> marked (bit_map sb1) x \<and> (\<forall>d\<in>set ds. \<not> shares (unat d) x)))"
  proof (rule Cons.IH [OF _ _ _ _ idx_lists_upd [OF Cons.prems(5) i(2)] _ Cons.prems(7) _ tl _ refl])
    show "\<forall>e\<in>set ds. valid_cluster sb1 (unat e) \<and> marked (bit_map sb1) (unat e)" using Cons.prems(1,2) st(2) V by auto
    show "volume_ok sb1" using Cons.prems(3) by (simp add: sb1_def volume_ok_def)
  qed (use Cons.prems(1,4,6) V k in auto)
  then obtain sb' ip' bm where r: "trunc_loop sb1 ip1 (if ds = [] then EOC else hd ds) (k + 1) = Some (sb', ip')" "idx_upd ip1 (idx_at ip1) ip'"
    "sb' = sb1\<lparr>bit_map := bm, fat_table := fold (\<lambda>d t. t[unat d := 0]) ds (fat_table sb1)\<rparr>" "length bm = length (bit_map sb1)"
    "\<forall>x. marked bm x \<longleftrightarrow> marked (bit_map sb1) x \<and> (\<forall>d\<in>set ds. \<not> shares (unat d) x)"
    by (elim exE conjE) (rule that)
  have "idx_upd ip (idx_at ip) ip'" by (rule idx_upd_trans [OF i(2) r(2)]) (use idx_updD(2) [OF i(2)] in simp)
  moreover have "trunc_loop sb ip c k = Some (sb', ip')" using st(1) r(1) d(3) by simp
  moreover have "sb' = sb\<lparr>bit_map := bm, fat_table := fold (\<lambda>d t. t[unat d := 0]) (d # ds) (fat_table sb)\<rparr>" using r(3) by (simp add: sb1_def)
  moreover have "length bm = length (bit_map sb)" "\<forall>x. marked bm x \<longleftrightarrow> marked (bit_map sb) x \<and> (\<forall>e\<in>set (d # ds). \<not> shares (unat e) x)"
    using r(4,5) st(2) V(3) by auto
  ultimately show ?case by (intro exI [of _ sb'] exI [of _ ip'] conjI exI [of _ bm])
qed

text \<open>A state in which the loop stands before the cluster number \<open>k\<close> of the file, the clusters \<open>ds\<close> being left.\<close>

definition trunc_at :: "fatfs \<Rightarrow> finode \<Rightarrow> FAT_entry_t list \<Rightarrow> nat \<Rightarrow> FAT_entry_t list \<Rightarrow> bool" where
  "trunc_at sb ip cs k ds \<longleftrightarrow> volume_ok sb \<and> FAT_CLUSTER_MAX sb div MAP_BITS < length (bit_map sb) \<and> idx_lists ip cs \<and>
     (\<forall>c\<in>set cs. valid_cluster sb (unat c)) \<and> length cs < MAX_INDEX_1 \<and> 1 \<le> k \<and> drop (k - 1) cs = ds"

lemma trunc_next:
  assumes t: "trunc_at sb ip cs k (d # ds)"
  shows "trunc_loop sb ip d k = None \<or> (\<exists>sb' ip'. trunc_loop sb ip d k = trunc_loop sb' ip' (hd (ds @ [EOC])) (k + 1) \<and> trunc_at sb' ip' cs (k + 1) ds \<and>
    (\<forall>x. marked (bit_map sb') x \<longleftrightarrow> marked (bit_map sb) x \<and> \<not> shares (unat d) x))"
proof -
  have T: "volume_ok sb" "FAT_CLUSTER_MAX sb div MAP_BITS < length (bit_map sb)" "idx_lists ip cs" "\<forall>c\<in>set cs. valid_cluster sb (unat c)"
    "length cs < MAX_INDEX_1" "1 \<le> k" "drop (k - 1) cs = d # ds" using t by (auto simp: trunc_at_def)
  obtain j where j: "k = Suc j" using T(6) by (cases k) auto
  have k: "j < length cs" using T(7) j by (metis diff_Suc_1 drop_eq_Nil list.distinct(1) not_le)
  have ds: "drop k cs = ds" "cs ! j = d" using T(7) j Cons_nth_drop_Suc [OF k] by auto
  have v: "valid_cluster sb (unat d)" using T(4) k ds(2) nth_mem by blast
  have nx: "(if k + 1 \<le> length cs then cs ! (k + 1 - 1) else EOC) = hd (ds @ [EOC])"
    using ds(1) by (cases ds) (auto simp: drop_eq_Nil hd_drop_conv_nth [symmetric])
  have "idx_dom (k + 1)" using k j T(5) by (simp add: idx_dom_def)
  from lookup_list [OF T(1,4,3) this] obtain ip1 where
    i: "fat32_ctl_index_table ip (k + 1) 0 = Some (ip1, hd (ds @ [EOC]))" "idx_upd ip (idx_at ip) ip1" unfolding nx by blast
  show ?thesis
  proof (cases "marked (bit_map sb) (unat d)")
    case False
    then show ?thesis using trunc_stop [OF T(1) v] by simp
  next
    case True
    define sb1 where "sb1 = sb\<lparr>bit_map := (bit_map sb)[unat d div MAP_BITS := CLEAR_BIT (bit_map sb ! (unat d div MAP_BITS)) (unat d mod MAP_BITS)],
      fat_table := (fat_table sb)[unat d := 0]\<rparr>"
    note st = trunc_step [OF T(1,2) v True i(1), folded sb1_def]
    have "trunc_at sb1 ip1 cs (k + 1) ds"
      using T ds(1) idx_lists_upd [OF T(3) i(2)] by (simp add: trunc_at_def sb1_def volume_ok_def valid_cluster_def)
    then show ?thesis using st(1,2) by blast
  qed
qed

lemma trunc_blocked: "trunc_at sb ip cs k (ds @ b # post) \<Longrightarrow> \<not> marked (bit_map sb) (unat b) \<Longrightarrow> trunc_loop sb ip (hd (ds @ [b])) k = None"
proof (induction ds arbitrary: sb ip k)
  case Nil
  then have "volume_ok sb" "valid_cluster sb (unat b)" by (auto simp: trunc_at_def) (metis in_set_dropD list.set_intros(1))
  then show ?case using trunc_stop Nil.prems(2) by simp
next
  case (Cons d ds)
  have "hd ((ds @ b # post) @ [EOC]) = hd (ds @ [b])" by (cases ds) auto
  then show ?case using trunc_next [OF Cons.prems(1) [unfolded append_Cons]] Cons.IH Cons.prems(2) by auto
qed

lemma trunc_reaches:
  "trunc_at sb ip cs k (ds @ a # mid @ b # post) \<Longrightarrow> shares (unat a) (unat b) \<Longrightarrow> trunc_loop sb ip (hd (ds @ [a])) k = None"
proof (induction ds arbitrary: sb ip k)
  case Nil
  have "hd ((mid @ b # post) @ [EOC]) = hd (mid @ [b])" by (cases mid) auto
  then show ?case using trunc_next [OF Nil.prems(1) [unfolded append_Nil]] trunc_blocked [of _ _ cs "k + 1" mid b post] Nil.prems(2) by auto
next
  case (Cons d ds)
  have "hd ((ds @ a # mid @ b # post) @ [EOC]) = hd (ds @ [a])" by (cases ds) auto
  then show ?case using trunc_next [OF Cons.prems(1) [unfolded append_Cons]] Cons.IH Cons.prems(2) by auto
qed

subsection \<open>Clearing the index table\<close>

lemma clear_direct_length [simp]: "length (clear_direct t) = length t"
  by (induction t) auto

lemma clear_pages_length [simp]: "length (clear_pages ps) = length ps"
  by (induction ps) auto

lemma clear_direct_nth: "i < length t \<Longrightarrow> clear_direct t ! i = (if \<exists>j\<le>i. t ! j = 0 then t ! i else 0)"
proof (induction t arbitrary: i)
  case (Cons e es)
  show ?case
  proof (cases i)
    case (Suc m)
    have "(\<exists>j\<le>Suc m. (e # es) ! j = 0) \<longleftrightarrow> e = 0 \<or> (\<exists>j\<le>m. es ! j = 0)"
      by (metis Suc_le_mono le0 not0_implies_Suc nth_Cons_0 nth_Cons_Suc)
    then show ?thesis using Cons Suc by simp
  qed simp
qed simp

lemma clear_pages_nth: "i < length ps \<Longrightarrow> clear_pages ps ! i = (if \<exists>j\<le>i. ps ! j = None then ps ! i else None)"
proof (induction ps arbitrary: i)
  case (Cons e es)
  show ?case
  proof (cases i)
    case (Suc m)
    have "(\<exists>j\<le>Suc m. (e # es) ! j = None) \<longleftrightarrow> e = None \<or> (\<exists>j\<le>m. es ! j = None)"
      by (metis Suc_le_mono le0 not0_implies_Suc nth_Cons_0 nth_Cons_Suc)
    then show ?thesis using Cons.IH [of m] Cons.prems Suc by (cases e) (simp_all only: clear_pages.simps nth_Cons_Suc length_Cons, auto)
  qed simp
qed simp

lemma clear_pages_set: "Some p \<in> set (clear_pages ps) \<Longrightarrow> Some p \<in> set ps"
  by (induction ps) (auto split: if_splits)

lemma free_index_empty:
  assumes i: "idx_lists ip cs" and nz: "0 \<notin> set cs" and c: "cluster_cnt ip \<noteq> 0"
  shows "idx_lists (fat32_free_index_table ip) []"
proof -
  let ?ip = "fat32_free_index_table ip"
  have ip: "?ip = ip\<lparr>direct := clear_direct (direct ip), indirect_one := clear_pages (indirect_one ip)\<rparr>" using c by (simp add: fat32_free_index_table_def)
  have W: "length (direct ip) = N_DIRECT" "length (indirect_one ip) = N_LEVEL_ONE" "idx_wf ip" using i by (auto simp: idx_lists_def idx_wf_def)
  have A: "idx_at ip k = (if k \<le> length cs then cs ! (k - 1) else 0)" if "idx_dom k" for k using i that by (auto simp: idx_lists_def)
  have Z: "length cs < k" if "idx_dom k" "idx_at ip k = 0" for k
  proof (rule ccontr)
    assume "\<not> length cs < k"
    moreover then have "cs ! (k - 1) \<in> set cs" using that(1) by (intro nth_mem) (auto simp: idx_dom_def)
    ultimately show False using A [OF that(1)] that(2) nz by auto
  qed
  have "idx_at ?ip k = 0" if k: "idx_dom k" for k
  proof (cases "k \<le> N_DIRECT")
    case True
    have "direct ip ! (k - 1) = 0" if "j \<le> k - 1" "direct ip ! j = 0" for j
    proof -
      have "idx_dom (j + 1)" "idx_at ip (j + 1) = 0" using that k True by (auto simp: idx_dom_def idx_at_def)
      then have "length cs < k" using Z [of "j + 1"] that(1) k by (auto simp: idx_dom_def)
      then show ?thesis using A [OF k] True by (simp add: idx_at_def)
    qed
    then show ?thesis using True k W(1) by (auto simp: ip idx_at_def clear_direct_nth idx_dom_def)
  next
    case False
    then have ind: "N_DIRECT < k" by simp
    let ?o = "(k - 1 - N_DIRECT) div N_INDIRECT"
    note o = idx_page_bounds(1) [OF k ind]
    show ?thesis
    proof (cases "\<exists>j\<le>?o. indirect_one ip ! j = None")
      case True
      then obtain j where j: "j \<le> ?o" "indirect_one ip ! j = None" by blast
      define x where "x = N_DIRECT + 1 + j * N_INDIRECT"
      have x: "(x - 1 - N_DIRECT) div N_INDIRECT = j" "N_DIRECT < x" by (simp_all add: x_def N_INDIRECT_def)
      have "j * N_INDIRECT \<le> ?o * N_INDIRECT" using j(1) by (rule mult_le_mono1)
      moreover have "?o * N_INDIRECT \<le> k - 1 - N_DIRECT" using div_mult_mod_eq [of "k - 1 - N_DIRECT" N_INDIRECT] by linarith
      ultimately have "x \<le> k" using ind unfolding x_def by linarith
      moreover have "idx_dom x" using calculation k x(2) by (simp add: idx_dom_def)
      moreover have "idx_at ip x = 0" using j(2) x by (simp add: idx_at_def)
      ultimately have "idx_at ip k = 0" using Z [of x] A [OF k] by simp
      moreover have "idx_at ?ip k = idx_at ip k" using True o W(2) ind by (simp add: ip idx_at_def clear_pages_nth)
      ultimately show ?thesis by simp
    next
      case False
      then have "clear_pages (indirect_one ip) ! ?o = None" using clear_pages_nth [of ?o "indirect_one ip"] o W(2) by (simp only: if_False)
      then show ?thesis using ind by (simp add: ip idx_at_def)
    qed
  qed
  moreover have "idx_wf ?ip" using W(3) by (auto simp: ip idx_wf_def dest: clear_pages_set)
  ultimately show ?thesis by (auto simp: idx_lists_def idx_dom_def)
qed

lemma table_fold_zero: "fold (\<lambda>d t. t[unat d := 0]) ds (t :: FAT_entry_t list) ! x = (if x \<in> unat ` set ds \<and> x < length t then 0 else t ! x)"
proof (induction ds arbitrary: t)
  case (Cons d ds)
  show ?case using Cons.IH [of "t[unat d := 0]"] by (cases "x = unat d"; cases "x < length t") (auto simp: list_update_beyond)
qed simp


text \<open>A file with two clusters in the same word of the bitmap 32 apart cannot be truncated: freeing the first one clears the bit they share
  and the check that the second one is allocated stops the kernel.\<close>

theorem trunc_panics_on_shared_bit:
  assumes "volume_ok sb" "bitmap_ok sb" "stored sb ip (pre @ a # mid @ b # post)" "shares (unat a) (unat b)"
  shows "fat32_inode_trunc sb ip = None"
proof -
  let ?cs = "pre @ a # mid @ b # post"
  have S: "trunc_at sb ip ?cs 1 ?cs" "cluster_start ip = hd ?cs"
    using assms(1-3) by (auto simp: stored_def file_ok_def idx_lists_def trunc_at_def bitmap_ok_def)
  have "hd ?cs = hd (pre @ [a])" by (cases pre) auto
  then show ?thesis using S(2) trunc_reaches [OF S(1) assms(4)] by (simp add: fat32_inode_trunc_def)
qed

subsection \<open>Concrete instances\<close>

text \<open>On the volume \<^const>\<open>demo_fs\<close>: a file of the clusters 2 and 3 and one of the clusters 2 and 34.\<close>

definition demo_file :: "FAT_entry_t list \<Rightarrow> finode" where
  "demo_file cs = \<lparr>direct = cs @ replicate (N_DIRECT - length cs) 0, indirect_one = replicate N_LEVEL_ONE None,
     cluster_start = hd cs, cluster_end = last cs, cluster_cnt = length cs\<rparr>"

definition demo_vol :: "FAT_entry_t list \<Rightarrow> fatfs" where
  "demo_vol cs = demo_fs\<lparr>bit_map := [0xF, 0], fat_table := (fat_table demo_fs)[2 := last cs, unat (last cs) := EOC]\<rparr>"

lemma demo_idx:
  assumes "length cs \<le> N_DIRECT"
  shows "idx_wf (demo_file cs)" "idx_at (demo_file cs) k = (if k \<le> N_DIRECT then (cs @ replicate (N_DIRECT - length cs) 0) ! (k - 1)
    else case replicate N_LEVEL_ONE None ! ((k - 1 - N_DIRECT) div N_INDIRECT) of None \<Rightarrow> 0 | Some p \<Rightarrow> p ! ((k - 1 - N_DIRECT) mod N_INDIRECT))"
  using assms by (simp_all add: demo_file_def idx_wf_def idx_at_def)

lemma demo_idx_dom:
  assumes "length cs \<le> N_DIRECT" "idx_dom k"
  shows "idx_at (demo_file cs) k = (if k \<le> length cs then cs ! (k - 1) else 0)"
proof (cases "k \<le> N_DIRECT")
  case True
  then show ?thesis using assms by (auto simp: demo_idx nth_append idx_dom_def)
next
  case False
  then show ?thesis using assms idx_page_bounds(1) [OF assms(2)] by (simp add: demo_idx)
qed

lemma demo_vol_max [simp]: "FAT_CLUSTER_MAX (demo_vol cs) = 70"
  by (simp add: demo_vol_def demo_fs_max)

lemma demo_vol_simps [simp]:
  "length (fat_table (demo_vol cs)) = 72" "bit_map (demo_vol cs) = [0xF, 0]" "free_count (demo_vol cs) = 60" "sector_size (demo_vol cs) = 16"
  "sectors_per_block (demo_vol cs) = 1" "fatbase (demo_vol cs) = 1"
  "fat_table (demo_vol cs) = (replicate 72 0)[2 := last cs, unat (last cs) := EOC]"
  by (simp_all add: demo_vol_def demo_fs_def)

lemma demo_volume_ok: "volume_ok (demo_vol cs)"
  by (simp add: volume_ok_def)

lemma demo_marked: "marked [0xF, 0] c \<longleftrightarrow> TEST_BIT ([0xF, 0] ! (c div 64)) (c mod 64)"
  by (simp add: marked_def MAP_BITS_def)

lemma demo_marks [simp]: "marked [0xF, 0] 0" "marked [0xF, 0] 1" "marked [0xF, 0] 2" "marked [0xF, 0] 3" "marked [0xF, 0] 34" "\<not> marked [0xF, 0] 4"
  unfolding demo_marked TEST_BIT_def one_shl_def by code_simp+

lemma demo_bitmap_ok: "bitmap_ok (demo_vol cs)"
  using demo_marks(1,2) by (simp add: bitmap_ok_def MAP_BITS_def)

lemma demo_free: "free_cluster (demo_vol cs)"
  using demo_marks(6) by (auto simp: free_cluster_def candidates_def MAP_BITS_def intro!: bexI [of _ 4])

lemma demo_stored: "stored (demo_vol [2, 3]) (demo_file [2, 3]) [2, 3]" "stored (demo_vol [2, 34]) (demo_file [2, 34]) [2, 34]"
  using demo_idx_dom [of "[2, 3]"] demo_idx_dom [of "[2, 34]"] demo_idx(1) [of "[2, 3]"] demo_idx(1) [of "[2, 34]"]
  by (auto simp: stored_def file_ok_def valid_cluster_def N_DIRECT_def MAX_INDEX_1_def demo_file_def EOC_def ISEOF_def)

lemma demo_sectors: "file_sectors (demo_vol [2, 3]) [2, 3] = [21, 22]"
  by (simp add: file_sectors_def FirstSectorofCluster_def FirstDataSector_def) (simp add: demo_vol_def demo_fs_def)


theorem fat32_fat_travel_loads_witness:
  "\<exists>ip'. fat32_fat_travel (demo_vol [2, 3]) (demo_file []\<lparr>cluster_start := 2\<rparr>) 0 = Some (ip', 2) \<and>
    file_ok (demo_vol [2, 3]) (ip'\<lparr>cluster_cnt := 2\<rparr>) [2, 3]"
proof -
  let ?ip = "demo_file []\<lparr>cluster_start := 2\<rparr>"
  have w: "idx_wf ?ip" "\<forall>k. idx_dom k \<longrightarrow> idx_at ?ip k = 0"
  proof -
    have "idx_wf ?ip = idx_wf (demo_file [])" "idx_at ?ip = idx_at (demo_file [])" by (simp_all add: idx_wf_def idx_at_def fun_eq_iff)
    then show "idx_wf ?ip" "\<forall>k. idx_dom k \<longrightarrow> idx_at ?ip k = 0" using demo_idx(1) [of "[]"] demo_idx_dom [of "[]"] by (auto simp: idx_dom_def)
  qed
  have c: "chain (demo_vol [2, 3]) (cluster_start ?ip) [2, 3]" by (simp add: valid_cluster_def ISEOF_def EOC_def)
  have "\<exists>ip'. fat32_fat_travel (demo_vol [2, 3]) ?ip 0 = Some (ip', word_of_nat (length [2 :: FAT_entry_t, 3])) \<and>
      file_ok (demo_vol [2, 3]) (ip'\<lparr>cluster_cnt := length [2 :: FAT_entry_t, 3]\<rparr>) [2, 3]"
    by (rule fat32_fat_travel_loads [OF demo_volume_ok c _ _ w]) (simp_all add: MAX_INDEX_1_def N_DIRECT_def)
  then show ?thesis by (simp add: numeral_2_eq_2 [symmetric])
qed


theorem trunc_panics_on_shared_bit_witness: "fat32_inode_trunc (demo_vol [2, 34]) (demo_file [2, 34]) = None"
  using trunc_panics_on_shared_bit [OF demo_volume_ok demo_bitmap_ok, of "[2, 34]" "demo_file [2, 34]" "[]" 2 "[]" 34 "[]"] demo_stored(2)
  by (simp add: shares_def MAP_BITS_def)

theorem fat32_get_block_correct_witness:
  "\<exists>ip' vs. fat32_get_block (demo_vol [2, 3]) (demo_file [2, 3]) 0 32 False = Some (demo_vol [2, 3], ip', vs, 2) \<and> blocks_of vs = [21, 22]"
proof -
  have f: "file_ok (demo_vol [2, 3]) (demo_file [2, 3]) [2, 3]" using demo_stored(1) by (simp add: stored_def)
  have "\<exists>ip' vs. fat32_get_block (demo_vol [2, 3]) (demo_file [2, 3]) 0 32 False = Some (demo_vol [2, 3], ip', vs, length (blocks_of vs)) \<and>
      file_ok (demo_vol [2, 3]) ip' [2, 3] \<and>
      blocks_of vs = take (32 div sector_size (demo_vol [2, 3])) (drop (0 div sector_size (demo_vol [2, 3])) (file_sectors (demo_vol [2, 3]) [2, 3]))"
    by (rule fat32_get_block_correct [OF demo_volume_ok f]) (simp_all add: LOGISTIC_C_NUM_def)
  then show ?thesis unfolding demo_sectors by auto
qed

end
