(* ===== verification/FatDir.thy ===== *)
theory FatDir
  imports Fat Cstring HashTable
begin

text \<open>
  Directories of the FAT32 file system: the directory side of \<open>src/fs/fat32/fat32_inode.c\<close> with the stack of \<open>src/fs/fat32/fat32_stack.c\<close> and the entries
  of \<open>include/fs/fat/fat32_disk.h\<close>.

  A directory is the list of its slots of 32 bytes, as \<open>fat32_inode_read\<close> returns them; all writes to a directory are whole slots, so its size is 32 times their number.
  Names are lists of characters without the terminator.  Local arrays that the code leaves uninitialised are arguments: \<open>gn\<close> the array \<open>file_name\<close>, \<open>ge\<close>
  the array \<open>file_ext\<close>; a write or a scan beyond an array has no result.  The inode that \<open>fat32_inode_get\<close> builds for an entry is represented by
  the entry's offset in the directory, from which it is loaded.  The walks over a directory work on its slots as if the read had returned all of them:
  \<open>fat32_inode_general_trav\<close> does not look at the number of bytes \<open>fat32_inode_read\<close> returned, and after a short read (theory \<open>FileRead\<close> says when the read is
  complete) the rest of its buffer is zero and ends the walk.  That memory for buffers and hash entries is found is taken for
  granted, as the code panics otherwise.
\<close>

unbundle bit_operations_syntax

type_synonym uint16 = "16 word"

subsection \<open>Directory entries\<close>

record dirent_s_t =
  DIR_Name :: "byte list"
  DIR_Attr :: byte
  DIR_Dev :: byte
  DIR_CrtTimeTenth :: byte
  DIR_CrtTime :: uint16
  DIR_CrtDate :: uint16
  DIR_LstAccDate :: uint16
  DIR_FstClusHI :: uint16
  DIR_WrtTime :: uint16
  DIR_WrtDate :: uint16
  DIR_FstClusLO :: uint16
  DIR_FileSize :: uint

record dirent_l_t =
  LDIR_Ord :: byte
  LDIR_Name1 :: "uint16 list"
  LDIR_Attr :: byte
  LDIR_Type :: byte
  LDIR_Chksum :: byte
  LDIR_Name2 :: "uint16 list"
  LDIR_Nlinks :: uint16
  LDIR_Name3 :: "uint16 list"

text \<open>The layout of the packed structures in a slot, little endian.\<close>

type_synonym fcb = "byte list"

definition b16 :: "uint16 \<Rightarrow> byte list" where "b16 w = [ucast w, ucast (drop_bit 8 w)]"
definition b32 :: "uint \<Rightarrow> byte list" where "b32 w = [ucast w, ucast (drop_bit 8 w), ucast (drop_bit 16 w), ucast (drop_bit 24 w)]"
definition w16 :: "byte \<Rightarrow> byte \<Rightarrow> uint16" where "w16 lo hi = ucast lo OR push_bit 8 (ucast hi)"

definition pack_s :: "dirent_s_t \<Rightarrow> fcb" where
  "pack_s d = DIR_Name d @ [DIR_Attr d, DIR_Dev d, DIR_CrtTimeTenth d] @ b16 (DIR_CrtTime d) @ b16 (DIR_CrtDate d) @ b16 (DIR_LstAccDate d) @
     b16 (DIR_FstClusHI d) @ b16 (DIR_WrtTime d) @ b16 (DIR_WrtDate d) @ b16 (DIR_FstClusLO d) @ b32 (DIR_FileSize d)"

definition pack_l :: "dirent_l_t \<Rightarrow> fcb" where
  "pack_l d = [LDIR_Ord d] @ concat (List.map b16 (LDIR_Name1 d)) @ [LDIR_Attr d, LDIR_Type d, LDIR_Chksum d] @ concat (List.map b16 (LDIR_Name2 d)) @
     b16 (LDIR_Nlinks d) @ concat (List.map b16 (LDIR_Name3 d))"

definition as_l :: "fcb \<Rightarrow> dirent_l_t" where
  "as_l s = (let chars = (\<lambda>o' n. List.map (\<lambda>i. w16 (s ! (o' + 2 * i)) (s ! (o' + 2 * i + 1))) [0 ..< n]) in
     \<lparr>LDIR_Ord = s ! 0, LDIR_Name1 = chars 1 5, LDIR_Attr = s ! 11, LDIR_Type = s ! 12, LDIR_Chksum = s ! 13, LDIR_Name2 = chars 14 6,
      LDIR_Nlinks = w16 (s ! 26) (s ! 27), LDIR_Name3 = chars 28 2\<rparr>)"

text \<open>Reading a slot as a short entry: its name is bytes 0 to 10, its attributes are byte 11.\<close>

definition name_of :: "fcb \<Rightarrow> byte list" where "name_of s = take 11 s"
definition attr_of :: "fcb \<Rightarrow> byte" where "attr_of s = s ! 11"

definition ATTR_DIRECTORY :: byte where "ATTR_DIRECTORY = 0x10"
definition ATTR_ARCHIVE :: byte where "ATTR_ARCHIVE = 0x20"
definition ATTR_LONG_NAME :: byte where "ATTR_LONG_NAME = 0x01 OR 0x02 OR 0x04 OR 0x08"
definition LAST_LONG_ENTRY :: nat where "LAST_LONG_ENTRY = 0x40"
definition FAT_LFN_LENGTH :: nat where "FAT_LFN_LENGTH = 13"
definition NAME_LONG_MAX :: nat where "NAME_LONG_MAX = 255"
definition PATH_LONG_MAX :: nat where "PATH_LONG_MAX = 260"

definition NAME0_FREE_ONLY :: "fcb \<Rightarrow> bool" where "NAME0_FREE_ONLY s \<longleftrightarrow> s ! 0 = 0xE5"
definition NAME0_FREE_ALL :: "fcb \<Rightarrow> bool" where "NAME0_FREE_ALL s \<longleftrightarrow> s ! 0 = 0"
definition NAME0_FREE_BOOL :: "fcb \<Rightarrow> bool" where "NAME0_FREE_BOOL s \<longleftrightarrow> NAME0_FREE_ONLY s \<or> NAME0_FREE_ALL s"
definition LONG_NAME_BOOL :: "byte \<Rightarrow> bool" where "LONG_NAME_BOOL a \<longleftrightarrow> a XOR ATTR_LONG_NAME = 0"
definition LAST_LONG_ENTRY_BOOL :: "byte \<Rightarrow> bool" where "LAST_LONG_ENTRY_BOOL x \<longleftrightarrow> x AND word_of_nat LAST_LONG_ENTRY \<noteq> 0"
definition LONG_NAME_CHAR_VALID :: "uint16 \<Rightarrow> bool" where "LONG_NAME_CHAR_VALID x \<longleftrightarrow> x \<noteq> 0 \<and> x \<noteq> 0xFFFF"
definition fat32_namecmp :: "byte list \<Rightarrow> byte list \<Rightarrow> bool" where "fat32_namecmp s t \<longleftrightarrow> take PATH_LONG_MAX s = take PATH_LONG_MAX t"

text \<open>The C string at the start of an array.\<close>

definition c_str :: "byte list \<Rightarrow> byte list" where "c_str xs = takeWhile (\<lambda>c. c \<noteq> 0) xs"

subsection \<open>The stack of long entries\<close>

text \<open>\<open>fat32_stack.c\<close>: the head of the list is the top.\<close>

definition CAPACITY :: nat where "CAPACITY = 30"

definition stack_is_empty :: "'a list \<Rightarrow> bool" where "stack_is_empty st \<longleftrightarrow> st = []"
definition stack_is_full :: "'a list \<Rightarrow> bool" where "stack_is_full st \<longleftrightarrow> length st = CAPACITY"

definition stack_push :: "'a list \<Rightarrow> 'a \<Rightarrow> 'a list option" where
  "stack_push st x = (if stack_is_full st then None else Some (x # st))"

fun stack_pop :: "'a list \<Rightarrow> ('a \<times> 'a list) option" where
  "stack_pop [] = None"
| "stack_pop (x # st) = Some (x, st)"

subsection \<open>Names\<close>

definition ChkSum :: "byte list \<Rightarrow> byte" where
  "ChkSum nm = foldl (\<lambda>s c. (if s AND 1 \<noteq> 0 then 0x80 else 0) + drop_bit 1 s + c) 0 (take 11 nm)"

fun filter_chars :: "uint16 list \<Rightarrow> byte list" where
  "filter_chars [] = []"
| "filter_chars (c # cs) = ucast (c AND 0xFF) # (if LONG_NAME_CHAR_VALID c then filter_chars cs else [])"

definition fat32_filter_longname :: "dirent_l_t \<Rightarrow> byte list" where
  "fat32_filter_longname d = filter_chars (LDIR_Name1 d @ LDIR_Name2 d @ LDIR_Name3 d)"

text \<open>The loop of \<open>fat32_longname_popstack\<close>: the stack left, and the characters with the last entry popped unless the order was wrong.\<close>

fun popstack_loop :: "dirent_l_t list \<Rightarrow> byte list \<Rightarrow> byte \<Rightarrow> byte list \<Rightarrow> (dirent_l_t list \<times> (byte list \<times> dirent_l_t) option) option" where
  "popstack_loop [] sname cnt buf = None"
| "popstack_loop (d # st) sname cnt buf =
     (if st \<noteq> [] \<and> cnt \<noteq> LDIR_Ord d then Some (st, None)
      else do {
        ASSERT (LDIR_Chksum d = ChkSum sname);
        let buf = buf @ fat32_filter_longname d;
        ASSERT (length buf \<le> NAME_LONG_MAX);
        if st = [] then do { ASSERT (length buf < NAME_LONG_MAX); Some ([], Some (buf, d)) }
        else popstack_loop st sname (cnt + 1) buf })"

definition fat32_longname_popstack :: "dirent_l_t list \<Rightarrow> byte list \<Rightarrow> (dirent_l_t list \<times> byte list option) option" where
  "fat32_longname_popstack st sname =
     (if stack_is_empty st then Some (st, None)
      else do {
        (st, r) \<leftarrow> popstack_loop st sname 1 [];
        Some (st, case r of None \<Rightarrow> None | Some (buf, d) \<Rightarrow> if LAST_LONG_ENTRY_BOOL (LDIR_Ord d) then Some (c_str buf) else None) })"

definition fat32_short_name_parser :: "fcb \<Rightarrow> byte list" where
  "fat32_short_name_parser s =
     (let nm = name_of s in
      c_str (filter (\<lambda>c. c \<noteq> 0x20) (take 8 nm) @ (if nm ! 8 \<noteq> 0x20 then 46 # filter (\<lambda>c. c \<noteq> 0x20) (drop 8 nm) else [])))"

subsection \<open>Creating entries\<close>

text \<open>The string functions of \<open>src/lib/string.c\<close> on arrays: \<open>strncpy\<close> into an array at an offset, and \<open>str_toupper\<close>, which needs a terminator.\<close>

definition arr_strncpy :: "byte list \<Rightarrow> nat \<Rightarrow> byte list \<Rightarrow> nat \<Rightarrow> byte list option" where
  "arr_strncpy dst o' src n = do {
     ASSERT (o' + n \<le> length dst);
     Some (take o' dst @ List.map (cpy (c_str src)) [0 ..< n] @ drop (o' + n) dst) }"

definition arr_toupper :: "byte list \<Rightarrow> byte list option" where
  "arr_toupper a = do {
     ASSERT (0 \<in> set a);
     Some (List.map toupper (c_str a) @ dropWhile (\<lambda>c. c \<noteq> 0) a) }"

definition same_name :: "byte list \<Rightarrow> fcb \<Rightarrow> bool" where
  "same_name nm s \<longleftrightarrow> \<not> LONG_NAME_BOOL (attr_of s) \<and> take 6 (c_str (name_of s)) = take 6 nm \<and> name_of s ! 6 = 126"

text \<open>The array \<open>name_search\<close> has 50 bytes; \<open>safestrcpy\<close> writes the name and its terminator.\<close>

definition NAME_SEARCH :: nat where "NAME_SEARCH = 50"

definition fat32_find_same_name_cnt :: "fcb list \<Rightarrow> byte list \<Rightarrow> nat option" where
  "fat32_find_same_name_cnt slots nm = do {
     ASSERT (length nm < NAME_SEARCH);
     Some (length (filter (same_name nm) (takeWhile (\<lambda>s. \<not> NAME0_FREE_ALL s) slots))) }"

definition S_IFMT :: uint16 where "S_IFMT = 0xF000"
definition S_ISDIR :: "uint16 \<Rightarrow> bool" where "S_ISDIR mode \<longleftrightarrow> mode AND S_IFMT = 0x4000"
definition S_ISCHR :: "uint16 \<Rightarrow> bool" where "S_ISCHR mode \<longleftrightarrow> mode AND S_IFMT = 0x2000"
definition S_ISBLK :: "uint16 \<Rightarrow> bool" where "S_ISBLK mode \<longleftrightarrow> mode AND S_IFMT = 0x6000"
definition ITYPE_TO_FATDEV :: "uint16 \<Rightarrow> byte" where "ITYPE_TO_FATDEV type = ucast (drop_bit 8 (type AND S_IFMT))"

text \<open>The short name of a data file, first the part with the extension, and of a directory.\<close>

definition ext_name :: "byte list \<Rightarrow> byte list \<Rightarrow> byte list \<Rightarrow> (byte list \<times> byte list) option" where
  "ext_name gn ge nm =
     (if 46 \<notin> set nm then do {
        file_name \<leftarrow> arr_strncpy gn 0 nm 8;
        Some (file_name, (replicate 11 0)[8 := 0x20, 9 := 0x20, 10 := 0x20]) }
      else do {
        let p = length (takeWhile (\<lambda>c. c \<noteq> 46) nm);
        file_name \<leftarrow> arr_strncpy gn 0 nm p;
        file_ext \<leftarrow> arr_strncpy ge 0 (drop (p + 1) nm) (length nm - 1 - p);
        file_ext \<leftarrow> arr_toupper file_ext;
        dir_name \<leftarrow> arr_strncpy (replicate 11 0) 8 file_ext 3;
        let n = length (c_str file_ext);
        let dir_name = (if n = 2 then dir_name[10 := 0x20] else dir_name);
        Some (file_name, if n = 1 then dir_name[10 := 0x20, 9 := 0x20] else dir_name) })"

definition tilde :: "fcb list \<Rightarrow> byte list \<Rightarrow> byte list \<Rightarrow> byte list option" where
  "tilde slots file_name dir_name = do {
     long_idx \<leftarrow> fat32_find_same_name_cnt slots (c_str file_name);
     Some (dir_name[6 := 126, 7 := word_of_nat (long_idx + 0x31)]) }"

definition short_name :: "fcb list \<Rightarrow> byte list \<Rightarrow> byte list \<Rightarrow> bool \<Rightarrow> byte list \<Rightarrow> byte list option" where
  "short_name slots gn ge dir nm =
     (if \<not> dir then do {
        (file_name, dir_name) \<leftarrow> ext_name gn ge nm;
        file_name \<leftarrow> arr_toupper file_name;
        dir_name \<leftarrow> arr_strncpy dir_name 0 file_name 8;
        if 8 < length nm then tilde slots file_name dir_name else Some dir_name }
      else do {
        file_name \<leftarrow> arr_strncpy gn 0 nm 11;
        file_name \<leftarrow> arr_toupper file_name;
        dir_name \<leftarrow> arr_strncpy (replicate 11 0) 0 file_name 8;
        if 8 < length nm then do {
          dir_name \<leftarrow> tilde slots file_name dir_name;
          Some (dir_name[8 := 0x20, 9 := 0x20, 10 := 0x20]) }
        else Some dir_name })"

text \<open>The characters of one long entry: the array filled up to the terminator, the rest keeping the 0xFFFF of the initialisation; the next index and whether
  the terminator was met.  \<open>cpy nm\<close> is the name with its terminator.\<close>

fun set_chars :: "nat \<Rightarrow> byte list \<Rightarrow> nat \<Rightarrow> bool \<Rightarrow> uint16 list \<times> nat \<times> bool" where
  "set_chars 0 nm i end_flag = ([], i, end_flag)"
| "set_chars (Suc n) nm i end_flag =
     (if end_flag then (replicate (Suc n) 0xFFFF, i, end_flag)
      else let (cs, j, e) = set_chars n nm (i + 1) (cpy nm i = 0) in ((ucast (cpy nm i) AND 0x00FF) # cs, j, e))"

definition long_entry :: "byte list \<Rightarrow> nat \<Rightarrow> byte \<Rightarrow> byte \<Rightarrow> dirent_l_t \<times> nat" where
  "long_entry nm char_idx ord' checksum =
     (let (n1, i, e) = set_chars 5 nm char_idx False;
          (n2, i, e) = set_chars 6 nm i e;
          (n3, i, e) = set_chars 2 nm i e
      in (\<lparr>LDIR_Ord = ord', LDIR_Name1 = n1, LDIR_Attr = ATTR_LONG_NAME, LDIR_Type = 0, LDIR_Chksum = checksum, LDIR_Name2 = n2, LDIR_Nlinks = 0,
           LDIR_Name3 = n3\<rparr>, i))"

text \<open>The loop over the long entries.  The macro \<open>LAST_LONG_ENTRY_SET\<close> assigns the loop variable too, which ends the loop.\<close>

function long_entries :: "nat \<Rightarrow> nat \<Rightarrow> byte list \<Rightarrow> nat \<Rightarrow> byte \<Rightarrow> dirent_l_t list \<Rightarrow> dirent_l_t list option" where
  "long_entries i ord_max nm char_idx checksum st =
     (if i \<le> ord_max then
        if char_idx = length nm then Some st
        else do {
          let i' = (if i = ord_max then i OR LAST_LONG_ENTRY else i);
          let (d, char_idx) = long_entry nm char_idx (word_of_nat i') checksum;
          st \<leftarrow> stack_push st d;
          if i = ord_max then Some st else long_entries (i + 1) ord_max nm char_idx checksum st }
      else Some st)"
  by pat_completeness auto
termination by (relation "measure (\<lambda>(i, ord_max, nm, char_idx, checksum, st). ord_max + 1 - i)") auto

declare long_entries.simps [simp del]

definition DIR_FIRST_HIGH :: "uint \<Rightarrow> uint16" where "DIR_FIRST_HIGH x = ucast (drop_bit 16 x)"
definition DIR_FIRST_LOW :: "uint \<Rightarrow> uint16" where "DIR_FIRST_LOW x = ucast (x AND 0xFFFF)"

definition zero_s :: dirent_s_t where
  "zero_s = \<lparr>DIR_Name = replicate 11 0, DIR_Attr = 0, DIR_Dev = 0, DIR_CrtTimeTenth = 0, DIR_CrtTime = 0, DIR_CrtDate = 0, DIR_LstAccDate = 0,
     DIR_FstClusHI = 0, DIR_WrtTime = 0, DIR_WrtDate = 0, DIR_FstClusLO = 0, DIR_FileSize = 0\<rparr>"

text \<open>The directory inode: its slots, first cluster, hash table from names to offsets and the hint.\<close>

record dnode =
  d_slots :: "fcb list"
  d_cluster :: FAT_entry_t
  i_hash :: "nat hash_table option"
  off_hint :: nat

definition fat32_fcb_init :: "byte list \<Rightarrow> byte list \<Rightarrow> fatfs \<Rightarrow> dnode \<Rightarrow> byte list \<Rightarrow> uint16 \<Rightarrow> (fatfs \<times> fcb list) option" where
  "fat32_fcb_init gn ge sb dp nm type =
     (let attr = (if S_ISDIR type then ATTR_DIRECTORY else ATTR_ARCHIVE);
          ds = zero_s\<lparr>DIR_Attr := attr, DIR_Dev := ITYPE_TO_FATDEV type\<rparr>
      in if fat32_namecmp nm [46] \<or> fat32_namecmp nm [46, 46] then do {
           dir_name \<leftarrow> arr_strncpy (replicate 11 0) 0 nm (length nm);
           Some (sb, [pack_s (ds\<lparr>DIR_Name := dir_name, DIR_FstClusHI := DIR_FIRST_HIGH (d_cluster dp), DIR_FstClusLO := DIR_FIRST_LOW (d_cluster dp)\<rparr>)]) }
         else do {
           dir_name \<leftarrow> short_name (d_slots dp) gn ge (S_ISDIR type) nm;
           (sb, first_c) \<leftarrow> (if S_ISCHR type \<or> S_ISBLK type then Some (sb, 0) else fat32_cluster_alloc sb);
           let ds = ds\<lparr>DIR_Name := dir_name, DIR_FstClusHI := DIR_FIRST_HIGH (word_of_nat first_c), DIR_FstClusLO := DIR_FIRST_LOW (word_of_nat first_c)\<rparr>;
           st \<leftarrow> long_entries 1 ((length nm + FAT_LFN_LENGTH - 1) div FAT_LFN_LENGTH) nm 0 (ChkSum dir_name) [];
           Some (sb, List.map pack_l st @ [pack_s ds]) })"

subsection \<open>Going through a directory\<close>

text \<open>What one slot means, given the stack of long entries: the end of the directory, nothing yet, or an entry with its name.\<close>

datatype fcb_event = All_free | Skip | Named "byte list"

definition fat32_inode_travel_fcb :: "fcb \<Rightarrow> dirent_l_t list \<Rightarrow> (fcb_event \<times> dirent_l_t list) option" where
  "fat32_inode_travel_fcb s st =
     (if NAME0_FREE_ALL s then Some (All_free, st)
      else if NAME0_FREE_ONLY s then do { ASSERT (stack_is_empty st); Some (Skip, st) }
      else if LONG_NAME_BOOL (LDIR_Attr (as_l s)) then do { st \<leftarrow> stack_push st (as_l s); Some (Skip, st) }
      else do {
        (st, r) \<leftarrow> fat32_longname_popstack st (name_of s);
        Some (Named (case r of None \<Rightarrow> fat32_short_name_parser s | Some nm \<Rightarrow> nm), st) })"

definition fat32_inode_hash_insert :: "nat hash_table \<Rightarrow> byte list \<Rightarrow> nat \<Rightarrow> nat hash_table option" where
  "fat32_inode_hash_insert h nm off = do {
     r \<leftarrow> hash_get h (key_name nm);
     case r of Some _ \<Rightarrow> Some h | None \<Rightarrow> do { (h, _) \<leftarrow> hash_insert h (key_name nm) off; Some h } }"

text \<open>\<open>fat32_inode_general_trav\<close> with the handlers for a lookup: the hash table, whether the walk was stopped, and the offset found.\<close>

fun trav_dirlookup :: "byte list \<Rightarrow> nat \<Rightarrow> dirent_l_t list \<Rightarrow> fcb list \<Rightarrow> nat hash_table \<Rightarrow> (nat hash_table \<times> bool \<times> nat option) option" where
  "trav_dirlookup nm off st [] h = Some (h, False, None)"
| "trav_dirlookup nm off st (s # rest) h = do {
     (ev, st) \<leftarrow> fat32_inode_travel_fcb s st;
     case ev of
       All_free \<Rightarrow> Some (h, True, None)
     | Skip \<Rightarrow> trav_dirlookup nm (off + 1) st rest h
     | Named x \<Rightarrow> do {
         h \<leftarrow> (if cpy x 0 \<noteq> 46 then fat32_inode_hash_insert h x off else Some h);
         if fat32_namecmp nm x then Some (h, True, Some off) else trav_dirlookup nm (off + 1) st rest h } }"

definition fat32_inode_dirlookup_with_hint :: "dnode \<Rightarrow> nat hash_table \<Rightarrow> byte list \<Rightarrow> (dnode \<times> nat option) option" where
  "fat32_inode_dirlookup_with_hint dp h nm = do {
     ASSERT (length nm < NAME_SEARCH);
     (h, stop, r) \<leftarrow> trav_dirlookup nm (off_hint dp) [] (drop (off_hint dp) (d_slots dp)) h;
     Some (dp\<lparr>i_hash := Some h, off_hint := (case r of Some off \<Rightarrow> off + 1 | None \<Rightarrow> if stop then off_hint dp else 0)\<rparr>, r) }"

definition NINODE :: nat where "NINODE = 200"

definition fat32_inode_hash_init :: "nat hash_table" where
  "fat32_inode_hash_init = hash_table_entry_init INODE_MAP NINODE"

definition fat32_inode_dirlookup :: "dnode \<Rightarrow> byte list \<Rightarrow> (dnode \<times> nat option) option" where
  "fat32_inode_dirlookup dp nm =
     (case i_hash dp of
        None \<Rightarrow> fat32_inode_dirlookup_with_hint dp fat32_inode_hash_init nm
      | Some h \<Rightarrow> do {
          r \<leftarrow> hash_get h (key_name nm);
          case r of Some off \<Rightarrow> Some (dp, Some off) | None \<Rightarrow> fat32_inode_dirlookup_with_hint dp h nm })"

text \<open>Where new entries go: \<open>ret\<close> is the result so far, \<open>cnt\<close> the free slots of the current run.\<close>

fun insert_scan :: "nat \<Rightarrow> nat \<Rightarrow> nat \<Rightarrow> nat \<Rightarrow> nat \<Rightarrow> fcb list \<Rightarrow> nat" where
  "insert_scan req base idx cnt ret [] = ret"
| "insert_scan req base idx cnt ret (s # rest) =
     (if \<not> NAME0_FREE_BOOL s then insert_scan req base (idx + 1) 0 base rest
      else let ret = (if cnt = 0 then idx else ret)
           in if cnt + 1 = req then ret else insert_scan req base (idx + 1) (cnt + 1) ret rest)"

definition fat32_dir_fcb_insert_offset :: "fcb list \<Rightarrow> byte \<Rightarrow> nat" where
  "fat32_dir_fcb_insert_offset slots req = insert_scan (unat req) (length slots) 0 0 0 slots"

definition write_slots :: "fcb list \<Rightarrow> nat \<Rightarrow> fcb list \<Rightarrow> fcb list" where
  "write_slots slots off es = take off slots @ es @ drop (off + length es) slots"

definition fat32_inode_alloc :: "byte list \<Rightarrow> byte list \<Rightarrow> fatfs \<Rightarrow> dnode \<Rightarrow> byte list \<Rightarrow> uint16 \<Rightarrow> (fatfs \<times> dnode \<times> nat) option" where
  "fat32_inode_alloc gn ge sb dp nm type = do {
     (sb, es) \<leftarrow> fat32_fcb_init gn ge sb dp nm type;
     let offset = fat32_dir_fcb_insert_offset (d_slots dp) (word_of_nat (length es));
     let off = offset + length es - 1;
     h \<leftarrow> fat32_inode_hash_insert (case i_hash dp of None \<Rightarrow> fat32_inode_hash_init | Some h \<Rightarrow> h) nm off;
     Some (sb, dp\<lparr>d_slots := write_slots (d_slots dp) offset es, i_hash := Some h, off_hint := off + 1\<rparr>, off) }"

text \<open>\<open>fat32_isdirempty\<close>: the name of a slot is read as a C string, which may run into the fields behind it.\<close>

definition fat32_isdirempty :: "fcb list \<Rightarrow> bool" where
  "fat32_isdirempty slots = list_all (\<lambda>s. NAME0_FREE_BOOL s \<or> fat32_namecmp (c_str s) [46] \<or> fat32_namecmp (c_str s) [46, 46]) slots"

definition fat32_fcb_delete :: "dnode \<Rightarrow> byte list \<Rightarrow> nat \<Rightarrow> dnode option" where
  "fat32_fcb_delete dp fname off = do {
     ASSERT (0 < off);
     let long_dir_len = (length fname + FAT_LFN_LENGTH - 1) div FAT_LFN_LENGTH;
     ASSERT (long_dir_len \<le> off);
     ASSERT (long_dir_len < 21);
     let es = replicate (long_dir_len + 1) (0xE5 # replicate 31 0);
     (h, _) \<leftarrow> (case i_hash dp of None \<Rightarrow> None | Some h \<Rightarrow> hash_delete h (key_name fname));
     Some (dp\<lparr>d_slots := write_slots (d_slots dp) (off - long_dir_len) es, i_hash := Some h\<rparr>) }"

definition fat32_inode_hash_destroy :: "dnode \<Rightarrow> dnode" where
  "fat32_inode_hash_destroy dp = (case i_hash dp of None \<Rightarrow> dp | Some _ \<Rightarrow> dp\<lparr>i_hash := None, off_hint := 0\<rparr>)"

subsection \<open>Slots\<close>

lemma w16_b16 [simp]: "w16 (ucast w) (ucast (drop_bit 8 w)) = w"
  by (intro bit_eqI) (auto simp: w16_def bit_simps)

lemma length_b16 [simp]: "length (b16 w) = 2"
  by (simp add: b16_def)

definition wf_l :: "dirent_l_t \<Rightarrow> bool" where
  "wf_l d \<longleftrightarrow> length (LDIR_Name1 d) = 5 \<and> length (LDIR_Name2 d) = 6 \<and> length (LDIR_Name3 d) = 2"

lemma as_l_pack [simp]:
  assumes "wf_l d"
  shows "as_l (pack_l d) = d"
proof -
  obtain a1 a2 a3 a4 a5 where 1: "LDIR_Name1 d = [a1, a2, a3, a4, a5]" using assms by (auto simp: wf_l_def length_Suc_conv eval_nat_numeral)
  obtain b1 b2 b3 b4 b5 b6 where 2: "LDIR_Name2 d = [b1, b2, b3, b4, b5, b6]" using assms by (auto simp: wf_l_def length_Suc_conv eval_nat_numeral)
  obtain c1 c2 where 3: "LDIR_Name3 d = [c1, c2]" using assms by (auto simp: wf_l_def length_Suc_conv eval_nat_numeral)
  show ?thesis by (cases d) (use 1 2 3 in \<open>simp add: as_l_def pack_l_def b16_def upt_rec\<close>)
qed

lemma pack_l_slot: "wf_l d \<Longrightarrow> pack_l d ! 0 = LDIR_Ord d \<and> length (pack_l d) = 32"
  by (auto simp: wf_l_def pack_l_def length_concat comp_def sum_list_triv)

lemma pack_s_slot:
  assumes "length (DIR_Name d) = 11"
  shows "name_of (pack_s d) = DIR_Name d" "LDIR_Attr (as_l (pack_s d)) = DIR_Attr d" "pack_s d ! 0 = DIR_Name d ! 0"
  using assms by (auto simp: name_of_def as_l_def pack_s_def nth_append)

subsection \<open>The characters of long entries\<close>

lemma set_chars_add:
  "set_chars (m + n) nm i e = (let (a, j, f) = set_chars m nm i e; (b, k, g) = set_chars n nm j f in (a @ b, k, g))"
proof (induction m arbitrary: i e)
  case (Suc m)
  show ?case
  proof (cases e)
    case True
    have "set_chars n nm i True = (replicate n 0xFFFF, i, True)" by (cases n) auto
    then show ?thesis using True by (simp add: replicate_add)
  next
    case False
    then show ?thesis using Suc [of "i + 1" "cpy nm i = 0"] by (simp add: Let_def split: prod.splits)
  qed
qed simp

lemma set_chars_length: "length (fst (set_chars n nm i e)) = n"
  by (induction n nm i e rule: set_chars.induct) (auto simp: Let_def split: prod.splits)

lemma char_roundtrip: "ucast ((ucast (c :: byte) :: uint16) AND 0x00FF) = c"
proof (rule bit_word_eqI)
  fix n assume "n < LENGTH(8)"
  then have "bit (255 :: uint16) n" using bit_mask_iff [of 8 n, where 'a = uint16] by (simp add: mask_eq_exp_minus_1)
  then show "bit (ucast ((ucast c :: uint16) AND 0x00FF) :: byte) n = bit c n" using \<open>n < LENGTH(8)\<close> by (auto simp: bit_simps)
qed

lemma char_valid: "LONG_NAME_CHAR_VALID ((ucast (c :: byte) :: uint16) AND 0x00FF) \<longleftrightarrow> c \<noteq> 0"
proof -
  have "(ucast c :: uint16) AND 0x00FF \<noteq> 0xFFFF"
  proof
    assume "(ucast c :: uint16) AND 0x00FF = 0xFFFF"
    then have "bit ((ucast c :: uint16) AND 0x00FF) 15 = bit (0xFFFF :: uint16) 15" by simp
    then show False by (simp add: bit_simps)
  qed
  moreover have "(ucast c :: uint16) AND 0x00FF = 0 \<longleftrightarrow> c = 0"
    using char_roundtrip [of c] by (metis and_zero_eq bit.conj_zero_left ucast_0)
  ultimately show ?thesis by (simp add: LONG_NAME_CHAR_VALID_def)
qed

lemma filter_set_chars:
  assumes "0 \<notin> set nm" "i \<le> length nm"
  shows "filter_chars (fst (set_chars n nm i False)) = (if i + n \<le> length nm then take n (drop i nm) else drop i nm @ [0])"
  using assms(2)
proof (induction n arbitrary: i)
  case (Suc n)
  show ?case
  proof (cases "i < length nm")
    case True
    have "nm ! i \<noteq> 0" using assms(1) nth_mem [OF True] by metis
    then have c: "cpy nm i = nm ! i" "nm ! i \<noteq> 0" using True by (simp_all add: cpy_def)
    have "drop i nm = nm ! i # drop (i + 1) nm" using True by (simp add: Cons_nth_drop_Suc)
    then show ?thesis using Suc.IH [of "i + 1"] True c by (cases "set_chars n nm (Suc i) False") (simp add: char_roundtrip char_valid)
  next
    case False
    then have "cpy nm i = 0" "i = length nm" using Suc.prems by (auto simp: cpy_def)
    then show ?thesis by (simp add: Let_def char_roundtrip char_valid LONG_NAME_CHAR_VALID_def split: prod.splits)
  qed
qed simp

lemma long_entry_chars:
  assumes "0 \<notin> set nm" "i \<le> length nm"
  shows "fat32_filter_longname (fst (long_entry nm i ord' cs)) = (if i + 13 \<le> length nm then take 13 (drop i nm) else drop i nm @ [0])"
proof -
  have "fst (set_chars (5 + (6 + 2)) nm i False) = (let d = fst (long_entry nm i ord' cs) in LDIR_Name1 d @ LDIR_Name2 d @ LDIR_Name3 d)"
    unfolding set_chars_add long_entry_def by (simp add: Let_def split: prod.splits)
  then show ?thesis using filter_set_chars [OF assms, of "5 + (6 + 2)"] by (simp add: fat32_filter_longname_def Let_def)
qed

subsection \<open>The long entries of a name\<close>

definition n_long :: "byte list \<Rightarrow> nat" where "n_long nm = (length nm + FAT_LFN_LENGTH - 1) div FAT_LFN_LENGTH"

text \<open>The long entry number \<open>k\<close> of a name, counted from 1.\<close>

definition ent :: "byte list \<Rightarrow> byte \<Rightarrow> nat \<Rightarrow> dirent_l_t" where
  "ent nm cs k = fst (long_entry nm (13 * (k - 1)) (word_of_nat (if k = n_long nm then k OR LAST_LONG_ENTRY else k)) cs)"

lemma n_long_bounds:
  assumes "nm \<noteq> []"
  shows "13 * (n_long nm - 1) < length nm" "length nm \<le> 13 * n_long nm" "1 \<le> n_long nm"
proof -
  have "0 < length nm" using assms by simp
  then show "13 * (n_long nm - 1) < length nm" "length nm \<le> 13 * n_long nm" "1 \<le> n_long nm"
    unfolding n_long_def FAT_LFN_LENGTH_def by linarith+
qed

lemma long_entry_sel:
  "LDIR_Ord (fst (long_entry nm i ord' cs)) = ord'" "LDIR_Chksum (fst (long_entry nm i ord' cs)) = cs"
  "LDIR_Attr (fst (long_entry nm i ord' cs)) = ATTR_LONG_NAME" "wf_l (fst (long_entry nm i ord' cs))"
  using set_chars_length by (auto simp: long_entry_def wf_l_def Let_def split: prod.splits) (metis fst_conv)+

lemma set_chars_index: "i + n \<le> length nm \<Longrightarrow> 0 \<notin> set nm \<Longrightarrow> \<exists>cs. set_chars n nm i False = (cs, i + n, False)"
proof (induction n arbitrary: i)
  case (Suc n)
  have i: "i < length nm" using Suc.prems(1) by simp
  then have "nm ! i \<noteq> 0" using Suc.prems(2) nth_mem [OF i] by metis
  then have "cpy nm i \<noteq> 0" using i by (simp add: cpy_def)
  moreover obtain cs where "set_chars n nm (i + 1) False = (cs, i + 1 + n, False)" using Suc.IH [of "i + 1"] Suc.prems by auto
  ultimately show ?case by simp
qed simp

lemma long_entry_index:
  assumes "i + 13 \<le> length nm" "0 \<notin> set nm"
  shows "snd (long_entry nm i ord' cs) = i + 13"
proof -
  obtain n1 n2 n3 where "set_chars 5 nm i False = (n1, i + 5, False)" "set_chars 6 nm (i + 5) False = (n2, i + 5 + 6, False)"
    "set_chars 2 nm (i + 5 + 6) False = (n3, i + 5 + 6 + 2, False)"
    using set_chars_index [of i 5 nm] set_chars_index [of "i + 5" 6 nm] set_chars_index [of "i + 5 + 6" 2 nm] assms by auto
  then show ?thesis unfolding long_entry_def by (simp only: Let_def case_prod_conv snd_conv)
qed

lemma long_entries_stack:
  assumes "0 \<notin> set nm" "nm \<noteq> []"
  shows "1 \<le> i \<Longrightarrow> i \<le> n_long nm \<Longrightarrow> length st + (n_long nm + 1 - i) \<le> CAPACITY \<Longrightarrow>
    long_entries i (n_long nm) nm (13 * (i - 1)) cs st = Some (rev (List.map (ent nm cs) [i ..< n_long nm + 1]) @ st)"
proof (induction "n_long nm - i" arbitrary: i st)
  case 0
  then have i: "i = n_long nm" by simp
  have "13 * (i - 1) \<noteq> length nm" using n_long_bounds(1) [OF assms(2)] i by simp
  then show ?case using 0 i by (subst long_entries.simps) (auto simp: ent_def stack_push_def stack_is_full_def Let_def split: prod.splits)
next
  case (Suc k)
  let ?d = "ent nm cs i"
  have i: "i < n_long nm" using Suc(2) by simp
  have e: "13 * (i - 1) + 13 = 13 * i" using Suc(3) by simp
  have "13 * i \<le> 13 * (n_long nm - 1)" using i by simp
  then have len: "13 * (i - 1) + 13 \<le> length nm" using n_long_bounds(1) [OF assms(2)] unfolding e by linarith
  have "long_entries (i + 1) (n_long nm) nm (13 * (i + 1 - 1)) cs (?d # st) = Some (rev (List.map (ent nm cs) [i + 1 ..< n_long nm + 1]) @ ?d # st)"
    by (rule Suc(1)) (use Suc(2-5) in auto)
  moreover have "[i ..< n_long nm + 1] = i # [i + 1 ..< n_long nm + 1]" using i by (simp add: upt_conv_Cons)
  moreover have "long_entry nm (13 * (i - 1)) (word_of_nat i) cs = (?d, 13 * i)"
    using long_entry_index [OF len assms(1)] i e by (intro prod_eqI) (simp_all add: ent_def)
  moreover have "length st \<noteq> CAPACITY" "13 * (i - 1) \<noteq> length nm" using Suc(3,5) i len by auto
  ultimately show ?case
    using i by (subst long_entries.simps) (simp add: stack_push_def stack_is_full_def)
qed

lemma ent_sel [simp]: "LDIR_Chksum (ent nm cs k) = cs" "LDIR_Attr (ent nm cs k) = ATTR_LONG_NAME" "wf_l (ent nm cs k)"
  by (simp_all add: ent_def long_entry_sel)

text \<open>Popping the entries in order gives the name back.\<close>

lemma popstack_step:
  assumes "LDIR_Chksum d = ChkSum sname" "st \<noteq> [] \<Longrightarrow> cnt = LDIR_Ord d" "length (buf @ fat32_filter_longname d) < NAME_LONG_MAX"
  shows "popstack_loop (d # st) sname cnt buf =
    (if st = [] then Some ([], Some (buf @ fat32_filter_longname d, d)) else popstack_loop st sname (cnt + 1) (buf @ fat32_filter_longname d))"
  using assms by auto

declare popstack_loop.simps(2) [simp del]

lemma popstack_name:
  assumes "0 \<notin> set nm" "nm \<noteq> []" "length nm < 254" "ChkSum sname = cs"
  shows "1 \<le> k \<Longrightarrow> k \<le> n_long nm \<Longrightarrow>
    popstack_loop (List.map (ent nm cs) [k ..< n_long nm + 1]) sname (word_of_nat k) (take (13 * (k - 1)) nm) =
      Some ([], Some (nm @ (if length nm = 13 * n_long nm then [] else [0]), ent nm cs (n_long nm)))"
proof (induction "n_long nm - k" arbitrary: k)
  case 0
  then have k: "k = n_long nm" by simp
  let ?d = "ent nm cs k"
  have b: "13 * (k - 1) < length nm" "length nm \<le> 13 * (k - 1) + 13" using n_long_bounds [OF assms(2)] k 0(2) by (auto simp: algebra_simps)
  have "length nm = 13 * n_long nm \<longleftrightarrow> 13 * (k - 1) + 13 \<le> length nm" using b n_long_bounds(3) [OF assms(2)] k by (cases k) auto
  moreover have "take 13 (drop (13 * (k - 1)) nm) = drop (13 * (k - 1)) nm" using b(2) by simp
  ultimately have f: "take (13 * (k - 1)) nm @ fat32_filter_longname ?d = nm @ (if length nm = 13 * n_long nm then [] else [0])"
    using long_entry_chars [OF assms(1), of "13 * (k - 1)"] b(1) by (simp add: ent_def)
  have "length (nm @ (if length nm = 13 * n_long nm then [] else [0])) < NAME_LONG_MAX" using assms(3) by (simp add: NAME_LONG_MAX_def)
  then have "length (take (13 * (k - 1)) nm @ fat32_filter_longname ?d) < NAME_LONG_MAX" unfolding f .
  then have "popstack_loop [?d] sname (word_of_nat k) (take (13 * (k - 1)) nm) = Some ([], Some (nm @ (if length nm = 13 * n_long nm then [] else [0]), ?d))"
    by (subst popstack_step) (simp_all only: f assms(4) ent_sel, simp_all)
  then show ?case using k by simp
next
  case (Suc m)
  let ?d = "ent nm cs k"
  have k: "k < n_long nm" using Suc(2) by simp
  have e: "13 * (k - 1) + 13 = 13 * k" using Suc(3) by simp
  have "13 * k \<le> 13 * (n_long nm - 1)" using k by simp
  then have len: "13 * (k - 1) + 13 \<le> length nm" using n_long_bounds(1) [OF assms(2)] unfolding e by linarith
  have f: "take (13 * (k - 1)) nm @ fat32_filter_longname ?d = take (13 * k) nm"
    using long_entry_chars [OF assms(1), of "13 * (k - 1)"] len e [symmetric] by (simp add: ent_def take_add)
  have u: "[k ..< n_long nm + 1] = k # [k + 1 ..< n_long nm + 1]" using k by (simp add: upt_conv_Cons)
  have ne: "List.map (ent nm cs) [k + 1 ..< n_long nm + 1] \<noteq> []" using k by simp
  have "popstack_loop (?d # List.map (ent nm cs) [k + 1 ..< n_long nm + 1]) sname (word_of_nat k) (take (13 * (k - 1)) nm) =
      popstack_loop (List.map (ent nm cs) [k + 1 ..< n_long nm + 1]) sname (word_of_nat k + 1) (take (13 * k) nm)"
  proof (subst popstack_step)
    show "LDIR_Chksum ?d = ChkSum sname" using assms(4) by simp
    show "word_of_nat k = LDIR_Ord ?d" using k by (simp add: ent_def long_entry_sel)
    show "length (take (13 * (k - 1)) nm @ fat32_filter_longname ?d) < NAME_LONG_MAX" unfolding f using assms(3) by (simp add: NAME_LONG_MAX_def)
  qed (simp only: f ne if_False)
  moreover have "popstack_loop (List.map (ent nm cs) [k + 1 ..< n_long nm + 1]) sname (word_of_nat (k + 1)) (take (13 * (k + 1 - 1)) nm) =
      Some ([], Some (nm @ (if length nm = 13 * n_long nm then [] else [0]), ent nm cs (n_long nm)))"
    by (rule Suc(1)) (use Suc(2-4) in auto)
  ultimately show ?case unfolding u by (simp add: add.commute)
qed

lemma c_str_name: "0 \<notin> set nm \<Longrightarrow> c_str (nm @ (if b then [] else [0])) = nm"
  by (auto simp: c_str_def takeWhile_append)

lemma n_long_small: "length nm < 254 \<Longrightarrow> n_long nm < 21"
  by (simp add: n_long_def FAT_LFN_LENGTH_def)

lemma last_entry_flag: "LAST_LONG_ENTRY_BOOL (LDIR_Ord (ent nm cs (n_long nm)))"
proof -
  have "bit (word_of_nat (n_long nm OR 64) AND (word_of_nat 64 :: byte)) 6" by (simp add: of_nat_or_eq bit_and_iff bit_or_iff)
  then have "word_of_nat (n_long nm OR 64) AND (word_of_nat 64 :: byte) \<noteq> 0" by (metis bit_0_eq bot_apply bot_bool_def)
  then show ?thesis by (simp only: LAST_LONG_ENTRY_BOOL_def ent_def long_entry_sel LAST_LONG_ENTRY_def simp_thms if_True)
qed

lemma ent_ord:
  assumes "1 \<le> k" "k \<le> n_long nm" "length nm < 254"
  shows "LDIR_Ord (ent nm cs k) \<notin> {0, 0xE5}"
proof -
  have k: "k < 21" using assms(2) n_long_small [OF assms(3)] by simp
  have w: "(word_of_nat x :: byte) \<notin> {0, 0xE5}" if "0 < x" "x < 128" for x
  proof -
    have "unat (word_of_nat x :: byte) = x" using that(2) by (simp add: unat_of_nat take_bit_nat_eq_self_iff)
    then show ?thesis using that by auto
  qed
  have "take_bit 7 k = k" "take_bit 7 (64 :: nat) = 64" using k by (simp_all add: take_bit_nat_eq_self_iff)
  then have "take_bit 7 (k OR 64) = k OR 64" by simp
  then have "k OR 64 < 2 ^ 7" by (metis take_bit_nat_less_exp)
  moreover have "k OR 64 \<noteq> 0" by (simp add: or_eq_0_iff del: neq0_conv)
  ultimately show ?thesis using w [of k] w [of "k OR 64"] k assms(1) by (auto simp: ent_def long_entry_sel LAST_LONG_ENTRY_def)
qed

lemma popstack_ents:
  assumes "0 \<notin> set nm" "nm \<noteq> []" "length nm < 254" "ChkSum sname = cs"
  shows "fat32_longname_popstack (List.map (ent nm cs) [1 ..< n_long nm + 1]) sname = Some ([], Some nm)"
proof -
  have "popstack_loop (List.map (ent nm cs) [1 ..< n_long nm + 1]) sname 1 [] =
      Some ([], Some (nm @ (if length nm = 13 * n_long nm then [] else [0]), ent nm cs (n_long nm)))"
    using popstack_name [OF assms, of 1] n_long_bounds(3) [OF assms(2)] by simp
  then show ?thesis
    using n_long_bounds(3) [OF assms(2)] last_entry_flag [of nm cs] c_str_name [OF assms(1)]
    by (simp add: fat32_longname_popstack_def stack_is_empty_def)
qed

subsection \<open>The files of a directory\<close>

text \<open>The names of a directory with the offsets of their short entries, as the handlers see them.  No result: the walk would panic, long entries have no
  short one behind them or are left over after it, or the end mark is followed by other slots.\<close>

fun listing :: "nat \<Rightarrow> dirent_l_t list \<Rightarrow> fcb list \<Rightarrow> (byte list \<times> nat) list option" where
  "listing off st [] = (if st = [] then Some [] else None)"
| "listing off st (s # rest) = do {
     (ev, st') \<leftarrow> fat32_inode_travel_fcb s st;
     case ev of
       All_free \<Rightarrow> if st = [] \<and> list_all NAME0_FREE_ALL rest then Some [] else None
     | Skip \<Rightarrow> listing (off + 1) st' rest
     | Named x \<Rightarrow> if st' = [] then map_option (Cons (x, off)) (listing (off + 1) [] rest) else None }"

lemma xor_eq_0: "(a :: byte) XOR b = 0 \<longleftrightarrow> a = b"
proof
  assume "a XOR b = 0"
  then have "(a XOR b) XOR b = 0 XOR b" by (rule arg_cong)
  then show "a = b" by (simp add: xor.assoc)
qed simp

lemma travel_long:
  assumes "LDIR_Ord d \<notin> {0, 0xE5}" "LDIR_Attr d = ATTR_LONG_NAME" "wf_l d" "length st < CAPACITY"
  shows "fat32_inode_travel_fcb (pack_l d) st = Some (Skip, d # st)"
  using assms pack_l_slot [OF assms(3)]
  by (simp add: fat32_inode_travel_fcb_def NAME0_FREE_ALL_def NAME0_FREE_ONLY_def LONG_NAME_BOOL_def stack_push_def stack_is_full_def)

lemma listing_longs:
  assumes "\<forall>d\<in>set ds. LDIR_Ord d \<notin> {0, 0xE5} \<and> LDIR_Attr d = ATTR_LONG_NAME \<and> wf_l d" "length st + length ds \<le> CAPACITY"
  shows "listing off st (List.map pack_l ds @ rest) = listing (off + length ds) (rev ds @ st) rest"
  using assms
proof (induction ds arbitrary: off st)
  case (Cons d ds)
  then show ?case using travel_long [of d st] by (simp add: Cons.IH)
qed simp

text \<open>The entries created for a name are read as that name.\<close>

lemma listing_file:
  assumes "0 \<notin> set nm" "nm \<noteq> []" "length nm < 254" "length (DIR_Name ds) = 11" "DIR_Name ds ! 0 \<notin> {0, 0xE5}" "DIR_Attr ds \<noteq> ATTR_LONG_NAME"
    "cs = ChkSum (DIR_Name ds)" "es = List.map pack_l (rev (List.map (ent nm cs) [1 ..< n_long nm + 1])) @ [pack_s ds]"
  shows "listing off [] (es @ rest) = map_option (Cons (nm, off + length es - 1)) (listing (off + length es) [] rest)"
proof -
  let ?d = "rev (List.map (ent nm cs) [1 ..< n_long nm + 1])"
  note n = n_long_small [OF assms(3)]
  have "\<forall>d\<in>set ?d. LDIR_Ord d \<notin> {0, 0xE5} \<and> LDIR_Attr d = ATTR_LONG_NAME \<and> wf_l d"
    using ent_ord [OF _ _ assms(3)] by auto
  then have "listing off [] (List.map pack_l ?d @ pack_s ds # rest) = listing (off + length ?d) (rev ?d @ []) (pack_s ds # rest)"
    by (rule listing_longs) (use n in \<open>simp add: CAPACITY_def\<close>)
  moreover have "fat32_inode_travel_fcb (pack_s ds) (List.map (ent nm cs) [1 ..< n_long nm + 1]) = Some (Named nm, [])"
    using popstack_ents [OF assms(1-3), of "DIR_Name ds" cs] assms(4-7)
    by (simp add: fat32_inode_travel_fcb_def pack_s_slot NAME0_FREE_ALL_def NAME0_FREE_ONLY_def LONG_NAME_BOOL_def xor_eq_0 del: upt_Suc)
  ultimately show ?thesis using assms(8) by (simp add: rev_map del: upt_Suc)
qed

lemma listing_zeros:
  "listing off st slots = Some L \<Longrightarrow> i < j \<Longrightarrow> j < length slots \<Longrightarrow> NAME0_FREE_ALL (slots ! i) \<Longrightarrow> NAME0_FREE_ALL (slots ! j)"
proof (induction slots arbitrary: off st L i j)
  case (Cons s rest)
  obtain ev st' where t: "fat32_inode_travel_fcb s st = Some (ev, st')" using Cons.prems(1) by (cases "fat32_inode_travel_fcb s st") auto
  show ?case
  proof (cases "NAME0_FREE_ALL s")
    case True
    then have "list_all NAME0_FREE_ALL rest" using Cons.prems(1) t by (auto simp: fat32_inode_travel_fcb_def split: if_splits)
    then show ?thesis using Cons.prems(2,3) True by (cases j) (auto simp: list_all_length)
  next
    case False
    then obtain i' where i: "i = Suc i'" using Cons.prems(4) by (cases i) auto
    obtain j' where j: "j = Suc j'" using Cons.prems(2) by (cases j) auto
    have "\<exists>L'. listing (off + 1) st' rest = Some L'"
      using Cons.prems(1) t False by (auto simp: fat32_inode_travel_fcb_def split: fcb_event.splits if_splits bind_splits)
    then show ?thesis using Cons.IH [of "off + 1" st' _ i' j'] Cons.prems(2-4) i j by auto
  qed
qed simp

text \<open>At a free slot or at the end the stack is empty, so that the rest of the directory can be replaced.\<close>

lemma listing_cut:
  assumes "listing off st (A @ X) = Some L" "\<forall>s\<in>set A. \<not> NAME0_FREE_ALL s" "X = [] \<or> NAME0_FREE_BOOL (hd X)"
  shows "\<exists>LA LX. L = LA @ LX \<and> listing (off + length A) [] X = Some LX \<and> (\<forall>R. listing off st (A @ R) = map_option ((@) LA) (listing (off + length A) [] R))"
  using assms(1,2)
proof (induction A arbitrary: off st L)
  case Nil
  have "st = []"
  proof (cases X)
    case (Cons s rest)
    then show ?thesis using Nil(1) assms(3)
      by (auto simp: fat32_inode_travel_fcb_def NAME0_FREE_BOOL_def stack_is_empty_def split: if_splits)
  qed (use Nil(1) in \<open>auto split: if_splits\<close>)
  then show ?case using Nil(1) by (intro exI [of _ "[]"] exI [of _ L]) (auto simp: option.map_ident)
next
  case (Cons s A)
  obtain ev st' where t: "fat32_inode_travel_fcb s st = Some (ev, st')" using Cons.prems(1) by (cases "fat32_inode_travel_fcb s st") auto
  have ne: "ev \<noteq> All_free" using Cons.prems(2) t by (auto simp: fat32_inode_travel_fcb_def split: if_splits bind_splits)
  then obtain L' where L': "listing (off + 1) st' (A @ X) = Some L'" "L = (case ev of Named x \<Rightarrow> (x, off) # L' | _ \<Rightarrow> L')"
    "case ev of Named x \<Rightarrow> st' = [] | _ \<Rightarrow> True"
    using Cons.prems(1) t by (cases ev) (auto split: if_splits)
  obtain LA LX where *: "L' = LA @ LX" "listing (off + 1 + length A) [] X = Some LX"
    "\<forall>R. listing (off + 1) st' (A @ R) = map_option ((@) LA) (listing (off + 1 + length A) [] R)"
    using Cons.IH [OF L'(1)] Cons.prems(2) by auto
  let ?LA = "case ev of Named x \<Rightarrow> (x, off) # LA | _ \<Rightarrow> LA"
  have "L = ?LA @ LX" using L'(2) *(1) by (cases ev) auto
  moreover have "listing off st ((s # A) @ R) = map_option ((@) ?LA) (listing (off + length (s # A)) [] R)" for R
    using t ne *(3) L'(3) by (cases ev; cases "listing (Suc (off + length A)) [] R") auto
  ultimately show ?case using *(2) by (intro exI [of _ ?LA] exI [of _ LX]) auto
qed

lemma listing_free_run:
  "\<forall>s\<in>set F. NAME0_FREE_BOOL s \<Longrightarrow> listing off [] (F @ B) = Some L \<Longrightarrow> listing (off + length F) [] B = Some L"
proof (induction F arbitrary: off)
  case (Cons s F)
  show ?case
  proof (cases "NAME0_FREE_ALL s")
    case True
    then have "L = []" "list_all NAME0_FREE_ALL B" using Cons.prems(2) by (auto simp: fat32_inode_travel_fcb_def split: if_splits)
    then show ?thesis by (cases B) (auto simp: fat32_inode_travel_fcb_def)
  next
    case False
    then have "listing (off + 1) [] (F @ B) = Some L" using Cons.prems by (auto simp: fat32_inode_travel_fcb_def NAME0_FREE_BOOL_def stack_is_empty_def)
    then show ?thesis using Cons.IH [of "off + 1"] Cons.prems(1) by simp
  qed
qed simp

subsection \<open>The place for new entries\<close>

definition place_ok :: "fcb list \<Rightarrow> nat \<Rightarrow> nat \<Rightarrow> bool" where
  "place_ok slots n r \<longleftrightarrow> r \<le> length slots \<and> (\<forall>i<n. r + i < length slots \<longrightarrow> NAME0_FREE_BOOL (slots ! (r + i))) \<and> (r = 0 \<or> \<not> NAME0_FREE_BOOL (slots ! (r - 1)))"

lemma insert_scan_place:
  assumes "0 < req" "cnt < req" "idx \<le> length slots"
    "if cnt = 0 then ret = (if idx = 0 then 0 else length slots) \<and> (idx = 0 \<or> \<not> NAME0_FREE_BOOL (slots ! (idx - 1)))
     else ret + cnt = idx \<and> (\<forall>i. ret \<le> i \<and> i < idx \<longrightarrow> NAME0_FREE_BOOL (slots ! i)) \<and> (ret = 0 \<or> \<not> NAME0_FREE_BOOL (slots ! (ret - 1)))"
  shows "place_ok slots req (insert_scan req (length slots) idx cnt ret (drop idx slots))"
  using assms(2-4)
proof (induction "length slots - idx" arbitrary: idx cnt ret)
  case 0
  then show ?case by (auto simp: place_ok_def split: if_splits)
next
  case (Suc k)
  then have i: "idx < length slots" by simp
  then have d: "drop idx slots = slots ! idx # drop (idx + 1) slots" by (simp add: Cons_nth_drop_Suc)
  show ?case
  proof (cases "NAME0_FREE_BOOL (slots ! idx)")
    case False
    have "place_ok slots req (insert_scan req (length slots) (idx + 1) 0 (length slots) (drop (idx + 1) slots))"
      by (rule Suc(1)) (use Suc(2) i False assms(1) in auto)
    then show ?thesis using False d by simp
  next
    case True
    let ?ret = "if cnt = 0 then idx else ret"
    have r: "?ret + (cnt + 1) = idx + 1" "\<forall>i. ?ret \<le> i \<and> i < idx + 1 \<longrightarrow> NAME0_FREE_BOOL (slots ! i)" "?ret = 0 \<or> \<not> NAME0_FREE_BOOL (slots ! (?ret - 1))"
      using Suc(5) True by (auto simp: less_Suc_eq split: if_splits)
    show ?thesis
    proof (cases "cnt + 1 = req")
      case t: True
      have "place_ok slots req ?ret" using r i t by (auto simp: place_ok_def split: if_splits)
      then show ?thesis using True d t by simp
    next
      case False
      have "place_ok slots req (insert_scan req (length slots) (idx + 1) (cnt + 1) ?ret (drop (idx + 1) slots))"
        by (rule Suc(1)) (use Suc(2,3) i False r in auto)
      then show ?thesis using True d False by simp
    qed
  qed
qed

lemma insert_offset_place:
  assumes "0 < n" "n < 256"
  shows "place_ok slots n (fat32_dir_fcb_insert_offset slots (word_of_nat n))"
  using insert_scan_place [of n 0 0 slots 0] assms by (simp add: fat32_dir_fcb_insert_offset_def unat_of_nat take_bit_nat_eq_self_iff)

text \<open>Writing slots there adds the files they make up and nothing else.\<close>

lemma listing_insert:
  assumes "listing 0 [] slots = Some L" "place_ok slots (length es) r" "es \<noteq> []"
    "\<And>off rest. listing off [] (es @ rest) = map_option ((@) (g off)) (listing (off + length es) [] rest)"
  shows "\<exists>L1 L2. L = L1 @ L2 \<and> listing 0 [] (write_slots slots r es) = Some (L1 @ g r @ L2) \<and>
    listing (r + length es) [] (drop (r + length es) (write_slots slots r es)) = Some L2"
proof -
  let ?A = "take r slots" and ?X = "drop r slots" and ?B = "drop (r + length es) slots"
  have P: "r \<le> length slots" "\<forall>i<length es. r + i < length slots \<longrightarrow> NAME0_FREE_BOOL (slots ! (r + i))" "r = 0 \<or> \<not> NAME0_FREE_BOOL (slots ! (r - 1))"
    using assms(2) by (auto simp: place_ok_def)
  have "\<not> NAME0_FREE_ALL s" if s: "s \<in> set ?A" for s
  proof
    assume z: "NAME0_FREE_ALL s"
    obtain i where i: "i < r" "s = slots ! i" using s P(1) by (auto simp: in_set_conv_nth)
    then have "NAME0_FREE_ALL (slots ! (r - 1))" using listing_zeros [OF assms(1), of i "r - 1"] z P(1) by (cases "i = r - 1") auto
    then show False using P(3) i(1) by (auto simp: NAME0_FREE_BOOL_def)
  qed
  moreover have "?X = [] \<or> NAME0_FREE_BOOL (hd ?X)"
    using P(2) [rule_format, of 0] assms(3) by (cases "r < length slots") (auto simp: hd_drop_conv_nth)
  ultimately obtain LA LX where c: "L = LA @ LX" "listing r [] ?X = Some LX" "\<And>R. listing 0 [] (?A @ R) = map_option ((@) LA) (listing r [] R)"
    using listing_cut [of 0 "[]" ?A ?X L] assms(1) P(1) by auto
  let ?F = "take (length es) ?X"
  have "\<forall>s\<in>set ?F. NAME0_FREE_BOOL s" using P(2) by (auto simp: in_set_conv_nth)
  moreover have "?X = ?F @ ?B" by (metis append_take_drop_id drop_drop add.commute)
  ultimately have B: "listing (r + length ?F) [] ?B = Some LX" using listing_free_run [of ?F r ?B LX] c(2) by metis
  have B': "listing (r + length es) [] ?B = Some LX"
  proof (cases "r + length es \<le> length slots")
    case True
    then show ?thesis using B by simp
  qed (use B in auto)
  have "drop (r + length es) (write_slots slots r es) = ?B" using P(1) by (simp add: write_slots_def)
  then show ?thesis using c assms(4) [of r ?B] B' by (intro exI [of _ LA] exI [of _ LX]) (auto simp: write_slots_def)
qed

subsection \<open>Short names\<close>

lemma arr_strncpy_length: "arr_strncpy dst o' src n = Some a \<Longrightarrow> length a = length dst"
  by (auto simp: arr_strncpy_def)

lemma tilde_length: "tilde slots fn dn = Some d \<Longrightarrow> length d = length dn \<and> d ! 0 = dn ! 0"
  by (cases dn) (auto simp: tilde_def bind_eq_Some_conv)

lemma ext_name_length: "ext_name gn ge nm = Some (fn, dn) \<Longrightarrow> length dn = 11"
  by (auto simp: ext_name_def bind_eq_Some_conv Let_def split: if_splits dest!: arr_strncpy_length)

text \<open>The first character of the short name is the first one of the array \<open>file_name\<close>, in upper case.\<close>

lemma toupper_first: "arr_toupper a = Some b \<Longrightarrow> b ! 0 = toupper (a ! 0) \<and> b \<noteq> []"
  by (cases a) (auto simp: arr_toupper_def c_str_def toupper_def islower_range split: if_splits)

lemma strncpy_first: "arr_strncpy dst 0 src n = Some a \<Longrightarrow> 0 < n \<Longrightarrow> src \<noteq> [] \<Longrightarrow> a ! 0 = src ! 0"
  by (cases src) (auto simp: arr_strncpy_def nth_append cpy_def c_str_def)

lemma short_name_elim:
  assumes "short_name slots gn ge dir nm = Some dn"
  obtains fn d0 b d where "if dir then arr_strncpy gn 0 nm 11 = Some fn \<and> d0 = replicate 11 0 else ext_name gn ge nm = Some (fn, d0)"
    "arr_toupper fn = Some b" "arr_strncpy d0 0 b 8 = Some d" "length dn = length d" "d \<noteq> [] \<Longrightarrow> dn ! 0 = d ! 0"
proof (cases dir)
  case True
  then obtain fn b d where *: "arr_strncpy gn 0 nm 11 = Some fn" "arr_toupper fn = Some b" "arr_strncpy (replicate 11 0) 0 b 8 = Some d"
    "(if 8 < length nm then do { dir_name \<leftarrow> tilde slots b d; Some (dir_name[8 := 0x20, 9 := 0x20, 10 := 0x20]) } else Some d) = Some dn"
    using assms unfolding short_name_def by (auto simp: bind_eq_Some_conv)
  show ?thesis
  proof (cases "8 < length nm")
    case True
    then obtain x where "tilde slots b d = Some x" "dn = x[8 := 0x20, 9 := 0x20, 10 := 0x20]" using *(4) by (auto simp: bind_eq_Some_conv)
    then show ?thesis using that [OF _ *(2,3)] * \<open>dir\<close> tilde_length [of slots b d x] by simp
  qed (use that [OF _ *(2,3)] * \<open>dir\<close> in simp)
next
  case False
  then obtain fn d0 b d where *: "ext_name gn ge nm = Some (fn, d0)" "arr_toupper fn = Some b" "arr_strncpy d0 0 b 8 = Some d"
    "(if 8 < length nm then tilde slots b d else Some d) = Some dn"
    using assms unfolding short_name_def by (auto simp: bind_eq_Some_conv)
  show ?thesis using that [OF _ *(2,3)] * False tilde_length [of slots b d dn] by (cases "8 < length nm") auto
qed

lemma short_name_length: "short_name slots gn ge dir nm = Some dn \<Longrightarrow> length dn = 11"
  by (erule short_name_elim) (metis arr_strncpy_length ext_name_length length_replicate)

lemma short_name_first:
  assumes "short_name slots gn ge dir nm = Some dn" "nm \<noteq> []" "dir \<or> nm ! 0 \<noteq> 46"
  shows "dn ! 0 = toupper (nm ! 0)"
  using assms(1)
proof (rule short_name_elim)
  fix fn d0 b d
  assume f: "if dir then arr_strncpy gn 0 nm 11 = Some fn \<and> d0 = replicate 11 0 else ext_name gn ge nm = Some (fn, d0)"
    "arr_toupper fn = Some b" "arr_strncpy d0 0 b 8 = Some d" "length dn = length d" "d \<noteq> [] \<Longrightarrow> dn ! 0 = d ! 0"
  have "\<exists>n. 0 < n \<and> arr_strncpy gn 0 nm n = Some fn"
  proof (cases dir)
    case True
    then show ?thesis using f(1) by (intro exI [of _ 11]) simp
  next
    case False
    then have e: "ext_name gn ge nm = Some (fn, d0)" "nm ! 0 \<noteq> 46" using f(1) assms(3) by auto
    then have p: "0 < length (takeWhile (\<lambda>c. c \<noteq> 46) nm)" using assms(2) by (cases nm) auto
    show ?thesis
    proof (cases "46 \<in> set nm")
      case True
      then have "arr_strncpy gn 0 nm (length (takeWhile (\<lambda>c. c \<noteq> 46) nm)) = Some fn" using e(1) unfolding ext_name_def by (auto simp: bind_eq_Some_conv Let_def)
      then show ?thesis using p by blast
    next
      case n: False
      then have "arr_strncpy gn 0 nm 8 = Some fn" using e(1) unfolding ext_name_def by (auto simp: bind_eq_Some_conv)
      then show ?thesis by (intro exI [of _ 8]) simp
    qed
  qed
  then obtain n where n: "0 < n" "arr_strncpy gn 0 nm n = Some fn" by blast
  have "length dn = 11" by (rule short_name_length [OF assms(1)])
  then have "d \<noteq> []" using f(4) by auto
  then show ?thesis using f(5) strncpy_first [OF n(2,1) assms(2)] toupper_first [OF f(2)] strncpy_first [OF f(3)] by auto
qed

subsection \<open>Creating a file\<close>

definition name_ok :: "uint16 \<Rightarrow> byte list \<Rightarrow> bool" where
  "name_ok type nm \<longleftrightarrow> nm \<noteq> [] \<and> 0 \<notin> set nm \<and> length nm < 254 \<and> nm \<noteq> [46] \<and> nm \<noteq> [46, 46] \<and> (S_ISDIR type \<or> nm ! 0 \<noteq> 46) \<and> nm ! 0 \<noteq> 0xE5"

lemma toupper_mark: "c \<noteq> 0 \<Longrightarrow> c \<noteq> 0xE5 \<Longrightarrow> toupper c \<notin> {0, 0xE5}"
proof -
  assume a: "c \<noteq> 0" "c \<noteq> 0xE5"
  have "toupper c \<noteq> 0xE5"
  proof (cases "islower c")
    case True
    then have "unat c \<le> 122" "97 \<le> unat c" by (simp_all add: islower_range)
    then have "unat (c - 32) = unat c - 32" by (subst unat_sub) (auto simp: word_le_nat_alt)
    then have "unat (c - 32) \<le> 90" using \<open>unat c \<le> 122\<close> by simp
    then have "c - 32 \<noteq> 0xE5" by auto
    then show ?thesis using True by (simp add: toupper_def)
  qed (use a in \<open>simp add: toupper_def\<close>)
  then show ?thesis using toupper_nonzero [OF a(1)] by simp
qed

lemma fcb_init_shape:
  assumes "fat32_fcb_init gn ge sb dp nm type = Some (sb', es)" "nm \<noteq> []" "0 \<notin> set nm" "length nm < 254" "nm \<noteq> [46]" "nm \<noteq> [46, 46]"
  obtains dn ds where "short_name (d_slots dp) gn ge (S_ISDIR type) nm = Some dn" "DIR_Name ds = dn" "DIR_Attr ds \<noteq> ATTR_LONG_NAME"
    "es = List.map pack_l (rev (List.map (ent nm (ChkSum dn)) [1 ..< n_long nm + 1])) @ [pack_s ds]"
proof -
  have d: "\<not> fat32_namecmp nm [46]" "\<not> fat32_namecmp nm [46, 46]" using assms(4-6) by (auto simp: fat32_namecmp_def PATH_LONG_MAX_def)
  define dsf where "dsf dn c = zero_s\<lparr>DIR_Attr := if S_ISDIR type then ATTR_DIRECTORY else ATTR_ARCHIVE, DIR_Dev := ITYPE_TO_FATDEV type, DIR_Name := dn,
    DIR_FstClusHI := DIR_FIRST_HIGH (word_of_nat c), DIR_FstClusLO := DIR_FIRST_LOW (word_of_nat c)\<rparr>" for dn c
  have ds: "DIR_Name (dsf dn c) = dn" "DIR_Attr (dsf dn c) \<noteq> ATTR_LONG_NAME" for dn c
    by (simp_all add: dsf_def ATTR_DIRECTORY_def ATTR_ARCHIVE_def ATTR_LONG_NAME_def)
  have "\<exists>dn c st. short_name (d_slots dp) gn ge (S_ISDIR type) nm = Some dn \<and> long_entries 1 (n_long nm) nm 0 (ChkSum dn) [] = Some st \<and>
      es = List.map pack_l st @ [pack_s (dsf dn c)]"
    using assms(1) d unfolding n_long_def by (auto simp: fat32_fcb_init_def Let_def bind_eq_Some_conv dsf_def)
  then obtain dn ds st where c: "short_name (d_slots dp) gn ge (S_ISDIR type) nm = Some dn" "long_entries 1 (n_long nm) nm 0 (ChkSum dn) [] = Some st"
    "es = List.map pack_l st @ [pack_s ds]" "DIR_Name ds = dn" "DIR_Attr ds \<noteq> ATTR_LONG_NAME"
    using ds by blast
  have "st = rev (List.map (ent nm (ChkSum dn)) [1 ..< n_long nm + 1])"
    using long_entries_stack [OF assms(3,2), of 1 "[]" "ChkSum dn"] n_long_bounds(3) [OF assms(2)] n_long_small [OF assms(4)] c(2) by (simp add: CAPACITY_def)
  then show thesis using that [OF c(1,4,5)] c(3) by simp
qed

lemma fcb_init_file:
  assumes "fat32_fcb_init gn ge sb dp nm type = Some (sb', es)" "name_ok type nm"
  shows "length es = n_long nm + 1" "listing off [] (es @ rest) = map_option ((@) [(nm, off + length es - 1)]) (listing (off + length es) [] rest)"
proof -
  have N: "nm \<noteq> []" "0 \<notin> set nm" "length nm < 254" "S_ISDIR type \<or> nm ! 0 \<noteq> 46" "nm ! 0 \<noteq> 0xE5" "nm \<noteq> [46]" "nm \<noteq> [46, 46]" using assms(2) by (auto simp: name_ok_def)
  obtain dn ds where c: "short_name (d_slots dp) gn ge (S_ISDIR type) nm = Some dn" "DIR_Name ds = dn" "DIR_Attr ds \<noteq> ATTR_LONG_NAME"
    "es = List.map pack_l (rev (List.map (ent nm (ChkSum dn)) [1 ..< n_long nm + 1])) @ [pack_s ds]"
    by (rule fcb_init_shape [OF assms(1) N(1-3,6,7)])
  show "length es = n_long nm + 1" using c(4) by simp
  have "nm ! 0 \<noteq> 0" using N(1,2) by (cases nm) auto
  then have "dn ! 0 \<notin> {0, 0xE5}" using short_name_first [OF c(1) N(1,4)] toupper_mark N(5) by simp
  then have "listing off [] (es @ rest) = map_option (Cons (nm, off + length es - 1)) (listing (off + length es) [] rest)"
    using listing_file [OF N(2,1,3) _ _ c(3) _ c(4)] short_name_length [OF c(1)] c(2) by auto
  then show "listing off [] (es @ rest) = map_option ((@) [(nm, off + length es - 1)]) (listing (off + length es) [] rest)"
    by (cases "listing (off + length es) [] rest") simp_all
qed

lemma short_name_dot:
  assumes "short_name slots gn ge False (46 # nm) = Some dn" "gn ! 0 = 0"
  shows "dn ! 0 = 0"
  using assms(1)
proof (rule short_name_elim)
  fix fn d0 b d
  assume f: "if False then arr_strncpy gn 0 (46 # nm) 11 = Some fn \<and> d0 = replicate 11 0 else ext_name gn ge (46 # nm) = Some (fn, d0)"
    "arr_toupper fn = Some b" "arr_strncpy d0 0 b 8 = Some d" "length dn = length d" "d \<noteq> [] \<Longrightarrow> dn ! 0 = d ! 0"
  have "fn = gn" using f(1) by (auto simp: ext_name_def bind_eq_Some_conv arr_strncpy_def Let_def)
  then have "c_str b = []" using f(2) assms(2) by (cases gn) (auto simp: arr_toupper_def c_str_def)
  then have "d ! 0 = 0" using f(3) by (auto simp: arr_strncpy_def nth_append cpy_def)
  moreover have "d \<noteq> []" using f(4) short_name_length [OF assms(1)] by auto
  ultimately show ?thesis using f(5) by simp
qed

end
