(* ===== verification/FatLookup.thy ===== *)
theory FatLookup
  imports FatDir FatFile
begin

text \<open>
  Looking up, creating and deleting files in a directory (\<open>fat32_inode_dirlookup\<close>, \<open>fat32_inode_alloc\<close>, \<open>fat32_fcb_delete\<close> of \<open>src/fs/fat32/fat32_inode.c\<close>) with the
  cache of theory \<open>HashTable\<close> and the offset hint, against the list of files that theory \<open>FatDir\<close> reads off the slots.
\<close>

subsection \<open>The cache\<close>

definition hash_ok :: "nat hash_table \<Rightarrow> bool" where
  "hash_ok h \<longleftrightarrow> ht_inv h \<and> ht_type h = INODE_MAP"

definition cache_at :: "nat hash_table \<Rightarrow> byte list \<Rightarrow> nat option" where
  "cache_at h nm = ht_look h (key_name nm)"

lemma cache_get: "hash_ok h \<Longrightarrow> hash_get h (key_name nm) = Some (cache_at h nm)"
  using hash_get_eq [of h "key_name nm"] ht_look_eq [of h "key_name nm"] by (simp add: hash_ok_def cache_at_def)

lemma cache_same: "hash_ok h \<Longrightarrow> hash_str x = hash_str y \<Longrightarrow> cache_at h x = cache_at h y"
  using ht_look_eq [of h] by (auto simp: hash_ok_def cache_at_def bucket_get_def bucket_of_def)

lemma cache_init: "hash_ok fat32_inode_hash_init" "cache_at fat32_inode_hash_init = (\<lambda>_. None)"
  using ht_init [of NINODE INODE_MAP] by (auto simp: fat32_inode_hash_init_def hash_ok_def cache_at_def NINODE_def fun_eq_iff)

lemma cache_insert:
  assumes "hash_ok h" and room: "key_room (key_name x)"
  shows "\<exists>h'. fat32_inode_hash_insert h x off = Some h' \<and> hash_ok h' \<and>
    (\<forall>y. cache_at h' y = (if hash_str x = hash_str y \<and> cache_at h x = None then Some off else cache_at h y))"
proof (cases "cache_at h x")
  case None
  obtain h' where "hash_insert h (key_name x) off = Some (h', [])" "ht_inv h'" "ht_type h' = INODE_MAP"
    "ht_look h' = (\<lambda>k. if same_key INODE_MAP (key_name x) k then Some off else ht_look h k)"
    using hash_insert_ok [of h "key_name x" off] assms None by (auto simp: hash_ok_def cache_at_def)
  then show ?thesis
    using cache_get [OF assms(1), of x] None by (auto simp: fat32_inode_hash_insert_def hash_ok_def cache_at_def same_key_def)
next
  case (Some v)
  then show ?thesis using cache_get [OF assms(1), of x] assms by (auto simp: fat32_inode_hash_insert_def)
qed

lemma cache_insert_room:
  assumes "hash_ok h" "cache_at h x = None" "fat32_inode_hash_insert h x off = Some h'"
  shows "key_room (key_name x)"
proof (rule ccontr)
  assume "\<not> key_room (key_name x)"
  then have "hash_insert h (key_name x) off = None"
    using assms(1,2) by (intro hash_insert_no_room) (auto simp: hash_ok_def cache_at_def)
  then show False using assms(2,3) cache_get [OF assms(1), of x] by (simp add: fat32_inode_hash_insert_def)
qed

lemma cache_delete:
  assumes "hash_ok h"
  shows "\<exists>h' vs. hash_delete h (key_name x) = Some (h', vs) \<and> hash_ok h' \<and> (\<forall>y. cache_at h' y = (if hash_str x = hash_str y then None else cache_at h y))"
  using hash_delete_ok [of h "key_name x"] assms by (auto simp: hash_ok_def cache_at_def same_key_def)

subsection \<open>The invariant\<close>

text \<open>Names that begin with a dot are not entered into the cache by a walk.\<close>

definition hidden :: "byte list \<Rightarrow> bool" where "hidden x \<longleftrightarrow> cpy x 0 = 46"

definition cached :: "nat hash_table \<Rightarrow> (byte list \<times> nat) list \<Rightarrow> bool" where
  "cached h L \<longleftrightarrow> (\<forall>(x, off)\<in>set L. \<not> hidden x \<longrightarrow> cache_at h x = Some off)"

definition cache_sound :: "nat hash_table \<Rightarrow> (byte list \<times> nat) list \<Rightarrow> bool" where
  "cache_sound h L \<longleftrightarrow> (\<forall>x off. cache_at h x = Some off \<longrightarrow> (\<exists>y. (y, off) \<in> set L \<and> hash_str y = hash_str x))"

text \<open>The names a walk enters into the cache fit its nodes.\<close>

definition names_fit :: "(byte list \<times> nat) list \<Rightarrow> bool" where
  "names_fit L \<longleftrightarrow> (\<forall>x\<in>fst ` set L. \<not> hidden x \<longrightarrow> key_room (key_name x))"

text \<open>The files of the directory are \<open>L\<close>; their names have different hashes.  The cache holds files of the directory only, and all files before the hint.\<close>

definition dir_inv :: "dnode \<Rightarrow> (byte list \<times> nat) list \<Rightarrow> bool" where
  "dir_inv dp L \<longleftrightarrow> listing 0 [] (d_slots dp) = Some L \<and> distinct (List.map (hash_str \<circ> fst) L) \<and>
     (case i_hash dp of
        None \<Rightarrow> off_hint dp = 0
      | Some h \<Rightarrow> hash_ok h \<and> cache_sound h L \<and>
          (\<exists>L1 L2. L = L1 @ L2 \<and> listing (off_hint dp) [] (drop (off_hint dp) (d_slots dp)) = Some L2 \<and> cached h L1))"

lemma c_str_length: "length (c_str xs) \<le> length xs"
  by (simp add: c_str_def length_takeWhile_le)

lemma popstack_loop_length: "popstack_loop st sn c buf = Some (st1, Some (b, d)) \<Longrightarrow> length b < NAME_LONG_MAX"
  by (induction st sn c buf rule: popstack_loop.induct) (auto simp: popstack_loop.simps(2) Let_def split: if_splits)

lemma popstack_length:
  assumes "fat32_longname_popstack st sn = Some (st', Some nm)"
  shows "length nm < NAME_LONG_MAX"
proof -
  obtain b d where "popstack_loop st sn 1 [] = Some (st', Some (b, d))" "nm = c_str b"
    using assms by (auto simp: fat32_longname_popstack_def bind_eq_Some_conv split: if_splits option.splits prod.splits)
  then show ?thesis using popstack_loop_length [of st sn 1 "[]"] c_str_length [of b] by fastforce
qed

lemma short_name_parser_length: "length (fat32_short_name_parser s) \<le> 12"
proof -
  have "length (filter (\<lambda>c. c \<noteq> 0x20) (take 8 (name_of s))) \<le> 8" "length (filter (\<lambda>c. c \<noteq> 0x20) (drop 8 (name_of s))) \<le> 3"
    by (rule order_trans [OF length_filter_le], simp add: name_of_def)+
  then show ?thesis unfolding fat32_short_name_parser_def Let_def by (auto intro!: order_trans [OF c_str_length])
qed

lemma travel_name_length:
  assumes "fat32_inode_travel_fcb s st = Some (Named x, st')"
  shows "length x < PATH_LONG_MAX"
proof -
  obtain r where r: "fat32_longname_popstack st (name_of s) = Some (st', r)" "x = (case r of None \<Rightarrow> fat32_short_name_parser s | Some nm \<Rightarrow> nm)"
    using assms by (auto simp: fat32_inode_travel_fcb_def bind_eq_Some_conv split: if_splits)
  then show ?thesis
    using short_name_parser_length [of s] popstack_length [of st "name_of s" st'] by (cases r) (auto simp: PATH_LONG_MAX_def NAME_LONG_MAX_def intro: less_trans)
qed

lemma namecmp_eq: "length s < PATH_LONG_MAX \<Longrightarrow> length t < PATH_LONG_MAX \<Longrightarrow> fat32_namecmp s t \<longleftrightarrow> s = t"
  by (simp add: fat32_namecmp_def)

subsection \<open>Walking for a lookup\<close>

lemma cache_step:
  assumes "hash_ok h" "cache_sound h L" "(x, off) \<in> set L" "distinct (List.map (hash_str \<circ> fst) L)" "names_fit L"
  shows "\<exists>h'. (if cpy x 0 \<noteq> 46 then fat32_inode_hash_insert h x off else Some h) = Some h' \<and> hash_ok h' \<and> cache_sound h' L \<and>
    (\<not> hidden x \<longrightarrow> cache_at h' x = Some off) \<and> (\<forall>y v. cache_at h y = Some v \<longrightarrow> cache_at h' y = Some v)"
proof (cases "hidden x")
  case True
  then show ?thesis using assms(1,2) by (simp add: hidden_def)
next
  case False
  obtain h' where h': "fat32_inode_hash_insert h x off = Some h'" "hash_ok h'"
    "\<And>y. cache_at h' y = (if hash_str x = hash_str y \<and> cache_at h x = None then Some off else cache_at h y)"
    using cache_insert [OF assms(1), of x off] assms(3,5) False by (force simp: names_fit_def)
  have x: "cache_at h' x = Some off"
  proof (cases "cache_at h x")
    case (Some v)
    then obtain y where y: "(y, v) \<in> set L" "hash_str y = hash_str x" using assms(2) by (auto simp: cache_sound_def)
    have "(y, v) = (x, off)" using inj_onD [OF assms(4) [unfolded distinct_map, THEN conjunct2], of "(y, v)" "(x, off)"] y assms(3) by simp
    then show ?thesis using Some h'(3) [of x] by simp
  qed (use h'(3) in simp)
  have "cache_sound h' L" using assms(2,3) h'(3) by (fastforce simp: cache_sound_def split: if_splits)
  moreover have "cache_at h' y = Some v" if "cache_at h y = Some v" for y v using that h'(3) [of y] cache_same [OF assms(1), of x y] by auto
  ultimately show ?thesis using h'(1,2) x False by (auto simp: hidden_def)
qed

text \<open>What a walk has cached: all files passed, and after a find the walk can go on behind the file.\<close>

definition walked_to :: "nat hash_table \<Rightarrow> nat \<Rightarrow> fcb list \<Rightarrow> (byte list \<times> nat) list \<Rightarrow> nat option \<Rightarrow> bool" where
  "walked_to h off slots L2 r \<longleftrightarrow>
     (case r of None \<Rightarrow> cached h L2
      | Some o' \<Rightarrow> off \<le> o' \<and> (\<exists>La Lb. L2 = La @ Lb \<and> cached h La \<and> listing (o' + 1) [] (drop (o' + 1 - off) slots) = Some Lb))"

lemma walked_to_skip:
  assumes "walked_to h (off + 1) rest L2 r" "cached h La"
  shows "walked_to h off (s # rest) (La @ L2) r"
proof (cases r)
  case None
  then show ?thesis using assms by (auto simp: walked_to_def cached_def)
next
  case (Some o')
  then obtain Lx Ly where "off + 1 \<le> o'" "L2 = Lx @ Ly" "cached h Lx" "listing (o' + 1) [] (drop (o' + 1 - (off + 1)) rest) = Some Ly"
    using assms(1) by (auto simp: walked_to_def)
  moreover from this have "drop (o' + 1 - off) (s # rest) = drop (o' + 1 - (off + 1)) rest" by (simp add: Suc_diff_le)
  moreover have "cached h (La @ Lx)" using assms(2) \<open>cached h Lx\<close> by (auto simp: cached_def)
  ultimately show ?thesis using Some unfolding walked_to_def by (auto intro!: exI [of _ "La @ Lx"] exI [of _ Ly])
qed

lemma trav_dirlookup_spec:
  assumes "distinct (List.map (hash_str \<circ> fst) L)" "length nm < PATH_LONG_MAX" "names_fit L"
  shows "listing off st slots = Some L2 \<Longrightarrow> set L2 \<subseteq> set L \<Longrightarrow> hash_ok h \<Longrightarrow> cache_sound h L \<Longrightarrow>
    \<exists>h' stop. trav_dirlookup nm off st slots h = Some (h', stop, map_of L2 nm) \<and> hash_ok h' \<and> cache_sound h' L \<and>
      (\<forall>y v. cache_at h y = Some v \<longrightarrow> cache_at h' y = Some v) \<and> walked_to h' off slots L2 (map_of L2 nm)"
proof (induction slots arbitrary: off st L2 h)
  case Nil
  then show ?case by (auto simp: cached_def walked_to_def split: if_splits)
next
  case (Cons s rest)
  obtain ev st' where t: "fat32_inode_travel_fcb s st = Some (ev, st')" using Cons.prems(1) by (cases "fat32_inode_travel_fcb s st") auto
  show ?case
  proof (cases ev)
    case All_free
    then show ?thesis using Cons.prems t by (auto simp: cached_def walked_to_def split: if_splits)
  next
    case Skip
    then have l: "listing (off + 1) st' rest = Some L2" using Cons.prems(1) t by simp
    obtain h' stop where "trav_dirlookup nm (off + 1) st' rest h = Some (h', stop, map_of L2 nm)" "hash_ok h'" "cache_sound h' L"
      "\<forall>y v. cache_at h y = Some v \<longrightarrow> cache_at h' y = Some v" "walked_to h' (off + 1) rest L2 (map_of L2 nm)"
      using Cons.IH [OF l Cons.prems(2-4)] by blast
    then show ?thesis using t Skip walked_to_skip [of h' off rest L2 _ "[]" s] by (auto simp: cached_def)
  next
    case (Named x)
    then obtain L2' where l: "listing (off + 1) [] rest = Some L2'" "L2 = (x, off) # L2'" "st' = []" using Cons.prems(1) t by (auto split: if_splits)
    have x: "fat32_namecmp nm x \<longleftrightarrow> nm = x" using travel_name_length [of s st x st'] t Named assms(2) by (simp add: namecmp_eq)
    obtain h1 where h1: "(if cpy x 0 \<noteq> 46 then fat32_inode_hash_insert h x off else Some h) = Some h1" "hash_ok h1" "cache_sound h1 L"
      "\<not> hidden x \<longrightarrow> cache_at h1 x = Some off" "\<forall>y v. cache_at h y = Some v \<longrightarrow> cache_at h1 y = Some v"
      using cache_step [OF Cons.prems(3,4) _ assms(1,3), of x off] Cons.prems(2) l(2) by auto
    show ?thesis
    proof (cases "nm = x")
      case True
      have "walked_to h1 off (s # rest) L2 (Some off)"
        using h1(4) l unfolding walked_to_def by (auto intro!: exI [of _ "[(x, off)]"] exI [of _ L2'] simp: cached_def)
      then show ?thesis using t Named h1 l x True by (intro exI [of _ h1] exI [of _ True]) auto
    next
      case False
      obtain h' stop where i: "trav_dirlookup nm (off + 1) [] rest h1 = Some (h', stop, map_of L2' nm)" "hash_ok h'" "cache_sound h' L"
        "\<forall>y v. cache_at h1 y = Some v \<longrightarrow> cache_at h' y = Some v" "walked_to h' (off + 1) rest L2' (map_of L2' nm)"
        using Cons.IH [OF l(1) _ h1(2,3)] Cons.prems(2) l(2) by auto
      have "cached h' [(x, off)]" using h1(4) i(4) by (auto simp: cached_def)
      then have "walked_to h' off (s # rest) L2 (map_of L2 nm)" using walked_to_skip [OF i(5), of "[(x, off)]" s] l(2) False by simp
      then show ?thesis using t Named h1 i l x False by (intro exI [of _ h'] exI [of _ stop]) auto
    qed
  qed
qed

subsection \<open>Lookup\<close>

lemma map_of_append_none: "map_of L1 nm = None \<Longrightarrow> map_of (L1 @ L2) nm = map_of L2 nm"
  by (simp add: map_add_def)

lemma map_of_insert: "nm \<notin> fst ` set L1 \<Longrightarrow> map_of (L1 @ (nm, o') # L2) x = (if x = nm then Some o' else map_of (L1 @ L2) x)"
proof -
  assume "nm \<notin> fst ` set L1"
  then have "map_of L1 nm = None" by (simp add: map_of_eq_None_iff)
  then show ?thesis by (auto simp: map_add_def split: option.splits)
qed

lemma map_of_hashed:
  assumes "distinct (List.map (hash_str \<circ> fst) L)" "(y, off) \<in> set L" "hash_str y = hash_str nm" "\<forall>y\<in>fst ` set L. hash_str y = hash_str nm \<longrightarrow> y = nm"
  shows "map_of L nm = Some off"
proof -
  have "y = nm" using assms(2-4) by force
  moreover have "distinct (List.map fst L)" using assms(1) distinct_map [of hash_str "List.map fst L"] by (simp add: comp_def)
  ultimately show ?thesis using assms(2) by (simp add: map_of_is_SomeI)
qed

lemma with_hint_spec:
  assumes "dir_inv dp L" "i_hash dp = Some h \<or> i_hash dp = None \<and> h = fat32_inode_hash_init" "length nm < NAME_SEARCH" "\<not> hidden nm"
    "cache_at h nm = None" "names_fit L"
  shows "\<exists>dp'. fat32_inode_dirlookup_with_hint dp h nm = Some (dp', map_of L nm) \<and> dir_inv dp' L \<and> d_slots dp' = d_slots dp \<and> d_cluster dp' = d_cluster dp \<and>
    (map_of L nm = None \<longrightarrow> (\<exists>h'. i_hash dp' = Some h' \<and> cached h' L))"
proof -
  have D: "listing 0 [] (d_slots dp) = Some L" "distinct (List.map (hash_str \<circ> fst) L)" using assms(1) by (auto simp: dir_inv_def)
  obtain L1 L2 where h: "hash_ok h" "cache_sound h L" "L = L1 @ L2" "listing (off_hint dp) [] (drop (off_hint dp) (d_slots dp)) = Some L2" "cached h L1"
  proof (cases "i_hash dp")
    case None
    then show ?thesis using that [of "[]" L] assms(1,2) cache_init by (auto simp: dir_inv_def cache_sound_def cached_def)
  next
    case (Some h0)
    then show ?thesis using that assms(1,2) by (auto simp: dir_inv_def)
  qed
  have "map_of L1 nm = None"
  proof (cases "map_of L1 nm")
    case (Some o')
    then have "(nm, o') \<in> set L1" by (rule map_of_SomeD)
    then show ?thesis using h(5) assms(4,5) by (auto simp: cached_def)
  qed
  then have m: "map_of L nm = map_of L2 nm" unfolding h(3) by (rule map_of_append_none)
  have sub: "set L2 \<subseteq> set L" using h(3) by simp
  have "length nm < PATH_LONG_MAX" using assms(3) by (simp add: NAME_SEARCH_def PATH_LONG_MAX_def)
  then obtain h' stop where t: "trav_dirlookup nm (off_hint dp) [] (drop (off_hint dp) (d_slots dp)) h = Some (h', stop, map_of L2 nm)" "hash_ok h'" "cache_sound h' L"
    "\<forall>y v. cache_at h y = Some v \<longrightarrow> cache_at h' y = Some v" "walked_to h' (off_hint dp) (drop (off_hint dp) (d_slots dp)) L2 (map_of L2 nm)"
    using trav_dirlookup_spec [OF D(2) _ assms(6) h(4) sub h(1,2), of nm] by blast
  have c1: "cached h' L1" using h(5) t(4) by (auto simp: cached_def)
  let ?dp = "dp\<lparr>i_hash := Some h', off_hint := (case map_of L2 nm of Some off \<Rightarrow> off + 1 | None \<Rightarrow> if stop then off_hint dp else 0)\<rparr>"
  have r: "fat32_inode_dirlookup_with_hint dp h nm = Some (?dp, map_of L nm)" using t(1) assms(3) m by (simp add: fat32_inode_dirlookup_with_hint_def)
  have inv: "dir_inv ?dp L \<and> (map_of L nm = None \<longrightarrow> cached h' L)"
  proof (cases "map_of L2 nm")
    case None
    then have c: "cached h' L" using t(5) c1 h(3) by (auto simp: walked_to_def cached_def)
    have "\<exists>L1 L2. L = L1 @ L2 \<and> listing (off_hint ?dp) [] (drop (off_hint ?dp) (d_slots dp)) = Some L2 \<and> cached h' L1"
    proof (cases stop)
      case True
      then show ?thesis using None h(3,4) c1 by (intro exI [of _ L1] exI [of _ L2]) simp
    next
      case False
      then show ?thesis using None D(1) by (intro exI [of _ "[]"] exI [of _ L]) (simp add: cached_def)
    qed
    then show ?thesis using D t(2,3) c by (simp add: dir_inv_def)
  next
    case (Some o')
    then obtain La Lb where w: "off_hint dp \<le> o'" "L2 = La @ Lb" "cached h' La" "listing (o' + 1) [] (drop (o' + 1 - off_hint dp) (drop (off_hint dp) (d_slots dp))) = Some Lb"
      using t(5) by (auto simp: walked_to_def)
    have "listing (off_hint ?dp) [] (drop (off_hint ?dp) (d_slots dp)) = Some Lb" using Some w(1,4) by simp
    moreover have "cached h' (L1 @ La)" using c1 w(3) by (auto simp: cached_def)
    ultimately show ?thesis using D t(2,3) m Some h(3) w(2) by (auto simp: dir_inv_def intro!: exI [of _ "L1 @ La"] exI [of _ Lb])
  qed
  then show ?thesis using r by (intro exI [of _ ?dp]) simp
qed

lemma dirlookup_spec:
  assumes "dir_inv dp L" "length nm < NAME_SEARCH" "\<not> hidden nm" "\<forall>y\<in>fst ` set L. hash_str y = hash_str nm \<longrightarrow> y = nm" "names_fit L"
  shows "\<exists>dp'. fat32_inode_dirlookup dp nm = Some (dp', map_of L nm) \<and> dir_inv dp' L \<and> d_slots dp' = d_slots dp \<and> d_cluster dp' = d_cluster dp \<and>
    (map_of L nm = None \<longrightarrow> (\<exists>h'. i_hash dp' = Some h' \<and> cached h' L))"
proof (cases "i_hash dp")
  case None
  then show ?thesis using with_hint_spec [OF assms(1) _ assms(2,3), of fat32_inode_hash_init] cache_init(2) assms(5) by (simp add: fat32_inode_dirlookup_def)
next
  case (Some h)
  then have h: "hash_ok h" "cache_sound h L" "distinct (List.map (hash_str \<circ> fst) L)" using assms(1) by (auto simp: dir_inv_def)
  show ?thesis
  proof (cases "cache_at h nm")
    case None
    then show ?thesis using with_hint_spec [OF assms(1) _ assms(2,3), of h] Some cache_get [OF h(1), of nm] assms(5) by (simp add: fat32_inode_dirlookup_def)
  next
    case hit: (Some off)
    then obtain y where "(y, off) \<in> set L" "hash_str y = hash_str nm" using h(2) by (auto simp: cache_sound_def)
    from map_of_hashed [OF h(3) this assms(4)] show ?thesis
      using assms(1) Some hit cache_get [OF h(1), of nm] by (simp add: fat32_inode_dirlookup_def)
  qed
qed

text \<open>C25. Lookup: in a directory whose cache and hint are consistent, \<open>fat32_inode_dirlookup\<close> finds exactly the file with the given name, at the offset of its
  short entry, whether it is in the cache, behind the hint or nowhere; the directory is unchanged and the cache and hint stay consistent.  Conditions: the
  name has fewer than 50 characters, does not begin with a dot, and no other name of the directory has the same 64-bit hash; the names of the directory have
  different hashes, and those not beginning with a dot have at most 62 characters, so that they fit the nodes of the cache; and the slots of the
  directory are read completely.\<close>

theorem dirlookup_correct:
  assumes "dir_inv dp L" "length nm < NAME_SEARCH" "\<not> hidden nm" "\<forall>y\<in>fst ` set L. hash_str y = hash_str nm \<longrightarrow> y = nm" "names_fit L"
  shows "\<exists>dp'. fat32_inode_dirlookup dp nm = Some (dp', map_of L nm) \<and> dir_inv dp' L \<and> d_slots dp' = d_slots dp"
  using dirlookup_spec [OF assms] by blast

subsection \<open>Creating and deleting\<close>

lemma alloc_spec:
  assumes "dir_inv dp L" "i_hash dp = Some h" "cached h L" "name_ok type nm" "\<forall>y\<in>fst ` set L. hash_str y \<noteq> hash_str nm"
    "fat32_fcb_init gn ge sb dp nm type = Some (sb', es)" "key_room (key_name nm)"
  shows "\<exists>dp' off L1 L2. fat32_inode_alloc gn ge sb dp nm type = Some (sb', dp', off) \<and> L = L1 @ L2 \<and> dir_inv dp' (L1 @ (nm, off) # L2) \<and>
    d_slots dp' = write_slots (d_slots dp) (off - n_long nm) es \<and> n_long nm \<le> off \<and> off_hint dp' = off + 1 \<and> off - n_long nm \<le> length (d_slots dp) \<and>
    place_ok (d_slots dp) (length es) (off - n_long nm) \<and>
    (\<exists>h'. i_hash dp' = Some h' \<and> (\<forall>y. cache_at h' y = (if hash_str nm = hash_str y then Some off else cache_at h y)))"
proof -
  have D: "listing 0 [] (d_slots dp) = Some L" "distinct (List.map (hash_str \<circ> fst) L)" "hash_ok h" "cache_sound h L"
    using assms(1,2) by (auto simp: dir_inv_def)
  note F = fcb_init_file [OF assms(6,4)]
  have "length nm < 254" using assms(4) by (simp add: name_ok_def)
  note n = n_long_small [OF this]
  define r where "r = fat32_dir_fcb_insert_offset (d_slots dp) (word_of_nat (length es))"
  define off where "off = r + length es - 1"
  have off: "off + 1 = r + length es" "off - n_long nm = r" "n_long nm \<le> off" using F(1) by (simp_all add: off_def)
  have p: "place_ok (d_slots dp) (length es) r" unfolding r_def by (rule insert_offset_place) (use F(1) n in auto)
  have "es \<noteq> []" using F(1) by auto
  then obtain L1 L2 where l: "L = L1 @ L2" "listing 0 [] (write_slots (d_slots dp) r es) = Some (L1 @ (nm, off) # L2)"
    "listing (off + 1) [] (drop (off + 1) (write_slots (d_slots dp) r es)) = Some L2"
    using listing_insert [OF D(1) p _ F(2)] off_def off(1) by auto
  have none: "cache_at h nm = None"
  proof (cases "cache_at h nm")
    case (Some v)
    then obtain y where "(y, v) \<in> set L" "hash_str y = hash_str nm" using D(4) by (auto simp: cache_sound_def)
    then show ?thesis using assms(5) by force
  qed
  obtain h' where h': "fat32_inode_hash_insert h nm off = Some h'" "hash_ok h'" "\<And>y. cache_at h' y = (if hash_str nm = hash_str y then Some off else cache_at h y)"
    using cache_insert [OF D(3) assms(7), of off] none by auto
  have "\<exists>y. (y, v) \<in> set (L1 @ (nm, off) # L2) \<and> hash_str y = hash_str x" if c: "cache_at h' x = Some v" for x v
  proof (cases "hash_str nm = hash_str x")
    case True
    then show ?thesis using c h'(3) [of x] by auto
  next
    case False
    then obtain y where "(y, v) \<in> set L" "hash_str y = hash_str x" using c h'(3) [of x] D(4) by (auto simp: cache_sound_def)
    then show ?thesis unfolding l(1) by auto
  qed
  then have "cache_sound h' (L1 @ (nm, off) # L2)" by (simp add: cache_sound_def)
  moreover have "cache_at h' x = Some v" if x: "(x, v) \<in> set L" "\<not> hidden x" for x v
  proof -
    have "hash_str nm \<noteq> hash_str x" using assms(5) x(1) by force
    then show ?thesis using assms(3) x h'(3) [of x] by (auto simp: cached_def)
  qed
  then have "cached h' (L1 @ [(nm, off)])" using h'(3) [of nm] unfolding l(1) cached_def by auto
  moreover have "hash_str nm \<notin> (hash_str \<circ> fst) ` set L" using assms(5) by auto
  then have "distinct (List.map (hash_str \<circ> fst) (L1 @ (nm, off) # L2))" using D(2) unfolding l(1) by auto
  ultimately have inv: "dir_inv (dp\<lparr>d_slots := write_slots (d_slots dp) r es, i_hash := Some h', off_hint := off + 1\<rparr>) (L1 @ (nm, off) # L2)"
    using l(2,3) h'(2) by (auto simp: dir_inv_def intro!: exI [of _ "L1 @ [(nm, off)]"] exI [of _ L2])
  have "fat32_inode_alloc gn ge sb dp nm type = Some (sb', dp\<lparr>d_slots := write_slots (d_slots dp) r es, i_hash := Some h', off_hint := off + 1\<rparr>, off)"
    using assms(2,6) h'(1) by (simp add: fat32_inode_alloc_def r_def [symmetric] off_def Let_def)
  then show ?thesis using inv l(1) off p h'(3) by (intro exI [of _ "dp\<lparr>d_slots := write_slots (d_slots dp) r es, i_hash := Some h', off_hint := off + 1\<rparr>"] exI [of _ off] exI [of _ L1] exI [of _ L2]) (simp add: place_ok_def)
qed

text \<open>The entries of a new file are built whenever its short name fits the local arrays and a cluster is free.\<close>

lemma fcb_init_returns:
  assumes "name_ok type nm" "short_name (d_slots dp) gn ge (S_ISDIR type) nm = Some dn" "volume_ok sb" "bitmap_ok sb" "free_cluster sb" "free_count sb \<noteq> 0"
  shows "\<exists>sb' es. fat32_fcb_init gn ge sb dp nm type = Some (sb', es)"
proof -
  have N: "nm \<noteq> []" "0 \<notin> set nm" "length nm < 254" using assms(1) by (auto simp: name_ok_def)
  have d: "\<not> fat32_namecmp nm [46]" "\<not> fat32_namecmp nm [46, 46]" using assms(1) by (auto simp: name_ok_def fat32_namecmp_def PATH_LONG_MAX_def)
  obtain sb1 c where a: "fat32_cluster_alloc sb = Some (sb1, c)" using cluster_alloc_ok [OF assms(3-6)] by blast
  obtain st where l: "long_entries 1 (n_long nm) nm 0 (ChkSum dn) [] = Some st"
    using long_entries_stack [OF N(2,1), of 1 "[]" "ChkSum dn"] n_long_bounds(3) [OF N(1)] n_long_small [OF N(3)] by (auto simp: CAPACITY_def)
  show ?thesis using d assms(2) a l by (cases "S_ISCHR type \<or> S_ISBLK type") (auto simp: fat32_fcb_init_def Let_def n_long_def)
qed

text \<open>C26. Creation: when a lookup did not find a name, \<open>fat32_inode_alloc\<close> writes the long entries and the short entry of the new file, and nothing else,
  into free slots or behind the last slot, beginning at the start or behind a used slot, and from then on the directory holds the files it held
  before and the new one, with cache and hint consistent again; looking the name up finds it.  Conditions: as for the lookup (name shorter than 50 characters,
  not beginning with a dot, names of the directory that fit the cache, slots read completely), no name of the directory has the hash of the new one, its
  short name can be formed, and the volume has a free cluster.\<close>

theorem create_then_lookup:
  assumes "dir_inv dp L" "length nm < NAME_SEARCH" "\<not> hidden nm" "name_ok type nm" "\<forall>y\<in>fst ` set L. hash_str y \<noteq> hash_str nm"
    "short_name (d_slots dp) gn ge (S_ISDIR type) nm = Some dn" "volume_ok sb" "bitmap_ok sb" "free_cluster sb" "free_count sb \<noteq> 0" "names_fit L"
  shows "\<exists>dp1 sb' dp2 off es L1 L2. fat32_inode_dirlookup dp nm = Some (dp1, None) \<and> fat32_inode_alloc gn ge sb dp1 nm type = Some (sb', dp2, off) \<and>
    fat32_fcb_init gn ge sb dp1 nm type = Some (sb', es) \<and> length es = n_long nm + 1 \<and> n_long nm \<le> off \<and>
    place_ok (d_slots dp) (length es) (off - n_long nm) \<and> d_slots dp2 = write_slots (d_slots dp) (off - n_long nm) es \<and>
    L = L1 @ L2 \<and> dir_inv dp2 (L1 @ (nm, off) # L2) \<and> (\<exists>dp3. fat32_inode_dirlookup dp2 nm = Some (dp3, Some off))"
proof -
  have new: "nm \<notin> fst ` set L" using assms(5) by auto
  then have none: "map_of L nm = None" by (simp add: map_of_eq_None_iff)
  have "\<forall>y\<in>fst ` set L. hash_str y = hash_str nm \<longrightarrow> y = nm" using assms(5) by auto
  from dirlookup_spec [OF assms(1-3) this assms(11)] none obtain dp1 h where l: "fat32_inode_dirlookup dp nm = Some (dp1, None)" "dir_inv dp1 L" "d_slots dp1 = d_slots dp"
    "i_hash dp1 = Some h" "cached h L" by auto
  have room: "key_room (key_name nm)" using assms(2,4) by (simp add: NAME_SEARCH_def KEY_NAME_SIZE_def name_ok_def)
  obtain sb' es where f: "fat32_fcb_init gn ge sb dp1 nm type = Some (sb', es)"
    using fcb_init_returns [OF assms(4) _ assms(7-10), of dp1 gn ge dn] assms(6) l(3) by auto
  obtain dp2 off L1 L2 where a: "fat32_inode_alloc gn ge sb dp1 nm type = Some (sb', dp2, off)" "L = L1 @ L2" "dir_inv dp2 (L1 @ (nm, off) # L2)"
    "n_long nm \<le> off" "place_ok (d_slots dp) (length es) (off - n_long nm)" "d_slots dp2 = write_slots (d_slots dp) (off - n_long nm) es"
    using alloc_spec [OF l(2,4,5) assms(4,5) f room] l(3) by auto
  have m: "map_of (L1 @ (nm, off) # L2) x = (if x = nm then Some off else map_of L x)" for x
    unfolding a(2) by (rule map_of_insert) (use new a(2) in auto)
  have "distinct (List.map (hash_str \<circ> fst) (L1 @ (nm, off) # L2))" using a(3) by (simp add: dir_inv_def)
  then have "\<forall>y\<in>fst ` set (L1 @ (nm, off) # L2). hash_str y = hash_str nm \<longrightarrow> y = nm" using assms(5) a(2) by auto
  moreover have "names_fit (L1 @ (nm, off) # L2)" using assms(11) room a(2) by (auto simp: names_fit_def)
  ultimately obtain dp3 where "fat32_inode_dirlookup dp2 nm = Some (dp3, Some off)" using dirlookup_spec [OF a(3) assms(2,3)] m [of nm] by fastforce
  moreover have "length es = n_long nm + 1" by (rule fcb_init_file(1) [OF f assms(4)])
  ultimately show ?thesis using l(1) a f by blast
qed

lemma delete_mark: "fat32_inode_travel_fcb (0xE5 # replicate 31 0) [] = Some (Skip, [])"
  by (simp add: fat32_inode_travel_fcb_def NAME0_FREE_ALL_def NAME0_FREE_ONLY_def stack_is_empty_def)

lemma listing_marks: "listing off [] (replicate n (0xE5 # replicate 31 0) @ rest) = listing (off + n) [] rest"
proof (induction n arbitrary: off)
  case (Suc n)
  then show ?case by (simp add: delete_mark del: replicate.simps(2)) (simp add: delete_mark)
qed simp

lemma deleted_files:
  "listing off [] (replicate n (0xE5 # replicate 31 0) @ rest) = map_option ((@) []) (listing (off + length (replicate n (0xE5 # replicate 31 0 :: fcb))) [] rest)"
  unfolding listing_marks length_replicate by (cases "listing (off + n) [] rest") simp_all

text \<open>C27. Deletion undoes creation: after \<open>fat32_inode_alloc\<close> of a new name and \<open>fat32_fcb_delete\<close> of it the directory holds exactly the files it held before,
  with cache and hint consistent, and the name is not found.\<close>

theorem create_delete_roundtrip:
  assumes "dir_inv dp L" "i_hash dp = Some h" "cached h L" "name_ok type nm" "\<forall>y\<in>fst ` set L. hash_str y \<noteq> hash_str nm"
    "fat32_inode_alloc gn ge sb dp nm type = Some (sb', dp1, off)"
  shows "\<exists>dp2. fat32_fcb_delete dp1 nm off = Some dp2 \<and> dir_inv dp2 L"
proof -
  obtain es where f: "fat32_fcb_init gn ge sb dp nm type = Some (sb', es)" using assms(6) by (auto simp: fat32_inode_alloc_def bind_eq_Some_conv Let_def)
  have room: "key_room (key_name nm)"
  proof -
    have h: "hash_ok h" "cache_sound h L" using assms(1,2) by (auto simp: dir_inv_def)
    have "cache_at h nm = None" using h(2) assms(5) by (cases "cache_at h nm") (force simp: cache_sound_def)+
    then show ?thesis using assms(2,6) cache_insert_room [OF h(1), of nm] by (auto simp: fat32_inode_alloc_def bind_eq_Some_conv Let_def)
  qed
  obtain L1 L2 h1 where a: "L = L1 @ L2" "dir_inv dp1 (L1 @ (nm, off) # L2)" "d_slots dp1 = write_slots (d_slots dp) (off - n_long nm) es"
    "n_long nm \<le> off" "off_hint dp1 = off + 1" "off - n_long nm \<le> length (d_slots dp)" "place_ok (d_slots dp) (length es) (off - n_long nm)"
    "i_hash dp1 = Some h1" "\<And>y. cache_at h1 y = (if hash_str nm = hash_str y then Some off else cache_at h y)"
    using alloc_spec [OF assms(1-5) f room] assms(6) by auto
  let ?r = "off - n_long nm" and ?del = "replicate (n_long nm + 1) (0xE5 # replicate 31 0 :: fcb)"
  have N: "nm \<noteq> []" "length nm < 254" using assms(4) by (auto simp: name_ok_def)
  have len: "length es = n_long nm + 1" by (rule fcb_init_file(1) [OF f assms(4)])
  have s: "write_slots (d_slots dp1) ?r ?del = write_slots (d_slots dp) ?r ?del" using a(3,4,6) len by (simp add: write_slots_def min_def)
  have D: "listing 0 [] (d_slots dp) = Some L" "distinct (List.map (hash_str \<circ> fst) L)" using assms(1) by (auto simp: dir_inv_def)
  have r: "?r + length ?del = off + 1" using a(4) by simp
  obtain M1 M2 where m: "L = M1 @ M2" "listing 0 [] (write_slots (d_slots dp) ?r ?del) = Some L"
    "listing (off + 1) [] (drop (off + 1) (write_slots (d_slots dp) ?r ?del)) = Some M2"
    using listing_insert [OF D(1) _ _ deleted_files, of "n_long nm + 1" ?r] a(7) len unfolding r by auto
  have h1: "hash_ok h1" using a(2,8) by (simp add: dir_inv_def)
  obtain h2 vs where h2: "hash_delete h1 (key_name nm) = Some (h2, vs)" "hash_ok h2" "\<And>y. cache_at h2 y = (if hash_str nm = hash_str y then None else cache_at h y)"
    using cache_delete [OF h1, of nm] a(9) by auto
  have "cache_at h2 x = Some v" if x: "(x, v) \<in> set L" "\<not> hidden x" for x v
  proof -
    have "hash_str nm \<noteq> hash_str x" using assms(5) x(1) by force
    then show ?thesis using assms(3) x h2(3) [of x] by (auto simp: cached_def)
  qed
  then have c: "cached h2 L" by (auto simp: cached_def)
  have "cache_sound h L" using assms(1,2) by (simp add: dir_inv_def)
  then have "cache_sound h2 L" using h2(3) by (simp add: cache_sound_def)
  note c = c this
  let ?dp = "dp1\<lparr>d_slots := write_slots (d_slots dp) ?r ?del, i_hash := Some h2\<rparr>"
  have "fat32_fcb_delete dp1 nm off = Some ?dp"
    unfolding fat32_fcb_delete_def n_long_def [symmetric] Let_def using h2(1) a(4,8) s n_long_bounds(3) [OF N(1)] n_long_small [OF N(2)] by simp
  moreover have "dir_inv ?dp L" using m D(2) h2(2) c a(5) by (auto simp: dir_inv_def cached_def intro!: exI [of _ M1] exI [of _ M2])
  ultimately show ?thesis by blast
qed

subsection \<open>Names that begin with a dot\<close>

lemma trav_longs:
  assumes "\<forall>d\<in>set ds. LDIR_Ord d \<notin> {0, 0xE5} \<and> LDIR_Attr d = ATTR_LONG_NAME \<and> wf_l d" "length st + length ds \<le> CAPACITY"
  shows "trav_dirlookup nm off st (List.map pack_l ds @ rest) h = trav_dirlookup nm (off + length ds) (rev ds @ st) rest h"
  using assms
proof (induction ds arbitrary: off st)
  case (Cons d ds)
  then show ?case using travel_long [of d st] by (simp add: Cons.IH)
qed simp

text \<open>A data file whose name begins with a dot gets a short name that starts with whatever the array \<open>file_name\<close> held: if that is zero, the new entry
  reads as the end of the directory, and a walk over the new entries stops there without finding the file.\<close>

theorem dotfile_ends_directory:
  assumes "fat32_fcb_init gn ge sb dp (46 # nm) type = Some (sb', es)" "\<not> S_ISDIR type" "nm \<noteq> [46]" "nm \<noteq> []" "0 \<notin> set nm" "length nm < 253" "gn ! 0 = 0"
  shows "trav_dirlookup (46 # nm) off [] (es @ rest) h = Some (h, True, None)"
proof -
  let ?nm = "46 # nm"
  have N: "?nm \<noteq> []" "0 \<notin> set ?nm" "length ?nm < 254" "?nm \<noteq> [46]" "?nm \<noteq> [46, 46]" using assms(3-6) by auto
  obtain dn ds where c: "short_name (d_slots dp) gn ge False ?nm = Some dn" "DIR_Name ds = dn"
    "es = List.map pack_l (rev (List.map (ent ?nm (ChkSum dn)) [1 ..< n_long ?nm + 1])) @ [pack_s ds]"
    using fcb_init_shape [OF assms(1) N] assms(2) by metis
  let ?d = "rev (List.map (ent ?nm (ChkSum dn)) [1 ..< n_long ?nm + 1])"
  have "\<forall>d\<in>set ?d. LDIR_Ord d \<notin> {0, 0xE5} \<and> LDIR_Attr d = ATTR_LONG_NAME \<and> wf_l d" using ent_ord [OF _ _ N(3)] by auto
  then have "trav_dirlookup ?nm off [] (List.map pack_l ?d @ pack_s ds # rest) h = trav_dirlookup ?nm (off + length ?d) (rev ?d @ []) (pack_s ds # rest) h"
    by (rule trav_longs) (use n_long_small [OF N(3)] in \<open>simp add: CAPACITY_def\<close>)
  moreover have "NAME0_FREE_ALL (pack_s ds)"
    using short_name_dot [OF c(1) assms(7)] short_name_length [OF c(1)] pack_s_slot(3) [of ds] c(2) by (simp add: NAME0_FREE_ALL_def)
  ultimately show ?thesis using c(3) by (simp add: fat32_inode_travel_fcb_def del: upt_Suc)
qed

subsection \<open>Entries without long names\<close>

text \<open>Deleting a file that has a short entry only, as other systems write them for short names, also overwrites the slot in front of it: the number of
  slots to free is computed from the length of the name.  The file in that slot is gone too.\<close>

theorem delete_frees_neighbour:
  assumes "d_slots dp = A @ s1 # s2 # B" "i_hash dp = Some h" "hash_ok h" "fat32_inode_travel_fcb s1 [] = Some (Named x1, [])"
    "fat32_inode_travel_fcb s2 [] = Some (Named x2, [])" "1 \<le> length x2" "length x2 \<le> 13"
  shows "\<exists>dp'. fat32_fcb_delete dp x2 (length A + 1) = Some dp' \<and>
    d_slots dp' = A @ (0xE5 # replicate 31 0) # (0xE5 # replicate 31 0) # B"
proof -
  have n: "(length x2 + FAT_LFN_LENGTH - 1) div FAT_LFN_LENGTH = 1"
  proof (rule div_nat_eqI)
    show "FAT_LFN_LENGTH * 1 \<le> length x2 + FAT_LFN_LENGTH - 1" "length x2 + FAT_LFN_LENGTH - 1 < FAT_LFN_LENGTH * Suc 1"
      using assms(6,7) by (simp_all add: FAT_LFN_LENGTH_def)
  qed
  obtain h' vs where "hash_delete h (key_name x2) = Some (h', vs)" using cache_delete [OF assms(3)] by blast
  then show ?thesis using assms(1,2) n by (simp add: fat32_fcb_delete_def Let_def write_slots_def numeral_2_eq_2)
qed

subsection \<open>Concrete instances\<close>

text \<open>An empty directory, without and with a cache, and the name \<open>ab\<close>.\<close>

definition demo_dir :: dnode where
  "demo_dir = \<lparr>d_slots = [], d_cluster = 2, i_hash = None, off_hint = 0\<rparr>"

definition demo_cached :: dnode where
  "demo_cached = demo_dir\<lparr>i_hash := Some fat32_inode_hash_init\<rparr>"

definition demo_name :: "byte list" where "demo_name = [97, 98]"

lemma demo_dir_inv: "dir_inv demo_dir []" "dir_inv demo_cached []"
  using cache_init by (simp_all add: dir_inv_def demo_dir_def demo_cached_def cache_sound_def cached_def)

lemma demo_name_ok: "name_ok 0x8000 demo_name" "\<not> hidden demo_name" "length demo_name < NAME_SEARCH" "\<not> S_ISDIR 0x8000"
  by (simp_all add: name_ok_def demo_name_def hidden_def cpy_def NAME_SEARCH_def S_ISDIR_def S_IFMT_def)

lemma demo_short_name: "short_name [] (replicate 255 0) (replicate 4 0) False demo_name = Some [65, 66, 0, 0, 0, 0, 0, 0, 0x20, 0x20, 0x20]"
  unfolding demo_name_def by code_simp

theorem dirlookup_correct_witness: "\<exists>dp'. fat32_inode_dirlookup demo_dir demo_name = Some (dp', None) \<and> dir_inv dp' []"
  using dirlookup_correct [OF demo_dir_inv(1) demo_name_ok(3,2)] by (auto simp: names_fit_def)

theorem create_then_lookup_witness:
  "\<exists>dp1 sb' dp2 off dp3. fat32_inode_dirlookup demo_dir demo_name = Some (dp1, None) \<and>
    fat32_inode_alloc (replicate 255 0) (replicate 4 0) (demo_vol [2, 3]) dp1 demo_name 0x8000 = Some (sb', dp2, off) \<and>
    fat32_inode_dirlookup dp2 demo_name = Some (dp3, Some off)"
proof -
  have "short_name (d_slots demo_dir) (replicate 255 0) (replicate 4 0) (S_ISDIR 0x8000) demo_name = Some [65, 66, 0, 0, 0, 0, 0, 0, 0x20, 0x20, 0x20]"
    using demo_short_name demo_name_ok(4) by (simp add: demo_dir_def)
  from create_then_lookup [OF demo_dir_inv(1) demo_name_ok(3,2,1) _ this demo_volume_ok demo_bitmap_ok demo_free, of "[2, 3]"] show ?thesis by (auto simp: names_fit_def)
qed

lemma demo_alloc: "\<exists>sb' dp1 off. fat32_inode_alloc (replicate 255 0) (replicate 4 0) (demo_vol [2, 3]) demo_cached demo_name 0x8000 = Some (sb', dp1, off)"
proof -
  have "short_name (d_slots demo_cached) (replicate 255 0) (replicate 4 0) (S_ISDIR 0x8000) demo_name = Some [65, 66, 0, 0, 0, 0, 0, 0, 0x20, 0x20, 0x20]"
    using demo_short_name demo_name_ok(4) by (simp add: demo_cached_def demo_dir_def)
  from fcb_init_returns [OF demo_name_ok(1) this demo_volume_ok demo_bitmap_ok demo_free, of "[2, 3]"]
  obtain sb' es where "fat32_fcb_init (replicate 255 0) (replicate 4 0) (demo_vol [2, 3]) demo_cached demo_name 0x8000 = Some (sb', es)" by auto
  from alloc_spec [OF demo_dir_inv(2) _ _ demo_name_ok(1) _ this] show ?thesis by (auto simp: demo_cached_def cached_def demo_name_def KEY_NAME_SIZE_def)
qed

theorem create_delete_roundtrip_witness:
  "\<exists>sb' dp1 off dp2. fat32_inode_alloc (replicate 255 0) (replicate 4 0) (demo_vol [2, 3]) demo_cached demo_name 0x8000 = Some (sb', dp1, off) \<and>
    fat32_fcb_delete dp1 demo_name off = Some dp2 \<and> dir_inv dp2 []"
proof -
  obtain sb' dp1 off where a: "fat32_inode_alloc (replicate 255 0) (replicate 4 0) (demo_vol [2, 3]) demo_cached demo_name 0x8000 = Some (sb', dp1, off)"
    using demo_alloc by blast
  from create_delete_roundtrip [OF demo_dir_inv(2) _ _ demo_name_ok(1) _ a] show ?thesis using a by (auto simp: demo_cached_def cached_def)
qed

lemma demo_dotfile: "\<exists>sb' es. fat32_fcb_init (replicate 255 0) (replicate 4 0) (demo_vol [2, 3]) demo_dir [46, 97] 0x8000 = Some (sb', es)"
proof -
  have n: "n_long [46, 97] = 1" by (simp add: n_long_def FAT_LFN_LENGTH_def)
  have s: "short_name [] (replicate 255 0) (replicate 4 0) False [46, 97] = Some [0, 0, 0, 0, 0, 0, 0, 0, 65, 0x20, 0x20]" by code_simp
  obtain sb1 c where a: "fat32_cluster_alloc (demo_vol [2, 3]) = Some (sb1, c)" using cluster_alloc_ok [OF demo_volume_ok demo_bitmap_ok demo_free, of "[2, 3]"] by auto
  obtain st where "long_entries 1 (n_long [46, 97]) [46, 97] 0 (ChkSum [0, 0, 0, 0, 0, 0, 0, 0, 65, 0x20, 0x20]) [] = Some st"
    using long_entries_stack [of "[46, 97]" 1 "[]" "ChkSum [0, 0, 0, 0, 0, 0, 0, 0, 65, 0x20, 0x20]"] n by (auto simp: CAPACITY_def)
  then show ?thesis
    using s a demo_name_ok(4) by (cases "S_ISCHR 0x8000 \<or> S_ISBLK 0x8000")
      (auto simp: fat32_fcb_init_def Let_def n_long_def demo_dir_def fat32_namecmp_def PATH_LONG_MAX_def)
qed

theorem dotfile_ends_directory_witness:
  "\<exists>sb' es. fat32_fcb_init (replicate 255 0) (replicate 4 0) (demo_vol [2, 3]) demo_dir [46, 97] 0x8000 = Some (sb', es) \<and>
    trav_dirlookup [46, 97] 0 [] es fat32_inode_hash_init = Some (fat32_inode_hash_init, True, None)"
proof -
  obtain sb' es where f: "fat32_fcb_init (replicate 255 0) (replicate 4 0) (demo_vol [2, 3]) demo_dir [46, 97] 0x8000 = Some (sb', es)" using demo_dotfile by blast
  from dotfile_ends_directory [OF f demo_name_ok(4), of 0 "[]" fat32_inode_hash_init] f show ?thesis by auto
qed

text \<open>Two files \<open>A\<close> and \<open>B\<close> with short entries only.\<close>

definition demo_short :: "byte \<Rightarrow> fcb" where
  "demo_short c = c # replicate 10 0x20 @ 0x20 # replicate 20 0"

lemma demo_short_travel: "c \<in> {65, 66} \<Longrightarrow> fat32_inode_travel_fcb (demo_short c) [] = Some (Named [c], [])"
  by (auto simp: demo_short_def fat32_inode_travel_fcb_def NAME0_FREE_ALL_def NAME0_FREE_ONLY_def LONG_NAME_BOOL_def as_l_def Let_def ATTR_LONG_NAME_def
      fat32_longname_popstack_def stack_is_empty_def fat32_short_name_parser_def name_of_def c_str_def nth_append)

theorem delete_frees_neighbour_witness:
  "listing 0 [] [demo_short 65, demo_short 66] = Some [([65], 0), ([66], 1)] \<and>
   (\<exists>dp'. fat32_fcb_delete (demo_cached\<lparr>d_slots := [demo_short 65, demo_short 66]\<rparr>) [66] 1 = Some dp' \<and> listing 0 [] (d_slots dp') = Some [])"
proof -
  have "\<exists>dp'. fat32_fcb_delete (demo_cached\<lparr>d_slots := [demo_short 65, demo_short 66]\<rparr>) [66] (length ([] :: fcb list) + 1) = Some dp' \<and>
    d_slots dp' = [] @ (0xE5 # replicate 31 0) # (0xE5 # replicate 31 0) # []"
    by (rule delete_frees_neighbour [where ?s1.0 = "demo_short 65" and ?s2.0 = "demo_short 66" and ?x1.0 = "[65]" and h = fat32_inode_hash_init])
      (use cache_init(1) demo_short_travel in \<open>simp_all add: demo_cached_def\<close>)
  then show ?thesis using demo_short_travel delete_mark by auto
qed

end
