(* ===== verification/FatGrow.thy ===== *)
theory FatGrow
  imports FatFile
begin

text \<open>
  Growing a file: the allocating branches of \<open>fat32_cursor_to_offset\<close> and \<open>fat32_get_block\<close> (\<open>src/fs/fat32/fat32_inode.c\<close>), which the page
  cache uses to write pages behind the end of the chain.
\<close>

subsection \<open>Room on the volume\<close>

text \<open>There is room for \<open>k\<close> clusters if the free count allows it and \<open>k\<close> clusters that do not share bits are free in the bitmap.\<close>

definition room :: "nat \<Rightarrow> fatfs \<Rightarrow> bool" where
  "room k sb \<longleftrightarrow> k \<le> unat (free_count sb) \<and>
     (\<exists>S\<subseteq>set (candidates (FAT_CLUSTER_MAX sb) 1). k \<le> card S \<and> (\<forall>c\<in>S. \<not> marked (bit_map sb) c) \<and> (\<forall>c\<in>S. \<forall>d\<in>S. shares c d \<longrightarrow> c = d))"

lemma room_free:
  assumes "room (Suc k) sb"
  shows "free_cluster sb" "free_count sb \<noteq> 0"
proof -
  obtain S where S: "S \<subseteq> set (candidates (FAT_CLUSTER_MAX sb) 1)" "Suc k \<le> card S" "\<forall>c\<in>S. \<not> marked (bit_map sb) c" and f: "Suc k \<le> unat (free_count sb)"
    using assms by (auto simp: room_def)
  obtain c where "c \<in> S" using S(2) by (metis card.empty ex_in_conv not_less_eq_eq zero_le)
  then show "free_cluster sb" using S by (auto simp: free_cluster_def)
  show "free_count sb \<noteq> 0" using f by auto
qed

lemma room_weaken: "room k sb \<Longrightarrow> j \<le> k \<Longrightarrow> room j sb"
  by (auto simp: room_def)

lemma room_mark:
  assumes r: "room (Suc k) sb" and c: "c div MAP_BITS < length (bit_map sb)"
    and sb': "bit_map sb' = mark c (bit_map sb)" "free_count sb' = free_count sb - 1" "FAT_CLUSTER_MAX sb' = FAT_CLUSTER_MAX sb"
  shows "room k sb'"
proof -
  obtain S where S: "S \<subseteq> set (candidates (FAT_CLUSTER_MAX sb) 1)" "Suc k \<le> card S" "\<forall>c\<in>S. \<not> marked (bit_map sb) c"
    "\<forall>c\<in>S. \<forall>d\<in>S. shares c d \<longrightarrow> c = d" and f: "Suc k \<le> unat (free_count sb)"
    using r by (auto simp: room_def)
  let ?T = "{d \<in> S. \<not> shares c d}"
  have fin: "finite S" using S(1) finite_subset by blast
  have "card {d \<in> S. shares c d} \<le> 1"
    using S(4) by (intro card_le_Suc0_iff_eq [THEN iffD2, simplified One_nat_def [symmetric]]) (auto simp: fin shares_def)
  moreover have "card S = card ?T + card {d \<in> S. shares c d}"
    using fin by (subst card_Un_disjoint [symmetric]) (auto intro: arg_cong [where f = card])
  ultimately have "k \<le> card ?T" using S(2) by linarith
  moreover have "\<forall>d\<in>?T. \<not> marked (bit_map sb') d" using S(3) marked_mark [OF c] by (simp add: sb'(1))
  moreover have "free_count sb \<noteq> 0" using room_free(2) [OF r] .
  then have "unat (free_count sb') = unat (free_count sb) - 1" using sb'(2) by (simp add: unat_minus_one)
  ultimately show ?thesis using f S unfolding room_def sb'(3) by (intro conjI exI [of _ ?T]) auto
qed

subsection \<open>The same volume with more clusters in use\<close>

text \<open>\<open>grows sb cs ns sb'\<close>: the file with the clusters \<open>cs\<close> took the clusters \<open>ns\<close>, whose bits were not set in \<open>sb\<close>; \<open>sb'\<close> has the geometry of \<open>sb\<close>, and
  of the FAT only entries of \<open>cs\<close> and \<open>ns\<close> differ.  So the chains that share no cluster with \<open>cs\<close> and \<open>ns\<close> are what they were.  A file all of whose clusters are marked
  (\<open>other_file\<close>) is safe from the start, as \<open>ns\<close> cannot contain a marked cluster; a file with an unmarked cluster, which mounting and truncation
  leave behind, may lose it to \<open>ns\<close>.\<close>

definition same_geometry :: "fatfs \<Rightarrow> fatfs \<Rightarrow> bool" where
  "same_geometry sb sb' \<longleftrightarrow> sector_size sb' = sector_size sb \<and> n_sectors sb' = n_sectors sb \<and> sectors_per_block sb' = sectors_per_block sb \<and>
     fatbase sb' = fatbase sb \<and> n_fats sb' = n_fats sb \<and> n_sectors_fat sb' = n_sectors_fat sb"

definition other_file :: "fatfs \<Rightarrow> FAT_entry_t list \<Rightarrow> FAT_entry_t \<Rightarrow> FAT_entry_t list \<Rightarrow> bool" where
  "other_file sb cs d ds \<longleftrightarrow> chain sb d ds \<and> set cs \<inter> set ds = {} \<and> (\<forall>x\<in>set ds. marked (bit_map sb) (unat x))"

definition grows :: "fatfs \<Rightarrow> FAT_entry_t list \<Rightarrow> FAT_entry_t list \<Rightarrow> fatfs \<Rightarrow> bool" where
  "grows sb cs ns sb' \<longleftrightarrow> volume_ok sb' \<and> bitmap_ok sb' \<and> same_geometry sb sb' \<and> (\<forall>c\<in>set ns. \<not> marked (bit_map sb) (unat c)) \<and>
     (\<forall>x. marked (bit_map sb) x \<longrightarrow> marked (bit_map sb') x) \<and> (\<forall>x. x \<notin> unat ` set (cs @ ns) \<longrightarrow> fat_table sb' ! x = fat_table sb ! x) \<and>
     (\<forall>d ds. other_file sb cs d ds \<longrightarrow> other_file sb' (cs @ ns) d ds)"

lemma same_geometryD:
  assumes "same_geometry sb sb'"
  shows "FAT_CLUSTER_MAX sb' = FAT_CLUSTER_MAX sb" "FirstSectorofCluster sb' = FirstSectorofCluster sb" "file_sectors sb' = file_sectors sb"
    "sector_size sb' = sector_size sb" "sectors_per_block sb' = sectors_per_block sb" "LOGISTIC_C_NUM sb' = LOGISTIC_C_NUM sb"
    "LOGISTIC_S_NUM sb' = LOGISTIC_S_NUM sb" "LOGISTIC_S_OFFSET sb' = LOGISTIC_S_OFFSET sb"
  using assms by (simp_all add: same_geometry_def FAT_CLUSTER_MAX_def FirstSectorofCluster_def FirstDataSector_def file_sectors_def LOGISTIC_C_NUM_def
      LOGISTIC_S_NUM_def LOGISTIC_S_OFFSET_def LOGISTIC_C_OFFSET_def fun_eq_iff)

lemma grows_refl: "volume_ok sb \<Longrightarrow> bitmap_ok sb \<Longrightarrow> grows sb cs [] sb"
  by (simp add: grows_def same_geometry_def)

lemma grows_trans:
  assumes "grows sb cs ns sb1" "grows sb1 (cs @ ns) ms sb2"
  shows "grows sb cs (ns @ ms) sb2"
  using assms by (auto simp: grows_def same_geometry_def)

lemma chain_cong:
  assumes "same_geometry sb sb'" "\<forall>x\<in>unat ` set ds. fat_table sb' ! x = fat_table sb ! x"
  shows "chain sb' d ds = chain sb d ds"
  using assms(2) same_geometryD(1) [OF assms(1)] by (induction ds arbitrary: d) (auto simp: valid_cluster_def)

lemma grows_chain:
  assumes "grows sb cs ns sb'" "set (cs @ ns) \<inter> set ds = {}"
  shows "chain sb' d ds = chain sb d ds"
proof (rule chain_cong)
  show "same_geometry sb sb'" using assms(1) by (simp add: grows_def)
  have "x \<notin> unat ` set (cs @ ns)" if "x \<in> unat ` set ds" for x using assms(2) that by (auto simp: word_unat_eq_iff [symmetric])
  then show "\<forall>x\<in>unat ` set ds. fat_table sb' ! x = fat_table sb ! x" using assms(1) unfolding grows_def by blast
qed

lemma append_grows:
  assumes v: "volume_ok sb" "bitmap_ok sb" and r: "room (Suc k) sb" and s: "stored sb ip cs" "length cs + 1 < MAX_INDEX_1"
  shows "\<exists>sb' ip' c. append_cluster sb ip (last cs) = Some (sb', ip', c) \<and> stored sb' ip' (cs @ [c]) \<and> grows sb cs [c] sb' \<and> room k sb' \<and>
    cluster_start ip' = cluster_start ip"
proof -
  obtain sb' ip' c n t where a: "append_cluster sb ip (last cs) = Some (sb', ip', c)" "\<not> marked (bit_map sb) (unat c)" "stored sb' ip' (cs @ [c])"
    "volume_ok sb'" "bitmap_ok sb'"
    "\<forall>d ds. chain sb d ds \<and> last cs \<notin> set ds \<and> (\<forall>x\<in>set ds. marked (bit_map sb) (unat x)) \<longrightarrow> chain sb' d ds \<and> (\<forall>x\<in>set ds. marked (bit_map sb') (unat x))"
    and sb': "sb' = sb\<lparr>free_count := free_count sb - 1, bit_map := mark (unat c) (bit_map sb), nxt_free := n, hint_valid := True, fs_dirty := True, fat_table := t\<rparr>"
    using append_cluster_ok [OF v room_free [OF r] s] by (elim exE conjE) (rule that)
  have g: "same_geometry sb sb'" by (simp add: sb' same_geometry_def)
  have ft: "fat_table sb' = (fat_table sb)[unat c := EOC, unat (last cs) := c]"
    using append_cluster_exact [OF v room_free [OF r] s] a(1) by auto
  have "valid_cluster sb' (unat c)" using a(3) by (auto simp: stored_def file_ok_def)
  then have "unat c \<le> FAT_CLUSTER_MAX sb" using same_geometryD(1) [OF g] by (simp add: valid_cluster_def)
  then have c: "unat c div MAP_BITS < length (bit_map sb)"
    using v(2) div_le_mono [of "unat c" "FAT_CLUSTER_MAX sb" MAP_BITS] by (simp add: bitmap_ok_def)
  have ne: "cs \<noteq> []" using s(1) by (simp add: stored_def)
  have "other_file sb' (cs @ [c]) d ds" if "other_file sb cs d ds" for d ds
  proof -
    have "last cs \<notin> set ds" "c \<notin> set ds" using that ne a(2) last_in_set by (auto simp: other_file_def)
    then show ?thesis using that a(6) by (auto simp: other_file_def)
  qed
  moreover have "fat_table sb' ! x = fat_table sb ! x" if "x \<notin> unat ` set (cs @ [c])" for x
  proof -
    have "x \<noteq> unat c" "x \<noteq> unat (last cs)" using that last_in_set [OF ne] by auto
    then show ?thesis unfolding ft by (simp add: nth_list_update_neq)
  qed
  ultimately have "grows sb cs [c] sb'"
    using a(2,4,5) g marked_mark [OF c] by (simp add: grows_def) (simp add: sb')
  moreover have "room k sb'" by (rule room_mark [OF r c]) (simp_all add: sb')
  moreover have "cluster_start ip' = cluster_start ip"
    using a(3) s(1) ne by (auto simp: stored_def file_ok_def hd_append)
  ultimately show ?thesis using a(1,3) by blast
qed

subsection \<open>Reaching an offset\<close>

lemma extend_grows:
  assumes "volume_ok sb" "bitmap_ok sb" "room (k + j) sb" "stored sb ip cs" "length cs + k < MAX_INDEX_1"
  shows "\<exists>sb' ip' ns. extend_to k sb ip (last cs) = Some (sb', ip', last (cs @ ns)) \<and> length ns = k \<and> stored sb' ip' (cs @ ns) \<and> grows sb cs ns sb' \<and>
    room j sb' \<and> cluster_start ip' = cluster_start ip"
  using assms
proof (induction k arbitrary: sb ip cs)
  case 0
  then show ?case using grows_refl by (intro exI [of _ sb] exI [of _ ip] exI [of _ "[]"]) auto
next
  case (Suc k)
  obtain sb1 ip1 c where a: "append_cluster sb ip (last cs) = Some (sb1, ip1, c)" "stored sb1 ip1 (cs @ [c])" "grows sb cs [c] sb1" "room (k + j) sb1"
    "cluster_start ip1 = cluster_start ip"
    using append_grows [of sb "k + j" ip cs] Suc.prems by auto
  have v: "volume_ok sb1" "bitmap_ok sb1" using a(3) by (simp_all add: grows_def)
  obtain sb' ip' ns where r: "extend_to k sb1 ip1 (last (cs @ [c])) = Some (sb', ip', last ((cs @ [c]) @ ns))" "length ns = k"
    "stored sb' ip' ((cs @ [c]) @ ns)" "grows sb1 (cs @ [c]) ns sb'" "room j sb'" "cluster_start ip' = cluster_start ip1"
    using Suc.IH [OF v a(4,2)] Suc.prems(5) by auto
  show ?case
    using a(1,5) r grows_trans [OF a(3) r(4)] by (intro exI [of _ sb'] exI [of _ ip'] exI [of _ "c # ns"]) simp
qed

lemma stored_idx: "stored sb ip cs \<Longrightarrow> idx_upd ip (idx_at ip) ip' \<Longrightarrow> stored sb ip' cs"
  using idx_updD [of ip "idx_at ip" ip'] by (auto simp: stored_def file_ok_def)

lemma cursor_grows:
  assumes v: "volume_ok sb" "bitmap_ok sb" and r: "room (LOGISTIC_C_NUM sb off + 1 - length cs + j) sb" and s: "stored sb ip cs"
    and l: "LOGISTIC_C_NUM sb off + 1 < MAX_INDEX_1"
  shows "\<exists>sb' ip' ns. fat32_cursor_to_offset sb ip off = Some (sb', ip', LOGISTIC_C_NUM sb off + 1, (cs @ ns) ! LOGISTIC_C_NUM sb off,
      LOGISTIC_S_NUM sb off, LOGISTIC_S_OFFSET sb off) \<and> length ns = LOGISTIC_C_NUM sb off + 1 - length cs \<and> stored sb' ip' (cs @ ns) \<and>
    grows sb cs ns sb' \<and> room j sb'"
proof (cases "LOGISTIC_C_NUM sb off < length cs")
  case True
  then obtain ip' where "fat32_cursor_to_offset sb ip off = Some (sb, ip', LOGISTIC_C_NUM sb off + 1, cs ! LOGISTIC_C_NUM sb off,
      LOGISTIC_S_NUM sb off, LOGISTIC_S_OFFSET sb off)" "idx_upd ip (idx_at ip) ip'"
    using cursor_inside [OF v(1) _ True, of ip] s by (auto simp: stored_def)
  then show ?thesis using True r s stored_idx grows_refl [OF v] by (intro exI [of _ sb] exI [of _ ip'] exI [of _ "[]"]) auto
next
  case False
  let ?k = "LOGISTIC_C_NUM sb off"
  have F: "idx_lists ip cs" "\<forall>c\<in>set cs. valid_cluster sb (unat c)" "cluster_cnt ip = length cs" "cs \<noteq> []" "cluster_end ip = last cs"
    using s by (auto simp: stored_def file_ok_def idx_lists_def)
  have d: "idx_dom (?k + 1)" using l by (simp add: idx_dom_def)
  obtain ip1 where i: "fat32_ctl_index_table ip (?k + 1) 0 = Some (ip1, EOC)" "idx_upd ip (idx_at ip) ip1"
    using lookup_list [OF v(1) F(2,1) d] False by auto
  have e: "cluster_end ip1 = last cs" "cluster_cnt ip1 = length cs" using idx_updD [OF i(2)] F by simp_all
  obtain sb' ip' ns where x: "extend_to (?k + 1 - length cs) sb ip1 (last cs) = Some (sb', ip', last (cs @ ns))" "length ns = ?k + 1 - length cs"
    "stored sb' ip' (cs @ ns)" "grows sb cs ns sb'" "room j sb'"
    using extend_grows [OF v r stored_idx [OF s i(2)]] False l by auto
  have "last (cs @ ns) = (cs @ ns) ! ?k"
    using False x(2) F(4) by (subst last_conv_nth) auto
  moreover have "same_geometry sb sb'" using x(4) by (simp add: grows_def)
  ultimately show ?thesis
    using x i(1) e by (intro exI [of _ sb'] exI [of _ ip'] exI [of _ ns]) (simp add: fat32_cursor_to_offset_def Let_def same_geometryD)
qed

subsection \<open>Blocks of a growing file\<close>

text \<open>The clusters needed for \<open>t\<close> more blocks from block \<open>i\<close> of the \<open>l\<close>-th cluster on, beyond \<open>m\<close> clusters.\<close>

definition need :: "fatfs \<Rightarrow> nat \<Rightarrow> nat \<Rightarrow> nat \<Rightarrow> nat \<Rightarrow> nat" where
  "need sb m l i t = (l - 1) + (i + t + sectors_per_block sb - 1) div sectors_per_block sb - m"

lemma file_sectors_append: "file_sectors sb (cs @ ds) = file_sectors sb cs @ file_sectors sb ds"
  by (simp add: file_sectors_def)

lemma get_block_grows:
  "volume_ok sb \<Longrightarrow> bitmap_ok sb \<Longrightarrow> stored sb ip cs \<Longrightarrow> room (need sb (length cs) l i (tot - cur) + j) sb \<Longrightarrow> 1 \<le> l \<Longrightarrow> l \<le> length cs \<Longrightarrow> c = cs ! (l - 1) \<Longrightarrow>
    length cs + need sb (length cs) l i (tot - cur) < MAX_INDEX_1 \<Longrightarrow>
    i < sectors_per_block sb \<Longrightarrow> vs = [] \<or> i = 0 \<Longrightarrow> \<forall>w\<in>set vs. fst w \<noteq> 0 \<Longrightarrow> tot - cur < fuel \<Longrightarrow> cur < tot \<Longrightarrow>
    \<exists>sb' ip' vs' ns. get_block_loop fuel True tot sb ip l c i cur vs = Some (sb', ip', vs', tot) \<and> stored sb' ip' (cs @ ns) \<and> grows sb cs ns sb' \<and>
      length ns = need sb (length cs) l i (tot - cur) \<and> room j sb' \<and>
      blocks_of vs' = blocks_of vs @ take (tot - cur) (drop i (file_sectors sb (drop (l - 1) (cs @ ns))))"
proof (induction fuel arbitrary: sb ip cs l c i cur vs)
  case (Suc fuel)
  let ?spc = "sectors_per_block sb" and ?fs = "FirstSectorofCluster sb (unat c)"
  note v = Suc.prems(1,2) and s = Suc.prems(3)
  have F: "file_ok sb ip cs" "idx_lists ip cs" "\<forall>c\<in>set cs. valid_cluster sb (unat c)" "length cs < MAX_INDEX_1"
    using s by (auto simp: stored_def file_ok_def idx_lists_def)
  define n where "n = min (?spc - i) (tot - cur)"
  define vs1 where "vs1 = add_blocks vs ?fs i n"
  have c: "c = cs ! (l - 1)" "l - 1 < length cs" using Suc.prems(5-7) by auto
  have ne: "\<not> ISEOF c" using valid_not_eof(1) [OF v(1)] F(3) c nth_mem by metis
  have dr: "drop (l - 1) (cs @ ns) = c # drop l (cs @ ns)" for ns
  proof -
    have "cs ! (l - 1) = (cs @ ns) ! (l - 1)" using c(2) by (simp add: nth_append)
    then show ?thesis using c Cons_nth_drop_Suc [of "l - 1" "cs @ ns"] Suc.prems(5) by simp
  qed
  note A = add_blocks_ok [OF Suc.prems(11) first_sector_pos [OF v(1)] Suc.prems(10), of "unat c" n, folded vs1_def]
  have P: "take (tot - cur) (drop i (file_sectors sb (drop (l - 1) (cs @ ns)))) =
      [?fs + i ..< ?fs + i + n] @ take (tot - cur - n) (if n = ?spc - i then file_sectors sb (drop l (cs @ ns)) else [])" for ns
    unfolding dr file_sectors_Cons by (rule cluster_part(1) [OF Suc.prems(9) n_def])
  have pos: "0 < n" using Suc.prems(9,13) by (simp add: n_def)
  show ?case
  proof (cases "cur + n = tot")
    case fin: True
    then have tn: "tot - cur = n" by simp
    have g: "get_block_loop (Suc fuel) True tot sb ip l c i cur vs = Some (sb, ip, vs1, tot)"
      using ne Suc.prems(13) fin by (simp add: get_block_loop.simps Let_def n_def [symmetric] vs1_def [symmetric])
    have "i + n + ?spc - 1 \<le> ?spc + (?spc - 1)" using n_def Suc.prems(9) by simp
    then have "(i + n + ?spc - 1) div ?spc \<le> 1" using Suc.prems(9) by (simp add: div_le_mono less_Suc_eq_le [symmetric] div_less_iff_less_mult)
    then have "need sb (length cs) l i (tot - cur) = 0" unfolding need_def tn using Suc.prems(5,6) by linarith
    then show ?thesis
      using g s grows_refl [OF v] A(1) tn P [of "[]"] Suc.prems(4) by (intro exI [of _ sb] exI [of _ ip] exI [of _ vs1] exI [of _ "[]"]) simp
  next
    case more: False
    then have n: "n = ?spc - i" "cur + n < tot" "tot - (cur + n) < fuel" using Suc.prems(12,13) pos by (auto simp: n_def)
    have nd: "need sb m (l + 1) 0 (tot - (cur + n)) = need sb m l i (tot - cur)" for m
    proof -
      have "i + (tot - cur) + ?spc - 1 = ?spc + (0 + (tot - (cur + n)) + ?spc - 1)" using n Suc.prems(9) by linarith
      then have "(i + (tot - cur) + ?spc - 1) div ?spc = 1 + (0 + (tot - (cur + n)) + ?spc - 1) div ?spc"
        using Suc.prems(9) by (simp only: div_add_self1 [of ?spc] add.commute)
      then show ?thesis unfolding need_def using Suc.prems(5) by simp
    qed
    have d: "idx_dom (l + 1)" using Suc.prems(6) F(4) by (simp add: idx_dom_def)
    obtain ip1 where i1: "fat32_ctl_index_table ip (l + 1) 0 = Some (ip1, if l + 1 \<le> length cs then cs ! (l + 1 - 1) else EOC)"
      "idx_upd ip (idx_at ip) ip1"
      using lookup_list [OF v(1) F(3,2) d] by blast
    have s1: "stored sb ip1 cs" using stored_idx [OF s i1(2)] .
    show ?thesis
    proof (cases "l + 1 \<le> length cs")
      case True
      have ne2: "\<not> ISEOF (cs ! l)" using valid_not_eof(1) [OF v(1)] F(3) True by (metis Suc_eq_plus1 Suc_le_lessD nth_mem)
      obtain sb' ip' vs' ns where r: "get_block_loop fuel True tot sb ip1 (l + 1) (cs ! (l + 1 - 1)) 0 (cur + n) vs1 = Some (sb', ip', vs', tot)"
        "stored sb' ip' (cs @ ns)" "grows sb cs ns sb'" "length ns = need sb (length cs) (l + 1) 0 (tot - (cur + n))" "room j sb'"
        "blocks_of vs' = blocks_of vs1 @ take (tot - (cur + n)) (drop 0 (file_sectors sb (drop (l + 1 - 1) (cs @ ns))))"
        using Suc.IH [OF v s1, of "l + 1" 0 "cur + n" "cs ! (l + 1 - 1)" vs1] Suc.prems(4,8,9) True A(2) n(2,3) unfolding nd
        by auto
      have "get_block_loop (Suc fuel) True tot sb ip l c i cur vs = Some (sb', ip', vs', tot)"
        using ne ne2 Suc.prems(13) more i1(1) True r(1) by (simp add: get_block_loop.simps Let_def n_def [symmetric] vs1_def [symmetric])
      then show ?thesis
        using r(2-6) A(1) P [of ns] n(1) unfolding nd by (intro exI [of _ sb'] exI [of _ ip'] exI [of _ vs'] exI [of _ ns]) simp
    next
      case False
      then have l: "l = length cs" using Suc.prems(6) by simp
      have "0 < need sb (length cs) l i (tot - cur)"
      proof -
        have "?spc \<le> 0 + (tot - (cur + n)) + ?spc - 1" using n(2) by linarith
        then have "1 \<le> (0 + (tot - (cur + n)) + ?spc - 1) div ?spc" using Suc.prems(9) by (simp add: Suc_le_eq div_greater_zero_iff)
        then show ?thesis using nd [of "length cs"] unfolding need_def l by linarith
      qed
      then obtain k where k: "need sb (length cs) l i (tot - cur) = Suc k" using gr0_implies_Suc by blast
      have lc: "c = last cs" using c l Suc.prems(5) by (subst last_conv_nth) auto
      obtain sb1 ip2 c2 where a: "append_cluster sb ip1 (last cs) = Some (sb1, ip2, c2)" "stored sb1 ip2 (cs @ [c2])" "grows sb cs [c2] sb1" "room (k + j) sb1"
        using append_grows [OF v _ s1, of "k + j"] Suc.prems(4,8) unfolding k by auto
      have v1: "volume_ok sb1" "bitmap_ok sb1" "same_geometry sb sb1" using a(3) by (simp_all add: grows_def)
      note G = same_geometryD [OF v1(3)]
      have nd1: "need sb1 (length (cs @ [c2])) (l + 1) 0 (tot - (cur + n)) = k"
        using nd [of "length cs"] k unfolding need_def G by simp linarith
      obtain sb' ip' vs' ns where r: "get_block_loop fuel True tot sb1 ip2 (l + 1) c2 0 (cur + n) vs1 = Some (sb', ip', vs', tot)"
        "stored sb' ip' ((cs @ [c2]) @ ns)" "grows sb1 (cs @ [c2]) ns sb'" "length ns = k" "room j sb'"
        "blocks_of vs' = blocks_of vs1 @ take (tot - (cur + n)) (drop 0 (file_sectors sb1 (drop (l + 1 - 1) ((cs @ [c2]) @ ns))))"
        using Suc.IH [OF v1(1,2) a(2), of "l + 1" 0 "cur + n" c2 vs1] a(4) Suc.prems(8,9) l A(2) n(2,3) k unfolding nd1 G
        by (auto simp: nth_append)
      have "get_block_loop (Suc fuel) True tot sb ip l c i cur vs = Some (sb', ip', vs', tot)"
        using ne Suc.prems(13) more i1(1) False r(1) a(1) [folded lc] by (simp add: get_block_loop.simps Let_def n_def [symmetric] vs1_def [symmetric])
      then show ?thesis
        using r(2,4,5,6) grows_trans [OF a(3) r(3)] A(1) P [of "c2 # ns"] n(1) k G(3)
        by (intro exI [of _ sb'] exI [of _ ip'] exI [of _ vs'] exI [of _ "c2 # ns"]) simp
    qed
  qed
qed simp

text \<open>The clusters a file of \<open>e\<close> bytes occupies.\<close>

definition clusters_for :: "fatfs \<Rightarrow> nat \<Rightarrow> nat" where
  "clusters_for sb e = (e + sectors_per_block sb * sector_size sb - 1) div (sectors_per_block sb * sector_size sb)"

lemma ceil_mult: "0 < ss \<Longrightarrow> 0 < spc \<Longrightarrow> (q * ss + spc * ss - 1) div (spc * ss) = (q + spc - 1) div spc" for q ss spc :: nat
proof -
  assume p: "0 < ss" "0 < spc"
  obtain m where m: "q + spc = Suc m" using p(2) by (metis add_gr_0 gr0_implies_Suc)
  have "q * ss + spc * ss - 1 = m * ss + (ss - 1)" using p(1) m by (metis Nat.add_diff_assoc Suc_leI One_nat_def add.commute add_mult_distrib mult_Suc)
  moreover have "(m * ss + (ss - 1)) div ss = m + (ss - 1) div ss" using p(1) by (subst add.commute, subst div_mult_self1) simp_all
  ultimately have "(q * ss + spc * ss - 1) div ss = q + spc - 1" using p(1) m by (simp only:) simp
  then show ?thesis by (metis div_mult2_eq mult.commute)
qed

lemma get_block_growing:
  assumes v: "volume_ok sb" "bitmap_ok sb" and s: "stored sb ip cs" and off: "off mod 4096 = 0" "off mod sector_size sb = 0" and n: "n mod sector_size sb = 0" "0 < n"
    and r: "room (clusters_for sb (off + n) - length cs + j) sb" "clusters_for sb (off + n) < MAX_INDEX_1"
  shows "\<exists>sb' ip' vs ns. fat32_get_block sb ip off n True = Some (sb', ip', vs, n div sector_size sb) \<and> stored sb' ip' (cs @ ns) \<and> grows sb cs ns sb' \<and>
    length ns = clusters_for sb (off + n) - length cs \<and> room j sb' \<and>
    blocks_of vs = take (n div sector_size sb) (drop (off div sector_size sb) (file_sectors sb (cs @ ns)))"
proof -
  let ?k = "LOGISTIC_C_NUM sb off" and ?s = "LOGISTIC_S_NUM sb off" and ?ss = "sector_size sb" and ?spc = "sectors_per_block sb" and ?t = "n div sector_size sb"
  have S: "0 < ?spc" "0 < ?ss" using v(1) by (simp_all add: volume_ok_def)
  note O = offset_split [OF S off(2), folded LOGISTIC_C_NUM_def LOGISTIC_C_OFFSET_def, folded LOGISTIC_S_NUM_def LOGISTIC_S_OFFSET_def]
  have q: "n = ?t * ?ss" "off = (off div ?ss) * ?ss" using n(1) off(2) by auto
  have tp: "0 < ?t" using q(1) n(2) by (cases "?t") auto
  have cf: "clusters_for sb (off + n) = ?k + (?s + ?t + ?spc - 1) div ?spc"
  proof -
    have "off + n = (?k * ?spc + (?s + ?t)) * ?ss" using q O(1) by (metis add.assoc add_mult_distrib)
    then have "clusters_for sb (off + n) = (?k * ?spc + (?s + ?t) + ?spc - 1) div ?spc"
      unfolding clusters_for_def using ceil_mult [OF S(2,1)] by simp
    also have "?k * ?spc + (?s + ?t) + ?spc - 1 = (?s + ?t + ?spc - 1) + ?k * ?spc" using S(1) by linarith
    finally show ?thesis using S(1) by (simp only: div_mult_self1)
  qed
  have "?spc \<le> ?s + ?t + ?spc - 1" using tp by linarith
  then have one: "1 \<le> (?s + ?t + ?spc - 1) div ?spc" using S(1) by (simp only: Suc_le_eq div_greater_zero_iff One_nat_def simp_thms)
  have nd: "?k + 1 - length cs + need sb (length cs + (?k + 1 - length cs)) (?k + 1) ?s ?t = clusters_for sb (off + n) - length cs"
    unfolding cf need_def using one by simp
  obtain sb1 ip1 ns1 where c: "fat32_cursor_to_offset sb ip off = Some (sb1, ip1, ?k + 1, (cs @ ns1) ! ?k, ?s, LOGISTIC_S_OFFSET sb off)"
    "length ns1 = ?k + 1 - length cs" "stored sb1 ip1 (cs @ ns1)" "grows sb cs ns1 sb1" "room (need sb (length cs + (?k + 1 - length cs)) (?k + 1) ?s ?t + j) sb1"
    using cursor_grows [OF v _ s, of off "need sb (length cs + (?k + 1 - length cs)) (?k + 1) ?s ?t + j"] r one nd by (auto simp: cf add.assoc [symmetric])
  have v1: "volume_ok sb1" "bitmap_ok sb1" "same_geometry sb sb1" using c(4) by (simp_all add: grows_def)
  note G = same_geometryD [OF v1(3)]
  have len: "length (cs @ ns1) = length cs + (?k + 1 - length cs)" using c(2) by simp
  have nd1: "need sb1 (length (cs @ ns1)) (?k + 1) ?s (?t - 0) = need sb (length cs + (?k + 1 - length cs)) (?k + 1) ?s ?t"
    unfolding len need_def G by simp
  have mx: "length (cs @ ns1) + need sb1 (length (cs @ ns1)) (?k + 1) ?s (?t - 0) < MAX_INDEX_1"
  proof -
    have "length (cs @ ns1) < MAX_INDEX_1" using c(3) by (simp add: stored_def file_ok_def)
    then show ?thesis using nd r(2) nd1 len by linarith
  qed
  have le: "Suc ?k \<le> length cs + (Suc ?k - length cs)" by simp
  obtain sb' ip' vs ns where l: "get_block_loop (Suc ?t) True ?t sb1 ip1 (?k + 1) ((cs @ ns1) ! ?k) ?s 0 [] = Some (sb', ip', vs, ?t)"
    "stored sb' ip' ((cs @ ns1) @ ns)" "grows sb1 (cs @ ns1) ns sb'" "length ns = need sb1 (length (cs @ ns1)) (?k + 1) ?s (?t - 0)" "room j sb'"
    "blocks_of vs = blocks_of [] @ take (?t - 0) (drop ?s (file_sectors sb1 (drop (?k + 1 - 1) ((cs @ ns1) @ ns))))"
    using get_block_grows [OF v1(1,2) c(3), of "?k + 1" ?s ?t 0 j "(cs @ ns1) ! ?k" "[]" "Suc ?t", OF _ _ _ _ mx] c(2,5) O(2) tp nd1 G(5) le by auto
  have t: "(n + ?ss - 1) div ?ss = ?t"
    using ceil_mult [of ?ss 1 ?t] S(2) q(1) by simp
  have b: "drop ?s (file_sectors sb (drop ?k ds)) = drop (off div ?ss) (file_sectors sb ds)" for ds
    unfolding O(1) file_sectors_drop [symmetric] by (simp add: add.commute)
  have "fat32_get_block sb ip off n True = Some (sb', ip', vs, ?t)"
    using c(1) l(1) off(1) n O(3) t by (simp add: fat32_get_block_def G(4) Let_def)
  moreover have "length (ns1 @ ns) = clusters_for sb (off + n) - length cs" using c(2) l(4) nd1 nd by simp
  moreover have "blocks_of vs = take ?t (drop (off div ?ss) (file_sectors sb (cs @ ns1 @ ns)))"
    using l(6) b [of "cs @ ns1 @ ns"] by (simp only: G(3) append_assoc diff_zero add_diff_cancel_right') (simp add: blocks_of_def)
  ultimately show ?thesis using l(2,5) grows_trans [OF c(4) l(3)] by (intro exI [of _ sb'] exI [of _ ip'] exI [of _ vs] exI [of _ "ns1 @ ns"]) simp
qed

end
