(* ===== verification/FileMap.thy ===== *)
theory FileMap
  imports FatGrow FatDir RadixTree "HOL-Library.Signed_Division"
begin

text \<open>
  The page cache: \<open>src/mm/filemap.c\<close>, \<open>src/fs/mpage.c\<close>, and from \<open>src/fs/fat32/fat32_inode.c\<close> the reading and writing of an inode and the life of its
  mapping.  The pages of a file are found through the radix tree of \<open>RadixTree\<close>, whose items are the addresses of the pages; file ranges become disk blocks by
  \<open>fat32_get_block\<close> of \<open>Fat\<close>.

  The contents of a cached page are kept under its index in the file: different pages have different addresses.  The addresses matter only for the merging of
  disk requests; \<open>kz i k\<close> is the address \<open>kzalloc\<close> returns for \<open>k\<close> pages from index \<open>i\<close> on, 0 if there is no memory.  \<open>fr i\<close> is the free memory when page \<open>i\<close>
  is missed.  A request copies to or from memory of a process: \<open>out p l\<close> tells whether the copy of \<open>l\<close> bytes to position \<open>p\<close> of the destination succeeds, \<open>src p l\<close> is the
  bytes that are copied from position \<open>p\<close> of the source, fewer than \<open>l\<close> if that fails.  The disk is a function from sector numbers to bytes, which \<open>disk_rw\<close> reads
  and writes.
\<close>

subsection \<open>State\<close>

record address_space =
  page_tree :: "nat radix_tree_root"
  nrpages :: nat
  last_index :: nat
  read_ahead_cnt :: nat
  read_ahead_end :: nat

record cinode =
  i_sb :: fatfs
  i_fat :: finode
  i_size :: uint
  i_mode :: uint16
  i_blocks :: int
  i_mapping :: "address_space option"
  i_pages :: "nat \<Rightarrow> byte list"
  i_dirty :: bool
  dirty_in_parent :: bool
  i_writeback :: bool
  disk :: "nat \<Rightarrow> byte list"

definition READ_AHEAD_RATE :: nat where "READ_AHEAD_RATE = 20"
definition READ_AHEAD_PAGE_MAX_CNT :: nat where "READ_AHEAD_PAGE_MAX_CNT = 8"
definition PAGECACHE_TAG_DIRTY :: nat where "PAGECACHE_TAG_DIRTY = 0"

subsection \<open>\<open>filemap.c\<close>: the pages of a mapping\<close>

definition add_to_page_cache_atomic :: "nat \<Rightarrow> address_space \<Rightarrow> nat \<Rightarrow> address_space option" where
  "add_to_page_cache_atomic pa m index = do {
     (t, error) \<leftarrow> radix_tree_insert (page_tree m) index pa;
     ASSERT (error = 0);
     Some (m\<lparr>page_tree := t, nrpages := nrpages m + 1\<rparr>) }"

definition find_get_page_atomic :: "address_space \<Rightarrow> nat \<Rightarrow> nat option option" where
  "find_get_page_atomic m index = map_option slot_item (radix_tree_lookup_node (page_tree m) index)"

subsection \<open>\<open>mpage.c\<close>: transfers between pages and disk\<close>

text \<open>\<open>submit_bio\<close> (\<open>src/fs/bio.c\<close>): the vectors in order, each with the part of the memory that belongs to it.\<close>

fun submit_read :: "(nat \<Rightarrow> byte list) \<Rightarrow> bio_vecs \<Rightarrow> byte list" where
  "submit_read d [] = []"
| "submit_read d ((b, l) # vs) = concat (List.map d [b ..< b + l]) @ submit_read d vs"

fun submit_write :: "nat \<Rightarrow> (nat \<Rightarrow> byte list) \<Rightarrow> bio_vecs \<Rightarrow> byte list \<Rightarrow> (nat \<Rightarrow> byte list)" where
  "submit_write bsize d [] mem = d"
| "submit_write bsize d ((b, l) # vs) mem =
     submit_write bsize (\<lambda>s. if b \<le> s \<and> s < b + l then take bsize (drop ((s - b) * bsize) mem) else d s) vs (drop (l * bsize) mem)"

text \<open>The memory of \<open>cnt\<close> adjacent pages.\<close>

definition region :: "cinode \<Rightarrow> nat \<Rightarrow> nat \<Rightarrow> byte list" where
  "region ip index cnt = concat (List.map (i_pages ip) [index ..< index + cnt])"

definition set_region :: "(nat \<Rightarrow> byte list) \<Rightarrow> nat \<Rightarrow> nat \<Rightarrow> byte list \<Rightarrow> (nat \<Rightarrow> byte list)" where
  "set_region pages index cnt mem i =
     (if index \<le> i \<and> i < index + cnt then take PGSIZE (drop ((i - index) * PGSIZE) mem) else pages i)"

text \<open>\<open>fat32_rw_pages\<close> with \<open>block_full_pages\<close>; \<open>wr\<close> is \<open>DISK_WRITE\<close>.\<close>

definition fat32_rw_pages :: "bool \<Rightarrow> bool \<Rightarrow> cinode \<Rightarrow> nat \<Rightarrow> nat \<Rightarrow> cinode option" where
  "fat32_rw_pages wr alloc ip index cnt = do {
     let off = index * PGSIZE mod 2 ^ 32;
     let n = cnt * PGSIZE mod 2 ^ 32;
     (sb, fi, vs, blocks_n) \<leftarrow> fat32_get_block (i_sb ip) (i_fat ip) off n alloc;
     ASSERT (alloc \<longrightarrow> blocks_n * sector_size sb = n);
     let ip = ip\<lparr>i_sb := sb, i_fat := fi\<rparr>;
     let mem = region ip index cnt;
     Some (if wr then ip\<lparr>disk := submit_write (sector_size sb) (disk ip) vs mem\<rparr>
           else let data = submit_read (disk ip) vs
                in ip\<lparr>i_pages := set_region (i_pages ip) index cnt (data @ drop (length data) mem)\<rparr>) }"

text \<open>A \<open>Page_item\<close> is its address and index.  The inner loop of \<open>fat32_rw_pages_batch\<close> counts how many items follow that are adjacent on disk and in memory.\<close>

type_synonym page_item = "nat \<times> nat"

definition PAGE_ADJACENT :: "page_item \<Rightarrow> page_item \<Rightarrow> bool" where
  "PAGE_ADJACENT p q \<longleftrightarrow> snd p + 1 = snd q \<and> fst p + PGSIZE = fst q"

fun batch_size :: "page_item \<Rightarrow> page_item list \<Rightarrow> nat" where
  "batch_size p [] = 0"
| "batch_size p (q # qs) = (if PAGE_ADJACENT p q then Suc (batch_size q qs) else 0)"

function fat32_rw_pages_batch :: "bool \<Rightarrow> bool \<Rightarrow> cinode \<Rightarrow> page_item list \<Rightarrow> cinode option" where
  "fat32_rw_pages_batch wr alloc ip [] = Some ip"
| "fat32_rw_pages_batch wr alloc ip (p # ps) = do {
     ip \<leftarrow> fat32_rw_pages wr alloc ip (snd p) (Suc (batch_size p ps));
     fat32_rw_pages_batch wr alloc ip (drop (batch_size p ps) ps) }"
  by pat_completeness auto
termination by (relation "measure (\<lambda>(wr, alloc, ip, ps). length ps)") auto

text \<open>The end of a run of pages that are not cached.\<close>

function run_end :: "address_space \<Rightarrow> nat \<Rightarrow> nat \<Rightarrow> nat \<Rightarrow> nat option" where
  "run_end m index cnt end_idx =
     (if end_idx < cnt then do {
        page \<leftarrow> find_get_page_atomic m (index + end_idx);
        if page \<noteq> None then Some end_idx else run_end m index cnt (end_idx + 1) }
      else Some end_idx)"
  by pat_completeness auto
termination by (relation "measure (\<lambda>(m, index, cnt, end_idx). cnt - end_idx)") auto

declare run_end.simps [simp del]

primrec add_pages :: "nat \<Rightarrow> nat \<Rightarrow> nat \<Rightarrow> address_space \<Rightarrow> address_space option" where
  "add_pages 0 pa index m = Some m"
| "add_pages (Suc k) pa index m = do { m \<leftarrow> add_to_page_cache_atomic pa m index; add_pages k (pa + PGSIZE) (index + 1) m }"

text \<open>The loop of \<open>mpage_readpages\<close>: runs of missing pages are allocated, entered in the cache and listed.\<close>

partial_function (option) readpages_loop :: "(nat \<Rightarrow> nat \<Rightarrow> nat) \<Rightarrow> nat \<Rightarrow> nat \<Rightarrow> nat \<Rightarrow> cinode \<Rightarrow> page_item list \<Rightarrow> (cinode \<times> page_item list) option" where
  "readpages_loop kz index cnt start_idx ip items =
     (if start_idx < cnt then do {
        m \<leftarrow> i_mapping ip;
        page \<leftarrow> find_get_page_atomic m (index + start_idx);
        if page = None then do {
          end_idx \<leftarrow> run_end m index cnt (start_idx + 1);
          let k = end_idx - start_idx;
          let pa = kz (index + start_idx) k;
          ASSERT (pa \<noteq> 0);
          m \<leftarrow> add_pages k pa (index + start_idx) m;
          readpages_loop kz index cnt (end_idx + 1)
            (ip\<lparr>i_mapping := Some m, i_pages := set_region (i_pages ip) (index + start_idx) k (replicate (k * PGSIZE) 0)\<rparr>)
            (items @ List.map (\<lambda>z. (pa + z * PGSIZE, index + start_idx + z)) [0 ..< k]) }
        else do {
          ASSERT (start_idx \<noteq> 0);
          readpages_loop kz index cnt (start_idx + 1) ip items } }
      else Some (ip, items))"

text \<open>The early return for a single page that is not read from disk leaves out only the list, which is not used then.\<close>

definition mpage_readpages :: "(nat \<Rightarrow> nat \<Rightarrow> nat) \<Rightarrow> cinode \<Rightarrow> nat \<Rightarrow> nat \<Rightarrow> bool \<Rightarrow> bool \<Rightarrow> cinode option" where
  "mpage_readpages kz ip index cnt read_from_disk alloc = do {
     ASSERT (0 < cnt);
     (ip, items) \<leftarrow> readpages_loop kz index cnt 0 ip [];
     if read_from_disk then fat32_rw_pages_batch False alloc ip items else Some ip }"

text \<open>\<open>mpage_writepage\<close>: \<open>page_list_add\<close> lists the pages the gang lookup calls it for.\<close>

definition mpage_writepage :: "bool \<Rightarrow> cinode \<Rightarrow> cinode option" where
  "mpage_writepage alloc ip = do {
     m \<leftarrow> i_mapping ip;
     if rt_height (page_tree m) = 0 \<and> rnode (page_tree m) = RNull then Some ip
     else do {
       calls \<leftarrow> radix_tree_general_gang_lookup_elements (page_tree m) 0 UINT64_MAX (Some PAGECACHE_TAG_DIRTY);
       ASSERT (0 < length calls);
       ASSERT (rt_height (page_tree m) = 0 \<longrightarrow> length calls = 1);
       fat32_rw_pages_batch True alloc ip (List.map (\<lambda>(i, pa). (pa, i)) calls) } }"

subsection \<open>\<open>filemap.c\<close>: reading and writing\<close>

text \<open>\<open>PGROUNDUP(x) / PGSIZE\<close> on 64 bits.\<close>

definition pages_of :: "nat \<Rightarrow> nat" where "pages_of x = (x + PGSIZE - 1) mod 2 ^ 64 div PGSIZE"

definition max_sane_readahead :: "nat \<Rightarrow> nat \<Rightarrow> nat \<Rightarrow> nat \<Rightarrow> nat" where
  "max_sane_readahead free_mem nr read_ahead tot_nr =
     min (min (pages_of nr + read_ahead) (((free_mem + READ_AHEAD_RATE - 1) div READ_AHEAD_RATE + PGSIZE - 1) div PGSIZE)) (pages_of tot_nr)"

text \<open>The adaptation of the read-ahead after a miss; \<open>ahead_tmp\<close> is an \<open>int\<close>, which is extended for the comparison.\<close>

definition read_ahead_update :: "nat \<Rightarrow> nat \<Rightarrow> address_space \<Rightarrow> address_space" where
  "read_ahead_update index end_index m =
     (let ahead_tmp = unat (scast (word_of_nat (read_ahead_end m + read_ahead_cnt m) :: 32 word) :: 64 word);
          cnt = (if index > last_index m
                 then if ahead_tmp \<le> end_index
                      then if read_ahead_cnt m < READ_AHEAD_PAGE_MAX_CNT then (if read_ahead_cnt m = 0 then 1 else read_ahead_cnt m * 2)
                           else read_ahead_cnt m + 1
                      else read_ahead_cnt m
                 else 0)
      in m\<lparr>read_ahead_cnt := cnt, last_index := index\<rparr>)"

text \<open>The page \<open>index\<close> of a read: the second component tells that the read stops because no page may be read ahead.  The number of bytes left in the file is computed as
  \<open>isize - (off + retval)\<close>, although \<open>off\<close> has advanced with \<open>retval\<close>.\<close>

definition read_page :: "(nat \<Rightarrow> nat \<Rightarrow> nat) \<Rightarrow> (nat \<Rightarrow> nat) \<Rightarrow> nat \<Rightarrow> cinode \<Rightarrow> nat \<Rightarrow> nat \<Rightarrow> (cinode \<times> bool) option" where
  "read_page kz fr n ip off retval = do {
     m \<leftarrow> i_mapping ip;
     let index = off div PGSIZE;
     page \<leftarrow> find_get_page_atomic m index;
     if page = None then do {
       let tot_nr = nat ((uint (i_size ip) - int (off + retval)) mod 2 ^ 64);
       let cnt = max_sane_readahead (fr index) (n - retval) (read_ahead_cnt m) tot_nr;
       let ip = ip\<lparr>i_mapping := Some (m\<lparr>read_ahead_end := (index + cnt + (2 ^ 64 - 1)) mod 2 ^ 64\<rparr>)\<rparr>;
       if cnt = 0 then Some (ip, True)
       else do {
         ip \<leftarrow> mpage_readpages kz ip index cnt True False;
         m \<leftarrow> i_mapping ip;
         Some (ip\<lparr>i_mapping := Some (read_ahead_update index ((unat (i_size ip) - 1) div PGSIZE) m)\<rparr>, False) } }
     else Some (ip, False) }"

text \<open>The loop of \<open>do_generic_file_read\<close>: the inode, the value returned and the bytes copied out.\<close>

partial_function (option) file_read_loop :: "(nat \<Rightarrow> nat \<Rightarrow> nat) \<Rightarrow> (nat \<Rightarrow> nat) \<Rightarrow> (nat \<Rightarrow> nat \<Rightarrow> bool) \<Rightarrow> nat \<Rightarrow> cinode \<Rightarrow> nat \<Rightarrow> nat \<Rightarrow> byte list \<Rightarrow>
    (cinode \<times> int \<times> byte list) option" where
  "file_read_loop kz fr out n ip off retval acc =
     (let isize = unat (i_size ip); index = off div PGSIZE; offset = off mod PGSIZE; end_index = (isize - 1) div PGSIZE;
          nr = (if index = end_index then (isize - 1) mod PGSIZE + 1 else PGSIZE)
      in if index > end_index then Some (ip, int retval, acc)
         else if nr \<le> offset then None
         else do {
           (ip, stop) \<leftarrow> read_page kz fr n ip off retval;
           if stop then Some (ip, int retval, acc)
           else let len = min (min (n - retval) (nr - offset)) (isize - offset)
                in if \<not> out retval len then Some (ip, -1, acc)
                   else let acc = acc @ take len (drop offset (i_pages ip index))
                        in if retval + len = n then Some (ip, int n, acc)
                           else file_read_loop kz fr out n ip (off + len) (retval + len) acc })"

definition do_generic_file_read :: "(nat \<Rightarrow> nat \<Rightarrow> nat) \<Rightarrow> (nat \<Rightarrow> nat) \<Rightarrow> (nat \<Rightarrow> nat \<Rightarrow> bool) \<Rightarrow> cinode \<Rightarrow> nat \<Rightarrow> nat \<Rightarrow>
    (cinode \<times> int \<times> byte list) option" where
  "do_generic_file_read kz fr out ip off n = do { ASSERT (i_size ip > 0); file_read_loop kz fr out n ip off 0 [] }"

definition WRITE_FULL_PAGE :: "nat \<Rightarrow> bool" where "WRITE_FULL_PAGE rest_val \<longleftrightarrow> PGSIZE \<le> rest_val"
definition OUT_FILE :: "nat \<Rightarrow> nat \<Rightarrow> bool" where "OUT_FILE offset_cur offset_tot \<longleftrightarrow> offset_tot < offset_cur"

text \<open>One page of a write: it is found or entered, filled from the source and, if all bytes came, marked dirty.\<close>

definition write_page :: "(nat \<Rightarrow> nat \<Rightarrow> nat) \<Rightarrow> (nat \<Rightarrow> nat \<Rightarrow> byte list) \<Rightarrow> nat \<Rightarrow> nat \<Rightarrow> cinode \<Rightarrow> nat \<Rightarrow> nat \<Rightarrow> (cinode \<times> bool) option" where
  "write_page kz src n isize_offset ip off retval = do {
     m \<leftarrow> i_mapping ip;
     let index = off div PGSIZE;
     let offset = off mod PGSIZE;
     page \<leftarrow> find_get_page_atomic m index;
     ip \<leftarrow> (if page = None
            then mpage_readpages kz ip index 1 (\<not> (WRITE_FULL_PAGE (n - retval) \<or> OUT_FILE offset isize_offset)) True
            else Some ip);
     let len = min (n - retval) (PGSIZE - offset);
     let bytes = take len (src retval len);
     let page = i_pages ip index;
     let ip = ip\<lparr>i_pages := (i_pages ip)(index := take offset page @ bytes @ drop (offset + length bytes) page)\<rparr>;
     if length bytes < len then Some (ip, False)
     else do {
       m \<leftarrow> i_mapping ip;
       (t, _) \<leftarrow> radix_tree_tag_set (page_tree m) index PAGECACHE_TAG_DIRTY;
       Some (ip\<lparr>i_mapping := Some (m\<lparr>page_tree := t\<rparr>)\<rparr>, True) } }"

partial_function (option) file_write_loop :: "(nat \<Rightarrow> nat \<Rightarrow> nat) \<Rightarrow> (nat \<Rightarrow> nat \<Rightarrow> byte list) \<Rightarrow> nat \<Rightarrow> nat \<Rightarrow> cinode \<Rightarrow> nat \<Rightarrow> nat \<Rightarrow> (cinode \<times> int) option" where
  "file_write_loop kz src n isize_offset ip off retval = do {
     (ip, ok) \<leftarrow> write_page kz src n isize_offset ip off retval;
     let len = min (n - retval) (PGSIZE - off mod PGSIZE);
     if \<not> ok then Some (ip, -1)
     else if retval + len = n then Some (ip, int n)
     else file_write_loop kz src n isize_offset ip (off + len) (retval + len) }"

definition do_generic_file_write :: "(nat \<Rightarrow> nat \<Rightarrow> nat) \<Rightarrow> (nat \<Rightarrow> nat \<Rightarrow> byte list) \<Rightarrow> cinode \<Rightarrow> nat \<Rightarrow> nat \<Rightarrow> (cinode \<times> int) option" where
  "do_generic_file_write kz src ip off n = do { ASSERT (0 < n); file_write_loop kz src n (unat (i_size ip) mod PGSIZE) ip off 0 }"

subsection \<open>\<open>fat32_inode.c\<close>: files and their mapping\<close>

definition fat32_i_mapping_init :: "cinode \<Rightarrow> cinode" where
  "fat32_i_mapping_init ip =
     ip\<lparr>i_mapping := Some \<lparr>page_tree = INIT_RADIX_TREE GFP_FS, nrpages = 0, last_index = 0, read_ahead_cnt = 0, read_ahead_end = 0\<rparr>\<rparr>"

text \<open>The pages and nodes go back to the allocator; a mapping without pages is kept.\<close>

definition fat32_i_mapping_destroy :: "cinode \<Rightarrow> cinode" where
  "fat32_i_mapping_destroy ip =
     (case i_mapping ip of None \<Rightarrow> ip | Some m \<Rightarrow> if rnode (page_tree m) = RNull then ip else ip\<lparr>i_mapping := None\<rparr>)"

text \<open>The result is stored in an \<open>int\<close>.\<close>

definition to_int :: "int \<Rightarrow> int" where "to_int r = sint (word_of_int r :: 32 word)"

definition fat32_inode_read :: "(nat \<Rightarrow> nat \<Rightarrow> nat) \<Rightarrow> (nat \<Rightarrow> nat) \<Rightarrow> (nat \<Rightarrow> nat \<Rightarrow> bool) \<Rightarrow> cinode \<Rightarrow> uint \<Rightarrow> uint \<Rightarrow> (cinode \<times> int \<times> byte list) option" where
  "fat32_inode_read kz fr out ip off n =
     (let fileSize = i_size ip in
      if off > fileSize \<or> off + n < off then Some (ip, 0, [])
      else let n = (if off + n > fileSize then fileSize - off else n) in
      if n = 0 then Some (ip, 0, [])
      else do {
        let ip = (if i_mapping ip = None then fat32_i_mapping_init ip else ip);
        (ip, ret, bytes) \<leftarrow> do_generic_file_read kz fr out ip (unat off) (unat n);
        Some (ip, to_int ret, bytes) })"

definition cluster_size :: "fatfs \<Rightarrow> nat" where "cluster_size sb = sectors_per_block sb * sector_size sb"

definition S_ISREG :: "uint16 \<Rightarrow> bool" where "S_ISREG mode \<longleftrightarrow> mode AND S_IFMT = 0x8000"

text \<open>\<open>__get_blocks\<close> takes and returns an \<open>int\<close>.\<close>

definition get_blocks :: "fatfs \<Rightarrow> uint \<Rightarrow> int" where
  "get_blocks sb sz = (let s = sint sz; c = int (cluster_size sb) in s sdiv c + (if s AND (c - 1) \<noteq> 0 then 1 else 0))"

definition fat32_inode_write :: "(nat \<Rightarrow> nat \<Rightarrow> nat) \<Rightarrow> (nat \<Rightarrow> nat \<Rightarrow> byte list) \<Rightarrow> cinode \<Rightarrow> uint \<Rightarrow> uint \<Rightarrow> (cinode \<times> int) option" where
  "fat32_inode_write kz src ip off n =
     (let fileSize = i_size ip in
      if off + n < off then Some (ip, -1)
      else do {
        let ip = (if i_mapping ip = None then fat32_i_mapping_init ip else ip);
        (ip, r) \<leftarrow> do_generic_file_write kz src ip (unat off) (unat n);
        let tot = to_int r;
        if tot = -1 then Some (ip, -1)
        else do {
          let ip = ip\<lparr>i_dirty := True\<rparr>;
          let nsize = (if S_ISREG (i_mode ip) then off + word_of_int tot
                      else word_of_nat ((unat (off + word_of_int tot) + cluster_size (i_sb ip) - 1) div cluster_size (i_sb ip) * cluster_size (i_sb ip)));
          Some (if off + n > fileSize
                then ip\<lparr>i_size := nsize, i_blocks := get_blocks (i_sb ip) nsize, dirty_in_parent := True\<rparr>
                else ip, tot) } })"

subsection \<open>Bytes of a file\<close>

text \<open>The bytes of a list of equal blocks, and of the disk under a file.\<close>

lemma concat_blocks_length: "(\<And>x. x \<in> set xs \<Longrightarrow> length (f x) = b) \<Longrightarrow> length (concat (map f xs)) = length xs * b"
  by (induction xs) auto

lemma concat_blocks_nth:
  assumes "\<And>x. x \<in> set xs \<Longrightarrow> length (f x) = b" "p < length xs * b"
  shows "concat (map f xs) ! p = f (xs ! (p div b)) ! (p mod b)"
  using assms
proof (induction xs arbitrary: p)
  case (Cons x xs)
  have b: "0 < b" using Cons.prems(2) by (cases b) auto
  show ?case
  proof (cases "p < b")
    case True
    then show ?thesis using Cons.prems(1) by (simp add: nth_append)
  next
    case False
    then have "p div b = Suc ((p - b) div b)" "p mod b = (p - b) mod b" using b by (simp_all add: le_div_geq le_mod_geq)
    then show ?thesis using Cons.IH [of "p - b"] Cons.prems False by (simp add: nth_append)
  qed
qed simp

definition file_bytes :: "(nat \<Rightarrow> byte list) \<Rightarrow> fatfs \<Rightarrow> FAT_entry_t list \<Rightarrow> byte list" where
  "file_bytes d sb cs = concat (map d (file_sectors sb cs))"

text \<open>The byte at position \<open>p\<close>, 0 behind the last cluster.\<close>

definition file_byte :: "(nat \<Rightarrow> byte list) \<Rightarrow> fatfs \<Rightarrow> FAT_entry_t list \<Rightarrow> nat \<Rightarrow> byte" where
  "file_byte d sb cs p = (if p < length cs * cluster_size sb then file_bytes d sb cs ! p else 0)"

definition disk_page :: "(nat \<Rightarrow> byte list) \<Rightarrow> fatfs \<Rightarrow> FAT_entry_t list \<Rightarrow> nat \<Rightarrow> byte list" where
  "disk_page d sb cs i = map (file_byte d sb cs) [i * PGSIZE ..< Suc i * PGSIZE]"

definition cached :: "cinode \<Rightarrow> nat \<Rightarrow> bool" where
  "cached ip i \<longleftrightarrow> (case i_mapping ip of None \<Rightarrow> False | Some m \<Rightarrow> root_get (page_tree m) i \<noteq> None)"

definition dirty :: "cinode \<Rightarrow> nat \<Rightarrow> bool" where
  "dirty ip i \<longleftrightarrow> cached ip i \<and> (case i_mapping ip of None \<Rightarrow> False | Some m \<Rightarrow> root_tagged (page_tree m) PAGECACHE_TAG_DIRTY i)"

text \<open>What a reader sees at position \<open>p\<close>: the page cache in front of the disk.\<close>

definition byte_at :: "cinode \<Rightarrow> FAT_entry_t list \<Rightarrow> nat \<Rightarrow> byte" where
  "byte_at ip cs p = (if cached ip (p div PGSIZE) then i_pages ip (p div PGSIZE) ! (p mod PGSIZE) else file_byte (disk ip) (i_sb ip) cs p)"

text \<open>The file with clusters \<open>cs\<close>: every byte is in a dirty page or on the disk, and clean pages agree with the disk; only pages of the file are dirty.  The last page of the file
  ends below \<open>2 ^ 32\<close>, as offsets have 32 bits.\<close>

definition volume_inv :: "cinode \<Rightarrow> FAT_entry_t list \<Rightarrow> bool" where
  "volume_inv ip cs \<longleftrightarrow> volume_ok (i_sb ip) \<and> bitmap_ok (i_sb ip) \<and> stored (i_sb ip) (i_fat ip) cs \<and> sector_size (i_sb ip) dvd PGSIZE \<and>
     (\<forall>s. length (disk ip s) = sector_size (i_sb ip))"

definition cache_inv :: "cinode \<Rightarrow> bool" where
  "cache_inv ip \<longleftrightarrow> (\<forall>m. i_mapping ip = Some m \<longrightarrow> rt_inv (page_tree m)) \<and> (\<forall>i. cached ip i \<longrightarrow> length (i_pages ip i) = PGSIZE)"

definition synced :: "cinode \<Rightarrow> FAT_entry_t list \<Rightarrow> nat \<Rightarrow> bool" where
  "synced ip cs p \<longleftrightarrow> p < length cs * cluster_size (i_sb ip) \<and> byte_at ip cs p = file_byte (disk ip) (i_sb ip) cs p"

definition file_inv :: "cinode \<Rightarrow> FAT_entry_t list \<Rightarrow> bool" where
  "file_inv ip cs \<longleftrightarrow> volume_inv ip cs \<and> cache_inv ip \<and> unat (i_size ip) \<le> 2 ^ 32 - PGSIZE \<and> (\<forall>p<unat (i_size ip). dirty ip (p div PGSIZE) \<or> synced ip cs p) \<and>
     (\<forall>i. dirty ip i \<longrightarrow> i * PGSIZE < unat (i_size ip))"

lemma cluster_size_pos: "volume_ok sb \<Longrightarrow> 0 < cluster_size sb"
  by (simp add: volume_ok_def cluster_size_def)

lemma file_bytes_length: "(\<And>s. length (d s) = sector_size sb) \<Longrightarrow> length (file_bytes d sb cs) = length cs * cluster_size sb"
  by (simp add: file_bytes_def concat_blocks_length file_sectors_length cluster_size_def)

lemma submit_read_blocks: "submit_read d vs = concat (map d (blocks_of vs))"
  by (induction d vs rule: submit_read.induct) (auto simp: blocks_of_def)

lemma drop_concat_blocks:
  "(\<And>x. x \<in> set xs \<Longrightarrow> length (f x) = b) \<Longrightarrow> drop (k * b) (concat (map f xs)) = concat (map f (drop k xs))"
proof (induction xs arbitrary: k)
  case (Cons x xs)
  then show ?case by (cases k) auto
qed simp

lemma take_concat_blocks:
  "(\<And>x. x \<in> set xs \<Longrightarrow> length (f x) = b) \<Longrightarrow> take (k * b) (concat (map f xs)) = concat (map f (take k xs))"
proof (induction xs arbitrary: k)
  case (Cons x xs)
  then show ?case by (cases k) auto
qed simp

lemma set_region_nth:
  assumes "index \<le> i" "i < index + k" "length mem = k * PGSIZE"
  shows "length (set_region pages index k mem i) = PGSIZE"
    "p < PGSIZE \<Longrightarrow> set_region pages index k mem i ! p = mem ! ((i - index) * PGSIZE + p)" "p < PGSIZE \<Longrightarrow> (i - index) * PGSIZE + p < k * PGSIZE"
proof -
  have "Suc (i - index) * PGSIZE \<le> k * PGSIZE" using assms(1,2) by (intro mult_le_mono1) simp
  then show "length (set_region pages index k mem i) = PGSIZE" "p < PGSIZE \<Longrightarrow> (i - index) * PGSIZE + p < k * PGSIZE"
    "p < PGSIZE \<Longrightarrow> set_region pages index k mem i ! p = mem ! ((i - index) * PGSIZE + p)"
    using assms by (simp_all add: set_region_def)
qed

lemma set_region_out [simp]: "\<not> (index \<le> i \<and> i < index + k) \<Longrightarrow> set_region pages index k mem i = pages i"
  by (auto simp: set_region_def)

text \<open>Blocks that \<open>fat32_get_block\<close> names for pages of a file, read into memory.\<close>

lemma read_pages:
  assumes d: "\<And>s. length (d s) = sector_size sb" and ss: "sector_size sb dvd PGSIZE" "0 < sector_size sb"
    and vs: "blocks_of vs = take (k * PGSIZE div sector_size sb) (drop (index * PGSIZE div sector_size sb) (file_sectors sb cs))"
    and mem: "length mem = k * PGSIZE" "\<And>p. p < k * PGSIZE \<Longrightarrow> length cs * cluster_size sb \<le> index * PGSIZE + p \<Longrightarrow> mem ! p = 0"
    and i: "index \<le> i" "i < index + k"
  shows "set_region pages index k (submit_read d vs @ drop (length (submit_read d vs)) mem) i = disk_page d sb cs i"
proof -
  let ?ss = "sector_size sb" and ?r = "submit_read d vs"
  have e: "index * PGSIZE div ?ss * ?ss = index * PGSIZE" "k * PGSIZE div ?ss * ?ss = k * PGSIZE" using ss(1) by auto
  have r: "?r = take (k * PGSIZE) (drop (index * PGSIZE) (file_bytes d sb cs))"
    unfolding submit_read_blocks vs file_bytes_def
    using take_concat_blocks [of "drop (index * PGSIZE div ?ss) (file_sectors sb cs)" d ?ss "k * PGSIZE div ?ss"]
      drop_concat_blocks [of "file_sectors sb cs" d ?ss "index * PGSIZE div ?ss"] d unfolding e by simp
  have L: "length (file_bytes d sb cs) = length cs * cluster_size sb" using file_bytes_length d by blast
  have b: "(?r @ drop (length ?r) mem) ! p = file_byte d sb cs (index * PGSIZE + p)" if p: "p < k * PGSIZE" for p
  proof (cases "index * PGSIZE + p < length cs * cluster_size sb")
    case True
    then have "p < length ?r" using p L unfolding r by simp
    then show ?thesis using True p L by (simp add: nth_append file_byte_def r)
  next
    case False
    then have "length ?r \<le> p" using L unfolding r by simp
    then show ?thesis using False p mem by (simp add: nth_append file_byte_def)
  qed
  have len: "length (?r @ drop (length ?r) mem) = k * PGSIZE" using mem(1) unfolding r by simp
  note R = set_region_nth [OF i len]
  show ?thesis
  proof (rule nth_equalityI)
    show "length (set_region pages index k (?r @ drop (length ?r) mem) i) = length (disk_page d sb cs i)"
      using R(1) by (simp add: disk_page_def)
  next
    fix p
    assume "p < length (set_region pages index k (?r @ drop (length ?r) mem) i)"
    then have p: "p < PGSIZE" using R(1) by simp
    have a: "index * PGSIZE + ((i - index) * PGSIZE + p) = i * PGSIZE + p"
      using i(1) by (metis add.assoc add_mult_distrib le_add_diff_inverse)
    show "set_region pages index k (?r @ drop (length ?r) mem) i ! p = disk_page d sb cs i ! p"
      using R(2) [OF p] b [OF R(3) [OF p]] a p by (simp add: disk_page_def)
  qed
qed

end
