(* ===== verification/FileRead.thy ===== *)
theory FileRead
  imports FileMap
begin

text \<open>
  Reading through the page cache (\<open>src/mm/filemap.c\<close>, \<open>src/fs/mpage.c\<close>): entering pages in the cache changes nothing a reader sees, and a read returns the bytes
  of the file.
\<close>

subsection \<open>The pages of a mapping\<close>

lemma find_page: "rt_inv (page_tree m) \<Longrightarrow> find_get_page_atomic m i = Some (root_get (page_tree m) i)"
  using lookup_node_item [of "page_tree m" i] by (cases "root_get (page_tree m) i") (auto simp: find_get_page_atomic_def item_slot_def)

text \<open>\<open>extends m m' S\<close>: \<open>m'\<close> has the pages of \<open>m\<close> and those with indices in \<open>S\<close>.\<close>

definition extends :: "address_space \<Rightarrow> address_space \<Rightarrow> nat set \<Rightarrow> bool" where
  "extends m m' S \<longleftrightarrow> rt_inv (page_tree m') \<and> dom (root_get (page_tree m')) = dom (root_get (page_tree m)) \<union> S \<and>
     (\<forall>i\<in>dom (root_get (page_tree m)). root_get (page_tree m') i = root_get (page_tree m) i) \<and>
     (\<forall>g<2. root_tagged (page_tree m') g = root_tagged (page_tree m) g) \<and>
     last_index m' = last_index m \<and> read_ahead_cnt m' = read_ahead_cnt m \<and> read_ahead_end m' = read_ahead_end m"

lemma extends_refl: "rt_inv (page_tree m) \<Longrightarrow> extends m m {}"
  by (simp add: extends_def)

lemma extends_trans: "extends m m1 S \<Longrightarrow> extends m1 m2 T \<Longrightarrow> extends m m2 (S \<union> T)"
  by (simp add: extends_def) blast

lemma extends_None: "extends m m' S \<Longrightarrow> root_get (page_tree m') i = None \<longleftrightarrow> root_get (page_tree m) i = None \<and> i \<notin> S"
  unfolding extends_def by (metis Un_iff domIff)

lemma add_pages_ok:
  assumes "rt_inv (page_tree m)" "\<forall>i. index \<le> i \<and> i < index + k \<longrightarrow> root_get (page_tree m) i = None" "index + k \<le> 64 ^ 5"
  shows "\<exists>m'. add_pages k pa index m = Some m' \<and> extends m m' {index ..< index + k}"
  using assms
proof (induction k arbitrary: pa index m)
  case 0
  then show ?case using extends_refl by simp
next
  case (Suc k)
  have "index < 64 ^ 5" "root_get (page_tree m) index = None" using Suc.prems by auto
  from insert_ok [OF Suc.prems(1) this, of pa] obtain t where
    t: "radix_tree_insert (page_tree m) index pa = Some (t, 0)" "rt_inv t" "root_get t = (root_get (page_tree m))(index \<mapsto> pa)"
    "\<forall>g<2. root_tagged t g = root_tagged (page_tree m) g"
    by (elim exE conjE) (rule that)
  let ?m = "m\<lparr>page_tree := t, nrpages := nrpages m + 1\<rparr>"
  have e: "extends m ?m {index}" using t Suc.prems(2) by (auto simp: extends_def)
  have a: "add_to_page_cache_atomic pa m index = Some ?m" using t(1) by (simp add: add_to_page_cache_atomic_def)
  obtain m' where m': "add_pages k (pa + PGSIZE) (index + 1) ?m = Some m'" "extends ?m m' {index + 1 ..< index + 1 + k}"
    using Suc.IH [of ?m "index + 1" "pa + PGSIZE"] Suc.prems t(2,3) by auto
  have "{index} \<union> {index + 1 ..< index + 1 + k} = {index ..< index + Suc k}" by auto
  then show ?case using a m'(1) extends_trans [OF e m'(2)] by simp
qed

lemma run_end_ok:
  assumes "rt_inv (page_tree m)" "s \<le> cnt"
  shows "\<exists>e. run_end m index cnt s = Some e \<and> s \<le> e \<and> e \<le> cnt \<and> (\<forall>i. s \<le> i \<and> i < e \<longrightarrow> root_get (page_tree m) (index + i) = None) \<and>
    (e < cnt \<longrightarrow> root_get (page_tree m) (index + e) \<noteq> None)"
  using assms(2)
proof (induction "cnt - s" arbitrary: s)
  case 0
  then show ?case by (subst run_end.simps) auto
next
  case (Suc n)
  show ?case
  proof (cases "root_get (page_tree m) (index + s) = None")
    case False
    then show ?thesis using Suc.hyps(2) find_page [OF assms(1)] by (subst run_end.simps) auto
  next
    case True
    have lt: "n = cnt - (s + 1)" "s + 1 \<le> cnt" using Suc.hyps(2) by linarith+
    obtain e where e: "run_end m index cnt (s + 1) = Some e" "s + 1 \<le> e" "e \<le> cnt"
      "\<forall>i. s + 1 \<le> i \<and> i < e \<longrightarrow> root_get (page_tree m) (index + i) = None" "e < cnt \<longrightarrow> root_get (page_tree m) (index + e) \<noteq> None"
      using Suc.hyps(1) [of "s + 1"] lt by auto
    have "run_end m index cnt s = Some e" using lt True e(1) find_page [OF assms(1)] by (subst run_end.simps) simp
    moreover have "\<forall>i. s \<le> i \<and> i < e \<longrightarrow> root_get (page_tree m) (index + i) = None"
    proof (intro allI impI)
      fix i
      assume "s \<le> i \<and> i < e"
      then show "root_get (page_tree m) (index + i) = None" using e(4) True by (cases "i = s") auto
    qed
    ultimately show ?thesis using e by auto
  qed
qed

text \<open>The loop of \<open>mpage_readpages\<close> enters exactly the missing pages of its range, filled with zeros.\<close>

definition missing :: "address_space \<Rightarrow> nat \<Rightarrow> nat \<Rightarrow> nat set" where
  "missing m lo hi = {i. lo \<le> i \<and> i < hi \<and> root_get (page_tree m) i = None}"

definition zero_pages :: "nat set \<Rightarrow> (nat \<Rightarrow> byte list) \<Rightarrow> (nat \<Rightarrow> byte list)" where
  "zero_pages S pages i = (if i \<in> S then replicate PGSIZE 0 else pages i)"

lemma set_region_zero: "set_region pages index k (replicate (k * PGSIZE) 0) = zero_pages {index ..< index + k} pages"
proof
  fix i
  show "set_region pages index k (replicate (k * PGSIZE) 0) i = zero_pages {index ..< index + k} pages i"
  proof (cases "index \<le> i \<and> i < index + k")
    case True
    then have "Suc (i - index) \<le> k" by linarith
    then have "Suc (i - index) * PGSIZE \<le> k * PGSIZE" by (rule mult_le_mono1)
    then show ?thesis using True by (simp add: set_region_def zero_pages_def)
  qed (auto simp: set_region_def zero_pages_def)
qed

lemma readpages_loop_ok:
  assumes "i_mapping ip = Some m" "rt_inv (page_tree m)" "index + cnt \<le> 64 ^ 5" "s = 0 \<longrightarrow> root_get (page_tree m) index = None \<or> cnt = 0" "\<And>i k. kz i k \<noteq> 0"
  shows "\<exists>m' ps. readpages_loop kz index cnt s ip items =
      Some (ip\<lparr>i_mapping := Some m', i_pages := zero_pages (missing m (index + s) (index + cnt)) (i_pages ip)\<rparr>, items @ ps) \<and>
    extends m m' (missing m (index + s) (index + cnt)) \<and> distinct (map snd ps) \<and> set (map snd ps) = missing m (index + s) (index + cnt)"
  using assms(1,2,4)
proof (induction "cnt - s" arbitrary: ip m s items rule: less_induct)
  case less
  note find = find_page [OF less.prems(2)]
  show ?case
  proof (cases "s < cnt")
    case False
    then have mis: "missing m (index + s) (index + cnt) = {}" by (auto simp: missing_def)
    have "zero_pages {} (i_pages ip) = i_pages ip" by (simp add: zero_pages_def fun_eq_iff)
    then have "ip = ip\<lparr>i_mapping := Some m, i_pages := zero_pages {} (i_pages ip)\<rparr>" using less.prems(1) by simp
    then show ?thesis
      unfolding mis using False extends_refl [OF less.prems(2)]
      by (intro exI [of _ m] exI [of _ "[]"] conjI) (subst readpages_loop.simps, simp_all)
  next
    case s: True
    show ?thesis
    proof (cases "root_get (page_tree m) (index + s) = None")
      case False
      then have s0: "s \<noteq> 0" using less.prems(3) s by (metis add_0_right less_nat_zero_code)
      have mis: "missing m (index + s) (index + cnt) = missing m (index + (s + 1)) (index + cnt)"
      proof -
        have "x \<noteq> index + s" if "root_get (page_tree m) x = None" for x using that False by metis
        then have "index + s \<le> x \<longleftrightarrow> index + (s + 1) \<le> x" if "root_get (page_tree m) x = None" for x
          using that by (metis Suc_eq_plus1 add_Suc_right le_neq_implies_less less_eq_Suc_le nat_less_le)
        then show ?thesis by (auto simp: missing_def)
      qed
      have "readpages_loop kz index cnt s ip items = readpages_loop kz index cnt (s + 1) ip items"
        using s s0 False less.prems(1) find by (subst readpages_loop.simps) auto
      then show ?thesis using less.hyps [OF _ less.prems(1,2), of "s + 1" items] s unfolding mis by auto
    next
      case None: True
      obtain e where e: "run_end m index cnt (s + 1) = Some e" "s + 1 \<le> e" "e \<le> cnt"
        "\<forall>i. s + 1 \<le> i \<and> i < e \<longrightarrow> root_get (page_tree m) (index + i) = None" "e < cnt \<longrightarrow> root_get (page_tree m) (index + e) \<noteq> None"
        using run_end_ok [OF less.prems(2), of "s + 1" cnt index] s by auto
      define k where "k = e - s"
      define pa where "pa = kz (index + s) k"
      let ?new = "{index + s ..< index + s + k}"
      have ek: "index + s + k = index + e" using e(2) by (simp add: k_def)
      have free: "root_get (page_tree m) i = None" if "i \<in> ?new" for i
      proof -
        have "i - index = s \<or> s + 1 \<le> i - index" "i - index < e" "index + (i - index) = i" using that ek by auto
        then show ?thesis using e(4) None by metis
      qed
      obtain m1 where m1: "add_pages k pa (index + s) m = Some m1" "extends m m1 ?new"
        using add_pages_ok [OF less.prems(2), of "index + s" k pa] free ek e(3) assms(3) by auto
      let ?ip = "ip\<lparr>i_mapping := Some m1, i_pages := zero_pages ?new (i_pages ip)\<rparr>"
      let ?items = "map (\<lambda>z. (pa + z * PGSIZE, index + s + z)) [0 ..< k]"
      have step: "readpages_loop kz index cnt s ip items = readpages_loop kz index cnt (e + 1) ?ip (items @ ?items)"
        using s None less.prems(1) find e(1) m1(1) assms(5) [of "index + s" k]
        by (subst readpages_loop.simps) (simp add: Let_def k_def [symmetric] pa_def [symmetric] set_region_zero)
      have inv1: "rt_inv (page_tree m1)" using m1(2) by (simp add: extends_def)
      have mis: "missing m1 (index + (e + 1)) (index + cnt) = missing m (index + (e + 1)) (index + cnt)"
        using ek by (auto simp: missing_def extends_None [OF m1(2)])
      have mis2: "missing m (index + s) (index + cnt) = ?new \<union> missing m (index + (e + 1)) (index + cnt)"
      proof (intro set_eqI iffI)
        fix i
        assume i: "i \<in> missing m (index + s) (index + cnt)"
        then have "i \<noteq> index + e" using e(5) by (auto simp: missing_def)
        then show "i \<in> ?new \<union> missing m (index + (e + 1)) (index + cnt)" using i ek by (auto simp: missing_def)
      next
        fix i
        assume "i \<in> ?new \<union> missing m (index + (e + 1)) (index + cnt)"
        then show "i \<in> missing m (index + s) (index + cnt)" using free ek e(2,3) by (auto simp: missing_def)
      qed
      have lt: "cnt - (e + 1) < cnt - s" using e(2) s by linarith
      obtain m' ps where r: "readpages_loop kz index cnt (e + 1) ?ip (items @ ?items) =
          Some (?ip\<lparr>i_mapping := Some m', i_pages := zero_pages (missing m (index + (e + 1)) (index + cnt)) (i_pages ?ip)\<rparr>, (items @ ?items) @ ps)"
        "extends m1 m' (missing m (index + (e + 1)) (index + cnt))" "distinct (map snd ps)" "set (map snd ps) = missing m (index + (e + 1)) (index + cnt)"
        using less.hyps [of "e + 1" ?ip m1 "items @ ?items"] inv1 lt unfolding mis by auto
      have z: "zero_pages (missing m (index + (e + 1)) (index + cnt)) (zero_pages ?new (i_pages ip)) = zero_pages (missing m (index + s) (index + cnt)) (i_pages ip)"
        unfolding mis2 by (auto simp: zero_pages_def fun_eq_iff)
      have snd: "map snd ?items = [index + s ..< index + s + k]"
        by (intro nth_equalityI) simp_all
      have dis: "set [index + s ..< index + s + k] \<inter> missing m (index + (e + 1)) (index + cnt) = {}"
        using ek by (auto simp: missing_def)
      have l: "readpages_loop kz index cnt s ip items =
          Some (ip\<lparr>i_mapping := Some m', i_pages := zero_pages (missing m (index + s) (index + cnt)) (i_pages ip)\<rparr>, items @ (?items @ ps))"
        unfolding step r(1) using z by simp
      show ?thesis
        by (intro exI [of _ m'] exI [of _ "?items @ ps"] conjI l)
          (use extends_trans [OF m1(2) r(2)] r(3,4) snd dis mis2 in \<open>auto simp del: map_map\<close>)
    qed
  qed
qed

subsection \<open>Pages from the disk\<close>

lemma stored_file_ok: "stored sb ip cs \<Longrightarrow> file_ok sb ip' cs \<Longrightarrow> stored sb ip' cs"
  by (auto simp: stored_def file_ok_def)

definition load_pages :: "nat set \<Rightarrow> (nat \<Rightarrow> byte list) \<Rightarrow> (nat \<Rightarrow> byte list) \<Rightarrow> (nat \<Rightarrow> byte list)" where
  "load_pages S new pages i = (if i \<in> S then new i else pages i)"

lemma load_pages_empty [simp]: "load_pages {} f pages = pages"
  by (simp add: load_pages_def fun_eq_iff)

lemma region_zero:
  assumes "\<And>i. index \<le> i \<Longrightarrow> i < index + k \<Longrightarrow> i_pages ip i = replicate PGSIZE 0"
  shows "region ip index k = replicate (k * PGSIZE) 0"
proof -
  have "map (i_pages ip) [index ..< index + k] = replicate k (replicate PGSIZE 0)"
    using assms by (intro nth_equalityI) auto
  moreover have "concat (replicate k (replicate PGSIZE (0 :: byte))) = replicate (k * PGSIZE) 0" by (induction k) (simp_all add: replicate_add)
  ultimately show ?thesis unfolding region_def by simp
qed

lemma rw_pages_read:
  assumes get: "fat32_get_block (i_sb ip) (i_fat ip) (index * PGSIZE) (k * PGSIZE) alloc = Some (sb', fi', vs, bn)"
    and bn: "alloc \<longrightarrow> bn * sector_size sb' = k * PGSIZE" and lim: "(index + k) * PGSIZE < 2 ^ 32"
    and vs: "blocks_of vs = take (k * PGSIZE div sector_size sb') (drop (index * PGSIZE div sector_size sb') (file_sectors sb' cs))"
    and d: "\<And>s. length (disk ip s) = sector_size sb'" "sector_size sb' dvd PGSIZE" "0 < sector_size sb'"
    and z: "\<And>i. index \<le> i \<Longrightarrow> i < index + k \<Longrightarrow> i_pages ip i = replicate PGSIZE 0"
  shows "fat32_rw_pages False alloc ip index k =
    Some (ip\<lparr>i_sb := sb', i_fat := fi', i_pages := load_pages {index ..< index + k} (disk_page (disk ip) sb' cs) (i_pages ip)\<rparr>)"
proof -
  let ?ip = "ip\<lparr>i_sb := sb', i_fat := fi'\<rparr>"
  have m: "index * PGSIZE mod 2 ^ 32 = index * PGSIZE" "k * PGSIZE mod 2 ^ 32 = k * PGSIZE"
    using lim by (simp_all add: add_mult_distrib)
  have r: "region ?ip index k = replicate (k * PGSIZE) 0" using z by (intro region_zero) simp
  let ?data = "submit_read (disk ip) vs"
  have "set_region (i_pages ip) index k (?data @ drop (length ?data) (replicate (k * PGSIZE) 0)) =
      load_pages {index ..< index + k} (disk_page (disk ip) sb' cs) (i_pages ip)"
  proof
    fix i
    show "set_region (i_pages ip) index k (?data @ drop (length ?data) (replicate (k * PGSIZE) 0)) i =
        load_pages {index ..< index + k} (disk_page (disk ip) sb' cs) (i_pages ip) i"
    proof (cases "index \<le> i \<and> i < index + k")
      case True
      then show ?thesis using read_pages [OF d vs, of "replicate (k * PGSIZE) 0" i "i_pages ip"] by (auto simp: load_pages_def)
    next
      case False
      then show ?thesis by (auto simp: load_pages_def)
    qed
  qed
  then show ?thesis
    using get bn unfolding fat32_rw_pages_def m Let_def by (simp add: r)
qed

lemma rw_pages_inside:
  assumes v: "volume_inv ip cs" and i: "index * PGSIZE < length cs * cluster_size (i_sb ip)" "0 < k" "(index + k) * PGSIZE < 2 ^ 32"
    and z: "\<And>i. index \<le> i \<Longrightarrow> i < index + k \<Longrightarrow> i_pages ip i = replicate PGSIZE 0"
  shows "\<exists>fi'. fat32_rw_pages False False ip index k =
      Some (ip\<lparr>i_fat := fi', i_pages := load_pages {index ..< index + k} (disk_page (disk ip) (i_sb ip) cs) (i_pages ip)\<rparr>) \<and> stored (i_sb ip) fi' cs"
proof -
  let ?sb = "i_sb ip"
  have V: "volume_ok ?sb" "stored ?sb (i_fat ip) cs" "sector_size ?sb dvd PGSIZE" "\<And>s. length (disk ip s) = sector_size ?sb" "0 < sector_size ?sb"
    using v by (auto simp: volume_inv_def volume_ok_def)
  have a: "index * PGSIZE mod 4096 = 0" "index * PGSIZE mod sector_size ?sb = 0" "k * PGSIZE mod sector_size ?sb = 0" "0 < k * PGSIZE"
    using V(3) i(2) by (auto simp: PGSIZE_def)
  have c: "LOGISTIC_C_NUM ?sb (index * PGSIZE) < length cs"
    using i(1) cluster_size_pos [OF V(1)] by (simp add: LOGISTIC_C_NUM_def cluster_size_def div_less_iff_less_mult)
  have F: "file_ok ?sb (i_fat ip) cs" using V(2) by (simp add: stored_def)
  obtain fi' vs where g: "fat32_get_block ?sb (i_fat ip) (index * PGSIZE) (k * PGSIZE) False = Some (?sb, fi', vs, length (blocks_of vs))" "file_ok ?sb fi' cs"
    "blocks_of vs = take (k * PGSIZE div sector_size ?sb) (drop (index * PGSIZE div sector_size ?sb) (file_sectors ?sb cs))"
    using get_block_inside [OF V(1) F a c] by blast
  have "fat32_rw_pages False False ip index k =
      Some (ip\<lparr>i_sb := ?sb, i_fat := fi', i_pages := load_pages {index ..< index + k} (disk_page (disk ip) ?sb cs) (i_pages ip)\<rparr>)"
    by (rule rw_pages_read [OF g(1) _ i(3) g(3) V(4,3,5) z]) simp_all
  then show ?thesis using stored_file_ok [OF V(2) g(2)] by (intro exI [of _ fi']) simp
qed

text \<open>The items of a batch have consecutive indices.\<close>

lemma batch_indices: "map snd (p # take (batch_size p ps) ps) = [snd p ..< snd p + Suc (batch_size p ps)]"
proof (induction ps arbitrary: p)
  case (Cons q ps)
  show ?case
  proof (cases "PAGE_ADJACENT p q")
    case True
    then have "snd q = snd p + 1" by (simp add: PAGE_ADJACENT_def)
    then have "map snd (p # q # take (batch_size q ps) ps) = snd p # [snd p + 1 ..< snd p + 1 + Suc (batch_size q ps)]" using Cons.IH [of q] by simp
    then show ?thesis using True by (simp add: upt_rec)
  qed simp
qed simp

lemma batch_split:
  "set (map snd (p # ps)) = {snd p ..< snd p + Suc (batch_size p ps)} \<union> set (map snd (drop (batch_size p ps) ps))"
  "distinct (map snd (p # ps)) \<Longrightarrow> {snd p ..< snd p + Suc (batch_size p ps)} \<inter> set (map snd (drop (batch_size p ps) ps)) = {}"
proof -
  have e: "map snd (p # ps) = [snd p ..< snd p + Suc (batch_size p ps)] @ map snd (drop (batch_size p ps) ps)"
    using batch_indices [of p ps] by (metis append_Cons append_take_drop_id map_append)
  show "set (map snd (p # ps)) = {snd p ..< snd p + Suc (batch_size p ps)} \<union> set (map snd (drop (batch_size p ps) ps))"
    unfolding e by (simp only: set_append set_upt)
  show "distinct (map snd (p # ps)) \<Longrightarrow> {snd p ..< snd p + Suc (batch_size p ps)} \<inter> set (map snd (drop (batch_size p ps) ps)) = {}"
    unfolding e by (simp only: distinct_append set_upt)
qed

lemma load_pages_union: "load_pages T f (load_pages S f pages) = load_pages (S \<union> T) f pages"
  by (auto simp: load_pages_def fun_eq_iff)

lemma batch_read:
  assumes "volume_inv ip cs" "distinct (map snd ps)"
    "\<And>i. i \<in> set (map snd ps) \<Longrightarrow> i_pages ip i = replicate PGSIZE 0 \<and> i * PGSIZE < length cs * cluster_size (i_sb ip) \<and> Suc i * PGSIZE < 2 ^ 32"
  shows "\<exists>fi'. fat32_rw_pages_batch False False ip ps =
      Some (ip\<lparr>i_fat := fi', i_pages := load_pages (set (map snd ps)) (disk_page (disk ip) (i_sb ip) cs) (i_pages ip)\<rparr>) \<and> stored (i_sb ip) fi' cs"
  using assms
proof (induction "length ps" arbitrary: ip ps rule: less_induct)
  case less
  show ?case
  proof (cases ps)
    case Nil
    have "load_pages {} (disk_page (disk ip) (i_sb ip) cs) (i_pages ip) = i_pages ip" by (simp add: load_pages_def fun_eq_iff)
    then have "ip = ip\<lparr>i_fat := i_fat ip, i_pages := load_pages {} (disk_page (disk ip) (i_sb ip) cs) (i_pages ip)\<rparr>" by simp
    then show ?thesis using Nil less.prems(1) by (intro exI [of _ "i_fat ip"]) (simp add: volume_inv_def)
  next
    case (Cons p qs)
    let ?b = "batch_size p qs" and ?f = "disk_page (disk ip) (i_sb ip) cs"
    let ?S = "{snd p ..< snd p + Suc ?b}" and ?T = "set (map snd (drop ?b qs))"
    note B = batch_split [of p qs, folded Cons]
    have S: "i \<in> set (map snd ps)" if "snd p \<le> i" "i < snd p + Suc ?b" for i using that B(1) by simp
    have lim: "(snd p + Suc ?b) * PGSIZE < 2 ^ 32" using less.prems(3) [OF S [of "snd p + ?b"]] by simp
    obtain f1 where f1: "fat32_rw_pages False False ip (snd p) (Suc ?b) = Some (ip\<lparr>i_fat := f1, i_pages := load_pages ?S ?f (i_pages ip)\<rparr>)"
      "stored (i_sb ip) f1 cs"
      using rw_pages_inside [OF less.prems(1) _ _ lim] less.prems(3) S by auto
    let ?ip = "ip\<lparr>i_fat := f1, i_pages := load_pages ?S ?f (i_pages ip)\<rparr>"
    have v1: "volume_inv ?ip cs" using less.prems(1) f1(2) by (simp add: volume_inv_def)
    have d: "distinct (map snd (drop ?b qs))" using less.prems(2) Cons by (metis distinct_drop drop_map list.simps(9) distinct.simps(2))
    have t: "i_pages ?ip i = replicate PGSIZE 0 \<and> i * PGSIZE < length cs * cluster_size (i_sb ?ip) \<and> Suc i * PGSIZE < 2 ^ 32" if "i \<in> ?T" for i
    proof -
      have "i \<notin> ?S" "i \<in> set (map snd ps)" using that B(1) B(2) [OF less.prems(2)] by blast+
      then show ?thesis using less.prems(3) [of i] by (auto simp: load_pages_def)
    qed
    have sm: "length (drop ?b qs) < length ps" using Cons by simp
    obtain f2 where f2: "fat32_rw_pages_batch False False ?ip (drop ?b qs) =
        Some (?ip\<lparr>i_fat := f2, i_pages := load_pages ?T (disk_page (disk ?ip) (i_sb ?ip) cs) (i_pages ?ip)\<rparr>)" "stored (i_sb ?ip) f2 cs"
      using less.hyps [OF sm v1 d t] by blast
    have "fat32_rw_pages_batch False False ip ps = fat32_rw_pages_batch False False ?ip (drop ?b qs)" using f1(1) Cons by simp
    moreover have "load_pages ?T ?f (load_pages ?S ?f (i_pages ip)) = load_pages (set (map snd ps)) ?f (i_pages ip)"
      unfolding load_pages_union B(1) ..
    ultimately show ?thesis using f2 by (intro exI [of _ f2]) simp
  qed
qed

lemma page_limit: "k * PGSIZE < 2 ^ 32 \<Longrightarrow> k \<le> 64 ^ 5"
proof -
  assume "k * PGSIZE < 2 ^ 32"
  then have "k * PGSIZE < 64 ^ 5 * PGSIZE" by (simp add: PGSIZE_def)
  then show ?thesis by (simp only: mult_less_cancel2) linarith
qed

text \<open>\<open>mpage_readpages\<close> for a read: the missing pages of the range are entered with the contents they have on disk.\<close>

lemma readpages_read:
  assumes v: "volume_inv ip cs" and m: "i_mapping ip = Some m" "rt_inv (page_tree m)" "root_get (page_tree m) index = None" and kz: "\<And>i k. kz i k \<noteq> 0"
    and i: "0 < cnt" "(index + cnt) * PGSIZE < 2 ^ 32" "\<And>i. i \<in> missing m index (index + cnt) \<Longrightarrow> i * PGSIZE < length cs * cluster_size (i_sb ip)"
  shows "\<exists>m' fi'. mpage_readpages kz ip index cnt True False = Some (ip\<lparr>i_fat := fi', i_mapping := Some m',
      i_pages := load_pages (missing m index (index + cnt)) (disk_page (disk ip) (i_sb ip) cs) (i_pages ip)\<rparr>) \<and>
    extends m m' (missing m index (index + cnt)) \<and> stored (i_sb ip) fi' cs"
proof -
  let ?S = "missing m index (index + cnt)"
  note lim = page_limit [OF i(2)]
  obtain m' ps where r: "readpages_loop kz index cnt 0 ip [] = Some (ip\<lparr>i_mapping := Some m', i_pages := zero_pages ?S (i_pages ip)\<rparr>, ps)"
    "extends m m' ?S" "distinct (map snd ps)" "set (map snd ps) = ?S"
    using readpages_loop_ok [OF m(1,2) lim, of 0 kz "[]"] m(3) kz by auto
  let ?ip = "ip\<lparr>i_mapping := Some m', i_pages := zero_pages ?S (i_pages ip)\<rparr>"
  have v1: "volume_inv ?ip cs" using v by (simp add: volume_inv_def)
  have b: "i_pages ?ip j = replicate PGSIZE 0 \<and> j * PGSIZE < length cs * cluster_size (i_sb ?ip) \<and> Suc j * PGSIZE < 2 ^ 32" if "j \<in> set (map snd ps)" for j
  proof -
    have j: "j \<in> ?S" using that r(4) by simp
    then have "Suc j * PGSIZE \<le> (index + cnt) * PGSIZE" by (intro mult_le_mono1) (simp add: missing_def)
    then show ?thesis using j i by (simp add: zero_pages_def)
  qed
  obtain fi' where f: "fat32_rw_pages_batch False False ?ip ps =
      Some (?ip\<lparr>i_fat := fi', i_pages := load_pages ?S (disk_page (disk ?ip) (i_sb ?ip) cs) (i_pages ?ip)\<rparr>)" "stored (i_sb ?ip) fi' cs"
    using batch_read [OF v1 r(3) b] unfolding r(4) by blast
  have "load_pages ?S (disk_page (disk ip) (i_sb ip) cs) (zero_pages ?S (i_pages ip)) = load_pages ?S (disk_page (disk ip) (i_sb ip) cs) (i_pages ip)"
    by (simp add: load_pages_def zero_pages_def fun_eq_iff)
  then show ?thesis
    using r(1,2) f i(1) by (intro exI [of _ m'] exI [of _ fi']) (simp add: mpage_readpages_def)
qed

subsection \<open>Entering pages changes nothing a reader sees\<close>

definition same_file :: "cinode \<Rightarrow> FAT_entry_t list \<Rightarrow> cinode \<Rightarrow> bool" where
  "same_file ip cs ip' \<longleftrightarrow> file_inv ip' cs \<and> byte_at ip' cs = byte_at ip cs \<and> i_size ip' = i_size ip \<and> i_mapping ip' \<noteq> None \<and>
     (\<forall>i. cached ip i \<longrightarrow> cached ip' i) \<and> dirty ip' = dirty ip \<and> disk ip' = disk ip \<and> i_sb ip' = i_sb ip"

lemma same_file_trans: "same_file ip cs ip1 \<Longrightarrow> same_file ip1 cs ip2 \<Longrightarrow> same_file ip cs ip2"
  by (simp add: same_file_def)

lemma page_div: "i * PGSIZE \<le> p \<Longrightarrow> p < Suc i * PGSIZE \<Longrightarrow> p div PGSIZE = i"
  by (intro div_nat_eqI) (simp_all add: mult.commute)

lemma disk_page_nth: "disk_page d sb cs (p div PGSIZE) ! (p mod PGSIZE) = file_byte d sb cs p"
proof -
  have "[p div PGSIZE * PGSIZE ..< Suc (p div PGSIZE) * PGSIZE] ! (p mod PGSIZE) = p"
    by (subst nth_upt) (simp_all add: PGSIZE_def)
  then show ?thesis by (simp add: disk_page_def)
qed

lemma tagged_cached:
  assumes inv: "rt_inv r" and t: "root_tagged r g i" "g < 2"
  shows "root_get r i \<noteq> None"
proof -
  have w: "rnode r = RNull \<or> rt_wf (rt_height r) (rnode r)" using rt_inv_wf [OF inv] .
  have "i < 64 ^ rt_height r \<and> rt_get (rt_height r) (rnode r) i \<noteq> RNull"
  proof (cases "rt_height r = 0")
    case True
    then show ?thesis using t by (simp add: root_tagged_def)
  next
    case False
    then have "rnode r \<noteq> RNull" using inv by (auto simp: rt_inv_def split: if_splits)
    then show ?thesis using False t w rt_tag_get [of "rt_height r" "rnode r" g i] by (simp add: root_tagged_def)
  qed
  then show ?thesis using rt_get_item [OF w, of i] by (auto simp: root_get_def)
qed

lemma loaded_same_file:
  assumes f: "file_inv ip cs" and m: "i_mapping ip = Some m" and e: "extends m m' S" "\<And>i. i \<in> S \<Longrightarrow> root_get (page_tree m) i = None"
    and m2: "page_tree m2 = page_tree m'" and s: "stored (i_sb ip) fi' cs"
  shows "same_file ip cs (ip\<lparr>i_fat := fi', i_mapping := Some m2, i_pages := load_pages S (disk_page (disk ip) (i_sb ip) cs) (i_pages ip)\<rparr>)"
proof -
  let ?ip = "ip\<lparr>i_fat := fi', i_mapping := Some m2, i_pages := load_pages S (disk_page (disk ip) (i_sb ip) cs) (i_pages ip)\<rparr>"
  have c: "cached ?ip i \<longleftrightarrow> cached ip i \<or> i \<in> S" for i
    using extends_None [OF e(1), of i] m m2 by (auto simp: cached_def)
  have u: "\<not> cached ip i" if "i \<in> S" for i using e(2) [OF that] m by (simp add: cached_def)
  have d: "dirty ?ip i = dirty ip i" for i
  proof -
    have "root_tagged (page_tree m') PAGECACHE_TAG_DIRTY = root_tagged (page_tree m) PAGECACHE_TAG_DIRTY"
      using e(1) by (simp add: extends_def PAGECACHE_TAG_DIRTY_def)
    moreover have "root_tagged (page_tree m) PAGECACHE_TAG_DIRTY i \<Longrightarrow> root_get (page_tree m) i \<noteq> None"
      using f m tagged_cached [of "page_tree m" PAGECACHE_TAG_DIRTY i] by (auto simp: file_inv_def cache_inv_def PAGECACHE_TAG_DIRTY_def)
    ultimately show ?thesis using c [of i] m m2 by (auto simp: dirty_def cached_def)
  qed
  have b: "byte_at ?ip cs p = byte_at ip cs p" for p
    using c [of "p div PGSIZE"] u [of "p div PGSIZE"] by (auto simp: byte_at_def load_pages_def disk_page_nth)
  have "volume_inv ?ip cs" using f s by (simp add: file_inv_def volume_inv_def)
  moreover have "cache_inv ?ip"
    using f e(1) c m2 by (auto simp: file_inv_def cache_inv_def extends_def load_pages_def disk_page_def)
  moreover have "dirty ?ip (p div PGSIZE) \<or> synced ?ip cs p" if "p < unat (i_size ip)" for p
    using f that d b by (auto simp: file_inv_def synced_def)
  ultimately show ?thesis
    using f d b c by (auto simp: same_file_def file_inv_def fun_eq_iff)
qed

subsection \<open>One page of a read\<close>

lemma pages_of_small:
  assumes "x < 2 ^ 63"
  shows "pages_of x = (x + PGSIZE - 1) div PGSIZE" "0 < x \<Longrightarrow> 0 < pages_of x" "k \<le> pages_of x \<Longrightarrow> 0 < k \<Longrightarrow> (k - 1) * PGSIZE < x"
proof -
  show e: "pages_of x = (x + PGSIZE - 1) div PGSIZE" using assms by (simp add: pages_of_def PGSIZE_def)
  show "0 < x \<Longrightarrow> 0 < pages_of x" unfolding e by (simp add: PGSIZE_def div_greater_zero_iff)
  assume k: "k \<le> pages_of x" "0 < k"
  have "k * PGSIZE \<le> x + PGSIZE - 1" using k(1) unfolding e by (simp add: less_eq_div_iff_mult_less_eq)
  then show "(k - 1) * PGSIZE < x" using k(2) by (cases k) (auto simp: PGSIZE_def)
qed

lemma file_on_disk:
  assumes "file_inv ip cs" "p < unat (i_size ip)" "\<not> cached ip (p div PGSIZE)"
  shows "p < length cs * cluster_size (i_sb ip)"
  using assms by (auto simp: file_inv_def dirty_def synced_def)

text \<open>A file none of whose pages is cached.\<close>

lemma clean_inv:
  assumes "volume_inv ip cs" "i_mapping ip = None" "unat (i_size ip) \<le> 2 ^ 32 - PGSIZE" "unat (i_size ip) \<le> length cs * cluster_size (i_sb ip)"
  shows "file_inv ip cs"
  using assms by (auto simp: file_inv_def cache_inv_def cached_def dirty_def synced_def byte_at_def)

text \<open>The number of pages a missing page at \<open>off\<close> makes the code request, after \<open>retval\<close> bytes have been copied.\<close>

definition ahead_pages :: "(nat \<Rightarrow> nat) \<Rightarrow> nat \<Rightarrow> cinode \<Rightarrow> nat \<Rightarrow> nat \<Rightarrow> nat" where
  "ahead_pages fr n ip off retval = max_sane_readahead (fr (off div PGSIZE)) (n - retval)
     (case i_mapping ip of None \<Rightarrow> 0 | Some m \<Rightarrow> read_ahead_cnt m) (nat ((uint (i_size ip) - int (off + retval)) mod 2 ^ 64))"

lemma read_page_miss:
  assumes m: "i_mapping ip = Some m" and fd: "find_get_page_atomic m (off div PGSIZE) = Some None"
    and cnt: "cnt = ahead_pages fr n ip off retval"
    and m1: "m1 = m\<lparr>read_ahead_end := (off div PGSIZE + cnt + (2 ^ 64 - 1)) mod 2 ^ 64\<rparr>"
  shows "read_page kz fr n ip off retval =
    (if cnt = 0 then Some (ip\<lparr>i_mapping := Some m1\<rparr>, True)
     else do {
       ip \<leftarrow> mpage_readpages kz (ip\<lparr>i_mapping := Some m1\<rparr>) (off div PGSIZE) cnt True False;
       m \<leftarrow> i_mapping ip;
       Some (ip\<lparr>i_mapping := Some (read_ahead_update (off div PGSIZE) ((unat (i_size ip) - 1) div PGSIZE) m)\<rparr>, False) })"
  using m fd unfolding read_page_def Let_def m1 cnt ahead_pages_def by (simp only: m fd Option.bind.simps if_True refl option.case)

text \<open>As long as the progress, counted twice, is inside the file, the request is positive and inside the file; in the page behind it nothing is requested.\<close>

lemma ahead_near:
  assumes "off + retval < unat (i_size ip)" "unat (i_size ip) \<le> 2 ^ 32 - PGSIZE" "retval < n" "n < 2 ^ 32" "0 < fr (off div PGSIZE)"
  shows "0 < ahead_pages fr n ip off retval" "off div PGSIZE + ahead_pages fr n ip off retval \<le> (unat (i_size ip) - 1) div PGSIZE + 1"
proof -
  let ?i = "off div PGSIZE" and ?isz = "unat (i_size ip)"
  define ra where "ra = (case i_mapping ip of None \<Rightarrow> 0 | Some m \<Rightarrow> read_ahead_cnt m)"
  define tot where "tot = nat ((uint (i_size ip) - int (off + retval)) mod 2 ^ 64)"
  define cnt where "cnt = ahead_pages fr n ip off retval"
  have c: "cnt = max_sane_readahead (fr ?i) (n - retval) ra tot" by (simp add: cnt_def ahead_pages_def ra_def tot_def)
  have tot: "tot = ?isz - (off + retval)"
  proof -
    have u: "uint (i_size ip) = int ?isz" by (simp only: uint_nat)
    have "int ?isz - int (off + retval) = int (?isz - (off + retval))" using assms(1) by (simp add: of_nat_diff)
    moreover have "int (?isz - (off + retval)) mod 2 ^ 64 = int (?isz - (off + retval))" using assms(2) by (intro mod_pos_pos_trivial) auto
    ultimately show ?thesis unfolding tot_def u by simp
  qed
  have T: "tot < 2 ^ 63" "0 < tot" "n - retval < 2 ^ 63" "0 < n - retval" using tot assms by auto
  have "0 < ((fr ?i + READ_AHEAD_RATE - 1) div READ_AHEAD_RATE + PGSIZE - 1) div PGSIZE"
  proof -
    define x where "x = (fr ?i + READ_AHEAD_RATE - 1) div READ_AHEAD_RATE"
    have "READ_AHEAD_RATE \<le> fr ?i + READ_AHEAD_RATE - 1" "0 < READ_AHEAD_RATE" using assms(5) by (simp_all add: READ_AHEAD_RATE_def)
    then have "0 < x" unfolding x_def by (simp only: div_greater_zero_iff simp_thms)
    then show ?thesis unfolding x_def [symmetric] by (simp add: PGSIZE_def div_greater_zero_iff)
  qed
  then have c0: "0 < cnt" using pages_of_small(2) [OF T(1,2)] pages_of_small(2) [OF T(3,4)] by (simp add: c max_sane_readahead_def)
  then show "0 < ahead_pages fr n ip off retval" by (simp add: cnt_def)
  have ct: "(cnt - 1) * PGSIZE < tot" by (rule pages_of_small(3) [OF T(1) _ c0]) (simp add: c max_sane_readahead_def)
  have "?i * PGSIZE \<le> off" by simp
  then have "(?i + (cnt - 1)) * PGSIZE < ?isz" using ct tot assms(1) by (simp only: add_mult_distrib)
  then have "(?i + (cnt - 1)) * PGSIZE \<le> ?isz - 1" by linarith
  then have "?i + (cnt - 1) \<le> (?isz - 1) div PGSIZE" by (simp add: less_eq_div_iff_mult_less_eq)
  then show "?i + ahead_pages fr n ip off retval \<le> (?isz - 1) div PGSIZE + 1" using c0 by (simp add: cnt_def)
qed

lemma ahead_stop:
  assumes "unat (i_size ip) \<le> off + retval" "off + retval < unat (i_size ip) + PGSIZE"
  shows "ahead_pages fr n ip off retval = 0"
proof -
  let ?isz = "unat (i_size ip)"
  define tot where "tot = nat ((uint (i_size ip) - int (off + retval)) mod 2 ^ 64)"
  define x where "x = off + retval - ?isz"
  have u: "uint (i_size ip) = int ?isz" by (simp only: uint_nat)
  have x: "x < PGSIZE" "int ?isz - int (off + retval) = - int x" using assms by (auto simp: x_def of_nat_diff)
  have t: "tot = nat ((- int x) mod 2 ^ 64)" unfolding tot_def u x(2) ..
  have "pages_of tot = 0"
  proof (cases "x = 0")
    case True
    then show ?thesis unfolding t by (simp add: pages_of_def PGSIZE_def)
  next
    case n0: False
    then have "(- int x) mod 2 ^ 64 = 2 ^ 64 - int x" using x(1) by (simp add: zmod_zminus1_eq_if PGSIZE_def)
    then have "tot = 2 ^ 64 - x" using x(1) by (simp add: t nat_diff_distrib' PGSIZE_def)
    then have "tot + PGSIZE - 1 = 2 ^ 64 + (PGSIZE - 1 - x)" using x(1) n0 by (simp add: PGSIZE_def)
    then have "pages_of tot = (2 ^ 64 + (PGSIZE - 1 - x)) mod 2 ^ 64 div PGSIZE" unfolding pages_of_def by simp
    also have "\<dots> = (PGSIZE - 1 - x) mod 2 ^ 64 div PGSIZE" by (simp only: mod_add_self1)
    finally show ?thesis by (simp add: PGSIZE_def)
  qed
  then show ?thesis by (simp add: ahead_pages_def max_sane_readahead_def tot_def)
qed

lemma read_page_ok:
  assumes f: "file_inv ip cs" "i_mapping ip \<noteq> None" and off: "off < unat (i_size ip)"
    and inside: "\<not> cached ip (off div PGSIZE) \<Longrightarrow> off div PGSIZE + ahead_pages fr n ip off retval \<le> (unat (i_size ip) - 1) div PGSIZE + 1"
    and kz: "\<And>i k. kz i k \<noteq> 0"
  shows "\<exists>ip' stop. read_page kz fr n ip off retval = Some (ip', stop) \<and> same_file ip cs ip' \<and> (\<not> stop \<longrightarrow> cached ip' (off div PGSIZE)) \<and>
    (stop \<longleftrightarrow> \<not> cached ip (off div PGSIZE) \<and> ahead_pages fr n ip off retval = 0) \<and>
    (\<not> cached ip (off div PGSIZE) \<longrightarrow> (\<forall>j. off div PGSIZE \<le> j \<and> j < off div PGSIZE + ahead_pages fr n ip off retval \<longrightarrow> cached ip' j))"
proof -
  obtain m where m: "i_mapping ip = Some m" using f(2) by auto
  have inv: "rt_inv (page_tree m)" using f(1) m by (simp add: file_inv_def cache_inv_def)
  let ?i = "off div PGSIZE" and ?isz = "unat (i_size ip)"
  have self: "same_file ip cs (ip\<lparr>i_mapping := Some m1\<rparr>)" if "page_tree m1 = page_tree m" for m1
  proof -
    have "stored (i_sb ip) (i_fat ip) cs" using f(1) by (simp add: file_inv_def volume_inv_def)
    from loaded_same_file [OF f(1) m extends_refl [OF inv] _ that this] show ?thesis by simp
  qed
  show ?thesis
  proof (cases "root_get (page_tree m) ?i")
    case (Some pa)
    have "same_file ip cs ip" using f by (simp add: same_file_def)
    then show ?thesis
      using Some m find_page [OF inv] by (intro exI [of _ ip] exI [of _ False]) (simp add: read_page_def Let_def cached_def)
  next
    case None
    define cnt where "cnt = ahead_pages fr n ip off retval"
    define m1 where "m1 = m\<lparr>read_ahead_end := (?i + cnt + (2 ^ 64 - 1)) mod 2 ^ 64\<rparr>"
    let ?ip = "ip\<lparr>i_mapping := Some m1\<rparr>"
    have nc: "\<not> cached ip ?i" using None m by (simp add: cached_def)
    have fd: "find_get_page_atomic m ?i = Some None" using find_page [OF inv] None by simp
    have same1: "same_file ip cs ?ip" by (rule self) (simp add: m1_def)
    note step = read_page_miss [where fr = fr and n = n and retval = retval and kz = kz, OF m fd cnt_def m1_def]
    have isz: "?isz \<le> 2 ^ 32 - PGSIZE" using f(1) by (simp add: file_inv_def)
    show ?thesis
    proof (cases "cnt = 0")
      case True
      then have "read_page kz fr n ip off retval = Some (?ip, True)" using step by simp
      then show ?thesis using same1 nc True by (intro exI [of _ ?ip] exI [of _ True]) (auto simp: cnt_def)
    next
      case False
      then have c0: "0 < cnt" by simp
      have "?i + (cnt - 1) \<le> (?isz - 1) div PGSIZE" using inside [OF nc] c0 by (simp add: cnt_def)
      then have "(?i + (cnt - 1)) * PGSIZE \<le> ?isz - 1" by (simp add: less_eq_div_iff_mult_less_eq)
      then have pg: "(?i + (cnt - 1)) * PGSIZE < ?isz" using off by linarith
      have lim: "(?i + cnt) * PGSIZE < 2 ^ 32"
      proof -
        have "(?i + cnt) * PGSIZE = (?i + (cnt - 1)) * PGSIZE + PGSIZE" using c0 by (cases cnt) simp_all
        then show ?thesis using pg isz by (simp add: PGSIZE_def)
      qed
      have onDisk: "i * PGSIZE < length cs * cluster_size (i_sb ?ip)" if i: "i \<in> missing m1 ?i (?i + cnt)" for i
      proof -
        have "i < ?i + cnt" using i by (simp add: missing_def)
        then have "i \<le> ?i + (cnt - 1)" using c0 by linarith
        then have "i * PGSIZE \<le> (?i + (cnt - 1)) * PGSIZE" by (rule mult_le_mono1)
        then have "i * PGSIZE < ?isz" using pg by linarith
        moreover have "\<not> cached ip (i * PGSIZE div PGSIZE)" using i m by (simp add: missing_def cached_def m1_def)
        ultimately show ?thesis using file_on_disk [OF f(1)] by simp
      qed
      have f1: "file_inv ?ip cs" using same1 unfolding same_file_def by blast
      then have v1: "volume_inv ?ip cs" by (simp add: file_inv_def)
      obtain m2 fi' where r: "mpage_readpages kz ?ip ?i cnt True False = Some (?ip\<lparr>i_fat := fi', i_mapping := Some m2,
          i_pages := load_pages (missing m1 ?i (?i + cnt)) (disk_page (disk ?ip) (i_sb ?ip) cs) (i_pages ?ip)\<rparr>)"
        "extends m1 m2 (missing m1 ?i (?i + cnt))" "stored (i_sb ?ip) fi' cs"
        using readpages_read [OF v1, of m1 ?i kz cnt] inv None kz c0 lim onDisk by (auto simp: m1_def)
      define m3 where "m3 = read_ahead_update ?i ((?isz - 1) div PGSIZE) m2"
      let ?ip2 = "?ip\<lparr>i_fat := fi', i_mapping := Some m3, i_pages := load_pages (missing m1 ?i (?i + cnt)) (disk_page (disk ?ip) (i_sb ?ip) cs) (i_pages ?ip)\<rparr>"
      have m3: "page_tree m3 = page_tree m2" by (simp add: m3_def read_ahead_update_def Let_def)
      have s2: "same_file ?ip cs ?ip2"
        by (rule loaded_same_file [OF f1 _ r(2) _ m3 r(3)]) (simp_all add: missing_def)
      have run: "read_page kz fr n ip off retval = Some (?ip2, False)" using step c0 r(1) by (simp add: m3_def)
      have all: "cached ?ip2 j" if "?i \<le> j" "j < ?i + cnt" for j
        using that extends_None [OF r(2), of j] m3 by (auto simp: cached_def missing_def)
      then show ?thesis using run same_file_trans [OF same1 s2] all [of ?i] c0 by (intro exI [of _ ?ip2] exI [of _ False]) (simp add: cnt_def)
    qed
  qed
qed

subsection \<open>Reads\<close>

text \<open>The pages of a request that are missed behind its first page: not cached, and not among the pages that a miss of the first page brings in.  How far the
  progress reaches at such a page when it is counted twice.\<close>

definition late_misses :: "(nat \<Rightarrow> nat) \<Rightarrow> cinode \<Rightarrow> nat \<Rightarrow> nat \<Rightarrow> nat set" where
  "late_misses fr ip off n = {i. \<not> cached ip i \<and> off < i * PGSIZE \<and> i * PGSIZE < off + min n (unat (i_size ip) - off) \<and>
     (cached ip (off div PGSIZE) \<or> off div PGSIZE + ahead_pages fr (min n (unat (i_size ip) - off)) ip off 0 \<le> i)}"

definition reach :: "nat \<Rightarrow> nat \<Rightarrow> nat" where "reach off i = i * PGSIZE + (i * PGSIZE - off)"

lemma late_misses_within:
  assumes "\<And>i. i * PGSIZE \<le> off \<or> off + n \<le> i * PGSIZE"
  shows "late_misses fr ip off n = {}"
proof -
  have "\<not> (off < i * PGSIZE \<and> i * PGSIZE < off + min n k)" for i k using assms [of i] by linarith
  then show ?thesis unfolding late_misses_def by blast
qed

lemma page_slice:
  assumes "cache_inv ip" "cached ip (off div PGSIZE)" "len \<le> PGSIZE - off mod PGSIZE"
  shows "take len (drop (off mod PGSIZE) (i_pages ip (off div PGSIZE))) = map (byte_at ip cs) [off ..< off + len]"
proof -
  have l: "length (i_pages ip (off div PGSIZE)) = PGSIZE" using assms(1,2) by (simp add: cache_inv_def)
  have o: "off mod PGSIZE < PGSIZE" by simp
  show ?thesis
  proof (rule nth_equalityI)
    show "length (take len (drop (off mod PGSIZE) (i_pages ip (off div PGSIZE)))) = length (map (byte_at ip cs) [off ..< off + len])"
      using l assms(3) by simp
  next
    fix j
    assume "j < length (take len (drop (off mod PGSIZE) (i_pages ip (off div PGSIZE))))"
    then have j: "j < len" "off mod PGSIZE + j < PGSIZE" using l by auto
    have e: "off + j = (off mod PGSIZE + j) + off div PGSIZE * PGSIZE" by simp
    then have q: "(off + j) div PGSIZE = off div PGSIZE" "(off + j) mod PGSIZE = off mod PGSIZE + j"
      using j(2) by (simp_all only: div_mult_self1 mod_mult_self1 PGSIZE_pos) simp_all
    show "take len (drop (off mod PGSIZE) (i_pages ip (off div PGSIZE))) ! j = map (byte_at ip cs) [off ..< off + len] ! j"
      using j assms(2) l by (simp add: byte_at_def q)
  qed
qed

text \<open>The number of bytes taken from a page: to the end of the page or of the request, which does not pass the end of the file.\<close>

lemma chunk_len:
  fixes isz off r n :: nat
  assumes "off + (n - r) \<le> isz" "r < n" "index = off div PGSIZE" "offset = off mod PGSIZE" "nr = (if index = (isz - 1) div PGSIZE then (isz - 1) mod PGSIZE + 1 else PGSIZE)"
  shows "index \<le> (isz - 1) div PGSIZE" "offset < nr" "min (min (n - r) (nr - offset)) (isz - offset) = min (n - r) (PGSIZE - offset)"
proof -
  have lt: "off \<le> isz - 1" "0 < isz" using assms(1,2) by auto
  show i: "index \<le> (isz - 1) div PGSIZE" unfolding assms(3) using lt(1) by (rule div_le_mono)
  have o: "off = index * PGSIZE + offset" "offset < PGSIZE" using assms(3,4) by simp_all
  have z: "isz - 1 = (isz - 1) div PGSIZE * PGSIZE + (isz - 1) mod PGSIZE" by simp
  show "offset < nr"
  proof (cases "index = (isz - 1) div PGSIZE")
    case True
    then have "offset \<le> (isz - 1) mod PGSIZE" using lt(1) o(1) z by (metis nat_add_left_cancel_le)
    then show ?thesis using True assms(5) by simp
  qed (use assms(5) o(2) in simp)
  show "min (min (n - r) (nr - offset)) (isz - offset) = min (n - r) (PGSIZE - offset)"
  proof (cases "index = (isz - 1) div PGSIZE")
    case True
    then have e: "isz = index * PGSIZE + nr" using z lt(2) assms(5) by simp
    have "nr \<le> PGSIZE" using assms(5) by (simp add: Suc_le_eq)
    then have "n - r \<le> nr - offset" "n - r \<le> PGSIZE - offset" "n - r \<le> isz - offset" using assms(1) e o by auto
    then show ?thesis by simp
  next
    case False
    then have "Suc index * PGSIZE \<le> (isz - 1) div PGSIZE * PGSIZE" using i by (intro mult_le_mono1) simp
    also have "\<dots> \<le> isz - 1" by simp
    finally have "PGSIZE \<le> isz" by simp
    then show ?thesis using False assms(5) by simp
  qed
qed

lemma next_turn:
  fixes off n r :: nat
  assumes "len = min (n - r) (PGSIZE - off mod PGSIZE)" "r + len < n"
  shows "len = PGSIZE - off mod PGSIZE" "(off + len) mod PGSIZE = 0" "0 < len"
proof -
  show l: "len = PGSIZE - off mod PGSIZE" using assms by linarith
  have "off + len = (off div PGSIZE + 1) * PGSIZE"
    using l div_mult_mod_eq [of off PGSIZE] mod_less_divisor [OF PGSIZE_pos, of off] unfolding add_mult_distrib by linarith
  then show "(off + len) mod PGSIZE = 0" by (metis mod_mult_self2_is_0)
  show "0 < len" using l mod_less_divisor [OF PGSIZE_pos, of off] by linarith
qed

text \<open>What holds at every turn of the loop: a later turn starts at a page, and the pages requested by a miss at the first turn are cached.\<close>

definition at_turn :: "(nat \<Rightarrow> nat) \<Rightarrow> nat \<Rightarrow> cinode \<Rightarrow> FAT_entry_t list \<Rightarrow> nat \<Rightarrow> cinode \<Rightarrow> nat \<Rightarrow> nat \<Rightarrow> bool" where
  "at_turn fr n ip0 cs off0 ip off r \<longleftrightarrow> same_file ip0 cs ip \<and> i_mapping ip \<noteq> None \<and> off = off0 + r \<and> r < n \<and> (r = 0 \<and> ip = ip0 \<or> 0 < r \<and> off mod PGSIZE = 0) \<and>
     (0 < r \<longrightarrow> \<not> cached ip0 (off0 div PGSIZE) \<longrightarrow>
       (\<forall>j. off0 div PGSIZE \<le> j \<and> j < off0 div PGSIZE + ahead_pages fr n ip0 off0 0 \<longrightarrow> cached ip j))"

lemma at_turn_late:
  assumes t: "at_turn fr n ip0 cs off0 ip off r" and r: "0 < r" and n: "off0 + n \<le> unat (i_size ip0)" and c: "\<not> cached ip (off div PGSIZE)"
  shows "off div PGSIZE \<in> late_misses fr ip0 off0 n" "reach off0 (off div PGSIZE) = off + r"
proof -
  let ?i = "off div PGSIZE"
  have s: "same_file ip0 cs ip" "off = off0 + r" "r < n" "off mod PGSIZE = 0"
    "\<not> cached ip0 (off0 div PGSIZE) \<Longrightarrow> off0 div PGSIZE \<le> j \<Longrightarrow> j < off0 div PGSIZE + ahead_pages fr n ip0 off0 0 \<Longrightarrow> cached ip j" for j
    using t r unfolding at_turn_def by auto
  have o: "?i * PGSIZE = off" using div_mult_mod_eq [of off PGSIZE] s(4) by simp
  have "\<not> cached ip0 ?i" using s(1) c by (auto simp: same_file_def)
  moreover have "off0 div PGSIZE \<le> ?i" using s(2) by (simp add: div_le_mono)
  moreover have "min n (unat (i_size ip0) - off0) = n" using n by simp
  ultimately show "?i \<in> late_misses fr ip0 off0 n" using s(2,3) s(5) [of ?i] c r o by (auto simp: late_misses_def not_less [symmetric])
  show "reach off0 ?i = off + r" using s(2) unfolding reach_def o by simp
qed

text \<open>A miss requests pages of the file only, and at least one unless the progress has been counted past the end.\<close>

lemma at_turn_ahead:
  assumes t: "at_turn fr n ip0 cs off0 ip off r" and n: "off0 + n \<le> unat (i_size ip0)" "n < 2 ^ 32" and fr: "\<And>i. 0 < fr i"
    and w: "\<forall>i\<in>late_misses fr ip0 off0 n. reach off0 i < unat (i_size ip0) + PGSIZE" and c: "\<not> cached ip (off div PGSIZE)"
  shows "off div PGSIZE + ahead_pages fr n ip off r \<le> (unat (i_size ip) - 1) div PGSIZE + 1"
    "ahead_pages fr n ip off r = 0 \<Longrightarrow> 0 < r \<and> \<not> (\<forall>i\<in>late_misses fr ip0 off0 n. reach off0 i < unat (i_size ip0))"
proof -
  have s: "i_size ip = i_size ip0" "off = off0 + r" "r < n" "unat (i_size ip) \<le> 2 ^ 32 - PGSIZE"
    using t by (auto simp: at_turn_def same_file_def file_inv_def)
  have lt: "off < unat (i_size ip)" using s n(1) by simp
  have l: "off div PGSIZE \<in> late_misses fr ip0 off0 n" "reach off0 (off div PGSIZE) = off + r" if "0 < r"
    using at_turn_late [OF t that n(1) c] .
  have "off div PGSIZE + ahead_pages fr n ip off r \<le> (unat (i_size ip) - 1) div PGSIZE + 1 \<and>
    (ahead_pages fr n ip off r = 0 \<longrightarrow> 0 < r \<and> \<not> (\<forall>i\<in>late_misses fr ip0 off0 n. reach off0 i < unat (i_size ip0)))"
  proof (cases "off + r < unat (i_size ip)")
    case True
    from ahead_near [where fr = fr and n = n, OF this s(4,3) n(2) fr] show ?thesis by simp
  next
    case False
    then have r: "0 < r" using lt by (cases r) simp_all
    then have "ahead_pages fr n ip off r = 0" using False l w s(1) by (intro ahead_stop) force+
    moreover have "off div PGSIZE \<le> (unat (i_size ip) - 1) div PGSIZE" using lt by (intro div_le_mono) simp
    ultimately show ?thesis using r False l s(1) by force
  qed
  then show "off div PGSIZE + ahead_pages fr n ip off r \<le> (unat (i_size ip) - 1) div PGSIZE + 1"
    "ahead_pages fr n ip off r = 0 \<Longrightarrow> 0 < r \<and> \<not> (\<forall>i\<in>late_misses fr ip0 off0 n. reach off0 i < unat (i_size ip0))" by auto
qed

lemma at_turn_step:
  assumes t: "at_turn fr n ip0 cs off0 ip off r" and s: "same_file ip cs ip'"
    and p: "\<not> cached ip (off div PGSIZE) \<longrightarrow> (\<forall>j. off div PGSIZE \<le> j \<and> j < off div PGSIZE + ahead_pages fr n ip off r \<longrightarrow> cached ip' j)"
    and len: "len = min (n - r) (PGSIZE - off mod PGSIZE)" "r + len < n"
  shows "at_turn fr n ip0 cs off0 ip' (off + len) (r + len)"
proof -
  have o: "off + len = off0 + (r + len)" "same_file ip0 cs ip'" "i_mapping ip' \<noteq> None"
    using t s same_file_trans [of ip0 cs ip ip'] by (auto simp: at_turn_def same_file_def)
  have c: "cached ip' j" if "\<not> cached ip0 (off0 div PGSIZE)" "off0 div PGSIZE \<le> j" "j < off0 div PGSIZE + ahead_pages fr n ip0 off0 0" for j
  proof (cases "r = 0")
    case True
    then show ?thesis using t p that by (auto simp: at_turn_def)
  next
    case False
    then have "cached ip j" using t that by (auto simp: at_turn_def)
    then show ?thesis using s by (simp add: same_file_def)
  qed
  have g: "0 < r + len" "(off + len) mod PGSIZE = 0" using next_turn(2,3) [OF len] by simp_all
  show ?thesis unfolding at_turn_def using o c g len(2) by blast
qed

lemma read_loop_ok:
  assumes kz: "\<And>i k. kz i k \<noteq> 0" and fr: "\<And>i. 0 < fr i" and out: "\<And>p l. out p l"
    and n: "off0 + n \<le> unat (i_size ip0)" "n < 2 ^ 32" and w: "\<forall>i\<in>late_misses fr ip0 off0 n. reach off0 i < unat (i_size ip0) + PGSIZE"
  shows "at_turn fr n ip0 cs off0 ip off r \<Longrightarrow>
    \<exists>ip' k. file_read_loop kz fr out n ip off r acc = Some (ip', int k, acc @ map (byte_at ip cs) [off ..< off0 + k]) \<and> r \<le> k \<and> k \<le> n \<and>
      (r = 0 \<longrightarrow> 0 < k) \<and> same_file ip cs ip' \<and> (r < k \<longrightarrow> cached ip' (off div PGSIZE)) \<and>
      ((\<forall>i\<in>late_misses fr ip0 off0 n. reach off0 i < unat (i_size ip0)) \<longrightarrow> k = n)"
proof (induction "n - r" arbitrary: ip off r acc rule: less_induct)
  case less
  note t = less.prems
  have f: "file_inv ip cs" "i_mapping ip \<noteq> None" "i_size ip = i_size ip0" and off: "off = off0 + r" "r < n"
    using t by (auto simp: at_turn_def same_file_def)
  define index where "index = off div PGSIZE"
  define offset where "offset = off mod PGSIZE"
  define isz where "isz = unat (i_size ip)"
  define nr where "nr = (if index = (isz - 1) div PGSIZE then (isz - 1) mod PGSIZE + 1 else PGSIZE)"
  define len where "len = min (n - r) (PGSIZE - offset)"
  have le: "off + (n - r) \<le> isz" using n(1) off f(3) by (simp add: isz_def)
  note C = chunk_len [OF le off(2) index_def offset_def nr_def, folded len_def]
  have lt: "off < unat (i_size ip)" using le off(2) by (simp add: isz_def)
  note A = at_turn_ahead [OF t n fr w]
  obtain ip1 stop where p: "read_page kz fr n ip off r = Some (ip1, stop)" "same_file ip cs ip1" "\<not> stop \<Longrightarrow> cached ip1 index"
    "stop \<longleftrightarrow> \<not> cached ip index \<and> ahead_pages fr n ip off r = 0"
    "\<not> cached ip index \<longrightarrow> (\<forall>j. index \<le> j \<and> j < index + ahead_pages fr n ip off r \<longrightarrow> cached ip1 j)"
    using read_page_ok [where kz = kz, OF f(1,2) lt A(1) kz] unfolding index_def by blast
  have step: "file_read_loop kz fr out n ip off r acc =
      (if stop then Some (ip1, int r, acc)
       else if r + len = n then Some (ip1, int n, acc @ take len (drop offset (i_pages ip1 index)))
       else file_read_loop kz fr out n ip1 (off + len) (r + len) (acc @ take len (drop offset (i_pages ip1 index))))"
    using C p(1) out unfolding nr_def index_def offset_def isz_def
    by (subst file_read_loop.simps) (simp add: Let_def)
  show ?case
  proof (cases stop)
    case True
    then have "0 < r \<and> \<not> (\<forall>i\<in>late_misses fr ip0 off0 n. reach off0 i < unat (i_size ip0))" using A(2) p(4) by (simp add: index_def)
    then show ?thesis using True step p(2) off by (intro exI [of _ ip1] exI [of _ r]) simp
  next
    case False
    have f1: "cache_inv ip1" "byte_at ip1 cs = byte_at ip cs" using p(2) by (auto simp: same_file_def file_inv_def)
    have sl: "take len (drop offset (i_pages ip1 index)) = map (byte_at ip cs) [off ..< off + len]"
      using page_slice [OF f1(1), of off len cs] p(3) [OF False] unfolding f1(2) by (simp add: index_def offset_def len_def)
    have lp: "0 < len" using off(2) by (simp add: len_def offset_def)
    show ?thesis
    proof (cases "r + len = n")
      case True
      then show ?thesis using False step sl p(2) p(3) [OF False] off by (intro exI [of _ ip1] exI [of _ n]) (auto simp: add.assoc index_def)
    next
      case more: False
      then have r': "r + len < n" using off(2) unfolding len_def by linarith
      have sm: "n - (r + len) < n - r" using lp off(2) by linarith
      have t1: "at_turn fr n ip0 cs off0 ip1 (off + len) (r + len)"
        by (rule at_turn_step [OF t p(2) p(5) [unfolded index_def] len_def [unfolded offset_def] r'])
      obtain ip' k where k: "file_read_loop kz fr out n ip1 (off + len) (r + len) (acc @ map (byte_at ip cs) [off ..< off + len]) =
          Some (ip', int k, (acc @ map (byte_at ip cs) [off ..< off + len]) @ map (byte_at ip1 cs) [off + len ..< off0 + k])" "r + len \<le> k" "k \<le> n"
        "same_file ip1 cs ip'" "(\<forall>i\<in>late_misses fr ip0 off0 n. reach off0 i < unat (i_size ip0)) \<longrightarrow> k = n"
        using less.hyps [OF sm t1, of "acc @ map (byte_at ip cs) [off ..< off + len]"] by blast
      have "map (byte_at ip cs) [off ..< off + len] @ map (byte_at ip1 cs) [off + len ..< off0 + k] = map (byte_at ip cs) [off ..< off0 + k]"
      proof -
        have "off0 + k = off + len + (k - (r + len))" using k(2) off(1) by simp
        then have "[off ..< off + len] @ [off + len ..< off0 + k] = [off ..< off0 + k]" by (metis add.assoc le_add1 upt_add_eq_append)
        then show ?thesis unfolding f1(2) map_append [symmetric] by simp
      qed
      then show ?thesis
        using False more step sl k lp same_file_trans [OF p(2) k(4)] p(3) [OF False]
        by (intro exI [of _ ip'] exI [of _ k]) (auto simp: same_file_def index_def)
    qed
  qed
qed

lemma fresh_mapping:
  assumes "file_inv ip cs" "i_mapping ip = None"
  shows "same_file ip cs (fat32_i_mapping_init ip)" "\<not> cached ip i" "\<not> cached (fat32_i_mapping_init ip) i"
proof -
  have g: "root_get (INIT_RADIX_TREE GFP_FS) j = None" for j by (simp add: root_get_def INIT_RADIX_TREE_def)
  show "\<not> cached ip i" using assms(2) by (simp add: cached_def)
  show "\<not> cached (fat32_i_mapping_init ip) i" using g by (simp add: cached_def fat32_i_mapping_init_def)
  have c: "cached (fat32_i_mapping_init ip) = cached ip" "dirty (fat32_i_mapping_init ip) = dirty ip"
    using assms(2) by (simp_all add: g cached_def dirty_def fat32_i_mapping_init_def fun_eq_iff)
  have b: "byte_at (fat32_i_mapping_init ip) cs = byte_at ip cs" using c(1) by (simp add: byte_at_def fun_eq_iff fat32_i_mapping_init_def)
  have s: "synced (fat32_i_mapping_init ip) cs = synced ip cs" using b by (simp add: synced_def fun_eq_iff) (simp add: fat32_i_mapping_init_def)
  have "file_inv (fat32_i_mapping_init ip) cs"
    using assms(1) rt_inv_init [OF GFP_FS_untagged] c s unfolding file_inv_def cache_inv_def volume_inv_def
    by (auto simp: fat32_i_mapping_init_def)
  then show "same_file ip cs (fat32_i_mapping_init ip)"
    using b c by (simp add: same_file_def) (simp add: fat32_i_mapping_init_def)
qed

lemma to_int_small: "k < 2 ^ 31 \<Longrightarrow> to_int (int k) = int k"
  unfolding to_int_def sint_sbintrunc' by (rule signed_take_bit_int_eq_self) simp_all

lemma inode_read_ok:
  assumes "file_inv ip cs" "off < i_size ip" "0 < n" "off \<le> off + n" "n < 2 ^ 31"
    and "\<And>i k. kz i k \<noteq> 0" "\<And>i. 0 < fr i" "\<And>p l. out p l"
    and "\<forall>i\<in>late_misses fr ip (unat off) (unat n). reach (unat off) i < unat (i_size ip) + PGSIZE"
  shows "\<exists>ip' k. fat32_inode_read kz fr out ip off n = Some (ip', int k, map (byte_at ip cs) [unat off ..< unat off + k]) \<and>
    0 < k \<and> k \<le> min (unat n) (unat (i_size ip) - unat off) \<and> same_file ip cs ip' \<and> cached ip' (unat off div PGSIZE) \<and>
    ((\<forall>i\<in>late_misses fr ip (unat off) (unat n). reach (unat off) i < unat (i_size ip)) \<longrightarrow> k = min (unat n) (unat (i_size ip) - unat off))"
proof -
  let ?n = "if off + n > i_size ip then i_size ip - off else n" and ?ip = "if i_mapping ip = None then fat32_i_mapping_init ip else ip"
  have nw: "unat (off + n) = unat off + unat n"
    using assms(4) by (simp add: unat_plus_simple)
  have un: "unat ?n = min (unat n) (unat (i_size ip) - unat off)"
    using nw assms(2) by (auto simp: word_less_nat_alt unat_sub less_imp_le not_less min_def)
  have n0: "?n \<noteq> 0" "0 < unat ?n"
    using assms(2,3) un by (auto simp: word_less_nat_alt)
  have s: "same_file ip cs ?ip" "cached ?ip = cached ip"
    using fresh_mapping [OF assms(1)] assms(1) by (auto simp: same_file_def fun_eq_iff)
  have f: "file_inv ?ip cs" "i_mapping ?ip \<noteq> None" "i_size ?ip = i_size ip" "byte_at ?ip cs = byte_at ip cs"
    using s(1) by (auto simp: same_file_def)
  have ah: "ahead_pages fr m ?ip o' r = ahead_pages fr m ip o' r" for m o' r
    by (simp add: ahead_pages_def fat32_i_mapping_init_def)
  have sub: "late_misses fr ?ip (unat off) (unat ?n) \<subseteq> late_misses fr ip (unat off) (unat n)"
    unfolding late_misses_def ah s(2) f(3) un by auto
  have nb: "unat ?n < 2 ^ 31" using assms(5) un by (simp add: word_less_nat_alt)
  have nb': "unat ?n < 2 ^ 32" using nb by simp
  have on: "unat off + unat ?n \<le> unat (i_size ?ip)" using un assms(2) f(3) by (simp add: word_less_nat_alt)
  have w': "\<forall>i\<in>late_misses fr ?ip (unat off) (unat ?n). reach (unat off) i < unat (i_size ?ip) + PGSIZE" using assms(9) sub f(3) by auto
  have t: "at_turn fr (unat ?n) ?ip cs (unat off) ?ip (unat off) 0" using f n0(2) by (simp add: at_turn_def same_file_def)
  obtain ip' k where r: "file_read_loop kz fr out (unat ?n) ?ip (unat off) 0 [] = Some (ip', int k, [] @ map (byte_at ?ip cs) [unat off ..< unat off + k])"
    "k \<le> unat ?n" "0 < k" "same_file ?ip cs ip'" "cached ip' (unat off div PGSIZE)"
    "(\<forall>i\<in>late_misses fr ?ip (unat off) (unat ?n). reach (unat off) i < unat (i_size ?ip)) \<longrightarrow> k = unat ?n"
    using read_loop_ok [where kz = kz and fr = fr and out = out and r = 0 and acc = "[]", OF assms(6-8) on nb' w' t] by auto
  have "do_generic_file_read kz fr out ?ip (unat off) (unat ?n) = Some (ip', int k, map (byte_at ip cs) [unat off ..< unat off + k])"
    using r(1) f(3,4) assms(2) by (simp add: do_generic_file_read_def) (auto simp: word_gt_0)
  moreover have "to_int (int k) = int k" by (rule to_int_small) (use r(2) nb in linarith)
  ultimately have "fat32_inode_read kz fr out ip off n = Some (ip', int k, map (byte_at ip cs) [unat off ..< unat off + k])"
    using assms(2,4) n0(1) by (simp add: fat32_inode_read_def Let_def not_less less_imp_le leD)
  moreover have "same_file ip cs ip'" using same_file_trans [OF s(1) r(4)] .
  ultimately show ?thesis using r(2,3,5,6) un sub f(3) by (intro exI [of _ ip'] exI [of _ k]) auto
qed

text \<open>If a read starts at an uncached page and memory allows it, the first miss brings in all pages of the request: then no page is missed later.  This is the
  case for a whole file none of whose pages is cached.\<close>

lemma first_miss_covers:
  assumes "off mod PGSIZE = 0" "off < unat (i_size ip)" "n < 2 ^ 32" "\<not> cached ip (off div PGSIZE)"
    and "pages_of n \<le> ((fr (off div PGSIZE) + READ_AHEAD_RATE - 1) div READ_AHEAD_RATE + PGSIZE - 1) div PGSIZE"
  shows "late_misses fr ip off n = {}"
proof -
  let ?isz = "unat (i_size ip)"
  define N where "N = min n (?isz - off)"
  define T where "T = ?isz - off"
  have u: "uint (i_size ip) = int ?isz" by (simp only: uint_nat)
  have T: "int ?isz - int (off + 0) = int T" using assms(2) by (simp add: T_def of_nat_diff)
  have T32: "T < 2 ^ 32" using unsigned_less [of "i_size ip", where 'a = nat] by (simp add: T_def)
  have t: "nat ((uint (i_size ip) - int (off + 0)) mod 2 ^ 64) = T"
    unfolding u T using T32 by (subst mod_pos_pos_trivial) simp_all
  have sm: "N < 2 ^ 63" "T < 2 ^ 63" "n < 2 ^ 63" using assms(3) T32 by (auto simp: N_def T_def)
  have "pages_of N \<le> pages_of n" "pages_of N \<le> pages_of T" unfolding pages_of_small(1) [OF sm(1)] pages_of_small(1) [OF sm(2)] pages_of_small(1) [OF sm(3)]
    by (intro div_le_mono; simp add: N_def T_def)+
  then have a: "pages_of N \<le> ahead_pages fr N ip off 0"
    using assms(5) unfolding ahead_pages_def t max_sane_readahead_def by simp
  have o: "off div PGSIZE * PGSIZE = off" using div_mult_mod_eq [of off PGSIZE] assms(1) by simp
  have "i < off div PGSIZE + pages_of N" if "i * PGSIZE < off + N" for i
  proof (rule ccontr)
    assume "\<not> i < off div PGSIZE + pages_of N"
    then have "(off div PGSIZE + pages_of N) * PGSIZE \<le> i * PGSIZE" by (intro mult_le_mono1) simp
    moreover have "N \<le> pages_of N * PGSIZE" unfolding pages_of_small(1) [OF sm(1)]
      using div_mult_mod_eq [of "N + PGSIZE - 1" PGSIZE] mod_less_divisor [OF PGSIZE_pos, of "N + PGSIZE - 1"] by linarith
    ultimately show False using that o by (simp add: add_mult_distrib)
  qed
  then have "i < off div PGSIZE + ahead_pages fr N ip off 0" if "i * PGSIZE < off + N" for i using that a by force
  then show ?thesis using assms(4) by (fastforce simp: late_misses_def N_def [symmetric])
qed

text \<open>C21. Reading a file: for a request that starts inside the file, \<open>fat32_inode_read\<close> returns and copies out the bytes of the file from the offset on, whichever
  of its pages are cached, dirty or only on disk, and however the misses are grouped into disk requests; at least one byte, and no more than the request or the
  file holds.  The file is not changed by the pages that enter the cache.  The code counts its progress twice when it computes what is left of the file at a miss, so
  there is a condition on \<open>late_misses\<close>, the pages behind the first that are neither cached nor brought in by a miss of the first page: at such a page the progress
  counted twice must not pass the end of the file by a page or more (the code would then request pages behind the file).  If it does not pass the end at all, everything
  that is requested is returned, otherwise the read may stop early.  There are no late misses in a request inside one page, nor in a request that starts at an uncached
  page and fits into the memory offered for reading ahead (\<open>first_miss_covers\<close>), such as reading a whole uncached file.\<close>

theorem fat32_inode_read_correct:
  assumes "file_inv ip cs" "off < i_size ip" "0 < n" "off \<le> off + n" "n < 2 ^ 31"
    and "\<And>i k. kz i k \<noteq> 0" "\<And>i. 0 < fr i" "\<And>p l. out p l"
    and "\<forall>i\<in>late_misses fr ip (unat off) (unat n). reach (unat off) i < unat (i_size ip) + PGSIZE"
  shows "\<exists>ip' k. fat32_inode_read kz fr out ip off n = Some (ip', int k, map (byte_at ip cs) [unat off ..< unat off + k]) \<and>
    0 < k \<and> k \<le> min (unat n) (unat (i_size ip) - unat off) \<and> same_file ip cs ip' \<and>
    ((\<forall>i\<in>late_misses fr ip (unat off) (unat n). reach (unat off) i < unat (i_size ip)) \<longrightarrow> k = min (unat n) (unat (i_size ip) - unat off))"
  using inode_read_ok [where kz = kz and fr = fr and out = out, OF assms] by blast

subsection \<open>A concrete instance\<close>

text \<open>A file of 20 bytes on the sectors 21 and 22, whose bytes are the number of the sector.\<close>

definition demo_cinode :: cinode where
  "demo_cinode = \<lparr>i_sb = demo_vol [2, 3], i_fat = demo_file [2, 3], i_size = 20, i_mode = 0x81FF, i_blocks = 2, i_mapping = None, i_pages = (\<lambda>i. []),
     i_dirty = False, dirty_in_parent = False, i_writeback = False, disk = (\<lambda>s. replicate 16 (word_of_nat s))\<rparr>"

lemma demo_cinode_simps [simp]:
  "i_sb demo_cinode = demo_vol [2, 3]" "i_size demo_cinode = 20" "i_mapping demo_cinode = None" "disk demo_cinode = (\<lambda>s. replicate 16 (word_of_nat s))"
  "\<not> cached demo_cinode i" "\<not> dirty demo_cinode i" "cluster_size (demo_vol [2, 3]) = 16"
  by (simp_all add: demo_cinode_def cached_def dirty_def cluster_size_def)

lemma demo_cinode_inv: "file_inv demo_cinode [2, 3]"
proof -
  have v: "volume_inv demo_cinode [2, 3]"
    using demo_volume_ok demo_bitmap_ok demo_stored(1) by (simp add: volume_inv_def) (simp add: demo_cinode_def PGSIZE_def)
  show ?thesis by (rule clean_inv [OF v]) (simp_all add: PGSIZE_def)
qed

text \<open>A file of three pages on the sectors 21, 22 and 23, none of which is cached.\<close>

definition big_vol :: fatfs where
  "big_vol = (demo_vol [2])\<lparr>sector_size := 4096, bit_map := [0x1F, 0], fat_table := (fat_table (demo_vol [2]))[2 := 3, 3 := 4, 4 := EOC]\<rparr>"

definition big_cinode :: cinode where
  "big_cinode = demo_cinode\<lparr>i_sb := big_vol, i_fat := demo_file [2, 3, 4], i_size := 12288, disk := (\<lambda>s. replicate 4096 (word_of_nat s))\<rparr>"

lemma big_simps [simp]:
  "i_sb big_cinode = big_vol" "i_fat big_cinode = demo_file [2, 3, 4]" "i_size big_cinode = 12288" "i_mapping big_cinode = None" "\<not> cached big_cinode i"
  "disk big_cinode = (\<lambda>s. replicate 4096 (word_of_nat s))"
  "FAT_CLUSTER_MAX big_vol = 70" "fat_table big_vol = (replicate 72 0)[2 := 3, 3 := 4, 4 := EOC]" "bit_map big_vol = [0x1F, 0]" "sector_size big_vol = 4096"
  "sectors_per_block big_vol = 1" "fatbase big_vol = 1" "cluster_size big_vol = 4096"
proof -
  show "FAT_CLUSTER_MAX big_vol = 70" using demo_vol_max [of "[2]"] by (simp add: big_vol_def FAT_CLUSTER_MAX_def FirstDataSector_def)
qed (simp_all add: big_cinode_def demo_cinode_def big_vol_def cached_def cluster_size_def)

lemma big_marks: "marked [0x1F, 0] 0" "marked [0x1F, 0] 1" "marked [0x1F, 0] 2" "marked [0x1F, 0] 3" "marked [0x1F, 0] 4"
  unfolding marked_def MAP_BITS_def TEST_BIT_def one_shl_def by code_simp+

lemma big_inv: "file_inv big_cinode [2, 3, 4]"
proof -
  have v: "volume_ok big_vol" "bitmap_ok big_vol" using big_marks(1,2) by (simp_all add: volume_ok_def bitmap_ok_def MAP_BITS_def)
  have "stored big_vol (demo_file [2, 3, 4]) [2, 3, 4]"
    using demo_idx_dom [of "[2, 3, 4]"] demo_idx(1) [of "[2, 3, 4]"] big_marks
    by (auto simp: stored_def file_ok_def valid_cluster_def N_DIRECT_def MAX_INDEX_1_def demo_file_def EOC_def ISEOF_def)
  then have "volume_inv big_cinode [2, 3, 4]" using v by (simp add: volume_inv_def PGSIZE_def)
  then show ?thesis by (rule clean_inv) (simp_all add: PGSIZE_def)
qed

lemma big_bytes: "map (byte_at big_cinode [2, 3, 4]) [0 ..< 12288] = replicate 4096 21 @ replicate 4096 22 @ replicate 4096 23"
proof -
  let ?xs = "replicate 4096 21 @ replicate 4096 22 @ replicate 4096 23 :: 8 word list"
  have s: "file_sectors big_vol [2, 3, 4] = [21, 22, 23]"
    by (simp add: file_sectors_def FirstSectorofCluster_def FirstDataSector_def) (simp add: big_vol_def demo_vol_def demo_fs_def)
  have "file_bytes (disk big_cinode) big_vol [2, 3, 4] = ?xs" by (simp add: file_bytes_def s)
  then have "byte_at big_cinode [2, 3, 4] p = ?xs ! p" if "p < 12288" for p using that by (simp add: byte_at_def file_byte_def)
  then have "map (byte_at big_cinode [2, 3, 4]) [0 ..< 12288] = map ((!) ?xs) [0 ..< length ?xs]" by simp
  then show ?thesis unfolding map_nth .
qed

theorem fat32_inode_read_correct_witness:
  "\<exists>ip'. fat32_inode_read (\<lambda>i k. 0x80000000) (\<lambda>i. 0x800000) (\<lambda>p l. True) big_cinode 0 20000 =
    Some (ip', 12288, replicate 4096 21 @ replicate 4096 22 @ replicate 4096 23) \<and> file_inv ip' [2, 3, 4]"
proof -
  have l: "late_misses (\<lambda>i. 0x800000) big_cinode 0 20000 = {}"
    by (rule first_miss_covers) (simp_all add: pages_of_def PGSIZE_def READ_AHEAD_RATE_def)
  have "\<exists>ip' k. fat32_inode_read (\<lambda>i k. 0x80000000) (\<lambda>i. 0x800000) (\<lambda>p l. True) big_cinode 0 20000 =
      Some (ip', int k, map (byte_at big_cinode [2, 3, 4]) [unat (0 :: 32 word) ..< unat (0 :: 32 word) + k]) \<and>
      0 < k \<and> k \<le> min (unat (20000 :: 32 word)) (unat (i_size big_cinode) - unat (0 :: 32 word)) \<and> same_file big_cinode [2, 3, 4] ip' \<and>
      ((\<forall>i\<in>late_misses (\<lambda>i. 0x800000) big_cinode (unat (0 :: 32 word)) (unat (20000 :: 32 word)). reach (unat (0 :: 32 word)) i < unat (i_size big_cinode)) \<longrightarrow>
        k = min (unat (20000 :: 32 word)) (unat (i_size big_cinode) - unat (0 :: 32 word)))"
    by (rule fat32_inode_read_correct [OF big_inv]) (simp_all add: l)
  then show ?thesis using big_bytes by (auto simp: same_file_def l)
qed

end
