(* ===== verification/FileWrite.thy ===== *)
theory FileWrite
  imports FileRead
begin

text \<open>
  Writing through the page cache (\<open>do_generic_file_write\<close> of \<open>src/mm/filemap.c\<close>, \<open>fat32_inode_write\<close> of \<open>src/fs/fat32/fat32_inode.c\<close>): what a write
  does to the bytes of a file, and when bytes of a page that is not cached are lost.
\<close>

subsection \<open>Growing volumes\<close>

text \<open>The volume has room for a file of \<open>e\<close> bytes that has the clusters \<open>cs\<close> now.\<close>

definition space :: "fatfs \<Rightarrow> FAT_entry_t list \<Rightarrow> nat \<Rightarrow> bool" where
  "space sb cs e \<longleftrightarrow> room (clusters_for sb e - length cs) sb \<and> clusters_for sb e < MAX_INDEX_1"

lemma clusters_for_mono: "x \<le> e \<Longrightarrow> clusters_for sb x \<le> clusters_for sb e"
  unfolding clusters_for_def by (intro div_le_mono) linarith

lemma space_mono: "space sb cs e \<Longrightarrow> x \<le> e \<Longrightarrow> space sb cs x"
  using clusters_for_mono [of x e sb] by (auto simp: space_def intro: room_weaken diff_le_mono)

lemma clusters_cover: "volume_ok sb \<Longrightarrow> e \<le> clusters_for sb e * cluster_size sb"
proof -
  assume "volume_ok sb"
  then have c: "0 < cluster_size sb" by (rule cluster_size_pos)
  have "e + cluster_size sb - 1 < (clusters_for sb e + 1) * cluster_size sb"
    using c dividend_less_div_times [of "cluster_size sb" "e + cluster_size sb - 1"] by (simp add: clusters_for_def cluster_size_def add_mult_distrib)
  then show ?thesis using c by (simp add: add_mult_distrib)
qed

lemma get_block_space:
  assumes v: "volume_inv ip cs" and s: "space (i_sb ip) cs e" and i: "0 < k" "(index + k) * PGSIZE \<le> e"
  shows "\<exists>sb' fi' vs ns. fat32_get_block (i_sb ip) (i_fat ip) (index * PGSIZE) (k * PGSIZE) True = Some (sb', fi', vs, k * PGSIZE div sector_size sb') \<and>
    stored sb' fi' (cs @ ns) \<and> grows (i_sb ip) cs ns sb' \<and> space sb' (cs @ ns) e \<and> (index + k) * PGSIZE \<le> length (cs @ ns) * cluster_size sb' \<and>
    blocks_of vs = take (k * PGSIZE div sector_size sb') (drop (index * PGSIZE div sector_size sb') (file_sectors sb' (cs @ ns)))"
proof -
  let ?sb = "i_sb ip" and ?x = "index * PGSIZE + k * PGSIZE"
  let ?j = "clusters_for ?sb e - max (clusters_for ?sb ?x) (length cs)"
  have V: "volume_ok ?sb" "bitmap_ok ?sb" "stored ?sb (i_fat ip) cs" "sector_size ?sb dvd PGSIZE" using v by (auto simp: volume_inv_def)
  have a: "index * PGSIZE mod 4096 = 0" "index * PGSIZE mod sector_size ?sb = 0" "k * PGSIZE mod sector_size ?sb = 0" "0 < k * PGSIZE"
    using V(4) i(1) by (auto simp: PGSIZE_def)
  have x: "?x = (index + k) * PGSIZE" by (simp add: add_mult_distrib)
  have le: "clusters_for ?sb ?x \<le> clusters_for ?sb e" using i(2) by (intro clusters_for_mono) (simp add: x)
  have "clusters_for ?sb ?x - length cs + ?j = clusters_for ?sb e - length cs" using le by linarith
  then have r: "room (clusters_for ?sb ?x - length cs + ?j) ?sb" "clusters_for ?sb ?x < MAX_INDEX_1" using s le by (auto simp: space_def)
  obtain sb' fi' vs ns where g: "fat32_get_block ?sb (i_fat ip) (index * PGSIZE) (k * PGSIZE) True = Some (sb', fi', vs, k * PGSIZE div sector_size ?sb)"
    "stored sb' fi' (cs @ ns)" "grows ?sb cs ns sb'" "length ns = clusters_for ?sb ?x - length cs" "room ?j sb'"
    "blocks_of vs = take (k * PGSIZE div sector_size ?sb) (drop (index * PGSIZE div sector_size ?sb) (file_sectors ?sb (cs @ ns)))"
    using get_block_growing [OF V(1-3) a r] by blast
  have G: "volume_ok sb'" "same_geometry ?sb sb'" using g(3) by (simp_all add: grows_def)
  have c: "clusters_for sb' = clusters_for ?sb" "cluster_size sb' = cluster_size ?sb"
    using same_geometryD(4,5) [OF G(2)] by (simp_all add: clusters_for_def cluster_size_def fun_eq_iff)
  have "clusters_for ?sb e - length (cs @ ns) = ?j" using g(4) by simp
  then have "space sb' (cs @ ns) e" using g(5) s by (simp add: space_def c)
  moreover have "?x \<le> length (cs @ ns) * cluster_size ?sb"
  proof -
    have "clusters_for ?sb ?x * cluster_size ?sb \<le> length (cs @ ns) * cluster_size ?sb" using g(4) by (intro mult_le_mono1) simp
    then show ?thesis using clusters_cover [OF V(1), of ?x] by linarith
  qed
  ultimately show ?thesis using g(1-3,6) c(2) same_geometryD(3,4) [OF G(2)] unfolding x
    by (intro exI [of _ sb'] exI [of _ fi'] exI [of _ vs] exI [of _ ns]) simp
qed

text \<open>New clusters do not change the bytes the file had on disk.\<close>

lemma file_byte_grows:
  assumes "grows sb cs ns sb'" "\<And>s. length (d s) = sector_size sb" "p < length cs * cluster_size sb"
  shows "file_byte d sb' (cs @ ns) p = file_byte d sb cs p"
proof -
  have g: "same_geometry sb sb'" using assms(1) by (simp add: grows_def)
  have e: "file_bytes d sb' (cs @ ns) = file_bytes d sb cs @ file_bytes d sb ns" "cluster_size sb' = cluster_size sb"
    using same_geometryD(3-5) [OF g] by (simp_all add: file_bytes_def file_sectors_append cluster_size_def)
  have "length (file_bytes d sb cs) = length cs * cluster_size sb" using assms(2) by (rule file_bytes_length)
  then show ?thesis using assms(3) by (simp add: file_byte_def e nth_append add_mult_distrib)
qed

subsection \<open>A page is entered\<close>

lemma enter_page:
  assumes v: "volume_inv ip cs" and m: "i_mapping ip = Some m" "rt_inv (page_tree m)" "root_get (page_tree m) index = None" and kz: "\<And>i k. kz i k \<noteq> 0"
    and s: "space (i_sb ip) cs e" "Suc index * PGSIZE \<le> e" "Suc index * PGSIZE < 2 ^ 32"
  shows "\<exists>m' sb' fi' ns page. mpage_readpages kz ip index 1 rd True =
      Some (ip\<lparr>i_sb := sb', i_fat := fi', i_mapping := Some m', i_pages := (i_pages ip)(index := page)\<rparr>) \<and>
    extends m m' {index} \<and> stored sb' fi' (cs @ ns) \<and> grows (i_sb ip) cs ns sb' \<and> space sb' (cs @ ns) e \<and> length page = PGSIZE \<and>
    page = (if rd then disk_page (disk ip) sb' (cs @ ns) index else replicate PGSIZE 0)"
proof -
  have mis: "missing m index (Suc index) = {index}" using m(3) by (auto simp: missing_def le_less_Suc_eq)
  have z: "zero_pages {index} (i_pages ip) = (i_pages ip)(index := replicate PGSIZE 0)" by (simp add: zero_pages_def fun_eq_iff)
  obtain m' ps where r: "readpages_loop kz index 1 0 ip [] = Some (ip\<lparr>i_mapping := Some m', i_pages := (i_pages ip)(index := replicate PGSIZE 0)\<rparr>, ps)"
    "extends m m' {index}" "distinct (map snd ps)" "set (map snd ps) = {index}"
    using readpages_loop_ok [OF m(1,2), of index 1 0 kz "[]"] page_limit [OF s(3)] m(3) kz by (auto simp: mis z)
  let ?ip = "ip\<lparr>i_mapping := Some m', i_pages := (i_pages ip)(index := replicate PGSIZE 0)\<rparr>"
  have V: "volume_ok (i_sb ip)" "bitmap_ok (i_sb ip)" "stored (i_sb ip) (i_fat ip) cs" using v by (auto simp: volume_inv_def)
  show ?thesis
  proof (cases rd)
    case False
    then have "mpage_readpages kz ip index 1 rd True = Some ?ip" using r(1) by (simp add: mpage_readpages_def)
    then show ?thesis
      using False r(2) V s(1) grows_refl [OF V(1,2), of cs]
      by (intro exI [of _ m'] exI [of _ "i_sb ip"] exI [of _ "i_fat ip"] exI [of _ "[]"] exI [of _ "replicate PGSIZE 0"]) simp
  next
    case True
    have v1: "volume_inv ?ip cs" using v by (simp add: volume_inv_def)
    obtain sb' fi' vs ns where g: "fat32_get_block (i_sb ?ip) (i_fat ?ip) (index * PGSIZE) (1 * PGSIZE) True = Some (sb', fi', vs, 1 * PGSIZE div sector_size sb')"
      "stored sb' fi' (cs @ ns)" "grows (i_sb ?ip) cs ns sb'" "space sb' (cs @ ns) e"
      "blocks_of vs = take (1 * PGSIZE div sector_size sb') (drop (index * PGSIZE div sector_size sb') (file_sectors sb' (cs @ ns)))"
      using get_block_space [OF v1, of e 1 index] s(1,2) by auto
    have ss: "sector_size sb' = sector_size (i_sb ip)" using g(3) same_geometryD(4) by (auto simp: grows_def)
    have d: "\<And>s. length (disk ?ip s) = sector_size sb'" "sector_size sb' dvd PGSIZE" "0 < sector_size sb'"
      using v V(1) by (simp_all add: ss volume_inv_def volume_ok_def)
    have bn: "True \<longrightarrow> 1 * PGSIZE div sector_size sb' * sector_size sb' = 1 * PGSIZE" using d(2) by simp
    have "length ps = 1" using r(3,4) distinct_card [of "map snd ps"] by simp
    then obtain q where q: "ps = [q]" "snd q = index" using r(4) by (cases ps) auto
    have "fat32_rw_pages False True ?ip index 1 =
        Some (?ip\<lparr>i_sb := sb', i_fat := fi', i_pages := load_pages {index ..< index + 1} (disk_page (disk ?ip) sb' (cs @ ns)) (i_pages ?ip)\<rparr>)"
      using s(3) by (intro rw_pages_read [OF g(1) bn _ g(5) d]) auto
    moreover have "load_pages {index ..< index + 1} f (i_pages ?ip) = (i_pages ip)(index := f index)" for f
      by (auto simp: load_pages_def fun_eq_iff)
    ultimately have "mpage_readpages kz ip index 1 rd True =
        Some (ip\<lparr>i_sb := sb', i_fat := fi', i_mapping := Some m', i_pages := (i_pages ip)(index := disk_page (disk ip) sb' (cs @ ns) index)\<rparr>)"
      using r(1) True q by (simp add: mpage_readpages_def)
    then show ?thesis
      using True r(2) g(2-4)
      by (intro exI [of _ m'] exI [of _ sb'] exI [of _ fi'] exI [of _ ns] exI [of _ "disk_page (disk ip) sb' (cs @ ns) index"]) (simp add: disk_page_def)
  qed
qed

subsection \<open>A page is written\<close>

text \<open>The file with clusters \<open>cs\<close> has the bytes \<open>b\<close> up to position \<open>e\<close>.\<close>

definition holds :: "cinode \<Rightarrow> FAT_entry_t list \<Rightarrow> (nat \<Rightarrow> byte) \<Rightarrow> nat \<Rightarrow> bool" where
  "holds ip cs b e \<longleftrightarrow> volume_inv ip cs \<and> cache_inv ip \<and> i_mapping ip \<noteq> None \<and>
     (\<forall>p<e. (dirty ip (p div PGSIZE) \<or> synced ip cs p) \<and> byte_at ip cs p = b p)"

definition overwrite :: "(nat \<Rightarrow> byte) \<Rightarrow> nat \<Rightarrow> byte list \<Rightarrow> (nat \<Rightarrow> byte)" where
  "overwrite b off bytes p = (if off \<le> p \<and> p < off + length bytes then bytes ! (p - off) else b p)"

text \<open>The mapping \<open>m'\<close> has the page \<open>index\<close>, which is dirty, and otherwise the pages of \<open>m\<close>.\<close>

definition dirtied :: "address_space \<Rightarrow> address_space \<Rightarrow> nat \<Rightarrow> bool" where
  "dirtied m m' index \<longleftrightarrow> rt_inv (page_tree m') \<and> (\<forall>i. root_get (page_tree m') i = None \<longleftrightarrow> root_get (page_tree m) i = None \<and> i \<noteq> index) \<and>
     (\<forall>i. root_tagged (page_tree m') PAGECACHE_TAG_DIRTY i \<longleftrightarrow> root_tagged (page_tree m) PAGECACHE_TAG_DIRTY i \<or> i = index)"

lemma dirtied_tag:
  assumes e: "extends m m1 S" "S \<subseteq> {index}" and c: "root_get (page_tree m1) index \<noteq> None"
  shows "\<exists>t it. radix_tree_tag_set (page_tree m1) index PAGECACHE_TAG_DIRTY = Some (t, it) \<and> dirtied m (m1\<lparr>page_tree := t\<rparr>) index"
proof -
  obtain pa where pa: "root_get (page_tree m1) index = Some pa" using c by auto
  have g: "PAGECACHE_TAG_DIRTY < 2" by (simp add: PAGECACHE_TAG_DIRTY_def)
  have inv: "rt_inv (page_tree m1)" using e(1) by (simp add: extends_def)
  obtain t where t: "radix_tree_tag_set (page_tree m1) index PAGECACHE_TAG_DIRTY = Some (t, RItem pa)" "rt_inv t" "root_get t = root_get (page_tree m1)"
    "\<forall>g'<2. \<forall>j. root_tagged t g' j = (root_tagged (page_tree m1) g' j \<or> (g' = PAGECACHE_TAG_DIRTY \<and> j = index))"
    using tag_set_ok [OF inv pa g] by blast
  have "root_get (page_tree m1) i = None \<longleftrightarrow> root_get (page_tree m) i = None \<and> i \<noteq> index" for i
    using extends_None [OF e(1), of i] e(2) pa by auto
  moreover have "root_tagged (page_tree m1) PAGECACHE_TAG_DIRTY = root_tagged (page_tree m) PAGECACHE_TAG_DIRTY"
    using e(1) g by (simp add: extends_def)
  ultimately show ?thesis using t g by (intro exI [of _ t] exI [of _ "RItem pa"]) (simp add: dirtied_def)
qed

lemma dirtied_cached:
  assumes "dirtied m m' index" "i_mapping ip = Some m" "i_mapping ip' = Some m'" "cache_inv ip"
  shows "cached ip' i \<longleftrightarrow> cached ip i \<or> i = index" "dirty ip' i \<longleftrightarrow> dirty ip i \<or> i = index"
proof -
  show c: "cached ip' i \<longleftrightarrow> cached ip i \<or> i = index" using assms by (auto simp: dirtied_def cached_def)
  have "root_tagged (page_tree m) PAGECACHE_TAG_DIRTY i \<Longrightarrow> root_get (page_tree m) i \<noteq> None"
    using assms(2,4) tagged_cached [of "page_tree m" PAGECACHE_TAG_DIRTY i] by (auto simp: cache_inv_def PAGECACHE_TAG_DIRTY_def)
  then show "dirty ip' i \<longleftrightarrow> dirty ip i \<or> i = index"
    using c assms(1-3) by (auto simp: dirty_def dirtied_def cached_def)
qed

text \<open>Filling a page leaves the bytes of all other pages and gives the new bytes in this one.\<close>

lemma filled_holds:
  assumes h: "holds ip cs b e" and m: "i_mapping ip = Some m" "dirtied m m' index" and g: "stored sb' fi' (cs @ ns)" "grows (i_sb ip) cs ns sb'"
    and page: "length page = PGSIZE" "\<And>p. p < e' \<Longrightarrow> p div PGSIZE = index \<Longrightarrow> page ! (p mod PGSIZE) = b' p"
    and b': "\<And>p. p < e' \<Longrightarrow> p div PGSIZE \<noteq> index \<Longrightarrow> p < e \<and> b' p = b p"
  shows "holds (ip\<lparr>i_sb := sb', i_fat := fi', i_mapping := Some m', i_pages := (i_pages ip)(index := page)\<rparr>) (cs @ ns) b' e'"
proof -
  let ?ip = "ip\<lparr>i_sb := sb', i_fat := fi', i_mapping := Some m', i_pages := (i_pages ip)(index := page)\<rparr>"
  have H: "volume_inv ip cs" "cache_inv ip" using h by (simp_all add: holds_def)
  have C: "cached ?ip i \<longleftrightarrow> cached ip i \<or> i = index" "dirty ?ip i \<longleftrightarrow> dirty ip i \<or> i = index" for i
    using dirtied_cached [OF m(2,1) _ H(2), of ?ip] by simp_all
  have G: "volume_ok sb'" "bitmap_ok sb'" "same_geometry (i_sb ip) sb'" using g(2) by (simp_all add: grows_def)
  have cl: "cluster_size sb' = cluster_size (i_sb ip)" using same_geometryD(4,5) [OF G(3)] by (simp add: cluster_size_def)
  have v: "volume_inv ?ip (cs @ ns)" using H(1) G g(1) same_geometryD(4) [OF G(3)] by (simp add: volume_inv_def)
  have c: "cache_inv ?ip" using H(2) C(1) m(2) page(1) by (simp add: cache_inv_def dirtied_def)
  have "(dirty ?ip (p div PGSIZE) \<or> synced ?ip (cs @ ns) p) \<and> byte_at ?ip (cs @ ns) p = b' p" if p: "p < e'" for p
  proof (cases "p div PGSIZE = index")
    case True
    then show ?thesis using page(2) [OF p] C by (simp add: byte_at_def)
  next
    case False
    then have q: "p < e" "b' p = b p" using b' [OF p] by auto
    have fb: "file_byte (disk ip) sb' (cs @ ns) p = file_byte (disk ip) (i_sb ip) cs p" if "p < length cs * cluster_size (i_sb ip)"
      using file_byte_grows [OF g(2) _ that] H(1) by (auto simp: volume_inv_def)
    have sy: "dirty ip (p div PGSIZE) \<or> synced ip cs p" "byte_at ip cs p = b p" using h q(1) by (auto simp: holds_def)
    have bt: "byte_at ?ip (cs @ ns) p = byte_at ip cs p"
    proof (cases "cached ip (p div PGSIZE)")
      case True
      then show ?thesis using False C(1) by (simp add: byte_at_def)
    next
      case nc: False
      then have "p < length cs * cluster_size (i_sb ip)" using sy(1) by (auto simp: dirty_def synced_def)
      then show ?thesis using False C(1) nc fb by (simp add: byte_at_def)
    qed
    have "synced ?ip (cs @ ns) p" if "synced ip cs p"
      using that fb by (simp add: synced_def bt cl add_mult_distrib)
    then show ?thesis using sy bt q(2) C(2) by auto
  qed
  then show ?thesis using v c by (simp add: holds_def)
qed

text \<open>The contents of a page after bytes are copied to its offset.\<close>

lemma fill_nth:
  assumes "length page = PGSIZE" "off mod PGSIZE + length bytes \<le> PGSIZE" "p div PGSIZE = off div PGSIZE"
  shows "(take (off mod PGSIZE) page @ bytes @ drop (off mod PGSIZE + length bytes) page) ! (p mod PGSIZE) =
      (if off \<le> p \<and> p < off + length bytes then bytes ! (p - off) else page ! (p mod PGSIZE))"
    "length (take (off mod PGSIZE) page @ bytes @ drop (off mod PGSIZE + length bytes) page) = PGSIZE"
proof -
  let ?o = "off mod PGSIZE" and ?q = "p mod PGSIZE"
  have q: "?q < PGSIZE" by (simp add: PGSIZE_def)
  have "off = off div PGSIZE * PGSIZE + ?o" "p = off div PGSIZE * PGSIZE + ?q" using assms(3) by (metis div_mult_mod_eq)+
  then have e: "off \<le> p \<longleftrightarrow> ?o \<le> ?q" "p < off + length bytes \<longleftrightarrow> ?q < ?o + length bytes" "p - off = ?q - ?o" by linarith+
  show "(take ?o page @ bytes @ drop (?o + length bytes) page) ! ?q =
      (if off \<le> p \<and> p < off + length bytes then bytes ! (p - off) else page ! ?q)"
    unfolding e using assms(1,2) q by (auto simp: nth_append)
  show "length (take ?o page @ bytes @ drop (?o + length bytes) page) = PGSIZE" using assms(1,2) by simp
qed

text \<open>The page a write fills, \<open>rd\<close> tells whether a missing page is read from disk: it has the bytes of the file if it was cached or is read.\<close>

lemma page_ready:
  assumes h: "holds ip cs b e" and m: "i_mapping ip = Some m" and kz: "\<And>i k. kz i k \<noteq> 0"
    and s: "space (i_sb ip) cs E" "Suc index * PGSIZE \<le> E" "Suc index * PGSIZE < 2 ^ 32"
  shows "\<exists>m1 sb' fi' ns page. (if root_get (page_tree m) index = None then mpage_readpages kz ip index 1 rd True else Some ip) =
      Some (ip\<lparr>i_sb := sb', i_fat := fi', i_mapping := Some m1, i_pages := (i_pages ip)(index := page)\<rparr>) \<and>
    (\<exists>t it. radix_tree_tag_set (page_tree m1) index PAGECACHE_TAG_DIRTY = Some (t, it) \<and> dirtied m (m1\<lparr>page_tree := t\<rparr>) index) \<and>
    stored sb' fi' (cs @ ns) \<and> grows (i_sb ip) cs ns sb' \<and> space sb' (cs @ ns) E \<and> length page = PGSIZE \<and>
    (if cached ip index \<or> rd then \<forall>p<e. p div PGSIZE = index \<longrightarrow> page ! (p mod PGSIZE) = b p else page = replicate PGSIZE 0)"
proof -
  have H: "volume_inv ip cs" "cache_inv ip" and B: "\<And>p. p < e \<Longrightarrow> (dirty ip (p div PGSIZE) \<or> synced ip cs p) \<and> byte_at ip cs p = b p"
    using h by (auto simp: holds_def)
  have inv: "rt_inv (page_tree m)" using H(2) m by (simp add: cache_inv_def)
  show ?thesis
  proof (cases "cached ip index")
    case True
    have "\<exists>t it. radix_tree_tag_set (page_tree m) index PAGECACHE_TAG_DIRTY = Some (t, it) \<and> dirtied m (m\<lparr>page_tree := t\<rparr>) index"
      using dirtied_tag [OF extends_refl [OF inv]] True m by (simp add: cached_def)
    moreover have "ip\<lparr>i_sb := i_sb ip, i_fat := i_fat ip, i_mapping := Some m, i_pages := (i_pages ip)(index := i_pages ip index)\<rparr> = ip"
      using m by simp
    moreover have "i_pages ip index ! (p mod PGSIZE) = b p" if "p < e" "p div PGSIZE = index" for p
      using B [of p] True that by (auto simp: byte_at_def)
    ultimately show ?thesis
      using True H s(1) m grows_refl [of "i_sb ip" cs]
      by (intro exI [of _ m] exI [of _ "i_sb ip"] exI [of _ "i_fat ip"] exI [of _ "[] :: FAT_entry_t list"] exI [of _ "i_pages ip index"])
        (auto simp: cached_def volume_inv_def cache_inv_def)
  next
    case False
    then have none: "root_get (page_tree m) index = None" using m by (simp add: cached_def)
    obtain m1 sb' fi' ns page where p: "mpage_readpages kz ip index 1 rd True =
        Some (ip\<lparr>i_sb := sb', i_fat := fi', i_mapping := Some m1, i_pages := (i_pages ip)(index := page)\<rparr>)"
      "extends m m1 {index}" "stored sb' fi' (cs @ ns)" "grows (i_sb ip) cs ns sb'" "space sb' (cs @ ns) E" "length page = PGSIZE"
      "page = (if rd then disk_page (disk ip) sb' (cs @ ns) index else replicate PGSIZE 0)"
      using enter_page [where kz = kz and rd = rd, OF H(1) m inv none kz s] by (elim exE conjE) (rule that)
    have "\<exists>t it. radix_tree_tag_set (page_tree m1) index PAGECACHE_TAG_DIRTY = Some (t, it) \<and> dirtied m (m1\<lparr>page_tree := t\<rparr>) index"
      using dirtied_tag [OF p(2)] extends_None [OF p(2), of index] by auto
    moreover have "page ! (q mod PGSIZE) = b q" if q: "rd" "q < e" "q div PGSIZE = index" for q
    proof -
      have "synced ip cs q" "byte_at ip cs q = b q" using B [OF q(2)] False q(3) by (auto simp: dirty_def)
      then have "q < length cs * cluster_size (i_sb ip)" "file_byte (disk ip) (i_sb ip) cs q = b q" by (auto simp: synced_def)
      then show ?thesis using p(7) q(1,3) disk_page_nth [of "disk ip" sb' "cs @ ns" q] file_byte_grows [OF p(4), of "disk ip" q] H(1)
        by (auto simp: volume_inv_def)
    qed
    ultimately show ?thesis
      using p none False by (intro exI [of _ m1] exI [of _ sb'] exI [of _ fi'] exI [of _ ns] exI [of _ page]) simp
  qed
qed

text \<open>The missing page is not read from disk.\<close>

definition skips_read :: "nat \<Rightarrow> nat \<Rightarrow> nat \<Rightarrow> bool" where
  "skips_read rest off isize \<longleftrightarrow> WRITE_FULL_PAGE rest \<or> OUT_FILE (off mod PGSIZE) (isize mod PGSIZE)"

definition same_inode :: "cinode \<Rightarrow> cinode \<Rightarrow> bool" where
  "same_inode ip ip' \<longleftrightarrow> disk ip' = disk ip \<and> i_size ip' = i_size ip \<and> i_mode ip' = i_mode ip \<and> i_writeback ip' = i_writeback ip"

lemma write_page_ok:
  fixes off r n :: nat
  assumes h: "holds ip cs b e" and kz: "\<And>i k. kz i k \<noteq> 0" and off: "off \<le> e" "r < n" and isz: "io = isize mod PGSIZE"
    and len: "len = min (n - r) (PGSIZE - off mod PGSIZE)" and bytes: "bytes = src r len" "length bytes = len"
    and s: "space (i_sb ip) cs E" "Suc (off div PGSIZE) * PGSIZE \<le> E" "Suc (off div PGSIZE) * PGSIZE < 2 ^ 32"
  shows "\<exists>ip' ns. write_page kz src n io ip off r = Some (ip', True) \<and> grows (i_sb ip) cs ns (i_sb ip') \<and> space (i_sb ip') (cs @ ns) E \<and> same_inode ip ip' \<and>
    (\<forall>i. cached ip' i \<longleftrightarrow> cached ip i \<or> i = off div PGSIZE) \<and> (\<forall>i. dirty ip' i \<longleftrightarrow> dirty ip i \<or> i = off div PGSIZE) \<and>
    (cached ip (off div PGSIZE) \<or> \<not> skips_read (n - r) off isize \<or> (\<forall>p<e. p div PGSIZE = off div PGSIZE \<longrightarrow> off \<le> p \<and> p < off + len) \<longrightarrow>
      holds ip' (cs @ ns) (overwrite b off bytes) (max e (off + len))) \<and>
    (\<not> cached ip (off div PGSIZE) \<and> skips_read (n - r) off isize \<longrightarrow>
      holds ip' (cs @ ns) (overwrite (\<lambda>p. if p div PGSIZE = off div PGSIZE then 0 else b p) off bytes) (max e (off + len)))"
proof -
  let ?i = "off div PGSIZE" and ?o = "off mod PGSIZE" and ?rd = "\<not> skips_read (n - r) off isize"
  have H: "cache_inv ip" using h by (simp add: holds_def)
  obtain m where m: "i_mapping ip = Some m" using h by (auto simp: holds_def)
  have inv: "rt_inv (page_tree m)" using H m by (simp add: cache_inv_def)
  obtain m1 sb' fi' ns page t it where p:
    "(if root_get (page_tree m) ?i = None then mpage_readpages kz ip ?i 1 ?rd True else Some ip) =
      Some (ip\<lparr>i_sb := sb', i_fat := fi', i_mapping := Some m1, i_pages := (i_pages ip)(?i := page)\<rparr>)"
    "radix_tree_tag_set (page_tree m1) ?i PAGECACHE_TAG_DIRTY = Some (t, it)" "dirtied m (m1\<lparr>page_tree := t\<rparr>) ?i"
    "stored sb' fi' (cs @ ns)" "grows (i_sb ip) cs ns sb'" "space sb' (cs @ ns) E" "length page = PGSIZE"
    "if cached ip ?i \<or> ?rd then \<forall>p<e. p div PGSIZE = ?i \<longrightarrow> page ! (p mod PGSIZE) = b p else page = replicate PGSIZE 0"
    using page_ready [where kz = kz and rd = ?rd, OF h m kz s] by (elim exE conjE) (rule that)
  define page' where "page' = take ?o page @ bytes @ drop (?o + length bytes) page"
  let ?ip = "ip\<lparr>i_sb := sb', i_fat := fi', i_mapping := Some (m1\<lparr>page_tree := t\<rparr>), i_pages := (i_pages ip)(?i := page')\<rparr>"
  have o: "?o < PGSIZE" by (simp add: PGSIZE_def)
  then have l: "0 < len" "?o + length bytes \<le> PGSIZE" using off(2) len bytes(2) by linarith+
  have w: "write_page kz src n io ip off r = Some (?ip, True)"
    unfolding write_page_def Let_def len [symmetric]
    by (simp only: m find_page [OF inv] Option.bind.simps isz p(1) [unfolded skips_read_def]) (simp add: p(2) page'_def bytes(1) [symmetric] bytes(2))
  note F = fill_nth [OF p(7) l(2), folded page'_def]
  have div: "p div PGSIZE = ?i" if "off \<le> p" "p < off + len" for p
  proof (rule page_div)
    have "?i * PGSIZE + ?o = off" by (rule div_mult_mod_eq)
    then show "?i * PGSIZE \<le> p" "p < Suc ?i * PGSIZE" using that l(2) bytes(2) unfolding mult_Suc by linarith+
  qed
  have holds: "holds ?ip (cs @ ns) (overwrite b2 off bytes) (max e (off + len))"
    if b2: "\<And>p. p < e \<Longrightarrow> p div PGSIZE = ?i \<Longrightarrow> \<not> (off \<le> p \<and> p < off + len) \<Longrightarrow> page ! (p mod PGSIZE) = b2 p" "\<And>p. p div PGSIZE \<noteq> ?i \<Longrightarrow> b2 p = b p" for b2
  proof (rule filled_holds [OF h m p(3-5)])
    show "length page' = PGSIZE" by (rule F(2)) simp
  next
    fix q
    assume q: "q < max e (off + len)" "q div PGSIZE = ?i"
    show "page' ! (q mod PGSIZE) = overwrite b2 off bytes q"
    proof (cases "off \<le> q \<and> q < off + len")
      case True
      then show ?thesis using F(1) [OF q(2)] bytes(2) by (simp add: overwrite_def)
    next
      case False
      then have "q < e" using q(1) off(1) by linarith
      then show ?thesis using F(1) [OF q(2)] bytes(2) False b2(1) [OF _ q(2)] by (auto simp: overwrite_def)
    qed
  next
    fix q
    assume q: "q < max e (off + len)" "q div PGSIZE \<noteq> ?i"
    then have "\<not> (off \<le> q \<and> q < off + len)" using div by blast
    then show "q < e \<and> overwrite b2 off bytes q = b q" using q off(1) b2(2) bytes(2) by (auto simp: overwrite_def)
  qed
  have C: "cached ?ip i \<longleftrightarrow> cached ip i \<or> i = ?i" "dirty ?ip i \<longleftrightarrow> dirty ip i \<or> i = ?i" for i
    using dirtied_cached [OF p(3) m _ H, of ?ip] by simp_all
  have "holds ?ip (cs @ ns) (overwrite b off bytes) (max e (off + len))"
    if "cached ip ?i \<or> ?rd \<or> (\<forall>p<e. p div PGSIZE = ?i \<longrightarrow> off \<le> p \<and> p < off + len)"
    using that p(8) by (intro holds) (auto split: if_splits)
  moreover have "holds ?ip (cs @ ns) (overwrite (\<lambda>p. if p div PGSIZE = ?i then 0 else b p) off bytes) (max e (off + len))"
    if "\<not> cached ip ?i \<and> \<not> ?rd"
    using that p(8) by (intro holds) (auto simp: PGSIZE_def)
  ultimately show ?thesis
    using w p(5,6) C by (intro exI [of _ ?ip] exI [of _ ns]) (simp add: same_inode_def)
qed

subsection \<open>The loop\<close>

lemma overwrite_append: "overwrite (overwrite b off xs) (off + length xs) ys = overwrite b off (xs @ ys)"
  by (auto simp: overwrite_def fun_eq_iff nth_append)

lemma page_end: "off < E \<Longrightarrow> PGSIZE dvd E \<Longrightarrow> Suc (off div PGSIZE) * PGSIZE \<le> E"
proof -
  assume "off < E" "PGSIZE dvd E"
  then obtain k where k: "E = PGSIZE * k" "off < PGSIZE * k" by (auto elim: dvdE)
  then have "off div PGSIZE < k" by (simp add: div_less_iff_less_mult mult.commute PGSIZE_def)
  then show ?thesis using k(1) by (metis Suc_leI mult.commute mult_le_mono1)
qed

lemma same_inode_trans: "same_inode ip ip1 \<Longrightarrow> same_inode ip1 ip2 \<Longrightarrow> same_inode ip ip2"
  by (simp add: same_inode_def)

definition source :: "byte list \<Rightarrow> nat \<Rightarrow> nat \<Rightarrow> byte list" where "source data p l = take l (drop p data)"

text \<open>The pages of the request.\<close>

definition touched :: "nat \<Rightarrow> nat \<Rightarrow> nat set" where "touched off k = {off div PGSIZE .. (off + k - 1) div PGSIZE}"

lemma touched_next:
  assumes "0 < len" "len < k" "len = PGSIZE - off mod PGSIZE"
  shows "touched off k = insert (off div PGSIZE) (touched (off + len) (k - len))" "(off + len) mod PGSIZE = 0"
proof -
  let ?i = "off div PGSIZE"
  have "?i * PGSIZE + off mod PGSIZE = off" by (rule div_mult_mod_eq)
  moreover have "off mod PGSIZE < PGSIZE" by (simp add: PGSIZE_def)
  ultimately have e: "off + len = Suc ?i * PGSIZE" using assms(3) unfolding mult_Suc by linarith
  then show "(off + len) mod PGSIZE = 0" by simp
  have d: "(off + len) div PGSIZE = Suc ?i" unfolding e by (simp add: PGSIZE_def)
  have "off + len + (k - len) - 1 = off + k - 1" using assms(2) by linarith
  moreover have "Suc ?i \<le> (off + k - 1) div PGSIZE" using assms(2) by (subst d [symmetric]) (intro div_le_mono, linarith)
  ultimately show "touched off k = insert ?i (touched (off + len) (k - len))" unfolding touched_def d by auto
qed

text \<open>What the loop keeps of the bytes: those of a page that is neither cached nor read are zero, unless the write starts at the start of the page.\<close>

definition kept :: "cinode \<Rightarrow> (nat \<Rightarrow> byte) \<Rightarrow> nat \<Rightarrow> nat \<Rightarrow> nat \<Rightarrow> (nat \<Rightarrow> byte)" where
  "kept ip b rest off isize =
     (if cached ip (off div PGSIZE) \<or> off mod PGSIZE = 0 \<or> \<not> skips_read rest off isize then b else (\<lambda>p. if p div PGSIZE = off div PGSIZE then 0 else b p))"

lemma write_loop_ok:
  assumes "holds ip cs b e" "\<And>i k. kz i k \<noteq> 0" "off \<le> e" "r < length data" "space (i_sb ip) cs E" "off + (length data - r) \<le> E" "PGSIZE dvd E" "E < 2 ^ 32"
  shows "\<exists>ip' ns. file_write_loop kz (source data) (length data) (isize mod PGSIZE) ip off r = Some (ip', int (length data)) \<and>
    holds ip' (cs @ ns) (overwrite (kept ip b (length data - r) off isize) off (drop r data)) (max e (off + (length data - r))) \<and> grows (i_sb ip) cs ns (i_sb ip') \<and> space (i_sb ip') (cs @ ns) E \<and>
    same_inode ip ip' \<and> (\<forall>i. cached ip' i \<longleftrightarrow> cached ip i \<or> i \<in> touched off (length data - r)) \<and>
    (\<forall>i. dirty ip' i \<longleftrightarrow> dirty ip i \<or> i \<in> touched off (length data - r))"
  using assms(1,3-6)
proof (induction "length data - r" arbitrary: ip cs b e off r rule: less_induct)
  case less
  define len where "len = min (length data - r) (PGSIZE - off mod PGSIZE)"
  let ?bytes = "source data r len" and ?i = "off div PGSIZE" and ?k = "length data - r"
  let ?b = "kept ip b ?k off isize"
  have len: "0 < len" "len \<le> ?k" using less.prems(3) by (auto simp: len_def PGSIZE_def)
  then have bytes: "length ?bytes = len" "?bytes @ drop (r + len) data = drop r data"
    by (simp_all add: source_def) (metis add.commute append_take_drop_id drop_drop)
  have E: "Suc ?i * PGSIZE \<le> E" using page_end [of off E] less.prems(3,5) assms(7) by auto
  have cov: "p < e \<longrightarrow> p div PGSIZE = ?i \<longrightarrow> off \<le> p \<and> p < off + len" if "skips_read ?k off isize" "off mod PGSIZE = 0" for p
  proof (intro impI)
    assume p: "p div PGSIZE = ?i"
    have "len = PGSIZE" using that by (simp add: skips_read_def WRITE_FULL_PAGE_def OUT_FILE_def len_def)
    moreover have "off = ?i * PGSIZE" "p = ?i * PGSIZE + p mod PGSIZE" using that(2) p by (metis add_0_right div_mult_mod_eq)+
    moreover have "p mod PGSIZE < PGSIZE" by (simp add: PGSIZE_def)
    ultimately show "off \<le> p \<and> p < off + len" by linarith
  qed
  obtain ip1 ns where w: "write_page kz (source data) (length data) (isize mod PGSIZE) ip off r = Some (ip1, True)" "grows (i_sb ip) cs ns (i_sb ip1)"
    "space (i_sb ip1) (cs @ ns) E" "same_inode ip ip1" "\<forall>i. cached ip1 i \<longleftrightarrow> cached ip i \<or> i = ?i" "\<forall>i. dirty ip1 i \<longleftrightarrow> dirty ip i \<or> i = ?i"
    "holds ip1 (cs @ ns) (overwrite ?b off ?bytes) (max e (off + len))"
    using write_page_ok [where kz = kz and src = "source data", OF less.prems(1) assms(2) less.prems(2,3) refl len_def refl bytes(1) less.prems(4) E]
      E assms(8) cov unfolding kept_def by (cases "cached ip ?i \<or> off mod PGSIZE = 0 \<or> \<not> skips_read ?k off isize") fastforce+
  show ?case
  proof (cases "r + len = length data")
    case True
    then have k: "?k = len" by simp
    have "touched off len = {?i}"
    proof -
      have "len \<le> PGSIZE - off mod PGSIZE" "off mod PGSIZE < PGSIZE" by (simp add: len_def, simp add: PGSIZE_def)
      then have "off + len - 1 < Suc ?i * PGSIZE" "?i * PGSIZE \<le> off + len - 1"
        using len(1) div_mult_mod_eq [of off PGSIZE] unfolding mult_Suc by linarith+
      then have "(off + len - 1) div PGSIZE = ?i" by (intro page_div)
      then show ?thesis by (simp add: touched_def)
    qed
    moreover have "file_write_loop kz (source data) (length data) (isize mod PGSIZE) ip off r = Some (ip1, int (length data))"
      by (subst file_write_loop.simps) (use True in \<open>simp add: w(1) Let_def len_def [symmetric]\<close>)
    moreover have "drop r data = ?bytes" using True bytes(2) by simp
    ultimately show ?thesis using w(2-7) k by (intro exI [of _ ip1] exI [of _ ns]) simp
  next
    case False
    then have l: "len = PGSIZE - off mod PGSIZE" "r + len < length data" "len < ?k"
      using less.prems(3) unfolding len_def by linarith+
    note T = touched_next [OF len(1) l(3,1)]
    have d: "?k - len = length data - (r + len)" by simp
    have p: "off + len \<le> max e (off + len)" "off + len + (length data - (r + len)) \<le> E" "length data - (r + len) < ?k"
      using l(2) len(1) less.prems(5) by auto
    have c: "kept ip1 b1 (length data - (r + len)) (off + len) isize = b1" for b1 using T(2) by (simp add: kept_def)
    obtain ip2 ms where r: "file_write_loop kz (source data) (length data) (isize mod PGSIZE) ip1 (off + len) (r + len) = Some (ip2, int (length data))"
      "holds ip2 ((cs @ ns) @ ms) (overwrite (overwrite ?b off ?bytes) (off + len) (drop (r + len) data)) (max (max e (off + len)) (off + len + (length data - (r + len))))"
      "grows (i_sb ip1) (cs @ ns) ms (i_sb ip2)" "space (i_sb ip2) ((cs @ ns) @ ms) E" "same_inode ip1 ip2"
      "\<forall>i. cached ip2 i \<longleftrightarrow> cached ip1 i \<or> i \<in> touched (off + len) (length data - (r + len))"
      "\<forall>i. dirty ip2 i \<longleftrightarrow> dirty ip1 i \<or> i \<in> touched (off + len) (length data - (r + len))"
      using less.hyps [OF p(3) w(7) p(1) l(2) w(3) p(2)] unfolding c by (elim exE conjE) (rule that)
    have "file_write_loop kz (source data) (length data) (isize mod PGSIZE) ip off r = Some (ip2, int (length data))"
      by (subst file_write_loop.simps) (use l(2) r(1) in \<open>simp add: w(1) Let_def len_def [symmetric]\<close>)
    moreover have "overwrite (overwrite ?b off ?bytes) (off + len) (drop (r + len) data) = overwrite ?b off (drop r data)"
      using overwrite_append [of ?b off ?bytes "drop (r + len) data"] bytes by simp
    moreover have "max (max e (off + len)) (off + len + (length data - (r + len))) = max e (off + ?k)" using l(2) by simp
    ultimately show ?thesis
      using r(2-7) w(5,6) grows_trans [OF w(2) r(3)] same_inode_trans [OF w(4) r(5)] T(1) d
      by (intro exI [of _ ip2] exI [of _ "ns @ ms"]) auto
  qed
qed

subsection \<open>Writes\<close>

text \<open>The fields the bytes of a file depend on.\<close>

definition same_view :: "cinode \<Rightarrow> cinode \<Rightarrow> bool" where
  "same_view ip ip' \<longleftrightarrow> i_sb ip' = i_sb ip \<and> i_fat ip' = i_fat ip \<and> i_mapping ip' = i_mapping ip \<and> i_pages ip' = i_pages ip \<and> disk ip' = disk ip"

lemma same_viewD:
  assumes "same_view ip ip'"
  shows "volume_inv ip' = volume_inv ip" "cache_inv ip' = cache_inv ip" "cached ip' = cached ip" "dirty ip' = dirty ip" "byte_at ip' = byte_at ip" "synced ip' = synced ip"
proof -
  have e: "i_sb ip' = i_sb ip" "i_fat ip' = i_fat ip" "i_mapping ip' = i_mapping ip" "i_pages ip' = i_pages ip" "disk ip' = disk ip"
    using assms by (simp_all add: same_view_def)
  show c: "cached ip' = cached ip" "volume_inv ip' = volume_inv ip" by (simp_all add: cached_def volume_inv_def fun_eq_iff e)
  then show b: "byte_at ip' = byte_at ip" "cache_inv ip' = cache_inv ip" "dirty ip' = dirty ip"
    by (simp_all add: byte_at_def cache_inv_def dirty_def fun_eq_iff e)
  then show "synced ip' = synced ip" by (simp add: synced_def fun_eq_iff e)
qed

lemma inode_write_steps:
  assumes "do_generic_file_write kz src (if i_mapping ip = None then fat32_i_mapping_init ip else ip) (unat off) (unat n) = Some (ip1, int (unat n))"
    and "S_ISREG (i_mode ip1) \<or> \<not> i_size ip < off + n" "off \<le> off + n" "n < 2 ^ 31"
  shows "\<exists>ip'. fat32_inode_write kz src ip off n = Some (ip', int (unat n)) \<and> same_view ip1 ip' \<and> i_dirty ip' \<and> i_mode ip' = i_mode ip1 \<and>
    i_writeback ip' = i_writeback ip1 \<and> i_size ip' = (if i_size ip < off + n then off + n else i_size ip1) \<and> (i_size ip < off + n \<longrightarrow> dirty_in_parent ip')"
proof -
  have "to_int (int (unat n)) = int (unat n)" using assms(4) by (intro to_int_small) (simp add: word_less_nat_alt)
  then have t: "to_int (uint n) = uint n" "uint n \<noteq> -1" by (simp_all add: order.strict_implies_not_eq [OF less_le_trans [OF _ uint_ge_0], symmetric])
  have "\<not> off + n < off" using assms(3) by (simp add: not_less)
  then show ?thesis
    using assms(1,2) unfolding fat32_inode_write_def Let_def by (auto simp: t same_view_def)
qed

text \<open>The end of the page that holds the last byte.\<close>

definition page_up :: "nat \<Rightarrow> nat" where "page_up e = (e + PGSIZE - 1) div PGSIZE * PGSIZE"

lemma page_up: "e \<le> page_up e" "PGSIZE dvd page_up e" "e \<le> 2 ^ 32 - PGSIZE \<Longrightarrow> page_up e < 2 ^ 32"
proof -
  have "(e + PGSIZE - 1) div PGSIZE * PGSIZE + (e + PGSIZE - 1) mod PGSIZE = e + PGSIZE - 1" "(e + PGSIZE - 1) mod PGSIZE < PGSIZE"
    by (rule div_mult_mod_eq) (simp add: PGSIZE_def)
  then show "e \<le> page_up e" "e \<le> 2 ^ 32 - PGSIZE \<Longrightarrow> page_up e < 2 ^ 32" unfolding page_up_def by (linarith, simp add: PGSIZE_def)
  show "PGSIZE dvd page_up e" by (simp add: page_up_def)
qed

lemma opened:
  assumes "file_inv ip cs" and "ip0 = (if i_mapping ip = None then fat32_i_mapping_init ip else ip)"
  shows "holds ip0 cs (byte_at ip cs) (unat (i_size ip))" "i_sb ip0 = i_sb ip" "same_inode ip ip0" "cached ip0 = cached ip" "dirty ip0 = dirty ip" "same_file ip cs ip0"
proof -
  have s: "same_file ip cs ip0" "cached ip0 = cached ip" using fresh_mapping [OF assms(1)] assms by (auto simp: same_file_def fun_eq_iff)
  then show "same_file ip cs ip0" "cached ip0 = cached ip" "dirty ip0 = dirty ip" "i_sb ip0 = i_sb ip" by (auto simp: same_file_def)
  show "holds ip0 cs (byte_at ip cs) (unat (i_size ip))" using s(1) by (auto simp: same_file_def holds_def file_inv_def)
  show "same_inode ip ip0" using assms(2) by (simp add: same_inode_def fat32_i_mapping_init_def)
qed

text \<open>From the loop to the invariant: every page of the request is dirty.\<close>

lemma written_inv:
  assumes h: "holds ip1 cs b (max e (off + k))" and v: "same_view ip1 ip'" and sz: "unat (i_size ip') = max e (off + k)" "max e (off + k) \<le> 2 ^ 32 - PGSIZE" "0 < k"
    and d: "\<forall>i. dirty ip1 i \<longleftrightarrow> dirty ip i \<or> i \<in> touched off k" "\<And>i. dirty ip i \<Longrightarrow> i * PGSIZE < e"
  shows "file_inv ip' cs" "p < max e (off + k) \<Longrightarrow> byte_at ip' cs p = b p"
proof -
  have "i * PGSIZE < max e (off + k)" if i: "i \<in> touched off k" for i
  proof -
    have "i * PGSIZE \<le> (off + k - 1) div PGSIZE * PGSIZE" using i unfolding touched_def by (intro mult_le_mono1) simp
    also have "\<dots> \<le> off + k - 1" by simp
    finally show ?thesis using sz(3) by linarith
  qed
  then show "file_inv ip' cs"
    using h sz d by (auto simp: file_inv_def holds_def same_viewD [OF v] less_max_iff_disj)
  show "p < max e (off + k) \<Longrightarrow> byte_at ip' cs p = b p" using h by (simp add: holds_def same_viewD [OF v])
qed

lemma inode_write_bytes:
  assumes "file_inv ip cs" "S_ISREG (i_mode ip) \<or> unat off + unat n \<le> unat (i_size ip)" "off \<le> i_size ip" "data \<noteq> []" "length data = unat n" "n < 2 ^ 31" "unat off + unat n \<le> 2 ^ 32 - PGSIZE"
    and "space (i_sb ip) cs (page_up (unat off + unat n))" "\<And>i k. kz i k \<noteq> 0"
  shows "\<exists>ip' ns. fat32_inode_write kz (source data) ip off n = Some (ip', int (unat n)) \<and> file_inv ip' (cs @ ns) \<and>
    unat (i_size ip') = max (unat (i_size ip)) (unat off + unat n) \<and>
    (\<forall>p<unat (i_size ip'). byte_at ip' (cs @ ns) p = overwrite (kept ip (byte_at ip cs) (unat n) (unat off) (unat (i_size ip))) (unat off) data p) \<and>
    grows (i_sb ip) cs ns (i_sb ip') \<and> space (i_sb ip') (cs @ ns) (page_up (unat off + unat n)) \<and> disk ip' = disk ip \<and> i_mode ip' = i_mode ip \<and>
    i_writeback ip' = i_writeback ip \<and> i_dirty ip' \<and> dirty ip' (unat off div PGSIZE) \<and>
    (i_size ip < i_size ip' \<longrightarrow> dirty_in_parent ip')"
proof -
  define ip0 where "ip0 = (if i_mapping ip = None then fat32_i_mapping_init ip else ip)"
  note O = opened [OF assms(1) ip0_def]
  let ?o = "unat off" and ?k = "unat n" and ?isz = "unat (i_size ip)" and ?E = "page_up (unat off + unat n)"
  note P = page_up(1,2) [of "?o + ?k"] page_up(3) [OF assms(7)]
  have k: "0 < length data" "0 < ?k" using assms(4) unfolding assms(5) [symmetric] by simp_all
  have isz: "?isz \<le> 2 ^ 32 - PGSIZE" "\<And>i. dirty ip i \<Longrightarrow> i * PGSIZE < ?isz" using assms(1) by (auto simp: file_inv_def)
  have kept: "kept ip0 = kept ip" using O(4) by (simp add: kept_def fun_eq_iff)
  obtain ip1 ns where w: "file_write_loop kz (source data) (length data) (?isz mod PGSIZE) ip0 ?o 0 = Some (ip1, int (length data))"
    "holds ip1 (cs @ ns) (overwrite (kept ip (byte_at ip cs) (length data - 0) ?o ?isz) ?o (drop 0 data)) (max ?isz (?o + (length data - 0)))"
    "grows (i_sb ip0) cs ns (i_sb ip1)" "space (i_sb ip1) (cs @ ns) ?E"
    "same_inode ip0 ip1" "\<forall>i. dirty ip1 i \<longleftrightarrow> dirty ip0 i \<or> i \<in> touched ?o (length data - 0)"
    using write_loop_ok [where kz = kz and isize = ?isz and r = 0 and off = ?o and data = data, OF O(1) assms(9) _ k(1) _ _ P(2,3)]
      assms(3,5,8) P(1) O(2) unfolding kept by (auto simp: word_le_nat_alt)
  have same: "same_inode ip ip1" using same_inode_trans [OF O(3) w(5)] .
  have g: "do_generic_file_write kz (source data) ip0 ?o ?k = Some (ip1, int ?k)"
    using w(1) assms(5) k O(3) by (simp add: do_generic_file_write_def same_inode_def)
  have ov: "off \<le> off + n" "unat (off + n) = ?o + ?k" using assms(7) by (auto simp: word_le_nat_alt unat_word_ariths PGSIZE_def)
  obtain ip' where r: "fat32_inode_write kz (source data) ip off n = Some (ip', int ?k)" "same_view ip1 ip'" "i_dirty ip'"
    "i_size ip' = (if i_size ip < off + n then off + n else i_size ip1)" "i_size ip < off + n \<longrightarrow> dirty_in_parent ip'" "i_mode ip' = i_mode ip1" "i_writeback ip' = i_writeback ip1"
    using inode_write_steps [OF g [unfolded ip0_def] _ ov(1) assms(6)] same assms(2) ov(2) by (auto simp: same_inode_def word_less_nat_alt)
  have sz: "unat (i_size ip') = max ?isz (?o + ?k)" using r(4) ov(2) same by (auto simp: same_inode_def word_less_nat_alt)
  have len: "length data - 0 = ?k" using assms(5) by simp
  have "max ?isz (?o + ?k) \<le> 2 ^ 32 - PGSIZE" using isz(1) assms(7) by simp
  note I = written_inv [OF w(2) [unfolded len] r(2) sz this k(2) w(6) [unfolded len O(5)] isz(2)]
  have "i_size ip < i_size ip' \<longrightarrow> dirty_in_parent ip'" using r(4,5) same by (auto simp: same_inode_def)
  moreover have "dirty ip' (?o div PGSIZE)"
    using w(6) len k(2) div_le_mono [of ?o "?o + ?k - 1" PGSIZE] by (simp add: same_viewD [OF r(2)] touched_def)
  ultimately show ?thesis
    using r I sz w(3,4) O(2) same by (intro exI [of _ ip'] exI [of _ ns]) (simp add: same_view_def same_inode_def)
qed

text \<open>C22. Writing a file: a write that starts inside the file or at its end stores the data at the offset, extends the file if it reaches beyond the end, and changes no
  other byte of the file, whichever pages are cached; clusters it allocates come from free ones, other files keep theirs, and nothing is written to disk yet.  This
  needs room on the volume, and that the first page is cached, or the offset is at its start, or the write is shorter than a page and the offset within the page is not
  beyond that of the end of the file.\<close>

theorem fat32_inode_write_correct:
  assumes "file_inv ip cs" "S_ISREG (i_mode ip)" "off \<le> i_size ip" "data \<noteq> []" "length data = unat n" "n < 2 ^ 31" "unat off + unat n \<le> 2 ^ 32 - PGSIZE"
    and "space (i_sb ip) cs (page_up (unat off + unat n))" "\<And>i k. kz i k \<noteq> 0"
    and "cached ip (unat off div PGSIZE) \<or> unat off mod PGSIZE = 0 \<or> unat n < PGSIZE \<and> unat off mod PGSIZE \<le> unat (i_size ip) mod PGSIZE"
  shows "\<exists>ip' ns. fat32_inode_write kz (source data) ip off n = Some (ip', int (unat n)) \<and> file_inv ip' (cs @ ns) \<and>
    unat (i_size ip') = max (unat (i_size ip)) (unat off + unat n) \<and>
    (\<forall>p<unat (i_size ip'). byte_at ip' (cs @ ns) p = (if unat off \<le> p \<and> p < unat off + unat n then data ! (p - unat off) else byte_at ip cs p)) \<and>
    grows (i_sb ip) cs ns (i_sb ip') \<and> disk ip' = disk ip \<and> i_dirty ip' \<and> (i_size ip < i_size ip' \<longrightarrow> dirty_in_parent ip')"
proof -
  have k: "kept ip (byte_at ip cs) (unat n) (unat off) (unat (i_size ip)) = byte_at ip cs"
    using assms(10) by (auto simp: kept_def skips_read_def WRITE_FULL_PAGE_def OUT_FILE_def)
  show ?thesis using inode_write_bytes [where kz = kz, OF assms(1) disjI1 [OF assms(2)] assms(3-9), unfolded k overwrite_def assms(5)] by blast
qed

text \<open>C39. In the remaining cases the write destroys data: if the page of the offset is not cached, the offset is not at its start, and the write has a page or more or
  the offset within the page is beyond that of the end of the file, the page is not read from disk and all its bytes in front of the offset become zero.\<close>

theorem write_loses_uncached_bytes:
  assumes "file_inv ip cs" "S_ISREG (i_mode ip)" "off \<le> i_size ip" "data \<noteq> []" "length data = unat n" "n < 2 ^ 31" "unat off + unat n \<le> 2 ^ 32 - PGSIZE"
    and "space (i_sb ip) cs (page_up (unat off + unat n))" "\<And>i k. kz i k \<noteq> 0"
    and "\<not> cached ip (unat off div PGSIZE)" "unat off mod PGSIZE \<noteq> 0" "PGSIZE \<le> unat n \<or> unat (i_size ip) mod PGSIZE < unat off mod PGSIZE"
  shows "\<exists>ip' ns. fat32_inode_write kz (source data) ip off n = Some (ip', int (unat n)) \<and> file_inv ip' (cs @ ns) \<and>
    (\<forall>p<unat off. p div PGSIZE = unat off div PGSIZE \<longrightarrow> byte_at ip' (cs @ ns) p = 0)"
proof -
  have k: "kept ip (byte_at ip cs) (unat n) (unat off) (unat (i_size ip)) = (\<lambda>p. if p div PGSIZE = unat off div PGSIZE then 0 else byte_at ip cs p)"
    using assms(10-12) by (auto simp: kept_def skips_read_def WRITE_FULL_PAGE_def OUT_FILE_def)
  obtain ip' ns where w: "fat32_inode_write kz (source data) ip off n = Some (ip', int (unat n))" "file_inv ip' (cs @ ns)"
    "unat (i_size ip') = max (unat (i_size ip)) (unat off + unat n)"
    "\<forall>p<unat (i_size ip'). byte_at ip' (cs @ ns) p = overwrite (\<lambda>p. if p div PGSIZE = unat off div PGSIZE then 0 else byte_at ip cs p) (unat off) data p"
    using inode_write_bytes [where kz = kz, OF assms(1) disjI1 [OF assms(2)] assms(3-9), unfolded k] by (elim exE conjE) (rule that)
  have "unat off \<le> unat (i_size ip')" using assms(3) w(3) by (simp add: word_le_nat_alt)
  then show ?thesis using w by (intro exI [of _ ip'] exI [of _ ns]) (auto simp: overwrite_def)
qed

subsection \<open>Concrete instances\<close>

text \<open>A volume with clusters of one page, and a file of \<open>sz\<close> bytes on its clusters 2 and 3, whose bytes are the numbers of the sectors.\<close>

definition page_vol :: fatfs where "page_vol = (demo_vol [2, 3])\<lparr>sector_size := 4096\<rparr>"

definition page_file :: "uint \<Rightarrow> cinode" where
  "page_file sz = demo_cinode\<lparr>i_sb := page_vol, i_size := sz, disk := (\<lambda>s. replicate 4096 (word_of_nat s))\<rparr>"

lemma page_vol_same: "FAT_CLUSTER_MAX page_vol = 70" "fat_table page_vol = fat_table (demo_vol [2, 3])" "bit_map page_vol = bit_map (demo_vol [2, 3])"
  "sectors_per_block page_vol = 1" "sector_size page_vol = 4096" "free_count page_vol = 60" "file_sectors page_vol [2, 3] = [21, 22]"
proof -
  show m: "FAT_CLUSTER_MAX page_vol = 70" using demo_vol_max [of "[2, 3]"] by (simp add: page_vol_def FAT_CLUSTER_MAX_def FirstDataSector_def)
  show "file_sectors page_vol [2, 3] = [21, 22]"
    using demo_sectors by (simp add: page_vol_def file_sectors_def FirstSectorofCluster_def FirstDataSector_def)
qed (simp_all add: page_vol_def del: demo_vol_simps(7))

lemma page_file_simps [simp]: "i_sb (page_file sz) = page_vol" "i_size (page_file sz) = sz" "i_mode (page_file sz) = 0x81FF" "\<not> cached (page_file sz) i"
  by (simp_all add: page_file_def demo_cinode_def cached_def)

lemma page_file_bytes: "p < 8192 \<Longrightarrow> byte_at (page_file sz) [2, 3] p = (if p < 4096 then 21 else 22)"
proof -
  assume p: "p < 8192"
  have "file_bytes (disk (page_file sz)) page_vol [2, 3] = replicate 4096 21 @ replicate 4096 22"
    by (simp add: file_bytes_def page_vol_same page_file_def)
  then show ?thesis using p by (simp add: byte_at_def file_byte_def nth_append cluster_size_def page_vol_same)
qed

lemma page_file_inv: "sz \<le> 8192 \<Longrightarrow> file_inv (page_file sz) [2, 3]"
proof -
  assume sz: "sz \<le> 8192"
  have a: "chain page_vol c cs = chain (demo_vol [2, 3]) c cs" for c cs
    by (induction cs arbitrary: c) (simp_all add: page_vol_same valid_cluster_def del: demo_vol_simps)
  have s: "stored page_vol (demo_file [2, 3]) [2, 3]"
    using demo_stored(1) a unfolding stored_def file_ok_def by (simp add: page_vol_same valid_cluster_def del: demo_vol_simps)
  have v: "volume_ok page_vol" "bitmap_ok page_vol"
    using demo_volume_ok [of "[2, 3]"] demo_bitmap_ok [of "[2, 3]"] by (simp_all add: volume_ok_def bitmap_ok_def page_vol_same) (simp add: page_vol_def)
  have "volume_inv (page_file sz) [2, 3]"
    using s v by (simp add: volume_inv_def page_vol_same PGSIZE_def) (simp add: page_file_def demo_cinode_def page_vol_same)
  moreover have "unat sz \<le> 8192" using sz by (simp add: word_le_nat_alt)
  moreover have "i_mapping (page_file sz) = None" by (simp add: page_file_def demo_cinode_def)
  ultimately show ?thesis by (intro clean_inv) (simp_all add: cluster_size_def page_vol_same PGSIZE_def)
qed

lemma page_vol_space: "e \<le> 12288 \<Longrightarrow> space page_vol [2, 3] e"
proof -
  assume "e \<le> 12288"
  then have "clusters_for page_vol e \<le> 3" by (simp add: clusters_for_def page_vol_same div_le_mono [where n = 16383 and k = 4096, simplified])
  moreover have "room 1 page_vol"
    using demo_free [of "[2, 3]"] unfolding room_def free_cluster_def
    by (auto simp: page_vol_same intro!: exI [of _ "{4 :: nat}"] demo_marks(6)) (auto simp: candidates_def)
  ultimately show ?thesis by (auto simp: space_def MAX_INDEX_1_def N_DIRECT_def N_INDIRECT_def N_LEVEL_ONE_def intro: room_weaken)
qed

theorem fat32_inode_write_correct_witness:
  "\<exists>ip' ns. fat32_inode_write (\<lambda>i k. 0x80000000) (source [1, 2, 3, 4]) (page_file 8190) 8190 4 = Some (ip', 4) \<and> file_inv ip' ([2, 3] @ ns) \<and>
    unat (i_size ip') = 8194 \<and> byte_at ip' ([2, 3] @ ns) 8189 = 22 \<and> byte_at ip' ([2, 3] @ ns) 8193 = 4"
proof -
  have "\<exists>ip' ns. fat32_inode_write (\<lambda>i k. 0x80000000) (source [1, 2, 3, 4]) (page_file 8190) 8190 4 = Some (ip', int (unat (4 :: 32 word))) \<and> file_inv ip' ([2, 3] @ ns) \<and>
    unat (i_size ip') = max (unat (i_size (page_file 8190))) (unat (8190 :: 32 word) + unat (4 :: 32 word)) \<and>
    (\<forall>p<unat (i_size ip'). byte_at ip' ([2, 3] @ ns) p = (if unat (8190 :: 32 word) \<le> p \<and> p < unat (8190 :: 32 word) + unat (4 :: 32 word)
       then [1, 2, 3, 4] ! (p - unat (8190 :: 32 word)) else byte_at (page_file 8190) [2, 3] p)) \<and>
    grows (i_sb (page_file 8190)) [2, 3] ns (i_sb ip') \<and> disk ip' = disk (page_file 8190) \<and> i_dirty ip' \<and> (i_size (page_file 8190) < i_size ip' \<longrightarrow> dirty_in_parent ip')"
    by (rule fat32_inode_write_correct) (simp_all add: page_file_inv page_vol_space page_up_def PGSIZE_def S_ISREG_def S_IFMT_def)
  then obtain ip' ns where w: "fat32_inode_write (\<lambda>i k. 0x80000000) (source [1, 2, 3, 4]) (page_file 8190) 8190 4 = Some (ip', 4)" "file_inv ip' ([2, 3] @ ns)"
    "unat (i_size ip') = 8194" "\<forall>p<8194. byte_at ip' ([2, 3] @ ns) p = (if 8190 \<le> p then [1, 2, 3, 4] ! (p - 8190) else byte_at (page_file 8190) [2, 3] p)"
    by auto
  then show ?thesis by (intro exI [of _ ip'] exI [of _ ns]) (simp add: page_file_bytes)
qed

theorem write_loses_uncached_bytes_witness:
  "byte_at (page_file 4098) [2, 3] 99 = 21 \<and>
   (\<exists>ip' ns. fat32_inode_write (\<lambda>i k. 0x80000000) (source [1]) (page_file 4098) 100 1 = Some (ip', 1) \<and> byte_at ip' ([2, 3] @ ns) 99 = 0)"
proof -
  have "\<exists>ip' ns. fat32_inode_write (\<lambda>i k. 0x80000000) (source [1]) (page_file 4098) 100 1 = Some (ip', int (unat (1 :: 32 word))) \<and> file_inv ip' ([2, 3] @ ns) \<and>
    (\<forall>p<unat (100 :: 32 word). p div PGSIZE = unat (100 :: 32 word) div PGSIZE \<longrightarrow> byte_at ip' ([2, 3] @ ns) p = 0)"
    by (rule write_loses_uncached_bytes) (simp_all add: page_file_inv page_vol_space page_up_def PGSIZE_def S_ISREG_def S_IFMT_def)
  then obtain ip' ns where "fat32_inode_write (\<lambda>i k. 0x80000000) (source [1]) (page_file 4098) 100 1 = Some (ip', 1)"
    "\<forall>p<100. p div PGSIZE = 0 \<longrightarrow> byte_at ip' ([2, 3] @ ns) p = 0" by (auto simp: PGSIZE_def)
  then show ?thesis by (intro conjI exI [of _ ip'] exI [of _ ns]) (simp_all add: page_file_bytes PGSIZE_def)
qed

end
