(* ===== verification/FileSync.thy ===== *)
theory FileSync
  imports FileWrite
begin

text \<open>
  Write-back: \<open>mpage_writepage\<close> of \<open>src/fs/mpage.c\<close> brings the dirty pages of a file to the clusters of the file on disk, which it extends if necessary.
\<close>

subsection \<open>Sectors of different clusters\<close>

lemma cluster_sector:
  assumes "volume_ok sb" "valid_cluster sb (unat c)"
  shows "s \<in> {FirstSectorofCluster sb (unat c) ..< FirstSectorofCluster sb (unat c) + sectors_per_block sb} \<longleftrightarrow>
    FirstDataSector sb \<le> s \<and> (s - FirstDataSector sb) div sectors_per_block sb + 2 = unat c"
proof -
  let ?k = "sectors_per_block sb" and ?f = "FirstDataSector sb"
  have k: "0 < ?k" using assms(1) by (simp add: volume_ok_def)
  obtain n where n: "unat c = n + 2" using assms(2) unfolding valid_cluster_def by (metis add.commute le_Suc_ex)
  have "(s - ?f) div ?k = n \<longleftrightarrow> n * ?k \<le> s - ?f \<and> s - ?f < n * ?k + ?k"
    using k by (metis add.commute div_nat_eqI dividend_less_times_div mult.commute mult_Suc times_div_less_eq_dividend)
  moreover have "s \<in> {n * ?k + ?f ..< n * ?k + ?f + ?k} \<longleftrightarrow> ?f \<le> s \<and> n * ?k \<le> s - ?f \<and> s - ?f < n * ?k + ?k"
    unfolding atLeastLessThan_iff by linarith
  ultimately show ?thesis unfolding FirstSectorofCluster_def n by simp
qed

lemma sectors_distinct:
  assumes "volume_ok sb"
  shows "\<forall>c\<in>set cs. valid_cluster sb (unat c) \<Longrightarrow> distinct cs \<Longrightarrow> distinct (file_sectors sb cs)"
    "\<forall>c\<in>set cs \<union> set ds. valid_cluster sb (unat c) \<Longrightarrow> set cs \<inter> set ds = {} \<Longrightarrow> set (file_sectors sb cs) \<inter> set (file_sectors sb ds) = {}"
proof -
  have one: "c = d" if "valid_cluster sb (unat c)" "valid_cluster sb (unat d)"
    "s \<in> {FirstSectorofCluster sb (unat c) ..< FirstSectorofCluster sb (unat c) + sectors_per_block sb}"
    "s \<in> {FirstSectorofCluster sb (unat d) ..< FirstSectorofCluster sb (unat d) + sectors_per_block sb}" for c d :: FAT_entry_t and s
    using that(3,4) cluster_sector [OF assms that(1)] cluster_sector [OF assms that(2)] by (simp add: word_unat_eq_iff)
  have set: "set (file_sectors sb cs) = (\<Union>c\<in>set cs. {FirstSectorofCluster sb (unat c) ..< FirstSectorofCluster sb (unat c) + sectors_per_block sb})" for cs
    by (simp add: file_sectors_def)
  show two: "set (file_sectors sb cs) \<inter> set (file_sectors sb ds) = {}"
    if "\<forall>c\<in>set cs \<union> set ds. valid_cluster sb (unat c)" "set cs \<inter> set ds = {}" for cs ds
    using that one unfolding set by blast
  show "\<forall>c\<in>set cs. valid_cluster sb (unat c) \<Longrightarrow> distinct cs \<Longrightarrow> distinct (file_sectors sb cs)"
  proof (induction cs)
    case (Cons c cs)
    have "set (file_sectors sb [c]) \<inter> set (file_sectors sb cs) = {}" using Cons.prems by (intro two) auto
    then show ?case using Cons by (simp add: file_sectors_Cons) (simp add: file_sectors_def)
  qed (simp add: file_sectors_def)
qed

subsection \<open>Blocks written to disk\<close>

lemma submit_write_ok:
  assumes "distinct (blocks_of vs)" "length mem = length (blocks_of vs) * bs"
  shows "j < length (blocks_of vs) \<Longrightarrow> submit_write bs d vs mem (blocks_of vs ! j) = take bs (drop (j * bs) mem)"
    "s \<notin> set (blocks_of vs) \<Longrightarrow> submit_write bs d vs mem s = d s"
  using assms
proof (induction bs d vs mem arbitrary: j s rule: submit_write.induct)
  case (2 bs d b l vs mem)
  let ?d = "\<lambda>s. if b \<le> s \<and> s < b + l then take bs (drop ((s - b) * bs) mem) else d s"
  have B: "blocks_of ((b, l) # vs) = [b ..< b + l] @ blocks_of vs" by (simp add: blocks_of_def)
  {
    case 1
    have len: "length (drop (l * bs) mem) = length (blocks_of vs) * bs" "distinct (blocks_of vs)" using 1 by (simp_all add: B add_mult_distrib)
    show ?case
    proof (cases "j < l")
      case True
      then have e: "blocks_of ((b, l) # vs) ! j = b + j" by (simp add: B nth_append)
      have "b + j \<in> {b ..< b + l}" using True by simp
      then have "b + j \<notin> set (blocks_of vs)" using 1(2) unfolding B by (auto simp del: atLeastLessThan_iff)
      then show ?thesis using "2.IH"(2) [OF _ len(2,1)] True unfolding e by simp
    next
      case False
      then have e: "blocks_of ((b, l) # vs) ! j = blocks_of vs ! (j - l)" "j - l < length (blocks_of vs)" using 1(1) by (simp_all add: B nth_append)
      have "(j - l) * bs + l * bs = j * bs" using False by (metis add_mult_distrib le_add_diff_inverse2 not_less)
      then show ?thesis using "2.IH"(1) [OF e(2) len(2,1)] unfolding e by simp
    qed
  next
    case 2
    have len: "length (drop (l * bs) mem) = length (blocks_of vs) * bs" "distinct (blocks_of vs)" using 2 by (simp_all add: B add_mult_distrib)
    show ?case using "2.IH"(2) [OF _ len(2,1)] 2(1) by (auto simp: B)
  }
qed (simp_all add: blocks_of_def)

lemma file_byte_sector:
  assumes "\<And>s. length (d s) = sector_size sb" "p < length cs * cluster_size sb"
  shows "file_byte d sb cs p = d (file_sectors sb cs ! (p div sector_size sb)) ! (p mod sector_size sb)"
    "p div sector_size sb < length (file_sectors sb cs)"
proof -
  have l: "p < length (file_sectors sb cs) * sector_size sb" using assms(2) by (simp add: file_sectors_length cluster_size_def mult.assoc)
  then show "p div sector_size sb < length (file_sectors sb cs)" by (simp add: less_mult_imp_div_less)
  show "file_byte d sb cs p = d (file_sectors sb cs ! (p div sector_size sb)) ! (p mod sector_size sb)"
    using assms concat_blocks_nth [of "file_sectors sb cs" d "sector_size sb" p] l by (simp add: file_byte_def file_bytes_def)
qed

lemma region_nth:
  assumes "\<And>i. index \<le> i \<Longrightarrow> i < index + k \<Longrightarrow> length (i_pages ip i) = PGSIZE"
  shows "length (region ip index k) = k * PGSIZE"
    "p div PGSIZE \<in> {index ..< index + k} \<Longrightarrow> region ip index k ! (p - index * PGSIZE) = i_pages ip (p div PGSIZE) ! (p mod PGSIZE)"
proof -
  have l: "length (i_pages ip i) = PGSIZE" if "i \<in> set [index ..< index + k]" for i using assms that by simp
  show "length (region ip index k) = k * PGSIZE" using concat_blocks_length [of "[index ..< index + k]" "i_pages ip" PGSIZE] l by (simp add: region_def)
  assume p: "p div PGSIZE \<in> {index ..< index + k}"
  let ?q = "p - index * PGSIZE"
  have e: "p = p div PGSIZE * PGSIZE + p mod PGSIZE" by simp
  have "index * PGSIZE \<le> p div PGSIZE * PGSIZE" using p by (intro mult_le_mono1) simp
  then have q: "?q = (p div PGSIZE - index) * PGSIZE + p mod PGSIZE" using e by (simp add: diff_mult_distrib)
  have m: "p mod PGSIZE < PGSIZE" by (simp add: PGSIZE_def)
  have D: "?q div PGSIZE = p div PGSIZE - index" "?q mod PGSIZE = p mod PGSIZE" using q m by simp_all
  have "Suc (p div PGSIZE - index) * PGSIZE \<le> k * PGSIZE" using p by (intro mult_le_mono1) auto
  then have "?q < k * PGSIZE" unfolding q mult_Suc using m by linarith
  then have "?q < length [index ..< index + k] * PGSIZE" by simp
  then show "region ip index k ! ?q = i_pages ip (p div PGSIZE) ! (p mod PGSIZE)"
    using concat_blocks_nth [of "[index ..< index + k]" "i_pages ip" PGSIZE ?q] l p unfolding region_def D by simp
qed

text \<open>Pages \<open>S\<close> of a file are saved: their bytes are in the clusters \<open>cs'\<close>, the others are as before, and no sector outside the file has changed.\<close>

definition saved :: "cinode \<Rightarrow> FAT_entry_t list \<Rightarrow> nat set \<Rightarrow> cinode \<Rightarrow> FAT_entry_t list \<Rightarrow> bool" where
  "saved ip cs S ip' cs' \<longleftrightarrow>
     (\<forall>p. p div PGSIZE \<in> S \<longrightarrow> p < length cs' * cluster_size (i_sb ip') \<and> file_byte (disk ip') (i_sb ip') cs' p = i_pages ip (p div PGSIZE) ! (p mod PGSIZE)) \<and>
     (\<forall>p<length cs * cluster_size (i_sb ip). p div PGSIZE \<notin> S \<longrightarrow> file_byte (disk ip') (i_sb ip') cs' p = file_byte (disk ip) (i_sb ip) cs p) \<and>
     (\<forall>s. s \<notin> set (file_sectors (i_sb ip') cs') \<longrightarrow> disk ip' s = disk ip s)"

lemma aligned_range:
  fixes p a k ss pg :: nat
  assumes "0 < ss" "ss dvd pg" "0 < pg"
  shows "p div pg \<in> {a ..< a + k} \<longleftrightarrow> p div ss \<in> {a * pg div ss ..< a * pg div ss + k * pg div ss}"
proof -
  obtain q where q: "pg = q * ss" using assms(2) by (metis dvd_def mult.commute)
  have "0 < q" using assms(3) q by (cases q) auto
  have d: "p div pg = p div ss div q" unfolding q by (metis div_mult2_eq mult.commute)
  have e: "a * pg div ss = a * q" "k * pg div ss = k * q" using assms(1) unfolding q by (simp_all flip: mult.assoc)
  have "a \<le> p div ss div q \<longleftrightarrow> a * q \<le> p div ss" "p div ss div q < a + k \<longleftrightarrow> p div ss < (a + k) * q"
    using \<open>0 < q\<close> by (simp_all add: less_eq_div_iff_mult_less_eq div_less_iff_less_mult)
  then show ?thesis unfolding d e by (simp add: add_mult_distrib)
qed

lemma take_drop_blocks:
  assumes "distinct fs" "a + k \<le> length fs" "bl = take k (drop a fs)"
  shows "length bl = k" "t < length fs \<Longrightarrow> fs ! t \<in> set bl \<longleftrightarrow> t \<in> {a ..< a + k}" "a \<le> t \<Longrightarrow> t < a + k \<Longrightarrow> bl ! (t - a) = fs ! t" "distinct bl"
proof -
  show l: "length bl = k" "distinct bl" using assms by simp_all
  show n: "bl ! (t - a) = fs ! t" if "a \<le> t" "t < a + k" for t using that assms(2,3) by simp
  show "fs ! t \<in> set bl \<longleftrightarrow> t \<in> {a ..< a + k}" if t: "t < length fs"
  proof
    assume "fs ! t \<in> set bl"
    then obtain j where j: "j < k" "bl ! j = fs ! t" unfolding in_set_conv_nth l(1) by blast
    then have "fs ! (a + j) = fs ! t" using n [of "a + j"] by simp
    then show "t \<in> {a ..< a + k}" using nth_eq_iff_index_eq [OF assms(1)] j(1) t assms(2) by auto
  next
    assume "t \<in> {a ..< a + k}"
    then have "t - a < length bl" "bl ! (t - a) = fs ! t" using n [of t] l(1) by auto
    then show "fs ! t \<in> set bl" by (metis nth_mem)
  qed
qed

lemma stored_distinct: "volume_ok sb \<Longrightarrow> stored sb fi cs \<Longrightarrow> distinct cs \<and> (\<forall>c\<in>set cs. valid_cluster sb (unat c))"
  using chain_distinct unfolding stored_def file_ok_def by blast

text \<open>The memory of \<open>k\<close> pages written to the blocks of the file under them.\<close>

lemma submit_file:
  fixes ip :: cinode
  assumes dist: "distinct (file_sectors sb cs)" and D: "\<And>s. length (disk ip s) = sector_size sb" "sector_size sb dvd PGSIZE" "0 < sector_size sb"
    and le: "(index + k) * PGSIZE \<le> length cs * cluster_size sb" and pg: "\<And>i. index \<le> i \<Longrightarrow> i < index + k \<Longrightarrow> length (i_pages ip i) = PGSIZE"
    and vs: "blocks_of vs = take (k * PGSIZE div sector_size sb) (drop (index * PGSIZE div sector_size sb) (file_sectors sb cs))"
    and d': "d' = submit_write (sector_size sb) (disk ip) vs (region ip index k)"
  shows "length (d' s) = sector_size sb" "s \<notin> set (file_sectors sb cs) \<Longrightarrow> d' s = disk ip s"
    "p < length cs * cluster_size sb \<Longrightarrow>
      file_byte d' sb cs p = (if p div PGSIZE \<in> {index ..< index + k} then i_pages ip (p div PGSIZE) ! (p mod PGSIZE) else file_byte (disk ip) sb cs p)"
proof -
  let ?ss = "sector_size sb" and ?mem = "region ip index k" and ?fs = "file_sectors sb cs"
  define a where "a = index * PGSIZE div ?ss"
  define K where "K = k * PGSIZE div ?ss"
  have e: "a * ?ss = index * PGSIZE" "K * ?ss = k * PGSIZE" using D(2) by (simp_all add: a_def K_def)
  have "(a + K) * ?ss \<le> length ?fs * ?ss" using le e by (simp add: file_sectors_length cluster_size_def add_mult_distrib mult.assoc)
  then have "a + K \<le> length ?fs" using D(3) by simp
  note T = take_drop_blocks [OF dist this vs [folded a_def K_def]]
  have R: "length ?mem = k * PGSIZE" "p div PGSIZE \<in> {index ..< index + k} \<Longrightarrow> ?mem ! (p - index * PGSIZE) = i_pages ip (p div PGSIZE) ! (p mod PGSIZE)"
    using region_nth [of index k ip] pg by blast+
  have ml: "length ?mem = length (blocks_of vs) * ?ss" using R(1) T(1) e(2) by simp
  note W = submit_write_ok [OF T(4) ml, of _ "disk ip", folded d', unfolded T(1)]
  show ln: "length (d' s) = ?ss" for s
  proof (cases "s \<in> set (blocks_of vs)")
    case True
    then obtain j where j: "j < K" "s = blocks_of vs ! j" unfolding in_set_conv_nth T(1) by blast
    have "Suc j * ?ss \<le> K * ?ss" using j(1) by (intro mult_le_mono1) simp
    then show ?thesis using W(1) [OF j(1)] j(2) ml T(1) by simp
  qed (use W(2) D(1) in simp)
  show "s \<notin> set ?fs \<Longrightarrow> d' s = disk ip s" using W(2) [of s] vs by (metis in_set_dropD in_set_takeD)
  assume p: "p < length cs * cluster_size sb"
  let ?t = "p div ?ss"
  note F = file_byte_sector [where sb = sb and cs = cs and p = p, OF _ p]
  have t: "?t < length ?fs" using F(2) [of "disk ip"] D(1) by blast
  have fd: "file_byte d' sb cs p = d' (?fs ! ?t) ! (p mod ?ss)" using F(1) [of d'] ln by blast
  have iff: "p div PGSIZE \<in> {index ..< index + k} \<longleftrightarrow> ?t \<in> {a ..< a + K}"
    unfolding a_def K_def by (rule aligned_range [OF D(3,2)]) (simp add: PGSIZE_def)
  show "file_byte d' sb cs p = (if p div PGSIZE \<in> {index ..< index + k} then i_pages ip (p div PGSIZE) ! (p mod PGSIZE) else file_byte (disk ip) sb cs p)"
  proof (cases "?t \<in> {a ..< a + K}")
    case False
    then have "d' (?fs ! ?t) = disk ip (?fs ! ?t)" using W(2) T(2) [OF t] by blast
    then show ?thesis using False fd F(1) [of "disk ip"] D(1) unfolding iff by (simp del: atLeastLessThan_iff)
  next
    case True
    then have "?t - a < K" by auto
    then have "d' (?fs ! ?t) = take ?ss (drop ((?t - a) * ?ss) ?mem)" using W(1) [of "?t - a"] T(3) [of ?t] True by simp
    moreover have "(?t - a) * ?ss + p mod ?ss = p - index * PGSIZE"
    proof -
      have "a * ?ss \<le> ?t * ?ss" using True by (intro mult_le_mono1) simp
      then show ?thesis using div_mult_mod_eq [of p ?ss] unfolding e(1) [symmetric] diff_mult_distrib by linarith
    qed
    moreover have "(?t - a) * ?ss \<le> K * ?ss" using True by (intro mult_le_mono1) auto
    then have "(?t - a) * ?ss \<le> length ?mem" unfolding ml T(1) .
    ultimately have "file_byte d' sb cs p = ?mem ! (p - index * PGSIZE)" using fd D(3) by (simp add: nth_drop)
    then show ?thesis using True R(2) unfolding iff by (simp del: atLeastLessThan_iff)
  qed
qed

lemma rw_pages_write:
  assumes v: "volume_inv ip cs" and s: "space (i_sb ip) cs E" "0 < k" "(index + k) * PGSIZE \<le> E" "E < 2 ^ 32"
    and pg: "\<And>i. index \<le> i \<Longrightarrow> i < index + k \<Longrightarrow> length (i_pages ip i) = PGSIZE"
  shows "\<exists>sb' fi' ns d'. fat32_rw_pages True True ip index k = Some (ip\<lparr>i_sb := sb', i_fat := fi', disk := d'\<rparr>) \<and>
    volume_inv (ip\<lparr>i_sb := sb', i_fat := fi', disk := d'\<rparr>) (cs @ ns) \<and> grows (i_sb ip) cs ns sb' \<and> space sb' (cs @ ns) E \<and>
    saved ip cs {index ..< index + k} (ip\<lparr>i_sb := sb', i_fat := fi', disk := d'\<rparr>) (cs @ ns)"
proof -
  obtain sb' fi' vs ns where g: "fat32_get_block (i_sb ip) (i_fat ip) (index * PGSIZE) (k * PGSIZE) True = Some (sb', fi', vs, k * PGSIZE div sector_size sb')"
    "stored sb' fi' (cs @ ns)" "grows (i_sb ip) cs ns sb'" "space sb' (cs @ ns) E" "(index + k) * PGSIZE \<le> length (cs @ ns) * cluster_size sb'"
    "blocks_of vs = take (k * PGSIZE div sector_size sb') (drop (index * PGSIZE div sector_size sb') (file_sectors sb' (cs @ ns)))"
    using get_block_space [OF v s(1-3)] by (elim exE conjE) (rule that)
  let ?cs = "cs @ ns" and ?S = "{index ..< index + k}"
  define d' where "d' = submit_write (sector_size sb') (disk ip) vs (region ip index k)"
  let ?ip = "ip\<lparr>i_sb := sb', i_fat := fi', disk := d'\<rparr>"
  have G: "volume_ok sb'" "bitmap_ok sb'" "same_geometry (i_sb ip) sb'" using g(3) by (simp_all add: grows_def)
  note GD = same_geometryD [OF G(3)]
  have D: "\<And>s. length (disk ip s) = sector_size sb'" "sector_size sb' dvd PGSIZE" "0 < sector_size sb'"
    using v G(1) GD(4) by (simp_all add: volume_inv_def volume_ok_def)
  have "distinct (file_sectors sb' ?cs)" using sectors_distinct(1) [OF G(1)] stored_distinct [OF G(1) g(2)] by blast
  note F = submit_file [where ip = ip, OF this D g(5) pg g(6) d'_def]
  have in_file: "p < length ?cs * cluster_size sb'" if "p div PGSIZE \<in> ?S" for p
  proof -
    have "Suc (p div PGSIZE) * PGSIZE \<le> (index + k) * PGSIZE" using that by (intro mult_le_mono1) auto
    moreover have "p < Suc (p div PGSIZE) * PGSIZE" using dividend_less_div_times [of PGSIZE p] by (simp add: PGSIZE_def)
    ultimately show ?thesis using g(5) by linarith
  qed
  have "p < length ?cs * cluster_size sb' \<and> file_byte (disk ip) sb' ?cs p = file_byte (disk ip) (i_sb ip) cs p" if "p < length cs * cluster_size (i_sb ip)" for p
    using file_byte_grows [OF g(3) _ that, of "disk ip"] that D(1) GD(4,5) by (auto simp: cluster_size_def add_mult_distrib)
  then have "saved ip cs ?S ?ip ?cs" using F(2,3) in_file by (simp add: saved_def)
  moreover have "volume_inv ?ip ?cs" using v G g(2) F(1) GD(4) by (simp add: volume_inv_def)
  moreover have "fat32_rw_pages True True ip index k = Some ?ip"
  proof -
    have m: "index * PGSIZE mod 2 ^ 32 = index * PGSIZE" "k * PGSIZE mod 2 ^ 32 = k * PGSIZE" using s(3,4) by (simp_all add: add_mult_distrib)
    have r: "region (ip\<lparr>i_sb := sb', i_fat := fi'\<rparr>) index k = region ip index k" by (simp add: region_def)
    show ?thesis using g(1) D(2) unfolding fat32_rw_pages_def m Let_def by (simp add: r d'_def)
  qed
  ultimately show ?thesis using g(3,4) by (intro exI [of _ sb'] exI [of _ fi'] exI [of _ ns] exI [of _ d']) simp
qed

lemma saved_trans:
  assumes "saved ip cs S ip1 cs1" "saved ip1 cs1 T ip2 cs2" "i_pages ip1 = i_pages ip"
    "length cs * cluster_size (i_sb ip) \<le> length cs1 * cluster_size (i_sb ip1)" "length cs1 * cluster_size (i_sb ip1) \<le> length cs2 * cluster_size (i_sb ip2)"
    "set (file_sectors (i_sb ip1) cs1) \<subseteq> set (file_sectors (i_sb ip2) cs2)"
  shows "saved ip cs (S \<union> T) ip2 cs2"
proof -
  have "p < length cs2 * cluster_size (i_sb ip2) \<and> file_byte (disk ip2) (i_sb ip2) cs2 p = i_pages ip (p div PGSIZE) ! (p mod PGSIZE)"
    if "p div PGSIZE \<in> S \<union> T" for p
    using that assms unfolding saved_def by (cases "p div PGSIZE \<in> T") (auto intro: less_le_trans)
  moreover have "file_byte (disk ip2) (i_sb ip2) cs2 p = file_byte (disk ip) (i_sb ip) cs p"
    if "p < length cs * cluster_size (i_sb ip)" "p div PGSIZE \<notin> S \<union> T" for p
    using that assms unfolding saved_def by auto
  moreover have "disk ip2 s = disk ip s" if "s \<notin> set (file_sectors (i_sb ip2) cs2)" for s
    using that assms unfolding saved_def by auto
  ultimately show ?thesis by (simp add: saved_def)
qed

lemma grows_size:
  assumes "grows sb cs ns sb'"
  shows "length cs * cluster_size sb \<le> length (cs @ ns) * cluster_size sb'" "set (file_sectors sb cs) \<subseteq> set (file_sectors sb' (cs @ ns))" "cluster_size sb' = cluster_size sb"
proof -
  have g: "same_geometry sb sb'" using assms by (simp add: grows_def)
  show c: "cluster_size sb' = cluster_size sb" using same_geometryD(4,5) [OF g] by (simp add: cluster_size_def)
  show "length cs * cluster_size sb \<le> length (cs @ ns) * cluster_size sb'" "set (file_sectors sb cs) \<subseteq> set (file_sectors sb' (cs @ ns))"
    using c same_geometryD(3) [OF g] by (simp_all add: file_sectors_append add_mult_distrib)
qed

lemma batch_write:
  assumes "volume_inv ip cs" "distinct (map snd ps)" "space (i_sb ip) cs E" "E < 2 ^ 32"
    "\<And>i. i \<in> set (map snd ps) \<Longrightarrow> length (i_pages ip i) = PGSIZE \<and> Suc i * PGSIZE \<le> E"
  shows "\<exists>sb' fi' ns d'. fat32_rw_pages_batch True True ip ps = Some (ip\<lparr>i_sb := sb', i_fat := fi', disk := d'\<rparr>) \<and>
    volume_inv (ip\<lparr>i_sb := sb', i_fat := fi', disk := d'\<rparr>) (cs @ ns) \<and> grows (i_sb ip) cs ns sb' \<and> space sb' (cs @ ns) E \<and>
    saved ip cs (set (map snd ps)) (ip\<lparr>i_sb := sb', i_fat := fi', disk := d'\<rparr>) (cs @ ns)"
  using assms(1-3,5)
proof (induction "length ps" arbitrary: ip cs ps rule: less_induct)
  case less
  show ?case
  proof (cases ps)
    case Nil
    have "grows (i_sb ip) cs [] (i_sb ip)" using less.prems(1) by (intro grows_refl) (simp_all add: volume_inv_def)
    moreover have "saved ip cs {} ip cs" by (simp add: saved_def)
    ultimately show ?thesis
      using Nil less.prems(1,3) by (intro exI [of _ "i_sb ip"] exI [of _ "i_fat ip"] exI [of _ "[] :: FAT_entry_t list"] exI [of _ "disk ip"]) simp
  next
    case (Cons p qs)
    let ?b = "batch_size p qs"
    let ?S = "{snd p ..< snd p + Suc ?b}" and ?T = "set (map snd (drop ?b qs))"
    note B = batch_split [of p qs, folded Cons]
    have S: "i \<in> set (map snd ps)" if "snd p \<le> i" "i < snd p + Suc ?b" for i using that B(1) by simp
    have lim: "(snd p + Suc ?b) * PGSIZE \<le> E" using less.prems(4) [OF S [of "snd p + ?b"]] by simp
    obtain sb1 f1 ns1 d1 where r: "fat32_rw_pages True True ip (snd p) (Suc ?b) = Some (ip\<lparr>i_sb := sb1, i_fat := f1, disk := d1\<rparr>)"
      "volume_inv (ip\<lparr>i_sb := sb1, i_fat := f1, disk := d1\<rparr>) (cs @ ns1)" "grows (i_sb ip) cs ns1 sb1" "space sb1 (cs @ ns1) E"
      "saved ip cs ?S (ip\<lparr>i_sb := sb1, i_fat := f1, disk := d1\<rparr>) (cs @ ns1)"
      using rw_pages_write [OF less.prems(1,3) _ lim assms(4)] less.prems(4) S by auto
    let ?ip = "ip\<lparr>i_sb := sb1, i_fat := f1, disk := d1\<rparr>"
    have d: "distinct (map snd (drop ?b qs))" using less.prems(2) Cons by (metis distinct_drop drop_map list.simps(9) distinct.simps(2))
    have t: "length (i_pages ?ip i) = PGSIZE \<and> Suc i * PGSIZE \<le> E" if "i \<in> ?T" for i using less.prems(4) [of i] that B(1) by auto
    have sm: "length (drop ?b qs) < length ps" and sp: "space (i_sb ?ip) (cs @ ns1) E" using Cons r(4) by simp_all
    obtain sb2 f2 ns2 d2 where q: "fat32_rw_pages_batch True True ?ip (drop ?b qs) = Some (?ip\<lparr>i_sb := sb2, i_fat := f2, disk := d2\<rparr>)"
      "volume_inv (?ip\<lparr>i_sb := sb2, i_fat := f2, disk := d2\<rparr>) ((cs @ ns1) @ ns2)" "grows (i_sb ?ip) (cs @ ns1) ns2 sb2" "space sb2 ((cs @ ns1) @ ns2) E"
      "saved ?ip (cs @ ns1) ?T (?ip\<lparr>i_sb := sb2, i_fat := f2, disk := d2\<rparr>) ((cs @ ns1) @ ns2)"
      using less.hyps [OF sm r(2) d sp] t by blast
    have e: "?ip\<lparr>i_sb := sb2, i_fat := f2, disk := d2\<rparr> = ip\<lparr>i_sb := sb2, i_fat := f2, disk := d2\<rparr>" by simp
    have "saved ip cs (?S \<union> ?T) (?ip\<lparr>i_sb := sb2, i_fat := f2, disk := d2\<rparr>) ((cs @ ns1) @ ns2)"
      using grows_size [OF r(3)] grows_size [OF q(3)] by (intro saved_trans [OF r(5) q(5)]) simp_all
    moreover have "fat32_rw_pages_batch True True ip ps = fat32_rw_pages_batch True True ?ip (drop ?b qs)" using r(1) Cons by simp
    moreover have "grows (i_sb ip) cs (ns1 @ ns2) sb2" using grows_trans [OF r(3)] q(3) by simp
    ultimately show ?thesis
      using q(1,2,4) unfolding B(1) e by (intro exI [of _ sb2] exI [of _ f2] exI [of _ "ns1 @ ns2"] exI [of _ d2]) simp
  qed
qed

subsection \<open>Write-back of a file\<close>

lemma disjoint_kept:
  assumes g: "grows sb cs ns sb'" and v: "stored sb' fi (cs @ ns)" and o: "set (cs @ ns) \<inter> set ds = {}" "\<forall>c\<in>set ds. valid_cluster sb (unat c)"
    and k: "\<And>s. s \<notin> set (file_sectors sb' (cs @ ns)) \<Longrightarrow> dk' s = dk s"
  shows "file_bytes dk' sb' ds = file_bytes dk sb ds"
proof -
  have G: "volume_ok sb'" "same_geometry sb sb'" using g by (simp_all add: grows_def)
  have "\<forall>c\<in>set ds. valid_cluster sb' (unat c)" using o(2) same_geometryD(1) [OF G(2)] by (simp add: valid_cluster_def)
  then have "set (file_sectors sb' (cs @ ns)) \<inter> set (file_sectors sb' ds) = {}"
    using o(1) sectors_distinct(2) [OF G(1)] stored_distinct [OF G(1) v] by blast
  then have "map dk' (file_sectors sb' ds) = map dk (file_sectors sb' ds)" using k by (intro map_cong) auto
  then show ?thesis unfolding file_bytes_def same_geometryD(3) [OF G(2)] by (rule arg_cong)
qed

text \<open>After the dirty pages are saved every byte of the file is on disk.\<close>

lemma saved_synced:
  assumes f: "file_inv ip cs" and s: "saved ip cs {i. dirty ip i} ip' cs'" and g: "length cs * cluster_size (i_sb ip) \<le> length cs' * cluster_size (i_sb ip')"
    and p: "p < unat (i_size ip)"
  shows "p < length cs' * cluster_size (i_sb ip')" "file_byte (disk ip') (i_sb ip') cs' p = byte_at ip cs p"
proof -
  have "p < length cs' * cluster_size (i_sb ip') \<and> file_byte (disk ip') (i_sb ip') cs' p = byte_at ip cs p"
  proof (cases "dirty ip (p div PGSIZE)")
    case True
    then show ?thesis using s by (auto simp: saved_def byte_at_def dirty_def)
  next
    case False
    then have "synced ip cs p" using f p by (auto simp: file_inv_def)
    then show ?thesis using False s g by (auto simp: saved_def synced_def)
  qed
  then show "p < length cs' * cluster_size (i_sb ip')" "file_byte (disk ip') (i_sb ip') cs' p = byte_at ip cs p" by auto
qed

lemma dirty_list:
  assumes "rt_inv (page_tree m)" "i_mapping ip = Some m" "dirty ip j"
  shows "\<exists>calls. radix_tree_general_gang_lookup_elements (page_tree m) 0 UINT64_MAX (Some PAGECACHE_TAG_DIRTY) = Some calls \<and> 0 < length calls \<and>
    (rt_height (page_tree m) = 0 \<longrightarrow> length calls = 1) \<and> distinct (map fst calls) \<and> set (map fst calls) = {i. dirty ip i}"
    "\<not> (rt_height (page_tree m) = 0 \<and> rnode (page_tree m) = RNull)"
proof -
  let ?r = "page_tree m" and ?t = "Some PAGECACHE_TAG_DIRTY"
  let ?l = "filter (root_sel ?r ?t) [0 ..< 64 ^ rt_height ?r]"
  let ?calls = "map (\<lambda>j. (j, the (root_get ?r j))) ?l"
  have g: "radix_tree_general_gang_lookup_elements ?r 0 UINT64_MAX ?t = Some ?calls" using gang_ok [OF assms(1)] by (simp add: PAGECACHE_TAG_DIRTY_def)
  have l: "map fst ?calls = ?l" by (simp add: comp_def)
  have "root_get ?r i \<noteq> None \<Longrightarrow> i < 64 ^ rt_height ?r" for i by (auto simp: root_get_def split: if_splits)
  then have st: "set ?l = {i. dirty ip i}" using assms(2) by (auto simp: root_sel_def dirty_def cached_def)
  then have pos: "0 < length ?l" using assms(3) by (metis length_pos_if_in_set mem_Collect_eq)
  then have one: "rt_height ?r = 0 \<longrightarrow> length ?l = 1" by (cases "rt_height ?r = 0") (auto split: if_splits)
  show "\<exists>calls. radix_tree_general_gang_lookup_elements ?r 0 UINT64_MAX ?t = Some calls \<and> 0 < length calls \<and>
    (rt_height ?r = 0 \<longrightarrow> length calls = 1) \<and> distinct (map fst calls) \<and> set (map fst calls) = {i. dirty ip i}"
    using g pos one st by (intro exI [of _ ?calls] conjI) (simp_all only: l length_map distinct_filter distinct_upt simp_thms)
  have "root_get ?r j \<noteq> None" using assms(2,3) by (simp add: dirty_def cached_def)
  then show "\<not> (rt_height ?r = 0 \<and> rnode ?r = RNull)" by (auto simp: root_get_def split: if_splits)
qed

lemma writepage_ok:
  assumes "file_inv ip cs" "dirty ip j" "space (i_sb ip) cs (page_up (unat (i_size ip)))"
  shows "\<exists>ip' ns. mpage_writepage True ip = Some ip' \<and> (\<exists>sb' fi' d'. ip' = ip\<lparr>i_sb := sb', i_fat := fi', disk := d'\<rparr>) \<and> file_inv ip' (cs @ ns) \<and> grows (i_sb ip) cs ns (i_sb ip') \<and> i_size ip' = i_size ip \<and>
    (\<forall>p<unat (i_size ip). byte_at ip' (cs @ ns) p = byte_at ip cs p \<and> synced ip' (cs @ ns) p) \<and>
    (\<forall>d ds. chain (i_sb ip) d ds \<and> set (cs @ ns) \<inter> set ds = {} \<longrightarrow>
      chain (i_sb ip') d ds \<and> file_bytes (disk ip') (i_sb ip') ds = file_bytes (disk ip) (i_sb ip) ds) \<and>
    (\<forall>s. s \<notin> set (file_sectors (i_sb ip') (cs @ ns)) \<longrightarrow> disk ip' s = disk ip s) \<and>
    (\<forall>d ds. other_file (i_sb ip) cs d ds \<longrightarrow> file_bytes (disk ip') (i_sb ip') ds = file_bytes (disk ip) (i_sb ip) ds)"
proof -
  obtain m where m: "i_mapping ip = Some m" using assms(2) by (auto simp: dirty_def split: option.splits)
  have F: "volume_inv ip cs" "rt_inv (page_tree m)" "\<And>i. cached ip i \<Longrightarrow> length (i_pages ip i) = PGSIZE" "\<And>i. dirty ip i \<Longrightarrow> i * PGSIZE < unat (i_size ip)"
    "unat (i_size ip) \<le> 2 ^ 32 - PGSIZE" using assms(1) m by (auto simp: file_inv_def cache_inv_def)
  obtain calls where c: "radix_tree_general_gang_lookup_elements (page_tree m) 0 UINT64_MAX (Some PAGECACHE_TAG_DIRTY) = Some calls" "0 < length calls"
    "rt_height (page_tree m) = 0 \<longrightarrow> length calls = 1" "distinct (map fst calls)" "set (map fst calls) = {i. dirty ip i}"
    using dirty_list(1) [OF F(2) m assms(2)] by (elim exE conjE) (rule that)
  let ?ps = "map (\<lambda>(i, pa). (pa, i)) calls"
  have ps: "map snd ?ps = map fst calls" by (simp add: case_prod_unfold comp_def)
  have E: "Suc i * PGSIZE \<le> page_up (unat (i_size ip))" if "dirty ip i" for i
    using page_end [of "i * PGSIZE" "page_up (unat (i_size ip))"] F(4) [OF that] page_up(1) [of "unat (i_size ip)"] page_up(2) by (simp add: PGSIZE_def)
  have pg: "length (i_pages ip i) = PGSIZE" if "dirty ip i" for i using that F(3) by (simp add: dirty_def)
  obtain sb' fi' ns d' where b: "fat32_rw_pages_batch True True ip ?ps = Some (ip\<lparr>i_sb := sb', i_fat := fi', disk := d'\<rparr>)"
    "volume_inv (ip\<lparr>i_sb := sb', i_fat := fi', disk := d'\<rparr>) (cs @ ns)" "grows (i_sb ip) cs ns sb'"
    "saved ip cs {i. dirty ip i} (ip\<lparr>i_sb := sb', i_fat := fi', disk := d'\<rparr>) (cs @ ns)"
    using batch_write [OF F(1) c(4) [folded ps] assms(3) page_up(3) [OF F(5)], unfolded ps c(5)] pg E by blast
  let ?ip = "ip\<lparr>i_sb := sb', i_fat := fi', disk := d'\<rparr>"
  have w: "mpage_writepage True ip = Some ?ip"
    using m c(1-3) b(1) dirty_list(2) [OF F(2) m assms(2)] unfolding mpage_writepage_def by auto
  have C: "cached ?ip = cached ip" "dirty ?ip = dirty ip" by (simp_all add: cached_def dirty_def fun_eq_iff)
  have S: "p < length (cs @ ns) * cluster_size sb'" "file_byte d' sb' (cs @ ns) p = byte_at ip cs p" if "p < unat (i_size ip)" for p
    using saved_synced [OF assms(1) b(4) _ that] grows_size(1) [OF b(3)] by simp_all
  have by_at: "byte_at ?ip (cs @ ns) p = byte_at ip cs p" if "p < unat (i_size ip)" for p
    using S(2) [OF that] by (auto simp: byte_at_def C(1))
  have sy: "synced ?ip (cs @ ns) p" if "p < unat (i_size ip)" for p using S [OF that] by_at [OF that] by (simp add: synced_def)
  have "cache_inv ?ip" using assms(1) C(1) by (simp add: file_inv_def cache_inv_def)
  then have inv: "file_inv ?ip (cs @ ns)" using assms(1) b(2) C sy by (simp add: file_inv_def)
  have dk: "d' s = disk ip s" if "s \<notin> set (file_sectors sb' (cs @ ns))" for s using b(4) that by (auto simp: saved_def)
  have dj: "chain sb' d ds \<and> file_bytes d' sb' ds = file_bytes (disk ip) (i_sb ip) ds" if "chain (i_sb ip) d ds" "set (cs @ ns) \<inter> set ds = {}" for d ds
    using disjoint_kept [OF b(3) _ that(2), of fi' d' "disk ip"] grows_chain [OF b(3) that(2)] that(1) dk b(2) chain_valid [of "i_sb ip" d ds]
    by (auto simp: volume_inv_def)
  moreover have "set (cs @ ns) \<inter> set ds = {} \<and> chain (i_sb ip) d ds" if "other_file (i_sb ip) cs d ds" for d ds
    using that b(3) by (auto simp: other_file_def grows_def)
  ultimately have "file_bytes d' sb' ds = file_bytes (disk ip) (i_sb ip) ds" if "other_file (i_sb ip) cs d ds" for d ds using that by blast
  then show ?thesis using w inv b(3) by_at sy dj dk by (intro exI [of _ ?ip] exI [of _ ns]) auto
qed

text \<open>C23. Write-back: if a file has dirty pages and the volume has room, \<open>mpage_writepage\<close> returns, and then every byte of the file is on disk in the clusters of the file, which
  may have grown by clusters whose bit in the bitmap was not set.  What a reader sees is unchanged.  Nothing is written outside the sectors of the clusters the file has afterwards, so
  every chain that shares no cluster with these keeps its clusters and its bytes; among them is every other file all of whose clusters are marked in the bitmap
  (\<open>other_file\<close>).  Nothing is said of a file with an unmarked cluster that the growing file takes: mounting and truncation can leave such clusters in use.\<close>

theorem mpage_writepage_correct:
  assumes "file_inv ip cs" "dirty ip j" "space (i_sb ip) cs (page_up (unat (i_size ip)))"
  shows "\<exists>ip' ns. mpage_writepage True ip = Some ip' \<and> file_inv ip' (cs @ ns) \<and> grows (i_sb ip) cs ns (i_sb ip') \<and> i_size ip' = i_size ip \<and>
    (\<forall>p<unat (i_size ip). byte_at ip' (cs @ ns) p = byte_at ip cs p \<and> synced ip' (cs @ ns) p) \<and>
    (\<forall>d ds. chain (i_sb ip) d ds \<and> set (cs @ ns) \<inter> set ds = {} \<longrightarrow>
      chain (i_sb ip') d ds \<and> file_bytes (disk ip') (i_sb ip') ds = file_bytes (disk ip) (i_sb ip) ds) \<and>
    (\<forall>s. s \<notin> set (file_sectors (i_sb ip') (cs @ ns)) \<longrightarrow> disk ip' s = disk ip s) \<and>
    (\<forall>d ds. other_file (i_sb ip) cs d ds \<longrightarrow> file_bytes (disk ip') (i_sb ip') ds = file_bytes (disk ip) (i_sb ip) ds)"
  using writepage_ok [OF assms] by blast

subsection \<open>A concrete instance\<close>

text \<open>The file of 8190 bytes is extended by 4 bytes, which needs a third cluster, and written back.\<close>

lemma demo_written:
  "\<exists>ip ns. fat32_inode_write (\<lambda>i k. 0x80000000) (source [1, 2, 3, 4]) (page_file 8190) 8190 4 = Some (ip, 4) \<and> file_inv ip ([2, 3] @ ns) \<and>
    unat (i_size ip) = 8194 \<and> byte_at ip ([2, 3] @ ns) 8193 = 4 \<and> dirty ip 1 \<and> space (i_sb ip) ([2, 3] @ ns) (page_up 8194)"
proof -
  obtain ip ns where w: "fat32_inode_write (\<lambda>i k. 0x80000000) (source [1, 2, 3, 4]) (page_file 8190) 8190 4 = Some (ip, int (unat (4 :: 32 word)))" "file_inv ip ([2, 3] @ ns)"
    "unat (i_size ip) = max (unat (i_size (page_file 8190))) (unat (8190 :: 32 word) + unat (4 :: 32 word))" "dirty ip (unat (8190 :: 32 word) div PGSIZE)"
    "\<forall>p<unat (i_size ip). byte_at ip ([2, 3] @ ns) p = overwrite (kept (page_file 8190) (byte_at (page_file 8190) [2, 3]) (unat (4 :: 32 word)) (unat (8190 :: 32 word))
      (unat (i_size (page_file 8190)))) (unat (8190 :: 32 word)) [1, 2, 3, 4] p" "space (i_sb ip) ([2, 3] @ ns) (page_up (unat (8190 :: 32 word) + unat (4 :: 32 word)))"
    using inode_write_bytes [of "page_file 8190" "[2, 3]" 8190 4 "[1, 2, 3, 4]" "\<lambda>i k. 0x80000000"]
    by (auto simp: page_file_inv page_vol_space page_up_def PGSIZE_def S_ISREG_def S_IFMT_def)
  then show ?thesis by (intro exI [of _ ip] exI [of _ ns]) (simp add: overwrite_def PGSIZE_def)
qed

theorem mpage_writepage_correct_witness:
  "\<exists>ip1 ip2 cs. fat32_inode_write (\<lambda>i k. 0x80000000) (source [1, 2, 3, 4]) (page_file 8190) 8190 4 = Some (ip1, 4) \<and> mpage_writepage True ip1 = Some ip2 \<and>
    file_byte (disk ip2) (i_sb ip2) cs 8193 = 4"
proof -
  obtain ip ns where w: "fat32_inode_write (\<lambda>i k. 0x80000000) (source [1, 2, 3, 4]) (page_file 8190) 8190 4 = Some (ip, 4)" "file_inv ip ([2, 3] @ ns)"
    "unat (i_size ip) = 8194" "byte_at ip ([2, 3] @ ns) 8193 = 4" "dirty ip 1" "space (i_sb ip) ([2, 3] @ ns) (page_up 8194)"
    using demo_written by blast
  obtain ip' ms where m: "mpage_writepage True ip = Some ip'"
    "\<forall>p<unat (i_size ip). byte_at ip' (([2, 3] @ ns) @ ms) p = byte_at ip ([2, 3] @ ns) p \<and> synced ip' (([2, 3] @ ns) @ ms) p"
    using mpage_writepage_correct [OF w(2,5)] w(3,6) by auto
  have "byte_at ip' (([2, 3] @ ns) @ ms) 8193 = 4 \<and> synced ip' (([2, 3] @ ns) @ ms) 8193" using m(2) w(3,4) by simp
  then have "file_byte (disk ip') (i_sb ip') (([2, 3] @ ns) @ ms) 8193 = 4" unfolding synced_def by metis
  then show ?thesis using w(1) m(1) by blast
qed

end
