(* ===== verification/InodeSync.thy ===== *)
theory InodeSync
  imports FileSync
begin

text \<open>
  The directory entry of an inode and write-back of an inode: \<open>fat32_inode_load_from_disk\<close>, \<open>fat32_inode_update\<close> and \<open>fat32_i_mapping_writeback\<close> of
  \<open>src/fs/fat32/fat32_inode.c\<close>, and \<open>sync_inode\<close> of \<open>src/fs/fs-writeback.c\<close>.  An inode and its parent directory are two \<open>cinode\<close>s on one volume: what one call changes of
  the volume is carried over to the other by \<open>share\<close>.
\<close>

unbundle bit_operations_syntax

subsection \<open>State\<close>

text \<open>The fields of \<open>struct inode\<close> and of its part \<open>fat32_i\<close> that come from the directory entry; \<open>cluster_start\<close> is in \<open>finode\<close>.\<close>

record fat32_info =
  fname :: "byte list"
  f_Attr :: byte
  f_CrtTimeTenth :: byte
  f_CrtTime :: uint16
  f_CrtDate :: uint16
  f_LstAccDate :: uint16
  f_WrtTime :: uint16
  f_WrtDate :: uint16
  f_FileSize :: uint
  parent_off :: uint
  i_rdev :: uint16
  i_ino :: "64 word"
  i_valid :: bool

definition share :: "cinode \<Rightarrow> cinode \<Rightarrow> cinode" where "share v ip = ip\<lparr>i_sb := i_sb v, disk := disk v\<rparr>"

subsection \<open>Short entries\<close>

definition w32 :: "byte \<Rightarrow> byte \<Rightarrow> byte \<Rightarrow> byte \<Rightarrow> uint" where
  "w32 a b c d = ucast a OR push_bit 8 (ucast b) OR push_bit 16 (ucast c) OR push_bit 24 (ucast d)"

text \<open>A slot read through a pointer to \<open>dirent_s_t\<close>.\<close>

definition as_s :: "fcb \<Rightarrow> dirent_s_t" where
  "as_s s = \<lparr>DIR_Name = take 11 s, DIR_Attr = s ! 11, DIR_Dev = s ! 12, DIR_CrtTimeTenth = s ! 13, DIR_CrtTime = w16 (s ! 14) (s ! 15),
     DIR_CrtDate = w16 (s ! 16) (s ! 17), DIR_LstAccDate = w16 (s ! 18) (s ! 19), DIR_FstClusHI = w16 (s ! 20) (s ! 21), DIR_WrtTime = w16 (s ! 22) (s ! 23),
     DIR_WrtDate = w16 (s ! 24) (s ! 25), DIR_FstClusLO = w16 (s ! 26) (s ! 27), DIR_FileSize = w32 (s ! 28) (s ! 29) (s ! 30) (s ! 31)\<rparr>"

definition DIR_BOOL :: "byte \<Rightarrow> bool" where "DIR_BOOL x \<longleftrightarrow> x AND ATTR_DIRECTORY \<noteq> 0"
definition DIR_FIRST_CLUS :: "uint16 \<Rightarrow> uint16 \<Rightarrow> uint" where "DIR_FIRST_CLUS high low = push_bit 16 (ucast high) OR ucast low"
definition FATDEV_TO_IRDEV :: "byte \<Rightarrow> uint16" where
  "FATDEV_TO_IRDEV dev = push_bit 8 (drop_bit 2 (ucast dev AND 0xC)) OR (ucast dev AND 0x3)"
definition FATDEV_TO_ITYPE :: "byte \<Rightarrow> uint16" where "FATDEV_TO_ITYPE dev = push_bit 8 (ucast dev AND 0xF0)"
definition UNIQUE_INO :: "uint \<Rightarrow> uint \<Rightarrow> 64 word" where "UNIQUE_INO off start = push_bit 32 (ucast off) OR ucast start"
definition ROOT_INO :: "64 word" where "ROOT_INO = 2"
definition MAJOR :: "uint16 \<Rightarrow> uint16" where "MAJOR rdev = drop_bit 8 rdev AND 0xFF"
definition MINOR :: "uint16 \<Rightarrow> uint16" where "MINOR rdev = rdev AND 0xFF"

definition inode_update_to_fatdev :: "uint16 \<Rightarrow> uint16 \<Rightarrow> byte option" where
  "inode_update_to_fatdev mode rdev = do {
     let type = (ucast (drop_bit 8 (mode AND S_IFMT)) :: byte);
     ASSERT (MAJOR rdev < 4);
     Some (type OR push_bit 2 (ucast (MAJOR rdev AND 0x3)) OR ucast (MINOR rdev AND 0x3)) }"

subsection \<open>Operations\<close>

text \<open>\<open>pvalid\<close> is the flag \<open>valid\<close> of the parent.  The buffer is in the kernel, so the copies succeed.\<close>

definition fat32_inode_update :: "(nat \<Rightarrow> nat \<Rightarrow> nat) \<Rightarrow> (nat \<Rightarrow> nat) \<Rightarrow> bool \<Rightarrow> fat32_info \<Rightarrow> cinode \<Rightarrow> cinode \<Rightarrow> cinode option" where
  "fat32_inode_update kz fr pvalid x ip parent =
     (if i_ino x = ROOT_INO then Some parent
      else do {
        let off = parent_off x * 32;
        ASSERT pvalid;
        (parent, ret, bp) \<leftarrow> fat32_inode_read kz fr (\<lambda>p l. True) parent off 32;
        ASSERT (ret = 32);
        dev \<leftarrow> inode_update_to_fatdev (i_mode ip) (i_rdev x);
        let d = (as_s bp)\<lparr>DIR_Attr := f_Attr x, DIR_Dev := dev, DIR_LstAccDate := f_LstAccDate x, DIR_FstClusHI := DIR_FIRST_HIGH (cluster_start (i_fat ip)),
                  DIR_WrtTime := f_WrtTime x, DIR_WrtDate := f_WrtDate x, DIR_FstClusLO := DIR_FIRST_LOW (cluster_start (i_fat ip)),
                  DIR_FileSize := if S_ISDIR (i_mode ip) \<or> S_ISCHR (i_mode ip) \<or> S_ISBLK (i_mode ip) then 0 else i_size ip\<rparr>;
        (parent, _) \<leftarrow> fat32_inode_write kz (source (pack_s d)) parent off 32;
        Some parent })"

text \<open>The entry names the first cluster of the root for an inode that is not the root: the inode is left as it is then.  \<open>root\<close> is \<open>root_cluster_s\<close>.\<close>

definition load_entry :: "uint \<Rightarrow> dirent_s_t \<Rightarrow> fat32_info \<Rightarrow> cinode \<Rightarrow> (fat32_info \<times> cinode \<times> int) option" where
  "load_entry root d x ip = do {
     let x = x\<lparr>f_Attr := DIR_Attr d\<rparr>;
     ASSERT (f_Attr x \<noteq> 0);
     let start = DIR_FIRST_CLUS (DIR_FstClusHI d) (DIR_FstClusLO d);
     let ip = ip\<lparr>i_fat := (i_fat ip)\<lparr>cluster_start := start\<rparr>\<rparr>;
     let x = x\<lparr>i_ino := UNIQUE_INO (parent_off x) start\<rparr>;
     if start = root \<and> fname x \<noteq> [0x2F] then Some (x, ip, -1)
     else do {
       ip \<leftarrow> (if start \<noteq> 0
              then do { (fi, cnt) \<leftarrow> fat32_fat_travel (i_sb ip) (i_fat ip) 0; Some (ip\<lparr>i_fat := fi\<lparr>cluster_cnt := unat cnt\<rparr>\<rparr>) }
              else Some ip);
       let x = x\<lparr>f_CrtTimeTenth := DIR_CrtTimeTenth d, f_CrtTime := DIR_CrtTime d, f_CrtDate := DIR_CrtDate d, f_LstAccDate := DIR_LstAccDate d,
                 f_WrtTime := DIR_WrtTime d, f_FileSize := DIR_FileSize d, i_rdev := FATDEV_TO_IRDEV (DIR_Dev d), i_valid := True\<rparr>;
       let mode = FATDEV_TO_ITYPE (DIR_Dev d);
       let ip = (if S_ISCHR mode \<or> S_ISBLK mode then ip\<lparr>i_size := 0, i_mode := mode, i_blocks := 0\<rparr>
                 else if DIR_BOOL (f_Attr x)
                 then let sz = word_of_nat (cluster_cnt (i_fat ip) * cluster_size (i_sb ip)) in ip\<lparr>i_size := sz, i_mode := 0x4000, i_blocks := get_blocks (i_sb ip) sz\<rparr>
                 else ip\<lparr>i_size := f_FileSize x, i_mode := 0x8000, i_blocks := get_blocks (i_sb ip) (f_FileSize x)\<rparr>);
       Some (x, ip\<lparr>i_mode := i_mode ip OR 0x1FF\<rparr>, 1) } }"

definition fat32_inode_load_from_disk :: "(nat \<Rightarrow> nat \<Rightarrow> nat) \<Rightarrow> (nat \<Rightarrow> nat) \<Rightarrow> uint \<Rightarrow> bool \<Rightarrow> fat32_info \<Rightarrow> cinode \<Rightarrow> cinode \<Rightarrow>
    (fat32_info \<times> cinode \<times> cinode \<times> int) option" where
  "fat32_inode_load_from_disk kz fr root pvalid x ip parent = do {
     let off = parent_off x * 32;
     ASSERT pvalid;
     (parent, ret, bp) \<leftarrow> fat32_inode_read kz fr (\<lambda>p l. True) parent off 32;
     ASSERT (ret = 32);
     (x, ip, r) \<leftarrow> load_entry root (as_s bp) x (share parent ip);
     Some (x, ip, parent, r) }"

definition sync_inode :: "(nat \<Rightarrow> nat \<Rightarrow> nat) \<Rightarrow> (nat \<Rightarrow> nat) \<Rightarrow> bool \<Rightarrow> fat32_info \<Rightarrow> cinode \<Rightarrow> cinode \<Rightarrow> (cinode \<times> cinode \<times> int) option" where
  "sync_inode kz fr pvalid x ip parent =
     (if i_writeback ip then Some (ip, parent, -1)
      else do {
        ip \<leftarrow> mpage_writepage True (ip\<lparr>i_writeback := True\<rparr>);
        let parent = share ip parent;
        parent \<leftarrow> (if dirty_in_parent ip then fat32_inode_update kz fr pvalid x ip parent else Some parent);
        Some (share parent ip, parent, 0) })"

definition fat32_i_mapping_writeback :: "(nat \<Rightarrow> nat \<Rightarrow> nat) \<Rightarrow> (nat \<Rightarrow> nat) \<Rightarrow> bool \<Rightarrow> fat32_info \<Rightarrow> cinode \<Rightarrow> cinode \<Rightarrow> (cinode \<times> cinode) option" where
  "fat32_i_mapping_writeback kz fr pvalid x ip parent =
     (if i_dirty ip
      then do {
        (ip, parent, ret) \<leftarrow> sync_inode kz fr pvalid x ip parent;
        Some (if ret = 0 then ip\<lparr>i_dirty := False, i_writeback := False\<rparr> else ip, parent) }
      else Some (ip, parent))"

subsection \<open>Entries as bytes\<close>

lemma w32_b32 [simp]: "w32 (ucast w) (ucast (drop_bit 8 w)) (ucast (drop_bit 16 w)) (ucast (drop_bit 24 w)) = w"
proof (rule bit_word_eqI)
  fix n
  assume "n < LENGTH(32)"
  then show "bit (w32 (ucast w) (ucast (drop_bit 8 w)) (ucast (drop_bit 16 w)) (ucast (drop_bit 24 w))) n = bit w n"
    by (cases "24 \<le> n"; cases "16 \<le> n") (auto simp: w32_def bit_simps)
qed

lemma as_s_pack: "length (DIR_Name d) = 11 \<Longrightarrow> as_s (pack_s d) = d"
proof -
  assume l: "length (DIR_Name d) = 11"
  then have n: "take 11 (pack_s d) = DIR_Name d" by (simp add: pack_s_def)
  show ?thesis using l n by (cases d) (simp add: as_s_def pack_s_def b16_def b32_def nth_append)
qed

lemma length_pack_s: "length (DIR_Name d) = 11 \<Longrightarrow> length (pack_s d) = 32"
  by (simp add: pack_s_def b16_def b32_def)

lemma first_clus [simp]: "DIR_FIRST_CLUS (DIR_FIRST_HIGH c) (DIR_FIRST_LOW c) = c"
proof (rule bit_word_eqI)
  fix n
  assume n: "n < LENGTH(32)"
  have "(0xFFFF :: uint) = mask 16" by (simp add: mask_eq_exp_minus_1)
  then have "bit (0xFFFF :: uint) n \<longleftrightarrow> n < 16" using n by (simp only: bit_mask_iff) (simp add: bit_simps)
  then show "bit (DIR_FIRST_CLUS (DIR_FIRST_HIGH c) (DIR_FIRST_LOW c)) n = bit c n"
    using n by (cases "16 \<le> n") (auto simp: DIR_FIRST_CLUS_def DIR_FIRST_HIGH_def DIR_FIRST_LOW_def bit_simps)
qed

subsection \<open>The slot of an inode in its parent\<close>

definition slot_ok :: "fat32_info \<Rightarrow> cinode \<Rightarrow> bool" where "slot_ok x parent \<longleftrightarrow> unat (parent_off x) * 32 + 32 \<le> unat (i_size parent)"

definition slot_at :: "cinode \<Rightarrow> FAT_entry_t list \<Rightarrow> fat32_info \<Rightarrow> fcb" where
  "slot_at parent pcs x = map (byte_at parent pcs) [unat (parent_off x) * 32 ..< unat (parent_off x) * 32 + 32]"

lemma slot_offset:
  assumes "file_inv parent pcs" "slot_ok x parent"
  shows "unat (parent_off x * 32) = unat (parent_off x) * 32" "unat (parent_off x) * 32 + 32 \<le> 2 ^ 32 - PGSIZE" "parent_off x * 32 \<le> parent_off x * 32 + 32"
    "parent_off x * 32 < i_size parent"
proof -
  show l: "unat (parent_off x) * 32 + 32 \<le> 2 ^ 32 - PGSIZE" using assms by (simp add: slot_ok_def file_inv_def)
  then show o: "unat (parent_off x * 32) = unat (parent_off x) * 32" by (simp add: unat_word_ariths PGSIZE_def)
  show "parent_off x * 32 \<le> parent_off x * 32 + 32" using l o by (simp add: word_le_nat_alt unat_word_ariths(1) PGSIZE_def)
  show "parent_off x * 32 < i_size parent" using assms(2) o by (simp add: slot_ok_def word_less_nat_alt)
qed

lemma slot_read:
  assumes f: "file_inv parent pcs" "slot_ok x parent" and k: "\<And>i k. kz i k \<noteq> 0" "\<And>i. 0 < fr i"
  shows "\<exists>parent'. fat32_inode_read kz fr (\<lambda>p l. True) parent (parent_off x * 32) 32 = Some (parent', 32, slot_at parent pcs x) \<and> same_file parent pcs parent' \<and>
    cached parent' (unat (parent_off x) * 32 div PGSIZE)"
proof -
  note O = slot_offset [OF f]
  let ?o = "unat (parent_off x) * 32"
  have "i * PGSIZE \<le> ?o \<or> ?o + 32 \<le> i * PGSIZE" for i
  proof -
    have "i * PGSIZE = (i * 128) * 32" by (simp add: PGSIZE_def)
    then show ?thesis by (metis Suc_leI add.commute linorder_not_less mult_Suc mult_le_mono1)
  qed
  then have l: "late_misses fr parent ?o 32 = {}" by (rule late_misses_within)
  obtain parent' k where r: "fat32_inode_read kz fr (\<lambda>p l. True) parent (parent_off x * 32) 32 =
      Some (parent', int k, map (byte_at parent pcs) [?o ..< ?o + k])" "same_file parent pcs parent'"
    "cached parent' (?o div PGSIZE)" "k = min (unat (32 :: 32 word)) (unat (i_size parent) - ?o)"
    using inode_read_ok [where kz = kz and fr = fr and out = "\<lambda>p l. True" and n = 32 and off = "parent_off x * 32", OF f(1) O(4) _ O(3) _ k]
    by (auto simp: O(1) l)
  have "k = 32" using r(4) f(2) by (simp add: slot_ok_def)
  then show ?thesis using r(1-3) by (intro exI [of _ parent']) (simp add: slot_at_def)
qed

text \<open>The entry \<open>fat32_inode_update\<close> stores.\<close>

definition entry_of :: "byte \<Rightarrow> fat32_info \<Rightarrow> cinode \<Rightarrow> fcb \<Rightarrow> dirent_s_t" where
  "entry_of dev x ip bp = (as_s bp)\<lparr>DIR_Attr := f_Attr x, DIR_Dev := dev, DIR_LstAccDate := f_LstAccDate x, DIR_FstClusHI := DIR_FIRST_HIGH (cluster_start (i_fat ip)),
     DIR_WrtTime := f_WrtTime x, DIR_WrtDate := f_WrtDate x, DIR_FstClusLO := DIR_FIRST_LOW (cluster_start (i_fat ip)),
     DIR_FileSize := if S_ISDIR (i_mode ip) \<or> S_ISCHR (i_mode ip) \<or> S_ISBLK (i_mode ip) then 0 else i_size ip\<rparr>"

lemma update_ok:
  assumes f: "file_inv parent pcs" "slot_ok x parent" and k: "\<And>i k. kz i k \<noteq> 0" "\<And>i. 0 < fr i" and i: "i_ino x \<noteq> ROOT_INO"
    and dev: "inode_update_to_fatdev (i_mode ip) (i_rdev x) = Some dev" and s: "space (i_sb parent) pcs (page_up (unat (parent_off x) * 32 + 32))"
  shows "\<exists>parent' ns. fat32_inode_update kz fr True x ip parent = Some parent' \<and> file_inv parent' (pcs @ ns) \<and> i_size parent' = i_size parent \<and>
    grows (i_sb parent) pcs ns (i_sb parent') \<and> disk parent' = disk parent \<and> slot_at parent' (pcs @ ns) x = pack_s (entry_of dev x ip (slot_at parent pcs x)) \<and>
    (\<forall>p<unat (i_size parent). p div 32 \<noteq> unat (parent_off x) \<longrightarrow> byte_at parent' (pcs @ ns) p = byte_at parent pcs p)"
proof -
  note O = slot_offset [OF f]
  let ?o = "unat (parent_off x) * 32" and ?d = "entry_of dev x ip (slot_at parent pcs x)"
  obtain par where r: "fat32_inode_read kz fr (\<lambda>p l. True) parent (parent_off x * 32) 32 = Some (par, 32, slot_at parent pcs x)" "same_file parent pcs par"
    "cached par (?o div PGSIZE)" using slot_read [where kz = kz and fr = fr, OF f k] by blast
  have S: "file_inv par pcs" "i_size par = i_size parent" "byte_at par pcs = byte_at parent pcs" "i_sb par = i_sb parent" "disk par = disk parent"
    using r(2) by (auto simp: same_file_def)
  have len: "length (pack_s ?d) = unat (32 :: 32 word)" by (simp add: length_pack_s entry_of_def as_s_def slot_at_def)
  have le: "?o + 32 \<le> unat (i_size parent)" using f(2) by (simp add: slot_ok_def)
  have "pack_s ?d \<noteq> []" using len by (intro notI) simp
  then obtain parent' ns where w: "fat32_inode_write kz (source (pack_s ?d)) par (parent_off x * 32) 32 = Some (parent', int (unat (32 :: 32 word)))" "file_inv parent' (pcs @ ns)"
    "unat (i_size parent') = max (unat (i_size par)) (?o + 32)" "grows (i_sb par) pcs ns (i_sb parent')" "disk parent' = disk par"
    "\<forall>p<unat (i_size parent'). byte_at parent' (pcs @ ns) p = overwrite (kept par (byte_at par pcs) 32 ?o (unat (i_size par))) ?o (pack_s ?d) p"
    using inode_write_bytes [where kz = kz, OF S(1) _ _ _ len _ _ _ k(1), of "parent_off x * 32"] O le s S(2,4) by (auto simp: less_imp_le)
  have kept: "kept par (byte_at par pcs) 32 ?o (unat (i_size par)) = byte_at parent pcs" using r(3) S(3) by (simp add: kept_def)
  have sz: "unat (i_size parent') = unat (i_size parent)" using w(3) le S(2) by simp
  have B: "byte_at parent' (pcs @ ns) p = overwrite (byte_at parent pcs) ?o (pack_s ?d) p" if "p < unat (i_size parent)" for p
    using w(6) that unfolding kept sz by blast
  have "slot_at parent' (pcs @ ns) x = pack_s ?d"
    using le len by (intro nth_equalityI) (simp_all add: slot_at_def B overwrite_def)
  moreover have "fat32_inode_update kz fr True x ip parent = Some parent'"
    using r(1) w(1) i dev by (simp add: fat32_inode_update_def Let_def entry_of_def)
  moreover have "byte_at parent' (pcs @ ns) p = byte_at parent pcs p" if "p < unat (i_size parent)" "p div 32 \<noteq> unat (parent_off x)" for p
  proof -
    have "\<not> (?o \<le> p \<and> p < ?o + 32)" using that(2) by (metis add.commute div_nat_eqI mult.commute mult_Suc_right)
    then show ?thesis using B [OF that(1)] len by (auto simp: overwrite_def)
  qed
  ultimately show ?thesis
    using w(2,4,5) sz S(4,5) by (intro exI [of _ parent'] exI [of _ ns]) (simp add: word_unat_eq_iff)
qed

subsection \<open>Loading\<close>

text \<open>An inode as \<open>fat32_inode_get\<close> hands it out: no mapping, an empty index table.\<close>

definition blank :: "cinode \<Rightarrow> bool" where
  "blank ip \<longleftrightarrow> i_mapping ip = None \<and> idx_wf (i_fat ip) \<and> (\<forall>k. idx_dom k \<longrightarrow> idx_at (i_fat ip) k = 0)"

lemma load_entry_ok:
  assumes V: "volume_ok (i_sb ip)" "bitmap_ok (i_sb ip)" "sector_size (i_sb ip) dvd PGSIZE" "\<And>s. length (disk ip s) = sector_size (i_sb ip)" and b: "blank ip" and d: "DIR_Attr d \<noteq> 0" "\<not> DIR_BOOL (DIR_Attr d)" "FATDEV_TO_ITYPE (DIR_Dev d) = 0x8000"
    and st: "start = DIR_FIRST_CLUS (DIR_FstClusHI d) (DIR_FstClusLO d)" "start \<noteq> root"
    and c: "chain (i_sb ip) start cs" "cs \<noteq> []" "length cs < MAX_INDEX_1" "\<forall>c\<in>set cs. marked (bit_map (i_sb ip)) (unat c)"
    and sz: "unat (DIR_FileSize d) \<le> 2 ^ 32 - PGSIZE" "unat (DIR_FileSize d) \<le> length cs * cluster_size (i_sb ip)"
  shows "\<exists>x' ip'. load_entry root d x ip = Some (x', ip', 1) \<and> file_inv ip' cs \<and> i_size ip' = DIR_FileSize d \<and> S_ISREG (i_mode ip') \<and>
    i_mapping ip' = None \<and> i_sb ip' = i_sb ip \<and> disk ip' = disk ip"
proof -
  let ?fi = "(i_fat ip)\<lparr>cluster_start := start\<rparr>"
  have w: "idx_wf ?fi" "\<forall>k. idx_dom k \<longrightarrow> idx_at ?fi k = 0" using b by (auto simp: blank_def idx_wf_def idx_at_def)
  obtain fi where t: "fat32_fat_travel (i_sb ip) ?fi 0 = Some (fi, word_of_nat (length cs))" "file_ok (i_sb ip) (fi\<lparr>cluster_cnt := length cs\<rparr>) cs"
    using fat_travel_ok [OF V(1) _ c(2,3) w] c(1) by auto
  have n0: "start \<noteq> 0" using c(1,2) by (cases cs) (auto simp: valid_cluster_def)
  have un: "unat (word_of_nat (length cs) :: FAT_entry_t) = length cs"
    using c(3) by (simp add: unat_of_nat MAX_INDEX_1_def N_DIRECT_def N_INDIRECT_def N_LEVEL_ONE_def)
  let ?ip = "ip\<lparr>i_fat := fi\<lparr>cluster_cnt := length cs\<rparr>, i_size := DIR_FileSize d, i_mode := 0x81FF, i_blocks := get_blocks (i_sb ip) (DIR_FileSize d)\<rparr>"
  have "cluster_start fi = start" using t(2) c(1,2) by (cases cs) (auto simp: file_ok_def)
  then have "stored (i_sb ip) (fi\<lparr>cluster_cnt := length cs\<rparr>) cs" using t(2) c by (simp add: stored_def)
  then have vi: "volume_inv ?ip cs" using V by (simp add: volume_inv_def)
  have inv: "file_inv ?ip cs" using b sz by (intro clean_inv [OF vi]) (simp_all add: blank_def)
  have "\<not> S_ISCHR 0x8000" "\<not> S_ISBLK 0x8000" by (simp_all add: S_ISCHR_def S_ISBLK_def S_IFMT_def)
  then have "\<exists>x'. load_entry root d x ip = Some (x', ?ip, 1)"
    using d st n0 t(1) un unfolding load_entry_def Let_def by simp
  then show ?thesis using inv b by (auto simp: S_ISREG_def S_IFMT_def blank_def)
qed

subsection \<open>Two files on one volume\<close>

lemma geometry_bytes:
  assumes "same_geometry sb sb'"
  shows "file_byte d sb' = file_byte d sb" "file_bytes d sb' = file_bytes d sb" "cluster_size sb' = cluster_size sb" "clusters_for sb' = clusters_for sb"
proof -
  show c: "cluster_size sb' = cluster_size sb" "clusters_for sb' = clusters_for sb"
    using same_geometryD(4,5) [OF assms] by (simp_all add: cluster_size_def clusters_for_def fun_eq_iff)
  show b: "file_bytes d sb' = file_bytes d sb" using same_geometryD(3) [OF assms] by (simp add: file_bytes_def fun_eq_iff)
  show "file_byte d sb' = file_byte d sb" using b c by (simp add: file_byte_def fun_eq_iff)
qed

text \<open>A file keeps its invariant and bytes when another one grows and is written.\<close>

lemma other_inv:
  assumes f: "file_inv q qcs" "i_sb q = sb" and g: "grows sb cs ns (i_sb v)" and v: "volume_inv v (cs @ ns)"
    and o: "other_file sb cs (hd qcs) qcs" and b: "file_bytes (disk v) (i_sb v) qcs = file_bytes (disk q) sb qcs"
  shows "file_inv (share v q) qcs" "byte_at (share v q) qcs = byte_at q qcs" "i_size (share v q) = i_size q"
proof -
  let ?q = "share v q"
  have G: "same_geometry sb (i_sb v)" "other_file (i_sb v) (cs @ ns) (hd qcs) qcs" using g o by (auto simp: grows_def)
  have st: "stored sb (i_fat q) qcs" using f by (simp add: file_inv_def volume_inv_def)
  have "file_ok (i_sb v) (i_fat q) qcs" using st same_geometryD(1) [OF G(1)] by (simp add: stored_def file_ok_def valid_cluster_def)
  then have s: "stored (i_sb v) (i_fat q) qcs" using st G(2) by (auto simp: stored_def other_file_def file_ok_def)
  have fb: "file_byte (disk v) (i_sb v) qcs p = file_byte (disk q) sb qcs p" for p
    using b geometry_bytes(3) [OF G(1)] by (simp add: file_byte_def)
  have C: "cached ?q = cached q" "dirty ?q = dirty q" "i_size ?q = i_size q" "i_pages ?q = i_pages q" by (simp_all add: share_def cached_def dirty_def fun_eq_iff)
  show by_at: "byte_at ?q qcs = byte_at q qcs" using fb C(1) f(2) by (simp add: byte_at_def fun_eq_iff) (simp add: share_def)
  have sy: "synced ?q qcs p = synced q qcs p" for p
    using by_at fb f(2) geometry_bytes(3) [OF G(1)] by (simp add: synced_def) (simp add: share_def)
  have "volume_inv ?q qcs" using v s by (simp add: volume_inv_def share_def)
  moreover have "cache_inv ?q" using f(1) C by (simp add: file_inv_def cache_inv_def) (simp add: share_def)
  ultimately show "file_inv ?q qcs" using f(1) C sy by (simp add: file_inv_def)
  show "i_size ?q = i_size q" by (rule C(3))
qed

lemma space_covered:
  assumes "volume_ok sb" "e \<le> length cs * cluster_size sb" "length cs < MAX_INDEX_1"
  shows "space sb cs e"
proof -
  have "clusters_for sb e \<le> length cs"
  proof -
    have c: "0 < cluster_size sb" using assms(1) by (rule cluster_size_pos)
    have "(e + cluster_size sb - 1) div cluster_size sb \<le> (length cs * cluster_size sb + (cluster_size sb - 1)) div cluster_size sb"
      using assms(2) c by (intro div_le_mono) linarith
    also have "\<dots> = length cs" using c by (intro div_nat_eqI) (simp_all add: mult.commute)
    finally show ?thesis by (simp add: clusters_for_def cluster_size_def)
  qed
  then show ?thesis using assms(3) by (auto simp: space_def room_def)
qed

subsection \<open>Write-back of an inode\<close>

lemma sync_ok:
  assumes f: "file_inv ip cs" "dirty ip j" "\<not> i_writeback ip" "dirty_in_parent ip" "space (i_sb ip) cs (page_up (unat (i_size ip)))"
    and par: "file_inv parent pcs" "i_sb parent = i_sb ip" "disk parent = disk ip" "slot_ok x parent" "other_file (i_sb ip) cs (hd pcs) pcs"
      "page_up (unat (parent_off x) * 32 + 32) \<le> length pcs * cluster_size (i_sb ip)"
    and k: "\<And>i k. kz i k \<noteq> 0" "\<And>i. 0 < fr i" and x: "i_ino x \<noteq> ROOT_INO" "inode_update_to_fatdev (i_mode ip) (i_rdev x) = Some dev"
  shows "\<exists>ip' parent' cs' pcs'. sync_inode kz fr True x ip parent = Some (ip', parent', 0) \<and> file_inv parent' pcs' \<and> slot_ok x parent' \<and>
    slot_at parent' pcs' x = pack_s (entry_of dev x ip (slot_at parent pcs x)) \<and>
    (\<forall>p<unat (i_size parent). p div 32 \<noteq> unat (parent_off x) \<longrightarrow> byte_at parent' pcs' p = byte_at parent pcs p) \<and>
    other_file (i_sb parent') pcs' (cluster_start (i_fat ip)) cs' \<and> cs' \<noteq> [] \<and> length cs' < MAX_INDEX_1 \<and> unat (i_size ip) \<le> length cs' * cluster_size (i_sb parent') \<and>
    (\<forall>p<unat (i_size ip). file_byte (disk parent') (i_sb parent') cs' p = byte_at ip cs p)"
proof -
  let ?ip = "ip\<lparr>i_writeback := True\<rparr>"
  have V: "same_view ip ?ip" by (simp add: same_view_def)
  have F: "file_inv ?ip cs" "dirty ?ip j" "space (i_sb ?ip) cs (page_up (unat (i_size ?ip)))" "byte_at ?ip cs = byte_at ip cs"
    using f(1,2,5) by (simp_all add: file_inv_def same_viewD [OF V])
  obtain ip1 ns where w: "mpage_writepage True ?ip = Some ip1" "\<exists>sb' fi' d'. ip1 = ?ip\<lparr>i_sb := sb', i_fat := fi', disk := d'\<rparr>" "file_inv ip1 (cs @ ns)"
    "grows (i_sb ?ip) cs ns (i_sb ip1)" "\<forall>p<unat (i_size ?ip). byte_at ip1 (cs @ ns) p = byte_at ?ip cs p \<and> synced ip1 (cs @ ns) p"
    "\<forall>d ds. other_file (i_sb ?ip) cs d ds \<longrightarrow> file_bytes (disk ip1) (i_sb ip1) ds = file_bytes (disk ?ip) (i_sb ?ip) ds"
    using writepage_ok [OF F(1-3)] by blast
  let ?cs = "cs @ ns" and ?par = "share ip1 parent"
  have same: "i_mode ip1 = i_mode ip" "i_size ip1 = i_size ip" "dirty_in_parent ip1" using w(2) f(4) by auto
  have st: "stored (i_sb ip1) (i_fat ip1) ?cs" "stored (i_sb ip) (i_fat ip) cs" "volume_ok (i_sb ip1)" "volume_inv ip1 ?cs"
    using w(3) f(1) by (auto simp: file_inv_def volume_inv_def)
  have start: "cluster_start (i_fat ip1) = cluster_start (i_fat ip)" "cluster_start (i_fat ip) = hd ?cs" using st(1,2) by (auto simp: stored_def file_ok_def hd_append)
  have g1: "grows (i_sb ip) cs ns (i_sb ip1)" using w(4) by simp
  have fb: "file_bytes (disk ip1) (i_sb ip1) pcs = file_bytes (disk parent) (i_sb ip) pcs" using w(6) par(3,5) by simp
  note P = other_inv [OF par(1,2) g1 st(4) par(5) fb]
  have gy: "same_geometry (i_sb ip) (i_sb ip1)" using g1 by (simp add: grows_def)
  have sl: "slot_ok x ?par" "slot_at ?par pcs x = slot_at parent pcs x" using par(4) P(2,3) by (simp_all add: slot_ok_def slot_at_def)
  have "length pcs < MAX_INDEX_1" using par(1) by (simp add: file_inv_def volume_inv_def stored_def file_ok_def)
  then have sp: "space (i_sb ?par) pcs (page_up (unat (parent_off x) * 32 + 32))"
    using space_covered [OF st(3)] par(6) geometry_bytes(3) [OF gy] by (simp add: share_def)
  have dev: "inode_update_to_fatdev (i_mode ip1) (i_rdev x) = Some dev" using x(2) same(1) by simp
  have ent: "entry_of dev x ip1 b = entry_of dev x ip b" for b using start(1) same by (simp add: entry_of_def)
  obtain par2 ms where u: "fat32_inode_update kz fr True x ip1 ?par = Some par2" "file_inv par2 (pcs @ ms)" "i_size par2 = i_size ?par"
    "grows (i_sb ?par) pcs ms (i_sb par2)" "disk par2 = disk ?par" "slot_at par2 (pcs @ ms) x = pack_s (entry_of dev x ip1 (slot_at ?par pcs x))"
    "\<forall>p<unat (i_size ?par). p div 32 \<noteq> unat (parent_off x) \<longrightarrow> byte_at par2 (pcs @ ms) p = byte_at ?par pcs p"
    using update_ok [where kz = kz and fr = fr, OF P(1) sl(1) k x(1) dev sp] by (elim exE conjE) (rule that)
  have g2: "same_geometry (i_sb ip1) (i_sb par2)" using u(4) by (simp add: grows_def share_def)
  have "other_file (i_sb ip1) ?cs (hd pcs) pcs" using g1 par(5) by (simp add: grows_def)
  then have "other_file (i_sb ip1) pcs (hd ?cs) ?cs" using st(1) by (auto simp: other_file_def stored_def file_ok_def)
  then have of2: "other_file (i_sb par2) (pcs @ ms) (cluster_start (i_fat ip)) ?cs" using u(4) start(2) by (simp add: grows_def share_def)
  have sy: "p < length ?cs * cluster_size (i_sb par2) \<and> file_byte (disk par2) (i_sb par2) ?cs p = byte_at ip cs p" if "p < unat (i_size ip)" for p
  proof -
    have "byte_at ip1 ?cs p = byte_at ip cs p" "synced ip1 ?cs p" using w(5) that F(4) by auto
    then show ?thesis using geometry_bytes(1,3) [OF g2] u(5) by (simp add: synced_def share_def)
  qed
  have "unat (i_size ip) \<le> length ?cs * cluster_size (i_sb par2)" using sy [of "unat (i_size ip) - 1"] by (cases "unat (i_size ip) = 0") (auto simp: Suc_le_eq)
  moreover have "sync_inode kz fr True x ip parent = Some (share par2 ip1, par2, 0)"
    using f(3) w(1) u(1) same(3) by (simp add: sync_inode_def Let_def)
  moreover have "?cs \<noteq> []" "length ?cs < MAX_INDEX_1" using st(1) by (simp_all add: stored_def file_ok_def)
  moreover have "slot_ok x par2" using sl(1) u(3) by (simp add: slot_ok_def)
  ultimately show ?thesis
    using u(2,6,7) sl(2) ent of2 sy P(2,3) by (intro exI [of _ "share par2 ip1"] exI [of _ par2] exI [of _ ?cs] exI [of _ "pcs @ ms"]) simp
qed

lemma regular_dev: "S_ISREG mode \<Longrightarrow> inode_update_to_fatdev mode 0 = Some 0x80" "\<not> S_ISDIR 0x8000"
  "S_ISREG mode \<Longrightarrow> \<not> (S_ISDIR mode \<or> S_ISCHR mode \<or> S_ISBLK mode)" "FATDEV_TO_ITYPE 0x80 = 0x8000"
proof -
  show "S_ISREG mode \<Longrightarrow> inode_update_to_fatdev mode 0 = Some 0x80"
    by (simp add: S_ISREG_def inode_update_to_fatdev_def MAJOR_def MINOR_def Let_def)
qed (auto simp: S_ISREG_def S_ISDIR_def S_ISCHR_def S_ISBLK_def S_IFMT_def FATDEV_TO_ITYPE_def)

lemma sync_load_ok:
  assumes "file_inv ip cs" "dirty ip j" "\<not> i_writeback ip" "dirty_in_parent ip" "space (i_sb ip) cs (page_up (unat (i_size ip)))" "S_ISREG (i_mode ip)"
    and "file_inv parent pcs" "i_sb parent = i_sb ip" "disk parent = disk ip" "slot_ok x parent" "other_file (i_sb ip) cs (hd pcs) pcs"
      "page_up (unat (parent_off x) * 32 + 32) \<le> length pcs * cluster_size (i_sb ip)"
    and "\<And>i k. kz i k \<noteq> 0" "\<And>i. 0 < fr i" "i_ino x \<noteq> ROOT_INO" "i_rdev x = 0" "f_Attr x \<noteq> 0" "\<not> DIR_BOOL (f_Attr x)" "cluster_start (i_fat ip) \<noteq> root"
    and "blank ip0" "parent_off x0 = parent_off x"
  shows "\<exists>ip' parent' x' ip'' parent'' cs'. sync_inode kz fr True x ip parent = Some (ip', parent', 0) \<and>
    fat32_inode_load_from_disk kz fr root True x0 ip0 parent' = Some (x', ip'', parent'', 1) \<and>
    file_inv ip'' cs' \<and> i_size ip'' = i_size ip \<and> (\<forall>p<unat (i_size ip). byte_at ip'' cs' p = byte_at ip cs p)"
proof -
  have dev: "inode_update_to_fatdev (i_mode ip) (i_rdev x) = Some 0x80" using regular_dev(1) [OF assms(6)] assms(16) by simp
  obtain ip1 par cs' pcs' where s: "sync_inode kz fr True x ip parent = Some (ip1, par, 0)" "file_inv par pcs'" "slot_ok x par"
    "slot_at par pcs' x = pack_s (entry_of 0x80 x ip (slot_at parent pcs x))" "other_file (i_sb par) pcs' (cluster_start (i_fat ip)) cs'" "cs' \<noteq> []" "length cs' < MAX_INDEX_1"
    "unat (i_size ip) \<le> length cs' * cluster_size (i_sb par)" "\<forall>p<unat (i_size ip). file_byte (disk par) (i_sb par) cs' p = byte_at ip cs p"
    using sync_ok [where kz = kz and fr = fr, OF assms(1-5,7-15) dev] by (elim exE conjE) (rule that)
  let ?d = "entry_of 0x80 x ip (slot_at parent pcs x)"
  have d: "as_s (slot_at par pcs' x) = ?d" unfolding s(4) by (rule as_s_pack) (simp add: entry_of_def as_s_def slot_at_def)
  have D: "DIR_Attr ?d = f_Attr x" "DIR_Dev ?d = 0x80" "DIR_FIRST_CLUS (DIR_FstClusHI ?d) (DIR_FstClusLO ?d) = cluster_start (i_fat ip)" "DIR_FileSize ?d = i_size ip"
    using regular_dev(3) [OF assms(6)] by (simp_all add: entry_of_def)
  have s3: "slot_ok x0 par" "slot_at par pcs' x0 = slot_at par pcs' x" using s(3) assms(21) by (simp_all add: slot_ok_def slot_at_def)
  obtain par2 where r: "fat32_inode_read kz fr (\<lambda>p l. True) par (parent_off x0 * 32) 32 = Some (par2, 32, slot_at par pcs' x)" "same_file par pcs' par2"
    using slot_read [where kz = kz and fr = fr, OF s(2) s3(1) assms(13,14)] unfolding s3(2) by blast
  let ?ip = "share par2 ip0"
  have S: "i_sb ?ip = i_sb par" "disk ?ip = disk par" using r(2) by (simp_all add: share_def same_file_def)
  have v: "volume_inv par pcs'" using s(2) by (simp add: file_inv_def)
  have V: "volume_ok (i_sb ?ip)" "bitmap_ok (i_sb ?ip)" "sector_size (i_sb ?ip) dvd PGSIZE" "\<And>s. length (disk ?ip s) = sector_size (i_sb ?ip)"
    using v S by (simp_all add: volume_inv_def)
  have b: "blank ?ip" using assms(20) by (simp add: blank_def share_def)
  have at: "DIR_Attr ?d \<noteq> 0" "\<not> DIR_BOOL (DIR_Attr ?d)" "FATDEV_TO_ITYPE (DIR_Dev ?d) = 0x8000" using assms(17,18) D regular_dev(4) by simp_all
  have of: "chain (i_sb ?ip) (cluster_start (i_fat ip)) cs'" "\<forall>c\<in>set cs'. marked (bit_map (i_sb ?ip)) (unat c)" using s(5) S by (simp_all add: other_file_def)
  have sz: "unat (DIR_FileSize ?d) \<le> 2 ^ 32 - PGSIZE" "unat (DIR_FileSize ?d) \<le> length cs' * cluster_size (i_sb ?ip)"
    using assms(1) s(8) D(4) S by (simp_all add: file_inv_def)
  obtain x' ip' where l: "load_entry root ?d x0 ?ip = Some (x', ip', 1)" "file_inv ip' cs'" "i_size ip' = DIR_FileSize ?d" "i_mapping ip' = None"
    "i_sb ip' = i_sb ?ip" "disk ip' = disk ?ip"
    using load_entry_ok [where d = ?d and x = x0, OF V b at D(3) [symmetric] assms(19) of(1) s(6,7) of(2) sz] by blast
  have "fat32_inode_load_from_disk kz fr root True x0 ip0 par = Some (x', ip', par2, 1)"
    using r(1) l(1) d by (simp add: fat32_inode_load_from_disk_def Let_def)
  moreover have "byte_at ip' cs' p = byte_at ip cs p" if "p < unat (i_size ip)" for p
    using s(9) that l(4-6) S by (simp add: byte_at_def cached_def)
  ultimately have "sync_inode kz fr True x ip parent = Some (ip1, par, 0) \<and> fat32_inode_load_from_disk kz fr root True x0 ip0 par = Some (x', ip', par2, 1) \<and>
      file_inv ip' cs' \<and> i_size ip' = i_size ip \<and> (\<forall>p<unat (i_size ip). byte_at ip' cs' p = byte_at ip cs p)" using s(1) l(2,3) D(4) by simp
  then show ?thesis by (intro exI)
qed

text \<open>C24. Write-back of an inode and loading it again: after \<open>sync_inode\<close> of a dirty regular file, loading the inode from its directory entry into an empty inode and without any
  page of the old one gives a file of the same size with the same bytes.  \<open>parent\<close> is the directory with the entry, another file of the same volume.\<close>

theorem sync_load_roundtrip:
  assumes "file_inv ip cs" "dirty ip j" "\<not> i_writeback ip" "dirty_in_parent ip" "space (i_sb ip) cs (page_up (unat (i_size ip)))" "S_ISREG (i_mode ip)"
    and "file_inv parent pcs" "i_sb parent = i_sb ip" "disk parent = disk ip" "slot_ok x parent" "other_file (i_sb ip) cs (hd pcs) pcs"
      "page_up (unat (parent_off x) * 32 + 32) \<le> length pcs * cluster_size (i_sb ip)"
    and "\<And>i k. kz i k \<noteq> 0" "\<And>i. 0 < fr i" "i_ino x \<noteq> ROOT_INO" "i_rdev x = 0" "f_Attr x \<noteq> 0" "\<not> DIR_BOOL (f_Attr x)" "cluster_start (i_fat ip) \<noteq> root"
    and "blank ip0" "parent_off x0 = parent_off x"
  shows "\<exists>ip' parent' x' ip'' parent'' cs'. sync_inode kz fr True x ip parent = Some (ip', parent', 0) \<and>
    fat32_inode_load_from_disk kz fr root True x0 ip0 parent' = Some (x', ip'', parent'', 1) \<and>
    file_inv ip'' cs' \<and> i_size ip'' = i_size ip \<and> (\<forall>p<unat (i_size ip). byte_at ip'' cs' p = byte_at ip cs p)"
  by (rule sync_load_ok [OF assms])

subsection \<open>Concrete instances\<close>

text \<open>A volume with clusters of one page: a file on cluster 2 and its directory on cluster 3.\<close>

definition sync_vol :: fatfs where "sync_vol = (demo_vol [2])\<lparr>sector_size := 4096, fat_table := (fat_table (demo_vol [2]))[3 := EOC]\<rparr>"

definition sync_file :: "FAT_entry_t \<Rightarrow> uint \<Rightarrow> cinode" where
  "sync_file c sz = demo_cinode\<lparr>i_sb := sync_vol, i_fat := demo_file [c], i_size := sz, disk := (\<lambda>s. replicate 4096 (word_of_nat s))\<rparr>"

definition sync_info :: fat32_info where
  "sync_info = \<lparr>fname = [0x61], f_Attr = 0x20, f_CrtTimeTenth = 0, f_CrtTime = 0, f_CrtDate = 0, f_LstAccDate = 0, f_WrtTime = 0, f_WrtDate = 0, f_FileSize = 0,
     parent_off = 1, i_rdev = 0, i_ino = 0x100000002, i_valid = True\<rparr>"

definition empty_inode :: cinode where "empty_inode = demo_cinode\<lparr>i_fat := demo_file []\<rparr>"

lemma sync_vol_simps: "FAT_CLUSTER_MAX sync_vol = 70" "fat_table sync_vol = (replicate 72 0)[2 := EOC, 3 := EOC]" "bit_map sync_vol = [0xF, 0]"
  "sectors_per_block sync_vol = 1" "sector_size sync_vol = 4096" "cluster_size sync_vol = 4096"
proof -
  show "FAT_CLUSTER_MAX sync_vol = 70" using demo_vol_max [of "[2]"] by (simp add: sync_vol_def FAT_CLUSTER_MAX_def FirstDataSector_def)
qed (simp_all add: sync_vol_def cluster_size_def)

lemma sync_file_simps [simp]: "i_sb (sync_file c sz) = sync_vol" "i_size (sync_file c sz) = sz" "i_mode (sync_file c sz) = 0x81FF" "i_fat (sync_file c sz) = demo_file [c]"
  "disk (sync_file c sz) = (\<lambda>s. replicate 4096 (word_of_nat s))" "\<not> i_writeback (sync_file c sz)" "cluster_start (demo_file [c]) = c"
  by (simp_all add: sync_file_def demo_cinode_def demo_file_def)

lemma sync_vol_ok: "volume_ok sync_vol" "bitmap_ok sync_vol"
  using demo_bitmap_ok [of "[2]"] by (simp_all add: volume_ok_def bitmap_ok_def sync_vol_simps) (simp add: sync_vol_def)

lemma sync_chain: "chain sync_vol 2 [2]" "chain sync_vol 3 [3]" "marked (bit_map sync_vol) 2" "marked (bit_map sync_vol) 3"
  by (simp_all add: sync_vol_simps valid_cluster_def ISEOF_def EOC_def)

lemma sync_file_inv: "c = 2 \<or> c = 3 \<Longrightarrow> sz \<le> 4096 \<Longrightarrow> file_inv (sync_file c sz) [c]"
proof -
  assume c: "c = 2 \<or> c = 3" and sz: "sz \<le> 4096"
  have "idx_at (demo_file [c]) k = (if k \<le> length [c] then [c] ! (k - 1) else 0)" if "idx_dom k" for k
    using demo_idx_dom [of "[c]", OF _ that] by (simp add: N_DIRECT_def)
  then have "file_ok sync_vol (demo_file [c]) [c]"
    using demo_idx(1) [of "[c]"] c by (auto simp: file_ok_def valid_cluster_def sync_vol_simps N_DIRECT_def MAX_INDEX_1_def demo_file_def)
  then have "stored sync_vol (demo_file [c]) [c]" using sync_chain c by (auto simp: stored_def)
  then have "volume_inv (sync_file c sz) [c]" using sync_vol_ok by (simp add: volume_inv_def sync_vol_simps PGSIZE_def)
  then show ?thesis using sz by (intro clean_inv) (simp_all add: sync_vol_simps PGSIZE_def word_le_nat_alt, simp add: sync_file_def demo_cinode_def)
qed

lemma sync_instance:
  "space sync_vol [2] (page_up 4093)" "other_file sync_vol [2] (hd [3]) [3]" "slot_ok sync_info (sync_file 3 4096)"
  "page_up (unat (parent_off sync_info) * 32 + 32) \<le> length [3 :: FAT_entry_t] * cluster_size sync_vol" "S_ISREG 0x81FF" "blank empty_inode"
  "i_ino sync_info \<noteq> ROOT_INO" "i_rdev sync_info = 0" "f_Attr sync_info \<noteq> 0" "\<not> DIR_BOOL (f_Attr sync_info)"
proof -
  show "space sync_vol [2] (page_up 4093)"
    using sync_vol_ok(1) by (intro space_covered) (simp_all add: page_up_def PGSIZE_def sync_vol_simps MAX_INDEX_1_def N_DIRECT_def)
  show "other_file sync_vol [2] (hd [3]) [3]" using sync_chain by (simp add: other_file_def)
  show "blank empty_inode" using demo_idx_dom [of "[]"] demo_idx(1) [of "[]"] by (simp add: blank_def empty_inode_def demo_cinode_def idx_dom_def)
qed (simp_all add: slot_ok_def sync_info_def page_up_def PGSIZE_def sync_vol_simps S_ISREG_def S_IFMT_def ROOT_INO_def DIR_BOOL_def ATTR_DIRECTORY_def)

theorem sync_load_roundtrip_witness:
  "\<exists>ip ip' parent' x' ip'' parent''. fat32_inode_write (\<lambda>i k. 0x80000000) (source [1, 2, 3]) (sync_file 2 4090) 4090 3 = Some (ip, 3) \<and>
    sync_inode (\<lambda>i k. 0x80000000) (\<lambda>i. 1) True sync_info ip (share ip (sync_file 3 4096)) = Some (ip', parent', 0) \<and>
    fat32_inode_load_from_disk (\<lambda>i k. 0x80000000) (\<lambda>i. 1) 9 True sync_info empty_inode parent' = Some (x', ip'', parent'', 1) \<and> unat (i_size ip'') = 4093"
proof -
  let ?kz = "\<lambda>i k :: nat. 0x80000000 :: nat" and ?f = "sync_file 2 4090" and ?p = "sync_file 3 4096"
  note I = sync_instance
  have inv: "file_inv ?f [2]" "file_inv ?p [3]" using sync_file_inv by simp_all
  have "\<exists>ip' ns. fat32_inode_write ?kz (source [1, 2, 3]) ?f 4090 3 = Some (ip', int (unat (3 :: 32 word))) \<and> file_inv ip' ([2] @ ns) \<and>
    unat (i_size ip') = max (unat (i_size ?f)) (unat (4090 :: 32 word) + unat (3 :: 32 word)) \<and>
    (\<forall>p<unat (i_size ip'). byte_at ip' ([2] @ ns) p = overwrite (kept ?f (byte_at ?f [2]) (unat (3 :: 32 word)) (unat (4090 :: 32 word)) (unat (i_size ?f))) (unat (4090 :: 32 word)) [1, 2, 3] p) \<and>
    grows (i_sb ?f) [2] ns (i_sb ip') \<and> space (i_sb ip') ([2] @ ns) (page_up (unat (4090 :: 32 word) + unat (3 :: 32 word))) \<and> disk ip' = disk ?f \<and> i_mode ip' = i_mode ?f \<and>
    i_writeback ip' = i_writeback ?f \<and> i_dirty ip' \<and> dirty ip' (unat (4090 :: 32 word) div PGSIZE) \<and> (i_size ?f < i_size ip' \<longrightarrow> dirty_in_parent ip')"
    by (rule inode_write_bytes [OF inv(1)]) (simp_all add: I PGSIZE_def)
  then obtain ip ns where w: "fat32_inode_write ?kz (source [1, 2, 3]) ?f 4090 3 = Some (ip, 3)" "file_inv ip ([2] @ ns)" "unat (i_size ip) = 4093"
    "grows sync_vol [2] ns (i_sb ip)" "space (i_sb ip) ([2] @ ns) (page_up 4093)" "disk ip = disk ?f" "i_mode ip = 0x81FF" "\<not> i_writeback ip" "dirty ip (4090 div PGSIZE)"
    "dirty_in_parent ip" by (auto simp: word_less_nat_alt)
  have gy: "same_geometry sync_vol (i_sb ip)" "other_file (i_sb ip) ([2] @ ns) (hd [3]) [3]" using w(4) I(2) by (auto simp: grows_def)
  have V: "volume_inv ip ([2] @ ns)" using w(2) by (simp add: file_inv_def)
  have fb: "file_bytes (disk ip) (i_sb ip) [3] = file_bytes (disk ?p) sync_vol [3]" using geometry_bytes(2) [OF gy(1)] w(6) by simp
  have vp: "i_sb ?p = sync_vol" by simp
  note P = other_inv [OF inv(2) vp w(4) V I(2) fb]
  have st: "cluster_start (i_fat ip) = 2" using V by (simp add: volume_inv_def stored_def file_ok_def)
  have "\<exists>ip' parent' x' ip'' parent'' cs'. sync_inode ?kz (\<lambda>i. 1) True sync_info ip (share ip ?p) = Some (ip', parent', 0) \<and>
    fat32_inode_load_from_disk ?kz (\<lambda>i. 1) 9 True sync_info empty_inode parent' = Some (x', ip'', parent'', 1) \<and>
    file_inv ip'' cs' \<and> i_size ip'' = i_size ip \<and> (\<forall>p<unat (i_size ip). byte_at ip'' cs' p = byte_at ip ([2] @ ns) p)"
    by (rule sync_load_roundtrip [OF w(2,9,8,10) _ _ P(1)])
      (use w I gy st P(3) geometry_bytes(3) [OF gy(1)] in \<open>auto simp: share_def slot_ok_def\<close>)
  then show ?thesis using w(1,3) by (elim exE conjE) (intro exI conjI, assumption+, simp)
qed

end
