(* ===== verification/UserCopy.thy ===== *)
theory UserCopy
  imports UserMem
begin

text \<open>
  Copying to and from user memory together (\<open>copyout\<close> and \<open>copyin\<close> of \<open>src/mm/vm.c\<close>): on pages that are mapped writable for the
  user, \<open>copyout\<close> changes exactly the bytes the addresses translate to, and \<open>copyin\<close> reads them back.
\<close>

subsection \<open>A user buffer\<close>

text \<open>The buffer of \<open>n\<close> bytes at \<open>va\<close> is mapped writable, its bytes have different physical addresses, and none of them lies in a table or
  in the kernel buffer at \<open>src\<close>.\<close>

definition user_byte :: "kmem \<Rightarrow> nat \<Rightarrow> uint64 \<Rightarrow> nat \<Rightarrow> nat" where
  "user_byte s root va i = the (user_pa s root (va + word_of_nat i))"

definition writable_at :: "kmem \<Rightarrow> nat \<Rightarrow> uint64 \<Rightarrow> bool" where
  "writable_at s root va \<longleftrightarrow> (\<exists>k e. lkup s 2 root va = Some (k, e) \<and> has_flag e PTE_W \<and> has_flag e PTE_U)"

definition user_buf :: "kmem \<Rightarrow> nat \<Rightarrow> uint64 \<Rightarrow> nat \<Rightarrow> nat \<Rightarrow> bool" where
  "user_buf s root va n src \<longleftrightarrow> unat va + n \<le> 2 ^ 38 \<and> (\<forall>i<n. writable_at s root (va + word_of_nat i)) \<and>
     inj_on (user_byte s root va) {..<n} \<and>
     (\<forall>i<n. let pa = user_byte s root va i in (pa < src \<or> src + n \<le> pa) \<and> (\<forall>a\<in>tabs s 2 root. pa < a \<or> a + PGSIZE \<le> pa))"

lemma writable_user_pa:
  assumes "pt_ok s root" "leaves_ok s root" "x < MAXVA" "writable_at s root x"
  shows "\<exists>pa. user_pa s root x = Some pa"
  using assms(4) user_pa_lkup [OF assms(1-3)] by (auto simp: writable_at_def)

lemma away_bytes:
  assumes "\<forall>i<n. \<forall>a\<in>tabs s 2 root. d + i < a \<or> a + PGSIZE \<le> d + i" "0 < n"
  shows "away s root d n"
  unfolding away_def
proof (rule ballI, rule ccontr)
  fix a
  assume a: "a \<in> tabs s 2 root" "\<not> (d + n \<le> a \<or> a + PGSIZE \<le> d)"
  have p: "0 < PGSIZE" by (simp add: PGSIZE_def)
  show False
  proof (cases "a \<le> d")
    case True
    then show ?thesis using assms(1) [rule_format, of 0 a] assms(2) a by auto
  next
    case False
    then have "a - d < n" "d + (a - d) = a" using a(2) by auto
    then show ?thesis using assms(1) [rule_format, of "a - d" a] a(1) p by simp
  qed
qed

subsection \<open>One round of \<open>copyout\<close>\<close>

lemma unat_va_less: "unat va + n \<le> 2 ^ 38 \<Longrightarrow> i < n \<Longrightarrow> va + word_of_nat i < MAXVA" for va :: uint64
  using unat_add_small [of va i] by (simp add: word_less_nat_alt unat_MAXVA)

lemma copyout_round:
  assumes ok: "pt_ok (vs_mem vs) root" and va: "va < MAXVA" and w: "writable_at (vs_mem vs) root va" and len: "0 < len"
    and pa: "walkaddr (vs_mem vs) root (PGROUNDDOWN va) = Some w0" "w0 \<noteq> 0"
  defines "n \<equiv> min (PGSZ - (va - PGROUNDDOWN va)) len"
  shows "copyout af rd mm root vs va src len =
    copyout af rd mm root (vs\<lparr>vs_mem := memmove_pa (vs_mem vs) (unat (w0 + (va - PGROUNDDOWN va))) src (unat n)\<rparr>)
      (PGROUNDDOWN va + PGSZ) (src + unat n) (len - n)"
proof -
  let ?s = "vs_mem vs"
  have d: "PGROUNDDOWN va < MAXVA" using PGROUNDDOWN_le [of va] va by simp
  obtain k e where e: "lkup ?s 2 root va = Some (k, e)" "has_flag e PTE_W" using w by (auto simp: writable_at_def)
  have "lkup ?s 2 root (PGROUNDDOWN va) = lkup ?s 2 root va"
    using lkup_same_page same_vpn_iff [OF d va] by (simp add: unat_PGROUNDDOWN)
  then obtain q where q: "walk Some ?s root (PGROUNDDOWN va) False 0 = Some (?s, int k, Some q)" "ld64 ?s q = e"
    using walk_read [OF ok d, of Some] e(1) by auto
  have ne: "e \<noteq> 0" using e(2) by auto
  have "has_flag (PTE_FLAGS e) PTE_W" using e(2) by (simp add: has_flag_flags)
  then show ?thesis
    using q ne pa len d by (subst copyout.simps) (simp add: n_def Let_def not_le [symmetric])
qed

definition put_out :: "(nat \<Rightarrow> nat) \<Rightarrow> (nat \<Rightarrow> byte) \<Rightarrow> nat \<Rightarrow> nat \<Rightarrow> (nat \<Rightarrow> byte) \<Rightarrow> bool" where
  "put_out P m src n m' \<longleftrightarrow> (\<forall>i<n. m' (P i) = m (src + i)) \<and> (\<forall>x. x \<notin> P ` {..<n} \<longrightarrow> m' x = m x)"

lemma put_out_glue:
  assumes k: "k \<le> n" and inj: "inj_on P {..<n}" and src: "\<forall>i<n. P i < src \<or> src + n \<le> P i"
    and one: "put_out P m src k m1" and rest: "put_out (\<lambda>i. P (k + i)) m1 (src + k) (n - k) m'"
  shows "put_out P m src n m'"
proof -
  have img: "(\<lambda>i. P (k + i)) ` {..<n - k} = P ` {k..<n}"
  proof -
    have "(\<lambda>i. k + i) ` {..<n - k} = {k..<n}" using k by (auto simp: image_iff) (metis add_diff_inverse_nat diff_less_mono le_less_trans lessThan_iff not_less)
    then show ?thesis by (metis image_image)
  qed
  have R: "m' x = m1 x" if "x \<notin> P ` {k..<n}" for x using rest that unfolding put_out_def img by blast
  have O: "m1 x = m x" if "x \<notin> P ` {..<k}" for x using one that by (simp add: put_out_def)
  have "m' (P i) = m (src + i)" if i: "i < n" for i
  proof (cases "i < k")
    case True
    then have "P i \<notin> P ` {k..<n}" using inj_onD [OF inj] i by fastforce
    then show ?thesis using R one True by (simp add: put_out_def)
  next
    case False
    then obtain j where j: "i = k + j" "j < n - k" using i by (metis add_diff_inverse_nat diff_less_mono not_less)
    have "src + i \<notin> P ` {..<k}"
    proof
      assume "src + i \<in> P ` {..<k}"
      then obtain l where "src + i = P l" "l < k" by blast
      then show False using src [rule_format, of l] i k by simp
    qed
    then have "m1 (src + i) = m (src + i)" by (rule O)
    then show ?thesis using rest j by (simp add: put_out_def add.assoc)
  qed
  moreover have "m' x = m x" if "x \<notin> P ` {..<n}" for x
  proof -
    have "P ` {k..<n} \<subseteq> P ` {..<n}" "P ` {..<k} \<subseteq> P ` {..<n}" using k by auto
    then show ?thesis using R O that by (metis in_mono)
  qed
  ultimately show ?thesis by (simp add: put_out_def)
qed

lemma user_buf_rest:
  assumes b: "user_buf s root va n src" and k: "k \<le> n"
    and same: "\<And>x. x < MAXVA \<Longrightarrow> lkup s' 2 root x = lkup s 2 root x" "\<And>x. x < MAXVA \<Longrightarrow> user_pa s' root x = user_pa s root x" "tabs s' 2 root = tabs s 2 root"
  shows "user_buf s' root (va + word_of_nat k) (n - k) (src + k)" "i < n - k \<Longrightarrow> user_byte s' root (va + word_of_nat k) i = user_byte s root va (k + i)"
proof -
  have len: "unat va + n \<le> 2 ^ 38" using b by (simp add: user_buf_def)
  have x: "va + word_of_nat k + word_of_nat i = va + word_of_nat (k + i)" "va + word_of_nat (k + i) < MAXVA" if "i < n - k" for i
    using that unat_va_less [OF len, of "k + i"] by (simp_all add: add.assoc)
  have ub: "user_byte s' root (va + word_of_nat k) i = user_byte s root va (k + i)" if "i < n - k" for i
    unfolding user_byte_def x(1) [OF that] same(2) [OF x(2) [OF that]] ..
  then show "i < n - k \<Longrightarrow> user_byte s' root (va + word_of_nat k) i = user_byte s root va (k + i)" by blast
  have "unat (va + word_of_nat k) = unat va + k" using unat_add_small [of va k] len k by simp
  moreover have "inj_on (user_byte s' root (va + word_of_nat k)) {..<n - k}"
    using b ub by (intro inj_onI) (auto simp: user_buf_def dest!: inj_onD [where A = "{..<n}"])
  moreover have "writable_at s' root (va + word_of_nat k + word_of_nat i)" if "i < n - k" for i
    unfolding writable_at_def x(1) [OF that] same(1) [OF x(2) [OF that]] using b that by (simp add: user_buf_def writable_at_def del: of_nat_add)
  moreover have "(user_byte s root va (k + i) < src + k \<or> src + k + (n - k) \<le> user_byte s root va (k + i)) \<and>
      (\<forall>a\<in>tabs s 2 root. user_byte s root va (k + i) < a \<or> a + PGSIZE \<le> user_byte s root va (k + i))" if "i < n - k" for i
  proof -
    have "k + i < n" using that by simp
    then have "user_byte s root va (k + i) < src \<or> src + n \<le> user_byte s root va (k + i)"
      "\<forall>a\<in>tabs s 2 root. user_byte s root va (k + i) < a \<or> a + PGSIZE \<le> user_byte s root va (k + i)"
      using b unfolding user_buf_def Let_def by blast+
    then show ?thesis using k by auto
  qed
  ultimately show "user_buf s' root (va + word_of_nat k) (n - k) (src + k)"
    using len k ub same(3) by (simp add: user_buf_def Let_def)
qed

lemma copyout_spec:
  assumes "pt_ok (vs_mem vs) root" "leaves_ok (vs_mem vs) root" "user_buf (vs_mem vs) root va (unat len) src"
  shows "\<exists>m'. copyout af rd mm root vs va src len = Some (vs\<lparr>vs_mem := vs_mem vs\<lparr>km_mem := m'\<rparr>\<rparr>, 0) \<and>
    put_out (user_byte (vs_mem vs) root va) (km_mem (vs_mem vs)) src (unat len) m'"
  using assms
proof (induction "unat len" arbitrary: vs va src len rule: less_induct)
  case less
  let ?s = "vs_mem vs" and ?P = "user_byte (vs_mem vs) root va"
  show ?case
  proof (cases "0 < len")
    case False
    then have "len = 0" by (simp add: word_less_nat_alt unat_eq_0)
    then show ?thesis by (intro exI [of _ "km_mem ?s"]) (simp add: copyout.simps put_out_def)
  next
    case True
    then have ul: "0 < unat len" by (simp add: word_less_nat_alt)
    have B: "unat va + unat len \<le> 2 ^ 38" "\<forall>i<unat len. writable_at ?s root (va + word_of_nat i)" "inj_on ?P {..<unat len}"
      "\<forall>i<unat len. ?P i < src \<or> src + unat len \<le> ?P i" "\<forall>i<unat len. \<forall>a\<in>tabs ?s 2 root. ?P i < a \<or> a + PGSIZE \<le> ?P i"
      using less.prems(3) by (simp_all add: user_buf_def Let_def)
    have va: "va < MAXVA" using unat_va_less [OF B(1) ul] by simp
    have wr: "writable_at ?s root va" using B(2) [rule_format, OF ul] by simp
    have "PGROUNDDOWN va < MAXVA" using PGROUNDDOWN_le [of va] va by simp
    then obtain w where w: "walkaddr ?s root (PGROUNDDOWN va) = Some w" using walkaddr_lkup [OF less.prems(1)] by blast
    note pb = page_bytes [OF less.prems(1,2) va w]
    have w0: "w \<noteq> 0" using pb(1) writable_user_pa [OF less.prems(1,2) va wr] by auto
    define n where "n = min (PGSZ - (va - PGROUNDDOWN va)) len"
    define d where "d = unat (w + (va - PGROUNDDOWN va))"
    define s1 where "s1 = memmove_pa ?s d src (unat n)"
    note n = chunk_facts [OF True B(1), folded n_def]
    have P: "?P i = d + i" if "i < unat n" for i using pb(2) [OF w0] n(3) that by (simp add: user_byte_def d_def)
    have run: "copyout af rd mm root vs va src len = copyout af rd mm root (vs\<lparr>vs_mem := s1\<rparr>) (PGROUNDDOWN va + PGSZ) (src + unat n) (len - n)"
      unfolding s1_def d_def n_def by (rule copyout_round [OF less.prems(1) va wr True w w0])
    have aw: "away ?s root d (unat n)"
    proof (rule away_bytes [OF _ n(1)], intro allI impI)
      fix i
      assume i: "i < unat n"
      then show "\<forall>a\<in>tabs ?s 2 root. d + i < a \<or> a + PGSIZE \<le> d + i" using B(5) [rule_format, of i] P [OF i] n(2) by simp
    qed
    have e: "same_ents (tabs ?s 2 root) ?s s1" using aw by (rule same_ents_away) (auto simp: s1_def memmove_pa_eq)
    have pt: "pt_ok s1 root" "leaves_ok s1 root" "\<And>x. x < MAXVA \<Longrightarrow> user_pa s1 root x = user_pa ?s root x"
      unfolding s1_def using memmove_keeps_pt [OF less.prems(1,2) aw] va by blast+
    have same: "tabs s1 2 root = tabs ?s 2 root" "\<And>x. lkup s1 2 root x = lkup ?s 2 root x"
      using same_ents_pt [OF less.prems(1) e] by (simp_all add: s1_def)
    have one: "put_out ?P (km_mem ?s) src (unat n) (km_mem s1)"
      using P by (auto simp: put_out_def s1_def memmove_pa_eq image_iff) (metis add_diff_inverse_nat nat_add_left_cancel_less not_less lessThan_iff)
    note rest = user_buf_rest [OF less.prems(3) n(2) same(2) pt(3) same(1), unfolded n(4) [symmetric]]
    show ?thesis
    proof (cases "unat n = unat len")
      case True
      then have "len - n = 0" using n(4) by (simp add: unat_eq_0)
      then have "copyout af rd mm root vs va src len = Some (vs\<lparr>vs_mem := ?s\<lparr>km_mem := km_mem s1\<rparr>\<rparr>, 0)"
        unfolding run by (simp add: copyout.simps s1_def memmove_pa_eq)
      then show ?thesis using one True by auto
    next
      case False
      then have nv: "PGROUNDDOWN va + PGSZ = va + word_of_nat (unat n)" using n(2,5) by simp
      have "unat (len - n) < unat len" using n(1,2,4) by simp
      from less.hyps [OF this, of "vs\<lparr>vs_mem := s1\<rparr>" "va + word_of_nat (unat n)" "src + unat n"] pt(1,2) rest(1)
      obtain m' where m': "copyout af rd mm root (vs\<lparr>vs_mem := s1\<rparr>) (va + word_of_nat (unat n)) (src + unat n) (len - n) =
          Some (vs\<lparr>vs_mem := s1\<lparr>km_mem := m'\<rparr>\<rparr>, 0)"
        "put_out (user_byte s1 root (va + word_of_nat (unat n))) (km_mem s1) (src + unat n) (unat (len - n)) m'"
        by auto
      have "put_out (\<lambda>i. ?P (unat n + i)) (km_mem s1) (src + unat n) (unat len - unat n) m'"
        using m'(2) rest(2) unfolding put_out_def n(4) by (auto simp: image_iff)
      from put_out_glue [OF n(2) B(3,4) one this] show ?thesis
        using run m'(1) unfolding nv by (intro exI [of _ m']) (simp add: s1_def memmove_pa_eq)
    qed
  qed
qed

subsection \<open>Writes outside the tables\<close>

definition tables_kept :: "kmem \<Rightarrow> nat \<Rightarrow> (nat \<Rightarrow> byte) \<Rightarrow> bool" where
  "tables_kept s root m \<longleftrightarrow> (\<forall>a\<in>tabs s 2 root. \<forall>x. a \<le> x \<and> x < a + PGSIZE \<longrightarrow> m x = km_mem s x)"

lemma keep_pt:
  assumes ok: "pt_ok s root" "leaves_ok s root" and k: "tables_kept s root m"
  defines "s' \<equiv> s\<lparr>km_mem := m\<rparr>"
  shows "pt_ok s' root" "leaves_ok s' root" "tabs s' 2 root = tabs s 2 root" "lkup s' 2 root va = lkup s 2 root va"
    "x < MAXVA \<Longrightarrow> user_pa s' root x = user_pa s root x"
proof -
  have "same_ents (tabs s 2 root) s s'"
    unfolding same_ents_def ent_def
  proof (intro ballI allI impI)
    fix a i assume a: "a \<in> tabs s 2 root" "i < (512 :: nat)"
    then have "m x = km_mem s x" if "a \<le> x" "x < a + 4096" for x using k that by (auto simp: tables_kept_def PGSIZE_def)
    then show "ld64 s' (a + 8 * i) = ld64 s (a + 8 * i)" using a(2) by (intro ld64_cong) (simp add: s'_def)
  qed
  note p = same_ents_pt [OF ok(1) this]
  show pk: "pt_ok s' root" "tabs s' 2 root = tabs s 2 root" "lkup s' 2 root va = lkup s 2 root va" for va
    using p by (simp_all add: s'_def)
  show lv: "leaves_ok s' root" using ok(2) pk(3) by (simp add: leaves_ok_def)
  show "x < MAXVA \<Longrightarrow> user_pa s' root x = user_pa s root x"
    unfolding user_pa_lkup [OF pk(1) lv] user_pa_lkup [OF ok] pk(3) ..
qed

lemma keep_byte:
  assumes "pt_ok s root" "leaves_ok s root" "tables_kept s root m" "unat va + n \<le> 2 ^ 38" "i < n"
  shows "user_byte (s\<lparr>km_mem := m\<rparr>) root va i = user_byte s root va i"
  using keep_pt(5) [OF assms(1-3) unat_va_less [OF assms(4,5)]] by (simp add: user_byte_def)

lemma keep_buf:
  assumes ok: "pt_ok s root" "leaves_ok s root" "tables_kept s root m" and b: "user_buf s root va n src"
  shows "user_buf (s\<lparr>km_mem := m\<rparr>) root va n src"
proof -
  have len: "unat va + n \<le> 2 ^ 38" using b by (simp add: user_buf_def)
  have "inj_on (user_byte (s\<lparr>km_mem := m\<rparr>) root va) {..<n} \<longleftrightarrow> inj_on (user_byte s root va) {..<n}"
    using keep_byte [OF ok len] by (intro inj_on_cong) simp
  then show ?thesis
    using b keep_byte [OF ok len] keep_pt(3,4) [OF ok] by (simp add: user_buf_def writable_at_def Let_def)
qed

lemma tables_kept_outside:
  assumes "\<And>x. (\<forall>a\<in>tabs s 2 root. x < a \<or> a + PGSIZE \<le> x) \<or> m x = km_mem s x"
  shows "tables_kept s root m"
  unfolding tables_kept_def
proof (intro ballI allI impI)
  fix a x
  assume "a \<in> tabs s 2 root" "a \<le> x \<and> x < a + PGSIZE"
  then have "\<not> (\<forall>a\<in>tabs s 2 root. x < a \<or> a + PGSIZE \<le> x)" by (metis not_less)
  then show "m x = km_mem s x" using assms by blast
qed

lemma put_out_tables:
  assumes "put_out (user_byte s root va) (km_mem s) src n m" "user_buf s root va n src'"
  shows "tables_kept s root m"
proof (rule tables_kept_outside)
  fix x
  show "(\<forall>a\<in>tabs s 2 root. x < a \<or> a + PGSIZE \<le> x) \<or> m x = km_mem s x"
    using assms by (cases "x \<in> user_byte s root va ` {..<n}") (auto simp: put_out_def user_buf_def Let_def)
qed

lemma copyin_frame: "copyin s root dst va len = Some (s', r) \<Longrightarrow> s' = s\<lparr>km_mem := km_mem s'\<rparr>"
proof (induction s root dst va len rule: copyin.induct)
  case (1 s root dst va len)
  show ?case
  proof (cases "0 < len")
    case False
    then show ?thesis using "1.prems" by (subst (asm) copyin.simps) simp
  next
    case True
    let ?n = "min (PGSZ - (va - PGROUNDDOWN va)) len"
    obtain w where w: "walkaddr s root (PGROUNDDOWN va) = Some w" using "1.prems" True by (subst (asm) copyin.simps) (auto split: option.splits)
    show ?thesis
    proof (cases "w = 0")
      case True
      then show ?thesis using "1.prems" w \<open>0 < len\<close> by (subst (asm) copyin.simps) simp
    next
      case False
      let ?s1 = "memmove_pa s dst (unat (w + (va - PGROUNDDOWN va))) (unat ?n)"
      have "copyin ?s1 root (dst + unat ?n) (PGROUNDDOWN va + PGSZ) (len - ?n) = Some (s', r)"
        using "1.prems" w False True by (subst (asm) copyin.simps) (simp add: Let_def)
      from "1.IH" [OF True w False refl refl this] show ?thesis by (simp add: memmove_pa_eq)
    qed
  qed
qed

text \<open>\<open>copyin\<close> from such a buffer.\<close>

lemma copyin_buf:
  assumes ok: "pt_ok s root" "leaves_ok s root" and b: "user_buf s root va (unat len) dst" and aw: "away s root dst (unat len)"
  shows "\<exists>s'. copyin s root dst va len = Some (s', 0) \<and> s' = s\<lparr>km_mem := km_mem s'\<rparr> \<and>
    (\<forall>x. x < dst \<or> dst + unat len \<le> x \<longrightarrow> km_mem s' x = km_mem s x) \<and> (\<forall>i<unat len. km_mem s' (dst + i) = km_mem s (user_byte s root va i))"
proof -
  have B: "unat va + unat len \<le> 2 ^ 38" "\<forall>i<unat len. writable_at s root (va + word_of_nat i)"
    "\<forall>i<unat len. user_byte s root va i < dst \<or> dst + unat len \<le> user_byte s root va i" using b by (simp_all add: user_buf_def Let_def)
  have u: "user_pa s root (va + word_of_nat i) = Some (user_byte s root va i)" if "i < unat len" for i
    using writable_user_pa [OF ok unat_va_less [OF B(1) that]] B(2) that by (auto simp: user_byte_def)
  obtain s' r where c: "copyin s root dst va len = Some (s', r)" "copied (\<lambda>i. user_pa s root (va + word_of_nat i)) (km_mem s) dst (unat len) (km_mem s') r"
    using copyin_spec [OF ok B(1) aw] u B(3) by (auto simp del: of_nat_add)
  have "r = 0 \<and> (\<forall>i<unat len. km_mem s' (dst + i) = km_mem s (user_byte s root va i)) \<and> (\<forall>x. x < dst \<or> dst + unat len \<le> x \<longrightarrow> km_mem s' x = km_mem s x)"
    using c(2) u by (auto simp: copied_def split: if_splits)
  then show ?thesis using c(1) copyin_frame [OF c(1)] by auto
qed

subsection \<open>The round trip\<close>

text \<open>C8. What \<open>copyout\<close> stores in mapped writable user memory \<open>copyin\<close> reads back: the destination buffer in the kernel then holds the
  bytes of the source buffer, for every length and alignment, and in between only the user's bytes have changed.\<close>

theorem user_copy_roundtrip:
  assumes "pt_ok (vs_mem vs) root" "leaves_ok (vs_mem vs) root" "user_buf (vs_mem vs) root va (unat len) src"
    "\<forall>a\<in>tabs (vs_mem vs) 2 root. dst + unat len \<le> a \<or> a + PGSIZE \<le> dst"
    "\<forall>i<unat len. user_byte (vs_mem vs) root va i < dst \<or> dst + unat len \<le> user_byte (vs_mem vs) root va i"
  shows "\<exists>m1 s2. copyout af rd mm root vs va src len = Some (vs\<lparr>vs_mem := vs_mem vs\<lparr>km_mem := m1\<rparr>\<rparr>, 0) \<and>
    (\<forall>x. x \<notin> user_byte (vs_mem vs) root va ` {..<unat len} \<longrightarrow> m1 x = km_mem (vs_mem vs) x) \<and>
    copyin (vs_mem vs\<lparr>km_mem := m1\<rparr>) root dst va len = Some (s2, 0) \<and>
    (\<forall>i<unat len. km_mem s2 (dst + i) = km_mem (vs_mem vs) (src + i))"
proof -
  let ?s = "vs_mem vs" and ?P = "user_byte (vs_mem vs) root va"
  have B: "unat va + unat len \<le> 2 ^ 38" "\<forall>i<unat len. writable_at ?s root (va + word_of_nat i)"
    "\<forall>i<unat len. \<forall>a\<in>tabs ?s 2 root. ?P i < a \<or> a + PGSIZE \<le> ?P i"
    using assms(3) by (simp_all add: user_buf_def Let_def)
  obtain m1 where m1: "copyout af rd mm root vs va src len = Some (vs\<lparr>vs_mem := ?s\<lparr>km_mem := m1\<rparr>\<rparr>, 0)"
    "\<forall>i<unat len. m1 (?P i) = km_mem ?s (src + i)" "\<forall>x. x \<notin> ?P ` {..<unat len} \<longrightarrow> m1 x = km_mem ?s x"
    using copyout_spec [OF assms(1-3), of af rd mm] by (auto simp: put_out_def)
  let ?s1 = "?s\<lparr>km_mem := m1\<rparr>"
  have "tables_kept ?s root m1" by (rule put_out_tables [OF _ assms(3), where src = src]) (simp add: put_out_def m1(2,3))
  note p = keep_pt [OF assms(1,2) this]
  have u: "user_pa ?s1 root (va + word_of_nat i) = Some (?P i)" if "i < unat len" for i
    using writable_user_pa [OF assms(1,2) unat_va_less [OF B(1) that]] B(2) that p(5) [OF unat_va_less [OF B(1) that]] by (auto simp: user_byte_def)
  have "away ?s1 root dst (unat len)" using assms(4) p(3) by (simp add: away_def)
  from copyin_spec [OF p(1,2) B(1) this] obtain s2 r where
    c: "copyin ?s1 root dst va len = Some (s2, r)" "copied (\<lambda>i. user_pa ?s1 root (va + word_of_nat i)) m1 dst (unat len) (km_mem s2) r"
    using u assms(5) by (auto simp del: of_nat_add)
  have "r = 0 \<and> (\<forall>i<unat len. km_mem s2 (dst + i) = m1 (?P i))"
    using c(2) u by (auto simp: copied_def split: if_splits)
  then show ?thesis using m1 c(1) by (intro exI [of _ m1] exI [of _ s2]) simp
qed

subsection \<open>A concrete instance\<close>

definition demo_w :: uint64 where "demo_w = PTE_R OR PTE_W OR PTE_U"

lemma demo_w_leaf: "leaf_ok 0 (leaf_pte 0x1000 demo_w)" "has_flag (leaf_pte 0x1000 demo_w) PTE_W" "has_flag (leaf_pte 0x1000 demo_w) PTE_U"
  "unat (PTE2PA (leaf_pte 0x1000 demo_w)) = 4096"
proof -
  have v: "leaf_pte 0x1000 demo_w = 0x417" by (simp add: leaf_pte_def PA2PTE_def demo_w_def pte_flag_defs)
  show p: "unat (PTE2PA (leaf_pte 0x1000 demo_w)) = 4096" "has_flag (leaf_pte 0x1000 demo_w) PTE_W" "has_flag (leaf_pte 0x1000 demo_w) PTE_U"
    unfolding v by (simp_all add: PTE2PA_def has_flag_def pte_flag_defs)
  have "has_flag (leaf_pte 0x1000 demo_w) PTE_R" unfolding v by (simp add: has_flag_def pte_flag_defs)
  moreover have "PTE2PA (leaf_pte 0x1000 demo_w) \<noteq> 0" using p(1) by auto
  ultimately show "leaf_ok 0 (leaf_pte 0x1000 demo_w)" using p(1) by (simp add: leaf_ok_def)
qed

lemmas demo_w_ok = demo_map_ok [OF demo_w_leaf(1)]

lemma demo_w_byte:
  assumes "k + i < 4096"
  shows "0x5000 + word_of_nat k + word_of_nat i < MAXVA" "writable_at (demo_map demo_w) START_MEM (0x5000 + word_of_nat k + word_of_nat i)"
    "user_byte (demo_map demo_w) START_MEM (0x5000 + word_of_nat k) i = 4096 + (k + i)"
proof -
  let ?x = "0x5000 + word_of_nat (k + i) :: uint64"
  have e: "0x5000 + word_of_nat k + word_of_nat i = ?x" by (simp add: add.assoc)
  have x: "unat ?x = 0x5000 + (k + i)" using assms by (subst unat_add_small) simp_all
  then have m: "?x < MAXVA" using assms by (simp add: word_less_nat_alt unat_MAXVA del: of_nat_add)
  have "(0x5000 + (k + i)) div 4096 = 5" "(0x5000 + (k + i)) mod 4096 = k + i" using assms page_add [of "0x5000" "k + i"] by simp_all
  then have l: "lkup (demo_map demo_w) 2 START_MEM ?x = Some (0, leaf_pte 0x1000 demo_w)" "unat ?x mod 4096 = k + i"
    using demo_w_ok(5) [OF m] x by simp_all
  show "0x5000 + word_of_nat k + word_of_nat i < MAXVA" "writable_at (demo_map demo_w) START_MEM (0x5000 + word_of_nat k + word_of_nat i)"
    unfolding e using m l(1) demo_w_leaf by (simp_all add: writable_at_def)
  show "user_byte (demo_map demo_w) START_MEM (0x5000 + word_of_nat k) i = 4096 + (k + i)"
    unfolding user_byte_def e using user_pa_lkup [OF demo_w_ok(2,3) m] l demo_w_leaf by simp
qed

lemma demo_w_buf:
  assumes "k + n \<le> 4096" "src + n \<le> 4096"
  shows "user_buf (demo_map demo_w) START_MEM (0x5000 + word_of_nat k) n src"
proof -
  have "unat (0x5000 + word_of_nat k :: uint64) = 0x5000 + k" using assms(1) by (subst unat_add_small) simp_all
  moreover have "inj_on (user_byte (demo_map demo_w) START_MEM (0x5000 + word_of_nat k)) {..<n}"
    using demo_w_byte(3) assms(1) by (intro inj_onI) simp
  moreover have "4096 + (k + i) < a" if "a \<in> tabs (demo_map demo_w) 2 START_MEM" "i < n" for a i
    using demo_w_ok(4) that assms(1) by (fastforce simp: START_MEM_def)
  ultimately show ?thesis
    using demo_w_byte assms by (simp add: user_buf_def Let_def)
qed

theorem user_copy_roundtrip_witness:
  "\<exists>m1 s2. copyout Some (\<lambda>_ _ _ m. m) demo_mm START_MEM (demo_vs\<lparr>vs_mem := demo_map demo_w\<rparr>) 0x5004 16 8 =
      Some (demo_vs\<lparr>vs_mem := demo_map demo_w\<lparr>km_mem := m1\<rparr>\<rparr>, 0) \<and>
    copyin (demo_map demo_w\<lparr>km_mem := m1\<rparr>) START_MEM 32 0x5004 8 = Some (s2, 0) \<and>
    (\<forall>i<8. km_mem s2 (32 + i) = km_mem (demo_map demo_w) (16 + i))"
proof -
  let ?vs = "demo_vs\<lparr>vs_mem := demo_map demo_w\<rparr>"
  have v: "vs_mem ?vs = demo_map demo_w" by simp
  have a: "0x5004 = 0x5000 + (word_of_nat 4 :: uint64)" by simp
  have b: "user_buf (demo_map demo_w) START_MEM 0x5004 (unat (8 :: uint64)) 16" unfolding a by (rule demo_w_buf) simp_all
  have t: "\<forall>a\<in>tabs (demo_map demo_w) 2 START_MEM. 32 + unat (8 :: uint64) \<le> a \<or> a + PGSIZE \<le> 32"
    using demo_w_ok(4) by (fastforce simp: START_MEM_def)
  have d: "\<forall>i<unat (8 :: uint64). user_byte (demo_map demo_w) START_MEM 0x5004 i < 32 \<or> 32 + unat (8 :: uint64) \<le> user_byte (demo_map demo_w) START_MEM 0x5004 i"
    unfolding a using demo_w_byte(3) [of 4] by simp
  show ?thesis
    using user_copy_roundtrip [of ?vs START_MEM "0x5004" 8 16 32 Some "\<lambda>_ _ _ m. m" demo_mm, unfolded v, OF demo_w_ok(2,3) b t d] by auto
qed

end
