(* ===== verification/Signal.thy ===== *)
theory Signal
  imports UserCopy
begin

text \<open>
  Signals (\<open>src/ipc/signal.c\<close>, the macros of \<open>include/ipc/signal.h\<close>, \<open>sys_rt_sigreturn\<close> of \<open>src/kernel/sysproc.c\<close> and the return
  of a system call in \<open>src/kernel/syscall.c\<close>): sending and queueing, delivery with the frame on the user stack, masks and
  actions.

  \<open>sigtcb\<close> holds the fields of a thread the signal code uses.  The queue of pending signals is the list of its nodes in order, each with
  the address of the page it was allocated in.  The trap frame is the list of its 70 words in the order of the structure.
  The structures \<open>uc\<close> and \<open>uc_riscv\<close> on the kernel stack lie at the addresses \<open>ucp\<close> and \<open>ucrp\<close>; locks are left out.
\<close>

unbundle bit_operations_syntax

subsection \<open>Signal sets\<close>

definition NSIG :: int where "NSIG = 64"
definition valid_signal :: "int \<Rightarrow> bool" where "valid_signal sig \<longleftrightarrow> 1 \<le> sig \<and> sig \<le> NSIG"

definition SIGKILL :: int where "SIGKILL = 9"
definition SIGTERM :: int where "SIGTERM = 15"
definition SIGSTOP :: int where "SIGSTOP = 17"
definition SIGCHLD :: int where "SIGCHLD = 20"

definition SIG_DFL :: uint64 where "SIG_DFL = 0"
definition SIG_IGN :: uint64 where "SIG_IGN = 1"

text \<open>A shift of a 64-bit value takes its amount modulo 64.\<close>

definition sig_gen_mask :: "int \<Rightarrow> uint64" where "sig_gen_mask sig = push_bit (nat ((sig - 1) mod 64)) 1"
definition sig_is_member :: "uint64 \<Rightarrow> int \<Rightarrow> bool" where "sig_is_member sset sig \<longleftrightarrow> bit sset (nat ((sig - 1) mod 64))"
definition sig_add_set :: "uint64 \<Rightarrow> int \<Rightarrow> uint64" where "sig_add_set sset sig = sset OR sig_gen_mask sig"
definition sig_del_set_mask :: "uint64 \<Rightarrow> uint64 \<Rightarrow> uint64" where "sig_del_set_mask sset msk = sset AND NOT msk"
definition sig_test_mask :: "uint64 \<Rightarrow> uint64 \<Rightarrow> bool" where "sig_test_mask sset msk \<longleftrightarrow> sset AND msk \<noteq> 0"

subsection \<open>Data\<close>

record siginfo_t =
  si_signo :: int
  si_code :: int

record sigaction =
  sa_handler :: uint64
  sa_flags :: uint
  sa_mask :: uint64

record sigtcb =
  sig_pending_cnt :: int
  action :: "sigaction list"
  blocked :: uint64
  pending_signal :: uint64
  pending_list :: "(nat \<times> siginfo_t) list"
  sig_ing :: uint64
  t_killed :: bool
  trapframe :: "uint64 list"

definition TF_EPC :: nat where "TF_EPC = 3"
definition TF_RA :: nat where "TF_RA = 5"
definition TF_SP :: nat where "TF_SP = 6"
definition TF_A0 :: nat where "TF_A0 = 14"
definition TF_A1 :: nat where "TF_A1 = 15"
definition TF_A2 :: nat where "TF_A2 = 16"

text \<open>Sizes and offsets of the structures on the user stack: \<open>struct rt_sigframe\<close> is a \<open>ucontext_t\<close> of 960 bytes, the word of the program
  counter at 176, followed by a \<open>struct ucontext\<close> of 72 words.\<close>

definition sizeof_trapframe :: nat where "sizeof_trapframe = 70 * 8"
definition sizeof_ucontext :: nat where "sizeof_ucontext = sizeof_trapframe + 16"
definition sizeof_ucontext_t :: nat where "sizeof_ucontext_t = 960"
definition MC_PC_off :: nat where "MC_PC_off = 176"
definition sizeof_rt_sigframe :: nat where "sizeof_rt_sigframe = sizeof_ucontext_t + sizeof_ucontext"

subsection \<open>The pending queue\<close>

fun free_nodes :: "kmem \<Rightarrow> nat list \<Rightarrow> kmem option" where
  "free_nodes s [] = Some s"
| "free_nodes s (a # as) = do { s \<leftarrow> kfree s a; free_nodes s as }"

definition pops :: "uint64 \<Rightarrow> siginfo_t \<Rightarrow> bool" where
  "pops msk info \<longleftrightarrow> valid_signal (si_signo info) \<and> msk AND sig_gen_mask (si_signo info) \<noteq> 0"

definition signal_queue_pop :: "kmem \<Rightarrow> uint64 \<Rightarrow> sigtcb \<Rightarrow> (kmem \<times> sigtcb \<times> int) option" where
  "signal_queue_pop s msk t =
     (if \<not> sig_test_mask (pending_signal t) msk then Some (s, t, 0)
      else do {
        s \<leftarrow> free_nodes s (List.map fst (filter (\<lambda>(a, info). pops msk info) (pending_list t)));
        Some (s, t\<lparr>pending_signal := sig_del_set_mask (pending_signal t) msk,
          pending_list := filter (\<lambda>(a, info). \<not> pops msk info) (pending_list t)\<rparr>, 1) })"

definition signal_queue_flush :: "kmem \<Rightarrow> sigtcb \<Rightarrow> (kmem \<times> sigtcb \<times> int) option" where
  "signal_queue_flush s t = do {
     s \<leftarrow> free_nodes s (List.map fst (pending_list t));
     Some (s, t\<lparr>pending_signal := 0, pending_list := []\<rparr>, 1) }"

definition signal_info_init :: "int \<Rightarrow> int \<Rightarrow> siginfo_t option" where
  "signal_info_init sig opt =
     (if opt = 0 then Some \<lparr>si_signo = sig, si_code = 0\<rparr>
      else if opt = 1 then Some \<lparr>si_signo = sig, si_code = 0x80\<rparr>
      else None)"

definition sigpending_init :: "sigtcb \<Rightarrow> sigtcb" where
  "sigpending_init t = t\<lparr>pending_signal := 0, pending_list := []\<rparr>"

definition signal_send :: "(kmem \<Rightarrow> kmem option) \<Rightarrow> kmem \<Rightarrow> siginfo_t \<Rightarrow> sigtcb \<Rightarrow> (kmem \<times> sigtcb \<times> int) option" where
  "signal_send af s info t =
     (let sig = si_signo info in
      if sig_is_member (pending_signal t) sig then Some (s, t, 0)
      else do {
        let t = (if sig = SIGKILL \<or> sig = SIGSTOP \<or> sig = SIGTERM then t\<lparr>t_killed := True\<rparr> else t);
        (s, q) \<leftarrow> kalloc af s;
        case q of
          None \<Rightarrow> Some (s, t, 0)
        | Some a \<Rightarrow> Some (s, t\<lparr>sig_pending_cnt := sig_pending_cnt t + 1, pending_list := pending_list t @ [(a, info)],
            pending_signal := sig_add_set (pending_signal t) sig\<rparr>, 1) })"

subsection \<open>The frame on the user stack\<close>

fun st_words :: "kmem \<Rightarrow> nat \<Rightarrow> uint64 list \<Rightarrow> kmem" where
  "st_words s a [] = s"
| "st_words s a (w # ws) = st_words (st64 s a w) (a + 8) ws"

definition ld_words :: "kmem \<Rightarrow> nat \<Rightarrow> nat \<Rightarrow> uint64 list" where
  "ld_words s a n = List.map (\<lambda>i. ld64 s (a + 8 * i)) [0 ..< n]"

definition get_sigframe :: "uint64 list \<Rightarrow> nat \<Rightarrow> uint64" where
  "get_sigframe tf framesize = (tf ! TF_SP - word_of_nat framesize) AND NOT 0xF"

definition signal_frame_setup :: "(kmem \<Rightarrow> kmem option) \<Rightarrow> page_reader \<Rightarrow> nat \<Rightarrow> nat \<Rightarrow> mm_struct \<Rightarrow> vmst \<Rightarrow> uint64 \<Rightarrow> uint64 list \<Rightarrow> uint64 \<Rightarrow> int \<Rightarrow>
    (vmst \<times> int) option" where
  "signal_frame_setup af rd ucp ucrp mm vs sset tf rtf signo = do {
     let vs = vs\<lparr>vs_mem := st_words (vs_mem vs) ucp (tf @ [sset, word_of_int signo])\<rparr>;
     (vs, r) \<leftarrow> copyout af rd mm (pagetable mm) vs (rtf + word_of_nat sizeof_ucontext_t) ucp (word_of_nat sizeof_ucontext);
     if r \<noteq> 0 then Some (vs, -1)
     else do {
       let vs = vs\<lparr>vs_mem := memset_pa (vs_mem vs) ucrp 0 sizeof_ucontext_t\<rparr>;
       (vs, r) \<leftarrow> copyout af rd mm (pagetable mm) vs rtf ucrp (word_of_nat sizeof_ucontext_t);
       Some (vs, if r \<noteq> 0 then -1 else 0) } }"

text \<open>The result of \<open>signal_frame_setup\<close> is not looked at.\<close>

definition setup_rt_frame :: "(kmem \<Rightarrow> kmem option) \<Rightarrow> page_reader \<Rightarrow> nat \<Rightarrow> nat \<Rightarrow> mm_struct \<Rightarrow> vmst \<Rightarrow> sigaction \<Rightarrow> int \<Rightarrow> uint64 \<Rightarrow> uint64 list \<Rightarrow>
    (vmst \<times> uint64 list) option" where
  "setup_rt_frame af rd ucp ucrp mm vs act signo sset tf = do {
     let frame = get_sigframe tf sizeof_rt_sigframe;
     (vs, _) \<leftarrow> signal_frame_setup af rd ucp ucrp mm vs sset tf frame signo;
     Some (vs, tf[TF_RA := SIGRETURN, TF_EPC := sa_handler act, TF_SP := frame, TF_A0 := word_of_int signo, TF_A1 := 0, TF_A2 := frame]) }"

definition do_handle :: "(kmem \<Rightarrow> kmem option) \<Rightarrow> page_reader \<Rightarrow> nat \<Rightarrow> nat \<Rightarrow> mm_struct \<Rightarrow> vmst \<Rightarrow> sigtcb \<Rightarrow> int \<Rightarrow> sigaction \<Rightarrow> (vmst \<times> sigtcb) option" where
  "do_handle af rd ucp ucrp mm vs t signo act = do {
     (vs, tf) \<leftarrow> setup_rt_frame af rd ucp ucrp mm vs act signo (blocked t) (trapframe t);
     Some (vs, t\<lparr>trapframe := tf\<rparr>) }"

definition signal_frame_restore :: "nat \<Rightarrow> nat \<Rightarrow> mm_struct \<Rightarrow> vmst \<Rightarrow> sigtcb \<Rightarrow> uint64 \<Rightarrow> (vmst \<times> sigtcb \<times> int) option" where
  "signal_frame_restore ucp ucrp mm vs t rtf = do {
     (m, r) \<leftarrow> copyin (vs_mem vs) (pagetable mm) ucp (rtf + word_of_nat sizeof_ucontext_t) (word_of_nat sizeof_ucontext);
     let vs = vs\<lparr>vs_mem := m\<rparr>;
     if r \<noteq> 0 then Some (vs, t, -1)
     else do {
       let ws = ld_words m ucp 72;
       let t = t\<lparr>blocked := ws ! 70, trapframe := take 70 ws, sig_ing := ws ! 71\<rparr>;
       (m, r) \<leftarrow> copyin m (pagetable mm) ucrp rtf (word_of_nat sizeof_ucontext_t);
       let vs = vs\<lparr>vs_mem := m\<rparr>;
       if r \<noteq> 0 then Some (vs, t, -1)
       else
         (let MC_PC = ld64 m (ucrp + MC_PC_off)
          in Some (vs, if MC_PC \<noteq> 0 then t\<lparr>trapframe := (trapframe t)[TF_EPC := MC_PC]\<rparr> else t, 0)) } }"

text \<open>\<open>sys_rt_sigreturn\<close>, and its result stored into \<open>a0\<close> by \<open>syscall\<close>.\<close>

definition EINTR :: int where "EINTR = 4"

definition sys_rt_sigreturn :: "nat \<Rightarrow> nat \<Rightarrow> mm_struct \<Rightarrow> vmst \<Rightarrow> sigtcb \<Rightarrow> (vmst \<times> sigtcb \<times> int) option" where
  "sys_rt_sigreturn ucp ucrp mm vs t = do {
     (vs, t, _) \<leftarrow> signal_frame_restore ucp ucrp mm vs t (trapframe t ! TF_SP);
     Some (vs, t\<lparr>pending_signal := sig_del_set_mask (pending_signal t) (sig_gen_mask (uint (sig_ing t)))\<rparr>, - EINTR) }"

definition syscall_return :: "vmst \<times> sigtcb \<times> int \<Rightarrow> vmst \<times> sigtcb" where
  "syscall_return r = (case r of (vs, t, v) \<Rightarrow> (vs, t\<lparr>trapframe := (trapframe t)[TF_A0 := word_of_int v]\<rparr>))"

subsection \<open>Delivery\<close>

text \<open>\<open>wp\<close> is the call \<open>waitpid(-1, 0, 0)\<close> of the default action of SIGCHLD.\<close>

definition signal_DFL :: "(vmst \<Rightarrow> vmst option) \<Rightarrow> vmst \<Rightarrow> sigtcb \<Rightarrow> int \<Rightarrow> (vmst \<times> sigtcb) option" where
  "signal_DFL wp vs t signo =
     (if signo = SIGKILL then Some (vs, t\<lparr>t_killed := True\<rparr>)
      else if signo = SIGCHLD then do { vs \<leftarrow> wp vs; Some (vs, t) }
      else Some (vs, t))"

text \<open>The loop over the queue: \<open>kept\<close> are the nodes passed over.\<close>

fun handle_loop :: "(vmst \<Rightarrow> vmst option) \<Rightarrow> (vmst \<Rightarrow> sigtcb \<Rightarrow> int \<Rightarrow> sigaction \<Rightarrow> (vmst \<times> sigtcb) option) \<Rightarrow> (nat \<times> siginfo_t) list \<Rightarrow> (nat \<times> siginfo_t) list \<Rightarrow>
    vmst \<Rightarrow> sigtcb \<Rightarrow> (vmst \<times> sigtcb) option" where
  "handle_loop wp dh kept [] vs t = Some (vs, t\<lparr>pending_list := kept\<rparr>)"
| "handle_loop wp dh kept ((a, info) # rest) vs t = do {
     let signo = si_signo info;
     ASSERT (valid_signal signo);
     if sig_is_member (blocked t) signo then handle_loop wp dh (kept @ [(a, info)]) rest vs t
     else do {
       let act = action t ! nat (signo - 1);
       if sa_handler act = SIG_DFL then do {
         (vs, t) \<leftarrow> signal_DFL wp vs t signo;
         m \<leftarrow> kfree (vs_mem vs) a;
         handle_loop wp dh kept rest (vs\<lparr>vs_mem := m\<rparr>) (t\<lparr>sig_pending_cnt := sig_pending_cnt t - 1\<rparr>) }
       else if sa_handler act = SIG_IGN then handle_loop wp dh (kept @ [(a, info)]) rest vs t
       else do {
         (vs, t) \<leftarrow> dh vs t signo act;
         m \<leftarrow> kfree (vs_mem vs) a;
         Some (vs\<lparr>vs_mem := m\<rparr>, t\<lparr>sig_pending_cnt := sig_pending_cnt t - 1, sig_ing := word_of_int signo, pending_list := kept @ rest\<rparr>) } } }"

definition signal_handle :: "(kmem \<Rightarrow> kmem option) \<Rightarrow> page_reader \<Rightarrow> (vmst \<Rightarrow> vmst option) \<Rightarrow> nat \<Rightarrow> nat \<Rightarrow> mm_struct \<Rightarrow> vmst \<Rightarrow> sigtcb \<Rightarrow>
    (vmst \<times> sigtcb \<times> int) option" where
  "signal_handle af rd wp ucp ucrp mm vs t =
     (if sig_pending_cnt t = 0 then Some (vs, t, 0)
      else do {
        (vs, t) \<leftarrow> handle_loop wp (do_handle af rd ucp ucrp mm) [] (pending_list t) vs t;
        Some (vs, t, 1) })"

subsection \<open>Actions and masks\<close>

definition do_sigaction :: "sigtcb \<Rightarrow> int \<Rightarrow> sigaction option \<Rightarrow> sigtcb \<times> sigaction option \<times> int" where
  "do_sigaction t sig act =
     (if \<not> valid_signal sig then (t, None, -1)
      else
        let k = nat (sig - 1); oact = action t ! k
        in case act of
             None \<Rightarrow> (t, Some oact, 0)
           | Some act \<Rightarrow>
               (t\<lparr>action := (action t)[k := act\<lparr>sa_mask := sig_del_set_mask (sa_mask act) (sig_gen_mask SIGKILL OR sig_gen_mask SIGSTOP)\<rparr>]\<rparr>,
                Some oact, 0))"

definition SIG_BLOCK :: int where "SIG_BLOCK = 0"
definition SIG_UNBLOCK :: int where "SIG_UNBLOCK = 1"
definition SIG_SETMASK :: int where "SIG_SETMASK = 2"

definition do_sigprocmask :: "sigtcb \<Rightarrow> int \<Rightarrow> uint64 \<Rightarrow> sigtcb \<times> uint64 \<times> int" where
  "do_sigprocmask t how sset =
     (let oldset = blocked t
      in if how = SIG_BLOCK then (t\<lparr>blocked := blocked t OR sset\<rparr>, oldset, 0)
         else if how = SIG_UNBLOCK then (t\<lparr>blocked := blocked t AND sset\<rparr>, oldset, 0)
         else if how = SIG_SETMASK then (t\<lparr>blocked := sset\<rparr>, oldset, 0)
         else (t, oldset, -1))"

subsection \<open>Words in memory\<close>

lemma st_words_eq:
  "\<exists>m. st_words s a ws = s\<lparr>km_mem := m\<rparr> \<and> (\<forall>x. x < a \<or> a + 8 * length ws \<le> x \<longrightarrow> m x = km_mem s x)"
proof (induction ws arbitrary: s a)
  case Nil
  show ?case by (intro exI [of _ "km_mem s"]) simp
next
  case (Cons w ws)
  obtain m where m: "st_words (st64 s a w) (a + 8) ws = st64 s a w\<lparr>km_mem := m\<rparr>"
    "\<forall>x. x < a + 8 \<or> a + 8 + 8 * length ws \<le> x \<longrightarrow> m x = km_mem (st64 s a w) x" using Cons.IH [of "st64 s a w" "a + 8"] by blast
  have "st64 s a w\<lparr>km_mem := m\<rparr> = s\<lparr>km_mem := m\<rparr>" by (simp add: st64_def)
  then show ?case using m by (intro exI [of _ m]) (auto simp: st64_def)
qed

lemma st_words_out: "x < a \<or> a + 8 * length ws \<le> x \<Longrightarrow> km_mem (st_words s a ws) x = km_mem s x"
  using st_words_eq [of s a ws] by auto

lemma ld_st_words: "i < length ws \<Longrightarrow> ld64 (st_words s a ws) (a + 8 * i) = ws ! i"
proof (induction ws arbitrary: s a i)
  case (Cons w ws)
  show ?case
  proof (cases i)
    case 0
    have "ld64 (st_words (st64 s a w) (a + 8) ws) a = ld64 (st64 s a w) a" by (rule ld64_cong) (simp add: st_words_out)
    then show ?thesis using 0 by simp
  next
    case (Suc j)
    then show ?thesis using Cons.IH [of j "st64 s a w" "a + 8"] Cons.prems by (simp add: algebra_simps)
  qed
qed simp

lemma ld_words_cong:
  assumes "\<And>x. x < 8 * n \<Longrightarrow> km_mem s (a + x) = km_mem s' (b + x)"
  shows "ld_words s a n = ld_words s' b n"
  unfolding ld_words_def
proof (rule map_cong [OF refl])
  fix i
  assume "i \<in> set [0 ..< n]"
  then have i: "i < n" by simp
  have "km_mem s (a + 8 * i + j) = km_mem s' (b + 8 * i + j)" if "j < 8" for j using assms [of "8 * i + j"] i that by (simp add: add.assoc)
  then have "bit (ld64 s (a + 8 * i)) k = bit (ld64 s' (b + 8 * i)) k" for k using bit_ld64 by (auto simp: less_mult_imp_div_less)
  then show "ld64 s (a + 8 * i) = ld64 s' (b + 8 * i)" by (intro bit_eqI) blast
qed

lemma ld_words_st_words: "ld_words (st_words s a ws) a (length ws) = ws"
  by (rule nth_equalityI) (simp_all add: ld_words_def ld_st_words)

subsection \<open>The frame, saved and restored\<close>

text \<open>The frame at \<open>rtf\<close> lies in writable memory of the user, apart from the two buffers on the kernel stack.\<close>

definition frame_ok :: "kmem \<Rightarrow> nat \<Rightarrow> uint64 \<Rightarrow> nat \<Rightarrow> nat \<Rightarrow> bool" where
  "frame_ok s root rtf ucp ucrp \<longleftrightarrow>
     user_buf s root (rtf + word_of_nat 960) 576 ucp \<and> user_buf s root rtf 960 ucrp \<and> away s root ucp 576 \<and> away s root ucrp 960 \<and>
     (\<forall>i<960. \<forall>j<576. user_byte s root rtf i \<noteq> user_byte s root (rtf + word_of_nat 960) j) \<and>
     (\<forall>i<960. user_byte s root rtf i < ucp \<or> ucp + 576 \<le> user_byte s root rtf i) \<and>
     (\<forall>j<576. user_byte s root (rtf + word_of_nat 960) j < ucrp \<or> ucrp + 960 \<le> user_byte s root (rtf + word_of_nat 960) j)"

definition frame_holds :: "kmem \<Rightarrow> nat \<Rightarrow> uint64 \<Rightarrow> (nat \<Rightarrow> byte) \<Rightarrow> (nat \<Rightarrow> byte) \<Rightarrow> bool" where
  "frame_holds s root rtf f m \<longleftrightarrow> (\<forall>i<960. m (user_byte s root rtf i) = 0) \<and> (\<forall>j<576. m (user_byte s root (rtf + word_of_nat 960) j) = f j)"

lemma away_kept:
  assumes "away s root a n" "\<And>x. x < a \<or> a + n \<le> x \<Longrightarrow> m x = km_mem s x"
  shows "tables_kept s root m"
proof (rule tables_kept_outside)
  fix x
  have "x < b \<or> b + PGSIZE \<le> x" if "b \<in> tabs s 2 root" "a \<le> x" "x < a + n" for b
    using assms(1) that by (auto simp: away_def)
  then show "(\<forall>b\<in>tabs s 2 root. x < b \<or> b + PGSIZE \<le> x) \<or> m x = km_mem s x"
    using assms(2) [of x] by (metis not_less)
qed

lemma sizes [simp]: "sizeof_trapframe = 560" "sizeof_ucontext = 576" "sizeof_ucontext_t = 960" "sizeof_rt_sigframe = 1536"
  by (simp_all add: sizeof_trapframe_def sizeof_ucontext_def sizeof_ucontext_t_def sizeof_rt_sigframe_def)

lemma frame_setup_spec:
  assumes ok: "pt_ok (vs_mem vs) (pagetable mm)" "leaves_ok (vs_mem vs) (pagetable mm)" and f: "frame_ok (vs_mem vs) (pagetable mm) rtf ucp ucrp"
    and tf: "length tf = 70"
  shows "\<exists>m. signal_frame_setup af rd ucp ucrp mm vs sset tf rtf signo = Some (vs\<lparr>vs_mem := vs_mem vs\<lparr>km_mem := m\<rparr>\<rparr>, 0) \<and>
    tables_kept (vs_mem vs) (pagetable mm) m \<and>
    frame_holds (vs_mem vs) (pagetable mm) rtf (\<lambda>j. km_mem (st_words (vs_mem vs) ucp (tf @ [sset, word_of_int signo])) (ucp + j)) m"
proof -
  let ?s = "vs_mem vs" and ?r = "pagetable mm" and ?ws = "tf @ [sset, word_of_int signo]" and ?rtf2 = "rtf + word_of_nat 960"
  have F: "user_buf ?s ?r ?rtf2 576 ucp" "user_buf ?s ?r rtf 960 ucrp" "away ?s ?r ucp 576" "away ?s ?r ucrp 960"
    "\<And>i j. i < 960 \<Longrightarrow> j < 576 \<Longrightarrow> user_byte ?s ?r rtf i \<noteq> user_byte ?s ?r ?rtf2 j"
    "\<And>j. j < 576 \<Longrightarrow> user_byte ?s ?r ?rtf2 j < ucrp \<or> ucrp + 960 \<le> user_byte ?s ?r ?rtf2 j"
    using f by (auto simp: frame_ok_def)
  have L: "unat rtf + 960 \<le> 2 ^ 38" "unat ?rtf2 + 576 \<le> 2 ^ 38" using F(1,2) by (simp_all add: user_buf_def)
  obtain m1 where m1: "st_words ?s ucp ?ws = ?s\<lparr>km_mem := m1\<rparr>" "\<forall>x. x < ucp \<or> ucp + 576 \<le> x \<longrightarrow> m1 x = km_mem ?s x"
    using st_words_eq [of ?s ucp ?ws] tf by auto
  have k1: "tables_kept ?s ?r m1" by (rule away_kept [OF F(3)]) (use m1(2) in blast)
  note p1 = keep_pt [OF ok k1]
  have u: "unat (576 :: uint64) = 576" "unat (960 :: uint64) = 960" by simp_all
  obtain m2 where m2: "copyout af rd mm ?r (vs\<lparr>vs_mem := ?s\<lparr>km_mem := m1\<rparr>\<rparr>) ?rtf2 ucp 576 = Some (vs\<lparr>vs_mem := ?s\<lparr>km_mem := m2\<rparr>\<rparr>, 0)"
    "put_out (user_byte (?s\<lparr>km_mem := m1\<rparr>) ?r ?rtf2) m1 ucp 576 m2"
    using copyout_spec [of "vs\<lparr>vs_mem := ?s\<lparr>km_mem := m1\<rparr>\<rparr>" ?r ?rtf2 576 ucp af rd mm] p1(1,2) keep_buf [OF ok k1 F(1)] by (auto simp: u)
  have P2: "m2 (user_byte ?s ?r ?rtf2 j) = m1 (ucp + j)" if "j < 576" for j
    using m2(2) keep_byte [OF ok k1 L(2)] that by (simp add: put_out_def)
  have "tables_kept (?s\<lparr>km_mem := m1\<rparr>) ?r m2" using put_out_tables [of "?s\<lparr>km_mem := m1\<rparr>" ?r ?rtf2 ucp 576 m2 ucp] m2(2) keep_buf [OF ok k1 F(1)] by simp
  then have k2: "tables_kept ?s ?r m2" using k1 p1(3) by (simp add: tables_kept_def)
  define m3 where "m3 = (\<lambda>x. if ucrp \<le> x \<and> x < ucrp + 960 then 0 else m2 x)"
  have "tables_kept ?s ?r (\<lambda>x. if ucrp \<le> x \<and> x < ucrp + 960 then 0 else km_mem ?s x)" by (rule away_kept [OF F(4)]) auto
  then have k3: "tables_kept ?s ?r m3" using k2 unfolding tables_kept_def m3_def by (metis (no_types, lifting))
  note p3 = keep_pt [OF ok k3]
  obtain m4 where m4: "copyout af rd mm ?r (vs\<lparr>vs_mem := ?s\<lparr>km_mem := m3\<rparr>\<rparr>) rtf ucrp 960 = Some (vs\<lparr>vs_mem := ?s\<lparr>km_mem := m4\<rparr>\<rparr>, 0)"
    "put_out (user_byte (?s\<lparr>km_mem := m3\<rparr>) ?r rtf) m3 ucrp 960 m4"
    using copyout_spec [of "vs\<lparr>vs_mem := ?s\<lparr>km_mem := m3\<rparr>\<rparr>" ?r rtf 960 ucrp af rd mm] p3(1,2) keep_buf [OF ok k3 F(2)] by (auto simp: u)
  have P1: "m4 (user_byte ?s ?r rtf i) = 0" if "i < 960" for i
    using m4(2) keep_byte [OF ok k3 L(1)] that by (simp add: put_out_def m3_def)
  have P2': "m4 (user_byte ?s ?r ?rtf2 j) = m1 (ucp + j)" if "j < 576" for j
  proof -
    have "user_byte ?s ?r ?rtf2 j \<notin> user_byte (?s\<lparr>km_mem := m3\<rparr>) ?r rtf ` {..<960}"
      using F(5) that keep_byte [OF ok k3 L(1)] by fastforce
    then have "m4 (user_byte ?s ?r ?rtf2 j) = m3 (user_byte ?s ?r ?rtf2 j)" using m4(2) by (simp add: put_out_def)
    then show ?thesis using F(6) [OF that] P2 [OF that] by (auto simp: m3_def)
  qed
  have "tables_kept (?s\<lparr>km_mem := m3\<rparr>) ?r m4" using put_out_tables [of "?s\<lparr>km_mem := m3\<rparr>" ?r rtf ucrp 960 m4 ucrp] m4(2) keep_buf [OF ok k3 F(2)] by simp
  then have k4: "tables_kept ?s ?r m4" using k3 p3(3) by (simp add: tables_kept_def)
  have "memset_pa (?s\<lparr>km_mem := m2\<rparr>) ucrp 0 960 = ?s\<lparr>km_mem := m3\<rparr>" by (simp add: memset_pa_eq m3_def cong: if_cong)
  then have "signal_frame_setup af rd ucp ucrp mm vs sset tf rtf signo = Some (vs\<lparr>vs_mem := ?s\<lparr>km_mem := m4\<rparr>\<rparr>, 0)"
    using m1(1) m2(1) m4(1) by (simp add: signal_frame_setup_def Let_def)
  then show ?thesis using k4 P1 P2' m1(1) by (intro exI [of _ m4]) (simp add: frame_holds_def)
qed

lemma frame_restore_spec:
  assumes ok: "pt_ok (vs_mem vs) (pagetable mm)" "leaves_ok (vs_mem vs) (pagetable mm)" and f: "frame_ok (vs_mem vs) (pagetable mm) rtf ucp ucrp"
    and h: "frame_holds (vs_mem vs) (pagetable mm) rtf (\<lambda>j. km_mem (st_words s0 ucp (tf @ [sset, ing])) (ucp + j)) (km_mem (vs_mem vs))"
    and tf: "length tf = 70"
  shows "\<exists>s'. signal_frame_restore ucp ucrp mm vs t rtf = Some (vs\<lparr>vs_mem := s'\<rparr>, t\<lparr>blocked := sset, trapframe := tf, sig_ing := ing\<rparr>, 0)"
proof -
  let ?s = "vs_mem vs" and ?r = "pagetable mm" and ?rtf2 = "rtf + word_of_nat 960" and ?ws = "tf @ [sset, ing]"
  have F: "user_buf ?s ?r ?rtf2 576 ucp" "user_buf ?s ?r rtf 960 ucrp" "away ?s ?r ucp 576" "away ?s ?r ucrp 960"
    "\<And>i. i < 960 \<Longrightarrow> user_byte ?s ?r rtf i < ucp \<or> ucp + 576 \<le> user_byte ?s ?r rtf i"
    using f by (auto simp: frame_ok_def)
  have u: "unat (576 :: uint64) = 576" "unat (960 :: uint64) = 960" by simp_all
  obtain s1 where s1: "copyin ?s ?r ucp ?rtf2 576 = Some (s1, 0)" "s1 = ?s\<lparr>km_mem := km_mem s1\<rparr>" "\<forall>x. x < ucp \<or> ucp + 576 \<le> x \<longrightarrow> km_mem s1 x = km_mem ?s x"
    "\<forall>j<576. km_mem s1 (ucp + j) = km_mem ?s (user_byte ?s ?r ?rtf2 j)"
    using copyin_buf [OF ok, of ?rtf2 576 ucp] F(1,3) by (auto simp: u)
  have k1: "tables_kept ?s ?r (km_mem s1)" by (rule away_kept [OF F(3)]) (use s1(3) in blast)
  note p1 = keep_pt [OF ok k1, folded s1(2)]
  have L: "unat rtf + 960 \<le> 2 ^ 38" using F(2) by (simp add: user_buf_def)
  have B: "user_byte s1 ?r rtf i = user_byte ?s ?r rtf i" if "i < 960" for i using keep_byte [OF ok k1 L that] s1(2) by simp
  have "ld_words s1 ucp (length ?ws) = ld_words (st_words s0 ucp ?ws) ucp (length ?ws)"
    by (rule ld_words_cong) (use s1(4) h tf in \<open>simp add: frame_holds_def\<close>)
  then have ws: "ld_words s1 ucp 72 = ?ws" using ld_words_st_words [of s0 ucp ?ws] tf by simp
  have b2: "user_buf s1 ?r rtf 960 ucrp" using keep_buf [OF ok k1 F(2)] s1(2) by simp
  have a2: "away s1 ?r ucrp 960" using F(4) p1(3) by (simp add: away_def)
  obtain s2 where s2: "copyin s1 ?r ucrp rtf 960 = Some (s2, 0)" "\<forall>j<960. km_mem s2 (ucrp + j) = km_mem s1 (user_byte s1 ?r rtf j)"
    using copyin_buf [OF p1(1,2), of rtf 960 ucrp] b2 a2 by (auto simp: u)
  have "km_mem s2 (ucrp + j) = 0" if "j < 960" for j
    using s2(2) B [OF that] s1(3) [rule_format, OF F(5) [OF that]] h that by (simp add: frame_holds_def)
  then have "ld64 s2 (ucrp + MC_PC_off) = 0" by (intro ld64_zero) (simp add: MC_PC_off_def add.assoc)
  then show ?thesis
    using s1(1) s2(1) ws tf by (intro exI [of _ s2]) (simp add: signal_frame_restore_def Let_def nth_append)
qed

lemma frame_ok_cong:
  assumes f: "frame_ok s root rtf ucp ucrp"
    and same: "\<And>x. x < MAXVA \<Longrightarrow> lkup s' 2 root x = lkup s 2 root x" "\<And>x. x < MAXVA \<Longrightarrow> user_pa s' root x = user_pa s root x" "tabs s' 2 root = tabs s 2 root"
  shows "frame_ok s' root rtf ucp ucrp" "frame_holds s' root rtf g m = frame_holds s root rtf g m"
proof -
  have F: "user_buf s root (rtf + word_of_nat 960) 576 ucp" "user_buf s root rtf 960 ucrp" using f by (simp_all add: frame_ok_def)
  note R1 = user_buf_rest [OF F(1) le0 same, simplified] and R2 = user_buf_rest [OF F(2) le0 same, simplified]
  show "frame_ok s' root rtf ucp ucrp" using f R1 R2 same(3) by (simp add: frame_ok_def away_def)
  show "frame_holds s' root rtf g m = frame_holds s root rtf g m" using R1(2) R2(2) by (simp add: frame_holds_def)
qed

lemma kfree_keeps_pt:
  assumes inv: "kmem_inv tot s" "km_blocks s p = Some k" and fr: "kfree s (page_to_pa p) = Some s'" and ok: "pt_ok s root" "leaves_ok s root"
    and p: "page_to_pa p \<notin> tabs s 2 root"
  shows "pt_ok s' root" "leaves_ok s' root" "tabs s' 2 root = tabs s 2 root" "lkup s' 2 root va = lkup s 2 root va" "x < MAXVA \<Longrightarrow> user_pa s' root x = user_pa s root x"
proof -
  have m: "km_mem s' = km_mem s" using kfree_mem [OF fr] by blast
  have b: "km_blocks s' q = km_blocks s q" if "q \<noteq> p" for q using kfree_spec [OF inv] fr that by auto
  have "tblpage s' a" if "a \<in> tabs s 2 root" "tblpage s a" for a using that p b unfolding tblpage_def by metis
  then have t: "\<forall>a\<in>tabs s 2 root. tblpage s a \<longrightarrow> tblpage s' a" by blast
  have u: "mem_upto {} s s'" using m by (simp add: mem_upto_def)
  note o = outside_pt [OF ok(1) u _ t, simplified]
  show pk: "pt_ok s' root" "tabs s' 2 root = tabs s 2 root" "lkup s' 2 root va = lkup s 2 root va" for va using o by blast+
  show lv: "leaves_ok s' root" using ok(2) pk(3) by (simp add: leaves_ok_def)
  show "x < MAXVA \<Longrightarrow> user_pa s' root x = user_pa s root x"
    unfolding user_pa_lkup [OF pk(1) lv] user_pa_lkup [OF ok] pk(3) ..
qed

text \<open>Nodes that are blocked or ignored are passed over.\<close>

definition passed_over :: "sigtcb \<Rightarrow> siginfo_t \<Rightarrow> bool" where
  "passed_over t info \<longleftrightarrow> valid_signal (si_signo info) \<and>
     (sig_is_member (blocked t) (si_signo info) \<or> sa_handler (action t ! nat (si_signo info - 1)) = SIG_IGN)"

lemma handle_skip:
  "\<forall>n\<in>set pre. passed_over t (snd n) \<Longrightarrow> handle_loop wp dh kept (pre @ rest) vs t = handle_loop wp dh (kept @ pre) rest vs t"
  by (induction pre arbitrary: kept) (auto simp: passed_over_def SIG_DFL_def SIG_IGN_def Let_def)

subsection \<open>Delivery and return\<close>

text \<open>The queue has a node of a signal with a handler behind nodes that are passed over, and its page is not a table.\<close>

definition deliverable :: "int \<Rightarrow> kmem \<Rightarrow> nat \<Rightarrow> sigtcb \<Rightarrow> (nat \<times> siginfo_t) list \<Rightarrow> nat \<Rightarrow> siginfo_t \<Rightarrow> (nat \<times> siginfo_t) list \<Rightarrow> bool" where
  "deliverable tot s root t pre p info rest \<longleftrightarrow> kmem_inv tot s \<and> km_blocks s p = Some 0 \<and> page_to_pa p \<notin> tabs s 2 root \<and>
     pending_list t = pre @ (page_to_pa p, info) # rest \<and> (\<forall>n\<in>set pre. passed_over t (snd n)) \<and>
     valid_signal (si_signo info) \<and> \<not> sig_is_member (blocked t) (si_signo info) \<and>
     (let h = sa_handler (action t ! nat (si_signo info - 1)) in h \<noteq> SIG_DFL \<and> h \<noteq> SIG_IGN)"

lemma handle_delivers:
  assumes d: "deliverable tot (vs_mem vs) (pagetable mm) t pre p info rest" and ok: "pt_ok (vs_mem vs) (pagetable mm)" "leaves_ok (vs_mem vs) (pagetable mm)"
    and tf: "length (trapframe t) = 70" and c: "sig_pending_cnt t \<noteq> 0"
    and f: "frame_ok (vs_mem vs) (pagetable mm) (get_sigframe (trapframe t) 1536) ucp ucrp"
  defines "frame \<equiv> get_sigframe (trapframe t) 1536" and "signo \<equiv> si_signo info"
  defines "t1 \<equiv> t\<lparr>trapframe := (trapframe t)[TF_RA := SIGRETURN, TF_EPC := sa_handler (action t ! nat (signo - 1)), TF_SP := frame,
      TF_A0 := word_of_int signo, TF_A1 := 0, TF_A2 := frame], sig_pending_cnt := sig_pending_cnt t - 1, sig_ing := word_of_int signo, pending_list := pre @ rest\<rparr>"
  shows "\<exists>s1. signal_handle af rd wp ucp ucrp mm vs t = Some (vs\<lparr>vs_mem := s1\<rparr>, t1, 1) \<and> pt_ok s1 (pagetable mm) \<and> leaves_ok s1 (pagetable mm) \<and>
    frame_ok s1 (pagetable mm) frame ucp ucrp \<and>
    frame_holds s1 (pagetable mm) frame (\<lambda>j. km_mem (st_words (vs_mem vs) ucp (trapframe t @ [blocked t, word_of_int signo])) (ucp + j)) (km_mem s1)"
proof -
  let ?s = "vs_mem vs" and ?r = "pagetable mm" and ?act = "action t ! nat (signo - 1)"
  have D: "kmem_inv tot ?s" "km_blocks ?s p = Some 0" "page_to_pa p \<notin> tabs ?s 2 ?r" "pending_list t = pre @ (page_to_pa p, info) # rest"
    "\<forall>n\<in>set pre. passed_over t (snd n)" "valid_signal signo" "\<not> sig_is_member (blocked t) signo" "sa_handler ?act \<noteq> SIG_DFL" "sa_handler ?act \<noteq> SIG_IGN"
    using d by (auto simp: deliverable_def Let_def signo_def)
  obtain m where m: "signal_frame_setup af rd ucp ucrp mm vs (blocked t) (trapframe t) frame signo = Some (vs\<lparr>vs_mem := ?s\<lparr>km_mem := m\<rparr>\<rparr>, 0)"
    "tables_kept ?s ?r m" "frame_holds ?s ?r frame (\<lambda>j. km_mem (st_words ?s ucp (trapframe t @ [blocked t, word_of_int signo])) (ucp + j)) m"
    using frame_setup_spec [OF ok f tf, of af rd "blocked t" signo] unfolding frame_def by blast
  note k = keep_pt [OF ok m(2)]
  have inv: "kmem_inv tot (?s\<lparr>km_mem := m\<rparr>)" "km_blocks (?s\<lparr>km_mem := m\<rparr>) p = Some 0" using D(1,2) by simp_all
  from kfree_spec [OF inv] obtain s1 where s1: "kfree (?s\<lparr>km_mem := m\<rparr>) (page_to_pa p) = Some s1" by blast
  have nt: "page_to_pa p \<notin> tabs (?s\<lparr>km_mem := m\<rparr>) 2 ?r" using D(3) k(3) by simp
  note q = kfree_keeps_pt [OF inv s1 k(1,2) nt]
  have mem: "km_mem s1 = m" using kfree_mem [OF s1] by simp
  have same: "lkup s1 2 ?r x = lkup ?s 2 ?r x" "x < MAXVA \<Longrightarrow> user_pa s1 ?r x = user_pa ?s ?r x" "tabs s1 2 ?r = tabs ?s 2 ?r" for x
    using q(3-5) k(3-5) by simp_all
  note fr = frame_ok_cong [OF f [folded frame_def] same]
  have "handle_loop wp (do_handle af rd ucp ucrp mm) [] (pending_list t) vs t = Some (vs\<lparr>vs_mem := s1\<rparr>, t1)"
    unfolding D(4) handle_skip [OF D(5)] using D(6-9) m(1) s1
    by (simp add: Let_def signo_def [symmetric] frame_def [symmetric] do_handle_def setup_rt_frame_def t1_def)
  then have "signal_handle af rd wp ucp ucrp mm vs t = Some (vs\<lparr>vs_mem := s1\<rparr>, t1, 1)" using c by (simp add: signal_handle_def)
  then show ?thesis using q(1,2) fr m(3) mem by auto
qed

text \<open>C17. Delivery and return of a signal: \<open>signal_handle\<close> takes the first deliverable node off the queue and starts the handler with the signal's number,
  its frame below the interrupted stack pointer.  Let the handler leave the thread in any state \<open>u\<close> (registers, signal mask, number of the signal being
  handled, queue and actions all changed) whose stack pointer is the frame's, and memory in any state that keeps the frame and the tables: the return from it
  writes the mask saved at the delivery over the handler's, restores every register but \<open>a0\<close>, which holds -EINTR, lets the signal be sent again
  and leaves the rest of \<open>u\<close> alone.\<close>

theorem signal_delivery_roundtrip:
  assumes "deliverable tot (vs_mem vs) (pagetable mm) t pre p info rest" "pt_ok (vs_mem vs) (pagetable mm)" "leaves_ok (vs_mem vs) (pagetable mm)"
    "length (trapframe t) = 70" "sig_pending_cnt t \<noteq> 0" "frame = get_sigframe (trapframe t) 1536" "frame_ok (vs_mem vs) (pagetable mm) frame ucp ucrp"
  shows "\<exists>s1 t1. signal_handle af rd wp ucp ucrp mm vs t = Some (vs\<lparr>vs_mem := s1\<rparr>, t1, 1) \<and> pending_list t1 = pre @ rest \<and>
    sig_pending_cnt t1 = sig_pending_cnt t - 1 \<and> trapframe t1 ! TF_EPC = sa_handler (action t ! nat (si_signo info - 1)) \<and>
    trapframe t1 ! TF_A0 = word_of_int (si_signo info) \<and> trapframe t1 ! TF_SP = frame \<and>
    (\<forall>u m. trapframe u ! TF_SP = frame \<and> tables_kept s1 (pagetable mm) m \<and>
        (\<forall>x. x \<in> user_byte s1 (pagetable mm) frame ` {..<960} \<union> user_byte s1 (pagetable mm) (frame + word_of_nat 960) ` {..<576} \<longrightarrow> m x = km_mem s1 x) \<longrightarrow>
      (\<exists>s2 t2. map_option syscall_return (sys_rt_sigreturn ucp ucrp mm (vs\<lparr>vs_mem := s1\<lparr>km_mem := m\<rparr>\<rparr>) u) = Some (vs\<lparr>vs_mem := s2\<rparr>, t2) \<and>
        trapframe t2 = (trapframe t)[TF_A0 := word_of_int (- EINTR)] \<and> blocked t2 = blocked t \<and> \<not> sig_is_member (pending_signal t2) (si_signo info) \<and>
        t2 = u\<lparr>trapframe := trapframe t2, blocked := blocked t2, sig_ing := word_of_int (si_signo info),
          pending_signal := sig_del_set_mask (pending_signal u) (sig_gen_mask (si_signo info))\<rparr>))"
proof -
  let ?r = "pagetable mm" and ?signo = "si_signo info"
  obtain s1 t1 where h: "signal_handle af rd wp ucp ucrp mm vs t = Some (vs\<lparr>vs_mem := s1\<rparr>, t1, 1)" "pt_ok s1 ?r" "leaves_ok s1 ?r" "frame_ok s1 ?r frame ucp ucrp"
    "frame_holds s1 ?r frame (\<lambda>j. km_mem (st_words (vs_mem vs) ucp (trapframe t @ [blocked t, word_of_int ?signo])) (ucp + j)) (km_mem s1)"
    and t1: "t1 = t\<lparr>trapframe := (trapframe t)[TF_RA := SIGRETURN, TF_EPC := sa_handler (action t ! nat (?signo - 1)), TF_SP := frame,
      TF_A0 := word_of_int ?signo, TF_A1 := 0, TF_A2 := frame], sig_pending_cnt := sig_pending_cnt t - 1, sig_ing := word_of_int ?signo, pending_list := pre @ rest\<rparr>"
    using handle_delivers [OF assms(1-5), of ucp ucrp af rd wp] assms(6,7) by blast
  have "\<exists>s2 t2. map_option syscall_return (sys_rt_sigreturn ucp ucrp mm (vs\<lparr>vs_mem := s1\<lparr>km_mem := m\<rparr>\<rparr>) u) = Some (vs\<lparr>vs_mem := s2\<rparr>, t2) \<and>
      trapframe t2 = (trapframe t)[TF_A0 := word_of_int (- EINTR)] \<and> blocked t2 = blocked t \<and> \<not> sig_is_member (pending_signal t2) ?signo \<and>
      t2 = u\<lparr>trapframe := trapframe t2, blocked := blocked t2, sig_ing := word_of_int ?signo,
        pending_signal := sig_del_set_mask (pending_signal u) (sig_gen_mask ?signo)\<rparr>"
    if regs: "trapframe u ! TF_SP = frame" and k: "tables_kept s1 ?r m"
      and fm: "\<forall>x. x \<in> user_byte s1 ?r frame ` {..<960} \<union> user_byte s1 ?r (frame + word_of_nat 960) ` {..<576} \<longrightarrow> m x = km_mem s1 x" for u m
  proof -
    let ?s = "s1\<lparr>km_mem := m\<rparr>" and ?vs = "vs\<lparr>vs_mem := s1\<lparr>km_mem := m\<rparr>\<rparr>"
    note p = keep_pt [OF h(2,3) k]
    note fr = frame_ok_cong [OF h(4) p(4,5,3)]
    have "frame_holds s1 ?r frame (\<lambda>j. km_mem (st_words (vs_mem vs) ucp (trapframe t @ [blocked t, word_of_int ?signo])) (ucp + j)) m"
      using h(5) fm by (simp add: frame_holds_def)
    then obtain s2 where s2: "signal_frame_restore ucp ucrp mm ?vs u frame =
        Some (?vs\<lparr>vs_mem := s2\<rparr>, u\<lparr>blocked := blocked t, trapframe := trapframe t, sig_ing := word_of_int ?signo\<rparr>, 0)"
      using frame_restore_spec [of ?vs mm frame ucp ucrp "vs_mem vs" "trapframe t" "blocked t" "word_of_int ?signo" u] p(1,2) fr assms(4) by auto
    have n: "uint (word_of_int ?signo :: uint64) = ?signo" "?signo \<le> 64" "1 \<le> ?signo"
      using assms(1) by (auto simp: deliverable_def valid_signal_def NSIG_def uint_word_of_int)
    have "\<not> sig_is_member (sig_del_set_mask x (sig_gen_mask ?signo)) ?signo" for x
      using n by (simp add: sig_is_member_def sig_del_set_mask_def sig_gen_mask_def bit_simps)
    then show ?thesis
      using s2 regs n(1) by (simp add: sys_rt_sigreturn_def syscall_return_def) blast
  qed
  then show ?thesis using h(1) t1 assms(4) by (intro exI [of _ s1] exI [of _ t1]) (simp add: TF_EPC_def TF_A0_def TF_SP_def TF_RA_def TF_A1_def TF_A2_def)
qed

subsection \<open>The queue\<close>

text \<open>The count is the length of the queue, its nodes are different allocated pages, and the signals queued are different and marked.\<close>

definition sig_inv :: "int \<Rightarrow> kmem \<Rightarrow> sigtcb \<Rightarrow> bool" where
  "sig_inv tot s t \<longleftrightarrow> kmem_inv tot s \<and> sig_pending_cnt t = int (length (pending_list t)) \<and> distinct (List.map fst (pending_list t)) \<and>
     distinct (List.map (\<lambda>n. (si_signo (snd n) - 1) mod 64) (pending_list t)) \<and>
     (\<forall>n\<in>set (pending_list t). (\<exists>p. fst n = page_to_pa p \<and> km_blocks s p = Some 0) \<and> sig_is_member (pending_signal t) (si_signo (snd n)))"

lemma member_add: "sig_is_member (sig_add_set set1 x) y \<longleftrightarrow> sig_is_member set1 y \<or> (x - 1) mod 64 = (y - 1) mod 64"
proof -
  have "nat ((y - 1) mod 64) < 64" by (simp add: nat_less_iff)
  moreover have "nat ((x - 1) mod 64) = nat ((y - 1) mod 64) \<longleftrightarrow> (x - 1) mod 64 = (y - 1) mod 64" by (auto simp: nat_eq_iff2)
  ultimately show ?thesis by (auto simp: sig_is_member_def sig_add_set_def sig_gen_mask_def bit_simps)
qed

lemma kalloc_quiet:
  assumes "kmem_inv tot s" "quiet 1 s"
  shows "\<exists>s' r. kalloc af s = Some (s', r) \<and> page_grant tot 0 s r s'"
  using request_quiet [OF assms(1), of 0 af] assms(2) by (auto simp: kalloc_def)

lemma signal_send_spec:
  assumes "sig_inv tot s t" "quiet 1 s"
  shows "\<exists>s' t' r. signal_send af s info t = Some (s', t', r) \<and> sig_inv tot s' t' \<and>
    (if sig_is_member (pending_signal t) (si_signo info) then s' = s \<and> t' = t \<and> r = 0
     else t_killed t' = (t_killed t \<or> si_signo info \<in> {SIGKILL, SIGSTOP, SIGTERM}) \<and>
       (if r = 1 then sig_is_member (pending_signal t') (si_signo info) \<and> (\<exists>a. pending_list t' = pending_list t @ [(a, info)])
        else r = 0 \<and> exhausted tot s \<and> pending_list t' = pending_list t \<and> pending_signal t' = pending_signal t))"
proof (cases "sig_is_member (pending_signal t) (si_signo info)")
  case True
  then show ?thesis using assms(1) by (simp add: signal_send_def Let_def)
next
  case False
  let ?t = "if si_signo info = SIGKILL \<or> si_signo info = SIGSTOP \<or> si_signo info = SIGTERM then t\<lparr>t_killed := True\<rparr> else t"
  have I: "kmem_inv tot s" "\<forall>n\<in>set (pending_list t). \<exists>p. fst n = page_to_pa p \<and> km_blocks s p = Some 0"
    "\<forall>n\<in>set (pending_list t). sig_is_member (pending_signal t) (si_signo (snd n))" using assms(1) by (auto simp: sig_inv_def)
  obtain s' q where k: "kalloc af s = Some (s', q)" "page_grant tot 0 s q s'" using kalloc_quiet [OF I(1) assms(2)] by blast
  show ?thesis
  proof (cases q)
    case None
    then have "sig_inv tot s' ?t" "exhausted tot s" using assms(1) k(2) no_page_exhausted [OF I(1)] by (auto simp: sig_inv_def page_grant_def)
    then show ?thesis using False k(1) None by (intro exI [of _ s'] exI [of _ ?t] exI [of _ 0]) (auto simp: signal_send_def Let_def)
  next
    case (Some a)
    then obtain p where p: "a = page_to_pa p" "km_blocks s p = None" "km_blocks s' = (km_blocks s)(p \<mapsto> 0)" "kmem_inv tot s'"
      using k(2) by (auto simp: page_grant_def)
    define t' where "t' = ?t\<lparr>sig_pending_cnt := sig_pending_cnt t + 1, pending_list := pending_list t @ [(a, info)], pending_signal := sig_add_set (pending_signal t) (si_signo info)\<rparr>"
    have "a \<notin> fst ` set (pending_list t)"
    proof
      assume "a \<in> fst ` set (pending_list t)"
      then obtain p' where "a = page_to_pa p'" "km_blocks s p' = Some 0" using I(2) by auto
      then show False using p(1,2) page_to_pa_inj by (auto simp: page_to_pa_def PGSIZE_def)
    qed
    moreover have "(si_signo info - 1) mod 64 \<noteq> (si_signo (snd n) - 1) mod 64" if "n \<in> set (pending_list t)" for n
      using I(3) that False by (auto simp: sig_is_member_def)
    moreover have "\<exists>p'. fst n = page_to_pa p' \<and> km_blocks s' p' = Some 0" if "n \<in> set (pending_list t)" for n
      using I(2) that p(2,3) by (metis fun_upd_apply)
    ultimately have "sig_inv tot s' t'"
      using assms(1) p by (auto simp: sig_inv_def t'_def member_add)
    moreover have "signal_send af s info t = Some (s', t', 1)" using False k(1) Some by (auto simp: signal_send_def Let_def t'_def)
    ultimately show ?thesis using False by (intro exI [of _ s'] exI [of _ t'] exI [of _ 1]) (auto simp: t'_def member_add)
  qed
qed

text \<open>C36. Sending: with memory left or not, \<open>signal_send\<close> returns and keeps the queue consistent.  A signal that is marked already changes nothing; otherwise
  either exactly one node with the signal is added at the end, the signal is marked and the count raised, or no page is
  left and the queue is unchanged; SIGKILL, SIGSTOP and SIGTERM mark the thread as killed in both cases.\<close>

theorem signal_send_correct:
  assumes "sig_inv tot s t" "quiet 1 s"
  shows "\<exists>s' t' r. signal_send af s info t = Some (s', t', r) \<and> sig_inv tot s' t' \<and>
    (if sig_is_member (pending_signal t) (si_signo info) then s' = s \<and> t' = t \<and> r = 0
     else t_killed t' = (t_killed t \<or> si_signo info \<in> {SIGKILL, SIGSTOP, SIGTERM}) \<and>
       (if r = 1 then sig_is_member (pending_signal t') (si_signo info) \<and> (\<exists>a. pending_list t' = pending_list t @ [(a, info)])
        else r = 0 \<and> exhausted tot s \<and> pending_list t' = pending_list t \<and> pending_signal t' = pending_signal t))"
  by (rule signal_send_spec [OF assms])

text \<open>A signal with the default action stays marked after it was handled: its node is gone, but every later signal with its number is
  dropped by \<open>signal_send\<close>.\<close>

theorem default_signal_marked_forever:
  assumes "sig_inv tot (vs_mem vs) t" "pending_list t = [(a, info)]" "valid_signal (si_signo info)" "\<not> sig_is_member (blocked t) (si_signo info)"
    "sa_handler (action t ! nat (si_signo info - 1)) = SIG_DFL" "si_signo info \<noteq> SIGCHLD" "si_signo info' = si_signo info"
  shows "\<exists>s' t'. signal_handle af rd wp ucp ucrp mm vs t = Some (vs\<lparr>vs_mem := s'\<rparr>, t', 1) \<and> sig_inv tot s' t' \<and> pending_list t' = [] \<and>
    signal_send af s' info' t' = Some (s', t', 0)"
proof -
  obtain p where p: "a = page_to_pa p" "km_blocks (vs_mem vs) p = Some 0" "kmem_inv tot (vs_mem vs)" "sig_is_member (pending_signal t) (si_signo info)" "sig_pending_cnt t = 1"
    using assms(1,2) by (auto simp: sig_inv_def)
  from kfree_spec [OF p(3,2)] obtain s' where s': "kfree (vs_mem vs) (page_to_pa p) = Some s'" "kmem_inv tot s'" by blast
  let ?t = "if si_signo info = SIGKILL then t\<lparr>t_killed := True\<rparr> else t"
  let ?t' = "?t\<lparr>sig_pending_cnt := 0, pending_list := []\<rparr>"
  have "signal_handle af rd wp ucp ucrp mm vs t = Some (vs\<lparr>vs_mem := s'\<rparr>, ?t', 1)"
    using assms p s'(1) by (auto simp: signal_handle_def signal_DFL_def Let_def)
  moreover have "sig_inv tot s' ?t'" using s'(2) by (simp add: sig_inv_def)
  moreover have "signal_send af s' info' ?t' = Some (s', ?t', 0)" using p(4) assms(7) by (auto simp: signal_send_def Let_def)
  ultimately show ?thesis by (intro exI [of _ s'] exI [of _ ?t']) simp
qed

text \<open>A signal number outside 1 to 64 that reaches the queue stops the kernel: the number is not checked when the signal is sent, and the next delivery
  to the thread panics.\<close>

theorem invalid_signal_panics:
  assumes "sig_inv tot s t" "\<not> valid_signal (si_signo info)" "\<forall>n\<in>set (pending_list t). passed_over t (snd n)"
    "signal_send af s info t = Some (s', t', 1)"
  shows "signal_handle af' rd wp ucp ucrp mm vs t' = None"
proof -
  have "\<not> sig_is_member (pending_signal t) (si_signo info)" using assms(4) by (auto simp: signal_send_def Let_def)
  then obtain a where t': "blocked t' = blocked t" "action t' = action t" "sig_pending_cnt t' = sig_pending_cnt t + 1" "pending_list t' = pending_list t @ [(a, info)]"
    using assms(4) by (auto simp: signal_send_def Let_def bind_eq_Some_conv split: option.splits prod.splits if_splits)
  then have "\<forall>n\<in>set (pending_list t). passed_over t' (snd n)" using assms(3) t' by (simp add: passed_over_def)
  note sk = handle_skip [OF this, of wp "do_handle af' rd ucp ucrp mm" "[]" "[(a, info)]" vs]
  have "handle_loop wp (do_handle af' rd ucp ucrp mm) [] (pending_list t') vs t' = None"
    using sk assms(2) t' by (simp add: Let_def)
  moreover have "sig_pending_cnt t' \<noteq> 0" using t' assms(1) by (simp add: sig_inv_def)
  ultimately show ?thesis by (simp add: signal_handle_def)
qed

text \<open>\<open>SIG_UNBLOCK\<close> keeps blocked exactly the signals of the given set instead of removing them.\<close>

theorem sig_unblock_keeps_set:
  "do_sigprocmask t SIG_UNBLOCK sset = (t\<lparr>blocked := blocked t AND sset\<rparr>, blocked t, 0) \<and>
   sig_is_member (blocked t AND sset) n = (sig_is_member (blocked t) n \<and> sig_is_member sset n)"
  by (simp add: do_sigprocmask_def SIG_BLOCK_def SIG_UNBLOCK_def sig_is_member_def bit_and_iff)

subsection \<open>Concrete instances\<close>

definition demo_sig :: sigtcb where
  "demo_sig = \<lparr>sig_pending_cnt = 0, action = replicate 64 \<lparr>sa_handler = 0, sa_flags = 0, sa_mask = 0\<rparr>, blocked = 0, pending_signal = 0,
     pending_list = [], sig_ing = 0, t_killed = False, trapframe = (replicate 70 7)[TF_SP := 0x5F00]\<rparr>"

lemma demo_sig_inv: "sig_inv 8 demo_vm demo_sig"
  using demo_vm_ok(1) by (simp add: sig_inv_def demo_sig_def)

lemma signal_send_keeps: "signal_send af s info t = Some (s', t', r) \<Longrightarrow> blocked t' = blocked t \<and> action t' = action t"
  by (auto simp: signal_send_def Let_def bind_eq_Some_conv split: option.splits prod.splits if_splits)

lemma demo_send:
  obtains s' t' a where "signal_send Some demo_vm \<lparr>si_signo = n, si_code = 0\<rparr> demo_sig = Some (s', t', 1)" "sig_inv 8 s' t'"
    "pending_list t' = [(a, \<lparr>si_signo = n, si_code = 0\<rparr>)]" "blocked t' = 0" "action t' = action demo_sig"
proof -
  have nm: "\<not> sig_is_member (pending_signal demo_sig) n" by (simp add: demo_sig_def sig_is_member_def)
  have "\<not> exhausted 8 demo_vm" using demo_vm_ok(7,8) by (simp add: exhausted_def)
  moreover obtain s' t' r where s: "signal_send Some demo_vm \<lparr>si_signo = n, si_code = 0\<rparr> demo_sig = Some (s', t', r)" "sig_inv 8 s' t'"
    "if r = 1 then sig_is_member (pending_signal t') n \<and> (\<exists>a. pending_list t' = pending_list demo_sig @ [(a, \<lparr>si_signo = n, si_code = 0\<rparr>)])
        else r = 0 \<and> exhausted 8 demo_vm \<and> pending_list t' = pending_list demo_sig \<and> pending_signal t' = pending_signal demo_sig"
    using signal_send_spec [OF demo_sig_inv demo_vm_ok(2), of Some "\<lparr>si_signo = n, si_code = 0\<rparr>"] nm by (simp only: if_False siginfo_t.select_convs) blast
  ultimately obtain a where a: "r = 1" "pending_list t' = [(a, \<lparr>si_signo = n, si_code = 0\<rparr>)]" by (auto simp: demo_sig_def split: if_splits)
  have "blocked t' = 0 \<and> action t' = action demo_sig"
    using signal_send_keeps [OF s(1)] by (simp add: demo_sig_def)
  then show thesis using that s(1,2) a by simp
qed

theorem signal_send_correct_witness:
  "\<exists>s' t' r. signal_send Some demo_vm \<lparr>si_signo = 10, si_code = 0\<rparr> demo_sig = Some (s', t', r) \<and> sig_inv 8 s' t' \<and> \<not> t_killed t'"
  using signal_send_correct [OF demo_sig_inv demo_vm_ok(2), of Some "\<lparr>si_signo = 10, si_code = 0\<rparr>"]
  by (auto simp: demo_sig_def sig_is_member_def SIGKILL_def SIGSTOP_def SIGTERM_def)

theorem default_signal_marked_forever_witness:
  "\<exists>vs t s' t'. pending_list t \<noteq> [] \<and> signal_handle Some (\<lambda>_ _ _ m. m) Some 0 0 demo_mm vs t = Some (vs\<lparr>vs_mem := s'\<rparr>, t', 1) \<and> pending_list t' = [] \<and>
    signal_send Some s' \<lparr>si_signo = 10, si_code = 0\<rparr> t' = Some (s', t', 0)"
proof -
  obtain s1 t1 a where s: "sig_inv 8 s1 t1" "pending_list t1 = [(a, \<lparr>si_signo = 10, si_code = 0\<rparr>)]" "blocked t1 = 0" "action t1 = action demo_sig"
    by (rule demo_send)
  have "\<exists>s' t'. signal_handle Some (\<lambda>_ _ _ m. m) Some 0 0 demo_mm (demo_vs\<lparr>vs_mem := s1\<rparr>) t1 = Some (demo_vs\<lparr>vs_mem := s1\<rparr>\<lparr>vs_mem := s'\<rparr>, t', 1) \<and>
      sig_inv 8 s' t' \<and> pending_list t' = [] \<and> signal_send Some s' \<lparr>si_signo = 10, si_code = 0\<rparr> t' = Some (s', t', 0)"
    by (rule default_signal_marked_forever [where info = "\<lparr>si_signo = 10, si_code = 0\<rparr>"])
      (use s in \<open>simp_all add: demo_sig_def valid_signal_def NSIG_def sig_is_member_def SIG_DFL_def SIGCHLD_def\<close>)
  then show ?thesis using s(2) by (intro exI [of _ "demo_vs\<lparr>vs_mem := s1\<rparr>"] exI [of _ t1]) auto
qed

theorem invalid_signal_panics_witness:
  "\<exists>s' t'. signal_send Some demo_vm \<lparr>si_signo = 100, si_code = 0\<rparr> demo_sig = Some (s', t', 1) \<and>
    signal_handle Some (\<lambda>_ _ _ m. m) Some 0 0 demo_mm demo_vs t' = None"
proof -
  obtain s' t' where s: "signal_send Some demo_vm \<lparr>si_signo = 100, si_code = 0\<rparr> demo_sig = Some (s', t', 1)" by (rule demo_send)
  then have "signal_handle Some (\<lambda>_ _ _ m. m) Some 0 0 demo_mm demo_vs t' = None"
    using invalid_signal_panics [OF demo_sig_inv _ _ s] by (simp add: valid_signal_def NSIG_def demo_sig_def)
  then show ?thesis using s by blast
qed

text \<open>A page for a node on top of the mapping at 0x5000, and a signal with a handler in it.\<close>

definition demo_node :: "kmem \<times> nat option" where "demo_node = the (kalloc Some (demo_map demo_w))"

definition demo_info :: siginfo_t where "demo_info = \<lparr>si_signo = 10, si_code = 0\<rparr>"

definition demo_handled :: sigtcb where
  "demo_handled = demo_sig\<lparr>sig_pending_cnt := 1, action := (action demo_sig)[9 := \<lparr>sa_handler = 0x5100, sa_flags = 0, sa_mask = 0\<rparr>],
     pending_signal := sig_gen_mask 10, pending_list := [(the (snd demo_node), demo_info)]\<rparr>"

lemma demo_frame: "frame_ok (demo_map demo_w) START_MEM 0x5900 16 1024"
proof -
  have a: "0x5900 = 0x5000 + (word_of_nat 0x900 :: uint64)" "0x5900 + word_of_nat 960 = 0x5000 + (word_of_nat 0xCC0 :: uint64)" by simp_all
  have "user_buf (demo_map demo_w) START_MEM (0x5000 + word_of_nat 0x900) 960 1024" "user_buf (demo_map demo_w) START_MEM (0x5000 + word_of_nat 0xCC0) 576 16"
    by (rule demo_w_buf; simp)+
  moreover have "away (demo_map demo_w) START_MEM 16 576" "away (demo_map demo_w) START_MEM 1024 960"
    using demo_w_ok(4) by (fastforce simp: away_def START_MEM_def)+
  ultimately show ?thesis unfolding frame_ok_def a(2) unfolding a(1) using demo_w_byte(3) [of "0x900"] demo_w_byte(3) [of "0xCC0"] by simp
qed

lemma demo_node_ok:
  obtains p where "snd demo_node = Some (page_to_pa p)" "kmem_inv 8 (fst demo_node)" "km_blocks (fst demo_node) p = Some 0"
    "page_to_pa p \<notin> tabs (fst demo_node) 2 START_MEM" "pt_ok (fst demo_node) START_MEM" "leaves_ok (fst demo_node) START_MEM"
    "frame_ok (fst demo_node) START_MEM 0x5900 16 1024"
proof -
  let ?s = "demo_map demo_w"
  obtain s' r where k: "kalloc Some ?s = Some (s', r)" "page_grant 8 0 ?s r s'" "km_mem s' = km_mem ?s"
    using request_quiet [OF demo_w_ok(1), of 0 Some] demo_w_ok(6) by (auto simp: kalloc_def)
  have n: "demo_node = (s', r)" using k(1) by (simp add: demo_node_def)
  have "r \<noteq> None"
  proof
    assume "r = None"
    then show False using k(2) no_page_exhausted [OF demo_w_ok(1)] demo_w_ok(7) by (simp add: page_grant_def)
  qed
  then obtain p where p: "r = Some (page_to_pa p)" "km_blocks ?s p = None" "km_blocks s' = (km_blocks ?s)(p \<mapsto> 0)" "kmem_inv 8 s'"
    using k(2) by (auto simp: page_grant_def)
  have tp: "tblpage ?s b" if "b \<in> tabs ?s 2 START_MEM" for b using that demo_w_ok(2) pt_wf_tblpage by (auto simp: pt_ok_def)
  have nt: "page_to_pa p \<notin> tabs ?s 2 START_MEM"
  proof
    assume "page_to_pa p \<in> tabs ?s 2 START_MEM"
    from tp [OF this] show False using p(2) by (auto simp: tblpage_def page_to_pa_def PGSIZE_def)
  qed
  have u: "mem_upto {} ?s s'" using k(3) by (simp add: mem_upto_def)
  have t: "\<forall>b\<in>tabs ?s 2 START_MEM. tblpage ?s b \<longrightarrow> tblpage s' b" using p(3) by (auto simp: tblpage_def)
  note o = outside_pt [OF demo_w_ok(2) u _ t, simplified]
  have lv: "leaves_ok s' START_MEM" using demo_w_ok(3) o(3) by (simp add: leaves_ok_def)
  have "user_pa s' START_MEM x = user_pa ?s START_MEM x" if "x < MAXVA" for x
    unfolding user_pa_lkup [OF o(1) lv that] user_pa_lkup [OF demo_w_ok(2,3) that] o(3) ..
  note fr = frame_ok_cong(1) [OF demo_frame o(3) this o(2)]
  show thesis by (rule that [of p, unfolded n fst_conv snd_conv, OF p(1,4) _ _ o(1) lv fr]) (simp_all add: p(3) nt o(2))
qed

theorem signal_delivery_roundtrip_witness:
  "\<exists>s1 t1 s2 t2. signal_handle Some (\<lambda>_ _ _ m. m) Some 16 1024 (demo_mm\<lparr>pagetable := START_MEM\<rparr>) (demo_vs\<lparr>vs_mem := fst demo_node\<rparr>) demo_handled =
      Some (demo_vs\<lparr>vs_mem := s1\<rparr>, t1, 1) \<and> trapframe t1 ! TF_EPC = 0x5100 \<and>
    map_option syscall_return (sys_rt_sigreturn 16 1024 (demo_mm\<lparr>pagetable := START_MEM\<rparr>) (demo_vs\<lparr>vs_mem := s1\<rparr>)
      (t1\<lparr>trapframe := (trapframe t1)[TF_A1 := 77], blocked := 0xFF\<rparr>)) = Some (demo_vs\<lparr>vs_mem := s2\<rparr>, t2) \<and>
    trapframe t2 = (trapframe demo_handled)[TF_A0 := word_of_int (- EINTR)] \<and> blocked t2 = blocked demo_handled \<and> blocked t2 \<noteq> 0xFF"
proof -
  let ?vs = "demo_vs\<lparr>vs_mem := fst demo_node\<rparr>" and ?mm = "demo_mm\<lparr>pagetable := START_MEM\<rparr>"
  obtain p where p: "snd demo_node = Some (page_to_pa p)" "kmem_inv 8 (fst demo_node)" "km_blocks (fst demo_node) p = Some 0"
    "page_to_pa p \<notin> tabs (fst demo_node) 2 START_MEM" "pt_ok (fst demo_node) START_MEM" "leaves_ok (fst demo_node) START_MEM"
    "frame_ok (fst demo_node) START_MEM 0x5900 16 1024" by (rule demo_node_ok)
  have d: "deliverable 8 (vs_mem ?vs) (pagetable ?mm) demo_handled [] p demo_info []"
    using p(1-4) by (simp add: deliverable_def demo_handled_def demo_sig_def demo_info_def valid_signal_def NSIG_def sig_is_member_def SIG_DFL_def SIG_IGN_def)
  have f: "0x5900 = get_sigframe (trapframe demo_handled) 1536" by (simp add: get_sigframe_def demo_handled_def demo_sig_def TF_SP_def)
  obtain s1 t1 where h: "signal_handle Some (\<lambda>_ _ _ m. m) Some 16 1024 ?mm ?vs demo_handled = Some (?vs\<lparr>vs_mem := s1\<rparr>, t1, 1)"
    "trapframe t1 ! TF_EPC = sa_handler (action demo_handled ! nat (si_signo demo_info - 1))" "trapframe t1 ! TF_SP = 0x5900"
    "\<forall>u m. trapframe u ! TF_SP = 0x5900 \<and> tables_kept s1 (pagetable ?mm) m \<and>
        (\<forall>x. x \<in> user_byte s1 (pagetable ?mm) 0x5900 ` {..<960} \<union> user_byte s1 (pagetable ?mm) (0x5900 + word_of_nat 960) ` {..<576} \<longrightarrow> m x = km_mem s1 x) \<longrightarrow>
      (\<exists>s2 t2. map_option syscall_return (sys_rt_sigreturn 16 1024 ?mm (?vs\<lparr>vs_mem := s1\<lparr>km_mem := m\<rparr>\<rparr>) u) = Some (?vs\<lparr>vs_mem := s2\<rparr>, t2) \<and>
        trapframe t2 = (trapframe demo_handled)[TF_A0 := word_of_int (- EINTR)] \<and> blocked t2 = blocked demo_handled \<and> \<not> sig_is_member (pending_signal t2) (si_signo demo_info) \<and>
        t2 = u\<lparr>trapframe := trapframe t2, blocked := blocked t2, sig_ing := word_of_int (si_signo demo_info),
          pending_signal := sig_del_set_mask (pending_signal u) (sig_gen_mask (si_signo demo_info))\<rparr>)"
    using signal_delivery_roundtrip [OF d _ _ _ _ f, of 16 1024 Some "\<lambda>_ _ _ m. m" Some] p(5-7) by (fastforce simp: demo_handled_def demo_sig_def)
  let ?u = "t1\<lparr>trapframe := (trapframe t1)[TF_A1 := 77], blocked := 0xFF\<rparr>"
  obtain s2 t2 where "map_option syscall_return (sys_rt_sigreturn 16 1024 ?mm (?vs\<lparr>vs_mem := s1\<lparr>km_mem := km_mem s1\<rparr>\<rparr>) ?u) = Some (?vs\<lparr>vs_mem := s2\<rparr>, t2)"
      "trapframe t2 = (trapframe demo_handled)[TF_A0 := word_of_int (- EINTR)]" "blocked t2 = blocked demo_handled"
    using h(4) [rule_format, of ?u "km_mem s1"] h(3) by (auto simp: tables_kept_def TF_A1_def TF_SP_def)
  moreover have "blocked demo_handled \<noteq> 0xFF" by (simp add: demo_handled_def demo_sig_def)
  moreover have "trapframe t1 ! TF_EPC = 0x5100" using h(2) by (simp add: demo_handled_def demo_sig_def demo_info_def)
  ultimately show ?thesis using h(1) by (intro exI [of _ s1] exI [of _ t1] exI [of _ s2] exI [of _ t2]) simp
qed

end
