(* ===== verification/Process.thy ===== *)
theory Process
  imports ListHead Semaphore
begin

unbundle bit_operations_syntax

text \<open>
  The life of a process (\<open>src/proc/pcb_life.c\<close>): the process table, the tree of parents and children,
  \<open>do_clone\<close>, \<open>do_exit\<close>, \<open>reparent\<close> and \<open>waitpid\<close>, over the scheduler of theory \<open>Sched\<close> and the semaphores of
  theory \<open>Semaphore\<close>.

  A \<open>struct proc\<close> is an index into the process table and a \<open>struct tcb\<close> an index into the thread table.  The
  children of a process form a ring of their \<open>sibling_list\<close> nodes without a head: \<open>first_child\<close> points into the
  ring, which is modelled on the heap of theory \<open>ListHead\<close>, node \<open>c\<close> being \<open>proc[c].sibling_list\<close>.  The
  counters of ids are unbounded; those of the code have 32 bits and differ only after \<open>2 ^ 31\<close> processes or threads.

  Each function runs up to the point where its thread sleeps or returns; \<open>None\<close> is a panic, a failed assertion or
  an access through a null pointer.  \<open>waitpid\<close> sleeps in two places, on the semaphore of the caller and on that of
  the child it looks for; what it does when the thread runs again is a function of its own.

  The address space, the open files, the working directory and the timer of a process are not part of this state;
  the outcomes of the calls on them are arguments.
\<close>

subsection \<open>Data\<close>

text \<open>\<open>p_locked\<close> tells whether the lock of a process is still held when no function of this theory runs;
  \<open>shm_ready\<close> whether the list of attached shared memory segments has been initialised.\<close>

record ptab =
  sched :: ksched
  sib :: "nat lheap"
  first_child :: "nat \<Rightarrow> nat option"
  parent :: "nat \<Rightarrow> nat option"
  pid :: "nat \<Rightarrow> int"
  exit_state :: "nat \<Rightarrow> uint"
  p_killed :: "nat \<Rightarrow> bool"
  p_locked :: "nat \<Rightarrow> bool"
  shm_ready :: "nat \<Rightarrow> bool"
  wait_parent :: "nat \<Rightarrow> sem"
  wait_self :: "nat \<Rightarrow> sem"
  thread_cnt :: "nat \<Rightarrow> int"
  t_proc :: "nat \<Rightarrow> nat option"
  tid :: "nat \<Rightarrow> int"
  clear_child_tid :: "nat \<Rightarrow> nat"
  next_tid :: int
  next_pid :: int
  count_pid :: int
  pid_map :: "int \<Rightarrow> nat option"
  initproc :: "nat option"

text \<open>The wait queues of the two semaphores of a process.\<close>

definition chan_parent :: "nat \<Rightarrow> nat" where "chan_parent p = 2 * p"
definition chan_self :: "nat \<Rightarrow> nat" where "chan_self p = 2 * p + 1"

definition nochildren :: "ptab \<Rightarrow> nat \<Rightarrow> bool" where "nochildren s p \<longleftrightarrow> first_child s p = None"

definition nosibling :: "ptab \<Rightarrow> nat \<Rightarrow> bool option" where "nosibling s p = list_empty (sib s) (Some p)"

definition nextsibling :: "ptab \<Rightarrow> nat option \<Rightarrow> nat option option" where
  "nextsibling s p = get_next (sib s) p"

definition proc_current :: "ptab \<Rightarrow> nat \<Rightarrow> nat option" where
  "proc_current s c = do {
     t \<leftarrow> cpu_thread (sched s) c;
     t_proc s t }"

subsection \<open>The table\<close>

definition PCB_Q_ALL_INIT :: "ksched \<Rightarrow> ksched" where
  "PCB_Q_ALL_INIT s = Queue_init (Queue_init (Queue_init s (PQ PCB_UNUSED)) (PQ PCB_USED)) (PQ PCB_ZOMBIE)"

fun proc_init_loop :: "nat list \<Rightarrow> ksched \<Rightarrow> ksched option" where
  "proc_init_loop [] s = Some s"
| "proc_init_loop (p # ps) s = do {
     s \<leftarrow> Queue_push_back_atomic (s\<lparr>p_state := (p_state s)(p := PCB_UNUSED)\<rparr>) (PQ PCB_UNUSED) p;
     proc_init_loop ps s }"

text \<open>\<open>proc_init\<close> of a table with \<open>m\<close> processes.\<close>

definition proc_init :: "nat \<Rightarrow> ptab \<Rightarrow> ptab option" where
  "proc_init m s = do {
     k \<leftarrow> proc_init_loop [0 ..< m] (PCB_Q_ALL_INIT (sched s));
     Some (s\<lparr>sched := k, next_pid := 1, count_pid := 0, p_locked := (\<lambda>p. if p < m then False else p_locked s p)\<rparr>) }"

text \<open>The zeroed memory before \<open>proc_init\<close>, for a table of \<open>m\<close> processes.\<close>

definition boot_ptab :: "nat \<Rightarrow> ksched \<Rightarrow> ptab" where
  "boot_ptab m k = \<lparr>sched = k, sib = (\<lambda>p. if p < m then Some \<lparr>lnext = None, lprev = None\<rparr> else None), first_child = (\<lambda>_. None),
     parent = (\<lambda>_. None), pid = (\<lambda>_. 0), exit_state = (\<lambda>_. 0), p_killed = (\<lambda>_. False), p_locked = (\<lambda>_. False),
     shm_ready = (\<lambda>_. False), wait_parent = (\<lambda>p. \<lparr>sem_value = 0, sem_wakeup = 0, sem_cond = chan_parent p\<rparr>),
     wait_self = (\<lambda>p. \<lparr>sem_value = 0, sem_wakeup = 0, sem_cond = chan_self p\<rparr>), thread_cnt = (\<lambda>_. 0), t_proc = (\<lambda>_. None),
     tid = (\<lambda>_. 0), clear_child_tid = (\<lambda>_. 0), next_tid = 1, next_pid = 0, count_pid = 0, pid_map = (\<lambda>_. None), initproc = None\<rparr>"

definition find_get_pid :: "ptab \<Rightarrow> int \<Rightarrow> nat option" where "find_get_pid s i = pid_map s i"

definition proc_setkilled :: "ptab \<Rightarrow> nat \<Rightarrow> ptab" where "proc_setkilled s p = s\<lparr>p_killed := (p_killed s)(p := True)\<rparr>"

definition proc_killed :: "ptab \<Rightarrow> nat \<Rightarrow> bool" where "proc_killed s p = p_killed s p"

text \<open>The counter of \<open>get_current_procs\<close> has eight bits.\<close>

fun count_procs :: "ptab \<Rightarrow> nat list \<Rightarrow> 8 word \<Rightarrow> 8 word" where
  "count_procs s [] procs = procs"
| "count_procs s (p # ps) procs = count_procs s ps (if p_state (sched s) p \<noteq> PCB_UNUSED then procs + 1 else procs)"

definition get_current_procs :: "nat \<Rightarrow> ptab \<Rightarrow> 8 word" where
  "get_current_procs m s = count_procs s [0 ..< m] 0"

subsection \<open>Parents and children\<close>

definition deleteChild :: "ptab \<Rightarrow> nat \<Rightarrow> nat \<Rightarrow> ptab option" where
  "deleteChild s par child = do {
     alone \<leftarrow> nosibling s child;
     if alone then Some (s\<lparr>first_child := (first_child s)(par := None)\<rparr>)
     else do {
       let firstchild = first_child s par;
       s \<leftarrow> (if Some child = firstchild then do {
              nxt \<leftarrow> nextsibling s firstchild;
              Some (s\<lparr>first_child := (first_child s)(par := nxt)\<rparr>) }
            else Some s);
       h \<leftarrow> list_del_reinit (sib s) (Some child);
       Some (s\<lparr>sib := h\<rparr>) } }"

definition appendChild :: "ptab \<Rightarrow> nat \<Rightarrow> nat \<Rightarrow> ptab option" where
  "appendChild s par child =
     (if nochildren s par then Some (s\<lparr>first_child := (first_child s)(par := Some child)\<rparr>)
      else do {
        h \<leftarrow> list_add_tail (sib s) (Some child) (first_child s par);
        Some (s\<lparr>sib := h\<rparr>) })"

text \<open>The children in the order in which \<open>procChildrenChain\<close> prints them: the first child, then the ring up to it again.  The
  size of the table is enough fuel.\<close>

definition procChildrenChain :: "nat \<Rightarrow> ptab \<Rightarrow> nat \<Rightarrow> nat list option" where
  "procChildrenChain fuel s p =
     (case first_child s p of
        None \<Rightarrow> Some []
      | Some f \<Rightarrow> do {
          cs \<leftarrow> list_for_each fuel (sib s) (Some f);
          Some (f # cs) })"

text \<open>The semaphores of a process.\<close>

definition signal_parent :: "ptab \<Rightarrow> nat \<Rightarrow> ptab option" where
  "signal_parent s p = do {
     (k, S) \<leftarrow> sema_signal (sched s) (wait_parent s p);
     Some (s\<lparr>sched := k, wait_parent := (wait_parent s)(p := S)\<rparr>) }"

definition signal_self :: "ptab \<Rightarrow> nat \<Rightarrow> ptab option" where
  "signal_self s p = do {
     (k, S) \<leftarrow> sema_signal (sched s) (wait_self s p);
     Some (s\<lparr>sched := k, wait_self := (wait_self s)(p := S)\<rparr>) }"

text \<open>The body of the loop of \<open>reparent\<close>: init takes over one child of \<open>p\<close>.\<close>

definition adopt :: "ptab \<Rightarrow> nat \<Rightarrow> nat \<Rightarrow> ptab option" where
  "adopt s p child = do {
     s \<leftarrow> deleteChild s p child;
     init \<leftarrow> initproc s;
     s \<leftarrow> appendChild s init child;
     let s = s\<lparr>parent := (parent s)(child := Some init)\<rparr>;
     if p_state (sched s) child = PCB_ZOMBIE then signal_parent s init else Some s }"

text \<open>The loop of \<open>reparent\<close>, \<open>list_for_each_entry_safe_given_first\<close>: \<open>n\<close> is the node after \<open>pos\<close>, read before \<open>pos\<close> is moved.
  The test of the loop is at the head, and \<open>flag\<close> is set on the first turn only.  Every turn but the last moves one
  child, so the number of processes is enough fuel.\<close>

fun reparent_loop :: "nat \<Rightarrow> ptab \<Rightarrow> nat \<Rightarrow> nat option \<Rightarrow> nat option \<Rightarrow> nat option \<Rightarrow> bool \<Rightarrow> ptab option" where
  "reparent_loop 0 s p pos n first flag = None"
| "reparent_loop (Suc fuel) s p pos n first flag =
     (if flag \<or> pos \<noteq> first then do {
        child \<leftarrow> pos;
        s \<leftarrow> adopt s p child;
        if first_child s p = None then Some s
        else do {
          n' \<leftarrow> nextsibling s n;
          reparent_loop fuel s p n n' first False } }
      else Some s)"

definition reparent :: "nat \<Rightarrow> ptab \<Rightarrow> nat \<Rightarrow> ptab option" where
  "reparent fuel s p =
     (if \<not> nochildren s p then do {
        let first = first_child s p;
        n \<leftarrow> nextsibling s first;
        s \<leftarrow> reparent_loop fuel s p first n first True;
        ASSERT (nochildren s p);
        Some s }
      else Some s)"

subsection \<open>Creation and removal\<close>

text \<open>\<open>free_proc\<close> without the memory it returns.\<close>

definition free_proc :: "ptab \<Rightarrow> nat \<Rightarrow> ptab option" where
  "free_proc s p = do {
     let s = s\<lparr>pid_map := (pid_map s)(pid s p := None), count_pid := count_pid s - 1, pid := (pid s)(p := 0),
       parent := (parent s)(p := None), p_killed := (p_killed s)(p := False), exit_state := (exit_state s)(p := 0)\<rparr>;
     k \<leftarrow> PCB_Q_changeState (sched s) p PCB_UNUSED;
     Some (s\<lparr>sched := k\<rparr>) }"

text \<open>Which of the allocations of \<open>alloc_proc\<close> fails.\<close>

datatype alloc_result = Alloc_ok | No_mm | No_tg | No_ipc

text \<open>Taking the lock of an unused process that is still locked never ends.  Where the address space or the thread
  group cannot be allocated, \<open>free_proc\<close> reads \<open>p->tg->thread_idx\<close> through a null pointer; where the name space cannot,
  it runs through \<open>p->sysvshm.shm_clist\<close>, which in a process that was never used is still zero.\<close>

definition alloc_proc :: "ptab \<Rightarrow> alloc_result \<Rightarrow> (ptab \<times> nat option) option" where
  "alloc_proc s r =
     (case Queue_provide_atomic (sched s) (PQ PCB_UNUSED) True of
        (k, None) \<Rightarrow> Some (s\<lparr>sched := k\<rparr>, None)
      | (k, Some p) \<Rightarrow> do {
          ASSERT (\<not> p_locked s p);
          let s = s\<lparr>sched := k, pid := (pid s)(p := next_pid s), next_pid := next_pid s + 1, count_pid := count_pid s + 1,
            first_child := (first_child s)(p := None)\<rparr>;
          h \<leftarrow> INIT_LIST_HEAD (sib s) (Some p);
          let s = s\<lparr>sib := h\<rparr>;
          case r of
            No_mm \<Rightarrow> None
          | No_tg \<Rightarrow> None
          | No_ipc \<Rightarrow> do {
              ASSERT (shm_ready s p);
              s \<leftarrow> free_proc s p;
              Some (s, None) }
          | Alloc_ok \<Rightarrow> do {
              let s = s\<lparr>thread_cnt := (thread_cnt s)(p := 0), shm_ready := (shm_ready s)(p := True)\<rparr>;
              k \<leftarrow> PCB_Q_changeState (sched s) p PCB_USED;
              let (k, S) = sema_init k (chan_parent p) 0;
              let (k, T) = sema_init k (chan_self p) 0;
              Some (s\<lparr>sched := k, wait_parent := (wait_parent s)(p := S), wait_self := (wait_self s)(p := T),
                pid_map := (pid_map s)(pid s p \<mapsto> p), p_locked := (p_locked s)(p := True)\<rparr>, Some p) } })"

text \<open>\<open>alloc_thread\<close> and \<open>proc_join_thread\<close>, whose trap frame can fail to be mapped; its result is then -1, but the thread
  has joined the group.\<close>

definition proc_join_thread :: "ptab \<Rightarrow> nat \<Rightarrow> nat \<Rightarrow> ptab" where
  "proc_join_thread s p t = s\<lparr>thread_cnt := (thread_cnt s)(p := thread_cnt s p + 1), t_proc := (t_proc s)(t := Some p)\<rparr>"

definition take_thread :: "ptab \<Rightarrow> (ptab \<times> nat option) option" where
  "take_thread s = do {
     (k, q) \<leftarrow> alloc_thread (sched s);
     let s = s\<lparr>sched := k\<rparr>;
     case q of
       None \<Rightarrow> Some (s, None)
     | Some t \<Rightarrow> Some (s\<lparr>tid := (tid s)(t := next_tid s), next_tid := next_tid s + 1,
         clear_child_tid := (clear_child_tid s)(t := 0)\<rparr>, Some t) }"

text \<open>If there is no thread, the process is freed but its lock, taken by \<open>alloc_proc\<close>, is not released.\<close>

definition create_proc :: "ptab \<Rightarrow> alloc_result \<Rightarrow> (ptab \<times> (nat \<times> nat) option) option" where
  "create_proc s r = do {
     (s, q) \<leftarrow> alloc_proc s r;
     case q of
       None \<Rightarrow> Some (s, None)
     | Some p \<Rightarrow> do {
         (s, u) \<leftarrow> take_thread s;
         case u of
           None \<Rightarrow> do {
             s \<leftarrow> free_proc s p;
             Some (s, None) }
         | Some t \<Rightarrow> Some (proc_join_thread s p t, Some (p, t)) } }"

definition unlock_proc :: "ptab \<Rightarrow> nat \<Rightarrow> ptab" where
  "unlock_proc s p = s\<lparr>p_locked := (p_locked s)(p := False)\<rparr>"

definition make_runnable :: "ptab \<Rightarrow> nat \<Rightarrow> ptab option" where
  "make_runnable s t = do {
     k \<leftarrow> TCB_Q_changeState (sched s) t TCB_RUNNABLE;
     Some (s\<lparr>sched := k\<rparr>) }"

text \<open>\<open>oscomp_init\<close>: the first process.\<close>

definition oscomp_init :: "ptab \<Rightarrow> alloc_result \<Rightarrow> ptab option" where
  "oscomp_init s r = do {
     (s, q) \<leftarrow> create_proc s r;
     (p, t) \<leftarrow> q;
     let s = s\<lparr>initproc := Some p\<rparr>;
     s \<leftarrow> make_runnable s t;
     Some (unlock_proc s p) }"

text \<open>The flags of \<open>do_clone\<close> that matter here, and the outcomes of the calls it makes: the allocations of the new process,
  whether the trap frames of the new thread and of the group leader, which may have exited, are mapped, storing the thread id at \<open>ctid\<close> and at \<open>ptid\<close>, and copying the address space.\<close>

record clone_args =
  CLONE_THREAD :: bool
  CLONE_CHILD_SETTID :: bool
  CLONE_CHILD_CLEARTID :: bool
  CLONE_PARENT_SETTID :: bool
  ctid :: nat
  allocs :: alloc_result
  frame_ok :: bool
  ctid_ok :: bool
  ptid_ok :: bool
  vm_ok :: bool

text \<open>The part both kinds of clone share: the registers are copied to the trap frame from that of the group leader; one of
  them is a null pointer if it is not mapped.  Then the thread ids are stored; \<open>False\<close> is the early return of -1.\<close>

definition clone_regs :: "ptab \<Rightarrow> clone_args \<Rightarrow> nat \<Rightarrow> (ptab \<times> bool) option" where
  "clone_regs s a t = do {
     ASSERT (frame_ok a);
     if CLONE_CHILD_SETTID a \<and> \<not> ctid_ok a then Some (s, False)
     else do {
       let s = (if CLONE_CHILD_CLEARTID a then s\<lparr>clear_child_tid := (clear_child_tid s)(t := ctid a)\<rparr> else s);
       Some (s, \<not> (CLONE_PARENT_SETTID a \<and> \<not> ptid_ok a)) } }"

definition do_clone :: "ptab \<Rightarrow> nat \<Rightarrow> clone_args \<Rightarrow> (ptab \<times> int) option" where
  "do_clone s c a = do {
     p \<leftarrow> proc_current s c;
     if CLONE_THREAD a then do {
       (s, q) \<leftarrow> take_thread s;
       case q of
         None \<Rightarrow> Some (s, -1)
       | Some t \<Rightarrow> do {
           (s, ok) \<leftarrow> clone_regs (proc_join_thread s p t) a t;
           if \<not> ok then Some (s, -1)
           else do {
             s \<leftarrow> make_runnable s t;
             Some (s, tid s t) } } }
     else do {
       (s, q) \<leftarrow> create_proc s (allocs a);
       case q of
         None \<Rightarrow> Some (s, -1)
       | Some (np, t) \<Rightarrow> do {
           (s, ok) \<leftarrow> clone_regs s a t;
           if \<not> ok then Some (s, -1)
           else if \<not> vm_ok a then do {
             s \<leftarrow> free_proc s np;
             Some (unlock_proc s np, -1) }
           else do {
             let r = pid s np;
             s \<leftarrow> appendChild (s\<lparr>parent := (parent s)(np := Some p)\<rparr>) p np;
             s \<leftarrow> make_runnable (unlock_proc s np) t;
             Some (s, r) } } } }"

subsection \<open>Exit\<close>

text \<open>\<open>exit_process\<close> without closing the files; \<open>fuel\<close> is that of \<open>reparent\<close>.\<close>

definition exit_process :: "nat \<Rightarrow> ptab \<Rightarrow> nat \<Rightarrow> uint \<Rightarrow> ptab option" where
  "exit_process fuel s p status = do {
     ASSERT (initproc s \<noteq> Some p);
     s \<leftarrow> reparent fuel s p;
     k \<leftarrow> PCB_Q_changeState (sched s) p PCB_ZOMBIE;
     let s = s\<lparr>sched := k, exit_state := (exit_state s)(p := push_bit 8 status)\<rparr>;
     par \<leftarrow> parent s p;
     s \<leftarrow> signal_parent s par;
     signal_self s p }"

text \<open>\<open>exit_wakeup\<close>, with \<open>copy_ok\<close> the outcome of \<open>copyout\<close> to \<open>clear_child_tid\<close>.\<close>

definition exit_wakeup :: "ptab \<Rightarrow> nat \<Rightarrow> bool \<Rightarrow> ptab option" where
  "exit_wakeup s t copy_ok =
     (if clear_child_tid s t \<noteq> 0 then do {
        ASSERT copy_ok;
        (k, _) \<leftarrow> futex_wakeup (sched s) (clear_child_tid s t) 1;
        Some (s\<lparr>sched := k\<rparr>) }
      else Some s)"

definition do_exit :: "nat \<Rightarrow> ptab \<Rightarrow> nat \<Rightarrow> uint \<Rightarrow> bool \<Rightarrow> uint64 \<Rightarrow> ptab option" where
  "do_exit fuel s c status copy_ok rd = do {
     t \<leftarrow> cpu_thread (sched s) c;
     p \<leftarrow> t_proc s t;
     s \<leftarrow> exit_wakeup s t copy_ok;
     let cnt = thread_cnt s p;
     let s = s\<lparr>thread_cnt := (thread_cnt s)(p := cnt - 1)\<rparr>;
     s \<leftarrow> (if cnt - 1 = 0 then exit_process fuel s p status else Some s);
     k \<leftarrow> Sched.do_exit (sched s) c 0 rd;
     Some (s\<lparr>sched := k, t_proc := (t_proc s)(t := None), tid := (tid s)(t := 0)\<rparr>) }"

subsection \<open>Waiting for a child\<close>

text \<open>How \<open>waitpid\<close>, or the next part of it, ended: it returned a value and perhaps stored a status; the thread sleeps on
  the semaphore of its process; it sleeps on that of child \<open>pos\<close> in the loop over the children, with the loop
  variables as given; or the thread exited.\<close>

datatype wait_end =
    Returned int "uint option"
  | On_parent
  | On_child "nat option" "nat option" "nat option"
  | Thread_exit

text \<open>The zombie is freed and its exit status stored; \<open>status\<close> is \<open>None\<close> for a null pointer, else the outcome of
  \<open>copyout\<close>.\<close>

definition reap :: "ptab \<Rightarrow> nat \<Rightarrow> nat \<Rightarrow> bool option \<Rightarrow> (ptab \<times> wait_end) option" where
  "reap s p child status =
     (if status = Some False then Some (s, Returned (-1) None)
      else do {
        let r = pid s child;
        let st = exit_state s child;
        s \<leftarrow> free_proc s child;
        s \<leftarrow> deleteChild s p child;
        Some (s, Returned r (map_option (\<lambda>_. st) status)) })"

text \<open>The loop over the children.  It is left when it is back at the first child, and then \<open>waitpid\<close> panics.\<close>

fun wait_loop ::
  "nat \<Rightarrow> ptab \<Rightarrow> nat \<Rightarrow> nat \<Rightarrow> int \<Rightarrow> bool option \<Rightarrow> uint64 \<Rightarrow> nat option \<Rightarrow> nat option \<Rightarrow> nat option \<Rightarrow> bool \<Rightarrow>
   (ptab \<times> wait_end) option" where
  "wait_loop 0 s p c i status rd pos n first flag = None"
| "wait_loop (Suc fuel) s p c i status rd pos n first flag =
     (if flag \<or> pos \<noteq> first then do {
        child \<leftarrow> pos;
        (s, r) \<leftarrow> (if 0 < i \<and> pid s child = i then do {
                     (k, S, r) \<leftarrow> sema_wait (sched s) (wait_self s child) c 0 rd;
                     Some (s\<lparr>sched := k, wait_self := (wait_self s)(child := S)\<rparr>, r) }
                   else Some (s, Passed));
        if r = Blocked then Some (s, On_child pos n first)
        else if p_state (sched s) child = PCB_ZOMBIE then reap s p child status
        else do {
          n' \<leftarrow> nextsibling s n;
          wait_loop fuel s p c i status rd n n' first False } }
      else None)"

definition wait_children ::
  "nat \<Rightarrow> ptab \<Rightarrow> nat \<Rightarrow> nat \<Rightarrow> int \<Rightarrow> bool option \<Rightarrow> uint64 \<Rightarrow> (ptab \<times> wait_end) option" where
  "wait_children fuel s p c i status rd = do {
     let first = first_child s p;
     n \<leftarrow> nextsibling s first;
     wait_loop fuel s p c i status rd first n first True }"

definition waitpid ::
  "nat \<Rightarrow> ptab \<Rightarrow> nat \<Rightarrow> int \<Rightarrow> bool option \<Rightarrow> uint64 \<Rightarrow> (ptab \<times> wait_end) option" where
  "waitpid fuel s c i status rd = do {
     p \<leftarrow> proc_current s c;
     let i = (if i < -1 then - i else i);
     ASSERT (i \<noteq> 0);
     if nochildren s p then Some (s, Returned (-1) None)
     else if proc_killed s p then Some (s, Returned (-1) None)
     else do {
       (k, S, r) \<leftarrow> sema_wait (sched s) (wait_parent s p) c 0 rd;
       let s = s\<lparr>sched := k, wait_parent := (wait_parent s)(p := S)\<rparr>;
       if r = Blocked then Some (s, On_parent)
       else wait_children fuel s p c i status rd } }"

text \<open>The thread runs again after it slept on the semaphore of its process, or on that of a child.  If it has been killed
  meanwhile, \<open>cond_wait\<close> ends in \<open>do_exit(-1)\<close>.  Here \<open>i\<close> is the argument after its sign was changed.\<close>

definition waitpid_resume ::
  "nat \<Rightarrow> ptab \<Rightarrow> nat \<Rightarrow> int \<Rightarrow> bool option \<Rightarrow> bool \<Rightarrow> uint64 \<Rightarrow> (ptab \<times> wait_end) option" where
  "waitpid_resume fuel s c i status copy_ok rd = do {
     t \<leftarrow> cpu_thread (sched s) c;
     p \<leftarrow> t_proc s t;
     if t_killed (sched s) t then do {
       s \<leftarrow> do_exit fuel (s\<lparr>sched := fst (cond_wait_resume (sched s) t)\<rparr>) c (-1) copy_ok rd;
       Some (s, Thread_exit) }
     else do {
       (k, S, r) \<leftarrow> sema_wait_resume (sched s) (wait_parent s p) c 0 rd;
       let s = s\<lparr>sched := k, wait_parent := (wait_parent s)(p := S)\<rparr>;
       if r = Blocked then Some (s, On_parent)
       else wait_children fuel s p c i status rd } }"

definition waitpid_resume_child ::
  "nat \<Rightarrow> ptab \<Rightarrow> nat \<Rightarrow> int \<Rightarrow> bool option \<Rightarrow> bool \<Rightarrow> uint64 \<Rightarrow> nat option \<Rightarrow> nat option \<Rightarrow> nat option \<Rightarrow>
   (ptab \<times> wait_end) option" where
  "waitpid_resume_child fuel s c i status copy_ok rd pos n first = do {
     t \<leftarrow> cpu_thread (sched s) c;
     p \<leftarrow> t_proc s t;
     child \<leftarrow> pos;
     if t_killed (sched s) t then do {
       s \<leftarrow> do_exit fuel (s\<lparr>sched := fst (cond_wait_resume (sched s) t)\<rparr>) c (-1) copy_ok rd;
       Some (s, Thread_exit) }
     else do {
       (k, S, r) \<leftarrow> sema_wait_resume (sched s) (wait_self s child) c 0 rd;
       let s = s\<lparr>sched := k, wait_self := (wait_self s)(child := S)\<rparr>;
       if r = Blocked then Some (s, On_child pos n first)
       else if p_state (sched s) child = PCB_ZOMBIE then reap s p child status
       else do {
         n' \<leftarrow> nextsibling s n;
         wait_loop fuel s p c i status rd n n' first False } } }"


subsection \<open>Threads do not move processes\<close>

text \<open>The scheduler leaves the queues of the process states alone.\<close>

definition pcb_part :: "ksched \<Rightarrow> (nat \<Rightarrow> procstate) \<times> (nat \<Rightarrow> qid option)" where
  "pcb_part s = (p_state s, loc s PCB_STATE_QUEUE)"

lemma pcb_part_update [simp]:
  "pcb_part (s\<lparr>t_state := a\<rparr>) = pcb_part s" "pcb_part (s\<lparr>wait_chan_entry := b\<rparr>) = pcb_part s"
  "pcb_part (s\<lparr>t_killed := d\<rparr>) = pcb_part s" "pcb_part (s\<lparr>cpu_thread := e\<rparr>) = pcb_part s"
  "pcb_part (s\<lparr>futex_map := f\<rparr>) = pcb_part s" "pcb_part (s\<lparr>next_wq := g\<rparr>) = pcb_part s"
  "pcb_part (s\<lparr>time_out := i\<rparr>) = pcb_part s" "pcb_part (s\<lparr>timers := j\<rparr>) = pcb_part s"
  "pcb_part (s\<lparr>qlist := l\<rparr>) = pcb_part s" "pcb_part (s\<lparr>freed_wq := m\<rparr>) = pcb_part s" "pcb_part (s\<lparr>taken := u\<rparr>) = pcb_part s"
  by (simp_all add: pcb_part_def)

lemma remove_pcb [simp]: "ty \<noteq> PCB_STATE_QUEUE \<Longrightarrow> pcb_part (Queue_remove s t ty) = pcb_part s"
  by (simp add: pcb_part_def Queue_remove_def split: option.splits)

lemma push_back_pcb: "Queue_push_back s q t = Some s' \<Longrightarrow> q_type q \<noteq> PCB_STATE_QUEUE \<Longrightarrow> pcb_part s' = pcb_part s"
  by (auto simp: Queue_push_back_def pcb_part_def split: if_splits)

lemma provide_pcb: "Queue_provide_atomic s q b = (s', r) \<Longrightarrow> q_type q \<noteq> PCB_STATE_QUEUE \<Longrightarrow> pcb_part s' = pcb_part s"
  by (auto simp: Queue_provide_atomic_def Queue_pop_def Let_def split: if_splits)

lemma change_pcb: "TCB_Q_changeState s t st = Some s' \<Longrightarrow> pcb_part s' = pcb_part s"
  by (auto simp: TCB_Q_changeState_def Queue_remove_atomic_def Queue_push_back_atomic_def Option.bind_eq_Some_conv
      dest!: push_back_pcb split: if_splits)

lemma thread_sched_pcb: "thread_sched s c noff rd = Some s' \<Longrightarrow> pcb_part s' = pcb_part s"
  by (cases "cpu_thread s c"; cases "noff = 1"; cases "t_state s (the (cpu_thread s c)) = TCB_RUNNING")
    (auto simp: thread_sched_def Let_def)

lemma sleep_on_pcb:
  assumes "sleep_on s c w tmo noff rd = Some s'"
  shows "pcb_part s' = pcb_part s"
proof -
  obtain t s1 s2 s3 where s: "TCB_Q_changeState s t TCB_SLEEPING = Some s1" "Queue_push_back s1 (WQ w) t = Some s2"
    "thread_sched s3 c noff rd = Some s'" "pcb_part s3 = pcb_part s2"
    using assms unfolding sleep_on_def Let_def Option.bind_eq_Some_conv by (cases tmo) auto
  show ?thesis
    using change_pcb [OF s(1)] push_back_pcb [OF s(2)] thread_sched_pcb [OF s(3)] s(4) by simp
qed

lemma wake_taken_pcb: "wake_taken s t = Some s' \<Longrightarrow> pcb_part s' = pcb_part s"
  by (auto simp: wake_taken_def Option.bind_eq_Some_conv Let_def dest!: change_pcb)

lemma wake_first_pcb: "wake_first s w = Some s' \<Longrightarrow> pcb_part s' = pcb_part s"
  by (auto simp: wake_first_def Option.bind_eq_Some_conv Let_def dest!: wake_taken_pcb provide_pcb split: prod.splits)

lemma free_thread_pcb: "free_thread s t = Some s' \<Longrightarrow> pcb_part s' = pcb_part s"
  by (auto simp: free_thread_def Option.bind_eq_Some_conv Let_def dest!: change_pcb split: if_splits)

lemma futex_free_pcb [simp]: "pcb_part (futex_free s a) = pcb_part s"
  by (simp add: pcb_part_def)

lemma thread_wakeup_pcb: "thread_wakeup s t = Some s' \<Longrightarrow> pcb_part s' = pcb_part s"
  by (auto simp: thread_wakeup_def Queue_remove_atomic_def Option.bind_eq_Some_conv Let_def dest!: change_pcb)

lemma get_futex_pcb: "get_futex s a b = (s', r) \<Longrightarrow> pcb_part s' = pcb_part s"
  by (auto simp: get_futex_def Queue_init_def Let_def split: option.splits if_splits)

lemma broadcast_pcb: "broadcast_loop f s w = Some s' \<Longrightarrow> pcb_part s' = pcb_part s"
  by (induction f arbitrary: s) (fastforce simp: Option.bind_eq_Some_conv dest: wake_first_pcb split: if_splits)+

lemma futex_wake_pcb: "futex_wake_loop f s w r nr = Some (s', k) \<Longrightarrow> pcb_part s' = pcb_part s"
  by (induction f arbitrary: s r) (fastforce simp: Option.bind_eq_Some_conv dest: wake_first_pcb split: if_splits)+

lemma requeue_pcb: "requeue_loop f s w1 w2 r nr = Some (s', k) \<Longrightarrow> pcb_part s' = pcb_part s"
  by (induction f arbitrary: s r)
    (fastforce simp: Option.bind_eq_Some_conv Let_def Queue_push_back_atomic_def dest: push_back_pcb provide_pcb
      split: if_splits prod.splits)+

lemma futex_wakeup_pcb: "futex_wakeup s a nr = Some (s', k) \<Longrightarrow> pcb_part s' = pcb_part s"
  by (auto simp: futex_wakeup_def Option.bind_eq_Some_conv simp del: futex_wake_loop.simps
      dest!: futex_wake_pcb get_futex_pcb split: prod.splits option.splits if_splits)

lemma futex_requeue_pcb:
  assumes "futex_requeue s a nr a2 nr2 = Some (x, r)"
  shows "pcb_part x = pcb_part s"
proof -
  obtain s1 k where 1: "futex_wakeup s a nr = Some (s1, k)"
    using assms by (auto simp: futex_requeue_def Option.bind_eq_Some_conv)
  obtain s2 f where 2: "get_futex s1 a True = (s2, f)" by fastforce
  obtain s3 g where 3: "get_futex s2 a2 False = (s3, g)" by fastforce
  have eq: "pcb_part s2 = pcb_part s" "pcb_part s3 = pcb_part s"
    using futex_wakeup_pcb [OF 1] get_futex_pcb [OF 2] get_futex_pcb [OF 3] by simp_all
  show ?thesis
    using assms 1 2 3 eq by (cases f; cases g)
      (auto simp: futex_requeue_def Option.bind_eq_Some_conv simp del: requeue_loop.simps
        dest!: requeue_pcb split: if_splits)
qed

lemma do_futex_pcb:
  assumes "do_futex s c a op u val ts a2 val2 noff rd = Some (s', r)"
  shows "pcb_part s' = pcb_part s"
proof -
  have w: "futex_wait s c a u val ts noff rd = Some (x, r) \<Longrightarrow> pcb_part x = pcb_part s" for x r
    by (auto simp: futex_wait_def Option.bind_eq_Some_conv Let_def dest!: sleep_on_pcb get_futex_pcb
        split: option.splits if_splits prod.splits)
  show ?thesis
    using assms w futex_requeue_pcb
    by (auto simp: do_futex_def Let_def dest!: futex_wakeup_pcb split: if_splits)
qed

lemma tick_pcb:
  "timer_list_decrease_atomic thread_wakeup_atomic rd l s = Some (l', s') \<Longrightarrow> pcb_part s' = pcb_part s"
  by (induction l arbitrary: s l')
    (auto simp: Option.bind_eq_Some_conv thread_wakeup_atomic_eq dest!: thread_wakeup_pcb split: if_splits)

lemma alloc_thread_pcb: "alloc_thread s = Some (s', r) \<Longrightarrow> pcb_part s' = pcb_part s"
  by (auto simp: alloc_thread_def Option.bind_eq_Some_conv dest!: change_pcb provide_pcb split: prod.splits option.splits)

lemma thread_do_exit_pcb: "Sched.do_exit s c noff rd = Some s' \<Longrightarrow> pcb_part s' = pcb_part s"
  by (auto simp: Sched.do_exit_def free_thread_def Option.bind_eq_Some_conv Let_def dest!: change_pcb thread_sched_pcb split: if_splits)

lemma exit_group_pcb: "exit_group_loop ts b s = Some s' \<Longrightarrow> pcb_part s' = pcb_part s"
proof (induction ts arbitrary: s)
  case (Cons e ts)
  obtain t a where e: "e = (t, a)" by fastforce
  obtain s1 s2 where s: "s1 = s \<or> (\<exists>r. futex_wakeup s a 1 = Some (s1, r))" "free_thread s1 t = Some s2" "exit_group_loop ts b s2 = Some s'"
    using exit_group_loop_step [OF Cons.prems [unfolded e]] by blast
  have "pcb_part s1 = pcb_part s" using s(1) futex_wakeup_pcb by blast
  then show ?case using free_thread_pcb [OF s(2)] Cons.IH [OF s(3)] by simp
qed simp

lemma sched_step_pcb: "sched_step n s s' \<Longrightarrow> pcb_part s' = pcb_part s"
proof (induction rule: sched_step.induct)
  case (create s s' t)
  then show ?case
    by (auto simp: create_thread_def Option.bind_eq_Some_conv dest!: change_pcb alloc_thread_pcb)
next
  case (exit s c t rd s')
  then show ?case using thread_do_exit_pcb by blast
next
  case (exit_group s c t tg s')
  then show ?case
    by (auto simp: do_exit_group_def dest!: exit_group_pcb)
next
  case (tkill t s signo s')
  then show ?case
    by (auto simp: thread_send_signal_def Option.bind_eq_Some_conv dest!: thread_wakeup_pcb split: if_splits)
qed (auto simp: thread_yield_def thread_scheduler_def thread_sched_resume_def thread_setkilled_def cond_wait_def cond_signal_def
    cond_broadcast_def Option.bind_eq_Some_conv Let_def
    dest!: change_pcb thread_sched_pcb provide_pcb sleep_on_pcb wake_first_pcb wake_taken_pcb broadcast_pcb
      do_futex_pcb tick_pcb split: prod.splits option.splits if_splits)

end
