(* ===== verification/ProcTree.thy ===== *)
theory ProcTree
  imports Process
begin

text \<open>
  The children of the processes as lists: what \<open>deleteChild\<close>, \<open>appendChild\<close> and \<open>reparent\<close> of theory \<open>Process\<close> do to the
  rings of \<open>sibling_list\<close> nodes, expressed on the list of children of each process.
\<close>

subsection \<open>Rings without a head\<close>

text \<open>\<open>ring h f xs\<close>: from the node \<open>f\<close> the ring runs through \<open>xs\<close>; there is no ring if \<open>f\<close> is null.\<close>

fun ring :: "'a lheap \<Rightarrow> 'a option \<Rightarrow> 'a list \<Rightarrow> bool" where
  "ring h f [] \<longleftrightarrow> f = None"
| "ring h f (x # xs) \<longleftrightarrow> f = Some x \<and> dll h x xs"

lemma dll_rotate:
  assumes "dll h x (y # xs)"
  shows "dll h y (xs @ [x])"
proof -
  have "links h (x # y # xs @ [x])"
    using assms by (simp add: dll_def)
  then have "links h (y # xs @ [x])" "links h [x, y]"
    by simp_all
  then have "links h ((y # xs) @ x # [y])"
    unfolding links_append [of h "y # xs" x "[y]"] by simp
  then show ?thesis
    using assms by (auto simp: dll_def)
qed

lemma ring_distinct: "ring h f xs \<Longrightarrow> distinct xs"
  by (cases xs) (auto simp: dll_def)

lemma ring_frame: "ring h f xs \<Longrightarrow> (\<And>a. a \<in> set xs \<Longrightarrow> h' a = h a) \<Longrightarrow> ring h' f xs"
  by (cases xs) (auto intro: dll_frame)

lemma ring_dom: "ring h f xs \<Longrightarrow> set xs \<subseteq> dom h"
  using dll_mapped by (cases xs) fastforce+

lemma ring_next: "ring h f (x # xs) \<Longrightarrow> get_next h (Some x) = Some (Some (hd (xs @ [x])))"
  by (simp add: dll_first)

lemma ring_next_mid:
  assumes "ring h f xs" "xs = pre @ d # ds"
  shows "get_next h (Some d) = Some (Some (hd (ds @ xs)))"
proof (cases pre)
  case Nil
  then show ?thesis
    using assms ring_next [of h f d ds] by (cases ds) simp_all
next
  case (Cons x q)
  then have "links h ((x # q) @ d # (ds @ [x]))"
    using assms by (simp add: dll_def)
  then have "links h (d # ds @ [x])"
    unfolding links_append [of _ "x # q" d "ds @ [x]"] by simp
  then have "nx h d (hd (ds @ [x]))"
    by (cases ds) simp_all
  moreover have "hd (ds @ [x]) = hd (ds @ xs)"
    using assms(2) Cons by (cases ds) simp_all
  ultimately show ?thesis
    by (auto simp: nx_def get_next_def deref_def)
qed

lemma ring_None: "ring h f xs \<Longrightarrow> f = None \<longleftrightarrow> xs = []"
  by (cases xs) auto

subsection \<open>One process and its children\<close>

lemma deleteChild_ring:
  assumes r: "ring (sib s) (first_child s p) xs" and c: "c \<in> set xs"
  shows "\<exists>h f. deleteChild s p c = Some (s\<lparr>sib := h, first_child := (first_child s)(p := f)\<rparr>) \<and> ring h f (remove1 c xs) \<and>
    dll h c [] \<and> (\<forall>a. a \<notin> set xs \<longrightarrow> h a = sib s a) \<and> dom h = dom (sib s)"
proof -
  obtain x r where xs: "xs = x # r" "first_child s p = Some x" "dll (sib s) x r"
    using assms by (cases xs) auto
  show ?thesis
  proof (cases "c = x")
    case True
    show ?thesis
    proof (cases r)
      case Nil
      then show ?thesis
        using xs True list_empty_dll [OF xs(3)]
        by (intro exI [of _ "sib s"] exI [of _ None]) (simp add: deleteChild_def nosibling_def)
    next
      case (Cons y q)
      have d: "dll (sib s) y (q @ [x])"
        using dll_rotate xs(3) Cons by simp
      have m: "remove1 x (q @ [x]) = q" "x \<notin> set (y # q)" "x \<in> set (q @ [x])"
        using xs(3) Cons by (auto simp: dll_def remove1_append)
      obtain h where h: "list_del_reinit (sib s) (Some x) = Some h" "dll h y q" "dll h x []"
        "\<forall>a. a \<notin> set (y # q @ [x]) \<longrightarrow> h a = sib s a" "dom h = dom (sib s)"
        using list_del_reinit_dll [OF d m(3)] unfolding m(1) by blast
      have e: "nosibling s x = Some False" "nextsibling s (Some x) = Some (Some y)"
        using list_empty_dll [OF xs(3)] dll_first [OF xs(3)] Cons by (simp_all add: nosibling_def nextsibling_def)
      have "deleteChild s p c = Some (s\<lparr>sib := h, first_child := (first_child s)(p := Some y)\<rparr>)"
        using e h(1) xs(2) True by (simp add: deleteChild_def)
      then show ?thesis
        using h xs(1) Cons True by (intro exI [of _ h] exI [of _ "Some y"]) auto
    qed
  next
    case False
    then have cr: "c \<in> set r"
      using c xs(1) by simp
    obtain h where h: "list_del_reinit (sib s) (Some c) = Some h" "dll h x (remove1 c r)" "dll h c []"
      "\<forall>a. a \<notin> set (x # r) \<longrightarrow> h a = sib s a" "dom h = dom (sib s)"
      using list_del_reinit_dll [OF xs(3) cr] by blast
    obtain us vs where uv: "r = us @ c # vs"
      using cr by (meson split_list)
    have "links (sib s) ((x # us) @ c # (vs @ [x]))"
      using xs(3) uv by (simp add: dll_def)
    then have "links (sib s) (c # vs @ [x])"
      unfolding links_append [of _ "x # us" c "vs @ [x]"] by simp
    moreover have "hd (vs @ [x]) \<noteq> c"
      using xs(3) uv by (cases vs) (auto simp: dll_def)
    ultimately have "nosibling s c = Some False"
      by (cases vs) (auto simp: nosibling_def list_ops_defs nx_def)
    then have "deleteChild s p c = Some (s\<lparr>sib := h, first_child := (first_child s)(p := Some x)\<rparr>)"
      using h(1) xs(2) False by (simp add: deleteChild_def fun_upd_idem)
    then show ?thesis
      using h xs(1) False by (intro exI [of _ h] exI [of _ "Some x"]) auto
  qed
qed

lemma appendChild_ring:
  assumes r: "ring (sib s) (first_child s p) xs" and c: "c \<notin> set xs" "dll (sib s) c []"
  shows "\<exists>h f. appendChild s p c = Some (s\<lparr>sib := h, first_child := (first_child s)(p := f)\<rparr>) \<and> ring h f (xs @ [c]) \<and>
    (\<forall>a. a \<notin> set (c # xs) \<longrightarrow> h a = sib s a) \<and> dom h = dom (sib s)"
proof (cases xs)
  case Nil
  then show ?thesis
    using r c by (intro exI [of _ "sib s"] exI [of _ "Some c"]) (simp add: appendChild_def nochildren_def)
next
  case (Cons x q)
  then have x: "first_child s p = Some x" "dll (sib s) x q"
    using r by simp_all
  have "c \<in> dom (sib s)" "c \<notin> set (x # q)"
    using dll_mapped [OF c(2), of c] c(1) Cons by auto
  from list_add_tail_dll [OF x(2) this] obtain h where h: "list_add_tail (sib s) (Some c) (Some x) = Some h" "dll h x (q @ [c])"
    "\<forall>a. a \<notin> set (c # x # q) \<longrightarrow> h a = sib s a" "dom h = dom (sib s)"
    by blast
  then show ?thesis
    using x Cons by (intro exI [of _ h] exI [of _ "Some x"]) (simp add: appendChild_def nochildren_def fun_upd_idem)
qed

subsection \<open>All processes\<close>

text \<open>\<open>kids p\<close> are the children of \<open>p\<close>, the first one first; no process is a child of two.\<close>

definition family :: "ptab \<Rightarrow> (nat \<Rightarrow> nat list) \<Rightarrow> bool" where
  "family s kids \<longleftrightarrow> (\<forall>p. ring (sib s) (first_child s p) (kids p)) \<and> (\<forall>p q. p \<noteq> q \<longrightarrow> set (kids p) \<inter> set (kids q) = {})"

lemma familyD:
  assumes "family s kids"
  shows "ring (sib s) (first_child s p) (kids p)" "c \<in> set (kids p) \<Longrightarrow> c \<in> set (kids q) \<Longrightarrow> p = q" "distinct (kids p)"
    "first_child s p = None \<longleftrightarrow> kids p = []" "set (kids p) \<subseteq> dom (sib s)"
  using assms ring_distinct ring_None ring_dom unfolding family_def by blast+

lemma family_cong: "sib s = sib s' \<Longrightarrow> first_child s = first_child s' \<Longrightarrow> family s kids = family s' kids"
  by (simp add: family_def)

lemma family_irrelevant [simp]:
  "family (s\<lparr>sched := a\<rparr>) kids = family s kids" "family (s\<lparr>parent := b\<rparr>) kids = family s kids"
  "family (s\<lparr>pid := d\<rparr>) kids = family s kids" "family (s\<lparr>exit_state := e\<rparr>) kids = family s kids"
  "family (s\<lparr>p_killed := g\<rparr>) kids = family s kids" "family (s\<lparr>p_locked := i\<rparr>) kids = family s kids"
  "family (s\<lparr>shm_ready := j\<rparr>) kids = family s kids" "family (s\<lparr>wait_parent := l\<rparr>) kids = family s kids"
  "family (s\<lparr>wait_self := m\<rparr>) kids = family s kids" "family (s\<lparr>thread_cnt := o'\<rparr>) kids = family s kids"
  "family (s\<lparr>t_proc := q\<rparr>) kids = family s kids" "family (s\<lparr>tid := r\<rparr>) kids = family s kids"
  "family (s\<lparr>clear_child_tid := t\<rparr>) kids = family s kids" "family (s\<lparr>next_tid := u\<rparr>) kids = family s kids"
  "family (s\<lparr>next_pid := v\<rparr>) kids = family s kids" "family (s\<lparr>count_pid := w\<rparr>) kids = family s kids"
  "family (s\<lparr>pid_map := x\<rparr>) kids = family s kids" "family (s\<lparr>initproc := y\<rparr>) kids = family s kids"
  by (simp_all add: family_def)

lemma family_update:
  assumes f: "family s kids" and r: "ring h f' ys" and a: "\<And>a. a \<notin> A \<Longrightarrow> h a = sib s a"
    and d: "\<And>q. q \<noteq> p \<Longrightarrow> set (kids q) \<inter> A = {}" "\<And>q. q \<noteq> p \<Longrightarrow> set (kids q) \<inter> set ys = {}"
  shows "family (s\<lparr>sib := h, first_child := (first_child s)(p := f')\<rparr>) (kids(p := ys))"
proof -
  have "ring h (first_child s q) (kids q)" if "q \<noteq> p" for q
    by (rule ring_frame [OF familyD(1) [OF f]]) (use a d(1) [OF that] in auto)
  then show ?thesis
    using f r d(2) unfolding family_def by (auto simp: Int_commute)
qed

lemma deleteChild_family:
  assumes f: "family s kids" and c: "c \<in> set (kids p)"
  shows "\<exists>h fc. deleteChild s p c = Some (s\<lparr>sib := h, first_child := (first_child s)(p := fc)\<rparr>) \<and>
    family (s\<lparr>sib := h, first_child := (first_child s)(p := fc)\<rparr>) (kids(p := remove1 c (kids p))) \<and>
    dll h c [] \<and> dom h = dom (sib s)"
proof -
  obtain h fc where h: "deleteChild s p c = Some (s\<lparr>sib := h, first_child := (first_child s)(p := fc)\<rparr>)"
    "ring h fc (remove1 c (kids p))" "dll h c []" "\<forall>a. a \<notin> set (kids p) \<longrightarrow> h a = sib s a" "dom h = dom (sib s)"
    using deleteChild_ring [OF familyD(1) [OF f] c] by blast
  have "set (kids q) \<inter> set (kids p) = {}" if "q \<noteq> p" for q
    using familyD(2) [OF f] that by blast
  moreover have "set (remove1 c (kids p)) \<subseteq> set (kids p)"
    by (rule set_remove1_subset)
  ultimately have "family (s\<lparr>sib := h, first_child := (first_child s)(p := fc)\<rparr>) (kids(p := remove1 c (kids p)))"
    by (intro family_update [OF f h(2), of "set (kids p)"]) (use h(4) in blast)+
  with h show ?thesis by blast
qed

lemma appendChild_family:
  assumes f: "family s kids" and c: "\<And>q. c \<notin> set (kids q)" "dll (sib s) c []"
  shows "\<exists>h fc. appendChild s p c = Some (s\<lparr>sib := h, first_child := (first_child s)(p := fc)\<rparr>) \<and>
    family (s\<lparr>sib := h, first_child := (first_child s)(p := fc)\<rparr>) (kids(p := kids p @ [c])) \<and> dom h = dom (sib s)"
proof -
  obtain h fc where h: "appendChild s p c = Some (s\<lparr>sib := h, first_child := (first_child s)(p := fc)\<rparr>)"
    "ring h fc (kids p @ [c])" "\<forall>a. a \<notin> set (c # kids p) \<longrightarrow> h a = sib s a" "dom h = dom (sib s)"
    using appendChild_ring [OF familyD(1) [OF f] c] by blast
  have "set (kids q) \<inter> set (c # kids p) = {}" if "q \<noteq> p" for q
    using familyD(2) [OF f] that c(1) by auto
  then have "family (s\<lparr>sib := h, first_child := (first_child s)(p := fc)\<rparr>) (kids(p := kids p @ [c]))"
    by (intro family_update [OF f h(2), of "set (c # kids p)"]) (use h(3) in auto)
  with h show ?thesis by blast
qed

subsection \<open>Signals to a process\<close>

text \<open>The passes a semaphore has to give: \<open>sema_wait\<close> returns at once, or the thread it woke returns.\<close>

definition tokens :: "sem \<Rightarrow> int" where "tokens S = sem_wakeup S + max 0 (sem_value S)"

text \<open>The stage of a thread: free, taken but never started, or started.\<close>

definition stage :: "ksched \<Rightarrow> nat \<Rightarrow> nat" where
  "stage k t = (if t_state k t = TCB_UNUSED then 0 else if t_state k t = TCB_USED then 1 else 2)"

text \<open>Threads may have been woken, and nothing else has changed.\<close>

definition calm :: "nat \<Rightarrow> ksched \<Rightarrow> ksched \<Rightarrow> bool" where
  "calm n k k' \<longleftrightarrow> sched_inv n k' \<and> pcb_part k' = pcb_part k \<and> cpu_thread k' = cpu_thread k \<and> next_wq k' = next_wq k \<and>
     (\<forall>w. set (qlist k' (WQ w)) \<subseteq> set (qlist k (WQ w))) \<and> stage k' = stage k"

lemma calm_refl: "sched_inv n k \<Longrightarrow> calm n k k"
  by (simp add: calm_def)

lemma calm_trans: "calm n k k' \<Longrightarrow> calm n k' k'' \<Longrightarrow> calm n k k''"
  unfolding calm_def by (metis subset_trans)

lemma calm_p_state: "calm n k k' \<Longrightarrow> p_state k' = p_state k"
  by (simp add: calm_def pcb_part_def)

lemma queued_sleeps:
  assumes "sched_inv n k" "t \<in> set (qlist k (WQ w))"
  shows "t_state k t = TCB_SLEEPING"
proof -
  note D = states_okD [OF sched_invD(2) [OF assms(1)]]
  have "loc k TCB_WAIT_QUEUE t \<noteq> None"
    using links_okD(2) [OF sched_invD(1) [OF assms(1)], of t "WQ w"] assms(2) by simp
  then show ?thesis
    using D(3,4) by (metis leI)
qed

lemma woken_calm:
  assumes "sched_inv n k" "woken n w ts k k'" "pcb_part k' = pcb_part k"
  shows "calm n k k'"
proof -
  have q: "qlist k (WQ w) = ts @ qlist k' (WQ w)" "t_state k' = (\<lambda>t. if t \<in> set ts then TCB_RUNNABLE else t_state k t)"
    and r: "sched_inv n k'" "\<And>v. v \<noteq> w \<Longrightarrow> qlist k' (WQ v) = qlist k (WQ v)" "cpu_thread k' = cpu_thread k" "next_wq k' = next_wq k"
    using assms(2) by (auto simp: woken_def)
  have "t_state k t = TCB_SLEEPING" if "t \<in> set ts" for t
    using queued_sleeps [OF assms(1), of t w] that q(1) by auto
  then have "stage k' t = stage k t" for t
    using q(2) by (simp add: stage_def)
  moreover have "set (qlist k' (WQ v)) \<subseteq> set (qlist k (WQ v))" for v
    using q(1) r(2) by (cases "v = w") auto
  ultimately show ?thesis
    using assms(3) r unfolding calm_def by blast
qed

lemma signal_calm:
  assumes "sched_inv n k"
  shows "\<exists>k' S'. sema_signal k S = Some (k', S') \<and> calm n k k' \<and> tokens S' = tokens S + 1 \<and> sem_cond S' = sem_cond S \<and>
    sem_wakeup S \<le> sem_wakeup S'"
proof (cases "0 \<le> sem_value S")
  case True
  then show ?thesis
    using signal_ok(1) [OF assms True] calm_refl [OF assms] by (simp add: tokens_def)
next
  case False
  then obtain k' where k': "sema_signal k S = Some (k', S\<lparr>sem_value := sem_value S + 1, sem_wakeup := sem_wakeup S + 1\<rparr>)"
    "woken n (sem_cond S) (take 1 (qlist k (WQ (sem_cond S)))) k k'"
    using signal_ok(2) [OF assms, of S] by auto
  have "pcb_part k' = pcb_part k"
    using k'(1) False by (auto simp: sema_signal_def cond_signal_def Let_def Option.bind_eq_Some_conv dest!: wake_first_pcb split: if_splits)
  with woken_calm [OF assms k'(2)] k'(1) False show ?thesis
    by (simp add: tokens_def)
qed

lemma signal_parent_ok:
  assumes "sched_inv n (sched s)"
  shows "\<exists>k S. signal_parent s p = Some (s\<lparr>sched := k, wait_parent := (wait_parent s)(p := S)\<rparr>) \<and> calm n (sched s) k \<and>
    tokens S = tokens (wait_parent s p) + 1 \<and> sem_cond S = sem_cond (wait_parent s p) \<and> sem_wakeup (wait_parent s p) \<le> sem_wakeup S"
proof -
  obtain k S where "sema_signal (sched s) (wait_parent s p) = Some (k, S)" "calm n (sched s) k" "tokens S = tokens (wait_parent s p) + 1"
    "sem_cond S = sem_cond (wait_parent s p)" "sem_wakeup (wait_parent s p) \<le> sem_wakeup S"
    using signal_calm [OF assms, of "wait_parent s p"] by blast
  then show ?thesis
    by (intro exI [of _ k] exI [of _ S]) (simp add: signal_parent_def)
qed

lemma signal_self_ok:
  assumes "sched_inv n (sched s)"
  shows "\<exists>k S. signal_self s p = Some (s\<lparr>sched := k, wait_self := (wait_self s)(p := S)\<rparr>) \<and> calm n (sched s) k \<and>
    tokens S = tokens (wait_self s p) + 1 \<and> sem_cond S = sem_cond (wait_self s p) \<and> sem_wakeup (wait_self s p) \<le> sem_wakeup S"
proof -
  obtain k S where "sema_signal (sched s) (wait_self s p) = Some (k, S)" "calm n (sched s) k" "tokens S = tokens (wait_self s p) + 1"
    "sem_cond S = sem_cond (wait_self s p)" "sem_wakeup (wait_self s p) \<le> sem_wakeup S"
    using signal_calm [OF assms, of "wait_self s p"] by blast
  then show ?thesis
    by (intro exI [of _ k] exI [of _ S]) (simp add: signal_self_def)
qed

subsection \<open>Handing the children to init\<close>

definition zombies :: "ksched \<Rightarrow> nat list \<Rightarrow> int" where
  "zombies k ps = int (length (filter (\<lambda>c. p_state k c = PCB_ZOMBIE) ps))"

text \<open>\<open>adopted n init ps s s'\<close>: the processes \<open>ps\<close> have become children of \<open>init\<close>, which got a token for each zombie.\<close>

definition adopted :: "nat \<Rightarrow> nat \<Rightarrow> nat list \<Rightarrow> ptab \<Rightarrow> ptab \<Rightarrow> bool" where
  "adopted n init ps s s' \<longleftrightarrow>
     (\<exists>k h f S. s' = s\<lparr>sched := k, sib := h, first_child := f, parent := (\<lambda>c. if c \<in> set ps then Some init else parent s c),
          wait_parent := (wait_parent s)(init := S)\<rparr> \<and>
        calm n (sched s) k \<and> dom h = dom (sib s) \<and> sem_cond S = sem_cond (wait_parent s init) \<and>
        sem_wakeup (wait_parent s init) \<le> sem_wakeup S \<and>
        tokens S = tokens (wait_parent s init) + zombies (sched s) ps)"

lemma adopted_Cons:
  assumes "adopted n init [c] s s1" "adopted n init cs s1 s2"
  shows "adopted n init (c # cs) s s2"
proof -
  obtain k h f S where 1: "s1 = s\<lparr>sched := k, sib := h, first_child := f, parent := (\<lambda>a. if a \<in> set [c] then Some init else parent s a),
      wait_parent := (wait_parent s)(init := S)\<rparr>" "calm n (sched s) k" "dom h = dom (sib s)" "sem_cond S = sem_cond (wait_parent s init)"
    "sem_wakeup (wait_parent s init) \<le> sem_wakeup S" "tokens S = tokens (wait_parent s init) + zombies (sched s) [c]"
    using assms(1) unfolding adopted_def by blast
  obtain k' h' f' S' where 2: "s2 = s1\<lparr>sched := k', sib := h', first_child := f', parent := (\<lambda>a. if a \<in> set cs then Some init else parent s1 a),
      wait_parent := (wait_parent s1)(init := S')\<rparr>" "calm n (sched s1) k'" "dom h' = dom (sib s1)" "sem_cond S' = sem_cond (wait_parent s1 init)"
    "sem_wakeup (wait_parent s1 init) \<le> sem_wakeup S'" "tokens S' = tokens (wait_parent s1 init) + zombies (sched s1) cs"
    using assms(2) unfolding adopted_def by blast
  have "s2 = s\<lparr>sched := k', sib := h', first_child := f', parent := (\<lambda>a. if a \<in> set (c # cs) then Some init else parent s a),
      wait_parent := (wait_parent s)(init := S')\<rparr>"
    using 1(1) 2(1) by (simp add: fun_eq_iff)
  moreover have "calm n (sched s) k'"
    using calm_trans 1(1,2) 2(2) by auto
  moreover have "tokens S' = tokens (wait_parent s init) + zombies (sched s) (c # cs)"
    using 1 2(6) calm_p_state [OF 1(2)] by (simp add: zombies_def)
  ultimately show ?thesis
    unfolding adopted_def using 1 2(3-5) by (intro exI [of _ k'] exI [of _ h'] exI [of _ f'] exI [of _ S']) simp
qed

lemma adopt_one:
  assumes f: "family s kids" and k: "kids p = c # cs" and i: "initproc s = Some init" "init \<noteq> p" and inv: "sched_inv n (sched s)"
  shows "\<exists>s'. adopt s p c = Some s' \<and>
     adopted n init [c] s s' \<and> family s' (kids(p := cs, init := kids init @ [c]))"
proof -
  obtain h fc where 1: "deleteChild s p c = Some (s\<lparr>sib := h, first_child := (first_child s)(p := fc)\<rparr>)"
    "family (s\<lparr>sib := h, first_child := (first_child s)(p := fc)\<rparr>) (kids(p := cs))" "dll h c []" "dom h = dom (sib s)"
    using deleteChild_family [OF f, of c p] k by auto
  let ?s1 = "s\<lparr>sib := h, first_child := (first_child s)(p := fc)\<rparr>"
  have nk: "c \<notin> set ((kids(p := cs)) q)" for q
  proof (cases "q = p")
    case True
    then show ?thesis using familyD(3) [OF f, of p] k by simp
  next
    case False
    then show ?thesis using familyD(2) [OF f, of c p q] k by auto
  qed
  have ap: "\<exists>h2 fc2. appendChild ?s1 init c = Some (?s1\<lparr>sib := h2, first_child := (first_child ?s1)(init := fc2)\<rparr>) \<and>
    family (?s1\<lparr>sib := h2, first_child := (first_child ?s1)(init := fc2)\<rparr>) (kids(p := cs, init := (kids(p := cs)) init @ [c])) \<and>
    dom h2 = dom (sib ?s1)"
    by (rule appendChild_family [OF 1(2)]) (use nk 1(3) in simp_all)
  obtain h2 fc2 where
    2: "appendChild ?s1 init c = Some (?s1\<lparr>sib := h2, first_child := (first_child ?s1)(init := fc2)\<rparr>)"
    "family (?s1\<lparr>sib := h2, first_child := (first_child ?s1)(init := fc2)\<rparr>) (kids(p := cs, init := kids init @ [c]))" "dom h2 = dom (sib ?s1)"
    using ap unfolding fun_upd_other [OF i(2)] by (elim exE conjE) (rule that)
  let ?s2 = "?s1\<lparr>sib := h2, first_child := (first_child ?s1)(init := fc2)\<rparr>"
  let ?s3 = "?s2\<lparr>parent := (parent s)(c := Some init)\<rparr>"
  have fam: "family ?s3 (kids(p := cs, init := kids init @ [c]))"
    using 2(2) by simp
  have par: "(parent s)(c := Some init) = (\<lambda>a. if a \<in> set [c] then Some init else parent s a)"
    by auto
  show ?thesis
  proof (cases "p_state (sched s) c = PCB_ZOMBIE")
    case True
    obtain kk S where s3: "signal_parent ?s3 init = Some (?s3\<lparr>sched := kk, wait_parent := (wait_parent ?s3)(init := S)\<rparr>)"
      "calm n (sched ?s3) kk" "tokens S = tokens (wait_parent ?s3 init) + 1" "sem_cond S = sem_cond (wait_parent ?s3 init)"
      "sem_wakeup (wait_parent ?s3 init) \<le> sem_wakeup S"
      using signal_parent_ok [of n ?s3 init] inv by auto
    have "adopted n init [c] s (?s3\<lparr>sched := kk, wait_parent := (wait_parent ?s3)(init := S)\<rparr>)"
      unfolding adopted_def
      by (intro exI [of _ kk] exI [of _ h2] exI [of _ "(first_child ?s1)(init := fc2)"] exI [of _ S])
        (use s3 1(4) 2(3) True par in \<open>simp add: zombies_def\<close>)
    with s3(1) 1(1) 2(1) i(1) True fam show ?thesis
      by (simp add: adopt_def)
  next
    case False
    have "adopted n init [c] s ?s3"
      unfolding adopted_def
      by (intro exI [of _ "sched s"] exI [of _ h2] exI [of _ "(first_child ?s1)(init := fc2)"] exI [of _ "wait_parent s init"])
        (use calm_refl [OF inv] 1(4) 2(3) False par in \<open>simp add: zombies_def fun_upd_idem\<close>)
    with 1(1) 2(1) i(1) False fam show ?thesis
      by (simp add: adopt_def)
  qed
qed

text \<open>The loop: before a turn, \<open>pos\<close> is the first child left and \<open>n\<close> the one after it in the ring.\<close>

lemma reparent_loop_ok:
  assumes "family s kids" "kids p = c # cs" "initproc s = Some init" "init \<noteq> p" "sched_inv n (sched s)"
    and "flag \<or> first \<noteq> Some c" "\<And>a. first = Some a \<Longrightarrow> a \<notin> set cs" "length cs < fuel"
  shows "\<exists>s'. reparent_loop fuel s p (Some c) (Some (hd (cs @ [c]))) first flag = Some s' \<and>
    adopted n init (c # cs) s s' \<and> family s' (kids(p := [], init := kids init @ c # cs))"
  using assms
proof (induction cs arbitrary: s kids c flag fuel)
  case Nil
  obtain f where f: "fuel = Suc f"
    using Nil.prems(8) by (cases fuel) auto
  obtain s1 where s1: "adopt s p c = Some s1"
    "adopted n init [c] s s1" "family s1 (kids(p := [], init := kids init @ [c]))"
    using adopt_one [OF Nil.prems(1-5)] by blast
  have "first_child s1 p = None"
    using familyD(4) [OF s1(3), of p] Nil.prems(4) by simp
  then have "reparent_loop fuel s p (Some c) (Some (hd ([] @ [c]))) first flag = Some s1"
    using s1(1) Nil.prems(6) f by auto
  with s1(2,3) show ?case by blast
next
  case (Cons d ds)
  obtain f where f: "fuel = Suc f"
    using Cons.prems(8) by (cases fuel) auto
  obtain s1 where s1: "adopt s p c = Some s1"
    "adopted n init [c] s s1" "family s1 (kids(p := d # ds, init := kids init @ [c]))"
    using adopt_one [OF Cons.prems(1-5)] by blast
  have r: "ring (sib s1) (first_child s1 p) (d # ds)"
    using familyD(1) [OF s1(3), of p] Cons.prems(4) by simp
  have a: "initproc s1 = Some init" "sched_inv n (sched s1)"
    using s1(2) Cons.prems(3) by (auto simp: adopted_def calm_def)
  let ?kids = "kids(p := d # ds, init := kids init @ [c])"
  have eq: "?kids(p := [], init := ?kids init @ d # ds) = kids(p := [], init := kids init @ c # d # ds)"
    using Cons.prems(4) by (simp add: fun_eq_iff)
  have pre: "?kids p = d # ds" "False \<or> first \<noteq> Some d" "\<And>a. first = Some a \<Longrightarrow> a \<notin> set ds" "length ds < f"
    using Cons.prems(4,7,8) f by auto
  obtain s' where s': "reparent_loop f s1 p (Some d) (Some (hd (ds @ [d]))) first False = Some s'"
    "adopted n init (d # ds) s1 s'" "family s' (kids(p := [], init := kids init @ c # d # ds))"
    using Cons.IH [OF s1(3) pre(1) a(1) Cons.prems(4) a(2) pre(2-4)] unfolding eq by blast
  have "reparent_loop fuel s p (Some c) (Some (hd ((d # ds) @ [c]))) first flag = Some s'"
    using s1(1) s'(1) ring_next [OF r] r Cons.prems(6) f by (auto simp: nextsibling_def)
  with s' adopted_Cons [OF s1(2) s'(2)] show ?case by blast
qed

lemma reparent_ok:
  assumes f: "family s kids" and i: "initproc s = Some init" "init \<noteq> p" and inv: "sched_inv n (sched s)" and "length (kids p) \<le> fuel"
  shows "\<exists>s'. reparent fuel s p = Some s' \<and> adopted n init (kids p) s s' \<and> family s' (kids(p := [], init := kids init @ kids p))"
proof (cases "kids p")
  case Nil
  then have "adopted n init (kids p) s s"
    using calm_refl [OF inv] unfolding adopted_def
    by (intro exI [of _ "sched s"] exI [of _ "sib s"] exI [of _ "first_child s"] exI [of _ "wait_parent s init"]) (simp add: zombies_def)
  then show ?thesis
    using Nil f familyD(4) [OF f, of p] by (simp add: reparent_def nochildren_def fun_upd_idem)
next
  case (Cons c cs)
  have r: "ring (sib s) (first_child s p) (c # cs)"
    using familyD(1) [OF f, of p] Cons by simp
  have "c \<notin> set cs"
    using familyD(3) [OF f, of p] Cons by simp
  then obtain s' where s': "reparent_loop fuel s p (Some c) (Some (hd (cs @ [c]))) (Some c) True = Some s'"
    "adopted n init (c # cs) s s'" "family s' (kids(p := [], init := kids init @ c # cs))"
    using reparent_loop_ok [OF f Cons i inv, of True "Some c" fuel] assms(5) Cons by auto
  have "nochildren s' p"
    using familyD(4) [OF s'(3), of p] i(2) by (simp add: nochildren_def)
  then show ?thesis
    using s' Cons r ring_next [OF r] by (intro exI [of _ s']) (simp add: reparent_def nochildren_def nextsibling_def)
qed

end
