(* ===== verification/ProcSched.thy ===== *)
theory ProcSched
  imports ProcTree
begin

text \<open>
  What the operations of the process life cycle do to the scheduler: a semaphore of a process lets a thread pass or puts
  it to sleep, threads are taken from the table, started and freed, and processes move between the queues of their
  states.  None of these panics while the invariant of theory \<open>Sched\<close> holds.
\<close>

subsection \<open>Effects on the scheduler\<close>

text \<open>\<open>stir n A k k'\<close>: threads have been woken or put to sleep; the only new sleepers are those of \<open>A\<close>, a set of pairs of
  a wait queue and a thread.\<close>

definition stir :: "nat \<Rightarrow> (nat \<times> nat) set \<Rightarrow> ksched \<Rightarrow> ksched \<Rightarrow> bool" where
  "stir n A k k' \<longleftrightarrow> sched_inv n k' \<and> pcb_part k' = pcb_part k \<and> next_wq k \<le> next_wq k' \<and> stage k' = stage k \<and>
     (\<forall>w t. t \<in> set (qlist k' (WQ w)) \<longrightarrow> t \<in> set (qlist k (WQ w)) \<or> (w, t) \<in> A)"

lemma calm_stir: "calm n k k' \<Longrightarrow> stir n {} k k'"
  by (auto simp: calm_def stir_def)

lemma wait_cases:
  assumes inv: "sched_inv n k" and w: "sem_cond S < next_wq k" and c: "cpu_thread k c = Some t"
  shows "(\<exists>S'. sema_wait k S c 0 rd = Some (k, S', Passed) \<and> tokens S' = tokens S - 1 \<and> 1 \<le> sem_value S \<and>
        sem_cond S' = sem_cond S \<and> sem_wakeup S' = sem_wakeup S) \<or>
     (\<exists>k' S'. sema_wait k S c 0 rd = Some (k', S', Blocked) \<and> tokens S' = tokens S \<and> stir n {(sem_cond S, t)} k k' \<and>
        sem_value S \<le> 0 \<and> sem_value S' = sem_value S - 1 \<and> sem_cond S' = sem_cond S \<and> sem_wakeup S' = sem_wakeup S)"
proof (cases "1 \<le> sem_value S")
  case True
  then show ?thesis
    using wait_ok(1) [OF inv w c True] by (simp add: tokens_def)
next
  case False
  obtain k' where k': "sleep_on k c (sem_cond S) None 1 rd = Some k'" "sched_inv n k'" "t_state k' = (t_state k)(t := TCB_SLEEPING)"
    "qlist k' (WQ (sem_cond S)) = qlist k (WQ (sem_cond S)) @ [t]" "\<forall>v. v \<noteq> sem_cond S \<longrightarrow> qlist k' (WQ v) = qlist k (WQ v)"
    "next_wq k' = next_wq k"
    using sleep_on_inv [OF inv c w, of None rd] by blast
  have "stage k' = stage k"
    using k'(3) running_not_queued(1) [OF inv c] by (auto simp: stage_def)
  moreover have "u \<in> set (qlist k (WQ v)) \<or> (v, u) \<in> {(sem_cond S, t)}" if "u \<in> set (qlist k' (WQ v))" for u v
    using that k'(4,5) by (cases "v = sem_cond S") auto
  ultimately have "stir n {(sem_cond S, t)} k k'"
    using k'(2,6) sleep_on_pcb [OF k'(1)] unfolding stir_def by simp
  moreover have "sema_wait k S c 0 rd = Some (k', S\<lparr>sem_value := sem_value S - 1\<rparr>, Blocked)"
    using k'(1) False by (simp add: sema_wait_def cond_wait_def)
  ultimately show ?thesis
    using False by (intro disjI2 exI [of _ k'] exI [of _ "S\<lparr>sem_value := sem_value S - 1\<rparr>"]) (simp add: tokens_def)
qed

lemma sched_resume_calm:
  assumes "sched_inv n k"
  shows "calm n k (fst (thread_sched_resume k t))" "t_killed (fst (thread_sched_resume k t)) = t_killed k"
  using assms by (auto simp: thread_sched_resume_def calm_def stage_def)

lemma resume_cases:
  assumes inv: "sched_inv n k" and w: "sem_cond S < next_wq k" and c: "cpu_thread k c = Some t" and nk: "\<not> t_killed k t"
  shows "(\<exists>k' S'. sema_wait_resume k S c 0 rd = Some (k', S', Passed) \<and> calm n k k' \<and> tokens S' = tokens S - 1 \<and> sem_wakeup S \<noteq> 0 \<and>
        sem_value S' = sem_value S \<and> sem_cond S' = sem_cond S \<and> sem_wakeup S' = sem_wakeup S - 1) \<or>
     (\<exists>k'. sema_wait_resume k S c 0 rd = Some (k', S, Blocked) \<and> stir n {(sem_cond S, t)} k k')"
proof -
  let ?k = "fst (thread_sched_resume k t)"
  note calm = sched_resume_calm [OF inv, of t]
  have e: "sched_inv n ?k" "next_wq ?k = next_wq k" "cpu_thread ?k = cpu_thread k"
    using calm(1) by (simp_all add: calm_def)
  have r: "cond_wait_resume k t = (?k, False, snd (thread_sched_resume k t))"
    using nk calm(2) by (simp add: cond_wait_resume_def case_prod_unfold Let_def)
  show ?thesis
  proof (cases "sem_wakeup S = 0")
    case True
    let ?T = "S\<lparr>sem_value := 0\<rparr>"
    obtain k' S' where k': "sema_wait ?k ?T c 0 rd = Some (k', S', Blocked)" "stir n {(sem_cond S, t)} ?k k'"
      using wait_cases [OF e(1), of ?T c t rd] e(2,3) w c by auto
    then have "cond_wait ?k c (sem_cond S) 1 rd = Some k'"
      by (cases "cond_wait ?k c (sem_cond S) 1 rd") (auto simp: sema_wait_def)
    then have "sema_wait_resume k S c 0 rd = Some (k', S, Blocked)"
      using r c True by (simp add: sema_wait_resume_def)
    moreover have "stir n {(sem_cond S, t)} k k'"
      using k'(2) calm(1) unfolding stir_def calm_def by (metis subsetD)
    ultimately show ?thesis by blast
  next
    case False
    then have "sema_wait_resume k S c 0 rd = Some (?k, S\<lparr>sem_wakeup := sem_wakeup S - 1\<rparr>, Passed)"
      using r c by (simp add: sema_wait_resume_def)
    then show ?thesis
      using calm(1) False by (intro disjI1 exI [of _ ?k] exI [of _ "S\<lparr>sem_wakeup := sem_wakeup S - 1\<rparr>"]) (simp add: tokens_def)
  qed
qed

lemma stage_update [simp]:
  "stage (k\<lparr>futex_map := f\<rparr>) = stage k" "stage (k\<lparr>p_state := g\<rparr>) = stage k" "stage (k\<lparr>qlist := l\<rparr>) = stage k"
  "stage (k\<lparr>loc := h\<rparr>) = stage k" "stage (k\<lparr>time_out := i\<rparr>) = stage k" "stage (Queue_remove k t ty) = stage k"
  "stage (futex_free k a) = stage k"
  by (auto simp: stage_def)

lemma futex_wakeup_calm:
  assumes inv: "sched_inv n k"
  shows "\<exists>k' r. futex_wakeup k a nr = Some (k', r) \<and> calm n k k'"
proof (cases "futex_map k a")
  case None
  then show ?thesis
    using futex_wakeup_inv(1) [OF inv] calm_refl [OF inv] by blast
next
  case (Some w)
  obtain k1 i where k1: "woken n w (take i (qlist k (WQ w))) k k1"
    "futex_wakeup k a nr = Some (if i = length (qlist k (WQ w)) then futex_free k1 a else k1, int i)"
    using futex_wakeup_inv(2) [OF inv Some, of nr] by blast
  let ?k = "if i = length (qlist k (WQ w)) then futex_free k1 a else k1"
  have "pcb_part k1 = pcb_part k"
    using futex_wakeup_pcb [OF k1(2)] by (auto split: if_splits)
  then have "calm n k k1"
    by (rule woken_calm [OF inv k1(1)])
  moreover have "calm n k1 (futex_free k1 a)"
    using \<open>calm n k k1\<close> futex_free_inv [of n k1 a] by (simp add: calm_def)
  ultimately show ?thesis
    using k1(2) calm_trans by (intro exI [of _ ?k] exI [of _ "int i"]) auto
qed

text \<open>A thread leaves the table, is taken from it, and is started.\<close>

lemma thread_exit_ok:
  assumes inv: "sched_inv n k" and c: "cpu_thread k c = Some t"
  shows "\<exists>k'. Sched.do_exit k c 0 rd = Some k' \<and> sched_inv n k' \<and> pcb_part k' = pcb_part k \<and> next_wq k' = next_wq k \<and>
    stage k' = (stage k)(t := 0) \<and> (\<forall>w. qlist k' (WQ w) = qlist k (WQ w)) \<and> (\<forall>a. a \<noteq> c \<longrightarrow> cpu_thread k' a = cpu_thread k a)"
proof -
  let ?k = "k\<lparr>t_killed := (t_killed k)(t := False)\<rparr>"
  obtain k' where k': "Sched.do_exit k c 0 rd = Some k'" "sched_inv n k'" "t_state k' = (t_state k)(t := TCB_UNUSED)"
    "cpu_thread k' = (cpu_thread k)(c := None)"
    using do_exit_inv [OF inv c, of rd] by blast
  have wc: "wait_chan_entry k t = None"
    using states_okD(5,6,7) [OF sched_invD(2) [OF inv]] c by (metis thread_state.distinct(19))
  obtain k1 where k1: "TCB_Q_changeState ?k t TCB_UNUSED = Some k1" "moved t TCB_UNUSED ?k k1"
    using TCB_Q_changeState_moved [of ?k TCB_UNUSED t] sched_invD(1) [of n ?k] inv by auto
  have "thread_sched k1 c 1 rd = Some k'"
    using k'(1) k1(1) c wc by (simp add: Sched.do_exit_def free_thread_def)
  then have "qlist k' = qlist k1" "next_wq k' = next_wq k1"
    using thread_sched_eq [of k1 c t rd] k1(2) c by (auto simp: moved_def)
  then have "qlist k' (WQ w) = qlist k (WQ w)" "next_wq k' = next_wq k" for w
    using k1(2) by (simp_all add: moved_def)
  moreover have "stage k' = (stage k)(t := 0)"
    using k'(3) by (auto simp: stage_def)
  ultimately show ?thesis
    using k' thread_do_exit_pcb [OF k'(1)] by simp
qed

lemma alloc_thread_ok:
  assumes inv: "sched_inv n k"
  shows "alloc_thread k = Some (k, None) \<or>
    (\<exists>k' t. alloc_thread k = Some (k', Some t) \<and> t < n \<and> stage k t = 0 \<and> stage k' = (stage k)(t := 1) \<and> sched_inv n k' \<and>
       pcb_part k' = pcb_part k \<and> next_wq k' = next_wq k \<and> cpu_thread k' = cpu_thread k \<and> (\<forall>w. qlist k' (WQ w) = qlist k (WQ w)))"
proof (cases "qlist k (TQ TCB_UNUSED)")
  case Nil
  then show ?thesis using alloc_thread_inv(1) [OF inv] by blast
next
  case (Cons t ts)
  obtain k' where k': "alloc_thread k = Some (k', Some t)" "sched_inv n k'" "t < n" "t_state k t = TCB_UNUSED"
    "t_state k' = (t_state k)(t := TCB_USED)" "cpu_thread k' = cpu_thread k" "next_wq k' = next_wq k"
    using alloc_thread_inv(2) [OF inv Cons] by blast
  obtain k1 where k1: "TCB_Q_changeState (Queue_remove k t TCB_STATE_QUEUE) t TCB_USED = Some k1" "\<forall>w. qlist k1 (WQ w) = qlist k (WQ w)"
    using relink_inv [OF inv k'(3), of TCB_USED "Queue_remove k t TCB_STATE_QUEUE"] k'(4) by auto
  have "k' = k1\<lparr>time_out := (time_out k1)(t := 0)\<rparr>"
    using k'(1) k1(1) pop_remove(1) [OF sched_invD(1) [OF inv] Cons] by (simp add: alloc_thread_def)
  then have "qlist k' (WQ w) = qlist k (WQ w)" for w
    using k1(2) by simp
  moreover have "stage k t = 0" "stage k' = (stage k)(t := 1)"
    using k'(4,5) by (auto simp: stage_def)
  ultimately show ?thesis
    using k' alloc_thread_pcb [OF k'(1)] by blast
qed

lemma start_thread_ok:
  assumes inv: "sched_inv n k" and t: "t < n" "stage k t = 1"
  shows "\<exists>k'. TCB_Q_changeState k t TCB_RUNNABLE = Some k' \<and> stage k' = (stage k)(t := 2) \<and> sched_inv n k' \<and>
    pcb_part k' = pcb_part k \<and> next_wq k' = next_wq k \<and> cpu_thread k' = cpu_thread k \<and> (\<forall>w. qlist k' (WQ w) = qlist k (WQ w))"
proof -
  have st: "t_state k t = TCB_USED"
    using t(2) by (auto simp: stage_def split: if_splits)
  obtain k' where k': "TCB_Q_changeState k t TCB_RUNNABLE = Some k'" "sched_inv n k'" "t_state k' = (t_state k)(t := TCB_RUNNABLE)"
    "cpu_thread k' = cpu_thread k" "\<forall>w. qlist k' (WQ w) = qlist k (WQ w)" "next_wq k' = next_wq k"
    using relink_inv [OF inv t(1), of TCB_RUNNABLE k] st by auto
  then show ?thesis
    using change_pcb [OF k'(1)] by (auto simp: stage_def)
qed

text \<open>A process changes its state; \<open>k1\<close> may already have unlinked it.\<close>

definition pcb_ok :: "nat \<Rightarrow> ksched \<Rightarrow> bool" where
  "pcb_ok m k \<longleftrightarrow> (\<forall>p<m. loc k PCB_STATE_QUEUE p = Some (PQ (p_state k p))) \<and> (\<forall>p\<ge>m. loc k PCB_STATE_QUEUE p = None)"

lemma pcb_ok_cong: "pcb_part k' = pcb_part k \<Longrightarrow> pcb_ok m k' = pcb_ok m k"
  by (simp add: pcb_ok_def pcb_part_def)

lemma change_proc_ok:
  assumes inv: "sched_inv n k" and pcb: "pcb_ok m k" and p: "p < m" and k1: "k1 = k \<or> k1 = Queue_remove k p PCB_STATE_QUEUE"
  shows "\<exists>k'. PCB_Q_changeState k1 p st = Some k' \<and> sched_inv n k' \<and> pcb_ok m k' \<and> p_state k' = (p_state k)(p := st) \<and>
    next_wq k' = next_wq k \<and> cpu_thread k' = cpu_thread k \<and> stage k' = stage k \<and> (\<forall>w. qlist k' (WQ w) = qlist k (WQ w))"
proof -
  note I = sched_invD [OF inv]
  let ?k = "Queue_remove k p PCB_STATE_QUEUE"
  have l: "links_ok ?k" "loc ?k PCB_STATE_QUEUE p = None"
    using Queue_remove_links [OF I(1)] by simp_all
  have l2: "loc ?k (q_type (PQ st)) p = None"
    using l(2) by simp
  obtain k2 where k2: "Queue_push_back ?k (PQ st) p = Some k2" "links_ok k2"
    "k2 = ?k\<lparr>qlist := (qlist ?k)(PQ st := qlist ?k (PQ st) @ [p]),
             loc := (loc ?k)(q_type (PQ st) := (loc ?k (q_type (PQ st)))(p \<mapsto> PQ st))\<rparr>"
    using Queue_push_back_links [OF l(1) l2] by blast
  let ?k' = "k2\<lparr>p_state := (p_state k2)(p := st)\<rparr>"
  have rr: "Queue_remove ?k p PCB_STATE_QUEUE = ?k"
    using l(2) by (simp add: Queue_remove_def split: option.splits)
  have run: "PCB_Q_changeState k1 p st = Some ?k'"
    using k1 rr k2(1) by (auto simp: PCB_Q_changeState_def Queue_remove_atomic_def Queue_push_back_atomic_def)
  have wq: "qlist ?k' (WQ w) = qlist k (WQ w)" for w
    unfolding k2(3) by (simp add: Queue_remove_qlist [OF I(1)])
  have lc: "loc ?k' TCB_STATE_QUEUE = loc k TCB_STATE_QUEUE" "loc ?k' TCB_WAIT_QUEUE = loc k TCB_WAIT_QUEUE"
    "loc ?k' PCB_STATE_QUEUE = (loc k PCB_STATE_QUEUE)(p \<mapsto> PQ st)" "p_state ?k' = (p_state k)(p := st)"
    unfolding k2(3) by simp_all
  have sel: "t_state ?k' = t_state k" "wait_chan_entry ?k' = wait_chan_entry k" "cpu_thread ?k' = cpu_thread k" "next_wq ?k' = next_wq k"
    "futex_map ?k' = futex_map k" "taken ?k' = taken k"
    unfolding k2(3) by simp_all
  have "links_ok ?k'" "states_ok n ?k'" "futex_ok ?k'"
    using k2(2) I(2,3) wq lc sel by (simp_all add: links_ok_def states_ok_def futex_ok_def)
  moreover have "pcb_ok m ?k'"
    using pcb p lc by (simp add: pcb_ok_def)
  moreover have "stage ?k' = stage k"
    using sel(1) by (auto simp: stage_def)
  ultimately show ?thesis
    using run sel wq lc(4) by (intro exI [of _ ?k']) (simp add: sched_inv_def)
qed

lemma pop_proc_ok:
  assumes inv: "sched_inv n k" and pcb: "pcb_ok m k"
  shows "Queue_provide_atomic k (PQ PCB_UNUSED) True = (k, None) \<or>
    (\<exists>p. Queue_provide_atomic k (PQ PCB_UNUSED) True = (Queue_remove k p PCB_STATE_QUEUE, Some p) \<and> p < m \<and> p_state k p = PCB_UNUSED)"
proof (cases "qlist k (PQ PCB_UNUSED)")
  case Nil
  then show ?thesis
    by (simp add: Queue_provide_atomic_def Queue_pop_def Queue_isempty_def)
next
  case (Cons p ps)
  then have "loc k PCB_STATE_QUEUE p = Some (PQ PCB_UNUSED)"
    using links_okD(2) [OF sched_invD(1) [OF inv], of p "PQ PCB_UNUSED"] by simp
  moreover then have "p < m"
    using pcb unfolding pcb_ok_def by (metis leI option.distinct(1))
  ultimately have "p < m \<and> p_state k p = PCB_UNUSED"
    using pcb by (simp add: pcb_ok_def)
  then show ?thesis
    using Cons by (simp add: Queue_provide_atomic_def Queue_pop_def Queue_isempty_def queue_first_node_def)
qed

end
