(* ===== verification/ProcLife.thy ===== *)
theory ProcLife
  imports ProcSched
begin

text \<open>
  All interleavings of the operations of theory \<open>Process\<close>.  The invariant of the process table says that the child
  lists are well formed and agree with the parent pointers, that every zombie and every process with a started thread
  is in the list of its parent, and that the semaphore of a process never promises more zombies than it has.  It
  follows that \<open>waitpid\<close> always finds a child to return.
\<close>

subsection \<open>The system\<close>

text \<open>\<open>susp\<close> holds, for a thread that sleeps or has been woken inside \<open>waitpid\<close>, its argument and where it sleeps; in the
  code this is on the kernel stack of the thread.\<close>

record psys =
  tab :: ptab
  susp :: "nat \<Rightarrow> (int \<times> wait_end) option"

definition suspend :: "psys \<Rightarrow> ptab \<Rightarrow> nat \<Rightarrow> int \<Rightarrow> wait_end \<Rightarrow> psys" where
  "suspend x s t i e = \<lparr>tab = s, susp = (susp x)(t := (case e of Returned _ _ \<Rightarrow> None | Thread_exit \<Rightarrow> None | _ \<Rightarrow> Some (i, e)))\<rparr>"

text \<open>Any other activity of the scheduler: it neither puts a thread to sleep on the semaphore of a process nor frees or
  starts a thread of a process, which only the operations of this theory do.\<close>

definition elsewhere :: "nat \<Rightarrow> ptab \<Rightarrow> ksched \<Rightarrow> bool" where
  "elsewhere m s k \<longleftrightarrow> (\<forall>t. t_proc s t \<noteq> None \<longrightarrow> stage k t = stage (sched s) t) \<and>
     (\<forall>w<2 * m. set (qlist k (WQ w)) \<subseteq> set (qlist (sched s) (WQ w)))"

text \<open>The steps of the threads of all processes.  \<open>waitpid\<close> is called by one thread of a process at a time: the code keeps
  pointers to children across its sleeps.  The fuel of the loops over children is the size of the table.\<close>

inductive proc_step :: "nat \<Rightarrow> nat \<Rightarrow> psys \<Rightarrow> psys \<Rightarrow> bool" for n m where
  clone: "cpu_thread (sched (tab x)) c = Some t \<Longrightarrow> susp x t = None \<Longrightarrow> do_clone (tab x) c a = Some (s, r) \<Longrightarrow>
    proc_step n m x (x\<lparr>tab := s\<rparr>)"
| exit: "cpu_thread (sched (tab x)) c = Some t \<Longrightarrow> susp x t = None \<Longrightarrow> do_exit m (tab x) c status ok rd = Some s \<Longrightarrow>
    proc_step n m x (x\<lparr>tab := s\<rparr>)"
| wait: "cpu_thread (sched (tab x)) c = Some t \<Longrightarrow> (\<And>u. t_proc (tab x) u = t_proc (tab x) t \<Longrightarrow> susp x u = None) \<Longrightarrow>
    waitpid m (tab x) c i status rd = Some (s, e) \<Longrightarrow> proc_step n m x (suspend x s t (if i < -1 then - i else i) e)"
| resume: "cpu_thread (sched (tab x)) c = Some t \<Longrightarrow> susp x t = Some (i, On_parent) \<Longrightarrow>
    waitpid_resume m (tab x) c i status ok rd = Some (s, e) \<Longrightarrow> proc_step n m x (suspend x s t i e)"
| resume_child: "cpu_thread (sched (tab x)) c = Some t \<Longrightarrow> susp x t = Some (i, On_child pos nxt fc) \<Longrightarrow>
    waitpid_resume_child m (tab x) c i status ok rd pos nxt fc = Some (s, e) \<Longrightarrow> proc_step n m x (suspend x s t i e)"
| kill: "proc_step n m x (x\<lparr>tab := proc_setkilled (tab x) p\<rparr>)"
| other: "sched_step n (sched (tab x)) k \<Longrightarrow> elsewhere m (tab x) k \<Longrightarrow> proc_step n m x (x\<lparr>tab := (tab x)\<lparr>sched := k\<rparr>\<rparr>)"

text \<open>The kernel starts with \<open>tcb_init\<close>, \<open>proc_init\<close> and the first process.\<close>

inductive proc_reach :: "nat \<Rightarrow> nat \<Rightarrow> psys \<Rightarrow> bool" for n m where
  boot: "tcb_init n (boot_sched (2 * m)) = Some k \<Longrightarrow> proc_init m (boot_ptab m k) = Some s0 \<Longrightarrow>
    oscomp_init s0 Alloc_ok = Some s \<Longrightarrow> proc_reach n m \<lparr>tab = s, susp = (\<lambda>_. None)\<rparr>"
| step: "proc_reach n m x \<Longrightarrow> proc_step n m x y \<Longrightarrow> proc_reach n m y"

subsection \<open>The invariant\<close>

text \<open>The tree.\<close>

definition tree_inv :: "nat \<Rightarrow> ptab \<Rightarrow> (nat \<Rightarrow> nat list) \<Rightarrow> bool" where
  "tree_inv m s kids \<longleftrightarrow> pcb_ok m (sched s) \<and> family s kids \<and> dom (sib s) = {..<m} \<and>
     (\<forall>p c. c \<in> set (kids p) \<longrightarrow> parent s c = Some p \<and> p_state (sched s) c \<noteq> PCB_UNUSED \<and> p_state (sched s) p = PCB_USED \<and>
        p < m \<and> initproc s \<noteq> Some c) \<and>
     (\<forall>c<m. p_state (sched s) c = PCB_ZOMBIE \<longrightarrow> (\<exists>p. c \<in> set (kids p))) \<and>
     (\<exists>i<m. initproc s = Some i \<and> p_state (sched s) i = PCB_USED)"

text \<open>The process ids.\<close>

definition pid_inv :: "nat \<Rightarrow> ptab \<Rightarrow> bool" where
  "pid_inv m s \<longleftrightarrow> (\<forall>p<m. p_state (sched s) p \<noteq> PCB_UNUSED \<longrightarrow> pid_map s (pid s p) = Some p \<and> 0 < pid s p \<and> pid s p < next_pid s) \<and>
     (\<forall>i p. pid_map s i = Some p \<longrightarrow> p < m \<and> p_state (sched s) p \<noteq> PCB_UNUSED \<and> pid s p = i) \<and> 0 < next_pid s"

text \<open>The semaphores.  \<open>held x p\<close> is 1 while a thread of \<open>p\<close> that has passed the semaphore of \<open>p\<close> waits for one child.\<close>

definition for_child :: "(int \<times> wait_end) option \<Rightarrow> bool" where
  "for_child w \<longleftrightarrow> (\<exists>i pos nxt fc. w = Some (i, On_child pos nxt fc))"

definition held :: "psys \<Rightarrow> nat \<Rightarrow> int" where
  "held x p = (if \<exists>t. t_proc (tab x) t = Some p \<and> for_child (susp x t) then 1 else 0)"

definition sems_ok :: "nat \<Rightarrow> ptab \<Rightarrow> bool" where
  "sems_ok m s \<longleftrightarrow> (\<forall>p<m. sem_cond (wait_parent s p) = chan_parent p \<and> sem_cond (wait_self s p) = chan_self p \<and>
     0 \<le> sem_wakeup (wait_parent s p) \<and> 0 \<le> sem_wakeup (wait_self s p))"

definition tokens_inv :: "nat \<Rightarrow> (nat \<Rightarrow> int) \<Rightarrow> ptab \<Rightarrow> (nat \<Rightarrow> nat list) \<Rightarrow> bool" where
  "tokens_inv m hld s kids \<longleftrightarrow> (\<forall>p<m. p_state (sched s) p = PCB_USED \<longrightarrow>
     tokens (wait_parent s p) + hld p \<le> zombies (sched s) (kids p) \<and> tokens (wait_self s p) = 0)"

text \<open>The threads.\<close>

definition thread_inv :: "nat \<Rightarrow> nat \<Rightarrow> ptab \<Rightarrow> (nat \<Rightarrow> nat list) \<Rightarrow> bool" where
  "thread_inv n m s kids \<longleftrightarrow> (\<forall>t p. t_proc s t = Some p \<longrightarrow> p < m \<and> t < n \<and> stage (sched s) t \<noteq> 0) \<and>
     (\<forall>t p. t_proc s t = Some p \<longrightarrow> stage (sched s) t = 2 \<longrightarrow>
        p_state (sched s) p = PCB_USED \<and> (initproc s = Some p \<or> (\<exists>q. p \<in> set (kids q)))) \<and>
     (\<forall>p<m. p_state (sched s) p = PCB_USED \<longrightarrow> int (card {t. t_proc s t = Some p \<and> stage (sched s) t = 2}) \<le> thread_cnt s p)"

definition susp_inv :: "nat \<Rightarrow> psys \<Rightarrow> (nat \<Rightarrow> nat list) \<Rightarrow> bool" where
  "susp_inv m x kids \<longleftrightarrow>
     (\<forall>t i e. susp x t = Some (i, e) \<longrightarrow> (\<exists>p. t_proc (tab x) t = Some p \<and> stage (sched (tab x)) t = 2 \<and>
        (e = On_parent \<or> (\<exists>c nxt fc. e = On_child (Some c) nxt fc \<and> c \<in> set (kids p))))) \<and>
     (\<forall>t u. susp x t \<noteq> None \<longrightarrow> susp x u \<noteq> None \<longrightarrow> t_proc (tab x) t = t_proc (tab x) u \<longrightarrow> t = u)"

definition queue_inv :: "nat \<Rightarrow> psys \<Rightarrow> bool" where
  "queue_inv m x \<longleftrightarrow> (\<forall>p<m. \<forall>t\<in>set (qlist (sched (tab x)) (WQ (chan_parent p))). t_proc (tab x) t = Some p) \<and>
     (\<forall>p<m. \<forall>t\<in>set (qlist (sched (tab x)) (WQ (chan_self p))). \<exists>i nxt fc. susp x t = Some (i, On_child (Some p) nxt fc))"

text \<open>\<open>inv_with hld\<close> is the invariant with \<open>hld p\<close> tokens of each \<open>p\<close> in the hands of its threads.\<close>

definition inv_with :: "nat \<Rightarrow> nat \<Rightarrow> (nat \<Rightarrow> int) \<Rightarrow> psys \<Rightarrow> (nat \<Rightarrow> nat list) \<Rightarrow> bool" where
  "inv_with n m hld x kids \<longleftrightarrow> sched_inv n (sched (tab x)) \<and> 2 * m \<le> next_wq (sched (tab x)) \<and> tree_inv m (tab x) kids \<and>
     pid_inv m (tab x) \<and> sems_ok m (tab x) \<and> tokens_inv m hld (tab x) kids \<and> thread_inv n m (tab x) kids \<and>
     susp_inv m x kids \<and> queue_inv m x"

definition proc_inv :: "nat \<Rightarrow> nat \<Rightarrow> psys \<Rightarrow> (nat \<Rightarrow> nat list) \<Rightarrow> bool" where
  "proc_inv n m x kids \<longleftrightarrow> inv_with n m (held x) x kids"

lemma invD:
  assumes "inv_with n m hld x kids"
  shows "sched_inv n (sched (tab x))" "2 * m \<le> next_wq (sched (tab x))" "tree_inv m (tab x) kids" "pid_inv m (tab x)"
    "sems_ok m (tab x)" "tokens_inv m hld (tab x) kids" "thread_inv n m (tab x) kids" "susp_inv m x kids" "queue_inv m x"
  using assms by (simp_all add: inv_with_def)

lemma tree_invD:
  assumes "tree_inv m s kids"
  shows "pcb_ok m (sched s)" "family s kids" "dom (sib s) = {..<m}" "c \<in> set (kids p) \<Longrightarrow> parent s c = Some p"
    "c \<in> set (kids p) \<Longrightarrow> p_state (sched s) c \<noteq> PCB_UNUSED" "c \<in> set (kids p) \<Longrightarrow> p_state (sched s) p = PCB_USED"
    "c \<in> set (kids p) \<Longrightarrow> p < m" "c \<in> set (kids p) \<Longrightarrow> initproc s \<noteq> Some c" "c \<in> set (kids p) \<Longrightarrow> c < m"
    "c < m \<Longrightarrow> p_state (sched s) c = PCB_ZOMBIE \<Longrightarrow> \<exists>p. c \<in> set (kids p)"
    "\<exists>i<m. initproc s = Some i \<and> p_state (sched s) i = PCB_USED"
  using assms familyD(5) [of s kids p] unfolding tree_inv_def by blast+

lemma proc_cong:
  assumes "pcb_part (sched s') = pcb_part (sched s)" "sib s' = sib s" "first_child s' = first_child s" "parent s' = parent s"
    "initproc s' = initproc s"
  shows "tree_inv m s' kids = tree_inv m s kids" "zombies (sched s') ps = zombies (sched s) ps"
    "p_state (sched s') = p_state (sched s)"
proof -
  show p: "p_state (sched s') = p_state (sched s)" "zombies (sched s') ps = zombies (sched s) ps"
    using assms(1) by (simp_all add: pcb_part_def zombies_def)
  show "tree_inv m s' kids = tree_inv m s kids"
    unfolding tree_inv_def using pcb_ok_cong [OF assms(1)] family_cong [of s' s kids] assms(2-5) p(1) by simp
qed

lemma sems_okD:
  assumes "sems_ok m s" "p < m"
  shows "sem_cond (wait_parent s p) = chan_parent p" "sem_cond (wait_self s p) = chan_self p" "0 \<le> sem_wakeup (wait_parent s p)"
    "0 \<le> sem_wakeup (wait_self s p)"
  using assms by (simp_all add: sems_ok_def)

lemma tokens_invD:
  assumes "tokens_inv m hld s kids" "p < m" "p_state (sched s) p = PCB_USED"
  shows "tokens (wait_parent s p) + hld p \<le> zombies (sched s) (kids p)" "tokens (wait_self s p) = 0"
  using assms by (simp_all add: tokens_inv_def)

lemma thread_invD:
  assumes "thread_inv n m s kids"
  shows "t_proc s t = Some p \<Longrightarrow> p < m" "t_proc s t = Some p \<Longrightarrow> t < n" "t_proc s t = Some p \<Longrightarrow> stage (sched s) t \<noteq> 0"
    "t_proc s t = Some p \<Longrightarrow> stage (sched s) t = 2 \<Longrightarrow> p_state (sched s) p = PCB_USED"
    "t_proc s t = Some p \<Longrightarrow> stage (sched s) t = 2 \<Longrightarrow> initproc s \<noteq> Some p \<Longrightarrow> \<exists>q. p \<in> set (kids q)"
    "p < m \<Longrightarrow> p_state (sched s) p = PCB_USED \<Longrightarrow> int (card {t. t_proc s t = Some p \<and> stage (sched s) t = 2}) \<le> thread_cnt s p"
  using assms unfolding thread_inv_def by blast+

lemma susp_invD:
  assumes "susp_inv m x kids"
  shows "susp x t = Some (i, e) \<Longrightarrow> \<exists>p. t_proc (tab x) t = Some p \<and> stage (sched (tab x)) t = 2 \<and>
      (e = On_parent \<or> (\<exists>c nxt fc. e = On_child (Some c) nxt fc \<and> c \<in> set (kids p)))"
    "susp x t \<noteq> None \<Longrightarrow> susp x u \<noteq> None \<Longrightarrow> t_proc (tab x) t = t_proc (tab x) u \<Longrightarrow> t = u"
  using assms unfolding susp_inv_def by blast+

lemma running_stage: "sched_inv n k \<Longrightarrow> cpu_thread k c = Some t \<Longrightarrow> stage k t = 2"
  using running_not_queued(1) [of n k c t] by (simp add: stage_def)

lemma tokens_inv_mono: "tokens_inv m hld s kids \<Longrightarrow> (\<And>p. hld' p \<le> hld p) \<Longrightarrow> tokens_inv m hld' s kids"
  unfolding tokens_inv_def by (meson add_left_mono order_trans)

lemma inv_with_mono:
  assumes "inv_with n m hld x kids" "\<And>p. hld' p \<le> hld p"
  shows "inv_with n m hld' x kids"
  using assms(1) tokens_inv_mono [of m hld _ kids hld', OF _ assms(2)] unfolding inv_with_def by blast

text \<open>Threads wake up or go to sleep.\<close>

lemma stir_inv:
  assumes I: "inv_with n m hld0 x kids" and st: "stir n A (sched (tab x)) k"
    and s: "s = (tab x)\<lparr>sched := k, wait_parent := wp, wait_self := ws\<rparr>"
    and sem: "sems_ok m s" and tk: "tokens_inv m hld s kids" and su: "susp_inv m \<lparr>tab = s, susp = u\<rparr> kids"
    and q: "queue_inv m \<lparr>tab = s, susp = u\<rparr>"
  shows "inv_with n m hld \<lparr>tab = s, susp = u\<rparr> kids"
proof -
  note D = invD [OF I]
  have k: "sched_inv n k" "pcb_part k = pcb_part (sched (tab x))" "next_wq (sched (tab x)) \<le> next_wq k" "stage k = stage (sched (tab x))"
    using st by (simp_all add: stir_def)
  have c: "tree_inv m s kids" "p_state k = p_state (sched (tab x))"
    using proc_cong [of s "tab x"] s k(2) D(3) by simp_all
  have "pid_inv m s"
    using D(4) c(2) unfolding pid_inv_def s by simp
  moreover have "thread_inv n m s kids"
    using D(7) c(2) k(4) unfolding thread_inv_def s by simp
  moreover have "2 * m \<le> next_wq k"
    using D(2) k(3) by simp
  ultimately show ?thesis
    unfolding inv_with_def using s k(1) c(1) sem tk su q by simp
qed

subsection \<open>A child is reaped\<close>

lemma zombies_remove1:
  assumes "c \<in> set ps" "p_state k c = PCB_ZOMBIE"
  shows "zombies k (remove1 c ps) = zombies k ps - 1"
  using assms by (induction ps) (auto simp: zombies_def)

lemma zombies_cong: "(\<And>c. c \<in> set ps \<Longrightarrow> p_state k' c = p_state k c) \<Longrightarrow> zombies k' ps = zombies k ps"
  unfolding zombies_def by (metis (mono_tags, lifting) filter_cong)

definition freed :: "ptab \<Rightarrow> nat \<Rightarrow> ksched \<Rightarrow> ptab" where
  "freed s p k = s\<lparr>pid_map := (pid_map s)(pid s p := None), count_pid := count_pid s - 1, pid := (pid s)(p := 0),
     parent := (parent s)(p := None), p_killed := (p_killed s)(p := False), exit_state := (exit_state s)(p := 0), sched := k\<rparr>"

lemma free_proc_ok:
  assumes "sched_inv n (sched s)" "pcb_ok m (sched s)" "p < m"
  shows "\<exists>k. free_proc s p = Some (freed s p k) \<and> sched_inv n k \<and> pcb_ok m k \<and> p_state k = (p_state (sched s))(p := PCB_UNUSED) \<and>
    next_wq k = next_wq (sched s) \<and> cpu_thread k = cpu_thread (sched s) \<and> stage k = stage (sched s) \<and>
    (\<forall>w. qlist k (WQ w) = qlist (sched s) (WQ w))"
proof -
  obtain k where k: "PCB_Q_changeState (sched s) p PCB_UNUSED = Some k" "sched_inv n k" "pcb_ok m k"
    "p_state k = (p_state (sched s))(p := PCB_UNUSED)" "next_wq k = next_wq (sched s)" "cpu_thread k = cpu_thread (sched s)"
    "stage k = stage (sched s)" "\<forall>w. qlist k (WQ w) = qlist (sched s) (WQ w)"
    using change_proc_ok [OF assms, of "sched s" PCB_UNUSED] by blast
  then show ?thesis
    by (intro exI [of _ k]) (simp add: free_proc_def freed_def)
qed

text \<open>Process ids are unique, and the id of a freed process leaves the map.\<close>

lemma pid_inj:
  assumes "pid_inv m s" "p < m" "p_state (sched s) p \<noteq> PCB_UNUSED" "r < m" "p_state (sched s) r \<noteq> PCB_UNUSED" "r \<noteq> p"
  shows "pid s r \<noteq> pid s p"
  using assms unfolding pid_inv_def by (metis option.inject)

lemma pid_free:
  assumes P: "pid_inv m s" and k: "p_state k = (p_state (sched s))(p := PCB_UNUSED)"
    and inj: "\<And>r. r < m \<Longrightarrow> p_state (sched s) r \<noteq> PCB_UNUSED \<Longrightarrow> r \<noteq> p \<Longrightarrow> pid s r \<noteq> pid s p"
    and s': "sched s' = k" "pid s' = (pid s)(p := 0)" "pid_map s' = (pid_map s)(pid s p := None)" "next_pid s' = next_pid s"
  shows "pid_inv m s'"
  unfolding pid_inv_def s'
proof (intro conjI allI impI)
  fix d assume d: "d < m" "p_state k d \<noteq> PCB_UNUSED"
  then have "d \<noteq> p" "pid_map s (pid s d) = Some d" "0 < pid s d" "pid s d < next_pid s" "pid s d \<noteq> pid s p"
    using P k inj [of d] by (auto simp: pid_inv_def split: if_splits)
  then show "((pid_map s)(pid s p := None)) (((pid s)(p := 0)) d) = Some d" "0 < ((pid s)(p := 0)) d" "((pid s)(p := 0)) d < next_pid s"
    by auto
next
  fix i d assume "((pid_map s)(pid s p := None)) i = Some d"
  then have "pid_map s i = Some d" "i \<noteq> pid s p"
    by (auto split: if_splits)
  then have "d < m" "p_state (sched s) d \<noteq> PCB_UNUSED" "pid s d = i" "d \<noteq> p"
    using P unfolding pid_inv_def by blast+
  then show "d < m" "p_state k d \<noteq> PCB_UNUSED" "((pid s)(p := 0)) d = i"
    using k by simp_all
qed (use P in \<open>simp add: pid_inv_def\<close>)

text \<open>The parts of the invariant after the zombie \<open>c\<close> has left the table and the list of \<open>p\<close>.\<close>

lemma kids_remove:
  assumes "family s kids" "c \<in> set (kids p)"
  shows "c \<notin> set ((kids(p := remove1 c (kids p))) q)" "set ((kids(p := remove1 c (kids p))) q) \<subseteq> set (kids q)"
    "d \<in> set (kids q) \<Longrightarrow> d \<noteq> c \<Longrightarrow> d \<in> set ((kids(p := remove1 c (kids p))) q)"
  using familyD(2,3) [OF assms(1)] assms(2) set_remove1_subset [of c "kids p"] by (auto split: if_splits)

lemma reaped_tree:
  assumes tree: "tree_inv m s kids" and c: "c \<in> set (kids p)" "p_state (sched s) c = PCB_ZOMBIE" and k: "pcb_ok m (sched s')"
      "p_state (sched s') = (p_state (sched s))(c := PCB_UNUSED)"
    and s': "family s' (kids(p := remove1 c (kids p)))" "dom (sib s') = {..<m}" "parent s' = (parent s)(c := None)" "initproc s' = initproc s"
  shows "tree_inv m s' (kids(p := remove1 c (kids p)))"
  unfolding tree_inv_def s'(2-4)
proof (intro conjI allI impI)
  note T = tree_invD [OF tree]
  note K = kids_remove [OF T(2) c(1)]
  show "\<exists>i<m. initproc s = Some i \<and> p_state (sched s') i = PCB_USED"
    using T(11) k(2) c(2) by (metis fun_upd_other procstate.distinct(5))
  show "\<exists>q. d \<in> set ((kids(p := remove1 c (kids p))) q)" if "d < m" "p_state (sched s') d = PCB_ZOMBIE" for d
  proof -
    have "d \<noteq> c" "p_state (sched s) d = PCB_ZOMBIE"
      using that(2) k(2) by (auto split: if_splits)
    then show ?thesis
      using T(10) [OF that(1)] K(3) by blast
  qed
  fix q d assume d: "d \<in> set ((kids(p := remove1 c (kids p))) q)"
  then have d': "d \<in> set (kids q)" "d \<noteq> c"
    using K(1,2) [of q] by blast+
  show "((parent s)(c := None)) d = Some q" "p_state (sched s') d \<noteq> PCB_UNUSED" "q < m" "initproc s \<noteq> Some d"
    using T(4,5,7,8) [OF d'(1)] d'(2) k(2) by simp_all
  show "p_state (sched s') q = PCB_USED"
    using T(6) [OF d'(1)] k(2) c(2) by auto
qed (use k(1) s'(1) in auto)

lemma reaped_tokens:
  assumes tk: "tokens_inv m hld s kids" and fam: "family s kids" and c: "c \<in> set (kids p)" "p_state (sched s) c = PCB_ZOMBIE"
    and k: "p_state (sched s') = (p_state (sched s))(c := PCB_UNUSED)" and s': "wait_parent s' = wait_parent s" "wait_self s' = wait_self s"
  shows "tokens_inv m (hld(p := hld p - 1)) s' (kids(p := remove1 c (kids p)))"
  unfolding tokens_inv_def s'
proof (intro allI impI)
  let ?kids = "kids(p := remove1 c (kids p))"
  fix q assume q: "q < m" "p_state (sched s') q = PCB_USED"
  have qc: "q \<noteq> c"
    using q(2) k by auto
  have z: "zombies (sched s') (?kids q) = zombies (sched s) (?kids q)"
    by (rule zombies_cong) (use kids_remove(1) [OF fam c(1), of q] k in auto)
  have "zombies (sched s) (?kids q) = zombies (sched s) (kids q) - (if q = p then 1 else 0)"
    using zombies_remove1 [OF c] by simp
  then show "tokens (wait_parent s q) + (hld(p := hld p - 1)) q \<le> zombies (sched s') (?kids q) \<and> tokens (wait_self s q) = 0"
    using tokens_invD [OF tk q(1)] q(2) qc k z by auto
qed

lemma reaped_threads:
  assumes th: "thread_inv n m s kids" and fam: "family s kids" and c: "c \<in> set (kids p)" "p_state (sched s) c = PCB_ZOMBIE"
    and k: "p_state (sched s') = (p_state (sched s))(c := PCB_UNUSED)" "stage (sched s') = stage (sched s)"
    and s': "t_proc s' = t_proc s" "initproc s' = initproc s" "thread_cnt s' = thread_cnt s"
  shows "thread_inv n m s' (kids(p := remove1 c (kids p)))"
proof -
  note H = thread_invD [OF th]
  have "p_state (sched s') q = PCB_USED \<and> (initproc s = Some q \<or> (\<exists>r. q \<in> set ((kids(p := remove1 c (kids p))) r)))"
    if "t_proc s v = Some q" "stage (sched s) v = 2" for v q
  proof -
    have qc: "q \<noteq> c"
      using H(4) [OF that] c(2) by auto
    then have "p_state (sched s') q = PCB_USED"
      using H(4) [OF that] k(1) by simp
    then show ?thesis
      using H(5) [OF that] kids_remove(3) [OF fam c(1) _ qc] by blast
  qed
  then show ?thesis
    using H(1,2,3,6) c(2) unfolding thread_inv_def s' k by (auto split: if_splits)
qed

text \<open>No other thread of \<open>p\<close> is in \<open>waitpid\<close>, so none waits for \<open>c\<close>.\<close>

lemma reaped_susp:
  assumes su: "susp_inv m x kids" and fam: "family (tab x) kids" and c: "c \<in> set (kids p)"
    and u: "\<And>v. t_proc (tab x) v = Some p \<Longrightarrow> v \<noteq> t \<Longrightarrow> susp x v = None"
    and s': "t_proc s' = t_proc (tab x)" "stage (sched s') = stage (sched (tab x))"
  shows "susp_inv m \<lparr>tab = s', susp = (susp x)(t := None)\<rparr> (kids(p := remove1 c (kids p)))"
proof -
  have only: "v = t" if sv: "susp x v = Some (i, On_child (Some c) nxt fc)" for v i nxt fc
  proof -
    obtain q where q: "t_proc (tab x) v = Some q" "c \<in> set (kids q)"
      using susp_invD(1) [OF su sv] by auto
    have "t_proc (tab x) v = Some p"
      using q familyD(2) [OF fam c q(2)] by simp
    then show ?thesis
      using u [of v] sv by auto
  qed
  have "\<exists>q. t_proc (tab x) v = Some q \<and> stage (sched (tab x)) v = 2 \<and>
      (e = On_parent \<or> (\<exists>d nxt fc. e = On_child (Some d) nxt fc \<and> d \<in> set ((kids(p := remove1 c (kids p))) q)))"
    if v: "susp x v = Some (i, e)" "v \<noteq> t" for v i e
    using susp_invD(1) [OF su v(1)] only [of v i] v kids_remove(3) [OF fam c] by blast
  then show ?thesis
    using susp_invD(2) [OF su] unfolding susp_inv_def by (simp add: s')
qed

lemma reap_ok:
  assumes I: "inv_with n m hld x kids" and c: "c \<in> set (kids p)" "p_state (sched (tab x)) c = PCB_ZOMBIE" and h: "1 \<le> hld p"
    and cur: "cpu_thread (sched (tab x)) cpu = Some t" "t_proc (tab x) t = Some p"
    and u: "\<And>v. t_proc (tab x) v = Some p \<Longrightarrow> v \<noteq> t \<Longrightarrow> susp x v = None" and st: "status \<noteq> Some False"
  shows "\<exists>s'. reap (tab x) p c status = Some (s', Returned (pid (tab x) c) (map_option (\<lambda>_. exit_state (tab x) c) status)) \<and>
    inv_with n m (hld(p := hld p - 1)) \<lparr>tab = s', susp = (susp x)(t := None)\<rparr> (kids(p := remove1 c (kids p)))"
proof -
  note D = invD [OF I]
  note T = tree_invD [OF D(3)]
  let ?s = "tab x" and ?kids = "kids(p := remove1 c (kids p))"
  obtain k where k: "free_proc ?s c = Some (freed ?s c k)" "sched_inv n k" "pcb_ok m k"
    "p_state k = (p_state (sched ?s))(c := PCB_UNUSED)" "next_wq k = next_wq (sched ?s)" "stage k = stage (sched ?s)"
    "\<And>w. qlist k (WQ w) = qlist (sched ?s) (WQ w)"
    using free_proc_ok [OF D(1) T(1) T(9) [OF c(1)]] by blast
  let ?f = "freed ?s c k"
  have fam: "family ?f kids"
    using T(2) by (simp add: freed_def)
  obtain hp fc where s': "deleteChild ?f p c = Some (?f\<lparr>sib := hp, first_child := (first_child ?f)(p := fc)\<rparr>)"
    "family (?f\<lparr>sib := hp, first_child := (first_child ?f)(p := fc)\<rparr>) ?kids" "dom hp = dom (sib ?f)"
    using deleteChild_family [OF fam c(1)] by blast
  let ?s' = "?f\<lparr>sib := hp, first_child := (first_child ?f)(p := fc)\<rparr>"
  have sel: "sched ?s' = k" "parent ?s' = (parent ?s)(c := None)" "initproc ?s' = initproc ?s" "t_proc ?s' = t_proc ?s"
    "wait_parent ?s' = wait_parent ?s" "wait_self ?s' = wait_self ?s" "thread_cnt ?s' = thread_cnt ?s" "pid ?s' = (pid ?s)(c := 0)"
    "pid_map ?s' = (pid_map ?s)(pid ?s c := None)" "next_pid ?s' = next_pid ?s" "dom (sib ?s') = {..<m}"
    using s'(3) T(3) by (simp_all add: freed_def)
  have parts: "tree_inv m ?s' ?kids" "tokens_inv m (hld(p := hld p - 1)) ?s' ?kids" "thread_inv n m ?s' ?kids"
    "susp_inv m \<lparr>tab = ?s', susp = (susp x)(t := None)\<rparr> ?kids"
    using reaped_tree [where s' = ?s', OF D(3) c] reaped_tokens [where s' = ?s', OF D(6) T(2) c] reaped_threads [where s' = ?s', OF D(7) T(2) c]
      reaped_susp [where s' = ?s', OF D(8) T(2) c(1) u] k(3,4,6) s'(2) sel by simp_all
  have pids: "pid_inv m ?s'"
    by (rule pid_free [OF D(4) k(4) pid_inj [OF D(4) T(9,5) [OF c(1)]]]) (use sel in auto)
  have "t \<notin> set (qlist (sched ?s) (WQ w))" for w
    by (rule running_not_queued(2) [OF D(1) cur(1)])
  then have qu: "queue_inv m \<lparr>tab = ?s', susp = (susp x)(t := None)\<rparr>"
    using D(9) unfolding queue_inv_def by (auto simp: sel k(7))
  have "inv_with n m (hld(p := hld p - 1)) \<lparr>tab = ?s', susp = (susp x)(t := None)\<rparr> ?kids"
    unfolding inv_with_def using parts pids qu D(2,5) k(2,5) by (simp add: sel sems_ok_def)
  moreover have "reap ?s p c status = Some (?s', Returned (pid ?s c) (map_option (\<lambda>_. exit_state ?s c) status))"
    using st k(1) s'(1) by (simp add: reap_def)
  ultimately show ?thesis by blast
qed

subsection \<open>The loop of \<open>waitpid\<close>\<close>

text \<open>What the part of \<open>waitpid\<close> after its first sleep can end in: a zombie among the children \<open>cs\<close> is returned, or the thread
  waits for the child it was asked for.\<close>

definition wait_done :: "ptab \<Rightarrow> nat list \<Rightarrow> int \<Rightarrow> bool option \<Rightarrow> wait_end \<Rightarrow> bool" where
  "wait_done s cs i status e \<longleftrightarrow> (\<exists>d\<in>set cs.
     (p_state (sched s) d = PCB_ZOMBIE \<and>
        e = (if status = Some False then Returned (-1) None else Returned (pid s d) (map_option (\<lambda>_. exit_state s d) status))) \<or>
     (0 < i \<and> pid s d = i \<and> (\<exists>nxt fc. e = On_child (Some d) nxt fc)))"

lemma held_le1: "held x p \<le> 1" "0 \<le> held x p"
  by (simp_all add: held_def)

lemma held_cong: "t_proc s = t_proc (tab x) \<Longrightarrow> (\<And>v. for_child (u v) = for_child (susp x v)) \<Longrightarrow> held \<lparr>tab = s, susp = u\<rparr> = held x"
  by (simp add: held_def fun_eq_iff)

text \<open>A thread of \<open>p\<close> has passed the semaphore of \<open>p\<close> and no thread of \<open>p\<close> sleeps in \<open>waitpid\<close>.\<close>

definition passed_inv :: "nat \<Rightarrow> nat \<Rightarrow> psys \<Rightarrow> (nat \<Rightarrow> nat list) \<Rightarrow> nat \<Rightarrow> nat \<Rightarrow> nat \<Rightarrow> bool" where
  "passed_inv n m x kids p cpu t \<longleftrightarrow> inv_with n m ((held x)(p := 1)) x kids \<and> cpu_thread (sched (tab x)) cpu = Some t \<and>
     t_proc (tab x) t = Some p \<and> (\<forall>v. t_proc (tab x) v = Some p \<longrightarrow> susp x v = None)"

lemma set_tab: "x\<lparr>tab := s\<rparr> = \<lparr>tab = s, susp = susp x\<rparr>"
  by simp

lemma passed_reap:
  assumes P: "passed_inv n m x kids p cpu t" and d: "d \<in> set (kids p)" "p_state (sched (tab x)) d = PCB_ZOMBIE"
  shows "\<exists>s' e kids'. reap (tab x) p d status = Some (s', e) \<and> proc_inv n m (suspend x s' t i e) kids' \<and>
    wait_done (tab x) (kids p) i status e"
proof (cases "status = Some False")
  case True
  have "proc_inv n m x kids"
    unfolding proc_inv_def by (rule inv_with_mono [of _ _ "(held x)(p := 1)"]) (use P held_le1 in \<open>auto simp: passed_inv_def\<close>)
  moreover have "suspend x (tab x) t i (Returned (-1) None) = x"
    using P by (simp add: suspend_def passed_inv_def fun_upd_idem)
  ultimately show ?thesis
    using True d by (intro exI [of _ "tab x"] exI [of _ "Returned (-1) None"] exI [of _ kids]) (auto simp: reap_def wait_done_def)
next
  case False
  let ?e = "Returned (pid (tab x) d) (map_option (\<lambda>_. exit_state (tab x) d) status)"
  have I: "inv_with n m ((held x)(p := 1)) x kids" and cur: "cpu_thread (sched (tab x)) cpu = Some t" "t_proc (tab x) t = Some p"
    and u: "\<And>v. t_proc (tab x) v = Some p \<Longrightarrow> susp x v = None"
    using P by (simp_all add: passed_inv_def)
  obtain s' where s': "reap (tab x) p d status = Some (s', ?e)"
    "inv_with n m ((held x)(p := 0)) \<lparr>tab = s', susp = (susp x)(t := None)\<rparr> (kids(p := remove1 d (kids p)))"
    using reap_ok [OF I d _ cur _ False] u by auto
  let ?y = "\<lparr>tab = s', susp = (susp x)(t := None)\<rparr>"
  have tp: "t_proc s' = t_proc (tab x)"
    using s'(1) False by (auto simp: reap_def free_proc_def deleteChild_def Let_def Option.bind_eq_Some_conv split: if_splits)
  have "held ?y q \<le> ((held x)(p := 0)) q" for q
    using u by (auto simp: held_def tp for_child_def)
  then have "proc_inv n m ?y (kids(p := remove1 d (kids p)))"
    unfolding proc_inv_def by (rule inv_with_mono [OF s'(2)])
  moreover have "suspend x s' t i ?e = ?y"
    by (simp add: suspend_def)
  moreover have "wait_done (tab x) (kids p) i status ?e"
    using d False by (auto simp: wait_done_def)
  ultimately show ?thesis
    using s'(1) by metis
qed

lemma child_sem:
  assumes I: "inv_with n m hld x kids" and d: "d \<in> set (kids p)"
  shows "sem_cond (wait_self (tab x) d) < next_wq (sched (tab x))" "sem_cond (wait_self (tab x) d) = chan_self d"
    "0 \<le> sem_wakeup (wait_self (tab x) d)" "tokens (wait_self (tab x) d) \<noteq> 0 \<Longrightarrow> p_state (sched (tab x)) d = PCB_ZOMBIE"
proof -
  note D = invD [OF I]
  have dm: "d < m"
    by (rule tree_invD(9) [OF D(3) d])
  note S = sems_okD [OF D(5) dm]
  show "sem_cond (wait_self (tab x) d) < next_wq (sched (tab x))" "sem_cond (wait_self (tab x) d) = chan_self d"
    "0 \<le> sem_wakeup (wait_self (tab x) d)"
    using S dm D(2) by (simp_all add: chan_self_def)
  show "tokens (wait_self (tab x) d) \<noteq> 0 \<Longrightarrow> p_state (sched (tab x)) d = PCB_ZOMBIE"
    using tokens_invD(2) [OF D(6) dm] tree_invD(5) [OF D(3) d] by (cases "p_state (sched (tab x)) d") auto
qed

text \<open>The queues after a thread has gone to sleep on one of them.\<close>

lemma queue_inv_self:
  assumes Q: "queue_inv m x" and c: "\<And>w v. v \<in> set (qlist (sched s) (WQ w)) \<Longrightarrow> v \<in> set (qlist (sched (tab x)) (WQ w)) \<or> w = chan_self d \<and> v = t"
    and tq: "\<And>w. t \<notin> set (qlist (sched (tab x)) (WQ w))" and tp: "t_proc s = t_proc (tab x)"
    and u: "u = (susp x)(t := Some (i, On_child (Some d) nxt fc))"
  shows "queue_inv m \<lparr>tab = s, susp = u\<rparr>"
  unfolding queue_inv_def
proof (intro conjI allI impI ballI)
  fix q v assume q: "q < m" "v \<in> set (qlist (sched (tab \<lparr>tab = s, susp = u\<rparr>)) (WQ (chan_parent q)))"
  then have "v \<in> set (qlist (sched (tab x)) (WQ (chan_parent q)))"
    using c [of v "chan_parent q"] by (auto simp: chan_parent_def chan_self_def) presburger
  then show "t_proc (tab \<lparr>tab = s, susp = u\<rparr>) v = Some q"
    using Q q(1) tp by (simp add: queue_inv_def)
next
  fix q v assume q: "q < m" "v \<in> set (qlist (sched (tab \<lparr>tab = s, susp = u\<rparr>)) (WQ (chan_self q)))"
  then have "v \<in> set (qlist (sched (tab x)) (WQ (chan_self q))) \<or> q = d \<and> v = t"
    using c [of v "chan_self q"] by (auto simp: chan_self_def)
  then show "\<exists>i nxt fc. susp \<lparr>tab = s, susp = u\<rparr> v = Some (i, On_child (Some q) nxt fc)"
    using Q q(1) tq u by (auto simp: queue_inv_def)
qed

lemma queue_inv_parent:
  assumes Q: "queue_inv m x" and c: "\<And>w v. v \<in> set (qlist (sched s) (WQ w)) \<Longrightarrow> v \<in> set (qlist (sched (tab x)) (WQ w)) \<or> w = chan_parent p \<and> v = t"
    and tq: "\<And>w. t \<notin> set (qlist (sched (tab x)) (WQ w))" and tp: "t_proc s = t_proc (tab x)" "t_proc s t = Some p"
    and u: "u = (susp x)(t := Some (i, On_parent))"
  shows "queue_inv m \<lparr>tab = s, susp = u\<rparr>"
  unfolding queue_inv_def
proof (intro conjI allI impI ballI)
  fix q v assume q: "q < m" "v \<in> set (qlist (sched (tab \<lparr>tab = s, susp = u\<rparr>)) (WQ (chan_parent q)))"
  then have "v \<in> set (qlist (sched (tab x)) (WQ (chan_parent q))) \<or> q = p \<and> v = t"
    using c [of v "chan_parent q"] by (auto simp: chan_parent_def)
  then show "t_proc (tab \<lparr>tab = s, susp = u\<rparr>) v = Some q"
    using Q q(1) tp by (auto simp: queue_inv_def)
next
  fix q v assume q: "q < m" "v \<in> set (qlist (sched (tab \<lparr>tab = s, susp = u\<rparr>)) (WQ (chan_self q)))"
  then have "v \<in> set (qlist (sched (tab x)) (WQ (chan_self q)))"
    using c [of v "chan_self q"] by (auto simp: chan_parent_def chan_self_def) presburger
  then show "\<exists>i nxt fc. susp \<lparr>tab = s, susp = u\<rparr> v = Some (i, On_child (Some q) nxt fc)"
    using Q q(1) tq u by (auto simp: queue_inv_def)
qed

text \<open>The semaphore of a child lets the thread pass, or it sleeps.\<close>

lemma self_taken:
  assumes P: "passed_inv n m x kids p cpu t" and z: "p_state (sched (tab x)) d = PCB_ZOMBIE" and k: "calm n (sched (tab x)) k"
    and S: "sem_cond S = sem_cond (wait_self (tab x) d)" "0 \<le> sem_wakeup S"
  shows "passed_inv n m (x\<lparr>tab := (tab x)\<lparr>sched := k, wait_self := (wait_self (tab x))(d := S)\<rparr>\<rparr>) kids p cpu t"
proof -
  let ?s = "tab x"
  let ?s' = "?s\<lparr>sched := k, wait_parent := wait_parent ?s, wait_self := (wait_self ?s)(d := S)\<rparr>"
  have I: "inv_with n m ((held x)(p := 1)) x kids"
    using P by (simp add: passed_inv_def)
  note D = invD [OF I]
  have c: "pcb_part k = pcb_part (sched ?s)" "cpu_thread k = cpu_thread (sched ?s)" "stage k = stage (sched ?s)"
    "\<And>w. set (qlist k (WQ w)) \<subseteq> set (qlist (sched ?s) (WQ w))"
    using k by (simp_all add: calm_def)
  have ps: "p_state k = p_state (sched ?s)" "zombies k = zombies (sched ?s)"
    using c(1) by (auto simp: pcb_part_def zombies_def fun_eq_iff)
  have "inv_with n m ((held x)(p := 1)) \<lparr>tab = ?s', susp = susp x\<rparr> kids"
  proof (rule stir_inv [OF I calm_stir [OF k] refl])
    show "sems_ok m ?s'"
      using D(5) S by (simp add: sems_ok_def)
    show "tokens_inv m ((held x)(p := 1)) ?s' kids"
      using D(6) z ps by (auto simp: tokens_inv_def)
    show "susp_inv m \<lparr>tab = ?s', susp = susp x\<rparr> kids"
      using D(8) c(3) by (simp add: susp_inv_def)
    show "queue_inv m \<lparr>tab = ?s', susp = susp x\<rparr>"
      using D(9) c(4) unfolding queue_inv_def by (simp add: subset_iff)
  qed
  moreover have "held \<lparr>tab = ?s', susp = susp x\<rparr> = held x"
    by (rule held_cong) simp_all
  ultimately show ?thesis
    using P c(2) by (simp add: passed_inv_def set_tab)
qed

lemma child_sleeps:
  assumes P: "passed_inv n m x kids p cpu t" and d: "d \<in> set (kids p)" and k: "stir n {(chan_self d, t)} (sched (tab x)) k"
    and S: "tokens S = tokens (wait_self (tab x) d)" "sem_cond S = sem_cond (wait_self (tab x) d)" "0 \<le> sem_wakeup S"
  shows "proc_inv n m (suspend x ((tab x)\<lparr>sched := k, wait_self := (wait_self (tab x))(d := S)\<rparr>) t i (On_child (Some d) nxt fc)) kids"
proof -
  let ?s = "tab x" and ?e = "On_child (Some d) nxt fc"
  let ?s' = "?s\<lparr>sched := k, wait_parent := wait_parent ?s, wait_self := (wait_self ?s)(d := S)\<rparr>" and ?u = "(susp x)(t := Some (i, ?e))"
  have I: "inv_with n m ((held x)(p := 1)) x kids" and cur: "cpu_thread (sched ?s) cpu = Some t" "t_proc ?s t = Some p"
    and u: "\<And>v. t_proc ?s v = Some p \<Longrightarrow> susp x v = None"
    using P by (simp_all add: passed_inv_def)
  note D = invD [OF I]
  have c: "pcb_part k = pcb_part (sched ?s)" "stage k = stage (sched ?s)"
    "\<And>w v. v \<in> set (qlist k (WQ w)) \<Longrightarrow> v \<in> set (qlist (sched ?s) (WQ w)) \<or> w = chan_self d \<and> v = t"
    using k by (auto simp: stir_def)
  have ps: "p_state k = p_state (sched ?s)" "zombies k = zombies (sched ?s)"
    using c(1) by (auto simp: pcb_part_def zombies_def fun_eq_iff)
  have h: "held \<lparr>tab = ?s', susp = ?u\<rparr> = (held x)(p := 1)"
    using cur(2) by (auto simp: held_def for_child_def fun_eq_iff)
  have tq: "t \<notin> set (qlist (sched ?s) (WQ w))" for w
    by (rule running_not_queued(2) [OF D(1) cur(1)])
  have "inv_with n m ((held x)(p := 1)) \<lparr>tab = ?s', susp = ?u\<rparr> kids"
  proof (rule stir_inv [OF I k refl])
    show "sems_ok m ?s'"
      using D(5) S(2,3) by (simp add: sems_ok_def)
    show "tokens_inv m ((held x)(p := 1)) ?s' kids"
      using D(6) S(1) ps by (simp add: tokens_inv_def)
    show "susp_inv m \<lparr>tab = ?s', susp = ?u\<rparr> kids"
      using D(8) cur u d running_stage [OF D(1) cur(1)] c(2) by (auto simp: susp_inv_def)
    show "queue_inv m \<lparr>tab = ?s', susp = ?u\<rparr>"
      using c(3) D(9) tq by (intro queue_inv_self) auto
  qed
  then have "proc_inv n m \<lparr>tab = ?s', susp = ?u\<rparr> kids"
    unfolding proc_inv_def h .
  then show ?thesis
    by (simp add: suspend_def)
qed

lemma wait_child_ok:
  assumes P: "passed_inv n m x kids p cpu t" and d: "d \<in> set (kids p)"
  shows "(\<exists>S. sema_wait (sched (tab x)) (wait_self (tab x) d) cpu 0 rd = Some (sched (tab x), S, Passed) \<and>
      p_state (sched (tab x)) d = PCB_ZOMBIE \<and> passed_inv n m (x\<lparr>tab := (tab x)\<lparr>wait_self := (wait_self (tab x))(d := S)\<rparr>\<rparr>) kids p cpu t) \<or>
    (\<exists>k S. sema_wait (sched (tab x)) (wait_self (tab x) d) cpu 0 rd = Some (k, S, Blocked) \<and>
      proc_inv n m (suspend x ((tab x)\<lparr>sched := k, wait_self := (wait_self (tab x))(d := S)\<rparr>) t i (On_child (Some d) nxt fc)) kids)"
proof -
  let ?s = "tab x" and ?S = "wait_self (tab x) d"
  have I: "inv_with n m ((held x)(p := 1)) x kids" and cur: "cpu_thread (sched ?s) cpu = Some t"
    using P by (simp_all add: passed_inv_def)
  note D = invD [OF I]
  note w = child_sem [OF I d]
  show ?thesis
    using wait_cases [OF D(1) w(1) cur, of rd]
  proof (elim disjE exE conjE)
    fix S' assume r: "sema_wait (sched ?s) ?S cpu 0 rd = Some (sched ?s, S', Passed)" "1 \<le> sem_value ?S"
      "sem_cond S' = sem_cond ?S" "sem_wakeup S' = sem_wakeup ?S"
    have z: "p_state (sched ?s) d = PCB_ZOMBIE"
      by (rule w(4)) (use r(2) w(3) in \<open>simp add: tokens_def\<close>)
    then show ?thesis
      using self_taken [OF P z calm_refl [OF D(1)] r(3)] r(1,4) w(3) by simp
  next
    fix k S' assume r: "sema_wait (sched ?s) ?S cpu 0 rd = Some (k, S', Blocked)" "tokens S' = tokens ?S"
      "stir n {(sem_cond ?S, t)} (sched ?s) k" "sem_cond S' = sem_cond ?S" "sem_wakeup S' = sem_wakeup ?S"
    then show ?thesis
      using child_sleeps [OF P d _ r(2,4), of k i nxt fc] w(2,3) by auto
  qed
qed

lemma wait_turn:
  assumes P: "passed_inv n m x kids p cpu t" and d: "d \<in> set (kids p)" and f: "flag \<or> fc \<noteq> Some d"
    and g: "p_state (sched (tab x)) d = PCB_ZOMBIE \<or> 0 < i \<and> pid (tab x) d = i"
  shows "\<exists>s' e kids'. wait_loop (Suc fuel) (tab x) p cpu i status rd (Some d) nxt fc flag = Some (s', e) \<and>
    proc_inv n m (suspend x s' t i e) kids' \<and> wait_done (tab x) (kids p) i status e"
proof (cases "0 < i \<and> pid (tab x) d = i")
  case False
  then show ?thesis
    using passed_reap [OF P d, of status i] g f by auto
next
  case True
  show ?thesis
    using wait_child_ok [OF P d, of rd i nxt fc]
  proof (elim disjE exE conjE)
    fix S assume S: "sema_wait (sched (tab x)) (wait_self (tab x) d) cpu 0 rd = Some (sched (tab x), S, Passed)"
      "p_state (sched (tab x)) d = PCB_ZOMBIE" "passed_inv n m (x\<lparr>tab := (tab x)\<lparr>wait_self := (wait_self (tab x))(d := S)\<rparr>\<rparr>) kids p cpu t"
    let ?y = "x\<lparr>tab := (tab x)\<lparr>wait_self := (wait_self (tab x))(d := S)\<rparr>\<rparr>"
    obtain s' e kids' where r: "reap (tab ?y) p d status = Some (s', e)" "proc_inv n m (suspend ?y s' t i e) kids'"
      "wait_done (tab ?y) (kids p) i status e"
      using passed_reap [OF S(3) d, of status i] S(2) by auto
    have "suspend ?y s' t i e = suspend x s' t i e"
      by (simp add: suspend_def)
    moreover have "wait_done (tab ?y) (kids p) i status e = wait_done (tab x) (kids p) i status e"
      unfolding wait_done_def by (rule bex_cong) simp_all
    ultimately show ?thesis
      using r S(1,2) True f by (intro exI [of _ s'] exI [of _ e] exI [of _ kids']) auto
  next
    fix k S assume S: "sema_wait (sched (tab x)) (wait_self (tab x) d) cpu 0 rd = Some (k, S, Blocked)"
      "proc_inv n m (suspend x ((tab x)\<lparr>sched := k, wait_self := (wait_self (tab x))(d := S)\<rparr>) t i (On_child (Some d) nxt fc)) kids"
    have "wait_done (tab x) (kids p) i status (On_child (Some d) nxt fc)"
      using d True by (auto simp: wait_done_def)
    then show ?thesis
      using S True f by auto
  qed
qed

lemma wait_loop_ok:
  assumes P: "passed_inv n m x kids p cpu t" and k: "kids p = pre @ d # ds" and z: "\<exists>z\<in>set (d # ds). p_state (sched (tab x)) z = PCB_ZOMBIE"
    and fl: "flag \<or> pre \<noteq> []" and fu: "length ds < fuel"
  shows "\<exists>s' e kids'. wait_loop fuel (tab x) p cpu i status rd (Some d) (Some (hd (ds @ kids p))) (Some (hd (kids p))) flag = Some (s', e) \<and>
    proc_inv n m (suspend x s' t i e) kids' \<and> wait_done (tab x) (kids p) i status e"
  using k z fl fu
proof (induction ds arbitrary: pre d flag fuel)
  case (Nil pre d flag fuel)
  obtain f where f: "fuel = Suc f"
    using Nil.prems(4) by (cases fuel) auto
  have fam: "family (tab x) kids"
    using P by (simp add: passed_inv_def inv_with_def tree_inv_def)
  have "flag \<or> Some (hd (kids p)) \<noteq> Some d"
    using Nil.prems(1,3) familyD(3) [OF fam, of p] by (cases pre) auto
  then show ?case
    unfolding f using Nil.prems(1,2) by (intro wait_turn [OF P]) auto
next
  case (Cons d' ds pre d flag fuel)
  obtain f where f: "fuel = Suc f"
    using Cons.prems(4) by (cases fuel) auto
  have fam: "family (tab x) kids"
    using P by (simp add: passed_inv_def inv_with_def tree_inv_def)
  have fl: "flag \<or> Some (hd (kids p)) \<noteq> Some d"
    using Cons.prems(1,3) familyD(3) [OF fam, of p] by (cases pre) auto
  show ?case
  proof (cases "p_state (sched (tab x)) d = PCB_ZOMBIE \<or> 0 < i \<and> pid (tab x) d = i")
    case True
    then show ?thesis
      unfolding f using Cons.prems(1) by (intro wait_turn [OF P _ fl]) auto
  next
    case False
    have k': "kids p = (pre @ [d]) @ d' # ds"
      using Cons.prems(1) by simp
    have nx': "nextsibling (tab x) (Some d') = Some (Some (hd (ds @ kids p)))"
      unfolding nextsibling_def by (rule ring_next_mid [OF familyD(1) [OF fam] k'])
    have "wait_loop fuel (tab x) p cpu i status rd (Some d) (Some (hd ((d' # ds) @ kids p))) (Some (hd (kids p))) flag =
      wait_loop f (tab x) p cpu i status rd (Some d') (Some (hd (ds @ kids p))) (Some (hd (kids p))) False"
      using False fl nx' f by auto
    then show ?thesis
      using Cons.IH [OF k', of False f] Cons.prems(2,4) False f by auto
  qed
qed

lemma wait_children_ok:
  assumes P: "passed_inv n m x kids p cpu t"
  shows "\<exists>s' e kids'. wait_children m (tab x) p cpu i status rd = Some (s', e) \<and> proc_inv n m (suspend x s' t i e) kids' \<and>
    wait_done (tab x) (kids p) i status e"
proof -
  have I: "inv_with n m ((held x)(p := 1)) x kids" and pt: "t_proc (tab x) t = Some p" "cpu_thread (sched (tab x)) cpu = Some t"
    using P by (simp_all add: passed_inv_def)
  note D = invD [OF I]
  note T = tree_invD [OF D(3)] and H = thread_invD [OF D(7)]
  have p: "p < m" "p_state (sched (tab x)) p = PCB_USED"
    using H(1,4) [OF pt(1)] running_stage [OF D(1) pt(2)] by auto
  have "0 \<le> tokens (wait_parent (tab x) p)"
    using sems_okD(3) [OF D(5) p(1)] by (simp add: tokens_def)
  then have "0 < zombies (sched (tab x)) (kids p)"
    using tokens_invD(1) [OF D(6) p] by simp
  then obtain z where z: "z \<in> set (kids p)" "p_state (sched (tab x)) z = PCB_ZOMBIE"
    by (auto simp: zombies_def filter_empty_conv)
  obtain d ds where k: "kids p = d # ds"
    using z(1) by (cases "kids p") auto
  have "set (kids p) \<subseteq> {..<m}"
    using T(9) by auto
  then have "length (kids p) \<le> m"
    using familyD(3) [OF T(2), of p] by (metis card_lessThan card_mono distinct_card finite_lessThan)
  then have fu: "length ds < m"
    using k by simp
  have r: "ring (sib (tab x)) (first_child (tab x) p) (kids p)"
    by (rule familyD(1) [OF T(2)])
  have "wait_children m (tab x) p cpu i status rd =
    wait_loop m (tab x) p cpu i status rd (Some d) (Some (hd (ds @ kids p))) (Some (hd (kids p))) True"
    using ring_next_mid [OF r, of "[]" d ds] r k by (simp add: wait_children_def nextsibling_def Let_def)
  then show ?thesis
    using wait_loop_ok [OF P, of "[]" d ds True m i status rd] z k fu by auto
qed

subsection \<open>\<open>waitpid\<close> keeps the invariant\<close>

text \<open>The semaphore of the process lets the thread pass, or it sleeps.\<close>

lemma token_taken:
  assumes I: "proc_inv n m x kids" and cur: "cpu_thread (sched (tab x)) cpu = Some t" "t_proc (tab x) t = Some p"
    and u: "\<And>v. t_proc (tab x) v = Some p \<Longrightarrow> susp x v = None" and k: "calm n (sched (tab x)) k"
    and S: "tokens S = tokens (wait_parent (tab x) p) - 1" "sem_cond S = sem_cond (wait_parent (tab x) p)" "0 \<le> sem_wakeup S"
  shows "passed_inv n m (x\<lparr>tab := (tab x)\<lparr>sched := k, wait_parent := (wait_parent (tab x))(p := S)\<rparr>\<rparr>) kids p cpu t"
proof -
  let ?s = "tab x"
  let ?s' = "?s\<lparr>sched := k, wait_parent := (wait_parent ?s)(p := S), wait_self := wait_self ?s\<rparr>"
  note D = invD [OF I [unfolded proc_inv_def]]
  have c: "pcb_part k = pcb_part (sched ?s)" "cpu_thread k = cpu_thread (sched ?s)" "stage k = stage (sched ?s)"
    "\<And>w. set (qlist k (WQ w)) \<subseteq> set (qlist (sched ?s) (WQ w))"
    using k by (simp_all add: calm_def)
  have ps: "p_state k = p_state (sched ?s)" "zombies k = zombies (sched ?s)"
    using c(1) by (auto simp: pcb_part_def zombies_def fun_eq_iff)
  have h0: "held x p = 0"
    using u by (auto simp: held_def for_child_def)
  have "inv_with n m ((held x)(p := 1)) \<lparr>tab = ?s', susp = susp x\<rparr> kids"
  proof (rule stir_inv [OF I [unfolded proc_inv_def] calm_stir [OF k] refl])
    show "sems_ok m ?s'"
      using D(5) S(2,3) by (simp add: sems_ok_def)
    show "tokens_inv m ((held x)(p := 1)) ?s' kids"
      using D(6) S(1) ps h0 by (auto simp: tokens_inv_def)
    show "susp_inv m \<lparr>tab = ?s', susp = susp x\<rparr> kids"
      using D(8) c(3) by (simp add: susp_inv_def)
    show "queue_inv m \<lparr>tab = ?s', susp = susp x\<rparr>"
      using D(9) c(4) unfolding queue_inv_def by (simp add: subset_iff)
  qed
  moreover have "held \<lparr>tab = ?s', susp = susp x\<rparr> = held x"
    by (simp add: held_def fun_eq_iff)
  ultimately show ?thesis
    using cur u c(2) by (simp add: passed_inv_def set_tab)
qed

lemma thread_sleeps:
  assumes I: "proc_inv n m x kids" and cur: "cpu_thread (sched (tab x)) cpu = Some t" "t_proc (tab x) t = Some p"
    and u: "\<And>v. t_proc (tab x) v = Some p \<Longrightarrow> susp x v = None" and k: "stir n {(chan_parent p, t)} (sched (tab x)) k"
    and S: "tokens S = tokens (wait_parent (tab x) p)" "sem_cond S = sem_cond (wait_parent (tab x) p)" "0 \<le> sem_wakeup S"
  shows "proc_inv n m (suspend x ((tab x)\<lparr>sched := k, wait_parent := (wait_parent (tab x))(p := S)\<rparr>) t i On_parent) kids"
proof -
  let ?s = "tab x"
  let ?s' = "?s\<lparr>sched := k, wait_parent := (wait_parent ?s)(p := S), wait_self := wait_self ?s\<rparr>" and ?u = "(susp x)(t := Some (i, On_parent))"
  note D = invD [OF I [unfolded proc_inv_def]]
  have c: "pcb_part k = pcb_part (sched ?s)" "stage k = stage (sched ?s)"
    "\<And>w v. v \<in> set (qlist k (WQ w)) \<Longrightarrow> v \<in> set (qlist (sched ?s) (WQ w)) \<or> w = chan_parent p \<and> v = t"
    using k by (auto simp: stir_def)
  have ps: "p_state k = p_state (sched ?s)" "zombies k = zombies (sched ?s)"
    using c(1) by (auto simp: pcb_part_def zombies_def fun_eq_iff)
  have tq: "t \<notin> set (qlist (sched ?s) (WQ w))" for w
    by (rule running_not_queued(2) [OF D(1) cur(1)])
  have h: "held \<lparr>tab = ?s', susp = ?u\<rparr> = held x"
    by (rule held_cong) (use u [OF cur(2)] in \<open>auto simp: for_child_def\<close>)
  have "inv_with n m (held x) \<lparr>tab = ?s', susp = ?u\<rparr> kids"
  proof (rule stir_inv [OF I [unfolded proc_inv_def] k refl])
    show "sems_ok m ?s'"
      using D(5) S(2,3) by (simp add: sems_ok_def)
    show "tokens_inv m (held x) ?s' kids"
      using D(6) S(1) ps by (auto simp: tokens_inv_def)
    show "susp_inv m \<lparr>tab = ?s', susp = ?u\<rparr> kids"
      using D(8) c(2) cur u running_stage [OF D(1) cur(1)] by (auto simp: susp_inv_def)
    show "queue_inv m \<lparr>tab = ?s', susp = ?u\<rparr>"
      using c(3) D(9) tq cur(2) by (intro queue_inv_parent) auto
  qed
  then have "proc_inv n m \<lparr>tab = ?s', susp = ?u\<rparr> kids"
    unfolding proc_inv_def h .
  then show ?thesis
    by (simp add: suspend_def)
qed

text \<open>What \<open>waitpid\<close> does once it is past its first tests.\<close>

definition wait_good :: "nat \<Rightarrow> nat \<Rightarrow> psys \<Rightarrow> (nat \<Rightarrow> nat list) \<Rightarrow> nat \<Rightarrow> nat \<Rightarrow> int \<Rightarrow> bool option \<Rightarrow> (ptab \<times> wait_end) option \<Rightarrow> bool" where
  "wait_good n m x kids p t i status r \<longleftrightarrow> (\<exists>s' e kids'. r = Some (s', e) \<and> proc_inv n m (suspend x s' t i e) kids' \<and>
     (e = On_parent \<or> wait_done (tab x) (kids p) i status e))"

lemma passed_good:
  assumes P: "passed_inv n m (x\<lparr>tab := (tab x)\<lparr>sched := k, wait_parent := w\<rparr>\<rparr>) kids p cpu t" and c: "pcb_part k = pcb_part (sched (tab x))"
  shows "wait_good n m x kids p t i status (wait_children m ((tab x)\<lparr>sched := k, wait_parent := w\<rparr>) p cpu i status rd)"
proof -
  let ?y = "x\<lparr>tab := (tab x)\<lparr>sched := k, wait_parent := w\<rparr>\<rparr>"
  obtain s' e kids' where r: "wait_children m (tab ?y) p cpu i status rd = Some (s', e)" "proc_inv n m (suspend ?y s' t i e) kids'"
    "wait_done (tab ?y) (kids p) i status e"
    using wait_children_ok [OF P] by blast
  have "suspend ?y s' t i e = suspend x s' t i e"
    by (simp add: suspend_def)
  moreover have "wait_done (tab ?y) (kids p) i status e = wait_done (tab x) (kids p) i status e"
    unfolding wait_done_def by (rule bex_cong) (use c in \<open>simp_all add: pcb_part_def\<close>)
  ultimately show ?thesis
    using r unfolding wait_good_def by auto
qed

lemma waitpid_ok:
  assumes I: "proc_inv n m x kids" and cur: "cpu_thread (sched (tab x)) cpu = Some t" "t_proc (tab x) t = Some p"
    and u: "\<And>v. t_proc (tab x) v = Some p \<Longrightarrow> susp x v = None" and i: "i \<noteq> 0"
  shows "waitpid m (tab x) cpu i status rd = Some (tab x, Returned (-1) None) \<and> (kids p = [] \<or> p_killed (tab x) p) \<or>
    wait_good n m x kids p t (if i < -1 then - i else i) status (waitpid m (tab x) cpu i status rd)"
proof -
  let ?s = "tab x" and ?S = "wait_parent (tab x) p" and ?i = "if i < -1 then - i else i"
  note D = invD [OF I [unfolded proc_inv_def]]
  have p: "p < m" "proc_current ?s cpu = Some p" "?i \<noteq> 0"
    using thread_invD(1) [OF D(7) cur(2)] cur i by (simp_all add: proc_current_def)
  show ?thesis
  proof (cases "nochildren ?s p \<or> proc_killed ?s p")
    case True
    then show ?thesis
      using p familyD(4) [OF tree_invD(2) [OF D(3)], of p] by (auto simp: waitpid_def nochildren_def proc_killed_def)
  next
    case False
    note S = sems_okD [OF D(5) p(1)]
    have w: "sem_cond ?S < next_wq (sched ?s)"
      using S(1) p(1) D(2) by (simp add: chan_parent_def)
    have "wait_good n m x kids p t ?i status (waitpid m ?s cpu i status rd)"
      using wait_cases [OF D(1) w cur(1), of rd]
    proof (elim disjE exE conjE)
      fix S' assume r: "sema_wait (sched ?s) ?S cpu 0 rd = Some (sched ?s, S', Passed)" "tokens S' = tokens ?S - 1"
        "sem_cond S' = sem_cond ?S" "sem_wakeup S' = sem_wakeup ?S"
      have "passed_inv n m (x\<lparr>tab := ?s\<lparr>sched := sched ?s, wait_parent := (wait_parent ?s)(p := S')\<rparr>\<rparr>) kids p cpu t"
        by (rule token_taken [OF I cur u calm_refl [OF D(1)] r(2,3)]) (use S(3) r(4) in auto)
      from passed_good [OF this refl, of ?i status rd] show ?thesis
        using r(1) p False by (simp add: waitpid_def Let_def)
    next
      fix k S' assume r: "sema_wait (sched ?s) ?S cpu 0 rd = Some (k, S', Blocked)" "tokens S' = tokens ?S"
        "stir n {(sem_cond ?S, t)} (sched ?s) k" "sem_cond S' = sem_cond ?S" "sem_wakeup S' = sem_wakeup ?S"
      have "proc_inv n m (suspend x (?s\<lparr>sched := k, wait_parent := (wait_parent ?s)(p := S')\<rparr>) t ?i On_parent) kids"
        by (rule thread_sleeps [OF I cur u _ r(2,4)]) (use S r(3,5) in auto)
      then show ?thesis
        using r(1) p False by (auto simp: waitpid_def Let_def wait_good_def)
    qed
    then show ?thesis by blast
  qed
qed

text \<open>A thread that sleeps in \<open>waitpid\<close> runs again.\<close>

definition awaken :: "psys \<Rightarrow> nat \<Rightarrow> psys" where "awaken x t = \<lparr>tab = tab x, susp = (susp x)(t := None)\<rparr>"

lemma awaken_sel [simp]: "tab (awaken x t) = tab x" "susp (awaken x t) = (susp x)(t := None)"
  "suspend (awaken x t) s t i e = suspend x s t i e"
  by (simp_all add: awaken_def suspend_def)

lemma awaken_ok:
  assumes I: "inv_with n m hld x kids" and cur: "cpu_thread (sched (tab x)) cpu = Some t" "t_proc (tab x) t = Some p" and s: "susp x t = Some w"
  shows "inv_with n m hld (awaken x t) kids" "t_proc (tab x) v = Some p \<Longrightarrow> susp (awaken x t) v = None"
    "\<not> for_child (Some w) \<Longrightarrow> held (awaken x t) = held x" "for_child (Some w) \<Longrightarrow> held x = (held (awaken x t))(p := 1)"
proof -
  note D = invD [OF I]
  have one: "susp x v = None" if "t_proc (tab x) v = Some p" "v \<noteq> t" for v
    using susp_invD(2) [OF D(8), of v t] that s cur(2) by (metis option.distinct(1))
  then show "t_proc (tab x) v = Some p \<Longrightarrow> susp (awaken x t) v = None"
    by simp
  have "t \<notin> set (qlist (sched (tab x)) (WQ w))" for w
    by (rule running_not_queued(2) [OF D(1) cur(1)])
  then have "queue_inv m (awaken x t)"
    using D(9) unfolding queue_inv_def by auto
  moreover have "susp_inv m (awaken x t) kids"
    using D(8) unfolding susp_inv_def by auto
  ultimately show "inv_with n m hld (awaken x t) kids"
    using D unfolding inv_with_def by simp
  have "for_child (((susp x)(t := None)) v) = for_child (susp x v)" if "\<not> for_child (Some w)" for v
    using that s by (cases "v = t") (auto simp: for_child_def)
  then show "\<not> for_child (Some w) \<Longrightarrow> held (awaken x t) = held x"
    unfolding awaken_def by (intro held_cong) simp_all
  show "for_child (Some w) \<Longrightarrow> held x = (held (awaken x t))(p := 1)"
  proof
    fix q assume f: "for_child (Some w)"
    show "held x q = ((held (awaken x t))(p := 1)) q"
    proof (cases "q = p")
      case True
      then show ?thesis
        using f s cur(2) unfolding held_def by auto
    next
      case False
      then have "(\<exists>v. t_proc (tab x) v = Some q \<and> for_child (susp x v)) \<longleftrightarrow>
        (\<exists>v. t_proc (tab x) v = Some q \<and> for_child (((susp x)(t := None)) v))"
        using cur(2) by (metis fun_upd_other option.inject)
      then show ?thesis
        using False by (simp add: held_def)
    qed
  qed
qed

lemma waitpid_resume_ok:
  assumes I: "proc_inv n m x kids" and cur: "cpu_thread (sched (tab x)) cpu = Some t" "t_proc (tab x) t = Some p"
    and s: "susp x t = Some (i, On_parent)" and nk: "\<not> t_killed (sched (tab x)) t"
  shows "wait_good n m x kids p t i status (waitpid_resume m (tab x) cpu i status ok rd)"
proof -
  let ?s = "tab x" and ?S = "wait_parent (tab x) p" and ?y = "awaken x t"
  note A = awaken_ok [OF I [unfolded proc_inv_def] cur s]
  have Y: "proc_inv n m ?y kids"
    using A(1,3) by (simp add: proc_inv_def for_child_def)
  note D = invD [OF Y [unfolded proc_inv_def], simplified]
  have cy: "cpu_thread (sched (tab ?y)) cpu = Some t" "t_proc (tab ?y) t = Some p"
    using cur by simp_all
  have uy: "susp ?y v = None" if "t_proc (tab ?y) v = Some p" for v
    using A(2) that by simp
  have p: "p < m"
    using thread_invD(1) [OF D(7) cur(2)] .
  note S = sems_okD [OF D(5) p]
  have w: "sem_cond ?S < next_wq (sched ?s)"
    using S(1) p D(2) by (simp add: chan_parent_def)
  show ?thesis
    using resume_cases [OF D(1) w cur(1) nk, of rd]
  proof (elim disjE exE conjE)
    fix k S' assume r: "sema_wait_resume (sched ?s) ?S cpu 0 rd = Some (k, S', Passed)" "calm n (sched ?s) k" "tokens S' = tokens ?S - 1"
      "sem_wakeup ?S \<noteq> 0" "sem_cond S' = sem_cond ?S" "sem_wakeup S' = sem_wakeup ?S - 1"
    have c: "calm n (sched (tab ?y)) k" "pcb_part k = pcb_part (sched (tab ?y))"
      using r(2) by (simp_all add: calm_def)
    have "passed_inv n m (?y\<lparr>tab := (tab ?y)\<lparr>sched := k, wait_parent := (wait_parent (tab ?y))(p := S')\<rparr>\<rparr>) kids p cpu t"
      by (rule token_taken [OF Y cy uy c(1)]) (use r S(3) in auto)
    from passed_good [OF this c(2), of i status rd] show ?thesis
      using r(1) cur nk by (simp add: waitpid_resume_def wait_good_def)
  next
    fix k assume r: "sema_wait_resume (sched ?s) ?S cpu 0 rd = Some (k, ?S, Blocked)" "stir n {(sem_cond ?S, t)} (sched ?s) k"
    have "proc_inv n m (suspend ?y ((tab ?y)\<lparr>sched := k, wait_parent := (wait_parent (tab ?y))(p := ?S)\<rparr>) t i On_parent) kids"
      by (rule thread_sleeps [OF Y cy uy]) (use S r(2) in auto)
    then show ?thesis
      using r(1) cur nk by (auto simp: waitpid_resume_def wait_good_def)
  qed
qed

lemma waitpid_resume_child_ok:
  assumes I: "proc_inv n m x kids" and cur: "cpu_thread (sched (tab x)) cpu = Some t" "t_proc (tab x) t = Some p"
    and s: "susp x t = Some (i, On_child (Some d) nxt fc)" and nk: "\<not> t_killed (sched (tab x)) t"
  shows "\<exists>s' e kids'. waitpid_resume_child m (tab x) cpu i status ok rd (Some d) nxt fc = Some (s', e) \<and>
    proc_inv n m (suspend x s' t i e) kids' \<and> (e = On_child (Some d) nxt fc \<or> wait_done (tab x) [d] i status e)"
proof -
  let ?s = "tab x" and ?S = "wait_self (tab x) d" and ?y = "awaken x t"
  note A = awaken_ok [OF I [unfolded proc_inv_def] cur s]
  have Y: "passed_inv n m ?y kids p cpu t"
    using A(1,2,4) cur by (simp add: passed_inv_def for_child_def)
  then have YI: "inv_with n m ((held ?y)(p := 1)) ?y kids"
    by (simp add: passed_inv_def)
  note D = invD [OF YI, simplified]
  have d: "d \<in> set (kids p)"
    using susp_invD(1) [OF invD(8) [OF I [unfolded proc_inv_def]] s] cur(2) by auto
  note w = child_sem [OF YI d, simplified]
  show ?thesis
    using resume_cases [OF D(1) w(1) cur(1) nk, of rd]
  proof (elim disjE exE conjE)
    fix k S' assume r: "sema_wait_resume (sched ?s) ?S cpu 0 rd = Some (k, S', Passed)" "calm n (sched ?s) k" "sem_wakeup ?S \<noteq> 0"
      "sem_cond S' = sem_cond ?S" "sem_wakeup S' = sem_wakeup ?S - 1"
    have z: "p_state (sched ?s) d = PCB_ZOMBIE"
      by (rule w(4)) (use r(3) w(3) in \<open>simp add: tokens_def\<close>)
    let ?z = "?y\<lparr>tab := (tab ?y)\<lparr>sched := k, wait_self := (wait_self (tab ?y))(d := S')\<rparr>\<rparr>"
    have P: "passed_inv n m ?z kids p cpu t"
      by (rule self_taken [OF Y]) (use z r w(3) in auto)
    have pk: "p_state k = p_state (sched ?s)"
      using calm_p_state [OF r(2)] .
    obtain s' e kids' where R: "reap (tab ?z) p d status = Some (s', e)" "proc_inv n m (suspend ?z s' t i e) kids'"
      using passed_reap [OF P d, of status i] z pk by auto
    have "wait_done ?s [d] i status e"
      using R(1) z by (auto simp: reap_def wait_done_def Let_def Option.bind_eq_Some_conv split: if_splits)
    moreover have "suspend ?z s' t i e = suspend x s' t i e"
      by (simp add: suspend_def)
    ultimately show ?thesis
      using R r(1) cur nk z pk by (intro exI [of _ s'] exI [of _ e] exI [of _ kids']) (simp add: waitpid_resume_child_def)
  next
    fix k assume r: "sema_wait_resume (sched ?s) ?S cpu 0 rd = Some (k, ?S, Blocked)" "stir n {(sem_cond ?S, t)} (sched ?s) k"
    have "proc_inv n m (suspend ?y ((tab ?y)\<lparr>sched := k, wait_self := (wait_self (tab ?y))(d := ?S)\<rparr>) t i (On_child (Some d) nxt fc)) kids"
      by (rule child_sleeps [OF Y d]) (use w r(2) in auto)
    then show ?thesis
      using r(1) cur nk by (auto simp: waitpid_resume_child_def)
  qed
qed

end
