(* ===== verification/ProcExit.thy ===== *)
theory ProcExit
  imports ProcLife
begin

text \<open>
  \<open>do_exit\<close> keeps the invariant of theory \<open>ProcLife\<close>: when the last thread of a process exits, init takes over its children
  with a token for each zombie, the process becomes a zombie and its parent gets a token.
\<close>

subsection \<open>The process becomes a zombie\<close>

definition handed :: "(nat \<Rightarrow> nat list) \<Rightarrow> nat \<Rightarrow> nat \<Rightarrow> nat \<Rightarrow> nat list" where
  "handed kids p init = kids(p := [], init := kids init @ kids p)"

lemma handed_mem: "init \<noteq> p \<Longrightarrow> c \<in> set (handed kids p init r) \<longleftrightarrow> (if r = p then False else if r = init then c \<in> set (kids init) \<union> set (kids p) else c \<in> set (kids r))"
  by (auto simp: handed_def)

text \<open>What \<open>exit_process\<close> does; \<open>q\<close> is the parent that is signalled.\<close>

definition exited :: "nat \<Rightarrow> nat \<Rightarrow> nat \<Rightarrow> nat \<Rightarrow> nat \<Rightarrow> (nat \<Rightarrow> nat list) \<Rightarrow> ptab \<Rightarrow> ptab \<Rightarrow> bool" where
  "exited n m p q init kids s s' \<longleftrightarrow>
     (\<exists>k h f wp ws st. s' = s\<lparr>sched := k, sib := h, first_child := f, parent := (\<lambda>c. if c \<in> set (kids p) then Some init else parent s c),
          exit_state := (exit_state s)(p := st), wait_parent := wp, wait_self := ws\<rparr>) \<and>
     family s' (handed kids p init) \<and> dom (sib s') = dom (sib s) \<and> sched_inv n (sched s') \<and> pcb_ok m (sched s') \<and>
     p_state (sched s') = (p_state (sched s))(p := PCB_ZOMBIE) \<and> stage (sched s') = stage (sched s) \<and>
     cpu_thread (sched s') = cpu_thread (sched s) \<and> next_wq (sched s') = next_wq (sched s) \<and>
     (\<forall>w. set (qlist (sched s') (WQ w)) \<subseteq> set (qlist (sched s) (WQ w))) \<and>
     (\<forall>r. tokens (wait_parent s' r) = tokens (wait_parent s r) + (if r = init then zombies (sched s) (kids p) else 0) + (if r = q then 1 else 0) \<and>
        sem_cond (wait_parent s' r) = sem_cond (wait_parent s r) \<and> sem_wakeup (wait_parent s r) \<le> sem_wakeup (wait_parent s' r)) \<and>
     (\<forall>r. r \<noteq> p \<longrightarrow> wait_self s' r = wait_self s r) \<and>
     sem_cond (wait_self s' p) = sem_cond (wait_self s p) \<and> sem_wakeup (wait_self s p) \<le> sem_wakeup (wait_self s' p)"

lemma exit_process_ok:
  assumes tree: "tree_inv m s kids" and inv: "sched_inv n (sched s)" and i: "initproc s = Some init" "init \<noteq> p"
    and p: "p < m" "\<exists>q. p \<in> set (kids q)"
  shows "\<exists>s' q. exit_process m s p status = Some s' \<and> p \<in> set (handed kids p init q) \<and> exited n m p q init kids s s' \<and>
    exit_state s' p = push_bit 8 status"
proof -
  note T = tree_invD [OF tree]
  have "set (kids p) \<subseteq> {..<m}"
    using T(9) by auto
  then have "length (kids p) \<le> m"
    using familyD(3) [OF T(2), of p] by (metis card_lessThan card_mono distinct_card finite_lessThan)
  from reparent_ok [OF T(2) i inv this] obtain s1 where 1: "reparent m s p = Some s1" "adopted n init (kids p) s s1"
    "family s1 (handed kids p init)"
    unfolding handed_def by blast
  obtain k h f S where a: "s1 = s\<lparr>sched := k, sib := h, first_child := f, parent := (\<lambda>c. if c \<in> set (kids p) then Some init else parent s c),
      wait_parent := (wait_parent s)(init := S)\<rparr>" "calm n (sched s) k" "dom h = dom (sib s)" "sem_cond S = sem_cond (wait_parent s init)"
    "sem_wakeup (wait_parent s init) \<le> sem_wakeup S" "tokens S = tokens (wait_parent s init) + zombies (sched s) (kids p)"
    using 1(2) unfolding adopted_def by blast
  have k: "sched_inv n k" "pcb_part k = pcb_part (sched s)" "cpu_thread k = cpu_thread (sched s)" "next_wq k = next_wq (sched s)"
    "stage k = stage (sched s)" "\<And>w. set (qlist k (WQ w)) \<subseteq> set (qlist (sched s) (WQ w))"
    using a(2) by (simp_all add: calm_def)
  have pk: "pcb_ok m k"
    using T(1) pcb_ok_cong [OF k(2)] by simp
  obtain k2 where 2: "PCB_Q_changeState k p PCB_ZOMBIE = Some k2" "sched_inv n k2" "pcb_ok m k2" "p_state k2 = (p_state k)(p := PCB_ZOMBIE)"
    "next_wq k2 = next_wq k" "cpu_thread k2 = cpu_thread k" "stage k2 = stage k" "\<And>w. qlist k2 (WQ w) = qlist k (WQ w)"
    using change_proc_ok [OF k(1) pk p(1), of k PCB_ZOMBIE] by blast
  obtain q where q: "p \<in> set (handed kids p init q)" "parent s1 p = Some q"
  proof (cases "p \<in> set (kids p)")
    case True
    then show ?thesis
      using that [of init] handed_mem [OF i(2), of p kids init] i(2) a(1) by simp
  next
    case False
    obtain q where "p \<in> set (kids q)"
      using p(2) by blast
    moreover then have "parent s p = Some q" "q \<noteq> p"
      using T(4) False by auto
    ultimately show ?thesis
      using that [of q] handed_mem [OF i(2), of p kids q] False a(1) by (auto split: if_splits)
  qed
  let ?s2 = "s1\<lparr>sched := k2, exit_state := (exit_state s1)(p := push_bit 8 status)\<rparr>"
  obtain k3 S3 where 3: "signal_parent ?s2 q = Some (?s2\<lparr>sched := k3, wait_parent := (wait_parent ?s2)(q := S3)\<rparr>)" "calm n k2 k3"
    "tokens S3 = tokens (wait_parent ?s2 q) + 1" "sem_cond S3 = sem_cond (wait_parent ?s2 q)" "sem_wakeup (wait_parent ?s2 q) \<le> sem_wakeup S3"
    using signal_parent_ok [of n ?s2 q] 2(2) by auto
  let ?s3 = "?s2\<lparr>sched := k3, wait_parent := (wait_parent ?s2)(q := S3)\<rparr>"
  have i3: "sched_inv n (sched ?s3)"
    using 3(2) by (simp add: calm_def)
  obtain k4 S4 where 4: "signal_self ?s3 p = Some (?s3\<lparr>sched := k4, wait_self := (wait_self ?s3)(p := S4)\<rparr>)" "calm n k3 k4"
    "sem_cond S4 = sem_cond (wait_self ?s3 p)" "sem_wakeup (wait_self ?s3 p) \<le> sem_wakeup S4"
    using signal_self_ok [OF i3, of p] by auto
  let ?s4 = "?s3\<lparr>sched := k4, wait_self := (wait_self ?s3)(p := S4)\<rparr>"
  have run: "exit_process m s p status = Some ?s4"
    using i 1(1) 2(1) q(2) 3(1) 4(1) a(1) by (simp add: exit_process_def)
  have c: "calm n k2 k4"
    by (rule calm_trans [OF 3(2) 4(2)])
  then have k4: "sched_inv n k4" "pcb_ok m k4" "p_state k4 = (p_state (sched s))(p := PCB_ZOMBIE)" "stage k4 = stage (sched s)"
    "cpu_thread k4 = cpu_thread (sched s)" "next_wq k4 = next_wq (sched s)" "\<And>w. set (qlist k4 (WQ w)) \<subseteq> set (qlist (sched s) (WQ w))"
    using k 2 pcb_ok_cong [of k4 k2 m] calm_p_state [OF a(2)] calm_p_state [OF c] unfolding calm_def by (auto; blast)+
  have "exited n m p q init kids s ?s4"
    unfolding exited_def
  proof (intro conjI)
    show "\<exists>k h f wp ws st. ?s4 = s\<lparr>sched := k, sib := h, first_child := f, parent := (\<lambda>c. if c \<in> set (kids p) then Some init else parent s c),
          exit_state := (exit_state s)(p := st), wait_parent := wp, wait_self := ws\<rparr>"
      by (intro exI [of _ k4] exI [of _ h] exI [of _ f] exI [of _ "wait_parent ?s4"] exI [of _ "wait_self ?s4"] exI [of _ "push_bit 8 status"])
        (simp add: a(1))
    show "\<forall>r. tokens (wait_parent ?s4 r) = tokens (wait_parent s r) + (if r = init then zombies (sched s) (kids p) else 0) + (if r = q then 1 else 0) \<and>
        sem_cond (wait_parent ?s4 r) = sem_cond (wait_parent s r) \<and> sem_wakeup (wait_parent s r) \<le> sem_wakeup (wait_parent ?s4 r)"
      using 3(3-5) a(1,4-6) by auto
    show "family ?s4 (handed kids p init)"
      using 1(3) by simp
  qed (use a(1,3) k4 4(3,4) in simp_all)
  then show ?thesis
    using run q(1) by (intro exI [of _ ?s4] exI [of _ q]) simp
qed

lemma exitedD:
  assumes "exited n m p q init kids s s'"
  shows "family s' (handed kids p init)" "dom (sib s') = dom (sib s)" "sched_inv n (sched s')" "pcb_ok m (sched s')"
    "p_state (sched s') = (p_state (sched s))(p := PCB_ZOMBIE)" "stage (sched s') = stage (sched s)"
    "cpu_thread (sched s') = cpu_thread (sched s)" "next_wq (sched s') = next_wq (sched s)"
    "set (qlist (sched s') (WQ w)) \<subseteq> set (qlist (sched s) (WQ w))"
    "tokens (wait_parent s' r) = tokens (wait_parent s r) + (if r = init then zombies (sched s) (kids p) else 0) + (if r = q then 1 else 0)"
    "sem_cond (wait_parent s' r) = sem_cond (wait_parent s r)" "sem_wakeup (wait_parent s r) \<le> sem_wakeup (wait_parent s' r)"
    "r \<noteq> p \<Longrightarrow> wait_self s' r = wait_self s r" "sem_cond (wait_self s' p) = sem_cond (wait_self s p)"
    "sem_wakeup (wait_self s p) \<le> sem_wakeup (wait_self s' p)"
    "parent s' c = (if c \<in> set (kids p) then Some init else parent s c)" "initproc s' = initproc s" "t_proc s' = t_proc s"
    "thread_cnt s' = thread_cnt s" "pid s' = pid s" "pid_map s' = pid_map s" "next_pid s' = next_pid s"
  using assms unfolding exited_def by auto

lemma zombies_simps: "zombies k [] = 0" "zombies k (c # ps) = (if p_state k c = PCB_ZOMBIE then 1 else 0) + zombies k ps"
  by (simp_all add: zombies_def)

lemma zombies_new:
  assumes "distinct ps" "p_state k' = (p_state k)(p := PCB_ZOMBIE)" "p_state k p \<noteq> PCB_ZOMBIE"
  shows "zombies k' ps = zombies k ps + (if p \<in> set ps then 1 else 0)"
  using assms by (induction ps) (auto simp: zombies_simps)

lemma zombies_append: "zombies k (xs @ ys) = zombies k xs + zombies k ys"
  by (simp add: zombies_def)

lemma exited_tree:
  assumes tree: "tree_inv m s kids" and E: "exited n m p q init kids s s'" and i: "initproc s = Some init" "init \<noteq> p"
    and q: "p \<in> set (handed kids p init q)"
  shows "tree_inv m s' (handed kids p init)"
proof -
  note T = tree_invD [OF tree] and X = exitedD [OF E] and mem = handed_mem [OF i(2)]
  have ii: "init < m" "p_state (sched s) init = PCB_USED"
    using T(11) i(1) by auto
  show ?thesis
    unfolding tree_inv_def X(5,17)
  proof (intro conjI allI impI)
    fix r c assume c: "c \<in> set (handed kids p init r)"
    then consider "r \<noteq> p" "c \<in> set (kids r)" | "r = init" "c \<in> set (kids p)"
      by (auto simp: mem split: if_splits)
    then show "parent s' c = Some r" "((p_state (sched s))(p := PCB_ZOMBIE)) c \<noteq> PCB_UNUSED"
      "((p_state (sched s))(p := PCB_ZOMBIE)) r = PCB_USED" "r < m" "initproc s \<noteq> Some c"
      using T(4-8) ii i familyD(2) [OF T(2), of c r p] X(16) [of c] by (cases; auto)+
  next
    fix c assume c: "c < m" "((p_state (sched s))(p := PCB_ZOMBIE)) c = PCB_ZOMBIE"
    show "\<exists>r. c \<in> set (handed kids p init r)"
    proof (cases "c = p")
      case False
      then obtain r where "c \<in> set (kids r)"
        using T(10) c by auto
      then show ?thesis
        using i(2) by (intro exI [of _ "if r = p then init else r"]) (auto simp: mem)
    qed (use q in blast)
  next
    show "\<exists>j<m. initproc s = Some j \<and> ((p_state (sched s))(p := PCB_ZOMBIE)) j = PCB_USED"
      using ii i by auto
  qed (use X(1,2,4) T(3) in auto)
qed

lemma exited_sems:
  assumes "sems_ok m s" and E: "exited n m p q init kids s s'"
  shows "sems_ok m s'"
  unfolding sems_ok_def
proof (intro allI impI)
  note X = exitedD [OF E]
  fix r assume "r < m"
  note S = sems_okD [OF assms(1) this]
  have "sem_cond (wait_self s' r) = chan_self r" "0 \<le> sem_wakeup (wait_self s' r)"
    using S X(13) [of r] X(14,15) by (cases "r = p"; auto)+
  then show "sem_cond (wait_parent s' r) = chan_parent r \<and> sem_cond (wait_self s' r) = chan_self r \<and>
    0 \<le> sem_wakeup (wait_parent s' r) \<and> 0 \<le> sem_wakeup (wait_self s' r)"
    using S X(11,12) [of r] by auto
qed

lemma exited_tokens:
  assumes tree: "tree_inv m s kids" and tk: "tokens_inv m hld s kids" and E: "exited n m p q init kids s s'"
    and i: "initproc s = Some init" "init \<noteq> p" and q: "p \<in> set (handed kids p init q)" and p: "p_state (sched s) p = PCB_USED"
  shows "tokens_inv m hld s' (handed kids p init)"
  unfolding tokens_inv_def
proof (intro allI impI)
  note T = tree_invD [OF tree] and X = exitedD [OF E]
  fix r assume r: "r < m" "p_state (sched s') r = PCB_USED"
  then have rp: "r \<noteq> p" "p_state (sched s) r = PCB_USED"
    using X(5) by (auto split: if_splits)
  have "zombies (sched s') (handed kids p init r) = zombies (sched s) (handed kids p init r) + (if p \<in> set (handed kids p init r) then 1 else 0)"
    by (rule zombies_new) (use familyD(3) [OF X(1)] X(5) p in auto)
  moreover have "zombies (sched s) (handed kids p init r) = zombies (sched s) (kids r) + (if r = init then zombies (sched s) (kids p) else 0)"
    using rp(1) by (simp add: handed_def zombies_append)
  moreover have "p \<in> set (handed kids p init r) \<longleftrightarrow> r = q"
    using q familyD(2) [OF X(1)] by blast
  ultimately show "tokens (wait_parent s' r) + hld r \<le> zombies (sched s') (handed kids p init r) \<and> tokens (wait_self s' r) = 0"
    using tokens_invD [OF tk r(1) rp(2)] X(10) [of r] X(13) [OF rp(1)] by auto
qed

subsection \<open>The thread leaves\<close>

lemma held_less:
  assumes "\<And>v q. t_proc s v = Some q \<Longrightarrow> for_child (u v) \<Longrightarrow> t_proc (tab x) v = Some q \<and> for_child (susp x v)"
  shows "held \<lparr>tab = s, susp = u\<rparr> q \<le> held x q"
  using assms unfolding held_def by auto

text \<open>Thread \<open>t\<close> is freed; \<open>s\<close> is the table before, in which the other threads and the processes are in order.\<close>

lemma thread_leaves:
  assumes S: "sched_inv n (sched s)" "2 * m \<le> next_wq (sched s)" "tree_inv m s kids" "pid_inv m s" "sems_ok m s" "tokens_inv m hld s kids"
    and cur: "cpu_thread (sched s) cpu = Some t"
    and th: "\<And>v r. v \<noteq> t \<Longrightarrow> t_proc s v = Some r \<Longrightarrow> r < m \<and> v < n \<and> stage (sched s) v \<noteq> 0"
      "\<And>v r. v \<noteq> t \<Longrightarrow> t_proc s v = Some r \<Longrightarrow> stage (sched s) v = 2 \<Longrightarrow>
         p_state (sched s) r = PCB_USED \<and> (initproc s = Some r \<or> (\<exists>q. r \<in> set (kids q)))"
      "\<And>r. r < m \<Longrightarrow> p_state (sched s) r = PCB_USED \<Longrightarrow>
         int (card {v. v \<noteq> t \<and> t_proc s v = Some r \<and> stage (sched s) v = 2}) \<le> thread_cnt s r"
    and su: "\<And>v i e. v \<noteq> t \<Longrightarrow> susp x v = Some (i, e) \<Longrightarrow> \<exists>p. t_proc s v = Some p \<and> stage (sched s) v = 2 \<and>
        (e = On_parent \<or> (\<exists>c nxt fc. e = On_child (Some c) nxt fc \<and> c \<in> set (kids p)))"
    and S0: "susp_inv m x kids0" "queue_inv m x" and tp: "t_proc s = t_proc (tab x)"
    and ql: "\<And>w. set (qlist (sched s) (WQ w)) \<subseteq> set (qlist (sched (tab x)) (WQ w))"
    and hl: "\<And>r. held x r \<le> hld r"
    and k: "sched_inv n k" "pcb_part k = pcb_part (sched s)" "next_wq k = next_wq (sched s)" "stage k = (stage (sched s))(t := 0)"
      "\<And>w. qlist k (WQ w) = qlist (sched s) (WQ w)"
    and y: "y = \<lparr>tab = s\<lparr>sched := k, t_proc := (t_proc s)(t := None), tid := td\<rparr>, susp = (susp x)(t := None)\<rparr>"
  shows "proc_inv n m y kids"
proof -
  let ?s = "s\<lparr>sched := k, t_proc := (t_proc s)(t := None), tid := td\<rparr>"
  have c: "tree_inv m ?s kids" "p_state k = p_state (sched s)" "zombies k ps = zombies (sched s) ps" for ps
    using proc_cong [of ?s s] k(2) S(3) by simp_all
  have t1: "pid_inv m ?s" "sems_ok m ?s"
    using S(4,5) c(2) by (simp_all add: pid_inv_def sems_ok_def)
  have h: "held y r \<le> hld r" for r
  proof -
    have "held y r \<le> held x r"
      unfolding y by (rule held_less) (auto simp: tp for_child_def split: if_splits)
    then show ?thesis using hl [of r] by simp
  qed
  have "tokens_inv m hld ?s kids"
    using S(6) c(2,3) by (simp add: tokens_inv_def)
  then have tk: "tokens_inv m (held y) ?s kids"
    using tokens_inv_mono [of m hld ?s kids "held y"] h by blast
  have ct: "{v. ((t_proc s)(t := None)) v = Some r \<and> ((stage (sched s))(t := 0)) v = 2} =
    {v. v \<noteq> t \<and> t_proc s v = Some r \<and> stage (sched s) v = 2}" for r
    by auto
  have thr: "thread_inv n m ?s kids"
    unfolding thread_inv_def using th c(2) by (simp add: k(4) ct cong: conj_cong)
  have si: "susp_inv m y kids"
    using su susp_invD(2) [OF S0(1)] unfolding y susp_inv_def by (simp add: k(4) tp)
  have tq: "t \<notin> set (qlist (sched s) (WQ w))" for w
    by (rule running_not_queued(2) [OF S(1) cur])
  have "((t_proc s)(t := None)) v = Some p" if "p < m" "v \<in> set (qlist k (WQ (chan_parent p)))" for p v
    using that tq [of "chan_parent p"] ql [of "chan_parent p"] S0(2) unfolding queue_inv_def k(5) tp by (metis fun_upd_other subsetD)
  moreover have "\<exists>i nxt fc. ((susp x)(t := None)) v = Some (i, On_child (Some p) nxt fc)" if "p < m" "v \<in> set (qlist k (WQ (chan_self p)))" for p v
    using that tq [of "chan_self p"] ql [of "chan_self p"] S0(2) unfolding queue_inv_def k(5) by (metis fun_upd_other subsetD)
  ultimately have "queue_inv m y"
    unfolding queue_inv_def y by simp
  then show ?thesis
    unfolding proc_inv_def inv_with_def using k(1,3) S(2) c(1) t1 tk thr si by (simp add: y)
qed

lemma finite_threads: "thread_inv n m s kids \<Longrightarrow> finite {v. t_proc s v = Some p \<and> stage (sched s) v = 2}"
  by (rule finite_subset [of _ "{..<n}"]) (auto dest: thread_invD(2))

lemma exit_wakeup_ok:
  assumes "sched_inv n (sched s)" "clear_child_tid s t = 0 \<or> ok"
  obtains k where "exit_wakeup s t ok = Some (s\<lparr>sched := k\<rparr>)" "calm n (sched s) k"
proof (cases "clear_child_tid s t = 0")
  case True
  then show ?thesis
    using that [of "sched s"] calm_refl [OF assms(1)] by (simp add: exit_wakeup_def)
next
  case False
  obtain k r where "futex_wakeup (sched s) (clear_child_tid s t) 1 = Some (k, r)" "calm n (sched s) k"
    using futex_wakeup_calm [OF assms(1)] by blast
  then show ?thesis
    using that [of k] False assms(2) by (simp add: exit_wakeup_def)
qed

text \<open>The thread count of \<open>p\<close> without the thread \<open>t\<close>; if it is 0, no other thread of \<open>p\<close> has been started.\<close>

lemma rest_threads:
  assumes th: "thread_inv n m s kids" and t: "t_proc s t = Some p" "stage (sched s) t = 2" and r: "r < m" "p_state (sched s) r = PCB_USED"
  shows "int (card {v. v \<noteq> t \<and> t_proc s v = Some r \<and> stage (sched s) v = 2}) \<le> ((thread_cnt s)(p := thread_cnt s p - 1)) r"
proof (cases "r = p")
  case True
  let ?A = "{v. t_proc s v = Some p \<and> stage (sched s) v = 2}"
  have "{v. v \<noteq> t \<and> t_proc s v = Some r \<and> stage (sched s) v = 2} = ?A - {t}" "t \<in> ?A"
    using True t by auto
  moreover have "card ?A = Suc (card (?A - {t}))"
    by (rule card.remove [OF finite_threads [OF th] \<open>t \<in> ?A\<close>])
  ultimately show ?thesis
    using thread_invD(6) [OF th r] True by simp
next
  case False
  then have "{v. v \<noteq> t \<and> t_proc s v = Some r \<and> stage (sched s) v = 2} = {v. t_proc s v = Some r \<and> stage (sched s) v = 2}"
    using t(1) by auto
  then show ?thesis
    using thread_invD(6) [OF th r] False by simp
qed

lemma last_thread:
  assumes th: "thread_inv n m s kids" and t: "t_proc s t = Some p" "stage (sched s) t = 2" and last: "thread_cnt s p = 1"
    and v: "v \<noteq> t" "t_proc s v = Some r" "stage (sched s) v = 2"
  shows "r \<noteq> p"
proof
  assume r: "r = p"
  have "finite {v. v \<noteq> t \<and> t_proc s v = Some p \<and> stage (sched s) v = 2}"
    by (rule finite_subset [OF _ finite_threads [OF th, of p]]) auto
  moreover have "card {v. v \<noteq> t \<and> t_proc s v = Some p \<and> stage (sched s) v = 2} = 0"
    using rest_threads [OF th t, of p] thread_invD(1,4) [OF th t(1)] t(2) last by simp
  ultimately show False
    using v r by auto
qed

text \<open>The last thread leaves: \<open>s1\<close> is the table after the wake-up and the decrement, \<open>s2\<close> that after \<open>exit_process\<close>.\<close>

lemma last_thread_leaves:
  assumes I: "proc_inv n m x kids" and cur: "cpu_thread (sched (tab x)) cpu = Some t" "t_proc (tab x) t = Some p"
    and last: "thread_cnt (tab x) p = 1" and i: "initproc (tab x) = Some init" "init \<noteq> p" and calm: "calm n (sched (tab x)) k0"
    and s1: "s1 = (tab x)\<lparr>sched := k0, thread_cnt := (thread_cnt (tab x))(p := thread_cnt (tab x) p - 1)\<rparr>"
    and E: "exited n m p q init kids s1 s2" "p \<in> set (handed kids p init q)"
    and k: "sched_inv n k" "pcb_part k = pcb_part (sched s2)" "next_wq k = next_wq (sched s2)" "stage k = (stage (sched s2))(t := 0)"
      "\<And>w. qlist k (WQ w) = qlist (sched s2) (WQ w)"
  shows "proc_inv n m \<lparr>tab = s2\<lparr>sched := k, t_proc := (t_proc s2)(t := None), tid := td\<rparr>, susp = (susp x)(t := None)\<rparr> (handed kids p init)"
proof -
  let ?s = "tab x"
  note D = invD [OF I [unfolded proc_inv_def]] and X = exitedD [OF E(1)]
  note H = thread_invD [OF D(7)]
  have k0: "pcb_part k0 = pcb_part (sched ?s)" "next_wq k0 = next_wq (sched ?s)" "stage k0 = stage (sched ?s)"
    "cpu_thread k0 = cpu_thread (sched ?s)" "\<And>w. set (qlist k0 (WQ w)) \<subseteq> set (qlist (sched ?s) (WQ w))"
    using calm by (simp_all add: calm_def)
  have c: "tree_inv m s1 kids" "p_state k0 = p_state (sched ?s)" "zombies k0 ps = zombies (sched ?s) ps" for ps
    using proc_cong [of s1 ?s] k0(1) D(3) by (simp_all add: s1)
  have st: "stage (sched ?s) t = 2"
    by (rule running_stage [OF D(1) cur(1)])
  have pu: "p_state (sched s1) p = PCB_USED" and i1: "initproc s1 = Some init"
    using H(4) [OF cur(2) st] c(2) i(1) by (simp_all add: s1)
  have t1: "pid_inv m s1" "sems_ok m s1" "tokens_inv m (held x) s1 kids"
    using D c(2,3) by (simp_all add: s1 pid_inv_def sems_ok_def tokens_inv_def)
  note only = last_thread [OF D(7) cur(2) st last]
  have keep: "\<exists>q. c \<in> set (handed kids p init q)" if "c \<in> set (kids r)" for c r
    using that by (intro exI [of _ "if r = p then init else r"]) (use i(2) in \<open>auto simp: handed_mem\<close>)
  show ?thesis
  proof (rule thread_leaves [OF X(3) _ exited_tree [OF c(1) E(1) i1 i(2) E(2)] _ exited_sems [OF t1(2) E(1)]
        exited_tokens [OF c(1) t1(3) E(1) i1 i(2) E(2) pu] _ _ _ _ _ D(8,9) _ _ _ _ _ _ _ _ refl])
    show "\<exists>r. t_proc s2 v = Some r \<and> stage (sched s2) v = 2 \<and>
        (e = On_parent \<or> (\<exists>c nxt fc. e = On_child (Some c) nxt fc \<and> c \<in> set (handed kids p init r)))"
      if v: "v \<noteq> t" "susp x v = Some (j, e)" for v j e
    proof -
      obtain r where r: "t_proc ?s v = Some r" "stage (sched ?s) v = 2" "e = On_parent \<or> (\<exists>c nxt fc. e = On_child (Some c) nxt fc \<and> c \<in> set (kids r))"
        using susp_invD(1) [OF D(8) v(2)] by blast
      have "c \<in> set (handed kids p init r)" if "c \<in> set (kids r)" for c
        using that only [OF v(1) r(1,2)] handed_mem [OF i(2), of c kids r] by (auto split: if_splits)
      then show ?thesis
        using r X(6,18) k0(3) by (auto simp: s1)
    qed
    show "p_state (sched s2) r = PCB_USED \<and> (initproc s2 = Some r \<or> (\<exists>q. r \<in> set (handed kids p init q)))"
      if v: "v \<noteq> t" "t_proc s2 v = Some r" "stage (sched s2) v = 2" for v r
    proof -
      have v': "t_proc ?s v = Some r" "stage (sched ?s) v = 2"
        using v X(6,18) k0(3) by (auto simp: s1)
      show ?thesis
        using H(4,5) [OF v'] only [OF v(1) v'] keep X(5,17) c(2) by (auto simp: s1)
    qed
    show "int (card {v. v \<noteq> t \<and> t_proc s2 v = Some r \<and> stage (sched s2) v = 2}) \<le> thread_cnt s2 r"
      if "r < m" "p_state (sched s2) r = PCB_USED" for r
      using rest_threads [OF D(7) cur(2) st that(1)] that(2) X(5,6,18,19) k0(3) c(2) by (simp add: s1 split: if_splits)
    show "pid_inv m s2"
      using t1(1) X(5,20,21,22) pu by (auto simp: pid_inv_def)
    show "set (qlist (sched s2) (WQ w)) \<subseteq> set (qlist (sched ?s) (WQ w))" for w
      using X(9) [of w] k0(5) [of w] by (auto simp: s1)
  qed (use k k0 X H(1-3) D(2) cur(1) in \<open>auto simp: s1\<close>)
qed

text \<open>Another thread leaves.\<close>

lemma one_thread_leaves:
  assumes I: "proc_inv n m x kids" and cur: "cpu_thread (sched (tab x)) cpu = Some t" "t_proc (tab x) t = Some p"
    and calm: "calm n (sched (tab x)) k0"
    and s1: "s1 = (tab x)\<lparr>sched := k0, thread_cnt := (thread_cnt (tab x))(p := thread_cnt (tab x) p - 1)\<rparr>"
    and k: "sched_inv n k" "pcb_part k = pcb_part k0" "next_wq k = next_wq k0" "stage k = (stage k0)(t := 0)"
      "\<And>w. qlist k (WQ w) = qlist k0 (WQ w)"
  shows "proc_inv n m \<lparr>tab = s1\<lparr>sched := k, t_proc := (t_proc s1)(t := None), tid := td\<rparr>, susp = (susp x)(t := None)\<rparr> kids"
proof -
  let ?s = "tab x"
  note D = invD [OF I [unfolded proc_inv_def]]
  note H = thread_invD [OF D(7)]
  have k0: "sched_inv n k0" "pcb_part k0 = pcb_part (sched ?s)" "next_wq k0 = next_wq (sched ?s)" "stage k0 = stage (sched ?s)"
    "cpu_thread k0 = cpu_thread (sched ?s)" "\<And>w. set (qlist k0 (WQ w)) \<subseteq> set (qlist (sched ?s) (WQ w))"
    using calm by (simp_all add: calm_def)
  have c: "tree_inv m s1 kids" "p_state k0 = p_state (sched ?s)" "zombies k0 ps = zombies (sched ?s) ps" for ps
    using proc_cong [of s1 ?s] k0(2) D(3) by (simp_all add: s1)
  have t1: "sched_inv n (sched s1)" "2 * m \<le> next_wq (sched s1)" "pid_inv m s1" "sems_ok m s1" "tokens_inv m (held x) s1 kids"
    using k0 D c(2,3) by (simp_all add: s1 pid_inv_def sems_ok_def tokens_inv_def)
  show ?thesis
  proof (rule thread_leaves [OF t1(1,2) c(1) t1(3,4,5) _ _ _ _ _ D(8,9) _ _ _ _ _ _ _ _ refl])
    show "\<exists>p. t_proc s1 v = Some p \<and> stage (sched s1) v = 2 \<and>
        (e = On_parent \<or> (\<exists>c nxt fc. e = On_child (Some c) nxt fc \<and> c \<in> set (kids p)))" if "susp x v = Some (i, e)" for v i e
      using susp_invD(1) [OF D(8) that] k0(4) by (simp add: s1)
    show "p_state (sched s1) r = PCB_USED \<and> (initproc s1 = Some r \<or> (\<exists>q. r \<in> set (kids q)))"
      if "t_proc s1 v = Some r" "stage (sched s1) v = 2" for v r
      using H(4,5) [of v r] that k0(4) c(2) by (auto simp: s1)
    show "int (card {v. v \<noteq> t \<and> t_proc s1 v = Some r \<and> stage (sched s1) v = 2}) \<le> thread_cnt s1 r"
      if "r < m" "p_state (sched s1) r = PCB_USED" for r
      using rest_threads [OF D(7) cur(2) running_stage [OF D(1) cur(1)] that(1)] that(2) k0(4) c(2) by (simp add: s1)
  qed (use k k0 H(1-3) cur(1) in \<open>auto simp: s1\<close>)
qed

lemma do_exit_ok:
  assumes I: "proc_inv n m x kids" and cur: "cpu_thread (sched (tab x)) cpu = Some t" "t_proc (tab x) t = Some p"
    and ok: "clear_child_tid (tab x) t = 0 \<or> ok" and ini: "initproc (tab x) = Some p \<Longrightarrow> thread_cnt (tab x) p \<noteq> 1"
  shows "\<exists>s' kids'. do_exit m (tab x) cpu status ok rd = Some s' \<and> proc_inv n m \<lparr>tab = s', susp = (susp x)(t := None)\<rparr> kids' \<and>
    (thread_cnt (tab x) p = 1 \<longrightarrow> p_state (sched s') p = PCB_ZOMBIE \<and> exit_state s' p = push_bit 8 status \<and>
       (\<exists>init. initproc (tab x) = Some init \<and> init \<noteq> p \<and> kids' = handed kids p init))"
proof -
  let ?s = "tab x"
  note D = invD [OF I [unfolded proc_inv_def]]
  note H = thread_invD [OF D(7)] and T = tree_invD [OF D(3)]
  obtain k0 where 0: "exit_wakeup ?s t ok = Some (?s\<lparr>sched := k0\<rparr>)" "calm n (sched ?s) k0"
    by (rule exit_wakeup_ok [OF D(1) ok])
  have k0: "sched_inv n k0" "pcb_part k0 = pcb_part (sched ?s)" "cpu_thread k0 cpu = Some t"
    using 0(2) cur(1) by (simp_all add: calm_def)
  let ?s1 = "?s\<lparr>sched := k0, thread_cnt := (thread_cnt ?s)(p := thread_cnt ?s p - 1)\<rparr>"
  show ?thesis
  proof (cases "thread_cnt ?s p = 1")
    case False
    obtain k where k: "Sched.do_exit k0 cpu 0 rd = Some k" "sched_inv n k" "pcb_part k = pcb_part k0" "next_wq k = next_wq k0"
      "stage k = (stage k0)(t := 0)" "\<And>w. qlist k (WQ w) = qlist k0 (WQ w)"
      using thread_exit_ok [OF k0(1,3), of rd] by auto
    have "do_exit m ?s cpu status ok rd = Some (?s1\<lparr>sched := k, t_proc := (t_proc ?s1)(t := None), tid := (tid ?s1)(t := 0)\<rparr>)"
      using False cur 0(1) k(1) by (simp add: do_exit_def)
    then show ?thesis
      using one_thread_leaves [OF I cur 0(2) refl k(2-6)] False by blast
  next
    case True
    then obtain init where i: "initproc ?s = Some init" "init \<noteq> p"
      using T(11) ini by auto
    have st: "stage (sched ?s) t = 2"
      by (rule running_stage [OF D(1) cur(1)])
    have pk: "p < m" "\<exists>q. p \<in> set (kids q)"
      using H(1) [OF cur(2)] H(5) [OF cur(2) st] i by auto
    have s1: "tree_inv m ?s1 kids" "sched_inv n (sched ?s1)" "initproc ?s1 = Some init"
      using proc_cong [of ?s1 ?s] k0 D(3) i(1) by simp_all
    obtain s2 q where e: "exit_process m ?s1 p status = Some s2" "p \<in> set (handed kids p init q)" "exited n m p q init kids ?s1 s2"
      "exit_state s2 p = push_bit 8 status"
      using exit_process_ok [OF s1 i(2) pk] by blast
    note X = exitedD [OF e(3)]
    obtain k where k: "Sched.do_exit (sched s2) cpu 0 rd = Some k" "sched_inv n k" "pcb_part k = pcb_part (sched s2)" "next_wq k = next_wq (sched s2)"
      "stage k = (stage (sched s2))(t := 0)" "\<And>w. qlist k (WQ w) = qlist (sched s2) (WQ w)"
      using thread_exit_ok [OF X(3), of cpu t rd] X(7) k0(3) by auto
    let ?s' = "s2\<lparr>sched := k, t_proc := (t_proc s2)(t := None), tid := (tid s2)(t := 0)\<rparr>"
    have "do_exit m ?s cpu status ok rd = Some ?s'"
      using True cur 0(1) e(1) k(1) by (simp add: do_exit_def)
    moreover have "p_state k p = PCB_ZOMBIE"
      using k(3) X(5) by (simp add: pcb_part_def)
    ultimately show ?thesis
      using last_thread_leaves [OF I cur True i 0(2) refl e(3,2) k(2-6)] e(4) i
      by (intro exI [of _ ?s'] exI [of _ "handed kids p init"]) simp
  qed
qed

end
