(* ===== verification/ProcClone.thy ===== *)
theory ProcClone
  imports ProcLife
begin

text \<open>
  \<open>do_clone\<close> keeps the invariant of theory \<open>ProcLife\<close>, on the path that adds a thread and on the one that creates a process,
  and on every early return: a process or thread that is left behind by a failed call stays outside the tree.
\<close>

subsection \<open>Fields the invariant does not mention\<close>

lemma proc_inv_cong:
  assumes "sched s' = sched s" "sib s' = sib s" "first_child s' = first_child s" "parent s' = parent s" "pid s' = pid s"
    "wait_parent s' = wait_parent s" "wait_self s' = wait_self s" "thread_cnt s' = thread_cnt s" "t_proc s' = t_proc s"
    "next_pid s' = next_pid s" "pid_map s' = pid_map s" "initproc s' = initproc s"
  shows "proc_inv n m \<lparr>tab = s', susp = u\<rparr> kids \<longleftrightarrow> proc_inv n m \<lparr>tab = s, susp = u\<rparr> kids"
proof -
  have "held \<lparr>tab = s', susp = u\<rparr> = held \<lparr>tab = s, susp = u\<rparr>"
    by (simp add: held_def assms fun_eq_iff)
  then show ?thesis
    unfolding proc_inv_def inv_with_def tree_inv_def pid_inv_def sems_ok_def tokens_inv_def thread_inv_def susp_inv_def queue_inv_def
    using family_cong [OF assms(2,3)] by (simp add: assms)
qed

subsection \<open>Threads\<close>

text \<open>A free thread joins process \<open>p\<close>, or a thread of \<open>p\<close> is started: \<open>a\<close> is its new stage.\<close>

lemma thread_joins:
  assumes I: "proc_inv n m \<lparr>tab = s, susp = u\<rparr> kids" and t: "t < n" "t_proc s t = None \<or> t_proc s t = Some p" "stage (sched s) t \<noteq> 2" "p < m"
    and k: "sched_inv n k" "pcb_part k = pcb_part (sched s)" "next_wq k = next_wq (sched s)" "stage k = (stage (sched s))(t := a)"
      "\<And>w. qlist k (WQ w) = qlist (sched s) (WQ w)" "a \<noteq> 0"
    and st: "a = 2 \<Longrightarrow> p_state (sched s) p = PCB_USED \<and> (initproc s = Some p \<or> (\<exists>q. p \<in> set (kids q)))"
    and ct: "\<And>r. r \<noteq> p \<Longrightarrow> cnt r = thread_cnt s r"
      "p_state (sched s) p = PCB_USED \<Longrightarrow> int (card {v. t_proc s v = Some p \<and> stage (sched s) v = 2}) + (if a = 2 then 1 else 0) \<le> cnt p"
  shows "proc_inv n m \<lparr>tab = s\<lparr>sched := k, t_proc := (t_proc s)(t := Some p), thread_cnt := cnt\<rparr>, susp = u\<rparr> kids"
proof -
  let ?x = "\<lparr>tab = s, susp = u\<rparr>" and ?s = "s\<lparr>sched := k, t_proc := (t_proc s)(t := Some p), thread_cnt := cnt\<rparr>"
  note D = invD [OF I [unfolded proc_inv_def], simplified]
  note H = thread_invD [OF D(7)]
  have c: "tree_inv m ?s kids" "p_state k = p_state (sched s)" "zombies k ps = zombies (sched s) ps" for ps
    using proc_cong [of ?s s] k(2) D(3) by simp_all
  have ut: "u t = None"
    using susp_invD(1) [OF D(8), of t] t(3) by (cases "u t") auto
  have tq: "t \<notin> set (qlist (sched s) (WQ w))" for w
    using queued_sleeps [OF D(1), of t w] t(3) by (auto simp: stage_def)
  have ho: "held \<lparr>tab = ?s, susp = u\<rparr> = held ?x"
  proof
    fix q
    have "(\<exists>v. ((t_proc s)(t := Some p)) v = Some q \<and> for_child (u v)) \<longleftrightarrow> (\<exists>v. t_proc s v = Some q \<and> for_child (u v))"
      using ut by (metis for_child_def fun_upd_other option.distinct(1))
    then show "held \<lparr>tab = ?s, susp = u\<rparr> q = held ?x q"
      by (simp add: held_def)
  qed
  have thr: "thread_inv n m ?s kids"
    unfolding thread_inv_def
  proof (intro conjI allI impI)
    fix v r assume v: "t_proc ?s v = Some r"
    show "r < m" "v < n" "stage (sched ?s) v \<noteq> 0"
      using v H(1,2,3) [of v r] t(1,4) k(4,6) by (auto split: if_splits)
    assume l: "stage (sched ?s) v = 2"
    show "p_state (sched ?s) r = PCB_USED" "initproc ?s = Some r \<or> (\<exists>q. r \<in> set (kids q))"
      using v l H(4,5) [of v r] st k(4) c(2) by (auto split: if_splits)
  next
    fix r assume r: "r < m" "p_state (sched ?s) r = PCB_USED"
    let ?A = "{v. t_proc s v = Some r \<and> stage (sched s) v = 2}"
    show "int (card {v. t_proc ?s v = Some r \<and> stage (sched ?s) v = 2}) \<le> thread_cnt ?s r"
    proof (cases "r = p \<and> a = 2")
      case True
      then have "{v. t_proc ?s v = Some r \<and> stage (sched ?s) v = 2} = insert t ?A"
        using k(4) by auto
      then show ?thesis
        using ct(2) True r(2) c(2) t(3) card_insert_le [of ?A t] by (cases "finite ?A") (auto simp: card_insert_if)
    next
      case False
      then have "{v. t_proc ?s v = Some r \<and> stage (sched ?s) v = 2} = ?A"
        using k(4) t(2,3) by auto
      then show ?thesis
        using ct H(6) [OF r(1)] r(2) c(2) False by (cases "r = p") auto
    qed
  qed
  have su: "susp_inv m \<lparr>tab = ?s, susp = u\<rparr> kids"
    using D(8) ut k(4) unfolding susp_inv_def by auto
  have "queue_inv m \<lparr>tab = ?s, susp = u\<rparr>"
    using D(9) tq unfolding queue_inv_def by (auto simp: k(5))
  moreover have "pid_inv m ?s" "sems_ok m ?s" "tokens_inv m (held ?x) ?s kids"
    using D(4,5,6) c(2,3) by (simp_all add: pid_inv_def sems_ok_def tokens_inv_def)
  ultimately show ?thesis
    unfolding proc_inv_def inv_with_def ho using k(1,3) D(2) c(1) thr su by simp
qed

subsection \<open>Processes outside the tree\<close>

text \<open>\<open>loose s kids p\<close>: process \<open>p\<close> is in nobody's list, has no children and no started thread.\<close>

definition loose :: "ptab \<Rightarrow> (nat \<Rightarrow> nat list) \<Rightarrow> nat \<Rightarrow> bool" where
  "loose s kids p \<longleftrightarrow> (\<forall>q. p \<notin> set (kids q)) \<and> kids p = [] \<and> (\<forall>v. t_proc s v = Some p \<longrightarrow> stage (sched s) v \<noteq> 2) \<and> initproc s \<noteq> Some p"

lemma unused_loose:
  assumes I: "proc_inv n m \<lparr>tab = s, susp = u\<rparr> kids" and p: "p < m" "p_state (sched s) p = PCB_UNUSED"
  shows "loose s kids p"
proof -
  note D = invD [OF I [unfolded proc_inv_def], simplified]
  note T = tree_invD [OF D(3)] and H = thread_invD [OF D(7)]
  show ?thesis
    unfolding loose_def
  proof (intro conjI allI impI)
    show "p \<notin> set (kids q)" for q using T(5) [of p q] p(2) by auto
    show "kids p = []" using T(6) [of _ p] p(2) by (cases "kids p") auto
    show "stage (sched s) v \<noteq> 2" if "t_proc s v = Some p" for v using H(4) [OF that] p(2) by auto
    show "initproc s \<noteq> Some p" using T(11) p(2) by auto
  qed
qed

lemma loose_held:
  assumes I: "proc_inv n m \<lparr>tab = s, susp = u\<rparr> kids" and l: "loose s kids p"
  shows "held \<lparr>tab = s, susp = u\<rparr> p = 0"
proof -
  note D = invD [OF I [unfolded proc_inv_def], simplified]
  have "\<not> for_child (u v)" if "t_proc s v = Some p" for v
    using susp_invD(1) [OF D(8), of v] that l by (cases "u v") (auto simp: loose_def for_child_def)
  then show ?thesis
    by (auto simp: held_def)
qed

lemma loose_queues:
  assumes I: "proc_inv n m \<lparr>tab = s, susp = u\<rparr> kids" and l: "loose s kids p" and p: "p < m"
  shows "qlist (sched s) (WQ (chan_parent p)) = []" "qlist (sched s) (WQ (chan_self p)) = []"
proof -
  note D = invD [OF I [unfolded proc_inv_def], simplified]
  have "v \<notin> set (qlist (sched s) (WQ (chan_parent p)))" for v
  proof
    assume v: "v \<in> set (qlist (sched s) (WQ (chan_parent p)))"
    then have "t_proc s v = Some p"
      using D(9) p by (simp add: queue_inv_def)
    moreover have "stage (sched s) v = 2"
      using queued_sleeps [OF D(1) v] by (simp add: stage_def)
    ultimately show False
      using l by (simp add: loose_def)
  qed
  then show "qlist (sched s) (WQ (chan_parent p)) = []"
    by (metis list.set_intros(1) neq_Nil_conv)
  have "v \<notin> set (qlist (sched s) (WQ (chan_self p)))" for v
  proof
    assume "v \<in> set (qlist (sched s) (WQ (chan_self p)))"
    then obtain i nxt fc where "u v = Some (i, On_child (Some p) nxt fc)"
      using D(9) p unfolding queue_inv_def by fastforce
    then show False
      using susp_invD(1) [OF D(8), of v] l by (auto simp: loose_def)
  qed
  then show "qlist (sched s) (WQ (chan_self p)) = []"
    by (metis list.set_intros(1) neq_Nil_conv)
qed

text \<open>The entry of a process outside the tree is rewritten, as \<open>alloc_proc\<close> and \<open>free_proc\<close> do: its state becomes \<open>st\<close>, used or
  unused.\<close>

lemma rewrite_loose:
  assumes I: "proc_inv n m \<lparr>tab = s, susp = u\<rparr> kids" and l: "loose s kids p" and p: "p < m"
    and k: "sched_inv n k" "pcb_ok m k" "p_state k = (p_state (sched s))(p := st)" "next_wq k = next_wq (sched s)" "stage k = stage (sched s)"
      "\<And>w. qlist k (WQ w) = qlist (sched s) (WQ w)"
    and st: "st = PCB_UNUSED \<or> st = PCB_USED \<and> tokens (wp p) \<le> 0 \<and> tokens (ws p) = 0 \<and> 0 \<le> cnt p"
    and h: "\<And>a. a \<noteq> p \<Longrightarrow> h a = sib s a" "dom h = dom (sib s)" and f: "fc = (first_child s)(p := None)" and pr: "par = (parent s)(p := pp)"
    and o: "\<And>r. r \<noteq> p \<Longrightarrow> wp r = wait_parent s r \<and> ws r = wait_self s r \<and> cnt r = thread_cnt s r"
    and sm: "sem_cond (wp p) = chan_parent p" "sem_cond (ws p) = chan_self p" "0 \<le> sem_wakeup (wp p)" "0 \<le> sem_wakeup (ws p)"
    and pi: "pid_inv m (s\<lparr>sched := k, pid := pd, pid_map := pm, next_pid := np\<rparr>)"
  shows "proc_inv n m \<lparr>tab = s\<lparr>sched := k, pid := pd, pid_map := pm, next_pid := np, sib := h, first_child := fc, parent := par,
    wait_parent := wp, wait_self := ws, thread_cnt := cnt\<rparr>, susp = u\<rparr> kids"
proof -
  let ?x = "\<lparr>tab = s, susp = u\<rparr>" and ?s = "s\<lparr>sched := k, pid := pd, pid_map := pm, next_pid := np, sib := h, first_child := fc, parent := par,
    wait_parent := wp, wait_self := ws, thread_cnt := cnt\<rparr>"
  note D = invD [OF I [unfolded proc_inv_def], simplified]
  note T = tree_invD [OF D(3)] and H = thread_invD [OF D(7)]
  have l: "p \<notin> set (kids q)" "kids p = []" "t_proc s v = Some p \<Longrightarrow> stage (sched s) v \<noteq> 2" "initproc s \<noteq> Some p" for q v
    using l unfolding loose_def by blast+
  have ring: "ring h (fc q) (kids q)" for q
  proof (cases "q = p")
    case False
    then have "ring (sib s) (fc q) (kids q)"
      using familyD(1) [OF T(2), of q] f by simp
    then show ?thesis
      by (rule ring_frame) (use h(1) l(1) [of q] in metis)
  qed (use l(2) f in simp)
  have fam: "family ?s kids"
    unfolding family_def using ring familyD(2) [OF T(2)] by auto
  have tree: "tree_inv m ?s kids"
    unfolding tree_inv_def
  proof (intro conjI allI impI)
    fix q c assume c: "c \<in> set (kids q)"
    then have "c \<noteq> p" "q \<noteq> p"
      using l(1,2) by auto
    then show "parent ?s c = Some q" "p_state (sched ?s) c \<noteq> PCB_UNUSED" "p_state (sched ?s) q = PCB_USED" "q < m" "initproc ?s \<noteq> Some c"
      using T(4-8) [OF c] k(3) pr by simp_all
  next
    fix c assume c: "c < m" "p_state (sched ?s) c = PCB_ZOMBIE"
    then show "\<exists>q. c \<in> set (kids q)"
      using T(10) [OF c(1)] k(3) st by (auto split: if_splits)
  next
    show "\<exists>i<m. initproc ?s = Some i \<and> p_state (sched ?s) i = PCB_USED"
      using T(11) l(4) k(3) by auto
  qed (use k(2) fam h(2) T(3) in auto)
  have ho: "held \<lparr>tab = ?s, susp = u\<rparr> = held ?x"
    by (simp add: held_def fun_eq_iff)
  have "tokens_inv m (held ?x) ?s kids"
    unfolding tokens_inv_def
  proof (intro allI impI)
    fix r assume r: "r < m" "p_state (sched ?s) r = PCB_USED"
    have z: "zombies k (kids r) = zombies (sched s) (kids r)"
      by (rule zombies_cong) (use l(1) [of r] k(3) in auto)
    show "tokens (wait_parent ?s r) + held ?x r \<le> zombies (sched ?s) (kids r) \<and> tokens (wait_self ?s r) = 0"
    proof (cases "r = p")
      case True
      then show ?thesis
        using st r(2) k(3) loose_held [OF I assms(2)] z l(2) by (auto simp: zombies_def)
    next
      case False
      then show ?thesis
        using tokens_invD [OF D(6) r(1)] r(2) k(3) z o by simp
    qed
  qed
  moreover have "thread_inv n m ?s kids"
    unfolding thread_inv_def
  proof (intro conjI allI impI)
    fix v r assume v: "t_proc ?s v = Some r"
    then show "r < m" "v < n" "stage (sched ?s) v \<noteq> 0"
      using H(1,2,3) [of v r] k(5) by auto
    assume "stage (sched ?s) v = 2"
    then show "p_state (sched ?s) r = PCB_USED" "initproc ?s = Some r \<or> (\<exists>q. r \<in> set (kids q))"
      using v H(4,5) [of v r] l(3) [of v] k(3,5) by auto
  next
    fix r assume r: "r < m" "p_state (sched ?s) r = PCB_USED"
    have e: "card {v. t_proc s v = Some p \<and> stage (sched s) v = 2} = 0"
      using l(3) by (simp add: card_eq_0_iff)
    show "int (card {v. t_proc ?s v = Some r \<and> stage (sched ?s) v = 2}) \<le> thread_cnt ?s r"
      using H(6) [OF r(1)] r(2) k(3,5) o [of r] e st by (cases "r = p") auto
  qed
  moreover have "susp_inv m \<lparr>tab = ?s, susp = u\<rparr> kids" "queue_inv m \<lparr>tab = ?s, susp = u\<rparr>"
    using D(8,9) k(5,6) by (simp_all add: susp_inv_def queue_inv_def)
  moreover have "pid_inv m ?s"
    using pi by (simp add: pid_inv_def)
  moreover have "sems_ok m ?s"
    unfolding sems_ok_def using sems_okD [OF D(5)] o sm by simp metis
  ultimately show ?thesis
    unfolding proc_inv_def inv_with_def ho using k(1,4) D(2) tree by simp
qed

lemma Queue_init_empty: "qlist k q = [] \<Longrightarrow> Queue_init k q = k"
  by (simp add: Queue_init_def fun_upd_idem)

lemma loose_cong:
  "t_proc s' = t_proc s \<Longrightarrow> stage (sched s') = stage (sched s) \<Longrightarrow> initproc s' = initproc s \<Longrightarrow> loose s' kids p = loose s kids p"
  by (simp add: loose_def)

lemma free_loose:
  assumes I: "proc_inv n m \<lparr>tab = s, susp = u\<rparr> kids" and l: "loose s kids p" and p: "p < m" and f: "free_proc s p = Some s'"
    and inj: "\<And>r. r < m \<Longrightarrow> p_state (sched s) r \<noteq> PCB_UNUSED \<Longrightarrow> r \<noteq> p \<Longrightarrow> pid s r \<noteq> pid s p"
  shows "proc_inv n m \<lparr>tab = s', susp = u\<rparr> kids"
proof -
  note D = invD [OF I [unfolded proc_inv_def], simplified]
  obtain k where k: "free_proc s p = Some (freed s p k)" "sched_inv n k" "pcb_ok m k" "p_state k = (p_state (sched s))(p := PCB_UNUSED)"
    "next_wq k = next_wq (sched s)" "stage k = stage (sched s)" "\<And>w. qlist k (WQ w) = qlist (sched s) (WQ w)"
    using free_proc_ok [OF D(1) tree_invD(1) [OF D(3)] p] by blast
  have "first_child s p = None"
    using familyD(4) [OF tree_invD(2) [OF D(3)], of p] l by (simp add: loose_def)
  then have fc: "first_child s = (first_child s)(p := None)"
    by (simp add: fun_upd_idem)
  have pid: "pid_inv m (s\<lparr>sched := k, pid := (pid s)(p := 0), pid_map := (pid_map s)(pid s p := None), next_pid := next_pid s\<rparr>)"
    by (rule pid_free [OF D(4) k(4) inj]) simp_all
  have "proc_inv n m \<lparr>tab = s\<lparr>sched := k, pid := (pid s)(p := 0), pid_map := (pid_map s)(pid s p := None), next_pid := next_pid s,
      sib := sib s, first_child := first_child s, parent := (parent s)(p := None), wait_parent := wait_parent s, wait_self := wait_self s,
      thread_cnt := thread_cnt s\<rparr>, susp = u\<rparr> kids"
    by (rule rewrite_loose [OF I l p k(2-7) _ _ _ fc refl _ _ _ _ _ pid]) (use sems_okD [OF D(5) p] in simp_all)
  moreover have "s' = freed s p k"
    using f k(1) by simp
  ultimately show ?thesis
    by (subst proc_inv_cong) (simp_all add: freed_def)
qed

text \<open>\<open>fresh s' kids p s\<close>: \<open>p\<close> has just been taken from the table.\<close>

definition fresh :: "nat \<Rightarrow> ptab \<Rightarrow> (nat \<Rightarrow> nat list) \<Rightarrow> nat \<Rightarrow> ptab \<Rightarrow> bool" where
  "fresh m s' kids p s \<longleftrightarrow> p < m \<and> p_state (sched s') = (p_state (sched s))(p := PCB_USED) \<and> loose s' kids p \<and> dll (sib s') p [] \<and>
     cpu_thread (sched s') = cpu_thread (sched s) \<and> t_proc s' = t_proc s \<and> stage (sched s') = stage (sched s) \<and>
     initproc s' = initproc s \<and> thread_cnt s' p = 0 \<and> p_state (sched s) p = PCB_UNUSED"

lemma pid_skip:
  assumes P: "pid_inv m s" and p: "p_state (sched s) p = PCB_UNUSED"
    and s': "p_state (sched s') = p_state (sched s)" "pid s' = (pid s)(p := i)" "pid_map s' = pid_map s" "next_pid s' = next_pid s + 1"
  shows "pid_inv m s'"
  unfolding pid_inv_def s'
proof (intro conjI allI impI)
  fix d assume d: "d < m" "p_state (sched s) d \<noteq> PCB_UNUSED"
  then have "d \<noteq> p" "pid_map s (pid s d) = Some d" "0 < pid s d" "pid s d < next_pid s"
    using P p by (auto simp: pid_inv_def)
  then show "pid_map s (((pid s)(p := i)) d) = Some d" "0 < ((pid s)(p := i)) d" "((pid s)(p := i)) d < next_pid s + 1"
    by simp_all
next
  fix j d assume "pid_map s j = Some d"
  then have "d < m" "p_state (sched s) d \<noteq> PCB_UNUSED" "pid s d = j" "d \<noteq> p"
    using P p unfolding pid_inv_def by blast+
  then show "d < m" "p_state (sched s) d \<noteq> PCB_UNUSED" "((pid s)(p := i)) d = j"
    by simp_all
qed (use P in \<open>simp add: pid_inv_def\<close>)

lemma pid_new:
  assumes P: "pid_inv m s" and p: "p < m" "p_state (sched s) p = PCB_UNUSED"
    and s': "p_state (sched s') = (p_state (sched s))(p := PCB_USED)" "pid s' = (pid s)(p := next_pid s)"
      "pid_map s' = (pid_map s)(next_pid s \<mapsto> p)" "next_pid s' = next_pid s + 1"
  shows "pid_inv m s'"
  unfolding pid_inv_def s'
proof (intro conjI allI impI)
  fix d assume d: "d < m" "((p_state (sched s))(p := PCB_USED)) d \<noteq> PCB_UNUSED"
  have "pid_map s (pid s d) = Some d" "0 < pid s d" "pid s d < next_pid s" if "d \<noteq> p"
    using P d that by (auto simp: pid_inv_def)
  moreover have "0 < next_pid s"
    using P by (simp add: pid_inv_def)
  ultimately show "((pid_map s)(next_pid s \<mapsto> p)) (((pid s)(p := next_pid s)) d) = Some d" "0 < ((pid s)(p := next_pid s)) d"
    "((pid s)(p := next_pid s)) d < next_pid s + 1"
    by (cases "d = p"; simp)+
next
  fix j d assume j: "((pid_map s)(next_pid s \<mapsto> p)) j = Some d"
  have "d < m \<and> p_state (sched s) d \<noteq> PCB_UNUSED \<and> pid s d = j \<and> d \<noteq> p" if "j \<noteq> next_pid s"
    using P p(2) j that unfolding pid_inv_def by (metis fun_upd_other)
  then show "d < m" "((p_state (sched s))(p := PCB_USED)) d \<noteq> PCB_UNUSED" "((pid s)(p := next_pid s)) d = j"
    using j p(1) by (cases "j = next_pid s"; simp)+
qed (use P in \<open>simp add: pid_inv_def\<close>)

lemma alloc_proc_ok:
  assumes I: "proc_inv n m \<lparr>tab = s, susp = u\<rparr> kids" and a: "alloc_proc s r = Some (s', q)"
  shows "proc_inv n m \<lparr>tab = s', susp = u\<rparr> kids \<and> (\<forall>p. q = Some p \<longrightarrow> fresh m s' kids p s)"
proof -
  note D = invD [OF I [unfolded proc_inv_def], simplified]
  note T = tree_invD [OF D(3)]
  consider "Queue_provide_atomic (sched s) (PQ PCB_UNUSED) True = (sched s, None)"
    | p where "Queue_provide_atomic (sched s) (PQ PCB_UNUSED) True = (Queue_remove (sched s) p PCB_STATE_QUEUE, Some p)" "p < m"
      "p_state (sched s) p = PCB_UNUSED"
    using pop_proc_ok [OF D(1) T(1)] by blast
  then show ?thesis
  proof cases
    case 1
    then show ?thesis
      using a I by (auto simp: alloc_proc_def)
  next
    case (2 p)
    let ?k = "Queue_remove (sched s) p PCB_STATE_QUEUE"
    have l: "loose s kids p"
      by (rule unused_loose [OF I 2(2,3)])
    note Q = loose_queues [OF I l 2(2)]
    obtain h where h: "INIT_LIST_HEAD (sib s) (Some p) = Some h" "dll h p []" "\<And>b. b \<noteq> p \<Longrightarrow> h b = sib s b" "dom h = dom (sib s)"
      using INIT_LIST_HEAD_dll [of p "sib s"] T(3) 2(2) by auto
    let ?s = "s\<lparr>sched := ?k, pid := (pid s)(p := next_pid s), next_pid := next_pid s + 1, count_pid := count_pid s + 1,
      first_child := (first_child s)(p := None), sib := h\<rparr>"
    have np: "pid s d < next_pid s" if "d < m" "p_state (sched s) d \<noteq> PCB_UNUSED" for d
      using D(4) that by (simp add: pid_inv_def)
    have nm: "pid_map s (next_pid s) = None"
      using D(4) np unfolding pid_inv_def by (metis less_irrefl not_None_eq)
    show ?thesis
    proof (cases r)
      case No_ipc
      obtain s2 where f: "free_proc ?s p = Some s2" "s' = s2" "q = None"
        using a 2 h(1) No_ipc by (auto simp: alloc_proc_def Let_def Option.bind_eq_Some_conv split: if_splits)
      obtain k where k: "PCB_Q_changeState ?k p PCB_UNUSED = Some k" "sched_inv n k" "pcb_ok m k" "p_state k = (p_state (sched s))(p := PCB_UNUSED)"
        "next_wq k = next_wq (sched s)" "stage k = stage (sched s)" "\<And>w. qlist k (WQ w) = qlist (sched s) (WQ w)"
        using change_proc_ok [OF D(1) T(1) 2(2), of ?k PCB_UNUSED] by blast
      have pid: "pid_inv m (s\<lparr>sched := k, pid := (pid s)(p := 0), pid_map := pid_map s, next_pid := next_pid s + 1\<rparr>)"
        by (rule pid_skip [OF D(4) 2(3)]) (simp_all add: k(4) 2(3) fun_upd_idem)
      have "proc_inv n m \<lparr>tab = s\<lparr>sched := k, pid := (pid s)(p := 0), pid_map := pid_map s, next_pid := next_pid s + 1,
          sib := h, first_child := (first_child s)(p := None), parent := (parent s)(p := None), wait_parent := wait_parent s,
          wait_self := wait_self s, thread_cnt := thread_cnt s\<rparr>, susp = u\<rparr> kids"
        by (rule rewrite_loose [OF I l 2(2) k(2-7) _ h(3,4) refl refl _ _ _ _ _ pid]) (use sems_okD [OF D(5) 2(2)] in simp_all)
      moreover have "s2 = freed ?s p k"
        using f(1) k(1) by (simp add: free_proc_def freed_def)
      ultimately have "proc_inv n m \<lparr>tab = s2, susp = u\<rparr> kids"
        by (subst proc_inv_cong) (simp_all add: freed_def nm fun_upd_idem)
      then show ?thesis
        using f by simp
    next
      case Alloc_ok
      obtain k where k: "PCB_Q_changeState ?k p PCB_USED = Some k" "sched_inv n k" "pcb_ok m k" "p_state k = (p_state (sched s))(p := PCB_USED)"
        "next_wq k = next_wq (sched s)" "cpu_thread k = cpu_thread (sched s)" "stage k = stage (sched s)"
        "\<And>w. qlist k (WQ w) = qlist (sched s) (WQ w)"
        using change_proc_ok [OF D(1) T(1) 2(2), of ?k PCB_USED] by blast
      let ?wp = "(wait_parent s)(p := \<lparr>sem_value = 0, sem_wakeup = 0, sem_cond = chan_parent p\<rparr>)"
      let ?ws = "(wait_self s)(p := \<lparr>sem_value = 0, sem_wakeup = 0, sem_cond = chan_self p\<rparr>)"
      let ?pm = "(pid_map s)(next_pid s \<mapsto> p)"
      have s': "s' = s\<lparr>sched := k, pid := (pid s)(p := next_pid s), next_pid := next_pid s + 1, count_pid := count_pid s + 1,
          first_child := (first_child s)(p := None), sib := h, thread_cnt := (thread_cnt s)(p := 0), shm_ready := (shm_ready s)(p := True),
          wait_parent := ?wp, wait_self := ?ws, pid_map := ?pm, p_locked := (p_locked s)(p := True)\<rparr>" "q = Some p"
        using a 2 h(1) Alloc_ok k(1,8) Q
        by (auto simp: alloc_proc_def Let_def sema_init_def Queue_init_empty Option.bind_eq_Some_conv split: if_splits)
      have pid: "pid_inv m (s\<lparr>sched := k, pid := (pid s)(p := next_pid s), pid_map := ?pm, next_pid := next_pid s + 1\<rparr>)"
        by (rule pid_new [OF D(4) 2(2,3)]) (simp_all add: k(4))
      have "proc_inv n m \<lparr>tab = s\<lparr>sched := k, pid := (pid s)(p := next_pid s), pid_map := ?pm, next_pid := next_pid s + 1,
          sib := h, first_child := (first_child s)(p := None), parent := (parent s)(p := parent s p), wait_parent := ?wp,
          wait_self := ?ws, thread_cnt := (thread_cnt s)(p := 0)\<rparr>, susp = u\<rparr> kids"
        by (rule rewrite_loose [OF I l 2(2) k(2-5,7,8) _ h(3,4) refl refl _ _ _ _ _ pid]) (simp_all add: tokens_def)
      then have "proc_inv n m \<lparr>tab = s', susp = u\<rparr> kids"
        unfolding s'(1) by (subst (asm) proc_inv_cong) simp_all
      moreover have "fresh m s' kids p s"
        using l 2(2,3) k(4,6,7) h(2) by (simp add: fresh_def s'(1) loose_def)
      ultimately show ?thesis
        using s'(2) by simp
    qed (use a 2 h(1) in \<open>auto simp: alloc_proc_def Let_def Option.bind_eq_Some_conv split: if_splits\<close>)
  qed
qed

subsection \<open>The two kinds of clone\<close>

text \<open>\<open>joined n s' p t s\<close>: thread \<open>t\<close> has been taken from the table and has joined \<open>p\<close>, but has not been started.\<close>

definition joined :: "nat \<Rightarrow> ptab \<Rightarrow> nat \<Rightarrow> nat \<Rightarrow> ptab \<Rightarrow> bool" where
  "joined n s' p t s \<longleftrightarrow> t < n \<and> t_proc s t = None \<and> t_proc s' = (t_proc s)(t := Some p) \<and> stage (sched s') = (stage (sched s))(t := 1) \<and>
     thread_cnt s' = (thread_cnt s)(p := thread_cnt s p + 1) \<and> p_state (sched s') = p_state (sched s) \<and> initproc s' = initproc s \<and>
     sib s' = sib s \<and> parent s' = parent s \<and> pid s' = pid s"

lemma take_thread_ok:
  assumes I: "proc_inv n m \<lparr>tab = s, susp = u\<rparr> kids" and a: "take_thread s = Some (s', q)" and p: "p < m"
  shows "q = None \<longrightarrow> s' = s"
    "q = Some t \<Longrightarrow> proc_inv n m \<lparr>tab = proc_join_thread s' p t, susp = u\<rparr> kids \<and> joined n (proc_join_thread s' p t) p t s"
proof -
  note D = invD [OF I [unfolded proc_inv_def], simplified]
  note A = alloc_thread_ok [OF D(1)]
  show "q = None \<longrightarrow> s' = s"
    using A a by (auto simp: take_thread_def)
  assume "q = Some t"
  then obtain k where k: "alloc_thread (sched s) = Some (k, Some t)" "t < n" "stage (sched s) t = 0" "stage k = (stage (sched s))(t := 1)"
    "sched_inv n k" "pcb_part k = pcb_part (sched s)" "next_wq k = next_wq (sched s)" "\<And>w. qlist k (WQ w) = qlist (sched s) (WQ w)"
    using A a by (auto simp: take_thread_def)
  have s': "s' = s\<lparr>sched := k, tid := (tid s)(t := next_tid s), next_tid := next_tid s + 1, clear_child_tid := (clear_child_tid s)(t := 0)\<rparr>"
    using a k(1) by (simp add: take_thread_def)
  have tn: "t_proc s t = None"
    using thread_invD(3) [OF D(7), of t] k(3) by (cases "t_proc s t") auto
  let ?c = "(thread_cnt s)(p := thread_cnt s p + 1)"
  have "proc_inv n m \<lparr>tab = s\<lparr>sched := k, t_proc := (t_proc s)(t := Some p), thread_cnt := ?c\<rparr>, susp = u\<rparr> kids"
    by (rule thread_joins [OF I k(2) disjI1 [OF tn] _ p k(5,6,7,4,8)]) (use thread_invD(6) [OF D(7) p] k(3) in auto)
  then have "proc_inv n m \<lparr>tab = proc_join_thread s' p t, susp = u\<rparr> kids"
    by (subst (asm) proc_inv_cong [symmetric, of "proc_join_thread s' p t"]) (simp_all add: s' proc_join_thread_def)
  moreover have "joined n (proc_join_thread s' p t) p t s"
    using k(2,4,6) tn by (simp add: joined_def s' proc_join_thread_def pcb_part_def)
  ultimately show "proc_inv n m \<lparr>tab = proc_join_thread s' p t, susp = u\<rparr> kids \<and> joined n (proc_join_thread s' p t) p t s"
    by blast
qed

lemma clone_regs_ok:
  assumes "proc_inv n m \<lparr>tab = s, susp = u\<rparr> kids" and "clone_regs s a t = Some (s', b)"
  shows "proc_inv n m \<lparr>tab = s', susp = u\<rparr> kids" "\<exists>f. s' = s\<lparr>clear_child_tid := f\<rparr>"
proof -
  show s': "\<exists>f. s' = s\<lparr>clear_child_tid := f\<rparr>"
    using assms(2) by (auto simp: clone_regs_def Let_def Option.bind_eq_Some_conv split: if_splits intro: exI [of _ "clear_child_tid s"])
  show "proc_inv n m \<lparr>tab = s', susp = u\<rparr> kids"
    using s' assms(1) by (auto simp: proc_inv_cong [of "s\<lparr>clear_child_tid := _\<rparr>" s])
qed

lemma make_runnable_ok:
  assumes I: "proc_inv n m \<lparr>tab = s, susp = u\<rparr> kids" and r: "make_runnable s t = Some s'" and t: "t < n" "t_proc s t = Some p" "stage (sched s) t = 1"
    and p: "p < m" "p_state (sched s) p = PCB_USED" "initproc s = Some p \<or> (\<exists>q. p \<in> set (kids q))"
    and c: "int (card {v. t_proc s v = Some p \<and> stage (sched s) v = 2}) < thread_cnt s p"
  shows "proc_inv n m \<lparr>tab = s', susp = u\<rparr> kids"
proof -
  note D = invD [OF I [unfolded proc_inv_def], simplified]
  obtain k where k: "TCB_Q_changeState (sched s) t TCB_RUNNABLE = Some k" "stage k = (stage (sched s))(t := 2)" "sched_inv n k"
    "pcb_part k = pcb_part (sched s)" "next_wq k = next_wq (sched s)" "\<And>w. qlist k (WQ w) = qlist (sched s) (WQ w)"
    using start_thread_ok [OF D(1) t(1,3)] by blast
  have "proc_inv n m \<lparr>tab = s\<lparr>sched := k, t_proc := (t_proc s)(t := Some p), thread_cnt := thread_cnt s\<rparr>, susp = u\<rparr> kids"
    by (rule thread_joins [OF I t(1) disjI2 [OF t(2)] _ p(1) k(3,4,5,2,6)]) (use t p(2,3) c in auto)
  then show ?thesis
    using r k(1) t(2) by (simp add: make_runnable_def fun_upd_idem)
qed

lemma append_ok:
  assumes I: "proc_inv n m \<lparr>tab = s, susp = u\<rparr> kids" and l: "\<And>q. np \<notin> set (kids q)" "initproc s \<noteq> Some np" "dll (sib s) np []"
    and np: "np < m" "p_state (sched s) np = PCB_USED" and p: "p < m" "p_state (sched s) p = PCB_USED"
    and a: "appendChild (s\<lparr>parent := (parent s)(np := Some p)\<rparr>) p np = Some s'"
  shows "proc_inv n m \<lparr>tab = s', susp = u\<rparr> (kids(p := kids p @ [np]))"
    "\<exists>h f. s' = s\<lparr>sib := h, first_child := f, parent := (parent s)(np := Some p)\<rparr>"
proof -
  let ?x = "\<lparr>tab = s, susp = u\<rparr>" and ?s = "s\<lparr>parent := (parent s)(np := Some p)\<rparr>" and ?kids = "kids(p := kids p @ [np])"
  note D = invD [OF I [unfolded proc_inv_def], simplified]
  note T = tree_invD [OF D(3)] and H = thread_invD [OF D(7)]
  have "family ?s kids" "dll (sib ?s) np []"
    using T(2) l(3) by simp_all
  then obtain h f where h: "appendChild ?s p np = Some (?s\<lparr>sib := h, first_child := (first_child ?s)(p := f)\<rparr>)"
    "family (?s\<lparr>sib := h, first_child := (first_child ?s)(p := f)\<rparr>) ?kids" "dom h = dom (sib ?s)"
    using appendChild_family [of ?s kids np p] l(1) by blast
  then have s': "s' = ?s\<lparr>sib := h, first_child := (first_child ?s)(p := f)\<rparr>"
    using a by simp
  then show "\<exists>h f. s' = s\<lparr>sib := h, first_child := f, parent := (parent s)(np := Some p)\<rparr>"
    by (intro exI [of _ h] exI [of _ "(first_child ?s)(p := f)"]) simp
  have sel: "sched s' = sched s" "parent s' = (parent s)(np := Some p)" "initproc s' = initproc s" "t_proc s' = t_proc s"
    "wait_parent s' = wait_parent s" "wait_self s' = wait_self s" "thread_cnt s' = thread_cnt s" "pid s' = pid s" "pid_map s' = pid_map s"
    "next_pid s' = next_pid s" "dom (sib s') = {..<m}" "family s' ?kids"
    using s' h(2,3) T(3) by simp_all
  have sub: "c \<in> set (kids q) \<Longrightarrow> c \<in> set (?kids q)" "c \<in> set (?kids q) \<Longrightarrow> c \<in> set (kids q) \<or> q = p \<and> c = np" for c q
    by (auto split: if_splits)
  have "tree_inv m s' ?kids"
    unfolding tree_inv_def sel(1,2,3,11)
  proof (intro conjI allI impI)
    fix q c assume "c \<in> set (?kids q)"
    then consider "c \<in> set (kids q)" "c \<noteq> np" | "q = p" "c = np"
      using sub(2) l(1) by blast
    then show "((parent s)(np := Some p)) c = Some q" "p_state (sched s) c \<noteq> PCB_UNUSED" "p_state (sched s) q = PCB_USED" "q < m"
      "initproc s \<noteq> Some c"
      using T(4-8) [of c q] np p l(2) by (cases; simp)+
  next
    show "\<exists>q. c \<in> set (?kids q)" if "c < m" "p_state (sched s) c = PCB_ZOMBIE" for c
      using T(10) [OF that] sub(1) by blast
  qed (use T(1,11) sel(12) in auto)
  moreover have "tokens_inv m (held ?x) s' ?kids"
    unfolding tokens_inv_def sel
  proof (intro allI impI)
    fix r assume r: "r < m" "p_state (sched s) r = PCB_USED"
    have "zombies (sched s) (?kids r) = zombies (sched s) (kids r)"
      using np(2) by (simp add: zombies_def)
    then show "tokens (wait_parent s r) + held ?x r \<le> zombies (sched s) (?kids r) \<and> tokens (wait_self s r) = 0"
      using tokens_invD [OF D(6) r] by simp
  qed
  moreover have "thread_inv n m s' ?kids"
  proof -
    have "initproc s = Some r \<or> (\<exists>q. r \<in> set (?kids q))" if "t_proc s v = Some r" "stage (sched s) v = 2" for v r
      using H(5) [OF that] sub(1) by blast
    then show ?thesis
      unfolding thread_inv_def sel using H(1-4,6) by blast
  qed
  moreover have "susp_inv m \<lparr>tab = s', susp = u\<rparr> ?kids"
  proof -
    have "\<exists>q. t_proc s v = Some q \<and> stage (sched s) v = 2 \<and> (e = On_parent \<or> (\<exists>c nxt fc. e = On_child (Some c) nxt fc \<and> c \<in> set (?kids q)))"
      if "u v = Some (i, e)" for v i e
      using susp_invD(1) [OF D(8), of v i e] that sub(1) by fastforce
    then show ?thesis
      using susp_invD(2) [OF D(8)] unfolding susp_inv_def by (simp add: sel)
  qed
  moreover have "queue_inv m \<lparr>tab = s', susp = u\<rparr>" "pid_inv m s'" "sems_ok m s'" "held \<lparr>tab = s', susp = u\<rparr> = held ?x"
    using D(4,5,9) by (simp_all add: queue_inv_def pid_inv_def sems_ok_def held_def sel fun_eq_iff)
  ultimately show "proc_inv n m \<lparr>tab = s', susp = u\<rparr> ?kids"
    unfolding proc_inv_def inv_with_def using D(1,2) by (simp add: sel(1))
qed

lemma clone_proc_ok:
  assumes I: "proc_inv n m \<lparr>tab = s, susp = u\<rparr> kids" and cl: "do_clone s cpu a = Some (s', r)" and p: "proc_current s cpu = Some p"
    and pm: "p < m" "p_state (sched s) p = PCB_USED" and nt: "\<not> CLONE_THREAD a"
  shows "\<exists>kids'. proc_inv n m \<lparr>tab = s', susp = u\<rparr> kids'"
proof -
  obtain s1 q where al: "alloc_proc s (allocs a) = Some (s1, q)"
    using cl p nt by (auto simp: do_clone_def create_proc_def Option.bind_eq_Some_conv)
  have A: "proc_inv n m \<lparr>tab = s1, susp = u\<rparr> kids" "\<And>np. q = Some np \<Longrightarrow> fresh m s1 kids np s"
    using alloc_proc_ok [OF I al] by simp_all
  show ?thesis
  proof (cases q)
    case None
    then show ?thesis
      using cl p nt al A(1) by (auto simp: do_clone_def create_proc_def)
  next
    case (Some np)
    have F: "np < m" "p_state (sched s1) = (p_state (sched s))(np := PCB_USED)" "loose s1 kids np" "dll (sib s1) np []" "thread_cnt s1 np = 0"
      using A(2) [OF Some] by (simp_all add: fresh_def)
    note E = invD [OF A(1) [unfolded proc_inv_def], simplified]
    obtain s2 w where tk: "take_thread s1 = Some (s2, w)"
      using cl p nt al Some by (auto simp: do_clone_def create_proc_def Option.bind_eq_Some_conv)
    note K = take_thread_ok [OF A(1) tk F(1)]
    show ?thesis
    proof (cases w)
      case None
      then have "free_proc s1 np = Some s'"
        using cl p nt al Some tk K(1) by (auto simp: do_clone_def create_proc_def Option.bind_eq_Some_conv)
      then have "proc_inv n m \<lparr>tab = s', susp = u\<rparr> kids"
        by (rule free_loose [OF A(1) F(3,1)]) (use pid_inj [OF E(4) F(1)] F(2) in auto)
      then show ?thesis by blast
    next
      case (Some t)
      let ?j = "proc_join_thread s2 np t"
      have J: "proc_inv n m \<lparr>tab = ?j, susp = u\<rparr> kids" "joined n ?j np t s1"
        using K(2) [OF Some] by blast+
      obtain s3 ok where c: "clone_regs ?j a t = Some (s3, ok)"
        using cl p nt al \<open>q = Some np\<close> tk Some by (auto simp: do_clone_def create_proc_def Option.bind_eq_Some_conv)
      note R = clone_regs_ok [OF J(1) c]
      obtain f where f: "s3 = ?j\<lparr>clear_child_tid := f\<rparr>"
        using R(2) by blast
      have s3: "p_state (sched s3) = p_state (sched s1)" "t_proc s3 = (t_proc s1)(t := Some np)" "stage (sched s3) = (stage (sched s1))(t := 1)"
        "initproc s3 = initproc s1" "sib s3 = sib s1" "thread_cnt s3 np = 1" "t < n"
        using J(2) F(5) f by (simp_all add: joined_def)
      have l3: "loose s3 kids np"
        using F(3) s3 by (auto simp: loose_def)
      have run: "do_clone s cpu a = (if \<not> ok then Some (s3, -1) else if \<not> vm_ok a then do { s \<leftarrow> free_proc s3 np; Some (unlock_proc s np, -1) }
        else do { s \<leftarrow> appendChild (s3\<lparr>parent := (parent s3)(np := Some p)\<rparr>) p np; s \<leftarrow> make_runnable (unlock_proc s np) t; Some (s, pid s3 np) })"
        using p nt al \<open>q = Some np\<close> tk Some c by (auto simp: do_clone_def create_proc_def)
      consider "\<not> ok" "s' = s3" | s4 where "free_proc s3 np = Some s4" "s' = unlock_proc s4 np"
        | s4 where "appendChild (s3\<lparr>parent := (parent s3)(np := Some p)\<rparr>) p np = Some s4" "make_runnable (unlock_proc s4 np) t = Some s'"
        using cl unfolding run by (auto simp: Option.bind_eq_Some_conv split: if_splits)
      then show ?thesis
      proof cases
        case 1
        then show ?thesis using R(1) by blast
      next
        case (2 s4)
        have "proc_inv n m \<lparr>tab = s4, susp = u\<rparr> kids"
          by (rule free_loose [OF R(1) l3 F(1) 2(1)])
            (use pid_inj [OF invD(4) [OF R(1) [unfolded proc_inv_def], simplified] F(1)] F(2) s3(1) in auto)
        then have "proc_inv n m \<lparr>tab = s', susp = u\<rparr> kids"
          by (subst proc_inv_cong) (simp_all add: 2(2) unlock_proc_def)
        then show ?thesis by blast
      next
        case (3 s4)
        let ?kids = "kids(p := kids p @ [np])"
        note P = append_ok [OF R(1) _ _ _ F(1) _ pm(1) _ 3(1)]
        have P1: "proc_inv n m \<lparr>tab = s4, susp = u\<rparr> ?kids"
          by (rule P(1)) (use l3 F(2,4) s3(1,5) pm(2) in \<open>auto simp: loose_def\<close>)
        have P2: "\<exists>h f. s4 = s3\<lparr>sib := h, first_child := f, parent := (parent s3)(np := Some p)\<rparr>"
          by (rule P(2)) (use l3 F(2,4) s3(1,5) pm(2) in \<open>auto simp: loose_def\<close>)
        have P3: "proc_inv n m \<lparr>tab = unlock_proc s4 np, susp = u\<rparr> ?kids"
          using P1 by (subst proc_inv_cong) (simp_all add: unlock_proc_def)
        have e: "card {v. t_proc s3 v = Some np \<and> stage (sched s3) v = 2} = 0"
          using l3 by (simp add: card_eq_0_iff loose_def)
        have "proc_inv n m \<lparr>tab = s', susp = u\<rparr> ?kids"
          by (rule make_runnable_ok [OF P3 3(2), of np]) (use P2 s3 F(1,2) e in \<open>auto simp: unlock_proc_def\<close>)
        then show ?thesis by blast
      qed
    qed
  qed
qed

lemma do_clone_ok:
  assumes I: "proc_inv n m \<lparr>tab = s, susp = u\<rparr> kids" and cl: "do_clone s cpu a = Some (s', r)"
  shows "\<exists>kids'. proc_inv n m \<lparr>tab = s', susp = u\<rparr> kids'"
proof -
  note D = invD [OF I [unfolded proc_inv_def], simplified]
  obtain p t0 where p: "proc_current s cpu = Some p" "cpu_thread (sched s) cpu = Some t0" "t_proc s t0 = Some p"
    using cl by (auto simp: do_clone_def proc_current_def Option.bind_eq_Some_conv)
  note H = thread_invD [OF D(7)]
  have st: "stage (sched s) t0 = 2"
    by (rule running_stage [OF D(1) p(2)])
  have pm: "p < m" "p_state (sched s) p = PCB_USED" "initproc s = Some p \<or> (\<exists>q. p \<in> set (kids q))"
    using H(1,4,5) [OF p(3)] st by auto
  show ?thesis
  proof (cases "CLONE_THREAD a")
    case True
    obtain s1 q where q: "take_thread s = Some (s1, q)"
      using cl p(1) True by (auto simp: do_clone_def Option.bind_eq_Some_conv)
    note K = take_thread_ok [OF I q pm(1)]
    show ?thesis
    proof (cases q)
      case None
      then show ?thesis
        using cl p(1) True q K(1) I by (auto simp: do_clone_def)
    next
      case (Some t)
      let ?j = "proc_join_thread s1 p t"
      obtain J: "proc_inv n m \<lparr>tab = ?j, susp = u\<rparr> kids" "joined n ?j p t s"
        using K(2) [OF Some] by blast
      obtain s2 ok where c: "clone_regs ?j a t = Some (s2, ok)" "ok \<Longrightarrow> make_runnable s2 t = Some s'" "\<not> ok \<Longrightarrow> s' = s2"
        using cl p(1) True q Some by (auto simp: do_clone_def Option.bind_eq_Some_conv split: if_splits)
      note R = clone_regs_ok [OF J(1) c(1)]
      show ?thesis
      proof (cases ok)
        case True
        obtain f where f: "s2 = ?j\<lparr>clear_child_tid := f\<rparr>"
          using R(2) by blast
        have e: "{v. t_proc s2 v = Some p \<and> stage (sched s2) v = 2} = {v. t_proc s v = Some p \<and> stage (sched s) v = 2}"
          using J(2) f by (auto simp: joined_def)
        have "proc_inv n m \<lparr>tab = s', susp = u\<rparr> kids"
          by (rule make_runnable_ok [OF R(1) c(2) [OF True], of p]) (use J(2) f pm e H(6) [OF pm(1,2)] in \<open>auto simp: joined_def\<close>)
        then show ?thesis by blast
      qed (use R(1) c(3) in auto)
    qed
  next
    case False
    then show ?thesis
      by (rule clone_proc_ok [OF I cl p(1) pm(1,2)])
  qed
qed

end
