(* ===== verification/ProcReach.thy ===== *)
theory ProcReach
  imports ProcExit ProcClone
begin

text \<open>
  The invariant of theory \<open>ProcLife\<close> holds when the kernel has started its first process and after every step, and
  the properties of the process life cycle that follow from it.
\<close>

subsection \<open>Start-up\<close>

lemma push_proc_ok:
  assumes inv: "sched_inv n k" and p: "loc k PCB_STATE_QUEUE p = None"
  shows "\<exists>k'. Queue_push_back (k\<lparr>p_state := (p_state k)(p := PCB_UNUSED)\<rparr>) (PQ PCB_UNUSED) p = Some k' \<and> sched_inv n k' \<and>
    p_state k' = (p_state k)(p := PCB_UNUSED) \<and> loc k' PCB_STATE_QUEUE = (loc k PCB_STATE_QUEUE)(p \<mapsto> PQ PCB_UNUSED) \<and>
    next_wq k' = next_wq k \<and> stage k' = stage k \<and> (\<forall>w. qlist k' (WQ w) = qlist k (WQ w))"
proof -
  let ?k = "k\<lparr>p_state := (p_state k)(p := PCB_UNUSED)\<rparr>"
  note I = sched_invD [OF inv]
  have "links_ok ?k" "loc ?k (q_type (PQ PCB_UNUSED)) p = None"
    using I(1) p by (simp_all add: links_ok_def)
  from Queue_push_back_links [OF this] obtain k' where k': "Queue_push_back ?k (PQ PCB_UNUSED) p = Some k'" "links_ok k'"
    "k' = ?k\<lparr>qlist := (qlist ?k)(PQ PCB_UNUSED := qlist ?k (PQ PCB_UNUSED) @ [p]),
       loc := (loc ?k)(q_type (PQ PCB_UNUSED) := (loc ?k (q_type (PQ PCB_UNUSED)))(p \<mapsto> PQ PCB_UNUSED))\<rparr>"
    by blast
  have "states_ok n k'" "futex_ok k'"
    using I(2,3) unfolding k'(3) by (simp_all add: states_ok_def futex_ok_def)
  then show ?thesis
    using k' by (auto simp: sched_inv_def)
qed

lemma proc_init_loop_ok:
  assumes "sched_inv n k" "distinct ps" "\<And>p. p \<in> set ps \<Longrightarrow> loc k PCB_STATE_QUEUE p = None"
  shows "\<exists>k'. proc_init_loop ps k = Some k' \<and> sched_inv n k' \<and> p_state k' = (\<lambda>p. if p \<in> set ps then PCB_UNUSED else p_state k p) \<and>
    loc k' PCB_STATE_QUEUE = (\<lambda>p. if p \<in> set ps then Some (PQ PCB_UNUSED) else loc k PCB_STATE_QUEUE p) \<and>
    next_wq k' = next_wq k \<and> stage k' = stage k \<and> (\<forall>w. qlist k' (WQ w) = qlist k (WQ w))"
  using assms
proof (induction ps arbitrary: k)
  case (Cons p ps)
  obtain k1 where k1: "Queue_push_back (k\<lparr>p_state := (p_state k)(p := PCB_UNUSED)\<rparr>) (PQ PCB_UNUSED) p = Some k1" "sched_inv n k1"
    "p_state k1 = (p_state k)(p := PCB_UNUSED)" "loc k1 PCB_STATE_QUEUE = (loc k PCB_STATE_QUEUE)(p \<mapsto> PQ PCB_UNUSED)"
    "next_wq k1 = next_wq k" "stage k1 = stage k" "\<forall>w. qlist k1 (WQ w) = qlist k (WQ w)"
    using push_proc_ok [OF Cons.prems(1), of p] Cons.prems(3) by auto
  have "\<And>q. q \<in> set ps \<Longrightarrow> loc k1 PCB_STATE_QUEUE q = None"
    using Cons.prems(2,3) k1(4) by auto
  from Cons.IH [OF k1(2) _ this] Cons.prems(2) k1 show ?case
    by (auto simp: Queue_push_back_atomic_def fun_eq_iff)
qed simp

text \<open>The table before the first process: nothing is used.\<close>

lemma boot_ok:
  assumes "tcb_init n (boot_sched (2 * m)) = Some k" "proc_init m (boot_ptab m k) = Some s"
  shows "sched_inv n (sched s)" "pcb_ok m (sched s)" "p_state (sched s) = (\<lambda>_. PCB_UNUSED)" "next_wq (sched s) = 2 * m"
    "stage (sched s) = (\<lambda>_. 0)" "qlist (sched s) (WQ w) = []" "\<exists>c. s = (boot_ptab m k)\<lparr>sched := sched s, next_pid := 1, count_pid := c\<rparr>"
proof -
  let ?b = "boot_sched (2 * m)"
  have b: "TCB_Q_ALL_INIT ?b = ?b"
    by (simp add: TCB_Q_ALL_INIT_def Queue_init_def boot_sched_def fun_upd_idem)
  have "sched_inv n k"
    using tcb_init_inv [of n "2 * m"] assms(1) by auto
  moreover have "tcb_init_loop [0 ..< n] ?b = Some k"
    using assms(1) b by (simp add: tcb_init_def)
  moreover have "links_ok ?b"
    by (simp add: links_ok_def boot_sched_def)
  moreover have pl: "tcb_init_loop ts a = Some a' \<Longrightarrow> pcb_part a' = pcb_part a" for ts a a'
    by (induction ts arbitrary: a) (auto simp: Option.bind_eq_Some_conv dest!: push_back_pcb)
  ultimately have k: "sched_inv n k" "p_state k = (\<lambda>_. PCB_UNUSED)" "loc k PCB_STATE_QUEUE = (\<lambda>_. None)" "next_wq k = 2 * m"
    "stage k = (\<lambda>_. 0)" "\<And>w. qlist k (WQ w) = []" "\<And>q. qlist k (PQ q) = []"
    using tcb_init_loop_inv [of ?b "[0 ..< n]"] pl [of "[0 ..< n]" ?b k]
    by (auto simp: boot_sched_def stage_def pcb_part_def fun_eq_iff)
  have "PCB_Q_ALL_INIT k = k"
    using k(7) by (simp add: PCB_Q_ALL_INIT_def Queue_init_def fun_upd_idem)
  then obtain k' where k': "proc_init_loop [0 ..< m] k = Some k'" "s = (boot_ptab m k)\<lparr>sched := k', next_pid := 1, count_pid := 0\<rparr>"
    using assms(2) by (auto simp: proc_init_def boot_ptab_def Option.bind_eq_Some_conv cong: if_cong)
  have "\<exists>k'. proc_init_loop [0 ..< m] k = Some k' \<and> sched_inv n k' \<and> p_state k' = (\<lambda>p. if p \<in> set [0 ..< m] then PCB_UNUSED else p_state k p) \<and>
    loc k' PCB_STATE_QUEUE = (\<lambda>p. if p \<in> set [0 ..< m] then Some (PQ PCB_UNUSED) else loc k PCB_STATE_QUEUE p) \<and>
    next_wq k' = next_wq k \<and> stage k' = stage k \<and> (\<forall>w. qlist k' (WQ w) = qlist k (WQ w))"
    by (rule proc_init_loop_ok [OF k(1)]) (simp_all add: k(3))
  then show "sched_inv n (sched s)" "pcb_ok m (sched s)" "p_state (sched s) = (\<lambda>_. PCB_UNUSED)" "next_wq (sched s) = 2 * m"
    "stage (sched s) = (\<lambda>_. 0)" "qlist (sched s) (WQ w) = []"
    using k'(1) k by (auto simp: k'(2) pcb_ok_def)
  show "\<exists>c. s = (boot_ptab m k)\<lparr>sched := sched s, next_pid := 1, count_pid := c\<rparr>"
    by (intro exI [of _ 0]) (simp add: k'(2))
qed

text \<open>The table with the first process and its thread only.\<close>

lemma first_process:
  assumes k: "sched_inv n k" "pcb_ok m k" "p_state k = (\<lambda>_. PCB_UNUSED)(p := PCB_USED)" "next_wq k = 2 * m" "stage k = (\<lambda>_. 0)(t := 2)"
      "\<And>w. qlist k (WQ w) = []"
    and pt: "p < m" "t < n" and s: "sched s = k" "first_child s = (\<lambda>_. None)" "dom (sib s) = {..<m}" "initproc s = Some p"
      "pid s = (\<lambda>_. 0)(p := 1)" "pid_map s = (\<lambda>_. None)(1 \<mapsto> p)" "next_pid s = 2" "t_proc s = (\<lambda>_. None)(t \<mapsto> p)" "thread_cnt s p = 1"
      "wait_parent s = (\<lambda>p. \<lparr>sem_value = 0, sem_wakeup = 0, sem_cond = chan_parent p\<rparr>)"
      "wait_self s = (\<lambda>p. \<lparr>sem_value = 0, sem_wakeup = 0, sem_cond = chan_self p\<rparr>)"
  shows "proc_inv n m \<lparr>tab = s, susp = (\<lambda>_. None)\<rparr> (\<lambda>_. [])"
proof -
  let ?x = "\<lparr>tab = s, susp = (\<lambda>_. None)\<rparr>"
  have "tree_inv m s (\<lambda>_. [])"
    using k(2,3) pt(1) s(1-4) by (auto simp: tree_inv_def family_def split: if_splits)
  moreover have "pid_inv m s"
    using k(3) pt(1) s(1,5,6,7) by (auto simp: pid_inv_def split: if_splits)
  moreover have "sems_ok m s"
    using s(10,11) by (simp add: sems_ok_def)
  moreover have "tokens_inv m (held ?x) s (\<lambda>_. [])"
    using s(10,11) by (simp add: tokens_inv_def held_def for_child_def tokens_def zombies_def)
  moreover have "{v. ((\<lambda>_. None)(t \<mapsto> p)) v = Some p \<and> ((\<lambda>_. 0)(t := 2)) v = (2 :: nat)} = {t}"
    by auto
  then have "thread_inv n m s (\<lambda>_. [])"
    unfolding thread_inv_def s(1,4,8) k(3,5) using pt s(9) by (auto split: if_splits)
  moreover have "susp_inv m ?x (\<lambda>_. [])" "queue_inv m ?x"
    using k(6) s(1) by (simp_all add: susp_inv_def queue_inv_def)
  ultimately show ?thesis
    unfolding proc_inv_def inv_with_def using k(1,4) s(1) by simp
qed

lemma start_inv:
  assumes b: "tcb_init n (boot_sched (2 * m)) = Some k0" "proc_init m (boot_ptab m k0) = Some s0" and o: "oscomp_init s0 Alloc_ok = Some s"
  shows "proc_inv n m \<lparr>tab = s, susp = (\<lambda>_. None)\<rparr> (\<lambda>_. [])"
proof -
  note B = boot_ok [OF b]
  obtain c where s0: "s0 = (boot_ptab m k0)\<lparr>sched := sched s0, next_pid := 1, count_pid := c\<rparr>"
    using B(7) by blast
  have f: "first_child s0 = (\<lambda>_. None)" "dom (sib s0) = {..<m}" "pid s0 = (\<lambda>_. 0)" "pid_map s0 = (\<lambda>_. None)" "next_pid s0 = 1"
    "t_proc s0 = (\<lambda>_. None)" "thread_cnt s0 = (\<lambda>_. 0)" "wait_parent s0 = (\<lambda>p. \<lparr>sem_value = 0, sem_wakeup = 0, sem_cond = chan_parent p\<rparr>)"
    "wait_self s0 = (\<lambda>p. \<lparr>sem_value = 0, sem_wakeup = 0, sem_cond = chan_self p\<rparr>)" "p_locked s0 = (\<lambda>_. False)"
    by (subst s0; auto simp: boot_ptab_def dom_def)+
  obtain s1 p where a: "alloc_proc s0 Alloc_ok = Some (s1, Some p)"
    using o by (auto simp: oscomp_init_def create_proc_def Option.bind_eq_Some_conv split: option.splits)
  have pop: "Queue_provide_atomic (sched s0) (PQ PCB_UNUSED) True = (Queue_remove (sched s0) p PCB_STATE_QUEUE, Some p)" "p < m"
    using pop_proc_ok [OF B(1,2)] a by (auto simp: alloc_proc_def Let_def sema_init_def Option.bind_eq_Some_conv)
  let ?k = "Queue_remove (sched s0) p PCB_STATE_QUEUE"
  obtain k1 where k1: "PCB_Q_changeState ?k p PCB_USED = Some k1" "sched_inv n k1" "pcb_ok m k1" "p_state k1 = (p_state (sched s0))(p := PCB_USED)"
    "next_wq k1 = next_wq (sched s0)" "stage k1 = stage (sched s0)" "\<And>w. qlist k1 (WQ w) = qlist (sched s0) (WQ w)"
    using change_proc_ok [OF B(1,2) pop(2), of ?k PCB_USED] by blast
  obtain h where h: "INIT_LIST_HEAD (sib s0) (Some p) = Some h" "dom h = dom (sib s0)"
    using INIT_LIST_HEAD_dll [of p "sib s0"] f(2) pop(2) by auto
  have s1: "s1 = s0\<lparr>sched := k1, pid := (pid s0)(p := 1), next_pid := 2, count_pid := count_pid s0 + 1, sib := h,
      shm_ready := (shm_ready s0)(p := True), pid_map := (pid_map s0)(1 \<mapsto> p), p_locked := (p_locked s0)(p := True)\<rparr>"
    using a pop(1) h(1) k1(1,7) B(6) f
    by (auto simp: alloc_proc_def Let_def sema_init_def Queue_init_empty Option.bind_eq_Some_conv fun_upd_idem split: if_splits)
  obtain s2 t where t: "take_thread s1 = Some (s2, Some t)"
    using o a by (auto simp: oscomp_init_def create_proc_def Option.bind_eq_Some_conv split: option.splits)
  obtain k2 where k2: "alloc_thread k1 = Some (k2, Some t)" "t < n" "stage k2 = (stage k1)(t := 1)" "sched_inv n k2" "pcb_part k2 = pcb_part k1"
    "next_wq k2 = next_wq k1" "\<And>w. qlist k2 (WQ w) = qlist k1 (WQ w)"
    using alloc_thread_ok [OF k1(2)] t s1 by (auto simp: take_thread_def)
  have "stage k2 t = 1"
    using k2(3) by simp
  from start_thread_ok [OF k2(4,2) this] obtain k3 where k3: "TCB_Q_changeState k2 t TCB_RUNNABLE = Some k3" "stage k3 = (stage k2)(t := 2)"
    "sched_inv n k3" "pcb_part k3 = pcb_part k2" "next_wq k3 = next_wq k2" "\<And>w. qlist k3 (WQ w) = qlist k2 (WQ w)"
    by blast
  have s2: "s2 = s1\<lparr>sched := k2, tid := (tid s1)(t := next_tid s1), next_tid := next_tid s1 + 1, clear_child_tid := (clear_child_tid s1)(t := 0)\<rparr>"
    using t k2(1) s1 by (simp add: take_thread_def)
  have s: "s = unlock_proc ((proc_join_thread s2 p t)\<lparr>initproc := Some p, sched := k3\<rparr>) p"
    using o a t k3(1) s2 by (simp add: oscomp_init_def create_proc_def make_runnable_def proc_join_thread_def)
  have ps: "p_state k3 = (\<lambda>_. PCB_UNUSED)(p := PCB_USED)" "pcb_ok m k3"
    using k1(3,4) B(3) pcb_ok_cong [of k3 k1] k2(5) k3(4) by (simp_all add: pcb_part_def)
  have st: "stage k3 = (\<lambda>_. 0)(t := 2)"
    using k3(2) k2(3) k1(6) B(5) by simp
  have wq: "next_wq k3 = 2 * m" "\<And>w. qlist k3 (WQ w) = []"
    using k3(5,6) k2(6,7) k1(5,7) B(4,6) by simp_all
  show ?thesis
    by (rule first_process [OF k3(3) ps(2,1) wq(1) st wq(2) pop(2) k2(2)])
      (simp_all add: s s2 s1 f h(2) unlock_proc_def proc_join_thread_def)
qed

subsection \<open>Every step keeps the invariant\<close>

lemma elsewhere_inv:
  assumes I: "proc_inv n m \<lparr>tab = s, susp = u\<rparr> kids" and st: "sched_step n (sched s) k" and e: "elsewhere m s k"
  shows "proc_inv n m \<lparr>tab = s\<lparr>sched := k\<rparr>, susp = u\<rparr> kids"
proof -
  let ?x = "\<lparr>tab = s, susp = u\<rparr>" and ?s = "s\<lparr>sched := k\<rparr>"
  note D = invD [OF I [unfolded proc_inv_def], simplified]
  note pc = sched_step_pcb [OF st]
  have c: "tree_inv m ?s kids" "p_state k = p_state (sched s)" "zombies k ps = zombies (sched s) ps" for ps
    using proc_cong [of ?s s] pc D(3) by simp_all
  have sg: "stage k t = stage (sched s) t" if "t_proc s t = Some p" for t p
    using e that by (simp add: elsewhere_def)
  have "{t. t_proc s t = Some p \<and> stage k t = 2} = {t. t_proc s t = Some p \<and> stage (sched s) t = 2}" for p
    using sg by auto
  then have "thread_inv n m ?s kids"
    using D(7) sg c(2) unfolding thread_inv_def by simp
  moreover have "susp_inv m \<lparr>tab = ?s, susp = u\<rparr> kids"
    using D(8) sg unfolding susp_inv_def by simp metis
  moreover have "set (qlist k (WQ (chan_parent p))) \<subseteq> set (qlist (sched s) (WQ (chan_parent p)))"
    "set (qlist k (WQ (chan_self p))) \<subseteq> set (qlist (sched s) (WQ (chan_self p)))" if "p < m" for p
    using e that by (simp_all add: elsewhere_def chan_parent_def chan_self_def)
  then have "queue_inv m \<lparr>tab = ?s, susp = u\<rparr>"
    using D(9) unfolding queue_inv_def by (simp add: subset_iff)
  moreover have "pid_inv m ?s" "sems_ok m ?s" "tokens_inv m (held ?x) ?s kids" "held \<lparr>tab = ?s, susp = u\<rparr> = held ?x"
    using D(4,5,6) c(2,3) by (simp_all add: pid_inv_def sems_ok_def tokens_inv_def held_def fun_eq_iff)
  ultimately show ?thesis
    unfolding proc_inv_def inv_with_def using c(1) sched_step_inv [OF st D(1)] sched_step_next_wq [OF st] D(2) by simp
qed

text \<open>A thread that was killed in its sleep exits.\<close>

lemma exit_steps:
  assumes I: "proc_inv n m x kids" and cur: "cpu_thread (sched (tab x)) cpu = Some t" and ex: "do_exit m (tab x) cpu status ok rd = Some s"
  shows "\<exists>kids'. proc_inv n m \<lparr>tab = s, susp = (susp x)(t := None)\<rparr> kids'"
proof -
  obtain p where p: "t_proc (tab x) t = Some p"
    using ex cur by (auto simp: do_exit_def Option.bind_eq_Some_conv)
  have "clear_child_tid (tab x) t = 0 \<or> ok"
    using ex cur p by (auto simp: do_exit_def exit_wakeup_def Option.bind_eq_Some_conv split: if_splits)
  moreover have "thread_cnt (tab x) p \<noteq> 1" if "initproc (tab x) = Some p"
    using ex cur p that by (auto simp: do_exit_def exit_wakeup_def exit_process_def Let_def Option.bind_eq_Some_conv split: if_splits prod.splits)
  ultimately show ?thesis
    using do_exit_ok [OF I cur p, of ok status rd] ex by auto
qed

lemma killed_inv:
  assumes I: "proc_inv n m x kids" and cur: "cpu_thread (sched (tab x)) cpu = Some t"
    and ex: "do_exit m ((tab x)\<lparr>sched := fst (cond_wait_resume (sched (tab x)) t)\<rparr>) cpu status ok rd = Some s"
  shows "\<exists>kids'. proc_inv n m (suspend x s t i Thread_exit) kids'"
proof -
  let ?s = "tab x"
  let ?k = "fst (thread_sched_resume (sched ?s) t)"
  note D = invD [OF I [unfolded proc_inv_def]]
  note C = sched_resume_calm(1) [OF D(1), of t]
  have k: "fst (cond_wait_resume (sched ?s) t) = ?k"
    by (simp add: cond_wait_resume_def case_prod_unfold Let_def)
  let ?y = "\<lparr>tab = ?s\<lparr>sched := ?k, wait_parent := wait_parent ?s, wait_self := wait_self ?s\<rparr>, susp = susp x\<rparr>"
  have c: "pcb_part ?k = pcb_part (sched ?s)" "stage ?k = stage (sched ?s)" "cpu_thread ?k = cpu_thread (sched ?s)"
    "\<And>w. set (qlist ?k (WQ w)) \<subseteq> set (qlist (sched ?s) (WQ w))"
    using C by (simp_all add: calm_def)
  have ps: "p_state ?k = p_state (sched ?s)" "zombies ?k = zombies (sched ?s)"
    using c(1) by (auto simp: pcb_part_def zombies_def fun_eq_iff)
  have "inv_with n m (held x) ?y kids"
  proof (rule stir_inv [OF I [unfolded proc_inv_def] calm_stir [OF C] refl])
    show "sems_ok m (?s\<lparr>sched := ?k, wait_parent := wait_parent ?s, wait_self := wait_self ?s\<rparr>)"
      using D(5) by (simp add: sems_ok_def)
    show "tokens_inv m (held x) (?s\<lparr>sched := ?k, wait_parent := wait_parent ?s, wait_self := wait_self ?s\<rparr>) kids"
      using D(6) ps by (simp add: tokens_inv_def)
    show "susp_inv m ?y kids"
      using D(8) c(2) by (simp add: susp_inv_def)
    show "queue_inv m ?y"
      using D(9) c(4) unfolding queue_inv_def by (simp add: subset_iff)
  qed
  moreover have "held ?y = held x"
    by (rule held_cong) simp_all
  ultimately have "proc_inv n m ?y kids"
    by (simp add: proc_inv_def)
  from exit_steps [OF this, of cpu t status ok rd s] cur c(3) ex k show ?thesis
    by (simp add: suspend_def)
qed

lemma proc_step_inv:
  assumes "proc_step n m x y" "proc_inv n m x kids"
  shows "\<exists>kids'. proc_inv n m y kids'"
  using assms(1)
proof cases
  case (clone c t a s r)
  have "proc_inv n m \<lparr>tab = tab x, susp = susp x\<rparr> kids"
    using assms(2) by (cases x) simp
  from do_clone_ok [OF this clone(4)] clone(1) show ?thesis
    by (simp add: set_tab)
next
  case (exit c t status ok rd s)
  then show ?thesis
    using exit_steps [OF assms(2) exit(2,4)] by (simp add: fun_upd_idem set_tab)
next
  case (wait c t i status rd s e)
  obtain p where p: "t_proc (tab x) t = Some p"
    using wait(2,4) by (auto simp: waitpid_def proc_current_def Option.bind_eq_Some_conv)
  have u: "susp x v = None" if "t_proc (tab x) v = Some p" for v
    using wait(3) [of v] that p by simp
  have i: "i \<noteq> 0"
    using wait(4) by (auto simp: waitpid_def Let_def Option.bind_eq_Some_conv split: if_splits)
  have "suspend x (tab x) t j (Returned (-1) None) = x" for j
    using u [OF p] by (simp add: suspend_def fun_upd_idem)
  then show ?thesis
    using waitpid_ok [OF assms(2) wait(2) p u i, of status rd] wait(1,4) assms(2) by (auto simp: wait_good_def)
next
  case (resume c t i status ok rd s e)
  obtain p where p: "t_proc (tab x) t = Some p"
    using resume(2,4) by (auto simp: waitpid_resume_def Option.bind_eq_Some_conv)
  show ?thesis
  proof (cases "t_killed (sched (tab x)) t")
    case True
    then show ?thesis
      using killed_inv [OF assms(2) resume(2), of "-1" ok rd s i] resume(1,2,4) p by (auto simp: waitpid_resume_def Option.bind_eq_Some_conv)
  next
    case False
    then show ?thesis
      using waitpid_resume_ok [OF assms(2) resume(2) p resume(3) False, of status ok rd] resume(1,4) by (auto simp: wait_good_def)
  qed
next
  case (resume_child c t i pos nxt fc status ok rd s e)
  note D = invD [OF assms(2) [unfolded proc_inv_def]]
  obtain p d where p: "t_proc (tab x) t = Some p" "pos = Some d"
    using resume_child(2,4) by (auto simp: waitpid_resume_child_def Option.bind_eq_Some_conv)
  show ?thesis
  proof (cases "t_killed (sched (tab x)) t")
    case True
    then show ?thesis
      using killed_inv [OF assms(2) resume_child(2), of "-1" ok rd s i] resume_child(1,2,4) p
      by (auto simp: waitpid_resume_child_def Option.bind_eq_Some_conv)
  next
    case False
    then show ?thesis
      using waitpid_resume_child_ok [OF assms(2) resume_child(2) p(1) resume_child(3) [unfolded p(2)] False, of status ok rd] resume_child(1,4) p(2)
      by auto
  qed
next
  case (kill p)
  have "proc_inv n m \<lparr>tab = proc_setkilled (tab x) p, susp = susp x\<rparr> kids"
    using assms(2) by (cases x) (subst proc_inv_cong [of _ "tab x"], simp_all add: proc_setkilled_def)
  then show ?thesis
    using kill by (auto simp: set_tab)
next
  case (other k)
  have "proc_inv n m \<lparr>tab = tab x, susp = susp x\<rparr> kids"
    using assms(2) by (cases x) simp
  from elsewhere_inv [OF this other(2,3)] other(1) show ?thesis
    by (auto simp: set_tab)
qed

lemma proc_reach_inv: "proc_reach n m x \<Longrightarrow> \<exists>kids. proc_inv n m x kids"
proof (induction rule: proc_reach.induct)
  case (boot k s0 s)
  then show ?case using start_inv by blast
next
  case (step x y)
  then show ?case using proc_step_inv by blast
qed

subsection \<open>The properties\<close>

lemma family_chain:
  assumes "tree_inv m s kids"
  shows "procChildrenChain m s p = Some (kids p)"
proof -
  note T = tree_invD [OF assms]
  have r: "ring (sib s) (first_child s p) (kids p)"
    by (rule familyD(1) [OF T(2)])
  show ?thesis
  proof (cases "kids p")
    case Nil
    then show ?thesis
      using r by (simp add: procChildrenChain_def)
  next
    case (Cons c cs)
    have "set (kids p) \<subseteq> {..<m}"
      using T(9) by auto
    then have "length (kids p) \<le> m"
      using familyD(3) [OF T(2), of p] by (metis card_lessThan card_mono distinct_card finite_lessThan)
    then show ?thesis
      using r Cons list_for_each_dll [of "sib s" c cs m] by (simp add: procChildrenChain_def)
  qed
qed

text \<open>C13.  In every state that the threads of all processes can reach by cloning, exiting, waiting, being killed and being
  scheduled in any order, the tree of processes is consistent: the ring of the children of each process can be walked and
  has no duplicates, a child's parent pointer names the process, a process with children is in use, every zombie and
  every process with a started thread other than init is among the children of its parent, and \<open>find_get_pid\<close> finds
  exactly the processes in use.\<close>

theorem process_tree_consistent:
  assumes "proc_reach n m x"
  shows "\<exists>kids. (\<forall>p. procChildrenChain m (tab x) p = Some (kids p) \<and> distinct (kids p)) \<and>
    (\<forall>p c. c \<in> set (kids p) \<longrightarrow> parent (tab x) c = Some p \<and> p_state (sched (tab x)) c \<noteq> PCB_UNUSED \<and>
       p_state (sched (tab x)) p = PCB_USED \<and> initproc (tab x) \<noteq> Some c) \<and>
    (\<forall>c<m. p_state (sched (tab x)) c = PCB_ZOMBIE \<longrightarrow> (\<exists>p. parent (tab x) c = Some p \<and> c \<in> set (kids p))) \<and>
    (\<forall>t c. t_proc (tab x) t = Some c \<longrightarrow> stage (sched (tab x)) t = 2 \<longrightarrow> initproc (tab x) \<noteq> Some c \<longrightarrow>
       (\<exists>p. parent (tab x) c = Some p \<and> c \<in> set (kids p))) \<and>
    (\<forall>c<m. p_state (sched (tab x)) c \<noteq> PCB_UNUSED \<longrightarrow> find_get_pid (tab x) (pid (tab x) c) = Some c) \<and>
    (\<forall>i c. find_get_pid (tab x) i = Some c \<longrightarrow> p_state (sched (tab x)) c \<noteq> PCB_UNUSED \<and> pid (tab x) c = i)"
proof -
  obtain kids where I: "proc_inv n m x kids"
    using proc_reach_inv [OF assms] by blast
  note D = invD [OF I [unfolded proc_inv_def]]
  note T = tree_invD [OF D(3)] and H = thread_invD [OF D(7)]
  have "\<exists>p. parent (tab x) c = Some p \<and> c \<in> set (kids p)" if "c < m" "p_state (sched (tab x)) c = PCB_ZOMBIE" for c
    using T(4,10) that by blast
  moreover have "\<exists>p. parent (tab x) c = Some p \<and> c \<in> set (kids p)"
    if "t_proc (tab x) t = Some c" "stage (sched (tab x)) t = 2" "initproc (tab x) \<noteq> Some c" for t c
    using H(5) [OF that] T(4) by blast
  ultimately show ?thesis
    using family_chain [OF D(3)] familyD(3) [OF T(2)] T(4,5,6,8) D(4) unfolding pid_inv_def find_get_pid_def
    by (intro exI [of _ kids] conjI allI impI) auto
qed

text \<open>C12.  \<open>waitpid\<close> never runs into its panic \<open>invalid wakeup for semaphore\<close>, nor into any other, however clones, exits, waits and
  kills interleave.  A thread of \<open>p\<close> that calls it, while no other thread of \<open>p\<close> is inside it, gets -1 if \<open>p\<close> has no child or was killed; or it
  sleeps; or it returns the id and the exit status of a zombie child, or -1 if the status cannot be stored.  The same holds
  when it runs again after it slept for any child, or for the child \<open>d\<close>.\<close>

theorem waitpid_finds_child:
  assumes r: "proc_reach n m x" and cur: "cpu_thread (sched (tab x)) cpu = Some t" "t_proc (tab x) t = Some p"
  shows "((\<forall>v. t_proc (tab x) v = Some p \<longrightarrow> susp x v = None) \<and> i \<noteq> 0 \<longrightarrow>
      (\<exists>s e cs. waitpid m (tab x) cpu i status rd = Some (s, e) \<and> procChildrenChain m (tab x) p = Some cs \<and>
        (e = Returned (-1) None \<and> s = tab x \<and> (cs = [] \<or> p_killed (tab x) p) \<or> e = On_parent \<or>
         wait_done (tab x) cs (if i < -1 then - i else i) status e))) \<and>
    (susp x t = Some (i, On_parent) \<and> \<not> t_killed (sched (tab x)) t \<longrightarrow>
      (\<exists>s e cs. waitpid_resume m (tab x) cpu i status ok rd = Some (s, e) \<and> procChildrenChain m (tab x) p = Some cs \<and>
        (e = On_parent \<or> wait_done (tab x) cs i status e))) \<and>
    (susp x t = Some (i, On_child (Some d) nxt fc) \<and> \<not> t_killed (sched (tab x)) t \<longrightarrow>
      (\<exists>s e. waitpid_resume_child m (tab x) cpu i status ok rd (Some d) nxt fc = Some (s, e) \<and>
        (e = On_child (Some d) nxt fc \<or> wait_done (tab x) [d] i status e)))"
proof -
  obtain kids where I: "proc_inv n m x kids"
    using proc_reach_inv [OF r] by blast
  have c: "procChildrenChain m (tab x) p = Some (kids p)"
    by (rule family_chain [OF invD(3) [OF I [unfolded proc_inv_def]]])
  show ?thesis
    unfolding c
    using waitpid_ok [OF I cur, of i status rd] waitpid_resume_ok [OF I cur, of i status ok rd] waitpid_resume_child_ok [OF I cur, of i d nxt fc status ok rd]
    unfolding wait_good_def by (intro conjI impI) blast+
qed

text \<open>C14.  When the last thread of a process other than init exits, and its \<open>clear_child_tid\<close> word can be written, \<open>do_exit\<close> completes: the
  process is a zombie with the status in bits 8 and up, its children, in their order, are the last children of init, their
  parent pointers name init, and the process has none left.\<close>

theorem exit_hands_children_to_init:
  assumes r: "proc_reach n m x" and cur: "cpu_thread (sched (tab x)) cpu = Some t" "t_proc (tab x) t = Some p"
    and last: "thread_cnt (tab x) p = 1" and i: "initproc (tab x) = Some init" "init \<noteq> p" and ok: "clear_child_tid (tab x) t = 0 \<or> ok"
  shows "\<exists>s' cs ds. do_exit m (tab x) cpu status ok rd = Some s' \<and> p_state (sched s') p = PCB_ZOMBIE \<and> exit_state s' p = push_bit 8 status \<and>
    procChildrenChain m (tab x) p = Some cs \<and> procChildrenChain m (tab x) init = Some ds \<and>
    procChildrenChain m s' p = Some [] \<and> procChildrenChain m s' init = Some (ds @ cs) \<and> (\<forall>c\<in>set cs. parent s' c = Some init)"
proof -
  obtain kids where I: "proc_inv n m x kids"
    using proc_reach_inv [OF r] by blast
  obtain s' where s': "do_exit m (tab x) cpu status ok rd = Some s'"
    "proc_inv n m \<lparr>tab = s', susp = (susp x)(t := None)\<rparr> (handed kids p init)" "p_state (sched s') p = PCB_ZOMBIE"
    "exit_state s' p = push_bit 8 status"
    using do_exit_ok [OF I cur ok, of status rd] i last by auto
  have T: "tree_inv m (tab x) kids" "tree_inv m s' (handed kids p init)"
    using I s'(2) by (simp_all add: proc_inv_def inv_with_def)
  have "parent s' c = Some init" if "c \<in> set (kids p)" for c
    using tree_invD(4) [OF T(2), of c init] that i(2) by (simp add: handed_def)
  then show ?thesis
    using s' family_chain [OF T(1)] family_chain [OF T(2)] i(2)
    by (intro exI [of _ s'] exI [of _ "kids p"] exI [of _ "kids init"]) (simp add: handed_def)
qed

text \<open>A wait for any child whose status cannot be stored leaves everything but the token as it was.\<close>

lemma wait_loop_fault:
  "wait_loop f s p c i (Some False) rd pos n first flag = Some (s', e) \<Longrightarrow> i \<le> 0 \<Longrightarrow> s' = s \<and> e = Returned (-1) None"
proof (induction f arbitrary: pos n flag)
  case (Suc f)
  then show ?case
    by (auto simp: reap_def Option.bind_eq_Some_conv split: if_splits)
qed simp

text \<open>With a token there is a zombie; with none, \<open>waitpid\<close> goes to sleep.\<close>

lemma token_zombie:
  assumes I: "proc_inv n m x kids" and p: "p < m" "p_state (sched (tab x)) p = PCB_USED" and v: "0 < sem_value (wait_parent (tab x) p)"
  obtains c where "c \<in> set (kids p)" "p_state (sched (tab x)) c = PCB_ZOMBIE"
proof -
  note D = invD [OF I [unfolded proc_inv_def]]
  have "1 \<le> tokens (wait_parent (tab x) p)"
    using v sems_okD(3) [OF D(5) p(1)] by (simp add: tokens_def)
  then have "1 \<le> zombies (sched (tab x)) (kids p)"
    using tokens_invD(1) [OF D(6) p] held_le1(2) [of x p] by simp
  then show ?thesis
    using that by (auto simp: zombies_def filter_empty_conv Suc_le_eq)
qed

lemma waitpid_sleeps:
  assumes "sched_inv n (sched s)" "cpu_thread (sched s) cpu = Some t" "proc_current s cpu = Some p" "\<not> nochildren s p" "\<not> proc_killed s p"
    and S: "sem_cond (wait_parent s p) < next_wq (sched s)" "sem_value (wait_parent s p) \<le> 0" and i: "i \<noteq> 0"
  shows "\<exists>s'. waitpid m s cpu i status rd = Some (s', On_parent)"
proof -
  obtain k where "sema_wait (sched s) (wait_parent s p) cpu 0 rd = Some (k, (wait_parent s p)\<lparr>sem_value := sem_value (wait_parent s p) - 1\<rparr>, Blocked)"
    using wait_ok(2) [OF assms(1) S(1) assms(2), of rd] S(2) by auto
  then show ?thesis
    using assms(3-5) i by (simp add: waitpid_def)
qed

text \<open>C40.  If the exit status cannot be stored, \<open>waitpid\<close> returns -1 but has consumed the token of the zombie: the zombie stays in
  the table, and if it is the only one, the next \<open>waitpid\<close> of its parent goes to sleep.\<close>

theorem fault_loses_zombie:
  assumes r: "proc_reach n m x" and cur: "cpu_thread (sched (tab x)) cpu = Some t" "t_proc (tab x) t = Some p"
    and u: "\<forall>v. t_proc (tab x) v = Some p \<longrightarrow> susp x v = None" and nk: "\<not> p_killed (tab x) p" and v: "sem_value (wait_parent (tab x) p) = 1"
  shows "\<exists>s'. waitpid m (tab x) cpu (-1) (Some False) rd = Some (s', Returned (-1) None) \<and>
    (\<exists>c. parent s' c = Some p \<and> p_state (sched s') c = PCB_ZOMBIE) \<and>
    (\<exists>s''. waitpid m s' cpu (-1) status rd' = Some (s'', On_parent))"
proof -
  obtain kids where I: "proc_inv n m x kids"
    using proc_reach_inv [OF r] by blast
  note D = invD [OF I [unfolded proc_inv_def]]
  note T = tree_invD [OF D(3)] and H = thread_invD [OF D(7)]
  let ?s = "tab x" and ?S = "wait_parent (tab x) p"
  have p: "p < m" "p_state (sched ?s) p = PCB_USED" "proc_current ?s cpu = Some p"
    using H(1,4) [OF cur(2)] running_stage [OF D(1) cur(1)] cur by (auto simp: proc_current_def)
  note S = sems_okD [OF D(5) p(1)]
  obtain c where c: "c \<in> set (kids p)" "p_state (sched ?s) c = PCB_ZOMBIE"
    by (rule token_zombie [OF I p(1,2)]) (use v in simp)
  have ch: "\<not> nochildren ?s p" "\<not> proc_killed ?s p"
    using familyD(4) [OF T(2), of p] c(1) nk by (auto simp: nochildren_def proc_killed_def)
  have w: "sem_cond ?S < next_wq (sched ?s)"
    using S(1) p(1) D(2) by (simp add: chan_parent_def)
  let ?S' = "?S\<lparr>sem_value := 0\<rparr>"
  let ?s' = "?s\<lparr>sched := sched ?s, wait_parent := (wait_parent ?s)(p := ?S')\<rparr>"
  have "sema_wait (sched ?s) ?S cpu 0 rd = Some (sched ?s, ?S', Passed)"
    using wait_ok(1) [OF D(1) w cur(1)] v by simp
  then have run: "waitpid m ?s cpu (-1) (Some False) rd = wait_children m ?s' p cpu (-1) (Some False) rd"
    using p(3) ch by (simp add: waitpid_def)
  have "wait_good n m x kids p t (-1) (Some False) (waitpid m ?s cpu (-1) (Some False) rd)"
    using waitpid_ok [OF I cur, of "-1" "Some False" rd] u nk c(1) by auto
  then obtain s1 e where e: "wait_children m ?s' p cpu (-1) (Some False) rd = Some (s1, e)"
    unfolding run wait_good_def by blast
  then have "s1 = ?s'" "e = Returned (-1) None"
    using wait_loop_fault [of m ?s' p cpu "-1" rd] by (auto simp: wait_children_def Let_def Option.bind_eq_Some_conv)
  moreover have "\<exists>s''. waitpid m ?s' cpu (-1) status rd' = Some (s'', On_parent)"
    by (rule waitpid_sleeps [of n _ _ t p]) (use D(1) cur(1) w p(3) ch in \<open>simp_all add: proc_current_def nochildren_def proc_killed_def\<close>)
  moreover have "parent ?s' c = Some p" "p_state (sched ?s') c = PCB_ZOMBIE"
    using T(4) [OF c(1)] c(2) by simp_all
  ultimately show ?thesis
    using run e by (intro exI [of _ ?s']) auto
qed

text \<open>Three more facts on single functions.  \<open>get_current_procs\<close> counts modulo 256, while the table has 500 entries.  A clone that
  finds no free thread leaves the lock of the process it took held, and the next \<open>alloc_proc\<close> that takes this process
  never returns.  And \<open>waitpid\<close> for one child takes whichever zombie comes first.\<close>

lemma count_procs_eq: "count_procs s ps c = c + of_nat (length (filter (\<lambda>p. p_state (sched s) p \<noteq> PCB_UNUSED) ps))"
  by (induction ps arbitrary: c) auto

lemma get_current_procs_wraps: "unat (get_current_procs m s) = card {p. p < m \<and> p_state (sched s) p \<noteq> PCB_UNUSED} mod 256"
proof -
  have "length (filter (\<lambda>p. p_state (sched s) p \<noteq> PCB_UNUSED) [0 ..< m]) = card {p. p < m \<and> p_state (sched s) p \<noteq> PCB_UNUSED}"
    by (subst distinct_card [symmetric]) (auto intro: arg_cong [of _ _ card])
  then show ?thesis
    by (simp add: get_current_procs_def count_procs_eq unat_of_nat)
qed

lemma no_thread_locks_process:
  assumes "alloc_proc s Alloc_ok = Some (s1, Some p)" "take_thread s1 = Some (s2, None)" "free_proc s2 p = Some s3"
  shows "create_proc s Alloc_ok = Some (s3, None)" "p_locked s3 p"
    "Queue_provide_atomic (sched s') (PQ PCB_UNUSED) True = (k, Some p) \<Longrightarrow> p_locked s' p \<Longrightarrow> alloc_proc s' r = None"
proof -
  have "p_locked s1 p"
    using assms(1) by (auto simp: alloc_proc_def sema_init_def Let_def Option.bind_eq_Some_conv split: prod.splits option.splits)
  moreover have "p_locked s2 = p_locked s1"
    using assms(2) by (auto simp: take_thread_def Let_def Option.bind_eq_Some_conv split: option.splits)
  moreover have "p_locked s3 = p_locked s2"
    using assms(3) by (auto simp: free_proc_def Let_def Option.bind_eq_Some_conv)
  ultimately show "p_locked s3 p"
    by simp
qed (use assms in \<open>simp_all add: create_proc_def alloc_proc_def\<close>)

subsection \<open>A run\<close>

text \<open>Three processes and threads on two CPUs: init clones a process, which clones another and exits.\<close>

lemma schedule_elsewhere:
  assumes inv: "sched_inv n (sched s)"
  shows "elsewhere m s (thread_scheduler (sched s) c)"
proof (cases "qlist (sched s) (TQ TCB_RUNNABLE)")
  case Nil
  then show ?thesis
    by (simp add: thread_scheduler_def Queue_provide_atomic_def Queue_pop_def Queue_isempty_def elsewhere_def)
next
  case (Cons t ts)
  note I = sched_invD [OF inv]
  have l: "loc (sched s) TCB_STATE_QUEUE t = Some (TQ TCB_RUNNABLE)"
    using links_okD(2) [OF I(1), of t "TQ TCB_RUNNABLE"] Cons by simp
  then have "t < n"
    using states_okD(2) [OF I(2), of t] by (metis leI option.distinct(1))
  then have "t_state (sched s) t = TCB_RUNNABLE"
    using states_okD(1) [OF I(2)] l by (auto simp: home_def split: if_splits)
  then have "stage (thread_scheduler (sched s) c) = stage (sched s)"
    using pop_remove(1) [OF I(1) Cons] by (auto simp: thread_scheduler_def stage_def)
  moreover have "qlist (thread_scheduler (sched s) c) (WQ w) = qlist (sched s) (WQ w)" for w
    using pop_remove [OF I(1) Cons] by (simp add: thread_scheduler_def)
  ultimately show ?thesis
    by (simp add: elsewhere_def)
qed

definition idle_sys :: "ptab \<Rightarrow> psys" where "idle_sys s = \<lparr>tab = s, susp = (\<lambda>_. None)\<rparr>"

lemma schedule_step:
  assumes "proc_reach n m (idle_sys s)" "cpu_thread (sched s) c = None"
  shows "proc_reach n m (idle_sys (s\<lparr>sched := thread_scheduler (sched s) c\<rparr>))"
proof -
  have "sched_inv n (sched s)"
    using proc_reach_inv [OF assms(1)] by (auto simp: proc_inv_def inv_with_def idle_sys_def)
  then have "elsewhere m s (thread_scheduler (sched s) c)"
    by (rule schedule_elsewhere)
  then have "proc_step n m (idle_sys s) ((idle_sys s)\<lparr>tab := (tab (idle_sys s))\<lparr>sched := thread_scheduler (sched s) c\<rparr>\<rparr>)"
    using sched_step.schedule [OF assms(2), of n] by (intro proc_step.other) (simp_all add: idle_sys_def)
  from proc_reach.step [OF assms(1) this] show ?thesis
    by (simp add: idle_sys_def)
qed

lemma clone_step:
  assumes "proc_reach n m (idle_sys s)" "cpu_thread (sched s) c = Some t" "\<not> Option.is_none (do_clone s c a)"
  shows "proc_reach n m (idle_sys (fst (the (do_clone s c a))))"
proof -
  obtain s' r where s': "do_clone s c a = Some (s', r)"
    using assms(3) by (auto simp: Option.is_none_def)
  have "proc_step n m (idle_sys s) (idle_sys s')"
    using proc_step.clone [of "idle_sys s" c t a s' r n m] assms(2) s' by (simp add: idle_sys_def set_tab)
  with assms(1) s' show ?thesis
    using proc_reach.step by fastforce
qed

lemma exit_step:
  assumes "proc_reach n m (idle_sys s)" "cpu_thread (sched s) c = Some t" "\<not> Option.is_none (do_exit m s c status ok rd)"
  shows "proc_reach n m (idle_sys (the (do_exit m s c status ok rd)))"
proof -
  obtain s' where s': "do_exit m s c status ok rd = Some s'"
    using assms(3) by (auto simp: Option.is_none_def)
  have "proc_step n m (idle_sys s) (idle_sys s')"
    using proc_step.exit [of "idle_sys s" c t m status ok rd s' n] assms(2) s' by (simp add: idle_sys_def set_tab)
  with assms(1) s' show ?thesis
    using proc_reach.step by fastforce
qed

definition fork_args :: clone_args where
  "fork_args = \<lparr>CLONE_THREAD = False, CLONE_CHILD_SETTID = False, CLONE_CHILD_CLEARTID = False, CLONE_PARENT_SETTID = False, ctid = 0,
     allocs = Alloc_ok, frame_ok = True, ctid_ok = True, ptid_ok = True, vm_ok = True\<rparr>"

definition run_threads :: ksched where "run_threads = the (tcb_init 3 (boot_sched (2 * 3)))"
definition run_table :: ptab where "run_table = the (proc_init 3 (boot_ptab 3 run_threads))"
definition run_init :: ptab where "run_init = the (oscomp_init run_table Alloc_ok)"
definition run_first :: ptab where "run_first = run_init\<lparr>sched := thread_scheduler (sched run_init) 0\<rparr>"
definition run_child :: ptab where "run_child = fst (the (do_clone run_first 0 fork_args))"
definition run_both :: ptab where "run_both = run_child\<lparr>sched := thread_scheduler (sched run_child) 1\<rparr>"
definition run_grand :: ptab where "run_grand = fst (the (do_clone run_both 1 fork_args))"
definition run_exit :: ptab where "run_exit = the (do_exit 3 run_grand 1 7 True 0)"

lemma run_reach: "proc_reach 3 3 (idle_sys run_grand)" "proc_reach 3 3 (idle_sys run_exit)"
proof -
  have b1: "tcb_init 3 (boot_sched (2 * 3)) = Some run_threads"
    unfolding run_threads_def by (rule not_none_the) code_simp
  have b2: "proc_init 3 (boot_ptab 3 run_threads) = Some run_table"
    unfolding run_table_def by (rule not_none_the) code_simp
  have b3: "oscomp_init run_table Alloc_ok = Some run_init"
    unfolding run_init_def by (rule not_none_the) code_simp
  have 0: "proc_reach 3 3 (idle_sys run_init)"
    unfolding idle_sys_def by (rule proc_reach.boot [OF b1 b2 b3])
  have c: "cpu_thread (sched run_init) 0 = None" "cpu_thread (sched run_first) 0 = Some 0" "cpu_thread (sched run_child) 1 = None"
    "cpu_thread (sched run_both) 1 = Some 1" "cpu_thread (sched run_grand) 1 = Some 1"
    by code_simp+
  have 1: "proc_reach 3 3 (idle_sys run_first)"
    unfolding run_first_def by (rule schedule_step [OF 0 c(1)])
  have 2: "proc_reach 3 3 (idle_sys run_child)"
    unfolding run_child_def by (rule clone_step [OF 1 c(2)]) code_simp
  have 3: "proc_reach 3 3 (idle_sys run_both)"
    unfolding run_both_def by (rule schedule_step [OF 2 c(3)])
  show 4: "proc_reach 3 3 (idle_sys run_grand)"
    unfolding run_grand_def by (rule clone_step [OF 3 c(4)]) code_simp
  show "proc_reach 3 3 (idle_sys run_exit)"
    unfolding run_exit_def by (rule exit_step [OF 4 c(5)]) code_simp
qed

theorem process_tree_consistent_witness:
  "\<exists>kids :: nat \<Rightarrow> nat list. procChildrenChain 3 run_exit 0 = Some (kids 0) \<and> distinct (kids 0) \<and> kids 0 = [1, 2] \<and> find_get_pid run_exit 3 = Some 2"
proof -
  have "procChildrenChain 3 run_exit 0 = Some [1, 2]" "find_get_pid run_exit 3 = Some 2"
    by code_simp+
  moreover obtain kids where "\<forall>p. procChildrenChain 3 run_exit p = Some (kids p) \<and> distinct (kids p)"
    using process_tree_consistent [OF run_reach(2)] by (auto simp: idle_sys_def)
  ultimately show ?thesis
    by (intro exI [of _ kids]) (metis option.inject)
qed

theorem waitpid_finds_child_witness:
  "\<exists>s e cs. waitpid 3 run_exit 0 (-1) (Some True) 0 = Some (s, e) \<and> procChildrenChain 3 run_exit 0 = Some cs \<and>
    wait_done run_exit cs (-1) (Some True) e \<and> e = Returned 2 (Some 1792)"
proof -
  have c: "cpu_thread (sched (tab (idle_sys run_exit))) 0 = Some 0" "t_proc (tab (idle_sys run_exit)) 0 = Some 0"
    by code_simp+
  have e: "map_option snd (waitpid 3 run_exit 0 (-1) (Some True) 0) = Some (Returned 2 (Some 1792))"
    by code_simp
  show ?thesis
    using waitpid_finds_child [OF run_reach(2) c, of "-1" "Some True" 0 False 0 None None] e by (auto simp: idle_sys_def)
qed

theorem exit_hands_children_to_init_witness:
  "\<exists>s'. do_exit 3 run_grand 1 7 True 0 = Some s' \<and> p_state (sched s') 1 = PCB_ZOMBIE \<and> exit_state s' 1 = push_bit 8 7 \<and>
    procChildrenChain 3 s' 1 = Some [] \<and> procChildrenChain 3 s' 0 = Some [1, 2] \<and> parent s' 2 = Some 0"
proof -
  have c: "cpu_thread (sched (tab (idle_sys run_grand))) 1 = Some 1" "t_proc (tab (idle_sys run_grand)) 1 = Some 1"
    "thread_cnt (tab (idle_sys run_grand)) 1 = 1" "initproc (tab (idle_sys run_grand)) = Some 0" "(0::nat) \<noteq> 1"
    by code_simp+
  have k: "procChildrenChain 3 run_grand 1 = Some [2]" "procChildrenChain 3 run_grand 0 = Some [1]"
    by code_simp+
  show ?thesis
    using exit_hands_children_to_init [OF run_reach(1) c disjI2 [OF TrueI], of 7 0] k by (auto simp: idle_sys_def)
qed

text \<open>After the first child has exited, a wait for the second returns the first.\<close>

lemma wait_for_other_child:
  "pid run_exit 2 = 3 \<and> map_option snd (waitpid 3 run_exit 0 3 (Some True) 0) = Some (Returned 2 (Some 1792))"
  by code_simp

theorem fault_loses_zombie_witness:
  "\<exists>s'. waitpid 3 run_exit 0 (-1) (Some False) 0 = Some (s', Returned (-1) None) \<and>
    (\<exists>c. parent s' c = Some 0 \<and> p_state (sched s') c = PCB_ZOMBIE) \<and> (\<exists>s''. waitpid 3 s' 0 (-1) None 0 = Some (s'', On_parent))"
proof -
  have c: "cpu_thread (sched (tab (idle_sys run_exit))) 0 = Some 0" "t_proc (tab (idle_sys run_exit)) 0 = Some 0"
    "\<not> p_killed (tab (idle_sys run_exit)) 0" "sem_value (wait_parent (tab (idle_sys run_exit)) 0) = 1"
    by code_simp+
  show ?thesis
    using fault_loses_zombie [OF run_reach(2) c(1,2) _ c(3,4), of 0 None 0] by (auto simp: idle_sys_def)
qed

end
