(* ===== verification/Spec2Isabelle.thy ===== *)
theory Spec2Isabelle
  imports ListHead Spinlock Allocator Buddy Kalloc Cstring Timer Sched RadixTree HashTable PhysMem PageTable Translation Vma UserMem Semaphore Pipe
    Fat FatMount FatFile FatDir FatLookup FatGrow FileMap FileRead FileWrite FileSync InodeSync UserCopy Signal ProcReach
begin

text \<open>
  Verification of the core of the AVX kernel, a Unix-like kernel for RISC-V written in C.  Paths below are relative to the root of the
  repository; the kernel is in \<open>src/\<close> and \<open>include/\<close>.

  \<^bold>\<open>The program.\<close>  Physical memory is divided into one buddy pool per hart (\<open>src/mm/buddy.c\<close>) behind \<open>kmalloc\<close>, \<open>kalloc\<close>,
  \<open>kfree\<close> (\<open>src/mm/kalloc.c\<close>).  On top of it are the Sv39 page tables (\<open>src/mm/vm.c\<close>), the areas of an address
  space and \<open>mmap\<close> (\<open>vma.c\<close>, \<open>mmap.c\<close>), page faults with copy on write (\<open>pagefault.c\<close>) and the copies between
  kernel and user memory.  Threads are kept in queues by state and scheduled from them (\<open>src/proc/sched.c\<close>); sleeping goes through
  condition variables, semaphores and futexes (\<open>src/atomic\<close>), time-outs through kernel timers (\<open>src/lib/timer.c\<close>).  Pipes and signals
  (\<open>src/ipc\<close>) use semaphores, user copies and the allocator.  Processes (\<open>src/proc/pcb_life.c\<close>) form a tree; a parent waits for its children on
  semaphores that they signal when they exit.  The FAT32 file system (\<open>src/fs/fat32\<close>) keeps the FAT and a cluster
  bitmap in memory and maps file ranges to disk blocks.  Radix trees, hash tables, lists, queues and string routines are in \<open>src/lib\<close>.

  \<^bold>\<open>Conventions.\<close>  A failed \<open>ASSERT\<close>, a \<open>panic\<close> and an access outside an array are the value \<^const>\<open>None\<close> of an option; so a
  statement that a result is \<open>Some\<close> says that the kernel does not stop there.  Error codes and null pointers are values inside.  Words of
  the program are \<open>word\<close>s where they can wrap around, and numbers elsewhere, with the reason given in the theory.  A loop that may not end is a
  \<open>partial_function\<close>, and the theorems about it state that it returns.  Locks are left out in sequential models; where interleaving is
  the point (spin locks, scheduler, semaphores) the model is a step relation with invariants over reachable states.  Linking a thread into a wait queue, which the
  code does without the lock of the queue, is one action there.

  \<^bold>\<open>Theories.\<close>
  \<^item> \<open>Prelude\<close>: machine types, \<open>ASSERT\<close>, blocks of pages, list lemmas.
  \<^item> \<open>ListHead\<close>: \<open>include/lib/list.h\<close> on a heap of nodes; each operation refines a list operation.
  \<^item> \<open>Spinlock\<close>: \<open>src/atomic/spinlock.c\<close>; interrupt nesting, and mutual exclusion over all interleavings.
  \<^item> \<open>Tiling\<close>, \<open>Allocator\<close>: the geometry of buddies, and the contract of a block allocator as the locale \<open>block_allocator\<close>.
  \<^item> \<open>Buddy\<close>: \<open>src/mm/buddy.c\<close>, split and merge loops included, with the pool invariant; it interprets the locale.
  \<^item> \<open>Kalloc\<close>: \<open>src/mm/kalloc.c\<close>; requests over several pools with stealing, reference counts, the counters, \<open>mm_init\<close>.  The reclaim
    callback \<open>alloc_fail\<close> is an argument.
  \<^item> \<open>Cstring\<close>: \<open>src/lib/string.c\<close>, \<open>ctype.c\<close> on a byte memory.
  \<^item> \<open>Timer\<close>: \<open>src/lib/timer.c\<close>.
  \<^item> \<open>Sched\<close>: \<open>queue.c\<close>, \<open>sched.c\<close>, \<open>cond.c\<close>, \<open>futex.c\<close>, parts of \<open>tcb_life.c\<close>: thread states and queues; the step relation of threads, harts
    and the clock; the queues agree with the states in every reachable state.  A wake-up is two steps, taking a thread off its wait queue and waking
    it; freed futex queues, \<open>do_exit_group\<close> and timers of woken threads are in the model, with the states in which they stop the kernel.
  \<^item> \<open>MapStore\<close>: the contract of a keyed store as the locale \<open>map_store\<close>; \<open>RadixTree\<close> (\<open>radix-tree.c\<close>) and \<open>HashTable\<close> (\<open>hash.c\<close>, names up to the size
    of a node's key) interpret it.
  \<^item> \<open>PhysMem\<close>, \<open>PageTable\<close>, \<open>Translation\<close>: \<open>vm.c\<close> on physical memory, and the map from virtual addresses to leaves that a table represents.
  \<^item> \<open>Vma\<close>: \<open>vma.c\<close>, \<open>mmap.c\<close>; areas stay disjoint, and what each call does to the area of every address.
  \<^item> \<open>UserMem\<close>, \<open>UserCopy\<close>: \<open>pagefault.c\<close>, \<open>pcb_mm.c\<close>, \<open>mm.c\<close>, \<open>uvmcopy\<close>, \<open>copyout\<close>; copy on write, and the round trip of user copies.
  \<^item> \<open>Semaphore\<close>: \<open>semaphore.c\<close> over \<open>Sched\<close>; balance of tokens; no wake-up is lost but for one per killed waiter.
  \<^item> \<open>Pipe\<close>: \<open>pipe.c\<close>, \<open>sbuf.c\<close>; rings with wrapping counters as interpretations of the locale \<open>bounded_fifo\<close>.
  \<^item> \<open>Fat\<close>, \<open>FatMount\<close>, \<open>FatFile\<close>: \<open>fat32_disk.c\<close> and the cluster side of \<open>fat32_inode.c\<close>; mounting, write-back, allocation, chains, block
    mapping, truncation.
  \<^item> \<open>FatDir\<close>, \<open>FatLookup\<close>: the directory side of \<open>fat32_inode.c\<close> and \<open>fat32_stack.c\<close>; entries as bytes, long and short names, lookup through the
    hash table of \<open>HashTable\<close> and the hint, creation and deletion of entries against the list of the files of a directory.
  \<^item> \<open>FatGrow\<close>, \<open>FileMap\<close>: block mapping that extends a file; the page cache, \<open>filemap.c\<close>, \<open>mpage.c\<close> and reading and writing of an inode, over \<open>RadixTree\<close>
    and \<open>Fat\<close>.  \<open>FileRead\<close>, \<open>FileWrite\<close>, \<open>FileSync\<close>: what a reader gets from pages, read-ahead and disk requests, and how far
    the double counting of progress lets it read; what a write does to the bytes of the
    file and when it loses some; that write-back brings all bytes to disk and touches only the
    clusters the file has afterwards.  These were not marked in the bitmap; the code can leave clusters in use unmarked.
  \<^item> \<open>InodeSync\<close>: the directory entry of an inode, \<open>fat32_inode_update\<close>, \<open>fat32_inode_load_from_disk\<close>, \<open>sync_inode\<close>; an inode loaded after a write-back has the bytes
    it had.  At the end of this theory: data written to a file is read back from disk through all these components.
  \<^item> \<open>Process\<close>: \<open>pcb_life.c\<close>: the process table, the rings of children, \<open>do_clone\<close>, \<open>do_exit\<close>, \<open>reparent\<close>, \<open>waitpid\<close>, over \<open>Sched\<close>, \<open>Semaphore\<close> and the nodes of
    \<open>ListHead\<close>.  \<open>ProcTree\<close>: what each operation does to the lists of children; \<open>ProcSched\<close>: to threads, process queues and tokens; \<open>ProcLife\<close>: the steps of all
    threads, the invariant of the table, and \<open>waitpid\<close>; \<open>ProcExit\<close>, \<open>ProcClone\<close>: \<open>do_exit\<close> and \<open>do_clone\<close> keep the invariant; \<open>ProcReach\<close>: it holds in every reachable
    state, so the tree is consistent, \<open>waitpid\<close> finds the child it was woken for, and an exiting process hands its children to init.
  \<^item> \<open>Signal\<close>: \<open>signal.c\<close> with \<open>sys_rt_sigreturn\<close>; the pending queue, delivery with its frame in user memory, return.

  \<^bold>\<open>Fuel and bounds.\<close>  \<open>uvmunmap\<close>, \<open>uvmalloc\<close> and \<open>uvmdealloc\<close> call each other; the depth 3 the model uses is enough because the calls
  below a 2MB leaf work on 4KB pages.  \<open>freewalk\<close> has the three levels of a table.  The loop of \<open>fat32_get_block\<close> has one turn more than there
  are blocks to map, and each turn maps one at least.  The wake-up loops of condition variables and futexes have the length of the queue.
  The loops over the children of a process have the size of the process table as fuel, and each turn is for another child.
  The radix tree is shown correct for indices below \<open>64 ^ 5\<close>, where the shift of an \<open>int\<close> in \<open>radix_tree_maxindex\<close> is defined.

  \<^bold>\<open>Not modelled.\<close>  Listing of directories, the table of inodes, the write-back daemon, the buffer cache (\<open>bio.c\<close>)
  and the virtual file system; of processes, program loading (\<open>exec.c\<close>), open files, working directory and interval timer; the argument fetching of the
  system calls (\<open>sys*.c\<close>); sockets, \<open>select\<close>, shared memory; formatted output.  Drivers, start-up code and assembler talk to devices; \<open>kcsan.c\<close>
  is instrumentation the compiler calls; \<open>apps/\<close>, \<open>user/\<close>, \<open>oscomp_user/\<close>, \<open>support/\<close> and \<open>busybox/\<close> are user programs and third-party code.
\<close>

section \<open>Properties that span components\<close>

text \<open>C1. A write survives: data appended to a regular file, within a page, then write-back of the inode, then loading the inode again from the directory entry without
  any cached page, and a read at the offset: it returns the data.  The components that take part are the page cache, the radix tree, the cluster allocation, the
  FAT, the disk requests and the directory entry.\<close>

theorem written_data_survives:
  assumes "file_inv ip cs" "S_ISREG (i_mode ip)" "off \<le> i_size ip" "i_size ip < off + n" "data \<noteq> []" "length data = unat n" "unat off mod PGSIZE + unat n \<le> PGSIZE"
      "unat off + unat n \<le> 2 ^ 32 - PGSIZE" "space (i_sb ip) cs (page_up (unat off + unat n))" "\<not> i_writeback ip"
      "cached ip (unat off div PGSIZE) \<or> unat off mod PGSIZE = 0 \<or> unat off mod PGSIZE \<le> unat (i_size ip) mod PGSIZE"
    and "file_inv dirp pds" "i_sb dirp = i_sb ip" "disk dirp = disk ip" "slot_ok x dirp" "other_file (i_sb ip) cs (hd pds) pds"
      "page_up (unat (parent_off x) * 32 + 32) \<le> length pds * cluster_size (i_sb ip)"
    and "\<And>i k. kz i k \<noteq> 0" "\<And>i. 0 < fr i" "i_ino x \<noteq> ROOT_INO" "i_rdev x = 0" "f_Attr x \<noteq> 0" "\<not> DIR_BOOL (f_Attr x)" "cluster_start (i_fat ip) \<noteq> root"
    and "blank ip0" "parent_off x0 = parent_off x"
  shows "\<exists>ip1 ip2 parent2 x' ip3 parent3 ip4. fat32_inode_write kz (source data) ip off n = Some (ip1, int (unat n)) \<and>
    sync_inode kz fr True x ip1 (share ip1 dirp) = Some (ip2, parent2, 0) \<and> fat32_inode_load_from_disk kz fr root True x0 ip0 parent2 = Some (x', ip3, parent3, 1) \<and>
    fat32_inode_read kz fr (\<lambda>p l. True) ip3 off n = Some (ip4, int (unat n), data)"
proof -
  let ?o = "unat off" and ?k = "unat n"
  have k: "0 < ?k" using assms(5) unfolding assms(6) [symmetric] by simp
  have n31: "n < 2 ^ 31" using assms(7) by (simp add: word_less_nat_alt PGSIZE_def)
  have skip: "kept ip (byte_at ip cs) ?k ?o (unat (i_size ip)) = byte_at ip cs"
    using assms(7,11) by (auto simp: kept_def skips_read_def WRITE_FULL_PAGE_def OUT_FILE_def)
  obtain ip1 ns where w: "fat32_inode_write kz (source data) ip off n = Some (ip1, int ?k)" "file_inv ip1 (cs @ ns)"
    "unat (i_size ip1) = max (unat (i_size ip)) (?o + ?k)" "\<forall>p<unat (i_size ip1). byte_at ip1 (cs @ ns) p = overwrite (byte_at ip cs) ?o data p"
    "grows (i_sb ip) cs ns (i_sb ip1)" "space (i_sb ip1) (cs @ ns) (page_up (?o + ?k))" "disk ip1 = disk ip" "i_mode ip1 = i_mode ip" "i_writeback ip1 = i_writeback ip"
    "dirty ip1 (?o div PGSIZE)" "i_size ip < i_size ip1 \<longrightarrow> dirty_in_parent ip1"
    using inode_write_bytes [where kz = kz, OF assms(1) disjI1 [OF assms(2)] assms(3,5,6) n31 assms(8,9,18), unfolded skip] by (elim exE conjE) (rule that)
  have on: "unat (off + n) = ?o + ?k" "off \<le> off + n" using assms(8) by (auto simp: word_le_nat_alt unat_word_ariths PGSIZE_def)
  have sz: "unat (i_size ip1) = ?o + ?k" "i_size ip < i_size ip1" using w(3) assms(4) on by (auto simp: word_less_nat_alt)
  have V: "volume_inv ip1 (cs @ ns)" "stored (i_sb ip) (i_fat ip) cs" using w(2) assms(1) by (auto simp: file_inv_def volume_inv_def)
  have gy: "same_geometry (i_sb ip) (i_sb ip1)" "other_file (i_sb ip1) (cs @ ns) (hd pds) pds" using w(5) assms(16) by (auto simp: grows_def)
  have fb: "file_bytes (disk ip1) (i_sb ip1) pds = file_bytes (disk dirp) (i_sb ip) pds" using geometry_bytes(2) [OF gy(1)] w(7) assms(14) by simp
  note P = other_inv [OF assms(12,13) w(5) V(1) assms(16) fb]
  have st: "cluster_start (i_fat ip1) = cluster_start (i_fat ip)" using V by (auto simp: volume_inv_def stored_def file_ok_def)
  have "\<exists>ip' dirp' x' ip'' dirp'' cs'. sync_inode kz fr True x ip1 (share ip1 dirp) = Some (ip', dirp', 0) \<and>
    fat32_inode_load_from_disk kz fr root True x0 ip0 dirp' = Some (x', ip'', dirp'', 1) \<and>
    file_inv ip'' cs' \<and> i_size ip'' = i_size ip1 \<and> (\<forall>p<unat (i_size ip1). byte_at ip'' cs' p = byte_at ip1 (cs @ ns) p)"
    by (rule sync_load_ok [OF w(2,10) _ _ _ _ P(1)]) (use w gy assms st sz P(3) geometry_bytes(3) [OF gy(1)] in \<open>auto simp: share_def slot_ok_def\<close>)
  then obtain ip2 par2 x' ip3 par3 cs' where s: "sync_inode kz fr True x ip1 (share ip1 dirp) = Some (ip2, par2, 0)"
    "fat32_inode_load_from_disk kz fr root True x0 ip0 par2 = Some (x', ip3, par3, 1)" "file_inv ip3 cs'" "i_size ip3 = i_size ip1"
    "\<forall>p<unat (i_size ip1). byte_at ip3 cs' p = byte_at ip1 (cs @ ns) p" by (elim exE conjE) (rule that)
  have "\<not> (?o < i * PGSIZE \<and> i * PGSIZE < ?o + ?k)" for i
  proof
    assume i: "?o < i * PGSIZE \<and> i * PGSIZE < ?o + ?k"
    have "?o div PGSIZE * PGSIZE + ?o mod PGSIZE = ?o" by (rule div_mult_mod_eq)
    then have "?o div PGSIZE * PGSIZE < i * PGSIZE" "i * PGSIZE < Suc (?o div PGSIZE) * PGSIZE" using i assms(7) unfolding mult_Suc by linarith+
    then show False by (simp only: mult_less_cancel2) linarith
  qed
  then have l: "late_misses fr ip3 ?o ?k = {}" by (intro late_misses_within) (meson not_less)
  obtain ip4 m where r: "fat32_inode_read kz fr (\<lambda>p l. True) ip3 off n = Some (ip4, int m, map (byte_at ip3 cs') [?o ..< ?o + m])" "m = min ?k (unat (i_size ip3) - ?o)"
    using inode_read_ok [where kz = kz and fr = fr and out = "\<lambda>p l. True" and off = off and n = n, OF s(3) _ _ on(2) n31 assms(18,19)] l sz s(4) k
    by (auto simp: word_less_nat_alt)
  have "map (byte_at ip3 cs') [?o ..< ?o + m] = data" using r(2) s(4,5) sz(1) w(4) assms(6) by (intro nth_equalityI) (auto simp: overwrite_def)
  moreover have "m = ?k" using r(2) s(4) sz(1) by simp
  ultimately have "fat32_inode_write kz (source data) ip off n = Some (ip1, int ?k) \<and> sync_inode kz fr True x ip1 (share ip1 dirp) = Some (ip2, par2, 0) \<and>
    fat32_inode_load_from_disk kz fr root True x0 ip0 par2 = Some (x', ip3, par3, 1) \<and> fat32_inode_read kz fr (\<lambda>p l. True) ip3 off n = Some (ip4, int ?k, data)"
    using w(1) s(1,2) r(1) by simp
  then show ?thesis by (intro exI)
qed

theorem written_data_survives_witness:
  "\<exists>ip1 ip2 parent2 x' ip3 parent3 ip4. fat32_inode_write (\<lambda>i k. 0x80000000) (source [1, 2, 3]) (sync_file 2 4090) 4090 3 = Some (ip1, int (unat (3 :: 32 word))) \<and>
    sync_inode (\<lambda>i k. 0x80000000) (\<lambda>i. 1) True sync_info ip1 (share ip1 (sync_file 3 4096)) = Some (ip2, parent2, 0) \<and>
    fat32_inode_load_from_disk (\<lambda>i k. 0x80000000) (\<lambda>i. 1) 9 True sync_info empty_inode parent2 = Some (x', ip3, parent3, 1) \<and>
    fat32_inode_read (\<lambda>i k. 0x80000000) (\<lambda>i. 1) (\<lambda>p l. True) ip3 4090 3 = Some (ip4, int (unat (3 :: 32 word)), [1, 2, 3])"
  by (rule written_data_survives [where cs = "[2]" and pds = "[3]"]) (simp_all add: sync_file_inv sync_instance [simplified] PGSIZE_def)

end
